(* ===== verification/Prelude.thy ===== *)
theory Prelude
  imports Main "HOL-Library.Word" "HOL-Library.Multiset" "HOL-Library.Monad_Syntax"
begin

text \<open>
  Shared vocabulary of the development: the machine integer types of the sources, the
  result of a call that may block on a condition variable, the neighbour functions on
  duplicate-free lists that the linked structures are related to, and the collections of
  simplification rules the component theories fill.
\<close>

named_theorems queue_defs \<open>definitions of the queue operations\<close>
named_theorems list_defs \<open>definitions of the linked-list operations\<close>

section \<open>Machine integers\<close>

type_synonym u8 = "8 word"
type_synonym u16 = "16 word"
type_synonym u32 = "32 word"
type_synonym u64 = "64 word"
type_synonym bytes = "8 word list"

section \<open>Calls that may block\<close>

text \<open>
  A call that takes a mutex and waits on a condition variable either finds its predicate
  false, and goes to sleep, or runs its critical section to the end and returns.
\<close>

datatype ('r, 's) outcome = Blocked | Done 'r 's

primrec returns :: "('r, 's) outcome \<Rightarrow> bool" where
  "returns Blocked = False"
| "returns (Done r s) = True"

lemma returns_iff: "returns x \<longleftrightarrow> x \<noteq> Blocked"
  by (cases x) auto

lemma outcome_cases:
  obtains (Blocked) "x = Blocked" | (Done) r s where "x = Done r s"
  by (cases x) auto

section \<open>Neighbours in a duplicate-free list\<close>

fun next_in :: "'a list \<Rightarrow> 'a \<Rightarrow> 'a option" where
  "next_in [] a = None"
| "next_in [x] a = None"
| "next_in (x # y # zs) a = (if a = x then Some y else next_in (y # zs) a)"

definition prev_in :: "'a list \<Rightarrow> 'a \<Rightarrow> 'a option" where
  "prev_in xs a = next_in (rev xs) a"

lemma next_in_notin [simp]: "a \<notin> set xs \<Longrightarrow> next_in xs a = None"
  by (induction xs a rule: next_in.induct) auto

lemma next_in_Cons: "next_in (x # xs) a =
    (if a = x then (case xs of [] \<Rightarrow> None | y # _ \<Rightarrow> Some y) else next_in xs a)"
  by (cases xs) auto

lemma next_in_mem: "next_in xs a = Some b \<Longrightarrow> a \<in> set xs \<and> b \<in> set xs"
  by (induction xs a rule: next_in.induct) (auto split: if_splits)

lemma next_in_snoc:
  "distinct (xs @ [b]) \<Longrightarrow> next_in (xs @ [b]) a =
     (if xs \<noteq> [] \<and> a = last xs then Some b else next_in xs a)"
  by (induction xs a rule: next_in.induct) auto

lemma next_in_last: "distinct xs \<Longrightarrow> xs \<noteq> [] \<Longrightarrow> next_in xs (last xs) = None"
  by (induction xs rule: induct_list012) auto

lemma next_in_None_iff:
  "distinct xs \<Longrightarrow> a \<in> set xs \<Longrightarrow> next_in xs a = None \<longleftrightarrow> a = last xs"
  by (induction xs a rule: next_in.induct) auto

lemma next_in_neq: "distinct xs \<Longrightarrow> next_in xs a = Some b \<Longrightarrow> a \<noteq> b"
  by (induction xs a rule: next_in.induct) (auto split: if_splits)

text \<open>Unlinking one element: its predecessor inherits its successor.\<close>

lemma next_in_remove:
  "distinct xs \<Longrightarrow> a \<noteq> x \<Longrightarrow> next_in (removeAll x xs) a =
     (if next_in xs a = Some x then next_in xs x else next_in xs a)"
proof (induction xs a rule: next_in.induct)
  case (3 u v zs a)
  show ?case
  proof (cases "a = u")
    case True
    then show ?thesis using 3 by (cases zs) (auto simp: next_in_Cons removeAll_filter_not_eq)
  next
    case False
    have IH: "next_in (removeAll x (v # zs)) a =
        (if next_in (v # zs) a = Some x then next_in (v # zs) x else next_in (v # zs) a)"
      using 3 False by simp
    show ?thesis
    proof (cases "x = u")
      case True
      then have "next_in (v # zs) a \<noteq> Some u" using 3(2) by (auto dest!: next_in_mem)
      moreover have "removeAll u (v # zs) = v # zs" using 3(2) by simp
      ultimately show ?thesis using True False by simp
    next
      case xu: False
      have "next_in (u # removeAll x (v # zs)) a = next_in (removeAll x (v # zs)) a"
        using False by (simp add: next_in_Cons)
      then show ?thesis using IH False xu by simp
    qed
  qed
qed auto

lemma prev_in_notin [simp]: "a \<notin> set xs \<Longrightarrow> prev_in xs a = None"
  by (simp add: prev_in_def)

lemma prev_in_mem: "prev_in xs a = Some b \<Longrightarrow> a \<in> set xs \<and> b \<in> set xs"
  by (auto simp: prev_in_def dest: next_in_mem)

lemma prev_in_remove:
  "distinct xs \<Longrightarrow> a \<noteq> x \<Longrightarrow> prev_in (removeAll x xs) a =
     (if prev_in xs a = Some x then prev_in xs x else prev_in xs a)"
  by (simp add: prev_in_def removeAll_filter_not_eq rev_filter)
     (metis distinct_rev next_in_remove removeAll_filter_not_eq)

lemma prev_in_snoc:
  "prev_in (xs @ [b]) a =
     (if a = b then (if xs = [] then None else Some (last xs)) else prev_in xs a)"
  by (cases xs rule: rev_cases) (auto simp: prev_in_def next_in_Cons)

lemma prev_in_None_iff:
  "distinct xs \<Longrightarrow> a \<in> set xs \<Longrightarrow> prev_in xs a = None \<longleftrightarrow> a = hd xs"
  unfolding prev_in_def
  by (subst next_in_None_iff) (auto simp: last_rev)

lemma prev_next_in: "distinct xs \<Longrightarrow> prev_in xs b = Some a \<longleftrightarrow> next_in xs a = Some b"
proof (induction xs rule: rev_induct)
  case (snoc x xs)
  then show ?case
    by (auto simp: prev_in_snoc next_in_snoc next_in_last dest: next_in_mem prev_in_mem)
qed (simp add: prev_in_def)

lemma next_in_inj:
  "distinct xs \<Longrightarrow> next_in xs a = Some b \<Longrightarrow> next_in xs c = Some b \<Longrightarrow> a = c"
  by (metis option.inject prev_next_in)

text \<open>The ends of a list as optional elements, and what they are after an unlinking.\<close>

definition hd_opt :: "'a list \<Rightarrow> 'a option" where
  "hd_opt xs = (case xs of [] \<Rightarrow> None | y # _ \<Rightarrow> Some y)"

definition last_opt :: "'a list \<Rightarrow> 'a option" where
  "last_opt xs = hd_opt (rev xs)"

lemma hd_opt_simps [simp]: "hd_opt [] = None" "hd_opt (x # xs) = Some x"
  by (simp_all add: hd_opt_def)

lemma last_opt_simps [simp]: "last_opt [] = None" "last_opt (xs @ [x]) = Some x"
  by (simp_all add: last_opt_def)

lemma hd_opt_eq: "hd_opt xs = (if xs = [] then None else Some (hd xs))"
  by (cases xs) auto

lemma last_opt_eq: "last_opt xs = (if xs = [] then None else Some (last xs))"
  by (cases xs rule: rev_cases) auto

lemma hd_opt_remove:
  "distinct xs \<Longrightarrow> hd_opt (removeAll x xs) =
   (if hd_opt xs = Some x then next_in xs x else hd_opt xs)"
  by (cases xs) (auto simp: next_in_Cons split: list.splits)

lemma last_opt_remove:
  "distinct xs \<Longrightarrow> last_opt (removeAll x xs) =
   (if last_opt xs = Some x then prev_in xs x else last_opt xs)"
  by (simp add: last_opt_def prev_in_def removeAll_filter_not_eq rev_filter)
     (metis distinct_rev hd_opt_remove removeAll_filter_not_eq)

lemma next_in_split: "distinct (us @ b # vs) \<Longrightarrow> next_in (us @ b # vs) b = hd_opt vs"
  by (induction us) (auto simp: next_in_Cons hd_opt_def split: list.splits)

lemma prev_in_split: "distinct (us @ b # vs) \<Longrightarrow> prev_in (us @ b # vs) b = last_opt us"
  using next_in_split [of "rev vs" b "rev us"] by (auto simp: prev_in_def last_opt_def)

section \<open>Generic lemmas\<close>

lemma filter_removeAll: "filter P (removeAll x xs) = removeAll x (filter P xs)"
  by (simp add: removeAll_filter_not_eq conj_commute)

lemma bind_Some_iff: "Option.bind x f = Some y \<longleftrightarrow> (\<exists>z. x = Some z \<and> f z = Some y)"
  by (cases x) auto

lemma finite_card_insert_le: "finite A \<Longrightarrow> card (insert a A) \<le> Suc (card A)"
  by (simp add: card_insert_if)

text \<open>A table of running jobs, a list of pairs with distinct keys, and the end of one of them.\<close>

lemma filter_remove1_other:
  "fst r \<noteq> q \<Longrightarrow> filter (\<lambda>r. fst r = q) (remove1 r xs) = filter (\<lambda>r. fst r = q) xs"
  by (induction xs) auto

lemma filter_only:
  "distinct (map fst xs) \<Longrightarrow> r \<in> set xs \<Longrightarrow> filter (\<lambda>u. fst u = fst r) xs = [r] \<and>
     filter (\<lambda>u. fst u = fst r) (remove1 r xs) = []"
  by (induction xs) (force simp: filter_empty_conv)+

lemma fst_remove1:
  "distinct (map fst xs) \<Longrightarrow> r \<in> set xs \<Longrightarrow> fst ` set (remove1 r xs) = fst ` set xs - {fst r}"
  by (induction xs) (auto simp: image_iff)

lemma distinct_fst_remove1: "distinct (map fst xs) \<Longrightarrow> distinct (map fst (remove1 r xs))"
proof (induction xs)
  case (Cons x xs)
  have "fst ` set (remove1 r xs) \<subseteq> fst ` set xs" using set_remove1_subset by fast
  then show ?case using Cons by auto
qed simp

end
