(* ===== verification/Object_Pool.thy ===== *)
theory Object_Pool
  imports Prelude
begin

text \<open>
  The three object pools of object_pool.hpp: the shared-pointer pool (a stack of objects),
  the unique-pointer pool (a queue of raw blocks) and the chunked pool with an intrusive free
  list that the serial task queue takes its nodes from. Addresses are numbers; malloc and
  operator new hand out addresses at and above a high-water mark, so never one that was handed
  out before. All three implement the same interface, the locale object_store.
\<close>

type_synonym addr = nat

section \<open>ObjectPoolNode: chunks and an intrusive free list\<close>

text \<open>
  A slot of a chunk either holds the link of the free list (the code overlays a FreeNode on the
  object's memory) or a constructed object.
\<close>

(* src: object_pool.hpp 123-125 ObjectPoolNode::FreeNode *)
datatype 'a cell = FreeNode "addr option" | Obj 'a

(* src: object_pool.hpp 192-198 ObjectPoolNode *)
record 'a node_pool =
  free_list :: "addr option"
  memory_base :: "addr option"
  chunk_size :: nat
  capacity :: nat
  blocks :: "addr list"
  mem :: "addr \<Rightarrow> 'a cell option"
  heap_top :: addr

text \<open>The loop that links the slots of a new chunk: current walks from slot to slot.\<close>

(* src: object_pool.hpp 179-184 ObjectPoolNode::allocate_new_chunk *)
fun link_chunk :: "addr \<Rightarrow> nat \<Rightarrow> nat \<Rightarrow> addr \<Rightarrow> (addr \<Rightarrow> 'a cell option) \<Rightarrow>
    addr \<times> (addr \<Rightarrow> 'a cell option)" where
  "link_chunk base i 0 current m = (current, m)"
| "link_chunk base i (Suc n) current m =
     link_chunk base (Suc i) n (base + i) (m(current \<mapsto> FreeNode (Some (base + i))))"

(* src: object_pool.hpp 170-190 ObjectPoolNode::allocate_new_chunk *)
definition allocate_new_chunk :: "nat \<Rightarrow> 'a node_pool \<Rightarrow> 'a node_pool" where
  "allocate_new_chunk n p =
     (let base = heap_top p;
          (current, m) = link_chunk base 1 (n - 1) base (mem p)
      in p\<lparr>mem := m(current \<mapsto> FreeNode (free_list p)), free_list := Some base,
           memory_base := Some base, blocks := blocks p @ [base],
           capacity := capacity p + n, heap_top := base + n\<rparr>)"

(* src: object_pool.hpp 128-131 ObjectPoolNode::ObjectPoolNode *)
definition new_node_pool :: "nat \<Rightarrow> nat \<Rightarrow> 'a node_pool" where
  "new_node_pool preallocate chunk =
     allocate_new_chunk preallocate
       \<lparr>free_list = None, memory_base = None, chunk_size = chunk, capacity = preallocate,
        blocks = [], mem = Map.empty, heap_top = 0\<rparr>"

text \<open>Reading the link of a free slot; a slot that holds an object has no link to read.\<close>

definition free_next :: "'a node_pool \<Rightarrow> addr \<Rightarrow> addr option" where
  "free_next p a = (case mem p a of Some (FreeNode nx) \<Rightarrow> nx | _ \<Rightarrow> None)"

(* src: object_pool.hpp 141-155 ObjectPoolNode::allocate *)
definition pool_allocate :: "'a \<Rightarrow> 'a node_pool \<Rightarrow> addr \<times> 'a node_pool" where
  "pool_allocate v p =
     (let p1 = (if free_list p = None then allocate_new_chunk (chunk_size p) p else p);
          a = the (free_list p1);
          p2 = p1\<lparr>free_list := free_next p1 a\<rparr>
      in (a, p2\<lparr>mem := (mem p2)(a \<mapsto> Obj v)\<rparr>))"

(* src: object_pool.hpp 157-166 ObjectPoolNode::deallocate *)
definition pool_deallocate :: "addr \<Rightarrow> 'a node_pool \<Rightarrow> 'a node_pool" where
  "pool_deallocate a p =
     p\<lparr>mem := (mem p)(a \<mapsto> FreeNode (free_list p)), free_list := Some a\<rparr>"

text \<open>The constructed objects, and an assignment through a pointer to one of them.\<close>

definition objs :: "'a node_pool \<Rightarrow> addr \<Rightarrow> 'a option" where
  "objs p a = (case mem p a of Some (Obj v) \<Rightarrow> Some v | _ \<Rightarrow> None)"

definition pool_write :: "addr \<Rightarrow> 'a \<Rightarrow> 'a node_pool \<Rightarrow> 'a node_pool" where
  "pool_write a v p = p\<lparr>mem := (mem p)(a \<mapsto> Obj v)\<rparr>"

text \<open>The free list as a list of addresses, and the pool's representation invariant.\<close>

fun free_chain :: "(addr \<Rightarrow> 'a cell option) \<Rightarrow> addr option \<Rightarrow> addr list \<Rightarrow> bool" where
  "free_chain m s [] \<longleftrightarrow> s = None"
| "free_chain m s (a # as) \<longleftrightarrow> s = Some a \<and> (\<exists>nx. m a = Some (FreeNode nx) \<and> free_chain m nx as)"

definition node_pool_inv :: "'a node_pool \<Rightarrow> bool" where
  "node_pool_inv p \<longleftrightarrow> chunk_size p > 0 \<and> (\<forall>a \<in> dom (mem p). a < heap_top p) \<and>
     (\<exists>as. free_chain (mem p) (free_list p) as \<and> distinct as \<and>
           set as = {a. \<exists>nx. mem p a = Some (FreeNode nx)})"

section \<open>ObjectPool and ObjectPoolUni\<close>

text \<open>
  ObjectPool keeps released objects on a stack and constructs over the top one; ObjectPoolUni
  destroys a released object, keeps the raw block in a queue and constructs in the front one.
  The record has the addresses handed out by operator new or malloc so far, below sp_top, with
  the object last constructed at each.
\<close>

(* src: object_pool.hpp 63-67 ObjectPool *)
record 'a stack_pool =
  sp_size :: nat
  sp_pool :: "addr list"
  sp_mem :: "addr \<Rightarrow> 'a option"
  sp_top :: addr

text \<open>The constructor's loop pushes capacity default objects, dflt.\<close>

(* src: object_pool.hpp 23-29 ObjectPool::ObjectPool *)
definition new_stack_pool :: "'a \<Rightarrow> nat \<Rightarrow> 'a stack_pool" where
  "new_stack_pool dflt n = \<lparr>sp_size = n, sp_pool = rev [0..<n],
     sp_mem = (\<lambda>a. if a < n then Some dflt else None), sp_top = n\<rparr>"

(* src: object_pool.hpp 32-56 ObjectPool::acquire *)
definition stack_acquire :: "'a \<Rightarrow> 'a stack_pool \<Rightarrow> addr \<times> 'a stack_pool" where
  "stack_acquire v p =
     (case sp_pool p of
        [] \<Rightarrow> (sp_top p, p\<lparr>sp_size := sp_size p + 1, sp_mem := (sp_mem p)(sp_top p \<mapsto> v),
                          sp_top := sp_top p + 1\<rparr>)
      | a # rest \<Rightarrow> (a, p\<lparr>sp_pool := rest, sp_mem := (sp_mem p)(a \<mapsto> v)\<rparr>))"

(* src: object_pool.hpp 58-61 ObjectPool::release *)
definition stack_release :: "addr \<Rightarrow> 'a stack_pool \<Rightarrow> 'a stack_pool" where
  "stack_release a p = p\<lparr>sp_pool := a # sp_pool p\<rparr>"

definition stack_live :: "'a stack_pool \<Rightarrow> addr \<Rightarrow> 'a option" where
  "stack_live p a = (if a \<in> set (sp_pool p) then None else sp_mem p a)"

definition stack_pool_inv :: "'a stack_pool \<Rightarrow> bool" where
  "stack_pool_inv p \<longleftrightarrow> distinct (sp_pool p) \<and> (\<forall>a. sp_mem p a \<noteq> None \<longleftrightarrow> a < sp_top p) \<and>
     set (sp_pool p) \<subseteq> {..<sp_top p} \<and> sp_size p = sp_top p"

(* src: object_pool.hpp 114-117 ObjectPoolUni *)
record 'a uni_pool =
  up_pool :: "addr list"
  up_mem :: "addr \<Rightarrow> 'a option"
  up_top :: addr

(* src: object_pool.hpp 76-112 ObjectPoolUni::acquire *)
definition uni_acquire :: "'a \<Rightarrow> 'a uni_pool \<Rightarrow> addr \<times> 'a uni_pool" where
  "uni_acquire v p =
     (case up_pool p of
        a # rest \<Rightarrow> (a, p\<lparr>up_pool := rest, up_mem := (up_mem p)(a \<mapsto> v)\<rparr>)
      | [] \<Rightarrow> (up_top p, p\<lparr>up_mem := (up_mem p)(up_top p \<mapsto> v), up_top := up_top p + 1\<rparr>))"

(* src: object_pool.hpp 78-86 ObjectPoolUni::acquire *)
definition uni_deleter :: "addr \<Rightarrow> 'a uni_pool \<Rightarrow> 'a uni_pool" where
  "uni_deleter a p = p\<lparr>up_mem := (up_mem p)(a := None), up_pool := up_pool p @ [a]\<rparr>"

definition uni_pool_inv :: "'a uni_pool \<Rightarrow> bool" where
  "uni_pool_inv p \<longleftrightarrow> distinct (up_pool p) \<and>
     (\<forall>a \<in> set (up_pool p). up_mem p a = None \<and> a < up_top p) \<and>
     (\<forall>a. up_mem p a \<noteq> None \<longrightarrow> a < up_top p)"

section \<open>The interface\<close>

text \<open>
  What a client of a pool relies on: an allocation returns an address at which no object lives,
  constructs there, and leaves every other object alone; a release ends the life of that one
  object. Clients release only what they hold.
\<close>

locale object_store =
  fixes alloc :: "'v \<Rightarrow> 's \<Rightarrow> addr \<times> 's"
    and dealloc :: "addr \<Rightarrow> 's \<Rightarrow> 's"
    and live :: "'s \<Rightarrow> addr \<Rightarrow> 'v option"
    and sinv :: "'s \<Rightarrow> bool"
  assumes alloc_fresh: "sinv s \<Longrightarrow> alloc v s = (a, s') \<Longrightarrow> live s a = None"
    and alloc_live: "sinv s \<Longrightarrow> alloc v s = (a, s') \<Longrightarrow> live s' = (live s)(a \<mapsto> v)"
    and alloc_inv: "sinv s \<Longrightarrow> alloc v s = (a, s') \<Longrightarrow> sinv s'"
    and dealloc_live: "sinv s \<Longrightarrow> live s a \<noteq> None \<Longrightarrow> live (dealloc a s) = (live s)(a := None)"
    and dealloc_inv: "sinv s \<Longrightarrow> live s a \<noteq> None \<Longrightarrow> sinv (dealloc a s)"
begin

lemma alloc_dealloc: "sinv s \<Longrightarrow> alloc v s = (a, s') \<Longrightarrow> live (dealloc a s') = live s"
  using alloc_fresh [of s v a s'] alloc_live [of s v a s'] alloc_inv [of s v a s']
  by (subst dealloc_live) (auto simp: fun_eq_iff)

lemma two_allocs_differ:
  "sinv s \<Longrightarrow> alloc v s = (a, s1) \<Longrightarrow> alloc w s1 = (b, s2) \<Longrightarrow> a \<noteq> b \<and> live s2 a = Some v"
  using alloc_fresh [of s1 w b s2] alloc_live [of s v a s1] alloc_inv [of s v a s1]
    alloc_live [of s1 w b s2]
  by auto

text \<open>A node released by the client can be released no second time without breaking the law.\<close>

lemma dealloc_all:
  "sinv s \<Longrightarrow> distinct as \<Longrightarrow> (\<forall>a \<in> set as. live s a \<noteq> None) \<Longrightarrow>
     sinv (fold dealloc as s) \<and>
     live (fold dealloc as s) = (\<lambda>a. if a \<in> set as then None else live s a)"
proof (induction as arbitrary: s)
  case (Cons a as)
  then have d: "sinv (dealloc a s)" "live (dealloc a s) = (live s)(a := None)"
    by (auto simp: dealloc_inv dealloc_live)
  have "\<forall>b \<in> set as. live (dealloc a s) b \<noteq> None"
    using Cons.prems by (auto simp: d(2))
  with Cons.prems(2) have "sinv (fold dealloc as (dealloc a s))"
    "live (fold dealloc as (dealloc a s)) = (\<lambda>b. if b \<in> set as then None else live (dealloc a s) b)"
    using Cons.IH [OF d(1)] by auto
  then show ?case by (simp add: d(2) fun_eq_iff)
qed simp

end

text \<open>A store whose objects the client also assigns to.\<close>

locale object_store_rw = object_store alloc dealloc live sinv
  for alloc :: "'v \<Rightarrow> 's \<Rightarrow> addr \<times> 's" and dealloc live sinv +
  fixes assign :: "addr \<Rightarrow> 'v \<Rightarrow> 's \<Rightarrow> 's"
  assumes assign_live: "sinv s \<Longrightarrow> live s a \<noteq> None \<Longrightarrow> live (assign a v s) = (live s)(a \<mapsto> v)"
    and assign_inv: "sinv s \<Longrightarrow> live s a \<noteq> None \<Longrightarrow> sinv (assign a v s)"
begin

lemma assign_dom: "sinv s \<Longrightarrow> live s a \<noteq> None \<Longrightarrow> dom (live (assign a v s)) = dom (live s)"
  by (auto simp: assign_live dom_def)

end

section \<open>The pools implement the interface\<close>

lemma free_chain_upd: "a \<notin> set as \<Longrightarrow> free_chain (m(a := x)) s as = free_chain m s as"
  by (induction as arbitrary: s) auto

lemma free_chain_cells: "free_chain m s as \<Longrightarrow> a \<in> set as \<Longrightarrow> \<exists>nx. m a = Some (FreeNode nx)"
  by (induction as arbitrary: s) auto

lemma free_chain_cong:
  "(\<And>a. a \<in> set as \<Longrightarrow> m a = m' a) \<Longrightarrow> free_chain m s as = free_chain m' s as"
  by (induction as arbitrary: s) auto

lemma link_chunk_spec:
  "link_chunk base i n current m = (current', m') \<Longrightarrow> Suc current = base + i \<Longrightarrow>
     Suc current' = base + i + n \<and>
     m' = (\<lambda>a. if current \<le> a \<and> a < current + n then Some (FreeNode (Some (Suc a))) else m a)"
proof (induction n arbitrary: i current m)
  case (Suc n)
  have "Suc current' = base + Suc i + n \<and>
     m' = (\<lambda>a. if base + i \<le> a \<and> a < base + i + n then Some (FreeNode (Some (Suc a)))
               else (m(current \<mapsto> FreeNode (Some (base + i)))) a)"
    by (rule Suc.IH [OF Suc.prems(1) [unfolded link_chunk.simps]]) simp
  moreover have "(\<lambda>a. if base + i \<le> a \<and> a < base + i + n then Some (FreeNode (Some (Suc a)))
               else (m(current \<mapsto> FreeNode (Some (base + i)))) a) =
      (\<lambda>a. if current \<le> a \<and> a < current + Suc n then Some (FreeNode (Some (Suc a))) else m a)"
  proof
    fix a
    consider "a < current" | "a = current" | "base + i \<le> a" using Suc.prems(2) by linarith
    then show "(if base + i \<le> a \<and> a < base + i + n then Some (FreeNode (Some (Suc a)))
               else (m(current \<mapsto> FreeNode (Some (base + i)))) a) =
      (if current \<le> a \<and> a < current + Suc n then Some (FreeNode (Some (Suc a))) else m a)"
      using Suc.prems(2) by cases auto
  qed
  ultimately show ?case by simp
next
  case 0
  then show ?case by (auto simp: fun_eq_iff)
qed

lemma free_chain_upt:
  assumes "\<And>a. lo \<le> a \<Longrightarrow> a < lo + n \<Longrightarrow> m a = Some (FreeNode (Some (a + 1)))"
    and "m (lo + n) = Some (FreeNode s)" and "free_chain m s as"
  shows "free_chain m (Some lo) ([lo..<lo + n] @ (lo + n) # as)"
  using assms
proof (induction n arbitrary: lo)
  case (Suc n)
  have "free_chain m (Some (Suc lo)) ([Suc lo..<Suc lo + n] @ (Suc lo + n) # as)"
    using Suc.prems by (intro Suc.IH) auto
  moreover have "[lo..<lo + Suc n] = lo # [Suc lo..<Suc lo + n]"
    by (simp add: upt_conv_Cons)
  ultimately show ?case using Suc.prems(1) [of lo] by simp
qed simp

lemma allocate_new_chunk_mem:
  "0 < n \<Longrightarrow> mem (allocate_new_chunk n p) =
     (\<lambda>a. if heap_top p \<le> a \<and> a < heap_top p + n - 1 then Some (FreeNode (Some (a + 1)))
          else if a = heap_top p + n - 1 then Some (FreeNode (free_list p)) else mem p a)"
proof -
  assume n: "0 < n"
  obtain c m where cm: "link_chunk (heap_top p) 1 (n - 1) (heap_top p) (mem p) = (c, m)"
    by (cases "link_chunk (heap_top p) 1 (n - 1) (heap_top p) (mem p)")
  have "Suc c = heap_top p + n" "m = (\<lambda>a. if heap_top p \<le> a \<and> a < heap_top p + (n - 1)
      then Some (FreeNode (Some (Suc a))) else mem p a)"
    using link_chunk_spec [OF cm] n by auto
  then have "c = heap_top p + n - 1" "m = (\<lambda>a. if heap_top p \<le> a \<and> a < heap_top p + n - 1
      then Some (FreeNode (Some (a + 1))) else mem p a)"
    using n by auto
  then show ?thesis by (simp add: allocate_new_chunk_def Let_def cm [simplified] fun_eq_iff)
qed

lemma allocate_new_chunk_simps [simp]:
  "free_list (allocate_new_chunk n p) = Some (heap_top p)"
  "chunk_size (allocate_new_chunk n p) = chunk_size p"
  "heap_top (allocate_new_chunk n p) = heap_top p + n"
  "blocks (allocate_new_chunk n p) = blocks p @ [heap_top p]"
  "capacity (allocate_new_chunk n p) = capacity p + n"
  by (auto simp: allocate_new_chunk_def Let_def split: prod.splits)

lemma allocate_new_chunk_inv:
  assumes "node_pool_inv p" "0 < n"
  shows "node_pool_inv (allocate_new_chunk n p)" "objs (allocate_new_chunk n p) = objs p"
proof -
  from assms(1) obtain as where as: "free_chain (mem p) (free_list p) as" "distinct as"
      "set as = {a. \<exists>nx. mem p a = Some (FreeNode nx)}"
    and top: "\<forall>a \<in> dom (mem p). a < heap_top p"
    by (auto simp: node_pool_inv_def)
  let ?lo = "heap_top p"
  let ?m = "mem (allocate_new_chunk n p)"
  let ?as = "[?lo..<?lo + (n - 1)] @ (?lo + (n - 1)) # as"
  have old2: "a < ?lo" if "mem p a = Some c" for a c using that top by auto
  have old: "a < ?lo" if "a \<in> set as" for a using that as(3) top by auto
  have m: "?m = (\<lambda>a. if ?lo \<le> a \<and> a < ?lo + n - 1 then Some (FreeNode (Some (a + 1)))
          else if a = ?lo + n - 1 then Some (FreeNode (free_list p)) else mem p a)"
    using assms(2) by (rule allocate_new_chunk_mem)
  have "free_chain ?m (free_list p) as = free_chain (mem p) (free_list p) as"
    using old assms(2) by (intro free_chain_cong) (auto simp: m dest: old)
  then have "free_chain ?m (Some ?lo) ?as"
    using as(1) assms(2) by (intro free_chain_upt) (auto simp: m)
  moreover have "distinct ?as" using as(2) old by fastforce
  moreover have "set ?as = {a. \<exists>nx. ?m a = Some (FreeNode nx)}"
    using assms(2) as(3) by (auto simp: m)
  moreover have "\<forall>a \<in> dom ?m. a < ?lo + n" using assms(2) by (auto simp: m dom_def split: if_splits dest: old2)
  ultimately show "node_pool_inv (allocate_new_chunk n p)"
    using assms(1) unfolding node_pool_inv_def by auto
  show "objs (allocate_new_chunk n p) = objs p"
    using assms(2) by (auto simp: objs_def m fun_eq_iff split: option.splits cell.splits dest: old2)
qed

lemma pool_allocate_nonempty:
  assumes "node_pool_inv p" "free_list p = Some a"
  shows "node_pool_inv (p\<lparr>free_list := free_next p a, mem := (mem p)(a \<mapsto> Obj v)\<rparr>)"
    and "objs p a = None" and "a \<in> dom (mem p)"
proof -
  from assms obtain as where as: "free_chain (mem p) (Some a) as" "distinct as"
      "set as = {a. \<exists>nx. mem p a = Some (FreeNode nx)}"
    and top: "\<forall>a \<in> dom (mem p). a < heap_top p"
    by (auto simp: node_pool_inv_def)
  from as(1) obtain nx bs where bs: "as = a # bs" "mem p a = Some (FreeNode nx)"
      "free_chain (mem p) nx bs"
    by (cases as) auto
  from bs show "objs p a = None" "a \<in> dom (mem p)" by (auto simp: objs_def)
  have "free_next p a = nx" using bs by (simp add: free_next_def)
  then show "node_pool_inv (p\<lparr>free_list := free_next p a, mem := (mem p)(a \<mapsto> Obj v)\<rparr>)"
    using assms(1) as(2,3) bs top unfolding node_pool_inv_def
    by (auto intro!: exI [of _ bs] simp: free_chain_upd)
qed

interpretation np: object_store_rw pool_allocate pool_deallocate objs node_pool_inv pool_write
proof (unfold_locales, goal_cases)
  case (1 s v a s')
  let ?p = "if free_list s = None then allocate_new_chunk (chunk_size s) s else s"
  have "node_pool_inv ?p" "objs ?p = objs s" "free_list ?p = Some a"
    using 1 allocate_new_chunk_inv [of s "chunk_size s"]
    by (auto simp: pool_allocate_def Let_def node_pool_inv_def)
  then show ?case using pool_allocate_nonempty(2) [of ?p a] by simp
next
  case (2 s v a s')
  let ?p = "if free_list s = None then allocate_new_chunk (chunk_size s) s else s"
  have "objs ?p = objs s" "s' = ?p\<lparr>free_list := free_next ?p a, mem := (mem ?p)(a \<mapsto> Obj v)\<rparr>"
    using 2 allocate_new_chunk_inv [of s "chunk_size s"]
    by (auto simp: pool_allocate_def Let_def node_pool_inv_def)
  then show ?case by (auto simp: objs_def fun_eq_iff dest: fun_cong)
next
  case (3 s v a s')
  let ?p = "if free_list s = None then allocate_new_chunk (chunk_size s) s else s"
  have "node_pool_inv ?p" "free_list ?p = Some a"
      "s' = ?p\<lparr>free_list := free_next ?p a, mem := (mem ?p)(a \<mapsto> Obj v)\<rparr>"
    using 3 allocate_new_chunk_inv [of s "chunk_size s"]
    by (auto simp: pool_allocate_def Let_def node_pool_inv_def)
  then show ?case using pool_allocate_nonempty(1) [of ?p a v] by simp
next
  case (4 s a)
  then show ?case by (auto simp: objs_def pool_deallocate_def fun_eq_iff)
next
  case (5 s a)
  then obtain v where v: "mem s a = Some (Obj v)"
    by (auto simp: objs_def split: option.splits cell.splits)
  from 5(1) obtain as where "free_chain (mem s) (free_list s) as" "distinct as"
      "set as = {a. \<exists>nx. mem s a = Some (FreeNode nx)}"
    by (auto simp: node_pool_inv_def)
  with v 5(1) show ?case
    unfolding node_pool_inv_def pool_deallocate_def
    by (auto intro!: exI [of _ "a # as"] simp: free_chain_upd)
next
  case (6 s a v)
  then show ?case by (auto simp: objs_def pool_write_def fun_eq_iff)
next
  case (7 s a v)
  then obtain w where w: "mem s a = Some (Obj w)"
    by (auto simp: objs_def split: option.splits cell.splits)
  from 7(1) obtain as where as: "free_chain (mem s) (free_list s) as" "distinct as"
      "set as = {a. \<exists>nx. mem s a = Some (FreeNode nx)}"
    by (auto simp: node_pool_inv_def)
  then have "a \<notin> set as" using w by auto
  with w 7(1) as show ?case
    unfolding node_pool_inv_def pool_write_def
    by (auto intro!: exI [of _ as] simp: free_chain_upd)
qed

interpretation sp: object_store stack_acquire stack_release stack_live stack_pool_inv
proof (unfold_locales, goal_cases)
  case (1 s v a s')
  then show ?case
    by (auto simp: stack_acquire_def stack_live_def stack_pool_inv_def split: list.splits)
next
  case (2 s v a s')
  then show ?case
    by (auto simp: stack_acquire_def stack_live_def stack_pool_inv_def fun_eq_iff split: list.splits)
next
  case (3 s v a s')
  then show ?case
    by (auto simp: stack_acquire_def stack_pool_inv_def less_Suc_eq split: list.splits if_splits)
next
  case (4 s a)
  then show ?case by (auto simp: stack_release_def stack_live_def fun_eq_iff)
next
  case (5 s a)
  then show ?case
    by (auto simp: stack_release_def stack_live_def stack_pool_inv_def split: if_splits)
qed

interpretation up: object_store uni_acquire uni_deleter up_mem uni_pool_inv
proof (unfold_locales, goal_cases)
  case (1 s v a s')
  then show ?case by (auto simp: uni_acquire_def uni_pool_inv_def split: list.splits)
next
  case (2 s v a s')
  then show ?case by (auto simp: uni_acquire_def split: list.splits)
next
  case (3 s v a s')
  then show ?case
    by (cases "up_pool s")
       (auto simp: uni_acquire_def uni_pool_inv_def less_Suc_eq split: if_splits)
next
  case (4 s a)
  then show ?case by (simp add: uni_deleter_def)
next
  case (5 s a)
  then show ?case by (auto simp: uni_deleter_def uni_pool_inv_def)
qed

lemma new_node_pool_inv:
  "0 < n \<Longrightarrow> 0 < c \<Longrightarrow> node_pool_inv (new_node_pool n c :: 'a node_pool) \<and>
     objs (new_node_pool n c :: 'a node_pool) = Map.empty"
proof -
  assume n: "0 < n" "0 < c"
  let ?p = "\<lparr>free_list = None, memory_base = None, chunk_size = c, capacity = n,
        blocks = [], mem = Map.empty, heap_top = 0\<rparr> :: 'a node_pool"
  have "node_pool_inv ?p" using n by (auto simp: node_pool_inv_def intro: exI [of _ "[]"])
  moreover have "objs ?p = Map.empty" by (simp add: objs_def fun_eq_iff)
  ultimately show ?thesis
    using n allocate_new_chunk_inv [of ?p n] by (simp add: new_node_pool_def)
qed

end
