(* ===== verification/Prop_Count_List.thy ===== *)
theory Prop_Count_List
  imports Object_Pool
begin

text \<open>
  SerialTaskQueue::PropCountNodeList (task_queue.hpp): the doubly linked list that holds the
  order of the tasks of a serial queue, one node for every run of consecutive tasks of one
  property. Its nodes are linked twice, in the order of the list and among the nodes of one
  property, and are indexed per property; they live in the chunked pool of Object_Pool. The
  operations are in the option monad: None is a null or dangling pointer dereferenced, or the
  assertion of pop_front failing. They refine four operations on a list of triples.
\<close>

section \<open>The code\<close>

(* src: task_queue.hpp 740-748 PropCountNode *)
record 'p pnode =
  pre_same :: "addr option"
  next_same :: "addr option"
  pre_list :: "addr option"
  next_list :: "addr option"
  node_count :: nat
  node_can_pop :: bool
  node_prop :: 'p

(* src: task_queue.hpp 913-918 PropCountNodeList *)
record 'p pcl =
  begin_node :: "addr option"
  end_node :: "addr option"
  all_nodes :: "'p \<Rightarrow> addr list option"
  obj_pool :: "'p pnode node_pool"

(* src: task_queue.hpp 781-781 PropCountNodeList::PropCountNodeList *)
definition new_pcl :: "nat \<Rightarrow> nat \<Rightarrow> 'p pcl" where
  "new_pcl preallocate chunk = \<lparr>begin_node = None, end_node = None, all_nodes = Map.empty,
     obj_pool = new_node_pool preallocate chunk\<rparr>"

text \<open>The nodes that are alive, and an assignment to the fields of one.\<close>

definition nodes :: "'p pcl \<Rightarrow> addr \<Rightarrow> 'p pnode option" where
  "nodes l = objs (obj_pool l)"

(* src: task_queue.hpp 762-778 PropCountNode *)
definition upd_node :: "addr \<Rightarrow> ('p pnode \<Rightarrow> 'p pnode) \<Rightarrow> 'p pcl \<Rightarrow> 'p pcl option" where
  "upd_node a f l = do { n \<leftarrow> nodes l a; Some (l\<lparr>obj_pool := pool_write a (f n) (obj_pool l)\<rparr>) }"

definition upd_opt :: "addr option \<Rightarrow> ('p pnode \<Rightarrow> 'p pnode) \<Rightarrow> 'p pcl \<Rightarrow> 'p pcl option" where
  "upd_opt x f l = (case x of None \<Rightarrow> Some l | Some a \<Rightarrow> upd_node a f l)"

text \<open>Allocation of a node; its constructor links the two predecessors to it.\<close>

(* src: task_queue.hpp 750-761 PropCountNode::PropCountNode *)
definition alloc_node :: "'p \<Rightarrow> addr option \<Rightarrow> addr option \<Rightarrow> bool \<Rightarrow> 'p pcl \<Rightarrow> (addr \<times> 'p pcl) option" where
  "alloc_node p ps pl c l =
     (let (a, pool) = pool_allocate \<lparr>pre_same = ps, next_same = None, pre_list = pl,
             next_list = None, node_count = 1, node_can_pop = c, node_prop = p\<rparr> (obj_pool l)
      in do {
        l1 \<leftarrow> upd_opt ps (\<lambda>n. n\<lparr>next_same := Some a\<rparr>) (l\<lparr>obj_pool := pool\<rparr>);
        l2 \<leftarrow> upd_opt pl (\<lambda>n. n\<lparr>next_list := Some a\<rparr>) l1;
        Some (a, l2) })"

text \<open>m_all_nodes[prop].emplace_back(a); operator[] creates the missing list.\<close>

definition index_node :: "'p \<Rightarrow> addr \<Rightarrow> 'p pcl \<Rightarrow> 'p pcl" where
  "index_node p a l = l\<lparr>all_nodes := (all_nodes l)(p \<mapsto>
     (case all_nodes l p of None \<Rightarrow> [] | Some xs \<Rightarrow> xs) @ [a])\<rparr>"

(* src: task_queue.hpp 784-812 PropCountNodeList::push_back *)
definition push_back :: "'p \<Rightarrow> bool \<Rightarrow> 'p pcl \<Rightarrow> 'p pcl option" where
  "push_back p c l =
     (case end_node l of
        None \<Rightarrow> do {
          (a, l1) \<leftarrow> alloc_node p None None c l;
          Some (index_node p a (l1\<lparr>begin_node := Some a, end_node := Some a\<rparr>)) }
      | Some e \<Rightarrow> do {
          en \<leftarrow> nodes l e;
          if node_prop en = p then upd_node e (\<lambda>n. n\<lparr>node_count := node_count n + 1\<rparr>) l
          else (case all_nodes l p of
                  None \<Rightarrow> do {
                    (a, l1) \<leftarrow> alloc_node p None (Some e) c l;
                    Some (index_node p a (l1\<lparr>end_node := Some a\<rparr>)) }
                | Some xs \<Rightarrow> do {
                    b \<leftarrow> last_opt xs;
                    (a, l1) \<leftarrow> alloc_node p (Some b) (Some e) False l;
                    Some (index_node p a (l1\<lparr>end_node := Some a\<rparr>)) }) })"

(* src: task_queue.hpp 815-820 PropCountNodeList::reset_prop *)
definition reset_prop :: "'p \<Rightarrow> 'p pcl \<Rightarrow> 'p pcl option" where
  "reset_prop p l =
     (case all_nodes l p of None \<Rightarrow> Some l
      | Some xs \<Rightarrow> do { a \<leftarrow> hd_opt xs; upd_node a (\<lambda>n. n\<lparr>node_can_pop := True\<rparr>) l })"

text \<open>The search loop of pop_front; it ends at a null pointer with the assertion failing.\<close>

(* src: task_queue.hpp 824-830 PropCountNodeList::pop_front *)
partial_function (option) find_can_pop ::
    "(addr \<Rightarrow> 'p pnode option) \<Rightarrow> addr option \<Rightarrow> addr option" where
  "find_can_pop h x = do {
     a \<leftarrow> x;
     n \<leftarrow> h a;
     if node_can_pop n then Some a else find_can_pop h (next_list n) }"

(* src: task_queue.hpp 838-845 PropCountNodeList::pop_front *)
definition unlink_same :: "'p pnode \<Rightarrow> 'p pcl \<Rightarrow> 'p pcl option" where
  "unlink_same n l =
     (case next_same n of
        Some s \<Rightarrow> do {
          l1 \<leftarrow> upd_node s (\<lambda>m. m\<lparr>pre_same := None\<rparr>) l;
          xs \<leftarrow> all_nodes l1 (node_prop n);
          hd_opt xs;
          Some (l1\<lparr>all_nodes := (all_nodes l1)(node_prop n \<mapsto> tl xs)\<rparr>) }
      | None \<Rightarrow> Some (l\<lparr>all_nodes := (all_nodes l)(node_prop n := None)\<rparr>))"

(* src: task_queue.hpp 847-858 PropCountNodeList::pop_front *)
definition unlink_list :: "addr \<Rightarrow> 'p pcl \<Rightarrow> 'p pcl option" where
  "unlink_list x l = do {
     n \<leftarrow> nodes l x;
     l1 \<leftarrow> upd_opt (next_list n) (\<lambda>m. m\<lparr>pre_list := pre_list n\<rparr>) l;
     l2 \<leftarrow> upd_opt (pre_list n) (\<lambda>m. m\<lparr>next_list := next_list n\<rparr>) l1;
     let l3 = (if begin_node l2 = Some x then l2\<lparr>begin_node := next_list n\<rparr> else l2);
     let l4 = (if end_node l3 = Some x then l3\<lparr>end_node := pre_list n\<rparr> else l3);
     Some (l4\<lparr>obj_pool := pool_deallocate x (obj_pool l4)\<rparr>) }"

(* src: task_queue.hpp 823-860 PropCountNodeList::pop_front *)
definition pop_front :: "'p pcl \<Rightarrow> ('p \<times> 'p pcl) option" where
  "pop_front l = do {
     x \<leftarrow> find_can_pop (nodes l) (begin_node l);
     l1 \<leftarrow> upd_node x (\<lambda>n. n\<lparr>node_count := node_count n - 1\<rparr>) l;
     n \<leftarrow> nodes l1 x;
     if node_count n > 0 then do {
       l2 \<leftarrow> upd_node x (\<lambda>n. n\<lparr>node_can_pop := False\<rparr>) l1;
       Some (node_prop n, l2) }
     else do {
       l2 \<leftarrow> unlink_same n l1;
       l3 \<leftarrow> unlink_list x l2;
       Some (node_prop n, l3) } }"

text \<open>
  The loop of remove_prop over the nodes of the property, with the two flags that say whether
  the ends of the list still have to be compared.
\<close>

definition prop_at :: "'p pcl \<Rightarrow> addr option \<Rightarrow> 'p option" where
  "prop_at l x = do { a \<leftarrow> x; n \<leftarrow> nodes l a; Some (node_prop n) }"

(* src: task_queue.hpp 881-885 PropCountNodeList::remove_prop *)
definition fix_begin :: "'p \<Rightarrow> addr \<Rightarrow> addr option \<Rightarrow> bool \<Rightarrow> 'p pcl \<Rightarrow> (bool \<times> 'p pcl) option" where
  "fix_begin p item nx nb l =
     (if nb \<and> begin_node l = Some item then do {
        l1 \<leftarrow> upd_opt nx (\<lambda>m. m\<lparr>pre_list := None\<rparr>) (l\<lparr>begin_node := nx\<rparr>);
        Some (prop_at l1 nx = Some p, l1) }
      else Some (nb, l))"

(* src: task_queue.hpp 887-891 PropCountNodeList::remove_prop *)
definition fix_end :: "'p \<Rightarrow> addr \<Rightarrow> addr option \<Rightarrow> bool \<Rightarrow> 'p pcl \<Rightarrow> (bool \<times> 'p pcl) option" where
  "fix_end p item pv ne l =
     (if ne \<and> end_node l = Some item then do {
        l1 \<leftarrow> upd_opt pv (\<lambda>m. m\<lparr>next_list := None\<rparr>) (l\<lparr>end_node := pv\<rparr>);
        Some (prop_at l1 pv = Some p, l1) }
      else Some (ne, l))"

(* src: task_queue.hpp 872-895 PropCountNodeList::remove_prop *)
fun remove_loop :: "'p \<Rightarrow> addr list \<Rightarrow> bool \<Rightarrow> bool \<Rightarrow> 'p pcl \<Rightarrow> 'p pcl option" where
  "remove_loop p [] nb ne l = Some l"
| "remove_loop p (item # items) nb ne l = do {
     n \<leftarrow> nodes l item;
     l1 \<leftarrow> upd_opt (pre_list n) (\<lambda>m. m\<lparr>next_list := next_list n\<rparr>) l;
     l2 \<leftarrow> upd_opt (next_list n) (\<lambda>m. m\<lparr>pre_list := pre_list n\<rparr>) l1;
     (nb', l3) \<leftarrow> fix_begin p item (next_list n) nb l2;
     (ne', l4) \<leftarrow> fix_end p item (pre_list n) ne l3;
     remove_loop p items nb' ne' (l4\<lparr>obj_pool := pool_deallocate item (obj_pool l4)\<rparr>) }"

(* src: task_queue.hpp 862-897 PropCountNodeList::remove_prop *)
definition remove_prop :: "'p \<Rightarrow> 'p pcl \<Rightarrow> 'p pcl option" where
  "remove_prop p l =
     (case all_nodes l p of
        None \<Rightarrow> Some l
      | Some items \<Rightarrow> do {
          l1 \<leftarrow> remove_loop p items (prop_at l (begin_node l) = Some p)
                 (prop_at l (end_node l) = Some p) l;
          Some (l1\<lparr>all_nodes := (all_nodes l1)(p := None)\<rparr>) })"

(* src: task_queue.hpp 900-905 PropCountNodeList::clear *)
partial_function (option) clear_loop ::
    "addr option \<Rightarrow> 'p pnode node_pool \<Rightarrow> 'p pnode node_pool option" where
  "clear_loop x pool =
     (case x of None \<Rightarrow> Some pool
      | Some a \<Rightarrow> do { n \<leftarrow> objs pool a; clear_loop (next_list n) (pool_deallocate a pool) })"

(* src: task_queue.hpp 899-909 PropCountNodeList::clear *)
definition clear_list :: "'p pcl \<Rightarrow> 'p pcl option" where
  "clear_list l = do {
     pool \<leftarrow> clear_loop (begin_node l) (obj_pool l);
     Some (l\<lparr>obj_pool := pool, begin_node := None, end_node := None, all_nodes := Map.empty\<rparr>) }"

(* src: task_queue.hpp 911-911 PropCountNodeList::empty *)
definition pcl_empty :: "'p pcl \<Rightarrow> bool" where
  "pcl_empty l \<longleftrightarrow> begin_node l = None"

section \<open>What the list is: a sequence of runs\<close>

text \<open>
  Abstractly the list is a sequence of runs: a property, how many tasks it stands for, and
  whether the consumer may take from it.
\<close>

type_synonym 'p runs = "('p \<times> nat \<times> bool) list"

definition run_props :: "'p runs \<Rightarrow> 'p set" where
  "run_props xs = fst ` set xs"

definition a_push :: "'p \<Rightarrow> bool \<Rightarrow> 'p runs \<Rightarrow> 'p runs" where
  "a_push p c xs =
     (if xs \<noteq> [] \<and> fst (last xs) = p
      then butlast xs @ [(p, Suc (fst (snd (last xs))), snd (snd (last xs)))]
      else xs @ [(p, 1, c \<and> p \<notin> run_props xs)])"

fun a_reset :: "'p \<Rightarrow> 'p runs \<Rightarrow> 'p runs" where
  "a_reset p [] = []"
| "a_reset p ((q, n, b) # xs) = (if q = p then (q, n, True) # xs else (q, n, b) # a_reset p xs)"

fun a_pop :: "'p runs \<Rightarrow> ('p \<times> 'p runs) option" where
  "a_pop [] = None"
| "a_pop ((p, n, b) # xs) =
     (if b then Some (p, if n > 1 then (p, n - 1, False) # xs else xs)
      else map_option (\<lambda>(q, ys). (q, (p, n, b) # ys)) (a_pop xs))"

definition a_remove :: "'p \<Rightarrow> 'p runs \<Rightarrow> 'p runs" where
  "a_remove p xs = filter (\<lambda>r. fst r \<noteq> p) xs"

text \<open>No run is empty, and only the first run of a property may be open.\<close>

fun a_wf :: "'p runs \<Rightarrow> bool" where
  "a_wf [] = True"
| "a_wf ((p, n, b) # xs) \<longleftrightarrow> n > 0 \<and> (\<forall>r \<in> set xs. fst r = p \<longrightarrow> \<not> snd (snd r)) \<and> a_wf xs"

lemma run_props_simps [simp]:
  "run_props [] = {}" "run_props (r # xs) = insert (fst r) (run_props xs)"
  "run_props (xs @ ys) = run_props xs \<union> run_props ys"
  by (auto simp: run_props_def)

lemma a_wf_append:
  "a_wf (xs @ ys) \<longleftrightarrow> a_wf xs \<and> a_wf ys \<and>
     (\<forall>r \<in> set ys. fst r \<in> run_props xs \<longrightarrow> \<not> snd (snd r))"
  by (induction xs rule: a_wf.induct) (auto simp: run_props_def)

lemma a_wf_push: "a_wf xs \<Longrightarrow> a_wf (a_push p c xs)"
  by (cases xs rule: rev_cases) (auto simp: a_push_def a_wf_append)

lemma a_wf_reset: "a_wf xs \<Longrightarrow> a_wf (a_reset p xs)"
proof (induction p xs rule: a_reset.induct)
  case (2 p q n b xs)
  have "r \<in> set (a_reset p xs) \<Longrightarrow> fst r = q \<Longrightarrow> q \<noteq> p \<Longrightarrow> r \<in> set xs" for r
    by (induction p xs rule: a_reset.induct) (auto split: if_splits)
  with 2 show ?case by auto
qed simp

lemma a_pop_mem:
  "a_pop xs = Some (p, ys) \<Longrightarrow> r \<in> set ys \<Longrightarrow> snd (snd r) \<Longrightarrow> r \<in> set xs"
  by (induction xs arbitrary: ys rule: a_pop.induct) (auto split: if_splits)

lemma a_wf_pop: "a_wf xs \<Longrightarrow> a_pop xs = Some (p, ys) \<Longrightarrow> a_wf ys"
proof (induction xs arbitrary: ys rule: a_pop.induct)
  case (2 q n b xs)
  show ?case
  proof (cases b)
    case False
    with 2(3) obtain zs where zs: "a_pop xs = Some (p, zs)" "ys = (q, n, b) # zs" by auto
    moreover from False zs(1) 2 have "a_wf zs" by simp
    ultimately show ?thesis using 2(2) a_pop_mem [OF zs(1)] by auto
  qed (use 2 in \<open>auto split: if_splits\<close>)
qed simp

lemma a_wf_filter: "a_wf xs \<Longrightarrow> a_wf (filter P xs)"
  by (induction xs rule: a_wf.induct) auto

text \<open>A pop succeeds exactly when a run is open, and takes the first open one.\<close>

lemma a_pop_None_iff: "a_pop xs = None \<longleftrightarrow> (\<forall>r \<in> set xs. \<not> snd (snd r))"
  by (induction xs rule: a_pop.induct) auto

lemma a_pop_split:
  "\<forall>r \<in> set us. \<not> snd (snd r) \<Longrightarrow>
     a_pop (us @ (p, n, True) # vs) = Some (p, us @ (if n > 1 then [(p, n - 1, False)] else []) @ vs)"
  by (induction us) auto

section \<open>The representation\<close>

text \<open>
  The nodes of one property, in list order; the two ways the nodes are linked; and the index.
\<close>

type_synonym 'p heap = "addr \<Rightarrow> 'p pnode option"

definition same :: "'p heap \<Rightarrow> addr list \<Rightarrow> 'p \<Rightarrow> addr list" where
  "same h as p = filter (\<lambda>a. map_option node_prop (h a) = Some p) as"

definition links :: "addr option \<Rightarrow> addr option \<Rightarrow> 'p heap \<Rightarrow> addr list \<Rightarrow> bool" where
  "links b e h as \<longleftrightarrow> distinct as \<and> (\<forall>a. h a \<noteq> None \<longleftrightarrow> a \<in> set as) \<and>
     b = hd_opt as \<and> e = last_opt as \<and>
     (\<forall>a n. h a = Some n \<longrightarrow> pre_list n = prev_in as a \<and> next_list n = next_in as a)"

definition sames :: "('p \<Rightarrow> addr list option) \<Rightarrow> 'p heap \<Rightarrow> addr list \<Rightarrow> 'p \<Rightarrow> bool" where
  "sames ix h as p \<longleftrightarrow> ix p = (if same h as p = [] then None else Some (same h as p)) \<and>
     (\<forall>a n. h a = Some n \<and> node_prop n = p \<longrightarrow>
        pre_same n = prev_in (same h as p) a \<and> next_same n = next_in (same h as p) a)"

definition run_of :: "'p pnode \<Rightarrow> 'p \<times> nat \<times> bool" where
  "run_of n = (node_prop n, node_count n, node_can_pop n)"

definition runs_of :: "'p heap \<Rightarrow> addr list \<Rightarrow> 'p runs" where
  "runs_of h as = map (\<lambda>a. run_of (the (h a))) as"

text \<open>
  The list l represents the runs xs. This is the invariant and the abstraction at once: the
  addresses of the nodes in order are the witness.
\<close>

definition pcl_rep_at :: "addr list \<Rightarrow> 'p pcl \<Rightarrow> 'p runs \<Rightarrow> bool" where
  "pcl_rep_at as l xs \<longleftrightarrow> node_pool_inv (obj_pool l) \<and>
     links (begin_node l) (end_node l) (nodes l) as \<and>
     (\<forall>p. sames (all_nodes l) (nodes l) as p) \<and> runs_of (nodes l) as = xs \<and> a_wf xs"

definition pcl_rep :: "'p pcl \<Rightarrow> 'p runs \<Rightarrow> bool" where
  "pcl_rep l xs \<longleftrightarrow> (\<exists>as. pcl_rep_at as l xs)"

section \<open>The heap operations\<close>

abbreviation core :: "'p pcl \<Rightarrow> addr option \<times> addr option \<times> ('p \<Rightarrow> addr list option)" where
  "core l \<equiv> (begin_node l, end_node l, all_nodes l)"

lemma upd_node_ok:
  assumes "node_pool_inv (obj_pool l)" "nodes l a \<noteq> None"
  obtains l' where "upd_node a f l = Some l'" "node_pool_inv (obj_pool l')" "core l' = core l"
    "nodes l' = (\<lambda>b. if b = a then map_option f (nodes l b) else nodes l b)"
proof -
  obtain n where n: "nodes l a = Some n" using assms(2) by auto
  have live: "objs (obj_pool l) a \<noteq> None" using n by (simp add: nodes_def)
  show ?thesis
    using n np.assign_live [OF assms(1) live, of "f n"] np.assign_inv [OF assms(1) live, of "f n"]
    by (intro that) (auto simp: upd_node_def nodes_def fun_eq_iff)
qed

lemma upd_opt_ok:
  assumes "node_pool_inv (obj_pool l)" "\<And>a. x = Some a \<Longrightarrow> nodes l a \<noteq> None"
  obtains l' where "upd_opt x f l = Some l'" "node_pool_inv (obj_pool l')" "core l' = core l"
    "nodes l' = (\<lambda>b. if x = Some b then map_option f (nodes l b) else nodes l b)"
proof (cases x)
  case None
  then show ?thesis using assms(1) by (intro that) (auto simp: upd_opt_def)
next
  case (Some a)
  obtain l' where "upd_node a f l = Some l'" "node_pool_inv (obj_pool l')" "core l' = core l"
    "nodes l' = (\<lambda>b. if b = a then map_option f (nodes l b) else nodes l b)"
    using upd_node_ok [of l a f] assms Some by blast
  then show ?thesis using Some by (intro that) (auto simp: upd_opt_def fun_eq_iff)
qed

lemma dealloc_ok:
  assumes "node_pool_inv (obj_pool l)" "nodes l x \<noteq> None"
  shows "node_pool_inv (pool_deallocate x (obj_pool l))"
    and "nodes (l\<lparr>obj_pool := pool_deallocate x (obj_pool l)\<rparr>) = (nodes l)(x := None)"
  using np.dealloc_inv [of "obj_pool l" x] np.dealloc_live [of "obj_pool l" x] assms
  by (simp_all add: nodes_def)

lemma alloc_node_ok:
  assumes "node_pool_inv (obj_pool l)"
    and "\<And>b. ps = Some b \<Longrightarrow> nodes l b \<noteq> None" "\<And>b. pl = Some b \<Longrightarrow> nodes l b \<noteq> None"
  obtains a l' where "alloc_node p ps pl c l = Some (a, l')" "nodes l a = None"
    "node_pool_inv (obj_pool l')" "core l' = core l"
    "nodes l' = (\<lambda>b. if b = a then Some \<lparr>pre_same = ps, next_same = None, pre_list = pl,
             next_list = None, node_count = 1, node_can_pop = c, node_prop = p\<rparr>
       else map_option (\<lambda>n. n\<lparr>next_same := (if ps = Some b then Some a else next_same n),
              next_list := (if pl = Some b then Some a else next_list n)\<rparr>) (nodes l b))"
proof -
  let ?v = "\<lparr>pre_same = ps, next_same = None, pre_list = pl,
             next_list = None, node_count = 1, node_can_pop = c, node_prop = p\<rparr>"
  obtain a pool where al: "pool_allocate ?v (obj_pool l) = (a, pool)"
    by (cases "pool_allocate ?v (obj_pool l)")
  let ?l = "l\<lparr>obj_pool := pool\<rparr>"
  have fresh: "nodes l a = None" using np.alloc_fresh [OF assms(1) al] by (simp add: nodes_def)
  have inv: "node_pool_inv (obj_pool ?l)" using np.alloc_inv [OF assms(1) al] by simp
  have h: "nodes ?l = (nodes l)(a \<mapsto> ?v)"
    using np.alloc_live [OF assms(1) al] by (simp add: nodes_def)
  have ok: "\<And>b. ps = Some b \<Longrightarrow> nodes ?l b \<noteq> None" using assms(2) by (auto simp: h)
  obtain l1 where l1: "upd_opt ps (\<lambda>n. n\<lparr>next_same := Some a\<rparr>) ?l = Some l1"
      "node_pool_inv (obj_pool l1)" "core l1 = core ?l"
      "nodes l1 = (\<lambda>b. if ps = Some b then map_option (\<lambda>n. n\<lparr>next_same := Some a\<rparr>) (nodes ?l b)
                     else nodes ?l b)"
    using upd_opt_ok [OF inv ok, of ps "\<lambda>n. n\<lparr>next_same := Some a\<rparr>"] by blast
  have "\<And>b. pl = Some b \<Longrightarrow> nodes l1 b \<noteq> None" using assms(3) by (auto simp: l1(4) h)
  from upd_opt_ok [OF l1(2) this, of pl "\<lambda>n. n\<lparr>next_list := Some a\<rparr>"]
  obtain l2 where l2: "upd_opt pl (\<lambda>n. n\<lparr>next_list := Some a\<rparr>) l1 = Some l2"
      "node_pool_inv (obj_pool l2)" "core l2 = core l1"
      "nodes l2 = (\<lambda>b. if pl = Some b then map_option (\<lambda>n. n\<lparr>next_list := Some a\<rparr>) (nodes l1 b)
                     else nodes l1 b)"
    by auto
  have ne: "ps \<noteq> Some a" "pl \<noteq> Some a" using assms(2,3) fresh by auto
  have "nodes l2 = (\<lambda>b. if b = a then Some ?v
       else map_option (\<lambda>n. n\<lparr>next_same := (if ps = Some b then Some a else next_same n),
              next_list := (if pl = Some b then Some a else next_list n)\<rparr>) (nodes l b))"
    using ne by (auto simp: l2(4) l1(4) h fun_eq_iff option.map_comp comp_def option.map_ident)
  moreover have "alloc_node p ps pl c l = Some (a, l2)"
    using l1(1) l2(1) by (simp add: alloc_node_def al [simplified])
  ultimately show ?thesis using that fresh l1 l2 by simp
qed

section \<open>The links\<close>

lemma linksD:
  assumes "links b e h as"
  shows "distinct as" "\<And>a. h a \<noteq> None \<longleftrightarrow> a \<in> set as" "b = hd_opt as" "e = last_opt as"
    "\<And>a n. h a = Some n \<Longrightarrow> pre_list n = prev_in as a"
    "\<And>a n. h a = Some n \<Longrightarrow> next_list n = next_in as a"
  using assms by (auto simp: links_def)

lemma same_mem: "a \<in> set (same h as p) \<longleftrightarrow> a \<in> set as \<and> (\<exists>n. h a = Some n \<and> node_prop n = p)"
  by (auto simp: same_def)

lemma same_cong:
  "(\<And>a. a \<in> set as \<Longrightarrow> map_option node_prop (h a) = map_option node_prop (h' a)) \<Longrightarrow>
     same h as p = same h' as p"
  unfolding same_def by (rule filter_cong) auto

text \<open>Changes of the count and of the flag leave both linkages alone.\<close>

lemma links_frame:
  assumes "links b e h as" "\<And>a. map_option pre_list (h' a) = map_option pre_list (h a)"
    "\<And>a. map_option next_list (h' a) = map_option next_list (h a)"
  shows "links b e h' as"
proof -
  have "h' a \<noteq> None \<longleftrightarrow> a \<in> set as" for a
    using linksD(2) [OF assms(1)] assms(2) by (metis option.map_disc_iff)
  moreover have "pre_list n = prev_in as a \<and> next_list n = next_in as a" if n: "h' a = Some n" for a n
  proof -
    obtain m where "h a = Some m" "pre_list m = pre_list n" "next_list m = next_list n"
      using assms(2,3) [of a] n by (cases "h a") auto
    then show ?thesis using assms(1) by (auto simp: links_def)
  qed
  ultimately show ?thesis using assms(1) by (auto simp: links_def)
qed

lemma sames_frame:
  assumes "sames ix h as p" "\<And>a. a \<in> set as \<longleftrightarrow> h a \<noteq> None"
    "\<And>a. map_option (\<lambda>n. (node_prop n, pre_same n, next_same n)) (h' a) =
          map_option (\<lambda>n. (node_prop n, pre_same n, next_same n)) (h a)"
  shows "sames ix h' as p"
proof -
  have pr: "map_option node_prop (h' a) = map_option node_prop (h a)" for a
    using arg_cong [OF assms(3), of "map_option fst" a] by (simp add: option.map_comp comp_def)
  have s: "same h' as p = same h as p" using pr by (intro same_cong) auto
  have "pre_same n = prev_in (same h as p) a \<and> next_same n = next_in (same h as p) a"
    if n: "h' a = Some n" "node_prop n = p" for a n
  proof -
    obtain m where "h a = Some m" "node_prop m = p" "pre_same m = pre_same n" "next_same m = next_same n"
      using assms(3) [of a] n by (cases "h a") auto
    then show ?thesis using assms(1) by (auto simp: sames_def)
  qed
  then show ?thesis using assms(1) s by (auto simp: sames_def)
qed

section \<open>push_back and reset_prop\<close>

lemma links_snoc:
  assumes l: "links b e h as" and a: "h a = None"
    and h': "h' = (\<lambda>b. if b = a then Some m else map_option (g b) (h b))"
    and g: "\<And>b n. pre_list (g b n) = pre_list n"
      "\<And>b n. next_list (g b n) = (if e = Some b then Some a else next_list n)"
    and m: "pre_list m = e" "next_list m = None"
  shows "links (hd_opt (as @ [a])) (Some a) h' (as @ [a])"
proof -
  have na: "a \<notin> set as" using linksD(2) [OF l, of a] a by auto
  have d: "distinct (as @ [a])" using linksD(1) [OF l] na by simp
  have "h' c \<noteq> None \<longleftrightarrow> c \<in> set (as @ [a])" for c
    using linksD(2) [OF l, of c] by (auto simp: h')
  moreover have "pre_list n = prev_in (as @ [a]) c \<and> next_list n = next_in (as @ [a]) c"
    if hc: "h' c = Some n" for c n
  proof (cases "c = a")
    case True
    then show ?thesis
      using hc d m linksD(4) [OF l] na next_in_last [OF d]
      by (auto simp: h' prev_in_snoc last_opt_eq)
  next
    case False
    then obtain k where k: "h c = Some k" "n = g c k" using hc by (auto simp: h')
    then have "pre_list n = prev_in as c"
        "next_list n = (if e = Some c then Some a else next_in as c)"
      using linksD(5,6) [OF l] g by auto
    then show ?thesis using False d linksD(4) [OF l]
      by (auto simp: prev_in_snoc next_in_snoc last_opt_eq)
  qed
  ultimately show ?thesis using d by (simp add: links_def)
qed

lemma sames_snoc:
  assumes s: "sames ix h as q" and l: "links b e h as" and a: "h a = None"
    and h': "h' = (\<lambda>b. if b = a then Some m else map_option (g b) (h b))"
    and g: "\<And>b n. pre_same (g b n) = pre_same n" "\<And>b n. node_prop (g b n) = node_prop n"
      "\<And>b n. next_same (g b n) = (if ps = Some b then Some a else next_same n)"
    and m: "pre_same m = ps" "next_same m = None" "node_prop m = p"
    and ps: "ps = last_opt (same h as p)"
    and ix': "ix' = ix(p \<mapsto> (case ix p of None \<Rightarrow> [] | Some xs \<Rightarrow> xs) @ [a])"
    and sp: "sames ix h as p"
  shows "sames ix' h' (as @ [a]) q"
proof -
  have na: "a \<notin> set as" using linksD(2) [OF l, of a] a by auto
  have same_as: "same h' as q = same h as q" for q
    using na g(2) by (intro same_cong) (auto simp: h' option.map_comp comp_def)
  have sm: "same h' (as @ [a]) q = same h as q @ (if q = p then [a] else [])" for q
    using same_as [of q] m(3) by (auto simp: same_def h')
  have d: "distinct (same h as q)" for q using linksD(1) [OF l] by (simp add: same_def)
  have nas: "a \<notin> set (same h as q)" for q using na by (auto simp: same_def)
  show ?thesis
  proof (cases "q = p")
    case True
    have "pre_same n = prev_in (same h as p @ [a]) c \<and> next_same n = next_in (same h as p @ [a]) c"
      if hc: "h' c = Some n" "node_prop n = p" for c n
    proof (cases "c = a")
      case True
      then show ?thesis
        using hc m nas ps d next_in_last [of "same h as p @ [a]"]
        by (auto simp: h' prev_in_snoc last_opt_eq)
    next
      case False
      then obtain k where k: "h c = Some k" "n = g c k" using hc by (auto simp: h')
      then have "pre_same n = prev_in (same h as p) c"
          "next_same n = (if ps = Some c then Some a else next_in (same h as p) c)"
        using sp g hc(2) by (auto simp: sames_def)
      then show ?thesis using False d nas
        by (auto simp: prev_in_snoc next_in_snoc ps last_opt_eq)
    qed
    moreover have "ix' p = Some (same h as p @ [a])" using sp by (auto simp: sames_def ix')
    ultimately show ?thesis using True by (simp add: sames_def sm)
  next
    case False
    have "pre_same n = prev_in (same h as q) c \<and> next_same n = next_in (same h as q) c"
      if hc: "h' c = Some n" "node_prop n = q" for c n
    proof -
      have "c \<noteq> a" using hc m(3) False by (auto simp: h')
      then obtain k where k: "h c = Some k" "n = g c k" using hc by (auto simp: h')
      have kq: "node_prop k = q" using hc(2) k(2) g(2) by simp
      have "ps \<noteq> Some c"
      proof
        assume "ps = Some c"
        then have "c \<in> set (same h as p)" using ps by (auto simp: last_opt_eq split: if_splits)
        then show False using same_mem [of c h as p] k(1) kq False by auto
      qed
      then show ?thesis using k kq s g by (auto simp: sames_def)
    qed
    moreover have "ix' q = ix q" using False by (simp add: ix')
    ultimately show ?thesis using False s by (simp add: sames_def sm)
  qed
qed

text \<open>The runs a heap shows.\<close>

lemma runs_of_simps [simp]:
  "runs_of h [] = []" "runs_of h (a # as) = run_of (the (h a)) # runs_of h as"
  "runs_of h (as @ bs) = runs_of h as @ runs_of h bs"
  by (simp_all add: runs_of_def)

lemma runs_of_cong:
  "(\<And>a. a \<in> set as \<Longrightarrow> map_option run_of (h' a) = map_option run_of (h a) \<and> h a \<noteq> None) \<Longrightarrow>
     runs_of h' as = runs_of h as"
  unfolding runs_of_def by (rule map_cong) fastforce+

lemma run_props_same:
  "\<forall>a \<in> set as. h a \<noteq> None \<Longrightarrow> p \<in> run_props (runs_of h as) \<longleftrightarrow> same h as p \<noteq> []"
  by (induction as) (auto simp: same_def run_of_def)

lemma pcl_rep_atD:
  assumes "pcl_rep_at as l xs"
  shows "node_pool_inv (obj_pool l)" "links (begin_node l) (end_node l) (nodes l) as"
    "\<And>p. sames (all_nodes l) (nodes l) as p" "xs = runs_of (nodes l) as" "a_wf xs"
  using assms by (auto simp: pcl_rep_at_def)

lemma rep_alloc:
  assumes r: "pcl_rep_at as l xs" and ps: "ps = last_opt (same (nodes l) as p)"
  obtains a l1 where "alloc_node p ps (end_node l) c l = Some (a, l1)" "core l1 = core l"
    "\<And>l2. begin_node l2 = hd_opt (as @ [a]) \<Longrightarrow> end_node l2 = Some a \<Longrightarrow>
       all_nodes l2 = all_nodes l \<Longrightarrow> obj_pool l2 = obj_pool l1 \<Longrightarrow> a_wf (xs @ [(p, 1, c)]) \<Longrightarrow>
       pcl_rep_at (as @ [a]) (index_node p a l2) (xs @ [(p, 1, c)])"
proof -
  note R = pcl_rep_atD [OF r]
  note L = linksD [OF R(2)]
  have b1: "nodes l b \<noteq> None" if "ps = Some b" for b
    using that ps L(2) same_mem [of b "nodes l" as p] by (auto simp: last_opt_eq split: if_splits)
  have b2: "nodes l b \<noteq> None" if "end_node l = Some b" for b
    using that L(2,4) by (auto simp: last_opt_eq split: if_splits)
  from alloc_node_ok [OF R(1) b1 b2, where p = p and c = c]
  obtain a l1 where al: "alloc_node p ps (end_node l) c l = Some (a, l1)" "nodes l a = None"
    "node_pool_inv (obj_pool l1)" "core l1 = core l"
    "nodes l1 = (\<lambda>b. if b = a then Some \<lparr>pre_same = ps, next_same = None, pre_list = end_node l,
             next_list = None, node_count = 1, node_can_pop = c, node_prop = p\<rparr>
       else map_option (\<lambda>n. n\<lparr>next_same := (if ps = Some b then Some a else next_same n),
              next_list := (if end_node l = Some b then Some a else next_list n)\<rparr>) (nodes l b))"
    by blast
  have "pcl_rep_at (as @ [a]) (index_node p a l2) (xs @ [(p, 1, c)])"
    if l2: "begin_node l2 = hd_opt (as @ [a])" "end_node l2 = Some a"
      "all_nodes l2 = all_nodes l" "obj_pool l2 = obj_pool l1" "a_wf (xs @ [(p, 1, c)])" for l2
  proof -
    let ?l = "index_node p a l2"
    have h: "nodes ?l = nodes l1" using l2(4) by (simp add: nodes_def index_node_def)
    have "links (begin_node ?l) (end_node ?l) (nodes ?l) (as @ [a])"
      using links_snoc [OF R(2) al(2) al(5)] l2 by (simp add: h) (simp add: index_node_def)
    moreover have "sames (all_nodes ?l) (nodes ?l) (as @ [a]) q" for q
      unfolding h
      by (rule sames_snoc [OF R(3) R(2) al(2) al(5), where ps = ps and p = p])
         (use ps R(3) l2(3) in \<open>auto simp: index_node_def\<close>)
    moreover have "runs_of (nodes ?l) (as @ [a]) = xs @ [(p, 1, c)]"
    proof -
      have "a \<notin> set as" using L(2) [of a] al(2) by auto
      then have "runs_of (nodes l1) as = runs_of (nodes l) as"
        using L(2) by (intro runs_of_cong) (auto simp: al(5) run_of_def [abs_def] option.map_comp comp_def)
      then show ?thesis using R(4) by (simp add: h) (simp add: al(5) run_of_def)
    qed
    moreover have "node_pool_inv (obj_pool ?l)" using al(3) l2(4) by (simp add: index_node_def)
    ultimately show ?thesis using l2(5) by (simp add: pcl_rep_at_def)
  qed
  with al(1,4) show ?thesis using that by blast
qed

text \<open>Updates of the count or the flag of one node.\<close>

lemma rep_upd:
  assumes r: "pcl_rep_at as l xs" and as: "as = us @ a # vs"
    and f: "\<And>n. pre_list (f n) = pre_list n" "\<And>n. next_list (f n) = next_list n"
      "\<And>n. pre_same (f n) = pre_same n" "\<And>n. next_same (f n) = next_same n"
      "\<And>n. node_prop (f n) = node_prop n"
  obtains l' n where "upd_node a f l = Some l'" "nodes l a = Some n" "nodes l' a = Some (f n)"
    "node_pool_inv (obj_pool l')" "core l' = core l"
    "links (begin_node l') (end_node l') (nodes l') as"
    "\<And>p. sames (all_nodes l') (nodes l') as p"
    "xs = runs_of (nodes l) us @ run_of n # runs_of (nodes l) vs"
    "runs_of (nodes l') as = runs_of (nodes l) us @ run_of (f n) # runs_of (nodes l) vs"
proof -
  note R = pcl_rep_atD [OF r]
  note L = linksD [OF R(2)]
  have na: "nodes l a \<noteq> None" using L(2) [of a] as by simp
  then obtain n where n: "nodes l a = Some n" by blast
  from upd_node_ok [OF R(1) na, of f]
  obtain l' where l': "upd_node a f l = Some l'" "node_pool_inv (obj_pool l')" "core l' = core l"
    "nodes l' = (\<lambda>b. if b = a then map_option f (nodes l b) else nodes l b)"
    by blast
  have "links (begin_node l) (end_node l) (nodes l') as"
    by (rule links_frame [OF R(2)]) (auto simp: l'(4) f option.map_comp comp_def)
  moreover have "sames (all_nodes l) (nodes l') as p" for p
    by (rule sames_frame [OF R(3)]) (use L(2) in \<open>auto simp: l'(4) f option.map_comp comp_def\<close>)
  moreover have "runs_of (nodes l') us = runs_of (nodes l) us" "runs_of (nodes l') vs = runs_of (nodes l) vs"
    using L(1,2) as by (auto intro!: runs_of_cong simp: l'(4))
  ultimately show ?thesis
    using l' n R(4) as by (intro that [of l' n]) auto
qed

lemma rep_upd_last:
  assumes "pcl_rep_at as l xs" "end_node l = Some e"
  obtains us n where "as = us @ [e]" "nodes l e = Some n" "xs = runs_of (nodes l) us @ [run_of n]"
proof -
  note R = pcl_rep_atD [OF assms(1)]
  obtain us where us: "as = us @ [e]"
    using linksD(4) [OF R(2)] assms(2) by (cases as rule: rev_cases) auto
  moreover obtain n where "nodes l e = Some n" using linksD(2) [OF R(2), of e] us by auto
  ultimately show ?thesis using R(4) by (intro that [of us n]) auto
qed

lemma push_back_rep:
  assumes r: "pcl_rep l xs"
  shows "\<exists>l'. push_back p c l = Some l' \<and> pcl_rep l' (a_push p c xs)"
proof -
  obtain as where as: "pcl_rep_at as l xs" using r by (auto simp: pcl_rep_def)
  note R = pcl_rep_atD [OF as]
  note L = linksD [OF R(2)]
  have wf: "a_wf (a_push p c xs)" using R(5) by (rule a_wf_push)
  have live: "\<forall>a \<in> set as. nodes l a \<noteq> None" using L(2) by blast
  have ix: "all_nodes l p = (if same (nodes l) as p = [] then None else Some (same (nodes l) as p))"
    using R(3) by (simp add: sames_def)
  show ?thesis
  proof (cases "end_node l")
    case None
    then have e: "as = []" "xs = []" using L(4) R(4) by (auto simp: last_opt_eq split: if_splits)
    have w: "a_wf (xs @ [(p, 1, c)])" using e by simp
    have ps: "None = last_opt (same (nodes l) as p)" by (simp add: e same_def)
    obtain a l1 where a: "alloc_node p None (end_node l) c l = Some (a, l1)" "core l1 = core l"
      and rep: "\<And>l2. begin_node l2 = hd_opt (as @ [a]) \<Longrightarrow> end_node l2 = Some a \<Longrightarrow>
       all_nodes l2 = all_nodes l \<Longrightarrow> obj_pool l2 = obj_pool l1 \<Longrightarrow> a_wf (xs @ [(p, 1, c)]) \<Longrightarrow>
       pcl_rep_at (as @ [a]) (index_node p a l2) (xs @ [(p, 1, c)])"
      using rep_alloc [OF as ps, of c] by blast
    have "pcl_rep_at (as @ [a]) (index_node p a (l1\<lparr>begin_node := Some a, end_node := Some a\<rparr>))
            (xs @ [(p, 1, c)])"
      using a w by (intro rep) (auto simp: e)
    then show ?thesis using a None e
      by (auto simp: push_back_def a_push_def pcl_rep_def)
  next
    case (Some e)
    obtain us n where us: "as = us @ [e]" "nodes l e = Some n" "xs = runs_of (nodes l) us @ [run_of n]"
      using rep_upd_last [OF as Some] by blast
    show ?thesis
    proof (cases "node_prop n = p")
      case True
      obtain l' m where l': "upd_node e (\<lambda>n. n\<lparr>node_count := node_count n + 1\<rparr>) l = Some l'"
        "nodes l e = Some m" "node_pool_inv (obj_pool l')"
        "links (begin_node l') (end_node l') (nodes l') as"
        "\<And>p. sames (all_nodes l') (nodes l') as p"
        "runs_of (nodes l') as = runs_of (nodes l) us @ [run_of (m\<lparr>node_count := node_count m + 1\<rparr>)]"
        by (rule rep_upd [OF as us(1), of "\<lambda>n. n\<lparr>node_count := node_count n + 1\<rparr>"]) auto
      have "runs_of (nodes l') as = a_push p c xs"
        using True us l'(2,6) by (auto simp: a_push_def run_of_def)
      then have "pcl_rep l' (a_push p c xs)" using l'(3-5) wf by (auto simp: pcl_rep_def pcl_rep_at_def)
      then show ?thesis using Some us(2) True l'(1) by (simp add: push_back_def)
    next
      case False
      let ?c = "c \<and> p \<notin> run_props xs"
      have ap: "a_push p c xs = xs @ [(p, 1, ?c)]" using False us(3) by (auto simp: a_push_def run_of_def)
      have mem: "p \<in> run_props xs \<longleftrightarrow> same (nodes l) as p \<noteq> []"
        unfolding R(4) by (rule run_props_same [OF live])
      let ?ps = "last_opt (same (nodes l) as p)"
      obtain a l1 where a: "alloc_node p ?ps (end_node l) ?c l = Some (a, l1)" "core l1 = core l"
        and rep: "\<And>l2. begin_node l2 = hd_opt (as @ [a]) \<Longrightarrow> end_node l2 = Some a \<Longrightarrow>
         all_nodes l2 = all_nodes l \<Longrightarrow> obj_pool l2 = obj_pool l1 \<Longrightarrow> a_wf (xs @ [(p, 1, ?c)]) \<Longrightarrow>
         pcl_rep_at (as @ [a]) (index_node p a l2) (xs @ [(p, 1, ?c)])"
        using rep_alloc [OF as refl, of p ?c] by blast
      have "pcl_rep_at (as @ [a]) (index_node p a (l1\<lparr>end_node := Some a\<rparr>)) (a_push p c xs)"
        unfolding ap using a(2) wf L(3) us(1) by (intro rep) (auto simp: ap hd_opt_eq hd_append)
      moreover have "push_back p c l = Some (index_node p a (l1\<lparr>end_node := Some a\<rparr>))"
        using a(1) Some us(2) False mem ix
        by (cases "same (nodes l) as p = []") (auto simp: push_back_def last_opt_eq)
      ultimately show ?thesis by (auto simp: pcl_rep_def)
    qed
  qed
qed

lemma a_reset_split: "p \<notin> run_props us \<Longrightarrow> a_reset p (us @ (p, n, b) # vs) = us @ (p, n, True) # vs"
  by (induction p us rule: a_reset.induct) auto

lemma a_reset_notin: "p \<notin> run_props xs \<Longrightarrow> a_reset p xs = xs"
  by (induction p xs rule: a_reset.induct) auto

lemma reset_prop_rep:
  assumes r: "pcl_rep l xs"
  shows "\<exists>l'. reset_prop p l = Some l' \<and> pcl_rep l' (a_reset p xs)"
proof -
  obtain as where as: "pcl_rep_at as l xs" using r by (auto simp: pcl_rep_def)
  note R = pcl_rep_atD [OF as]
  note L = linksD [OF R(2)]
  have live: "\<forall>a \<in> set as. nodes l a \<noteq> None" using L(2) by blast
  have ix: "all_nodes l p = (if same (nodes l) as p = [] then None else Some (same (nodes l) as p))"
    using R(3) by (simp add: sames_def)
  show ?thesis
  proof (cases "same (nodes l) as p")
    case Nil
    then have "p \<notin> run_props xs" using run_props_same [OF live] R(4) by metis
    then show ?thesis using Nil ix r by (simp add: reset_prop_def a_reset_notin)
  next
    case (Cons a rest)
    then obtain us vs where us: "as = us @ a # vs" "\<forall>b \<in> set us. map_option node_prop (nodes l b) \<noteq> Some p"
      "map_option node_prop (nodes l a) = Some p"
      unfolding same_def by (auto dest!: filter_eq_ConsD)
    obtain l' n where l': "upd_node a (\<lambda>n. n\<lparr>node_can_pop := True\<rparr>) l = Some l'"
      "nodes l a = Some n" "node_pool_inv (obj_pool l')"
      "links (begin_node l') (end_node l') (nodes l') as"
      "\<And>p. sames (all_nodes l') (nodes l') as p"
      "xs = runs_of (nodes l) us @ run_of n # runs_of (nodes l) vs"
      "runs_of (nodes l') as =
         runs_of (nodes l) us @ run_of (n\<lparr>node_can_pop := True\<rparr>) # runs_of (nodes l) vs"
      by (rule rep_upd [OF as us(1), of "\<lambda>n. n\<lparr>node_can_pop := True\<rparr>"]) auto
    have "same (nodes l) us p = []" using us(2) by (simp add: same_def)
    then have "p \<notin> run_props (runs_of (nodes l) us)"
      using run_props_same [of us "nodes l" p] live us(1) by auto
    then have "runs_of (nodes l') as = a_reset p xs"
      using l'(2,6,7) us(3) a_reset_split [of p "runs_of (nodes l) us"] by (simp add: run_of_def)
    then have "pcl_rep l' (a_reset p xs)"
      using l'(3-5) a_wf_reset [OF R(5), of p] by (auto simp: pcl_rep_def pcl_rep_at_def)
    then show ?thesis using l'(1) Cons ix by (simp add: reset_prop_def)
  qed
qed

section \<open>pop_front\<close>

lemma find_can_pop_from:
  assumes l: "links b e h as"
  shows "as = ws @ us @ x # vs \<Longrightarrow> \<forall>r \<in> set (runs_of h us). \<not> snd (snd r) \<Longrightarrow>
    h x = Some n \<Longrightarrow> node_can_pop n \<Longrightarrow> find_can_pop h (hd_opt (us @ x # vs)) = Some x"
proof (induction us arbitrary: ws)
  case Nil
  then show ?case by (simp add: find_can_pop.simps)
next
  case (Cons a us)
  obtain m where m: "h a = Some m" using linksD(2) [OF l, of a] Cons.prems(1) by auto
  have "next_list m = hd_opt (us @ x # vs)"
    using linksD(6) [OF l m] linksD(1) [OF l] next_in_split [of ws a "us @ x # vs"] Cons.prems(1)
    by simp
  moreover have "find_can_pop h (hd_opt (us @ x # vs)) = Some x"
    using Cons.prems by (intro Cons.IH [of "ws @ [a]"]) auto
  moreover have "\<not> node_can_pop m" using Cons.prems(2) m by (simp add: run_of_def)
  ultimately show ?case using m by (simp add: find_can_pop.simps)
qed

lemma find_can_pop_rep:
  assumes r: "pcl_rep_at as l xs" and op: "a_pop xs \<noteq> None"
  obtains us x vs n where "as = us @ x # vs" "nodes l x = Some n" "node_can_pop n"
    "find_can_pop (nodes l) (begin_node l) = Some x"
    "\<forall>r \<in> set (runs_of (nodes l) us). \<not> snd (snd r)"
    "xs = runs_of (nodes l) us @ run_of n # runs_of (nodes l) vs"
proof -
  note R = pcl_rep_atD [OF r]
  note L = linksD [OF R(2)]
  have "\<exists>x \<in> set as. snd (snd (run_of (the (nodes l x))))"
    using op unfolding a_pop_None_iff R(4) by (auto simp: runs_of_def)
  then obtain us x vs where us: "as = us @ x # vs" "snd (snd (run_of (the (nodes l x))))"
      "\<forall>y \<in> set us. \<not> snd (snd (run_of (the (nodes l y))))"
    by (rule split_list_first_propE)
  obtain n where n: "nodes l x = Some n" using L(2) [of x] us(1) by auto
  have cl: "\<forall>r \<in> set (runs_of (nodes l) us). \<not> snd (snd r)" using us(3) by (auto simp: runs_of_def)
  have "find_can_pop (nodes l) (hd_opt (us @ x # vs)) = Some x"
    using us n by (intro find_can_pop_from [OF R(2), of "[]"] cl) (auto simp: run_of_def)
  then show ?thesis using us n cl L(3) R(4) by (intro that [of us x vs n]) (auto simp: run_of_def)
qed

text \<open>Unlinking a node from the list; the neighbours inherit each other.\<close>

definition unlinked :: "addr \<Rightarrow> 'p pnode \<Rightarrow> 'p heap \<Rightarrow> 'p heap" where
  "unlinked x n h = (\<lambda>b. if b = x then None else map_option (\<lambda>m.
     m\<lparr>pre_list := (if next_list n = Some b then pre_list n else pre_list m),
       next_list := (if pre_list n = Some b then next_list n else next_list m)\<rparr>) (h b))"

lemma links_unlink:
  assumes l: "links b e h as" and x: "h x = Some n"
  shows "links (if b = Some x then next_list n else b) (if e = Some x then pre_list n else e)
           (unlinked x n h) (removeAll x as)"
proof -
  note L = linksD [OF l]
  have "unlinked x n h c \<noteq> None \<longleftrightarrow> c \<in> set (removeAll x as)" for c
    using L(2) [of c] by (auto simp: unlinked_def)
  moreover have "pre_list m = prev_in (removeAll x as) c \<and> next_list m = next_in (removeAll x as) c"
    if m: "unlinked x n h c = Some m" for c m
  proof -
    obtain k where k: "h c = Some k" "c \<noteq> x" using m by (auto simp: unlinked_def split: if_splits)
    have km: "m = k\<lparr>pre_list := (if next_list n = Some c then pre_list n else pre_list k),
               next_list := (if pre_list n = Some c then next_list n else next_list k)\<rparr>"
      using m k by (simp add: unlinked_def)
    have "next_list n = Some c \<longleftrightarrow> prev_in as c = Some x"
      "pre_list n = Some c \<longleftrightarrow> next_in as c = Some x"
      using L(5,6) [OF x] prev_next_in [OF L(1)] by auto
    then show ?thesis
      using k km L(5,6) [OF k(1)] L(5,6) [OF x] by (simp add: next_in_remove prev_in_remove L(1))
  qed
  ultimately show ?thesis
    using L(1) L(5,6) [OF x]
    by (simp add: links_def hd_opt_remove last_opt_remove distinct_removeAll L(3,4))
qed

lemma runs_unlink:
  "distinct (us @ x # vs) \<Longrightarrow> \<forall>a \<in> set (us @ x # vs). h a \<noteq> None \<Longrightarrow>
     runs_of (unlinked x n h) (removeAll x (us @ x # vs)) = runs_of h us @ runs_of h vs"
proof -
  assume d: "distinct (us @ x # vs)" and live: "\<forall>a \<in> set (us @ x # vs). h a \<noteq> None"
  have "runs_of (unlinked x n h) ws = runs_of h ws" if "x \<notin> set ws" "\<forall>a \<in> set ws. h a \<noteq> None" for ws
    using that by (intro runs_of_cong)
      (auto simp: unlinked_def run_of_def [abs_def] option.map_comp comp_def)
  then show ?thesis using d live by (simp add: runs_of_def [symmetric])
qed

lemma unlink_list_ok:
  assumes inv: "node_pool_inv (obj_pool l)" and l: "links (begin_node l) (end_node l) (nodes l) as"
    and x: "nodes l x = Some n"
  obtains l' where "unlink_list x l = Some l'" "node_pool_inv (obj_pool l')"
    "links (begin_node l') (end_node l') (nodes l') (removeAll x as)"
    "nodes l' = unlinked x n (nodes l)" "all_nodes l' = all_nodes l"
proof -
  note L = linksD [OF l]
  have b1: "nodes l c \<noteq> None" if "next_list n = Some c" for c
    using that L(2) [of c] L(6) [OF x] by (auto dest: next_in_mem)
  from upd_opt_ok [OF inv b1, where f = "\<lambda>m. m\<lparr>pre_list := pre_list n\<rparr>"]
  obtain l1 where l1: "upd_opt (next_list n) (\<lambda>m. m\<lparr>pre_list := pre_list n\<rparr>) l = Some l1"
      "node_pool_inv (obj_pool l1)" "core l1 = core l"
      "nodes l1 = (\<lambda>b. if next_list n = Some b
          then map_option (\<lambda>m. m\<lparr>pre_list := pre_list n\<rparr>) (nodes l b) else nodes l b)"
    by blast
  have b2: "nodes l1 c \<noteq> None" if "pre_list n = Some c" for c
    using that L(2) [of c] L(5) [OF x] by (auto simp: l1(4) dest: prev_in_mem)
  from upd_opt_ok [OF l1(2) b2, where f = "\<lambda>m. m\<lparr>next_list := next_list n\<rparr>"]
  obtain l2 where l2: "upd_opt (pre_list n) (\<lambda>m. m\<lparr>next_list := next_list n\<rparr>) l1 = Some l2"
      "node_pool_inv (obj_pool l2)" "core l2 = core l1"
      "nodes l2 = (\<lambda>b. if pre_list n = Some b
          then map_option (\<lambda>m. m\<lparr>next_list := next_list n\<rparr>) (nodes l1 b) else nodes l1 b)"
    by blast
  have nx: "next_list n \<noteq> Some x" "pre_list n \<noteq> Some x"
    using L(5,6) [OF x] next_in_neq [OF L(1)] prev_next_in [OF L(1)] by (metis, metis)
  let ?l4 = "l2\<lparr>begin_node := (if begin_node l = Some x then next_list n else begin_node l),
      end_node := (if end_node l = Some x then pre_list n else end_node l)\<rparr>"
  let ?l5 = "?l4\<lparr>obj_pool := pool_deallocate x (obj_pool l2)\<rparr>"
  have "nodes ?l4 x \<noteq> None" using x nx by (auto simp: nodes_def [of ?l4]) (auto simp: nodes_def [symmetric] l2(4) l1(4))
  with dealloc_ok [of ?l4 x] l2(2)
  have d: "node_pool_inv (obj_pool ?l5)" "nodes ?l5 = (nodes l2)(x := None)"
    by (auto simp: nodes_def)
  have h: "nodes ?l5 = unlinked x n (nodes l)"
    unfolding d(2) using nx
    by (auto simp: unlinked_def l2(4) l1(4) fun_eq_iff option.map_comp comp_def option.map_ident)
  have "unlink_list x l = Some ?l5"
    using x l1(1,3) l2(1,3) by (auto simp: unlink_list_def Let_def)
  moreover have "links (begin_node ?l5) (end_node ?l5) (nodes ?l5) (removeAll x as)"
    using links_unlink [OF l x] unfolding h by simp
  moreover have "all_nodes ?l5 = all_nodes l" using l1(3) l2(3) by simp
  ultimately show ?thesis using that [of ?l5] d(1) h by simp
qed

text \<open>What unlinking does to the nodes of one property.\<close>

lemma same_unlink:
  assumes "h' = (\<lambda>b. if b = x then None else map_option (g b) (h b))"
    and "\<And>b m. node_prop (g b m) = node_prop m"
  shows "same h' (removeAll x as) q = removeAll x (same h as q)"
proof -
  have "map_option node_prop (h' a) = Some q \<longleftrightarrow> a \<noteq> x \<and> map_option node_prop (h a) = Some q" for a
    by (auto simp: assms option.map_comp comp_def)
  then show ?thesis by (auto simp: same_def removeAll_filter_not_eq intro: filter_cong)
qed

lemma sames_unlink_other:
  assumes s: "sames ix h as q" and x: "h x = Some n" "node_prop n \<noteq> q"
    and h': "h' = (\<lambda>b. if b = x then None else map_option (g b) (h b))"
    and g: "\<And>b m. node_prop (g b m) = node_prop m"
      "\<And>b m. h b = Some m \<Longrightarrow> node_prop m = q \<Longrightarrow> pre_same (g b m) = pre_same m \<and> next_same (g b m) = next_same m"
    and ix': "ix' q = ix q"
  shows "sames ix' h' (removeAll x as) q"
proof -
  have "x \<notin> set (same h as q)" using x same_mem [of x h as q] by auto
  then have s': "same h' (removeAll x as) q = same h as q" by (simp add: same_unlink [OF h' g(1)])
  have "pre_same m = prev_in (same h as q) c \<and> next_same m = next_in (same h as q) c"
    if m: "h' c = Some m" "node_prop m = q" for c m
  proof -
    obtain k where k: "h c = Some k" "c \<noteq> x" "m = g c k" using m(1) by (auto simp: h' split: if_splits)
    then show ?thesis using s g m(2) by (auto simp: sames_def)
  qed
  then show ?thesis using s ix' by (simp add: sames_def s')
qed

text \<open>The first node of its property goes; the next one becomes the first.\<close>

lemma sames_unlink_first:
  assumes s: "sames ix h as p" and d: "distinct as" and sp: "same h as p = x # ys"
    and h': "h' = (\<lambda>b. if b = x then None else map_option (g b) (h b))"
    and g: "\<And>b m. node_prop (g b m) = node_prop m"
      "\<And>b m. pre_same (g b m) = (if hd_opt ys = Some b then None else pre_same m)"
      "\<And>b m. next_same (g b m) = next_same m"
    and ix': "ix' p = (if ys = [] then None else Some ys)"
  shows "sames ix' h' (removeAll x as) p"
proof -
  have dx: "distinct (x # ys)" using d by (simp add: sp [symmetric] same_def)
  then have s': "same h' (removeAll x as) p = ys" by (simp add: same_unlink [OF h' g(1)] sp)
  have "pre_same m = prev_in ys c \<and> next_same m = next_in ys c"
    if m: "h' c = Some m" "node_prop m = p" for c m
  proof -
    obtain k where k: "h c = Some k" "c \<noteq> x" "m = g c k" using m(1) by (auto simp: h' split: if_splits)
    have "pre_same k = prev_in (x # ys) c" "next_same k = next_in (x # ys) c"
      using s k m(2) g(1) by (auto simp: sames_def sp)
    moreover have "prev_in ys c = (if hd_opt ys = Some c then None else prev_in (x # ys) c)"
      using prev_in_remove [OF dx k(2)] dx prev_next_in [OF dx, of c x] k(2)
        prev_in_split [of "[]" x ys]
      by (auto simp: next_in_Cons hd_opt_def split: list.splits)
    moreover have "next_in ys c = next_in (x # ys) c" using k(2) by (simp add: next_in_Cons)
    ultimately show ?thesis using k(3) g by auto
  qed
  then show ?thesis using ix' by (simp add: sames_def s')
qed

lemma unlink_same_ok:
  assumes inv: "node_pool_inv (obj_pool l)" and l: "links b e (nodes l) as"
    and s: "sames (all_nodes l) (nodes l) as p"
    and sp: "same (nodes l) as p = x # ys" and x: "nodes l x = Some n" "node_prop n = p"
  obtains l' where "unlink_same n l = Some l'" "node_pool_inv (obj_pool l')"
    "begin_node l' = begin_node l" "end_node l' = end_node l"
    "all_nodes l' = (all_nodes l)(p := if ys = [] then None else Some ys)"
    "nodes l' = (\<lambda>b. if hd_opt ys = Some b then map_option (\<lambda>m. m\<lparr>pre_same := None\<rparr>) (nodes l b)
                   else nodes l b)"
proof -
  have ns: "next_same n = hd_opt ys"
    using s x by (auto simp: sames_def sp next_in_Cons hd_opt_def)
  have ix: "all_nodes l p = Some (x # ys)" using s by (simp add: sames_def sp)
  show ?thesis
  proof (cases ys)
    case Nil
    then show ?thesis using ns inv x(2)
      by (intro that [of "l\<lparr>all_nodes := (all_nodes l)(p := None)\<rparr>"])
         (auto simp: unlink_same_def nodes_def)
  next
    case (Cons y zs)
    have "nodes l y \<noteq> None" using same_mem [of y "nodes l" as p] by (auto simp: sp Cons)
    from upd_node_ok [OF inv this, of "\<lambda>m. m\<lparr>pre_same := None\<rparr>"]
    obtain l1 where l1: "upd_node y (\<lambda>m. m\<lparr>pre_same := None\<rparr>) l = Some l1"
      "node_pool_inv (obj_pool l1)" "core l1 = core l"
      "nodes l1 = (\<lambda>b. if b = y then map_option (\<lambda>m. m\<lparr>pre_same := None\<rparr>) (nodes l b) else nodes l b)"
      by blast
    then show ?thesis using ns ix x(2) Cons
      by (intro that [of "l1\<lparr>all_nodes := (all_nodes l1)(p \<mapsto> ys)\<rparr>"])
         (auto simp: unlink_same_def nodes_def fun_eq_iff)
  qed
qed

lemma pop_front_rep:
  assumes r: "pcl_rep l xs" and op: "a_pop xs = Some (p, ys)"
  shows "\<exists>l'. pop_front l = Some (p, l') \<and> pcl_rep l' ys"
proof -
  obtain as where as: "pcl_rep_at as l xs" using r by (auto simp: pcl_rep_def)
  note R = pcl_rep_atD [OF as]
  obtain us x vs n where x: "as = us @ x # vs" "nodes l x = Some n" "node_can_pop n"
    "find_can_pop (nodes l) (begin_node l) = Some x"
    "\<forall>r \<in> set (runs_of (nodes l) us). \<not> snd (snd r)"
    "xs = runs_of (nodes l) us @ run_of n # runs_of (nodes l) vs"
    by (rule find_can_pop_rep [OF as]) (use op in auto)
  have ap: "p = node_prop n" "ys = runs_of (nodes l) us @
      (if node_count n > 1 then [(p, node_count n - 1, False)] else []) @ runs_of (nodes l) vs"
    using a_pop_split [OF x(5), of "node_prop n" "node_count n" "runs_of (nodes l) vs"] op x(3,6)
    by (auto simp: run_of_def)
  have wf: "a_wf ys" using a_wf_pop [OF R(5) op] .
  have cpos: "node_count n > 0" using R(5) by (simp add: x(6) a_wf_append run_of_def)
  let ?f = "\<lambda>n. n\<lparr>node_count := node_count n - 1\<rparr>"
  obtain l1 m where l1: "upd_node x ?f l = Some l1" "nodes l x = Some m" "nodes l1 x = Some (?f m)"
      "node_pool_inv (obj_pool l1)" "core l1 = core l"
      "links (begin_node l1) (end_node l1) (nodes l1) as"
      "\<And>p. sames (all_nodes l1) (nodes l1) as p"
      "runs_of (nodes l1) as = runs_of (nodes l) us @ run_of (?f m) # runs_of (nodes l) vs"
    by (rule rep_upd [OF as x(1), of ?f]) auto
  have mn: "m = n" using l1(2) x(2) by simp
  have L1: "distinct as" "\<And>a. nodes l1 a \<noteq> None \<longleftrightarrow> a \<in> set as" using linksD [OF l1(6)] by blast+
  have "length (runs_of (nodes l1) us) = length (runs_of (nodes l) us)" by (simp add: runs_of_def)
  then have r1: "runs_of (nodes l1) us = runs_of (nodes l) us"
      "runs_of (nodes l1) vs = runs_of (nodes l) vs"
    using l1(8) x(1) by auto
  show ?thesis
  proof (cases "node_count n > 1")
    case True
    have wf1: "a_wf (runs_of (nodes l1) as)"
      using R(5) True by (auto simp: l1(8) mn x(6) a_wf_append run_of_def)
    have rp: "pcl_rep_at as l1 (runs_of (nodes l1) as)" using l1 wf1 by (simp add: pcl_rep_at_def)
    let ?g = "\<lambda>n. n\<lparr>node_can_pop := False\<rparr>"
    obtain l2 k where l2: "upd_node x ?g l1 = Some l2"
        "node_pool_inv (obj_pool l2)" "links (begin_node l2) (end_node l2) (nodes l2) as"
        "\<And>p. sames (all_nodes l2) (nodes l2) as p"
        "runs_of (nodes l2) as = runs_of (nodes l1) us @ run_of (?g k) # runs_of (nodes l1) vs"
        "nodes l1 x = Some k"
      by (rule rep_upd [OF rp x(1), of ?g]) auto
    have "k = ?f m" using l2(6) l1(3) by simp
    then have "runs_of (nodes l2) as = ys" using True by (simp add: l2(5) r1 ap mn run_of_def)
    then have "pcl_rep l2 ys" using l2 wf by (auto simp: pcl_rep_def pcl_rep_at_def)
    moreover have "pop_front l = Some (p, l2)"
      using x(4) l1(1,3) l2(1) True by (simp add: pop_front_def mn ap(1))
    ultimately show ?thesis by blast
  next
    case False
    have sp: "same (nodes l1) as p = x # same (nodes l1) vs p"
    proof -
      have "p \<notin> run_props (runs_of (nodes l1) us)"
        using R(5) x(3) by (auto simp: r1 x(6) a_wf_append run_of_def ap(1))
      then have "same (nodes l1) us p = []"
        using run_props_same [of us "nodes l1" p] L1(2) x(1) by auto
      then show ?thesis using l1(3) by (simp add: same_def x(1) ap(1) mn)
    qed
    let ?n = "?f n" and ?zs = "same (nodes l1) vs p"
    obtain l2 where l2: "unlink_same ?n l1 = Some l2" "node_pool_inv (obj_pool l2)"
      "begin_node l2 = begin_node l1" "end_node l2 = end_node l1"
      "all_nodes l2 = (all_nodes l1)(p := if ?zs = [] then None else Some ?zs)"
      "nodes l2 = (\<lambda>b. if hd_opt ?zs = Some b then map_option (\<lambda>m. m\<lparr>pre_same := None\<rparr>) (nodes l1 b)
                   else nodes l1 b)"
      by (rule unlink_same_ok [OF l1(4,6,7) sp, of ?n]) (use l1(3) mn ap(1) in auto)
    have lk2: "links (begin_node l2) (end_node l2) (nodes l2) as"
      unfolding l2(3,4) by (rule links_frame [OF l1(6)]) (auto simp: l2(6) option.map_comp comp_def)
    have nzs: "hd_opt ?zs \<noteq> Some x"
      using L1(1) x(1) by (auto simp: hd_opt_eq same_def dest!: hd_in_set split: if_splits)
    have x2: "nodes l2 x = Some ?n" using l1(3) mn nzs by (simp add: l2(6))
    obtain l3 where l3: "unlink_list x l2 = Some l3" "node_pool_inv (obj_pool l3)"
      "links (begin_node l3) (end_node l3) (nodes l3) (removeAll x as)"
      "nodes l3 = unlinked x ?n (nodes l2)" "all_nodes l3 = all_nodes l2"
      by (rule unlink_list_ok [OF l2(2) lk2 x2])
    define g where "g b m = m\<lparr>pre_same := (if hd_opt ?zs = Some b then None else pre_same m),
       pre_list := (if next_list ?n = Some b then pre_list ?n else pre_list m),
       next_list := (if pre_list ?n = Some b then next_list ?n else next_list m)\<rparr>"
      for b and m :: "'a pnode"
    have h3: "nodes l3 = (\<lambda>b. if b = x then None else map_option (g b) (nodes l1 b))"
      by (auto simp: l3(4) unlinked_def l2(6) g_def fun_eq_iff option.map_comp comp_def
          intro!: option.map_cong0)
    have "sames (all_nodes l3) (nodes l3) (removeAll x as) q" for q
    proof (cases "q = p")
      case True
      have "sames (all_nodes l3) (nodes l3) (removeAll x as) p"
        by (rule sames_unlink_first [OF l1(7) L1(1) sp h3]) (auto simp: g_def l3(5) l2(5))
      then show ?thesis using True by simp
    next
      case False
      have "hd_opt ?zs \<noteq> Some c" if "nodes l1 c = Some m'" "node_prop m' = q" for c m'
        using that False same_mem [of c "nodes l1" vs p] by (auto simp: hd_opt_eq dest!: hd_in_set split: if_splits)
      then show ?thesis using False mn ap(1)
        by (intro sames_unlink_other [OF l1(7) l1(3) _ h3]) (auto simp: g_def l3(5) l2(5))
    qed
    moreover have "runs_of (nodes l3) (removeAll x as) = ys"
    proof -
      have "runs_of (nodes l3) (removeAll x as) = runs_of (nodes l2) us @ runs_of (nodes l2) vs"
        using linksD(1,2) [OF lk2] unfolding l3(4) x(1) by (intro runs_unlink) auto
      moreover have "runs_of (nodes l2) us = runs_of (nodes l1) us" "runs_of (nodes l2) vs = runs_of (nodes l1) vs"
        using L1(2) x(1)
        by (auto intro!: runs_of_cong simp: l2(6) option.map_comp comp_def run_of_def [abs_def])
      ultimately show ?thesis using False by (simp add: ap(2) r1)
    qed
    ultimately have "pcl_rep l3 ys" using l3(2,3) wf by (auto simp: pcl_rep_def pcl_rep_at_def)
    moreover have "pop_front l = Some (p, l3)"
      using x(4) l1(1,3) l2(1) l3(1) False by (simp add: pop_front_def mn ap(1))
    ultimately show ?thesis by blast
  qed
qed

section \<open>remove_prop and clear\<close>

text \<open>One round of the loop of remove_prop unlinks the node and keeps the flags right.\<close>

lemma upd_opt_noop:
  assumes inv: "node_pool_inv (obj_pool l)" and ok: "\<And>a. x = Some a \<Longrightarrow> nodes l a \<noteq> None"
    and id: "\<And>a n. x = Some a \<Longrightarrow> nodes l a = Some n \<Longrightarrow> f n = n"
  obtains l' where "upd_opt x f l = Some l'" "node_pool_inv (obj_pool l')" "core l' = core l"
    "nodes l' = nodes l"
proof -
  from upd_opt_ok [OF inv ok, of x f]
  obtain l' where l': "upd_opt x f l = Some l'" "node_pool_inv (obj_pool l')" "core l' = core l"
    "nodes l' = (\<lambda>b. if x = Some b then map_option f (nodes l b) else nodes l b)"
    by blast
  have "nodes l' = nodes l" using id by (auto simp: l'(4) fun_eq_iff map_option_case split: option.splits)
  then show ?thesis using that l' by blast
qed

lemma prop_at_eq: "nodes l = nodes l' \<Longrightarrow> prop_at l x = prop_at l' x"
  by (simp add: prop_at_def)

lemma fix_begin_ok:
  assumes inv: "node_pool_inv (obj_pool l)" and nb: "nb \<longleftrightarrow> prop_at l (begin_node l) = Some p"
    and x: "prop_at l (Some item) = Some p"
    and nx: "\<And>a. nx = Some a \<Longrightarrow> nodes l a \<noteq> None \<and> a \<noteq> item"
    and pre: "\<And>a n. begin_node l = Some item \<Longrightarrow> nx = Some a \<Longrightarrow> nodes l a = Some n \<Longrightarrow> pre_list n = None"
  obtains nb' l' where "fix_begin p item nx nb l = Some (nb', l')" "node_pool_inv (obj_pool l')"
    "nodes l' = nodes l" "begin_node l' = (if begin_node l = Some item then nx else begin_node l)"
    "end_node l' = end_node l" "all_nodes l' = all_nodes l"
    "nb' \<longleftrightarrow> prop_at l' (begin_node l') = Some p"
proof (cases "begin_node l = Some item")
  case True
  let ?l = "l\<lparr>begin_node := nx\<rparr>"
  have n: "nodes ?l = nodes l" by (simp add: nodes_def)
  obtain l1 where l1: "upd_opt nx (\<lambda>m. m\<lparr>pre_list := None\<rparr>) ?l = Some l1"
      "node_pool_inv (obj_pool l1)" "core l1 = core ?l" "nodes l1 = nodes ?l"
  proof (rule upd_opt_noop [of ?l nx "\<lambda>m. m\<lparr>pre_list := None\<rparr>"])
    show "\<And>a n. nx = Some a \<Longrightarrow> nodes ?l a = Some n \<Longrightarrow> n\<lparr>pre_list := None\<rparr> = n"
      using pre [OF True] unfolding n by (metis pnode.surjective pnode.update_convs(3))
  qed (use inv nx n in auto)
  moreover have nb1: "nb" using nb x True by simp
  ultimately show ?thesis using True n
    by (intro that [of "prop_at l1 nx = Some p" l1]) (auto simp: fix_begin_def)
next
  case False
  then show ?thesis using inv nb by (intro that [of nb l]) (auto simp: fix_begin_def)
qed

lemma fix_end_ok:
  assumes inv: "node_pool_inv (obj_pool l)" and ne: "ne \<longleftrightarrow> prop_at l (end_node l) = Some p"
    and x: "prop_at l (Some item) = Some p"
    and pv: "\<And>a. pv = Some a \<Longrightarrow> nodes l a \<noteq> None \<and> a \<noteq> item"
    and pre: "\<And>a n. end_node l = Some item \<Longrightarrow> pv = Some a \<Longrightarrow> nodes l a = Some n \<Longrightarrow> next_list n = None"
  obtains ne' l' where "fix_end p item pv ne l = Some (ne', l')" "node_pool_inv (obj_pool l')"
    "nodes l' = nodes l" "end_node l' = (if end_node l = Some item then pv else end_node l)"
    "begin_node l' = begin_node l" "all_nodes l' = all_nodes l"
    "ne' \<longleftrightarrow> prop_at l' (end_node l') = Some p"
proof (cases "end_node l = Some item")
  case True
  let ?l = "l\<lparr>end_node := pv\<rparr>"
  have n: "nodes ?l = nodes l" by (simp add: nodes_def)
  obtain l1 where l1: "upd_opt pv (\<lambda>m. m\<lparr>next_list := None\<rparr>) ?l = Some l1"
      "node_pool_inv (obj_pool l1)" "core l1 = core ?l" "nodes l1 = nodes ?l"
  proof (rule upd_opt_noop [of ?l pv "\<lambda>m. m\<lparr>next_list := None\<rparr>"])
    show "\<And>a n. pv = Some a \<Longrightarrow> nodes ?l a = Some n \<Longrightarrow> n\<lparr>next_list := None\<rparr> = n"
      using pre [OF True] unfolding n by (metis pnode.surjective pnode.update_convs(4))
  qed (use inv pv n in auto)
  moreover have "ne" using ne x True by simp
  ultimately show ?thesis using True n
    by (intro that [of "prop_at l1 pv = Some p" l1]) (auto simp: fix_end_def)
next
  case False
  then show ?thesis using inv ne by (intro that [of ne l]) (auto simp: fix_end_def)
qed

lemma remove_step_ok:
  assumes inv: "node_pool_inv (obj_pool l)" and lk: "links (begin_node l) (end_node l) (nodes l) as"
    and x: "nodes l x = Some n" "node_prop n = p"
    and nb: "nb \<longleftrightarrow> prop_at l (begin_node l) = Some p"
    and ne: "ne \<longleftrightarrow> prop_at l (end_node l) = Some p"
  obtains nb' ne' l' where "remove_loop p (x # items) nb ne l = remove_loop p items nb' ne' l'"
    "node_pool_inv (obj_pool l')" "nodes l' = unlinked x n (nodes l)"
    "links (begin_node l') (end_node l') (nodes l') (removeAll x as)" "all_nodes l' = all_nodes l"
    "nb' \<longleftrightarrow> prop_at l' (begin_node l') = Some p" "ne' \<longleftrightarrow> prop_at l' (end_node l') = Some p"
proof -
  note L = linksD [OF lk]
  note Lx = L(5,6) [OF x(1)]
  have b1: "nodes l c \<noteq> None" if "pre_list n = Some c" for c
    using that L(2) [of c] Lx by (auto dest: prev_in_mem)
  from upd_opt_ok [OF inv b1, where f = "\<lambda>m. m\<lparr>next_list := next_list n\<rparr>"]
  obtain l1 where l1: "upd_opt (pre_list n) (\<lambda>m. m\<lparr>next_list := next_list n\<rparr>) l = Some l1"
      "node_pool_inv (obj_pool l1)" "core l1 = core l"
      "nodes l1 = (\<lambda>b. if pre_list n = Some b
          then map_option (\<lambda>m. m\<lparr>next_list := next_list n\<rparr>) (nodes l b) else nodes l b)"
    by blast
  have b2: "nodes l1 c \<noteq> None" if "next_list n = Some c" for c
    using that L(2) [of c] Lx by (auto simp: l1(4) dest: next_in_mem)
  from upd_opt_ok [OF l1(2) b2, where f = "\<lambda>m. m\<lparr>pre_list := pre_list n\<rparr>"]
  obtain l2 where l2: "upd_opt (next_list n) (\<lambda>m. m\<lparr>pre_list := pre_list n\<rparr>) l1 = Some l2"
      "node_pool_inv (obj_pool l2)" "core l2 = core l1"
      "nodes l2 = (\<lambda>b. if next_list n = Some b
          then map_option (\<lambda>m. m\<lparr>pre_list := pre_list n\<rparr>) (nodes l1 b) else nodes l1 b)"
    by blast
  have nx: "next_list n \<noteq> Some x" "pre_list n \<noteq> Some x"
    using Lx next_in_neq [OF L(1)] prev_next_in [OF L(1)] by (metis, metis)
  have h2: "nodes l2 = (\<lambda>b. map_option (\<lambda>m.
     m\<lparr>pre_list := (if next_list n = Some b then pre_list n else pre_list m),
       next_list := (if pre_list n = Some b then next_list n else next_list m)\<rparr>) (nodes l b))"
    by (auto simp: l2(4) l1(4) fun_eq_iff option.map_comp comp_def option.map_ident
        intro!: option.map_cong0)
  have pa: "prop_at l2 = prop_at l"
    by (auto simp: prop_at_def h2 fun_eq_iff map_option_case split: option.splits bind_splits)
  obtain nb' l3 where l3: "fix_begin p x (next_list n) nb l2 = Some (nb', l3)"
      "node_pool_inv (obj_pool l3)" "nodes l3 = nodes l2"
      "begin_node l3 = (if begin_node l2 = Some x then next_list n else begin_node l2)"
      "end_node l3 = end_node l2" "all_nodes l3 = all_nodes l2"
      "nb' \<longleftrightarrow> prop_at l3 (begin_node l3) = Some p"
  proof (rule fix_begin_ok [OF l2(2), of nb p x "next_list n"])
    show "pre_list k = None" if "begin_node l2 = Some x" "next_list n = Some a" "nodes l2 a = Some k" for a k
    proof -
      have "x = hd as" using that(1) l1(3) l2(3) L(3) by (auto simp: hd_opt_eq split: if_splits)
      moreover have "x \<in> set as" using L(2) [of x] x by auto
      ultimately have "pre_list n = None" using prev_in_None_iff [OF L(1)] Lx by simp
      then show ?thesis using that(2,3) by (auto simp: h2)
    qed
    show "nb = (prop_at l2 (begin_node l2) = Some p)" using nb l1(3) l2(3) by (simp add: pa)
    show "prop_at l2 (Some x) = Some p" using x by (simp add: pa prop_at_def)
    show "nodes l2 a \<noteq> None \<and> a \<noteq> x" if "next_list n = Some a" for a
      using b2 [OF that] nx that by (auto simp: l2(4))
  qed
  obtain ne' l4 where l4: "fix_end p x (pre_list n) ne l3 = Some (ne', l4)"
      "node_pool_inv (obj_pool l4)" "nodes l4 = nodes l3"
      "end_node l4 = (if end_node l3 = Some x then pre_list n else end_node l3)"
      "begin_node l4 = begin_node l3" "all_nodes l4 = all_nodes l3"
      "ne' \<longleftrightarrow> prop_at l4 (end_node l4) = Some p"
  proof (rule fix_end_ok [OF l3(2), of ne p x "pre_list n"])
    show "next_list k = None" if "end_node l3 = Some x" "pre_list n = Some a" "nodes l3 a = Some k" for a k
    proof -
      have "x = last as" using that(1) l1(3) l2(3) l3(5) L(4) by (auto simp: last_opt_eq split: if_splits)
      moreover have "x \<in> set as" using L(2) [of x] x by auto
      ultimately have "next_list n = None" using next_in_None_iff [OF L(1)] Lx by simp
      then show ?thesis using that(2,3) by (auto simp: h2 l3(3))
    qed
    show "ne = (prop_at l3 (end_node l3) = Some p)"
      using ne l1(3) l2(3) by (simp add: prop_at_eq [OF l3(3)] pa l3(5))
    show "prop_at l3 (Some x) = Some p"
      using x by (simp add: prop_at_eq [OF l3(3)] pa prop_at_def [of l])
    show "\<And>a. pre_list n = Some a \<Longrightarrow> nodes l3 a \<noteq> None \<and> a \<noteq> x"
      using b1 nx by (auto simp: l3(3) h2)
  qed
  let ?l = "l4\<lparr>obj_pool := pool_deallocate x (obj_pool l4)\<rparr>"
  have "nodes l4 x \<noteq> None" using x by (simp add: l4(3) l3(3) h2)
  from dealloc_ok [OF l4(2) this]
  have d: "node_pool_inv (obj_pool ?l)" "nodes ?l = (nodes l4)(x := None)" by auto
  have h: "nodes ?l = unlinked x n (nodes l)"
    unfolding d(2) by (auto simp: unlinked_def l4(3) l3(3) h2 fun_eq_iff)
  have ends: "begin_node ?l = (if begin_node l = Some x then next_list n else begin_node l)"
    "end_node ?l = (if end_node l = Some x then pre_list n else end_node l)"
    using l1(3) l2(3) l3(4,5) l4(4,5) by auto
  have pe: "prop_at ?l y = prop_at l4 y" if "y \<noteq> Some x" for y
    unfolding prop_at_def d(2) using that by (cases y) auto
  show ?thesis
  proof (rule that [of nb' ne' ?l])
    show "remove_loop p (x # items) nb ne l = remove_loop p items nb' ne' ?l"
      using x(1) l1(1) l2(1) l3(1) l4(1) by simp
    show "links (begin_node ?l) (end_node ?l) (nodes ?l) (removeAll x as)"
      unfolding h ends by (rule links_unlink [OF lk x(1)])
    show "nb' \<longleftrightarrow> prop_at ?l (begin_node ?l) = Some p"
      using nx l3(7) l4(5) ends(1) by (simp add: pe prop_at_eq [OF l4(3)])
    show "ne' \<longleftrightarrow> prop_at ?l (end_node ?l) = Some p"
      using nx l4(7) ends(2) by (simp add: pe)
    show "all_nodes ?l = all_nodes l" using l1(3) l2(3) l3(6) l4(6) by simp
  qed (use d(1) h in simp_all)
qed

lemma a_remove_notin: "p \<notin> run_props xs \<Longrightarrow> a_remove p xs = xs"
  by (auto simp: a_remove_def run_props_def filter_id_conv)

lemma remove_loop_ok:
  "node_pool_inv (obj_pool l) \<Longrightarrow> links (begin_node l) (end_node l) (nodes l) as \<Longrightarrow>
   (\<forall>q. q \<noteq> p \<longrightarrow> sames (all_nodes l) (nodes l) as q) \<Longrightarrow> same (nodes l) as p = items \<Longrightarrow>
   nb \<longleftrightarrow> prop_at l (begin_node l) = Some p \<Longrightarrow> ne \<longleftrightarrow> prop_at l (end_node l) = Some p \<Longrightarrow>
   \<exists>l' as'. remove_loop p items nb ne l = Some l' \<and> node_pool_inv (obj_pool l') \<and>
     links (begin_node l') (end_node l') (nodes l') as' \<and> all_nodes l' = all_nodes l \<and>
     (\<forall>q. q \<noteq> p \<longrightarrow> sames (all_nodes l') (nodes l') as' q) \<and> same (nodes l') as' p = [] \<and>
     runs_of (nodes l') as' = a_remove p (runs_of (nodes l) as)"
proof (induction items arbitrary: as nb ne l)
  case Nil
  have "\<forall>a \<in> set as. nodes l a \<noteq> None" using linksD(2) [OF Nil.prems(2)] by blast
  then have "p \<notin> run_props (runs_of (nodes l) as)"
    using run_props_same Nil.prems(4) by metis
  then have "a_remove p (runs_of (nodes l) as) = runs_of (nodes l) as" by (rule a_remove_notin)
  then show ?case using Nil.prems by (intro exI [of _ l] exI [of _ as]) simp
next
  case (Cons x items)
  note L = linksD [OF Cons.prems(2)]
  have xin: "x \<in> set (same (nodes l) as p)" using Cons.prems(4) by simp
  then obtain n where n: "nodes l x = Some n" "node_prop n = p" and xas: "x \<in> set as"
    using same_mem [of x "nodes l" as p] by auto
  obtain nb' ne' l' where l': "remove_loop p (x # items) nb ne l = remove_loop p items nb' ne' l'"
    "node_pool_inv (obj_pool l')" "nodes l' = unlinked x n (nodes l)"
    "links (begin_node l') (end_node l') (nodes l') (removeAll x as)" "all_nodes l' = all_nodes l"
    "nb' \<longleftrightarrow> prop_at l' (begin_node l') = Some p" "ne' \<longleftrightarrow> prop_at l' (end_node l') = Some p"
    by (rule remove_step_ok [OF Cons.prems(1,2) n Cons.prems(5,6)])
  have s: "sames (all_nodes l') (nodes l') (removeAll x as) q" if "q \<noteq> p" for q
    using Cons.prems(3) that n(2)
    by (intro sames_unlink_other [OF _ n(1) _ l'(3) [unfolded unlinked_def]]) (auto simp: l'(5))
  have "distinct (x # items)" unfolding Cons.prems(4) [symmetric] using L(1) by (simp add: same_def)
  moreover have "same (nodes l') (removeAll x as) p = removeAll x (same (nodes l) as p)"
    by (rule same_unlink [OF l'(3) [unfolded unlinked_def]]) simp
  ultimately have sp: "same (nodes l') (removeAll x as) p = items" by (simp add: Cons.prems(4))
  obtain us vs where us: "as = us @ x # vs" using xas by (meson split_list)
  have "runs_of (nodes l') (removeAll x as) = runs_of (nodes l) us @ runs_of (nodes l) vs"
    unfolding l'(3) us using L(1,2) us by (intro runs_unlink) auto
  then have ru: "a_remove p (runs_of (nodes l') (removeAll x as)) = a_remove p (runs_of (nodes l) as)"
    using n by (simp add: us a_remove_def run_of_def)
  from Cons.IH [OF l'(2,4) _ sp l'(6,7)] s
  show ?case unfolding l'(1) ru l'(5) by simp
qed

lemma remove_prop_rep:
  assumes r: "pcl_rep l xs"
  shows "\<exists>l'. remove_prop p l = Some l' \<and> pcl_rep l' (a_remove p xs)"
proof -
  obtain as where as: "pcl_rep_at as l xs" using r by (auto simp: pcl_rep_def)
  note R = pcl_rep_atD [OF as]
  have live: "\<forall>a \<in> set as. nodes l a \<noteq> None" using linksD(2) [OF R(2)] by blast
  have ix: "all_nodes l p = (if same (nodes l) as p = [] then None else Some (same (nodes l) as p))"
    using R(3) by (simp add: sames_def)
  show ?thesis
  proof (cases "same (nodes l) as p = []")
    case True
    then have "p \<notin> run_props xs" using run_props_same [OF live] R(4) by metis
    then show ?thesis using True ix r by (simp add: remove_prop_def a_remove_notin)
  next
    case False
    obtain l' as' where l': "remove_loop p (same (nodes l) as p) (prop_at l (begin_node l) = Some p)
        (prop_at l (end_node l) = Some p) l = Some l'" "node_pool_inv (obj_pool l')"
      "links (begin_node l') (end_node l') (nodes l') as'" "all_nodes l' = all_nodes l"
      "\<And>q. q \<noteq> p \<Longrightarrow> sames (all_nodes l') (nodes l') as' q" "same (nodes l') as' p = []"
      "runs_of (nodes l') as' = a_remove p xs"
      using remove_loop_ok [OF R(1,2) _ refl refl refl, of p] R(3,4) by blast
    let ?l = "l'\<lparr>all_nodes := (all_nodes l')(p := None)\<rparr>"
    have n: "nodes ?l = nodes l'" by (simp add: nodes_def)
    have "sames (all_nodes ?l) (nodes ?l) as' q" for q
    proof (cases "q = p")
      case True
      have "node_prop m \<noteq> p" if "nodes l' a = Some m" for a m
        using same_mem [of a "nodes l'" as' p] linksD(2) [OF l'(3), of a] that by (auto simp: l'(6))
      then show ?thesis using True l'(6) by (auto simp: n sames_def)
    next
      case False
      then show ?thesis using l'(5) [of q] by (simp add: n sames_def)
    qed
    moreover have "a_wf (a_remove p xs)" using R(5) by (simp add: a_remove_def a_wf_filter)
    ultimately have "pcl_rep_at as' ?l (a_remove p xs)"
      using l'(2,3,7) by (simp add: pcl_rep_at_def n)
    then show ?thesis using l'(1) ix False by (auto simp: remove_prop_def pcl_rep_def)
  qed
qed

lemma clear_loop_ok:
  assumes l: "links b e h as"
  shows "as = ws @ bs \<Longrightarrow> node_pool_inv pool \<Longrightarrow>
    (\<forall>a. objs pool a = (if a \<in> set bs then h a else None)) \<Longrightarrow>
    \<exists>pool'. clear_loop (hd_opt bs) pool = Some pool' \<and> node_pool_inv pool' \<and> (\<forall>a. objs pool' a = None)"
proof (induction bs arbitrary: ws pool)
  case Nil
  then show ?case by (simp add: clear_loop.simps)
next
  case (Cons a bs)
  note L = linksD [OF l]
  obtain n where n: "h a = Some n" using L(2) [of a] Cons.prems(1) by auto
  have nx: "next_list n = hd_opt bs"
    using L(6) [OF n] L(1) next_in_split [of ws a bs] Cons.prems(1) by simp
  have o: "objs pool a = Some n" using Cons.prems(3) n by simp
  then have live: "objs pool a \<noteq> None" by simp
  have "a \<notin> set bs" using L(1) Cons.prems(1) by auto
  then have "\<forall>c. objs (pool_deallocate a pool) c = (if c \<in> set bs then h c else None)"
    using Cons.prems(3) np.dealloc_live [OF Cons.prems(2) live] by auto
  with Cons.IH [of "ws @ [a]" "pool_deallocate a pool"] np.dealloc_inv [OF Cons.prems(2) live]
    Cons.prems(1) o nx
  show ?case by (simp add: clear_loop.simps)
qed

lemma empty_rep:
  "node_pool_inv pool \<Longrightarrow> \<forall>a. objs pool a = None \<Longrightarrow>
     pcl_rep \<lparr>begin_node = None, end_node = None, all_nodes = Map.empty, obj_pool = pool\<rparr> []"
  by (auto simp: pcl_rep_def pcl_rep_at_def links_def sames_def same_def nodes_def runs_of_def
      intro!: exI [of _ "[]"])

lemma clear_list_rep:
  assumes "pcl_rep l xs"
  shows "\<exists>l'. clear_list l = Some l' \<and> pcl_rep l' []"
proof -
  obtain as where as: "pcl_rep_at as l xs" using assms by (auto simp: pcl_rep_def)
  note R = pcl_rep_atD [OF as]
  have "\<forall>a. objs (obj_pool l) a = (if a \<in> set as then nodes l a else None)"
    using linksD(2) [OF R(2)] by (metis nodes_def)
  then obtain pool where "clear_loop (hd_opt as) (obj_pool l) = Some pool" "node_pool_inv pool"
      "\<forall>a. objs pool a = None"
    using clear_loop_ok [OF R(2), of "[]" as "obj_pool l"] R(1) by auto
  then show ?thesis using linksD(3) [OF R(2)] empty_rep [of pool]
    by (cases l) (simp add: clear_list_def)
qed

lemma new_pcl_rep: "0 < n \<Longrightarrow> 0 < c \<Longrightarrow> pcl_rep (new_pcl n c) []"
  using new_node_pool_inv [of n c] unfolding new_pcl_def
  by (intro empty_rep) auto

lemma pcl_empty_rep: "pcl_rep l xs \<Longrightarrow> pcl_empty l \<longleftrightarrow> xs = []"
  by (auto simp: pcl_rep_def pcl_rep_at_def links_def pcl_empty_def hd_opt_eq runs_of_def
      split: if_splits)

section \<open>The interface of the list\<close>

text \<open>
  What the serial queue relies on: a state represents a sequence of runs, and every operation
  returns and acts on the runs as specified. A pop is called only when a run is open.
\<close>

locale run_list =
  fixes push :: "'p \<Rightarrow> bool \<Rightarrow> 's \<Rightarrow> 's option" and reset :: "'p \<Rightarrow> 's \<Rightarrow> 's option"
    and pop :: "'s \<Rightarrow> ('p \<times> 's) option" and remove :: "'p \<Rightarrow> 's \<Rightarrow> 's option"
    and clear :: "'s \<Rightarrow> 's option" and is_empty :: "'s \<Rightarrow> bool" and rep :: "'s \<Rightarrow> 'p runs \<Rightarrow> bool"
  assumes push_ok: "rep s xs \<Longrightarrow> \<exists>s'. push p c s = Some s' \<and> rep s' (a_push p c xs)"
    and reset_ok: "rep s xs \<Longrightarrow> \<exists>s'. reset p s = Some s' \<and> rep s' (a_reset p xs)"
    and pop_ok: "rep s xs \<Longrightarrow> a_pop xs = Some (p, ys) \<Longrightarrow> \<exists>s'. pop s = Some (p, s') \<and> rep s' ys"
    and remove_ok: "rep s xs \<Longrightarrow> \<exists>s'. remove p s = Some s' \<and> rep s' (a_remove p xs)"
    and clear_ok: "rep s xs \<Longrightarrow> \<exists>s'. clear s = Some s' \<and> rep s' []"
    and is_empty_ok: "rep s xs \<Longrightarrow> is_empty s \<longleftrightarrow> xs = []"
    and rep_wf: "rep s xs \<Longrightarrow> a_wf xs"

interpretation pl: run_list push_back reset_prop pop_front remove_prop clear_list pcl_empty pcl_rep
  by unfold_locales
     (auto simp: push_back_rep reset_prop_rep pop_front_rep remove_prop_rep clear_list_rep
        pcl_empty_rep, auto simp: pcl_rep_def pcl_rep_at_def)

text \<open>Sequences of calls, on the linked list and on the runs.\<close>

datatype 'p pcl_call = Push 'p bool | Reset 'p | Pop | Remove 'p | Clear

primrec run_call :: "'p pcl_call \<Rightarrow> 'p pcl \<Rightarrow> ('p option \<times> 'p pcl) option" where
  "run_call (Push p c) l = map_option (Pair None) (push_back p c l)"
| "run_call (Reset p) l = map_option (Pair None) (reset_prop p l)"
| "run_call Pop l = map_option (\<lambda>(p, l'). (Some p, l')) (pop_front l)"
| "run_call (Remove p) l = map_option (Pair None) (remove_prop p l)"
| "run_call Clear l = map_option (Pair None) (clear_list l)"

primrec spec_call :: "'p pcl_call \<Rightarrow> 'p runs \<Rightarrow> ('p option \<times> 'p runs) option" where
  "spec_call (Push p c) xs = Some (None, a_push p c xs)"
| "spec_call (Reset p) xs = Some (None, a_reset p xs)"
| "spec_call Pop xs = map_option (\<lambda>(p, ys). (Some p, ys)) (a_pop xs)"
| "spec_call (Remove p) xs = Some (None, a_remove p xs)"
| "spec_call Clear xs = Some (None, [])"

fun run_calls :: "('c \<Rightarrow> 's \<Rightarrow> ('r \<times> 's) option) \<Rightarrow> 'c list \<Rightarrow> 's \<Rightarrow> ('r list \<times> 's) option" where
  "run_calls f [] s = Some ([], s)"
| "run_calls f (c # cs) s = do { (r, s1) \<leftarrow> f c s; (rs, s2) \<leftarrow> run_calls f cs s1; Some (r # rs, s2) }"

lemma run_call_sim:
  "pcl_rep l xs \<Longrightarrow> spec_call c xs = Some (r, ys) \<Longrightarrow> \<exists>l'. run_call c l = Some (r, l') \<and> pcl_rep l' ys"
  using pl.push_ok pl.reset_ok pl.pop_ok pl.remove_ok pl.clear_ok
  by (cases c) fastforce+

lemma run_calls_sim:
  "pcl_rep l xs \<Longrightarrow> run_calls spec_call cs xs = Some (rs, ys) \<Longrightarrow>
     \<exists>l'. run_calls run_call cs l = Some (rs, l') \<and> pcl_rep l' ys"
proof (induction cs arbitrary: l xs rs)
  case (Cons c cs)
  then obtain r xs1 rs1 where s: "spec_call c xs = Some (r, xs1)" "run_calls spec_call cs xs1 = Some (rs1, ys)"
      "rs = r # rs1"
    by (auto simp: bind_Some_iff)
  obtain l1 where "run_call c l = Some (r, l1)" "pcl_rep l1 xs1"
    using run_call_sim [OF Cons.prems(1) s(1)] by auto
  with Cons.IH [OF _ s(2)] s(3) show ?case by fastforce
qed simp

section \<open>Properties\<close>

text \<open>C4: The doubly linked list refines its specification for every sequence of calls: whenever
  the specification, a list of runs, allows the calls (a pop needs an open run), the pointer code
  started on a fresh list dereferences no null or freed node, fails no assertion, terminates and
  returns the same results.\<close>

theorem prop_count_list_refines:
  assumes "0 < preallocate" "0 < chunk" "run_calls spec_call cs [] = Some (rs, ys)"
  shows "\<exists>l. run_calls run_call cs (new_pcl preallocate chunk) = Some (rs, l) \<and> pcl_rep l ys"
  using run_calls_sim [OF new_pcl_rep [OF assms(1,2)] assms(3)] .

theorem prop_count_list_refines_witness:
  "\<exists>l. run_calls run_call [Push (1::nat) True, Push 2 True, Push 1 False, Push 1 False, Pop, Reset 1,
          Remove 2, Pop, Reset 1, Pop] (new_pcl 4 2)
        = Some ([None, None, None, None, Some 1, None, None, Some 1, None, Some 1], l) \<and> pcl_rep l []"
  by (rule prop_count_list_refines) (simp_all add: a_push_def a_remove_def run_props_def)

text \<open>No node leaks and none is freed twice: after any sequence of calls that the specification
  allows, the nodes alive in the pool are as many as the runs, and the list is empty exactly when
  none is alive.\<close>

theorem prop_count_list_no_leak:
  assumes "0 < preallocate" "0 < chunk" "run_calls spec_call cs [] = Some (rs, ys)"
    and "run_calls run_call cs (new_pcl preallocate chunk) = Some (rs, l)"
  shows "card (dom (nodes l)) = length ys \<and> (pcl_empty l \<longleftrightarrow> dom (nodes l) = {})"
proof -
  have rep: "pcl_rep l ys"
    using run_calls_sim [OF new_pcl_rep [OF assms(1,2)] assms(3)] assms(4) by auto
  then obtain as where as: "pcl_rep_at as l ys" by (auto simp: pcl_rep_def)
  note R = pcl_rep_atD [OF as]
  have dom: "dom (nodes l) = set as" using linksD(2) [OF R(2)] by (auto simp: dom_def)
  have "card (set as) = length ys" using linksD(1) [OF R(2)] R(4) by (simp add: distinct_card runs_of_def)
  then show ?thesis using dom pl.is_empty_ok [OF rep] R(4) by (auto simp: runs_of_def)
qed

text \<open>Two runs of property 1 around one of property 2; the first task of 1 is taken.\<close>

definition sample_calls :: "nat pcl_call list" where
  "sample_calls = [Push 1 True, Push 2 True, Push 1 False, Pop]"

lemma sample_calls_spec:
  "run_calls spec_call sample_calls [] = Some ([None, None, None, Some 1], [(2, 1, True), (1, 1, False)])"
  by (simp add: sample_calls_def a_push_def run_props_def)

lemma sample_calls_run:
  "\<exists>l. run_calls run_call sample_calls (new_pcl 2 1) = Some ([None, None, None, Some 1], l) \<and>
       pcl_rep l [(2, 1, True), (1, 1, False)]"
  using run_calls_sim [OF new_pcl_rep [of 2 1] sample_calls_spec] by simp

theorem prop_count_list_no_leak_witness:
  "\<exists>l. run_calls run_call sample_calls (new_pcl 2 1) = Some ([None, None, None, Some 1], l) \<and>
       card (dom (nodes l)) = 2"
proof -
  obtain l where l: "run_calls run_call sample_calls (new_pcl 2 1) = Some ([None, None, None, Some 1], l)"
    using sample_calls_run by blast
  from prop_count_list_no_leak [OF _ _ sample_calls_spec l] l show ?thesis by (intro exI [of _ l]) simp
qed

end
