(* ===== verification/Serial_Task_Queue.thy ===== *)
theory Serial_Task_Queue
  imports Prop_Count_List
begin

text \<open>
  SerialTaskQueue (task_queue.hpp): tasks of one property run one after the other in the order
  they were added, tasks of different properties in parallel. The critical sections of the class
  are functions on the record of its members; the list m_wait_props is the linked list of
  Prop_Count_List itself. A result None is undefined behaviour or a failed assertion, Blocked a
  wait on a condition variable. A task is an optional value, None being an empty or moved-from
  FastFunction. The second half puts the sections together to a system of producers and
  consumers with the history of what they added, started and finished.
\<close>

section \<open>The code\<close>

(* src: task_queue.hpp 1101-1122 SerialTaskQueue *)
record ('p, 't) serial =
  sq_stop :: bool
  approx_size :: nat
  wait_props :: "'p pcl"
  wait_tasks :: "'p \<Rightarrow> 't option list option"
  max_count :: nat
  cur_props :: "'p set"

(* src: task_queue.hpp 922-927 SerialTaskQueue::SerialTaskQueue *)
definition new_serial :: "nat \<Rightarrow> 'p pcl \<Rightarrow> ('p, 't) serial" where
  "new_serial max_task_count l = \<lparr>sq_stop = False, approx_size = 0, wait_props = l,
     wait_tasks = Map.empty, max_count = max_task_count, cur_props = {}\<rparr>"

(* src: task_queue.hpp 1096-1096 SerialTaskQueue::not_full *)
definition sq_not_full :: "('p, 't) serial \<Rightarrow> bool" where
  "sq_not_full s \<longleftrightarrow> max_count s = 0 \<or> approx_size s < max_count s"

(* src: task_queue.hpp 1099-1099 SerialTaskQueue::not_empty *)
definition sq_not_empty :: "('p, 't) serial \<Rightarrow> bool" where
  "sq_not_empty s \<longleftrightarrow> dom (wait_tasks s) \<noteq> {} \<and> card (cur_props s) < card (dom (wait_tasks s))"

(* src: task_queue.hpp 938-941 SerialTaskQueue::empty *)
definition sq_empty :: "('p, 't) serial \<Rightarrow> bool" where
  "sq_empty s \<longleftrightarrow> dom (wait_tasks s) = {}"

(* src: task_queue.hpp 1068-1071 SerialTaskQueue::full *)
definition sq_full :: "('p, 't) serial \<Rightarrow> bool" where
  "sq_full s \<longleftrightarrow> \<not> sq_not_full s"

(* src: task_queue.hpp 1073-1076 SerialTaskQueue::size *)
definition sq_size :: "('p, 't) serial \<Rightarrow> nat" where
  "sq_size s = card (dom (wait_tasks s))"

text \<open>m_wait_tasks[prop]: the operator creates the missing deque.\<close>

definition task_list :: "('p, 't) serial \<Rightarrow> 'p \<Rightarrow> 't option list" where
  "task_list s p = (case wait_tasks s p of None \<Rightarrow> [] | Some q \<Rightarrow> q)"

text \<open>The insertion, the same in the fast path and in the slow one.\<close>

(* src: task_queue.hpp 1007-1011 SerialTaskQueue::add_task *)
definition sq_enqueue :: "'p \<Rightarrow> 't option \<Rightarrow> ('p, 't) serial \<Rightarrow> ('p, 't) serial option" where
  "sq_enqueue p t s =
     (let q = task_list s p @ [t];
          is_first = (p \<notin> cur_props s \<and> length q = 1)
      in do {
        l \<leftarrow> push_back p is_first (wait_props s);
        Some (s\<lparr>wait_tasks := (wait_tasks s)(p \<mapsto> q), wait_props := l,
                approx_size := approx_size s + 1\<rparr>) })"

text \<open>
  The fast path, once not_full() was seen and the lock was taken by try_lock: the stop flag is
  tested again, the size is not.
\<close>

(* src: task_queue.hpp 984-998 SerialTaskQueue::add_task *)
definition sq_add_fast :: "'p \<Rightarrow> 't option \<Rightarrow> ('p, 't) serial \<Rightarrow> (bool, ('p, 't) serial) outcome option" where
  "sq_add_fast p t s =
     (if sq_stop s then Some (Done False s)
      else do { s' \<leftarrow> sq_enqueue p t s; Some (Done True s') })"

(* src: task_queue.hpp 1001-1014 SerialTaskQueue::add_task *)
definition sq_add_slow :: "'p \<Rightarrow> 't option \<Rightarrow> ('p, 't) serial \<Rightarrow> (bool, ('p, 't) serial) outcome option" where
  "sq_add_slow p t s =
     (if \<not> (sq_stop s \<or> sq_not_full s) then Some Blocked
      else if sq_stop s then Some (Done False s)
      else do { s' \<leftarrow> sq_enqueue p t s; Some (Done True s') })"

text \<open>
  pop_task up to the call of the task: the property taken and its task, or nothing. The task is
  moved out of the deque and leaves an empty function there.
\<close>

(* src: task_queue.hpp 1017-1037 SerialTaskQueue::pop_task *)
definition sq_pop_begin :: "('p, 't) serial \<Rightarrow> (('p \<times> 't option) option, ('p, 't) serial) outcome option" where
  "sq_pop_begin s =
     (if \<not> sq_stop s \<and> \<not> sq_not_empty s then Some Blocked
      else if \<not> sq_not_empty s then Some (Done None s)
      else do {
        (p, l) \<leftarrow> pop_front (wait_props s);
        if p \<in> cur_props s then None
        else
          let s1 = s\<lparr>approx_size := approx_size s - 1, wait_props := l,
                     cur_props := insert p (cur_props s)\<rparr>
          in (case wait_tasks s p of
                None \<Rightarrow> Some (Done (Some (p, None)) s1)
              | Some [] \<Rightarrow> None
              | Some (t # q) \<Rightarrow>
                  Some (Done (Some (p, t)) (s1\<lparr>wait_tasks := (wait_tasks s)(p \<mapsto> None # q)\<rparr>))) })"

(* src: task_queue.hpp 1089-1093 SerialTaskQueue::remove_cur_prop *)
definition sq_remove_cur_prop :: "'p \<Rightarrow> ('p, 't) serial \<Rightarrow> ('p, 't) serial" where
  "sq_remove_cur_prop p s = s\<lparr>cur_props := cur_props s - {p}\<rparr>"

text \<open>The second critical section of pop_task, after a task that was not empty has run.\<close>

(* src: task_queue.hpp 1039-1052 SerialTaskQueue::pop_task *)
definition sq_pop_finish :: "'p \<Rightarrow> ('p, 't) serial \<Rightarrow> ('p, 't) serial option" where
  "sq_pop_finish p s = do {
     s1 \<leftarrow> (case wait_tasks s p of
               None \<Rightarrow> Some s
             | Some [] \<Rightarrow> None
             | Some (t # q) \<Rightarrow>
                 Some (s\<lparr>wait_tasks := (wait_tasks s)(p := if q = [] then None else Some q)\<rparr>));
     let s2 = sq_remove_cur_prop p s1;
     l \<leftarrow> reset_prop p (wait_props s2);
     Some (s2\<lparr>wait_props := l\<rparr>) }"

(* src: task_queue.hpp 1057-1066 SerialTaskQueue::remove_prop *)
definition sq_remove_prop :: "'p \<Rightarrow> ('p, 't) serial \<Rightarrow> ('p, 't) serial option" where
  "sq_remove_prop p s = do {
     l \<leftarrow> remove_prop p (wait_props s);
     Some (s\<lparr>wait_tasks := (wait_tasks s)(p := None), wait_props := l\<rparr>) }"

(* src: task_queue.hpp 1079-1086 SerialTaskQueue::clear_inner *)
definition sq_clear_inner :: "('p, 't) serial \<Rightarrow> ('p, 't) serial option" where
  "sq_clear_inner s = do {
     l \<leftarrow> clear_list (wait_props s);
     Some (s\<lparr>wait_props := l, wait_tasks := Map.empty, cur_props := {}\<rparr>) }"

(* src: task_queue.hpp 943-946 SerialTaskQueue::clear *)
definition sq_clear :: "('p, 't) serial \<Rightarrow> ('p, 't) serial option" where
  "sq_clear s = sq_clear_inner s"

(* src: task_queue.hpp 948-956 SerialTaskQueue::start *)
definition sq_start :: "('p, 't) serial \<Rightarrow> ('p, 't) serial" where
  "sq_start s = (if sq_stop s then s\<lparr>sq_stop := False\<rparr> else s)"

(* src: task_queue.hpp 958-972 SerialTaskQueue::stop *)
definition sq_stop_queue :: "bool \<Rightarrow> ('p, 't) serial \<Rightarrow> ('p, 't) serial option" where
  "sq_stop_queue bwait s =
     (if sq_stop s then Some s
      else if bwait then Some (s\<lparr>sq_stop := True\<rparr>)
      else sq_clear_inner (s\<lparr>sq_stop := True\<rparr>))"

section \<open>Counting in the runs\<close>

definition run_count :: "'p \<Rightarrow> 'p runs \<Rightarrow> nat" where
  "run_count p xs = sum_list (map (\<lambda>(q, n, b). if q = p then n else 0) xs)"

definition run_open :: "'p \<Rightarrow> 'p runs \<Rightarrow> bool" where
  "run_open p xs \<longleftrightarrow> (\<exists>n. (p, n, True) \<in> set xs)"

definition run_total :: "'p runs \<Rightarrow> nat" where
  "run_total xs = sum_list (map (\<lambda>(q, n, b). n) xs)"

lemma run_count_simps [simp]:
  "run_count p [] = 0" "run_count p ((q, n, b) # xs) = (if q = p then n else 0) + run_count p xs"
  "run_count p (xs @ ys) = run_count p xs + run_count p ys"
  by (simp_all add: run_count_def)

lemma run_open_simps [simp]:
  "\<not> run_open p []" "run_open p ((q, n, b) # xs) \<longleftrightarrow> (q = p \<and> b) \<or> run_open p xs"
  "run_open p (xs @ ys) \<longleftrightarrow> run_open p xs \<or> run_open p ys"
  by (auto simp: run_open_def)

lemma run_total_simps [simp]:
  "run_total [] = 0" "run_total ((q, n, b) # xs) = n + run_total xs"
  "run_total (xs @ ys) = run_total xs + run_total ys"
  by (simp_all add: run_total_def)

lemma run_count_pos: "a_wf xs \<Longrightarrow> 0 < run_count p xs \<longleftrightarrow> p \<in> run_props xs"
  by (induction xs rule: a_wf.induct) auto

lemma run_open_props: "run_open p xs \<Longrightarrow> p \<in> run_props xs"
  by (force simp: run_open_def run_props_def)

text \<open>What the four operations do to the count, the open runs and the total.\<close>

lemma push_count [simp]: "run_count p (a_push q c xs) = run_count p xs + (if p = q then 1 else 0)"
  by (cases xs rule: rev_cases) (auto simp: a_push_def)

lemma push_props [simp]: "run_props (a_push q c xs) = insert q (run_props xs)"
  by (cases xs rule: rev_cases) (auto simp: a_push_def)

lemma push_open [simp]:
  "run_open p (a_push q c xs) \<longleftrightarrow> run_open p xs \<or> (p = q \<and> c \<and> q \<notin> run_props xs)"
  by (cases xs rule: rev_cases) (auto simp: a_push_def)

lemma push_total [simp]: "run_total (a_push q c xs) = Suc (run_total xs)"
  by (cases xs rule: rev_cases) (auto simp: a_push_def)

lemma reset_count [simp]: "run_count p (a_reset q xs) = run_count p xs"
  by (induction q xs rule: a_reset.induct) auto

lemma reset_props [simp]: "run_props (a_reset q xs) = run_props xs"
  by (induction q xs rule: a_reset.induct) auto

lemma reset_open [simp]: "run_open p (a_reset q xs) \<longleftrightarrow> run_open p xs \<or> (p = q \<and> q \<in> run_props xs)"
  by (induction q xs rule: a_reset.induct) auto

lemma reset_total [simp]: "run_total (a_reset q xs) = run_total xs"
  by (induction q xs rule: a_reset.induct) auto

lemma remove_count [simp]: "run_count p (a_remove q xs) = (if p = q then 0 else run_count p xs)"
  by (induction xs) (auto simp: a_remove_def)

lemma remove_open [simp]: "run_open p (a_remove q xs) \<longleftrightarrow> p \<noteq> q \<and> run_open p xs"
  by (auto simp: a_remove_def run_open_def)

lemma remove_props [simp]: "run_props (a_remove q xs) = run_props xs - {q}"
  by (auto simp: a_remove_def run_props_def)

lemma remove_total: "run_total (a_remove q xs) \<le> run_total xs"
  by (induction xs) (auto simp: a_remove_def)

lemma pop_split:
  assumes "a_wf xs" "a_pop xs = Some (p, ys)"
  obtains us n vs where "xs = us @ (p, n, True) # vs" "0 < n" "\<not> run_open p us" "\<not> run_open p vs"
    "ys = us @ (if n > 1 then [(p, n - 1, False)] else []) @ vs"
proof -
  have "\<exists>r \<in> set xs. snd (snd r)" using assms(2) a_pop_None_iff [of xs] by auto
  then obtain us r vs where us: "xs = us @ r # vs" "snd (snd r)" "\<forall>r \<in> set us. \<not> snd (snd r)"
    by (rule split_list_first_propE)
  obtain q n where r: "r = (q, n, True)" using us(2) by (metis prod.collapse)
  have "a_pop xs = Some (q, us @ (if n > 1 then [(q, n - 1, False)] else []) @ vs)"
    unfolding us(1) r by (rule a_pop_split [OF us(3)])
  then have q: "q = p" "ys = us @ (if n > 1 then [(p, n - 1, False)] else []) @ vs"
    using assms(2) by auto
  moreover have "\<not> run_open p us" using us(3) by (auto simp: run_open_def)
  moreover have "0 < n" "\<not> run_open p vs" using assms(1) us(1) r q(1)
    by (fastforce simp: a_wf_append run_open_def)+
  ultimately show ?thesis using us(1) r by (intro that [of us n vs]) auto
qed

lemma pop_facts:
  assumes "a_wf xs" "a_pop xs = Some (p, ys)"
  shows "run_open p xs" "run_count q xs = run_count q ys + (if q = p then 1 else 0)"
    "run_open q ys \<longleftrightarrow> run_open q xs \<and> q \<noteq> p" "run_total xs = Suc (run_total ys)"
  using assms by (rule pop_split; auto)+

section \<open>The invariant\<close>

text \<open>
  The deques are never empty, the list stands for exactly the tasks that wait (the front one of
  a running property does not), and the first run of a property is open iff it is not running.
\<close>

definition serial_rep :: "('p, 't) serial \<Rightarrow> 'p runs \<Rightarrow> bool" where
  "serial_rep s xs \<longleftrightarrow> pcl_rep (wait_props s) xs \<and> finite (dom (wait_tasks s)) \<and>
     (\<forall>p. wait_tasks s p \<noteq> Some []) \<and> (\<forall>p \<in> cur_props s. wait_tasks s p \<noteq> None) \<and>
     (\<forall>p. run_count p xs + (if p \<in> cur_props s then 1 else 0) = length (task_list s p)) \<and>
     (\<forall>p. p \<in> run_props xs \<longrightarrow> (run_open p xs \<longleftrightarrow> p \<notin> cur_props s)) \<and>
     run_total xs \<le> approx_size s"

definition serial_inv :: "('p, 't) serial \<Rightarrow> bool" where
  "serial_inv s \<longleftrightarrow> (\<exists>xs. serial_rep s xs)"

text \<open>The tasks of a property that wait: the front slot of a running one is already empty.\<close>

definition waiting :: "('p, 't) serial \<Rightarrow> 'p \<Rightarrow> 't option list" where
  "waiting s p = (if p \<in> cur_props s then tl (task_list s p) else task_list s p)"

lemma serial_repD:
  assumes "serial_rep s xs"
  shows "pcl_rep (wait_props s) xs" "finite (dom (wait_tasks s))" "\<And>p. wait_tasks s p \<noteq> Some []"
    "\<And>p. p \<in> cur_props s \<Longrightarrow> wait_tasks s p \<noteq> None"
    "\<And>p. run_count p xs + (if p \<in> cur_props s then 1 else 0) = length (task_list s p)"
    "\<And>p. p \<in> run_props xs \<Longrightarrow> run_open p xs \<longleftrightarrow> p \<notin> cur_props s"
    "run_total xs \<le> approx_size s" "a_wf xs"
  using assms pl.rep_wf by (auto simp: serial_rep_def)

lemma task_list_None: "serial_rep s xs \<Longrightarrow> task_list s p = [] \<longleftrightarrow> wait_tasks s p = None"
  using serial_repD(3) [of s xs p] by (auto simp: task_list_def split: option.splits)

lemma new_serial_inv: "pcl_rep l [] \<Longrightarrow> serial_inv (new_serial m l)"
  by (auto simp: serial_inv_def serial_rep_def new_serial_def task_list_def run_props_def
      intro!: exI [of _ "[]"])

text \<open>add_task: the insertion cannot fail, and appends to the waiting tasks of its property.\<close>

lemma enqueue_ok:
  assumes r: "serial_rep s xs"
  obtains s' ys where "sq_enqueue p t s = Some s'" "serial_rep s' ys"
    "\<And>q. waiting s' q = waiting s q @ (if q = p then [t] else [])"
    "cur_props s' = cur_props s" "sq_stop s' = sq_stop s" "max_count s' = max_count s"
    "approx_size s' = Suc (approx_size s)" "run_total ys = Suc (run_total xs)"
    "\<And>q. task_list s' q = task_list s q @ (if q = p then [t] else [])"
proof -
  note R = serial_repD [OF r]
  let ?c = "p \<notin> cur_props s \<and> length (task_list s p @ [t]) = 1"
  obtain l where l: "push_back p ?c (wait_props s) = Some l" "pcl_rep l (a_push p ?c xs)"
    using pl.push_ok [OF R(1), of p ?c] by blast
  define s1 where "s1 = s\<lparr>wait_tasks := (wait_tasks s)(p \<mapsto> task_list s p @ [t]), wait_props := l,
      approx_size := approx_size s + 1\<rparr>"
  have f: "wait_tasks s1 = (wait_tasks s)(p \<mapsto> task_list s p @ [t])" "wait_props s1 = l"
      "approx_size s1 = Suc (approx_size s)" "cur_props s1 = cur_props s" "sq_stop s1 = sq_stop s"
      "max_count s1 = max_count s"
    by (simp_all add: s1_def)
  have tl: "task_list s1 q = task_list s q @ (if q = p then [t] else [])" for q
    by (simp add: task_list_def f)
  have "p \<notin> run_props xs" if "p \<notin> cur_props s" "task_list s p = []"
    using R(5) [of p] that run_count_pos [OF R(8), of p] by simp
  moreover have "p \<in> run_props xs" if "p \<notin> cur_props s" "task_list s p \<noteq> []"
    using R(5) [of p] that run_count_pos [OF R(8), of p] by simp
  ultimately have op: "run_open q (a_push p ?c xs) \<longleftrightarrow> q \<notin> cur_props s" if "q \<in> insert p (run_props xs)" for q
    using that R(6) [of q] R(6) [of p] run_open_props [of p xs] by auto
  have "run_count q (a_push p ?c xs) + (if q \<in> cur_props s then 1 else 0) = length (task_list s1 q)" for q
    using R(5) [of q] by (auto simp: tl)
  then have "serial_rep s1 (a_push p ?c xs)"
    unfolding serial_rep_def f using R op l(2) by auto
  moreover have "waiting s1 q = waiting s q @ (if q = p then [t] else [])" for q
    using R(4) [of p] task_list_None [OF r, of p] by (auto simp: waiting_def tl f)
  ultimately show ?thesis using l(1) tl f
    by (intro that [of s1 "a_push p ?c xs"]) (auto simp: sq_enqueue_def Let_def s1_def)
qed

text \<open>
  pop_task: when the queue is not empty a run is open, and neither the assertion of pop_front nor
  the one on m_cur_props can fail.
\<close>

lemma not_empty_open:
  assumes r: "serial_rep s xs" and ne: "sq_not_empty s"
  shows "a_pop xs \<noteq> None"
proof -
  note R = serial_repD [OF r]
  have "card (cur_props s) < card (dom (wait_tasks s))" using ne by (simp add: sq_not_empty_def)
  moreover have "cur_props s \<subseteq> dom (wait_tasks s)" using R(4) by auto
  ultimately have "\<not> dom (wait_tasks s) \<subseteq> cur_props s"
    using R(2) by (metis card_mono finite_subset not_le)
  then obtain p where p: "p \<in> dom (wait_tasks s)" "p \<notin> cur_props s" by blast
  then have "task_list s p \<noteq> []" using task_list_None [OF r] by auto
  then have "p \<in> run_props xs" using R(5) [of p] p(2) run_count_pos [OF R(8), of p] by simp
  then have "run_open p xs" using R(6) p(2) by blast
  then show ?thesis unfolding a_pop_None_iff by (force simp: run_open_def)
qed

lemma pop_begin_ok:
  assumes r: "serial_rep s xs" and ne: "sq_not_empty s"
  obtains p t s' ys where "sq_pop_begin s = Some (Done (Some (p, t)) s')" "serial_rep s' ys"
    "p \<notin> cur_props s" "cur_props s' = insert p (cur_props s)"
    "waiting s p = t # waiting s' p" "\<And>q. q \<noteq> p \<Longrightarrow> waiting s' q = waiting s q"
    "sq_stop s' = sq_stop s" "max_count s' = max_count s" "approx_size s = Suc (approx_size s')"
    "run_total xs = Suc (run_total ys)" "\<And>q. length (task_list s' q) = length (task_list s q)"
proof -
  note R = serial_repD [OF r]
  obtain p ys where pop: "a_pop xs = Some (p, ys)" using not_empty_open [OF r ne] by auto
  note P = pop_facts [OF R(8) pop]
  obtain l where l: "pop_front (wait_props s) = Some (p, l)" "pcl_rep l ys"
    using pl.pop_ok [OF R(1) pop] by blast
  have pin: "p \<in> run_props xs" using run_open_props [OF P(1)] .
  then have pc: "p \<notin> cur_props s" using R(6) P(1) by blast
  have "task_list s p \<noteq> []" using R(5) [of p] P(2) [of p] by auto
  then obtain t q where tq: "wait_tasks s p = Some (t # q)"
    by (auto simp: task_list_def split: option.splits dest: list.exhaust) (metis list.exhaust)
  define s1 where "s1 = s\<lparr>approx_size := approx_size s - 1, wait_props := l,
      cur_props := insert p (cur_props s), wait_tasks := (wait_tasks s)(p \<mapsto> None # q)\<rparr>"
  have f: "approx_size s1 = approx_size s - 1" "wait_props s1 = l" "cur_props s1 = insert p (cur_props s)"
      "wait_tasks s1 = (wait_tasks s)(p \<mapsto> None # q)" "sq_stop s1 = sq_stop s" "max_count s1 = max_count s"
    by (simp_all add: s1_def)
  have tl: "task_list s1 u = (if u = p then None # q else task_list s u)" for u
    by (simp add: task_list_def f)
  have tp: "task_list s p = t # q" by (simp add: task_list_def tq)
  have "run_count u ys + (if u \<in> insert p (cur_props s) then 1 else 0) = length (task_list s1 u)" for u
    using R(5) [of u] P(2) [of u] pc by (auto simp: tl tp)
  moreover have "run_open u ys \<longleftrightarrow> u \<notin> insert p (cur_props s)" if "u \<in> run_props ys" for u
  proof -
    have "0 < run_count u ys" using that run_count_pos [OF a_wf_pop [OF R(8) pop]] by blast
    then have "u \<in> run_props xs" using P(2) [of u] run_count_pos [OF R(8), of u] by simp
    then show ?thesis using R(6) P(3) [of u] by auto
  qed
  moreover have "run_total ys \<le> approx_size s - 1" using R(7) P(4) by simp
  ultimately have "serial_rep s1 ys"
    unfolding serial_rep_def f using R l(2) by auto
  moreover have "sq_pop_begin s = Some (Done (Some (p, t)) s1)"
    using ne l(1) pc tq by (simp add: sq_pop_begin_def s1_def)
  moreover have "waiting s p = t # waiting s1 p" "\<And>u. u \<noteq> p \<Longrightarrow> waiting s1 u = waiting s u"
    using pc tp by (auto simp: waiting_def tl f)
  moreover have "length (task_list s1 u) = length (task_list s u)" for u by (simp add: tl tp)
  moreover have "approx_size s = Suc (approx_size s1)" using R(7) P(4) by (simp add: f)
  ultimately show ?thesis using pc P(4) f by (intro that [of p t s1 ys]) auto
qed

lemma pop_finish_ok:
  assumes r: "serial_rep s xs" and p: "p \<in> cur_props s"
  obtains s' ys where "sq_pop_finish p s = Some s'" "serial_rep s' ys"
    "cur_props s' = cur_props s - {p}" "\<And>q. waiting s' q = waiting s q"
    "sq_stop s' = sq_stop s" "max_count s' = max_count s" "approx_size s' = approx_size s"
    "run_total ys = run_total xs"
    "\<And>q. task_list s' q = (if q = p then tl (task_list s q) else task_list s q)"
proof -
  note R = serial_repD [OF r]
  obtain t q where tq: "wait_tasks s p = Some (t # q)"
    using R(3,4) [of p] p by (metis list.exhaust option.exhaust)
  obtain l where l: "reset_prop p (wait_props s) = Some l" "pcl_rep l (a_reset p xs)"
    using pl.reset_ok [OF R(1), of p] by blast
  define s1 where "s1 = s\<lparr>wait_tasks := (wait_tasks s)(p := if q = [] then None else Some q),
      cur_props := cur_props s - {p}, wait_props := l\<rparr>"
  have f: "wait_tasks s1 = (wait_tasks s)(p := if q = [] then None else Some q)" "wait_props s1 = l"
      "approx_size s1 = approx_size s" "cur_props s1 = cur_props s - {p}" "sq_stop s1 = sq_stop s"
      "max_count s1 = max_count s"
    by (simp_all add: s1_def)
  have tp: "task_list s p = t # q" by (simp add: task_list_def tq)
  have tl: "task_list s1 u = (if u = p then tl (task_list s u) else task_list s u)" for u
    using tq by (simp add: task_list_def f)
  have "run_count u (a_reset p xs) + (if u \<in> cur_props s1 then 1 else 0) = length (task_list s1 u)" for u
    using R(5) [of u] p tp by (auto simp: f tl)
  moreover have "run_open u (a_reset p xs) \<longleftrightarrow> u \<notin> cur_props s1" if "u \<in> run_props xs" for u
    using R(6) [OF that] that p by (auto simp: f)
  ultimately have "serial_rep s1 (a_reset p xs)"
    unfolding serial_rep_def using R l(2) by (auto simp: f)
  moreover have "sq_pop_finish p s = Some s1"
    using tq l(1) by (simp add: sq_pop_finish_def sq_remove_cur_prop_def s1_def)
  moreover have "waiting s1 u = waiting s u" for u using p by (auto simp: waiting_def tl f)
  ultimately show ?thesis using f tl by (intro that [of s1 "a_reset p xs"]) auto
qed

lemma remove_prop_ok:
  assumes r: "serial_rep s xs" and p: "p \<notin> cur_props s"
  obtains s' ys where "sq_remove_prop p s = Some s'" "serial_rep s' ys"
    "\<And>q. waiting s' q = (if q = p then [] else waiting s q)"
    "sq_stop s' = sq_stop s" "max_count s' = max_count s" "approx_size s' = approx_size s"
    "cur_props s' = cur_props s"
proof -
  note R = serial_repD [OF r]
  obtain l where l: "remove_prop p (wait_props s) = Some l" "pcl_rep l (a_remove p xs)"
    using pl.remove_ok [OF R(1), of p] by blast
  define s1 where "s1 = s\<lparr>wait_tasks := (wait_tasks s)(p := None), wait_props := l\<rparr>"
  have f: "wait_tasks s1 = (wait_tasks s)(p := None)" "wait_props s1 = l"
      "approx_size s1 = approx_size s" "cur_props s1 = cur_props s" "sq_stop s1 = sq_stop s"
      "max_count s1 = max_count s"
    by (simp_all add: s1_def)
  have tl: "task_list s1 u = (if u = p then [] else task_list s u)" for u
    by (simp add: task_list_def f)
  have "run_count u (a_remove p xs) + (if u \<in> cur_props s1 then 1 else 0) = length (task_list s1 u)" for u
    using R(5) [of u] p by (auto simp: f tl)
  moreover have "run_total (a_remove p xs) \<le> approx_size s"
    using remove_total [of p xs] R(7) by simp
  ultimately have "serial_rep s1 (a_remove p xs)"
    unfolding serial_rep_def using R l(2) p by (auto simp: f)
  moreover have "sq_remove_prop p s = Some s1" using l(1) by (simp add: sq_remove_prop_def s1_def)
  moreover have "waiting s1 u = (if u = p then [] else waiting s u)" for u
    using p by (auto simp: waiting_def tl f)
  ultimately show ?thesis using f by (intro that [of s1 "a_remove p xs"]) auto
qed

lemma clear_inner_ok:
  assumes r: "serial_rep s xs"
  obtains s' where "sq_clear_inner s = Some s'" "serial_rep s' []" "\<And>q. waiting s' q = []"
    "sq_stop s' = sq_stop s" "max_count s' = max_count s" "approx_size s' = approx_size s"
    "cur_props s' = {}" "wait_tasks s' = Map.empty"
proof -
  obtain l where l: "clear_list (wait_props s) = Some l" "pcl_rep l []"
    using pl.clear_ok [OF serial_repD(1) [OF r]] by blast
  show ?thesis using l
    by (intro that [of "s\<lparr>wait_props := l, wait_tasks := Map.empty, cur_props := {}\<rparr>"])
       (auto simp: sq_clear_inner_def serial_rep_def task_list_def run_props_def waiting_def)
qed

section \<open>Producers and consumers\<close>

text \<open>
  The queue with the producers that have passed the unlocked size test of the fast path and not
  yet taken the lock, the tasks being run, and per property the tasks accepted (and not removed
  since), started and finished, in order. n producers share the queue; every call of the class is
  a step, in any state. ss_clean tells whether the calls so far were of the kind the class can
  take: it becomes False when a property is removed while its task runs, when the queue is cleared
  (by clear or by stop without waiting) while some task runs, and when an empty function is
  accepted as a task.
\<close>

record ('p, 't) serial_sys =
  ss_q :: "('p, 't) serial"
  ss_fast :: nat
  ss_run :: "('p \<times> 't) list"
  ss_added :: "'p \<Rightarrow> 't list"
  ss_started :: "'p \<Rightarrow> 't list"
  ss_finished :: "'p \<Rightarrow> 't list"
  ss_clean :: bool

definition push_to :: "'p \<Rightarrow> 't \<Rightarrow> ('p \<Rightarrow> 't list) \<Rightarrow> 'p \<Rightarrow> 't list" where
  "push_to p t h = h(p := h p @ [t])"

inductive serial_step :: "nat \<Rightarrow> ('p, 't) serial_sys \<Rightarrow> ('p, 't) serial_sys \<Rightarrow> bool" for n where
  check: "\<not> sq_stop (ss_q s) \<Longrightarrow> sq_not_full (ss_q s) \<Longrightarrow> ss_fast s < n \<Longrightarrow>
    serial_step n s (s\<lparr>ss_fast := ss_fast s + 1\<rparr>)"
| give_up: "0 < ss_fast s \<Longrightarrow> serial_step n s (s\<lparr>ss_fast := ss_fast s - 1\<rparr>)"
| add_fast: "0 < ss_fast s \<Longrightarrow> sq_add_fast p (Some t) (ss_q s) = Some (Done b q') \<Longrightarrow>
    serial_step n s (s\<lparr>ss_q := q', ss_fast := ss_fast s - 1,
      ss_added := (if b then push_to p t (ss_added s) else ss_added s)\<rparr>)"
| add_slow: "ss_fast s < n \<Longrightarrow> sq_add_slow p (Some t) (ss_q s) = Some (Done b q') \<Longrightarrow>
    serial_step n s (s\<lparr>ss_q := q',
      ss_added := (if b then push_to p t (ss_added s) else ss_added s)\<rparr>)"
| add_fast_empty: "0 < ss_fast s \<Longrightarrow> sq_add_fast p None (ss_q s) = Some (Done b q') \<Longrightarrow>
    serial_step n s (s\<lparr>ss_q := q', ss_fast := ss_fast s - 1, ss_clean := (ss_clean s \<and> \<not> b)\<rparr>)"
| add_slow_empty: "ss_fast s < n \<Longrightarrow> sq_add_slow p None (ss_q s) = Some (Done b q') \<Longrightarrow>
    serial_step n s (s\<lparr>ss_q := q', ss_clean := (ss_clean s \<and> \<not> b)\<rparr>)"
| pop_none: "sq_pop_begin (ss_q s) = Some (Done None q') \<Longrightarrow> serial_step n s (s\<lparr>ss_q := q'\<rparr>)"
| pop: "sq_pop_begin (ss_q s) = Some (Done (Some (p, Some t)) q') \<Longrightarrow>
    serial_step n s (s\<lparr>ss_q := q', ss_run := (p, t) # ss_run s,
      ss_started := push_to p t (ss_started s)\<rparr>)"
| pop_empty: "sq_pop_begin (ss_q s) = Some (Done (Some (p, None)) q') \<Longrightarrow>
    serial_step n s (s\<lparr>ss_q := q'\<rparr>)"
| finish: "(p, t) \<in> set (ss_run s) \<Longrightarrow> sq_pop_finish p (ss_q s) = Some q' \<Longrightarrow>
    serial_step n s (s\<lparr>ss_q := q', ss_run := remove1 (p, t) (ss_run s),
      ss_finished := push_to p t (ss_finished s)\<rparr>)"
| remove: "sq_remove_prop p (ss_q s) = Some q' \<Longrightarrow>
    serial_step n s (s\<lparr>ss_q := q', ss_added := (ss_added s)(p := ss_started s p),
      ss_clean := (ss_clean s \<and> p \<notin> fst ` set (ss_run s))\<rparr>)"
| clear: "sq_clear (ss_q s) = Some q' \<Longrightarrow>
    serial_step n s (s\<lparr>ss_q := q', ss_added := ss_started s, ss_clean := (ss_clean s \<and> ss_run s = [])\<rparr>)"
| stop_clear: "sq_stop_queue False (ss_q s) = Some q' \<Longrightarrow>
    serial_step n s (s\<lparr>ss_q := q', ss_added := (if sq_stop (ss_q s) then ss_added s else ss_started s),
      ss_clean := (ss_clean s \<and> (sq_stop (ss_q s) \<or> ss_run s = []))\<rparr>)"
| stop_wait: "sq_stop_queue True (ss_q s) = Some q' \<Longrightarrow> serial_step n s (s\<lparr>ss_q := q'\<rparr>)"
| start: "serial_step n s (s\<lparr>ss_q := sq_start (ss_q s)\<rparr>)"

definition serial_init :: "nat \<Rightarrow> nat \<Rightarrow> nat \<Rightarrow> ('p, 't) serial_sys" where
  "serial_init m preallocate chunk = \<lparr>ss_q = new_serial m (new_pcl preallocate chunk), ss_fast = 0,
     ss_run = [], ss_added = (\<lambda>_. []), ss_started = (\<lambda>_. []), ss_finished = (\<lambda>_. []), ss_clean = True\<rparr>"

definition serial_reachable :: "nat \<Rightarrow> nat \<Rightarrow> ('p, 't) serial_sys \<Rightarrow> bool" where
  "serial_reachable n m s \<longleftrightarrow>
     (\<exists>preallocate chunk. 0 < preallocate \<and> 0 < chunk \<and>
        (serial_step n)\<^sup>*\<^sup>* (serial_init m preallocate chunk) s)"

definition sys_inv :: "nat \<Rightarrow> nat \<Rightarrow> ('p, 't) serial_sys \<Rightarrow> bool" where
  "sys_inv n m s \<longleftrightarrow> serial_inv (ss_q s) \<and> distinct (map fst (ss_run s)) \<and>
     fst ` set (ss_run s) = cur_props (ss_q s) \<and>
     (\<forall>p. map Some (ss_added s p) = map Some (ss_started s p) @ waiting (ss_q s) p) \<and>
     (\<forall>p. ss_started s p = ss_finished s p @ map snd (filter (\<lambda>r. fst r = p) (ss_run s))) \<and>
     max_count (ss_q s) = m \<and> (0 < m \<longrightarrow> approx_size (ss_q s) + ss_fast s < m + n)"

lemma sys_invI:
  assumes "serial_rep (ss_q s) xs" "distinct (map fst (ss_run s))"
    "fst ` set (ss_run s) = cur_props (ss_q s)"
    "\<And>p. map Some (ss_added s p) = map Some (ss_started s p) @ waiting (ss_q s) p"
    "\<And>p. ss_started s p = ss_finished s p @ map snd (filter (\<lambda>r. fst r = p) (ss_run s))"
    "max_count (ss_q s) = m" "0 < m \<Longrightarrow> approx_size (ss_q s) + ss_fast s < m + n"
  shows "sys_inv n m s"
  using assms by (auto simp: sys_inv_def serial_inv_def)

lemma sys_invD:
  assumes "sys_inv n m s"
  obtains xs where "serial_rep (ss_q s) xs" "distinct (map fst (ss_run s))"
    "fst ` set (ss_run s) = cur_props (ss_q s)"
    "\<And>p. map Some (ss_added s p) = map Some (ss_started s p) @ waiting (ss_q s) p"
    "\<And>p. ss_started s p = ss_finished s p @ map snd (filter (\<lambda>r. fst r = p) (ss_run s))"
    "max_count (ss_q s) = m" "0 < m \<Longrightarrow> approx_size (ss_q s) + ss_fast s < m + n"
  using assms by (auto simp: sys_inv_def serial_inv_def)

lemma sys_inv_clean [simp]: "sys_inv n m (s\<lparr>ss_clean := c\<rparr>) \<longleftrightarrow> sys_inv n m s"
  by (simp add: sys_inv_def)

lemma push_to_simp [simp]: "push_to p t h q = h q @ (if q = p then [t] else [])"
  by (simp add: push_to_def)

lemma inv_add:
  assumes i: "sys_inv n m s" and a: "sq_enqueue p (Some t) (ss_q s) = Some q'"
    and f: "0 < m \<Longrightarrow> Suc (approx_size (ss_q s)) + k < m + n"
  shows "sys_inv n m (s\<lparr>ss_q := q', ss_fast := k, ss_added := push_to p t (ss_added s)\<rparr>)"
proof -
  obtain xs where I: "serial_rep (ss_q s) xs" "distinct (map fst (ss_run s))"
    "fst ` set (ss_run s) = cur_props (ss_q s)"
    "\<And>p. map Some (ss_added s p) = map Some (ss_started s p) @ waiting (ss_q s) p"
    "\<And>p. ss_started s p = ss_finished s p @ map snd (filter (\<lambda>r. fst r = p) (ss_run s))"
    "max_count (ss_q s) = m"
    using sys_invD [OF i] by blast
  obtain ys where e: "serial_rep q' ys"
    "\<And>q. waiting q' q = waiting (ss_q s) q @ (if q = p then [Some t] else [])"
    "cur_props q' = cur_props (ss_q s)" "max_count q' = max_count (ss_q s)"
    "approx_size q' = Suc (approx_size (ss_q s))"
    using enqueue_ok [OF I(1), of p "Some t"] a by (metis option.inject)
  show ?thesis by (rule sys_invI [where xs = ys]) (use I e f in auto)
qed

lemma inv_pop:
  assumes i: "sys_inv n m s" and a: "sq_pop_begin (ss_q s) = Some (Done (Some (p, Some t)) q')"
  shows "sys_inv n m (s\<lparr>ss_q := q', ss_run := (p, t) # ss_run s,
      ss_started := push_to p t (ss_started s)\<rparr>)"
proof -
  obtain xs where I: "serial_rep (ss_q s) xs" "distinct (map fst (ss_run s))"
    "fst ` set (ss_run s) = cur_props (ss_q s)"
    "\<And>p. map Some (ss_added s p) = map Some (ss_started s p) @ waiting (ss_q s) p"
    "\<And>p. ss_started s p = ss_finished s p @ map snd (filter (\<lambda>r. fst r = p) (ss_run s))"
    "max_count (ss_q s) = m" "0 < m \<Longrightarrow> approx_size (ss_q s) + ss_fast s < m + n"
    using sys_invD [OF i] by blast
  have ne: "sq_not_empty (ss_q s)" using a by (auto simp: sq_pop_begin_def split: if_splits)
  obtain ys where e: "serial_rep q' ys" "p \<notin> cur_props (ss_q s)"
    "cur_props q' = insert p (cur_props (ss_q s))"
    "waiting (ss_q s) p = Some t # waiting q' p"
    "\<And>q. q \<noteq> p \<Longrightarrow> waiting q' q = waiting (ss_q s) q"
    "max_count q' = max_count (ss_q s)" "approx_size (ss_q s) = Suc (approx_size q')"
    by (rule pop_begin_ok [OF I(1) ne]) (use a in auto)
  have nf: "filter (\<lambda>r. fst r = p) (ss_run s) = []"
    using e(2) I(3) by (force simp: filter_empty_conv)
  show ?thesis
  proof (rule sys_invI [where xs = ys], goal_cases)
    case (4 q)
    show ?case using I(4) [of q] e(4,5) by (cases "q = p") auto
  next
    case (5 q)
    show ?case using I(5) [of q] nf by auto
  qed (use I e in auto)
qed

lemma inv_finish:
  assumes i: "sys_inv n m s" and r: "(p, t) \<in> set (ss_run s)" and a: "sq_pop_finish p (ss_q s) = Some q'"
  shows "sys_inv n m (s\<lparr>ss_q := q', ss_run := remove1 (p, t) (ss_run s),
      ss_finished := push_to p t (ss_finished s)\<rparr>)"
proof -
  obtain xs where I: "serial_rep (ss_q s) xs" "distinct (map fst (ss_run s))"
    "fst ` set (ss_run s) = cur_props (ss_q s)"
    "\<And>p. map Some (ss_added s p) = map Some (ss_started s p) @ waiting (ss_q s) p"
    "\<And>p. ss_started s p = ss_finished s p @ map snd (filter (\<lambda>r. fst r = p) (ss_run s))"
    "max_count (ss_q s) = m" "0 < m \<Longrightarrow> approx_size (ss_q s) + ss_fast s < m + n"
    using sys_invD [OF i] by blast
  have pc: "p \<in> cur_props (ss_q s)" using r I(3) by force
  obtain ys where e: "serial_rep q' ys" "cur_props q' = cur_props (ss_q s) - {p}"
    "\<And>q. waiting q' q = waiting (ss_q s) q" "max_count q' = max_count (ss_q s)"
    "approx_size q' = approx_size (ss_q s)"
    using pop_finish_ok [OF I(1) pc] a by (metis option.inject)
  show ?thesis
  proof (rule sys_invI [where xs = ys], goal_cases)
    case (5 q)
    show ?case
    proof (cases "q = p")
      case True
      then show ?thesis using I(5) [of q] filter_only [OF I(2) r] by simp
    next
      case False
      then show ?thesis using I(5) [of q] by (simp add: filter_remove1_other)
    qed
  qed (use I e r in \<open>auto simp: fst_remove1 distinct_fst_remove1 simp del: set_remove1_eq\<close>)
qed

lemma inv_remove:
  assumes i: "sys_inv n m s" and p: "p \<notin> fst ` set (ss_run s)" and a: "sq_remove_prop p (ss_q s) = Some q'"
  shows "sys_inv n m (s\<lparr>ss_q := q', ss_added := (ss_added s)(p := ss_started s p)\<rparr>)"
proof -
  obtain xs where I: "serial_rep (ss_q s) xs" "distinct (map fst (ss_run s))"
    "fst ` set (ss_run s) = cur_props (ss_q s)"
    "\<And>p. map Some (ss_added s p) = map Some (ss_started s p) @ waiting (ss_q s) p"
    "\<And>p. ss_started s p = ss_finished s p @ map snd (filter (\<lambda>r. fst r = p) (ss_run s))"
    "max_count (ss_q s) = m" "0 < m \<Longrightarrow> approx_size (ss_q s) + ss_fast s < m + n"
    using sys_invD [OF i] by blast
  obtain ys where e: "serial_rep q' ys" "\<And>q. waiting q' q = (if q = p then [] else waiting (ss_q s) q)"
    "max_count q' = max_count (ss_q s)" "approx_size q' = approx_size (ss_q s)"
    "cur_props q' = cur_props (ss_q s)"
    using remove_prop_ok [OF I(1), of p] a p I(3) by (metis option.inject)
  show ?thesis by (rule sys_invI [where xs = ys]) (use I e in auto)
qed

lemma inv_clear:
  assumes i: "sys_inv n m s" and r: "ss_run s = []" and a: "sq_clear (ss_q s) = Some q'"
  shows "sys_inv n m (s\<lparr>ss_q := q', ss_added := ss_started s\<rparr>)"
proof -
  obtain xs where I: "serial_rep (ss_q s) xs" "distinct (map fst (ss_run s))"
    "fst ` set (ss_run s) = cur_props (ss_q s)"
    "\<And>p. ss_started s p = ss_finished s p @ map snd (filter (\<lambda>r. fst r = p) (ss_run s))"
    "max_count (ss_q s) = m" "0 < m \<Longrightarrow> approx_size (ss_q s) + ss_fast s < m + n"
    using sys_invD [OF i] by blast
  have e: "serial_rep q' []" "\<And>q. waiting q' q = []" "max_count q' = max_count (ss_q s)"
    "approx_size q' = approx_size (ss_q s)" "cur_props q' = {}"
    using clear_inner_ok [OF I(1)] a by (metis sq_clear_def option.inject)+
  show ?thesis by (rule sys_invI [where xs = "[]"]) (use I e r in auto)
qed

text \<open>Steps that touch only the flags or leave the queue as it is.\<close>

lemma inv_same:
  assumes i: "sys_inv n m s" and q: "q' = (ss_q s)\<lparr>sq_stop := b\<rparr>"
    and k: "0 < m \<Longrightarrow> approx_size (ss_q s) + k < m + n"
  shows "sys_inv n m (s\<lparr>ss_q := q', ss_fast := k\<rparr>)"
proof -
  have w: "waiting q' = waiting (ss_q s)" by (simp add: q waiting_def fun_eq_iff task_list_def)
  have "serial_rep q' = serial_rep (ss_q s)"
    by (simp add: q serial_rep_def task_list_def fun_eq_iff)
  moreover have "cur_props q' = cur_props (ss_q s)" "max_count q' = max_count (ss_q s)"
      "approx_size q' = approx_size (ss_q s)"
    by (simp_all add: q)
  ultimately show ?thesis using i k w unfolding sys_inv_def serial_inv_def by simp
qed

lemma sys_inv_fast: "sys_inv n m s \<Longrightarrow> 0 < m \<Longrightarrow> approx_size (ss_q s) + ss_fast s < m + n"
  by (simp add: sys_inv_def)

lemma sys_inv_max: "sys_inv n m s \<Longrightarrow> max_count (ss_q s) = m"
  by (simp add: sys_inv_def)

lemma sys_inv_id: "sys_inv n m (s\<lparr>ss_q := ss_q s, ss_fast := ss_fast s\<rparr>) \<Longrightarrow> sys_inv n m s"
  by simp

lemma step_clean: "serial_step n s s' \<Longrightarrow> ss_clean s' \<Longrightarrow> ss_clean s"
  by (induction rule: serial_step.induct) auto

text \<open>The task that pop_task takes is a function: no empty one was accepted.\<close>

lemma pop_some:
  assumes i: "sys_inv n m s" and a: "sq_pop_begin (ss_q s) = Some (Done (Some (p, v)) q')"
  shows "v \<in> Some ` set (ss_added s p)"
proof -
  obtain xs where x: "serial_rep (ss_q s) xs" using sys_invD [OF i] by blast
  have ne: "sq_not_empty (ss_q s)" using a by (auto simp: sq_pop_begin_def split: if_splits)
  have w: "waiting (ss_q s) p = v # waiting q' p"
    by (rule pop_begin_ok [OF x ne]) (use a in auto)
  have "set (map Some (ss_added s p)) = set (map Some (ss_started s p) @ waiting (ss_q s) p)"
    using i unfolding sys_inv_def by metis
  then show ?thesis by (auto simp: w)
qed

lemma sys_inv_step: "serial_step n s s' \<Longrightarrow> ss_clean s' \<Longrightarrow> sys_inv n m s \<Longrightarrow> sys_inv n m s'"
proof (induction rule: serial_step.induct)
  case (check s)
  have "0 < m \<Longrightarrow> approx_size (ss_q s) + (ss_fast s + 1) < m + n"
    using check.hyps check.prems(2) by (simp add: sq_not_full_def sys_inv_max)
  then show ?case using inv_same [OF check.prems(2), of "ss_q s" "sq_stop (ss_q s)"] by simp
next
  case (give_up s)
  have "0 < m \<Longrightarrow> approx_size (ss_q s) + (ss_fast s - 1) < m + n"
    using sys_inv_fast [OF give_up.prems(2)] by linarith
  then show ?case using inv_same [OF give_up.prems(2), of "ss_q s" "sq_stop (ss_q s)"] by simp
next
  case (add_fast s p t b q')
  then consider "b" "sq_enqueue p (Some t) (ss_q s) = Some q'" | "\<not> b" "q' = ss_q s"
    by (auto simp: sq_add_fast_def bind_Some_iff split: if_splits)
  then show ?case
  proof cases
    case 1
    then show ?thesis using inv_add [OF add_fast.prems(2) 1(2), of "ss_fast s - 1"]
        sys_inv_fast [OF add_fast.prems(2)] add_fast.hyps(1) by simp
  next
    case 2
    have "0 < m \<Longrightarrow> approx_size (ss_q s) + (ss_fast s - 1) < m + n"
      using sys_inv_fast [OF add_fast.prems(2)] by linarith
    then show ?thesis using 2 inv_same [OF add_fast.prems(2), of "ss_q s" "sq_stop (ss_q s)"] by simp
  qed
next
  case (add_slow s p t b q')
  then consider "b" "sq_enqueue p (Some t) (ss_q s) = Some q'" "sq_not_full (ss_q s)" | "\<not> b" "q' = ss_q s"
    by (auto simp: sq_add_slow_def bind_Some_iff split: if_splits)
  then show ?case
  proof cases
    case 1
    have "0 < m \<Longrightarrow> Suc (approx_size (ss_q s)) + ss_fast s < m + n"
      using add_slow.hyps(1) 1(3) sys_inv_max [OF add_slow.prems(2)] by (simp add: sq_not_full_def)
    then show ?thesis using 1 inv_add [OF add_slow.prems(2) 1(2), of "ss_fast s"] by simp
  next
    case 2
    then show ?thesis using add_slow.prems by simp
  qed
next
  case (add_fast_empty s p b q')
  then have "\<not> b" "q' = ss_q s"
    by (auto simp: sq_add_fast_def bind_Some_iff split: if_splits)
  moreover have "0 < m \<Longrightarrow> approx_size (ss_q s) + (ss_fast s - 1) < m + n"
    using sys_inv_fast [OF add_fast_empty.prems(2)] by linarith
  ultimately show ?case
    using inv_same [OF add_fast_empty.prems(2), of "ss_q s" "sq_stop (ss_q s)"] by simp
next
  case (add_slow_empty s p b q')
  then have "q' = ss_q s"
    by (auto simp: sq_add_slow_def bind_Some_iff split: if_splits)
  then show ?case using add_slow_empty.prems by simp
next
  case (pop_empty s p q')
  then show ?case using pop_some [OF pop_empty.prems(2) pop_empty.hyps] by auto
next
  case (pop_none s q')
  then have "q' = ss_q s"
    by (auto simp: sq_pop_begin_def Let_def bind_Some_iff split: if_splits option.splits list.splits)
  then show ?case using pop_none.prems by simp
next
  case (pop s p t q')
  then show ?case by (simp add: inv_pop)
next
  case (finish p t s q')
  then show ?case by (simp add: inv_finish)
next
  case (remove p s q')
  then show ?case by (simp add: inv_remove)
next
  case (clear s q')
  then show ?case by (simp add: inv_clear)
next
  case (stop_clear s q')
  show ?case
  proof (cases "sq_stop (ss_q s)")
    case True
    then have e: "q' = ss_q s" using stop_clear.hyps by (simp add: sq_stop_queue_def)
    show ?thesis unfolding e using stop_clear.prems(2) True by simp
  next
    case False
    let ?s = "s\<lparr>ss_q := (ss_q s)\<lparr>sq_stop := True\<rparr>\<rparr>"
    have "sys_inv n m ?s"
      using inv_same [OF stop_clear.prems(2), of "(ss_q s)\<lparr>sq_stop := True\<rparr>" True "ss_fast s"]
        sys_inv_fast [OF stop_clear.prems(2)] by simp
    moreover have "ss_run ?s = []" "sq_clear (ss_q ?s) = Some q'"
      using stop_clear.hyps stop_clear.prems(1) False by (simp_all add: sq_stop_queue_def sq_clear_def)
    ultimately have "sys_inv n m (?s\<lparr>ss_q := q', ss_added := ss_started ?s\<rparr>)" by (rule inv_clear)
    then show ?thesis using False by simp
  qed
next
  case (stop_wait s q')
  then have "q' = (ss_q s)\<lparr>sq_stop := True\<rparr>" by (auto simp: sq_stop_queue_def split: if_splits)
  then show ?case using inv_same [OF stop_wait.prems(2), of q' True "ss_fast s"]
      sys_inv_fast [OF stop_wait.prems(2)] by simp
next
  case (start s)
  have "sq_start (ss_q s) = (ss_q s)\<lparr>sq_stop := False\<rparr>" by (simp add: sq_start_def)
  then show ?case using inv_same [OF start(2), of "sq_start (ss_q s)" False "ss_fast s"]
      sys_inv_fast [OF start(2)] by simp
qed

lemma sys_inv_init: "0 < n \<Longrightarrow> 0 < a \<Longrightarrow> 0 < c \<Longrightarrow> sys_inv n m (serial_init m a c)"
  using new_serial_inv [OF new_pcl_rep [of a c], of m]
  by (simp add: sys_inv_def serial_init_def waiting_def task_list_def new_serial_def)

lemma reachable_inv: "0 < n \<Longrightarrow> serial_reachable n m s \<Longrightarrow> ss_clean s \<Longrightarrow> sys_inv n m s"
proof -
  assume n: "0 < n" and "serial_reachable n m s" and cl: "ss_clean s"
  then obtain a c where ac: "0 < a" "0 < c" "(serial_step n)\<^sup>*\<^sup>* (serial_init m a c) s"
    by (auto simp: serial_reachable_def)
  from ac(3) have "ss_clean s \<longrightarrow> sys_inv n m s"
  proof (induction rule: rtranclp_induct)
    case base
    show ?case by (simp add: sys_inv_init [OF n ac(1,2)])
  next
    case (step y z)
    then show ?case using sys_inv_step [OF step.hyps(2)] step_clean [OF step.hyps(2)] by simp
  qed
  then show ?thesis using cl by simp
qed

lemma reachable_step: "serial_reachable n m s \<Longrightarrow> serial_step n s s' \<Longrightarrow> serial_reachable n m s'"
  by (auto simp: serial_reachable_def intro: rtranclp.rtrancl_into_rtrancl)

lemma reachable_init: "serial_reachable n m (serial_init m 4 2)"
  unfolding serial_reachable_def by (rule exI [of _ 4], rule exI [of _ 2]) simp

text \<open>What a reachable system can do: accept a task, take one, finish one.\<close>

lemma can_add:
  assumes n: "0 < n" and r: "serial_reachable n m s" "ss_clean s" and f: "ss_fast s < n" "\<not> sq_stop (ss_q s)" "sq_not_full (ss_q s)"
  shows "\<exists>s'. serial_reachable n m s' \<and> ss_clean s' \<and> ss_added s' = push_to p t (ss_added s) \<and>
     ss_run s' = ss_run s \<and> ss_started s' = ss_started s \<and> ss_finished s' = ss_finished s \<and>
     ss_fast s' = ss_fast s \<and> \<not> sq_stop (ss_q s') \<and> approx_size (ss_q s') = Suc (approx_size (ss_q s)) \<and>
     max_count (ss_q s') = m \<and> cur_props (ss_q s') = cur_props (ss_q s) \<and>
     dom (wait_tasks (ss_q s')) = insert p (dom (wait_tasks (ss_q s)))"
proof -
  have i: "sys_inv n m s" using reachable_inv [OF n r] .
  obtain xs where x: "serial_rep (ss_q s) xs" using sys_invD [OF i] by blast
  obtain q' ys where q: "sq_enqueue p (Some t) (ss_q s) = Some q'" "serial_rep q' ys"
      "cur_props q' = cur_props (ss_q s)" "sq_stop q' = sq_stop (ss_q s)"
      "max_count q' = max_count (ss_q s)" "approx_size q' = Suc (approx_size (ss_q s))"
    by (rule enqueue_ok [OF x, of p "Some t"]) auto
  have "dom (wait_tasks q') = insert p (dom (wait_tasks (ss_q s)))"
    using q(1) by (auto simp: sq_enqueue_def Let_def bind_Some_iff)
  moreover have "sq_add_slow p (Some t) (ss_q s) = Some (Done True q')"
    using q(1) f by (simp add: sq_add_slow_def)
  then have "serial_step n s (s\<lparr>ss_q := q', ss_added := push_to p t (ss_added s)\<rparr>)"
    using serial_step.add_slow [of s n p t True q'] f by simp
  ultimately show ?thesis
    using r(2) reachable_step [OF r(1)] q f sys_inv_max [OF i]
    by (intro exI [of _ "s\<lparr>ss_q := q', ss_added := push_to p t (ss_added s)\<rparr>"]) auto
qed

lemma can_pop:
  assumes n: "0 < n" and r: "serial_reachable n m s" "ss_clean s" and f: "sq_not_empty (ss_q s)"
  shows "\<exists>s' p t. serial_reachable n m s' \<and> ss_clean s' \<and> p \<notin> cur_props (ss_q s) \<and> p \<in> dom (wait_tasks (ss_q s)) \<and>
     ss_run s' = (p, t) # ss_run s \<and> ss_added s' = ss_added s \<and>
     ss_started s' = push_to p t (ss_started s) \<and> ss_finished s' = ss_finished s"
proof -
  have i: "sys_inv n m s" using reachable_inv [OF n r] .
  obtain xs where x: "serial_rep (ss_q s) xs"
      and h: "\<And>p. map Some (ss_added s p) = map Some (ss_started s p) @ waiting (ss_q s) p"
    using sys_invD [OF i] by blast
  obtain p t q' where q: "sq_pop_begin (ss_q s) = Some (Done (Some (p, t)) q')" "p \<notin> cur_props (ss_q s)"
      "waiting (ss_q s) p = t # waiting q' p"
    by (rule pop_begin_ok [OF x f]) auto
  have "Some ` set (ss_added s p) = set (map Some (ss_started s p) @ waiting (ss_q s) p)"
    using arg_cong [OF h [of p], of set] by simp
  then have "t \<in> Some ` set (ss_added s p)" by (auto simp: q(3))
  then obtain v where v: "t = Some v" by auto
  have "p \<in> dom (wait_tasks (ss_q s))"
    using q(2,3) by (auto simp: waiting_def task_list_def split: option.splits)
  moreover have "serial_step n s (s\<lparr>ss_q := q', ss_run := (p, v) # ss_run s,
      ss_started := push_to p v (ss_started s)\<rparr>)"
    using q(1) v by (intro serial_step.pop) simp
  ultimately show ?thesis using r(2) reachable_step [OF r(1)] q(2)
    by (intro exI [of _ "s\<lparr>ss_q := q', ss_run := (p, v) # ss_run s,
          ss_started := push_to p v (ss_started s)\<rparr>"] exI [of _ p] exI [of _ v]) auto
qed

text \<open>
  A state with two tasks 10 and 11 of property 1 accepted by a queue bounded by 4 and the first one
  running.
\<close>

lemma sample_state:
  "\<exists>s. serial_reachable 1 4 s \<and> ss_clean s \<and> ss_run s = [(1::nat, 10::nat)] \<and> ss_added s 1 = [10, 11]"
proof -
  let ?s0 = "serial_init 4 4 2 :: (nat, nat) serial_sys"
  have r0: "serial_reachable 1 4 ?s0" "ss_clean ?s0" by (rule reachable_init) (simp add: serial_init_def)
  have f0: "ss_fast ?s0 < 1" "\<not> sq_stop (ss_q ?s0)" "sq_not_full (ss_q ?s0)"
    by (simp_all add: serial_init_def new_serial_def sq_not_full_def)
  from can_add [OF _ r0 f0, of 1 10]
  obtain s1 where s1: "serial_reachable 1 4 s1" "ss_clean s1" "ss_added s1 = push_to 1 10 (ss_added ?s0)"
     "ss_run s1 = []" "ss_started s1 = (\<lambda>_. [])" "ss_finished s1 = (\<lambda>_. [])" "ss_fast s1 = 0"
     "\<not> sq_stop (ss_q s1)" "approx_size (ss_q s1) = 1" "max_count (ss_q s1) = 4"
     "cur_props (ss_q s1) = {}" "dom (wait_tasks (ss_q s1)) = {1}"
    by (auto simp: serial_init_def new_serial_def)
  have f1: "ss_fast s1 < 1" "sq_not_full (ss_q s1)" using s1 by (simp_all add: sq_not_full_def)
  from can_add [OF _ s1(1,2) f1(1) s1(8) f1(2), of 1 11]
  obtain s2 where s2: "serial_reachable 1 4 s2" "ss_clean s2" "ss_added s2 = push_to 1 11 (ss_added s1)"
     "ss_run s2 = []" "ss_started s2 = (\<lambda>_. [])" "ss_finished s2 = (\<lambda>_. [])"
     "cur_props (ss_q s2) = {}" "dom (wait_tasks (ss_q s2)) = {1}"
    using s1 by auto
  have ne: "sq_not_empty (ss_q s2)" by (simp only: sq_not_empty_def s2) simp
  obtain s3 p t where s3: "serial_reachable 1 4 s3" "ss_clean s3" "p \<in> {1}"
     "ss_run s3 = [(p, t)]" "ss_added s3 = ss_added s2" "ss_started s3 = push_to p t (\<lambda>_. [])"
     "ss_finished s3 = (\<lambda>_. [])"
    using can_pop [OF _ s2(1,2) ne] s2(4,5,6,8) by auto
  have a: "ss_added s3 1 = [10, 11]" using s1(3) s2(3) s3(5) by (simp add: serial_init_def)
  have "sys_inv 1 4 s3" using reachable_inv [OF _ s3(1,2)] by simp
  then have "map Some (ss_added s3 1) = map Some (ss_started s3 1) @ waiting (ss_q s3) 1"
    by (simp add: sys_inv_def)
  then have "t = 10" using s3(3,6) a by simp
  then show ?thesis using s3 a by (intro exI [of _ s3]) auto
qed

section \<open>Properties\<close>

text \<open>C3: Serial FIFO execution, as long as the calls are of the kind the queue can take. Consider
  any number of producers and consumers and any sequence of add_task, pop_task, remove_prop, clear,
  start and stop, under three restrictions: no property is removed while a task of it runs, the queue
  is not cleared (by clear, or by stop without waiting) while any task runs, and no empty function
  is accepted as a task. Then, for every property, the tasks accepted and not removed or cleared
  before they started are the started ones followed by those still waiting, so tasks start in the order
  they were added, once each and none lost; and the started tasks are the finished ones followed by
  at most one that runs, so two tasks of one property never run together and finish in order too.
  Without the first restriction a later task is lost (serial_remove_loses_task).\<close>

theorem serial_fifo:
  assumes "0 < n" "serial_reachable n m s" "ss_clean s"
  shows "map Some (ss_added s p) = map Some (ss_started s p) @ waiting (ss_q s) p \<and>
    (\<exists>running. ss_started s p = ss_finished s p @ running \<and> length running \<le> 1 \<and>
       (\<forall>t. (p, t) \<in> set (ss_run s) \<longleftrightarrow> t \<in> set running))"
proof -
  have i: "sys_inv n m s" using reachable_inv [OF assms] .
  let ?r = "map snd (filter (\<lambda>r. fst r = p) (ss_run s))"
  have d: "distinct (map fst (ss_run s))" using i by (simp add: sys_inv_def)
  have "length ?r \<le> 1"
  proof (cases "filter (\<lambda>r. fst r = p) (ss_run s)")
    case (Cons r rs)
    then have "r \<in> set (ss_run s)" "fst r = p" by (auto dest: filter_eq_ConsD)
    then show ?thesis using filter_only [OF d, of r] by simp
  qed simp
  moreover have "(p, t) \<in> set (ss_run s) \<longleftrightarrow> t \<in> set ?r" for t by force
  ultimately show ?thesis using i unfolding sys_inv_def by blast
qed

theorem serial_fifo_witness:
  "\<exists>s :: (nat, nat) serial_sys. ss_run s = [(1, 10)] \<and>
     map Some (ss_added s 1) = map Some (ss_started s 1) @ waiting (ss_q s) 1"
proof -
  obtain s :: "(nat, nat) serial_sys" where s: "serial_reachable 1 4 s" "ss_clean s" "ss_run s = [(1, 10)]"
    using sample_state by blast
  show ?thesis using serial_fifo [OF _ s(1,2), of 1] s(3) by (intro exI [of _ s]) simp
qed

text \<open>C14: No call of the queue goes wrong, as long as the calls so far were of the kind it can take:
  no property was removed while a task of it ran, the queue was not cleared (by clear, or by stop
  without waiting) while any task ran, and no empty function was accepted as a task. In every state
  reached so, add_task (of any task), pop_task, remove_prop, clear and stop end their critical
  sections without touching a null or freed node, taking from an empty deque or failing an
  assertion, and so does the end of every task that runs; pop_task, moreover, finds a task that is not
  empty whenever it takes a property.\<close>

theorem serial_no_fault:
  assumes "0 < n" "serial_reachable n m s" "ss_clean s"
  shows "sq_add_fast p v (ss_q s) \<noteq> None \<and> sq_add_slow p v (ss_q s) \<noteq> None \<and>
    sq_remove_prop p (ss_q s) \<noteq> None \<and> sq_clear (ss_q s) \<noteq> None \<and> sq_stop_queue b (ss_q s) \<noteq> None \<and>
    (\<exists>r. sq_pop_begin (ss_q s) = Some r \<and> (\<forall>q q'. r \<noteq> Done (Some (q, None)) q')) \<and>
    (\<forall>(q, u) \<in> set (ss_run s). sq_pop_finish q (ss_q s) \<noteq> None)"
proof -
  have i: "sys_inv n m s" using reachable_inv [OF assms] .
  obtain xs where x: "serial_rep (ss_q s) xs" and c: "fst ` set (ss_run s) = cur_props (ss_q s)"
    using sys_invD [OF i] by blast
  obtain q' where q': "sq_enqueue p v (ss_q s) = Some q'"
    by (rule enqueue_ok [OF x, of p v])
  obtain l where l: "remove_prop p (wait_props (ss_q s)) = Some l"
    using pl.remove_ok [OF serial_repD(1) [OF x], of p] by blast
  obtain l2 where l2: "clear_list (wait_props (ss_q s)) = Some l2"
    using pl.clear_ok [OF serial_repD(1) [OF x]] by blast
  have "\<exists>r. sq_pop_begin (ss_q s) = Some r \<and> (\<forall>q q'. r \<noteq> Done (Some (q, None)) q')"
  proof (cases "sq_not_empty (ss_q s)")
    case False
    then show ?thesis by (simp add: sq_pop_begin_def)
  next
    case True
    obtain q v q' where "sq_pop_begin (ss_q s) = Some (Done (Some (q, v)) q')"
      by (rule pop_begin_ok [OF x True])
    then show ?thesis using pop_some [OF i] by auto
  qed
  moreover have "sq_pop_finish q (ss_q s) \<noteq> None" if "(q, u) \<in> set (ss_run s)" for q u
  proof -
    have "q \<in> cur_props (ss_q s)" using that c by force
    then obtain q' where "sq_pop_finish q (ss_q s) = Some q'" by (rule pop_finish_ok [OF x])
    then show ?thesis by simp
  qed
  ultimately show ?thesis using q' l l2
    by (auto simp: sq_add_fast_def sq_add_slow_def sq_remove_prop_def sq_clear_def sq_stop_queue_def
        sq_clear_inner_def)
qed

theorem serial_no_fault_witness:
  "\<exists>s :: (nat, nat) serial_sys. ss_run s = [(1, 10)] \<and> sq_pop_finish 1 (ss_q s) \<noteq> None"
proof -
  obtain s :: "(nat, nat) serial_sys" where s: "serial_reachable 1 4 s" "ss_clean s" "ss_run s = [(1, 10)]"
    using sample_state by blast
  show ?thesis using serial_no_fault [OF _ s(1,2)] s(3) by (intro exI [of _ s]) simp
qed

lemma sum_run_count:
  "finite A \<Longrightarrow> run_props xs \<subseteq> A \<Longrightarrow> (\<Sum>p \<in> A. run_count p xs) = run_total xs"
proof (induction xs)
  case (Cons r xs)
  obtain q k b where "r = (q, k, b)" by (cases r)
  then show ?case using Cons by (simp add: sum.distrib)
qed simp

text \<open>The size bound. Under the same restrictions on the calls (ss_clean), with n producers a queue bounded by m never holds m + n waiting tasks: the
  fast path of add_task does not test the size again under the lock, so each of the other n - 1
  producers can overshoot the bound by one, and no more.\<close>

theorem serial_capacity:
  assumes "0 < n" "serial_reachable n m s" "ss_clean s" "0 < m"
  shows "(\<Sum>p \<in> dom (wait_tasks (ss_q s)). length (waiting (ss_q s) p)) < m + n"
proof -
  have i: "sys_inv n m s" using reachable_inv [OF assms(1-3)] .
  obtain xs where x: "serial_rep (ss_q s) xs" using sys_invD [OF i] by blast
  note R = serial_repD [OF x]
  have "length (waiting (ss_q s) p) = run_count p xs" for p
    using R(5) [of p] by (auto simp: waiting_def split: if_splits)
  moreover have "run_props xs \<subseteq> dom (wait_tasks (ss_q s))"
  proof
    fix p assume "p \<in> run_props xs"
    then have "task_list (ss_q s) p \<noteq> []" using R(5) [of p] run_count_pos [OF R(8), of p] by auto
    then show "p \<in> dom (wait_tasks (ss_q s))" using task_list_None [OF x, of p] by auto
  qed
  ultimately have "(\<Sum>p \<in> dom (wait_tasks (ss_q s)). length (waiting (ss_q s) p)) = run_total xs"
    using sum_run_count [OF R(2), of xs] by simp
  then show ?thesis using R(7) sys_inv_fast [OF i assms(4)] by simp
qed

theorem serial_capacity_witness:
  "\<exists>s :: (nat, nat) serial_sys. ss_run s = [(1, 10)] \<and>
     (\<Sum>p \<in> dom (wait_tasks (ss_q s)). length (waiting (ss_q s) p)) < 5"
proof -
  obtain s :: "(nat, nat) serial_sys" where s: "serial_reachable 1 4 s" "ss_clean s" "ss_run s = [(1, 10)]"
    using sample_state by blast
  show ?thesis using serial_capacity [OF _ s(1,2)] s(3) by (intro exI [of _ s]) simp
qed

text \<open>A consumer sleeps only when there is nothing for it: under the same restrictions on the calls
  (ss_clean), in a reachable state pop_task blocks
  exactly when the queue is not stopped and every property that has tasks left has one running.\<close>

theorem serial_blocks_iff:
  assumes "0 < n" "serial_reachable n m s" "ss_clean s"
  shows "sq_pop_begin (ss_q s) = Some Blocked \<longleftrightarrow>
    \<not> sq_stop (ss_q s) \<and> (\<forall>p. waiting (ss_q s) p \<noteq> [] \<longrightarrow> (\<exists>t. (p, t) \<in> set (ss_run s)))"
proof -
  have i: "sys_inv n m s" using reachable_inv [OF assms] .
  obtain xs where x: "serial_rep (ss_q s) xs" and c: "fst ` set (ss_run s) = cur_props (ss_q s)"
    using sys_invD [OF i] by blast
  note R = serial_repD [OF x]
  have run: "(\<exists>t. (p, t) \<in> set (ss_run s)) \<longleftrightarrow> p \<in> cur_props (ss_q s)" for p
    unfolding c [symmetric] by force
  have "sq_not_empty (ss_q s) \<longleftrightarrow> (\<exists>p. waiting (ss_q s) p \<noteq> [] \<and> p \<notin> cur_props (ss_q s))"
  proof
    assume "sq_not_empty (ss_q s)"
    then show "\<exists>p. waiting (ss_q s) p \<noteq> [] \<and> p \<notin> cur_props (ss_q s)"
    proof (rule pop_begin_ok [OF x], goal_cases)
      case (1 p t s' ys)
      then show ?case by (intro exI [of _ p]) simp
    qed
  next
    assume "\<exists>p. waiting (ss_q s) p \<noteq> [] \<and> p \<notin> cur_props (ss_q s)"
    then obtain p where p: "task_list (ss_q s) p \<noteq> []" "p \<notin> cur_props (ss_q s)"
      by (auto simp: waiting_def)
    then have "cur_props (ss_q s) \<subset> dom (wait_tasks (ss_q s))"
      using R(4) task_list_None [OF x, of p] by (auto simp: dom_def)
    then show "sq_not_empty (ss_q s)" using psubset_card_mono [OF R(2)] by (auto simp: sq_not_empty_def)
  qed
  moreover have "sq_pop_begin (ss_q s) = Some Blocked \<longleftrightarrow> \<not> sq_stop (ss_q s) \<and> \<not> sq_not_empty (ss_q s)"
    by (auto simp: sq_pop_begin_def Let_def bind_Some_iff split: if_splits option.splits list.splits)
  ultimately show ?thesis using run by blast
qed

theorem serial_blocks_iff_witness:
  "\<exists>s :: (nat, nat) serial_sys. ss_run s = [(1, 10)] \<and>
     (sq_pop_begin (ss_q s) = Some Blocked \<longleftrightarrow> \<not> sq_stop (ss_q s) \<and>
       (\<forall>p. waiting (ss_q s) p \<noteq> [] \<longrightarrow> (\<exists>t. (p, t) \<in> set (ss_run s))))"
proof -
  obtain s :: "(nat, nat) serial_sys" where s: "serial_reachable 1 4 s" "ss_clean s" "ss_run s = [(1, 10)]"
    using sample_state by blast
  show ?thesis using serial_blocks_iff [OF _ s(1,2)] s(3) by (intro exI [of _ s]) simp
qed

text \<open>remove_prop on a property whose task is running loses a later task: in every reachable state in which
  the calls so far kept the restrictions (ss_clean),
  removing the property of a running task, adding a new task for it and letting the running one
  finish leaves no task of the property in the queue, though its place in the order remains.\<close>

theorem serial_remove_loses_task:
  assumes "0 < n" "serial_reachable n m s" "ss_clean s" "(p, u) \<in> set (ss_run s)"
  shows "\<exists>q1 q2 q3. sq_remove_prop p (ss_q s) = Some q1 \<and> sq_enqueue p (Some t) q1 = Some q2 \<and>
    sq_pop_finish p q2 = Some q3 \<and> wait_tasks q3 p = None \<and> p \<notin> cur_props q3 \<and>
    \<not> pcl_empty (wait_props q3)"
proof -
  have i: "sys_inv n m s" using reachable_inv [OF assms(1-3)] .
  obtain xs where x: "serial_rep (ss_q s) xs" and c: "fst ` set (ss_run s) = cur_props (ss_q s)"
    using sys_invD [OF i] by blast
  have pc: "p \<in> cur_props (ss_q s)" using assms(4) c by force
  obtain l1 where l1: "remove_prop p (wait_props (ss_q s)) = Some l1" "pcl_rep l1 (a_remove p xs)"
    using pl.remove_ok [OF serial_repD(1) [OF x], of p] by blast
  obtain l2 where l2: "push_back p False l1 = Some l2" "pcl_rep l2 (a_push p False (a_remove p xs))"
    using pl.push_ok [OF l1(2), of p False] by blast
  obtain l3 where l3: "reset_prop p l2 = Some l3" "pcl_rep l3 (a_reset p (a_push p False (a_remove p xs)))"
    using pl.reset_ok [OF l2(2), of p] by blast
  have "run_props (a_reset p (a_push p False (a_remove p xs))) \<noteq> {}" by simp
  then have "\<not> pcl_empty l3" using pl.is_empty_ok [OF l3(2)] by (metis run_props_simps(1))
  then show ?thesis
    using l1(1) l2(1) l3(1) pc
    by (simp add: sq_remove_prop_def sq_enqueue_def sq_pop_finish_def sq_remove_cur_prop_def task_list_def)
qed

theorem serial_remove_loses_task_witness:
  "\<exists>(s :: (nat, nat) serial_sys) q1 q2 q3. sq_remove_prop 1 (ss_q s) = Some q1 \<and>
     sq_enqueue 1 (Some 12) q1 = Some q2 \<and> sq_pop_finish 1 q2 = Some q3 \<and> wait_tasks q3 1 = None"
proof -
  obtain s :: "(nat, nat) serial_sys" where s: "serial_reachable 1 4 s" "ss_clean s" "ss_run s = [(1, 10)]"
    using sample_state by blast
  have "(1, 10) \<in> set (ss_run s)" using s(3) by simp
  from serial_remove_loses_task [OF _ s(1,2) this, of 12] show ?thesis by (intro exI [of _ s]) auto
qed

text \<open>clear does not give the room back: a bounded queue that is full stays full when it is cleared,
  so that afterwards, empty and not stopped, it blocks every producer in add_task and every
  consumer in pop_task.\<close>

theorem serial_clear_wedges:
  assumes "serial_inv q" "0 < max_count q" "approx_size q = max_count q" "\<not> sq_stop q"
  shows "\<exists>q'. sq_clear q = Some q' \<and> sq_empty q' \<and> sq_full q' \<and>
    sq_add_slow p t q' = Some Blocked \<and> sq_pop_begin q' = Some Blocked"
proof -
  obtain xs where x: "serial_rep q xs" using assms(1) by (auto simp: serial_inv_def)
  obtain q' where "sq_clear_inner q = Some q'" "sq_stop q' = sq_stop q" "max_count q' = max_count q"
    "approx_size q' = approx_size q" "wait_tasks q' = Map.empty"
    by (rule clear_inner_ok [OF x])
  then show ?thesis using assms
    by (auto simp: sq_clear_def sq_empty_def sq_full_def sq_not_full_def sq_add_slow_def
        sq_pop_begin_def sq_not_empty_def)
qed

theorem serial_clear_wedges_witness:
  "\<exists>(q :: (nat, nat) serial) q'. sq_clear q = Some q' \<and> sq_empty q' \<and> sq_pop_begin q' = Some Blocked"
proof -
  have inv: "serial_inv (new_serial 1 (new_pcl 4 2) :: (nat, nat) serial)"
    by (intro new_serial_inv new_pcl_rep) simp_all
  then obtain xs where x: "serial_rep (new_serial 1 (new_pcl 4 2) :: (nat, nat) serial) xs"
    by (auto simp: serial_inv_def)
  obtain q :: "(nat, nat) serial" and ys
    where q: "serial_rep q ys" "sq_stop q = False" "max_count q = 1" "approx_size q = 1"
    by (rule enqueue_ok [OF x, of 1 "Some 10"]) (auto simp: new_serial_def)
  then have "serial_inv q" by (auto simp: serial_inv_def)
  with serial_clear_wedges [of q 1 "Some 11"] q show ?thesis by auto
qed

end
