(* ===== verification/Task_Queue.thy ===== *)
theory Task_Queue
  imports Prelude
begin

text \<open>
  TaskQueue (task_queue.hpp): a bounded FIFO queue of tasks under one mutex with the condition
  variables m_cv_not_full and m_cv_not_empty. First its operations on the record of its members;
  a task is an optional value, None being an empty std::function. Then the system of its callers,
  in which a notification is a step of its own: threads that try for the lock, threads asleep on a
  condition variable, and threads between their critical section and their notify_one. Its
  invariant says that no wake-up is lost.
\<close>

section \<open>The code\<close>

(* src: task_queue.hpp 175-190 TaskQueue *)
record 't task_queue =
  tq_stop :: bool
  tq_queue :: "'t option list"
  tq_max :: nat

(* src: task_queue.hpp 63-66 TaskQueue::TaskQueue *)
definition new_tq :: "nat \<Rightarrow> 't task_queue" where
  "new_tq m = \<lparr>tq_stop = False, tq_queue = [], tq_max = m\<rparr>"

(* src: task_queue.hpp 170-170 TaskQueue::not_full *)
definition tq_not_full :: "'t task_queue \<Rightarrow> bool" where
  "tq_not_full q \<longleftrightarrow> tq_max q = 0 \<or> length (tq_queue q) < tq_max q"

(* src: task_queue.hpp 173-173 TaskQueue::not_empty *)
definition tq_not_empty :: "'t task_queue \<Rightarrow> bool" where
  "tq_not_empty q \<longleftrightarrow> tq_queue q \<noteq> []"

(* src: task_queue.hpp 72-75 TaskQueue::empty *)
definition tq_empty :: "'t task_queue \<Rightarrow> bool" where
  "tq_empty q \<longleftrightarrow> \<not> tq_not_empty q"

(* src: task_queue.hpp 152-155 TaskQueue::full *)
definition tq_full :: "'t task_queue \<Rightarrow> bool" where
  "tq_full q \<longleftrightarrow> \<not> tq_not_full q"

(* src: task_queue.hpp 157-160 TaskQueue::size *)
definition tq_size :: "'t task_queue \<Rightarrow> nat" where
  "tq_size q = length (tq_queue q)"

(* src: task_queue.hpp 163-168 TaskQueue::clear_inner *)
definition tq_clear_inner :: "'t task_queue \<Rightarrow> 't task_queue" where
  "tq_clear_inner q = q\<lparr>tq_queue := []\<rparr>"

(* src: task_queue.hpp 77-80 TaskQueue::clear *)
definition tq_clear :: "'t task_queue \<Rightarrow> 't task_queue" where
  "tq_clear q = tq_clear_inner q"

text \<open>start and stop; the flag of the result says whether both conditions are notified to all.\<close>

(* src: task_queue.hpp 82-91 TaskQueue::start *)
definition tq_start :: "'t task_queue \<Rightarrow> bool \<times> 't task_queue" where
  "tq_start q = (if tq_stop q then (True, q\<lparr>tq_stop := False\<rparr>) else (False, q))"

(* src: task_queue.hpp 93-107 TaskQueue::stop *)
definition tq_stop_queue :: "bool \<Rightarrow> 't task_queue \<Rightarrow> bool \<times> 't task_queue" where
  "tq_stop_queue bwait q =
     (if tq_stop q then (False, q)
      else if bwait then (True, q\<lparr>tq_stop := True\<rparr>)
      else (True, tq_clear_inner (q\<lparr>tq_stop := True\<rparr>)))"

text \<open>The critical sections of add_task and pop_task.\<close>

(* src: task_queue.hpp 113-127 TaskQueue::add_task *)
definition tq_add :: "'t option \<Rightarrow> 't task_queue \<Rightarrow> (bool, 't task_queue) outcome" where
  "tq_add t q =
     (if \<not> (tq_stop q \<or> tq_not_full q) then Blocked
      else if tq_stop q then Done False q
      else Done True (q\<lparr>tq_queue := tq_queue q @ [t]\<rparr>))"

(* src: task_queue.hpp 129-150 TaskQueue::pop_task *)
definition tq_pop :: "'t task_queue \<Rightarrow> ('t option option, 't task_queue) outcome" where
  "tq_pop q =
     (if \<not> tq_stop q \<and> \<not> tq_not_empty q then Blocked
      else (case tq_queue q of
              [] \<Rightarrow> Done None q
            | t # ts \<Rightarrow> Done (Some t) (q\<lparr>tq_queue := ts\<rparr>)))"

section \<open>The callers\<close>

text \<open>
  The system: the queue; consumers awake and asleep; producers awake and asleep, each with its
  task; notifications of either condition still to be sent; and the tasks accepted (and not
  cleared) and taken, in order.
\<close>

record 't tq_sys =
  ts_q :: "'t task_queue"
  pop_try :: nat
  pop_wait :: nat
  add_try :: "'t option multiset"
  add_wait :: "'t option multiset"
  ne_pending :: nat
  nf_pending :: nat
  accepted :: "'t option list"
  taken :: "'t option list"

definition wake_all :: "'t tq_sys \<Rightarrow> 't tq_sys" where
  "wake_all s = s\<lparr>pop_try := pop_try s + pop_wait s, pop_wait := 0,
     add_try := add_try s + add_wait s, add_wait := {#}\<rparr>"

definition tq_init :: "nat \<Rightarrow> 't tq_sys" where
  "tq_init m = \<lparr>ts_q = new_tq m, pop_try = 0, pop_wait = 0, add_try = {#}, add_wait = {#},
     ne_pending = 0, nf_pending = 0, accepted = [], taken = []\<rparr>"

inductive tq_step :: "'t tq_sys \<Rightarrow> 't tq_sys \<Rightarrow> bool" where
  call_add: "tq_step s (s\<lparr>add_try := add_mset t (add_try s)\<rparr>)"
| call_pop: "tq_step s (s\<lparr>pop_try := pop_try s + 1\<rparr>)"
| add_block: "t \<in># add_try s \<Longrightarrow> tq_add t (ts_q s) = Blocked \<Longrightarrow>
    tq_step s (s\<lparr>add_try := add_try s - {#t#}, add_wait := add_mset t (add_wait s)\<rparr>)"
| add_refuse: "t \<in># add_try s \<Longrightarrow> tq_add t (ts_q s) = Done False q' \<Longrightarrow>
    tq_step s (s\<lparr>ts_q := q', add_try := add_try s - {#t#}\<rparr>)"
| add_accept: "t \<in># add_try s \<Longrightarrow> tq_add t (ts_q s) = Done True q' \<Longrightarrow>
    tq_step s (s\<lparr>ts_q := q', add_try := add_try s - {#t#}, ne_pending := ne_pending s + 1,
      accepted := accepted s @ [t]\<rparr>)"
| pop_block: "0 < pop_try s \<Longrightarrow> tq_pop (ts_q s) = Blocked \<Longrightarrow>
    tq_step s (s\<lparr>pop_try := pop_try s - 1, pop_wait := pop_wait s + 1\<rparr>)"
| pop_none: "0 < pop_try s \<Longrightarrow> tq_pop (ts_q s) = Done None q' \<Longrightarrow>
    tq_step s (s\<lparr>ts_q := q', pop_try := pop_try s - 1\<rparr>)"
| pop_take: "0 < pop_try s \<Longrightarrow> tq_pop (ts_q s) = Done (Some t) q' \<Longrightarrow>
    tq_step s (s\<lparr>ts_q := q', pop_try := pop_try s - 1, nf_pending := nf_pending s + 1,
      taken := taken s @ [t]\<rparr>)"
| notify_ne_idle: "0 < ne_pending s \<Longrightarrow> pop_wait s = 0 \<Longrightarrow>
    tq_step s (s\<lparr>ne_pending := ne_pending s - 1\<rparr>)"
| notify_ne: "0 < ne_pending s \<Longrightarrow> 0 < pop_wait s \<Longrightarrow>
    tq_step s (s\<lparr>ne_pending := ne_pending s - 1, pop_wait := pop_wait s - 1,
      pop_try := pop_try s + 1\<rparr>)"
| notify_nf_idle: "0 < nf_pending s \<Longrightarrow> add_wait s = {#} \<Longrightarrow>
    tq_step s (s\<lparr>nf_pending := nf_pending s - 1\<rparr>)"
| notify_nf: "0 < nf_pending s \<Longrightarrow> t \<in># add_wait s \<Longrightarrow>
    tq_step s (s\<lparr>nf_pending := nf_pending s - 1, add_wait := add_wait s - {#t#},
      add_try := add_mset t (add_try s)\<rparr>)"
| spurious_pop: "0 < pop_wait s \<Longrightarrow>
    tq_step s (s\<lparr>pop_wait := pop_wait s - 1, pop_try := pop_try s + 1\<rparr>)"
| spurious_add: "t \<in># add_wait s \<Longrightarrow>
    tq_step s (s\<lparr>add_wait := add_wait s - {#t#}, add_try := add_mset t (add_try s)\<rparr>)"
| clear: "tq_step s (wake_all (s\<lparr>ts_q := tq_clear (ts_q s), accepted := taken s\<rparr>))"
| start: "tq_start (ts_q s) = (b, q') \<Longrightarrow>
    tq_step s (if b then wake_all (s\<lparr>ts_q := q'\<rparr>) else s\<lparr>ts_q := q'\<rparr>)"
| stop: "tq_stop_queue bwait (ts_q s) = (b, q') \<Longrightarrow>
    tq_step s (if b then wake_all (s\<lparr>ts_q := q',
        accepted := (if bwait then accepted s else taken s)\<rparr>) else s\<lparr>ts_q := q'\<rparr>)"

definition tq_reachable :: "nat \<Rightarrow> 't tq_sys \<Rightarrow> bool" where
  "tq_reachable m s \<longleftrightarrow> tq_step\<^sup>*\<^sup>* (tq_init m) s"

text \<open>
  The invariant. A consumer sleeps only while the queue runs and holds no more tasks than there
  are consumers awake or notifications under way; a producer sleeps only while there are no more
  free places than producers awake or notifications under way.
\<close>

definition tq_inv :: "nat \<Rightarrow> 't tq_sys \<Rightarrow> bool" where
  "tq_inv m s \<longleftrightarrow> tq_max (ts_q s) = m \<and> (0 < m \<longrightarrow> length (tq_queue (ts_q s)) \<le> m) \<and>
     accepted s = taken s @ tq_queue (ts_q s) \<and>
     (0 < pop_wait s \<longrightarrow> \<not> tq_stop (ts_q s) \<and>
        length (tq_queue (ts_q s)) \<le> ne_pending s + pop_try s) \<and>
     (add_wait s \<noteq> {#} \<longrightarrow> \<not> tq_stop (ts_q s) \<and> 0 < m \<and>
        m \<le> length (tq_queue (ts_q s)) + nf_pending s + size (add_try s))"

lemmas tq_code = tq_add_def tq_pop_def tq_not_full_def tq_not_empty_def tq_clear_def
  tq_clear_inner_def tq_start_def tq_stop_queue_def

lemma tq_inv_init: "tq_inv m (tq_init m)"
  by (simp add: tq_inv_def tq_init_def new_tq_def)

lemma size_minus_mem: "t \<in># M \<Longrightarrow> Suc (size (M - {#t#})) = size M"
  by (metis size_Suc_Diff1)

lemma tq_inv_step: "tq_step s s' \<Longrightarrow> tq_inv m s \<Longrightarrow> tq_inv m s'"
proof (induction rule: tq_step.induct)
  case (add_block t s)
  then show ?case by (auto simp: tq_inv_def tq_code split: if_splits)
next
  case (add_refuse t s q')
  then show ?case by (auto simp: tq_inv_def tq_code split: if_splits)
next
  case (add_accept t s q')
  then have "\<not> tq_stop (ts_q s)" "tq_not_full (ts_q s)" "q' = (ts_q s)\<lparr>tq_queue := tq_queue (ts_q s) @ [t]\<rparr>"
    by (auto simp: tq_code split: if_splits)
  then show ?case using add_accept size_minus_mem [of t "add_try s"]
    by (auto simp: tq_inv_def tq_not_full_def)
next
  case (pop_block s)
  then show ?case by (auto simp: tq_inv_def tq_code split: if_splits list.splits)
next
  case (pop_none s q')
  then show ?case by (auto simp: tq_inv_def tq_code split: if_splits list.splits)
next
  case (pop_take s t q')
  then obtain ts where "tq_queue (ts_q s) = t # ts" "q' = (ts_q s)\<lparr>tq_queue := ts\<rparr>"
    by (auto simp: tq_code split: if_splits list.splits)
  then show ?case using pop_take by (auto simp: tq_inv_def)
next
  case (notify_nf s t)
  then show ?case using size_minus_mem [of t "add_wait s"] by (auto simp: tq_inv_def)
next
  case (spurious_add t s)
  then show ?case by (auto simp: tq_inv_def)
next
  case (start s b q')
  then show ?case by (auto simp: tq_inv_def tq_code wake_all_def split: if_splits)
next
  case (stop bwait s b q')
  then show ?case by (auto simp: tq_inv_def tq_code wake_all_def split: if_splits)
qed (auto simp: tq_inv_def tq_code wake_all_def)

lemma tq_reachable_inv: "tq_reachable m s \<Longrightarrow> tq_inv m s"
proof -
  assume "tq_reachable m s"
  then have "tq_step\<^sup>*\<^sup>* (tq_init m) s" by (simp add: tq_reachable_def)
  then show ?thesis by (induction rule: rtranclp_induct) (use tq_inv_init tq_inv_step in blast)+
qed

lemma tq_reachable_step: "tq_reachable m s \<Longrightarrow> tq_step s s' \<Longrightarrow> tq_reachable m s'"
  by (auto simp: tq_reachable_def intro: rtranclp.rtrancl_into_rtrancl)

text \<open>
  A run: a consumer comes and falls asleep, a producer adds a task, and its notification has yet to
  be sent.
\<close>

definition sample_sys :: "nat tq_sys" where
  "sample_sys = \<lparr>ts_q = (new_tq 2)\<lparr>tq_queue := [Some 7]\<rparr>, pop_try = 0, pop_wait = 1, add_try = {#},
     add_wait = {#}, ne_pending = 1, nf_pending = 0, accepted = [Some 7], taken = []\<rparr>"

lemma sample_reachable: "tq_reachable 2 sample_sys"
proof -
  let ?s0 = "tq_init 2 :: nat tq_sys"
  let ?s1 = "?s0\<lparr>pop_try := pop_try ?s0 + 1\<rparr>"
  let ?s2 = "?s1\<lparr>pop_try := pop_try ?s1 - 1, pop_wait := pop_wait ?s1 + 1\<rparr>"
  let ?s3 = "?s2\<lparr>add_try := add_mset (Some 7) (add_try ?s2)\<rparr>"
  let ?s4 = "?s3\<lparr>ts_q := (ts_q ?s3)\<lparr>tq_queue := tq_queue (ts_q ?s3) @ [Some 7]\<rparr>,
     add_try := add_try ?s3 - {#Some 7#}, ne_pending := ne_pending ?s3 + 1,
     accepted := accepted ?s3 @ [Some 7]\<rparr>"
  have r0: "tq_reachable 2 ?s0" by (simp add: tq_reachable_def)
  have r1: "tq_reachable 2 ?s1" by (rule tq_reachable_step [OF r0 tq_step.call_pop])
  have r2: "tq_reachable 2 ?s2"
    by (rule tq_reachable_step [OF r1 tq_step.pop_block]) (simp_all add: tq_init_def new_tq_def tq_code)
  have r3: "tq_reachable 2 ?s3" by (rule tq_reachable_step [OF r2 tq_step.call_add])
  have "tq_reachable 2 ?s4"
    by (rule tq_reachable_step [OF r3 tq_step.add_accept]) (simp_all add: tq_init_def new_tq_def tq_code)
  then show ?thesis by (simp add: sample_sys_def tq_init_def new_tq_def)
qed

text \<open>TaskQueue is a bounded FIFO: in every reachable state of its callers the tasks accepted and
  not cleared are the ones taken followed by the ones in the queue, and a bounded queue never
  holds more than its bound.\<close>

theorem task_queue_fifo:
  assumes "tq_reachable m s"
  shows "accepted s = taken s @ tq_queue (ts_q s) \<and> (0 < m \<longrightarrow> length (tq_queue (ts_q s)) \<le> m)"
  using tq_reachable_inv [OF assms] by (simp add: tq_inv_def)

theorem task_queue_fifo_witness:
  "accepted sample_sys = taken sample_sys @ tq_queue (ts_q sample_sys) \<and>
     length (tq_queue (ts_q sample_sys)) \<le> 2"
  using task_queue_fifo [OF sample_reachable] by simp

text \<open>C6: TaskQueue loses no wake-up. Whatever the interleaving of add_task, pop_task, clear, start,
  stop, notifications and spurious wake-ups: when no caller is awake and no notification is under
  way, a sleeping consumer means that the queue is empty and a sleeping producer that it is full,
  and neither sleeps when the queue is stopped.\<close>

theorem task_queue_no_lost_wakeup:
  assumes "tq_reachable m s"
    and "pop_try s = 0" "add_try s = {#}" "ne_pending s = 0" "nf_pending s = 0"
  shows "(0 < pop_wait s \<longrightarrow> tq_empty (ts_q s) \<and> \<not> tq_stop (ts_q s)) \<and>
    (add_wait s \<noteq> {#} \<longrightarrow> tq_full (ts_q s) \<and> \<not> tq_stop (ts_q s))"
  using tq_reachable_inv [OF assms(1)] assms(2-)
  by (auto simp: tq_inv_def tq_empty_def tq_full_def tq_not_full_def tq_not_empty_def)

definition asleep_sys :: "nat tq_sys" where
  "asleep_sys = (tq_init 2)\<lparr>pop_wait := 1\<rparr>"

lemma asleep_reachable: "tq_reachable 2 asleep_sys"
proof -
  let ?s0 = "tq_init 2 :: nat tq_sys"
  let ?s1 = "?s0\<lparr>pop_try := pop_try ?s0 + 1\<rparr>"
  have r0: "tq_reachable 2 ?s0" by (simp add: tq_reachable_def)
  have r1: "tq_reachable 2 ?s1" by (rule tq_reachable_step [OF r0 tq_step.call_pop])
  have "tq_reachable 2 (?s1\<lparr>pop_try := pop_try ?s1 - 1, pop_wait := pop_wait ?s1 + 1\<rparr>)"
    by (rule tq_reachable_step [OF r1 tq_step.pop_block]) (simp_all add: tq_init_def new_tq_def tq_code)
  then show ?thesis by (simp add: asleep_sys_def tq_init_def)
qed

theorem task_queue_no_lost_wakeup_witness:
  "0 < pop_wait asleep_sys \<and> tq_empty (ts_q asleep_sys)"
  using task_queue_no_lost_wakeup [OF asleep_reachable] by (simp add: asleep_sys_def tq_init_def)

end
