(* ===== verification/Last_Task_Queue.thy ===== *)
theory Last_Task_Queue
  imports Prelude
begin

text \<open>
  LastTaskQueue (task_queue.hpp): per property only the latest task is kept, a task that waits is
  overwritten by the next of its property; the properties are served in the order of their first
  waiting task, and one property never runs two tasks at a time. The operations on the record of
  the members, then the system of producers and consumers with the latest task accepted and the
  latest started of every property.
\<close>

section \<open>The code\<close>

(* src: task_queue.hpp 670-689 LastTaskQueue *)
record ('p, 't) last_queue =
  lq_stop :: bool
  lq_props :: "'p list"
  lq_tasks :: "'p \<Rightarrow> 't option option"
  lq_cur :: "'p set"
  lq_max :: nat

(* src: task_queue.hpp 533-536 LastTaskQueue::LastTaskQueue *)
definition new_last :: "nat \<Rightarrow> ('p, 't) last_queue" where
  "new_last m = \<lparr>lq_stop = False, lq_props = [], lq_tasks = Map.empty, lq_cur = {}, lq_max = m\<rparr>"

(* src: task_queue.hpp 665-665 LastTaskQueue::not_full *)
definition lq_not_full :: "('p, 't) last_queue \<Rightarrow> bool" where
  "lq_not_full q \<longleftrightarrow> lq_max q = 0 \<or> length (lq_props q) < lq_max q"

(* src: task_queue.hpp 668-668 LastTaskQueue::not_empty *)
definition lq_not_empty :: "('p, 't) last_queue \<Rightarrow> bool" where
  "lq_not_empty q \<longleftrightarrow> lq_props q \<noteq> []"

(* src: task_queue.hpp 540-543 LastTaskQueue::empty *)
definition lq_empty :: "('p, 't) last_queue \<Rightarrow> bool" where
  "lq_empty q \<longleftrightarrow> \<not> lq_not_empty q"

(* src: task_queue.hpp 646-649 LastTaskQueue::full *)
definition lq_full :: "('p, 't) last_queue \<Rightarrow> bool" where
  "lq_full q \<longleftrightarrow> \<not> lq_not_full q"

(* src: task_queue.hpp 651-654 LastTaskQueue::size *)
definition lq_size :: "('p, 't) last_queue \<Rightarrow> nat" where
  "lq_size q = length (lq_props q)"

(* src: task_queue.hpp 657-663 LastTaskQueue::clear_inner *)
definition lq_clear_inner :: "('p, 't) last_queue \<Rightarrow> ('p, 't) last_queue" where
  "lq_clear_inner q = q\<lparr>lq_tasks := Map.empty, lq_props := []\<rparr>"

(* src: task_queue.hpp 545-548 LastTaskQueue::clear *)
definition lq_clear :: "('p, 't) last_queue \<Rightarrow> ('p, 't) last_queue" where
  "lq_clear q = lq_clear_inner q"

(* src: task_queue.hpp 550-559 LastTaskQueue::start *)
definition lq_start :: "('p, 't) last_queue \<Rightarrow> ('p, 't) last_queue" where
  "lq_start q = (if lq_stop q then q\<lparr>lq_stop := False\<rparr> else q)"

(* src: task_queue.hpp 561-575 LastTaskQueue::stop *)
definition lq_stop_queue :: "bool \<Rightarrow> ('p, 't) last_queue \<Rightarrow> ('p, 't) last_queue" where
  "lq_stop_queue bwait q =
     (if lq_stop q then q
      else if bwait then q\<lparr>lq_stop := True\<rparr>
      else lq_clear_inner (q\<lparr>lq_stop := True\<rparr>))"

(* src: task_queue.hpp 581-597 LastTaskQueue::add_task *)
definition lq_add :: "'p \<Rightarrow> 't option \<Rightarrow> ('p, 't) last_queue \<Rightarrow> (bool, ('p, 't) last_queue) outcome" where
  "lq_add p t q =
     (if \<not> (lq_stop q \<or> lq_not_full q) then Blocked
      else if lq_stop q then Done False q
      else Done True (q\<lparr>lq_props := (if lq_tasks q p = None then lq_props q @ [p] else lq_props q),
                        lq_tasks := (lq_tasks q)(p \<mapsto> t)\<rparr>))"

text \<open>The loop of pop_task over the waiting properties: the first one that does not run.\<close>

(* src: task_queue.hpp 611-614 LastTaskQueue::pop_task *)
fun first_idle :: "'p set \<Rightarrow> 'p list \<Rightarrow> 'p option" where
  "first_idle cur [] = None"
| "first_idle cur (p # ps) = (if p \<in> cur then first_idle cur ps else Some p)"

text \<open>pop_task up to the call of the task: the property and its task, or nothing.\<close>

(* src: task_queue.hpp 599-622 LastTaskQueue::pop_task *)
definition lq_pop_begin :: "('p, 't) last_queue \<Rightarrow> (('p \<times> 't option) option, ('p, 't) last_queue) outcome" where
  "lq_pop_begin q =
     (if \<not> (lq_stop q \<or> lq_not_empty q) then Blocked
      else if lq_stop q \<and> \<not> lq_not_empty q then Done None q
      else if lq_props q = [] then Done None q
      else (case first_idle (lq_cur q) (lq_props q) of
              None \<Rightarrow> Done None q
            | Some p \<Rightarrow>
                Done (Some (p, case lq_tasks q p of None \<Rightarrow> None | Some t \<Rightarrow> t))
                  (q\<lparr>lq_tasks := (lq_tasks q)(p := None), lq_props := remove1 p (lq_props q),
                     lq_cur := insert p (lq_cur q)\<rparr>)))"

(* src: task_queue.hpp 624-632 LastTaskQueue::pop_task *)
definition lq_pop_finish :: "'p \<Rightarrow> ('p, 't) last_queue \<Rightarrow> ('p, 't) last_queue" where
  "lq_pop_finish p q = q\<lparr>lq_cur := lq_cur q - {p}\<rparr>"

(* src: task_queue.hpp 636-644 LastTaskQueue::remove_prop *)
definition lq_remove_prop :: "'p \<Rightarrow> ('p, 't) last_queue \<Rightarrow> ('p, 't) last_queue" where
  "lq_remove_prop p q = q\<lparr>lq_props := removeAll p (lq_props q), lq_tasks := (lq_tasks q)(p := None)\<rparr>"

section \<open>Producers and consumers\<close>

text \<open>
  Besides the queue: the tasks that run, the latest task of every property that was accepted and
  not removed before it started, and the latest that was started.
\<close>

record ('p, 't) last_sys =
  ls_q :: "('p, 't) last_queue"
  ls_run :: "('p \<times> 't) list"
  ls_latest :: "'p \<Rightarrow> 't option"
  ls_started :: "'p \<Rightarrow> 't option"

inductive last_step :: "('p, 't) last_sys \<Rightarrow> ('p, 't) last_sys \<Rightarrow> bool" where
  add: "lq_add p (Some t) (ls_q s) = Done True q' \<Longrightarrow>
    last_step s (s\<lparr>ls_q := q', ls_latest := (ls_latest s)(p \<mapsto> t)\<rparr>)"
| add_refuse: "lq_add p (Some t) (ls_q s) = Done False q' \<Longrightarrow> last_step s (s\<lparr>ls_q := q'\<rparr>)"
| pop_none: "lq_pop_begin (ls_q s) = Done None q' \<Longrightarrow> last_step s (s\<lparr>ls_q := q'\<rparr>)"
| pop: "lq_pop_begin (ls_q s) = Done (Some (p, Some t)) q' \<Longrightarrow>
    last_step s (s\<lparr>ls_q := q', ls_run := (p, t) # ls_run s, ls_started := (ls_started s)(p \<mapsto> t)\<rparr>)"
| finish: "(p, t) \<in> set (ls_run s) \<Longrightarrow>
    last_step s (s\<lparr>ls_q := lq_pop_finish p (ls_q s), ls_run := remove1 (p, t) (ls_run s)\<rparr>)"
| remove: "last_step s (s\<lparr>ls_q := lq_remove_prop p (ls_q s),
      ls_latest := (ls_latest s)(p := ls_started s p)\<rparr>)"
| clear: "last_step s (s\<lparr>ls_q := lq_clear (ls_q s), ls_latest := ls_started s\<rparr>)"
| start: "last_step s (s\<lparr>ls_q := lq_start (ls_q s)\<rparr>)"
| stop: "last_step s (s\<lparr>ls_q := lq_stop_queue bwait (ls_q s),
      ls_latest := (if bwait \<or> lq_stop (ls_q s) then ls_latest s else ls_started s)\<rparr>)"

definition last_init :: "nat \<Rightarrow> ('p, 't) last_sys" where
  "last_init m = \<lparr>ls_q = new_last m, ls_run = [], ls_latest = Map.empty, ls_started = Map.empty\<rparr>"

definition last_reachable :: "nat \<Rightarrow> ('p, 't) last_sys \<Rightarrow> bool" where
  "last_reachable m s \<longleftrightarrow> last_step\<^sup>*\<^sup>* (last_init m) s"

definition last_inv :: "nat \<Rightarrow> ('p, 't) last_sys \<Rightarrow> bool" where
  "last_inv m s \<longleftrightarrow> lq_max (ls_q s) = m \<and> (0 < m \<longrightarrow> length (lq_props (ls_q s)) \<le> m) \<and>
     distinct (lq_props (ls_q s)) \<and> (\<forall>p. p \<in> set (lq_props (ls_q s)) \<longleftrightarrow> lq_tasks (ls_q s) p \<noteq> None) \<and>
     distinct (map fst (ls_run s)) \<and> fst ` set (ls_run s) = lq_cur (ls_q s) \<and>
     (\<forall>p t. lq_tasks (ls_q s) p = Some t \<longrightarrow> t \<noteq> None \<and> ls_latest s p = t) \<and>
     (\<forall>p. lq_tasks (ls_q s) p = None \<longrightarrow> ls_latest s p = ls_started s p) \<and>
     (\<forall>(p, t) \<in> set (ls_run s). ls_started s p = Some t)"

lemma first_idle_Some:
  "first_idle cur ps = Some p \<Longrightarrow> p \<in> set ps \<and> p \<notin> cur"
  by (induction ps) (auto split: if_splits)

lemma first_idle_None: "first_idle cur ps = None \<longleftrightarrow> set ps \<subseteq> cur"
  by (induction ps) auto

lemma last_inv_init: "last_inv m (last_init m)"
  by (simp add: last_inv_def last_init_def new_last_def)

lemma last_invD:
  assumes "last_inv m s"
  shows "lq_max (ls_q s) = m" "0 < m \<Longrightarrow> length (lq_props (ls_q s)) \<le> m" "distinct (lq_props (ls_q s))"
    "\<And>p. p \<in> set (lq_props (ls_q s)) \<longleftrightarrow> lq_tasks (ls_q s) p \<noteq> None"
    "distinct (map fst (ls_run s))" "fst ` set (ls_run s) = lq_cur (ls_q s)"
    "\<And>p t. lq_tasks (ls_q s) p = Some t \<Longrightarrow> t \<noteq> None \<and> ls_latest s p = t"
    "\<And>p. lq_tasks (ls_q s) p = None \<Longrightarrow> ls_latest s p = ls_started s p"
    "\<And>p t. (p, t) \<in> set (ls_run s) \<Longrightarrow> ls_started s p = Some t"
  using assms unfolding last_inv_def by auto

lemma last_invI:
  assumes "lq_max (ls_q s) = m" "0 < m \<Longrightarrow> length (lq_props (ls_q s)) \<le> m" "distinct (lq_props (ls_q s))"
    "\<And>p. p \<in> set (lq_props (ls_q s)) \<longleftrightarrow> lq_tasks (ls_q s) p \<noteq> None"
    "distinct (map fst (ls_run s))" "fst ` set (ls_run s) = lq_cur (ls_q s)"
    "\<And>p t. lq_tasks (ls_q s) p = Some t \<Longrightarrow> t \<noteq> None \<and> ls_latest s p = t"
    "\<And>p. lq_tasks (ls_q s) p = None \<Longrightarrow> ls_latest s p = ls_started s p"
    "\<And>p t. (p, t) \<in> set (ls_run s) \<Longrightarrow> ls_started s p = Some t"
  shows "last_inv m s"
  unfolding last_inv_def using assms by auto

lemma lq_add_DoneE:
  assumes "lq_add p t q = Done b q'"
  obtains "b" "\<not> lq_stop q" "lq_not_full q"
      "q' = q\<lparr>lq_props := (if lq_tasks q p = None then lq_props q @ [p] else lq_props q),
              lq_tasks := (lq_tasks q)(p \<mapsto> t)\<rparr>"
    | "\<not> b" "lq_stop q" "q' = q"
  using assms by (auto simp: lq_add_def split: if_splits)

lemma lq_pop_takeE:
  assumes "lq_pop_begin q = Done (Some (p, t)) q'"
  obtains "first_idle (lq_cur q) (lq_props q) = Some p"
    "t = (case lq_tasks q p of None \<Rightarrow> None | Some t \<Rightarrow> t)"
    "q' = q\<lparr>lq_tasks := (lq_tasks q)(p := None), lq_props := remove1 p (lq_props q),
            lq_cur := insert p (lq_cur q)\<rparr>"
  using assms by (auto simp: lq_pop_begin_def split: if_splits option.splits)

lemma lq_pop_noneE: "lq_pop_begin q = Done None q' \<Longrightarrow> q' = q"
  by (auto simp: lq_pop_begin_def split: if_splits option.splits)

lemma last_inv_pop:
  assumes i: "last_inv m s" and a: "lq_pop_begin (ls_q s) = Done (Some (p, Some t)) q'"
  shows "last_inv m (s\<lparr>ls_q := q', ls_run := (p, t) # ls_run s, ls_started := (ls_started s)(p \<mapsto> t)\<rparr>)"
proof -
  note I = last_invD [OF i]
  obtain fi: "first_idle (lq_cur (ls_q s)) (lq_props (ls_q s)) = Some p"
    and t: "Some t = (case lq_tasks (ls_q s) p of None \<Rightarrow> None | Some t \<Rightarrow> t)"
    and q': "q' = (ls_q s)\<lparr>lq_tasks := (lq_tasks (ls_q s))(p := None),
      lq_props := remove1 p (lq_props (ls_q s)), lq_cur := insert p (lq_cur (ls_q s))\<rparr>"
    using a by (rule lq_pop_takeE)
  note P = first_idle_Some [OF fi]
  have tp: "lq_tasks (ls_q s) p = Some (Some t)" using t by (auto split: option.splits)
  then have "ls_latest s p = Some t" using I(7) by blast
  moreover have "ls_started s u = Some v" "u \<noteq> p" if "(u, v) \<in> set (ls_run s)" for u v
    using that I(6,9) P by force+
  moreover have "p \<notin> fst ` set (ls_run s)" using I(6) P by simp
  ultimately show ?thesis
    using I(1-8) P by (intro last_invI) (auto simp: q' length_remove1 split: if_splits)
qed

lemma last_inv_step: "last_step s s' \<Longrightarrow> last_inv m s \<Longrightarrow> last_inv m s'"
proof (induction rule: last_step.induct)
  case (add p t s q')
  note I = last_invD [OF add.prems]
  from add.hyps have q': "lq_not_full (ls_q s)"
      "q' = (ls_q s)\<lparr>lq_props := (if lq_tasks (ls_q s) p = None then lq_props (ls_q s) @ [p]
         else lq_props (ls_q s)), lq_tasks := (lq_tasks (ls_q s))(p \<mapsto> Some t)\<rparr>"
    by (auto elim: lq_add_DoneE)
  show ?case
    using I q'(1) by (intro last_invI) (auto simp: q'(2) lq_not_full_def split: if_splits)
next
  case (add_refuse p t s q')
  then show ?case by (auto elim: lq_add_DoneE)
next
  case (pop_none s q')
  then show ?case using lq_pop_noneE by fastforce
next
  case (pop s p t q')
  then show ?case by (simp add: last_inv_pop)
next
  case (finish p t s)
  note I = last_invD [OF finish.prems]
  have "set (remove1 (p, t) (ls_run s)) \<subseteq> set (ls_run s)" by (rule set_remove1_subset)
  then have "ls_started s u = Some v" if "(u, v) \<in> set (remove1 (p, t) (ls_run s))" for u v
    using that I(9) by blast
  then show ?case using I finish.hyps
    by (intro last_invI) (simp_all add: lq_pop_finish_def fst_remove1 distinct_fst_remove1)
next
  case (remove s p)
  note I = last_invD [OF remove]
  have "length (removeAll p (lq_props (ls_q s))) \<le> length (lq_props (ls_q s))"
    by (simp add: removeAll_filter_not_eq)
  then have "0 < m \<Longrightarrow> length (removeAll p (lq_props (ls_q s))) \<le> m" using I(2) le_trans by blast
  then show ?case using I
    by (intro last_invI) (simp_all add: lq_remove_prop_def distinct_removeAll, (metis option.distinct(1))+)
next
  case (clear s)
  note I = last_invD [OF clear]
  then show ?case by (intro last_invI) (auto simp: lq_clear_def lq_clear_inner_def)
next
  case (start s)
  note I = last_invD [OF start]
  moreover have "lq_start (ls_q s) = (ls_q s)\<lparr>lq_stop := False\<rparr>" by (simp add: lq_start_def)
  ultimately show ?case by (intro last_invI) auto
next
  case (stop s bwait)
  note I = last_invD [OF stop]
  consider "lq_stop (ls_q s)" | "\<not> lq_stop (ls_q s)" "bwait" | "\<not> lq_stop (ls_q s)" "\<not> bwait" by blast
  then show ?case
    using I by cases (intro last_invI; auto simp: lq_stop_queue_def lq_clear_inner_def)+
qed

lemma last_reachable_inv: "last_reachable m s \<Longrightarrow> last_inv m s"
proof -
  assume "last_reachable m s"
  then have "last_step\<^sup>*\<^sup>* (last_init m) s" by (simp add: last_reachable_def)
  then show ?thesis by (induction rule: rtranclp_induct) (use last_inv_init last_inv_step in blast)+
qed

lemma last_reachable_step: "last_reachable m s \<Longrightarrow> last_step s s' \<Longrightarrow> last_reachable m s'"
  by (auto simp: last_reachable_def intro: rtranclp.rtrancl_into_rtrancl)

text \<open>Property 1 runs task 5 while 6 and then 7 have been added for it; property 2 waits with 8.\<close>

definition last_sample :: "(nat, nat) last_sys" where
  "last_sample = \<lparr>ls_q = \<lparr>lq_stop = False, lq_props = [1, 2], lq_tasks = [1 \<mapsto> Some 7, 2 \<mapsto> Some 8],
     lq_cur = {1}, lq_max = 3\<rparr>, ls_run = [(1, 5)], ls_latest = [1 \<mapsto> 7, 2 \<mapsto> 8], ls_started = [1 \<mapsto> 5]\<rparr>"

lemmas last_code = lq_add_def lq_not_full_def lq_not_empty_def lq_pop_begin_def

lemma last_sample_reachable: "last_reachable 3 last_sample"
proof -
  let ?add = "\<lambda>(s :: (nat, nat) last_sys) p t. s\<lparr>ls_q := (ls_q s)\<lparr>lq_props := (if lq_tasks (ls_q s) p = None
      then lq_props (ls_q s) @ [p] else lq_props (ls_q s)), lq_tasks := (lq_tasks (ls_q s))(p \<mapsto> Some t)\<rparr>,
      ls_latest := (ls_latest s)(p \<mapsto> t)\<rparr>"
  have add: "last_reachable 3 (?add s p t)"
    if "last_reachable 3 s" "\<not> lq_stop (ls_q s)" "lq_not_full (ls_q s)" for s :: "(nat, nat) last_sys" and p t
    by (rule last_reachable_step [OF that(1) last_step.add]) (simp add: lq_add_def that)
  let ?s0 = "last_init 3 :: (nat, nat) last_sys"
  let ?s1 = "?add ?s0 1 5"
  let ?s2 = "?s1\<lparr>ls_q := \<lparr>lq_stop = False, lq_props = [], lq_tasks = Map.empty, lq_cur = {1}, lq_max = 3\<rparr>,
      ls_run := (1, 5) # ls_run ?s1, ls_started := (ls_started ?s1)(1 \<mapsto> 5)\<rparr>"
  note defs = last_init_def new_last_def
  have r0: "last_reachable 3 ?s0" by (simp add: last_reachable_def)
  have r1: "last_reachable 3 ?s1" by (rule add [OF r0]) (simp_all add: defs lq_not_full_def)
  have r2: "last_reachable 3 ?s2"
    by (rule last_reachable_step [OF r1 last_step.pop]) (simp add: defs last_code)
  have r3: "last_reachable 3 (?add ?s2 1 6)" by (rule add [OF r2]) (simp_all add: defs lq_not_full_def)
  have r4: "last_reachable 3 (?add (?add ?s2 1 6) 1 7)"
    by (rule add [OF r3]) (simp_all add: defs lq_not_full_def)
  have "last_reachable 3 (?add (?add (?add ?s2 1 6) 1 7) 2 8)"
    by (rule add [OF r4]) (simp_all add: defs lq_not_full_def)
  then show ?thesis by (simp add: last_sample_def defs)
qed



text \<open>A task runs as soon as a consumer is free: in a reachable state pop_task starts a task whenever
  some waiting property does not run, it is the first such property in the order of arrival, and
  its task is never empty.\<close>

theorem last_queue_pop:
  assumes "last_reachable m s" "lq_props (ls_q s) = us @ p # vs"
    and "p \<notin> fst ` set (ls_run s)" "\<forall>u \<in> set us. u \<in> fst ` set (ls_run s)"
  shows "\<exists>t q'. lq_pop_begin (ls_q s) = Done (Some (p, Some t)) q' \<and> lq_props q' = us @ vs \<and>
     ls_latest s p = Some t"
proof -
  note I = last_invD [OF last_reachable_inv [OF assms(1)]]
  have "first_idle (lq_cur (ls_q s)) (us @ p # vs) = Some p"
    using assms(3,4) unfolding I(6) by (induction us) auto
  moreover obtain t where "lq_tasks (ls_q s) p = Some (Some t)" "ls_latest s p = Some t"
    using I(4) [of p] I(7) [of p] assms(2) by auto
  moreover have "remove1 p (us @ p # vs) = us @ vs" using I(3) assms(2) by (auto simp: remove1_append)
  ultimately show ?thesis using assms(2) by (simp add: lq_pop_begin_def lq_not_empty_def)
qed

theorem last_queue_pop_witness:
  "\<exists>t q'. lq_pop_begin (ls_q last_sample) = Done (Some (2, Some t)) q' \<and> lq_props q' = [1]"
  using last_queue_pop [OF last_sample_reachable, of "[1]" 2 "[]"] by (auto simp: last_sample_def)

text \<open>pop_task of LastTaskQueue does not wait for a running property: while every waiting property
  is running it returns at once with nothing and the queue unchanged, so a pool thread that calls
  it in a loop spins until one of them finishes.\<close>

theorem last_queue_spins:
  assumes "lq_props q \<noteq> []" "set (lq_props q) \<subseteq> lq_cur q"
  shows "lq_pop_begin q = Done None q"
  using assms by (auto simp: lq_pop_begin_def lq_not_empty_def first_idle_None [THEN iffD2])

theorem last_queue_spins_witness:
  "lq_pop_begin (lq_remove_prop 2 (ls_q last_sample)) = Done None (lq_remove_prop 2 (ls_q last_sample))"
  by (rule last_queue_spins) (simp_all add: last_sample_def lq_remove_prop_def)

end
