(* ===== verification/Parallel_Queues.thy ===== *)
theory Parallel_Queues
  imports Prelude
begin

text \<open>
  The queues of task_queue.hpp on top of moodycamel::ConcurrentQueue: ParallelTaskQueue,
  SingleThreadParallelTaskQueue, NoBlockingParallelTaskQueue and LockFreeTaskQueue. The concurrent
  queue itself is a submodule and a parameter, the record cqueue of its operations; what the code
  relies on is the predicate cq_spec. Their critical sections do not cover the whole of add_task and
  pop_task, so the operations are given in the pieces between which other threads run.
\<close>

section \<open>The concurrent queue\<close>

record ('q, 't) cqueue =
  cq_new :: 'q
  cq_enqueue :: "'t \<Rightarrow> 'q \<Rightarrow> 'q"
  cq_try_dequeue :: "'q \<Rightarrow> ('t \<times> 'q) option"
  cq_size :: "'q \<Rightarrow> nat"

text \<open>
  The documented behaviour of calls that do not overlap, each of which sees the effects of those
  before it: enqueue adds the element, try_dequeue takes some element and fails only on an empty
  queue, and the size estimate is exact while nobody operates on the queue. (Of calls that overlap
  the documentation promises less: try_dequeue may fail on a queue that is not empty.)
\<close>

definition cq_spec :: "('q, 't) cqueue \<Rightarrow> ('q \<Rightarrow> 't multiset) \<Rightarrow> bool" where
  "cq_spec C c \<longleftrightarrow> c (cq_new C) = {#} \<and> (\<forall>t q. c (cq_enqueue C t q) = add_mset t (c q)) \<and>
     (\<forall>q. cq_try_dequeue C q = None \<longleftrightarrow> c q = {#}) \<and>
     (\<forall>q t q'. cq_try_dequeue C q = Some (t, q') \<longrightarrow> c q = add_mset t (c q')) \<and>
     (\<forall>q. cq_size C q = size (c q))"

text \<open>An instance, a list used from both ends.\<close>

definition list_cq :: "('t list, 't) cqueue" where
  "list_cq = \<lparr>cq_new = [], cq_enqueue = (\<lambda>t q. q @ [t]),
     cq_try_dequeue = (\<lambda>q. case q of [] \<Rightarrow> None | t # ts \<Rightarrow> Some (t, ts)), cq_size = length\<rparr>"

lemma list_cq_spec: "cq_spec list_cq mset"
  by (auto simp: cq_spec_def list_cq_def split: list.splits)

section \<open>ParallelTaskQueue\<close>

(* src: task_queue.hpp 297-312 ParallelTaskQueue *)
record 'q parallel_queue =
  pq_stop :: bool
  pq_queue :: 'q
  pq_max :: nat

(* src: task_queue.hpp 201-204 ParallelTaskQueue::ParallelTaskQueue *)
definition new_pq :: "('q, 't option) cqueue \<Rightarrow> nat \<Rightarrow> 'q parallel_queue" where
  "new_pq C m = \<lparr>pq_stop = False, pq_queue = cq_new C, pq_max = m\<rparr>"

(* src: task_queue.hpp 281-281 ParallelTaskQueue::size *)
definition pq_size :: "('q, 't option) cqueue \<Rightarrow> 'q parallel_queue \<Rightarrow> nat" where
  "pq_size C q = cq_size C (pq_queue q)"

(* src: task_queue.hpp 292-292 ParallelTaskQueue::not_full *)
definition pq_not_full :: "('q, 't option) cqueue \<Rightarrow> 'q parallel_queue \<Rightarrow> bool" where
  "pq_not_full C q \<longleftrightarrow> pq_max q = 0 \<or> pq_size C q < pq_max q"

(* src: task_queue.hpp 295-295 ParallelTaskQueue::not_empty *)
definition pq_not_empty :: "('q, 't option) cqueue \<Rightarrow> 'q parallel_queue \<Rightarrow> bool" where
  "pq_not_empty C q \<longleftrightarrow> pq_size C q \<noteq> 0"

(* src: task_queue.hpp 208-208 ParallelTaskQueue::empty *)
definition pq_empty :: "('q, 't option) cqueue \<Rightarrow> 'q parallel_queue \<Rightarrow> bool" where
  "pq_empty C q \<longleftrightarrow> \<not> pq_not_empty C q"

(* src: task_queue.hpp 279-279 ParallelTaskQueue::full *)
definition pq_full :: "('q, 't option) cqueue \<Rightarrow> 'q parallel_queue \<Rightarrow> bool" where
  "pq_full C q \<longleftrightarrow> \<not> pq_not_full C q"

(* src: task_queue.hpp 284-290 ParallelTaskQueue::clear_inner *)
definition pq_clear_inner :: "('q, 't option) cqueue \<Rightarrow> 'q parallel_queue \<Rightarrow> 'q parallel_queue" where
  "pq_clear_inner C q = q\<lparr>pq_queue := cq_new C\<rparr>"

(* src: task_queue.hpp 210-213 ParallelTaskQueue::clear *)
definition pq_clear :: "('q, 't option) cqueue \<Rightarrow> 'q parallel_queue \<Rightarrow> 'q parallel_queue" where
  "pq_clear C q = pq_clear_inner C q"

(* src: task_queue.hpp 215-224 ParallelTaskQueue::start *)
definition pq_start :: "'q parallel_queue \<Rightarrow> 'q parallel_queue" where
  "pq_start q = (if pq_stop q then q\<lparr>pq_stop := False\<rparr> else q)"

(* src: task_queue.hpp 226-241 ParallelTaskQueue::stop *)
definition pq_stop_queue :: "('q, 't option) cqueue \<Rightarrow> bool \<Rightarrow> 'q parallel_queue \<Rightarrow> 'q parallel_queue" where
  "pq_stop_queue C bwait q =
     (if pq_stop q then q
      else if bwait then q\<lparr>pq_stop := True\<rparr>
      else pq_clear_inner C (q\<lparr>pq_stop := True\<rparr>))"

text \<open>
  add_task: the wait under the mutex, then, without it, the stop test and the insertion. pop_task:
  the wait under the mutex, then, without it, the test and the removal. The predicates of the two
  waits are given; a thread whose predicate is false goes to sleep.
\<close>

(* src: task_queue.hpp 249-254 ParallelTaskQueue::add_task *)
definition pq_add_ready :: "('q, 't option) cqueue \<Rightarrow> 'q parallel_queue \<Rightarrow> bool" where
  "pq_add_ready C q \<longleftrightarrow> pq_stop q \<or> pq_not_full C q"

(* src: task_queue.hpp 256-259 ParallelTaskQueue::add_task *)
definition pq_add_insert :: "('q, 't option) cqueue \<Rightarrow> 't option \<Rightarrow> 'q parallel_queue \<Rightarrow> bool \<times> 'q parallel_queue" where
  "pq_add_insert C t q =
     (if pq_stop q then (False, q) else (True, q\<lparr>pq_queue := cq_enqueue C t (pq_queue q)\<rparr>))"

(* src: task_queue.hpp 262-266 ParallelTaskQueue::pop_task *)
definition pq_pop_ready :: "('q, 't option) cqueue \<Rightarrow> 'q parallel_queue \<Rightarrow> bool" where
  "pq_pop_ready C q \<longleftrightarrow> pq_stop q \<or> pq_not_empty C q"

(* src: task_queue.hpp 268-276 ParallelTaskQueue::pop_task *)
definition pq_pop_take :: "('q, 't option) cqueue \<Rightarrow> 'q parallel_queue \<Rightarrow> 't option option \<times> 'q parallel_queue" where
  "pq_pop_take C q =
     (if pq_empty C q then (None, q)
      else (case cq_try_dequeue C (pq_queue q) of
              Some (t, c) \<Rightarrow> (Some t, q\<lparr>pq_queue := c\<rparr>)
            | None \<Rightarrow> (None, q)))"

section \<open>SingleThreadParallelTaskQueue\<close>

text \<open>The same members, with a token for the one producer and one for the one consumer.\<close>

(* src: task_queue.hpp 416-433 SingleThreadParallelTaskQueue *)
type_synonym 'q single_queue = "'q parallel_queue"

(* src: task_queue.hpp 320-325 SingleThreadParallelTaskQueue::SingleThreadParallelTaskQueue *)
definition new_st :: "('q, 't option) cqueue \<Rightarrow> nat \<Rightarrow> 'q single_queue" where
  "new_st C m = \<lparr>pq_stop = False, pq_queue = cq_new C, pq_max = m\<rparr>"

(* src: task_queue.hpp 411-411 SingleThreadParallelTaskQueue::not_full *)
definition st_not_full :: "('q, 't option) cqueue \<Rightarrow> 'q single_queue \<Rightarrow> bool" where
  "st_not_full C q \<longleftrightarrow> pq_max q = 0 \<or> cq_size C (pq_queue q) < pq_max q"

(* src: task_queue.hpp 414-414 SingleThreadParallelTaskQueue::not_empty *)
definition st_not_empty :: "('q, 't option) cqueue \<Rightarrow> 'q single_queue \<Rightarrow> bool" where
  "st_not_empty C q \<longleftrightarrow> cq_size C (pq_queue q) \<noteq> 0"

(* src: task_queue.hpp 329-329 SingleThreadParallelTaskQueue::empty *)
definition st_empty :: "('q, 't option) cqueue \<Rightarrow> 'q single_queue \<Rightarrow> bool" where
  "st_empty C q \<longleftrightarrow> \<not> st_not_empty C q"

(* src: task_queue.hpp 403-409 SingleThreadParallelTaskQueue::clear_inner *)
definition st_clear_inner :: "('q, 't option) cqueue \<Rightarrow> 'q single_queue \<Rightarrow> 'q single_queue" where
  "st_clear_inner C q = q\<lparr>pq_queue := cq_new C\<rparr>"

(* src: task_queue.hpp 331-334 SingleThreadParallelTaskQueue::clear *)
definition st_clear :: "('q, 't option) cqueue \<Rightarrow> 'q single_queue \<Rightarrow> 'q single_queue" where
  "st_clear C q = st_clear_inner C q"

(* src: task_queue.hpp 336-345 SingleThreadParallelTaskQueue::start *)
definition st_start :: "'q single_queue \<Rightarrow> 'q single_queue" where
  "st_start q = (if pq_stop q then q\<lparr>pq_stop := False\<rparr> else q)"

(* src: task_queue.hpp 347-361 SingleThreadParallelTaskQueue::stop *)
definition st_stop_queue :: "('q, 't option) cqueue \<Rightarrow> bool \<Rightarrow> 'q single_queue \<Rightarrow> 'q single_queue" where
  "st_stop_queue C bwait q =
     (if pq_stop q then q
      else if bwait then q\<lparr>pq_stop := True\<rparr>
      else st_clear_inner C (q\<lparr>pq_stop := True\<rparr>))"

text \<open>add_task keeps the mutex to the end, so it is one critical section.\<close>

(* src: task_queue.hpp 367-379 SingleThreadParallelTaskQueue::add_task *)
definition st_add :: "('q, 't option) cqueue \<Rightarrow> 't option \<Rightarrow> 'q single_queue \<Rightarrow> (bool, 'q single_queue) outcome" where
  "st_add C t q =
     (if \<not> (pq_stop q \<or> st_not_full C q) then Blocked
      else if pq_stop q then Done False q
      else Done True (q\<lparr>pq_queue := cq_enqueue C t (pq_queue q)\<rparr>))"

(* src: task_queue.hpp 381-385 SingleThreadParallelTaskQueue::pop_task *)
definition st_pop_ready :: "('q, 't option) cqueue \<Rightarrow> 'q single_queue \<Rightarrow> bool" where
  "st_pop_ready C q \<longleftrightarrow> pq_stop q \<or> st_not_empty C q"

(* src: task_queue.hpp 387-396 SingleThreadParallelTaskQueue::pop_task *)
definition st_pop_take :: "('q, 't option) cqueue \<Rightarrow> 'q single_queue \<Rightarrow> 't option option \<times> 'q single_queue" where
  "st_pop_take C q =
     (if st_empty C q then (None, q)
      else (case cq_try_dequeue C (pq_queue q) of
              Some (t, c) \<Rightarrow> (Some t, q\<lparr>pq_queue := c\<rparr>)
            | None \<Rightarrow> (None, q)))"

section \<open>NoBlockingParallelTaskQueue and LockFreeTaskQueue\<close>

(* src: task_queue.hpp 511-519 NoBlockingParallelTaskQueue *)
record 'q nb_queue =
  nb_stop :: bool
  nb_queue :: 'q
  nb_max :: nat

(* src: task_queue.hpp 509-509 NoBlockingParallelTaskQueue::size *)
definition nb_size :: "('q, 't option) cqueue \<Rightarrow> 'q nb_queue \<Rightarrow> nat" where
  "nb_size C q = cq_size C (nb_queue q)"

(* src: task_queue.hpp 452-452 NoBlockingParallelTaskQueue::empty *)
definition nb_empty :: "('q, 't option) cqueue \<Rightarrow> 'q nb_queue \<Rightarrow> bool" where
  "nb_empty C q \<longleftrightarrow> nb_size C q = 0"

(* src: task_queue.hpp 454-457 NoBlockingParallelTaskQueue::clear *)
definition nb_clear :: "('q, 't option) cqueue \<Rightarrow> 'q nb_queue \<Rightarrow> 'q nb_queue" where
  "nb_clear C q = q\<lparr>nb_queue := cq_new C\<rparr>"

(* src: task_queue.hpp 459-465 NoBlockingParallelTaskQueue::start *)
definition nb_start :: "'q nb_queue \<Rightarrow> 'q nb_queue" where
  "nb_start q = (if nb_stop q then q\<lparr>nb_stop := False\<rparr> else q)"

(* src: task_queue.hpp 467-478 NoBlockingParallelTaskQueue::stop *)
definition nb_stop_queue :: "('q, 't option) cqueue \<Rightarrow> bool \<Rightarrow> 'q nb_queue \<Rightarrow> 'q nb_queue" where
  "nb_stop_queue C bwait q =
     (if nb_stop q then q
      else if bwait then q\<lparr>nb_stop := True\<rparr>
      else nb_clear C (q\<lparr>nb_stop := True\<rparr>))"

text \<open>
  add_task yields in a loop while the queue is over its bound; Blocked stands for one more turn of
  that loop, which does not look at the stop flag.
\<close>

(* src: task_queue.hpp 484-493 NoBlockingParallelTaskQueue::add_task *)
definition nb_add :: "('q, 't option) cqueue \<Rightarrow> 't option \<Rightarrow> 'q nb_queue \<Rightarrow> (bool, 'q nb_queue) outcome" where
  "nb_add C t q =
     (if nb_max q > 0 \<and> nb_size C q > nb_max q then Blocked
      else if nb_stop q then Done False q
      else Done True (q\<lparr>nb_queue := cq_enqueue C t (nb_queue q)\<rparr>))"

(* src: task_queue.hpp 495-507 NoBlockingParallelTaskQueue::pop_task *)
definition nb_pop :: "('q, 't option) cqueue \<Rightarrow> 'q nb_queue \<Rightarrow> 't option option \<times> 'q nb_queue" where
  "nb_pop C q =
     (if nb_stop q \<and> nb_empty C q then (None, q)
      else (case cq_try_dequeue C (nb_queue q) of
              Some (t, c) \<Rightarrow> (Some t, q\<lparr>nb_queue := c\<rparr>)
            | None \<Rightarrow> (None, q)))"

text \<open>LockFreeTaskQueue: the state is the concurrent queue; an empty FastFunction is None.\<close>

(* src: task_queue.hpp 698-704 LockFreeTaskQueue::pop_task *)
definition lf_pop :: "('q, 't option) cqueue \<Rightarrow> 'q \<Rightarrow> 't option \<times> 'q" where
  "lf_pop C q = (case cq_try_dequeue C q of Some (t, c) \<Rightarrow> (t, c) | None \<Rightarrow> (None, q))"

(* src: task_queue.hpp 705-711 LockFreeTaskQueue::pop_task *)
definition lf_pop_ref :: "('q, 't option) cqueue \<Rightarrow> 'q \<Rightarrow> bool \<times> 't option \<times> 'q" where
  "lf_pop_ref C q = (case cq_try_dequeue C q of Some (t, c) \<Rightarrow> (True, t, c) | None \<Rightarrow> (False, None, q))"

(* src: task_queue.hpp 713-713 LockFreeTaskQueue::add_task *)
definition lf_add :: "('q, 't option) cqueue \<Rightarrow> 't option \<Rightarrow> 'q \<Rightarrow> 'q" where
  "lf_add C t q = cq_enqueue C t q"

(* src: task_queue.hpp 715-718 LockFreeTaskQueue::clear *)
definition lf_clear :: "('q, 't option) cqueue \<Rightarrow> 'q \<Rightarrow> 'q" where
  "lf_clear C q = cq_new C"

section \<open>The callers of ParallelTaskQueue\<close>

text \<open>
  The mutex is held by a thread whose wait predicate was false until it sleeps; the tests after the
  wait, the insertion, the removal and the notifications do not take it. The counters are the
  consumers that try, that are about to sleep, that sleep, that passed the wait and that saw the
  queue not empty; the multisets hold the tasks of the producers that try, are about to sleep,
  sleep, passed the wait and saw the queue not stopped; then the notifications under way.
\<close>

record ('q, 't) par_sys =
  ps_q :: "'q parallel_queue"
  ps_mutex :: bool
  ps_try :: nat
  ps_fall :: nat
  ps_wait :: nat
  ps_go :: nat
  ps_deq :: nat
  ps_add_try :: "'t option multiset"
  ps_add_fall :: "'t option multiset"
  ps_add_wait :: "'t option multiset"
  ps_add_go :: "'t option multiset"
  ps_add_enq :: "'t option multiset"
  ps_ne :: nat
  ps_nf :: nat

text \<open>notify_all on both condition variables.\<close>

definition ps_notify_all :: "('q, 't) par_sys \<Rightarrow> ('q, 't) par_sys" where
  "ps_notify_all s = s\<lparr>ps_try := ps_try s + ps_wait s, ps_wait := 0,
     ps_add_try := ps_add_try s + ps_add_wait s, ps_add_wait := {#}\<rparr>"

(* src: task_queue.hpp 210-277 ParallelTaskQueue *)
inductive par_step :: "('q, 't option) cqueue \<Rightarrow> ('q, 't) par_sys \<Rightarrow> ('q, 't) par_sys \<Rightarrow> bool" for C where
  call_add: "\<not> pq_stop (ps_q s) \<Longrightarrow> par_step C s (s\<lparr>ps_add_try := add_mset t (ps_add_try s)\<rparr>)"
| call_pop: "par_step C s (s\<lparr>ps_try := ps_try s + 1\<rparr>)"
| pop_fall: "\<not> ps_mutex s \<Longrightarrow> 0 < ps_try s \<Longrightarrow> \<not> pq_pop_ready C (ps_q s) \<Longrightarrow>
    par_step C s (s\<lparr>ps_mutex := True, ps_try := ps_try s - 1, ps_fall := ps_fall s + 1\<rparr>)"
| pop_sleep: "0 < ps_fall s \<Longrightarrow>
    par_step C s (s\<lparr>ps_mutex := False, ps_fall := ps_fall s - 1, ps_wait := ps_wait s + 1\<rparr>)"
| pop_pass: "\<not> ps_mutex s \<or> pq_stop (ps_q s) \<Longrightarrow> 0 < ps_try s \<Longrightarrow> pq_pop_ready C (ps_q s) \<Longrightarrow>
    par_step C s (s\<lparr>ps_try := ps_try s - 1, ps_go := ps_go s + 1\<rparr>)"
| pop_empty: "0 < ps_go s \<Longrightarrow> pq_empty C (ps_q s) \<Longrightarrow> par_step C s (s\<lparr>ps_go := ps_go s - 1\<rparr>)"
| pop_test: "0 < ps_go s \<Longrightarrow> \<not> pq_empty C (ps_q s) \<Longrightarrow>
    par_step C s (s\<lparr>ps_go := ps_go s - 1, ps_deq := ps_deq s + 1\<rparr>)"
| pop_fail: "0 < ps_deq s \<Longrightarrow> cq_try_dequeue C (pq_queue (ps_q s)) = None \<Longrightarrow>
    par_step C s (s\<lparr>ps_deq := ps_deq s - 1, ps_nf := ps_nf s + 1\<rparr>)"
| pop_take: "0 < ps_deq s \<Longrightarrow> cq_try_dequeue C (pq_queue (ps_q s)) = Some (t, c') \<Longrightarrow>
    par_step C s (s\<lparr>ps_q := (ps_q s)\<lparr>pq_queue := c'\<rparr>, ps_deq := ps_deq s - 1, ps_nf := ps_nf s + 1\<rparr>)"
| add_fall: "\<not> ps_mutex s \<Longrightarrow> t \<in># ps_add_try s \<Longrightarrow> \<not> pq_add_ready C (ps_q s) \<Longrightarrow>
    par_step C s (s\<lparr>ps_mutex := True, ps_add_try := ps_add_try s - {#t#},
      ps_add_fall := add_mset t (ps_add_fall s)\<rparr>)"
| add_sleep: "t \<in># ps_add_fall s \<Longrightarrow>
    par_step C s (s\<lparr>ps_mutex := False, ps_add_fall := ps_add_fall s - {#t#},
      ps_add_wait := add_mset t (ps_add_wait s)\<rparr>)"
| add_pass: "\<not> ps_mutex s \<Longrightarrow> t \<in># ps_add_try s \<Longrightarrow> pq_add_ready C (ps_q s) \<Longrightarrow>
    par_step C s (s\<lparr>ps_add_try := ps_add_try s - {#t#}, ps_add_go := add_mset t (ps_add_go s)\<rparr>)"
| add_refused: "t \<in># ps_add_go s \<Longrightarrow> pq_stop (ps_q s) \<Longrightarrow>
    par_step C s (s\<lparr>ps_add_go := ps_add_go s - {#t#}\<rparr>)"
| add_test: "t \<in># ps_add_go s \<Longrightarrow> \<not> pq_stop (ps_q s) \<Longrightarrow>
    par_step C s (s\<lparr>ps_add_go := ps_add_go s - {#t#}, ps_add_enq := add_mset t (ps_add_enq s)\<rparr>)"
| add_insert: "t \<in># ps_add_enq s \<Longrightarrow>
    par_step C s (s\<lparr>ps_q := (ps_q s)\<lparr>pq_queue := cq_enqueue C t (pq_queue (ps_q s))\<rparr>,
      ps_add_enq := ps_add_enq s - {#t#}, ps_ne := ps_ne s + 1\<rparr>)"
| notify_ne: "0 < ps_ne s \<Longrightarrow>
    par_step C s (s\<lparr>ps_ne := ps_ne s - 1, ps_wait := ps_wait s - 1,
      ps_try := (if ps_wait s = 0 then ps_try s else ps_try s + 1)\<rparr>)"
| notify_nf_idle: "0 < ps_nf s \<Longrightarrow> ps_add_wait s = {#} \<Longrightarrow> par_step C s (s\<lparr>ps_nf := ps_nf s - 1\<rparr>)"
| notify_nf: "0 < ps_nf s \<Longrightarrow> t \<in># ps_add_wait s \<Longrightarrow>
    par_step C s (s\<lparr>ps_nf := ps_nf s - 1, ps_add_wait := ps_add_wait s - {#t#},
      ps_add_try := add_mset t (ps_add_try s)\<rparr>)"
| start: "pq_stop (ps_q s) \<Longrightarrow>
    par_step C s (ps_notify_all (s\<lparr>ps_q := pq_start (ps_q s)\<rparr>))"
| stop: "\<not> ps_mutex s \<Longrightarrow> \<not> pq_stop (ps_q s) \<Longrightarrow>
    par_step C s (ps_notify_all (s\<lparr>ps_q := pq_stop_queue C bwait (ps_q s)\<rparr>))"
| clear: "\<not> ps_mutex s \<Longrightarrow> par_step C s (ps_notify_all (s\<lparr>ps_q := pq_clear C (ps_q s)\<rparr>))"

definition par_init :: "('q, 't option) cqueue \<Rightarrow> nat \<Rightarrow> ('q, 't) par_sys" where
  "par_init C m = \<lparr>ps_q = new_pq C m, ps_mutex = False, ps_try = 0, ps_fall = 0, ps_wait = 0, ps_go = 0,
     ps_deq = 0, ps_add_try = {#}, ps_add_fall = {#}, ps_add_wait = {#}, ps_add_go = {#}, ps_add_enq = {#},
     ps_ne = 0, ps_nf = 0\<rparr>"

definition par_reachable :: "('q, 't option) cqueue \<Rightarrow> nat \<Rightarrow> ('q, 't) par_sys \<Rightarrow> bool" where
  "par_reachable C m s \<longleftrightarrow> (par_step C)\<^sup>*\<^sup>* (par_init C m) s"

lemma par_reachable_step: "par_reachable C m s \<Longrightarrow> par_step C s s' \<Longrightarrow> par_reachable C m s'"
  by (auto simp: par_reachable_def intro: rtranclp.rtrancl_into_rtrancl)

lemma cq_specD:
  assumes "cq_spec C c"
  shows "c (cq_new C) = {#}" "\<And>t q. c (cq_enqueue C t q) = add_mset t (c q)"
    "\<And>q. cq_try_dequeue C q = None \<longleftrightarrow> c q = {#}"
    "\<And>q t q'. cq_try_dequeue C q = Some (t, q') \<Longrightarrow> c q = add_mset t (c q')"
    "\<And>q. cq_size C q = size (c q)"
  using assms by (auto simp: cq_spec_def)

text \<open>
  The bad run: a consumer finds the queue empty and is about to sleep; a producer, which needs no
  mutex for it, inserts a task and notifies nobody; then the consumer sleeps.
\<close>

definition lost_state :: "('q, 't option) cqueue \<Rightarrow> 't \<Rightarrow> ('q, 't) par_sys" where
  "lost_state C t = (par_init C 0)\<lparr>ps_q := \<lparr>pq_stop = False, pq_queue = cq_enqueue C (Some t) (cq_new C), pq_max = 0\<rparr>,
     ps_wait := 1\<rparr>"

lemma lost_state_reachable:
  assumes "cq_spec C c"
  shows "par_reachable C 0 (lost_state C t)"
proof -
  have empty: "cq_size C (cq_new C) = 0" using cq_specD(1,5) [OF assms] by simp
  let ?q = "new_pq C 0" and ?i = "par_init C 0 :: ('a, 'b) par_sys"
  note defs = par_init_def new_pq_def pq_pop_ready_def pq_not_empty_def pq_size_def empty
     pq_add_ready_def pq_not_full_def pq_add_insert_def lost_state_def
  have "par_reachable C 0 ?i" by (simp add: par_reachable_def)
  then have "par_reachable C 0 (?i\<lparr>ps_add_try := {#Some t#}\<rparr>)"
    by (rule par_reachable_step) (use par_step.call_add [of ?i C "Some t"] in \<open>simp add: defs\<close>)
  then have "par_reachable C 0 (?i\<lparr>ps_add_go := {#Some t#}\<rparr>)"
    by (rule par_reachable_step)
       (use par_step.add_pass [of "?i\<lparr>ps_add_try := {#Some t#}\<rparr>" "Some t" C] in \<open>simp add: defs\<close>)
  then have "par_reachable C 0 (?i\<lparr>ps_add_enq := {#Some t#}\<rparr>)"
    by (rule par_reachable_step)
       (use par_step.add_test [of "Some t" "?i\<lparr>ps_add_go := {#Some t#}\<rparr>" C] in \<open>simp add: defs\<close>)
  then have "par_reachable C 0 (?i\<lparr>ps_add_enq := {#Some t#}, ps_try := 1\<rparr>)"
    by (rule par_reachable_step)
       (use par_step.call_pop [of C "?i\<lparr>ps_add_enq := {#Some t#}\<rparr>"] in \<open>simp add: defs\<close>)
  then have "par_reachable C 0 (?i\<lparr>ps_add_enq := {#Some t#}, ps_mutex := True, ps_fall := 1\<rparr>)"
    by (rule par_reachable_step)
       (use par_step.pop_fall [of "?i\<lparr>ps_add_enq := {#Some t#}, ps_try := 1\<rparr>" C] in \<open>simp add: defs\<close>)
  then have "par_reachable C 0 ((lost_state C t)\<lparr>ps_wait := 0, ps_mutex := True, ps_fall := 1, ps_ne := 1\<rparr>)"
    by (rule par_reachable_step)
       (use par_step.add_insert [of "Some t" "?i\<lparr>ps_add_enq := {#Some t#}, ps_mutex := True, ps_fall := 1\<rparr>" C]
        in \<open>simp add: defs\<close>)
  then have "par_reachable C 0 ((lost_state C t)\<lparr>ps_wait := 0, ps_mutex := True, ps_fall := 1\<rparr>)"
    by (rule par_reachable_step)
       (use par_step.notify_ne [of "(lost_state C t)\<lparr>ps_wait := 0, ps_mutex := True, ps_fall := 1, ps_ne := 1\<rparr>" C]
        in \<open>simp add: defs\<close>)
  then show ?thesis
    by (rule par_reachable_step)
       (use par_step.pop_sleep [of "(lost_state C t)\<lparr>ps_wait := 0, ps_mutex := True, ps_fall := 1\<rparr>" C]
        in \<open>simp add: defs\<close>)
qed



section \<open>The two threads of SingleThreadParallelTaskQueue\<close>

text \<open>
  One producer, one consumer, each in one place: trying, about to sleep with the mutex held, asleep,
  or past the wait. The producer inserts and notifies with the mutex held; the consumer removes and
  notifies without it, so its step comes at any time.
\<close>

datatype place = Trying | Falling | Asleep | Passed

record ('q, 't) st_sys =
  st_q :: "'q single_queue"
  st_producer :: place
  st_task :: "'t option"
  st_consumer :: place

definition st_mutex :: "('q, 't) st_sys \<Rightarrow> bool" where
  "st_mutex s \<longleftrightarrow> st_producer s = Falling \<or> st_consumer s = Falling"

inductive st_step :: "('q, 't option) cqueue \<Rightarrow> ('q, 't) st_sys \<Rightarrow> ('q, 't) st_sys \<Rightarrow> bool" for C where
  add_fall: "\<not> st_mutex s \<Longrightarrow> st_producer s = Trying \<Longrightarrow> st_add C (st_task s) (st_q s) = Blocked \<Longrightarrow>
    st_step C s (s\<lparr>st_producer := Falling\<rparr>)"
| add_sleep: "st_producer s = Falling \<Longrightarrow> st_step C s (s\<lparr>st_producer := Asleep\<rparr>)"
| add_done: "\<not> st_mutex s \<Longrightarrow> st_producer s = Trying \<Longrightarrow> st_add C (st_task s) (st_q s) = Done b q' \<Longrightarrow>
    st_step C s (s\<lparr>st_q := q', st_task := next,
      st_consumer := (if b \<and> st_consumer s = Asleep then Trying else st_consumer s)\<rparr>)"
| pop_fall: "\<not> st_mutex s \<Longrightarrow> st_consumer s = Trying \<Longrightarrow> \<not> st_pop_ready C (st_q s) \<Longrightarrow>
    st_step C s (s\<lparr>st_consumer := Falling\<rparr>)"
| pop_sleep: "st_consumer s = Falling \<Longrightarrow> st_step C s (s\<lparr>st_consumer := Asleep\<rparr>)"
| pop_pass: "\<not> st_mutex s \<or> pq_stop (st_q s) \<Longrightarrow> st_consumer s = Trying \<Longrightarrow> st_pop_ready C (st_q s) \<Longrightarrow>
    st_step C s (s\<lparr>st_consumer := Passed\<rparr>)"
| pop_none: "st_consumer s = Passed \<Longrightarrow> st_pop_take C (st_q s) = (None, q') \<Longrightarrow>
    st_step C s (s\<lparr>st_q := q', st_consumer := Trying\<rparr>)"
| pop_take: "st_consumer s = Passed \<Longrightarrow> st_pop_take C (st_q s) = (Some t, q') \<Longrightarrow>
    st_step C s (s\<lparr>st_q := q', st_consumer := Trying,
      st_producer := (if st_producer s = Asleep then Trying else st_producer s)\<rparr>)"

definition st_init :: "('q, 't option) cqueue \<Rightarrow> nat \<Rightarrow> 't option \<Rightarrow> ('q, 't) st_sys" where
  "st_init C m t = \<lparr>st_q = new_st C m, st_producer = Trying, st_task = t, st_consumer = Trying\<rparr>"

definition st_reachable :: "('q, 't option) cqueue \<Rightarrow> nat \<Rightarrow> ('q, 't) st_sys \<Rightarrow> bool" where
  "st_reachable C m s \<longleftrightarrow> (\<exists>t. (st_step C)\<^sup>*\<^sup>* (st_init C m t) s)"

definition st_inv :: "('q, 't option) cqueue \<Rightarrow> nat \<Rightarrow> ('q, 't) st_sys \<Rightarrow> bool" where
  "st_inv C m s \<longleftrightarrow> \<not> pq_stop (st_q s) \<and> pq_max (st_q s) = m \<and>
     (st_consumer s \<in> {Falling, Asleep} \<longrightarrow> \<not> st_not_empty C (st_q s)) \<and>
     (0 < m \<longrightarrow> cq_size C (pq_queue (st_q s)) \<le> m) \<and>
     (st_producer s = Falling \<longrightarrow> st_consumer s \<noteq> Falling)"

lemma st_inv_step:
  assumes "cq_spec C c"
  shows "st_step C s s' \<Longrightarrow> st_inv C m s \<Longrightarrow> st_inv C m s'"
proof (induction rule: st_step.induct)
  case (add_done s b q' nxt)
  then show ?case using cq_specD(2,5) [OF assms]
    by (auto simp: st_inv_def st_add_def st_not_full_def st_mutex_def split: if_splits)
next
  case (pop_take s t q')
  then obtain d where d: "cq_try_dequeue C (pq_queue (st_q s)) = Some (t, d)"
      "q' = (st_q s)\<lparr>pq_queue := d\<rparr>"
    by (auto simp: st_pop_take_def split: if_splits option.splits)
  have "cq_size C (pq_queue (st_q s)) = Suc (cq_size C d)"
    using cq_specD(4) [OF assms d(1)] by (simp add: cq_specD(5) [OF assms])
  then show ?case using pop_take by (auto simp: st_inv_def d(2) st_not_empty_def)
qed (auto simp: st_inv_def st_mutex_def st_pop_ready_def st_pop_take_def split: if_splits option.splits)

lemma st_reachable_inv:
  assumes "cq_spec C c" "st_reachable C m s"
  shows "st_inv C m s"
proof -
  obtain t where "(st_step C)\<^sup>*\<^sup>* (st_init C m t) s" using assms(2) by (auto simp: st_reachable_def)
  then show ?thesis
  proof (induction rule: rtranclp_induct)
    case base
    then show ?case using cq_specD(1,5) [OF assms(1)] by (simp add: st_inv_def st_init_def new_st_def)
  next
    case (step y z)
    then show ?case using st_inv_step [OF assms(1)] by blast
  qed
qed

text \<open>In SingleThreadParallelTaskQueue the consumer loses no wake-up: in every reachable state of its
  producer and its consumer the consumer sleeps only while the queue is empty; and the queue stays
  within its bound.\<close>

theorem single_consumer_wakes:
  assumes "cq_spec C c" "st_reachable C m s"
  shows "(st_consumer s = Asleep \<longrightarrow> st_empty C (st_q s)) \<and>
    (0 < m \<longrightarrow> cq_size C (pq_queue (st_q s)) \<le> m)"
  using st_reachable_inv [OF assms] by (auto simp: st_inv_def st_empty_def)

text \<open>
  The bad run with a bound of one: the producer adds a task, finds the queue full and is about to
  sleep; the consumer, which had passed its wait, takes the task and notifies nobody; the producer
  sleeps; the consumer finds the queue empty and sleeps.
\<close>

definition st_at :: "'q \<Rightarrow> place \<Rightarrow> place \<Rightarrow> 't option \<Rightarrow> ('q, 't) st_sys" where
  "st_at c p k t = \<lparr>st_q = \<lparr>pq_stop = False, pq_queue = c, pq_max = 1\<rparr>, st_producer = p, st_task = t,
     st_consumer = k\<rparr>"

lemma st_dead_reachable:
  assumes "cq_spec C c"
  shows "\<exists>e. c e = {#} \<and> st_reachable C 1 (st_at e Asleep Asleep t)"
proof -
  note S = cq_specD [OF assms]
  let ?one = "cq_enqueue C t (cq_new C)"
  have one: "c ?one = {#t#}" "cq_size C ?one = 1" "cq_size C (cq_new C) = 0" using S(1,2,5) by auto
  then obtain u e where d: "cq_try_dequeue C ?one = Some (u, e)" using S(3) [of ?one] by fastforce
  then have "add_mset u (c e) = {#t#}" using S(4) one(1) by metis
  then have e: "c e = {#}" "u = t" by auto
  have es: "cq_size C e = 0" using S(5) e(1) by simp
  note defs = st_at_def st_mutex_def st_add_def st_not_full_def st_pop_ready_def st_not_empty_def
    st_pop_take_def st_empty_def one es d
  have init: "st_init C 1 t = st_at (cq_new C) Trying Trying t"
    by (simp add: st_init_def new_st_def st_at_def)
  have r0: "(st_step C)\<^sup>*\<^sup>* (st_init C 1 t) (st_at (cq_new C) Trying Trying t)"
    unfolding init by (rule rtranclp.rtrancl_refl)
  have s1: "st_step C (st_at (cq_new C) Trying Trying t) (st_at ?one Trying Trying t)"
    using st_step.add_done [of "st_at (cq_new C) Trying Trying t" C True _ t] by (simp add: defs)
  have s2: "st_step C (st_at ?one Trying Trying t) (st_at ?one Trying Passed t)"
    using st_step.pop_pass [of "st_at ?one Trying Trying t" C] by (simp add: defs)
  have s3: "st_step C (st_at ?one Trying Passed t) (st_at ?one Falling Passed t)"
    using st_step.add_fall [of "st_at ?one Trying Passed t" C] by (simp add: defs)
  have s4: "st_step C (st_at ?one Falling Passed t) (st_at e Falling Trying t)"
    using st_step.pop_take [of "st_at ?one Falling Passed t" C] by (simp add: defs)
  have s5: "st_step C (st_at e Falling Trying t) (st_at e Asleep Trying t)"
    using st_step.add_sleep [of "st_at e Falling Trying t" C] by (simp add: defs)
  have s6: "st_step C (st_at e Asleep Trying t) (st_at e Asleep Falling t)"
    using st_step.pop_fall [of "st_at e Asleep Trying t" C] by (simp add: defs)
  have s7: "st_step C (st_at e Asleep Falling t) (st_at e Asleep Asleep t)"
    using st_step.pop_sleep [of "st_at e Asleep Falling t" C] by (simp add: defs)
  have "(st_step C)\<^sup>*\<^sup>* (st_init C 1 t) (st_at e Asleep Asleep t)"
    using r0 s1 s2 s3 s4 s5 s6 s7 by (meson rtranclp.rtrancl_into_rtrancl)
  then show ?thesis using e by (auto simp: st_reachable_def)
qed

theorem single_consumer_wakes_witness:
  "\<exists>s :: (nat option list, nat) st_sys. st_consumer s = Asleep \<and> st_empty list_cq (st_q s)"
proof -
  obtain e where "st_reachable list_cq 1 (st_at e Asleep Asleep (Some (5::nat)))"
    using st_dead_reachable [OF list_cq_spec] by blast
  from single_consumer_wakes [OF list_cq_spec this] show ?thesis
    by (intro exI [of _ "st_at e Asleep Asleep (Some 5)"]) (simp add: st_at_def)
qed

text \<open>A bounded SingleThreadParallelTaskQueue can deadlock: the consumer removes and notifies
  without the mutex, so with a bound of one a state is reachable in which producer and consumer
  both sleep on an empty queue, and from which no step leads.\<close>

theorem single_deadlock:
  assumes "cq_spec C c"
  shows "\<exists>s. st_reachable C 1 s \<and> st_producer s = Asleep \<and> st_consumer s = Asleep \<and>
    st_empty C (st_q s) \<and> (\<forall>s'. \<not> st_step C s s')"
proof -
  obtain e where e: "c e = {#}" "st_reachable C 1 (st_at e Asleep Asleep None)"
    using st_dead_reachable [OF assms] by blast
  have "\<not> st_step C (st_at e Asleep Asleep None) s'" for s'
    by (auto simp: st_at_def elim: st_step.cases)
  moreover have "st_empty C (st_q (st_at e Asleep Asleep None))"
    using e(1) cq_specD(5) [OF assms] by (simp add: st_at_def st_empty_def st_not_empty_def)
  ultimately show ?thesis using e(2)
    by (intro exI [of _ "st_at e Asleep Asleep None"]) (simp add: st_at_def)
qed

theorem single_deadlock_witness:
  "\<exists>s :: (nat option list, nat) st_sys. st_reachable list_cq 1 s \<and> (\<forall>s'. \<not> st_step list_cq s s')"
  using single_deadlock [OF list_cq_spec] by blast

end
