(* ===== verification/Spmc_Queue.thy ===== *)
theory Spmc_Queue
  imports Parallel_Queues
begin

text \<open>
  SPMCSerialTaskQueue (task_queue.hpp): properties registered beforehand, each with a concurrent
  queue of its own (the parameter of Parallel_Queues) and a flag that a consumer takes by compare
  and exchange, so that one property is served by one consumer at a time. The class has no lock:
  every call is a sequence of accesses to atomic members and concurrent queues, and other threads
  run between any two of them. So a thread is a program counter (spmc_pc), one access is one step
  (spmc_access), and clear is the list of its stores. The accesses are sequentially consistent.
  The vector of slots and the two hash tables are those of the registered properties: reset_props
  ends before the first other call, and tasks are added to registered properties.
\<close>

section \<open>The code\<close>

(* src: task_queue.hpp 1277-1293 SPMCSerialTaskQueue *)
record ('p, 'q) spmc =
  sm_stop :: bool
  sm_clear :: bool
  sm_approx :: int
  sm_index :: nat
  sm_props :: "('p \<times> bool) list"
  sm_tasks :: "'p \<Rightarrow> 'q option"
  sm_max :: nat
  sm_max_single :: nat
  sm_count :: "'p \<Rightarrow> int option"

(* src: task_queue.hpp 1149-1150 SPMCSerialTaskQueue::SPMCSerialTaskQueue *)
definition new_spmc :: "nat \<Rightarrow> nat \<Rightarrow> ('p, 'q) spmc" where
  "new_spmc m m1 = \<lparr>sm_stop = False, sm_clear = False, sm_approx = 0, sm_index = 0, sm_props = [],
     sm_tasks = Map.empty, sm_max = m, sm_max_single = m1, sm_count = Map.empty\<rparr>"

text \<open>One turn of the loop of reset_props; emplace keeps an entry that exists.\<close>

(* src: task_queue.hpp 1156-1160 SPMCSerialTaskQueue::reset_props *)
definition register_prop :: "('q, 't option) cqueue \<Rightarrow> 'p \<Rightarrow> ('p, 'q) spmc \<Rightarrow> ('p, 'q) spmc" where
  "register_prop C p q = q\<lparr>
     sm_tasks := (case sm_tasks q p of None \<Rightarrow> (sm_tasks q)(p \<mapsto> cq_new C) | Some _ \<Rightarrow> sm_tasks q),
     sm_props := sm_props q @ [(p, True)],
     sm_count := (case sm_count q p of None \<Rightarrow> (sm_count q)(p \<mapsto> 0) | Some _ \<Rightarrow> sm_count q)\<rparr>"

(* src: task_queue.hpp 1154-1161 SPMCSerialTaskQueue::reset_props *)
definition spmc_reset_props :: "('q, 't option) cqueue \<Rightarrow> 'p list \<Rightarrow> ('p, 'q) spmc \<Rightarrow> ('p, 'q) spmc" where
  "spmc_reset_props C ps q = fold (register_prop C) ps (q\<lparr>sm_index := 0\<rparr>)"

text \<open>The entries that operator[] reads, a missing one being created with its default.\<close>

definition count_at :: "('p, 'q) spmc \<Rightarrow> 'p \<Rightarrow> int" where
  "count_at q p = (case sm_count q p of None \<Rightarrow> 0 | Some n \<Rightarrow> n)"

definition queue_at :: "('q, 't option) cqueue \<Rightarrow> ('p, 'q) spmc \<Rightarrow> 'p \<Rightarrow> 'q" where
  "queue_at C q p = (case sm_tasks q p of None \<Rightarrow> cq_new C | Some c \<Rightarrow> c)"

text \<open>The comparison converts the count, an int that may be negative for a moment, to size_t.\<close>

(* src: task_queue.hpp 1271-1273 SPMCSerialTaskQueue::not_full *)
definition spmc_not_full :: "('p, 'q) spmc \<Rightarrow> 'p \<Rightarrow> bool" where
  "spmc_not_full q p \<longleftrightarrow> sm_max_single q = 0 \<or> count_at q p mod 2 ^ 64 < int (sm_max_single q)"

(* src: task_queue.hpp 1275-1275 SPMCSerialTaskQueue::not_empty *)
definition spmc_not_empty :: "('p, 'q) spmc \<Rightarrow> bool" where
  "spmc_not_empty q \<longleftrightarrow> \<not> sm_clear q \<and> sm_approx q > 0"

(* src: task_queue.hpp 1163-1163 SPMCSerialTaskQueue::empty *)
definition spmc_empty :: "('p, 'q) spmc \<Rightarrow> bool" where
  "spmc_empty q \<longleftrightarrow> \<not> spmc_not_empty q"

(* src: task_queue.hpp 1247-1247 SPMCSerialTaskQueue::size *)
definition spmc_size :: "('p, 'q) spmc \<Rightarrow> nat" where
  "spmc_size q = card (dom (sm_tasks q))"

text \<open>The stores of clear_inner, in its order; ks is the order in which the hash tables list the properties.\<close>

(* src: task_queue.hpp 1251-1267 SPMCSerialTaskQueue::clear_inner *)
datatype 'p clear_access = SetClear | StoreFlag nat bool | DrainQueue 'p | ZeroCount 'p | ZeroIndex | ZeroApprox

(* src: task_queue.hpp 1250-1268 SPMCSerialTaskQueue::clear_inner *)
definition clear_accesses :: "nat \<Rightarrow> 'p list \<Rightarrow> 'p clear_access list" where
  "clear_accesses n ks = [SetClear] @ map (\<lambda>i. StoreFlag i False) [0..<n] @ map DrainQueue ks @
     map ZeroCount ks @ [ZeroIndex] @ map (\<lambda>i. StoreFlag i True) [0..<n] @ [ZeroApprox]"

text \<open>
  One store of clear_inner: whether it is done, and the queue after it. A drain takes one task
  and is repeated until it finds none.
\<close>

(* src: task_queue.hpp 1250-1268 SPMCSerialTaskQueue::clear_inner *)
fun spmc_clear_access :: "('q, 't option) cqueue \<Rightarrow> 'p clear_access \<Rightarrow> ('p, 'q) spmc \<Rightarrow> bool \<times> ('p, 'q) spmc" where
  "spmc_clear_access C SetClear q = (True, q\<lparr>sm_clear := True\<rparr>)"
| "spmc_clear_access C (StoreFlag i b) q =
     (True, q\<lparr>sm_props := (sm_props q)[i := (fst (sm_props q ! i), b)]\<rparr>)"
| "spmc_clear_access C (DrainQueue p) q = (case cq_try_dequeue C (queue_at C q p) of
     None \<Rightarrow> (True, q) | Some (t, c) \<Rightarrow> (False, q\<lparr>sm_tasks := (sm_tasks q)(p \<mapsto> c)\<rparr>))"
| "spmc_clear_access C (ZeroCount p) q = (True, q\<lparr>sm_count := (sm_count q)(p \<mapsto> 0)\<rparr>)"
| "spmc_clear_access C ZeroIndex q = (True, q\<lparr>sm_index := 0\<rparr>)"
| "spmc_clear_access C ZeroApprox q = (True, q\<lparr>sm_approx := 0\<rparr>)"

text \<open>
  Where a thread is: outside the class, before an access of add_task, of pop_task (PopIndex on its
  way to slot i, then with the slot), of start and stop, or with the rest of the stores of clear.
  The numbers are those of the source lines of the access.
\<close>

(* src: task_queue.hpp 1167-1245 SPMCSerialTaskQueue::pop_task *)
datatype ('p, 't) spmc_pc =
    Outside
  | AddStop 'p "'t option" | AddFull 'p "'t option" | AddEnqueue 'p "'t option" | AddTest 'p
  | AddZeroApprox 'p | AddZeroCount 'p | AddIncApprox 'p | AddIncCount 'p
  | PopCheck | PopIndex | PopTake nat | PopDequeue nat | PopTest nat "'t option"
  | PopZeroApprox nat | PopZeroCount nat | PopDecApprox nat "'t option" | PopDecCount nat "'t option"
  | PopRun nat "'t option" | PopFree nat
  | StartTake | StopTake bool "'p list" | Clearing "'p clear_access list"

text \<open>
  One access of a thread: where it is after it, and the queue. None is undefined behaviour, the
  remainder by zero when nothing is registered. PopRun is the call of the task, if it is not empty:
  other threads run while it runs, and what it calls on the queue itself are calls like others.
\<close>

(* src: task_queue.hpp 1167-1245 SPMCSerialTaskQueue::pop_task *)
fun spmc_access :: "('q, 't option) cqueue \<Rightarrow> ('p, 't) spmc_pc \<Rightarrow> ('p, 'q) spmc \<Rightarrow>
    (('p, 't) spmc_pc \<times> ('p, 'q) spmc) option" where
  "spmc_access C Outside q = None"
| "spmc_access C (AddStop p t) q = Some (if sm_stop q then Outside else AddFull p t, q)"
| "spmc_access C (AddFull p t) q = Some (if spmc_not_full q p then AddEnqueue p t else Outside, q)"
| "spmc_access C (AddEnqueue p t) q =
     Some (AddTest p, q\<lparr>sm_tasks := (sm_tasks q)(p \<mapsto> cq_enqueue C t (queue_at C q p))\<rparr>)"
| "spmc_access C (AddTest p) q = Some (if sm_clear q then AddZeroApprox p else AddIncApprox p, q)"
| "spmc_access C (AddZeroApprox p) q = Some (AddZeroCount p, q\<lparr>sm_approx := 0\<rparr>)"
| "spmc_access C (AddZeroCount p) q = Some (Outside, q\<lparr>sm_count := (sm_count q)(p \<mapsto> 0)\<rparr>)"
| "spmc_access C (AddIncApprox p) q = Some (AddIncCount p, q\<lparr>sm_approx := sm_approx q + 1\<rparr>)"
| "spmc_access C (AddIncCount p) q =
     Some (Outside, q\<lparr>sm_count := (sm_count q)(p \<mapsto> count_at q p + 1)\<rparr>)"
| "spmc_access C PopCheck q = Some (if spmc_not_empty q then PopIndex else Outside, q)"
| "spmc_access C PopIndex q =
     (if sm_props q = [] then None
      else Some (PopTake (sm_index q mod length (sm_props q)),
                 q\<lparr>sm_index := (sm_index q + 1) mod 2 ^ 64\<rparr>))"
| "spmc_access C (PopTake i) q =
     (let (p, can_pop) = sm_props q ! i
      in if can_pop then Some (PopDequeue i, q\<lparr>sm_props := (sm_props q)[i := (p, False)]\<rparr>)
         else Some (Outside, q))"
| "spmc_access C (PopDequeue i) q =
     (let p = fst (sm_props q ! i)
      in case cq_try_dequeue C (queue_at C q p) of
           None \<Rightarrow> Some (PopFree i, q)
         | Some (t, c) \<Rightarrow> Some (PopTest i t, q\<lparr>sm_tasks := (sm_tasks q)(p \<mapsto> c)\<rparr>))"
| "spmc_access C (PopTest i t) q = Some (if sm_clear q then PopZeroApprox i else PopDecApprox i t, q)"
| "spmc_access C (PopZeroApprox i) q = Some (PopZeroCount i, q\<lparr>sm_approx := 0\<rparr>)"
| "spmc_access C (PopZeroCount i) q =
     Some (PopFree i, q\<lparr>sm_count := (sm_count q)(fst (sm_props q ! i) \<mapsto> 0)\<rparr>)"
| "spmc_access C (PopDecApprox i t) q = Some (PopDecCount i t, q\<lparr>sm_approx := sm_approx q - 1\<rparr>)"
| "spmc_access C (PopDecCount i t) q =
     (let p = fst (sm_props q ! i)
      in Some (PopRun i t, q\<lparr>sm_count := (sm_count q)(p \<mapsto> count_at q p - 1)\<rparr>))"
| "spmc_access C (PopRun i t) q = Some (PopDequeue i, q)"
| "spmc_access C (PopFree i) q =
     Some (Outside, q\<lparr>sm_props := (sm_props q)[i := (fst (sm_props q ! i), True)]\<rparr>)"
| "spmc_access C StartTake q = Some (Outside, if sm_stop q then q\<lparr>sm_stop := False\<rparr> else q)"
| "spmc_access C (StopTake bwait ks) q =
     (if sm_stop q then Some (Outside, q)
      else Some (if bwait then Outside else Clearing (clear_accesses (length (sm_props q)) ks),
                 q\<lparr>sm_stop := True\<rparr>))"
| "spmc_access C (Clearing []) q = Some (Outside, q)"
| "spmc_access C (Clearing (a # as)) q =
     (let (done, q') = spmc_clear_access C a q in Some (Clearing (if done then as else a # as), q'))"

section \<open>Threads\<close>

text \<open>
  Any number of threads, each outside the class or in a call, and what has been run: a task is
  entered into ss_log when its thread has seen the clear flag not set and goes on to run it. The
  calls are add_task, pop_task, start, stop and clear.
\<close>

record ('p, 'q, 't) spmc_sys =
  ss_spmc :: "('p, 'q) spmc"
  ss_threads :: "nat \<Rightarrow> ('p, 't) spmc_pc"
  ss_log :: "('p \<times> 't option) list"

(* src: task_queue.hpp 1165-1244 SPMCSerialTaskQueue::pop_task *)
definition spmc_call :: "('p, 'q) spmc \<Rightarrow> ('p, 't) spmc_pc \<Rightarrow> bool" where
  "spmc_call q c \<longleftrightarrow> (\<exists>p t. c = AddStop p t) \<or> c = PopCheck \<or> c = StartTake \<or>
     (\<exists>ks. distinct ks \<and> set ks = dom (sm_tasks q) \<and>
        (c = Clearing (clear_accesses (length (sm_props q)) ks) \<or> (\<exists>bwait. c = StopTake bwait ks)))"

definition log_access :: "('p, 't) spmc_pc \<Rightarrow> ('p, 'q) spmc \<Rightarrow> ('p \<times> 't option) list" where
  "log_access c q = (case c of PopTest i t \<Rightarrow> if sm_clear q then [] else [(fst (sm_props q ! i), t)] | _ \<Rightarrow> [])"

inductive spmc_step :: "('q, 't option) cqueue \<Rightarrow> ('p, 'q, 't) spmc_sys \<Rightarrow> ('p, 'q, 't) spmc_sys \<Rightarrow> bool" for C where
  begins: "ss_threads s k = Outside \<Longrightarrow> spmc_call (ss_spmc s) c \<Longrightarrow>
    spmc_step C s (s\<lparr>ss_threads := (ss_threads s)(k := c)\<rparr>)"
| goes_on: "spmc_access C (ss_threads s k) (ss_spmc s) = Some (c, q') \<Longrightarrow>
    spmc_step C s (s\<lparr>ss_spmc := q', ss_threads := (ss_threads s)(k := c),
      ss_log := ss_log s @ log_access (ss_threads s k) (ss_spmc s)\<rparr>)"

definition spmc_init :: "('q, 't option) cqueue \<Rightarrow> 'p list \<Rightarrow> nat \<Rightarrow> nat \<Rightarrow> ('p, 'q, 't) spmc_sys" where
  "spmc_init C ps m m1 = \<lparr>ss_spmc = spmc_reset_props C ps (new_spmc m m1), ss_threads = (\<lambda>_. Outside), ss_log = []\<rparr>"

definition spmc_reachable :: "('q, 't option) cqueue \<Rightarrow> 'p list \<Rightarrow> ('p, 'q, 't) spmc_sys \<Rightarrow> bool" where
  "spmc_reachable C ps s \<longleftrightarrow> (\<exists>m m1. (spmc_step C)\<^sup>*\<^sup>* (spmc_init C ps m m1) s)"

text \<open>The slot on which a thread is about to compare and exchange, the slot it holds, the slot whose task it runs.\<close>

definition pc_aims :: "('p, 't) spmc_pc \<Rightarrow> nat option" where
  "pc_aims c = (case c of PopTake i \<Rightarrow> Some i | _ \<Rightarrow> None)"

definition pc_holds :: "('p, 't) spmc_pc \<Rightarrow> nat option" where
  "pc_holds c = (case c of PopDequeue i \<Rightarrow> Some i | PopTest i t \<Rightarrow> Some i | PopZeroApprox i \<Rightarrow> Some i
     | PopZeroCount i \<Rightarrow> Some i | PopDecApprox i t \<Rightarrow> Some i | PopDecCount i t \<Rightarrow> Some i
     | PopRun i t \<Rightarrow> Some i | PopFree i \<Rightarrow> Some i | _ \<Rightarrow> None)"

definition pc_runs :: "('p, 't) spmc_pc \<Rightarrow> nat option" where
  "pc_runs c = (case c of PopDecApprox i t \<Rightarrow> Some i | PopDecCount i t \<Rightarrow> Some i | PopRun i t \<Rightarrow> Some i
     | _ \<Rightarrow> None)"

definition pc_clears :: "('p, 't) spmc_pc \<Rightarrow> bool" where
  "pc_clears c = (case c of Clearing as \<Rightarrow> hd (as @ [ZeroApprox]) \<noteq> SetClear | _ \<Rightarrow> False)"

lemmas pc_defs = pc_aims_def pc_holds_def pc_runs_def pc_clears_def

section \<open>The invariant\<close>

definition slot_ok :: "('p, 'q) spmc \<Rightarrow> ('p, 't) spmc_pc \<Rightarrow> bool" where
  "slot_ok q c \<longleftrightarrow> (\<forall>i. pc_aims c = Some i \<or> pc_holds c = Some i \<longrightarrow> i < length (sm_props q)) \<and>
     (pc_clears c \<longrightarrow> sm_clear q) \<and>
     (\<forall>i. \<not> sm_clear q \<and> pc_holds c = Some i \<longrightarrow> \<not> snd (sm_props q ! i))"

definition apart :: "(('p, 't) spmc_pc \<Rightarrow> nat option) \<Rightarrow> (nat \<Rightarrow> ('p, 't) spmc_pc) \<Rightarrow> bool" where
  "apart f th \<longleftrightarrow> (\<forall>k l i. k \<noteq> l \<longrightarrow> f (th k) = Some i \<longrightarrow> f (th l) \<noteq> Some i)"

definition spmc_inv :: "'p list \<Rightarrow> ('p, 'q, 't) spmc_sys \<Rightarrow> bool" where
  "spmc_inv ps s \<longleftrightarrow> map fst (sm_props (ss_spmc s)) = ps \<and> (\<forall>k. slot_ok (ss_spmc s) (ss_threads s k)) \<and>
     (sm_clear (ss_spmc s) \<or> apart pc_holds (ss_threads s)) \<and> apart pc_runs (ss_threads s)"

lemma runs_holds: "pc_runs c = Some i \<Longrightarrow> pc_holds c = Some i"
  by (cases c) (auto simp: pc_defs)

lemma map_fst_update: "map fst (xs[i := (fst (xs ! i), b)]) = map fst xs"
proof (cases "i < length xs")
  case True
  then show ?thesis by (metis fst_conv list_update_id map_update nth_map)
qed (simp add: list_update_beyond)

text \<open>What one access does to the slots, to the clear flag and to the place of its thread.\<close>

lemma clear_access_frame:
  "spmc_clear_access C a q = (d, q') \<Longrightarrow>
     map fst (sm_props q') = map fst (sm_props q) \<and> (sm_clear q' \<longleftrightarrow> sm_clear q \<or> a = SetClear) \<and> (a = SetClear \<longrightarrow> d)"
  by (cases a) (auto simp: map_fst_update split: option.splits)

lemma access_props:
  assumes "spmc_access C c q = Some (c', q')"
  shows "map fst (sm_props q') = map fst (sm_props q) \<and> (sm_clear q \<longrightarrow> sm_clear q')"
proof (cases c)
  case (Clearing as)
  then show ?thesis using assms clear_access_frame [of C _ q]
    by (cases as) (auto split: prod.splits)
next
  case (PopTake i)
  then show ?thesis using assms map_fst_update [of "sm_props q" i False]
    by (cases "sm_props q ! i") (auto split: if_splits)
qed (use assms map_fst_update in \<open>auto simp: Let_def split: if_splits option.splits\<close>)

lemma access_length:
  "spmc_access C c q = Some (c', q') \<Longrightarrow> length (sm_props q') = length (sm_props q)"
  by (metis access_props length_map)

lemma clearing_pc:
  "spmc_access C (Clearing as) q = Some (c', q') \<Longrightarrow> pc_aims c' = None \<and> pc_holds c' = None \<and> pc_runs c' = None"
  by (cases as) (auto simp: pc_defs split: prod.splits)

text \<open>A thread that runs a task after an access either ran it before or held the slot with the clear flag not set.\<close>

lemma access_runs:
  assumes "spmc_access C c q = Some (c', q')" "pc_runs c' = Some i"
  shows "pc_runs c = Some i \<or> pc_holds c = Some i \<and> \<not> sm_clear q"
proof (cases c)
  case (Clearing as)
  then show ?thesis using assms clearing_pc [of C as q c' q'] by simp
next
  case (PopTake j)
  then show ?thesis using assms by (cases "sm_props q ! j") (auto simp: pc_defs split: if_splits)
qed (use assms in \<open>auto simp: pc_defs Let_def clear_accesses_def split: if_splits option.splits\<close>)

lemma access_holds:
  assumes "spmc_access C c q = Some (c', q')" "\<not> sm_clear q'" "\<not> pc_clears c"
  shows "(pc_holds c' = pc_holds c \<and> sm_props q' = sm_props q) \<or>
    (\<exists>i. pc_holds c = None \<and> pc_holds c' = Some i \<and> pc_aims c = Some i \<and> snd (sm_props q ! i) \<and>
       sm_props q' = (sm_props q)[i := (fst (sm_props q ! i), False)]) \<or>
    (\<exists>i. pc_holds c = Some i \<and> pc_holds c' = None \<and>
       sm_props q' = (sm_props q)[i := (fst (sm_props q ! i), True)])"
proof (cases c)
  case (Clearing as)
  have "as = []"
  proof (rule ccontr)
    assume "as \<noteq> []"
    then obtain as' where "as = SetClear # as'" using assms(3) Clearing by (cases as) (auto simp: pc_defs)
    then show False using assms(1,2) Clearing by auto
  qed
  then have "c' = Outside" "q' = q" using assms(1) Clearing by simp_all
  then show ?thesis using Clearing by (simp add: pc_defs)
next
  case (PopTake i)
  obtain p b where pb: "sm_props q ! i = (p, b)" by fastforce
  show ?thesis
  proof (cases b)
    case True
    then have "c' = PopDequeue i" "q' = q\<lparr>sm_props := (sm_props q)[i := (p, False)]\<rparr>"
      using assms(1) PopTake pb by auto
    then show ?thesis using PopTake pb True by (simp add: pc_defs)
  next
    case False
    then have "c' = Outside" "q' = q" using assms(1) PopTake pb by auto
    then show ?thesis using PopTake by (simp add: pc_defs)
  qed
qed (use assms(1) in \<open>auto simp: pc_defs Let_def split: if_splits option.splits\<close>)

lemma access_clears:
  "spmc_access C c q = Some (c', q') \<Longrightarrow> pc_clears c' \<Longrightarrow> pc_clears c \<or> sm_clear q'"
proof (cases c)
  case (Clearing as)
  assume "spmc_access C c q = Some (c', q')" "pc_clears c'"
  then show ?thesis using Clearing clear_access_frame [of C "hd as" q]
    by (cases as) (auto simp: pc_defs split: prod.splits if_splits)
qed (auto simp: pc_defs Let_def clear_accesses_def split: if_splits option.splits prod.splits)

lemma access_aims:
  assumes "spmc_access C c q = Some (c', q')" "pc_aims c' = Some i"
  shows "i < length (sm_props q)"
proof (cases c)
  case (Clearing as)
  then show ?thesis using assms clearing_pc [of C as q c' q'] by simp
next
  case (PopTake j)
  then show ?thesis using assms by (cases "sm_props q ! j") (auto simp: pc_defs split: if_splits)
qed (use assms in \<open>auto simp: pc_defs Let_def split: if_splits option.splits\<close>)

lemma access_takes:
  assumes "spmc_access C c q = Some (c', q')" "pc_holds c' = Some i"
  shows "pc_holds c = Some i \<or> pc_aims c = Some i"
proof (cases c)
  case (Clearing as)
  then show ?thesis using assms clearing_pc [of C as q c' q'] by simp
next
  case (PopTake j)
  then show ?thesis using assms by (cases "sm_props q ! j") (auto simp: pc_defs split: if_splits)
qed (use assms in \<open>auto simp: pc_defs Let_def split: if_splits option.splits\<close>)

lemma access_slot:
  assumes a: "spmc_access C c q = Some (c', q')" and o: "slot_ok q c"
  shows "slot_ok q' c'"
proof -
  have l: "length (sm_props q') = length (sm_props q)" by (rule access_length [OF a])
  have b: "i < length (sm_props q)" if "pc_aims c = Some i \<or> pc_holds c = Some i" for i
    using o that by (auto simp: slot_ok_def)
  have keep: "pc_clears c' \<Longrightarrow> sm_clear q'"
    using access_clears [OF a] access_props [OF a] o by (auto simp: slot_ok_def)
  have h: "i < length (sm_props q)" if "pc_holds c' = Some i" for i
    using access_takes [OF a that] b by blast
  have "\<not> snd (sm_props q' ! i)" if i: "pc_holds c' = Some i" and n: "\<not> sm_clear q'" for i
  proof -
    have nc: "\<not> pc_clears c" "\<not> sm_clear q" using o n access_props [OF a] by (auto simp: slot_ok_def)
    show ?thesis using access_holds [OF a n nc(1)] i o nc(2) h [OF i]
      by (auto simp: slot_ok_def)
  qed
  then show ?thesis using keep h access_aims [OF a] l by (auto simp: slot_ok_def)
qed

lemma other_slot:
  assumes a: "spmc_access C c q = Some (c', q')" and o: "slot_ok q c" and d: "slot_ok q d"
    and n: "\<And>i. \<not> sm_clear q \<Longrightarrow> pc_holds c = Some i \<Longrightarrow> pc_holds d \<noteq> Some i"
  shows "slot_ok q' d"
proof -
  have l: "length (sm_props q') = length (sm_props q)" by (rule access_length [OF a])
  have "\<not> snd (sm_props q' ! i)" if i: "pc_holds d = Some i" and nq: "\<not> sm_clear q'" for i
  proof -
    have nc: "\<not> pc_clears c" "\<not> sm_clear q" using o nq access_props [OF a] by (auto simp: slot_ok_def)
    have s: "\<not> snd (sm_props q ! i)" using d i nc(2) by (auto simp: slot_ok_def)
    have ne: "pc_holds c \<noteq> Some i" using n [OF nc(2), of i] i by auto
    have upd: "\<not> snd ((sm_props q)[j := (fst (sm_props q ! j), True)] ! i)" if "j \<noteq> i" for j
      using s that by simp
    have upd2: "\<not> snd ((sm_props q)[j := (fst (sm_props q ! j), False)] ! i)" for j
      using s by (cases "j = i"; cases "i < length (sm_props q)") (simp_all add: list_update_beyond)
    show ?thesis using access_holds [OF a nq nc(1)]
    proof (elim disjE exE conjE)
      fix j assume "pc_holds c = Some j" "sm_props q' = (sm_props q)[j := (fst (sm_props q ! j), True)]"
      then show ?thesis using upd [of j] ne by auto
    qed (use s upd2 in simp_all)
  qed
  then show ?thesis using d l access_props [OF a] by (auto simp: slot_ok_def)
qed

lemma spmc_inv_step: "spmc_step C s s' \<Longrightarrow> spmc_inv ps s \<Longrightarrow> spmc_inv ps s'"
proof (induction rule: spmc_step.induct)
  case (begins s k c)
  have c: "pc_aims c = None" "pc_holds c = None" "pc_runs c = None" "\<not> pc_clears c"
    using begins.hyps(2) by (auto simp: spmc_call_def pc_defs clear_accesses_def)
  then show ?case using begins.prems
    by (auto simp: spmc_inv_def slot_ok_def apart_def)
next
  case (goes_on s k c q')
  note a = goes_on.hyps
  let ?q = "ss_spmc s" and ?th = "ss_threads s"
  note I = goes_on.prems [unfolded spmc_inv_def]
  have ok: "slot_ok ?q (?th l)" for l using I by simp
  have ap: "apart pc_holds ?th" if "\<not> sm_clear ?q" using I that by simp
  have n: "pc_holds (?th l) \<noteq> Some i"
    if "l \<noteq> k" "\<not> sm_clear ?q" "pc_holds (?th k) = Some i" for l i
    using ap [OF that(2)] that(1,3) unfolding apart_def by blast
  have s: "slot_ok q' ((?th(k := c)) l)" for l
    using access_slot [OF a ok] other_slot [OF a ok ok n] by simp
  have rn: "pc_runs c = Some i \<Longrightarrow> l \<noteq> k \<Longrightarrow> pc_runs (?th l) \<noteq> Some i" for i l
    using access_runs [OF a, of i] I n runs_holds [of "?th l" i] unfolding apart_def by blast
  have r: "apart pc_runs (?th(k := c))"
    using rn I unfolding apart_def by auto
  have "apart pc_holds (?th(k := c))" if nq: "\<not> sm_clear q'"
  proof -
    have nc: "\<not> pc_clears (?th k)" "\<not> sm_clear ?q"
      using ok [of k] nq access_props [OF a] by (auto simp: slot_ok_def)
    have f: "\<not> snd (sm_props ?q ! i)" if "pc_holds (?th l) = Some i" for l i
      using ok [of l] that nc(2) by (auto simp: slot_ok_def)
    have "pc_holds (?th l) \<noteq> Some i" if "pc_holds c = Some i" "l \<noteq> k" for i l
      using access_holds [OF a nq nc(1)] that(1) n [OF that(2) nc(2)] f [of l i] by (metis option.inject option.simps(3))
    then show ?thesis using ap [OF nc(2)] unfolding apart_def by auto
  qed
  then show ?case using I s r access_props [OF a] by (auto simp: spmc_inv_def)
qed

lemma register_props:
  "sm_props (fold (register_prop C) ps q) = sm_props q @ map (\<lambda>p. (p, True)) ps \<and>
   sm_clear (fold (register_prop C) ps q) = sm_clear q"
  by (induction ps arbitrary: q) (simp_all add: register_prop_def)

lemma spmc_inv_init: "spmc_inv ps (spmc_init C ps m m1)"
  by (auto simp: spmc_inv_def spmc_init_def spmc_reset_props_def register_props new_spmc_def comp_def
      slot_ok_def apart_def pc_defs)

lemma spmc_reachable_inv: "spmc_reachable C ps s \<Longrightarrow> spmc_inv ps s"
proof -
  assume "spmc_reachable C ps s"
  then obtain m m1 where "(spmc_step C)\<^sup>*\<^sup>* (spmc_init C ps m m1) s"
    by (auto simp: spmc_reachable_def)
  then show ?thesis by (induction rule: rtranclp_induct) (use spmc_inv_init spmc_inv_step in blast)+
qed

text \<open>Once the clear flag is set, it stays and nothing more is run.\<close>

lemma step_after_clear:
  "spmc_step C s s' \<Longrightarrow> sm_clear (ss_spmc s) \<Longrightarrow> sm_clear (ss_spmc s') \<and> ss_log s' = ss_log s"
proof (induction rule: spmc_step.induct)
  case (goes_on s k c q')
  then show ?case using access_props [OF goes_on.hyps]
    by (auto simp: log_access_def split: spmc_pc.splits)
qed simp

lemma steps_after_clear:
  "(spmc_step C)\<^sup>*\<^sup>* s s' \<Longrightarrow> sm_clear (ss_spmc s) \<Longrightarrow> sm_clear (ss_spmc s') \<and> ss_log s' = ss_log s"
  by (induction rule: rtranclp_induct) (auto dest: step_after_clear)

text \<open>
  Running a schedule: a list of threads, each with the call it begins or, with None, its next access.
\<close>

fun run_schedule :: "('q, 't option) cqueue \<Rightarrow> (nat \<times> ('p, 't) spmc_pc option) list \<Rightarrow>
    ('p, 'q, 't) spmc_sys \<Rightarrow> ('p, 'q, 't) spmc_sys option" where
  "run_schedule C [] s = Some s"
| "run_schedule C ((k, Some c) # xs) s =
     (case (ss_threads s k, c) of
        (Outside, AddStop p t) \<Rightarrow> run_schedule C xs (s\<lparr>ss_threads := (ss_threads s)(k := c)\<rparr>)
      | (Outside, PopCheck) \<Rightarrow> run_schedule C xs (s\<lparr>ss_threads := (ss_threads s)(k := c)\<rparr>)
      | _ \<Rightarrow> None)"
| "run_schedule C ((k, None) # xs) s =
     (case spmc_access C (ss_threads s k) (ss_spmc s) of
        None \<Rightarrow> None
      | Some (c, q') \<Rightarrow> run_schedule C xs (s\<lparr>ss_spmc := q', ss_threads := (ss_threads s)(k := c),
          ss_log := ss_log s @ log_access (ss_threads s k) (ss_spmc s)\<rparr>))"

lemma run_schedule_steps: "run_schedule C xs s = Some s' \<Longrightarrow> (spmc_step C)\<^sup>*\<^sup>* s s'"
proof (induction C xs s rule: run_schedule.induct)
  case (2 C k c xs s)
  then have o: "ss_threads s k = Outside" and c: "(\<exists>p t. c = AddStop p t) \<or> c = PopCheck"
    and r: "(spmc_step C)\<^sup>*\<^sup>* (s\<lparr>ss_threads := (ss_threads s)(k := c)\<rparr>) s'"
    by (auto split: spmc_pc.splits)
  have "spmc_step C s (s\<lparr>ss_threads := (ss_threads s)(k := c)\<rparr>)"
    using o c by (intro spmc_step.begins) (auto simp: spmc_call_def)
  then show ?case using r by (rule converse_rtranclp_into_rtranclp)
next
  case (3 C k xs s)
  then show ?case
    by (auto split: option.splits intro: converse_rtranclp_into_rtranclp spmc_step.goes_on)
qed simp

text \<open>A reachable state: two properties, a task of each accepted, and two threads that run them.\<close>

definition sample_schedule :: "(nat \<times> (nat, nat) spmc_pc option) list" where
  "sample_schedule = [(0, Some (AddStop 1 (Some 10)))] @ [(0, None), (0, None), (0, None), (0, None), (0, None), (0, None)] @
     [(0, Some (AddStop 2 (Some 20)))] @ [(0, None), (0, None), (0, None), (0, None), (0, None), (0, None)] @
     [(0, Some PopCheck), (1, Some PopCheck)] @ [(0, None), (1, None), (0, None), (1, None), (0, None),
      (1, None), (1, None), (0, None), (0, None), (1, None)]"

lemma spmc_sample_reachable:
  "\<exists>s :: (nat, nat option list, nat) spmc_sys. spmc_reachable list_cq [1, 2] s \<and>
     pc_runs (ss_threads s 0) = Some 0 \<and> pc_runs (ss_threads s 1) = Some 1 \<and>
     ss_log s = [(1, Some 10), (2, Some 20)] \<and> \<not> sm_clear (ss_spmc s)"
proof -
  have "case run_schedule list_cq sample_schedule
      (spmc_init list_cq [1, 2] 0 0 :: (nat, nat option list, nat) spmc_sys) of
        None \<Rightarrow> False
      | Some s \<Rightarrow> pc_runs (ss_threads s 0) = Some 0 \<and> pc_runs (ss_threads s 1) = Some 1 \<and>
          ss_log s = [(1, Some 10), (2, Some 20)] \<and> \<not> sm_clear (ss_spmc s)"
    by (simp add: sample_schedule_def spmc_init_def spmc_reset_props_def register_prop_def new_spmc_def
        spmc_not_full_def spmc_not_empty_def queue_at_def count_at_def list_cq_def log_access_def pc_runs_def)
  then obtain s :: "(nat, nat option list, nat) spmc_sys" where
      s: "run_schedule list_cq sample_schedule (spmc_init list_cq [1, 2] 0 0) = Some s"
        "pc_runs (ss_threads s 0) = Some 0 \<and> pc_runs (ss_threads s 1) = Some 1 \<and>
         ss_log s = [(1, Some 10), (2, Some 20)] \<and> \<not> sm_clear (ss_spmc s)"
    by (auto split: option.splits)
  have "spmc_reachable list_cq [1, 2] s"
    unfolding spmc_reachable_def using run_schedule_steps [OF s(1)] by blast
  then show ?thesis using s(2) by blast
qed

text \<open>C18: SPMCSerialTaskQueue is serial without a lock, even when it is cleared. Let the registered
  properties be distinct, and let any number of threads call add_task, pop_task, start, stop and clear
  in any way, their accesses to the atomic members and the concurrent queues interleaved one by
  one. Then in every reachable state two threads that run tasks (from the moment they have seen
  the clear flag not set after taking the task out, to the end of the task) run tasks of different
  properties. As long as nothing has been cleared, even the threads that hold a slot at all hold slots
  of different properties, and the flag of each is taken.\<close>

theorem spmc_serial:
  assumes "distinct ps" "spmc_reachable C ps s"
  shows "map fst (sm_props (ss_spmc s)) = ps \<and>
    (\<forall>k l i j. k \<noteq> l \<longrightarrow> pc_runs (ss_threads s k) = Some i \<longrightarrow> pc_runs (ss_threads s l) = Some j \<longrightarrow>
       i < length ps \<and> j < length ps \<and> ps ! i \<noteq> ps ! j) \<and>
    (\<not> sm_clear (ss_spmc s) \<longrightarrow>
       (\<forall>k l i j. k \<noteq> l \<longrightarrow> pc_holds (ss_threads s k) = Some i \<longrightarrow> pc_holds (ss_threads s l) = Some j \<longrightarrow>
          i < length ps \<and> j < length ps \<and> ps ! i \<noteq> ps ! j \<and>
          \<not> snd (sm_props (ss_spmc s) ! i) \<and> \<not> snd (sm_props (ss_spmc s) ! j)))"
proof -
  let ?q = "ss_spmc s" and ?th = "ss_threads s"
  note I = spmc_reachable_inv [OF assms(2), unfolded spmc_inv_def]
  have l: "length (sm_props ?q) = length ps" using I by (metis length_map)
  have h: "i < length ps" "\<not> sm_clear ?q \<Longrightarrow> \<not> snd (sm_props ?q ! i)" if "pc_holds (?th k) = Some i" for k i
    using I that l by (auto simp: slot_ok_def)
  have d: "ps ! i \<noteq> ps ! j" if "i < length ps" "j < length ps" "i \<noteq> j" for i j
    using assms(1) that by (simp add: nth_eq_iff_index_eq)
  have "i < length ps \<and> j < length ps \<and> ps ! i \<noteq> ps ! j"
    if "k \<noteq> l" "pc_runs (?th k) = Some i" "pc_runs (?th l) = Some j" for k l i j
    using I that h(1) [of k i] h(1) [of l j] runs_holds [of "?th k" i] runs_holds [of "?th l" j] d [of i j]
    unfolding apart_def by blast
  moreover have "i < length ps \<and> j < length ps \<and> ps ! i \<noteq> ps ! j \<and> \<not> snd (sm_props ?q ! i) \<and> \<not> snd (sm_props ?q ! j)"
    if "\<not> sm_clear ?q" "k \<noteq> l" "pc_holds (?th k) = Some i" "pc_holds (?th l) = Some j" for k l i j
    using I that h [of k i] h [of l j] d [of i j] unfolding apart_def by blast
  ultimately show ?thesis using I by blast
qed

theorem spmc_serial_witness:
  "\<exists>s :: (nat, nat option list, nat) spmc_sys. pc_runs (ss_threads s 0) = Some 0 \<and>
     pc_runs (ss_threads s 1) = Some 1 \<and> [1, 2 :: nat] ! 0 \<noteq> [1, 2] ! 1"
proof -
  obtain s :: "(nat, nat option list, nat) spmc_sys"
    where s: "spmc_reachable list_cq [1, 2] s" "pc_runs (ss_threads s 0) = Some 0"
      "pc_runs (ss_threads s 1) = Some 1"
    using spmc_sample_reachable by blast
  have "distinct [1::nat, 2]" by simp
  note t = spmc_serial [OF this s(1), THEN conjunct2, THEN conjunct1, rule_format, of 0 1 0 1]
  show ?thesis using t s(2,3) by (intro exI [of _ s]) simp
qed

text \<open>SPMCSerialTaskQueue never works again once it has been cleared: the clear flag is never taken
  back, so after clear has set it, whatever threads call, in any interleaving of their accesses, no
  further task is run and the queue calls itself empty, while a running queue without a bound per
  property still accepts every task.\<close>

theorem spmc_dead_after_clear:
  assumes "sm_clear (ss_spmc s)" "(spmc_step C)\<^sup>*\<^sup>* s s'"
  shows "ss_log s' = ss_log s \<and> spmc_empty (ss_spmc s') \<and>
    (\<not> sm_stop (ss_spmc s') \<and> sm_max_single (ss_spmc s') = 0 \<longrightarrow>
      spmc_access C (AddStop p t) (ss_spmc s') = Some (AddFull p t, ss_spmc s') \<and>
      spmc_access C (AddFull p t) (ss_spmc s') = Some (AddEnqueue p t, ss_spmc s'))"
  using steps_after_clear [OF assms(2,1)]
  by (simp add: spmc_empty_def spmc_not_empty_def spmc_not_full_def)

theorem spmc_dead_after_clear_witness:
  "let s = \<lparr>ss_spmc = (spmc_reset_props list_cq [1, 2] (new_spmc 0 0))\<lparr>sm_clear := True\<rparr>,
      ss_threads = (\<lambda>_. Outside), ss_log = []\<rparr> :: (nat, nat option list, nat) spmc_sys
   in spmc_empty (ss_spmc s)"
  using spmc_dead_after_clear [of "\<lparr>ss_spmc = (spmc_reset_props list_cq [1, 2] (new_spmc 0 0))\<lparr>sm_clear := True\<rparr>,
      ss_threads = (\<lambda>_. Outside), ss_log = []\<rparr> :: (nat, nat option list, nat) spmc_sys" list_cq, OF _ rtranclp.rtrancl_refl]
  by (simp add: Let_def)

end
