(* ===== verification/Atomic_Switch.thy ===== *)
theory Atomic_Switch
  imports Prelude
begin

text \<open>
  AtomicSwitch (atomic_switch.hpp), the three flags that make starting and stopping happen once,
  and ScopeGuard (scope_guard.hpp), the handlers run when a scope is left.
\<close>

section \<open>AtomicSwitch\<close>

(* src: atomic_switch.hpp 89-96 AtomicSwitch *)
record switch =
  binit :: bool
  bstart :: bool
  bstop :: bool

(* src: atomic_switch.hpp 34-34 AtomicSwitch::AtomicSwitch *)
definition new_switch :: switch where
  "new_switch = \<lparr>binit = False, bstart = False, bstop = False\<rparr>"

(* src: atomic_switch.hpp 40-43 AtomicSwitch::init *)
definition as_init :: "switch \<Rightarrow> bool \<times> switch" where
  "as_init s = (if binit s then (False, s) else (True, s\<lparr>binit := True\<rparr>))"

text \<open>
  start and stop test two flags and then exchange a third; other threads may come in between.
\<close>

(* src: atomic_switch.hpp 49-50 AtomicSwitch::start *)
definition as_start_test :: "switch \<Rightarrow> bool" where
  "as_start_test s \<longleftrightarrow> \<not> (bstop s \<or> \<not> binit s)"

(* src: atomic_switch.hpp 52-53 AtomicSwitch::start *)
definition as_start_exchange :: "switch \<Rightarrow> bool \<times> switch" where
  "as_start_exchange s = (if bstart s then (False, s) else (True, s\<lparr>bstart := True\<rparr>))"

(* src: atomic_switch.hpp 48-54 AtomicSwitch::start *)
definition as_start :: "switch \<Rightarrow> bool \<times> switch" where
  "as_start s = (if as_start_test s then as_start_exchange s else (False, s))"

(* src: atomic_switch.hpp 60-61 AtomicSwitch::stop *)
definition as_stop_test :: "switch \<Rightarrow> bool" where
  "as_stop_test s \<longleftrightarrow> \<not> (\<not> binit s \<or> \<not> bstart s)"

(* src: atomic_switch.hpp 63-64 AtomicSwitch::stop *)
definition as_stop_exchange :: "switch \<Rightarrow> bool \<times> switch" where
  "as_stop_exchange s = (if bstop s then (False, s) else (True, s\<lparr>bstop := True\<rparr>))"

(* src: atomic_switch.hpp 59-65 AtomicSwitch::stop *)
definition as_stop :: "switch \<Rightarrow> bool \<times> switch" where
  "as_stop s = (if as_stop_test s then as_stop_exchange s else (False, s))"

(* src: atomic_switch.hpp 68-72 AtomicSwitch::reset *)
definition as_reset :: "switch \<Rightarrow> switch" where
  "as_reset s = s\<lparr>bstart := False, bstop := False, binit := False\<rparr>"

(* src: atomic_switch.hpp 75-77 AtomicSwitch::has_init *)
definition has_init :: "switch \<Rightarrow> bool" where
  "has_init s \<longleftrightarrow> binit s"

(* src: atomic_switch.hpp 80-82 AtomicSwitch::has_started *)
definition has_started :: "switch \<Rightarrow> bool" where
  "has_started s \<longleftrightarrow> \<not> bstop s \<and> bstart s \<and> has_init s"

(* src: atomic_switch.hpp 85-87 AtomicSwitch::has_stoped *)
definition has_stoped :: "switch \<Rightarrow> bool" where
  "has_stoped s \<longleftrightarrow> \<not> has_init s \<or> \<not> bstart s \<or> bstop s"

lemmas switch_defs = new_switch_def as_init_def as_start_test_def as_start_exchange_def as_start_def
  as_stop_test_def as_stop_exchange_def as_stop_def as_reset_def has_init_def has_started_def
  has_stoped_def

lemma has_stoped_iff: "has_stoped s \<longleftrightarrow> \<not> has_started s"
  by (auto simp: switch_defs)

text \<open>
  The atomic accesses of any number of threads: the exchange of start and of stop comes some time
  after a test that succeeded, so the tests passed are counted. The log has the exchanges that
  succeeded, oldest first.
\<close>

datatype switch_event = Init | Start | Stop

record switch_sys =
  sw :: switch
  start_passed :: nat
  stop_passed :: nat
  sw_log :: "switch_event list"

inductive switch_step :: "switch_sys \<Rightarrow> switch_sys \<Rightarrow> bool" where
  init: "as_init (sw s) = (b, w) \<Longrightarrow>
    switch_step s (s\<lparr>sw := w, sw_log := sw_log s @ (if b then [Init] else [])\<rparr>)"
| start_test: "as_start_test (sw s) \<Longrightarrow> switch_step s (s\<lparr>start_passed := start_passed s + 1\<rparr>)"
| start_exchange: "0 < start_passed s \<Longrightarrow> as_start_exchange (sw s) = (b, w) \<Longrightarrow>
    switch_step s (s\<lparr>sw := w, start_passed := start_passed s - 1,
      sw_log := sw_log s @ (if b then [Start] else [])\<rparr>)"
| stop_test: "as_stop_test (sw s) \<Longrightarrow> switch_step s (s\<lparr>stop_passed := stop_passed s + 1\<rparr>)"
| stop_exchange: "0 < stop_passed s \<Longrightarrow> as_stop_exchange (sw s) = (b, w) \<Longrightarrow>
    switch_step s (s\<lparr>sw := w, stop_passed := stop_passed s - 1,
      sw_log := sw_log s @ (if b then [Stop] else [])\<rparr>)"

definition switch_init :: switch_sys where
  "switch_init = \<lparr>sw = new_switch, start_passed = 0, stop_passed = 0, sw_log = []\<rparr>"

definition switch_inv :: "switch_sys \<Rightarrow> bool" where
  "switch_inv s \<longleftrightarrow>
     sw_log s = (if binit (sw s) then [Init] else []) @ (if bstart (sw s) then [Start] else []) @
        (if bstop (sw s) then [Stop] else []) \<and>
     (bstart (sw s) \<or> 0 < start_passed s \<longrightarrow> binit (sw s)) \<and>
     (bstop (sw s) \<or> 0 < stop_passed s \<longrightarrow> bstart (sw s))"

lemma switch_inv_step: "switch_step s s' \<Longrightarrow> switch_inv s \<Longrightarrow> switch_inv s'"
  by (induction rule: switch_step.induct) (auto simp: switch_inv_def switch_defs split: if_splits)

text \<open>AtomicSwitch lets things happen once and in order. Whatever the interleaving of the atomic
  accesses of init, start and stop by any number of threads, and until the next reset, the calls
  that succeed are a prefix of init, start, stop, one of each; the switch counts as started exactly
  when the second has succeeded and not the third, and counts as stopped otherwise.\<close>

theorem switch_once:
  assumes "switch_step\<^sup>*\<^sup>* switch_init s"
  shows "(\<exists>n. sw_log s = take n [Init, Start, Stop]) \<and>
    (has_started (sw s) \<longleftrightarrow> sw_log s = [Init, Start]) \<and> (has_stoped (sw s) \<longleftrightarrow> \<not> has_started (sw s))"
proof -
  have "switch_inv s" using assms
  proof (induction rule: rtranclp_induct)
    case base
    then show ?case by (simp add: switch_inv_def switch_init_def switch_defs)
  qed (use switch_inv_step in blast)
  then have i: "sw_log s = (if binit (sw s) then [Init] else []) @ (if bstart (sw s) then [Start] else []) @
        (if bstop (sw s) then [Stop] else [])" "bstart (sw s) \<longrightarrow> binit (sw s)" "bstop (sw s) \<longrightarrow> bstart (sw s)"
    by (auto simp: switch_inv_def)
  then consider "\<not> binit (sw s)" "\<not> bstart (sw s)" "\<not> bstop (sw s)"
    | "binit (sw s)" "\<not> bstart (sw s)" "\<not> bstop (sw s)"
    | "binit (sw s)" "bstart (sw s)" "\<not> bstop (sw s)" | "binit (sw s)" "bstart (sw s)" "bstop (sw s)"
    by blast
  then have "\<exists>n. sw_log s = take n [Init, Start, Stop]"
  proof cases
    case 1
    then show ?thesis using i(1) by (intro exI [of _ 0]) simp
  next
    case 2
    then show ?thesis using i(1) by (intro exI [of _ 1]) simp
  next
    case 3
    then show ?thesis using i(1) by (intro exI [of _ 2]) simp
  next
    case 4
    then show ?thesis using i(1) by (intro exI [of _ 3]) (simp add: numeral_3_eq_3)
  qed
  then show ?thesis using i by (auto simp: has_stoped_iff has_started_def has_init_def)
qed

theorem switch_once_witness:
  "let s = switch_init\<lparr>sw := \<lparr>binit = True, bstart = False, bstop = False\<rparr>, sw_log := [Init]\<rparr>
   in sw_log s = [Init] \<and> \<not> has_started (sw s)"
proof -
  let ?s = "switch_init\<lparr>sw := \<lparr>binit = True, bstart = False, bstop = False\<rparr>, sw_log := [Init]\<rparr>"
  have "switch_step switch_init ?s"
    using switch_step.init [of switch_init True "\<lparr>binit = True, bstart = False, bstop = False\<rparr>"]
    by (simp add: switch_init_def switch_defs)
  then have "switch_step\<^sup>*\<^sup>* switch_init ?s" by (rule r_into_rtranclp)
  from switch_once [OF this] show ?thesis by (simp add: switch_init_def)
qed

section \<open>ScopeGuard\<close>

(* src: scope_guard.hpp 41-45 ScopeGuard::ExecutionType *)
datatype execution_type = Always | NoException | Exception

(* src: scope_guard.hpp 95-98 ScopeGuard *)
record 'f scope_guard =
  handlers :: "'f list"
  policy :: execution_type

(* src: scope_guard.hpp 47-56 ScopeGuard::ScopeGuard *)
definition new_guard :: "'f option \<Rightarrow> execution_type \<Rightarrow> 'f scope_guard" where
  "new_guard f p = \<lparr>handlers = (case f of None \<Rightarrow> [] | Some g \<Rightarrow> [g]), policy = p\<rparr>"

text \<open>
  operator += with the allocation that can fail as the argument ok: the state, the handlers called
  on the spot, and whether the exception goes on.
\<close>

(* src: scope_guard.hpp 63-71 ScopeGuard::operator+= *)
definition guard_add :: "bool \<Rightarrow> 'f \<Rightarrow> 'f scope_guard \<Rightarrow> 'f scope_guard \<times> 'f list \<times> bool" where
  "guard_add ok f g =
     (if ok then (g\<lparr>handlers := f # handlers g\<rparr>, [], False)
      else (g, if policy g \<noteq> NoException then [f] else [], True))"

(* src: scope_guard.hpp 87-89 ScopeGuard::dismiss *)
definition guard_dismiss :: "'f scope_guard \<Rightarrow> 'f scope_guard" where
  "guard_dismiss g = g\<lparr>handlers := []\<rparr>"

text \<open>The handlers the destructor calls, given std::uncaught_exceptions().\<close>

(* src: scope_guard.hpp 73-85 ScopeGuard::~ScopeGuard *)
definition guard_exit :: "nat \<Rightarrow> 'f scope_guard \<Rightarrow> 'f list" where
  "guard_exit uncaught g =
     (if policy g = Always \<or> (uncaught > 0 \<and> policy g = Exception) then handlers g else [])"

definition guard_adds :: "'f list \<Rightarrow> 'f scope_guard \<Rightarrow> 'f scope_guard" where
  "guard_adds fs g = fold (\<lambda>f g. fst (guard_add True f g)) fs g"

lemma guard_adds_eq: "guard_adds fs g = g\<lparr>handlers := rev fs @ handlers g\<rparr>"
  by (induction fs arbitrary: g) (simp_all add: guard_adds_def guard_add_def)

text \<open>ScopeGuard runs its handlers in the reverse order of their registration when the scope is left,
  always or only under an exception as its policy says, none after dismiss; and a guard whose
  policy is to run without an exception never runs any.\<close>

theorem scope_guard_exit:
  "guard_exit n (guard_adds fs (new_guard None Always)) = rev fs \<and>
   guard_exit n (guard_adds fs (new_guard None Exception)) = (if n > 0 then rev fs else []) \<and>
   guard_exit n (guard_dismiss g) = [] \<and>
   guard_exit n (guard_adds fs (new_guard None NoException)) = []"
  by (auto simp: guard_adds_eq guard_exit_def new_guard_def guard_dismiss_def)

end
