(* ===== verification/Task_Pool.thy ===== *)
theory Task_Pool
  imports Parallel_Queues Atomic_Switch
begin

text \<open>
  The thread pools of task_pool.hpp: TaskPoolBase, the loop of its threads and its start, stop and
  resizing, over any queue that meets the interface worker_queue; ConditionRotateSerialTaskPool and
  LockFreeRotateSerialTaskPool, one queue per thread; and the assignment of properties to pools of
  RotateSerialTaskPool.
\<close>

section \<open>The threads of TaskPoolBase\<close>

definition outcome_opt :: "('r, 's) outcome \<Rightarrow> ('r \<times> 's) option" where
  "outcome_opt x = (case x of Blocked \<Rightarrow> None | Done r s \<Rightarrow> Some (r, s))"

lemma outcome_opt_simps [simp]:
  "outcome_opt Blocked = None" "outcome_opt (Done r s) = Some (r, s)"
  by (simp_all add: outcome_opt_def)

text \<open>
  A thread run alone from the state s, with the pool stopped or not and the versions of the thread
  and of the pool: the tasks it calls, in order, and the queue when it ends. None is a thread that
  sleeps or runs for ever. pop gives the task taken, an empty one being None.
\<close>

(* src: task_pool.hpp 114-126 TaskPoolBase::thread_fun *)
partial_function (option) thread_fun ::
    "('s \<Rightarrow> ('t option option, 's) outcome) \<Rightarrow> ('s \<Rightarrow> bool) \<Rightarrow> bool \<Rightarrow> nat \<Rightarrow> nat \<Rightarrow> 's \<Rightarrow> ('t list \<times> 's) option" where
  "thread_fun pop qempty stopped ver cur s =
     (if stopped \<and> qempty s then Some ([], s)
      else if ver < cur then Some ([], s)
      else do {
        (r, s1) \<leftarrow> outcome_opt (pop s);
        (ts, s2) \<leftarrow> thread_fun pop qempty stopped ver cur s1;
        Some ((case r of Some (Some t) \<Rightarrow> [t] | _ \<Rightarrow> []) @ ts, s2) })"

text \<open>
  What a pool relies on: a stopped queue never puts a consumer to sleep, taking a task takes the
  first of the contents and keeps the queue stopped, and nothing is taken only from an empty one.
\<close>

locale worker_queue =
  fixes pop :: "'s \<Rightarrow> ('t option option, 's) outcome" and qempty :: "'s \<Rightarrow> bool"
    and stopped :: "'s \<Rightarrow> bool" and content :: "'s \<Rightarrow> 't option list"
  assumes stopped_pop: "stopped s \<Longrightarrow> pop s \<noteq> Blocked"
    and pop_some: "pop s = Done (Some t) s' \<Longrightarrow> content s = t # content s' \<and> stopped s' = stopped s"
    and pop_none: "pop s = Done None s' \<Longrightarrow> content s = []"
    and qempty_iff: "qempty s \<longleftrightarrow> content s = []"
begin

lemma drain:
  "stopped s \<Longrightarrow> v = cur \<Longrightarrow> \<exists>s'. thread_fun pop qempty True v cur s =
     Some (List.map_filter id (content s), s') \<and> content s' = []"
proof (induction "content s" arbitrary: s)
  case Nil
  then have "qempty s" using qempty_iff by simp
  then show ?case using Nil.hyps by (subst thread_fun.simps) (auto simp: List.map_filter_simps)
next
  case (Cons t ts)
  then have ne: "\<not> qempty s" using qempty_iff [of s] by auto
  obtain r s1 where p: "pop s = Done r s1"
    using stopped_pop [OF Cons.prems(1)] by (cases "pop s") auto
  then obtain u where u: "r = Some u" using pop_none [of s s1] Cons.hyps(2) by (cases r) auto
  have "content s = u # content s1" "stopped s1" using pop_some p u Cons.prems(1) by auto
  then have c: "u = t" "ts = content s1" using Cons.hyps(2) by auto
  obtain s2 where s2: "thread_fun pop qempty True v cur s1 = Some (List.map_filter id (content s1), s2)"
      "content s2 = []"
    using Cons.hyps(1) [OF c(2)] \<open>stopped s1\<close> Cons.prems(2) by blast
  have "thread_fun pop qempty True v cur s =
      Some ((case u of Some x \<Rightarrow> [x] | None \<Rightarrow> []) @ List.map_filter id (content s1), s2)"
    using ne p u s2 Cons.prems(2) by (subst thread_fun.simps) simp
  moreover have "List.map_filter id (content s) =
      (case u of Some x \<Rightarrow> [x] | None \<Rightarrow> []) @ List.map_filter id (content s1)"
    using \<open>content s = u # content s1\<close> by (cases u) (simp_all add: List.map_filter_simps)
  ultimately show ?case using s2(2) by simp
qed

lemma old_thread_ends: "v < cur \<Longrightarrow> thread_fun pop qempty b v cur s = Some ([], s)"
  by (subst thread_fun.simps) simp

end

text \<open>
  pop_task of ParallelTaskQueue and of NoBlockingParallelTaskQueue called by one thread only, over
  a list as the concurrent queue.
\<close>

definition pq_pop_alone :: "('q, 't option) cqueue \<Rightarrow> 'q parallel_queue \<Rightarrow> ('t option option, 'q parallel_queue) outcome" where
  "pq_pop_alone C q =
     (if \<not> pq_pop_ready C q then Blocked else (case pq_pop_take C q of (r, q') \<Rightarrow> Done r q'))"

interpretation pqw: worker_queue "pq_pop_alone list_cq" "pq_empty list_cq" pq_stop pq_queue
  by unfold_locales
     (auto simp: pq_pop_alone_def pq_pop_ready_def pq_pop_take_def pq_empty_def pq_not_empty_def
        pq_size_def list_cq_def split: if_splits list.splits option.splits prod.splits)

definition nb_pop_alone :: "('q, 't option) cqueue \<Rightarrow> 'q nb_queue \<Rightarrow> ('t option option, 'q nb_queue) outcome" where
  "nb_pop_alone C q = (case nb_pop C q of (r, q') \<Rightarrow> Done r q')"

interpretation nbw: worker_queue "nb_pop_alone list_cq" "nb_empty list_cq" nb_stop nb_queue
  by unfold_locales
     (auto simp: nb_pop_alone_def nb_pop_def nb_empty_def nb_size_def list_cq_def
        split: if_splits list.splits option.splits prod.splits)

text \<open>stop with waiting of a NoBlockingParallelTaskPool with one thread, over a list as its concurrent
  queue: the thread ends, after it has called exactly the tasks that were in the queue, in their
  order and without the empty ones, and the queue is empty then.\<close>

theorem no_blocking_pool_drains:
  assumes "nb_stop q"
  shows "\<exists>q'. thread_fun (nb_pop_alone list_cq) (nb_empty list_cq) True v v q =
    Some (List.map_filter id (nb_queue q), q') \<and> nb_queue q' = []"
  using nbw.drain [OF assms refl] .

section \<open>The end of a ParallelTaskPool\<close>

text \<open>
  The threads of a ParallelTaskPool that is being stopped with bwait, from the moment its queue is
  stopped: the switch reads stopped, and the queue's stop flag is set, so a wait in pop_task ends
  at once. A thread is before the test of the stop, before that of its version, in pop_task before
  the wait, before the test of the queue or before the removal, running a task, or ended. The
  threads have no identity here but their version.
\<close>

(* src: task_pool.hpp 114-126 TaskPoolBase::thread_fun *)
datatype 't phase = AtLoop | AtVersion | AtWait | AtEmpty | AtDequeue | InTask 't | AtEnd

record ('q, 't) stopping_pool =
  sp_queue :: "'q parallel_queue"
  sp_threads :: "(nat \<times> 't phase) multiset"
  sp_ver :: nat
  sp_log :: "'t multiset"

(* src: task_pool.hpp 114-126 TaskPoolBase::thread_fun *)
inductive stopping_step :: "('q, 't option) cqueue \<Rightarrow> ('q, 't) stopping_pool \<Rightarrow> ('q, 't) stopping_pool \<Rightarrow> bool" for C where
  leave: "sp_threads s = add_mset (v, AtLoop) W \<Longrightarrow> pq_empty C (sp_queue s) \<Longrightarrow>
    stopping_step C s (s\<lparr>sp_threads := add_mset (v, AtEnd) W\<rparr>)"
| stay: "sp_threads s = add_mset (v, AtLoop) W \<Longrightarrow> \<not> pq_empty C (sp_queue s) \<Longrightarrow>
    stopping_step C s (s\<lparr>sp_threads := add_mset (v, AtVersion) W\<rparr>)"
| version: "sp_threads s = add_mset (v, AtVersion) W \<Longrightarrow>
    stopping_step C s (s\<lparr>sp_threads := add_mset (v, if v < sp_ver s then AtEnd else AtWait) W\<rparr>)"
| wait: "sp_threads s = add_mset (v, AtWait) W \<Longrightarrow> pq_pop_ready C (sp_queue s) \<Longrightarrow>
    stopping_step C s (s\<lparr>sp_threads := add_mset (v, AtEmpty) W\<rparr>)"
| test: "sp_threads s = add_mset (v, AtEmpty) W \<Longrightarrow>
    stopping_step C s (s\<lparr>sp_threads := add_mset (v, if pq_empty C (sp_queue s) then AtLoop else AtDequeue) W\<rparr>)"
| miss: "sp_threads s = add_mset (v, AtDequeue) W \<Longrightarrow> cq_try_dequeue C (pq_queue (sp_queue s)) = None \<Longrightarrow>
    stopping_step C s (s\<lparr>sp_threads := add_mset (v, AtLoop) W\<rparr>)"
| take: "sp_threads s = add_mset (v, AtDequeue) W \<Longrightarrow> cq_try_dequeue C (pq_queue (sp_queue s)) = Some (t, c') \<Longrightarrow>
    stopping_step C s (s\<lparr>sp_queue := (sp_queue s)\<lparr>pq_queue := c'\<rparr>,
      sp_threads := add_mset (v, case t of None \<Rightarrow> AtLoop | Some u \<Rightarrow> InTask u) W\<rparr>)"
| ran: "sp_threads s = add_mset (v, InTask u) W \<Longrightarrow>
    stopping_step C s (s\<lparr>sp_threads := add_mset (v, AtLoop) W, sp_log := add_mset u (sp_log s)\<rparr>)"

text \<open>The tasks in a multiset of functions, the empty ones left out, and those that threads run.\<close>

definition real_tasks :: "'t option multiset \<Rightarrow> 't multiset" where
  "real_tasks M = image_mset the (filter_mset (\<lambda>t. t \<noteq> None) M)"

definition running_tasks :: "(nat \<times> 't phase) multiset \<Rightarrow> 't multiset" where
  "running_tasks W = image_mset (\<lambda>(v, p). case p of InTask u \<Rightarrow> u)
     (filter_mset (\<lambda>(v, p). case p of InTask u \<Rightarrow> True | _ \<Rightarrow> False) W)"

lemma real_tasks_simps [simp]:
  "real_tasks {#} = {#}" "real_tasks (add_mset None M) = real_tasks M"
  "real_tasks (add_mset (Some t) M) = add_mset t (real_tasks M)"
  by (simp_all add: real_tasks_def)

lemma running_tasks_simps [simp]:
  "running_tasks {#} = {#}"
  "running_tasks (add_mset (v, p) W) = (case p of InTask u \<Rightarrow> {#u#} | _ \<Rightarrow> {#}) + running_tasks W"
  by (auto simp: running_tasks_def split: phase.splits)

text \<open>
  The bound on the steps that are left: every removal is paid for by the tasks that wait, and
  between two removals a thread only goes forward, in an order that depends on whether the queue
  is empty.
\<close>

definition phase_weight :: "bool \<Rightarrow> 't phase \<Rightarrow> nat" where
  "phase_weight e p = (case p of
     AtLoop \<Rightarrow> if e then 1 else 4 | AtVersion \<Rightarrow> if e then 4 else 3 | AtWait \<Rightarrow> if e then 3 else 2
   | AtEmpty \<Rightarrow> if e then 2 else 1 | AtDequeue \<Rightarrow> if e then 2 else 0 | InTask u \<Rightarrow> if e then 2 else 5 | AtEnd \<Rightarrow> 0)"

definition steps_left :: "nat \<Rightarrow> (nat \<times> 't phase) multiset \<Rightarrow> nat" where
  "steps_left n W = n * (6 * size W + 1) + sum_mset (image_mset (\<lambda>(v, p). phase_weight (n = 0) p) W)"

lemma weight_bound: "sum_mset (image_mset (\<lambda>(v, p). phase_weight e p) W) \<le> 5 * size W"
  by (induction W) (auto simp: phase_weight_def split: phase.splits)

text \<open>Every step keeps the stop flag and the version, moves no task but from the queue to a thread and to the log, and is one of those left.\<close>

lemma stopping_step_facts:
  assumes spec: "cq_spec C c" and st: "stopping_step C s s'" and q: "pq_stop (sp_queue s)"
  shows "pq_stop (sp_queue s') \<and> sp_ver s' = sp_ver s \<and>
    real_tasks (c (pq_queue (sp_queue s'))) + running_tasks (sp_threads s') + sp_log s' =
      real_tasks (c (pq_queue (sp_queue s))) + running_tasks (sp_threads s) + sp_log s \<and>
    steps_left (size (c (pq_queue (sp_queue s')))) (sp_threads s') <
      steps_left (size (c (pq_queue (sp_queue s)))) (sp_threads s)"
  using st q
proof (induction rule: stopping_step.induct)
  case (take s v W t c')
  have cq: "c (pq_queue (sp_queue s)) = add_mset t (c c')" using cq_specD(4) [OF spec take.hyps(2)] .
  let ?p = "case t of None \<Rightarrow> AtLoop | Some u \<Rightarrow> InTask u"
  have "sum_mset (image_mset (\<lambda>(v, p). phase_weight (size (c c') = 0) p) (add_mset (v, ?p) W)) \<le> 5 * size (add_mset (v, ?p) W)"
    by (rule weight_bound)
  then have "steps_left (size (c c')) (add_mset (v, ?p) W) < steps_left (Suc (size (c c'))) (add_mset (v, AtDequeue) W)"
    by (simp add: steps_left_def)
  then show ?case using take.hyps(1) take.prems cq by (auto split: option.splits)
qed (use cq_specD(3,5) [OF spec] in \<open>auto simp: steps_left_def phase_weight_def pq_empty_def pq_not_empty_def pq_size_def\<close>)

lemma stopping_steps_facts:
  assumes spec: "cq_spec C c" and st: "(stopping_step C ^^ k) s s'" and q: "pq_stop (sp_queue s)"
  shows "pq_stop (sp_queue s') \<and> sp_ver s' = sp_ver s \<and>
    real_tasks (c (pq_queue (sp_queue s'))) + running_tasks (sp_threads s') + sp_log s' =
      real_tasks (c (pq_queue (sp_queue s))) + running_tasks (sp_threads s) + sp_log s \<and>
    k + steps_left (size (c (pq_queue (sp_queue s')))) (sp_threads s') \<le>
      steps_left (size (c (pq_queue (sp_queue s)))) (sp_threads s)"
  using st
proof (induction k arbitrary: s')
  case (Suc k)
  then obtain y where y: "(stopping_step C ^^ k) s y" "stopping_step C y s'" by auto
  show ?case using Suc.IH [OF y(1)] stopping_step_facts [OF spec y(2)] by auto
qed (use q in simp)

text \<open>A thread of the current version ends only when the queue is empty, and it stays empty.\<close>

definition ended_empty :: "('q \<Rightarrow> 't option multiset) \<Rightarrow> ('q, 't) stopping_pool \<Rightarrow> bool" where
  "ended_empty c s \<longleftrightarrow> (\<exists>v p. (v, p) \<in># sp_threads s \<and> sp_ver s \<le> v) \<and>
     ((\<exists>v. (v, AtEnd) \<in># sp_threads s \<and> sp_ver s \<le> v) \<longrightarrow> c (pq_queue (sp_queue s)) = {#})"

lemma ended_empty_step:
  assumes spec: "cq_spec C c" and st: "stopping_step C s s'" and i: "ended_empty c s"
  shows "ended_empty c s'"
  using st i
proof (induction rule: stopping_step.induct)
  case (take s v W t c')
  then show ?case using cq_specD(4) [OF spec take.hyps(2)]
    by (auto simp: ended_empty_def split: option.splits)
qed (use cq_specD(5) [OF spec] in \<open>auto simp: ended_empty_def pq_empty_def pq_not_empty_def pq_size_def\<close>)

lemma ended_empty_steps:
  "cq_spec C c \<Longrightarrow> (stopping_step C ^^ k) s s' \<Longrightarrow> ended_empty c s \<Longrightarrow> ended_empty c s'"
  by (induction k arbitrary: s') (auto dest: ended_empty_step)

text \<open>While a thread has not ended, some step is possible.\<close>

lemma stopping_progress:
  assumes "cq_spec C c" "pq_stop (sp_queue s)" "(v, p) \<in># sp_threads s" "p \<noteq> AtEnd"
  shows "\<exists>s'. stopping_step C s s'"
proof -
  obtain W where W: "sp_threads s = add_mset (v, p) W" using assms(3) by (metis mset_add)
  show ?thesis
  proof (cases p)
    case AtLoop
    then show ?thesis using W stopping_step.leave stopping_step.stay by metis
  next
    case AtVersion
    then show ?thesis using W stopping_step.version by metis
  next
    case AtWait
    then show ?thesis using W assms(2) stopping_step.wait by (metis pq_pop_ready_def)
  next
    case AtEmpty
    then show ?thesis using W stopping_step.test by metis
  next
    case AtDequeue
    then show ?thesis using W stopping_step.miss stopping_step.take by (metis option.exhaust surj_pair)
  next
    case (InTask u)
    then show ?thesis using W stopping_step.ran by metis
  qed (use assms(4) in simp)
qed

lemma stopping_run_ends:
  assumes "cq_spec C c" "pq_stop (sp_queue s)"
  shows "\<exists>k s'. (stopping_step C ^^ k) s s' \<and> (\<nexists>s''. stopping_step C s' s'')"
proof (rule ccontr)
  assume n: "\<not> ?thesis"
  have "\<exists>s'. (stopping_step C ^^ k) s s'" for k
  proof (induction k)
    case (Suc k)
    then obtain s' where s': "(stopping_step C ^^ k) s s'" by blast
    then obtain s'' where "stopping_step C s' s''" using n by blast
    then show ?case using s' by auto
  qed simp
  then obtain s' where "(stopping_step C ^^ Suc (steps_left (size (c (pq_queue (sp_queue s)))) (sp_threads s))) s s'" by blast
  from stopping_steps_facts [OF assms(1) this assms(2)] show False by simp
qed


text \<open>Two threads, one about to leave its loop and one running the task 4, with an empty and a real task waiting.\<close>

definition sample_stopping :: "(nat option list, nat) stopping_pool" where
  "sample_stopping = \<lparr>sp_queue = \<lparr>pq_stop = True, pq_queue = [None, Some 5], pq_max = 0\<rparr>,
     sp_threads = {#(1, AtLoop), (1, InTask 4)#}, sp_ver = 1, sp_log = {#}\<rparr>"


section \<open>Starting, stopping and resizing\<close>

text \<open>The threads of the pool are given by the versions they were created with.\<close>

(* src: task_pool.hpp 128-139 TaskPoolBase *)
record 's pool =
  p_switch :: switch
  p_queue :: 's
  p_threads :: "nat list"
  p_ver :: nat

(* src: task_pool.hpp 33-33 TaskPoolBase::TaskPoolBase *)
definition new_pool :: "'s \<Rightarrow> 's pool" where
  "new_pool q = \<lparr>p_switch = new_switch, p_queue = q, p_threads = [], p_ver = 0\<rparr>"

(* src: task_pool.hpp 93-111 TaskPoolBase::create_thread *)
definition create_thread :: "nat \<Rightarrow> nat \<Rightarrow> 's pool \<Rightarrow> 's pool" where
  "create_thread core_num thread_num p =
     (let n = (if thread_num = 0 then core_num else thread_num);
          ver = p_ver p + 1;
          n = (if n < 2000 then n else 2000)
      in p\<lparr>p_ver := ver, p_threads := p_threads p @ replicate n ver\<rparr>)"

(* src: task_pool.hpp 39-45 TaskPoolBase::start *)
definition pool_start :: "('s \<Rightarrow> 's) \<Rightarrow> nat \<Rightarrow> nat \<Rightarrow> 's pool \<Rightarrow> 's pool" where
  "pool_start qstart core_num thread_num p =
     (let (b1, w1) = as_init (p_switch p);
          (b2, w2) = as_start w1
      in if \<not> b1 then p\<lparr>p_switch := w1\<rparr>
         else if \<not> b2 then p\<lparr>p_switch := w2\<rparr>
         else create_thread core_num thread_num (p\<lparr>p_switch := w2, p_queue := qstart (p_queue p)\<rparr>))"

text \<open>Deleting the threads waits for each to end; join is what they do to the queue until then.\<close>

(* src: task_pool.hpp 51-69 TaskPoolBase::stop *)
definition pool_stop :: "(bool \<Rightarrow> 's \<Rightarrow> 's) \<Rightarrow> ('s \<Rightarrow> 's) \<Rightarrow> bool \<Rightarrow> 's pool \<Rightarrow> 's pool" where
  "pool_stop qstop join bwait p =
     (let (b, w) = as_stop (p_switch p)
      in if \<not> b then p
         else p\<lparr>p_queue := join (qstop bwait (p_queue p)), p_threads := [], p_switch := as_reset w\<rparr>)"

(* src: task_pool.hpp 80-85 TaskPoolBase::reset_thread_num *)
definition reset_thread_num :: "nat \<Rightarrow> nat \<Rightarrow> 's pool \<Rightarrow> 's pool" where
  "reset_thread_num core_num thread_num p =
     (if \<not> has_started (p_switch p) then p else create_thread core_num thread_num p)"

text \<open>add_task of the derived pools: refused before the queue is asked unless the pool is started.\<close>

(* src: task_pool.hpp 164-168 ParallelTaskPool::add_task *)
definition pool_add :: "('s \<Rightarrow> (bool, 's) outcome) \<Rightarrow> 's pool \<Rightarrow> (bool, 's pool) outcome" where
  "pool_add qadd p =
     (if \<not> has_started (p_switch p) then Done False p
      else (case qadd (p_queue p) of Blocked \<Rightarrow> Blocked | Done b q \<Rightarrow> Done b (p\<lparr>p_queue := q\<rparr>)))"

text \<open>The threads that go on: those of the current version.\<close>

definition current_threads :: "'s pool \<Rightarrow> nat" where
  "current_threads p = length (filter (\<lambda>v. \<not> v < p_ver p) (p_threads p))"

definition thread_count :: "nat \<Rightarrow> nat \<Rightarrow> nat" where
  "thread_count core n = min (if n = 0 then core else n) 2000"

definition versions_ok :: "'s pool \<Rightarrow> bool" where
  "versions_ok p \<longleftrightarrow> (\<forall>v \<in> set (p_threads p). v \<le> p_ver p)"

lemma create_thread_count:
  "versions_ok p \<Longrightarrow> current_threads (create_thread core n p) = thread_count core n \<and>
     versions_ok (create_thread core n p)"
  by (auto simp: create_thread_def Let_def current_threads_def thread_count_def versions_ok_def
      filter_empty_conv less_Suc_eq_le min_def)

text \<open>The number of threads is the one asked for. Starting a fresh pool gives it, starting a started
  pool changes nothing; after resizing, to the number asked for (the number of cores for zero, at
  most 2000), exactly so many threads are of the current version, and every older thread ends at
  its next turn without taking a task; stop leaves no thread and the pool can be started again.\<close>

theorem pool_threads:
  assumes "p = pool_start qstart core n (new_pool q)"
  shows "current_threads p = thread_count core n \<and> has_started (p_switch p) \<and>
    pool_start qstart core m p = p \<and>
    current_threads (reset_thread_num core m p) = thread_count core m \<and>
    (\<forall>v \<in> set (p_threads p). thread_fun (pq_pop_alone list_cq) (pq_empty list_cq) b v (p_ver (reset_thread_num core m p)) s = Some ([], s)) \<and>
    p_threads (pool_stop qstop join bwait p) = [] \<and>
    current_threads (pool_start qstart core m (pool_stop qstop join bwait p)) = thread_count core m"
proof -
  have f: "p = create_thread core n (new_pool (qstart q) \<lparr>p_switch := \<lparr>binit = True, bstart = True, bstop = False\<rparr>\<rparr>)"
    by (simp add: assms pool_start_def new_pool_def switch_defs)
  have v: "versions_ok (new_pool (qstart q) \<lparr>p_switch := w\<rparr>)" for w
    by (simp add: versions_ok_def new_pool_def)
  have vp: "versions_ok p" "current_threads p = thread_count core n"
    unfolding f using create_thread_count [OF v] by auto
  have sw: "p_switch p = \<lparr>binit = True, bstart = True, bstop = False\<rparr>"
    by (simp add: f create_thread_def Let_def)
  have stop: "pool_stop qstop join bwait p =
      p\<lparr>p_queue := join (qstop bwait (p_queue p)), p_threads := [], p_switch := new_switch\<rparr>"
    by (simp add: pool_stop_def sw switch_defs)
  have "versions_ok r" if "p_threads r = []" for r :: "'a pool" using that by (simp add: versions_ok_def)
  then have "current_threads (pool_start qstart core m (pool_stop qstop join bwait p)) = thread_count core m"
    by (simp add: stop pool_start_def switch_defs create_thread_count)
  moreover have "reset_thread_num core m p = create_thread core m p"
    by (simp add: reset_thread_num_def sw switch_defs)
  moreover have "thread_fun (pq_pop_alone list_cq) (pq_empty list_cq) b u (p_ver (create_thread core m p)) s = Some ([], s)"
    if "u \<in> set (p_threads p)" for u
  proof -
    have "u < p_ver (create_thread core m p)"
      using vp(1) that by (auto simp: versions_ok_def create_thread_def Let_def)
    then show ?thesis by (rule pqw.old_thread_ends)
  qed
  moreover have "pool_start qstart core m p = p" by (simp add: pool_start_def sw switch_defs)
  moreover have "has_started (p_switch p)" by (simp add: sw switch_defs)
  moreover have "current_threads (create_thread core m p) = thread_count core m"
    using create_thread_count [OF vp(1)] by blast
  ultimately show ?thesis using vp(2) stop by simp
qed

theorem pool_threads_witness:
  "current_threads (reset_thread_num 8 3 (pool_start pq_start 8 0 (new_pool (new_pq list_cq 0)))) = 3"
proof -
  let ?p = "pool_start pq_start 8 0 (new_pool (new_pq list_cq 0))"
  have "current_threads (reset_thread_num 8 3 ?p) = thread_count 8 3"
    by (rule pool_threads [OF refl, THEN conjunct2, THEN conjunct2, THEN conjunct2, THEN conjunct1])
  then show ?thesis by (simp add: thread_count_def)
qed

section \<open>One queue per thread: ConditionRotateSerialTaskPool\<close>

text \<open>
  Properties are numbers; property p belongs to the queue p mod m of thread p mod m. All threads
  sleep on one condition variable.
\<close>

(* src: task_pool.hpp 434-445 ConditionRotateSerialTaskPool *)
record 'q rotate_pool =
  rp_index :: "nat \<Rightarrow> nat option"
  rp_queues :: "'q list"
  rp_stopping :: bool

(* src: task_pool.hpp 356-380 ConditionRotateSerialTaskPool::ConditionRotateSerialTaskPool *)
definition new_rotate :: "('q, 't option) cqueue \<Rightarrow> nat \<Rightarrow> nat list \<Rightarrow> nat \<Rightarrow> 'q rotate_pool" where
  "new_rotate C core_num props thread_num =
     (let m = min (length props) (if thread_num = 0 then core_num else thread_num)
      in \<lparr>rp_index = fold (\<lambda>p ix. ix(p \<mapsto> p mod m)) props Map.empty,
          rp_queues = replicate m (cq_new C), rp_stopping = False\<rparr>)"

(* src: task_pool.hpp 399-407 ConditionRotateSerialTaskPool::add_task *)
definition rotate_add :: "('q, 't option) cqueue \<Rightarrow> nat \<Rightarrow> 't option \<Rightarrow> 'q rotate_pool \<Rightarrow> bool \<times> 'q rotate_pool" where
  "rotate_add C p t r =
     (case rp_index r p of
        None \<Rightarrow> (False, r)
      | Some i \<Rightarrow> (True, r\<lparr>rp_queues := (rp_queues r)[i := lf_add C t (rp_queues r ! i)]\<rparr>))"

text \<open>
  The wait predicate of a thread: it takes a task, if there is one, and reads the stop flag; the
  result says whether the wait ends, whether the thread then ends, and the task taken.
\<close>

(* src: task_pool.hpp 417-422 ConditionRotateSerialTaskPool::thread_worker *)
definition rotate_wait :: "('q, 't option) cqueue \<Rightarrow> nat \<Rightarrow> 'q rotate_pool \<Rightarrow>
    (bool \<times> bool \<times> 't option) \<times> 'q rotate_pool" where
  "rotate_wait C i r =
     (let is_stopping = rp_stopping r;
          (got, item, q) = lf_pop_ref C (rp_queues r ! i)
      in ((got \<or> is_stopping, is_stopping \<and> item = None, item),
          r\<lparr>rp_queues := (rp_queues r)[i := q]\<rparr>))"

(* src: task_pool.hpp 425-428 ConditionRotateSerialTaskPool::thread_worker *)
definition rotate_next :: "('q, 't option) cqueue \<Rightarrow> nat \<Rightarrow> 'q rotate_pool \<Rightarrow> 't option \<times> 'q rotate_pool" where
  "rotate_next C i r =
     (case lf_pop_ref C (rp_queues r ! i) of
        (got, item, q) \<Rightarrow> (item, r\<lparr>rp_queues := (rp_queues r)[i := q]\<rparr>))"

(* src: task_pool.hpp 384-397 ConditionRotateSerialTaskPool::stop *)
definition rotate_stop :: "('q, 't option) cqueue \<Rightarrow> bool \<Rightarrow> 'q rotate_pool \<Rightarrow> 'q rotate_pool" where
  "rotate_stop C bwait r =
     r\<lparr>rp_stopping := True,
       rp_queues := (if bwait then rp_queues r else map (lf_clear C) (rp_queues r))\<rparr>"

text \<open>
  The pool with its threads: each about to evaluate its wait predicate, asleep, running a task, or
  ended; the notifications to send; and the tasks run, with the thread.
\<close>

datatype 't worker = Checking | Sleeping | Running "'t" | Ended

record ('q, 't) rotate_sys =
  rs_pool :: "'q rotate_pool"
  rs_workers :: "'t worker list"
  rs_notify :: nat
  rs_log :: "(nat \<times> 't) list"

inductive rotate_step :: "('q, 't option) cqueue \<Rightarrow> ('q, 't) rotate_sys \<Rightarrow> ('q, 't) rotate_sys \<Rightarrow> bool" for C where
  add: "rotate_add C p t (rs_pool s) = (b, r) \<Longrightarrow>
    rotate_step C s (s\<lparr>rs_pool := r, rs_notify := (if b then rs_notify s + 1 else rs_notify s)\<rparr>)"
| notify: "0 < rs_notify s \<Longrightarrow> i < length (rs_workers s) \<Longrightarrow> rs_workers s ! i = Sleeping \<Longrightarrow>
    rotate_step C s (s\<lparr>rs_notify := rs_notify s - 1, rs_workers := (rs_workers s)[i := Checking]\<rparr>)"
| notify_none: "0 < rs_notify s \<Longrightarrow> \<forall>w \<in> set (rs_workers s). w \<noteq> Sleeping \<Longrightarrow>
    rotate_step C s (s\<lparr>rs_notify := rs_notify s - 1\<rparr>)"
| sleep: "i < length (rs_workers s) \<Longrightarrow> rs_workers s ! i = Checking \<Longrightarrow>
    rotate_wait C i (rs_pool s) = ((False, e, item), r) \<Longrightarrow>
    rotate_step C s (s\<lparr>rs_pool := r, rs_workers := (rs_workers s)[i := Sleeping]\<rparr>)"
| ended: "i < length (rs_workers s) \<Longrightarrow> rs_workers s ! i = Checking \<Longrightarrow>
    rotate_wait C i (rs_pool s) = ((True, True, item), r) \<Longrightarrow>
    rotate_step C s (s\<lparr>rs_pool := r, rs_workers := (rs_workers s)[i := Ended]\<rparr>)"
| take: "i < length (rs_workers s) \<Longrightarrow> rs_workers s ! i = Checking \<Longrightarrow>
    rotate_wait C i (rs_pool s) = ((True, False, Some t), r) \<Longrightarrow>
    rotate_step C s (s\<lparr>rs_pool := r, rs_workers := (rs_workers s)[i := Running t]\<rparr>)"
| skip: "i < length (rs_workers s) \<Longrightarrow> rs_workers s ! i = Checking \<Longrightarrow>
    rotate_wait C i (rs_pool s) = ((True, False, None), r) \<Longrightarrow>
    rotate_step C s (s\<lparr>rs_pool := r, rs_workers := (rs_workers s)[i := (if rp_stopping r then Ended else Checking)]\<rparr>)"
| run: "i < length (rs_workers s) \<Longrightarrow> rs_workers s ! i = Running t \<Longrightarrow>
    rotate_next C i (rs_pool s) = (item, r) \<Longrightarrow>
    rotate_step C s (s\<lparr>rs_pool := r, rs_log := (i, t) # rs_log s, rs_workers := (rs_workers s)[i :=
      (case item of Some u \<Rightarrow> Running u | None \<Rightarrow> if rp_stopping r then Ended else Checking)]\<rparr>)"
| stop: "rotate_step C s (s\<lparr>rs_pool := rotate_stop C bwait (rs_pool s),
      rs_workers := map (\<lambda>w. if w = Sleeping then Checking else w) (rs_workers s)\<rparr>)"

definition rotate_init :: "('q, 't option) cqueue \<Rightarrow> nat \<Rightarrow> nat list \<Rightarrow> nat \<Rightarrow> ('q, 't) rotate_sys" where
  "rotate_init C core_num props thread_num =
     (let r = new_rotate C core_num props thread_num
      in \<lparr>rs_pool = r, rs_workers = replicate (length (rp_queues r)) Checking, rs_notify = 0, rs_log = []\<rparr>)"

text \<open>ConditionRotateSerialTaskPool wakes the wrong thread. With two properties and two threads a state
  is reachable in which a task is in the queue of the second thread, that thread sleeps, no thread
  is awake and no notification is under way, so the task runs only after some later add_task or
  stop: the one condition variable is notified once, and the first thread took the notification.\<close>

theorem rotate_wrong_wakeup:
  assumes "cq_spec C c"
  shows "\<exists>s. (rotate_step C)\<^sup>*\<^sup>* (rotate_init C k [0, 1] 2) s \<and> rs_workers s = [Sleeping, Sleeping] \<and>
     c (rp_queues (rs_pool s) ! 1) = {#Some t#} \<and> rs_notify s = 0 \<and> \<not> rp_stopping (rs_pool s)"
proof -
  note S = cq_specD [OF assms]
  have none: "cq_try_dequeue C (cq_new C) = None" using S(1,3) by simp
  let ?p = "new_rotate C k [0, 1] 2"
  let ?q = "?p\<lparr>rp_queues := [cq_new C, cq_enqueue C (Some t) (cq_new C)]\<rparr>"
  let ?s = "\<lambda>p w n. \<lparr>rs_pool = p, rs_workers = w, rs_notify = n, rs_log = []\<rparr> :: ('a, 'b) rotate_sys"
  have p: "rp_queues ?p = [cq_new C, cq_new C]" "rp_index ?p 1 = Some 1" "\<not> rp_stopping ?p"
    by (simp_all add: new_rotate_def numeral_2_eq_2)
  have wait: "rotate_wait C 0 r = ((False, False, None), r)" if "rp_queues r ! 0 = cq_new C"
      "\<not> rp_stopping r" "0 < length (rp_queues r)" for r
  proof -
    have "(rp_queues r)[0 := cq_new C] = rp_queues r" using that by (metis list_update_id)
    then show ?thesis using that none by (simp add: rotate_wait_def lf_pop_ref_def Let_def)
  qed
  have wait1: "rotate_wait C 1 ?p = ((False, False, None), ?p)"
    using p none by (simp add: rotate_wait_def lf_pop_ref_def Let_def)
  have s0: "rotate_init C k [0, 1] 2 = ?s ?p [Checking, Checking] 0"
    using p by (simp add: rotate_init_def Let_def numeral_2_eq_2)
  have s1: "rotate_step C (?s ?p [Checking, Checking] 0) (?s ?p [Sleeping, Checking] 0)"
    using rotate_step.sleep [of 0 "?s ?p [Checking, Checking] 0" C False None ?p] wait [of ?p] p by simp
  have s2: "rotate_step C (?s ?p [Sleeping, Checking] 0) (?s ?p [Sleeping, Sleeping] 0)"
    using rotate_step.sleep [of 1 "?s ?p [Sleeping, Checking] 0" C False None ?p] wait1 by simp
  have s3: "rotate_step C (?s ?p [Sleeping, Sleeping] 0) (?s ?q [Sleeping, Sleeping] 1)"
    using rotate_step.add [of C 1 "Some t" "?s ?p [Sleeping, Sleeping] 0" True ?q] p
    by (simp add: rotate_add_def lf_add_def)
  have s4: "rotate_step C (?s ?q [Sleeping, Sleeping] 1) (?s ?q [Checking, Sleeping] 0)"
    using rotate_step.notify [of "?s ?q [Sleeping, Sleeping] 1" 0 C] by simp
  have s5: "rotate_step C (?s ?q [Checking, Sleeping] 0) (?s ?q [Sleeping, Sleeping] 0)"
    using rotate_step.sleep [of 0 "?s ?q [Checking, Sleeping] 0" C False None ?q] wait [of ?q] p by simp
  have "(rotate_step C)\<^sup>*\<^sup>* (rotate_init C k [0, 1] 2) (?s ?q [Sleeping, Sleeping] 0)"
    unfolding s0
    by (rule converse_rtranclp_into_rtranclp, rule s1, rule converse_rtranclp_into_rtranclp, rule s2,
        rule converse_rtranclp_into_rtranclp, rule s3, rule converse_rtranclp_into_rtranclp, rule s4,
        rule converse_rtranclp_into_rtranclp, rule s5, rule rtranclp.rtrancl_refl)
  then show ?thesis using p S(1,2) by (intro exI [of _ "?s ?q [Sleeping, Sleeping] 0"]) simp
qed

theorem rotate_wrong_wakeup_witness:
  "\<exists>s :: (nat option list, nat) rotate_sys. rs_workers s = [Sleeping, Sleeping] \<and>
     mset (rp_queues (rs_pool s) ! 1) = {#Some 5#}"
proof -
  obtain s :: "(nat option list, nat) rotate_sys" where "rs_workers s = [Sleeping, Sleeping]"
      "mset (rp_queues (rs_pool s) ! 1) = {#Some 5#}"
    using rotate_wrong_wakeup [OF list_cq_spec, of 4 5] by blast
  then show ?thesis by blast
qed

section \<open>LockFreeRotateSerialTaskPool and RotateSerialTaskPool\<close>

(* src: task_pool.hpp 531-542 LockFreeRotateSerialTaskPool *)
type_synonym 'q lf_rotate_pool = "'q rotate_pool"

(* src: task_pool.hpp 462-485 LockFreeRotateSerialTaskPool::LockFreeRotateSerialTaskPool *)
definition new_lf_rotate :: "('q, 't option) cqueue \<Rightarrow> nat \<Rightarrow> nat list \<Rightarrow> nat \<Rightarrow> 'q lf_rotate_pool" where
  "new_lf_rotate C core_num props thread_num =
     (let m = min (length props) (if thread_num = 0 then core_num else thread_num)
      in \<lparr>rp_index = fold (\<lambda>p ix. ix(p \<mapsto> p mod m)) props Map.empty,
          rp_queues = replicate m (cq_new C), rp_stopping = False\<rparr>)"

(* src: task_pool.hpp 501-509 LockFreeRotateSerialTaskPool::add_task *)
definition lf_rotate_add :: "('q, 't option) cqueue \<Rightarrow> nat \<Rightarrow> 't option \<Rightarrow> 'q lf_rotate_pool \<Rightarrow> bool \<times> 'q lf_rotate_pool" where
  "lf_rotate_add C p t r =
     (case rp_index r p of
        None \<Rightarrow> (False, r)
      | Some i \<Rightarrow>
          if rp_stopping r then (False, r)
          else (True, r\<lparr>rp_queues := (rp_queues r)[i := lf_add C t (rp_queues r ! i)]\<rparr>))"

text \<open>The tasks deal_all calls, alone on its queue; it stops at an empty queue and at an empty task.\<close>

(* src: task_pool.hpp 523-529 LockFreeRotateSerialTaskPool::deal_all *)
partial_function (option) deal_all :: "('q, 't option) cqueue \<Rightarrow> 'q \<Rightarrow> ('t list \<times> 'q) option" where
  "deal_all C q =
     (case lf_pop C q of
        (item, q1) \<Rightarrow>
          if item = None then Some ([], q1)
          else do { (ts, q2) \<leftarrow> deal_all C q1; Some (the item # ts, q2) })"

(* src: task_pool.hpp 490-499 LockFreeRotateSerialTaskPool::stop *)
definition lf_rotate_stop :: "('q, 't option) cqueue \<Rightarrow> bool \<Rightarrow> 'q lf_rotate_pool \<Rightarrow> 'q lf_rotate_pool" where
  "lf_rotate_stop C bwait r =
     r\<lparr>rp_stopping := True,
       rp_queues := (if bwait then rp_queues r else map (lf_clear C) (rp_queues r))\<rparr>"

(* src: task_pool.hpp 753-766 RotateSerialTaskPool *)
record 'p rotate_index =
  ri_next :: nat
  ri_index :: "'p \<Rightarrow> nat option"

text \<open>The pool of a property; None is the remainder by zero when there are no pools.\<close>

(* src: task_pool.hpp 732-740 RotateSerialTaskPool::get_thread_index *)
definition get_thread_index :: "nat \<Rightarrow> 'p \<Rightarrow> 'p rotate_index \<Rightarrow> (nat \<times> 'p rotate_index) option" where
  "get_thread_index pools p r =
     (case ri_index r p of
        Some i \<Rightarrow> Some (i, r)
      | None \<Rightarrow>
          if pools = 0 then None
          else Some (ri_next r mod pools,
                 r\<lparr>ri_next := ri_next r + 1, ri_index := (ri_index r)(p \<mapsto> ri_next r mod pools)\<rparr>))"

lemma deal_all_ok:
  assumes "cq_spec C c"
  shows "None \<notin># c q \<Longrightarrow> \<exists>ts q'. deal_all C q = Some (ts, q') \<and> image_mset Some (mset ts) = c q \<and> c q' = {#}"
proof (induction "size (c q)" arbitrary: q)
  case 0
  then have "cq_try_dequeue C q = None" using cq_specD(3) [OF assms] by simp
  then show ?case using 0 by (subst deal_all.simps) (simp add: lf_pop_def)
next
  case (Suc n)
  then obtain t q1 where d: "cq_try_dequeue C q = Some (t, q1)"
    using cq_specD(3) [OF assms, of q] by fastforce
  have cq: "c q = add_mset t (c q1)" using cq_specD(4) [OF assms d] .
  then obtain u where u: "t = Some u" using Suc.prems by (cases t) auto
  obtain ts q' where "deal_all C q1 = Some (ts, q')" "image_mset Some (mset ts) = c q1" "c q' = {#}"
    using Suc.hyps cq Suc.prems by fastforce
  then show ?case using d u cq by (subst deal_all.simps) (simp add: lf_pop_def)
qed

lemma get_thread_index_keeps:
  "get_thread_index n p r = Some (i, r') \<Longrightarrow> ri_index r q = Some j \<Longrightarrow> ri_index r' q = Some j"
  by (auto simp: get_thread_index_def split: option.splits if_splits)

end
