(* ===== verification/Timer_Queue.thy ===== *)
theory Timer_Queue
  imports Prelude
begin

text \<open>
  The timers of task_item.hpp and timer_manager.hpp: TimerTaskVirtual, the loop count and the time
  point of one timer, and TimerManager::TimerQueue, the timers by id and by time point. Time points
  are whole nanoseconds since the epoch. A shared pointer to a timer is its id: ids are never used
  twice while the manager lives; the objects are in the table t_tasks and outlive their removal
  from the queue.
\<close>

section \<open>TimerTaskVirtual\<close>

type_synonym time = int

definition milliseconds :: "nat \<Rightarrow> time" where
  "milliseconds n = int n * 1000000"

(* src: task_item.hpp 251-257 TimerTaskVirtual *)
record timer_task =
  t_id :: nat
  t_loop_count :: int
  t_loop_index :: int
  t_interval :: nat
  t_point :: time

(* src: task_item.hpp 207-213 TimerTaskVirtual::TimerTaskVirtual *)
definition new_timer :: "nat \<Rightarrow> int \<Rightarrow> nat \<Rightarrow> time \<Rightarrow> timer_task" where
  "new_timer interval_ms loop_count i tp =
     \<lparr>t_id = i, t_loop_count = loop_count, t_loop_index = 0, t_interval = interval_ms, t_point = tp\<rparr>"

(* src: task_item.hpp 225-227 TimerTaskVirtual::cancel *)
definition t_cancel :: "timer_task \<Rightarrow> timer_task" where
  "t_cancel t = t\<lparr>t_loop_count := -1\<rparr>"

(* src: task_item.hpp 244-246 TimerTaskVirtual::need_next *)
definition t_need_next :: "timer_task \<Rightarrow> bool" where
  "t_need_next t \<longleftrightarrow> t_loop_count t = 0 \<or> t_loop_index t < t_loop_count t"

(* src: task_item.hpp 230-237 TimerTaskVirtual::loop_once_count *)
definition t_loop_once_count :: "timer_task \<Rightarrow> timer_task" where
  "t_loop_once_count t =
     (if \<not> t_need_next t then t
      else if t_loop_count t \<noteq> 0 then t\<lparr>t_loop_index := t_loop_index t + 1\<rparr>
      else t)"

(* src: task_item.hpp 240-242 TimerTaskVirtual::loop_once_time *)
definition t_loop_once_time :: "timer_task \<Rightarrow> timer_task" where
  "t_loop_once_time t = t\<lparr>t_point := t_point t + milliseconds (t_interval t)\<rparr>"

section \<open>TimerQueue\<close>

text \<open>
  m_all_timer_map as the set of its ids, m_timer_part_queue as a map from time points to sets of
  ids, and the calls handed to the callback pool: the timer and the time point passed to it.
\<close>

(* src: timer_manager.hpp 230-235 TimerQueue *)
record timer_queue =
  t_all :: "nat set"
  t_part :: "time \<Rightarrow> nat set option"
  t_tasks :: "nat \<Rightarrow> timer_task option"
  t_calls :: "(nat \<times> time) list"

(* src: timer_manager.hpp 58-61 TimerQueue::TimerQueue *)
definition new_timer_queue :: timer_queue where
  "new_timer_queue = \<lparr>t_all = {}, t_part = Map.empty, t_tasks = Map.empty, t_calls = []\<rparr>"

definition part_insert :: "nat \<Rightarrow> time \<Rightarrow> timer_queue \<Rightarrow> timer_queue" where
  "part_insert i tp q = q\<lparr>t_part := (t_part q)(tp \<mapsto>
     insert i (case t_part q tp of None \<Rightarrow> {} | Some S \<Rightarrow> S))\<rparr>"

(* src: timer_manager.hpp 71-87 TimerQueue::insert *)
definition tqueue_insert :: "nat \<Rightarrow> int \<Rightarrow> nat \<Rightarrow> time \<Rightarrow> timer_queue \<Rightarrow> nat option \<times> timer_queue" where
  "tqueue_insert interval_ms loop_count i tp q =
     (if i = 0 then (None, q)
      else if i \<in> t_all q then (None, q)
      else
        let t = new_timer interval_ms loop_count i tp
        in (Some i, part_insert i (t_point t)
             (q\<lparr>t_all := insert i (t_all q), t_tasks := (t_tasks q)(i \<mapsto> t)\<rparr>)))"

(* src: timer_manager.hpp 206-208 TimerQueue::remove_from_all_map *)
definition remove_from_all_map :: "nat \<Rightarrow> timer_queue \<Rightarrow> timer_queue" where
  "remove_from_all_map i q = q\<lparr>t_all := t_all q - {i}\<rparr>"

(* src: timer_manager.hpp 211-224 TimerQueue::remove_from_part_queue *)
definition remove_from_part_queue :: "nat \<Rightarrow> time \<Rightarrow> timer_queue \<Rightarrow> timer_queue" where
  "remove_from_part_queue i tp q =
     (case t_part q tp of
        None \<Rightarrow> q
      | Some S \<Rightarrow>
          if i \<notin> S then q
          else q\<lparr>t_part := (t_part q)(tp := if S - {i} = {} then None else Some (S - {i}))\<rparr>)"

text \<open>The timer behind a pointer the queue holds.\<close>

definition timer_at :: "timer_queue \<Rightarrow> nat \<Rightarrow> timer_task" where
  "timer_at q i = (case t_tasks q i of Some t \<Rightarrow> t | None \<Rightarrow> new_timer 0 0 i 0)"

definition upd_timer :: "nat \<Rightarrow> (timer_task \<Rightarrow> timer_task) \<Rightarrow> timer_queue \<Rightarrow> timer_queue" where
  "upd_timer i f q = q\<lparr>t_tasks := (t_tasks q)(i \<mapsto> f (timer_at q i))\<rparr>"

(* src: timer_manager.hpp 127-138 TimerQueue::erase *)
definition tqueue_erase :: "nat \<Rightarrow> timer_queue \<Rightarrow> nat option \<times> timer_queue" where
  "tqueue_erase i q =
     (if i \<notin> t_all q then (None, q)
      else
        let q1 = upd_timer i t_cancel q;
            q2 = remove_from_all_map i q1;
            q3 = remove_from_part_queue i (t_point (timer_at q2 i)) q2
        in (Some i, q3))"

(* src: timer_manager.hpp 140-144 TimerQueue::clear *)
definition tqueue_clear :: "timer_queue \<Rightarrow> timer_queue" where
  "tqueue_clear q = q\<lparr>t_all := {}, t_part := Map.empty\<rparr>"

(* src: timer_manager.hpp 146-148 TimerQueue::empty *)
definition tqueue_empty :: "timer_queue \<Rightarrow> bool" where
  "tqueue_empty q \<longleftrightarrow> t_all q = {}"

(* src: timer_manager.hpp 118-120 TimerQueue::size *)
definition tqueue_size :: "timer_queue \<Rightarrow> nat" where
  "tqueue_size q = card (t_all q)"

(* src: timer_manager.hpp 123-125 TimerQueue::time_point_size *)
definition tqueue_point_size :: "timer_queue \<Rightarrow> nat" where
  "tqueue_point_size q = card (dom (t_part q))"

(* src: timer_manager.hpp 150-153 TimerQueue::front *)
definition tqueue_front :: "timer_queue \<Rightarrow> nat" where
  "tqueue_front q = Min (the (t_part q (Min (dom (t_part q)))))"

text \<open>The loop of clear_point_timer over the timers of the point.\<close>

(* src: timer_manager.hpp 163-169 TimerQueue::clear_point_timer *)
definition drop_timer :: "nat \<Rightarrow> timer_queue \<Rightarrow> timer_queue" where
  "drop_timer i q = remove_from_all_map i (upd_timer i t_cancel q)"

(* src: timer_manager.hpp 156-172 TimerQueue::clear_point_timer *)
definition tqueue_clear_point :: "time \<Rightarrow> timer_queue \<Rightarrow> nat set \<times> timer_queue" where
  "tqueue_clear_point tp q =
     (case t_part q tp of
        None \<Rightarrow> ({}, q)
      | Some S \<Rightarrow>
          let q1 = fold drop_timer (sorted_list_of_set S) q
          in (S, q1\<lparr>t_part := (t_part q1)(tp := None)\<rparr>))"

(* src: timer_manager.hpp 181-201 TimerQueue::loop_point_timer *)
definition loop_timer :: "nat \<Rightarrow> timer_queue \<Rightarrow> timer_queue" where
  "loop_timer i q =
     (let q1 = q\<lparr>t_calls := t_calls q @ [(i, t_point (timer_at q i))]\<rparr>;
          q2 = upd_timer i t_loop_once_count q1
      in if \<not> t_need_next (timer_at q2 i)
         then remove_from_part_queue i (t_point (timer_at q2 i)) (remove_from_all_map i q2)
         else
           let q3 = remove_from_part_queue i (t_point (timer_at q2 i)) q2;
               q4 = upd_timer i t_loop_once_time q3
           in part_insert i (t_point (timer_at q4 i)) q4)"

(* src: timer_manager.hpp 175-202 TimerQueue::loop_point_timer *)
definition tqueue_loop_point :: "time \<Rightarrow> timer_queue \<Rightarrow> timer_queue" where
  "tqueue_loop_point tp q =
     (case t_part q tp of
        None \<Rightarrow> q
      | Some S \<Rightarrow> fold loop_timer (sorted_list_of_set S) q)"

section \<open>The two maps agree\<close>

text \<open>
  The queue holds finitely many timers, each with its object, and the time-point map lists exactly
  them, each at its own time point, with no point left empty.
\<close>

definition part_of :: "timer_queue \<Rightarrow> time \<Rightarrow> nat set" where
  "part_of q tp = {i \<in> t_all q. t_point (timer_at q i) = tp}"

definition tqueue_inv :: "timer_queue \<Rightarrow> bool" where
  "tqueue_inv q \<longleftrightarrow> finite (t_all q) \<and> 0 \<notin> t_all q \<and> (\<forall>i \<in> t_all q. t_tasks q i \<noteq> None) \<and>
     (\<forall>tp. t_part q tp = (if part_of q tp = {} then None else Some (part_of q tp)))"

lemma timer_at_upd [simp]: "timer_at (upd_timer i f q) j = (if j = i then f (timer_at q i) else timer_at q j)"
  by (simp add: timer_at_def upd_timer_def)

lemma upd_timer_fields [simp]:
  "t_all (upd_timer i f q) = t_all q" "t_part (upd_timer i f q) = t_part q"
  "t_calls (upd_timer i f q) = t_calls q"
  by (simp_all add: upd_timer_def)

lemma part_insert_fields [simp]:
  "t_all (part_insert i tp q) = t_all q" "t_tasks (part_insert i tp q) = t_tasks q"
  "t_calls (part_insert i tp q) = t_calls q" "timer_at (part_insert i tp q) = timer_at q"
  by (simp_all add: part_insert_def timer_at_def fun_eq_iff)

lemma remove_fields [simp]:
  "t_all (remove_from_part_queue i tp q) = t_all q" "t_tasks (remove_from_part_queue i tp q) = t_tasks q"
  "t_calls (remove_from_part_queue i tp q) = t_calls q" "timer_at (remove_from_part_queue i tp q) = timer_at q"
  "t_all (remove_from_all_map i q) = t_all q - {i}" "t_tasks (remove_from_all_map i q) = t_tasks q"
  "t_calls (remove_from_all_map i q) = t_calls q" "timer_at (remove_from_all_map i q) = timer_at q"
  "t_part (remove_from_all_map i q) = t_part q"
  by (auto simp: remove_from_part_queue_def remove_from_all_map_def timer_at_def fun_eq_iff split: option.splits)

lemma remove_part: "t_part (remove_from_part_queue i tp q) = (\<lambda>u. if u = tp then
    (case t_part q tp of None \<Rightarrow> None | Some S \<Rightarrow> if i \<notin> S then Some S else
       if S - {i} = {} then None else Some (S - {i})) else t_part q u)"
  by (auto simp: remove_from_part_queue_def fun_eq_iff split: option.splits)

lemma insert_part: "t_part (part_insert i tp q) = (\<lambda>u. if u = tp then
    Some (insert i (case t_part q tp of None \<Rightarrow> {} | Some S \<Rightarrow> S)) else t_part q u)"
  by (simp add: part_insert_def fun_eq_iff)

lemma tqueue_invD:
  assumes "tqueue_inv q"
  shows "finite (t_all q)" "0 \<notin> t_all q" "\<And>i. i \<in> t_all q \<Longrightarrow> t_tasks q i \<noteq> None"
    "\<And>tp. t_part q tp = (if part_of q tp = {} then None else Some (part_of q tp))"
  using assms unfolding tqueue_inv_def by auto

lemma part_case: "tqueue_inv q \<Longrightarrow> (case t_part q tp of None \<Rightarrow> {} | Some S \<Rightarrow> S) = part_of q tp"
  by (simp add: tqueue_invD(4))

lemma tqueue_invI:
  assumes "finite (t_all q)" "0 \<notin> t_all q" "\<And>i. i \<in> t_all q \<Longrightarrow> t_tasks q i \<noteq> None"
    "\<And>tp. t_part q tp = (if part_of q tp = {} then None else Some (part_of q tp))"
  shows "tqueue_inv q"
  using assms unfolding tqueue_inv_def by blast

text \<open>A timer enters the queue; one leaves it; one moves to another time point.\<close>

lemma tqueue_inv_add:
  assumes i: "tqueue_inv q" and n: "i \<notin> t_all q" "i \<noteq> 0"
    and q1: "q1 = q\<lparr>t_all := insert i (t_all q), t_tasks := (t_tasks q)(i \<mapsto> t)\<rparr>"
  shows "tqueue_inv (part_insert i (t_point t) q1)"
proof (rule tqueue_invI)
  note I = tqueue_invD [OF i]
  let ?q = "part_insert i (t_point t) q1"
  have all: "t_all q1 = insert i (t_all q)" "t_part q1 = t_part q" "t_tasks q1 = (t_tasks q)(i \<mapsto> t)"
    by (simp_all add: q1)
  have ta: "timer_at q1 j = (if j = i then t else timer_at q j)" for j
    by (simp add: timer_at_def all)
  have po: "part_of ?q tp = (if tp = t_point t then insert i (part_of q tp) else part_of q tp)" for tp
    using n by (auto simp: part_of_def ta all)
  show "t_part ?q tp = (if part_of ?q tp = {} then None else Some (part_of ?q tp))" for tp
    unfolding po insert_part all by (simp add: I(4))
  show "j \<in> t_all ?q \<Longrightarrow> t_tasks ?q j \<noteq> None" for j using I(3) by (auto simp: all)
  show "finite (t_all ?q)" "0 \<notin> t_all ?q" using I(1,2) n by (simp_all add: all)
qed

lemma tqueue_inv_drop:
  assumes i: "tqueue_inv q" and n: "i \<in> t_all q" and f: "\<And>t. t_point (f t) = t_point t"
  shows "tqueue_inv (remove_from_part_queue i (t_point (timer_at q i)) (remove_from_all_map i (upd_timer i f q)))"
    (is "tqueue_inv ?q")
proof (rule tqueue_invI)
  note I = tqueue_invD [OF i]
  have po: "part_of ?q tp = part_of q tp - {i}" for tp
    by (auto simp: part_of_def f)
  have mem: "i \<in> part_of q tp \<longleftrightarrow> tp = t_point (timer_at q i)" for tp
    using n by (auto simp: part_of_def)
  show "t_part ?q tp = (if part_of ?q tp = {} then None else Some (part_of ?q tp))" for tp
    using mem [of tp] unfolding po remove_part by (auto simp: I(4) split: if_splits)
  show "j \<in> t_all ?q \<Longrightarrow> t_tasks ?q j \<noteq> None" for j using I(3) by (simp add: upd_timer_def)
  show "finite (t_all ?q)" "0 \<notin> t_all ?q" using I(1,2) by simp_all
qed

lemma tqueue_inv_move:
  assumes i: "tqueue_inv q" and n: "i \<in> t_all q" and g: "t_point (g (timer_at q i)) = tp'"
    and q': "q' = part_insert i tp' (upd_timer i g (remove_from_part_queue i (t_point (timer_at q i)) q))"
  shows "tqueue_inv q'"
proof (rule tqueue_invI)
  note I = tqueue_invD [OF i]
  let ?tp = "t_point (timer_at q i)"
  have ta: "timer_at q' j = (if j = i then g (timer_at q i) else timer_at q j)" for j
    by (simp add: q')
  have all: "t_all q' = t_all q" by (simp add: q')
  have po: "part_of q' u = (if u = tp' then insert i (part_of q u - {i}) else part_of q u - {i})" for u
  proof (rule set_eqI)
    fix j
    show "j \<in> part_of q' u \<longleftrightarrow> j \<in> (if u = tp' then insert i (part_of q u - {i}) else part_of q u - {i})"
      using n g by (cases "j = i"; cases "u = tp'") (auto simp: part_of_def ta all)
  qed
  have mem: "i \<in> part_of q u \<longleftrightarrow> u = ?tp" for u using n by (auto simp: part_of_def)
  show "t_part q' u = (if part_of q' u = {} then None else Some (part_of q' u))" for u
  proof -
    have r: "t_part (remove_from_part_queue i ?tp q) v =
        (if part_of q v - {i} = {} then None else Some (part_of q v - {i}))" for v
      using mem [of v] by (auto simp: remove_part I(4))
    show ?thesis unfolding po by (simp add: q' insert_part r)
  qed
  show "j \<in> t_all q' \<Longrightarrow> t_tasks q' j \<noteq> None" for j using I(3) by (simp add: q' upd_timer_def)
  show "finite (t_all q')" "0 \<notin> t_all q'" using I(1,2) by (simp_all add: q')
qed

lemma tqueue_insert_inv: "tqueue_inv q \<Longrightarrow> tqueue_inv (snd (tqueue_insert iv lc i tp q))"
  using tqueue_inv_add [of q i _ "new_timer iv lc i tp"] by (auto simp: tqueue_insert_def Let_def)

lemma tqueue_erase_inv: "tqueue_inv q \<Longrightarrow> tqueue_inv (snd (tqueue_erase i q))"
  using tqueue_inv_drop [of q i t_cancel] by (auto simp: tqueue_erase_def Let_def t_cancel_def)

lemma tqueue_clear_inv: "tqueue_inv (tqueue_clear q)"
  by (auto simp: tqueue_inv_def tqueue_clear_def part_of_def)

lemma t_loop_once_count_point [simp]: "t_point (t_loop_once_count t) = t_point t"
  by (simp add: t_loop_once_count_def)

lemma upd_upd_timer: "upd_timer i f (upd_timer i g q) = upd_timer i (\<lambda>t. f (g t)) q"
  by (simp add: upd_timer_def timer_at_def)

lemma upd_calls: "upd_timer i f (q\<lparr>t_calls := c\<rparr>) = (upd_timer i f q)\<lparr>t_calls := c\<rparr>"
  by (simp add: upd_timer_def timer_at_def)

lemma inv_calls: "tqueue_inv (q\<lparr>t_calls := c\<rparr>) = tqueue_inv q"
  by (simp add: tqueue_inv_def part_of_def timer_at_def)

lemma inv_upd_same:
  assumes "tqueue_inv q" "\<And>t. t_point (f t) = t_point t"
  shows "tqueue_inv (upd_timer i f q)"
proof (rule tqueue_invI)
  note I = tqueue_invD [OF assms(1)]
  have po: "part_of (upd_timer i f q) tp = part_of q tp" for tp using assms(2) by (auto simp: part_of_def)
  show "t_part (upd_timer i f q) tp = (if part_of (upd_timer i f q) tp = {} then None
      else Some (part_of (upd_timer i f q) tp))" for tp
    unfolding po using I(4) by simp
  show "j \<in> t_all (upd_timer i f q) \<Longrightarrow> t_tasks (upd_timer i f q) j \<noteq> None" for j
    using I(3) by (simp add: upd_timer_def)
qed (use tqueue_invD [OF assms(1)] in simp_all)

lemma loop_timer_cases:
  assumes i: "tqueue_inv q" and n: "i \<in> t_all q"
  defines "t1 \<equiv> t_loop_once_count (timer_at q i)"
  shows "tqueue_inv (loop_timer i q)" and "t_calls (loop_timer i q) = t_calls q @ [(i, t_point (timer_at q i))]"
    and "t_all (loop_timer i q) = (if t_need_next t1 then t_all q else t_all q - {i})"
    and "timer_at (loop_timer i q) j = (if j = i then if t_need_next t1 then t_loop_once_time t1 else t1 else timer_at q j)"
proof -
  define q1 where "q1 = q\<lparr>t_calls := t_calls q @ [(i, t_point (timer_at q i))]\<rparr>"
  define q2 where "q2 = upd_timer i t_loop_once_count q1"
  have q1: "tqueue_inv q1" "t_all q1 = t_all q" "timer_at q1 = timer_at q"
      "t_calls q1 = t_calls q @ [(i, t_point (timer_at q i))]"
    using i by (simp_all add: q1_def inv_calls timer_at_def fun_eq_iff)
  have q2: "tqueue_inv q2" "t_all q2 = t_all q" "timer_at q2 i = t1" "t_point (timer_at q2 i) = t_point (timer_at q i)"
    unfolding q2_def using inv_upd_same [OF q1(1)] q1 by (simp_all add: t1_def)
  have lt: "loop_timer i q = (if \<not> t_need_next t1
      then remove_from_part_queue i (t_point t1) (remove_from_all_map i q2)
      else part_insert i (t_point (t_loop_once_time t1)) (upd_timer i t_loop_once_time
             (remove_from_part_queue i (t_point t1) q2)))"
    unfolding loop_timer_def Let_def q1_def [symmetric] q2_def [symmetric] q2(3) by (simp add: q2(3))
  have t1p: "t_point t1 = t_point (timer_at q2 i)" using q2(3) by simp
  show "tqueue_inv (loop_timer i q)"
  proof (cases "t_need_next t1")
    case True
    then show ?thesis unfolding lt t1p using q2(2,3) n
      by (auto intro!: tqueue_inv_move [OF q2(1)])
  next
    case False
    have "remove_from_part_queue i (t_point t1) (remove_from_all_map i q2) =
        remove_from_part_queue i (t_point (timer_at q1 i)) (remove_from_all_map i (upd_timer i t_loop_once_count q1))"
      using q2(4) by (simp add: q2_def q1(3) t1_def)
    then show ?thesis using False tqueue_inv_drop [OF q1(1), of i t_loop_once_count] n q1(2) by (simp add: lt)
  qed
  show "t_calls (loop_timer i q) = t_calls q @ [(i, t_point (timer_at q i))]"
    by (simp add: lt q2_def q1(4))
  show "t_all (loop_timer i q) = (if t_need_next t1 then t_all q else t_all q - {i})"
    by (simp add: lt q2(2))
  show "timer_at (loop_timer i q) j = (if j = i then if t_need_next t1 then t_loop_once_time t1 else t1 else timer_at q j)"
    by (simp add: lt q2_def q1(3) t1_def)
qed

text \<open>The loop over the timers of one point, and the removal of all of them.\<close>

definition after_loop :: "timer_task \<Rightarrow> timer_task" where
  "after_loop t = (let t1 = t_loop_once_count t in if t_need_next t1 then t_loop_once_time t1 else t1)"

lemma loop_timers:
  "tqueue_inv q \<Longrightarrow> distinct is \<Longrightarrow> set is \<subseteq> t_all q \<Longrightarrow> (\<forall>i \<in> set is. t_point (timer_at q i) = tp) \<Longrightarrow>
   tqueue_inv (fold loop_timer is q) \<and>
   t_calls (fold loop_timer is q) = t_calls q @ map (\<lambda>i. (i, tp)) is \<and>
   t_all (fold loop_timer is q) = t_all q - {i \<in> set is. \<not> t_need_next (t_loop_once_count (timer_at q i))} \<and>
   (\<forall>j. timer_at (fold loop_timer is q) j = (if j \<in> set is then after_loop (timer_at q j) else timer_at q j))"
proof (induction "is" arbitrary: q)
  case (Cons i "is")
  let ?q = "loop_timer i q"
  have i: "i \<in> t_all q" using Cons.prems(3) by simp
  note L = loop_timer_cases [OF Cons.prems(1) i]
  have ta: "timer_at ?q j = timer_at q j" if "j \<in> set is" for j
    using that Cons.prems(2) by (auto simp: L(4))
  have "set is \<subseteq> t_all ?q" using Cons.prems(2,3) by (auto simp: L(3))
  moreover have "\<forall>j \<in> set is. t_point (timer_at ?q j) = tp" using Cons.prems(4) by (simp add: ta)
  ultimately have IH: "tqueue_inv (fold loop_timer is ?q)"
    "t_calls (fold loop_timer is ?q) = t_calls ?q @ map (\<lambda>i. (i, tp)) is"
    "t_all (fold loop_timer is ?q) = t_all ?q - {i \<in> set is. \<not> t_need_next (t_loop_once_count (timer_at ?q i))}"
    "\<And>j. timer_at (fold loop_timer is ?q) j = (if j \<in> set is then after_loop (timer_at ?q j) else timer_at ?q j)"
    using Cons.IH [OF L(1)] Cons.prems(2) by simp_all
  have "{j \<in> set is. \<not> t_need_next (t_loop_once_count (timer_at ?q j))} =
      {j \<in> set is. \<not> t_need_next (t_loop_once_count (timer_at q j))}"
    using ta by auto
  then have "t_all (fold loop_timer (i # is) q) =
      t_all q - {j \<in> set (i # is). \<not> t_need_next (t_loop_once_count (timer_at q j))}"
    using Cons.prems(2) by (auto simp: IH(3) L(3))
  moreover have "timer_at (fold loop_timer (i # is) q) j =
      (if j \<in> set (i # is) then after_loop (timer_at q j) else timer_at q j)" for j
    using Cons.prems(2) ta [of j] by (auto simp: IH(4) L(4) after_loop_def Let_def)
  ultimately show ?case using IH(1,2) L(2) Cons.prems(4) by simp
qed simp

lemma loop_point_spec:
  assumes i: "tqueue_inv q"
  shows "tqueue_inv (tqueue_loop_point tp q)"
    and "t_calls (tqueue_loop_point tp q) = t_calls q @ map (\<lambda>i. (i, tp)) (sorted_list_of_set (part_of q tp))"
    and "t_all (tqueue_loop_point tp q) =
      t_all q - {i \<in> part_of q tp. \<not> t_need_next (t_loop_once_count (timer_at q i))}"
    and "timer_at (tqueue_loop_point tp q) j =
      (if j \<in> part_of q tp then after_loop (timer_at q j) else timer_at q j)"
proof -
  note I = tqueue_invD [OF i]
  have fin: "finite (part_of q tp)" using I(1) by (simp add: part_of_def)
  have e: "tqueue_loop_point tp q = fold loop_timer (sorted_list_of_set (part_of q tp)) q"
    by (simp add: tqueue_loop_point_def I(4))
  note L = loop_timers [OF i, of "sorted_list_of_set (part_of q tp)" tp]
  have h: "set (sorted_list_of_set (part_of q tp)) \<subseteq> t_all q"
    "\<forall>i \<in> set (sorted_list_of_set (part_of q tp)). t_point (timer_at q i) = tp"
    using fin by (auto simp: part_of_def)
  show "tqueue_inv (tqueue_loop_point tp q)"
    "t_calls (tqueue_loop_point tp q) = t_calls q @ map (\<lambda>i. (i, tp)) (sorted_list_of_set (part_of q tp))"
    "t_all (tqueue_loop_point tp q) =
      t_all q - {i \<in> part_of q tp. \<not> t_need_next (t_loop_once_count (timer_at q i))}"
    "timer_at (tqueue_loop_point tp q) j =
      (if j \<in> part_of q tp then after_loop (timer_at q j) else timer_at q j)"
    unfolding e using L h fin by simp_all
qed

lemma drop_timer_fields [simp]:
  "t_all (drop_timer i q) = t_all q - {i}" "t_part (drop_timer i q) = t_part q"
  "j \<noteq> i \<Longrightarrow> timer_at (drop_timer i q) j = timer_at q j"
  "j \<noteq> i \<Longrightarrow> t_tasks (drop_timer i q) j = t_tasks q j"
  by (simp_all add: drop_timer_def) (simp add: upd_timer_def)

lemma drop_timers:
  "t_all (fold drop_timer is q) = t_all q - set is \<and> t_part (fold drop_timer is q) = t_part q \<and>
   (\<forall>j. j \<notin> set is \<longrightarrow> timer_at (fold drop_timer is q) j = timer_at q j \<and>
        t_tasks (fold drop_timer is q) j = t_tasks q j)"
proof (induction "is" arbitrary: q)
  case (Cons i "is")
  show ?case using Cons.IH [of "drop_timer i q"] by (simp add: set_diff_eq)
qed simp

lemma tqueue_clear_point_inv:
  assumes i: "tqueue_inv q"
  shows "tqueue_inv (snd (tqueue_clear_point tp q))"
    and "fst (tqueue_clear_point tp q) = part_of q tp"
    and "t_all (snd (tqueue_clear_point tp q)) = t_all q - part_of q tp"
    and "j \<notin> part_of q tp \<Longrightarrow> timer_at (snd (tqueue_clear_point tp q)) j = timer_at q j"
proof -
  note I = tqueue_invD [OF i]
  let ?is = "sorted_list_of_set (part_of q tp)"
  let ?f = "fold drop_timer ?is q"
  have fin: "finite (part_of q tp)" using I(1) by (simp add: part_of_def)
  note D = drop_timers [of ?is q]
  have main: "tqueue_inv (snd (tqueue_clear_point tp q)) \<and> fst (tqueue_clear_point tp q) = part_of q tp \<and>
    t_all (snd (tqueue_clear_point tp q)) = t_all q - part_of q tp \<and>
    (\<forall>j. j \<notin> part_of q tp \<longrightarrow> timer_at (snd (tqueue_clear_point tp q)) j = timer_at q j)"
  proof (cases "part_of q tp = {}")
    case True
    then show ?thesis using i by (simp add: tqueue_clear_point_def I(4))
  next
    case 2: False
    have e: "tqueue_clear_point tp q = (part_of q tp, ?f\<lparr>t_part := (t_part q)(tp := None)\<rparr>)"
      using 2 D by (simp add: tqueue_clear_point_def I(4) Let_def)
    define q1 where "q1 = ?f\<lparr>t_part := (t_part q)(tp := None)\<rparr>"
    have all: "t_all q1 = t_all q - part_of q tp" "t_part q1 = (t_part q)(tp := None)"
      using D fin by (simp_all add: q1_def)
    have ta: "timer_at q1 j = timer_at q j" "t_tasks q1 j = t_tasks q j" if "j \<notin> part_of q tp" for j
      using D fin that by (simp_all add: timer_at_def q1_def)
    have po: "part_of q1 u = (if u = tp then {} else part_of q u)" for u
    proof (rule set_eqI)
      fix j
      show "j \<in> part_of q1 u \<longleftrightarrow> j \<in> (if u = tp then {} else part_of q u)"
        using ta(1) [of j] by (cases "j \<in> part_of q tp") (auto simp: part_of_def all)
    qed
    have "tqueue_inv q1"
    proof (rule tqueue_invI)
      show "t_part q1 u = (if part_of q1 u = {} then None else Some (part_of q1 u))" for u
        unfolding po all using I(4) by simp
      show "j \<in> t_all q1 \<Longrightarrow> t_tasks q1 j \<noteq> None" for j
        using ta(2) I(3) unfolding all by auto
    qed (use I(1,2) in \<open>simp_all add: all\<close>)
    then show ?thesis using e all ta(1) unfolding q1_def [symmetric] by simp
  qed
  then show "tqueue_inv (snd (tqueue_clear_point tp q))" "fst (tqueue_clear_point tp q) = part_of q tp"
    "t_all (snd (tqueue_clear_point tp q)) = t_all q - part_of q tp"
    "j \<notin> part_of q tp \<Longrightarrow> timer_at (snd (tqueue_clear_point tp q)) j = timer_at q j"
    by blast+
qed

text \<open>A timer asked to loop n times needs a next turn as long as it has run fewer than n times.\<close>

lemma loop_count_exact:
  "0 < n \<Longrightarrow> k \<le> nat n \<Longrightarrow> t_loop_index ((after_loop ^^ k) (new_timer iv n i tp)) = int k \<and>
     t_loop_count ((after_loop ^^ k) (new_timer iv n i tp)) = n \<and>
     t_interval ((after_loop ^^ k) (new_timer iv n i tp)) = iv"
  by (induction k)
     (auto simp: new_timer_def after_loop_def t_loop_once_count_def t_need_next_def t_loop_once_time_def Let_def)

text \<open>The front is the earliest timer, and of the earliest ones the oldest.\<close>

lemma front_spec:
  assumes i: "tqueue_inv q" and ne: "t_all q \<noteq> {}"
  shows "tqueue_front q \<in> t_all q"
    "j \<in> t_all q \<Longrightarrow> t_point (timer_at q (tqueue_front q)) \<le> t_point (timer_at q j)"
    "j \<in> t_all q \<Longrightarrow> t_point (timer_at q j) = t_point (timer_at q (tqueue_front q)) \<Longrightarrow> tqueue_front q \<le> j"
proof -
  note I = tqueue_invD [OF i]
  have dom: "dom (t_part q) = (\<lambda>i. t_point (timer_at q i)) ` t_all q"
    by (auto simp: dom_def I(4) part_of_def)
  let ?m = "Min (dom (t_part q))"
  have fin: "finite (dom (t_part q))" using I(1) dom by simp
  have m: "?m \<in> dom (t_part q)" using fin ne dom by (intro Min_in) auto
  have fr: "tqueue_front q = Min (part_of q ?m)" using m by (auto simp: tqueue_front_def I(4) split: if_splits)
  have pf: "finite (part_of q ?m)" using I(1) by (simp add: part_of_def)
  have pne: "part_of q ?m \<noteq> {}" using m by (auto simp: I(4) split: if_splits)
  have "tqueue_front q \<in> part_of q ?m" unfolding fr using pf pne by (rule Min_in)
  then have f: "tqueue_front q \<in> t_all q" "t_point (timer_at q (tqueue_front q)) = ?m"
    by (auto simp: part_of_def)
  show "tqueue_front q \<in> t_all q" by (rule f(1))
  show "t_point (timer_at q (tqueue_front q)) \<le> t_point (timer_at q j)" if "j \<in> t_all q"
    unfolding f(2) using that fin dom by (intro Min_le) auto
  show "tqueue_front q \<le> j" if "j \<in> t_all q" "t_point (timer_at q j) = t_point (timer_at q (tqueue_front q))"
    unfolding fr using that f(2) pf by (intro Min_le) (auto simp: part_of_def)
qed

section \<open>Properties\<close>

text \<open>A time point is served right. On a queue whose two maps agree, loop_point_timer hands each timer
  of the point to the callback pool once, with that time point and in the order of the ids; timers
  of other points are untouched; a timer that has loops left is put one interval later, one that
  has none leaves the queue; and the two maps agree again.\<close>

theorem timer_loop_point:
  assumes "tqueue_inv q"
  shows "tqueue_inv (tqueue_loop_point tp q) \<and>
    t_calls (tqueue_loop_point tp q) = t_calls q @ map (\<lambda>i. (i, tp)) (sorted_list_of_set (part_of q tp)) \<and>
    (\<forall>j. j \<notin> part_of q tp \<longrightarrow> timer_at (tqueue_loop_point tp q) j = timer_at q j \<and>
          (j \<in> t_all (tqueue_loop_point tp q) \<longleftrightarrow> j \<in> t_all q)) \<and>
    (\<forall>i \<in> part_of q tp. if t_need_next (t_loop_once_count (timer_at q i))
       then i \<in> t_all (tqueue_loop_point tp q) \<and>
            t_point (timer_at (tqueue_loop_point tp q) i) = tp + milliseconds (t_interval (timer_at q i))
       else i \<notin> t_all (tqueue_loop_point tp q))"
proof -
  note L = loop_point_spec [OF assms, of tp]
  have "t_point (after_loop (timer_at q i)) = tp + milliseconds (t_interval (timer_at q i))"
    if "i \<in> part_of q tp" "t_need_next (t_loop_once_count (timer_at q i))" for i
    using that by (auto simp: after_loop_def Let_def part_of_def t_loop_once_time_def t_loop_once_count_def)
  then show ?thesis using L by (auto simp: part_of_def)
qed

definition sample_timers :: timer_queue where
  "sample_timers = snd (tqueue_insert 50 2 7 1000 (snd (tqueue_insert 0 1 3 1000 new_timer_queue)))"

theorem timer_loop_point_witness:
  "t_calls (tqueue_loop_point 1000 sample_timers) = [(3, 1000), (7, 1000)]"
proof -
  have "tqueue_inv new_timer_queue" by (auto simp: tqueue_inv_def new_timer_queue_def part_of_def)
  then have "tqueue_inv sample_timers" unfolding sample_timers_def by (intro tqueue_insert_inv)
  from timer_loop_point [OF this, of 1000]
  have "t_calls (tqueue_loop_point 1000 sample_timers) =
      t_calls sample_timers @ map (\<lambda>i. (i, 1000)) (sorted_list_of_set (part_of sample_timers 1000))"
    by blast
  moreover have "part_of sample_timers 1000 = {3, 7}" "t_calls sample_timers = []"
    by (auto simp: part_of_def sample_timers_def new_timer_queue_def tqueue_insert_def Let_def
        timer_at_def part_insert_def new_timer_def)
  moreover have "sorted_list_of_set {3, 7} = [3, 7::nat]"
    by (simp add: sorted_list_of_set_insert_remove)
  ultimately show ?thesis by simp
qed

text \<open>A timer inserted with a loop count n greater than zero runs n times and no more: after k of its
  turns it stays in the queue exactly if k is less than n, and each turn is one interval later.\<close>

theorem timer_runs_n_times:
  assumes "0 < n" "k < nat n"
  shows "(t_need_next (t_loop_once_count ((after_loop ^^ k) (new_timer iv n i tp))) \<longleftrightarrow> Suc k < nat n) \<and>
    t_point ((after_loop ^^ k) (new_timer iv n i tp)) = tp + int k * milliseconds iv"
proof
  note E = loop_count_exact [OF assms(1), where iv = iv and i = i and tp = tp]
  show "t_need_next (t_loop_once_count ((after_loop ^^ k) (new_timer iv n i tp))) \<longleftrightarrow> Suc k < nat n"
    using E [of k] assms by (auto simp: t_loop_once_count_def t_need_next_def)
  show "t_point ((after_loop ^^ k) (new_timer iv n i tp)) = tp + int k * milliseconds iv"
    using assms(2)
  proof (induction k)
    case (Suc k)
    let ?t = "(after_loop ^^ k) (new_timer iv n i tp)"
    have "t_need_next (t_loop_once_count ?t)"
      using E [of k] Suc.prems assms(1) by (auto simp: t_loop_once_count_def t_need_next_def)
    then have "t_point (after_loop ?t) = t_point ?t + milliseconds (t_interval ?t)"
      by (simp add: after_loop_def Let_def t_loop_once_time_def t_loop_once_count_def)
    then show ?case using E [of k] Suc by (simp add: algebra_simps)
  qed (simp add: new_timer_def)
qed

theorem timer_runs_n_times_witness:
  "\<not> t_need_next (t_loop_once_count ((after_loop ^^ 2) (new_timer 50 3 1 0)))"
  using timer_runs_n_times [of 3 2 50 1 0] by simp

end
