(* ===== verification/Timer_Manager.thy ===== *)
theory Timer_Manager
  imports Timer_Queue Atomic_Switch
begin

text \<open>
  TimerManager (timer_manager.hpp): the timer queue with one boost timer that waits for the front.
  The boost timer is given by its waits not yet handled, each with the timer and the time point it
  was started for and whether it has been cancelled; setting a new expiry or cancelling cancels all
  of them, as the library documents, and a cancelled wait still runs its handler, with an error.
\<close>

section \<open>The code\<close>

(* src: timer_manager.hpp 456-468 TimerManager *)
record timer_manager =
  tm_space :: u64
  tm_waits :: "(nat \<times> time \<times> bool) list"
  tm_cur :: "nat option"
  tm_switch :: switch
  tm_next :: nat
  tm_queue :: timer_queue

(* src: timer_manager.hpp 241-249 TimerManager::TimerManager *)
definition new_manager :: "u64 \<Rightarrow> timer_manager" where
  "new_manager space = \<lparr>tm_space = space, tm_waits = [], tm_cur = None, tm_switch = new_switch,
     tm_next = 0, tm_queue = new_timer_queue\<rparr>"

(* src: timer_manager.hpp 255-261 TimerManager::start *)
definition manager_start :: "timer_manager \<Rightarrow> timer_manager" where
  "manager_start m =
     (let (b1, w1) = as_init (tm_switch m);
          (b2, w2) = as_start w1
      in if b1 then m\<lparr>tm_switch := w2\<rparr> else m)"

definition cancel_waits :: "timer_manager \<Rightarrow> timer_manager" where
  "cancel_waits m = m\<lparr>tm_waits := map (\<lambda>(i, tp, _). (i, tp, True)) (tm_waits m)\<rparr>"

(* src: timer_manager.hpp 422-431 TimerManager::start *)
definition start_wait :: "nat \<Rightarrow> timer_manager \<Rightarrow> timer_manager" where
  "start_wait i m =
     (if \<not> has_started (tm_switch m) then m
      else
        let m1 = cancel_waits m
        in m1\<lparr>tm_waits := tm_waits m1 @ [(i, t_point (timer_at (tm_queue m1) i), False)]\<rparr>)"

text \<open>
  The rounding up to the time slice, in the 64-bit unsigned arithmetic the operands are converted
  to: the first number of slices that covers the milliseconds.
\<close>

(* src: timer_manager.hpp 335-341 TimerManager::insert *)
definition round_slice :: "u64 \<Rightarrow> u64 \<Rightarrow> u64" where
  "round_slice space c = (c + space - 1) div space * space"

text \<open>duration_cast truncates towards zero.\<close>

definition millis_of :: "time \<Rightarrow> int" where
  "millis_of tp = (if tp < 0 then - (- tp div 1000000) else tp div 1000000)"

(* src: timer_manager.hpp 334-341 TimerManager::insert *)
definition revise :: "u64 \<Rightarrow> time \<Rightarrow> u32 \<Rightarrow> time \<times> u32" where
  "revise space tp interval_ms =
     (if space > 1
      then (sint (round_slice space (word_of_int (millis_of tp))) * 1000000,
            ucast (round_slice space (ucast interval_ms)))
      else (tp, interval_ms))"

text \<open>
  insert gives the id of the timer, or the invalid id 0. Its test of the flag comes before it takes
  the lock of the queue; the definition is the whole call as one step, so it leaves out a stop by another thread
  between the two, after which the code puts the timer into the stopped manager all the same.
\<close>

(* src: timer_manager.hpp 329-358 TimerManager::insert *)
definition manager_insert :: "u32 \<Rightarrow> int \<Rightarrow> time \<Rightarrow> timer_manager \<Rightarrow> nat \<times> timer_manager" where
  "manager_insert interval_ms loop_count tp m =
     (if \<not> has_started (tm_switch m) then (0, m)
      else
        let (tp1, iv1) = revise (tm_space m) tp interval_ms;
            i = tm_next m + 1;
            (item, q) = tqueue_insert (unat iv1) loop_count i tp1 (tm_queue m);
            m1 = m\<lparr>tm_next := i, tm_queue := q\<rparr>
        in (case item of
              None \<Rightarrow> (0, m1)
            | Some p \<Rightarrow>
                (p, if tm_cur m1 = None then start_wait p (m1\<lparr>tm_cur := Some p\<rparr>)
                    else if tm_cur m1 \<noteq> Some (tqueue_front (tm_queue m1)) then cancel_waits m1
                    else m1)))"

(* src: timer_manager.hpp 398-403 TimerManager::erase *)
definition manager_erase :: "nat \<Rightarrow> timer_manager \<Rightarrow> timer_manager" where
  "manager_erase i m =
     (let (e, q) = tqueue_erase i (tm_queue m);
          m1 = m\<lparr>tm_queue := q\<rparr>
      in if e \<noteq> None \<and> e = tm_cur m1 then cancel_waits m1 else m1)"

(* src: timer_manager.hpp 405-411 TimerManager::clear *)
definition manager_clear :: "timer_manager \<Rightarrow> timer_manager" where
  "manager_clear m = (cancel_waits (m\<lparr>tm_queue := tqueue_clear (tm_queue m)\<rparr>))\<lparr>tm_cur := None\<rparr>"

(* src: timer_manager.hpp 414-419 TimerManager::clear_point_timer *)
definition manager_clear_point :: "time \<Rightarrow> timer_manager \<Rightarrow> timer_manager" where
  "manager_clear_point tp m =
     (let (S, q) = tqueue_clear_point tp (tm_queue m);
          m1 = m\<lparr>tm_queue := q\<rparr>
      in if (case tm_cur m1 of None \<Rightarrow> False | Some i \<Rightarrow> i \<in> S) then cancel_waits m1 else m1)"

datatype wait_error = NoError | Aborted | OtherError

(* src: timer_manager.hpp 433-450 TimerManager::handler *)
definition handler :: "wait_error \<Rightarrow> nat \<Rightarrow> time \<Rightarrow> timer_manager \<Rightarrow> timer_manager" where
  "handler error i tp m =
     (let m1 = m\<lparr>tm_cur := None\<rparr>;
          m2 = (if error = NoError then m1\<lparr>tm_queue := tqueue_loop_point tp (tm_queue m1)\<rparr>
                else if error \<noteq> Aborted then m1\<lparr>tm_queue := snd (tqueue_erase i (tm_queue m1))\<rparr>
                else m1)
      in if \<not> tqueue_empty (tm_queue m2)
         then let f = tqueue_front (tm_queue m2) in start_wait f (m2\<lparr>tm_cur := Some f\<rparr>)
         else m2)"

(* src: timer_manager.hpp 452-454 TimerManager::get_next_timer_id *)
definition get_next_timer_id :: "timer_manager \<Rightarrow> nat \<times> timer_manager" where
  "get_next_timer_id m = (tm_next m + 1, m\<lparr>tm_next := tm_next m + 1\<rparr>)"

(* src: timer_manager.hpp 387-390 TimerManager::size *)
definition manager_size :: "timer_manager \<Rightarrow> nat" where
  "manager_size m = tqueue_size (tm_queue m)"

(* src: timer_manager.hpp 263-271 TimerManager::stop *)
definition manager_stop :: "timer_manager \<Rightarrow> timer_manager" where
  "manager_stop m =
     (let (b, w) = as_stop (tm_switch m)
      in if \<not> b then m else (manager_clear (m\<lparr>tm_switch := w\<rparr>))\<lparr>tm_waits := [], tm_switch := new_switch\<rparr>)"

section \<open>Rounding to the slice\<close>

lemma ceil_bounds:
  fixes c s :: nat
  assumes "0 < s"
  shows "c \<le> (c + s - 1) div s * s" "(c + s - 1) div s * s \<le> c + s - 1"
proof -
  have "c + s - 1 = (c + s - 1) div s * s + (c + s - 1) mod s" by simp
  moreover have "(c + s - 1) mod s < s" using assms by simp
  ultimately show "c \<le> (c + s - 1) div s * s" "(c + s - 1) div s * s \<le> c + s - 1" by linarith+
qed

lemma ceil_least:
  fixes c s k :: nat
  assumes "0 < s" "c \<le> k * s"
  shows "(c + s - 1) div s * s \<le> k * s"
proof -
  have "c + s - 1 \<le> k * s + (s - 1)" using assms by linarith
  then have "(c + s - 1) div s \<le> (k * s + (s - 1)) div s" by (rule div_le_mono)
  also have "(k * s + (s - 1)) div s = k"
    using div_mult_self1 [of s "s - 1" k] assms(1) by (simp add: add.commute)
  finally show ?thesis by simp
qed

lemma unat_round_slice:
  assumes "0 < unat space" "unat c + unat space - 1 < 2 ^ 64"
  shows "unat (round_slice space c) = (unat c + unat space - 1) div unat space * unat space"
proof -
  let ?n = "unat c + unat space - 1"
  have e: "c + space - 1 = word_of_nat ?n"
    using assms(1) by (simp add: of_nat_diff)
  have u: "unat (c + space - 1) = ?n"
    unfolding e using assms(2) by (simp add: unat_of_nat take_bit_nat_eq_self)
  have le: "?n div unat space * unat space < 2 ^ 64"
    using ceil_bounds(2) [OF assms(1), of "unat c"] assms(2) by linarith
  have "unat ((c + space - 1) div space) = ?n div unat space" by (simp add: unat_div u)
  then show ?thesis
    unfolding round_slice_def unat_word_ariths using le by simp
qed


section \<open>The manager's steps\<close>

text \<open>
  The calls of the clients, clear apart, and the handlers: the handler of a wait that was not
  cancelled runs when it expires, or with another error; that of a cancelled wait runs with the
  abort error, or with none if it had expired before it was cancelled.
\<close>

definition drop_wait :: "nat \<Rightarrow> timer_manager \<Rightarrow> timer_manager" where
  "drop_wait k m = m\<lparr>tm_waits := take k (tm_waits m) @ drop (Suc k) (tm_waits m)\<rparr>"

inductive tm_step :: "timer_manager \<Rightarrow> timer_manager \<Rightarrow> bool" where
  start: "tm_step m (manager_start m)"
| stop: "tm_step m (manager_stop m)"
| insert: "tm_step m (snd (manager_insert interval_ms loop_count tp m))"
| erase: "tm_step m (manager_erase i m)"
| clear_point: "tm_step m (manager_clear_point tp m)"
| handle: "k < length (tm_waits m) \<Longrightarrow> tm_waits m ! k = (i, tp, b) \<Longrightarrow>
    error \<in> (if b then {NoError, Aborted} else {NoError, OtherError}) \<Longrightarrow>
    tm_step m (handler error i tp (drop_wait k m))"

definition armed :: "timer_manager \<Rightarrow> bool" where
  "armed m \<longleftrightarrow> t_all (tm_queue m) \<noteq> {} \<and> tm_cur m = Some (tqueue_front (tm_queue m)) \<and>
     tm_waits m = [(tqueue_front (tm_queue m),
       t_point (timer_at (tm_queue m) (tqueue_front (tm_queue m))), False)]"

definition being_cancelled :: "timer_manager \<Rightarrow> bool" where
  "being_cancelled m \<longleftrightarrow> (\<exists>i tp. tm_cur m = Some i \<and> tm_waits m = [(i, tp, True)])"

definition idle_manager :: "timer_manager \<Rightarrow> bool" where
  "idle_manager m \<longleftrightarrow> tm_cur m = None \<and> tm_waits m = [] \<and> t_all (tm_queue m) = {}"

definition tm_inv :: "timer_manager \<Rightarrow> bool" where
  "tm_inv m \<longleftrightarrow> tqueue_inv (tm_queue m) \<and> (\<forall>i \<in> t_all (tm_queue m). i \<le> tm_next m) \<and>
     (idle_manager m \<or> has_started (tm_switch m) \<and> (armed m \<or> being_cancelled m))"

lemma tm_invD:
  assumes "tm_inv m"
  shows "tqueue_inv (tm_queue m)" "\<And>i. i \<in> t_all (tm_queue m) \<Longrightarrow> i \<le> tm_next m"
    "idle_manager m \<or> has_started (tm_switch m) \<and> (armed m \<or> being_cancelled m)"
  using assms unfolding tm_inv_def by auto

lemma cancel_waits_fields [simp]:
  "tm_space (cancel_waits m) = tm_space m" "tm_cur (cancel_waits m) = tm_cur m"
  "tm_switch (cancel_waits m) = tm_switch m" "tm_next (cancel_waits m) = tm_next m"
  "tm_queue (cancel_waits m) = tm_queue m"
  "tm_waits (cancel_waits m) = map (\<lambda>(i, tp, _). (i, tp, True)) (tm_waits m)"
  by (simp_all add: cancel_waits_def)

lemma front_unique:
  assumes "tqueue_inv q" "c \<in> t_all q"
    "\<And>j. j \<in> t_all q \<Longrightarrow> t_point (timer_at q c) < t_point (timer_at q j) \<or>
        t_point (timer_at q c) = t_point (timer_at q j) \<and> c \<le> j"
  shows "tqueue_front q = c"
proof -
  have ne: "t_all q \<noteq> {}" using assms(2) by auto
  note F = front_spec [OF assms(1) ne]
  show ?thesis using F(1) F(2,3) [OF assms(2)] assms(3) [OF F(1)] by force
qed

text \<open>Taking other timers out of the queue leaves the front where it is.\<close>

lemma front_subset:
  assumes "tqueue_inv q" "tqueue_inv q'" "tqueue_front q \<in> t_all q'" "t_all q' \<subseteq> t_all q"
    "\<And>j. j \<in> t_all q' \<Longrightarrow> timer_at q' j = timer_at q j"
  shows "tqueue_front q' = tqueue_front q"
proof (rule front_unique [OF assms(2,3)])
  fix j assume j: "j \<in> t_all q'"
  then have jq: "j \<in> t_all q" and ne: "t_all q \<noteq> {}" using assms(4) by auto
  show "t_point (timer_at q' (tqueue_front q)) < t_point (timer_at q' j) \<or>
      t_point (timer_at q' (tqueue_front q)) = t_point (timer_at q' j) \<and> tqueue_front q \<le> j"
    using front_spec(2,3) [OF assms(1) ne jq] assms(5) [OF j] assms(5) [OF assms(3)]
    by force
qed

lemma tqueue_erase_spec:
  assumes "tqueue_inv q"
  shows "fst (tqueue_erase i q) = (if i \<in> t_all q then Some i else None)"
    "t_all (snd (tqueue_erase i q)) = t_all q - {i}"
    "j \<noteq> i \<Longrightarrow> timer_at (snd (tqueue_erase i q)) j = timer_at q j"
  by (auto simp: tqueue_erase_def Let_def)

text \<open>Timers are taken out, and the waits are cancelled if the waited-for timer is one of them.\<close>

lemma inv_shrink:
  assumes i: "tm_inv m" and q: "tqueue_inv q" "t_all q = t_all (tm_queue m) - S"
    and ta: "\<And>j. j \<in> t_all q \<Longrightarrow> timer_at q j = timer_at (tm_queue m) j"
    and c: "c \<longleftrightarrow> (\<exists>i. tm_cur m = Some i \<and> i \<in> S \<inter> t_all (tm_queue m))"
  shows "tm_inv (if c then cancel_waits (m\<lparr>tm_queue := q\<rparr>) else m\<lparr>tm_queue := q\<rparr>)"
proof -
  note I = tm_invD [OF i]
  have le: "\<forall>j \<in> t_all q. j \<le> tm_next m" using q(2) I(2) by auto
  consider (idle) "idle_manager m" | (armed) "has_started (tm_switch m)" "armed m"
    | (canc) "has_started (tm_switch m)" "being_cancelled m" using I(3) by blast
  then show ?thesis
  proof cases
    case idle
    then show ?thesis using q le c by (auto simp: tm_inv_def idle_manager_def)
  next
    case canc
    then show ?thesis using q le by (auto simp: tm_inv_def being_cancelled_def)
  next
    case armed
    show ?thesis
    proof (cases c)
      case True
      then show ?thesis using armed q le by (auto simp: tm_inv_def armed_def being_cancelled_def)
    next
      case False
      let ?f = "tqueue_front (tm_queue m)"
      have "?f \<in> t_all (tm_queue m)" using armed(2) front_spec(1) [OF I(1)] by (simp add: armed_def)
      then have fq: "?f \<in> t_all q" using False armed(2) by (auto simp: c armed_def q(2))
      have "tqueue_front q = ?f"
        by (rule front_subset [OF I(1) q(1) fq]) (use q(2) ta in auto)
      then have "armed (m\<lparr>tm_queue := q\<rparr>)" using armed(2) fq ta [OF fq] by (auto simp: armed_def)
      then show ?thesis using False armed(1) q le by (simp add: tm_inv_def)
    qed
  qed
qed

lemma erase_inv:
  assumes i: "tm_inv m"
  shows "tm_inv (manager_erase i m)"
proof -
  note I = tm_invD [OF i] and E = tqueue_erase_spec [OF tm_invD(1) [OF i], where i = i]
  have "manager_erase i m = (if i \<in> t_all (tm_queue m) \<and> tm_cur m = Some i
      then cancel_waits (m\<lparr>tm_queue := snd (tqueue_erase i (tm_queue m))\<rparr>)
      else m\<lparr>tm_queue := snd (tqueue_erase i (tm_queue m))\<rparr>)"
    using E(1) by (auto simp: manager_erase_def split_beta Let_def)
  also have "tm_inv \<dots>"
    by (rule inv_shrink [OF i tqueue_erase_inv [OF I(1)] E(2)]) (auto simp: E)
  finally show ?thesis .
qed

lemma clear_point_inv:
  assumes i: "tm_inv m"
  shows "tm_inv (manager_clear_point tp m)"
proof -
  note I = tm_invD [OF i] and C = tqueue_clear_point_inv [OF tm_invD(1) [OF i], where tp = tp]
  let ?c = "case tm_cur m of None \<Rightarrow> False | Some i \<Rightarrow> i \<in> part_of (tm_queue m) tp"
  have "manager_clear_point tp m = (if ?c
      then cancel_waits (m\<lparr>tm_queue := snd (tqueue_clear_point tp (tm_queue m))\<rparr>)
      else m\<lparr>tm_queue := snd (tqueue_clear_point tp (tm_queue m))\<rparr>)"
    unfolding manager_clear_point_def Let_def split_beta C(2) by simp
  also have "tm_inv \<dots>"
  proof (rule inv_shrink [OF i C(1) C(3)])
    show "timer_at (snd (tqueue_clear_point tp (tm_queue m))) j = timer_at (tm_queue m) j"
      if "j \<in> t_all (snd (tqueue_clear_point tp (tm_queue m)))" for j
      using that C(3) by (intro C(4)) auto
    show "?c \<longleftrightarrow> (\<exists>i. tm_cur m = Some i \<and> i \<in> part_of (tm_queue m) tp \<inter> t_all (tm_queue m))"
      by (auto simp: part_of_def split: option.splits)
  qed
  finally show ?thesis .
qed

lemma start_wait_fields [simp]:
  "tm_space (start_wait i m) = tm_space m" "tm_cur (start_wait i m) = tm_cur m"
  "tm_switch (start_wait i m) = tm_switch m" "tm_next (start_wait i m) = tm_next m"
  "tm_queue (start_wait i m) = tm_queue m"
  by (simp_all add: start_wait_def Let_def)

lemma start_wait_waits [simp]:
  "has_started (tm_switch m) \<Longrightarrow> tm_waits (start_wait i m) =
     map (\<lambda>(i, tp, _). (i, tp, True)) (tm_waits m) @ [(i, t_point (timer_at (tm_queue m) i), False)]"
  by (simp add: start_wait_def Let_def)

lemma insert_inv:
  assumes i: "tm_inv m"
  shows "tm_inv (snd (manager_insert iv lc tp m))"
proof (cases "has_started (tm_switch m)")
  case False
  then show ?thesis using i by (simp add: manager_insert_def)
next
  case True
  note I = tm_invD [OF i]
  obtain tp1 iv1 where r: "revise (tm_space m) tp iv = (tp1, iv1)" by fastforce
  let ?i = "tm_next m + 1"
  have new: "?i \<notin> t_all (tm_queue m)" using I(2) by fastforce
  define q where "q = snd (tqueue_insert (unat iv1) lc ?i tp1 (tm_queue m))"
  have ins: "tqueue_insert (unat iv1) lc ?i tp1 (tm_queue m) = (Some ?i, q)"
    "t_all q = insert ?i (t_all (tm_queue m))" "\<And>j. j \<noteq> ?i \<Longrightarrow> timer_at q j = timer_at (tm_queue m) j"
    using new by (simp_all add: q_def tqueue_insert_def Let_def timer_at_def)
  have qi: "tqueue_inv q" unfolding q_def by (rule tqueue_insert_inv [OF I(1)])
  define m1 where "m1 = m\<lparr>tm_next := ?i, tm_queue := q\<rparr>"
  have m1: "tm_next m1 = ?i" "tm_queue m1 = q" "tm_cur m1 = tm_cur m" "tm_switch m1 = tm_switch m"
    "tm_waits m1 = tm_waits m" by (simp_all add: m1_def)
  have e: "snd (manager_insert iv lc tp m) =
      (if tm_cur m = None then start_wait ?i (m1\<lparr>tm_cur := Some ?i\<rparr>)
       else if tm_cur m \<noteq> Some (tqueue_front q) then cancel_waits m1 else m1)"
    using True ins(1) unfolding manager_insert_def m1_def by (simp add: r Let_def)
  have le: "\<forall>j \<in> t_all q. j \<le> ?i" using I(2) ins(2) by fastforce
  show ?thesis
  proof (cases "tm_cur m")
    case None
    then have "idle_manager m" using I(3) by (auto simp: armed_def being_cancelled_def)
    then have "t_all q = {?i}" "tm_waits m = []" using ins(2) by (auto simp: idle_manager_def)
    moreover from this(1) have "tqueue_front q = ?i" using front_spec(1) [OF qi] by simp
    ultimately show ?thesis using None True qi m1 le by (simp add: e tm_inv_def armed_def)
  next
    case (Some c)
    have ab: "armed m \<or> being_cancelled m" using I(3) Some by (auto simp: idle_manager_def)
    show ?thesis
    proof (cases "c = tqueue_front q")
      case False
      then have "being_cancelled (cancel_waits m1)"
        using ab Some m1 by (auto simp: armed_def being_cancelled_def)
      then show ?thesis using False Some True qi m1 le by (simp add: e tm_inv_def)
    next
      case c: True
      have "armed m1 \<or> being_cancelled m1"
      proof (cases "being_cancelled m")
        case True
        then show ?thesis using m1 by (auto simp: being_cancelled_def)
      next
        case False
        then have a: "armed m" using ab by blast
        then have "c = tqueue_front (tm_queue m)" "t_all (tm_queue m) \<noteq> {}" using Some by (auto simp: armed_def)
        then have "c \<noteq> ?i" using front_spec(1) [OF I(1)] new by metis
        then show ?thesis using a Some c m1 ins(2,3) by (auto simp: armed_def)
      qed
      then show ?thesis using c Some True qi m1 le by (simp add: e tm_inv_def)
    qed
  qed
qed

lemma handler_inv:
  assumes i: "tm_inv m" and w: "k < length (tm_waits m)" "tm_waits m ! k = (j, tp, b)"
  shows "tm_inv (handler error j tp (drop_wait k m))"
    "t_all (tm_queue (handler error j tp (drop_wait k m))) \<noteq> {} \<Longrightarrow> armed (handler error j tp (drop_wait k m))"
proof -
  note I = tm_invD [OF i]
  have one: "has_started (tm_switch m)" "length (tm_waits m) = 1"
    using I(3) w by (auto simp: idle_manager_def armed_def being_cancelled_def)
  then have wk: "tm_waits (drop_wait k m) = []" using w(1) by (simp add: drop_wait_def)
  define q where "q = (if error = NoError then tqueue_loop_point tp (tm_queue m)
     else if error \<noteq> Aborted then snd (tqueue_erase j (tm_queue m)) else tm_queue m)"
  have q: "tqueue_inv q" "t_all q \<subseteq> t_all (tm_queue m)"
    using loop_point_spec [OF I(1), of tp] tqueue_erase_spec(2) [OF I(1), of j]
      tqueue_erase_inv [OF I(1), of j] I(1) by (auto simp: q_def)
  define m2 where "m2 = (drop_wait k m)\<lparr>tm_cur := None, tm_queue := q\<rparr>"
  have m2: "tm_waits m2 = []" "tm_queue m2 = q" "tm_cur m2 = None" "tm_switch m2 = tm_switch m"
    "tm_next m2 = tm_next m"
    using wk by (simp_all add: m2_def drop_wait_def)
  have e: "handler error j tp (drop_wait k m) =
      (if t_all q \<noteq> {} then start_wait (tqueue_front q) (m2\<lparr>tm_cur := Some (tqueue_front q)\<rparr>) else m2)"
    unfolding handler_def Let_def m2_def q_def tqueue_empty_def by (simp add: drop_wait_def)
  have ne: "armed (handler error j tp (drop_wait k m))" if "t_all q \<noteq> {}"
    using that m2 one(1) by (simp add: e armed_def)
  show "tm_inv (handler error j tp (drop_wait k m))"
  proof (cases "t_all q = {}")
    case True
    then show ?thesis using m2 q by (simp add: e tm_inv_def idle_manager_def)
  next
    case False
    have "\<forall>i \<in> t_all q. i \<le> tm_next m" using I(2) q(2) by auto
    then show ?thesis using ne [OF False] False m2 one(1) q(1) by (simp add: tm_inv_def e)
  qed
  show "t_all (tm_queue (handler error j tp (drop_wait k m))) \<noteq> {} \<Longrightarrow>
      armed (handler error j tp (drop_wait k m))"
    using ne m2 by (auto simp: e split: if_splits)
qed

lemma start_inv: "tm_inv m \<Longrightarrow> tm_inv (manager_start m)"
  by (auto simp: manager_start_def switch_defs tm_inv_def idle_manager_def armed_def
      being_cancelled_def Let_def split: if_splits)

lemma stop_inv:
  assumes "tm_inv m"
  shows "tm_inv (manager_stop m)"
proof (cases "fst (as_stop (tm_switch m))")
  case True
  have "t_all (tqueue_clear (tm_queue m)) = {}" by (simp add: tqueue_clear_def)
  then have "idle_manager (manager_stop m)" "tqueue_inv (tm_queue (manager_stop m))"
    "t_all (tm_queue (manager_stop m)) = {}"
    using True tqueue_clear_inv [of "tm_queue m"]
    by (simp_all add: manager_stop_def manager_clear_def split_beta Let_def idle_manager_def)
  then show ?thesis by (simp add: tm_inv_def)
next
  case False
  then show ?thesis using assms by (simp add: manager_stop_def split_beta Let_def)
qed

lemma tm_step_inv: "tm_step m m' \<Longrightarrow> tm_inv m \<Longrightarrow> tm_inv m'"
  by (induction rule: tm_step.induct) (simp_all add: start_inv stop_inv insert_inv erase_inv clear_point_inv handler_inv(1))

lemma reach_inv: "tm_step\<^sup>*\<^sup>* (new_manager space) m \<Longrightarrow> tm_inv m"
proof (induction rule: rtranclp_induct)
  case base
  have "tqueue_inv new_timer_queue" by (auto simp: tqueue_inv_def new_timer_queue_def part_of_def)
  then show ?case by (simp add: tm_inv_def new_manager_def idle_manager_def new_timer_queue_def)
qed (rule tm_step_inv)

section \<open>clear, and then an insert\<close>

text \<open>The handler of the first wait outstanding, run with the abort error.\<close>

definition abort_first :: "timer_manager \<Rightarrow> timer_manager" where
  "abort_first m =
     (case tm_waits m of [] \<Rightarrow> m | (i, tp, _) # _ \<Rightarrow> handler Aborted i tp (drop_wait 0 m))"

lemma abort_first_two:
  assumes "has_started (tm_switch m)" "t_all (tm_queue m) \<noteq> {}"
    and "tm_waits m = [(i, tp, True), (f, t_point (timer_at (tm_queue m) f), False)]"
    and f: "f = tqueue_front (tm_queue m)"
  shows "tm_waits (abort_first m) = [(f, t_point (timer_at (tm_queue m) f), True),
           (f, t_point (timer_at (tm_queue m) f), False)]"
    "tm_queue (abort_first m) = tm_queue m" "tm_switch (abort_first m) = tm_switch m"
  using assms by (simp_all add: abort_first_def handler_def drop_wait_def Let_def tqueue_empty_def)

lemma abort_spin:
  assumes "has_started (tm_switch m)" "t_all (tm_queue m) \<noteq> {}"
    and "tm_waits m = [(i, tp, True), (f, t_point (timer_at (tm_queue m) f), False)]"
    and f: "f = tqueue_front (tm_queue m)"
  shows "(\<exists>j u. tm_waits ((abort_first ^^ n) m) = [(j, u, True), (f, t_point (timer_at (tm_queue m) f), False)]) \<and>
    tm_queue ((abort_first ^^ n) m) = tm_queue m \<and> tm_switch ((abort_first ^^ n) m) = tm_switch m"
proof (induction n)
  case (Suc n)
  then obtain j u where "tm_waits ((abort_first ^^ n) m) = [(j, u, True), (f, t_point (timer_at (tm_queue m) f), False)]"
    and q: "tm_queue ((abort_first ^^ n) m) = tm_queue m" "tm_switch ((abort_first ^^ n) m) = tm_switch m"
    by blast
  with abort_first_two [of "(abort_first ^^ n) m" j u f] assms show ?case by simp
qed (use assms in simp)

section \<open>Properties\<close>

text \<open>C5: The timer manager always waits for its earliest timer. Whatever the calls of start, stop,
  insert, erase and clear_point_timer and the order of the handlers, at most one wait is
  outstanding; and while there are timers the manager has started and either the wait that is
  outstanding is for the front of the queue, at its time point, or it has been cancelled and its
  handler, whatever its error, starts that wait.\<close>

theorem timer_manager_armed:
  assumes "tm_step\<^sup>*\<^sup>* (new_manager space) m"
  shows "length (tm_waits m) \<le> 1 \<and>
    (t_all (tm_queue m) \<noteq> {} \<longrightarrow> has_started (tm_switch m) \<and>
      (armed m \<or> (\<exists>i tp. tm_waits m = [(i, tp, True)] \<and>
         (\<forall>error. let m' = handler error i tp (drop_wait 0 m)
            in t_all (tm_queue m') \<noteq> {} \<longrightarrow> armed m'))))"
proof -
  have inv: "tm_inv m" by (rule reach_inv [OF assms])
  note I = tm_invD [OF inv]
  have "armed (handler error i tp (drop_wait 0 m))"
    if "tm_waits m = [(i, tp, b)]" "t_all (tm_queue (handler error i tp (drop_wait 0 m))) \<noteq> {}" for error i tp b
    by (rule handler_inv(2) [OF inv]) (use that in auto)
  then show ?thesis using I(3) unfolding Let_def
    by (auto simp: idle_manager_def being_cancelled_def) (auto simp: armed_def)
qed

definition sample_manager :: timer_manager where
  "sample_manager = manager_start (new_manager 1)"

lemma sample_reach: "tm_step\<^sup>*\<^sup>* (new_manager 1) (snd (manager_insert 50 2 1000 sample_manager))"
proof -
  have "tm_step (new_manager 1) sample_manager" unfolding sample_manager_def by (rule tm_step.start)
  moreover have "tm_step sample_manager (snd (manager_insert 50 2 1000 sample_manager))" by (rule tm_step.insert)
  ultimately show ?thesis by (meson rtranclp.rtrancl_into_rtrancl rtranclp.rtrancl_refl)
qed

theorem timer_manager_armed_witness:
  "length (tm_waits (snd (manager_insert 50 2 1000 sample_manager))) \<le> 1"
proof -
  from timer_manager_armed [OF sample_reach] show ?thesis by blast
qed

text \<open>After clear the manager may spin. When a timer is waited for, clear cancels its wait and an
  insert starts a second one; the handler of the cancelled wait starts the wait for the front
  again, which cancels the second one, so that however many handlers of cancelled waits run, there
  is one more, no timer has been called and the queue is as it was.\<close>

theorem timer_clear_spins:
  assumes "tm_step\<^sup>*\<^sup>* (new_manager space) m" "t_all (tm_queue m) \<noteq> {}"
    and "m0 = snd (manager_insert interval_ms loop_count tp (manager_clear m))"
    and "m' = (abort_first ^^ n) m0"
  shows "length (tm_waits m') = 2 \<and> (\<exists>i u. hd (tm_waits m') = (i, u, True)) \<and>
    tm_queue m' = tm_queue m0 \<and> t_calls (tm_queue m0) = t_calls (tm_queue m)"
proof -
  have inv: "tm_inv m" by (rule reach_inv [OF assms(1)])
  note I = tm_invD [OF inv]
  have s: "has_started (tm_switch m)" "armed m \<or> being_cancelled m"
    using I(3) assms(2) by (auto simp: idle_manager_def)
  then obtain i u b where w: "tm_waits m = [(i, u, b)]" by (auto simp: armed_def being_cancelled_def)
  define mc where "mc = manager_clear m"
  have mc: "tm_waits mc = [(i, u, True)]" "tm_queue mc = tqueue_clear (tm_queue m)" "tm_cur mc = None"
    "tm_switch mc = tm_switch m"
    using w by (simp_all add: mc_def manager_clear_def)
  obtain tp1 iv1 where r: "revise (tm_space mc) tp interval_ms = (tp1, iv1)" by fastforce
  let ?j = "tm_next mc + 1"
  define q where "q = snd (tqueue_insert (unat iv1) loop_count ?j tp1 (tm_queue mc))"
  have q: "tqueue_insert (unat iv1) loop_count ?j tp1 (tm_queue mc) = (Some ?j, q)" "t_all q = {?j}"
    "t_calls q = t_calls (tm_queue m)"
    by (simp_all add: q_def mc tqueue_insert_def tqueue_clear_def Let_def)
  have qi: "tqueue_inv q" unfolding q_def mc(2) by (rule tqueue_insert_inv [OF tqueue_clear_inv])
  have fr: "tqueue_front q = ?j" using front_spec(1) [OF qi] q(2) by simp
  have m0: "tm_queue m0 = q" "tm_switch m0 = tm_switch m"
    "tm_waits m0 = [(i, u, True), (?j, t_point (timer_at q ?j), False)]"
    using s(1) mc q(1) r unfolding assms(3) mc_def [symmetric] manager_insert_def by (simp_all add: Let_def)
  have "(\<exists>j u. tm_waits m' = [(j, u, True), (?j, t_point (timer_at (tm_queue m0) ?j), False)]) \<and>
    tm_queue m' = tm_queue m0"
    using abort_spin [of m0 i u ?j n] m0 q(2) fr s(1) unfolding assms(4) by simp
  then show ?thesis using m0(1) q(3) by auto
qed

theorem timer_clear_spins_witness:
  "length (tm_waits ((abort_first ^^ 100) (snd (manager_insert 0 1 2000 (manager_clear
     (snd (manager_insert 50 2 1000 sample_manager))))))) = 2"
proof -
  have "t_all (tm_queue (snd (manager_insert 50 2 1000 sample_manager))) \<noteq> {}"
    by (simp add: sample_manager_def manager_start_def new_manager_def switch_defs manager_insert_def
        revise_def tqueue_insert_def new_timer_queue_def Let_def)
  then show ?thesis using timer_clear_spins [OF sample_reach _ refl refl] by blast
qed

text \<open>The rounding of insert. Where the sum does not wrap, a time of c milliseconds is rounded up,
  not down, to the least multiple of the slice that is not before it; in particular a time on the
  slice stays where it is.\<close>

theorem round_slice_up:
  assumes "0 < unat space" "unat c + unat space - 1 < 2 ^ 64"
  shows "unat (round_slice space c) mod unat space = 0 \<and> unat c \<le> unat (round_slice space c) \<and>
    unat (round_slice space c) < unat c + unat space \<and>
    (\<forall>k. unat c \<le> k * unat space \<longrightarrow> unat (round_slice space c) \<le> k * unat space)"
proof -
  have "(unat c + unat space - 1) div unat space * unat space < unat c + unat space"
    using ceil_bounds(2) [OF assms(1), of "unat c"] assms(1) by linarith
  then show ?thesis
    unfolding unat_round_slice [OF assms]
    using ceil_bounds(1) [OF assms(1), of "unat c"] ceil_least [OF assms(1), of "unat c"] by simp
qed

theorem round_slice_up_witness:
  "unat (round_slice 50 80) mod 50 = 0 \<and> 80 \<le> unat (round_slice 50 80) \<and> unat (round_slice 50 80) < 130"
  using round_slice_up [of 50 80] by simp

end
