(* ===== verification/Scroll_Window.thy ===== *)
theory Scroll_Window
  imports Prelude
begin

text \<open>
  The scrolling windows of scroll_window.hpp: ScrollWindowArray, a fixed array written round and
  round, with its iterator, and ScrollWindowVector, a vector whose oldest entries are erased. Both
  promise the most recent entries; the locale states the promise. Indices are 64 bits wide, with the
  wrap-around of the sums written out; an access outside the array is undefined, the value None.
\<close>

section \<open>ScrollWindowArray\<close>

definition wrap64 :: "nat \<Rightarrow> nat" where
  "wrap64 n = n mod 2 ^ 64"

lemma wrap64_less [simp]: "n < 2 ^ 64 \<Longrightarrow> wrap64 n = n"
  by (simp add: wrap64_def)

text \<open>FIX_LENGTH is the length of the array.\<close>

(* src: scroll_window.hpp 212-219 ScrollWindowArray *)
record 'a swa =
  swa_datas :: "'a list"
  swa_index :: nat
  swa_length :: nat

definition fix_length :: "'a swa \<Rightarrow> nat" where
  "fix_length w = length (swa_datas w)"

text \<open>The constructor leaves the array as it finds the memory.\<close>

(* src: scroll_window.hpp 82-82 ScrollWindowArray::ScrollWindowArray *)
definition new_swa :: "'a list \<Rightarrow> 'a swa" where
  "new_swa memory = \<lparr>swa_datas = memory, swa_index = 2 ^ 64 - 1, swa_length = 0\<rparr>"

(* src: scroll_window.hpp 128-138 ScrollWindowArray::empty *)
definition swa_empty :: "'a swa \<Rightarrow> bool" where
  "swa_empty w \<longleftrightarrow> swa_length w = 0"

(* src: scroll_window.hpp 198-201 ScrollWindowArray::clear *)
definition swa_clear :: "'a swa \<Rightarrow> 'a swa" where
  "swa_clear w = w\<lparr>swa_index := 2 ^ 64 - 1, swa_length := 0\<rparr>"

(* src: scroll_window.hpp 141-149 ScrollWindowArray::emplace_back *)
definition swa_emplace_back :: "'a \<Rightarrow> 'a swa \<Rightarrow> 'a swa option" where
  "swa_emplace_back x w =
     (let i = wrap64 (swa_index w + 1);
          i = (if i \<ge> fix_length w then i - fix_length w else i);
          l = (if swa_length w < fix_length w then swa_length w + 1 else swa_length w)
      in if i < fix_length w
         then Some (w\<lparr>swa_index := i, swa_length := l, swa_datas := (swa_datas w)[i := x]\<rparr>)
         else None)"

text \<open>An iterator is its index; the end is FIX_LENGTH, where the pointer is null.\<close>

(* src: scroll_window.hpp 99-107 ScrollWindowArray::begin *)
definition swa_begin :: "'a swa \<Rightarrow> nat" where
  "swa_begin w =
     (if swa_empty w then fix_length w
      else if swa_length w < fix_length w then 0
      else wrap64 (swa_index w + 1) mod fix_length w)"

(* src: scroll_window.hpp 120-122 ScrollWindowArray::end *)
definition swa_end :: "'a swa \<Rightarrow> nat" where
  "swa_end w = fix_length w"

(* src: scroll_window.hpp 35-48 ScrollWindowArray::iterator::operator++ *)
definition iter_next :: "'a swa \<Rightarrow> nat \<Rightarrow> nat" where
  "iter_next w c =
     (let c1 = wrap64 (c + 1);
          c2 = (if c1 = fix_length w \<and> wrap64 (swa_index w + 1) < fix_length w then 0 else c1)
      in if c2 = wrap64 (swa_index w + 1) then fix_length w else c2)"

(* src: scroll_window.hpp 152-155 ScrollWindowArray::at *)
definition swa_at :: "nat \<Rightarrow> 'a swa \<Rightarrow> nat" where
  "swa_at start_index w = wrap64 (swa_index w + start_index + 1) mod fix_length w"

(* src: scroll_window.hpp 162-167 ScrollWindowArray::back *)
definition swa_back :: "'a swa \<Rightarrow> 'a option" where
  "swa_back w = (if swa_empty w then None else Some (swa_datas w ! swa_index w))"

text \<open>latest gives an iterator and the real size.\<close>

(* src: scroll_window.hpp 176-185 ScrollWindowArray::latest *)
definition swa_latest :: "nat \<Rightarrow> 'a swa \<Rightarrow> nat \<times> nat" where
  "swa_latest need_size w =
     (if need_size \<ge> swa_length w then (wrap64 (swa_index w + 1) mod fix_length w, swa_length w)
      else if need_size > 0 \<and> swa_index w \<ge> need_size - 1 then (swa_index w - (need_size - 1), need_size)
      else (wrap64 (swa_index w + swa_length w - need_size + 1) mod fix_length w, need_size))"

text \<open>Reading k entries from an iterator on, and where the iterator is then.\<close>

(* src: scroll_window.hpp 51-66 ScrollWindowArray::iterator *)
fun walk :: "nat \<Rightarrow> 'a swa \<Rightarrow> nat \<Rightarrow> 'a list \<times> nat" where
  "walk 0 w c = ([], c)"
| "walk (Suc k) w c =
     (if c = swa_end w then ([], c)
      else let (xs, c') = walk k w (iter_next w c) in (swa_datas w ! c # xs, c'))"

section \<open>ScrollWindowVector\<close>

(* src: scroll_window.hpp 343-350 ScrollWindowVector *)
record 'a swv =
  swv_datas :: "'a list"
  swv_fix :: nat
  swv_multiple :: nat

(* src: scroll_window.hpp 239-244 ScrollWindowVector::set_fix_length *)
definition swv_set_fix_length :: "nat \<Rightarrow> nat \<Rightarrow> 'a swv \<Rightarrow> 'a swv" where
  "swv_set_fix_length n multiple w = w\<lparr>swv_fix := n, swv_multiple := multiple\<rparr>"

(* src: scroll_window.hpp 228-229 ScrollWindowVector::ScrollWindowVector *)
definition new_swv :: "'a list \<Rightarrow> 'a swv" where
  "new_swv args = \<lparr>swv_datas = args, swv_fix = 0, swv_multiple = 1\<rparr>"

text \<open>Erasing past the end is undefined.\<close>

(* src: scroll_window.hpp 282-299 ScrollWindowVector::emplace_back *)
definition swv_emplace_back :: "'a \<Rightarrow> 'a swv \<Rightarrow> 'a swv option" where
  "swv_emplace_back x w =
     (let d = swv_datas w in
      if swv_fix w = 0 then Some (w\<lparr>swv_datas := d @ [x]\<rparr>)
      else if swv_fix w = 1 then Some (w\<lparr>swv_datas := (if d \<noteq> [] then d[0 := x] else d @ [x])\<rparr>)
      else if length d \<ge> swv_fix w * swv_multiple w then
        (if swv_multiple w = 0 \<or> length d < swv_fix w * (swv_multiple w - 1) + 1 then None
         else Some (w\<lparr>swv_datas := drop (swv_fix w * (swv_multiple w - 1) + 1) d @ [x]\<rparr>))
      else Some (w\<lparr>swv_datas := d @ [x]\<rparr>))"

(* src: scroll_window.hpp 309-311 ScrollWindowVector::back *)
definition swv_back :: "'a swv \<Rightarrow> 'a option" where
  "swv_back w = (if swv_datas w = [] then None else Some (last (swv_datas w)))"

(* src: scroll_window.hpp 302-304 ScrollWindowVector::at *)
definition swv_at :: "nat \<Rightarrow> 'a swv \<Rightarrow> 'a option" where
  "swv_at i w = (if i < length (swv_datas w) then Some (swv_datas w ! i) else None)"

(* src: scroll_window.hpp 319-327 ScrollWindowVector::latest *)
definition swv_latest :: "nat \<Rightarrow> 'a swv \<Rightarrow> nat \<times> nat" where
  "swv_latest need_size w =
     (let len = length (swv_datas w)
      in if need_size = 0 \<or> need_size \<ge> len then (0, len) else (len - need_size, need_size))"

(* src: scroll_window.hpp 339-341 ScrollWindowVector::clear *)
definition swv_clear :: "'a swv \<Rightarrow> 'a swv" where
  "swv_clear w = w\<lparr>swv_datas := []\<rparr>"

text \<open>The entries latest gives.\<close>

definition swv_recent :: "nat \<Rightarrow> 'a swv \<Rightarrow> 'a list" where
  "swv_recent k w = (let (i, n) = swv_latest k w in take n (drop i (swv_datas w)))"

definition swa_recent :: "nat \<Rightarrow> 'a swa \<Rightarrow> 'a list" where
  "swa_recent k w = (let (i, n) = swa_latest k w in fst (walk n w i))"

section \<open>The promise\<close>

text \<open>The last k entries of a history.\<close>

definition last_n :: "nat \<Rightarrow> 'a list \<Rightarrow> 'a list" where
  "last_n k xs = drop (length xs - k) xs"

text \<open>
  A window of n entries with the relation to its history: entering never fails, and the newest
  entry and the last k entries are those of the history, for k less than the history's length and at
  most n.
\<close>

fun push_all :: "('a \<Rightarrow> 'w \<Rightarrow> 'w option) \<Rightarrow> 'a list \<Rightarrow> 'w \<Rightarrow> 'w option" where
  "push_all push [] w = Some w"
| "push_all push (x # xs) w = Option.bind (push x w) (push_all push xs)"

locale scroll_window =
  fixes holds :: "'w \<Rightarrow> 'a list \<Rightarrow> bool"
    and push :: "'a \<Rightarrow> 'w \<Rightarrow> 'w option"
    and newest :: "'w \<Rightarrow> 'a option"
    and recent :: "nat \<Rightarrow> 'w \<Rightarrow> 'a list"
    and size_of :: "'w \<Rightarrow> nat"
  assumes push_ok: "holds w xs \<Longrightarrow> \<exists>w'. push x w = Some w' \<and> holds w' (xs @ [x]) \<and> size_of w' = size_of w"
    and newest_ok: "holds w xs \<Longrightarrow> xs \<noteq> [] \<Longrightarrow> newest w = Some (last xs)"
    and recent_ok: "holds w xs \<Longrightarrow> 0 < k \<Longrightarrow> k < length xs \<Longrightarrow> k \<le> size_of w \<Longrightarrow> recent k w = last_n k xs"
begin

lemma push_all_ok:
  "holds w ys \<Longrightarrow> \<exists>w'. push_all push xs w = Some w' \<and> holds w' (ys @ xs) \<and> size_of w' = size_of w"
proof (induction xs arbitrary: w ys)
  case (Cons x xs)
  obtain w1 where w1: "push x w = Some w1" "holds w1 (ys @ [x])" "size_of w1 = size_of w"
    using push_ok [OF Cons.prems] by blast
  show ?case using Cons.IH [OF w1(2)] w1 by auto
qed simp

lemma push_all_recent:
  assumes "holds w []" "xs \<noteq> []"
  shows "\<exists>w'. push_all push xs w = Some w' \<and> holds w' xs \<and> newest w' = Some (last xs) \<and>
     (\<forall>k. 0 < k \<and> k < length xs \<and> k \<le> size_of w \<longrightarrow> recent k w' = last_n k xs)"
proof -
  obtain w' where w: "push_all push xs w = Some w'" "holds w' xs" "size_of w' = size_of w"
    using push_all_ok [OF assms(1), of xs] by auto
  then show ?thesis using newest_ok [OF w(2) assms(2)] recent_ok [OF w(2)] by auto
qed

end

section \<open>The vector keeps it\<close>

definition swv_holds :: "'a swv \<Rightarrow> 'a list \<Rightarrow> bool" where
  "swv_holds w xs \<longleftrightarrow> 0 < swv_fix w \<and> 0 < swv_multiple w \<and>
     (\<exists>j. swv_datas w = drop j xs) \<and> min (swv_fix w) (length xs) \<le> length (swv_datas w) \<and>
     length (swv_datas w) \<le> (if swv_fix w = 1 then 1 else swv_fix w * swv_multiple w)"

lemma swv_push:
  assumes h: "swv_holds w xs"
  shows "\<exists>w'. swv_emplace_back x w = Some w' \<and> swv_holds w' (xs @ [x]) \<and> swv_fix w' = swv_fix w"
proof -
  obtain j where j: "swv_datas w = drop j xs" using h by (auto simp: swv_holds_def)
  have h1: "0 < swv_fix w" "0 < swv_multiple w" "min (swv_fix w) (length xs) \<le> length (swv_datas w)"
    "length (swv_datas w) \<le> (if swv_fix w = 1 then 1 else swv_fix w * swv_multiple w)"
    using h by (auto simp: swv_holds_def)
  have j': "\<exists>i. swv_datas w = drop i xs \<and> i \<le> length xs"
  proof (cases "j \<le> length xs")
    case True
    then show ?thesis using j by blast
  next
    case False
    then show ?thesis using j by (intro exI [of _ "length xs"]) simp
  qed
  then obtain i where i: "swv_datas w = drop i xs" "i \<le> length xs" by blast
  have d: "swv_datas w @ [x] = drop i (xs @ [x])" using i by simp
  show ?thesis
  proof (cases "swv_fix w = 1")
    case True
    show ?thesis
    proof (cases "swv_datas w = []")
      case True
      then show ?thesis using \<open>swv_fix w = 1\<close> h1 d
        by (auto simp: swv_emplace_back_def swv_holds_def Let_def intro!: exI [of _ i])
    next
      case False
      then obtain y where y: "swv_datas w = [y]"
        using h1(4) True by (cases "swv_datas w") auto
      then show ?thesis using True h1
        by (auto simp: swv_emplace_back_def swv_holds_def Let_def intro!: exI [of _ "length xs"])
    qed
  next
    case False
    then have f2: "swv_fix w \<ge> 2" using h1(1) by simp
    let ?m = "swv_fix w * (swv_multiple w - 1) + 1"
    have fm: "swv_fix w * swv_multiple w = swv_fix w * (swv_multiple w - 1) + swv_fix w"
      using h1(2) by (cases "swv_multiple w") auto
    show ?thesis
    proof (cases "length (swv_datas w) \<ge> swv_fix w * swv_multiple w")
      case True
      then have len: "length (swv_datas w) = swv_fix w * swv_multiple w" using h1(4) False by simp
      define w' where "w' = w\<lparr>swv_datas := drop ?m (swv_datas w) @ [x]\<rparr>"
      have em: "swv_emplace_back x w = Some w'"
        using True False h1 len fm f2 by (simp add: swv_emplace_back_def Let_def w'_def)
      have l: "length (swv_datas w') = swv_fix w" using len fm f2 by (simp add: w'_def)
      have "?m \<le> length (swv_datas w)" using len fm f2 by simp
      then have "swv_datas w' = drop (?m + i) (xs @ [x])" using i by (simp add: w'_def)
      then have ex: "\<exists>j. swv_datas w' = drop j (xs @ [x])" by blast
      have "swv_fix w \<le> swv_fix w * swv_multiple w" using h1(2) by simp
      moreover have "swv_fix w' = swv_fix w" "swv_multiple w' = swv_multiple w" by (simp_all add: w'_def)
      ultimately have "swv_holds w' (xs @ [x])"
        using l h1(1,2) False ex unfolding swv_holds_def by simp
      with em show ?thesis by (auto simp: w'_def)
    next
      case nfull: False
      define w' where "w' = w\<lparr>swv_datas := swv_datas w @ [x]\<rparr>"
      have "swv_emplace_back x w = Some w'"
        using nfull False h1 by (simp add: swv_emplace_back_def Let_def w'_def)
      moreover have "swv_holds w' (xs @ [x])"
      proof -
        have ex: "\<exists>j. swv_datas w' = drop j (xs @ [x])" using d by (simp add: w'_def del: drop_append) blast
        have "length (swv_datas w') = length (swv_datas w) + 1" "swv_fix w' = swv_fix w"
          "swv_multiple w' = swv_multiple w" by (simp_all add: w'_def)
        then show ?thesis using nfull False h1(1-3) ex unfolding swv_holds_def by auto
      qed
      ultimately show ?thesis by (auto simp: w'_def)
    qed
  qed
qed

lemma swv_newest:
  assumes "swv_holds w xs" "xs \<noteq> []"
  shows "swv_back w = Some (last xs)"
proof -
  obtain j where j: "swv_datas w = drop j xs" using assms by (auto simp: swv_holds_def)
  have "0 < min (swv_fix w) (length xs)" "min (swv_fix w) (length xs) \<le> length (swv_datas w)"
    using assms by (auto simp: swv_holds_def)
  then have "0 < length (swv_datas w)" by linarith
  then show ?thesis using j by (auto simp: swv_back_def last_drop)
qed

lemma swv_recent_ok:
  assumes "swv_holds w xs" "0 < k" "k < length xs" "k \<le> swv_fix w"
  shows "swv_recent k w = last_n k xs"
proof -
  obtain j where j: "swv_datas w = drop j xs" using assms by (auto simp: swv_holds_def)
  have l: "k \<le> length (swv_datas w)" using assms by (auto simp: swv_holds_def)
  have "swv_recent k w = drop (length (swv_datas w) - k) (swv_datas w)"
    using l assms(2) by (auto simp: swv_recent_def swv_latest_def Let_def)
  also have "\<dots> = last_n k xs"
  proof -
    have "j + (length xs - j - k) = length xs - k" using l assms(2) unfolding j by simp
    then show ?thesis unfolding j last_n_def by (simp add: add.commute)
  qed
  finally show ?thesis .
qed

interpretation swv: scroll_window swv_holds swv_emplace_back swv_back swv_recent swv_fix
  by unfold_locales (rule swv_push swv_newest swv_recent_ok; assumption)+

section \<open>The array keeps it\<close>

text \<open>The slot of the entry that is a entries older than the newest.\<close>

definition swa_holds :: "'a swa \<Rightarrow> 'a list \<Rightarrow> bool" where
  "swa_holds w xs \<longleftrightarrow> 0 < fix_length w \<and> fix_length w < 2 ^ 63 \<and>
     swa_length w = min (fix_length w) (length xs) \<and>
     swa_index w = (if xs = [] then 2 ^ 64 - 1 else (length xs - 1) mod fix_length w) \<and>
     (\<forall>i < length xs. length xs - fix_length w \<le> i \<longrightarrow> swa_datas w ! (i mod fix_length w) = xs ! i)"

lemma swa_holdsD:
  assumes "swa_holds w xs"
  shows "0 < fix_length w" "fix_length w < 2 ^ 63" "swa_length w = min (fix_length w) (length xs)"
    "xs \<noteq> [] \<Longrightarrow> swa_index w = (length xs - 1) mod fix_length w"
    "\<And>i. i < length xs \<Longrightarrow> length xs - fix_length w \<le> i \<Longrightarrow> swa_datas w ! (i mod fix_length w) = xs ! i"
    "xs = [] \<Longrightarrow> swa_index w = 2 ^ 64 - 1"
  using assms unfolding swa_holds_def by auto

lemma swa_succ:
  assumes "swa_holds w xs" "xs \<noteq> []"
  shows "wrap64 (swa_index w + 1) = (length xs - 1) mod fix_length w + 1"
    "wrap64 (swa_index w + 1) mod fix_length w = length xs mod fix_length w"
proof -
  note H = swa_holdsD [OF assms(1)]
  have "swa_index w < fix_length w" using H(1,4) assms(2) by simp
  then have "swa_index w + 1 < 2 ^ 64" using H(2) by simp
  then show e: "wrap64 (swa_index w + 1) = (length xs - 1) mod fix_length w + 1"
    using H(4) assms(2) by simp
  show "wrap64 (swa_index w + 1) mod fix_length w = length xs mod fix_length w"
    unfolding e using assms(2) by (simp add: mod_Suc_eq)
qed

text \<open>Entries of one window are in different slots.\<close>

lemma mod_window: "i < j \<Longrightarrow> j < i + n \<Longrightarrow> i mod n \<noteq> j mod (n::nat)"
  using mod_eq_dvd_iff_nat [of i j n] nat_dvd_not_less [of "j - i" n] by auto

lemma swa_push:
  assumes h: "swa_holds w xs"
  shows "\<exists>w'. swa_emplace_back x w = Some w' \<and> swa_holds w' (xs @ [x]) \<and> fix_length w' = fix_length w"
proof -
  note H = swa_holdsD [OF h]
  let ?N = "fix_length w"
  let ?i = "wrap64 (swa_index w + 1)"
  have idx: "(if ?i \<ge> ?N then ?i - ?N else ?i) = length xs mod ?N"
  proof (cases "xs = []")
    case True
    then show ?thesis using H(1,6) by (simp add: wrap64_def)
  next
    case False
    define r where "r = (length xs - 1) mod ?N"
    have r: "r < ?N" "?i = r + 1" "(r + 1) mod ?N = length xs mod ?N"
      using H(1) swa_succ [OF h False] by (simp_all add: r_def)
    then show ?thesis by (cases "r + 1 = ?N") auto
  qed
  define w' where "w' = w\<lparr>swa_index := length xs mod ?N,
    swa_length := (if swa_length w < ?N then swa_length w + 1 else swa_length w),
    swa_datas := (swa_datas w)[length xs mod ?N := x]\<rparr>"
  have f: "fix_length w' = ?N" by (simp add: w'_def fix_length_def)
  have "swa_emplace_back x w = Some w'"
    unfolding swa_emplace_back_def Let_def idx w'_def using H(1) by simp
  moreover have "swa_holds w' (xs @ [x])"
    unfolding swa_holds_def f
  proof (intro conjI allI impI)
    show "swa_length w' = min ?N (length (xs @ [x]))" using H(3) by (auto simp: w'_def)
    show "swa_index w' = (if xs @ [x] = [] then 2 ^ 64 - 1 else (length (xs @ [x]) - 1) mod ?N)"
      by (simp add: w'_def)
    fix i assume i: "i < length (xs @ [x])" "length (xs @ [x]) - ?N \<le> i"
    show "swa_datas w' ! (i mod ?N) = (xs @ [x]) ! i"
    proof (cases "i = length xs")
      case True
      then show ?thesis using H(1) by (simp add: w'_def fix_length_def [symmetric])
    next
      case False
      then have "i < length xs" using i by simp
      moreover have "i mod ?N \<noteq> length xs mod ?N" using i \<open>i < length xs\<close> by (intro mod_window) auto
      ultimately show ?thesis using H(5) [of i] i by (simp add: w'_def nth_append)
    qed
  qed (use H in auto)
  ultimately show ?thesis using f by blast
qed

lemma new_swa_holds:
  assumes "memory \<noteq> []" "length memory < 2 ^ 63"
  shows "swa_holds (new_swa memory) []"
  using assms by (simp add: swa_holds_def new_swa_def fix_length_def)

text \<open>The iterator goes from each slot to that of the next newer entry, and from the newest to the end.\<close>

lemma iter_next_slot:
  assumes h: "swa_holds w xs" and i: "i < length xs" "length xs - fix_length w \<le> i"
  shows "iter_next w (i mod fix_length w) =
    (if i = length xs - 1 then fix_length w else Suc i mod fix_length w)"
proof -
  note H = swa_holdsD [OF h]
  have ne: "xs \<noteq> []" using i by auto
  let ?N = "fix_length w"
  define r where "r = (length xs - 1) mod ?N"
  have r: "r < ?N" "wrap64 (swa_index w + 1) = r + 1" using H(1) swa_succ [OF h ne] by (simp_all add: r_def)
  define c where "c = i mod ?N"
  have c: "c < ?N" using H(1) by (simp add: c_def)
  then have "c + 1 < 2 ^ 64" using H(2) by simp
  with c have c: "c < ?N" "wrap64 (c + 1) = c + 1" by simp_all
  have sc: "Suc i mod ?N = (if c + 1 = ?N then 0 else c + 1)" by (simp add: c_def mod_Suc)
  show ?thesis
  proof (cases "i = length xs - 1")
    case True
    then have "c = r" by (simp add: c_def r_def)
    then have "iter_next w c = ?N" using r c by (auto simp: iter_next_def Let_def)
    then show ?thesis using True by (simp add: c_def)
  next
    case False
    have "c \<noteq> r" unfolding c_def r_def by (rule mod_window) (use False i H(1) in auto)
    moreover have "c + 1 = ?N \<Longrightarrow> r + 1 < ?N" using \<open>c \<noteq> r\<close> r(1) by simp
    moreover have "Suc i mod ?N \<noteq> r + 1" using \<open>c \<noteq> r\<close> sc by auto
    ultimately show ?thesis using False r c sc
      by (auto simp: iter_next_def Let_def c_def [symmetric])
  qed
qed

lemma walk_slots:
  assumes h: "swa_holds w xs"
  shows "i < length xs \<Longrightarrow> length xs - fix_length w \<le> i \<Longrightarrow> k \<le> length xs - i \<Longrightarrow>
    walk k w (i mod fix_length w) =
      (take k (drop i xs), if k = length xs - i then swa_end w else (i + k) mod fix_length w)"
proof (induction k arbitrary: i)
  case (Suc k)
  note H = swa_holdsD [OF h] and nx = iter_next_slot [OF h Suc.prems(1,2)]
  have c: "i mod fix_length w \<noteq> swa_end w"
    using mod_less_divisor [OF H(1), of i] by (simp add: swa_end_def)
  have d: "drop i xs = xs ! i # drop (Suc i) xs" using Suc.prems(1) by (simp add: Cons_nth_drop_Suc)
  show ?case
  proof (cases "i = length xs - 1")
    case True
    then have "k = 0" "length xs - i = 1" using Suc.prems by auto
    then show ?thesis using c d H(5) [OF Suc.prems(1,2)] nx True by (simp add: swa_end_def)
  next
    case False
    then have "walk k w (Suc i mod fix_length w) = (take k (drop (Suc i) xs),
        if k = length xs - Suc i then swa_end w else (Suc i + k) mod fix_length w)"
      using Suc.prems by (intro Suc.IH) auto
    then show ?thesis using c d H(5) [OF Suc.prems(1,2)] nx False Suc.prems by auto
  qed
qed simp

lemma swa_range:
  assumes h: "swa_holds w xs"
  shows "walk (min (fix_length w) (length xs)) w (swa_begin w) = (last_n (fix_length w) xs, swa_end w)"
proof (cases "xs = []")
  case True
  then show ?thesis using swa_holdsD(3) [OF h] by (simp add: swa_begin_def swa_empty_def last_n_def swa_end_def)
next
  case False
  note H = swa_holdsD [OF h]
  let ?i = "length xs - fix_length w"
  have i: "?i < length xs" using H(1) False by simp
  have b: "swa_begin w = ?i mod fix_length w"
  proof (cases "length xs < fix_length w")
    case True
    then show ?thesis using H(3) False by (simp add: swa_begin_def swa_empty_def)
  next
    case nl: False
    then have "swa_begin w = length xs mod fix_length w"
      using H(1,3) False swa_succ(2) [OF h False] by (simp add: swa_begin_def swa_empty_def)
    then show ?thesis using nl by (simp add: le_mod_geq)
  qed
  have k: "min (fix_length w) (length xs) = length xs - ?i" by simp
  have "walk (length xs - ?i) w (?i mod fix_length w) = (take (length xs - ?i) (drop ?i xs), swa_end w)"
    using walk_slots [OF h i order_refl order_refl] by simp
  then show ?thesis unfolding b k by (simp add: last_n_def)
qed

lemma swa_latest_slot:
  assumes h: "swa_holds w xs" and k: "0 < k" "k < length xs" "k \<le> fix_length w"
  shows "swa_latest k w = ((length xs - k) mod fix_length w, k)"
proof -
  note H = swa_holdsD [OF h]
  have ne: "xs \<noteq> []" using k by auto
  let ?N = "fix_length w" and ?n = "length xs"
  have idx: "swa_index w = (?n - 1) mod ?N" using H(4) ne .
  consider (full) "k = ?N" | (near) "k < swa_length w" "swa_index w \<ge> k - 1"
    | (far) "k < swa_length w" "swa_index w < k - 1" using k H(3) by (cases "k = ?N"; cases "swa_index w \<ge> k - 1") auto
  then show ?thesis
  proof cases
    case full
    then have "swa_length w = k" using H(3) k by simp
    moreover have "(?n - ?N) mod ?N = ?n mod ?N" using k full by (simp add: le_mod_geq)
    ultimately show ?thesis using swa_succ(2) [OF h ne] full by (simp add: swa_latest_def)
  next
    case near
    have "(?n - k) mod ?N = ((?n - 1) - (k - 1)) mod ?N" using k by simp
    also have "\<dots> = ((?n - 1) mod ?N - (k - 1)) mod ?N"
    proof -
      have "?n - 1 = (?n - 1) div ?N * ?N + (?n - 1) mod ?N" by simp
      then have "(?n - 1) - (k - 1) = (?n - 1) div ?N * ?N + ((?n - 1) mod ?N - (k - 1))"
        using near(2) idx by linarith
      then show ?thesis by simp
    qed
    also have "\<dots> = swa_index w - (k - 1)" using H(1) idx by (simp add: less_imp_diff_less)
    finally show ?thesis using near k by (simp add: swa_latest_def)
  next
    case far
    have full: "?N \<le> ?n"
    proof (rule ccontr)
      assume "\<not> ?N \<le> ?n"
      then have "swa_index w = ?n - 1" using idx by simp
      then show False using far(2) k by simp
    qed
    then have L: "swa_length w = ?N" using H(3) by simp
    have "swa_index w < ?N" using H(1) idx by simp
    then have lt: "swa_index w + ?N - k + 1 < 2 ^ 64" using H(2) by simp
    have "(swa_index w + ?N - k + 1) mod ?N = ((?n - 1) mod ?N + (?N - k + 1)) mod ?N"
      using idx k by (simp add: Nat.add_diff_assoc)
    also have "\<dots> = (?n - 1 + (?N - k + 1)) mod ?N" by (simp only: mod_add_left_eq)
    also have "?n - 1 + (?N - k + 1) = ?n - k + ?N" using k by simp
    finally have "(swa_index w + ?N - k + 1) mod ?N = (?n - k) mod ?N" by simp
    then show ?thesis using far L lt by (simp add: swa_latest_def)
  qed
qed

lemma swa_recent_ok:
  assumes h: "swa_holds w xs" and k: "0 < k" "k < length xs" "k \<le> fix_length w"
  shows "swa_recent k w = last_n k xs"
proof -
  have "walk k w ((length xs - k) mod fix_length w) = (take k (drop (length xs - k) xs), swa_end w)"
    using walk_slots [OF h, of "length xs - k" k] k by simp
  then show ?thesis using swa_latest_slot [OF h k] by (simp add: swa_recent_def last_n_def)
qed

lemma swa_newest:
  assumes h: "swa_holds w xs" and ne: "xs \<noteq> []"
  shows "swa_back w = Some (last xs)"
proof -
  note H = swa_holdsD [OF h]
  have "swa_datas w ! ((length xs - 1) mod fix_length w) = xs ! (length xs - 1)"
  proof (rule H(5))
    show "length xs - 1 < length xs" using ne by (cases xs) auto
    show "length xs - fix_length w \<le> length xs - 1" using H(1) by (intro diff_le_mono2) simp
  qed
  then show ?thesis using H(1,3,4) ne by (simp add: swa_back_def swa_empty_def last_conv_nth)
qed

interpretation swa: scroll_window swa_holds swa_emplace_back swa_back swa_recent fix_length
  by unfold_locales (rule swa_push swa_newest swa_recent_ok; assumption)+

section \<open>Where the array's latest and at go wrong\<close>

lemma swa_partial_slot:
  assumes h: "swa_holds w xs" and n: "length xs < fix_length w"
  shows "length xs \<le> k \<Longrightarrow> swa_latest k w = (length xs, length xs)"
    "length xs + j < fix_length w \<Longrightarrow> swa_at j w = length xs + j"
proof -
  note H = swa_holdsD [OF h]
  have s: "wrap64 (swa_index w + 1) = length xs"
    using swa_succ(1) [OF h] n H(6) by (cases "xs = []") (simp_all add: wrap64_def)
  show "swa_latest k w = (length xs, length xs)" if "length xs \<le> k"
    using that s n H(3) by (simp add: swa_latest_def)
  show "swa_at j w = length xs + j" if j: "length xs + j < fix_length w"
  proof -
    have "wrap64 (swa_index w + j + 1) = wrap64 (wrap64 (swa_index w + 1) + j)"
      unfolding wrap64_def mod_add_left_eq by (simp add: add.commute add.left_commute)
    also have "\<dots> = length xs + j" using s j H(2) by simp
    finally show ?thesis using j by (simp add: swa_at_def)
  qed
qed

section \<open>Properties\<close>

text \<open>C38: The array window keeps the most recent entries. On an array of N entries whatever its memory holds,
  entering the entries xs one by one never writes outside it; afterwards the range loop from begin
  visits the last N entries (all, if there are fewer), oldest first, and ends; back is the newest;
  and latest of any k smaller than the number of entries and at most N reads the last k.\<close>

theorem scroll_array_recent:
  assumes "memory \<noteq> []" "length memory < 2 ^ 63" "xs \<noteq> []"
  shows "\<exists>w. push_all swa_emplace_back xs (new_swa memory) = Some w \<and>
    walk (min (length memory) (length xs)) w (swa_begin w) = (last_n (length memory) xs, swa_end w) \<and>
    swa_back w = Some (last xs) \<and>
    (\<forall>k. 0 < k \<and> k < length xs \<and> k \<le> length memory \<longrightarrow> swa_recent k w = last_n k xs)"
proof -
  note new = new_swa_holds [OF assms(1,2)]
  have fl: "fix_length (new_swa memory) = length memory" by (simp add: new_swa_def fix_length_def)
  obtain w where w: "push_all swa_emplace_back xs (new_swa memory) = Some w" "swa_holds w xs"
      "fix_length w = length memory"
    using swa.push_all_ok [OF new, of xs] fl by auto
  show ?thesis using swa.push_all_recent [OF new assms(3)] swa_range [OF w(2)] w fl by auto
qed

theorem scroll_array_recent_witness:
  "\<exists>w. push_all swa_emplace_back [1, 2, 3, 4, 5] (new_swa [0, 0, 0::nat]) = Some w \<and>
    fst (walk 3 w (swa_begin w)) = [3, 4, 5]"
proof -
  have "min (length [0, 0, 0::nat]) (length [1, 2, 3, 4, 5::nat]) = 3"
    "last_n (length [0, 0, 0::nat]) [1, 2, 3, 4, 5::nat] = [3, 4, 5]" by (simp_all add: last_n_def)
  with scroll_array_recent [of "[0, 0, 0::nat]" "[1, 2, 3, 4, 5]"] show ?thesis
    by (auto simp: numeral_3_eq_3 simp del: walk.simps push_all.simps)
qed

text \<open>latest and at of an array window that is not full are wrong. With n entries entered, n less than
  N, latest of any number not less than n returns an iterator to slot n, where nothing was written,
  with real size n, and at j is slot n + j, although the entries are in the slots below n.\<close>

theorem scroll_array_partial:
  assumes "length xs < length memory" "length memory < 2 ^ 63" "length xs \<le> k"
  shows "\<exists>w. push_all swa_emplace_back xs (new_swa memory) = Some w \<and>
    swa_latest k w = (length xs, length xs) \<and>
    (\<forall>j. length xs + j < length memory \<longrightarrow> swa_at j w = length xs + j) \<and>
    (\<forall>i < length xs. swa_datas w ! i = xs ! i)"
proof -
  have "memory \<noteq> []" using assms(1) by auto
  note new = new_swa_holds [OF this assms(2)]
  have fl: "fix_length (new_swa memory) = length memory" by (simp add: new_swa_def fix_length_def)
  obtain w where w: "push_all swa_emplace_back xs (new_swa memory) = Some w" "swa_holds w xs"
      "fix_length w = length memory"
    using swa.push_all_ok [OF new, of xs] fl by auto
  have "swa_datas w ! i = xs ! i" if "i < length xs" for i
    using swa_holdsD(5) [OF w(2) that] that assms(1) w(3) by simp
  then show ?thesis using swa_partial_slot [OF w(2)] w assms by auto
qed

theorem scroll_array_partial_witness:
  "\<exists>w. push_all swa_emplace_back [7] (new_swa [0, 0, 0::nat]) = Some w \<and> swa_latest 1 w = (1, 1)"
  using scroll_array_partial [of "[7]" "[0, 0, 0::nat]" 1] by auto

text \<open>The vector window keeps the most recent entries. On an empty vector with a fixed length n and a
  multiple, both greater than zero, entering the entries xs one by one never erases past the end;
  afterwards the vector holds at most n times the multiple entries, back is the newest, and latest
  of any k smaller than the number of entries and at most n gives the last k.\<close>

theorem scroll_vector_recent:
  assumes "0 < n" "0 < multiple" "xs \<noteq> []"
  shows "\<exists>w. push_all swv_emplace_back xs (swv_set_fix_length n multiple (new_swv [])) = Some w \<and>
    length (swv_datas w) \<le> n * multiple \<and> swv_back w = Some (last xs) \<and>
    (\<forall>k. 0 < k \<and> k < length xs \<and> k \<le> n \<longrightarrow> swv_recent k w = last_n k xs)"
proof -
  define w0 :: "'a swv" where "w0 = swv_set_fix_length n multiple (new_swv [])"
  have new: "swv_holds w0 []" "swv_fix w0 = n"
    using assms(1,2) by (auto simp: w0_def swv_holds_def swv_set_fix_length_def new_swv_def)
  have mult: "push_all swv_emplace_back ys w = Some w' \<Longrightarrow> swv_multiple w' = swv_multiple w \<and> swv_fix w' = swv_fix w"
    for ys and w w' :: "'a swv"
  proof (induction ys arbitrary: w)
    case (Cons y ys)
    then obtain w1 where w1: "swv_emplace_back y w = Some w1" "push_all swv_emplace_back ys w1 = Some w'"
      by (auto simp: bind_Some_iff)
    have "swv_multiple w1 = swv_multiple w \<and> swv_fix w1 = swv_fix w"
      using w1(1) by (auto simp: swv_emplace_back_def Let_def split: if_splits)
    then show ?case using Cons.IH [OF w1(2)] by simp
  qed simp
  obtain w where w: "push_all swv_emplace_back xs w0 = Some w" "swv_holds w xs" "swv_back w = Some (last xs)"
      "\<forall>k. 0 < k \<and> k < length xs \<and> k \<le> n \<longrightarrow> swv_recent k w = last_n k xs"
    using swv.push_all_recent [OF new(1) assms(3)] new(2) by auto
  have m: "swv_multiple w = multiple" "swv_fix w = n" using mult [OF w(1)] new(2)
    by (simp_all add: w0_def swv_set_fix_length_def)
  have "length (swv_datas w) \<le> n * multiple"
    using w(2) assms(1,2) unfolding swv_holds_def m by (cases "n = 1") auto
  then show ?thesis using w by (auto simp: w0_def)
qed

theorem scroll_vector_recent_witness:
  "\<exists>w. push_all swv_emplace_back [1, 2, 3, 4, 5::nat] (swv_set_fix_length 2 2 (new_swv [])) = Some w \<and>
    swv_recent 2 w = [4, 5]"
  using scroll_vector_recent [of 2 2 "[1, 2, 3, 4, 5::nat]"] by (auto simp: last_n_def)

end
