(* ===== verification/Unique_Id.thy ===== *)
theory Unique_Id
  imports Prelude
begin

text \<open>
  SnowFlakeID (unique_id.hpp): 64-bit ids of a time stamp in milliseconds, the number of the machine
  and a sequence number within the millisecond. The clock is the list of the readings to come; a
  call that has not returned when they are used up is the value None.
\<close>

unbundle bit_operations_syntax

section \<open>The code\<close>

(* src: unique_id.hpp 115-137 SnowFlakeID *)
record snowflake =
  sf_worker_id :: u32
  sf_sequence :: u32
  sf_last_timestamp :: u64

(* src: unique_id.hpp 118-118 SnowFlakeID::m_twepoch *)
definition sf_twepoch :: u64 where "sf_twepoch = 1609430400000"

(* src: unique_id.hpp 134-134 SnowFlakeID::m_sequence_mask *)
definition sf_sequence_mask :: u32 where "sf_sequence_mask = (-1) XOR push_bit 12 (-1)"

(* src: unique_id.hpp 49-53 SnowFlakeID::SnowFlakeID *)
definition new_snowflake :: snowflake where
  "new_snowflake = \<lparr>sf_worker_id = 0, sf_sequence = 0, sf_last_timestamp = 0\<rparr>"

(* src: unique_id.hpp 56-58 SnowFlakeID::setWorkerId *)
definition set_worker_id :: "u32 \<Rightarrow> snowflake \<Rightarrow> snowflake" where
  "set_worker_id worker_id s = s\<lparr>sf_worker_id := worker_id AND 0b1111111111\<rparr>"

(* src: unique_id.hpp 96-99 SnowFlakeID::timeGen *)
fun time_gen :: "u64 list \<Rightarrow> (u64 \<times> u64 list) option" where
  "time_gen [] = None"
| "time_gen (t # clock) = Some (t, clock)"

(* src: unique_id.hpp 107-113 SnowFlakeID::tilNextMillis *)
fun til_next_millis :: "u64 \<Rightarrow> u64 list \<Rightarrow> (u64 \<times> u64 list) option" where
  "til_next_millis last_ts [] = None"
| "til_next_millis last_ts (t # clock) =
     (if t \<le> last_ts then til_next_millis last_ts clock else Some (t, clock))"

(* src: unique_id.hpp 85-88 SnowFlakeID::get_id *)
definition sf_compose :: "u64 \<Rightarrow> u32 \<Rightarrow> u32 \<Rightarrow> u64" where
  "sf_compose timestamp worker_id seq =
     (push_bit 22 (timestamp - sf_twepoch) OR ucast (push_bit 12 worker_id)) OR ucast seq"

(* src: unique_id.hpp 61-89 SnowFlakeID::get_id *)
definition get_id :: "u64 list \<Rightarrow> snowflake \<Rightarrow> (u64 \<times> u64 list \<times> snowflake) option" where
  "get_id clock s =
     do { (timestamp, clock) \<leftarrow> time_gen clock;
          if timestamp < sf_last_timestamp s then Some (0, clock, s)
          else do {
            let seq = (if sf_last_timestamp s = timestamp then (sf_sequence s + 1) AND sf_sequence_mask else 0);
            (timestamp, clock) \<leftarrow>
               (if sf_last_timestamp s = timestamp \<and> seq = 0 then til_next_millis (sf_last_timestamp s) clock
                else Some (timestamp, clock));
            Some (sf_compose timestamp (sf_worker_id s) seq, clock,
                  s\<lparr>sf_sequence := seq, sf_last_timestamp := timestamp\<rparr>) } }"

fun get_ids :: "nat \<Rightarrow> u64 list \<Rightarrow> snowflake \<Rightarrow> (u64 list \<times> u64 list \<times> snowflake) option" where
  "get_ids 0 clock s = Some ([], clock, s)"
| "get_ids (Suc n) clock s =
     do { (i, clock, s) \<leftarrow> get_id clock s;
          (ids, clock, s) \<leftarrow> get_ids n clock s;
          Some (i # ids, clock, s) }"

section \<open>The fields of an id\<close>

lemma seq_mask: "x AND sf_sequence_mask = take_bit 12 x"
proof -
  have "sf_sequence_mask = mask 12" by (simp add: sf_sequence_mask_def mask_eq_exp_minus_1)
  then show ?thesis by (simp add: take_bit_eq_mask)
qed

lemma worker_mask: "unat (sf_worker_id (set_worker_id w s)) < 1024"
proof -
  have "w AND 0b1111111111 = take_bit 10 w" by (simp add: take_bit_eq_mask mask_eq_exp_minus_1)
  then show ?thesis using take_bit_nat_less_exp [of 10 "unat w"]
    by (simp add: set_worker_id_def unsigned_take_bit_eq)
qed

lemma bit_less: "unat (x :: 'a::len word) < 2 ^ k \<Longrightarrow> bit x n \<Longrightarrow> n < k"
proof (rule ccontr)
  assume x: "unat x < 2 ^ k" "bit x n" "\<not> n < k"
  then have "bit (unat x) n" by (simp add: bit_unsigned_iff)
  moreover have "unat x < 2 ^ n" using x(1,3) by (meson linorder_not_le order_less_le_trans one_le_numeral power_increasing)
  ultimately show False by (simp add: bit_iff_odd)
qed

lemma unat_compose:
  assumes t: "sf_twepoch \<le> t" "unat t < unat sf_twepoch + 2 ^ 41" and w: "unat w < 1024" and s: "unat q < 4096"
  shows "unat (sf_compose t w q) = (unat t - unat sf_twepoch) * 2 ^ 22 + unat w * 2 ^ 12 + unat q"
proof -
  let ?d = "t - sf_twepoch"
  have d: "unat ?d = unat t - unat sf_twepoch" by (rule unat_sub [OF t(1)])
  then have d41: "unat ?d < 2 ^ 41" using t(2) by simp
  have A: "unat (push_bit 22 ?d) = unat ?d * 2 ^ 22"
    unfolding unsigned_push_bit_eq using d41 by (simp add: push_bit_eq_mult take_bit_nat_eq_self)
  have B0: "unat (push_bit 12 w) = unat w * 2 ^ 12"
    unfolding unsigned_push_bit_eq using w by (simp add: push_bit_eq_mult take_bit_nat_eq_self)
  have B: "unat (ucast (push_bit 12 w) :: u64) = unat w * 2 ^ 12"
    using B0 w by (simp add: unsigned_ucast_eq take_bit_nat_eq_self)
  have C: "unat (ucast q :: u64) = unat q" using s by (simp add: unsigned_ucast_eq take_bit_nat_eq_self)
  have b1: "bit (push_bit 22 ?d) n \<Longrightarrow> 22 \<le> n" for n by (simp add: bit_push_bit_iff)
  have b2: "bit (ucast (push_bit 12 w) :: u64) n \<Longrightarrow> 12 \<le> n \<and> n < 22" for n
    using w B bit_less [of "ucast (push_bit 12 w) :: u64" 22 n] by (auto simp: bit_ucast_iff bit_push_bit_iff)
  have b3: "bit (ucast q :: u64) n \<Longrightarrow> n < 12" for n using s C bit_less [of "ucast q :: u64" 12 n] by simp
  have e1: "push_bit 22 ?d OR ucast (push_bit 12 w) = push_bit 22 ?d + ucast (push_bit 12 w)"
    by (rule disjunctive_add_eq_or [symmetric])
       (rule bit_word_eqI, use b1 b2 in \<open>force simp: bit_and_iff\<close>)
  have e2: "sf_compose t w q = push_bit 22 ?d + ucast (push_bit 12 w) + ucast q"
    unfolding sf_compose_def e1 [symmetric]
    by (rule disjunctive_add_eq_or [symmetric])
       (rule bit_word_eqI, use b1 b2 b3 in \<open>force simp: bit_and_iff bit_or_iff\<close>)
  show ?thesis
    unfolding e2 d [symmetric] using A B C d41 w s by (simp add: unat_word_ariths)
qed

section \<open>The ids of one generator\<close>

text \<open>
  The key of the generator, its time stamp and sequence number as one number, grows with every call
  that gives an id; the readings lie in the 41 bits of time stamps from the epoch on.
\<close>

definition in_range :: "u64 list \<Rightarrow> bool" where
  "in_range clock \<longleftrightarrow> (\<forall>t \<in> set clock. sf_twepoch \<le> t \<and> unat t < unat sf_twepoch + 2 ^ 41)"

definition sf_ok :: "snowflake \<Rightarrow> bool" where
  "sf_ok s \<longleftrightarrow> unat (sf_worker_id s) < 1024 \<and> unat (sf_sequence s) < 4096"

definition sf_key :: "snowflake \<Rightarrow> nat" where
  "sf_key s = unat (sf_last_timestamp s) * 4096 + unat (sf_sequence s)"

text \<open>What the id of the state after a call is.\<close>

definition id_of :: "snowflake \<Rightarrow> u64" where
  "id_of s = sf_compose (sf_last_timestamp s) (sf_worker_id s) (sf_sequence s)"

lemma til_next_spec:
  "til_next_millis l clock = Some (t, clock') \<Longrightarrow>
     l < t \<and> t \<in> set clock \<and> set clock' \<subseteq> set clock"
  by (induction l clock rule: til_next_millis.induct) (auto split: if_splits)

lemma til_next_returns: "t \<in> set clock \<Longrightarrow> l < t \<Longrightarrow> til_next_millis l clock \<noteq> None"
  by (induction l clock rule: til_next_millis.induct) auto

lemma get_id_cases:
  assumes g: "get_id clock s = Some (i, clock', s')" and ok: "sf_ok s" and r: "in_range clock"
  shows "sf_ok s' \<and> in_range clock' \<and> sf_worker_id s' = sf_worker_id s \<and>
    (i = 0 \<and> s' = s \<or>
     i = id_of s' \<and> sf_key s < sf_key s' \<and> sf_twepoch \<le> sf_last_timestamp s' \<and>
       unat (sf_last_timestamp s') < unat sf_twepoch + 2 ^ 41)"
proof -
  obtain t rest where c: "clock = t # rest" using g by (cases clock) (auto simp: get_id_def)
  have t: "sf_twepoch \<le> t" "unat t < unat sf_twepoch + 2 ^ 41" "in_range rest"
    using r by (auto simp: c in_range_def)
  let ?l = "sf_last_timestamp s"
  define q where "q = (if ?l = t then (sf_sequence s + 1) AND sf_sequence_mask else 0)"
  have q: "unat q < 4096"
    using take_bit_nat_less_exp [of 12 "unat (sf_sequence s + 1)"]
    by (simp add: q_def seq_mask unsigned_take_bit_eq)
  consider (behind) "t < ?l" | (later) "?l < t" | (same) "?l = t" "q \<noteq> 0" | (full) "?l = t" "q = 0" by fastforce
  then show ?thesis
  proof cases
    case behind
    then show ?thesis using g ok t by (simp add: get_id_def c)
  next
    case later
    then have "unat ?l < unat t" by (simp add: word_less_nat_alt)
    then have "unat ?l * 4096 + unat (sf_sequence s) < unat t * 4096" using ok by (simp add: sf_ok_def)
    moreover have "get_id clock s = Some (sf_compose t (sf_worker_id s) 0, rest,
        s\<lparr>sf_sequence := 0, sf_last_timestamp := t\<rparr>)"
      using later by (auto simp: get_id_def c)
    ultimately show ?thesis using g ok t by (auto simp: sf_ok_def id_of_def sf_key_def)
  next
    case same
    have lt: "unat (sf_sequence s) < 4096" using ok by (simp add: sf_ok_def)
    have "unat q = take_bit 12 (unat (sf_sequence s + 1))"
      using same(1) by (simp add: q_def seq_mask unsigned_take_bit_eq)
    also have "unat (sf_sequence s + 1) = unat (sf_sequence s) + 1"
      using lt by (simp add: unat_word_ariths)
    finally have qq: "unat q = (unat (sf_sequence s) + 1) mod 4096" by (simp add: take_bit_nat_def)
    have "unat (sf_sequence s) \<noteq> 4095"
    proof
      assume "unat (sf_sequence s) = 4095"
      then have "unat q = 0" using qq by simp
      then show False using same(2) by (simp add: unat_eq_0)
    qed
    then have "unat q = unat (sf_sequence s) + 1" using qq lt by simp
    moreover have "get_id clock s = Some (sf_compose t (sf_worker_id s) q, rest,
        s\<lparr>sf_sequence := q, sf_last_timestamp := t\<rparr>)"
      using same q_def by (simp add: get_id_def c Let_def)
    ultimately show ?thesis using g ok t q same(1) by (auto simp: sf_ok_def id_of_def sf_key_def)
  next
    case full
    then obtain t2 rest2 where u: "til_next_millis ?l rest = Some (t2, rest2)"
      and e: "i = sf_compose t2 (sf_worker_id s) q" "clock' = rest2"
        "s' = s\<lparr>sf_sequence := q, sf_last_timestamp := t2\<rparr>"
      using g q_def by (auto simp: get_id_def c Let_def bind_Some_iff)
    have u2: "?l < t2" "t2 \<in> set rest" "set rest2 \<subseteq> set rest" using til_next_spec [OF u] by auto
    then have "unat ?l < unat t2" by (simp add: word_less_nat_alt)
    then have "unat ?l * 4096 + unat (sf_sequence s) < unat t2 * 4096" using ok by (simp add: sf_ok_def)
    moreover have "in_range rest2" "sf_twepoch \<le> t2" "unat t2 < unat sf_twepoch + 2 ^ 41"
      using u2 t(3) by (auto simp: in_range_def)
    ultimately show ?thesis using e ok q by (auto simp: sf_ok_def id_of_def sf_key_def)
  qed
qed

lemma id_of_key:
  assumes "sf_ok s" "sf_twepoch \<le> sf_last_timestamp s" "unat (sf_last_timestamp s) < unat sf_twepoch + 2 ^ 41"
  shows "unat (id_of s) = (unat (sf_last_timestamp s) - unat sf_twepoch) * 2 ^ 22 +
    unat (sf_worker_id s) * 2 ^ 12 + unat (sf_sequence s)"
  unfolding id_of_def by (rule unat_compose) (use assms in \<open>auto simp: sf_ok_def\<close>)

text \<open>Every id is greater than one that an earlier key of the same machine would give.\<close>

definition above :: "u32 \<Rightarrow> nat \<Rightarrow> u64 \<Rightarrow> bool" where
  "above w k i \<longleftrightarrow> (\<exists>s. sf_ok s \<and> sf_worker_id s = w \<and> sf_twepoch \<le> sf_last_timestamp s \<and>
     unat (sf_last_timestamp s) < unat sf_twepoch + 2 ^ 41 \<and> k < sf_key s \<and> i = id_of s)"

lemma above_less:
  assumes s: "sf_ok s" "sf_worker_id s = w" "sf_twepoch \<le> sf_last_timestamp s"
      "unat (sf_last_timestamp s) < unat sf_twepoch + 2 ^ 41" and a: "above w (sf_key s) i"
  shows "id_of s < i"
proof -
  obtain r where r: "sf_ok r" "sf_worker_id r = w" "sf_twepoch \<le> sf_last_timestamp r"
      "unat (sf_last_timestamp r) < unat sf_twepoch + 2 ^ 41" "sf_key s < sf_key r" "i = id_of r"
    using a by (auto simp: above_def)
  have le: "unat sf_twepoch \<le> unat (sf_last_timestamp s)" "unat sf_twepoch \<le> unat (sf_last_timestamp r)"
    using s(3) r(3) by (simp_all add: word_le_nat_alt)
  have q: "unat (sf_sequence s) < 4096" "unat (sf_sequence r) < 4096" "unat w < 1024"
    using s(1,2) r(1) by (auto simp: sf_ok_def)
  have "unat (id_of s) < unat (id_of r)"
    unfolding id_of_key [OF s(1,3,4)] id_of_key [OF r(1,3,4)] s(2) r(2)
  proof -
    define a b where "a = unat (sf_last_timestamp s) - unat sf_twepoch"
      and "b = unat (sf_last_timestamp r) - unat sf_twepoch"
    have "unat (sf_last_timestamp s) = a + unat sf_twepoch" "unat (sf_last_timestamp r) = b + unat sf_twepoch"
      using le by (simp_all add: a_def b_def)
    then have "a * 4096 + unat (sf_sequence s) < b * 4096 + unat (sf_sequence r)"
      using r(5) unfolding sf_key_def by simp
    then have "a * 2 ^ 22 + unat w * 2 ^ 12 + unat (sf_sequence s) < b * 2 ^ 22 + unat w * 2 ^ 12 + unat (sf_sequence r)"
      using q by (cases "a < b"; cases "a = b") auto
    then show "(unat (sf_last_timestamp s) - unat sf_twepoch) * 2 ^ 22 + unat w * 2 ^ 12 + unat (sf_sequence s) <
        (unat (sf_last_timestamp r) - unat sf_twepoch) * 2 ^ 22 + unat w * 2 ^ 12 + unat (sf_sequence r)"
      by (simp add: a_def b_def)
  qed
  then show ?thesis using r(6) by (simp add: word_less_nat_alt)
qed

lemma get_ids_sorted:
  "get_ids n clock s = Some (ids, clock', s') \<Longrightarrow> sf_ok s \<Longrightarrow> in_range clock \<Longrightarrow>
    sorted_wrt (<) (filter (\<lambda>i. i \<noteq> 0) ids) \<and> (\<forall>i \<in> set ids. i \<noteq> 0 \<longrightarrow> above (sf_worker_id s) (sf_key s) i)"
proof (induction n arbitrary: clock s ids)
  case (Suc n)
  obtain i c1 s1 ids1 where g: "get_id clock s = Some (i, c1, s1)" "get_ids n c1 s1 = Some (ids1, clock', s')"
    "ids = i # ids1"
    using Suc.prems(1) by (auto simp: bind_Some_iff)
  note C = get_id_cases [OF g(1) Suc.prems(2,3)]
  have IH: "sorted_wrt (<) (filter (\<lambda>i. i \<noteq> 0) ids1)"
    "\<And>j. j \<in> set ids1 \<Longrightarrow> j \<noteq> 0 \<Longrightarrow> above (sf_worker_id s1) (sf_key s1) j"
    using Suc.IH [OF g(2)] C by auto
  have w: "sf_worker_id s1 = sf_worker_id s" "sf_ok s1" using C by auto
  show ?case
  proof (cases "i = 0 \<and> s1 = s")
    case True
    then show ?thesis using IH g(3) by simp
  next
    case False
    then have i: "i = id_of s1" "sf_key s < sf_key s1" "sf_twepoch \<le> sf_last_timestamp s1"
      "unat (sf_last_timestamp s1) < unat sf_twepoch + 2 ^ 41" using C by auto
    have "i < j" if "j \<in> set ids1" "j \<noteq> 0" for j
      unfolding i(1) by (rule above_less [OF w(2) refl i(3,4) IH(2) [OF that]])
    moreover have "above (sf_worker_id s) (sf_key s) j" if "j \<in> set ids1" "j \<noteq> 0" for j
      using IH(2) [OF that] i(2) w(1) unfolding above_def by (metis order.strict_trans)
    moreover have "above (sf_worker_id s) (sf_key s) i"
      using i w unfolding above_def by blast
    ultimately show ?thesis using IH(1) g(3) by auto
  qed
qed simp

lemma new_snowflake_ok: "sf_ok (set_worker_id w new_snowflake)"
  using worker_mask [of w new_snowflake] by (simp add: sf_ok_def set_worker_id_def new_snowflake_def)

section \<open>Properties\<close>

text \<open>C37: The ids of one generator increase. Whatever machine number was set, and however the clock runs, back
  or forth, within the 69 years of its range, the ids of any number of calls that are not the invalid
  id 0 are strictly increasing, so none is given twice.\<close>

theorem snowflake_increasing:
  assumes "in_range clock" "get_ids n clock (set_worker_id w new_snowflake) = Some (ids, clock', s')"
  shows "sorted_wrt (<) (filter (\<lambda>i. i \<noteq> 0) ids)"
  using get_ids_sorted [OF assms(2) new_snowflake_ok assms(1)] by simp

theorem snowflake_increasing_witness:
  "\<exists>ids clock s. get_ids 4 [1609430400001, 1609430400001, 1609430400000, 1609430400002]
      (set_worker_id 5 new_snowflake) = Some (ids, clock, s) \<and>
    length ids = 4 \<and> ids ! 2 = 0 \<and> sorted_wrt (<) (filter (\<lambda>i. i \<noteq> 0) ids)"
proof -
  have "in_range [1609430400001, 1609430400001, 1609430400000, 1609430400002]"
    by (simp add: in_range_def sf_twepoch_def)
  moreover have "map_option (\<lambda>(ids, _, _). (length ids, ids ! 2)) (get_ids 4
      [1609430400001, 1609430400001, 1609430400000, 1609430400002] (set_worker_id 5 new_snowflake)) = Some (4, 0)"
    by code_simp
  ultimately show ?thesis
    using snowflake_increasing [of "[1609430400001, 1609430400001, 1609430400000, 1609430400002]" 4 5]
    by (auto simp del: get_ids.simps)
qed

text \<open>Ids of different machines differ, and an id gives back its parts: within the range, two ids are
  equal only if their time stamps, machine numbers and sequence numbers are.\<close>

theorem snowflake_parts:
  assumes "sf_twepoch \<le> t" "unat t < unat sf_twepoch + 2 ^ 41" "unat w < 1024" "unat q < 4096"
    and "sf_twepoch \<le> t'" "unat t' < unat sf_twepoch + 2 ^ 41" "unat w' < 1024" "unat q' < 4096"
    and "sf_compose t w q = sf_compose t' w' q'"
  shows "t = t' \<and> w = w' \<and> q = q'"
proof -
  let ?f = "\<lambda>t w q. (unat (t::u64) - unat sf_twepoch) * 2 ^ 22 + unat (w::u32) * 2 ^ 12 + unat (q::u32)"
  have e: "?f t w q = ?f t' w' q'"
    using unat_compose [OF assms(1-4)] unat_compose [OF assms(5-8)] assms(9) by simp
  have parts: "?f t w q mod 4096 = unat q \<and> ?f t w q div 4096 mod 1024 = unat w \<and>
      ?f t w q div 4194304 = unat t - unat sf_twepoch"
    if "unat w < 1024" "unat q < 4096" for t w q
  proof -
    define m where "m = (unat t - unat sf_twepoch) * 1024 + unat w"
    have f: "?f t w q = m * 4096 + unat q" by (simp add: m_def)
    have d: "?f t w q div 4096 = m" "?f t w q mod 4096 = unat q"
      unfolding f using that(2) by simp_all
    have "?f t w q div 4194304 = ?f t w q div 4096 div 1024" by (simp add: div_mult2_eq [symmetric])
    moreover have "m mod 1024 = unat w" "m div 1024 = unat t - unat sf_twepoch"
      using that(1) by (simp_all add: m_def)
    ultimately show ?thesis using d by simp
  qed
  have "unat q = unat q'" "unat w = unat w'" "unat t - unat sf_twepoch = unat t' - unat sf_twepoch"
    using parts [OF assms(3,4), of t] parts [OF assms(7,8), of t'] e by metis+
  moreover have "unat sf_twepoch \<le> unat t" "unat sf_twepoch \<le> unat t'"
    using assms(1,5) by (simp_all add: word_le_nat_alt)
  ultimately show ?thesis by (simp add: word_unat_eq_iff)
qed

theorem snowflake_parts_witness:
  "sf_compose 1609430400001 5 7 \<noteq> sf_compose 1609430400001 6 7"
  using snowflake_parts [of 1609430400001 5 7 1609430400001 6 7] by (auto simp: sf_twepoch_def)

end
