(* ===== verification/Memory_Stream.thy ===== *)
theory Memory_Stream
  imports Prelude
begin

text \<open>
  MemoryStream (boost_net/memory_stream.hpp): a growing block of memory with a write and read
  position, and the arguments serialised into it. A cell of memory that was never written is None;
  an access outside the block is undefined, the value None of the call. malloc and realloc are taken
  to succeed. A stream that does not own its memory has the memory's contents.
\<close>

section \<open>The stream\<close>

type_synonym cell = "u8 option"

(* src: boost_net/memory_stream.hpp 650-656 MemoryStream *)
record memory_stream =
  ms_size :: nat
  ms_offset :: nat
  ms_capacity :: nat
  ms_buffer :: "cell list option"
  ms_auto :: bool

text \<open>memcpy into the block at a position, and out of it; null pointers only with no bytes.\<close>

definition mem_of :: "memory_stream \<Rightarrow> cell list" where
  "mem_of m = (case ms_buffer m of None \<Rightarrow> [] | Some b \<Rightarrow> b)"

definition copy_in :: "nat \<Rightarrow> cell list \<Rightarrow> memory_stream \<Rightarrow> memory_stream option" where
  "copy_in off src m =
     (if src = [] then Some m
      else if off + length src \<le> length (mem_of m)
      then Some (m\<lparr>ms_buffer := Some (take off (mem_of m) @ src @ drop (off + length src) (mem_of m))\<rparr>)
      else None)"

definition copy_out :: "nat \<Rightarrow> nat \<Rightarrow> memory_stream \<Rightarrow> cell list option" where
  "copy_out off n m =
     (if n = 0 then Some [] else if off + n \<le> length (mem_of m) then Some (take n (drop off (mem_of m))) else None)"

definition malloc :: "nat \<Rightarrow> cell list" where
  "malloc n = replicate n None"

(* src: boost_net/memory_stream.hpp 46-53 MemoryStream::MemoryStream *)
definition new_stream :: memory_stream where
  "new_stream = \<lparr>ms_size = 0, ms_offset = 0, ms_capacity = 0, ms_buffer = None, ms_auto = True\<rparr>"

(* src: boost_net/memory_stream.hpp 78-85 MemoryStream::MemoryStream *)
definition new_stream_of_capacity :: "nat \<Rightarrow> memory_stream" where
  "new_stream_of_capacity c =
     \<lparr>ms_size = 0, ms_offset = 0, ms_capacity = c, ms_buffer = Some (malloc c), ms_auto = True\<rparr>"

(* src: boost_net/memory_stream.hpp 90-112 MemoryStream::MemoryStream *)
definition new_stream_on :: "cell list \<Rightarrow> bool \<Rightarrow> memory_stream" where
  "new_stream_on buffer auto_delete =
     \<lparr>ms_size = length buffer, ms_offset = 0, ms_capacity = length buffer, ms_buffer = Some buffer,
      ms_auto = auto_delete\<rparr>"

(* src: boost_net/memory_stream.hpp 259-267 MemoryStream::destroy *)
definition ms_destroy :: "memory_stream \<Rightarrow> memory_stream" where
  "ms_destroy m = m\<lparr>ms_size := 0, ms_offset := 0, ms_capacity := 0, ms_buffer := None, ms_auto := True\<rparr>"

(* src: boost_net/memory_stream.hpp 55-66 MemoryStream::MemoryStream *)
definition ms_copy :: "memory_stream \<Rightarrow> memory_stream option" where
  "ms_copy rhs =
     (if ms_auto rhs then
        do { src \<leftarrow> copy_out 0 (ms_size rhs) rhs;
             copy_in 0 src (rhs\<lparr>ms_buffer := Some (malloc (ms_capacity rhs))\<rparr>) }
      else Some rhs)"

(* src: boost_net/memory_stream.hpp 118-136 MemoryStream::operator= *)
definition ms_assign :: "memory_stream \<Rightarrow> memory_stream \<Rightarrow> memory_stream option" where
  "ms_assign rhs m =
     (let m1 = (if ms_auto m then ms_destroy m else m);
          m2 = m1\<lparr>ms_size := ms_size rhs, ms_offset := ms_offset rhs, ms_capacity := ms_capacity rhs,
                  ms_buffer := ms_buffer rhs, ms_auto := ms_auto rhs\<rparr>
      in if ms_auto rhs then
           do { src \<leftarrow> copy_out 0 (ms_size rhs) rhs;
                copy_in 0 src (m2\<lparr>ms_buffer := Some (malloc (ms_capacity rhs))\<rparr>) }
         else Some m2)"

(* src: boost_net/memory_stream.hpp 138-153 MemoryStream::operator= *)
definition ms_move :: "memory_stream \<Rightarrow> memory_stream \<times> memory_stream" where
  "ms_move rhs = (rhs, rhs\<lparr>ms_auto := False\<rparr>)"

(* src: boost_net/memory_stream.hpp 161-186 MemoryStream::get_res_length *)
definition ms_res_length :: "memory_stream \<Rightarrow> nat" where
  "ms_res_length m = nat ((int (ms_size m) - int (ms_offset m)) mod 2 ^ 64)"

(* src: boost_net/memory_stream.hpp 189-191 MemoryStream::reset_offset *)
definition ms_reset_offset :: "int \<Rightarrow> memory_stream \<Rightarrow> memory_stream" where
  "ms_reset_offset off m = m\<lparr>ms_offset := nat (off mod 2 ^ 64)\<rparr>"

(* src: boost_net/memory_stream.hpp 193-195 MemoryStream::reset_offset *)
definition ms_offset_to_end :: "memory_stream \<Rightarrow> memory_stream" where
  "ms_offset_to_end m = m\<lparr>ms_offset := ms_size m\<rparr>"

(* src: boost_net/memory_stream.hpp 197-199 MemoryStream::add_offset *)
definition ms_add_offset :: "int \<Rightarrow> memory_stream \<Rightarrow> memory_stream" where
  "ms_add_offset off m = m\<lparr>ms_offset := nat ((int (ms_offset m) + off) mod 2 ^ 64)\<rparr>"

text \<open>
  reset_capacity takes over memory it does not own by a copy of the old capacity into a block of the
  new length, which must not be smaller.
\<close>

(* src: boost_net/memory_stream.hpp 201-219 MemoryStream::reset_capacity *)
definition reset_capacity :: "nat \<Rightarrow> memory_stream \<Rightarrow> memory_stream option" where
  "reset_capacity len m =
     (if \<not> ms_auto m then
        do { tmp \<leftarrow> copy_out 0 (ms_capacity m) m;
             m1 \<leftarrow> copy_in 0 tmp (m\<lparr>ms_buffer := Some (malloc len)\<rparr>);
             Some (m1\<lparr>ms_auto := True, ms_capacity := len\<rparr>) }
      else if ms_capacity m < len then
        Some (m\<lparr>ms_buffer := Some (mem_of m @ malloc (len - length (mem_of m))), ms_capacity := len\<rparr>)
      else Some m)"

(* src: boost_net/memory_stream.hpp 221-230 MemoryStream::attach *)
definition ms_attach :: "cell list \<Rightarrow> memory_stream \<Rightarrow> memory_stream" where
  "ms_attach src m = m\<lparr>ms_size := length src, ms_buffer := Some src, ms_capacity := length src,
     ms_offset := 0, ms_auto := False\<rparr>"

(* src: boost_net/memory_stream.hpp 232-240 MemoryStream::detach *)
definition ms_detach :: "memory_stream \<Rightarrow> cell list option \<times> memory_stream" where
  "ms_detach m = (ms_buffer m, m\<lparr>ms_size := 0, ms_offset := 0, ms_capacity := 0, ms_buffer := None, ms_auto := True\<rparr>)"

(* src: boost_net/memory_stream.hpp 242-250 MemoryStream::clone *)
definition ms_clone :: "memory_stream \<Rightarrow> memory_stream option" where
  "ms_clone m =
     (if \<not> ms_auto m then
        do { tmp \<leftarrow> copy_out 0 (ms_capacity m) m;
             m1 \<leftarrow> copy_in 0 tmp (m\<lparr>ms_buffer := Some (malloc (ms_capacity m))\<rparr>);
             Some (m1\<lparr>ms_auto := True\<rparr>) }
      else Some m)"

(* src: boost_net/memory_stream.hpp 253-257 MemoryStream::clear *)
definition ms_clear :: "memory_stream \<Rightarrow> memory_stream" where
  "ms_clear m = (if ms_buffer m \<noteq> None \<and> ms_auto m then m\<lparr>ms_size := 0\<rparr> else m)\<lparr>ms_offset := 0\<rparr>"

(* src: boost_net/memory_stream.hpp 271-276 MemoryStream::load *)
definition ms_load :: "cell list \<Rightarrow> memory_stream \<Rightarrow> memory_stream option" where
  "ms_load buffer m =
     do { m1 \<leftarrow> reset_capacity (length buffer) m;
          m2 \<leftarrow> copy_in 0 buffer m1;
          Some (m2\<lparr>ms_size := length buffer, ms_offset := 0\<rparr>) }"

(* src: boost_net/memory_stream.hpp 279-285 MemoryStream::load *)
definition ms_load_cap :: "cell list \<Rightarrow> nat \<Rightarrow> memory_stream \<Rightarrow> memory_stream option" where
  "ms_load_cap buffer capacity m =
     do { m1 \<leftarrow> reset_capacity (max capacity (length buffer)) m;
          m2 \<leftarrow> copy_in 0 buffer m1;
          Some (m2\<lparr>ms_size := length buffer, ms_offset := 0\<rparr>) }"

text \<open>The doubling loop; the capacity grows with every turn that is defined.\<close>

lemma reset_capacity_grows:
  "reset_capacity len m = Some m' \<Longrightarrow> ms_capacity m < len \<Longrightarrow> ms_capacity m' = len \<and> ms_auto m'"
  by (auto simp: reset_capacity_def bind_Some_iff split: if_splits)

(* src: boost_net/memory_stream.hpp 293-295 MemoryStream::append *)
function grow_to :: "nat \<Rightarrow> memory_stream \<Rightarrow> memory_stream option" where
  "grow_to need m =
     (if need > ms_capacity m
      then (case reset_capacity (if ms_capacity m = 0 then need else ms_capacity m * 2) m of
              None \<Rightarrow> None
            | Some m' \<Rightarrow> grow_to need m')
      else Some m)"
  by pat_completeness auto

termination
proof (relation "measure (\<lambda>(need, m). need - ms_capacity m)", goal_cases)
  case (2 need m m')
  have "ms_capacity m < (if ms_capacity m = 0 then need else ms_capacity m * 2)" using 2(1) by auto
  then have "ms_capacity m < ms_capacity m'" using reset_capacity_grows [OF 2(2)] by simp
  then show ?case using 2(1) by simp
qed simp

declare grow_to.simps [simp del]

(* src: boost_net/memory_stream.hpp 287-301 MemoryStream::append *)
definition ms_append_at :: "cell list \<Rightarrow> nat \<Rightarrow> memory_stream \<Rightarrow> memory_stream option" where
  "ms_append_at buffer off m =
     (if buffer = [] then Some m
      else do {
        m1 \<leftarrow> grow_to (off + length buffer) m;
        m2 \<leftarrow> copy_in off buffer m1;
        Some (if off + length buffer > ms_size m2 then m2\<lparr>ms_size := off + length buffer\<rparr> else m2) })"

(* src: boost_net/memory_stream.hpp 302-315 MemoryStream::append *)
definition ms_append :: "cell list \<Rightarrow> memory_stream \<Rightarrow> memory_stream option" where
  "ms_append buffer m =
     (if buffer = [] then Some m
      else do {
        m1 \<leftarrow> grow_to (ms_offset m + length buffer) m;
        m2 \<leftarrow> copy_in (ms_offset m1) buffer m1;
        Some (m2\<lparr>ms_offset := ms_offset m2 + length buffer, ms_size := ms_size m2 + length buffer\<rparr>) })"

section \<open>Arguments\<close>

text \<open>A 32-bit number in memory, least significant byte first.\<close>

definition le32 :: "nat \<Rightarrow> bytes" where
  "le32 n = map word_of_nat [n, n div 2 ^ 8, n div 2 ^ 16, n div 2 ^ 24]"

fun of_le :: "bytes \<Rightarrow> nat" where
  "of_le [] = 0"
| "of_le (b # bs) = unat b + 256 * of_le bs"

text \<open>
  An argument is a plain value, given by its bytes in memory, a string or a stream, or a tuple,
  whose elements are appended in its place.
\<close>

datatype arg = Raw bytes | Str bytes | Mem bytes | Tup "arg list"

(* src: boost_net/memory_stream.hpp 316-357 MemoryStream::append *)
fun ms_append_arg :: "arg \<Rightarrow> memory_stream \<Rightarrow> memory_stream option" where
  "ms_append_arg (Raw b) m = ms_append (map Some b) m"
| "ms_append_arg (Str b) m = Option.bind (ms_append (map Some (le32 (length b))) m) (ms_append (map Some b))"
| "ms_append_arg (Mem b) m = Option.bind (ms_append (map Some (le32 (length b))) m) (ms_append (map Some b))"
| "ms_append_arg (Tup as) m = None"

(* src: boost_net/memory_stream.hpp 360-371 MemoryStream::append_args *)
fun ms_append_args :: "arg list \<Rightarrow> memory_stream \<Rightarrow> memory_stream option" where
  "ms_append_args [] m = Some m"
| "ms_append_args (Tup as # srcs) m = ms_append_args (as @ srcs) m"
| "ms_append_args (src # srcs) m = Option.bind (ms_append_arg src m) (ms_append_args srcs)"

(* src: boost_net/memory_stream.hpp 545-562 MemoryStream::get_args_length *)
fun args_length :: "arg list \<Rightarrow> nat" where
  "args_length [] = 0"
| "args_length (Raw b # as) = length b + args_length as"
| "args_length (Str b # as) = 4 + length b + args_length as"
| "args_length (Mem b # as) = 4 + length b + args_length as"
| "args_length (Tup ts # as) = args_length ts + args_length as"

(* src: boost_net/memory_stream.hpp 565-580 MemoryStream::args_has_memory *)
fun args_has_memory :: "arg list \<Rightarrow> bool" where
  "args_has_memory [] = False"
| "args_has_memory (Raw b # as) = args_has_memory as"
| "args_has_memory (Str b # as) = True"
| "args_has_memory (Mem b # as) = True"
| "args_has_memory (Tup ts # as) = (args_has_memory ts \<or> args_has_memory as)"

(* src: boost_net/memory_stream.hpp 383-391 MemoryStream::read *)
definition ms_read :: "nat \<Rightarrow> bool \<Rightarrow> memory_stream \<Rightarrow> (cell list \<times> memory_stream) option" where
  "ms_read len offset_flag m =
     (if len = 0 then Some ([], m)
      else do { xs \<leftarrow> copy_out (ms_offset m) len m;
                Some (xs, if offset_flag then m\<lparr>ms_offset := ms_offset m + len\<rparr> else m) })"

text \<open>A length read from memory that was not written is not determined, here None.\<close>

definition definite :: "cell list \<Rightarrow> bytes option" where
  "definite xs = (if None \<in> set xs then None else Some (map the xs))"

(* src: boost_net/memory_stream.hpp 399-400 MemoryStream::read *)
definition ms_read_length :: "memory_stream \<Rightarrow> (nat \<times> memory_stream) option" where
  "ms_read_length m =
     do { (xs, m1) \<leftarrow> ms_read 4 True m; bs \<leftarrow> definite xs; Some (of_le bs, m1) }"

text \<open>Reading a string moves behind it; reading a stream moves behind its length only.\<close>

(* src: boost_net/memory_stream.hpp 408-417 MemoryStream::read *)
definition ms_read_string :: "bool \<Rightarrow> memory_stream \<Rightarrow> (cell list \<times> memory_stream) option" where
  "ms_read_string offset_flag m =
     do { (len, m1) \<leftarrow> ms_read_length m;
          xs \<leftarrow> copy_out (ms_offset m1) len m1;
          Some (xs, if \<not> offset_flag then m1\<lparr>ms_offset := ms_offset m1 - 4\<rparr>
                    else m1\<lparr>ms_offset := ms_offset m1 + len\<rparr>) }"

(* src: boost_net/memory_stream.hpp 398-407 MemoryStream::read *)
definition ms_read_stream :: "bool \<Rightarrow> memory_stream \<Rightarrow> memory_stream \<Rightarrow> (memory_stream \<times> memory_stream) option" where
  "ms_read_stream offset_flag dst m =
     do { (len, m1) \<leftarrow> ms_read_length m;
          xs \<leftarrow> copy_out (ms_offset m1) len m1;
          d \<leftarrow> ms_load xs (ms_destroy dst);
          Some (d, if \<not> offset_flag then m1\<lparr>ms_offset := ms_offset m1 - 4\<rparr> else m1) }"

datatype arg_type = RawT nat | StrT | MemT

(* src: boost_net/memory_stream.hpp 432-468 MemoryStream::read_args *)
fun ms_read_arg :: "arg_type \<Rightarrow> memory_stream \<Rightarrow> (cell list \<times> memory_stream) option" where
  "ms_read_arg (RawT n) m = ms_read n True m"
| "ms_read_arg StrT m = ms_read_string True m"
| "ms_read_arg MemT m =
     do { (d, m1) \<leftarrow> ms_read_stream True new_stream m;
          xs \<leftarrow> copy_out 0 (ms_size d) d;
          Some (xs, m1) }"

(* src: boost_net/memory_stream.hpp 470-479 MemoryStream::read_args *)
fun ms_read_args :: "arg_type list \<Rightarrow> memory_stream \<Rightarrow> (cell list list \<times> memory_stream) option" where
  "ms_read_args [] m = Some ([], m)"
| "ms_read_args (t # ts) m =
     do { (x, m1) \<leftarrow> ms_read_arg t m;
          (xs, m2) \<leftarrow> ms_read_args ts m1;
          Some (x # xs, m2) }"

section \<open>Owned streams\<close>

definition ms_owned :: "memory_stream \<Rightarrow> bool" where
  "ms_owned m \<longleftrightarrow> ms_auto m \<and> length (mem_of m) = ms_capacity m"

lemma mem_of_upd [simp]:
  "mem_of (m\<lparr>ms_size := a\<rparr>) = mem_of m" "mem_of (m\<lparr>ms_offset := a\<rparr>) = mem_of m"
  "mem_of (m\<lparr>ms_capacity := a\<rparr>) = mem_of m" "mem_of (m\<lparr>ms_auto := b\<rparr>) = mem_of m"
  "mem_of (m\<lparr>ms_buffer := Some c\<rparr>) = c" "mem_of (m\<lparr>ms_buffer := None\<rparr>) = []"
  by (simp_all add: mem_of_def)

lemma new_stream_owned [simp]: "ms_owned new_stream" "ms_owned (new_stream_of_capacity n)"
  by (simp_all add: ms_owned_def new_stream_def new_stream_of_capacity_def mem_of_def malloc_def)

lemma grow_owned:
  "ms_owned m \<Longrightarrow> \<exists>m' n. grow_to need m = Some m' \<and> ms_owned m' \<and> mem_of m' = mem_of m @ malloc n \<and>
     ms_size m' = ms_size m \<and> ms_offset m' = ms_offset m \<and> need \<le> ms_capacity m'"
proof (induction need m rule: grow_to.induct)
  case (1 need m)
  show ?case
  proof (cases "need > ms_capacity m")
    case False
    then show ?thesis using 1(2) by (intro exI [of _ m] exI [of _ 0]) (simp add: grow_to.simps malloc_def)
  next
    case True
    let ?len = "if ms_capacity m = 0 then need else ms_capacity m * 2"
    define m1 where "m1 = m\<lparr>ms_buffer := Some (mem_of m @ malloc (?len - length (mem_of m))), ms_capacity := ?len\<rparr>"
    have gt: "ms_capacity m < ?len" using True by auto
    have r: "reset_capacity ?len m = Some m1"
      using gt 1(2) by (simp add: reset_capacity_def ms_owned_def m1_def)
    have m1: "ms_owned m1" "mem_of m1 = mem_of m @ malloc (?len - length (mem_of m))"
      "ms_size m1 = ms_size m" "ms_offset m1 = ms_offset m"
      using 1(2) gt by (simp_all add: m1_def ms_owned_def malloc_def)
    obtain m' n where "grow_to need m1 = Some m'" "ms_owned m'" "mem_of m' = mem_of m1 @ malloc n"
      "ms_size m' = ms_size m1" "ms_offset m' = ms_offset m1" "need \<le> ms_capacity m'"
      using 1(1) [OF True r m1(1)] by blast
    then show ?thesis using True r m1
      by (intro exI [of _ m'] exI [of _ "?len - length (mem_of m) + n"])
         (simp add: grow_to.simps [of need m] malloc_def replicate_add)
  qed
qed

text \<open>A stream written from the start: its contents, with the position at their end.\<close>

definition ms_filled :: "memory_stream \<Rightarrow> bytes \<Rightarrow> bool" where
  "ms_filled m bs \<longleftrightarrow> ms_owned m \<and> ms_size m = length bs \<and> ms_offset m = length bs \<and>
     length bs \<le> ms_capacity m \<and> take (length bs) (mem_of m) = map Some bs"

lemma append_filled:
  assumes "ms_filled m bs"
  shows "\<exists>m'. ms_append (map Some xs) m = Some m' \<and> ms_filled m' (bs @ xs)"
proof (cases "xs = []")
  case True
  then show ?thesis using assms by (simp add: ms_append_def)
next
  case False
  have m: "ms_owned m" "ms_size m = length bs" "ms_offset m = length bs" "length bs \<le> ms_capacity m"
    "take (length bs) (mem_of m) = map Some bs" using assms by (simp_all add: ms_filled_def)
  obtain m1 n where m1: "grow_to (length bs + length xs) m = Some m1" "ms_owned m1"
    "mem_of m1 = mem_of m @ malloc n" "ms_size m1 = length bs" "ms_offset m1 = length bs"
    "length bs + length xs \<le> ms_capacity m1"
    using grow_owned [OF m(1), of "length bs + length xs"] m(2,3) by auto
  have lb: "length bs \<le> length (mem_of m)" using m(1,4) by (simp add: ms_owned_def)
  then have tk: "take (length bs) (mem_of m1) = map Some bs" using m1(3) m(5) by simp
  have fit: "length bs + length xs \<le> length (mem_of m1)" using m1(2,6) by (simp add: ms_owned_def)
  define m2 where "m2 = m1\<lparr>ms_buffer := Some (map Some bs @ map Some xs @ drop (length bs + length xs) (mem_of m1))\<rparr>"
  have c: "copy_in (ms_offset m1) (map Some xs) m1 = Some m2"
    using fit m1(5) tk False by (simp add: copy_in_def m2_def)
  define m3 where "m3 = m2\<lparr>ms_offset := ms_offset m2 + length xs, ms_size := ms_size m2 + length xs\<rparr>"
  have "ms_append (map Some xs) m = Some m3"
    using m(3) m1(1) c False by (simp add: ms_append_def m3_def)
  moreover have "ms_filled m3 (bs @ xs)"
    using m1(2,4,5,6) fit by (simp add: ms_filled_def m3_def m2_def ms_owned_def)
  ultimately show ?thesis by blast
qed

lemma new_stream_filled: "ms_filled new_stream []"
  by (simp add: ms_filled_def) (simp add: new_stream_def)

section \<open>The round trip\<close>

fun enc_args :: "arg list \<Rightarrow> bytes" where
  "enc_args [] = []"
| "enc_args (Raw b # as) = b @ enc_args as"
| "enc_args (Str b # as) = le32 (length b) @ b @ enc_args as"
| "enc_args (Mem b # as) = le32 (length b) @ b @ enc_args as"
| "enc_args (Tup ts # as) = enc_args (ts @ as)"

lemma length_le32 [simp]: "length (le32 n) = 4"
  by (simp add: le32_def)

lemma append_args_filled:
  "ms_filled m bs \<Longrightarrow> \<exists>m'. ms_append_args as m = Some m' \<and> ms_filled m' (bs @ enc_args as)"
proof (induction "as" m arbitrary: bs rule: ms_append_args.induct, goal_cases Nil Tup Raw Str Mem)
  case (Tup ts srcs m bs)
  then show ?case by simp
next
  case (Raw b srcs m bs)
  obtain m1 where "ms_append (map Some b) m = Some m1" "ms_filled m1 (bs @ b)"
    using append_filled [OF Raw(2)] by blast
  then show ?case using Raw(1) [of m1 "bs @ b"] by simp
next
  case (Str b srcs m bs)
  obtain m1 where m1: "ms_append (map Some (le32 (length b))) m = Some m1" "ms_filled m1 (bs @ le32 (length b))"
    using append_filled [OF Str(2)] by blast
  obtain m2 where m2: "ms_append (map Some b) m1 = Some m2" "ms_filled m2 ((bs @ le32 (length b)) @ b)"
    using append_filled [OF m1(2)] by blast
  then show ?case using Str(1) [OF _ m2(2)] m1(1) by simp
next
  case (Mem b srcs m bs)
  obtain m1 where m1: "ms_append (map Some (le32 (length b))) m = Some m1" "ms_filled m1 (bs @ le32 (length b))"
    using append_filled [OF Mem(2)] by blast
  obtain m2 where m2: "ms_append (map Some b) m1 = Some m2" "ms_filled m2 ((bs @ le32 (length b)) @ b)"
    using append_filled [OF m1(2)] by blast
  then show ?case using Mem(1) [OF _ m2(2)] m1(1) by simp
qed simp

lemma args_length_append: "args_length (as @ bs) = args_length as + args_length bs"
  by (induction "as" rule: args_length.induct) simp_all

lemma length_enc_args: "length (enc_args as) = args_length as"
  by (induction "as" rule: enc_args.induct) (simp_all add: args_length_append)

lemma of_le_le32: "n < 2 ^ 32 \<Longrightarrow> of_le (le32 n) = n"
proof -
  assume n: "n < 2 ^ 32"
  have "n = 256 * (n div 256) + n mod 256" by simp
  moreover have "n div 256 = 256 * (n div 65536) + n div 256 mod 256"
    using mult_div_mod_eq [of 256 "n div 256"] by (simp add: div_mult2_eq [symmetric])
  moreover have "n div 65536 = 256 * (n div 16777216) + n div 65536 mod 256"
    using mult_div_mod_eq [of 256 "n div 65536"] by (simp add: div_mult2_eq [symmetric])
  moreover have "of_le (le32 n) = n mod 256 + 256 * (n div 256 mod 256) +
      65536 * (n div 65536 mod 256) + 16777216 * (n div 16777216)"
    using n by (simp add: le32_def unat_of_nat)
  ultimately show ?thesis by linarith
qed

lemma definite_map_Some [simp]: "definite (map Some bs) = Some bs"
  by (simp add: definite_def image_iff comp_def)

text \<open>The stream holds the bytes bs from its position on.\<close>

definition ms_at :: "memory_stream \<Rightarrow> bytes \<Rightarrow> bool" where
  "ms_at m bs \<longleftrightarrow> ms_offset m + length bs \<le> length (mem_of m) \<and>
     take (length bs) (drop (ms_offset m) (mem_of m)) = map Some bs"

lemma ms_at_read:
  assumes "ms_at m (xs @ ys)"
  shows "copy_out (ms_offset m) (length xs) m = Some (map Some xs)"
    and "ms_at (m\<lparr>ms_offset := ms_offset m + length xs\<rparr>) ys"
    and "ms_read (length xs) True m = Some (map Some xs, m\<lparr>ms_offset := ms_offset m + length xs\<rparr>)"
proof -
  let ?d = "drop (ms_offset m) (mem_of m)"
  have a: "ms_offset m + length xs + length ys \<le> length (mem_of m)"
    "take (length xs + length ys) ?d = map Some xs @ map Some ys"
    using assms by (simp_all add: ms_at_def)
  have "take (length xs) (take (length xs + length ys) ?d) = map Some xs" unfolding a(2) by simp
  then have x: "take (length xs) ?d = map Some xs" by simp
  have "drop (length xs) (take (length xs + length ys) ?d) = map Some ys" unfolding a(2) by simp
  then have y: "take (length ys) (drop (length xs) ?d) = map Some ys" by (simp add: drop_take)
  show c: "copy_out (ms_offset m) (length xs) m = Some (map Some xs)"
    using x a(1) by (simp add: copy_out_def)
  show "ms_at (m\<lparr>ms_offset := ms_offset m + length xs\<rparr>) ys"
    using y a(1) by (simp add: ms_at_def add.commute)
  show "ms_read (length xs) True m = Some (map Some xs, m\<lparr>ms_offset := ms_offset m + length xs\<rparr>)"
    using c by (simp add: ms_read_def)
qed

lemma ms_at_length:
  assumes "ms_at m (le32 n @ ys)" "n < 2 ^ 32"
  shows "ms_read_length m = Some (n, m\<lparr>ms_offset := ms_offset m + 4\<rparr>)"
    "ms_at (m\<lparr>ms_offset := ms_offset m + 4\<rparr>) ys"
  using ms_at_read [OF assms(1)] assms(2) by (simp_all add: ms_read_length_def of_le_le32)

fun arg_types :: "arg list \<Rightarrow> arg_type list" where
  "arg_types [] = []"
| "arg_types (Raw b # as) = RawT (length b) # arg_types as"
| "arg_types (Str b # as) = StrT # arg_types as"
| "arg_types (Mem b # as) = MemT # arg_types as"
| "arg_types (Tup ts # as) = arg_types (ts @ as)"

fun arg_values :: "arg list \<Rightarrow> bytes list" where
  "arg_values [] = []"
| "arg_values (Raw b # as) = b # arg_values as"
| "arg_values (Str b # as) = b # arg_values as"
| "arg_values (Mem b # as) = b # arg_values as"
| "arg_values (Tup ts # as) = arg_values (ts @ as)"

text \<open>Strings and streams have lengths of 32 bits, and a stream comes last.\<close>

fun readable :: "arg list \<Rightarrow> bool" where
  "readable [] = True"
| "readable (Raw b # as) = readable as"
| "readable (Str b # as) = (length b < 2 ^ 32 \<and> readable as)"
| "readable (Mem b # as) = (length b < 2 ^ 32 \<and> args_length as = 0 \<and> arg_types as = [])"
| "readable (Tup ts # as) = readable (ts @ as)"

lemma load_new:
  "\<exists>d. ms_load (map Some b) (ms_destroy new_stream) = Some d \<and>
     copy_out 0 (ms_size d) d = Some (map Some b)"
proof (cases "b = []")
  case False
  then show ?thesis
    by (simp add: ms_load_def reset_capacity_def ms_destroy_def new_stream_def copy_in_def copy_out_def
        malloc_def mem_of_def)
qed (simp add: ms_load_def reset_capacity_def ms_destroy_def new_stream_def copy_in_def copy_out_def)

lemma read_stream_at:
  assumes "ms_at m (le32 (length b) @ b @ ys)" "length b < 2 ^ 32"
  shows "ms_read_arg MemT m = Some (map Some b, m\<lparr>ms_offset := ms_offset m + 4\<rparr>)"
proof -
  note L = ms_at_length [OF assms]
  have "copy_out (ms_offset m + 4) (length b) (m\<lparr>ms_offset := ms_offset m + 4\<rparr>) = Some (map Some b)"
    using ms_at_read(1) [OF L(2)] by simp
  then show ?thesis using L(1) load_new [of b] by (auto simp: ms_read_stream_def)
qed

lemma read_string_at:
  assumes "ms_at m (le32 (length b) @ b @ ys)" "length b < 2 ^ 32"
  shows "ms_read_arg StrT m = Some (map Some b, m\<lparr>ms_offset := ms_offset m + 4 + length b\<rparr>)"
    "ms_at (m\<lparr>ms_offset := ms_offset m + 4 + length b\<rparr>) ys"
proof -
  note L = ms_at_length [OF assms]
  have "copy_out (ms_offset m + 4) (length b) (m\<lparr>ms_offset := ms_offset m + 4\<rparr>) = Some (map Some b)"
    using ms_at_read(1) [OF L(2)] by simp
  then show "ms_read_arg StrT m = Some (map Some b, m\<lparr>ms_offset := ms_offset m + 4 + length b\<rparr>)"
    using L(1) by (simp add: ms_read_string_def)
  show "ms_at (m\<lparr>ms_offset := ms_offset m + 4 + length b\<rparr>) ys" using ms_at_read(2) [OF L(2)] by simp
qed

lemma read_args_at:
  "ms_at m (enc_args as) \<Longrightarrow> readable as \<Longrightarrow>
     \<exists>m'. ms_read_args (arg_types as) m = Some (map (map Some) (arg_values as), m')"
proof (induction "as" arbitrary: m rule: arg_types.induct)
  case (2 b as)
  note R = ms_at_read [OF 2(2) [simplified]]
  then show ?case using 2(1) [OF R(2)] 2(3) by auto
next
  case (3 b as)
  have l: "length b < 2 ^ 32" "readable as" using 3(3) by simp_all
  note R = read_string_at [OF 3(2) [simplified] l(1)]
  show ?case using R(1) 3(1) [OF R(2) l(2)] by auto
next
  case (4 b as)
  have l: "length b < 2 ^ 32" "arg_types as = []" using 4(3) by simp_all
  have "length (arg_values as) = length (arg_types as)" by (induction "as" rule: arg_types.induct) simp_all
  then have "arg_values as = []" using l(2) by simp
  then show ?case using read_stream_at [OF 4(2) [simplified] l(1)] l(2) by simp
qed simp_all

lemma filled_at_start: "ms_filled m bs \<Longrightarrow> ms_at (ms_reset_offset 0 m) bs"
  by (simp add: ms_filled_def ms_at_def ms_reset_offset_def ms_owned_def)

section \<open>Properties\<close>

text \<open>C16: Arguments read back what was appended. Appending any arguments to a fresh stream never writes
  outside its memory and makes it as long as get_args_length says; and when the strings and streams
  among the arguments are shorter than 2 to the 32 bytes and a memory stream comes only as the last
  one, reading the same types from the start gives the values appended.\<close>

theorem memory_stream_roundtrip:
  "\<exists>m. ms_append_args as new_stream = Some m \<and> ms_size m = args_length as \<and>
    (readable as \<longrightarrow> (\<exists>m'. ms_read_args (arg_types as) (ms_reset_offset 0 m) =
       Some (map (map Some) (arg_values as), m')))"
proof -
  obtain m where m: "ms_append_args as new_stream = Some m" "ms_filled m (enc_args as)"
    using append_args_filled [OF new_stream_filled, of "as"] by auto
  moreover have "ms_size m = args_length as" using m(2) by (simp add: ms_filled_def length_enc_args)
  ultimately show ?thesis using read_args_at [OF filled_at_start [OF m(2)]] by blast
qed

theorem memory_stream_roundtrip_witness:
  "\<exists>m m'. ms_append_args [Raw [1, 2], Tup [Str [7], Raw [3]], Mem [9, 9]] new_stream = Some m \<and>
    ms_read_args [RawT 2, StrT, RawT 1, MemT] (ms_reset_offset 0 m) =
      Some (map (map Some) [[1, 2], [7], [3], [9, 9]], m')"
proof -
  have "readable [Raw [1, 2], Tup [Str [7], Raw [3]], Mem [9, 9]]" by simp
  then show ?thesis using memory_stream_roundtrip [of "[Raw [1, 2], Tup [Str [7], Raw [3]], Mem [9, 9]]"]
    by (auto simp: numeral_2_eq_2 simp del: ms_append_args.simps ms_read_args.simps)
qed

text \<open>A stream among the arguments is not skipped when it is read. After a stream of n bytes and a value
  of n bytes were appended, reading the stream and then the value gives the stream's own bytes
  twice, whatever the value was.\<close>

theorem memory_stream_mem_not_skipped:
  assumes "length b < 2 ^ 32" "length v = length b"
  shows "\<exists>m m'. ms_append_args [Mem b, Raw v] new_stream = Some m \<and>
    ms_read_args [MemT, RawT (length v)] (ms_reset_offset 0 m) = Some ([map Some b, map Some b], m')"
proof -
  obtain m where m: "ms_append_args [Mem b, Raw v] new_stream = Some m" "ms_filled m (enc_args [Mem b, Raw v])"
    using append_args_filled [OF new_stream_filled, of "[Mem b, Raw v]"] by auto
  let ?m = "ms_reset_offset 0 m"
  have a: "ms_at ?m (le32 (length b) @ b @ v)" using filled_at_start [OF m(2)] by simp
  have "ms_read_arg MemT ?m = Some (map Some b, ?m\<lparr>ms_offset := ms_offset ?m + 4\<rparr>)"
    by (rule read_stream_at [OF a assms(1)])
  moreover have "ms_read (length b) True (?m\<lparr>ms_offset := ms_offset ?m + 4\<rparr>) =
      Some (map Some b, ?m\<lparr>ms_offset := ms_offset ?m + 4 + length b\<rparr>)"
    using ms_at_read(3) [OF ms_at_length(2) [OF a assms(1)]] by simp
  ultimately show ?thesis using m(1) assms(2)
    by (auto simp del: ms_append_args.simps ms_read_arg.simps(3))
qed

theorem memory_stream_mem_not_skipped_witness:
  "\<exists>m m'. ms_append_args [Mem [1, 2], Raw [3, 4]] new_stream = Some m \<and>
    ms_read_args [MemT, RawT 2] (ms_reset_offset 0 m) = Some ([[Some 1, Some 2], [Some 1, Some 2]], m')"
proof -
  have "length [1, 2 :: u8] < 2 ^ 32" by simp
  from memory_stream_mem_not_skipped [OF this, of "[3, 4]"] show ?thesis
    by (simp add: numeral_2_eq_2 del: ms_append_args.simps ms_read_args.simps)
qed

end
