(* ===== verification/Tcp_Session.thy ===== *)
theory Tcp_Session
  imports Memory_Stream Atomic_Switch
begin

text \<open>
  WriteBuffer and ReadBuffer (boost_net/net_buffer.hpp) and TcpSession (boost_net/tcp_session.hpp).
  The socket is given by whether it is open, the operations started on it and not yet handled, and
  the buffers handed to it for sending on this connection. Closing it aborts the operations
  outstanding, as the library documents; their handlers run later, with an error. The handlers of a
  session run one at a time, and a call from another thread comes before or after a handler: all but
  a part of handle_write holds the lock m_write_mtx, and what can happen in that part is the subject
  of handle_write_test and handle_write_peek.
\<close>

section \<open>WriteBuffer\<close>

(* src: boost_net/net_buffer.hpp 185-192 WriteBuffer *)
record write_buffer =
  wb_free :: "memory_stream list"
  wb_items :: "memory_stream list"
  wb_all_len :: nat

definition wb_default_size :: nat where "wb_default_size = 1024"

(* src: boost_net/net_buffer.hpp 86-90 WriteBuffer::WriteBuffer *)
definition new_write_buffer :: "nat \<Rightarrow> write_buffer" where
  "new_write_buffer pool_size =
     \<lparr>wb_free = replicate pool_size (new_stream_of_capacity wb_default_size), wb_items = [], wb_all_len = 0\<rparr>"

(* src: boost_net/net_buffer.hpp 163-176 WriteBuffer::acquire *)
definition wb_acquire :: "bytes \<Rightarrow> write_buffer \<Rightarrow> (memory_stream \<times> write_buffer) option" where
  "wb_acquire msg w =
     (case wb_free w of
        obj # rest \<Rightarrow>
          do { obj \<leftarrow> (if length msg > 0 then ms_load (map Some msg) obj else Some (ms_clear obj));
               Some (obj, w\<lparr>wb_free := rest\<rparr>) }
      | [] \<Rightarrow>
          do { obj \<leftarrow> ms_load_cap (map Some msg) wb_default_size new_stream;
               Some (obj, w) })"

(* src: boost_net/net_buffer.hpp 108-114 WriteBuffer::append *)
definition wb_append_stream :: "memory_stream \<Rightarrow> write_buffer \<Rightarrow> write_buffer" where
  "wb_append_stream m w =
     w\<lparr>wb_all_len := (wb_all_len w + ms_size m) mod 2 ^ 64, wb_items := wb_items w @ [m]\<rparr>"

(* src: boost_net/net_buffer.hpp 102-107 WriteBuffer::append *)
definition wb_append :: "bytes \<Rightarrow> write_buffer \<Rightarrow> write_buffer option" where
  "wb_append msg w = do { (m, w) \<leftarrow> wb_acquire msg w; Some (wb_append_stream m w) }"

(* src: boost_net/net_buffer.hpp 118-128 WriteBuffer::append_tail *)
definition wb_append_tail :: "bytes \<Rightarrow> nat \<Rightarrow> write_buffer \<Rightarrow> write_buffer option" where
  "wb_append_tail msg max_package_size w =
     (if wb_items w = [] then wb_append msg w
      else
        let item = last (wb_items w)
        in if max_package_size \<noteq> 0 \<and> ms_size item + length msg \<ge> max_package_size then wb_append msg w
           else do { item \<leftarrow> ms_append (map Some msg) item;
                     Some (w\<lparr>wb_items := butlast (wb_items w) @ [item]\<rparr>) })"

(* src: boost_net/net_buffer.hpp 136-141 WriteBuffer::pop_front *)
definition wb_pop_front :: "write_buffer \<Rightarrow> (memory_stream \<times> write_buffer) option" where
  "wb_pop_front w =
     (case wb_items w of
        [] \<Rightarrow> None
      | m # rest \<Rightarrow> Some (m, w\<lparr>wb_items := rest,
          wb_all_len := nat ((int (wb_all_len w) - int (ms_size m)) mod 2 ^ 64)\<rparr>))"

(* src: boost_net/net_buffer.hpp 144-150 WriteBuffer::clear *)
definition wb_clear :: "write_buffer \<Rightarrow> write_buffer" where
  "wb_clear w = w\<lparr>wb_free := wb_free w @ wb_items w, wb_items := [], wb_all_len := 0\<rparr>"

(* src: boost_net/net_buffer.hpp 157-161 WriteBuffer::release *)
definition wb_release :: "memory_stream option \<Rightarrow> write_buffer \<Rightarrow> write_buffer" where
  "wb_release obj w = (case obj of None \<Rightarrow> w | Some m \<Rightarrow> w\<lparr>wb_free := wb_free w @ [m]\<rparr>)"

section \<open>TcpSession\<close>

text \<open>
  An operation outstanding on the socket, with whether it has been aborted: a connect, a read into a
  buffer of so many bytes, a write of these bytes, and the time-out of a connect.
\<close>

datatype io_op = ConnectOp | ReadOp nat | WriteOp "cell list" | OvertimeOp

datatype net_event = Opened | Closed | ReadCalled bytes | Written "cell list"

(* src: boost_net/tcp_session.hpp 393-425 TcpSession *)
record tcp_session =
  ts_open :: bool
  ts_ops :: "(io_op \<times> bool) list"
  ts_sent :: "cell list list"
  ts_read_buf :: bytes
  ts_max_rbuffer :: nat
  ts_write_buf :: write_buffer
  ts_current :: "memory_stream option"
  ts_max_wbuffer :: nat
  ts_has_read_cbk :: bool
  ts_events :: "net_event list"
  ts_switch :: switch

(* src: boost_net/tcp_session.hpp 65-75 TcpSession::TcpSession *)
definition new_session :: "nat \<Rightarrow> nat \<Rightarrow> bool \<Rightarrow> tcp_session" where
  "new_session max_w max_r has_read_cbk =
     \<lparr>ts_open = False, ts_ops = [], ts_sent = [], ts_read_buf = [], ts_max_rbuffer = max_r,
      ts_write_buf = new_write_buffer 1000, ts_current = None, ts_max_wbuffer = max_w,
      ts_has_read_cbk = has_read_cbk, ts_events = [], ts_switch = new_switch\<rparr>"

(* src: boost_net/tcp_session.hpp 120-122 TcpSession::is_open *)
definition ts_is_open :: "tcp_session \<Rightarrow> bool" where
  "ts_is_open s \<longleftrightarrow> has_started (ts_switch s) \<and> ts_open s"

definition abort_ops :: "(io_op \<Rightarrow> bool) \<Rightarrow> tcp_session \<Rightarrow> tcp_session" where
  "abort_ops P s = s\<lparr>ts_ops := map (\<lambda>(op, b). (op, b \<or> P op)) (ts_ops s)\<rparr>"

text \<open>An operation on a socket that is not open fails.\<close>

definition add_op :: "io_op \<Rightarrow> tcp_session \<Rightarrow> tcp_session" where
  "add_op op s = s\<lparr>ts_ops := ts_ops s @ [(op, \<not> ts_open s \<and> op \<noteq> OvertimeOp)]\<rparr>"

text \<open>async_connect opens the socket; a new expiry cancels the timer's waits.\<close>

(* src: boost_net/tcp_session.hpp 140-157 TcpSession::connect *)
definition ts_connect :: "tcp_session \<Rightarrow> tcp_session" where
  "ts_connect s =
     (let (b, w) = as_init (ts_switch s)
      in if \<not> b then s
         else add_op OvertimeOp (add_op ConnectOp
           (abort_ops (\<lambda>op. op = OvertimeOp) (s\<lparr>ts_switch := w, ts_open := True\<rparr>))))"

(* src: boost_net/tcp_session.hpp 373-391 TcpSession::close *)
definition ts_close :: "tcp_session \<Rightarrow> tcp_session" where
  "ts_close s =
     (let s1 = (if has_init (ts_switch s)
                then (abort_ops (\<lambda>op. op \<noteq> OvertimeOp) s)\<lparr>ts_open := False\<rparr> else s)
      in s1\<lparr>ts_switch := as_reset (ts_switch s1), ts_read_buf := [], ts_write_buf := wb_clear (ts_write_buf s1),
            ts_current := None, ts_sent := [], ts_events := ts_events s1 @ [Closed]\<rparr>)"

(* src: boost_net/tcp_session.hpp 173-179 TcpSession::shutdown *)
definition ts_shutdown :: "tcp_session \<Rightarrow> tcp_session" where
  "ts_shutdown s =
     (let (b, w) = as_stop (ts_switch s) in if \<not> b then s else ts_close (s\<lparr>ts_switch := w\<rparr>))"

text \<open>The buffer prepared is the difference of two unsigned numbers.\<close>

(* src: boost_net/tcp_session.hpp 265-276 TcpSession::read *)
definition ts_read :: "tcp_session \<Rightarrow> tcp_session" where
  "ts_read s = add_op (ReadOp (nat ((int (ts_max_rbuffer s) - int (length (ts_read_buf s))) mod 2 ^ 64))) s"

(* src: boost_net/tcp_session.hpp 300-318 TcpSession::handle_start *)
definition handle_start :: "tcp_session \<Rightarrow> tcp_session" where
  "handle_start s =
     (let (b, w) = as_start (ts_switch s)
      in if b then (ts_read (s\<lparr>ts_switch := w\<rparr>))\<lparr>ts_events := ts_events s @ [Opened]\<rparr>
         else s)"

(* src: boost_net/tcp_session.hpp 165-170 TcpSession::start *)
definition ts_start :: "tcp_session \<Rightarrow> tcp_session" where
  "ts_start s =
     (let (b, w) = as_init (ts_switch s) in if \<not> b then s else handle_start (s\<lparr>ts_switch := w\<rparr>))"

(* src: boost_net/tcp_session.hpp 288-297 TcpSession::handle_connect *)
definition handle_connect :: "bool \<Rightarrow> tcp_session \<Rightarrow> tcp_session" where
  "handle_connect ec s =
     (let s1 = abort_ops (\<lambda>op. op = OvertimeOp) s
      in if ec then ts_close s1 else handle_start s1)"

text \<open>The bytes of a message.\<close>

definition ms_body :: "memory_stream \<Rightarrow> cell list" where
  "ms_body m = take (ms_size m) (mem_of m)"

(* src: boost_net/tcp_session.hpp 279-285 TcpSession::write *)
definition ts_write_next :: "tcp_session \<Rightarrow> tcp_session option" where
  "ts_write_next s =
     do { (m, w) \<leftarrow> wb_pop_front (ts_write_buf s);
          Some ((add_op (WriteOp (ms_body m)) s)\<lparr>ts_write_buf := w, ts_current := Some m,
            ts_sent := ts_sent s @ [ms_body m]\<rparr>) }"

text \<open>The limit of the write buffer, tested on a sum of unsigned numbers; 0 is no limit.\<close>

(* src: boost_net/tcp_session.hpp 211-213 TcpSession::write *)
definition over_limit :: "bytes \<Rightarrow> tcp_session \<Rightarrow> bool" where
  "over_limit msg s \<longleftrightarrow> ts_max_wbuffer s > 0 \<and>
     (wb_all_len (ts_write_buf s) + length msg) mod 2 ^ 64 > ts_max_wbuffer s"

(* src: boost_net/tcp_session.hpp 206-224 TcpSession::write *)
definition ts_write :: "bytes \<Rightarrow> tcp_session \<Rightarrow> (bool \<times> tcp_session) option" where
  "ts_write msg s =
     (if \<not> has_started (ts_switch s) then Some (False, s)
      else if over_limit msg s then Some (False, s)
      else do {
        w \<leftarrow> wb_append msg (ts_write_buf s);
        let s1 = s\<lparr>ts_write_buf := w\<rparr>;
        if ts_current s1 \<noteq> None then Some (True, s1)
        else do { s2 \<leftarrow> ts_write_next s1; Some (True, s2) } })"

(* src: boost_net/tcp_session.hpp 228-246 TcpSession::write_tail *)
definition ts_write_tail :: "bytes \<Rightarrow> nat \<Rightarrow> tcp_session \<Rightarrow> (bool \<times> tcp_session) option" where
  "ts_write_tail msg max_package_size s =
     (if \<not> has_started (ts_switch s) then Some (False, s)
      else if over_limit msg s then Some (False, s)
      else do {
        w \<leftarrow> wb_append_tail msg max_package_size (ts_write_buf s);
        let s1 = s\<lparr>ts_write_buf := w\<rparr>;
        if ts_current s1 \<noteq> None then Some (True, s1)
        else do { s2 \<leftarrow> ts_write_next s1; Some (True, s2) } })"

(* src: boost_net/tcp_session.hpp 249-255 TcpSession::consume_read_buf *)
definition ts_consume :: "nat \<Rightarrow> tcp_session \<Rightarrow> tcp_session" where
  "ts_consume n s = (if has_stoped (ts_switch s) then s else s\<lparr>ts_read_buf := drop n (ts_read_buf s)\<rparr>)"

text \<open>
  The handler of a read that got these bytes; the read callback is the client's, here a function on
  the session that calls back into it.
\<close>

(* src: boost_net/tcp_session.hpp 321-341 TcpSession::handle_read *)
definition handle_read :: "bool \<Rightarrow> bytes \<Rightarrow> (tcp_session \<Rightarrow> tcp_session option) \<Rightarrow> tcp_session \<Rightarrow> tcp_session option" where
  "handle_read ec data cbk s =
     (if ec then Some (ts_shutdown s)
      else do {
        let s1 = s\<lparr>ts_read_buf := ts_read_buf s @ data\<rparr>;
        s2 \<leftarrow> (if ts_has_read_cbk s1 then cbk (s1\<lparr>ts_events := ts_events s1 @ [ReadCalled (ts_read_buf s1)]\<rparr>)
               else Some (ts_consume (length data) s1));
        if has_stoped (ts_switch s2) then Some s2 else Some (ts_read s2) })"

(* src: boost_net/tcp_session.hpp 344-364 TcpSession::handle_write *)
definition handle_write :: "bool \<Rightarrow> tcp_session \<Rightarrow> tcp_session option" where
  "handle_write ec s =
     (if ec then Some (ts_shutdown s)
      else if has_stoped (ts_switch s) then Some s
      else do {
        let s1 = (case ts_current s of None \<Rightarrow> s
                  | Some m \<Rightarrow> s\<lparr>ts_events := ts_events s @ [Written (ms_body m)]\<rparr>);
        let s2 = s1\<lparr>ts_write_buf := wb_release (ts_current s1) (ts_write_buf s1), ts_current := None\<rparr>;
        if wb_items (ts_write_buf s2) = [] then Some s2 else ts_write_next s2 })"

text \<open>
  The part of handle_write that runs before it takes the lock, in its two pieces between which other
  threads run: the tests, and the call of the write callback with the bytes of the current message,
  which is undefined when there is none any more.
\<close>

(* src: boost_net/tcp_session.hpp 350-354 TcpSession::handle_write *)
definition handle_write_test :: "tcp_session \<Rightarrow> bool" where
  "handle_write_test s \<longleftrightarrow> \<not> has_stoped (ts_switch s) \<and> ts_current s \<noteq> None"

(* src: boost_net/tcp_session.hpp 355-355 TcpSession::handle_write *)
definition handle_write_peek :: "tcp_session \<Rightarrow> tcp_session option" where
  "handle_write_peek s =
     map_option (\<lambda>m. s\<lparr>ts_events := ts_events s @ [Written (ms_body m)]\<rparr>) (ts_current s)"

(* src: boost_net/tcp_session.hpp 358-363 TcpSession::handle_write *)
definition handle_write_locked :: "tcp_session \<Rightarrow> tcp_session option" where
  "handle_write_locked s =
     (let s2 = s\<lparr>ts_write_buf := wb_release (ts_current s) (ts_write_buf s), ts_current := None\<rparr>
      in if wb_items (ts_write_buf s2) = [] then Some s2 else ts_write_next s2)"

text \<open>Without a call in between the pieces are the handler.\<close>

lemma handle_write_pieces:
  "handle_write_test s \<Longrightarrow> handle_write False s = Option.bind (handle_write_peek s) handle_write_locked"
  by (auto simp: handle_write_test_def handle_write_def handle_write_peek_def handle_write_locked_def Let_def)

(* src: boost_net/tcp_session.hpp 366-371 TcpSession::handle_overtimer *)
definition handle_overtimer :: "bool \<Rightarrow> tcp_session \<Rightarrow> tcp_session" where
  "handle_overtimer ec s =
     (if \<not> ec then (abort_ops (\<lambda>op. op \<noteq> OvertimeOp) s)\<lparr>ts_open := False\<rparr> else s)"

section \<open>Messages in the write buffer\<close>

definition ms_good :: "memory_stream \<Rightarrow> bool" where
  "ms_good m \<longleftrightarrow> ms_owned m \<and> ms_size m \<le> ms_capacity m"

lemma new_streams_good [simp]: "ms_good new_stream" "ms_good (new_stream_of_capacity n)"
  by (simp_all add: ms_good_def) (simp_all add: new_stream_def new_stream_of_capacity_def)

lemma clear_good: "ms_good m \<Longrightarrow> ms_good (ms_clear m) \<and> ms_size (ms_clear m) = 0 \<and> ms_offset (ms_clear m) = 0"
  by (auto simp: ms_good_def ms_clear_def ms_owned_def mem_of_def split: option.splits)

lemma reset_capacity_owned:
  assumes "ms_owned m"
  shows "\<exists>m'. reset_capacity len m = Some m' \<and> ms_owned m' \<and> len \<le> ms_capacity m'"
proof (cases "ms_capacity m < len")
  case True
  then show ?thesis using assms
    by (auto simp: reset_capacity_def ms_owned_def malloc_def)
next
  case False
  then show ?thesis using assms by (auto simp: reset_capacity_def ms_owned_def)
qed

lemma copy_in_start:
  assumes "ms_owned m" "length src \<le> ms_capacity m"
  shows "\<exists>m'. copy_in 0 src m = Some m' \<and> ms_owned m' \<and> ms_capacity m' = ms_capacity m \<and>
    take (length src) (mem_of m') = src"
  using assms by (auto simp: copy_in_def ms_owned_def)

lemma load_good:
  assumes "ms_owned m"
  shows "\<exists>d. ms_load xs m = Some d \<and> ms_good d \<and> ms_body d = xs \<and> ms_size d = length xs \<and> ms_offset d = 0"
proof -
  obtain m1 where m1: "reset_capacity (length xs) m = Some m1" "ms_owned m1" "length xs \<le> ms_capacity m1"
    using reset_capacity_owned [OF assms] by blast
  obtain m2 where "copy_in 0 xs m1 = Some m2" "ms_owned m2" "ms_capacity m2 = ms_capacity m1"
    "take (length xs) (mem_of m2) = xs"
    using copy_in_start [OF m1(2,3)] by blast
  then show ?thesis using m1 by (simp add: ms_load_def ms_good_def ms_body_def ms_owned_def)
qed

lemma load_cap_good:
  assumes "ms_owned m"
  shows "\<exists>d. ms_load_cap xs c m = Some d \<and> ms_good d \<and> ms_body d = xs \<and> ms_size d = length xs \<and> ms_offset d = 0"
proof -
  obtain m1 where m1: "reset_capacity (max c (length xs)) m = Some m1" "ms_owned m1"
      "max c (length xs) \<le> ms_capacity m1"
    using reset_capacity_owned [OF assms] by blast
  then have le: "length xs \<le> ms_capacity m1" by simp
  obtain m2 where "copy_in 0 xs m1 = Some m2" "ms_owned m2" "ms_capacity m2 = ms_capacity m1"
    "take (length xs) (mem_of m2) = xs"
    using copy_in_start [OF m1(2) le] by blast
  then show ?thesis using m1 le by (simp add: ms_load_cap_def ms_good_def ms_body_def ms_owned_def)
qed

text \<open>The buffer holds these messages, and its length is theirs.\<close>

definition wb_holds :: "write_buffer \<Rightarrow> bool" where
  "wb_holds w \<longleftrightarrow> (\<forall>m \<in> set (wb_free w) \<union> set (wb_items w). ms_good m) \<and>
     wb_all_len w = sum_list (map ms_size (wb_items w)) mod 2 ^ 64"

definition wb_bodies :: "write_buffer \<Rightarrow> cell list" where
  "wb_bodies w = concat (map ms_body (wb_items w))"

lemma wb_append_ok:
  assumes "wb_holds w"
  shows "\<exists>w'. wb_append msg w = Some w' \<and> wb_holds w' \<and> wb_items w' \<noteq> [] \<and>
    wb_bodies w' = wb_bodies w @ map Some msg"
proof -
  have "\<exists>m w1. wb_acquire msg w = Some (m, w1) \<and> ms_good m \<and> ms_body m = map Some msg \<and>
    wb_items w1 = wb_items w \<and> wb_all_len w1 = wb_all_len w \<and> set (wb_free w1) \<subseteq> set (wb_free w)"
  proof (cases "wb_free w")
    case Nil
    then show ?thesis using load_cap_good [of new_stream "map Some msg" wb_default_size]
      by (auto simp: wb_acquire_def)
  next
    case (Cons obj rest)
    have g: "ms_good obj" using assms Cons by (simp add: wb_holds_def)
    then have o: "ms_owned obj" by (simp add: ms_good_def)
    show ?thesis
    proof (cases "msg = []")
      case True
      then show ?thesis using clear_good [OF g] Cons
        by (auto simp: wb_acquire_def ms_body_def)
    next
      case False
      then show ?thesis using load_good [OF o, of "map Some msg"] Cons by (auto simp: wb_acquire_def)
    qed
  qed
  then obtain m w1 where m: "wb_acquire msg w = Some (m, w1)" "ms_good m" "ms_body m = map Some msg"
    "wb_items w1 = wb_items w" "wb_all_len w1 = wb_all_len w" "set (wb_free w1) \<subseteq> set (wb_free w)" by blast
  then have "wb_holds (wb_append_stream m w1)"
    using assms by (auto simp: wb_holds_def wb_append_stream_def mod_add_left_eq)
  then show ?thesis using m by (simp add: wb_append_def wb_bodies_def wb_append_stream_def)
qed

lemma wb_pop_ok:
  assumes "wb_holds w" "wb_items w \<noteq> []"
  shows "\<exists>m w'. wb_pop_front w = Some (m, w') \<and> wb_holds w' \<and> ms_good m \<and>
    wb_items w = m # wb_items w' \<and> wb_bodies w = ms_body m @ wb_bodies w'"
proof -
  obtain m rest where i: "wb_items w = m # rest" using assms(2) by (cases "wb_items w") auto
  let ?S = "sum_list (map ms_size rest)"
  have "nat ((int ((ms_size m + ?S) mod 2 ^ 64) - int (ms_size m)) mod 2 ^ 64) = ?S mod 2 ^ 64"
  proof -
    have "(int ((ms_size m + ?S) mod 2 ^ 64) - int (ms_size m)) mod 2 ^ 64 =
        (int (ms_size m + ?S) mod 2 ^ 64 - int (ms_size m)) mod 2 ^ 64"
      by (simp add: zmod_int)
    also have "\<dots> = (int (ms_size m + ?S) - int (ms_size m)) mod 2 ^ 64" by (rule mod_diff_left_eq)
    also have "\<dots> = int (?S mod 2 ^ 64)" by (simp add: zmod_int)
    finally show ?thesis by simp
  qed
  then show ?thesis using assms(1) i by (auto simp: wb_pop_front_def wb_holds_def wb_bodies_def)
qed

lemma new_write_buffer_holds: "wb_holds (new_write_buffer n)"
  by (auto simp: wb_holds_def new_write_buffer_def)

lemma wb_clear_holds: "wb_holds w \<Longrightarrow> wb_holds (wb_clear w) \<and> wb_items (wb_clear w) = []"
  by (auto simp: wb_holds_def wb_clear_def)

lemma wb_release_holds:
  "wb_holds w \<Longrightarrow> (\<And>m. obj = Some m \<Longrightarrow> ms_good m) \<Longrightarrow>
     wb_holds (wb_release obj w) \<and> wb_items (wb_release obj w) = wb_items w"
  by (auto simp: wb_holds_def wb_release_def split: option.splits)

section \<open>Sessions with their clients\<close>

text \<open>
  The session with the messages the client had accepted on this connection. What a client may call,
  also from its read callback; write_tail is left out. A close, seen from the events, ends the
  connection.
\<close>

datatype client_call = CWrite bytes | CConsume nat | CShutdown

type_synonym tcp_sys = "tcp_session \<times> bytes list"

definition closes :: "tcp_session \<Rightarrow> nat" where
  "closes s = length (filter (\<lambda>e. e = Closed) (ts_events s))"

definition since_close :: "tcp_session \<Rightarrow> tcp_session \<Rightarrow> bytes list \<Rightarrow> bytes list" where
  "since_close s s' acc = (if closes s' = closes s then acc else [])"

fun run_client_call :: "client_call \<Rightarrow> tcp_sys \<Rightarrow> tcp_sys option" where
  "run_client_call (CWrite msg) (s, acc) =
     do { (ok, s') \<leftarrow> ts_write msg s; Some (s', if ok then acc @ [msg] else acc) }"
| "run_client_call (CConsume n) (s, acc) = Some (ts_consume n s, acc)"
| "run_client_call CShutdown (s, acc) = Some (ts_shutdown s, since_close s (ts_shutdown s) acc)"

fun run_client_calls :: "client_call list \<Rightarrow> tcp_sys \<Rightarrow> tcp_sys option" where
  "run_client_calls [] z = Some z"
| "run_client_calls (c # cs) z = Option.bind (run_client_call c z) (run_client_calls cs)"

text \<open>The read callback of a client that makes these calls.\<close>

definition cbk_of :: "client_call list \<Rightarrow> bytes list \<Rightarrow> tcp_session \<Rightarrow> tcp_session option" where
  "cbk_of cs acc s = map_option fst (run_client_calls cs (s, acc))"

definition drop_op :: "nat \<Rightarrow> tcp_session \<Rightarrow> tcp_session" where
  "drop_op k s = s\<lparr>ts_ops := take k (ts_ops s) @ drop (Suc k) (ts_ops s)\<rparr>"

text \<open>Handling the operation at a place of the list, with its error.\<close>

definition handle_op :: "io_op \<Rightarrow> bool \<Rightarrow> bytes \<Rightarrow> client_call list \<Rightarrow> tcp_sys \<Rightarrow> tcp_sys option" where
  "handle_op op ec data cs z =
     (let (s, acc) = z in
      case op of
        ConnectOp \<Rightarrow> Some (handle_connect ec s, since_close s (handle_connect ec s) acc)
      | OvertimeOp \<Rightarrow> Some (handle_overtimer ec s, acc)
      | WriteOp _ \<Rightarrow> do { s' \<leftarrow> handle_write ec s; Some (s', since_close s s' acc) }
      | ReadOp n \<Rightarrow>
          if ec then do { s' \<leftarrow> handle_read True data (cbk_of cs acc) s; Some (s', since_close s s' acc) }
          else do {
            s' \<leftarrow> handle_read False data (cbk_of cs acc) s;
            acc' \<leftarrow> (if ts_has_read_cbk s
              then map_option snd (run_client_calls cs (s\<lparr>ts_read_buf := ts_read_buf s @ data,
                ts_events := ts_events s @ [ReadCalled (ts_read_buf s @ data)]\<rparr>, acc))
              else Some acc);
            Some (s', acc') })"

text \<open>None is a call or handler that is undefined.\<close>

inductive tcp_step :: "tcp_sys option \<Rightarrow> tcp_sys option \<Rightarrow> bool" where
  accept: "\<not> has_init (ts_switch s) \<Longrightarrow> tcp_step (Some (s, acc)) (Some (s\<lparr>ts_open := True\<rparr>, acc))"
| start: "tcp_step (Some (s, acc)) (Some (ts_start s, acc))"
| connect: "tcp_step (Some (s, acc)) (Some (ts_connect s, acc))"
| client: "tcp_step (Some z) (run_client_call c z)"
| handle: "k < length (ts_ops s) \<Longrightarrow> ts_ops s ! k = (op, b) \<Longrightarrow> (b \<longrightarrow> ec) \<Longrightarrow>
    (\<forall>n. op = ReadOp n \<longrightarrow> length data \<le> n) \<Longrightarrow> (op = OvertimeOp \<longrightarrow> ec = b) \<Longrightarrow>
    tcp_step (Some (s, acc)) (handle_op op ec data cs (drop_op k s, acc))"

definition live_writes :: "tcp_session \<Rightarrow> io_op list" where
  "live_writes s = [op. (op, b) \<leftarrow> ts_ops s, \<not> b, case op of WriteOp _ \<Rightarrow> True | _ \<Rightarrow> False]"

definition live_reads :: "tcp_session \<Rightarrow> nat list" where
  "live_reads s = [case op of ReadOp n \<Rightarrow> n | _ \<Rightarrow> 0. (op, b) \<leftarrow> ts_ops s, \<not> b, case op of ReadOp _ \<Rightarrow> True | _ \<Rightarrow> False]"

definition tcp_base :: "tcp_session \<Rightarrow> bytes list \<Rightarrow> bool" where
  "tcp_base s acc \<longleftrightarrow>
     wb_holds (ts_write_buf s) \<and> concat (ts_sent s) @ wb_bodies (ts_write_buf s) = map Some (concat acc) \<and>
     ts_max_rbuffer s < 2 ^ 64 \<and> length (ts_read_buf s) \<le> ts_max_rbuffer s \<and>
     (live_reads s = [] \<or> (\<exists>n. live_reads s = [n] \<and> n + length (ts_read_buf s) \<le> ts_max_rbuffer s)) \<and>
     (\<not> has_started (ts_switch s) \<longrightarrow> live_reads s = [])"

definition sending :: "tcp_session \<Rightarrow> io_op list" where
  "sending s = (if ts_open s then case ts_current s of None \<Rightarrow> [] | Some m \<Rightarrow> [WriteOp (ms_body m)] else [])"

definition tcp_inv :: "tcp_session \<Rightarrow> bytes list \<Rightarrow> bool" where
  "tcp_inv s acc \<longleftrightarrow> tcp_base s acc \<and> live_writes s = sending s \<and>
     (\<forall>m. ts_current s = Some m \<longrightarrow> ms_good m) \<and>
     (ts_current s = None \<longrightarrow> wb_items (ts_write_buf s) = []) \<and>
     (\<not> has_started (ts_switch s) \<longrightarrow> ts_current s = None)"

lemma live_simps [simp]:
  "live_writes (abort_ops (\<lambda>op. op \<noteq> OvertimeOp) s) = []"
  "live_reads (abort_ops (\<lambda>op. op \<noteq> OvertimeOp) s) = []"
  "live_writes (abort_ops (\<lambda>op. op = OvertimeOp) s) = live_writes s"
  "live_reads (abort_ops (\<lambda>op. op = OvertimeOp) s) = live_reads s"
  by (auto simp: live_writes_def live_reads_def abort_ops_def comp_def
      intro!: arg_cong [of _ _ concat] split: io_op.splits)

lemma live_add [simp]:
  "live_writes (add_op op s) = live_writes s @
     (if ts_open s then (case op of WriteOp _ \<Rightarrow> [op] | _ \<Rightarrow> []) else [])"
  "live_reads (add_op op s) = live_reads s @
     (if ts_open s then (case op of ReadOp n \<Rightarrow> [n] | _ \<Rightarrow> []) else [])"
  by (auto simp: live_writes_def live_reads_def add_op_def split: io_op.splits)

lemma add_op_fields [simp]:
  "ts_open (add_op op s) = ts_open s" "ts_sent (add_op op s) = ts_sent s"
  "ts_read_buf (add_op op s) = ts_read_buf s" "ts_max_rbuffer (add_op op s) = ts_max_rbuffer s"
  "ts_write_buf (add_op op s) = ts_write_buf s" "ts_current (add_op op s) = ts_current s"
  "ts_events (add_op op s) = ts_events s" "ts_switch (add_op op s) = ts_switch s"
  "ts_has_read_cbk (add_op op s) = ts_has_read_cbk s"
  by (simp_all add: add_op_def)

lemma abort_fields [simp]:
  "ts_open (abort_ops P s) = ts_open s" "ts_sent (abort_ops P s) = ts_sent s"
  "ts_read_buf (abort_ops P s) = ts_read_buf s" "ts_max_rbuffer (abort_ops P s) = ts_max_rbuffer s"
  "ts_write_buf (abort_ops P s) = ts_write_buf s" "ts_current (abort_ops P s) = ts_current s"
  "ts_events (abort_ops P s) = ts_events s" "ts_switch (abort_ops P s) = ts_switch s"
  by (simp_all add: abort_ops_def)

lemma drop_fields [simp]:
  "ts_open (drop_op k s) = ts_open s" "ts_sent (drop_op k s) = ts_sent s"
  "ts_read_buf (drop_op k s) = ts_read_buf s" "ts_max_rbuffer (drop_op k s) = ts_max_rbuffer s"
  "ts_write_buf (drop_op k s) = ts_write_buf s" "ts_current (drop_op k s) = ts_current s"
  "ts_events (drop_op k s) = ts_events s" "ts_switch (drop_op k s) = ts_switch s"
  by (simp_all add: drop_op_def)

lemma live_upd [simp]:
  "live_writes (s\<lparr>ts_open := a\<rparr>) = live_writes s" "live_reads (s\<lparr>ts_open := a\<rparr>) = live_reads s"
  "live_writes (s\<lparr>ts_switch := w\<rparr>) = live_writes s" "live_reads (s\<lparr>ts_switch := w\<rparr>) = live_reads s"
  "live_writes (s\<lparr>ts_read_buf := b\<rparr>) = live_writes s" "live_reads (s\<lparr>ts_read_buf := b\<rparr>) = live_reads s"
  "live_writes (s\<lparr>ts_write_buf := u\<rparr>) = live_writes s" "live_reads (s\<lparr>ts_write_buf := u\<rparr>) = live_reads s"
  "live_writes (s\<lparr>ts_current := c\<rparr>) = live_writes s" "live_reads (s\<lparr>ts_current := c\<rparr>) = live_reads s"
  "live_writes (s\<lparr>ts_sent := x\<rparr>) = live_writes s" "live_reads (s\<lparr>ts_sent := x\<rparr>) = live_reads s"
  "live_writes (s\<lparr>ts_events := e\<rparr>) = live_writes s" "live_reads (s\<lparr>ts_events := e\<rparr>) = live_reads s"
  by (simp_all add: live_writes_def live_reads_def)

lemma live_drop:
  assumes "k < length (ts_ops s)" "ts_ops s ! k = (op, b)"
  obtains W1 W2 R1 R2 where
    "live_writes s = W1 @ (if b then [] else case op of WriteOp _ \<Rightarrow> [op] | _ \<Rightarrow> []) @ W2"
    "live_writes (drop_op k s) = W1 @ W2"
    "live_reads s = R1 @ (if b then [] else case op of ReadOp n \<Rightarrow> [n] | _ \<Rightarrow> []) @ R2"
    "live_reads (drop_op k s) = R1 @ R2"
proof -
  have sp: "ts_ops s = take k (ts_ops s) @ (op, b) # drop (Suc k) (ts_ops s)"
    using id_take_nth_drop [OF assms(1)] assms(2) by simp
  define xs ys where "xs = take k (ts_ops s)" and "ys = drop (Suc k) (ts_ops s)"
  let ?W = "\<lambda>xs. live_writes (s\<lparr>ts_ops := xs\<rparr>)" and ?R = "\<lambda>xs. live_reads (s\<lparr>ts_ops := xs\<rparr>)"
  have d: "ts_ops (drop_op k s) = xs @ ys" by (simp add: drop_op_def xs_def ys_def)
  have e: "ts_ops s = xs @ (op, b) # ys" using sp by (simp add: xs_def ys_def)
  show ?thesis
    by (rule that [of "?W xs" "?W ys" "?R xs" "?R ys"])
       (simp_all add: live_writes_def live_reads_def d e split: io_op.splits)
qed

lemma live_drop_aborted:
  assumes "k < length (ts_ops s)" "ts_ops s ! k = (op, True)"
  shows "live_writes (drop_op k s) = live_writes s" "live_reads (drop_op k s) = live_reads s"
  by (rule live_drop [OF assms]; simp)+

lemma live_drop_write:
  assumes "k < length (ts_ops s)" "ts_ops s ! k = (WriteOp bs, False)"
  obtains W1 W2 where "live_writes s = W1 @ [WriteOp bs] @ W2" "live_writes (drop_op k s) = W1 @ W2"
    "live_reads (drop_op k s) = live_reads s"
proof (rule live_drop [OF assms], goal_cases)
  case (1 W1 W2 R1 R2)
  then show ?case by (intro that [of W1 W2]) simp_all
qed

lemma live_drop_read:
  assumes "k < length (ts_ops s)" "ts_ops s ! k = (ReadOp n, False)"
  obtains R1 R2 where "live_reads s = R1 @ [n] @ R2" "live_reads (drop_op k s) = R1 @ R2"
    "live_writes (drop_op k s) = live_writes s"
proof (rule live_drop [OF assms], goal_cases)
  case (1 W1 W2 R1 R2)
  then show ?case by (intro that [of R1 R2]) simp_all
qed

lemma as_stop_started: "fst (as_stop w) \<longleftrightarrow> has_started w"
  by (auto simp: switch_defs)

lemma as_reset_not [simp]: "\<not> has_started (as_reset w)" "\<not> has_init (as_reset w)"
  by (simp_all add: switch_defs)

lemma close_inv:
  assumes "wb_holds (ts_write_buf s)" "ts_max_rbuffer s < 2 ^ 64"
    and "has_init (ts_switch s) \<or> live_writes s = [] \<and> live_reads s = []"
  shows "tcp_inv (ts_close s) []" "closes (ts_close s) = closes s + 1"
proof -
  have w: "wb_holds (wb_clear (ts_write_buf s))" "wb_items (wb_clear (ts_write_buf s)) = []"
    using wb_clear_holds [OF assms(1)] by auto
  then show "tcp_inv (ts_close s) []"
    using assms(2,3) by (auto simp: ts_close_def Let_def tcp_inv_def tcp_base_def sending_def wb_bodies_def)
  show "closes (ts_close s) = closes s + 1"
    by (simp add: ts_close_def Let_def closes_def)
qed

lemma shutdown_inv:
  assumes "wb_holds (ts_write_buf s)" "ts_max_rbuffer s < 2 ^ 64"
    and "\<not> has_started (ts_switch s) \<Longrightarrow> tcp_inv s acc"
  shows "tcp_inv (ts_shutdown s) (since_close s (ts_shutdown s) acc)"
proof (cases "has_started (ts_switch s)")
  case True
  define w where "w = snd (as_stop (ts_switch s))"
  have b: "as_stop (ts_switch s) = (True, w)" using True as_stop_started by (simp add: w_def prod_eq_iff)
  have "has_init w" using True b by (auto simp: switch_defs split: if_splits)
  then have "tcp_inv (ts_close (s\<lparr>ts_switch := w\<rparr>)) []" "closes (ts_close (s\<lparr>ts_switch := w\<rparr>)) = closes s + 1"
    using close_inv [of "s\<lparr>ts_switch := w\<rparr>"] assms(1,2) by (simp_all add: closes_def)
  then show ?thesis using b by (simp add: ts_shutdown_def since_close_def)
next
  case False
  then have "\<not> fst (as_stop (ts_switch s))" by (simp add: as_stop_started)
  then have "ts_shutdown s = s" by (simp add: ts_shutdown_def split_beta Let_def)
  then show ?thesis using assms(3) [OF False] by (simp add: since_close_def)
qed

lemma write_next_inv:
  assumes "tcp_base s acc" "live_writes s = []" "wb_items (ts_write_buf s) \<noteq> []" "has_started (ts_switch s)"
  shows "\<exists>s'. ts_write_next s = Some s' \<and> tcp_inv s' acc \<and> ts_switch s' = ts_switch s \<and> ts_events s' = ts_events s \<and>
    live_reads s' = live_reads s \<and> ts_max_rbuffer s' = ts_max_rbuffer s"
proof -
  have wb: "wb_holds (ts_write_buf s)" using assms(1) by (simp add: tcp_base_def)
  obtain m w where m: "wb_pop_front (ts_write_buf s) = Some (m, w)" "wb_holds w" "ms_good m"
    "wb_bodies (ts_write_buf s) = ms_body m @ wb_bodies w"
    using wb_pop_ok [OF wb assms(3)] by blast
  show ?thesis
    using m assms(1,2,4) by (auto simp: ts_write_next_def tcp_inv_def tcp_base_def sending_def)
qed

lemma write_inv:
  assumes i: "tcp_inv s acc"
  shows "\<exists>ok s'. ts_write msg s = Some (ok, s') \<and> tcp_inv s' (if ok then acc @ [msg] else acc) \<and>
    ts_events s' = ts_events s"
proof (cases "has_started (ts_switch s) \<and> \<not> over_limit msg s")
  case False
  then show ?thesis using i by (auto simp: ts_write_def)
next
  case True
  have b: "tcp_base s acc" using i by (simp add: tcp_inv_def)
  then have wb: "wb_holds (ts_write_buf s)" by (simp add: tcp_base_def)
  obtain w where w: "wb_append msg (ts_write_buf s) = Some w" "wb_holds w" "wb_items w \<noteq> []"
    "wb_bodies w = wb_bodies (ts_write_buf s) @ map Some msg"
    using wb_append_ok [OF wb] by blast
  define s1 where "s1 = s\<lparr>ts_write_buf := w\<rparr>"
  have "concat (ts_sent s) @ wb_bodies (ts_write_buf s) @ map Some msg = map Some (concat (acc @ [msg]))"
    using b by (simp add: tcp_base_def)
  then have b1: "tcp_base s1 (acc @ [msg])" using b w by (simp add: tcp_base_def s1_def)
  have st: "has_started (ts_switch s1)" using True by (simp add: s1_def)
  show ?thesis
  proof (cases "ts_current s")
    case (Some m)
    then have "ts_write msg s = Some (True, s1)" using True w(1) by (simp add: ts_write_def s1_def Let_def)
    moreover have "tcp_inv s1 (acc @ [msg])"
      using b1 i Some st by (simp add: tcp_inv_def sending_def s1_def)
    ultimately show ?thesis by (auto simp: s1_def)
  next
    case None
    have "live_writes s1 = []" using i None by (simp add: tcp_inv_def sending_def s1_def)
    then obtain s2 where "ts_write_next s1 = Some s2" "tcp_inv s2 (acc @ [msg])" "ts_events s2 = ts_events s1"
      using write_next_inv [OF b1 _ _ st] w(3) by (auto simp: s1_def)
    then show ?thesis using True w(1) None
      by (intro exI [of _ True] exI [of _ s2]) (simp add: ts_write_def s1_def Let_def)
  qed
qed

lemma consume_inv: "tcp_inv s acc \<Longrightarrow> tcp_inv (ts_consume n s) acc"
  by (auto simp: tcp_inv_def tcp_base_def ts_consume_def sending_def)

lemma inv_wb: "tcp_inv s acc \<Longrightarrow> wb_holds (ts_write_buf s) \<and> ts_max_rbuffer s < 2 ^ 64"
  by (simp add: tcp_inv_def tcp_base_def)

lemma client_call_inv:
  "tcp_inv s acc \<Longrightarrow> \<exists>s' acc'. run_client_call c (s, acc) = Some (s', acc') \<and> tcp_inv s' acc'"
proof (cases c)
  case (CWrite msg)
  assume "tcp_inv s acc"
  then show ?thesis using write_inv [of s acc msg] CWrite by auto
next
  case CShutdown
  assume i: "tcp_inv s acc"
  then show ?thesis using shutdown_inv [of s acc] inv_wb [OF i] CShutdown by auto
qed (simp add: consume_inv)

text \<open>The calls of a read callback add no read.\<close>

lemma client_call_reads:
  assumes "tcp_inv s acc" "run_client_call c (s, acc) = Some (s', acc')" "live_reads s = []"
  shows "live_reads s' = [] \<and> ts_max_rbuffer s' = ts_max_rbuffer s"
proof (cases c)
  case (CWrite msg)
  then obtain ok where w: "ts_write msg s = Some (ok, s')" using assms(2) by (auto simp: bind_Some_iff)
  show ?thesis
  proof (cases "has_started (ts_switch s) \<and> \<not> over_limit msg s")
    case False
    then have "s' = s" using w by (auto simp: ts_write_def split: if_splits)
    then show ?thesis using assms(3) by simp
  next
    case True
    then obtain u where u: "wb_append msg (ts_write_buf s) = Some u"
      using w by (auto simp: ts_write_def bind_Some_iff)
    show ?thesis
    proof (cases "ts_current s")
      case (Some m)
      then show ?thesis using w u True assms(3) by (auto simp: ts_write_def Let_def)
    next
      case None
      then have "ts_write_next (s\<lparr>ts_write_buf := u\<rparr>) = Some s'"
        using w u True by (auto simp: ts_write_def Let_def bind_Some_iff)
      then show ?thesis using assms(3) by (auto simp: ts_write_next_def bind_Some_iff)
    qed
  qed
next
  case CShutdown
  then show ?thesis using assms by (auto simp: ts_shutdown_def ts_close_def Let_def split: prod.splits if_splits)
qed (use assms in \<open>auto simp: ts_consume_def\<close>)

lemma client_calls_inv:
  "tcp_inv s acc \<Longrightarrow> \<exists>s' acc'. run_client_calls cs (s, acc) = Some (s', acc') \<and> tcp_inv s' acc' \<and>
     (live_reads s = [] \<longrightarrow> live_reads s' = [] \<and> ts_max_rbuffer s' = ts_max_rbuffer s)"
proof (induction cs arbitrary: s acc)
  case (Cons c cs)
  obtain s1 acc1 where c: "run_client_call c (s, acc) = Some (s1, acc1)" "tcp_inv s1 acc1"
    using client_call_inv [OF Cons.prems] by blast
  then show ?case using Cons.IH [OF c(2)] client_call_reads [OF Cons.prems c(1)] by auto
qed simp

lemma read_inv:
  assumes "tcp_inv s acc" "live_reads s = []" "has_started (ts_switch s)"
  shows "tcp_inv (ts_read s) acc"
proof -
  have l: "ts_max_rbuffer s < 2 ^ 64" "length (ts_read_buf s) \<le> ts_max_rbuffer s"
    using assms(1) by (simp_all add: tcp_inv_def tcp_base_def)
  then have "(int (ts_max_rbuffer s) - int (length (ts_read_buf s))) mod 2 ^ 64 =
      int (ts_max_rbuffer s) - int (length (ts_read_buf s))" by simp
  then obtain d where d: "ts_read s = add_op (ReadOp d) s" "d + length (ts_read_buf s) \<le> ts_max_rbuffer s"
    using l(2) by (simp add: ts_read_def)
  show ?thesis unfolding d(1) using d(2) assms by (simp add: tcp_inv_def tcp_base_def sending_def)
qed

lemma dropped_inv:
  assumes i: "tcp_inv s acc" and k: "k < length (ts_ops s)" "ts_ops s ! k = (op, True)"
  shows "tcp_inv (drop_op k s) acc"
  using i live_drop_aborted [OF k] by (simp add: tcp_inv_def tcp_base_def sending_def)

text \<open>A handler that only shuts the session down.\<close>

lemma shutdown_dropped:
  assumes i: "tcp_inv s acc" and k: "k < length (ts_ops s)" "ts_ops s ! k = (op, b)"
    and op: "case op of ReadOp _ \<Rightarrow> True | WriteOp _ \<Rightarrow> True | _ \<Rightarrow> b"
  shows "tcp_inv (ts_shutdown (drop_op k s)) (since_close (drop_op k s) (ts_shutdown (drop_op k s)) acc)"
proof (rule shutdown_inv)
  show "tcp_inv (drop_op k s) acc" if "\<not> has_started (ts_switch (drop_op k s))"
  proof (cases b)
    case True
    then show ?thesis using dropped_inv [OF i] k by simp
  next
    case False
    have none: "live_writes s = []" "live_reads s = []"
      using that i by (auto simp: tcp_inv_def tcp_base_def sending_def)
    show ?thesis
      by (rule live_drop [OF k]) (use none False op in \<open>auto split: io_op.splits\<close>)
  qed
qed (use inv_wb [OF i] in simp_all)

lemma handle_write_inv:
  assumes i: "tcp_inv s acc" and k: "k < length (ts_ops s)" "ts_ops s ! k = (WriteOp bs, b)" and b: "b \<Longrightarrow> ec"
  shows "\<exists>s'. handle_write ec (drop_op k s) = Some s' \<and> tcp_inv s' (since_close (drop_op k s) s' acc)"
proof (cases ec)
  case True
  then show ?thesis using shutdown_dropped [OF i k] by (simp add: handle_write_def)
next
  case False
  then have nb: "b = False" using b by auto
  obtain W1 W2 where W: "live_writes s = W1 @ [WriteOp bs] @ W2" "live_writes (drop_op k s) = W1 @ W2"
    "live_reads (drop_op k s) = live_reads s"
    by (rule live_drop_write [OF k(1)]) (use k(2) nb in auto)
  have lw: "live_writes s = sending s" using i by (simp add: tcp_inv_def)
  then obtain m where m: "ts_open s" "ts_current s = Some m" "W1 = []" "W2 = []"
    using W(1) by (auto simp: sending_def append_eq_Cons_conv split: if_splits option.splits)
  have st: "has_started (ts_switch s)" using i m(2) by (auto simp: tcp_inv_def)
  have g: "ms_good m" and base: "tcp_base s acc" using i m(2) by (auto simp: tcp_inv_def)
  define s2 where "s2 = (drop_op k s)\<lparr>ts_events := ts_events s @ [Written (ms_body m)],
     ts_write_buf := wb_release (Some m) (ts_write_buf s), ts_current := None\<rparr>"
  have wr: "wb_holds (wb_release (Some m) (ts_write_buf s))"
    "wb_items (wb_release (Some m) (ts_write_buf s)) = wb_items (ts_write_buf s)"
    using wb_release_holds [of "ts_write_buf s" "Some m"] inv_wb [OF i] g by auto
  then have b2: "tcp_base s2 acc" using base W by (simp add: tcp_base_def s2_def wb_bodies_def)
  have s2: "live_writes s2 = []" "ts_current s2 = None" "has_started (ts_switch s2)"
    "wb_items (ts_write_buf s2) = wb_items (ts_write_buf s)"
    "closes s2 = closes (drop_op k s)"
    using W(2) m st wr(2) by (simp_all add: s2_def closes_def)
  have e: "handle_write ec (drop_op k s) =
      (if wb_items (ts_write_buf s2) = [] then Some s2 else ts_write_next s2)"
    using False st m(2) by (simp add: handle_write_def has_stoped_iff Let_def s2_def)
  show ?thesis
  proof (cases "wb_items (ts_write_buf s2) = []")
    case True
    then show ?thesis using e b2 s2 by (simp add: tcp_inv_def sending_def since_close_def)
  next
    case False
    obtain s' where "ts_write_next s2 = Some s'" "tcp_inv s' acc" "ts_events s' = ts_events s2"
      using write_next_inv [OF b2 s2(1) False s2(3)] by blast
    then show ?thesis using e False s2(5) by (simp add: since_close_def closes_def)
  qed
qed

text \<open>The state in which a read callback runs, and how handle_read goes on after it.\<close>

lemma read_arrived_inv:
  assumes i: "tcp_inv s acc" and k: "k < length (ts_ops s)" "ts_ops s ! k = (ReadOp n, False)"
    and len: "length data \<le> n"
  shows "tcp_inv ((drop_op k s)\<lparr>ts_read_buf := ts_read_buf s @ data, ts_events := ev\<rparr>) acc"
    and "live_reads (drop_op k s) = []" and "has_started (ts_switch s)"
proof -
  obtain R1 R2 where W: "live_reads s = R1 @ [n] @ R2" "live_reads (drop_op k s) = R1 @ R2"
    "live_writes (drop_op k s) = live_writes s"
    by (rule live_drop_read [OF k])
  have base: "tcp_base s acc" using i by (simp add: tcp_inv_def)
  then have R: "R1 = []" "R2 = []" "n + length (ts_read_buf s) \<le> ts_max_rbuffer s"
    using W(1) by (auto simp: tcp_base_def append_eq_Cons_conv)
  show "has_started (ts_switch s)" using base W(1) by (auto simp: tcp_base_def)
  show "live_reads (drop_op k s) = []" using W(2) R by simp
  show "tcp_inv ((drop_op k s)\<lparr>ts_read_buf := ts_read_buf s @ data, ts_events := ev\<rparr>) acc"
    using i W R len by (simp add: tcp_inv_def tcp_base_def sending_def)
qed

lemma read_on_inv:
  assumes "tcp_inv s acc" "live_reads s = []"
  shows "tcp_inv (if has_stoped (ts_switch s) then s else ts_read s) acc"
  using assms read_inv [OF assms] by (auto simp: has_stoped_iff)

lemma handle_read_inv:
  assumes i: "tcp_inv s acc" and k: "k < length (ts_ops s)" "ts_ops s ! k = (ReadOp n, b)" and b: "b \<Longrightarrow> ec"
    and len: "length data \<le> n"
  shows "\<exists>s' acc'. handle_op (ReadOp n) ec data cs (drop_op k s, acc) = Some (s', acc') \<and> tcp_inv s' acc'"
proof (cases ec)
  case True
  then show ?thesis using shutdown_dropped [OF i k]
    by (simp add: handle_read_def handle_op_def)
next
  case False
  then have k': "ts_ops s ! k = (ReadOp n, False)" using b k(2) by auto
  note arr = read_arrived_inv [OF i k(1) k' len]
  show ?thesis
  proof (cases "ts_has_read_cbk s")
    case True
    define s2 where "s2 = (drop_op k s)\<lparr>ts_read_buf := ts_read_buf s @ data,
        ts_events := ts_events s @ [ReadCalled (ts_read_buf s @ data)]\<rparr>"
    obtain s3 acc3 where c: "run_client_calls cs (s2, acc) = Some (s3, acc3)" "tcp_inv s3 acc3" "live_reads s3 = []"
      using client_calls_inv [of s2 acc cs] arr(1) [of "ts_events s @ [ReadCalled (ts_read_buf s @ data)]"] arr(2)
      by (auto simp: s2_def)
    have cb: "ts_has_read_cbk (drop_op k s)" using True by (simp add: drop_op_def)
    define s4 where "s4 = (if has_stoped (ts_switch s3) then s3 else ts_read s3)"
    have "handle_read False data (cbk_of cs acc) (drop_op k s) = Some s4"
      using cb c(1) by (simp add: handle_read_def cbk_of_def Let_def s2_def s4_def)
    then have "handle_op (ReadOp n) ec data cs (drop_op k s, acc) = Some (s4, acc3)"
      using False cb c(1) by (simp add: handle_op_def s2_def)
    then show ?thesis using read_on_inv [OF c(2,3)] by (simp add: s4_def)
  next
    case nocb: False
    have cb: "\<not> ts_has_read_cbk (drop_op k s)" using nocb by (simp add: drop_op_def)
    define s1 where "s1 = (drop_op k s)\<lparr>ts_read_buf := ts_read_buf s @ data\<rparr>"
    define s3 where "s3 = ts_consume (length data) s1"
    have "s1 = (drop_op k s)\<lparr>ts_read_buf := ts_read_buf s @ data, ts_events := ts_events s\<rparr>"
      by (simp add: s1_def drop_op_def)
    then have i1: "tcp_inv s1 acc" "live_reads s1 = []" using arr(1) arr(2) by (simp_all only: live_upd)
    then have i3: "tcp_inv s3 acc" "live_reads s3 = []" "has_started (ts_switch s3)"
      using consume_inv [OF i1(1)] arr(3) by (auto simp: s3_def ts_consume_def s1_def)
    have "handle_read False data (cbk_of cs acc) (drop_op k s) = Some (ts_read s3)"
      using cb i3(3) by (simp add: handle_read_def Let_def s1_def s3_def has_stoped_iff)
    then have "handle_op (ReadOp n) ec data cs (drop_op k s, acc) = Some (ts_read s3, acc)"
      using False cb by (simp add: handle_op_def)
    then show ?thesis using read_inv [OF i3] by blast
  qed
qed

lemma session_start_inv:
  assumes "tcp_inv s acc"
  shows "tcp_inv (handle_start s) acc" "closes (handle_start s) = closes s"
proof -
  have "tcp_inv (handle_start s) acc \<and> closes (handle_start s) = closes s"
  proof (cases "fst (as_start (ts_switch s))")
    case False
    then show ?thesis using assms by (simp add: handle_start_def split_beta Let_def)
  next
    case True
    define w where "w = snd (as_start (ts_switch s))"
    have w: "has_started w" "\<not> has_started (ts_switch s)" "as_start (ts_switch s) = (True, w)"
      using True by (auto simp: w_def switch_defs split: if_splits)
    then have "tcp_inv (s\<lparr>ts_switch := w\<rparr>) acc" "live_reads (s\<lparr>ts_switch := w\<rparr>) = []"
      using assms by (auto simp: tcp_inv_def tcp_base_def sending_def)
    from read_inv [OF this] w show ?thesis
      by (auto simp: handle_start_def tcp_inv_def tcp_base_def sending_def closes_def ts_read_def)
  qed
  then show "tcp_inv (handle_start s) acc" "closes (handle_start s) = closes s" by auto
qed

lemma init_inv:
  assumes "tcp_inv s acc" "as_init (ts_switch s) = (True, w)"
  shows "tcp_inv (s\<lparr>ts_switch := w\<rparr>) acc" "tcp_inv (s\<lparr>ts_switch := w, ts_open := True\<rparr>) acc"
proof -
  have ns: "\<not> has_started (ts_switch s)" "\<not> has_started w \<or> ts_current s = None"
    using assms by (auto simp: switch_defs tcp_inv_def split: if_splits)
  then have n: "ts_current s = None" "live_reads s = []" "live_writes s = []"
    using assms(1) by (auto simp: tcp_inv_def tcp_base_def sending_def)
  show "tcp_inv (s\<lparr>ts_switch := w\<rparr>) acc" "tcp_inv (s\<lparr>ts_switch := w, ts_open := True\<rparr>) acc"
    using assms(1) n by (auto simp: tcp_inv_def tcp_base_def sending_def)
qed

lemma abort_overtime_inv: "tcp_inv s acc \<Longrightarrow> tcp_inv (abort_ops (\<lambda>op. op = OvertimeOp) s) acc"
  by (simp add: tcp_inv_def tcp_base_def sending_def)

lemma drop_other_inv:
  assumes i: "tcp_inv s acc" and k: "k < length (ts_ops s)" "ts_ops s ! k = (op, b)"
    and op: "op = ConnectOp \<or> op = OvertimeOp"
  shows "tcp_inv (drop_op k s) acc"
proof -
  have "live_writes (drop_op k s) = live_writes s \<and> live_reads (drop_op k s) = live_reads s"
  proof (rule live_drop [OF k], goal_cases)
    case (1 W1 W2 R1 R2)
    then show ?case using op by (cases b) auto
  qed
  then show ?thesis using i by (simp add: tcp_inv_def tcp_base_def sending_def)
qed

lemma handle_connect_inv:
  assumes i: "tcp_inv s acc" and k: "k < length (ts_ops s)" "ts_ops s ! k = (ConnectOp, b)"
  shows "tcp_inv (handle_connect ec (drop_op k s)) (since_close (drop_op k s) (handle_connect ec (drop_op k s)) acc)"
proof -
  define s1 where "s1 = abort_ops (\<lambda>op. op = OvertimeOp) (drop_op k s)"
  have s1: "tcp_inv s1 acc" "closes s1 = closes (drop_op k s)"
    using abort_overtime_inv [OF drop_other_inv [OF i k]] by (simp_all add: s1_def closes_def)
  show ?thesis
  proof (cases ec)
    case False
    then show ?thesis using session_start_inv [OF s1(1)] s1(2)
      by (simp add: handle_connect_def s1_def [symmetric] since_close_def)
  next
    case True
    have "has_init (ts_switch s1) \<or> live_writes s1 = [] \<and> live_reads s1 = []"
      using s1(1) by (auto simp: tcp_inv_def tcp_base_def sending_def has_started_def)
    then show ?thesis using close_inv [of s1] inv_wb [OF s1(1)] s1(2) True
      by (simp add: handle_connect_def s1_def [symmetric] since_close_def)
  qed
qed

lemma handle_overtimer_inv:
  assumes i: "tcp_inv s acc" and k: "k < length (ts_ops s)" "ts_ops s ! k = (OvertimeOp, b)"
  shows "tcp_inv (handle_overtimer ec (drop_op k s)) acc"
  using drop_other_inv [OF i k] by (simp add: handle_overtimer_def tcp_inv_def tcp_base_def sending_def)

definition tcp_sys_ok :: "tcp_sys option \<Rightarrow> bool" where
  "tcp_sys_ok z \<longleftrightarrow> (\<exists>s acc. z = Some (s, acc) \<and> tcp_inv s acc)"

lemma tcp_step_ok: "tcp_step z z' \<Longrightarrow> tcp_sys_ok z \<Longrightarrow> tcp_sys_ok z'"
proof (induction rule: tcp_step.induct)
  case (accept s acc)
  then have "\<not> has_started (ts_switch s)" "tcp_inv s acc" by (auto simp: has_started_def tcp_sys_ok_def)
  then show ?case by (auto simp: tcp_sys_ok_def tcp_inv_def tcp_base_def sending_def)
next
  case (start s acc)
  then have i: "tcp_inv s acc" by (simp add: tcp_sys_ok_def)
  obtain b w where w: "as_init (ts_switch s) = (b, w)" by fastforce
  show ?case
  proof (cases b)
    case True
    then show ?thesis using session_start_inv(1) [OF init_inv(1) [OF i]] w by (auto simp: tcp_sys_ok_def ts_start_def)
  next
    case False
    then show ?thesis using i w by (simp add: tcp_sys_ok_def ts_start_def)
  qed
next
  case (connect s acc)
  then have i: "tcp_inv s acc" by (simp add: tcp_sys_ok_def)
  obtain b w where w: "as_init (ts_switch s) = (b, w)" by fastforce
  show ?case
  proof (cases b)
    case True
    have "tcp_inv (abort_ops (\<lambda>op. op = OvertimeOp) (s\<lparr>ts_switch := w, ts_open := True\<rparr>)) acc"
      using abort_overtime_inv [OF init_inv(2) [OF i]] w True by simp
    then have "tcp_inv (ts_connect s) acc"
      using w True by (simp add: ts_connect_def tcp_inv_def tcp_base_def sending_def)
    then show ?thesis by (simp add: tcp_sys_ok_def)
  next
    case False
    then show ?thesis using i w by (simp add: tcp_sys_ok_def ts_connect_def)
  qed
next
  case (client z c)
  then show ?case using client_call_inv by (cases z) (auto simp: tcp_sys_ok_def)
next
  case (handle k s op b ec data acc cs)
  then have i: "tcp_inv s acc" by (simp add: tcp_sys_ok_def)
  show ?case
  proof (cases op)
    case ConnectOp
    then show ?thesis using handle_connect_inv [OF i handle(1), of b ec] handle(2)
      by (auto simp: tcp_sys_ok_def handle_op_def)
  next
    case (ReadOp n)
    then show ?thesis using handle_read_inv [OF i handle(1), of n b ec data cs] handle(2-4)
      by (auto simp: tcp_sys_ok_def)
  next
    case (WriteOp bs)
    then show ?thesis using handle_write_inv [OF i handle(1), of bs b ec] handle(2,3)
      by (auto simp: tcp_sys_ok_def handle_op_def)
  next
    case OvertimeOp
    then show ?thesis using handle_overtimer_inv [OF i handle(1), of b ec] handle(2)
      by (auto simp: tcp_sys_ok_def handle_op_def)
  qed
qed

lemma tcp_reach_ok:
  assumes "max_r < 2 ^ 64" "tcp_step\<^sup>*\<^sup>* (Some (new_session max_w max_r cb, [])) z"
  shows "tcp_sys_ok z"
  using assms(2)
proof (induction rule: rtranclp_induct)
  case base
  show ?case using assms(1) new_write_buffer_holds
    by (simp add: tcp_sys_ok_def tcp_inv_def tcp_base_def sending_def new_session_def live_writes_def
        live_reads_def wb_bodies_def) (simp add: new_write_buffer_def)
qed (rule tcp_step_ok)

section \<open>Properties\<close>

text \<open>C2: A session sends what it accepted, in order, one message at a time. Whatever a client calls, from its
  read callback or outside it, write_tail apart, and however connects, reads, writes and time-outs
  end, no call is undefined; the bytes handed to the socket on this connection followed by those
  queued are those of the accepted messages; while the socket is open exactly the current message
  is being written, and when there is none the queue is empty, so nothing accepted is left behind.\<close>

theorem tcp_send_order:
  assumes "max_r < 2 ^ 64" "tcp_step\<^sup>*\<^sup>* (Some (new_session max_w max_r cb, [])) z"
  shows "\<exists>s acc. z = Some (s, acc) \<and>
    concat (ts_sent s) @ wb_bodies (ts_write_buf s) = map Some (concat acc) \<and>
    (ts_open s \<longrightarrow> live_writes s = (case ts_current s of None \<Rightarrow> [] | Some m \<Rightarrow> [WriteOp (ms_body m)])) \<and>
    (ts_current s = None \<longrightarrow> wb_items (ts_write_buf s) = []) \<and>
    wb_all_len (ts_write_buf s) = sum_list (map ms_size (wb_items (ts_write_buf s))) mod 2 ^ 64"
proof -
  obtain s acc where "z = Some (s, acc)" "tcp_inv s acc"
    using tcp_reach_ok [OF assms] by (auto simp: tcp_sys_ok_def)
  then show ?thesis
    by (intro exI [of _ s] exI [of _ acc]) (simp add: tcp_inv_def tcp_base_def sending_def wb_holds_def)
qed

definition sample_session :: tcp_session where
  "sample_session = ts_start ((new_session 0 2000 False)\<lparr>ts_open := True\<rparr>)"

lemma sample_session_reach: "tcp_step\<^sup>*\<^sup>* (Some (new_session 0 2000 False, [])) (Some (sample_session, []))"
proof -
  have "tcp_step (Some (new_session 0 2000 False, [])) (Some ((new_session 0 2000 False)\<lparr>ts_open := True\<rparr>, []))"
    by (rule tcp_step.accept) (simp add: new_session_def switch_defs)
  moreover have "tcp_step (Some ((new_session 0 2000 False)\<lparr>ts_open := True\<rparr>, [])) (Some (sample_session, []))"
    unfolding sample_session_def by (rule tcp_step.start)
  ultimately show ?thesis by (meson rtranclp.rtrancl_into_rtrancl rtranclp.rtrancl_refl)
qed

theorem tcp_send_order_witness:
  "\<exists>s. run_client_call (CWrite [7, 8]) (sample_session, []) = Some (s, [[7, 8]]) \<and>
    concat (ts_sent s) @ wb_bodies (ts_write_buf s) = [Some 7, Some 8]"
proof -
  have st: "has_started (ts_switch sample_session)" "ts_max_wbuffer sample_session = 0"
    by (simp_all add: sample_session_def ts_start_def handle_start_def new_session_def switch_defs ts_read_def add_op_def Let_def)
  have "tcp_step (Some (sample_session, [])) (run_client_call (CWrite [7, 8]) (sample_session, []))"
    by (rule tcp_step.client)
  then have "tcp_step\<^sup>*\<^sup>* (Some (new_session 0 2000 False, [])) (run_client_call (CWrite [7, 8]) (sample_session, []))"
    using sample_session_reach by (rule rtranclp.rtrancl_into_rtrancl [rotated])
  from tcp_send_order [OF _ this] obtain s acc where s: "run_client_call (CWrite [7, 8]) (sample_session, []) = Some (s, acc)"
    "concat (ts_sent s) @ wb_bodies (ts_write_buf s) = map Some (concat acc)" by auto
  have "\<not> over_limit [7, 8] sample_session" using st(2) by (simp add: over_limit_def)
  then have "acc = [[7, 8]]" using s(1) st(1) by (auto simp: ts_write_def bind_Some_iff Let_def split: if_splits)
  then show ?thesis using s by auto
qed

text \<open>C40: The read buffer stays in its bound. Whatever a client calls, from its read callback or outside it,
  write_tail apart, and however connects, reads, writes and time-outs end, the read buffer never holds
  more bytes than the session's limit, at most one read is outstanding, and a read that ends cannot
  exceed the limit. When a client leaves the buffer full, the read outstanding is one of no bytes; when
  it ends, which it does at once with nothing, and the read callback again consumes nothing, the buffer
  is as it was and another read of no bytes is started.\<close>

theorem tcp_read_window:
  assumes "max_r < 2 ^ 64" "tcp_step\<^sup>*\<^sup>* (Some (new_session max_w max_r cb, [])) (Some (s, acc))"
  shows "length (ts_read_buf s) \<le> ts_max_rbuffer s \<and> length (live_reads s) \<le> 1 \<and>
    (\<forall>n \<in> set (live_reads s). length (ts_read_buf s) + n \<le> ts_max_rbuffer s) \<and>
    (length (ts_read_buf s) = ts_max_rbuffer s \<longrightarrow>
      (\<forall>n \<in> set (live_reads s). n = 0) \<and>
      (ts_has_read_cbk s \<and> has_started (ts_switch s) \<longrightarrow>
        (\<exists>s'. handle_read False [] Some s = Some s' \<and> ts_read_buf s' = ts_read_buf s \<and>
          ts_events s' = ts_events s @ [ReadCalled (ts_read_buf s)] \<and>
          ts_ops s' = ts_ops s @ [(ReadOp 0, \<not> ts_open s)])))"
proof -
  have b: "tcp_base s acc" using tcp_reach_ok [OF assms] by (auto simp: tcp_sys_ok_def tcp_inv_def)
  have "\<exists>s'. handle_read False [] Some s = Some s' \<and> ts_read_buf s' = ts_read_buf s \<and>
      ts_events s' = ts_events s @ [ReadCalled (ts_read_buf s)] \<and> ts_ops s' = ts_ops s @ [(ReadOp 0, \<not> ts_open s)]"
    if "length (ts_read_buf s) = ts_max_rbuffer s" "ts_has_read_cbk s" "has_started (ts_switch s)"
    using that by (simp add: handle_read_def Let_def has_stoped_iff ts_read_def add_op_def)
  then show ?thesis using b by (auto simp: tcp_base_def)
qed

theorem tcp_read_window_witness: "length (live_reads sample_session) \<le> 1"
  using tcp_read_window [OF _ sample_session_reach] by simp

text \<open>handle_write can use a message that is gone. The handler of a write tests, without the lock, that the
  session runs and that there is a current message, and then hands its bytes to the write callback. For every
  session in which it comes to the second of these, a shutdown from another thread between the two
  leaves it with no message to take the bytes of, which is undefined.\<close>

theorem tcp_handle_write_race:
  assumes "handle_write_test s"
  shows "handle_write_peek s \<noteq> None \<and> handle_write_peek (ts_shutdown s) = None"
proof -
  have "has_started (ts_switch s)" using assms by (simp add: handle_write_test_def has_stoped_iff)
  then have "fst (as_stop (ts_switch s))" by (auto simp: switch_defs)
  then show ?thesis using assms
    by (auto simp: handle_write_test_def handle_write_peek_def ts_shutdown_def ts_close_def Let_def split: prod.splits)
qed

text \<open>write_tail overwrites the message it should extend. When a message b is the last one queued, as
  write left it, and write_tail of a message that is not longer returns true, the queued message has
  grown by the new message's length, but begins with the new message and the rest of b; the start
  of b is lost and the bytes behind b's length are not the new message's. The length of the buffer
  is not increased.\<close>

theorem tcp_tail_overwrites:
  assumes "has_started (ts_switch s)" "ts_max_wbuffer s = 0" "ts_current s \<noteq> None"
    and "wb_items (ts_write_buf s) = items @ [m]" "ms_good m" "ms_offset m = 0" "ms_body m = map Some b"
    and "msg \<noteq> []" "length msg \<le> length b"
  shows "\<exists>s' m'. ts_write_tail msg 0 s = Some (True, s') \<and> wb_items (ts_write_buf s') = items @ [m'] \<and>
    ms_size m' = length b + length msg \<and>
    take (length b) (ms_body m') = map Some (msg @ drop (length msg) b) \<and>
    wb_all_len (ts_write_buf s') = wb_all_len (ts_write_buf s)"
proof -
  have o: "ms_owned m" "ms_size m \<le> ms_capacity m" using assms(5) by (simp_all add: ms_good_def)
  then have "length (ms_body m) = ms_size m" by (simp add: ms_body_def ms_owned_def)
  then have sz: "ms_size m = length b" unfolding assms(7) by simp
  obtain m1 n where m1: "grow_to (length msg) m = Some m1" "ms_owned m1" "mem_of m1 = mem_of m @ malloc n"
    "ms_size m1 = length b" "ms_offset m1 = 0" "length msg \<le> ms_capacity m1"
    using grow_owned [OF o(1), of "length msg"] sz assms(6) by auto
  have fit: "length msg \<le> length (mem_of m1)" "length b \<le> length (mem_of m)"
    using m1(2,6) o sz by (simp_all add: ms_owned_def)
  define m2 where "m2 = m1\<lparr>ms_buffer := Some (map Some msg @ drop (length msg) (mem_of m1))\<rparr>"
  have c: "copy_in (ms_offset m1) (map Some msg) m1 = Some m2"
    using fit m1(5) assms(8) by (simp add: copy_in_def m2_def)
  define m3 where "m3 = m2\<lparr>ms_offset := ms_offset m2 + length msg, ms_size := ms_size m2 + length msg\<rparr>"
  have ap: "ms_append (map Some msg) m = Some m3"
    using m1(1) c assms(6,8) by (simp add: ms_append_def m3_def)
  define s' where "s' = s\<lparr>ts_write_buf := (ts_write_buf s)\<lparr>wb_items := items @ [m3]\<rparr>\<rparr>"
  have "wb_append_tail msg 0 (ts_write_buf s) = Some ((ts_write_buf s)\<lparr>wb_items := items @ [m3]\<rparr>)"
    using assms(4) ap by (simp add: wb_append_tail_def)
  moreover have "\<not> over_limit msg s" using assms(2) by (simp add: over_limit_def)
  ultimately have "ts_write_tail msg 0 s = Some (True, s')"
    using assms(1,3) by (simp add: ts_write_tail_def Let_def s'_def)
  moreover have "ms_size m3 = length b + length msg" using m1(4) by (simp add: m3_def m2_def)
  moreover have "take (length b) (ms_body m3) = map Some (msg @ drop (length msg) b)"
  proof -
    have "take (length b) (ms_body m3) =
        map Some msg @ take (length b - length msg) (drop (length msg) (mem_of m @ malloc n))"
      using m1(3,4) assms(9) by (simp add: ms_body_def m3_def m2_def min_def)
    also have "take (length b - length msg) (drop (length msg) (mem_of m @ malloc n)) =
        drop (length msg) (take (length b) (mem_of m))"
      using fit(2) assms(9) by (simp add: drop_take)
    also have "take (length b) (mem_of m) = map Some b" using assms(7) sz by (simp add: ms_body_def)
    finally show ?thesis by (simp add: drop_map)
  qed
  ultimately show ?thesis by (intro exI [of _ s'] exI [of _ m3]) (simp add: s'_def)
qed

theorem tcp_tail_overwrites_witness:
  "\<exists>s' m'. ts_write_tail [9] 0 (sample_session\<lparr>ts_current := Some new_stream,
      ts_write_buf := \<lparr>wb_free = [], wb_items = [new_stream_on [Some 1, Some 2] True], wb_all_len = 2\<rparr>\<rparr>) = Some (True, s') \<and>
    wb_items (ts_write_buf s') = [m'] \<and> ms_size m' = 3 \<and> take 2 (ms_body m') = [Some 9, Some 2]"
proof -
  have st: "has_started (ts_switch sample_session)" "ts_max_wbuffer sample_session = 0"
    by (simp_all add: sample_session_def ts_start_def handle_start_def new_session_def switch_defs ts_read_def add_op_def Let_def)
  let ?s = "sample_session\<lparr>ts_current := Some new_stream, ts_write_buf := \<lparr>wb_free = [],
      wb_items = [new_stream_on [Some 1, Some 2] True], wb_all_len = 2\<rparr>\<rparr>"
  have m: "ms_good (new_stream_on [Some 1, Some 2] True)" "ms_offset (new_stream_on [Some 1, Some 2] True) = 0"
    "ms_body (new_stream_on [Some 1, Some 2] True) = map Some [1, 2]"
    by (simp_all add: new_stream_on_def ms_good_def ms_owned_def mem_of_def ms_body_def)
  have i: "wb_items (ts_write_buf ?s) = [] @ [new_stream_on [Some 1, Some 2] True]" by simp
  have s: "has_started (ts_switch ?s)" "ts_max_wbuffer ?s = 0" "ts_current ?s \<noteq> None" using st by simp_all
  have "[9 :: u8] \<noteq> []" "length [9 :: u8] \<le> length [1, 2 :: u8]" by simp_all
  from tcp_tail_overwrites [OF s i m this] show ?thesis by (auto simp: numeral_2_eq_2 numeral_3_eq_3)
qed

end
