(* ===== verification/Rpc_Frame.thy ===== *)
theory Rpc_Frame
  imports Memory_Stream
begin

text \<open>
  The messages of the rpc layer (boost_net/rpc_base.hpp): the packed head, DefaultProxyPkgHandle,
  which writes a message and cuts the received bytes into messages, and DefaultProxyMsgHandle, which
  reads status and parameters of one. Enumerations are their bytes on the wire.
\<close>

section \<open>The code\<close>

(* src: boost_net/rpc_base.hpp 136-144 msg_status *)
type_synonym msg_status = "8 word"

definition st_no_bind :: msg_status where "st_no_bind = -1"
definition st_ok :: msg_status where "st_ok = 0"
definition st_fail :: msg_status where "st_fail = 1"
definition st_timeout :: msg_status where "st_timeout = 2"
definition st_unpack_error :: msg_status where "st_unpack_error = 3"
definition st_send_error :: msg_status where "st_send_error = 4"
definition st_wait_error :: msg_status where "st_wait_error = 5"

(* src: boost_net/rpc_base.hpp 147-151 rpc_model *)
type_synonym rpc_model = "8 word"

definition future_model :: rpc_model where "future_model = 0"
definition callback_model :: rpc_model where "callback_model = 1"
definition bind_model :: rpc_model where "bind_model = 2"

(* src: boost_net/rpc_base.hpp 154-157 comm_model *)
type_synonym comm_model = "8 word"

definition request_comm :: comm_model where "request_comm = 0"
definition rsponse_comm :: comm_model where "rsponse_comm = 1"

(* src: boost_net/rpc_base.hpp 168-176 message_head *)
record message_head =
  comm_model :: comm_model
  rpc_model :: rpc_model
  req_id :: u32
  title_size :: u8
  content_size :: u32

definition head_size :: nat where "head_size = 11"

text \<open>The head in memory, packed, and back.\<close>

definition head_bytes :: "message_head \<Rightarrow> bytes" where
  "head_bytes h = comm_model h # rpc_model h # le32 (unat (req_id h)) @ title_size h # le32 (unat (content_size h))"

definition bytes_head :: "bytes \<Rightarrow> message_head" where
  "bytes_head bs = \<lparr>comm_model = bs ! 0, rpc_model = bs ! 1, req_id = word_of_nat (of_le (take 4 (drop 2 bs))),
     title_size = bs ! 6, content_size = word_of_nat (of_le (take 4 (drop 7 bs)))\<rparr>"

text \<open>A message, with its content as a stream.\<close>

(* src: boost_net/rpc_base.hpp 310-315 ProxyMsg *)
record proxy_msg =
  rpc_name :: bytes
  head :: message_head
  msg :: memory_stream

(* src: boost_net/rpc_base.hpp 252-257 ProxyMsg::ProxyMsg *)
definition proxy_msg_of :: "bytes \<Rightarrow> message_head \<Rightarrow> bytes \<Rightarrow> proxy_msg option" where
  "proxy_msg_of name h content =
     map_option (\<lambda>m. \<lparr>rpc_name = name, head = h, msg = m\<rparr>) (ms_load (map Some content) new_stream)"

text \<open>The title's size is the name's length in 8 bits, and that much of the name is written.\<close>

(* src: boost_net/rpc_base.hpp 325-344 DefaultProxyPkgHandle::package_msg *)
definition package_msg :: "bytes \<Rightarrow> comm_model \<Rightarrow> rpc_model \<Rightarrow> u32 \<Rightarrow> msg_status \<Rightarrow> arg list \<Rightarrow> proxy_msg option" where
  "package_msg name comm model req status args =
     (let t = word_of_nat (length name) :: u8;
          content_length = word_of_nat (args_length (Raw [status] # args)) :: u32;
          h = \<lparr>comm_model = comm, rpc_model = model, req_id = req, title_size = t, content_size = content_length\<rparr>
      in do {
        w \<leftarrow> ms_append (map Some (head_bytes h))
               (new_stream_of_capacity (head_size + unat t + unat content_length));
        w \<leftarrow> ms_append (map Some (take (unat t) name)) w;
        w \<leftarrow> ms_append_args (Raw [status] # args) w;
        Some \<lparr>rpc_name = name, head = h, msg = w\<rparr> })"

text \<open>What is sent of a message: its stream, as far as it is filled.\<close>

(* src: boost_net/rpc_base.hpp 293-298 ProxyMsg::get_package *)
definition package_bytes :: "proxy_msg \<Rightarrow> cell list" where
  "package_bytes p = take (ms_size (msg p)) (mem_of (msg p))"

datatype unpack_result = Unpacked "proxy_msg list" nat | BadPackage

text \<open>
  The loop over the received bytes from a position on: the messages found so far, the number of bytes
  dealt with, and the error for a head that cannot be. The sums are of 32-bit numbers below 2 to the
  31, except for the position.
\<close>

(* src: boost_net/rpc_base.hpp 351-380 DefaultProxyPkgHandle::unpackage_msg *)
function unpack_loop :: "bytes \<Rightarrow> nat \<Rightarrow> proxy_msg list \<Rightarrow> unpack_result option" where
  "unpack_loop bs off acc =
     (if length bs - off \<ge> head_size + 1 then
        let h = bytes_head (take head_size (drop off bs));
            pos = off + head_size;
            t = unat (title_size h);
            c = unat (content_size h)
        in if t = 0 \<or> c > (2 ^ 32 - 1) div 2 then Some BadPackage
           else if length bs - pos < t + c then Some (Unpacked acc (pos - head_size))
           else
             (case proxy_msg_of (take t (drop pos bs)) h (take c (drop (pos + t) bs)) of
                None \<Rightarrow> None
              | Some p \<Rightarrow> unpack_loop bs (pos + t + c) (acc @ [p]))
      else Some (Unpacked acc off))"
  by pat_completeness auto

termination
proof (relation "measure (\<lambda>(bs, off, acc). length bs - off)", goal_cases)
  case (2 bs off acc h pos t c)
  then show ?case by (simp add: head_size_def)
qed simp

declare unpack_loop.simps [simp del]

(* src: boost_net/rpc_base.hpp 348-380 DefaultProxyPkgHandle::unpackage_msg *)
definition unpackage_msg :: "bytes \<Rightarrow> unpack_result option" where
  "unpackage_msg bs = unpack_loop bs 0 []"

text \<open>The size of the arguments of these types, and of strings and streams their length field.\<close>

(* src: boost_net/memory_stream.hpp 525-542 MemoryStream::get_args_sizeof *)
fun args_sizeof :: "arg_type list \<Rightarrow> nat" where
  "args_sizeof [] = 0"
| "args_sizeof (RawT n # ts) = n + args_sizeof ts"
| "args_sizeof (StrT # ts) = 4 + args_sizeof ts"
| "args_sizeof (MemT # ts) = 4 + args_sizeof ts"

definition read_status :: "memory_stream \<Rightarrow> (msg_status \<times> memory_stream) option" where
  "read_status m = do { (xs, m) \<leftarrow> ms_read 1 True m; bs \<leftarrow> definite xs; Some (hd bs, m) }"

text \<open>
  The status and the parameters of a request, and of a response; parameters that were not read are
  None, the default value in the code. No types stand for void.
\<close>

(* src: boost_net/rpc_base.hpp 180-198 DefaultProxyMsgHandle::get_req_params *)
definition get_req_params :: "arg_type list \<Rightarrow> memory_stream \<Rightarrow> (msg_status \<times> cell list list option) option" where
  "get_req_params ts m =
     (if ms_size m < args_sizeof ts + 1 then Some (st_unpack_error, None)
      else do {
        (status, m) \<leftarrow> read_status m;
        (xs, m) \<leftarrow> ms_read_args ts m;
        Some (status, Some xs) })"

(* src: boost_net/rpc_base.hpp 200-230 DefaultProxyMsgHandle::get_rsp_params *)
definition get_rsp_params :: "arg_type list \<Rightarrow> memory_stream \<Rightarrow> (msg_status \<times> cell list list option) option" where
  "get_rsp_params ts m =
     (if ms_size m < 1 then Some (st_unpack_error, None)
      else do {
        (status, m) \<leftarrow> read_status m;
        if ts = [] then Some (status, Some [])
        else if status = st_no_bind then Some (status, None)
        else if ms_res_length m < args_sizeof ts then Some (st_unpack_error, None)
        else if sint status > sint st_wait_error then Some (st_unpack_error, None)
        else do { (xs, m) \<leftarrow> ms_read_args ts m; Some (status, Some xs) } })"

section \<open>One message\<close>

lemma length_head_bytes [simp]: "length (head_bytes h) = 11"
  by (simp add: head_bytes_def)

lemma bytes_head_bytes: "bytes_head (head_bytes h @ rest) = h"
proof -
  have lt: "unat (req_id h) < 2 ^ 32" "unat (content_size h) < 2 ^ 32"
    using unsigned_less [of "req_id h"] unsigned_less [of "content_size h"] by simp_all
  have "bytes_head (head_bytes h @ rest) = \<lparr>comm_model = comm_model h, rpc_model = rpc_model h, req_id = req_id h,
      title_size = title_size h, content_size = content_size h\<rparr>"
    using of_le_le32 [OF lt(1)] of_le_le32 [OF lt(2)]
    by (simp add: bytes_head_def head_bytes_def nth_append)
  then show ?thesis by simp
qed

text \<open>The bytes of a message with this head, name and content.\<close>

definition frame :: "message_head \<Rightarrow> bytes \<Rightarrow> bytes \<Rightarrow> bytes" where
  "frame h name content = head_bytes h @ name @ content"

lemma filled_capacity: "ms_filled (new_stream_of_capacity n) []"
  by (simp add: ms_filled_def) (simp add: new_stream_of_capacity_def)

lemma ms_filled_body: "ms_filled m bs \<Longrightarrow> take (ms_size m) (mem_of m) = map Some bs"
  by (simp add: ms_filled_def)

lemma package_frame:
  assumes "length name < 256" "args_length args + 1 < 2 ^ 32"
  shows "\<exists>p. package_msg name comm model req status args = Some p \<and>
    unat (title_size (head p)) = length name \<and> unat (content_size (head p)) = args_length args + 1 \<and>
    comm_model (head p) = comm \<and> rpc_model (head p) = model \<and> req_id (head p) = req \<and>
    package_bytes p = map Some (frame (head p) name (status # enc_args args)) \<and> rpc_name p = name"
proof -
  define t :: u8 where "t = word_of_nat (length name)"
  define c :: u32 where "c = word_of_nat (args_length (Raw [status] # args))"
  define h where "h = \<lparr>comm_model = comm, rpc_model = model, req_id = req, title_size = t, content_size = c\<rparr>"
  have t: "unat t = length name" using assms by (simp add: t_def unat_of_nat)
  have "unat c = args_length (Raw [status] # args) mod 2 ^ 32" unfolding c_def unat_of_nat by simp
  then have c: "unat c = args_length args + 1" using assms(2) by simp
  obtain w1 where w1: "ms_append (map Some (head_bytes h)) (new_stream_of_capacity (head_size + unat t + unat c)) = Some w1"
    "ms_filled w1 (head_bytes h)"
    using append_filled [OF filled_capacity, of "head_bytes h"] by auto
  obtain w2 where w2: "ms_append (map Some name) w1 = Some w2" "ms_filled w2 (head_bytes h @ name)"
    using append_filled [OF w1(2)] by blast
  obtain w3 where w3: "ms_append_args (Raw [status] # args) w2 = Some w3"
    "ms_filled w3 ((head_bytes h @ name) @ enc_args (Raw [status] # args))"
    using append_args_filled [OF w2(2)] by blast
  define p where "p = \<lparr>rpc_name = name, head = h, msg = w3\<rparr>"
  have "package_msg name comm model req status args = Some p"
    using w1(1) w2(1) w3(1) t unfolding package_msg_def Let_def t_def [symmetric] c_def [symmetric] h_def [symmetric]
    by (simp add: p_def del: ms_append_args.simps)
  moreover have "package_bytes p = map Some (frame h name (status # enc_args args))"
    using ms_filled_body [OF w3(2)] by (simp add: package_bytes_def p_def frame_def)
  ultimately show ?thesis using t c by (simp add: p_def h_def)
qed

section \<open>Cutting the stream\<close>

text \<open>A message that can be on the wire, as what is cut out of it.\<close>

type_synonym frame_parts = "message_head \<times> bytes \<times> bytes"

definition parts_ok :: "frame_parts \<Rightarrow> bool" where
  "parts_ok = (\<lambda>(h, name, content). name \<noteq> [] \<and> length name = unat (title_size h) \<and> content \<noteq> [] \<and>
     length content = unat (content_size h) \<and> unat (content_size h) \<le> (2 ^ 32 - 1) div 2)"

definition parts_bytes :: "frame_parts \<Rightarrow> bytes" where
  "parts_bytes = (\<lambda>(h, name, content). frame h name content)"

definition msg_of :: "frame_parts \<Rightarrow> proxy_msg" where
  "msg_of = (\<lambda>(h, name, content). the (proxy_msg_of name h content))"

lemma proxy_msg_of_Some: "proxy_msg_of name h content = Some (msg_of (h, name, content))"
proof -
  have "ms_load (map Some content) new_stream \<noteq> None"
    using load_new [of content] by (auto simp: ms_destroy_def new_stream_def)
  then show ?thesis by (auto simp: proxy_msg_of_def msg_of_def)
qed

text \<open>The start of a message that has not arrived as a whole.\<close>

definition partial_frame :: "bytes \<Rightarrow> bool" where
  "partial_frame bs \<longleftrightarrow> (\<exists>p rest. parts_ok p \<and> rest \<noteq> [] \<and> parts_bytes p = bs @ rest)"

lemma parts_head_ok:
  assumes "parts_ok (h, name, content)"
  shows "\<not> (unat (title_size h) = 0 \<or> unat (content_size h) > (2 ^ 32 - 1) div 2)"
proof -
  have ok: "name \<noteq> []" "length name = unat (title_size h)" "unat (content_size h) \<le> (2 ^ 32 - 1) div 2"
    using assms by (auto simp: parts_ok_def)
  have "unat (title_size h) \<noteq> 0" unfolding ok(2) [symmetric] using ok(1) by simp
  then show ?thesis using ok(3) by (simp del: unat_eq_0)
qed

lemma unpack_partial:
  assumes "bs = pre @ tail" "partial_frame tail \<or> tail = []"
  shows "unpack_loop bs (length pre) acc = Some (Unpacked acc (length pre))"
proof (cases "length tail \<ge> head_size + 1")
  case False
  then show ?thesis using assms(1) by (subst unpack_loop.simps) simp
next
  case True
  then obtain h name content rest where p: "parts_ok (h, name, content)" "rest \<noteq> []"
    "head_bytes h @ name @ content = tail @ rest"
    using assms(2) by (auto simp: partial_frame_def parts_bytes_def frame_def head_size_def)
  have len: "11 + length name + length content = length tail + length rest"
    using arg_cong [OF p(3), of length] by simp
  have "take 11 tail = take 11 (tail @ rest)" using True by (simp add: head_size_def)
  also have "\<dots> = head_bytes h" unfolding p(3) [symmetric] by simp
  finally have hd: "bytes_head (take head_size (drop (length pre) bs)) = h"
    using bytes_head_bytes [of h "[]"] by (simp add: assms(1) head_size_def)
  have "\<not> (unat (title_size h) = 0 \<or> unat (content_size h) > (2 ^ 32 - 1) div 2)"
    by (rule parts_head_ok [OF p(1)])
  moreover have "length tail - 11 < unat (title_size h) + unat (content_size h)"
  proof -
    have "0 < length rest" "length name = unat (title_size h)" "length content = unat (content_size h)" "11 < length tail"
      using p(1,2) True by (auto simp: parts_ok_def head_size_def)
    then show ?thesis using len by linarith
  qed
  ultimately show ?thesis
    using True by (subst unpack_loop.simps) (simp add: hd Let_def, simp add: assms(1) head_size_def)
qed

lemma unpack_frame:
  assumes "bs = pre @ parts_bytes p @ post" "parts_ok p"
  shows "unpack_loop bs (length pre) acc =
    unpack_loop bs (length (pre @ parts_bytes p)) (acc @ [msg_of p])"
proof -
  obtain h name content where pp: "p = (h, name, content)" by (cases p) auto
  have ok: "name \<noteq> []" "length name = unat (title_size h)" "content \<noteq> []"
    "length content = unat (content_size h)" "unat (content_size h) \<le> (2 ^ 32 - 1) div 2"
    using assms(2) by (auto simp: parts_ok_def pp)
  have bs: "bs = pre @ head_bytes h @ name @ content @ post" by (simp add: assms(1) pp parts_bytes_def frame_def)
  have big: "length bs - length pre \<ge> head_size + 1"
    using ok(1) by (cases name) (simp_all add: bs head_size_def)
  have hd: "bytes_head (take head_size (drop (length pre) bs)) = h"
    using bytes_head_bytes [of h "[]"] by (simp add: bs head_size_def)
  have nm: "take (length name) (drop (length pre + 11) bs) = name" by (simp add: bs)
  have ct: "take (length content) (drop (length pre + 11 + length name) bs) = content" by (simp add: bs)
  have nz: "\<not> (unat (title_size h) = 0 \<or> unat (content_size h) > (2 ^ 32 - 1) div 2)"
    using parts_head_ok assms(2) unfolding pp .
  have enough: "\<not> length bs - (length pre + head_size) < unat (title_size h) + unat (content_size h)"
    using ok by (simp add: bs head_size_def)
  show ?thesis
    using big nz enough nm ct ok(2,4)
    by (subst unpack_loop.simps)
       (simp add: hd Let_def proxy_msg_of_Some, simp add: head_size_def pp parts_bytes_def frame_def add.assoc)
qed

lemma unpack_frames:
  "bs = pre @ concat (map parts_bytes ps) @ tail \<Longrightarrow> \<forall>p \<in> set ps. parts_ok p \<Longrightarrow> partial_frame tail \<or> tail = [] \<Longrightarrow>
   unpack_loop bs (length pre) acc =
     Some (Unpacked (acc @ map msg_of ps) (length pre + length (concat (map parts_bytes ps))))"
proof (induction ps arbitrary: pre acc)
  case Nil
  then show ?case using unpack_partial [of bs pre tail acc] by simp
next
  case (Cons p ps)
  have "unpack_loop bs (length pre) acc = unpack_loop bs (length (pre @ parts_bytes p)) (acc @ [msg_of p])"
    by (rule unpack_frame [of _ _ _ "concat (map parts_bytes ps) @ tail"]) (use Cons.prems in auto)
  then show ?case using Cons.IH [of "pre @ parts_bytes p" "acc @ [msg_of p]"] Cons.prems by simp
qed

section \<open>Bytes that arrive in pieces\<close>

text \<open>
  The receiver, with a read buffer of cap bytes as the session has one: every read asks for the room
  that is left and gets the next bytes of the stream, at most as many as have arrived by then (the
  list of numbers); then what the buffer holds is cut into messages, as the read callbacks do, and
  what was not dealt with stays. The result is the messages, what is left in the buffer and what was
  not read of the stream.
\<close>

fun receive :: "nat \<Rightarrow> nat list \<Rightarrow> bytes \<Rightarrow> bytes \<Rightarrow> (proxy_msg list \<times> bytes \<times> bytes) option" where
  "receive cap [] stream buf = Some ([], buf, stream)"
| "receive cap (k # ks) stream buf =
     (let n = min k (cap - length buf); data = buf @ take n stream
      in case unpackage_msg data of
           Some (Unpacked units deal) \<Rightarrow>
             map_option (\<lambda>(ms, rest). (units @ ms, rest)) (receive cap ks (drop n stream) (drop deal data))
         | _ \<Rightarrow> None)"

text \<open>What has arrived of a sequence of messages is some of them and the start of the next.\<close>

lemma prefix_frames:
  "xs @ ys = concat (map parts_bytes ps) \<Longrightarrow> \<forall>p \<in> set ps. parts_ok p \<Longrightarrow>
   \<exists>qs rs tail. ps = qs @ rs \<and> xs = concat (map parts_bytes qs) @ tail \<and>
     tail @ ys = concat (map parts_bytes rs) \<and> (tail = [] \<or> partial_frame tail) \<and>
     (if rs = [] then tail = [] else length tail < length (parts_bytes (hd rs)))"
proof (induction ps arbitrary: xs)
  case (Cons p ps)
  show ?case
  proof (cases "length xs < length (parts_bytes p)")
    case True
    have e: "xs @ ys = parts_bytes p @ concat (map parts_bytes ps)" using Cons.prems(1) by simp
    have "parts_bytes p = xs @ drop (length xs) (parts_bytes p)"
      using arg_cong [OF e, of "take (length xs)"] True
        append_take_drop_id [of "length xs" "parts_bytes p"] by simp
    then have "partial_frame xs" unfolding partial_frame_def using True Cons.prems(2)
      by (intro exI [of _ p] exI [of _ "drop (length xs) (parts_bytes p)"]) auto
    then show ?thesis using Cons.prems(1) True
      by (intro exI [of _ "[]"] exI [of _ "p # ps"] exI [of _ xs]) simp
  next
    case False
    have e: "xs @ ys = parts_bytes p @ concat (map parts_bytes ps)" using Cons.prems(1) by simp
    define n where "n = length (parts_bytes p)"
    have n: "n \<le> length xs" using False by (simp add: n_def)
    have "take n (xs @ ys) = parts_bytes p" "drop n (xs @ ys) = concat (map parts_bytes ps)"
      unfolding e by (simp_all add: n_def)
    then have tk: "take n xs = parts_bytes p" "drop n xs @ ys = concat (map parts_bytes ps)" using n by simp_all
    define zs where "zs = drop n xs"
    have zs: "xs = parts_bytes p @ zs" "zs @ ys = concat (map parts_bytes ps)"
      using tk append_take_drop_id [of n xs] by (simp_all add: zs_def)
    obtain qs rs tail where "ps = qs @ rs" "zs = concat (map parts_bytes qs) @ tail"
      "tail @ ys = concat (map parts_bytes rs)" "tail = [] \<or> partial_frame tail"
      "if rs = [] then tail = [] else length tail < length (parts_bytes (hd rs))"
      using Cons.IH [OF zs(2)] Cons.prems(2) by auto
    then show ?thesis using zs(1) by (intro exI [of _ "p # qs"] exI [of _ rs] exI [of _ tail]) simp
  qed
qed simp

text \<open>
  Whatever the reads, the messages received are the first ones and the buffer has the start of the
  next; with as many reads as bytes, each of which finds at least one, nothing is left.
\<close>

lemma receive_frames:
  "buf @ stream = concat (map parts_bytes ps) \<Longrightarrow> \<forall>p \<in> set ps. parts_ok p \<and> length (parts_bytes p) \<le> cap \<Longrightarrow>
   if ps = [] then buf = [] else length buf < length (parts_bytes (hd ps)) \<Longrightarrow>
   \<exists>qs rs tail stream'. receive cap ks stream buf = Some (map msg_of qs, tail, stream') \<and> ps = qs @ rs \<and>
     tail @ stream' = concat (map parts_bytes rs) \<and> length tail \<le> cap \<and>
     (if rs = [] then tail = [] else length tail < length (parts_bytes (hd rs))) \<and>
     (0 \<notin> set ks \<longrightarrow> stream' = [] \<or> length stream' + length ks \<le> length stream)"
proof (induction ks arbitrary: stream buf ps)
  case Nil
  have "length buf \<le> cap" using Nil.prems(2,3) by (cases ps) auto
  then show ?case using Nil.prems by (intro exI [of _ "[]"] exI [of _ ps] exI [of _ buf] exI [of _ stream]) simp
next
  case (Cons k ks)
  define n where "n = min k (cap - length buf)"
  have room: "stream \<noteq> [] \<Longrightarrow> k \<noteq> 0 \<Longrightarrow> 0 < n"
    using Cons.prems by (cases ps) (auto simp: n_def)
  have whole: "(buf @ take n stream) @ drop n stream = concat (map parts_bytes ps)"
    using Cons.prems(1) by simp
  have ok: "\<forall>p \<in> set ps. parts_ok p" using Cons.prems(2) by simp
  from prefix_frames [OF whole ok] obtain qs rs tail where
    q: "ps = qs @ rs" "buf @ take n stream = concat (map parts_bytes qs) @ tail"
      "tail @ drop n stream = concat (map parts_bytes rs)" "tail = [] \<or> partial_frame tail"
      "if rs = [] then tail = [] else length tail < length (parts_bytes (hd rs))" by blast
  have u: "unpackage_msg (buf @ take n stream) =
      Some (Unpacked (map msg_of qs) (length (concat (map parts_bytes qs))))"
    using unpack_frames [of "buf @ take n stream" "[]" qs tail "[]"] q ok by (auto simp: unpackage_msg_def)
  have d: "drop (length (concat (map parts_bytes qs))) (buf @ take n stream) = tail" by (simp add: q(2))
  have rok: "\<forall>p \<in> set rs. parts_ok p \<and> length (parts_bytes p) \<le> cap" using q(1) Cons.prems(2) by simp
  from Cons.IH [OF q(3) rok q(5)] obtain qs2 rs2 tail2 stream2 where
    h: "receive cap ks (drop n stream) tail = Some (map msg_of qs2, tail2, stream2)" "rs = qs2 @ rs2"
      "tail2 @ stream2 = concat (map parts_bytes rs2)" "length tail2 \<le> cap"
      "if rs2 = [] then tail2 = [] else length tail2 < length (parts_bytes (hd rs2))"
      "0 \<notin> set ks \<longrightarrow> stream2 = [] \<or> length stream2 + length ks \<le> length (drop n stream)" by blast
  have "receive cap (k # ks) stream buf = Some (map msg_of (qs @ qs2), tail2, stream2)"
    using u d h(1) by (simp add: Let_def flip: n_def)
  moreover have "stream2 = [] \<or> length stream2 + length (k # ks) \<le> length stream" if "0 \<notin> set (k # ks)"
  proof (cases "stream = []")
    case True
    then show ?thesis using h(6) that by auto
  next
    case False
    then have "0 < n" "0 < length stream" using room that by auto
    moreover have "stream2 = [] \<or> length stream2 + length ks \<le> length stream - n" using h(6) that by simp
    ultimately show ?thesis
    proof (elim disjE)
      assume "length stream2 + length ks \<le> length stream - n"
      then have "length stream2 + Suc (length ks) \<le> length stream"
        using \<open>0 < n\<close> \<open>0 < length stream\<close> by linarith
      then show ?thesis by simp
    qed simp
  qed
  ultimately show ?case using h(2-5) q(1)
    by (intro exI [of _ "qs @ qs2"] exI [of _ rs2] exI [of _ tail2] exI [of _ stream2]) simp
qed

section \<open>Properties\<close>

text \<open>C7: Messages survive the stream. Take any messages with a name of 1 to 255 bytes and a content of 1 to
  2 to the 31 less 1 bytes, with the lengths that their heads say, and a receiver whose read buffer has
  room for the longest of them. However many bytes have arrived whenever it reads, at least one each
  time, the receiver, which reads no more than its buffer has room for and cuts what it has after
  each read, never holds more than its buffer can, and has got some first messages after any number of
  reads; and when it has read as often as there are bytes, it has got exactly the messages in
  order, with their heads, names and contents, and nothing is left over. (With a buffer shorter than
  a message that message is never got: rpc_long_message_stuck.)\<close>

theorem rpc_stream_framing:
  assumes "\<forall>p \<in> set ps. parts_ok p \<and> length (parts_bytes p) \<le> cap" "0 \<notin> set ks"
  shows "(\<exists>qs rs tail stream. receive cap ks (concat (map parts_bytes ps)) [] = Some (map msg_of qs, tail, stream) \<and>
      ps = qs @ rs \<and> length tail \<le> cap \<and> tail @ stream = concat (map parts_bytes rs)) \<and>
    (length (concat (map parts_bytes ps)) \<le> length ks \<longrightarrow>
      receive cap ks (concat (map parts_bytes ps)) [] = Some (map msg_of ps, [], [])) \<and>
    (\<forall>(h, name, content) \<in> set ps. rpc_name (msg_of (h, name, content)) = name \<and>
       head (msg_of (h, name, content)) = h \<and> package_bytes (msg_of (h, name, content)) = map Some content)"
proof -
  have "rpc_name (msg_of (h, name, content)) = name \<and> head (msg_of (h, name, content)) = h \<and>
      package_bytes (msg_of (h, name, content)) = map Some content" for h name content
  proof -
    obtain d where d: "ms_load (map Some content) new_stream = Some d" "copy_out 0 (ms_size d) d = Some (map Some content)"
      using load_new [of content] by (auto simp: ms_destroy_def new_stream_def)
    have "take (ms_size d) (mem_of d) = map Some content"
      using d(2) by (auto simp: copy_out_def split: if_splits)
    then show ?thesis using d(1) by (simp add: msg_of_def proxy_msg_of_def package_bytes_def)
  qed
  moreover have ne: "parts_bytes p \<noteq> []" for p
    by (cases p) (simp add: parts_bytes_def frame_def head_bytes_def)
  have first: "if ps = [] then [] = [] else length [] < length (parts_bytes (hd ps))" using ne by simp
  obtain qs rs tail stream where
    r: "receive cap ks (concat (map parts_bytes ps)) [] = Some (map msg_of qs, tail, stream)" "ps = qs @ rs"
      "tail @ stream = concat (map parts_bytes rs)" "length tail \<le> cap"
      "if rs = [] then tail = [] else length tail < length (parts_bytes (hd rs))"
      "stream = [] \<or> length stream + length ks \<le> length (concat (map parts_bytes ps))"
    using receive_frames [of "[]" "concat (map parts_bytes ps)" ps cap ks, OF _ assms(1) first] assms(2)
    by (metis append_Nil)
  moreover have "rs = [] \<and> tail = [] \<and> stream = []" if l: "length (concat (map parts_bytes ps)) \<le> length ks"
  proof -
    have "length stream = 0" using r(6) l by (elim disjE) (simp, linarith)
    then have "stream = []" by simp
    have "rs = []"
    proof (rule ccontr)
      assume "rs \<noteq> []"
      then obtain p rs' where "rs = p # rs'" by (cases rs) auto
      then show False using r(3,5) \<open>stream = []\<close> by auto
    qed
    then show ?thesis using r(5) \<open>stream = []\<close> by simp
  qed
  ultimately show ?thesis by auto
qed

definition sample_parts :: frame_parts where
  "sample_parts = (\<lparr>comm_model = 0, rpc_model = 0, req_id = 7, title_size = 1, content_size = 2\<rparr>, [65], [0, 9])"

theorem rpc_stream_framing_witness:
  "receive 14 (replicate 28 1) (parts_bytes sample_parts @ parts_bytes sample_parts) [] =
     Some ([msg_of sample_parts, msg_of sample_parts], [], [])"
proof -
  have l: "length (parts_bytes sample_parts) = 14" by (simp add: sample_parts_def parts_bytes_def frame_def)
  then have ok: "\<forall>p \<in> set [sample_parts, sample_parts]. parts_ok p \<and> length (parts_bytes p) \<le> 14"
    by (simp add: sample_parts_def parts_ok_def)
  have ks: "(0 :: nat) \<notin> set (replicate 28 1)" by simp
  show ?thesis using rpc_stream_framing [OF ok ks] l by simp
qed

end
