(* ===== verification/Rpc_Proxy.thy ===== *)
theory Rpc_Proxy
  imports Rpc_Frame Tcp_Session
begin

text \<open>
  The two ends of the rpc layer (boost_net/rpc_base.hpp): the promises of synchronous calls
  (SyncProxy), the callbacks of asynchronous ones (CallbackProxy), the bound functions (BindProxy)
  and the read callbacks of RpcClient and RpcService. Writing to the session is a parameter, as the
  virtual write_impl is; a bound function is a function on the bytes of its parameters.
\<close>

section \<open>SyncProxy\<close>

text \<open>A request id has a promise, with its value once it is set.\<close>

(* src: boost_net/rpc_base.hpp 442-446 SyncProxy *)
record sync_proxy =
  sp_cur :: u32
  sp_map :: "u32 \<Rightarrow> proxy_msg option option"

definition new_sync_proxy :: sync_proxy where
  "new_sync_proxy = \<lparr>sp_cur = 0, sp_map = Map.empty\<rparr>"

text \<open>emplace keeps an entry that is there.\<close>

(* src: boost_net/rpc_base.hpp 412-417 SyncProxy::get_next_promise *)
definition sync_next :: "sync_proxy \<Rightarrow> u32 \<times> sync_proxy" where
  "sync_next s =
     (let i = sp_cur s + 1
      in (i, s\<lparr>sp_cur := i, sp_map := (case sp_map s i of None \<Rightarrow> (sp_map s)(i \<mapsto> None) | Some _ \<Rightarrow> sp_map s)\<rparr>))"

text \<open>Setting a promise that has its value throws, here None.\<close>

(* src: boost_net/rpc_base.hpp 405-410 SyncProxy::invoke *)
definition sync_invoke :: "proxy_msg \<Rightarrow> sync_proxy \<Rightarrow> sync_proxy option" where
  "sync_invoke item s =
     (case sp_map s (req_id (head item)) of
        None \<Rightarrow> Some s
      | Some None \<Rightarrow> Some (s\<lparr>sp_map := (sp_map s)(req_id (head item) \<mapsto> Some item)\<rparr>)
      | Some (Some _) \<Rightarrow> None)"

(* src: boost_net/rpc_base.hpp 429-432 SyncProxy::remove *)
definition sync_remove :: "u32 \<Rightarrow> sync_proxy \<Rightarrow> sync_proxy" where
  "sync_remove i s = s\<lparr>sp_map := (sp_map s)(i := None)\<rparr>"

text \<open>The end of the wait: the value, or none if the time was up; a missing promise is a null pointer.\<close>

(* src: boost_net/rpc_base.hpp 419-428 SyncProxy::wait_for *)
definition sync_wait_for :: "u32 \<Rightarrow> sync_proxy \<Rightarrow> (msg_status \<times> proxy_msg option \<times> sync_proxy) option" where
  "sync_wait_for i s =
     (case sp_map s i of
        None \<Rightarrow> None
      | Some v \<Rightarrow> Some (if v = None then st_timeout else st_ok, v, sync_remove i s))"

section \<open>CallbackProxy\<close>

(* src: boost_net/rpc_base.hpp 544-555 CallbackProxy *)
record callback_proxy =
  cb_cur :: u32
  cb_overtime :: "u32 \<Rightarrow> (nat \<times> nat) option"
  cb_map :: "u32 set"
  cb_called :: "(u32 \<times> nat \<times> msg_status \<times> proxy_msg option) list"

definition new_callback_proxy :: callback_proxy where
  "new_callback_proxy = \<lparr>cb_cur = 0, cb_overtime = Map.empty, cb_map = {}, cb_called = []\<rparr>"

(* src: boost_net/rpc_base.hpp 474-487 CallbackProxy::insert *)
definition cb_insert :: "callback_proxy \<Rightarrow> u32 \<times> callback_proxy" where
  "cb_insert c = (let i = cb_cur c + 1 in (i, c\<lparr>cb_cur := i, cb_map := insert i (cb_map c)\<rparr>))"

(* src: boost_net/rpc_base.hpp 489-496 CallbackProxy::insert_timer *)
definition cb_insert_timer :: "nat \<Rightarrow> u32 \<Rightarrow> nat \<Rightarrow> callback_proxy \<Rightarrow> callback_proxy" where
  "cb_insert_timer session i timer c =
     (if cb_overtime c i = None then c\<lparr>cb_overtime := (cb_overtime c)(i \<mapsto> (session, timer))\<rparr> else c)"

(* src: boost_net/rpc_base.hpp 510-519 CallbackProxy::remove_timer *)
definition cb_remove_timer :: "u32 \<Rightarrow> callback_proxy \<Rightarrow> (nat \<times> nat) \<times> callback_proxy" where
  "cb_remove_timer i c =
     (case cb_overtime c i of
        None \<Rightarrow> ((0, 0), c)
      | Some st \<Rightarrow> (st, c\<lparr>cb_overtime := (cb_overtime c)(i := None)\<rparr>))"

(* src: boost_net/rpc_base.hpp 463-472 CallbackProxy::invoke *)
definition cb_invoke :: "proxy_msg \<Rightarrow> callback_proxy \<Rightarrow> callback_proxy" where
  "cb_invoke m c =
     (let i = req_id (head m); ((session, _), c1) = cb_remove_timer i c
      in if i \<notin> cb_map c1 then c1
         else c1\<lparr>cb_called := cb_called c1 @ [(i, session, st_ok, Some m)], cb_map := cb_map c1 - {i}\<rparr>)"

(* src: boost_net/rpc_base.hpp 498-507 CallbackProxy::remove *)
definition cb_remove :: "u32 \<Rightarrow> msg_status \<Rightarrow> callback_proxy \<Rightarrow> callback_proxy" where
  "cb_remove i status c =
     (let ((session, _), c1) = cb_remove_timer i c
      in if i \<notin> cb_map c1 then c1
         else c1\<lparr>cb_called := cb_called c1 @ [(i, session, status, None)], cb_map := cb_map c1 - {i}\<rparr>)"

text \<open>What the callback gets: the status and the parameters, default ones if there is no message.\<close>

(* src: boost_net/rpc_base.hpp 522-542 CallbackProxy::proxy *)
definition cb_proxy :: "arg_type list \<Rightarrow> msg_status \<Rightarrow> proxy_msg option \<Rightarrow> (msg_status \<times> cell list list option) option" where
  "cb_proxy ts status m =
     (case m of
        None \<Rightarrow> Some (status, None)
      | Some p \<Rightarrow> if status \<noteq> st_ok then Some (status, None) else get_rsp_params ts (msg p))"

section \<open>BindProxy and the ends\<close>

text \<open>
  A function bound with bind_auto answers with its result, one bound with bind is only called; both
  answer a request whose status or parameters are bad with that status and the default result.
\<close>

datatype bound =
  Auto "arg_type list" "nat \<Rightarrow> cell list list \<Rightarrow> arg list" "arg list"
| Manual "arg_type list" "arg list"

(* src: boost_net/rpc_base.hpp 926-931 RpcBase *)
record rpc_end =
  re_sync :: sync_proxy
  re_callback :: callback_proxy
  re_binds :: "bytes \<Rightarrow> bound option"
  re_written :: "(nat \<times> cell list) list"
  re_manual :: "(bytes \<times> nat \<times> message_head \<times> cell list list) list"
  re_closed :: bool

(* src: boost_net/rpc_base.hpp 581-589 BindProxy::insert *)
definition re_bind :: "bytes \<Rightarrow> bound \<Rightarrow> rpc_end \<Rightarrow> rpc_end" where
  "re_bind name b e = e\<lparr>re_binds := (re_binds e)(name \<mapsto> b)\<rparr>"

(* src: boost_net/rpc_base.hpp 845-849 RpcBase::rsp_bind *)
definition rsp_bind :: "bytes \<Rightarrow> nat \<Rightarrow> u32 \<Rightarrow> rpc_model \<Rightarrow> msg_status \<Rightarrow> arg list \<Rightarrow> rpc_end \<Rightarrow> rpc_end option" where
  "rsp_bind name session i model status args e =
     do { p \<leftarrow> package_msg name rsponse_comm model i status args;
          Some (e\<lparr>re_written := re_written e @ [(session, package_bytes p)]\<rparr>) }"

(* src: boost_net/rpc_base.hpp 649-698 BindProxy::bind_auto_proxy *)
definition bind_auto_proxy ::
  "arg_type list \<Rightarrow> (nat \<Rightarrow> cell list list \<Rightarrow> arg list) \<Rightarrow> arg list \<Rightarrow> nat \<Rightarrow> proxy_msg \<Rightarrow> rpc_end \<Rightarrow> rpc_end option" where
  "bind_auto_proxy ts f dflt session m e =
     do { (status, xs) \<leftarrow> get_req_params ts (msg m);
          if status \<noteq> st_ok
          then rsp_bind (rpc_name m) session (req_id (head m)) (rpc_model (head m)) status dflt e
          else rsp_bind (rpc_name m) session (req_id (head m)) (rpc_model (head m)) status
                 (f session (case xs of None \<Rightarrow> [] | Some v \<Rightarrow> v)) e }"

(* src: boost_net/rpc_base.hpp 593-638 BindProxy::bind_proxy *)
definition bind_proxy :: "arg_type list \<Rightarrow> arg list \<Rightarrow> nat \<Rightarrow> proxy_msg \<Rightarrow> rpc_end \<Rightarrow> rpc_end option" where
  "bind_proxy ts dflt session m e =
     do { (status, xs) \<leftarrow> get_req_params ts (msg m);
          if status \<noteq> st_ok
          then rsp_bind (rpc_name m) session (req_id (head m)) (rpc_model (head m)) status dflt e
          else Some (e\<lparr>re_manual := re_manual e @
                 [(rpc_name m, session, head m, case xs of None \<Rightarrow> [] | Some v \<Rightarrow> v)]\<rparr>) }"

(* src: boost_net/rpc_base.hpp 573-579 BindProxy::invoke *)
definition bind_invoke :: "nat \<Rightarrow> proxy_msg \<Rightarrow> rpc_end \<Rightarrow> (bool \<times> rpc_end) option" where
  "bind_invoke session m e =
     (case re_binds e (rpc_name m) of
        None \<Rightarrow> Some (False, e)
      | Some (Auto ts f dflt) \<Rightarrow> map_option (Pair True) (bind_auto_proxy ts f dflt session m e)
      | Some (Manual ts dflt) \<Rightarrow> map_option (Pair True) (bind_proxy ts dflt session m e))"

text \<open>The units of a read callback in order, to the end or to one that closes the session.\<close>

(* src: boost_net/rpc_base.hpp 1149-1173 RpcClient::read_cbk *)
fun deal_units :: "nat \<Rightarrow> proxy_msg list \<Rightarrow> rpc_end \<Rightarrow> rpc_end option" where
  "deal_units session [] e = Some e"
| "deal_units session (item # items) e =
     (if comm_model (head item) = request_comm then
        do { (found, e1) \<leftarrow> bind_invoke session item e;
             e2 \<leftarrow> (if found then Some e1
                   else rsp_bind (rpc_name item) session (req_id (head item)) (rpc_model (head item)) st_no_bind [] e1);
             deal_units session items e2 }
      else if rpc_model (head item) = future_model then
        do { s \<leftarrow> sync_invoke item (re_sync e); deal_units session items (e\<lparr>re_sync := s\<rparr>) }
      else if rpc_model (head item) = callback_model then
        deal_units session items (e\<lparr>re_callback := cb_invoke item (re_callback e)\<rparr>)
      else Some (e\<lparr>re_closed := True\<rparr>))"

text \<open>The new state and the number of bytes to consume; a closed session consumes nothing.\<close>

(* src: boost_net/rpc_base.hpp 1141-1176 RpcClient::read_cbk *)
definition rpc_read_cbk :: "nat \<Rightarrow> bytes \<Rightarrow> rpc_end \<Rightarrow> (rpc_end \<times> nat) option" where
  "rpc_read_cbk session bs e =
     (case unpackage_msg bs of
        None \<Rightarrow> None
      | Some BadPackage \<Rightarrow> Some (e\<lparr>re_closed := True\<rparr>, 0)
      | Some (Unpacked units deal_len) \<Rightarrow>
          map_option (\<lambda>e1. (e1, if re_closed e1 then 0 else deal_len)) (deal_units session units e))"

text \<open>The server's callback is the same, with the session found by its number.\<close>

(* src: boost_net/rpc_base.hpp 982-1017 RpcService::read_cbk *)
definition service_read_cbk :: "nat \<Rightarrow> bytes \<Rightarrow> rpc_end \<Rightarrow> (rpc_end \<times> nat) option" where
  "service_read_cbk session bs e = rpc_read_cbk session bs e"

text \<open>A synchronous call up to its wait, and its end; write_ok is the result of write_impl.\<close>

(* src: boost_net/rpc_base.hpp 891-898 RpcBase::sync_send_impl *)
definition sync_send_begin :: "(nat \<Rightarrow> cell list \<Rightarrow> bool) \<Rightarrow> bytes \<Rightarrow> nat \<Rightarrow> arg list \<Rightarrow> rpc_end \<Rightarrow> (u32 option \<times> rpc_end) option" where
  "sync_send_begin write_ok name session args e =
     (let (i, s) = sync_next (re_sync e); e1 = e\<lparr>re_sync := s\<rparr>
      in do { p \<leftarrow> package_msg name request_comm future_model i st_ok args;
              if \<not> write_ok session (package_bytes p) then Some (None, e1)
              else Some (Some i, e1\<lparr>re_written := re_written e1 @ [(session, package_bytes p)]\<rparr>) })"

(* src: boost_net/rpc_base.hpp 878-887 RpcBase::sync_send *)
definition sync_send_end :: "arg_type list \<Rightarrow> u32 \<Rightarrow> rpc_end \<Rightarrow> ((msg_status \<times> cell list list option) \<times> rpc_end) option" where
  "sync_send_end ts i e =
     do { (status, item, s) \<leftarrow> sync_wait_for i (re_sync e);
          r \<leftarrow> (case item of
                  Some p \<Rightarrow> if status = st_ok then get_rsp_params ts (msg p) else Some (status, None)
                | None \<Rightarrow> Some (status, None));
          Some (r, e\<lparr>re_sync := s\<rparr>) }"

(* src: boost_net/rpc_base.hpp 855-862 RpcBase::callback_send *)
definition callback_send ::
  "(nat \<Rightarrow> cell list \<Rightarrow> bool) \<Rightarrow> nat \<Rightarrow> bytes \<Rightarrow> nat \<Rightarrow> u32 \<Rightarrow> arg list \<Rightarrow> rpc_end \<Rightarrow> rpc_end option" where
  "callback_send write_ok timer name session i args e =
     (let e1 = e\<lparr>re_callback := cb_insert_timer session i timer (re_callback e)\<rparr>
      in do { p \<leftarrow> package_msg name request_comm callback_model i st_ok args;
              if \<not> write_ok session (package_bytes p)
              then Some (e1\<lparr>re_callback := cb_remove i st_send_error (re_callback e1)\<rparr>)
              else Some (e1\<lparr>re_written := re_written e1 @ [(session, package_bytes p)]\<rparr>) })"

section \<open>Threads in synchronous calls\<close>

text \<open>
  The promises with the calls made: how many, the ids of those that wait, of those whose message
  could not be sent, and the results of those that ended.
\<close>

record sync_sys =
  ss_proxy :: sync_proxy
  ss_calls :: nat
  ss_waiting :: "u32 list"
  ss_unsent :: "u32 list"
  ss_results :: "(u32 \<times> msg_status \<times> proxy_msg option) list"

inductive sync_step :: "sync_sys \<Rightarrow> sync_sys \<Rightarrow> bool" where
  sent: "sync_next (ss_proxy s) = (i, p) \<Longrightarrow>
    sync_step s (s\<lparr>ss_proxy := p, ss_calls := ss_calls s + 1, ss_waiting := ss_waiting s @ [i]\<rparr>)"
| unsent: "sync_next (ss_proxy s) = (i, p) \<Longrightarrow>
    sync_step s (s\<lparr>ss_proxy := p, ss_calls := ss_calls s + 1, ss_unsent := ss_unsent s @ [i]\<rparr>)"
| deliver: "sync_invoke item (ss_proxy s) = Some p \<Longrightarrow> sync_step s (s\<lparr>ss_proxy := p\<rparr>)"
| finish: "i \<in> set (ss_waiting s) \<Longrightarrow> sync_wait_for i (ss_proxy s) = Some (st, r, p) \<Longrightarrow>
    sync_step s (s\<lparr>ss_proxy := p, ss_waiting := removeAll i (ss_waiting s),
      ss_results := ss_results s @ [(i, st, r)]\<rparr>)"

definition sync_init :: sync_sys where
  "sync_init = \<lparr>ss_proxy = new_sync_proxy, ss_calls = 0, ss_waiting = [], ss_unsent = [], ss_results = []\<rparr>"

definition ss_ids :: "sync_sys \<Rightarrow> u32 list" where
  "ss_ids s = ss_waiting s @ ss_unsent s @ map fst (ss_results s)"

definition sync_inv :: "sync_sys \<Rightarrow> bool" where
  "sync_inv s \<longleftrightarrow> unat (sp_cur (ss_proxy s)) = ss_calls s \<and> distinct (ss_ids s) \<and>
     (\<forall>i \<in> set (ss_ids s). 0 < unat i \<and> unat i \<le> ss_calls s) \<and>
     dom (sp_map (ss_proxy s)) = set (ss_waiting s) \<union> set (ss_unsent s) \<and>
     (\<forall>i m. sp_map (ss_proxy s) i = Some (Some m) \<longrightarrow> req_id (head m) = i) \<and>
     (\<forall>(i, st, r) \<in> set (ss_results s). case r of None \<Rightarrow> st = st_timeout | Some m \<Rightarrow> st = st_ok \<and> req_id (head m) = i)"

lemma sync_next_fresh:
  assumes i: "sync_inv s" and n: "sync_next (ss_proxy s) = (i, p)" and lt: "ss_calls s + 1 < 2 ^ 32"
  shows "unat i = ss_calls s + 1" "i \<notin> set (ss_ids s)" "sp_cur p = i"
    "sp_map p = (sp_map (ss_proxy s))(i \<mapsto> None)"
proof -
  have i': "i = sp_cur (ss_proxy s) + 1" using n by (simp add: sync_next_def Let_def)
  have cur: "unat (sp_cur (ss_proxy s)) = ss_calls s" using i by (simp add: sync_inv_def)
  then show u: "unat i = ss_calls s + 1" using lt by (simp add: i' unat_word_ariths)
  then show f: "i \<notin> set (ss_ids s)" using i by (force simp: sync_inv_def)
  then have "i \<notin> dom (sp_map (ss_proxy s))" using i by (auto simp: sync_inv_def ss_ids_def)
  then show "sp_cur p = i" "sp_map p = (sp_map (ss_proxy s))(i \<mapsto> None)"
    using n by (auto simp: sync_next_def Let_def)
qed

lemma sync_step_inv:
  "sync_step s s' \<Longrightarrow> sync_inv s \<Longrightarrow> ss_calls s' < 2 ^ 32 \<Longrightarrow> sync_inv s'"
proof (induction rule: sync_step.induct)
  case (sent s i p)
  note F = sync_next_fresh [OF sent(2,1)]
  have lt: "ss_calls s + 1 < 2 ^ 32" using sent(3) by simp
  have b: "\<And>j. j \<in> set (ss_ids s) \<Longrightarrow> 0 < unat j \<and> unat j \<le> Suc (ss_calls s)"
    using sent(2) unfolding sync_inv_def by (metis le_Suc_eq)
  show ?case using sent(2) F [OF lt] b unfolding sync_inv_def ss_ids_def
    by (auto simp del: unat_eq_0)
next
  case (unsent s i p)
  note F = sync_next_fresh [OF unsent(2,1)]
  have lt: "ss_calls s + 1 < 2 ^ 32" using unsent(3) by simp
  have b: "\<And>j. j \<in> set (ss_ids s) \<Longrightarrow> 0 < unat j \<and> unat j \<le> Suc (ss_calls s)"
    using unsent(2) unfolding sync_inv_def by (metis le_Suc_eq)
  show ?case using unsent(2) F [OF lt] b unfolding sync_inv_def ss_ids_def
    by (auto simp del: unat_eq_0)
next
  case (deliver item s p)
  have ids: "\<forall>i m. sp_map (ss_proxy s) i = Some (Some m) \<longrightarrow> req_id (head m) = i"
    using deliver(2) by (simp add: sync_inv_def)
  have "sp_cur p = sp_cur (ss_proxy s) \<and> dom (sp_map p) = dom (sp_map (ss_proxy s)) \<and>
      (\<forall>i m. sp_map p i = Some (Some m) \<longrightarrow> req_id (head m) = i)"
    using deliver(1) ids by (auto simp: sync_invoke_def split: option.splits if_splits)
  then show ?case using deliver(2) unfolding sync_inv_def ss_ids_def by auto
next
  case (finish i s st r p)
  have p: "p = sync_remove i (ss_proxy s)" "sp_map (ss_proxy s) i = Some r"
    "st = (if r = None then st_timeout else st_ok)"
    using finish(2) by (auto simp: sync_wait_for_def split: option.splits)
  have I: "distinct (ss_ids s)" "dom (sp_map (ss_proxy s)) = set (ss_waiting s) \<union> set (ss_unsent s)"
    using finish(3) by (simp_all add: sync_inv_def)
  then have nu: "i \<notin> set (ss_unsent s)" "i \<notin> set (map fst (ss_results s))"
    using finish(1) by (auto simp: ss_ids_def)
  let ?s = "s\<lparr>ss_proxy := p, ss_waiting := removeAll i (ss_waiting s), ss_results := ss_results s @ [(i, st, r)]\<rparr>"
  have ids: "set (ss_ids ?s) = set (ss_ids s)" using finish(1) by (auto simp: ss_ids_def)
  have bound: "\<forall>j \<in> set (ss_ids ?s). 0 < unat j \<and> unat j \<le> ss_calls ?s"
    using finish(3) unfolding ids by (simp add: sync_inv_def)
  have dom: "dom (sp_map p) = set (removeAll i (ss_waiting s)) \<union> set (ss_unsent s)"
    using I(2) nu by (auto simp: p(1) sync_remove_def)
  have dist: "distinct (ss_ids ?s)"
    using I(1) nu by (auto simp: ss_ids_def distinct_removeAll)
  have own: "\<forall>j m. sp_map (ss_proxy s) j = Some (Some m) \<longrightarrow> req_id (head m) = j"
    using finish(3) by (simp add: sync_inv_def)
  then have own': "\<forall>j m. sp_map p j = Some (Some m) \<longrightarrow> req_id (head m) = j"
    by (simp add: p(1) sync_remove_def)
  have res: "case r of None \<Rightarrow> st = st_timeout | Some m \<Rightarrow> st = st_ok \<and> req_id (head m) = i"
    using p(2,3) own by (cases r) simp_all
  have cur: "unat (sp_cur p) = ss_calls s" using finish(3) by (simp add: p(1) sync_remove_def sync_inv_def)
  have old: "\<forall>(i, st, r) \<in> set (ss_results s). case r of None \<Rightarrow> st = st_timeout | Some m \<Rightarrow> st = st_ok \<and> req_id (head m) = i"
    using finish(3) by (simp add: sync_inv_def)
  show ?case using cur dist bound dom own' old res unfolding sync_inv_def by simp
qed

lemma sync_calls_mono: "sync_step\<^sup>*\<^sup>* s s' \<Longrightarrow> ss_calls s \<le> ss_calls s'"
  by (induction rule: rtranclp_induct) (auto elim!: sync_step.cases)

lemma sync_reach_inv: "sync_step\<^sup>*\<^sup>* sync_init s \<Longrightarrow> ss_calls s < 2 ^ 32 \<Longrightarrow> sync_inv s"
proof (induction rule: rtranclp_induct)
  case base
  show ?case by (simp add: sync_inv_def sync_init_def new_sync_proxy_def ss_ids_def)
next
  case (step s s')
  have "ss_calls s \<le> ss_calls s'" by (rule sync_calls_mono) (use step(2) in blast)
  then show ?case using step sync_step_inv by simp
qed

section \<open>Callbacks\<close>

inductive callback_step :: "callback_proxy \<times> nat \<Rightarrow> callback_proxy \<times> nat \<Rightarrow> bool" where
  insert: "callback_step (c, n) (snd (cb_insert c), n + 1)"
| insert_timer: "callback_step (c, n) (cb_insert_timer session i timer c, n)"
| invoke: "callback_step (c, n) (cb_invoke m c, n)"
| remove: "callback_step (c, n) (cb_remove i status c, n)"

definition callback_inv :: "callback_proxy \<times> nat \<Rightarrow> bool" where
  "callback_inv = (\<lambda>(c, n). unat (cb_cur c) = n \<and> distinct (map fst (cb_called c)) \<and>
     cb_map c \<inter> set (map fst (cb_called c)) = {} \<and>
     cb_map c \<union> set (map fst (cb_called c)) = {i. 0 < unat i \<and> unat i \<le> n})"

lemma remove_timer_frame:
  "cb_remove_timer i c = (st, c1) \<Longrightarrow> cb_map c1 = cb_map c \<and> cb_called c1 = cb_called c \<and> cb_cur c1 = cb_cur c"
  by (auto simp: cb_remove_timer_def split: option.splits)

lemma called_inv:
  assumes "callback_inv (c, n)" "cb_map c1 = cb_map c" "cb_called c1 = cb_called c" "cb_cur c1 = cb_cur c"
  shows "callback_inv (if i \<notin> cb_map c1 then c1 else
    c1\<lparr>cb_called := cb_called c1 @ [(i, x)], cb_map := cb_map c1 - {i}\<rparr>, n)"
  using assms by (auto simp: callback_inv_def)

lemma callback_step_inv:
  "callback_step z z' \<Longrightarrow> callback_inv z \<Longrightarrow> snd z' < 2 ^ 32 \<Longrightarrow> callback_inv z'"
proof (induction rule: callback_step.induct)
  case (insert c n)
  then have u: "unat (cb_cur c + 1) = n + 1" by (simp add: callback_inv_def unat_word_ariths)
  have "{i :: u32. 0 < unat i \<and> unat i \<le> n + 1} = Set.insert (cb_cur c + 1) {i. 0 < unat i \<and> unat i \<le> n}"
  proof (rule set_eqI)
    fix i :: u32
    show "i \<in> {i. 0 < unat i \<and> unat i \<le> n + 1} \<longleftrightarrow> i \<in> Set.insert (cb_cur c + 1) {i. 0 < unat i \<and> unat i \<le> n}"
      using u by (cases "i = cb_cur c + 1") (auto simp: word_unat_eq_iff)
  qed
  moreover have "cb_cur c + 1 \<notin> set (map fst (cb_called c))"
  proof
    assume "cb_cur c + 1 \<in> set (map fst (cb_called c))"
    then have "cb_cur c + 1 \<in> {i. 0 < unat i \<and> unat i \<le> n}"
      using insert(1) unfolding callback_inv_def by blast
    then show False using u by simp
  qed
  ultimately show ?case using insert u by (auto simp: callback_inv_def cb_insert_def Let_def)
next
  case (insert_timer c n session i timer)
  then show ?case by (simp add: callback_inv_def cb_insert_timer_def)
next
  case (invoke c n m)
  obtain x y c1 where r: "cb_remove_timer (req_id (head m)) c = ((x, y), c1)" by (metis prod.exhaust)
  then show ?case using called_inv [OF invoke(1)] remove_timer_frame [OF r]
    by (simp add: cb_invoke_def Let_def split: if_splits)
next
  case (remove c n i status)
  obtain x y c1 where r: "cb_remove_timer i c = ((x, y), c1)" by (metis prod.exhaust)
  then show ?case using called_inv [OF remove(1)] remove_timer_frame [OF r]
    by (simp add: cb_remove_def Let_def split: if_splits)
qed

lemma callback_reach_inv:
  "callback_step\<^sup>*\<^sup>* (new_callback_proxy, 0) z \<Longrightarrow> snd z < 2 ^ 32 \<Longrightarrow> callback_inv z"
proof (induction rule: rtranclp_induct)
  case base
  show ?case by (auto simp: callback_inv_def new_callback_proxy_def)
next
  case (step z z')
  have "snd z \<le> snd z'" using step(2) by (auto elim!: callback_step.cases)
  then show ?case using step callback_step_inv by simp
qed

section \<open>A call and its answer\<close>

lemma args_sizeof_le: "args_sizeof (arg_types as) \<le> args_length as"
proof (induction "as" rule: arg_types.induct)
  case (5 ts as)
  then show ?case by (simp add: args_length_append)
qed simp_all

lemma loaded_msg:
  assumes "proxy_msg_of name h content = Some p"
  shows "ms_at (msg p) content" "ms_offset (msg p) = 0" "ms_size (msg p) = length content"
    "rpc_name p = name" "head p = h"
proof -
  obtain d where d: "ms_load (map Some content) new_stream = Some d" "ms_body d = map Some content"
    "ms_size d = length content" "ms_offset d = 0" "ms_good d"
    using load_good [of new_stream "map Some content"] by auto
  then have p: "p = \<lparr>rpc_name = name, head = h, msg = d\<rparr>" using assms by (simp add: proxy_msg_of_def)
  show "ms_at (msg p) content" "ms_offset (msg p) = 0" "ms_size (msg p) = length content" "rpc_name p = name" "head p = h"
    using d by (simp_all add: p ms_at_def ms_body_def ms_good_def ms_owned_def)
qed

lemma read_status_at:
  assumes "ms_at m (status # rest)"
  shows "read_status m = Some (status, m\<lparr>ms_offset := ms_offset m + 1\<rparr>)"
    "ms_at (m\<lparr>ms_offset := ms_offset m + 1\<rparr>) rest"
proof -
  have a: "ms_at m ([status] @ rest)" using assms by simp
  show "read_status m = Some (status, m\<lparr>ms_offset := ms_offset m + 1\<rparr>)"
    using ms_at_read(3) [OF a] by (simp add: read_status_def definite_def)
  show "ms_at (m\<lparr>ms_offset := ms_offset m + 1\<rparr>) rest" using ms_at_read(2) [OF a] by simp
qed

lemma get_req_ok:
  assumes "ms_at m (status # enc_args as)" "ms_size m = args_length as + 1" "readable as"
  shows "get_req_params (arg_types as) m = Some (status, Some (map (map Some) (arg_values as)))"
proof -
  note R = read_status_at [OF assms(1)]
  obtain m' where "ms_read_args (arg_types as) (m\<lparr>ms_offset := ms_offset m + 1\<rparr>) =
      Some (map (map Some) (arg_values as), m')"
    using read_args_at [OF R(2) assms(3)] by blast
  then show ?thesis using R(1) args_sizeof_le [of "as"] assms(2) by (simp add: get_req_params_def)
qed

lemma get_rsp_ok:
  assumes "ms_at m (st_ok # enc_args as)" "ms_offset m = 0" "ms_size m = args_length as + 1" "readable as"
    "args_length as < 2 ^ 64"
  shows "get_rsp_params (arg_types as) m = Some (st_ok, Some (map (map Some) (arg_values as)))"
proof -
  note R = read_status_at [OF assms(1)]
  obtain m' where r: "ms_read_args (arg_types as) (m\<lparr>ms_offset := ms_offset m + 1\<rparr>) =
      Some (map (map Some) (arg_values as), m')"
    using read_args_at [OF R(2) assms(4)] by blast
  have "ms_res_length (m\<lparr>ms_offset := ms_offset m + 1\<rparr>) = args_length as"
    using assms(2,3,5) by (simp add: ms_res_length_def)
  moreover have "arg_types as = [] \<Longrightarrow> arg_values as = []" by (induction "as" rule: arg_types.induct) simp_all
  ultimately show ?thesis using R(1) r args_sizeof_le [of "as"] assms(3)
    by (auto simp: get_rsp_params_def st_ok_def st_no_bind_def st_wait_error_def)
qed

text \<open>A packaged message is cut out of its own bytes.\<close>

lemma package_unpack:
  assumes "name \<noteq> []" "length name < 256" "args_length args + 1 \<le> (2 ^ 32 - 1) div 2"
  shows "\<exists>p m bs. package_msg name comm model i status args = Some p \<and> package_bytes p = map Some bs \<and>
    unpackage_msg bs = Some (Unpacked [m] (length bs)) \<and> rpc_name m = name \<and> req_id (head m) = i \<and>
    comm_model (head m) = comm \<and> rpc_model (head m) = model \<and>
    ms_at (msg m) (status # enc_args args) \<and> ms_offset (msg m) = 0 \<and> ms_size (msg m) = args_length args + 1"
proof -
  have lt: "args_length args + 1 < 2 ^ 32" using assms(3) by simp
  obtain p where p: "package_msg name comm model i status args = Some p"
    "unat (title_size (head p)) = length name" "unat (content_size (head p)) = args_length args + 1"
    "comm_model (head p) = comm" "rpc_model (head p) = model" "req_id (head p) = i"
    "package_bytes p = map Some (frame (head p) name (status # enc_args args))"
    using package_frame [OF assms(2) lt] by blast
  let ?parts = "(head p, name, status # enc_args args)"
  have ok: "parts_ok ?parts"
    unfolding parts_ok_def prod.case p(3) using assms(1,3) p(2) length_enc_args [of args] by simp
  have u: "unpackage_msg (parts_bytes ?parts) = Some (Unpacked [msg_of ?parts] (length (parts_bytes ?parts)))"
    using unpack_frames [of "parts_bytes ?parts" "[]" "[?parts]" "[]" "[]"] ok by (simp add: unpackage_msg_def)
  note L = loaded_msg [OF proxy_msg_of_Some [of name "head p" "status # enc_args args"]]
  show ?thesis
    using p u L length_enc_args [of args]
    by (intro exI [of _ p] exI [of _ "msg_of ?parts"] exI [of _ "parts_bytes ?parts"])
       (simp add: parts_bytes_def)
qed

section \<open>Properties\<close>

text \<open>C1: A remote call returns what the bound function returns. Let the name have 1 to 255 bytes, and let the
  parameters and the result be readable (every string and memory stream in them is shorter than 2
  to the 32 bytes, and a memory stream comes only as the very last value) and take, each with the
  status byte, at most 2 to the 31 less 1 bytes as they are encoded. If the client's next request id is
  free, neither end is closed, the writes are accepted and the server has bound the name with
  bind_auto to a function of the request's parameter types, then the bytes the client sends make the
  server consume them and send one answer, and that answer makes the client consume it and end the
  call with status ok and the function's result for the very parameters of the call. (A memory stream
  before other values is not read back so: memory_stream_mem_not_skipped.)\<close>

theorem rpc_call_roundtrip:
  assumes "name \<noteq> []" "length name < 256" "readable args" "args_length args + 1 \<le> (2 ^ 32 - 1) div 2"
    and "sp_map (re_sync client) (sp_cur (re_sync client) + 1) = None" "\<not> re_closed client" "\<not> re_closed server"
    and "re_binds server name = Some (Auto (arg_types args) f dflt)"
    and "rs = f session (map (map Some) (arg_values args))" "readable rs" "args_length rs + 1 \<le> (2 ^ 32 - 1) div 2"
  shows "\<exists>i client1 req server1 rsp client2 client3.
    sync_send_begin (\<lambda>_ _. True) name cs args client = Some (Some i, client1) \<and>
    re_written client1 = re_written client @ [(cs, map Some req)] \<and>
    service_read_cbk session req server = Some (server1, length req) \<and>
    re_written server1 = re_written server @ [(session, map Some rsp)] \<and>
    rpc_read_cbk cs rsp client1 = Some (client2, length rsp) \<and>
    sync_send_end (arg_types rs) i client2 = Some ((st_ok, Some (map (map Some) (arg_values rs))), client3)"
proof -
  define i where "i = sp_cur (re_sync client) + 1"
  obtain p m req where req: "package_msg name request_comm future_model i st_ok args = Some p"
    "package_bytes p = map Some req" "unpackage_msg req = Some (Unpacked [m] (length req))"
    "rpc_name m = name" "req_id (head m) = i" "comm_model (head m) = request_comm" "rpc_model (head m) = future_model"
    "ms_at (msg m) (st_ok # enc_args args)" "ms_size (msg m) = args_length args + 1"
    using package_unpack [OF assms(1,2,4)] by blast
  obtain p' m' rsp where rsp: "package_msg name rsponse_comm future_model i st_ok rs = Some p'"
    "package_bytes p' = map Some rsp" "unpackage_msg rsp = Some (Unpacked [m'] (length rsp))"
    "req_id (head m') = i" "comm_model (head m') = rsponse_comm" "rpc_model (head m') = future_model"
    "ms_at (msg m') (st_ok # enc_args rs)" "ms_offset (msg m') = 0" "ms_size (msg m') = args_length rs + 1"
    using package_unpack [OF assms(1,2,11)] by blast
  define sp where "sp = \<lparr>sp_cur = i, sp_map = (sp_map (re_sync client))(i \<mapsto> None)\<rparr>"
  define client1 where "client1 = client\<lparr>re_sync := sp, re_written := re_written client @ [(cs, map Some req)]\<rparr>"
  have call: "sync_send_begin (\<lambda>_ _. True) name cs args client = Some (Some i, client1)"
    using req(1,2) assms(5) by (simp add: sync_send_begin_def sync_next_def Let_def i_def sp_def client1_def)
  define server1 where "server1 = server\<lparr>re_written := re_written server @ [(session, map Some rsp)]\<rparr>"
  have "bind_invoke session m server = Some (True, server1)"
    using assms(8,9) get_req_ok [OF req(8,9) assms(3)] rsp(1,2) req(4-7)
    by (simp add: bind_invoke_def bind_auto_proxy_def rsp_bind_def server1_def)
  then have serve: "service_read_cbk session req server = Some (server1, length req)"
    using req(3,6) assms(7) by (simp add: service_read_cbk_def rpc_read_cbk_def server1_def)
  define client2 where "client2 = client1\<lparr>re_sync := sp\<lparr>sp_map := (sp_map sp)(i \<mapsto> Some m')\<rparr>\<rparr>"
  have "sync_invoke m' (re_sync client1) = Some (sp\<lparr>sp_map := (sp_map sp)(i \<mapsto> Some m')\<rparr>)"
    using rsp(4) by (simp add: sync_invoke_def client1_def sp_def)
  then have receive: "rpc_read_cbk cs rsp client1 = Some (client2, length rsp)"
    using rsp(3,5,6) assms(6)
    by (simp add: rpc_read_cbk_def client2_def client1_def rsponse_comm_def request_comm_def)
  have "args_length rs < 2 ^ 64" using assms(11) by simp
  from get_rsp_ok [OF rsp(7-9) assms(10) this]
  have "sync_send_end (arg_types rs) i client2 = Some ((st_ok, Some (map (map Some) (arg_values rs))),
      client2\<lparr>re_sync := sync_remove i (re_sync client2)\<rparr>)"
    by (simp add: sync_send_end_def sync_wait_for_def client2_def)
  with call serve receive show ?thesis
    by (intro exI [of _ i] exI [of _ client1] exI [of _ req] exI [of _ server1] exI [of _ rsp]
        exI [of _ client2] exI [of _ "client2\<lparr>re_sync := sync_remove i (re_sync client2)\<rparr>"])
       (simp add: client1_def server1_def)
qed

definition new_rpc_end :: rpc_end where
  "new_rpc_end = \<lparr>re_sync = new_sync_proxy, re_callback = new_callback_proxy, re_binds = Map.empty,
     re_written = [], re_manual = [], re_closed = False\<rparr>"

definition echo_server :: rpc_end where
  "echo_server = re_bind [65] (Auto [StrT] (\<lambda>_ xs. [Str (map the (hd xs))]) []) new_rpc_end"

theorem rpc_call_roundtrip_witness:
  "\<exists>client3 client2 i. sync_send_end [StrT] i client2 = Some ((st_ok, Some [[Some 3, Some 4]]), client3)"
proof -
  have "readable [Str [3, 4]]" "args_length [Str [3, 4]] + 1 \<le> (2 ^ 32 - 1) div 2" by simp_all
  moreover have "re_binds echo_server [65] = Some (Auto (arg_types [Str [3, 4]]) (\<lambda>_ xs. [Str (map the (hd xs))]) [])"
    by (simp add: echo_server_def re_bind_def)
  moreover have "[Str [3, 4]] = (\<lambda>_ xs. [Str (map the (hd xs))]) 9 (map (map Some) (arg_values [Str [3, 4]]))" by simp
  moreover have "sp_map (re_sync new_rpc_end) (sp_cur (re_sync new_rpc_end) + 1) = None" "\<not> re_closed new_rpc_end"
    "\<not> re_closed echo_server"
    by (simp_all add: new_rpc_end_def new_sync_proxy_def echo_server_def re_bind_def)
  ultimately show ?thesis
    using rpc_call_roundtrip [of "[65]" "[Str [3, 4]]" new_rpc_end echo_server "\<lambda>_ xs. [Str (map the (hd xs))]" "[]"
      "[Str [3, 4]]" 9 0] by auto
qed

text \<open>C15: Answers reach the call they belong to. However threads begin calls, responses arrive and waits end,
  with fewer than 2 to the 32 calls: no request id is used twice, every waiting call has its promise,
  and a call ends with status ok exactly with a response that has its id, and with a time-out
  otherwise. The promise of a call whose message was not sent is never removed.\<close>

theorem sync_calls_correlate:
  assumes "sync_step\<^sup>*\<^sup>* sync_init s" "ss_calls s < 2 ^ 32"
  shows "distinct (ss_ids s) \<and> (\<forall>i \<in> set (ss_waiting s). sync_wait_for i (ss_proxy s) \<noteq> None) \<and>
    (\<forall>(i, st, r) \<in> set (ss_results s). case r of None \<Rightarrow> st = st_timeout | Some m \<Rightarrow> st = st_ok \<and> req_id (head m) = i) \<and>
    dom (sp_map (ss_proxy s)) = set (ss_waiting s) \<union> set (ss_unsent s)"
proof -
  have i: "sync_inv s" by (rule sync_reach_inv [OF assms])
  have "sync_wait_for i (ss_proxy s) \<noteq> None" if "i \<in> set (ss_waiting s)" for i
  proof -
    have "i \<in> dom (sp_map (ss_proxy s))" using i that by (simp add: sync_inv_def)
    then show ?thesis by (auto simp: sync_wait_for_def)
  qed
  then show ?thesis using i by (simp add: sync_inv_def)
qed

theorem sync_calls_correlate_witness:
  "dom (sp_map (snd (sync_next new_sync_proxy))) = {1}"
proof -
  obtain i p where n: "sync_next new_sync_proxy = (i, p)" by fastforce
  then have i: "i = 1" by (simp add: sync_next_def new_sync_proxy_def Let_def)
  define s where "s = sync_init\<lparr>ss_proxy := p, ss_calls := ss_calls sync_init + 1, ss_waiting := ss_waiting sync_init @ [i]\<rparr>"
  have "sync_next (ss_proxy sync_init) = (i, p)" using n by (simp add: sync_init_def)
  then have "sync_step sync_init s" unfolding s_def by (rule sync_step.sent)
  then have "sync_step\<^sup>*\<^sup>* sync_init s" by (rule r_into_rtranclp)
  from sync_calls_correlate [OF this] show ?thesis by (simp add: s_def sync_init_def n i)
qed

text \<open>Every callback is called once. However asynchronous calls are registered, answered, answered twice,
  timed out or fail to be sent, with fewer than 2 to the 32 of them, no callback is called twice,
  and each one registered has been called or is still registered, never both.\<close>

theorem callback_once:
  assumes "callback_step\<^sup>*\<^sup>* (new_callback_proxy, 0) (c, n)" "n < 2 ^ 32"
  shows "distinct (map fst (cb_called c)) \<and> cb_map c \<inter> set (map fst (cb_called c)) = {} \<and>
    cb_map c \<union> set (map fst (cb_called c)) = {i. 0 < unat i \<and> unat i \<le> n}"
  using callback_reach_inv [OF assms(1)] assms(2) by (simp add: callback_inv_def)

theorem callback_once_witness:
  "distinct (map fst (cb_called (cb_remove 1 st_timeout (cb_remove 1 st_timeout (snd (cb_insert new_callback_proxy))))))"
proof -
  have "callback_step (new_callback_proxy, 0) (snd (cb_insert new_callback_proxy), 0 + 1)" by (rule callback_step.insert)
  moreover have "callback_step (snd (cb_insert new_callback_proxy), 0 + 1)
      (cb_remove 1 st_timeout (snd (cb_insert new_callback_proxy)), 0 + 1)" by (rule callback_step.remove)
  moreover have "callback_step (cb_remove 1 st_timeout (snd (cb_insert new_callback_proxy)), 0 + 1)
      (cb_remove 1 st_timeout (cb_remove 1 st_timeout (snd (cb_insert new_callback_proxy))), 0 + 1)"
    by (rule callback_step.remove)
  ultimately have "callback_step\<^sup>*\<^sup>* (new_callback_proxy, 0)
      (cb_remove 1 st_timeout (cb_remove 1 st_timeout (snd (cb_insert new_callback_proxy))), 0 + 1)"
    by (meson rtranclp.rtrancl_into_rtrancl rtranclp.rtrancl_refl)
  from callback_once [OF this] show ?thesis by simp
qed

text \<open>The session's read callback of a client: cut the buffer, deal with the messages, consume them.\<close>

(* src: boost_net/rpc_base.hpp 1175-1175 RpcClient::read_cbk *)
definition client_cbk :: "nat \<Rightarrow> rpc_end \<Rightarrow> tcp_session \<Rightarrow> tcp_session option" where
  "client_cbk session e s =
     (case rpc_read_cbk session (ts_read_buf s) e of
        None \<Rightarrow> None
      | Some (e1, n) \<Rightarrow> Some (if re_closed e1 then ts_shutdown s else ts_consume n s))"

text \<open>A message longer than the session's read buffer is never read. When the buffer is full with the start
  of a message that has not arrived as a whole, the rpc client takes nothing out of it, and the
  session starts a read into a buffer of no bytes, whose end leads back to the same buffer.\<close>

theorem rpc_long_message_stuck:
  assumes "partial_frame (ts_read_buf s)" "length (ts_read_buf s) = ts_max_rbuffer s"
    and "ts_has_read_cbk s" "has_started (ts_switch s)" "\<not> re_closed e"
  shows "\<exists>s'. handle_read False [] (client_cbk session e) s = Some s' \<and> ts_read_buf s' = ts_read_buf s \<and>
    rpc_read_cbk session (ts_read_buf s) e = Some (e, 0) \<and>
    ts_ops s' = ts_ops s @ [(ReadOp 0, \<not> ts_open s)] \<and> ts_switch s' = ts_switch s"
proof -
  have "unpackage_msg (ts_read_buf s) = Some (Unpacked [] 0)"
    using unpack_partial [of "ts_read_buf s" "[]" "ts_read_buf s" "[]"] assms(1) by (simp add: unpackage_msg_def)
  then have r: "rpc_read_cbk session (ts_read_buf s) e = Some (e, 0)" by (simp add: rpc_read_cbk_def)
  define s1 where "s1 = s\<lparr>ts_events := ts_events s @ [ReadCalled (ts_read_buf s)]\<rparr>"
  have "client_cbk session e s1 = Some s1"
    using r assms(4,5) by (simp add: client_cbk_def s1_def ts_consume_def has_stoped_iff)
  then have "handle_read False [] (client_cbk session e) s = Some (ts_read s1)"
    using assms(3,4) by (simp add: handle_read_def Let_def s1_def has_stoped_iff)
  then show ?thesis using r assms(2) by (auto simp: ts_read_def add_op_def s1_def)
qed

theorem rpc_long_message_stuck_witness:
  "\<exists>s'. handle_read False [] (client_cbk 1 new_rpc_end) (sample_session\<lparr>ts_has_read_cbk := True,
      ts_max_rbuffer := 13, ts_read_buf := take 13 (parts_bytes sample_parts)\<rparr>) = Some s' \<and>
    length (ts_read_buf s') = 13"
proof -
  let ?s = "sample_session\<lparr>ts_has_read_cbk := True, ts_max_rbuffer := 13,
    ts_read_buf := take 13 (parts_bytes sample_parts)\<rparr>"
  have l: "length (parts_bytes sample_parts) = 14" by (simp add: sample_parts_def parts_bytes_def frame_def)
  have "parts_ok sample_parts" by (simp add: sample_parts_def parts_ok_def)
  moreover have "drop 13 (parts_bytes sample_parts) \<noteq> []" using l by simp
  moreover have "parts_bytes sample_parts = take 13 (parts_bytes sample_parts) @ drop 13 (parts_bytes sample_parts)" by simp
  ultimately have "parts_ok sample_parts \<and> drop 13 (parts_bytes sample_parts) \<noteq> [] \<and>
      parts_bytes sample_parts = ts_read_buf ?s @ drop 13 (parts_bytes sample_parts)" by simp
  then have "partial_frame (ts_read_buf ?s)" unfolding partial_frame_def by blast
  moreover have "length (ts_read_buf ?s) = ts_max_rbuffer ?s" using l by simp
  moreover have "has_started (ts_switch ?s)"
    by (simp add: sample_session_def ts_start_def handle_start_def new_session_def switch_defs ts_read_def add_op_def Let_def)
  ultimately obtain s' where "handle_read False [] (client_cbk 1 new_rpc_end) ?s = Some s'" "ts_read_buf s' = ts_read_buf ?s"
    using rpc_long_message_stuck [of ?s new_rpc_end 1] by (auto simp: new_rpc_end_def)
  then show ?thesis using l by auto
qed

end
