(* ===== verification/C_Text.thy ===== *)
theory C_Text
  imports Prelude "HOL-Library.Signed_Division"
begin

text \<open>
  What the sources use of the C library on numbers and texts: int and long long arithmetic, where a
  result out of range is undefined and here None; printf of an int with zeros in front; snprintf
  into a buffer; atoi.
\<close>

section \<open>Signed arithmetic\<close>

definition c_int :: "int \<Rightarrow> int option" where
  "c_int x = (if - (2 ^ 31) \<le> x \<and> x < 2 ^ 31 then Some x else None)"

definition c_ll :: "int \<Rightarrow> int option" where
  "c_ll x = (if - (2 ^ 63) \<le> x \<and> x < 2 ^ 63 then Some x else None)"

text \<open>A conversion to int keeps the low 32 bits.\<close>

definition to_int32 :: "int \<Rightarrow> int" where
  "to_int32 x = (x + 2 ^ 31) mod 2 ^ 32 - 2 ^ 31"

lemma c_int_ok [simp]: "- (2 ^ 31) \<le> x \<Longrightarrow> x < 2 ^ 31 \<Longrightarrow> c_int x = Some x"
  by (simp add: c_int_def)

lemma c_ll_ok [simp]: "- (2 ^ 63) \<le> x \<Longrightarrow> x < 2 ^ 63 \<Longrightarrow> c_ll x = Some x"
  by (simp add: c_ll_def)

lemma c_ll_Some: "c_ll x = Some y \<longleftrightarrow> y = x \<and> - (2 ^ 63) \<le> x \<and> x < 2 ^ 63"
  by (auto simp: c_ll_def)

lemma to_int32_ok [simp]: "- (2 ^ 31) \<le> x \<Longrightarrow> x < 2 ^ 31 \<Longrightarrow> to_int32 x = x"
  by (simp add: to_int32_def)

lemma sdiv_nonneg [simp]: "0 \<le> x \<Longrightarrow> 0 < y \<Longrightarrow> (x::int) sdiv y = x div y"
  by (cases "x = 0") (simp_all add: signed_divide_int_def)

lemma smod_nonneg [simp]: "0 \<le> x \<Longrightarrow> 0 < y \<Longrightarrow> (x::int) smod y = x mod y"
  by (cases "x = 0") (simp_all add: signed_modulo_int_def)

section \<open>Numbers as text\<close>

definition digit :: "nat \<Rightarrow> char" where
  "digit n = char_of (48 + n)"

definition is_digit :: "char \<Rightarrow> bool" where
  "is_digit c \<longleftrightarrow> 48 \<le> (of_char c :: nat) \<and> (of_char c :: nat) \<le> 57"

definition digit_value :: "char \<Rightarrow> nat" where
  "digit_value c = of_char c - 48"

lemma digit_simps [simp]: "n < 10 \<Longrightarrow> is_digit (digit n)" "n < 10 \<Longrightarrow> digit_value (digit n) = n"
  by (simp_all add: digit_def is_digit_def digit_value_def)

lemma digit_not_space: "n < 10 \<Longrightarrow> digit n \<noteq> CHR '' '' \<and> digit n \<noteq> CHR ''-'' \<and> digit n \<noteq> CHR ''+''
    \<and> of_char (digit n) \<noteq> (0::nat) \<and> \<not> (9 \<le> (of_char (digit n) :: nat) \<and> (of_char (digit n) :: nat) \<le> 13)"
proof -
  assume "n < 10"
  then have n: "(of_char (digit n) :: nat) = 48 + n" by (simp add: digit_def)
  have "digit n = c \<Longrightarrow> (of_char c :: nat) = 48 + n" for c using n by simp
  from this [of "CHR '' ''"] this [of "CHR ''-''"] this [of "CHR ''+''"] show ?thesis using n by auto
qed

fun digits :: "nat \<Rightarrow> string" where
  "digits n = (if n < 10 then [digit n] else digits (n div 10) @ [digit (n mod 10)])"

declare digits.simps [simp del]

definition pad_zeros :: "nat \<Rightarrow> string \<Rightarrow> string" where
  "pad_zeros w s = replicate (w - length s) (CHR ''0'') @ s"

text \<open>The conversion with a zero, a width w and d.\<close>

definition fmt_int :: "nat \<Rightarrow> int \<Rightarrow> string" where
  "fmt_int w n = (if n < 0 then CHR ''-'' # pad_zeros (w - 1) (digits (nat (- n))) else pad_zeros w (digits (nat n)))"

definition snprintf :: "nat \<Rightarrow> string \<Rightarrow> string" where
  "snprintf n s = take (n - 1) s"

fun value_of :: "nat \<Rightarrow> string \<Rightarrow> nat" where
  "value_of acc [] = acc"
| "value_of acc (c # cs) = value_of (10 * acc + digit_value c) cs"

text \<open>At most 4 characters are ever passed to atoi, so its value is in range.\<close>

definition is_space :: "char \<Rightarrow> bool" where
  "is_space c \<longleftrightarrow> c = CHR '' '' \<or> (9 \<le> (of_char c :: nat) \<and> (of_char c :: nat) \<le> 13)"

definition atoi :: "string \<Rightarrow> int" where
  "atoi s = (let r = dropWhile is_space s
     in case r of
          [] \<Rightarrow> 0
        | c # cs \<Rightarrow>
            if c = CHR ''-'' then - int (value_of 0 (takeWhile is_digit cs))
            else if c = CHR ''+'' then int (value_of 0 (takeWhile is_digit cs))
            else int (value_of 0 (takeWhile is_digit r)))"

lemma digit_zero: "CHR ''0'' = digit 0"
  by (simp add: digit_def char_of_def bit_Suc_0_iff)

lemma atoi_digits:
  assumes "s \<noteq> []" "\<forall>c \<in> set s. is_digit c"
  shows "atoi s = int (value_of 0 s)"
proof (cases s)
  case (Cons c cs)
  then have c: "is_digit c" using assms(2) by simp
  have "\<not> is_digit (CHR '' '')" "\<not> is_digit (CHR ''-'')" "\<not> is_digit (CHR ''+'')"
    by (simp_all add: is_digit_def)
  then have ne: "c \<noteq> CHR '' ''" "c \<noteq> CHR ''-''" "c \<noteq> CHR ''+''" using c by auto
  then have "\<not> is_space c" using c by (auto simp: is_space_def is_digit_def)
  moreover have "takeWhile is_digit s = s" using assms(2) by simp
  ultimately show ?thesis using Cons ne by (simp add: atoi_def)
qed (use assms in simp)

lemma value_of_append: "value_of acc (xs @ ys) = value_of (value_of acc xs) ys"
  by (induction xs arbitrary: acc) simp_all

lemma digits_props: "digits n \<noteq> [] \<and> (\<forall>c \<in> set (digits n). is_digit c) \<and> value_of 0 (digits n) = n"
proof (induction n rule: digits.induct)
  case (1 n)
  show ?case
  proof (cases "n < 10")
    case False
    then show ?thesis using 1 by (subst (1 2 3) digits.simps) (auto simp: value_of_append)
  qed (simp add: digits.simps)
qed

lemma value_of_zeros: "value_of 0 (replicate k (CHR ''0'') @ s) = value_of 0 s"
  by (induction k) (simp_all add: digit_zero)

lemma pad_zeros_props:
  "pad_zeros w (digits n) \<noteq> []" "\<forall>c \<in> set (pad_zeros w (digits n)). is_digit c"
  "value_of 0 (pad_zeros w (digits n)) = n"
  using digits_props [of n] by (auto simp: pad_zeros_def value_of_zeros [unfolded digit_zero] digit_zero)

lemma length_digits: "0 < w \<Longrightarrow> n < 10 ^ w \<Longrightarrow> length (digits n) \<le> w"
proof (induction n arbitrary: w rule: digits.induct)
  case (1 n)
  show ?case
  proof (cases "n < 10")
    case False
    then have w: "w \<noteq> 1" using 1(3) by auto
    then obtain v where v: "w = Suc v" "0 < v" using 1(2) by (cases w) auto
    then have "n div 10 < 10 ^ v" using 1(3) by (simp add: less_mult_imp_div_less mult.commute)
    then have "length (digits (n div 10)) \<le> v" using 1(1) [OF False v(2)] by simp
    then show ?thesis using v False by (subst digits.simps) simp
  qed (use 1(2) in \<open>simp add: digits.simps\<close>)
qed

lemma length_fmt_int: "0 < w \<Longrightarrow> 0 \<le> n \<Longrightarrow> n < 10 ^ w \<Longrightarrow> length (fmt_int w n) = w"
  using length_digits [of w "nat n"] by (auto simp: fmt_int_def pad_zeros_def nat_less_iff)

lemma atoi_fmt_int: "0 \<le> n \<Longrightarrow> atoi (fmt_int w n) = n"
  using atoi_digits [OF pad_zeros_props(1,2)] by (simp add: fmt_int_def pad_zeros_props(3))

lemma fmt_int_digits: "0 \<le> n \<Longrightarrow> \<forall>c \<in> set (fmt_int w n). is_digit c"
  using pad_zeros_props(2) by (simp add: fmt_int_def)

end
