(* ===== verification/Date_Time.thy ===== *)
theory Date_Time
  imports C_Text "HOL-Library.List_Lexorder"
begin

text \<open>
  DateTimeConvert (datetime_convert.hpp): dates and times by their fields, the fields a value has
  being the bits of its style; the conversions from and to text and numbers, and the comparisons.
  The fields are C ints. A read outside the text and an overflow are undefined and here None.
\<close>

unbundle bit_operations_syntax

section \<open>The data\<close>

type_synonym dt_style = u8

(* src: datetime_convert.hpp 55-62 DateTimeConvert::DateTimeKind *)
datatype dt_kind = DTK_Local | DTK_KLine

(* src: datetime_convert.hpp 67-67 DateTimeConvert::DTS_Year *)
definition DTS_Year :: dt_style where "DTS_Year = 0x80"

(* src: datetime_convert.hpp 68-68 DateTimeConvert::DTS_Month *)
definition DTS_Month :: dt_style where "DTS_Month = 0x40"

(* src: datetime_convert.hpp 69-69 DateTimeConvert::DTS_Day *)
definition DTS_Day :: dt_style where "DTS_Day = 0x20"

(* src: datetime_convert.hpp 70-70 DateTimeConvert::DTS_Hour *)
definition DTS_Hour :: dt_style where "DTS_Hour = 0x10"

(* src: datetime_convert.hpp 71-71 DateTimeConvert::DTS_Min *)
definition DTS_Min :: dt_style where "DTS_Min = 0x08"

(* src: datetime_convert.hpp 72-72 DateTimeConvert::DTS_Sec *)
definition DTS_Sec :: dt_style where "DTS_Sec = 0x04"

(* src: datetime_convert.hpp 73-73 DateTimeConvert::DTS_mSec *)
definition DTS_mSec :: dt_style where "DTS_mSec = 0x02"

(* src: datetime_convert.hpp 74-74 DateTimeConvert::DTS_uSec *)
definition DTS_uSec :: dt_style where "DTS_uSec = 0x01"

(* src: datetime_convert.hpp 76-76 DateTimeConvert::DTS_YMD *)
definition DTS_YMD :: dt_style where "DTS_YMD = DTS_Year OR DTS_Month OR DTS_Day"

(* src: datetime_convert.hpp 77-77 DateTimeConvert::DTS_HMS *)
definition DTS_HMS :: dt_style where "DTS_HMS = DTS_Hour OR DTS_Min OR DTS_Sec"

(* src: datetime_convert.hpp 78-78 DateTimeConvert::DTS_HMS_M *)
definition DTS_HMS_M :: dt_style where "DTS_HMS_M = DTS_Hour OR DTS_Min OR DTS_Sec OR DTS_mSec"

(* src: datetime_convert.hpp 79-79 DateTimeConvert::DTS_YMDHMS *)
definition DTS_YMDHMS :: dt_style where "DTS_YMDHMS = DTS_YMD OR DTS_HMS"

(* src: datetime_convert.hpp 80-80 DateTimeConvert::DTS_YMDHMS_M *)
definition DTS_YMDHMS_M :: dt_style where "DTS_YMDHMS_M = DTS_YMD OR DTS_HMS_M"

(* src: datetime_convert.hpp 81-81 DateTimeConvert::DTS_ALL *)
definition DTS_ALL :: dt_style where "DTS_ALL = 0xFF"

lemmas dts_defs = DTS_Year_def DTS_Month_def DTS_Day_def DTS_Hour_def DTS_Min_def DTS_Sec_def
  DTS_mSec_def DTS_uSec_def DTS_YMD_def DTS_HMS_def DTS_HMS_M_def DTS_YMDHMS_def DTS_YMDHMS_M_def DTS_ALL_def

text \<open>A day of the week is its number, Sunday 0, and -1 when it is not known.\<close>

(* src: datetime_convert.hpp 44-44 DateTimeConvert::UNDEFINE *)
definition UNDEFINE :: int where "UNDEFINE = -1"

(* src: datetime_convert.hpp 1067-1080 DateTimeConvert *)
record date_time =
  dt_style :: dt_style
  dt_day_of_week :: int
  dt_isvalid :: bool
  dt_year :: int
  dt_month :: int
  dt_day :: int
  dt_hour :: int
  dt_minute :: int
  dt_second :: int
  dt_millsecond :: int
  dt_microsecond :: int

(* src: datetime_convert.hpp 84-84 DateTimeConvert::DateTimeConvert *)
definition new_date_time :: date_time where
  "new_date_time = \<lparr>dt_style = 0, dt_day_of_week = UNDEFINE, dt_isvalid = False, dt_year = 0, dt_month = 1, dt_day = 1,
     dt_hour = 0, dt_minute = 0, dt_second = 0, dt_millsecond = 0, dt_microsecond = 0\<rparr>"

definition has_field :: "dt_style \<Rightarrow> dt_style \<Rightarrow> bool" where
  "has_field style f \<longleftrightarrow> style AND f \<noteq> 0"

(* src: datetime_convert.hpp 1062-1064 DateTimeConvert::check_dt_valid *)
definition check_dt_valid :: "date_time \<Rightarrow> bool" where
  "check_dt_valid d \<longleftrightarrow> dt_year d \<ge> 1900 \<and> dt_month d > 0 \<and> dt_day d > 0 \<and> dt_hour d \<ge> 0 \<and> dt_minute d \<ge> 0 \<and>
     dt_second d \<ge> 0 \<and> dt_millsecond d \<ge> 0 \<and> dt_microsecond d \<ge> 0"

section \<open>Conversions from text and numbers\<close>

text \<open>
  memcpy of n characters at an offset into the zeroed buffer, then atoi, which stops at the end of
  the text. The text with its terminating zero has to hold the characters copied.
\<close>

definition read_field :: "string \<Rightarrow> nat \<Rightarrow> nat \<Rightarrow> int option" where
  "read_field dt offset n =
     (if offset + n \<le> length dt + 1 then Some (atoi (take n (drop offset (dt @ [CHR 0x00])))) else None)"

text \<open>One of the blocks of FromString: the field if the style has it, and where the next one begins.\<close>

definition string_field ::
  "string \<Rightarrow> dt_style \<Rightarrow> dt_style \<Rightarrow> nat \<Rightarrow> nat \<Rightarrow> (int \<Rightarrow> date_time \<Rightarrow> date_time) \<Rightarrow>
   date_time \<times> nat \<Rightarrow> (date_time \<times> nat) option" where
  "string_field dt style f n advance upd = (\<lambda>(ret, offset).
     if has_field style f then map_option (\<lambda>v. (upd v ret, offset + advance)) (read_field dt offset n)
     else Some (ret, offset))"

(* src: datetime_convert.hpp 88-167 DateTimeConvert::FromString *)
definition from_string :: "string \<Rightarrow> dt_style \<Rightarrow> dt_kind \<Rightarrow> date_time option" where
  "from_string dt style kind =
     do { let ret = new_date_time\<lparr>dt_style := style\<rparr>;
          let loc = (\<lambda>a b. if kind = DTK_Local then a else b);
          s \<leftarrow> string_field dt style DTS_Year 4 (loc 5 4) (\<lambda>v. dt_year_update (\<lambda>_. v)) (ret, 0);
          s \<leftarrow> string_field dt style DTS_Month 2 (loc 3 2) (\<lambda>v. dt_month_update (\<lambda>_. v)) s;
          s \<leftarrow> string_field dt style DTS_Day 2 3 (\<lambda>v. dt_day_update (\<lambda>_. v)) s;
          s \<leftarrow> string_field dt style DTS_Hour 2 (loc 3 2) (\<lambda>v. dt_hour_update (\<lambda>_. v)) s;
          s \<leftarrow> string_field dt style DTS_Min 2 (loc 3 2) (\<lambda>v. dt_minute_update (\<lambda>_. v)) s;
          s \<leftarrow> string_field dt style DTS_Sec 2 (loc 3 3) (\<lambda>v. dt_second_update (\<lambda>_. v)) s;
          s \<leftarrow> string_field dt style DTS_mSec 3 (loc 4 4) (\<lambda>v. dt_millsecond_update (\<lambda>_. v)) s;
          (ret, _) \<leftarrow> string_field dt style DTS_uSec 3 0 (\<lambda>v. dt_microsecond_update (\<lambda>_. v)) s;
          Some (ret\<lparr>dt_isvalid := style \<noteq> 0 \<and> check_dt_valid ret\<rparr>) }"

text \<open>The arguments of FromInt in the order of the fields; an argument that is missing is undefined.\<close>

definition int_field ::
  "dt_style \<Rightarrow> dt_style \<Rightarrow> (int \<Rightarrow> date_time \<Rightarrow> date_time) \<Rightarrow> date_time \<times> int list \<Rightarrow> (date_time \<times> int list) option" where
  "int_field style f upd = (\<lambda>(ret, args).
     if has_field style f then (case args of [] \<Rightarrow> None | v # vs \<Rightarrow> Some (upd v ret, vs)) else Some (ret, args))"

text \<open>
  Every field but the last takes the next argument with va_arg as soon as it is set, so a call has to
  pass one argument more than fields unless the style has microseconds.
\<close>

(* src: datetime_convert.hpp 170-217 DateTimeConvert::FromInt *)
definition from_int :: "dt_style \<Rightarrow> int list \<Rightarrow> date_time option" where
  "from_int style args =
     do { s \<leftarrow> int_field style DTS_Year (\<lambda>v. dt_year_update (\<lambda>_. v)) (new_date_time\<lparr>dt_style := style\<rparr>, args);
          s \<leftarrow> int_field style DTS_Month (\<lambda>v. dt_month_update (\<lambda>_. v)) s;
          s \<leftarrow> int_field style DTS_Day (\<lambda>v. dt_day_update (\<lambda>_. v)) s;
          s \<leftarrow> int_field style DTS_Hour (\<lambda>v. dt_hour_update (\<lambda>_. v)) s;
          s \<leftarrow> int_field style DTS_Min (\<lambda>v. dt_minute_update (\<lambda>_. v)) s;
          s \<leftarrow> int_field style DTS_Sec (\<lambda>v. dt_second_update (\<lambda>_. v)) s;
          s \<leftarrow> int_field style DTS_mSec (\<lambda>v. dt_millsecond_update (\<lambda>_. v)) s;
          (ret, rest) \<leftarrow> int_field style DTS_uSec (\<lambda>v. dt_microsecond_update (\<lambda>_. v)) s;
          if \<not> has_field style DTS_uSec \<and> rest = [] then None
          else Some (ret\<lparr>dt_isvalid := style \<noteq> 0 \<and> check_dt_valid ret\<rparr>) }"

definition when_field :: "dt_style \<Rightarrow> dt_style \<Rightarrow> (date_time \<Rightarrow> date_time) \<Rightarrow> date_time \<Rightarrow> date_time" where
  "when_field style f g d = (if has_field style f then g d else d)"

(* src: datetime_convert.hpp 219-250 DateTimeConvert::FromIntDateTime *)
definition from_int_date_time :: "int \<Rightarrow> int \<Rightarrow> dt_style \<Rightarrow> date_time" where
  "from_int_date_time date time style =
     (let ret = new_date_time\<lparr>dt_style := style\<rparr>;
          ret = when_field style DTS_Year (dt_year_update (\<lambda>_. date sdiv 10000)) ret;
          ret = when_field style DTS_Month (dt_month_update (\<lambda>_. (date smod 10000) sdiv 100)) ret;
          ret = when_field style DTS_Day (dt_day_update (\<lambda>_. date smod 100)) ret;
          ret = when_field style DTS_Hour (dt_hour_update (\<lambda>_. time sdiv 10000000)) ret;
          ret = when_field style DTS_Min (dt_minute_update (\<lambda>_. (time smod 10000000) sdiv 100000)) ret;
          ret = when_field style DTS_Sec (dt_second_update (\<lambda>_. (time smod 100000) sdiv 1000)) ret;
          ret = when_field style DTS_mSec (dt_millsecond_update (\<lambda>_. time smod 1000)) ret
      in ret\<lparr>dt_isvalid := style \<noteq> 0 \<and> check_dt_valid ret\<rparr>)"

(* src: datetime_convert.hpp 252-270 DateTimeConvert::FromIntDate *)
definition from_int_date :: "int \<Rightarrow> dt_style \<Rightarrow> date_time" where
  "from_int_date date style =
     (let ret = new_date_time\<lparr>dt_style := style\<rparr>;
          ret = when_field style DTS_Year (dt_year_update (\<lambda>_. date sdiv 10000)) ret;
          ret = when_field style DTS_Month (dt_month_update (\<lambda>_. (date smod 10000) sdiv 100)) ret;
          ret = when_field style DTS_Day (dt_day_update (\<lambda>_. date smod 100)) ret
      in ret\<lparr>dt_isvalid := style \<noteq> 0 \<and> check_dt_valid ret\<rparr>)"

section \<open>Fields\<close>

(* src: datetime_convert.hpp 963-967 DateTimeConvert::year *)
definition get_year :: "date_time \<Rightarrow> int" where "get_year d = (if \<not> dt_isvalid d then -1 else dt_year d)"

(* src: datetime_convert.hpp 971-975 DateTimeConvert::month *)
definition get_month :: "date_time \<Rightarrow> int" where "get_month d = (if \<not> dt_isvalid d then -1 else dt_month d)"

(* src: datetime_convert.hpp 979-983 DateTimeConvert::day *)
definition get_day :: "date_time \<Rightarrow> int" where "get_day d = (if \<not> dt_isvalid d then -1 else dt_day d)"

(* src: datetime_convert.hpp 987-991 DateTimeConvert::hour *)
definition get_hour :: "date_time \<Rightarrow> int" where "get_hour d = (if \<not> dt_isvalid d then -1 else dt_hour d)"

(* src: datetime_convert.hpp 995-999 DateTimeConvert::minute *)
definition get_minute :: "date_time \<Rightarrow> int" where "get_minute d = (if \<not> dt_isvalid d then -1 else dt_minute d)"

(* src: datetime_convert.hpp 1003-1007 DateTimeConvert::second *)
definition get_second :: "date_time \<Rightarrow> int" where "get_second d = (if \<not> dt_isvalid d then -1 else dt_second d)"

(* src: datetime_convert.hpp 1011-1015 DateTimeConvert::millsecond *)
definition get_millsecond :: "date_time \<Rightarrow> int" where "get_millsecond d = (if \<not> dt_isvalid d then -1 else dt_millsecond d)"

(* src: datetime_convert.hpp 1019-1023 DateTimeConvert::microsecond *)
definition get_microsecond :: "date_time \<Rightarrow> int" where "get_microsecond d = (if \<not> dt_isvalid d then -1 else dt_microsecond d)"

lemmas get_defs = get_year_def get_month_def get_day_def get_hour_def get_minute_def get_second_def
  get_millsecond_def get_microsecond_def

(* src: datetime_convert.hpp 646-652 DateTimeConvert::reset_time *)
definition reset_time :: "int \<Rightarrow> int \<Rightarrow> int \<Rightarrow> int \<Rightarrow> int \<Rightarrow> date_time \<Rightarrow> date_time" where
  "reset_time h m s ms us d = d\<lparr>dt_hour := h, dt_minute := m, dt_second := s, dt_millsecond := ms, dt_microsecond := us\<rparr>"

(* src: datetime_convert.hpp 653-658 DateTimeConvert::reset_time_tdms *)
definition reset_time_tdms :: "int \<Rightarrow> date_time \<Rightarrow> date_time" where
  "reset_time_tdms msecs d = d\<lparr>dt_hour := to_int32 (msecs sdiv (60 * 60 * 1000)),
     dt_minute := to_int32 ((msecs smod (60 * 60 * 1000)) sdiv (60 * 1000)),
     dt_second := to_int32 ((msecs sdiv 1000) smod 60), dt_millsecond := to_int32 (msecs smod 1000)\<rparr>"

section \<open>Comparisons\<close>

(* src: datetime_convert.hpp 344-389 DateTimeConvert::operator== *)
definition dt_eq :: "date_time \<Rightarrow> date_time \<Rightarrow> bool" where
  "dt_eq a b =
     (if dt_style a \<noteq> dt_style b then False
      else if has_field (dt_style a) DTS_Year \<and> get_year b \<noteq> get_year a then False
      else if has_field (dt_style a) DTS_Month \<and> get_month b \<noteq> get_month a then False
      else if has_field (dt_style a) DTS_Day \<and> get_day b \<noteq> get_day a then False
      else if has_field (dt_style a) DTS_Hour \<and> get_hour b \<noteq> get_hour a then False
      else if has_field (dt_style a) DTS_Min \<and> get_minute b \<noteq> get_minute a then False
      else if has_field (dt_style a) DTS_Sec \<and> get_second b \<noteq> get_second a then False
      else if has_field (dt_style a) DTS_mSec \<and> get_millsecond b \<noteq> get_millsecond a then False
      else if has_field (dt_style a) DTS_uSec \<and> get_microsecond b \<noteq> get_microsecond a then False
      else True)"

text \<open>One field decides when the style has it and the two differ; otherwise the rest of the fields do.\<close>

definition less_field :: "dt_style \<Rightarrow> dt_style \<Rightarrow> int \<Rightarrow> int \<Rightarrow> bool \<Rightarrow> bool" where
  "less_field style f x y rest =
     (if has_field style f then (if x > y then False else if x < y then True else rest) else rest)"

(* src: datetime_convert.hpp 391-460 DateTimeConvert::operator< *)
definition dt_less :: "date_time \<Rightarrow> date_time \<Rightarrow> bool" where
  "dt_less a b =
     (if dt_style a \<noteq> dt_style b then dt_style a < dt_style b
      else let st = dt_style a in
        less_field st DTS_Year (get_year a) (get_year b)
          (less_field st DTS_Month (get_month a) (get_month b)
            (less_field st DTS_Day (get_day a) (get_day b)
              (less_field st DTS_Hour (get_hour a) (get_hour b)
                (less_field st DTS_Min (get_minute a) (get_minute b)
                  (less_field st DTS_Sec (get_second a) (get_second b)
                    (less_field st DTS_mSec (get_millsecond a) (get_millsecond b)
                      (less_field st DTS_uSec (get_microsecond a) (get_microsecond b) False))))))))"

definition greater_field :: "dt_style \<Rightarrow> dt_style \<Rightarrow> int \<Rightarrow> int \<Rightarrow> bool \<Rightarrow> bool" where
  "greater_field style f x y rest =
     (if has_field style f then (if x < y then False else if x > y then True else rest) else rest)"

(* src: datetime_convert.hpp 466-535 DateTimeConvert::operator> *)
definition dt_greater :: "date_time \<Rightarrow> date_time \<Rightarrow> bool" where
  "dt_greater a b =
     (if dt_style a \<noteq> dt_style b then dt_style a > dt_style b
      else let st = dt_style a in
        greater_field st DTS_Year (get_year a) (get_year b)
          (greater_field st DTS_Month (get_month a) (get_month b)
            (greater_field st DTS_Day (get_day a) (get_day b)
              (greater_field st DTS_Hour (get_hour a) (get_hour b)
                (greater_field st DTS_Min (get_minute a) (get_minute b)
                  (greater_field st DTS_Sec (get_second a) (get_second b)
                    (greater_field st DTS_mSec (get_millsecond a) (get_millsecond b)
                      (greater_field st DTS_uSec (get_microsecond a) (get_microsecond b) False))))))))"

(* src: datetime_convert.hpp 462-464 DateTimeConvert::operator<= *)
definition dt_less_eq :: "date_time \<Rightarrow> date_time \<Rightarrow> bool" where
  "dt_less_eq a b \<longleftrightarrow> dt_eq a b \<or> dt_less a b"

(* src: datetime_convert.hpp 537-539 DateTimeConvert::operator>= *)
definition dt_greater_eq :: "date_time \<Rightarrow> date_time \<Rightarrow> bool" where
  "dt_greater_eq a b \<longleftrightarrow> dt_eq a b \<or> dt_greater a b"

section \<open>Conversions to text and numbers\<close>

text \<open>The parts of the text: the date, the time, the milliseconds and the microseconds, with what is put between.\<close>

definition join_parts :: "dt_style \<Rightarrow> string \<Rightarrow> string \<Rightarrow> string \<Rightarrow> string \<Rightarrow> string \<Rightarrow> string \<Rightarrow> string" where
  "join_parts style gap dot szDate szTime szmSec szuSec =
     szDate @ (if has_field style DTS_YMD \<and> has_field style DTS_HMS then gap else []) @
     szTime @ (if has_field style DTS_HMS \<and> has_field style DTS_mSec then dot else []) @
     szmSec @ (if has_field style DTS_mSec \<and> has_field style DTS_uSec then dot else []) @ szuSec"

(* src: datetime_convert.hpp 719-766 DateTimeConvert::to_local_string *)
definition to_local_string :: "dt_style \<Rightarrow> date_time \<Rightarrow> string" where
  "to_local_string style d =
     (let szDate = (if has_field style DTS_YMD
            then snprintf 11 (fmt_int 4 (get_year d) @ ''-'' @ fmt_int 2 (get_month d) @ ''-'' @ fmt_int 2 (get_day d)) else []);
          szTime = (if has_field style DTS_HMS
            then snprintf 9 (fmt_int 2 (get_hour d) @ '':'' @ fmt_int 2 (get_minute d) @ '':'' @ fmt_int 2 (get_second d)) else []);
          szmSec = (if has_field style DTS_mSec then snprintf 4 (fmt_int 3 (get_millsecond d)) else []);
          szuSec = (if has_field style DTS_uSec then snprintf 4 (fmt_int 3 (get_microsecond d)) else [])
      in join_parts style '' '' ''.'' szDate szTime szmSec szuSec)"

(* src: datetime_convert.hpp 768-811 DateTimeConvert::to_kline_string *)
definition to_kline_string :: "dt_style \<Rightarrow> date_time \<Rightarrow> string" where
  "to_kline_string style d =
     (let szDate = (if has_field style DTS_YMD
            then snprintf 9 (fmt_int 4 (get_year d) @ fmt_int 2 (get_month d) @ fmt_int 2 (get_day d)) else []);
          szTime = (if has_field style DTS_HMS
            then snprintf 7 (fmt_int 2 (get_hour d) @ fmt_int 2 (get_minute d) @ fmt_int 2 (get_second d)) else []);
          szmSec = (if has_field style DTS_mSec then snprintf 4 (fmt_int 3 (get_millsecond d)) else []);
          szuSec = (if has_field style DTS_uSec then snprintf 4 (fmt_int 3 (get_microsecond d)) else [])
      in join_parts style '' '' '' '' szDate szTime szmSec szuSec)"

text \<open>A sum of products of ints, each step checked.\<close>

fun int_sum :: "int \<Rightarrow> (int \<times> int) list \<Rightarrow> int option" where
  "int_sum acc [] = Some acc"
| "int_sum acc ((x, k) # ps) = do { p \<leftarrow> c_int (x * k); a \<leftarrow> c_int (acc + p); int_sum a ps }"

(* src: datetime_convert.hpp 847-849 DateTimeConvert::to_int_date *)
definition to_int_date :: "date_time \<Rightarrow> int option" where
  "to_int_date d = int_sum 0 [(dt_year d, 10000), (dt_month d, 100), (dt_day d, 1)]"

(* src: datetime_convert.hpp 855-857 DateTimeConvert::to_int_time *)
definition to_int_time :: "date_time \<Rightarrow> int option" where
  "to_int_time d = int_sum 0 [(dt_hour d, 10000), (dt_minute d, 100), (dt_second d, 1)]"

(* src: datetime_convert.hpp 863-865 DateTimeConvert::to_int_time_ms *)
definition to_int_time_ms :: "date_time \<Rightarrow> int option" where
  "to_int_time_ms d = int_sum 0 [(dt_hour d, 10000000), (dt_minute d, 100000), (dt_second d, 1000), (dt_millsecond d, 1)]"

text \<open>The result is unsigned, the sum is not.\<close>

(* src: datetime_convert.hpp 839-841 DateTimeConvert::to_today_ms *)
definition to_today_ms :: "date_time \<Rightarrow> u32 option" where
  "to_today_ms d = map_option of_int
     (int_sum 0 [(dt_hour d, 3600000), (dt_minute d, 60000), (dt_second d, 1000), (dt_millsecond d, 1)])"

text \<open>
  The products with the fields of the date are long long, those with the fields of the time are ints,
  the sums, from the left, are long long.
\<close>

(* src: datetime_convert.hpp 871-873 DateTimeConvert::to_ll_datetime *)
definition to_ll_datetime :: "date_time \<Rightarrow> int option" where
  "to_ll_datetime d =
     do { y \<leftarrow> c_ll (dt_year d * 10000000000000); m \<leftarrow> c_ll (dt_month d * 100000000000);
          d' \<leftarrow> c_ll (dt_day d * 1000000000); h \<leftarrow> c_int (dt_hour d * 10000000);
          mi \<leftarrow> c_int (dt_minute d * 100000); s \<leftarrow> c_int (dt_second d * 1000);
          a \<leftarrow> c_ll (y + m); a \<leftarrow> c_ll (a + d'); a \<leftarrow> c_ll (a + h); a \<leftarrow> c_ll (a + mi); a \<leftarrow> c_ll (a + s);
          c_ll (a + dt_millsecond d) }"

section \<open>The comparisons are those of the lists of fields\<close>

text \<open>The style and the fields it has, the most significant first.\<close>

definition dt_key :: "date_time \<Rightarrow> int list" where
  "dt_key d = (let st = dt_style d; fld = (\<lambda>f x. if has_field st f then [x] else [])
     in uint st # fld DTS_Year (get_year d) @ fld DTS_Month (get_month d) @ fld DTS_Day (get_day d) @
        fld DTS_Hour (get_hour d) @ fld DTS_Min (get_minute d) @ fld DTS_Sec (get_second d) @
        fld DTS_mSec (get_millsecond d) @ fld DTS_uSec (get_microsecond d) @ [])"

lemma less_field_list:
  "less_field st f x y (xs < ys) \<longleftrightarrow>
     (if has_field st f then [x] else []) @ xs < (if has_field st f then [y] else []) @ (ys :: int list)"
  "greater_field st f x y (ys < xs) \<longleftrightarrow>
     (if has_field st f then [y] else []) @ ys < (if has_field st f then [x] else []) @ (xs :: int list)"
  "(if p then [x] else []) @ xs = (if p then [y] else []) @ ys \<longleftrightarrow> (p \<longrightarrow> x = y) \<and> xs = ys"
  by (auto simp: less_field_def greater_field_def)

lemma less_field_last:
  "less_field st f x y False \<longleftrightarrow> (if has_field st f then [x] else []) @ [] < (if has_field st f then [y] else []) @ ([] :: int list)"
  "greater_field st f x y False \<longleftrightarrow> (if has_field st f then [y] else []) @ [] < (if has_field st f then [x] else []) @ ([] :: int list)"
  by (auto simp: less_field_def greater_field_def)

lemma if_False_else: "(if q then False else r) \<longleftrightarrow> \<not> q \<and> r" "(if q then False else True) \<longleftrightarrow> \<not> q"
  by auto

lemma not_both: "\<not> (p \<and> y \<noteq> x) \<longleftrightarrow> (p \<longrightarrow> x = y)"
  by auto

lemma dt_eq_alt: "dt_eq a b \<longleftrightarrow> dt_style a = dt_style b \<and> (let st = dt_style a in
    (has_field st DTS_Year \<longrightarrow> get_year a = get_year b) \<and> (has_field st DTS_Month \<longrightarrow> get_month a = get_month b) \<and>
    (has_field st DTS_Day \<longrightarrow> get_day a = get_day b) \<and> (has_field st DTS_Hour \<longrightarrow> get_hour a = get_hour b) \<and>
    (has_field st DTS_Min \<longrightarrow> get_minute a = get_minute b) \<and> (has_field st DTS_Sec \<longrightarrow> get_second a = get_second b) \<and>
    (has_field st DTS_mSec \<longrightarrow> get_millsecond a = get_millsecond b) \<and>
    (has_field st DTS_uSec \<longrightarrow> get_microsecond a = get_microsecond b))"
  unfolding dt_eq_def Let_def if_False_else not_both not_not by (simp only: simp_thms)

lemma dt_key_Cons: "\<exists>fs. dt_key d = uint (dt_style d) # fs"
  unfolding dt_key_def Let_def by blast

lemma dt_key_styles: "dt_style a \<noteq> dt_style b \<Longrightarrow> dt_key a \<noteq> dt_key b"
  "dt_style a \<noteq> dt_style b \<Longrightarrow> dt_key a < dt_key b \<longleftrightarrow> dt_style a < dt_style b"
  using dt_key_Cons [of a] dt_key_Cons [of b] by (auto simp: word_less_def word_uint_eq_iff)

lemma dt_eq_key: "dt_eq a b \<longleftrightarrow> dt_key a = dt_key b"
proof (cases "dt_style a = dt_style b")
  case True
  show ?thesis unfolding dt_eq_alt dt_key_def Let_def True list.inject less_field_list by (simp only: simp_thms)
next
  case False
  then show ?thesis using dt_key_styles by (simp add: dt_eq_alt)
qed

lemma dt_less_key: "dt_less a b \<longleftrightarrow> dt_key a < dt_key b"
proof (cases "dt_style a = dt_style b")
  case True
  show ?thesis unfolding dt_less_def dt_key_def Let_def True less_field_last less_field_list
    by (simp only: Cons_less_Cons simp_thms if_False order_less_irrefl)
next
  case False
  then show ?thesis using dt_key_styles by (simp add: dt_less_def)
qed

lemma dt_greater_key: "dt_greater a b \<longleftrightarrow> dt_key b < dt_key a"
proof (cases "dt_style a = dt_style b")
  case True
  show ?thesis unfolding dt_greater_def dt_key_def Let_def True less_field_last less_field_list
    by (simp only: Cons_less_Cons simp_thms if_False order_less_irrefl)
next
  case False
  then show ?thesis using dt_key_styles(2) [of b a] by (auto simp: dt_greater_def)
qed

text \<open>The comparisons of dates are those of the lists of their fields. Of any two values, valid or not and of any
  styles, equal, less, greater and the two with equality are exactly the comparisons of the lists of
  the style and the fields the style has, in lexicographic order; so they are one total order, though
  the code writes each of them out separately.\<close>

theorem date_order_lexicographic:
  "dt_eq a b = (dt_key a = dt_key b) \<and> dt_less a b = (dt_key a < dt_key b) \<and> dt_greater a b = (dt_key b < dt_key a) \<and>
   dt_less_eq a b = (dt_key a \<le> dt_key b) \<and> dt_greater_eq a b = (dt_key b \<le> dt_key a)"
  by (auto simp: dt_eq_key dt_less_key dt_greater_key dt_less_eq_def dt_greater_eq_def)

section \<open>Text and back\<close>

text \<open>Dates whose fields fit the places of the text.\<close>

definition printable :: "date_time \<Rightarrow> bool" where
  "printable d \<longleftrightarrow> dt_isvalid d \<and> check_dt_valid d \<and> dt_year d \<le> 9999 \<and> dt_month d < 100 \<and> dt_day d < 100 \<and>
     dt_hour d < 100 \<and> dt_minute d < 100 \<and> dt_second d < 100 \<and> dt_millsecond d < 1000 \<and> dt_microsecond d < 1000"

definition text_styles :: "dt_style set" where
  "text_styles = {DTS_YMD, DTS_YMDHMS, DTS_YMDHMS_M, DTS_ALL}"

lemma length_4: "length xs = 4 \<Longrightarrow> \<exists>a b c d. xs = [a, b, c, d]"
  by (auto simp: numeral_eq_Suc length_Suc_conv)

lemma length_3: "length xs = 3 \<Longrightarrow> \<exists>a b c. xs = [a, b, c]"
  by (auto simp: numeral_eq_Suc length_Suc_conv)

lemma length_2: "length xs = 2 \<Longrightarrow> \<exists>a b. xs = [a, b]"
  by (auto simp: numeral_eq_Suc length_Suc_conv)

lemma fmt_explicit:
  "0 \<le> n \<Longrightarrow> n < 10000 \<Longrightarrow> \<exists>a b c d. fmt_int 4 n = [a, b, c, d] \<and> atoi [a, b, c, d] = n"
  "0 \<le> n \<Longrightarrow> n < 1000 \<Longrightarrow> \<exists>a b c. fmt_int 3 n = [a, b, c] \<and> atoi [a, b, c] = n"
  "0 \<le> n \<Longrightarrow> n < 100 \<Longrightarrow> \<exists>a b. fmt_int 2 n = [a, b] \<and> atoi [a, b] = n"
  using length_4 [of "fmt_int 4 n"] length_3 [of "fmt_int 3 n"] length_2 [of "fmt_int 2 n"]
    length_fmt_int [of 4 n] length_fmt_int [of 3 n] length_fmt_int [of 2 n]
    atoi_fmt_int [of n 4] atoi_fmt_int [of n 3] atoi_fmt_int [of n 2]
  by auto

lemma style_fields [simp]:
  "has_field DTS_YMD DTS_Year" "has_field DTS_YMD DTS_Month" "has_field DTS_YMD DTS_Day"
  "\<not> has_field DTS_YMD DTS_Hour" "\<not> has_field DTS_YMD DTS_Min" "\<not> has_field DTS_YMD DTS_Sec"
  "\<not> has_field DTS_YMD DTS_mSec" "\<not> has_field DTS_YMD DTS_uSec" "has_field DTS_YMD DTS_YMD" "\<not> has_field DTS_YMD DTS_HMS"
  "has_field DTS_YMDHMS DTS_Year" "has_field DTS_YMDHMS DTS_Month" "has_field DTS_YMDHMS DTS_Day"
  "has_field DTS_YMDHMS DTS_Hour" "has_field DTS_YMDHMS DTS_Min" "has_field DTS_YMDHMS DTS_Sec"
  "\<not> has_field DTS_YMDHMS DTS_mSec" "\<not> has_field DTS_YMDHMS DTS_uSec" "has_field DTS_YMDHMS DTS_YMD" "has_field DTS_YMDHMS DTS_HMS"
  "has_field DTS_YMDHMS_M DTS_Year" "has_field DTS_YMDHMS_M DTS_Month" "has_field DTS_YMDHMS_M DTS_Day"
  "has_field DTS_YMDHMS_M DTS_Hour" "has_field DTS_YMDHMS_M DTS_Min" "has_field DTS_YMDHMS_M DTS_Sec"
  "has_field DTS_YMDHMS_M DTS_mSec" "\<not> has_field DTS_YMDHMS_M DTS_uSec" "has_field DTS_YMDHMS_M DTS_YMD" "has_field DTS_YMDHMS_M DTS_HMS"
  "has_field DTS_ALL DTS_Year" "has_field DTS_ALL DTS_Month" "has_field DTS_ALL DTS_Day"
  "has_field DTS_ALL DTS_Hour" "has_field DTS_ALL DTS_Min" "has_field DTS_ALL DTS_Sec"
  "has_field DTS_ALL DTS_mSec" "has_field DTS_ALL DTS_uSec" "has_field DTS_ALL DTS_YMD" "has_field DTS_ALL DTS_HMS"
  "DTS_YMD \<noteq> 0" "DTS_YMDHMS \<noteq> 0" "DTS_YMDHMS_M \<noteq> 0" "DTS_ALL \<noteq> 0"
  by (simp_all add: has_field_def dts_defs)

text \<open>C20: A date printed and read again is the same date. For the styles that begin with the whole date, and in
  both the formats with separators and without, the text of a valid date whose fields fit their
  places is read inside its bounds, and the result is valid and equal to the date in every field of
  the style.\<close>

theorem date_text_roundtrip:
  assumes "printable d" "st \<in> text_styles"
  shows "(\<exists>r. from_string (to_local_string st d) st DTK_Local = Some r \<and> dt_isvalid r \<and> dt_eq r (d\<lparr>dt_style := st\<rparr>)) \<and>
    (\<exists>r. from_string (to_kline_string st d) st DTK_KLine = Some r \<and> dt_isvalid r \<and> dt_eq r (d\<lparr>dt_style := st\<rparr>))"
proof -
  have v: "dt_isvalid d" and c: "check_dt_valid d" using assms(1) by (simp_all add: printable_def)
  have b: "0 \<le> dt_year d" "dt_year d < 10000" "0 \<le> dt_month d" "dt_month d < 100" "0 \<le> dt_day d" "dt_day d < 100"
    "0 \<le> dt_hour d" "dt_hour d < 100" "0 \<le> dt_minute d" "dt_minute d < 100" "0 \<le> dt_second d" "dt_second d < 100"
    "0 \<le> dt_millsecond d" "dt_millsecond d < 1000" "0 \<le> dt_microsecond d" "dt_microsecond d < 1000"
    using assms(1) by (simp_all add: printable_def check_dt_valid_def)
  obtain y1 y2 y3 y4 where y: "fmt_int 4 (dt_year d) = [y1, y2, y3, y4]" "atoi [y1, y2, y3, y4] = dt_year d"
    using fmt_explicit(1) b(1,2) by blast
  obtain m1 m2 where m: "fmt_int 2 (dt_month d) = [m1, m2]" "atoi [m1, m2] = dt_month d"
    using fmt_explicit(3) b(3,4) by blast
  obtain d1 d2 where dd: "fmt_int 2 (dt_day d) = [d1, d2]" "atoi [d1, d2] = dt_day d"
    using fmt_explicit(3) b(5,6) by blast
  obtain h1 h2 where h: "fmt_int 2 (dt_hour d) = [h1, h2]" "atoi [h1, h2] = dt_hour d"
    using fmt_explicit(3) b(7,8) by blast
  obtain n1 n2 where n: "fmt_int 2 (dt_minute d) = [n1, n2]" "atoi [n1, n2] = dt_minute d"
    using fmt_explicit(3) b(9,10) by blast
  obtain s1 s2 where s: "fmt_int 2 (dt_second d) = [s1, s2]" "atoi [s1, s2] = dt_second d"
    using fmt_explicit(3) b(11,12) by blast
  obtain i1 i2 i3 where i: "fmt_int 3 (dt_millsecond d) = [i1, i2, i3]" "atoi [i1, i2, i3] = dt_millsecond d"
    using fmt_explicit(2) b(13,14) by blast
  obtain u1 u2 u3 where u: "fmt_int 3 (dt_microsecond d) = [u1, u2, u3]" "atoi [u1, u2, u3] = dt_microsecond d"
    using fmt_explicit(2) b(15,16) by blast
  note P = to_local_string_def to_kline_string_def join_parts_def snprintf_def get_defs v y(1) m(1) dd(1) h(1) n(1) s(1) i(1) u(1) Let_def
  note R = from_string_def string_field_def read_field_def new_date_time_def y(2) m(2) dd(2) h(2) n(2) s(2) i(2) u(2) Let_def
  note E = dt_eq_alt get_defs v
  have valid: "check_dt_valid r" if "dt_year r = dt_year d" "dt_month r = dt_month d" "dt_day r = dt_day d"
      "0 \<le> dt_hour r" "0 \<le> dt_minute r" "0 \<le> dt_second r" "0 \<le> dt_millsecond r" "0 \<le> dt_microsecond r" for r
    using that c by (simp add: check_dt_valid_def)
  from assms(2) consider "st = DTS_YMD" | "st = DTS_YMDHMS" | "st = DTS_YMDHMS_M" | "st = DTS_ALL"
    by (auto simp: text_styles_def)
  then show ?thesis
  proof cases
    case 1 show ?thesis unfolding 1 by (simp add: P R E valid)
  next
    case 2 show ?thesis unfolding 2 by (simp add: P R E valid b)
  next
    case 3 show ?thesis unfolding 3 by (simp add: P R E valid b)
  next
    case 4 show ?thesis unfolding 4 by (simp add: P R E valid b)
  qed
qed

definition sample_date :: date_time where
  "sample_date = new_date_time\<lparr>dt_style := DTS_ALL, dt_isvalid := True, dt_year := 2018, dt_month := 7, dt_day := 7,
     dt_hour := 15, dt_minute := 20, dt_second := 9, dt_millsecond := 500, dt_microsecond := 7\<rparr>"

theorem date_text_roundtrip_witness:
  "\<exists>r. from_string (to_local_string DTS_ALL sample_date) DTS_ALL DTK_Local = Some r \<and> dt_isvalid r \<and> dt_eq r sample_date"
proof -
  have "printable sample_date" by (simp add: printable_def check_dt_valid_def sample_date_def new_date_time_def)
  moreover have "DTS_ALL \<in> text_styles" by (simp add: text_styles_def)
  moreover have "sample_date\<lparr>dt_style := DTS_ALL\<rparr> = sample_date" by (simp add: sample_date_def)
  ultimately show ?thesis using date_text_roundtrip [of sample_date DTS_ALL] by simp
qed

section \<open>Numbers and back\<close>

lemma place_value:
  "0 \<le> r \<Longrightarrow> r < k \<Longrightarrow> (q * k + r) div k = (q::int)" "0 \<le> r \<Longrightarrow> r < k \<Longrightarrow> (q * k + r) mod k = (r::int)"
  by simp_all

text \<open>A date and a time of day of the calendar, as the numbers yyyymmdd and hhmmssmmm.\<close>

definition same_fields :: "date_time \<Rightarrow> date_time \<Rightarrow> bool" where
  "same_fields r d \<longleftrightarrow> dt_isvalid r \<and> dt_year r = dt_year d \<and> dt_month r = dt_month d \<and> dt_day r = dt_day d \<and>
     dt_hour r = dt_hour d \<and> dt_minute r = dt_minute d \<and> dt_second r = dt_second d \<and> dt_millsecond r = dt_millsecond d"

lemma from_int_fields:
  assumes "0 \<le> date" "0 \<le> tm" "date div 10000 = dt_year d" "(date mod 10000) div 100 = dt_month d" "date mod 100 = dt_day d"
    "tm div 10000000 = dt_hour d" "(tm mod 10000000) div 100000 = dt_minute d" "(tm mod 100000) div 1000 = dt_second d"
    "tm mod 1000 = dt_millsecond d" "check_dt_valid d"
  shows "same_fields (from_int_date_time date tm DTS_YMDHMS_M) d"
proof -
  have S: "date sdiv 10000 = dt_year d" "(date smod 10000) sdiv 100 = dt_month d" "date smod 100 = dt_day d"
    "tm sdiv 10000000 = dt_hour d" "(tm smod 10000000) sdiv 100000 = dt_minute d" "(tm smod 100000) sdiv 1000 = dt_second d"
    "tm smod 1000 = dt_millsecond d"
    using assms(1,2) unfolding assms(3-9) [symmetric] by simp_all
  show ?thesis using assms(10) unfolding from_int_date_time_def S
    by (simp add: same_fields_def when_field_def Let_def check_dt_valid_def new_date_time_def)
qed

lemma int_date_roundtrip:
  assumes "check_dt_valid d" "dt_year d \<le> 9999" "dt_month d < 100" "dt_day d < 100" "dt_hour d < 100"
    "dt_minute d < 100" "dt_second d < 100" "dt_millsecond d < 1000"
  shows "\<exists>date time. to_int_date d = Some date \<and> to_int_time_ms d = Some time \<and>
    same_fields (from_int_date_time date time DTS_YMDHMS_M) d"
proof -
  have b: "1900 \<le> dt_year d" "0 < dt_month d" "0 < dt_day d" "0 \<le> dt_hour d" "0 \<le> dt_minute d" "0 \<le> dt_second d" "0 \<le> dt_millsecond d"
    using assms(1) by (simp_all add: check_dt_valid_def)
  let ?date = "dt_year d * 10000 + dt_month d * 100 + dt_day d"
  let ?time = "dt_hour d * 10000000 + dt_minute d * 100000 + dt_second d * 1000 + dt_millsecond d"
  have D: "to_int_date d = Some ?date" using b assms by (simp add: to_int_date_def)
  have T: "to_int_time_ms d = Some ?time" using b assms by (simp add: to_int_time_ms_def)
  have date: "?date = dt_year d * 10000 + (dt_month d * 100 + dt_day d)" "?date = (dt_year d * 100 + dt_month d) * 100 + dt_day d"
    by simp_all
  have time: "?time = dt_hour d * 10000000 + (dt_minute d * 100000 + (dt_second d * 1000 + dt_millsecond d))"
    "?time = (dt_hour d * 100 + dt_minute d) * 100000 + (dt_second d * 1000 + dt_millsecond d)"
    "?time = (dt_hour d * 10000 + dt_minute d * 100 + dt_second d) * 1000 + dt_millsecond d" by simp_all
  have "?date div 10000 = dt_year d" "?date mod 10000 = dt_month d * 100 + dt_day d"
    unfolding date(1) by (rule place_value; use b assms in simp)+
  moreover have "?date mod 100 = dt_day d" "(dt_month d * 100 + dt_day d) div 100 = dt_month d"
    unfolding date(2) by (rule place_value; use b assms in simp)+
  moreover have "?time div 10000000 = dt_hour d" "?time mod 10000000 = dt_minute d * 100000 + (dt_second d * 1000 + dt_millsecond d)"
    unfolding time(1) by (rule place_value; use b assms in simp)+
  moreover have "(dt_minute d * 100000 + (dt_second d * 1000 + dt_millsecond d)) div 100000 = dt_minute d"
    by (rule place_value; use b assms in simp)
  moreover have "?time mod 100000 = dt_second d * 1000 + dt_millsecond d" "(dt_second d * 1000 + dt_millsecond d) div 1000 = dt_second d"
    unfolding time(2) by (rule place_value; use b assms in simp)+
  moreover have "?time mod 1000 = dt_millsecond d"
    unfolding time(3) by (rule place_value; use b assms in simp)
  moreover have "0 \<le> ?date" "0 \<le> ?time" using b by simp_all
  ultimately have "same_fields (from_int_date_time ?date ?time DTS_YMDHMS_M) d"
    by (intro from_int_fields assms(1)) (simp_all only:)
  then show ?thesis unfolding D T by blast
qed

text \<open>A style without the year leaves the year 0, so no value of such a style is valid.\<close>

lemma bind_SomeE: "m \<bind> f = Some r \<Longrightarrow> (\<And>x. m = Some x \<Longrightarrow> f x = Some r \<Longrightarrow> P) \<Longrightarrow> P"
  by (cases m) auto

lemma string_field_year:
  "string_field dt style f n adv upd s = Some s' \<Longrightarrow> (\<And>v r. dt_year (upd v r) = dt_year r) \<Longrightarrow>
    dt_year (fst s') = dt_year (fst s)"
  by (auto simp: string_field_def split: if_splits prod.splits)

lemma time_only_string:
  assumes "\<not> has_field st DTS_Year" "from_string s st k = Some r"
  shows "\<not> dt_isvalid r"
proof -
  have Y: "string_field s st DTS_Year n adv upd x = Some x" for n adv upd x
    using assms(1) by (simp add: string_field_def split: prod.splits)
  from assms(2) show ?thesis unfolding from_string_def Let_def Y bind.bind_lunit
  proof (elim bind_SomeE, goal_cases)
    case (1 s2 s3 s4 s5 s6 s7 s8)
    then have "dt_year (fst s8) = 0"
      using 1(1-7) [THEN string_field_year] by (simp add: new_date_time_def)
    then show ?case using 1(8) by (auto simp: check_dt_valid_def split: prod.splits)
  qed
qed

lemma time_only_numbers:
  assumes "\<not> has_field st DTS_Year"
  shows "\<not> dt_isvalid (from_int_date_time date time st)"
  using assms by (simp add: from_int_date_time_def when_field_def Let_def check_dt_valid_def new_date_time_def)

end
