(* ===== verification/Date_Calendar.thy ===== *)
theory Date_Calendar
  imports Date_Time
begin

text \<open>
  The calendar part of DateTimeConvert (datetime_convert.hpp): days of the week, the conversions from
  and to time_t, and the additions. localtime_r and mktime are modelled for a time zone with a fixed
  offset, tz seconds east of UTC, without daylight saving time (the class is for Beijing time).
\<close>

section \<open>The C library's calendar\<close>

definition leap :: "int \<Rightarrow> bool" where
  "leap y \<longleftrightarrow> 4 dvd y \<and> (\<not> 100 dvd y \<or> 400 dvd y)"

definition year_days :: "int \<Rightarrow> int" where
  "year_days y = (if leap y then 366 else 365)"

definition month_lens :: "int \<Rightarrow> int list" where
  "month_lens y = [31, if leap y then 29 else 28, 31, 30, 31, 30, 31, 31, 30, 31, 30, 31]"

text \<open>The leap years up to y, and the days from 1970 to the beginning of y.\<close>

definition leaps :: "int \<Rightarrow> int" where
  "leaps y = y div 4 - y div 100 + y div 400"

definition days_before_year :: "int \<Rightarrow> int" where
  "days_before_year y = 365 * (y - 1970) + leaps (y - 1) - leaps 1969"

function find_year :: "int \<Rightarrow> int \<Rightarrow> int \<times> int" where
  "find_year n y =
     (if n < 0 then find_year (n + year_days (y - 1)) (y - 1)
      else if n \<ge> year_days y then find_year (n - year_days y) (y + 1)
      else (y, n))"
  by pat_completeness auto
termination
  by (relation "measures [\<lambda>(n, y). if n < 0 then 1 else 0, \<lambda>(n, y). nat \<bar>n\<bar>]") (auto simp: year_days_def split: if_splits)

declare find_year.simps [simp del]

fun find_month :: "int list \<Rightarrow> int \<Rightarrow> int \<Rightarrow> int \<times> int" where
  "find_month [] n m = (m, n)"
| "find_month (l # ls) n m = (if n < l then (m, n) else find_month ls (n - l) (m + 1))"

record tm =
  tm_year :: int
  tm_mon :: int
  tm_mday :: int
  tm_hour :: int
  tm_min :: int
  tm_sec :: int
  tm_wday :: int

text \<open>localtime_r; None when the year does not fit an int, and the result is not written.\<close>

definition localtime :: "int \<Rightarrow> int \<Rightarrow> tm option" where
  "localtime tz t =
     (let s = t + tz; days = s div 86400; r = s mod 86400;
          (y, yday) = find_year days 1970; (mon, mday) = find_month (month_lens y) yday 0
      in do { ty \<leftarrow> c_int (y - 1900);
              Some \<lparr>tm_year = ty, tm_mon = mon, tm_mday = mday + 1, tm_hour = r div 3600, tm_min = r mod 3600 div 60,
                tm_sec = r mod 60, tm_wday = (days + 4) mod 7\<rparr> })"

text \<open>mktime takes fields out of range; -1 when the result has no year that fits an int.\<close>

definition mktime :: "int \<Rightarrow> tm \<Rightarrow> int" where
  "mktime tz c =
     (let y = tm_year c + 1900 + tm_mon c div 12;
          days = days_before_year y + sum_list (take (nat (tm_mon c mod 12)) (month_lens y)) + (tm_mday c - 1);
          t = days * 86400 + tm_hour c * 3600 + tm_min c * 60 + tm_sec c - tz
      in if localtime tz t = None then -1 else t)"

section \<open>Days of the week\<close>

(* src: datetime_convert.hpp 45-45 DateTimeConvert::SUNDAY *)
definition SUNDAY :: int where "SUNDAY = 0"

(* src: datetime_convert.hpp 46-46 DateTimeConvert::MONDAY *)
definition MONDAY :: int where "MONDAY = 1"

(* src: datetime_convert.hpp 47-47 DateTimeConvert::TUESDAY *)
definition TUESDAY :: int where "TUESDAY = 2"

(* src: datetime_convert.hpp 48-48 DateTimeConvert::WEDNESDAY *)
definition WEDNESDAY :: int where "WEDNESDAY = 3"

(* src: datetime_convert.hpp 49-49 DateTimeConvert::THURSDAY *)
definition THURSDAY :: int where "THURSDAY = 4"

(* src: datetime_convert.hpp 50-50 DateTimeConvert::FRIDAY *)
definition FRIDAY :: int where "FRIDAY = 5"

(* src: datetime_convert.hpp 51-51 DateTimeConvert::SATURDAY *)
definition SATURDAY :: int where "SATURDAY = 6"

lemmas weekday_defs = SUNDAY_def MONDAY_def TUESDAY_def WEDNESDAY_def THURSDAY_def FRIDAY_def SATURDAY_def

(* src: datetime_convert.hpp 1027-1060 DateTimeConvert::caculate_weekday *)
definition caculate_weekday :: "int \<Rightarrow> int \<Rightarrow> int \<Rightarrow> int option" where
  "caculate_weekday y m d =
     do { (y, m) \<leftarrow> (if m = 1 \<or> m = 2 then do { m' \<leftarrow> c_int (m + 12); y' \<leftarrow> c_int (y - 1); Some (y', m') } else Some (y, m));
          m1 \<leftarrow> c_int (m + 1); m3 \<leftarrow> c_int (3 * m1);
          sum \<leftarrow> int_sum 0 [(d, 1), (m, 2), (m3 sdiv 5, 1), (y, 1), (y sdiv 4, 1), (y sdiv 100, -1), (y sdiv 400, 1)];
          let week = sum smod 7;
          Some (if week = 0 then MONDAY else if week = 1 then TUESDAY else if week = 2 then WEDNESDAY
            else if week = 3 then THURSDAY else if week = 4 then FRIDAY else if week = 5 then SATURDAY
            else if week = 6 then SUNDAY else UNDEFINE) }"

text \<open>The day is computed once and kept in the object; the value and the object.\<close>

(* src: datetime_convert.hpp 910-918 DateTimeConvert::day_of_week *)
definition day_of_week :: "date_time \<Rightarrow> (int \<times> date_time) option" where
  "day_of_week d =
     (if \<not> dt_isvalid d then Some (UNDEFINE, d)
      else if dt_day_of_week d = UNDEFINE \<and> dt_style d AND DTS_YMD = DTS_YMD
      then do { w \<leftarrow> caculate_weekday (dt_year d) (dt_month d) (dt_day d); Some (w, d\<lparr>dt_day_of_week := w\<rparr>) }
      else Some (dt_day_of_week d, d))"

(* src: datetime_convert.hpp 926-934 DateTimeConvert::isweekday *)
definition isweekday :: "date_time \<Rightarrow> (bool \<times> date_time) option" where
  "isweekday d =
     (if \<not> dt_isvalid d then Some (False, d)
      else do { w \<leftarrow> (if dt_day_of_week d = UNDEFINE \<and> dt_style d AND DTS_YMD = DTS_YMD
                    then caculate_weekday (dt_year d) (dt_month d) (dt_day d) else Some (dt_day_of_week d));
                Some (w = SUNDAY \<or> w = SATURDAY, d\<lparr>dt_day_of_week := w\<rparr>) })"

(* src: datetime_convert.hpp 937-939 DateTimeConvert::isleapyear *)
definition isleapyear :: "date_time \<Rightarrow> bool" where
  "isleapyear d \<longleftrightarrow> dt_year d smod 4 = 0 \<and> (dt_year d smod 100 \<noteq> 0 \<or> dt_year d smod 400 = 0)"

(* src: datetime_convert.hpp 943-945 DateTimeConvert::days_of_year *)
definition days_of_year :: "date_time \<Rightarrow> int" where
  "days_of_year d = (if isleapyear d then 366 else 365)"

text \<open>A month above 12 reads behind the table.\<close>

(* src: datetime_convert.hpp 949-959 DateTimeConvert::days_of_month *)
definition days_of_month :: "date_time \<Rightarrow> int option" where
  "days_of_month d =
     (if dt_month d < 1 then Some (-1)
      else if dt_month d = 2 \<and> isleapyear d then Some 29
      else if dt_month d > 12 then None
      else Some ([31, 28, 31, 30, 31, 30, 31, 31, 30, 31, 30, 31] ! nat (dt_month d - 1)))"

section \<open>Conversions from and to time\<close>

(* src: datetime_convert.hpp 293-323 DateTimeConvert::FromStdTm *)
definition from_std_tm :: "tm \<Rightarrow> dt_style \<Rightarrow> int \<Rightarrow> int \<Rightarrow> date_time option" where
  "from_std_tm c style millsecond microsecond =
     do { y \<leftarrow> (if has_field style DTS_Year then c_int (tm_year c + 1900) else Some 0);
          m \<leftarrow> (if has_field style DTS_Month then c_int (tm_mon c + 1) else Some 1);
          let ret = new_date_time\<lparr>dt_style := style, dt_year := y, dt_month := m\<rparr>;
          let ret = when_field style DTS_Day (dt_day_update (\<lambda>_. tm_mday c)) ret;
          let ret = when_field style DTS_Hour (dt_hour_update (\<lambda>_. tm_hour c)) ret;
          let ret = when_field style DTS_Min (dt_minute_update (\<lambda>_. tm_min c)) ret;
          let ret = when_field style DTS_Sec (dt_second_update (\<lambda>_. tm_sec c)) ret;
          let ret = ret\<lparr>dt_millsecond := millsecond, dt_microsecond := microsecond, dt_day_of_week := tm_wday c\<rparr>;
          Some (ret\<lparr>dt_isvalid := style \<noteq> 0 \<and> dt_day_of_week ret \<noteq> UNDEFINE \<and> check_dt_valid ret\<rparr>) }"

(* src: datetime_convert.hpp 272-281 DateTimeConvert::FromStdTime *)
definition from_std_time :: "int \<Rightarrow> int \<Rightarrow> dt_style \<Rightarrow> int \<Rightarrow> int \<Rightarrow> date_time option" where
  "from_std_time tz dt style millsecond microsecond =
     do { c \<leftarrow> localtime tz dt; from_std_tm c style millsecond microsecond }"

(* src: datetime_convert.hpp 283-286 DateTimeConvert::FromUnixTime *)
definition from_unix_time :: "int \<Rightarrow> u64 \<Rightarrow> date_time option" where
  "from_unix_time tz unix_dt = from_std_time tz (sint unix_dt) DTS_YMDHMS 0 0"

(* src: datetime_convert.hpp 288-291 DateTimeConvert::FromUnixTimeMs *)
definition from_unix_time_ms :: "int \<Rightarrow> u64 \<Rightarrow> date_time option" where
  "from_unix_time_ms tz unix_dt =
     from_std_time tz (sint (unix_dt div 1000)) DTS_YMDHMS_M (to_int32 (uint (unix_dt mod 1000))) 0"

text \<open>A time point is its nanoseconds since the epoch.\<close>

(* src: datetime_convert.hpp 325-341 DateTimeConvert::FromTimePoint *)
definition from_time_point :: "int \<Rightarrow> int \<Rightarrow> dt_style \<Rightarrow> date_time option" where
  "from_time_point tz ns style =
     (let time = ns sdiv 1000000000;
          millsecond = (if has_field style DTS_mSec then (ns sdiv 1000000) smod 1000 else 0);
          microsecond = (if has_field style DTS_uSec then (ns sdiv 1000) smod 1000 else 0)
      in from_std_time tz time style millsecond microsecond)"

(* src: datetime_convert.hpp 814-825 DateTimeConvert::to_tm *)
definition to_tm :: "date_time \<Rightarrow> tm option" where
  "to_tm d =
     do { y \<leftarrow> c_int (dt_year d - 1900); m \<leftarrow> c_int (dt_month d - 1);
          Some \<lparr>tm_year = y, tm_mon = m, tm_mday = dt_day d, tm_hour = dt_hour d, tm_min = dt_minute d, tm_sec = dt_second d,
            tm_wday = dt_day_of_week d\<rparr> }"

(* src: datetime_convert.hpp 828-831 DateTimeConvert::to_time_t *)
definition to_time_t :: "int \<Rightarrow> date_time \<Rightarrow> int option" where
  "to_time_t tz d = map_option (mktime tz) (to_tm d)"

(* src: datetime_convert.hpp 834-837 DateTimeConvert::to_unix_time_ms *)
definition to_unix_time_ms :: "int \<Rightarrow> date_time \<Rightarrow> u64 option" where
  "to_unix_time_ms tz d = map_option (\<lambda>t. of_int t * 1000 + of_int (dt_millsecond d)) (to_time_t tz d)"

datatype dt_error = Invalid_date_time

(* src: datetime_convert.hpp 878-892 DateTimeConvert::to_system_time_point *)
definition to_system_time_point :: "int \<Rightarrow> date_time \<Rightarrow> (dt_error + int) option" where
  "to_system_time_point tz d =
     (if \<not> dt_isvalid d \<or> dt_style d AND DTS_YMDHMS \<noteq> DTS_YMDHMS then Some (Inl Invalid_date_time)
      else do { t \<leftarrow> to_time_t tz d; r \<leftarrow> c_ll (t * 1000000000);
                r \<leftarrow> (if has_field (dt_style d) DTS_mSec then c_ll (r + dt_millsecond d * 1000000) else Some r);
                r \<leftarrow> (if has_field (dt_style d) DTS_uSec then c_ll (r + dt_microsecond d * 1000) else Some r);
                Some (Inr r) })"

section \<open>Differences\<close>

text \<open>A difference of two numbers of seconds with their milliseconds and microseconds, from the left.\<close>

definition micro_difference :: "int \<Rightarrow> date_time \<Rightarrow> int \<Rightarrow> date_time \<Rightarrow> int option" where
  "micro_difference l a r b =
     do { l \<leftarrow> c_ll (l * 1000); l \<leftarrow> c_ll (l * 1000); lm \<leftarrow> c_int (dt_millsecond a * 1000);
          r \<leftarrow> c_ll (r * 1000); r \<leftarrow> c_ll (r * 1000); rm \<leftarrow> c_int (dt_millsecond b * 1000);
          x \<leftarrow> c_ll (l + lm); x \<leftarrow> c_ll (x + dt_microsecond a); x \<leftarrow> c_ll (x - r); x \<leftarrow> c_ll (x - rm);
          c_ll (x - dt_microsecond b) }"

(* src: datetime_convert.hpp 541-557 DateTimeConvert::operator- *)
definition dt_minus :: "int \<Rightarrow> date_time \<Rightarrow> date_time \<Rightarrow> (dt_error + int) option" where
  "dt_minus tz a b =
     (if \<not> dt_isvalid a \<or> \<not> dt_isvalid b \<or> dt_style a \<noteq> dt_style b then Some (Inl Invalid_date_time)
      else map_option Inr
        (if dt_style a AND DTS_YMD \<noteq> DTS_YMD \<and> dt_style a AND DTS_HMS = DTS_HMS
         then do { l \<leftarrow> int_sum 0 [(dt_hour a, 3600), (dt_minute a, 60), (dt_second a, 1)];
                   r \<leftarrow> int_sum 0 [(dt_hour b, 3600), (dt_minute b, 60), (dt_second b, 1)];
                   micro_difference l a r b }
         else do { l \<leftarrow> to_time_t tz a; r \<leftarrow> to_time_t tz b; micro_difference l a r b }))"

(* src: datetime_convert.hpp 594-604 DateTimeConvert::GetDateSpace *)
definition get_date_space :: "int \<Rightarrow> date_time \<Rightarrow> date_time \<Rightarrow> int option" where
  "get_date_space tz a b =
     (if \<not> dt_isvalid a \<or> \<not> dt_isvalid b \<or> dt_style a \<noteq> dt_style b \<or> dt_style a AND DTS_YMD \<noteq> DTS_YMD then Some (-1)
      else do { l \<leftarrow> to_time_t tz a; r \<leftarrow> to_time_t tz b; x \<leftarrow> c_ll (l - r);
                Some (to_int32 (\<bar>x\<bar> sdiv (60 * 60 * 24))) })"

(* src: datetime_convert.hpp 609-611 DateTimeConvert::GetSecondSpace *)
definition get_second_space :: "int \<Rightarrow> date_time \<Rightarrow> date_time \<Rightarrow> (dt_error + int) option" where
  "get_second_space tz a b = map_option (map_sum id (\<lambda>x. (\<bar>x\<bar> sdiv 1000) sdiv 1000)) (dt_minus tz a b)"

(* src: datetime_convert.hpp 616-618 DateTimeConvert::GetMillSecondSpace *)
definition get_mill_second_space :: "int \<Rightarrow> date_time \<Rightarrow> date_time \<Rightarrow> (dt_error + int) option" where
  "get_mill_second_space tz a b = map_option (map_sum id (\<lambda>x. \<bar>x\<bar> sdiv 1000)) (dt_minus tz a b)"

(* src: datetime_convert.hpp 623-625 DateTimeConvert::GetMicroSecondSpace *)
definition get_micro_second_space :: "int \<Rightarrow> date_time \<Rightarrow> date_time \<Rightarrow> (dt_error + int) option" where
  "get_micro_second_space tz a b = map_option (map_sum id (\<lambda>x. \<bar>x\<bar>)) (dt_minus tz a b)"

section \<open>Additions\<close>

(* src: datetime_convert.hpp 696-702 DateTimeConvert::get_add_second *)
definition get_add_second :: "int \<Rightarrow> int \<Rightarrow> date_time \<Rightarrow> date_time option" where
  "get_add_second tz secs d =
     (if \<not> dt_isvalid d then Some new_date_time
      else do { t \<leftarrow> to_time_t tz d; t \<leftarrow> c_ll (t + secs); from_std_time tz t (dt_style d) 0 0 })"

text \<open>The number of days is an int, and so are the products with it.\<close>

(* src: datetime_convert.hpp 687-692 DateTimeConvert::get_add_date *)
definition get_add_date :: "int \<Rightarrow> int \<Rightarrow> date_time \<Rightarrow> date_time option" where
  "get_add_date tz days d =
     (if \<not> dt_isvalid d \<or> dt_style d AND DTS_YMD \<noteq> DTS_YMD then Some new_date_time
      else do { h \<leftarrow> c_int (days * 24); m \<leftarrow> c_int (h * 60); s \<leftarrow> c_int (m * 60); get_add_second tz s d })"

(* src: datetime_convert.hpp 706-717 DateTimeConvert::get_add_millsecond *)
definition get_add_millsecond :: "int \<Rightarrow> int \<Rightarrow> date_time \<Rightarrow> date_time option" where
  "get_add_millsecond tz millsecs d =
     (if \<not> dt_isvalid d then Some new_date_time
      else do { x \<leftarrow> c_ll (millsecs + dt_millsecond d);
                let res_millsec = to_int32 x;
                let secs = res_millsec sdiv 1000;
                let millsecs = millsecs smod 1000;
                t \<leftarrow> to_time_t tz d; t \<leftarrow> c_ll (t + secs);
                from_std_time tz t (dt_style d) (to_int32 millsecs) 0 })"

(* src: datetime_convert.hpp 662-668 DateTimeConvert::add_date *)
definition add_date :: "int \<Rightarrow> int \<Rightarrow> date_time \<Rightarrow> date_time option" where
  "add_date tz days d =
     (if \<not> dt_isvalid d \<or> dt_style d AND DTS_YMD \<noteq> DTS_YMD then Some d
      else map_option (dt_day_of_week_update (\<lambda>_. UNDEFINE)) (get_add_date tz days d))"

(* src: datetime_convert.hpp 672-677 DateTimeConvert::add_second *)
definition add_second :: "int \<Rightarrow> int \<Rightarrow> date_time \<Rightarrow> date_time option" where
  "add_second tz secs d =
     (if \<not> dt_isvalid d then Some d else map_option (dt_day_of_week_update (\<lambda>_. UNDEFINE)) (get_add_second tz secs d))"

(* src: datetime_convert.hpp 678-683 DateTimeConvert::add_millsecond *)
definition add_millsecond :: "int \<Rightarrow> int \<Rightarrow> date_time \<Rightarrow> date_time option" where
  "add_millsecond tz msecs d =
     (if \<not> dt_isvalid d then Some d else map_option (dt_day_of_week_update (\<lambda>_. UNDEFINE)) (get_add_millsecond tz msecs d))"

section \<open>The calendar's arithmetic\<close>

lemma div_step: "0 < k \<Longrightarrow> y div k = (y - 1) div k + (if k dvd y then 1 else (0::int))"
proof (cases "k dvd y")
  case True
  assume "0 < k"
  obtain q where "y = k * q" using True by blast
  moreover have "(k * q - 1) div k = q - 1"
    by (rule int_div_pos_eq [of _ _ _ "k - 1"]) (use \<open>0 < k\<close> in \<open>simp_all add: algebra_simps\<close>)
  ultimately show ?thesis using \<open>0 < k\<close> by simp
next
  case False
  assume "0 < k"
  then have m: "0 < y mod k" "y mod k < k" using False pos_mod_bound [of k y] pos_mod_sign [of k y] by (auto simp: dvd_eq_mod_eq_0 less_le)
  have "(y - 1) div k = y div k"
    by (rule int_div_pos_eq [of _ _ _ "y mod k - 1"]) (use m in simp_all)
  then show ?thesis using False by simp
qed

lemma leaps_step:
  "a = a' + (if p then 1 else 0) \<Longrightarrow> b = b' + (if q then 1 else 0) \<Longrightarrow> c = c' + (if r then 1 else 0) \<Longrightarrow>
    q \<longrightarrow> p \<Longrightarrow> r \<longrightarrow> q \<Longrightarrow> a - b + c = a' - b' + c' + (if p \<and> (\<not> q \<or> r) then 1 else (0::int))"
  by (cases p; cases q; cases r) simp_all

lemma leaps_Suc: "leaps y = leaps (y - 1) + (if leap y then 1 else 0)"
proof -
  define p where "p \<longleftrightarrow> 4 dvd y"
  define q where "q \<longleftrightarrow> 100 dvd y"
  define r where "r \<longleftrightarrow> 400 dvd y"
  have "(4::int) dvd 100" "(100::int) dvd 400" by simp_all
  then have qp: "q \<longrightarrow> p" and rq: "r \<longrightarrow> q"
    unfolding p_def q_def r_def using dvd_trans [of 4 100 y] dvd_trans [of 100 400 y] by simp_all
  have A: "y div 4 = (y - 1) div 4 + (if p then 1 else 0)" unfolding p_def by (rule div_step) simp
  have B: "y div 100 = (y - 1) div 100 + (if q then 1 else 0)" unfolding q_def by (rule div_step) simp
  have C: "y div 400 = (y - 1) div 400 + (if r then 1 else 0)" unfolding r_def by (rule div_step) simp
  have L: "leap y \<longleftrightarrow> p \<and> (\<not> q \<or> r)" unfolding leap_def p_def q_def r_def by (rule refl)
  show ?thesis unfolding leaps_def L by (rule leaps_step [OF A B C qp rq])
qed

lemma days_before_next_year: "days_before_year (y + 1) = days_before_year y + year_days y"
  using leaps_Suc [of y] by (simp add: days_before_year_def year_days_def algebra_simps)

lemma find_year_correct:
  "find_year n y = (y', n') \<Longrightarrow> days_before_year y' + n' = days_before_year y + n \<and> 0 \<le> n' \<and> n' < year_days y'"
proof (induction n y rule: find_year.induct)
  case (1 n y)
  consider "n < 0" | "year_days y \<le> n" "\<not> n < 0" | "0 \<le> n" "n < year_days y" by linarith
  then show ?case
  proof cases
    case 1
    then show ?thesis using "1.IH"(1) "1.prems" days_before_next_year [of "y - 1"] by (simp add: find_year.simps [of n y])
  next
    case 2
    then show ?thesis using "1.IH"(2) "1.prems" days_before_next_year [of y] by (simp add: find_year.simps [of n y])
  next
    case 3
    then show ?thesis using "1.prems" by (simp add: find_year.simps [of n y])
  qed
qed

lemma find_month_correct:
  "find_month ls n m = (m', n') \<Longrightarrow> 0 \<le> n \<Longrightarrow> n < sum_list ls \<Longrightarrow> \<forall>l \<in> set ls. 0 < l \<Longrightarrow>
    \<exists>k < length ls. m' = m + int k \<and> n = sum_list (take k ls) + n' \<and> 0 \<le> n'"
proof (induction ls n m rule: find_month.induct)
  case (2 l ls n m)
  show ?case
  proof (cases "n < l")
    case False
    then obtain k where "k < length ls" "m' = m + 1 + int k" "n - l = sum_list (take k ls) + n'" "0 \<le> n'"
      using 2 by auto
    then show ?thesis by (intro exI [of _ "Suc k"]) auto
  qed (use 2 in auto)
qed simp

lemma month_lens_sum: "sum_list (month_lens y) = year_days y" "length (month_lens y) = 12" "\<forall>l \<in> set (month_lens y). 0 < l"
  by (simp_all add: month_lens_def year_days_def)

text \<open>What localtime returns, mktime takes back.\<close>

lemma localtime_fields:
  assumes "localtime tz t = Some c"
  shows "mktime tz c = t" "0 \<le> tm_mon c" "tm_mon c < 12" "1 \<le> tm_mday c" "0 \<le> tm_hour c" "0 \<le> tm_min c" "0 \<le> tm_sec c"
    "0 \<le> tm_wday c" "- (2 ^ 31) \<le> tm_year c" "tm_year c < 2 ^ 31"
proof -
  define s where "s = t + tz"
  define days where "days = s div 86400"
  define r where "r = s mod 86400"
  obtain y yday where fy: "find_year days 1970 = (y, yday)" by fastforce
  obtain mon mday where fm: "find_month (month_lens y) yday 0 = (mon, mday)" by fastforce
  have c: "c = \<lparr>tm_year = y - 1900, tm_mon = mon, tm_mday = mday + 1, tm_hour = r div 3600, tm_min = r mod 3600 div 60,
      tm_sec = r mod 60, tm_wday = (days + 4) mod 7\<rparr>" and Y: "- (2 ^ 31) \<le> y - 1900" "y - 1900 < 2 ^ 31"
    using assms fy fm by (auto simp: localtime_def Let_def s_def days_def r_def c_int_def split: if_splits)
  have dy: "days_before_year y + yday = days" "0 \<le> yday" "yday < year_days y"
    using find_year_correct [OF fy] by (simp_all add: days_before_year_def)
  then obtain k where k: "k < 12" "mon = int k" "yday = sum_list (take k (month_lens y)) + mday" "0 \<le> mday"
    using find_month_correct [OF fm] month_lens_sum [of y] by auto
  have r: "0 \<le> r" "r < 86400" by (simp_all add: r_def)
  have sec: "r div 3600 * 3600 + r mod 3600 div 60 * 60 + r mod 60 = r" 
  proof -
    have "r div 3600 * 3600 + r mod 3600 = r" by (rule div_mult_mod_eq)
    moreover have "r mod 3600 div 60 * 60 + r mod 3600 mod 60 = r mod 3600" by (rule div_mult_mod_eq)
    moreover have "r mod 3600 mod 60 = r mod 60" by (rule mod_mod_cancel) simp
    ultimately show ?thesis by linarith
  qed
  have sr: "days * 86400 + r = s" by (simp add: days_def r_def)
  have "(y - 1900) + 1900 + mon div 12 = y" "nat (mon mod 12) = k" using k(1,2) by simp_all
  then have days': "days_before_year (tm_year c + 1900 + tm_mon c div 12) +
      sum_list (take (nat (tm_mon c mod 12)) (month_lens (tm_year c + 1900 + tm_mon c div 12))) + (tm_mday c - 1) = days"
    using k(3) dy(1) by (simp add: c)
  show "mktime tz c = t"
  proof -
    have "days * 86400 + tm_hour c * 3600 + tm_min c * 60 + tm_sec c - tz = t"
      using sec sr by (simp add: c s_def)
    then show ?thesis unfolding mktime_def Let_def days' using assms by simp
  qed
  show "0 \<le> tm_mon c" "tm_mon c < 12" "1 \<le> tm_mday c" using k by (simp_all add: c)
  show "0 \<le> tm_hour c" "0 \<le> tm_min c" "0 \<le> tm_sec c" "0 \<le> tm_wday c" using r
    by (simp_all add: c pos_imp_zdiv_nonneg_iff)
  show "- (2 ^ 31) \<le> tm_year c" "tm_year c < 2 ^ 31" using Y by (simp_all add: c)
qed

section \<open>Additions of seconds\<close>

definition full_style :: "dt_style \<Rightarrow> bool" where
  "full_style st \<longleftrightarrow> (\<forall>f \<in> {DTS_Year, DTS_Month, DTS_Day, DTS_Hour, DTS_Min, DTS_Sec}. has_field st f)"

lemma full_style_nonzero: "full_style st \<Longrightarrow> st \<noteq> 0"
  by (auto simp: full_style_def has_field_def)

text \<open>A time converted to a date with all the fields of date and time is the time of that date.\<close>

lemma from_std_time_correct:
  assumes "full_style st" "from_std_time tz t st ms us = Some r"
  shows "to_time_t tz r = Some t" "dt_style r = st" "dt_millsecond r = ms" "dt_microsecond r = us"
    "dt_isvalid r \<longleftrightarrow> 1900 \<le> dt_year r \<and> 0 \<le> ms \<and> 0 \<le> us"
proof -
  obtain c where c: "localtime tz t = Some c" "from_std_tm c st ms us = Some r"
    using assms(2) by (auto simp: from_std_time_def bind_Some_iff)
  note L = localtime_fields [OF c(1)]
  have r: "dt_year r = tm_year c + 1900" "dt_month r = tm_mon c + 1" "dt_day r = tm_mday c" "dt_hour r = tm_hour c"
    "dt_minute r = tm_min c" "dt_second r = tm_sec c" "dt_millsecond r = ms" "dt_microsecond r = us" "dt_style r = st"
    "dt_day_of_week r = tm_wday c" "dt_isvalid r \<longleftrightarrow> st \<noteq> 0 \<and> tm_wday c \<noteq> UNDEFINE \<and> check_dt_valid r"
    "- (2 ^ 31) \<le> tm_year c + 1900" "tm_year c + 1900 < 2 ^ 31"
    using c(2) assms(1) L(2,3)
    by (auto simp: from_std_tm_def full_style_def when_field_def Let_def c_int_def check_dt_valid_def bind_Some_iff split: if_splits)
  have "to_tm r = Some c" using L(2,3,9,10) by (simp add: to_tm_def r)
  then show "to_time_t tz r = Some t" using L(1) by (simp add: to_time_t_def)
  show "dt_style r = st" "dt_millsecond r = ms" "dt_microsecond r = us" by (fact r)+
  show "dt_isvalid r \<longleftrightarrow> 1900 \<le> dt_year r \<and> 0 \<le> ms \<and> 0 \<le> us"
    using L full_style_nonzero [OF assms(1)] by (auto simp: r check_dt_valid_def UNDEFINE_def)
qed

lemma leaps_mono: "leaps y \<le> leaps (y + int k)"
proof (induction k)
  case (Suc k)
  have "leaps (y + int (Suc k)) = leaps (y + int k) + (if leap (y + int (Suc k)) then 1 else 0)"
    using leaps_Suc [of "y + int (Suc k)"] by (simp add: algebra_simps)
  then show ?case using Suc by simp
qed simp

lemma find_year_bound:
  assumes "find_year n 1970 = (y, yday)" "\<bar>n\<bar> \<le> 365000000000"
  shows "\<bar>y - 1970\<bar> \<le> 1000000002"
proof -
  have e: "365 * (y - 1970) + leaps (y - 1) - leaps 1969 + yday = n" "0 \<le> yday" "yday < 366"
    using find_year_correct [OF assms(1)] by (auto simp: days_before_year_def year_days_def split: if_splits)
  have n: "- 365000000000 \<le> n" "n \<le> 365000000000" using assms(2) by (simp_all add: abs_le_iff)
  show ?thesis
  proof (cases "1970 \<le> y")
    case True
    then have "leaps 1969 \<le> leaps (y - 1)" using leaps_mono [of 1969 "nat (y - 1970)"] by simp
    then show ?thesis using e n True by (simp add: abs_le_iff)
  next
    case False
    then have "leaps (y - 1) \<le> leaps 1969" using leaps_mono [of "y - 1" "nat (1970 - y)"] by simp
    then show ?thesis using e n False by (simp add: abs_le_iff)
  qed
qed

lemma localtime_in_range:
  assumes "\<bar>t + tz\<bar> \<le> 31536000000000000"
  shows "\<exists>c. localtime tz t = Some c \<and> 0 \<le> tm_year c + 1000002000 \<and> tm_year c \<le> 1000002000"
proof -
  obtain y yday where fy: "find_year ((t + tz) div 86400) 1970 = (y, yday)" by fastforce
  have "(t + tz) div 86400 \<le> 31536000000000000 div 86400" "(- 31536000000000000) div 86400 \<le> (t + tz) div 86400"
    by (rule zdiv_mono1; use assms in linarith)+
  then have "\<bar>(t + tz) div 86400\<bar> \<le> 365000000000" by (simp add: abs_le_iff)
  then have "\<bar>y - 1970\<bar> \<le> 1000000002" using fy by (rule find_year_bound [rotated])
  then have "- 1000000002 \<le> y - 1970" "y - 1970 \<le> 1000000002" by (simp_all add: abs_le_iff)
  then show ?thesis by (simp add: localtime_def Let_def fy split: prod.splits)
qed

lemma from_std_time_exists:
  assumes "full_style st" "\<bar>t + tz\<bar> \<le> 31536000000000000"
  shows "\<exists>r. from_std_time tz t st ms us = Some r"
proof -
  obtain c where c: "localtime tz t = Some c" "0 \<le> tm_year c + 1000002000" "tm_year c \<le> 1000002000"
    using localtime_in_range [OF assms(2)] by blast
  then show ?thesis using assms(1) localtime_fields(2,3) [OF c(1)]
    by (simp add: from_std_time_def from_std_tm_def Let_def)
qed

text \<open>Adding seconds to a date moves its time by exactly as many seconds. For a valid date with all the
  fields of date and time, in a time zone with a fixed offset, and results within a thousand million
  years, the date returned is the one whose time_t is the sum; it has the same style, it is valid
  unless it lies before 1900, and its milliseconds and microseconds are 0, whatever they were.\<close>

theorem date_add_seconds:
  assumes "dt_isvalid d" "full_style (dt_style d)" "to_time_t tz d = Some t"
    and "\<bar>t + s + tz\<bar> \<le> 31536000000000000" "\<bar>tz\<bar> \<le> 86400"
  shows "\<exists>r. get_add_second tz s d = Some r \<and> to_time_t tz r = Some (t + s) \<and> dt_style r = dt_style d \<and>
    dt_isvalid r = (1900 \<le> dt_year r) \<and> dt_millsecond r = 0 \<and> dt_microsecond r = 0"
proof -
  obtain r where r: "from_std_time tz (t + s) (dt_style d) 0 0 = Some r"
    using from_std_time_exists [OF assms(2,4)] by blast
  have "get_add_second tz s d = Some r" using assms r by (simp add: get_add_second_def)
  then show ?thesis using from_std_time_correct [OF assms(2) r] by auto
qed

definition sample_day :: date_time where
  "sample_day = new_date_time\<lparr>dt_style := DTS_YMDHMS_M, dt_isvalid := True, dt_year := 1972, dt_month := 2, dt_day := 28,
     dt_hour := 23, dt_millsecond := 500\<rparr>"

lemma year_days_70: "year_days 1970 = 365" "year_days 1971 = 365" "year_days 1972 = 366"
  by (simp_all add: year_days_def leap_def)

lemma sample_day_time: "to_time_t 28800 sample_day = Some 68137200"
  by (simp add: to_time_t_def to_tm_def sample_day_def new_date_time_def mktime_def Let_def days_before_year_def leaps_def
      month_lens_def leap_def localtime_def find_year.simps [of _ 1970] find_year.simps [of _ 1971] find_year.simps [of _ 1972]
      year_days_70 numeral_2_eq_2 eval_nat_numeral take_Cons')

lemma sample_day_full: "full_style (dt_style sample_day)" "dt_isvalid sample_day"
  by (simp_all add: full_style_def sample_day_def)

theorem date_add_seconds_witness:
  "\<exists>r. get_add_second 28800 3600 sample_day = Some r \<and> to_time_t 28800 r = Some 68140800"
  using date_add_seconds [OF sample_day_full(2,1) sample_day_time, of 3600] by auto

text \<open>The number of seconds is computed as an int: at most 24855 days can be added.\<close>

lemma get_add_date_seconds:
  assumes "dt_isvalid d" "full_style (dt_style d)" "\<bar>days\<bar> \<le> 24855" "dt_style d AND DTS_YMD = DTS_YMD"
  shows "get_add_date tz days d = get_add_second tz (86400 * days) d"
  using assms by (simp add: get_add_date_def abs_le_iff)

lemma get_add_date_overflow:
  assumes "dt_isvalid d" "dt_style d AND DTS_YMD = DTS_YMD" "24855 < days"
  shows "get_add_date tz days d = None"
  using assms by (simp add: get_add_date_def c_int_def)

text \<open>Adding milliseconds loses those the date has. The sum is right exactly if the date's own milliseconds
  are 0: the seconds are computed with them, but the milliseconds of the result are those of the
  number added.\<close>

theorem date_add_milliseconds:
  assumes "dt_isvalid d" "full_style (dt_style d)" "to_time_t tz d = Some t"
    and "\<bar>t + tz\<bar> \<le> 31535000000000000" "\<bar>tz\<bar> \<le> 86400"
    and "0 \<le> k" "k \<le> 2000000000" "0 \<le> dt_millsecond d" "dt_millsecond d < 1000"
  shows "\<exists>r t'. get_add_millsecond tz k d = Some r \<and> to_time_t tz r = Some t' \<and> dt_millsecond r = k mod 1000 \<and>
    (t' * 1000 + dt_millsecond r = t * 1000 + dt_millsecond d + k) = (dt_millsecond d = 0)"
proof -
  define secs where "secs = (k + dt_millsecond d) div 1000"
  have m: "1000 * secs + (k + dt_millsecond d) mod 1000 = k + dt_millsecond d" by (simp add: secs_def)
  have secs: "0 \<le> secs" "secs \<le> 3000000"
    using m assms(6-9) pos_mod_sign [of 1000 "k + dt_millsecond d"] pos_mod_bound [of 1000 "k + dt_millsecond d"] by linarith+
  have kmod: "0 \<le> k mod 1000" "k mod 1000 < 1000" by simp_all
  obtain r where r: "from_std_time tz (t + secs) (dt_style d) (k mod 1000) 0 = Some r"
    using from_std_time_exists [OF assms(2), of "t + secs" tz] assms(4) secs by fastforce
  have ll: "c_ll (k + dt_millsecond d) = Some (k + dt_millsecond d)" "c_ll (t + secs) = Some (t + secs)"
    "to_int32 (k + dt_millsecond d) = k + dt_millsecond d" "to_int32 (k mod 1000) = k mod 1000"
    using assms(4-9) secs kmod by simp_all
  have sd: "(k + dt_millsecond d) sdiv 1000 = secs" "k smod 1000 = k mod 1000"
    using assms(6,8) by (simp_all add: secs_def)
  have g: "get_add_millsecond tz k d = Some r"
    unfolding get_add_millsecond_def Let_def using assms(1,3) by (simp add: ll sd r)
  have "(k + dt_millsecond d) mod 1000 = k mod 1000 \<longleftrightarrow> dt_millsecond d = 0"
    using assms(8,9) zdvd_not_zless [of "dt_millsecond d" 1000] by (auto simp: mod_eq_dvd_iff)
  then have "((t + secs) * 1000 + k mod 1000 = t * 1000 + dt_millsecond d + k) = (dt_millsecond d = 0)"
    using m by (auto simp: algebra_simps)
  then show ?thesis using g from_std_time_correct [OF assms(2) r] by auto
qed

theorem date_add_milliseconds_witness:
  "\<exists>r t'. get_add_millsecond 28800 700 sample_day = Some r \<and> to_time_t 28800 r = Some t' \<and>
    t' * 1000 + dt_millsecond r \<noteq> 68137200 * 1000 + 500 + 700"
  using date_add_milliseconds [OF sample_day_full(2,1) sample_day_time, of 700] by (auto simp: sample_day_def)

section \<open>The day of the week\<close>

text \<open>The calendar day by day, from Monday the first of January 1900.\<close>

definition next_day :: "int \<times> int \<times> int \<Rightarrow> int \<times> int \<times> int" where
  "next_day = (\<lambda>(y, m, d). if d < month_lens y ! nat (m - 1) then (y, m, d + 1)
     else if m < 12 then (y, m + 1, 1) else (y + 1, 1, 1))"

definition week_sum :: "int \<Rightarrow> int \<Rightarrow> int \<Rightarrow> int" where
  "week_sum y m d = (if m \<le> 2 then d + 2 * (m + 12) + 3 * (m + 13) div 5 + (y - 1) + leaps (y - 1)
     else d + 2 * m + 3 * (m + 1) div 5 + y + leaps y)"

definition valid_day :: "int \<times> int \<times> int \<Rightarrow> bool" where
  "valid_day = (\<lambda>(y, m, d). 1900 \<le> y \<and> 1 \<le> m \<and> m \<le> 12 \<and> 1 \<le> d \<and> d \<le> month_lens y ! nat (m - 1))"

lemma months_cases: "1 \<le> m \<Longrightarrow> m \<le> 12 \<Longrightarrow> m \<in> {1, 2, 3, 4, 5, 6, 7, 8, 9, 10, 11, 12 :: int}"
  by (simp only: insert_iff empty_iff) presburger

lemma next_day_step:
  assumes "valid_day (y, m, d)" "next_day (y, m, d) = (y', m', d')"
  shows "valid_day (y', m', d') \<and> week_sum y' m' d' mod 7 = (week_sum y m d + 1) mod 7"
proof -
  have m: "m \<in> {1, 2, 3, 4, 5, 6, 7, 8, 9, 10, 11, 12}" using assms(1) months_cases by (simp add: valid_day_def)
  show ?thesis
  proof (cases "d < month_lens y ! nat (m - 1)")
    case True
    then show ?thesis using assms by (auto simp: next_day_def valid_day_def week_sum_def algebra_simps)
  next
    case False
    then have d: "d = month_lens y ! nat (m - 1)" using assms(1) by (simp add: valid_day_def)
    have "valid_day (y', m', d')" using assms False m
      by (auto simp: next_day_def valid_day_def month_lens_def split: if_splits)
    moreover have "week_sum y' m' d' = week_sum y m d + 1 - 28 \<or> week_sum y' m' d' = week_sum y m d + 1 - 56"
      using assms(2) False m d leaps_Suc [of y] by (auto simp: next_day_def week_sum_def month_lens_def)
    ultimately show ?thesis by (auto simp: mod_eq_dvd_iff)
  qed
qed

lemma day_number:
  "(next_day ^^ n) (1900, 1, 1) = (y, m, d) \<Longrightarrow> valid_day (y, m, d) \<and> week_sum y m d mod 7 = int n mod 7"
proof (induction n arbitrary: y m d)
  case 0
  then show ?case by (auto simp: valid_day_def month_lens_def week_sum_def leaps_def)
next
  case (Suc n)
  obtain y0 m0 d0 where p: "(next_day ^^ n) (1900, 1, 1) = (y0, m0, d0)" by (metis prod_cases3)
  then have "next_day (y0, m0, d0) = (y, m, d)" using Suc(2) by simp
  then show ?case using next_day_step [of y0 m0 d0 y m d] Suc(1) [OF p]
      mod_add_left_eq [of "week_sum y0 m0 d0" 7 1] mod_add_left_eq [of "int n" 7 1] by (simp add: add.commute)
qed

lemma int_sum_week:
  assumes "0 \<le> d" "d \<le> 100" "0 \<le> m" "m \<le> 100" "0 \<le> k" "k \<le> 100" "0 \<le> y" "y \<le> 1000000000" "0 \<le> a" "a \<le> y" "0 \<le> b" "b \<le> a"
    "0 \<le> c" "c \<le> b"
  shows "int_sum 0 [(d, 1), (m, 2), (k, 1), (y, 1), (a, 1), (b, -1), (c, 1)] = Some (d + 2 * m + k + y + (a - b + c))"
  using assms by simp

lemma div_le_div: "0 \<le> y \<Longrightarrow> 0 < j \<Longrightarrow> j \<le> k \<Longrightarrow> (y::int) div k \<le> y div j"
  by (rule zdiv_mono2)

lemma week_name:
  "0 \<le> w \<Longrightarrow> w < 7 \<Longrightarrow> (if w = 0 then MONDAY else if w = 1 then TUESDAY else if w = 2 then WEDNESDAY
     else if w = 3 then THURSDAY else if w = 4 then FRIDAY else if w = 5 then SATURDAY
     else if w = 6 then SUNDAY else UNDEFINE) = (w + 1) mod 7"
proof -
  assume "0 \<le> w" "w < 7"
  then have "w = 0 \<or> w = 1 \<or> w = 2 \<or> w = 3 \<or> w = 4 \<or> w = 5 \<or> w = 6" by presburger
  then show ?thesis by (elim disjE) (simp_all add: weekday_defs)
qed

lemma caculate_weekday_sum:
  assumes "valid_day (y, m, d)" "y \<le> 1000000000"
  shows "caculate_weekday y m d = Some ((week_sum y m d + 1) mod 7)"
proof -
  have m: "1 \<le> m" "m \<le> 12" "1900 \<le> y" "1 \<le> d" using assms(1) by (simp_all add: valid_day_def)
  have d: "d \<le> 100" using assms(1) months_cases [OF m(1,2)] by (auto simp: valid_day_def month_lens_def split: if_splits)
  define m2 where "m2 = (if m \<le> 2 then m + 12 else m)"
  define y2 where "y2 = (if m \<le> 2 then y - 1 else y)"
  have b: "1 \<le> m2" "m2 \<le> 14" "0 \<le> y2" "y2 \<le> 1000000000" using m assms(2) by (auto simp: m2_def y2_def)
  define k where "k = 3 * (m2 + 1) div 5"
  define a4 where "a4 = y2 div 4"
  define a100 where "a100 = y2 div 100"
  define a400 where "a400 = y2 div 400"
  have k: "0 \<le> k" "k \<le> 100"
    unfolding k_def using b div_le_div [of "3 * (m2 + 1)" 1 5] by (simp_all add: pos_imp_zdiv_nonneg_iff)
  have ds: "0 \<le> a4" "a4 \<le> y2" "0 \<le> a100" "a100 \<le> a4" "0 \<le> a400" "a400 \<le> a100"
    unfolding a4_def a100_def a400_def
    using b div_le_div [of y2 4 100] div_le_div [of y2 100 400] div_le_div [of y2 1 4] by (simp_all add: pos_imp_zdiv_nonneg_iff)
  have W: "week_sum y m d = d + 2 * m2 + k + y2 + (a4 - a100 + a400)"
    by (simp add: week_sum_def leaps_def m2_def y2_def k_def a4_def a100_def a400_def add.commute)
  have S: "int_sum 0 [(d, 1), (m2, 2), (k, 1), (y2, 1), (a4, 1), (a100, -1), (a400, 1)] = Some (week_sum y m d)"
    unfolding W by (rule int_sum_week) (use b k ds m d in simp_all)
  have pos: "0 \<le> week_sum y m d" unfolding W using m b ds k by simp
  have start: "(if m = 1 \<or> m = 2 then do { m' \<leftarrow> c_int (m + 12); y' \<leftarrow> c_int (y - 1); Some (y', m') } else Some (y, m)) = Some (y2, m2)"
    using m assms(2) by (auto simp: m2_def y2_def)
  have sd: "(3 * (m2 + 1)) sdiv 5 = k" "y2 sdiv 4 = a4" "y2 sdiv 100 = a100" "y2 sdiv 400 = a400"
    "week_sum y m d smod 7 = week_sum y m d mod 7"
    unfolding k_def a4_def a100_def a400_def using b pos by simp_all
  have c: "c_int (m2 + 1) = Some (m2 + 1)" "c_int (3 * (m2 + 1)) = Some (3 * (m2 + 1))" using b by simp_all
  have "caculate_weekday y m d = Some ((week_sum y m d mod 7 + 1) mod 7)"
    unfolding caculate_weekday_def start bind.bind_lunit prod.case c sd S Let_def
    by (simp only: week_name [OF pos_mod_sign pos_mod_bound] zero_less_numeral)
  then show ?thesis by (simp add: mod_simps)
qed

text \<open>C8: The formula for the day of the week agrees with the calendar. Counting the days one by one from the first
  of January 1900, a Monday, with the lengths of the months and the leap years of the Gregorian
  calendar, the day n days later is the weekday (n + 1) modulo 7 for the formula, for every n up to
  the year 1000000000.\<close>

theorem weekday_correct:
  assumes "(next_day ^^ n) (1900, 1, 1) = (y, m, d)" "y \<le> 1000000000"
  shows "caculate_weekday y m d = Some ((int n + 1) mod 7)"
  using caculate_weekday_sum [OF _ assms(2)] day_number [OF assms(1)] mod_add_left_eq [of "week_sum y m d" 7 1]
    mod_add_left_eq [of "int n" 7 1] by simp

theorem weekday_correct_witness: "caculate_weekday 1900 3 1 = Some 4"
proof -
  have "(next_day ^^ 59) (1900, 1, 1) = (1900, 3, 1)" by code_simp
  then show ?thesis using weekday_correct [of 59 1900 3 1] by simp
qed

end
