(* ===== verification/String_Convert.thy ===== *)
theory String_Convert
  imports Prelude "HOL-Library.Sublist" "HOL-Library.Char_ord" "HOL-Library.List_Lexorder"
begin

text \<open>
  The functions of StringConvert (string_convert.hpp) on texts: comparisons, trimming, splitting and
  replacing. An index outside a text is undefined, and a loop that does not end has no result; both
  are None. The conversions between character sets only call the system's.
\<close>

section \<open>Comparisons\<close>

text \<open>std::string::compare and strcmp: the sign of the lexicographic comparison of unsigned characters.\<close>

(* src: string_convert.hpp 429-430 StringConvert::Compare *)
definition str_compare :: "string \<Rightarrow> string \<Rightarrow> int" where
  "str_compare l r = (if l < r then -1 else if l = r then 0 else 1)"

definition to_lower :: "char \<Rightarrow> char" where
  "to_lower c = (if CHR ''A'' \<le> c \<and> c \<le> CHR ''Z'' then char_of ((of_char c :: nat) + 32) else c)"

(* src: string_convert.hpp 434-461 StringConvert::CompareNonCase *)
definition compare_non_case :: "string \<Rightarrow> string \<Rightarrow> int" where
  "compare_non_case l r = str_compare (map to_lower l) (map to_lower r)"

section \<open>Trim\<close>

definition blank :: "char \<Rightarrow> bool" where
  "blank c \<longleftrightarrow> c = CHR '' '' \<or> c = CHR 0x09"

(* src: string_convert.hpp 468-470 StringConvert::Trim *)
function trim_front :: "string \<Rightarrow> nat \<Rightarrow> nat \<Rightarrow> nat" where
  "trim_front str start fin = (if start \<le> fin \<and> blank (str ! start) then trim_front str (start + 1) fin else start)"
  by pat_completeness auto
termination by (relation "measure (\<lambda>(str, start, fin). fin + 1 - start)") auto

declare trim_front.simps [simp del]

text \<open>Before position 0 there is none: the index would wrap around.\<close>

(* src: string_convert.hpp 472-474 StringConvert::Trim *)
fun trim_back :: "string \<Rightarrow> nat \<Rightarrow> nat \<Rightarrow> nat option" where
  "trim_back str start fin =
     (if fin \<ge> start \<and> blank (str ! fin) then (case fin of 0 \<Rightarrow> None | Suc l \<Rightarrow> trim_back str start l) else Some fin)"

declare trim_back.simps [simp del]

text \<open>Of the empty text the last position is the greatest number, and the second loop reads there.\<close>

(* src: string_convert.hpp 463-482 StringConvert::Trim *)
definition trim :: "string \<Rightarrow> string option" where
  "trim str =
     (if str = [] then None
      else let start = trim_front str 0 (length str - 1)
           in do { fin \<leftarrow> trim_back str start (length str - 1);
                   if start \<le> fin then Some (take (fin - start + 1) (drop start str)) else Some [] })"

section \<open>Split\<close>

text \<open>std::string::find from the start of a text.\<close>

fun find_sub :: "string \<Rightarrow> string \<Rightarrow> nat option" where
  "find_sub d [] = (if d = [] then Some 0 else None)"
| "find_sub d (c # s) = (if prefix d (c # s) then Some 0 else map_option Suc (find_sub d s))"

fun find_first_of :: "string \<Rightarrow> string \<Rightarrow> nat option" where
  "find_first_of d [] = None"
| "find_first_of d (c # s) = (if c \<in> set d then Some 0 else map_option Suc (find_first_of d s))"

text \<open>A token, trimmed if asked for; empty ones are then left out.\<close>

(* src: string_convert.hpp 489-493 StringConvert::Split *)
definition push_token :: "bool \<Rightarrow> string \<Rightarrow> string list \<Rightarrow> string list option" where
  "push_token tr token result =
     do { token \<leftarrow> (if tr then trim token else Some token);
          Some (if \<not> tr \<or> token \<noteq> [] then result @ [token] else result) }"

text \<open>The loop stands at a position of the text; s is what follows there.\<close>

(* src: string_convert.hpp 488-506 StringConvert::Split *)
partial_function (option) split_loop :: "string \<Rightarrow> bool \<Rightarrow> string \<Rightarrow> string list \<Rightarrow> string list option" where
  "split_loop d tr s result =
     (case find_sub d s of
        None \<Rightarrow> (if s \<noteq> [] then push_token tr s result else Some result)
      | Some e \<Rightarrow> do { result \<leftarrow> push_token tr (take e s) result; split_loop d tr (drop (e + length d) s) result })"

(* src: string_convert.hpp 484-507 StringConvert::Split *)
definition split :: "string \<Rightarrow> string \<Rightarrow> bool \<Rightarrow> string list option" where
  "split input d tr = split_loop d tr input []"

(* src: string_convert.hpp 514-532 StringConvert::SplitAny *)
partial_function (option) split_any_loop :: "string \<Rightarrow> bool \<Rightarrow> string \<Rightarrow> string list \<Rightarrow> string list option" where
  "split_any_loop d tr s result =
     (case find_first_of d s of
        None \<Rightarrow> (if s \<noteq> [] then push_token tr s result else Some result)
      | Some e \<Rightarrow> do { result \<leftarrow> push_token tr (take e s) result; split_any_loop d tr (drop (e + 1) s) result })"

(* src: string_convert.hpp 509-533 StringConvert::SplitAny *)
definition split_any :: "string \<Rightarrow> string \<Rightarrow> bool \<Rightarrow> string list option" where
  "split_any input d tr = split_any_loop d tr input []"

section \<open>Replace\<close>

definition find_from :: "string \<Rightarrow> string \<Rightarrow> nat \<Rightarrow> nat option" where
  "find_from d s pos = (if pos \<le> length s then map_option ((+) pos) (find_sub d (drop pos s)) else None)"

(* src: string_convert.hpp 538-541 StringConvert::ReplaceAll *)
partial_function (option) replace_loop :: "string \<Rightarrow> string \<Rightarrow> string \<Rightarrow> nat \<Rightarrow> string option" where
  "replace_loop src dest ret pos =
     (case find_from src ret pos of
        None \<Rightarrow> Some ret
      | Some p \<Rightarrow> replace_loop src dest (take p ret @ dest @ drop (p + length src) ret) (p + length src))"

(* src: string_convert.hpp 535-543 StringConvert::ReplaceAll *)
definition replace_all :: "string \<Rightarrow> string \<Rightarrow> string \<Rightarrow> string option" where
  "replace_all str src dest = replace_loop src dest str 0"

(* src: string_convert.hpp 544-553 StringConvert::ReplaceAny *)
definition replace_any :: "string \<Rightarrow> string \<Rightarrow> string \<Rightarrow> string" where
  "replace_any str src dest = fold (\<lambda>item ret. if item \<notin> set src then ret @ [item] else ret @ dest) str []"

section \<open>Trimming\<close>

definition strip :: "string \<Rightarrow> string" where
  "strip s = rev (dropWhile blank (rev (dropWhile blank s)))"

lemma trim_front_spec:
  "start \<le> length str \<Longrightarrow> str \<noteq> [] \<Longrightarrow>
    trim_front str start (length str - 1) = start + length (takeWhile blank (drop start str))"
proof (induction "length str - start" arbitrary: start)
  case 0
  then show ?case by (subst trim_front.simps) (cases str, auto)
next
  case (Suc n)
  then have l: "start < length str" by simp
  then have d: "drop start str = str ! start # drop (Suc start) str" by (simp add: Cons_nth_drop_Suc)
  have "start \<le> length str - 1" using l by simp
  then show ?case using Suc l by (simp add: trim_front.simps [of str start] d)
qed

lemma trim_back_spec:
  "fin < length str \<Longrightarrow> start \<le> fin \<Longrightarrow> \<not> blank (str ! start) \<Longrightarrow>
    \<exists>l. trim_back str start fin = Some l \<and> start \<le> l \<and> l \<le> fin \<and>
      take (l - start + 1) (drop start str) = rev (dropWhile blank (rev (take (fin - start + 1) (drop start str))))"
proof (induction fin)
  case 0
  then show ?case by (subst trim_back.simps) (simp add: take_Suc_conv_app_nth)
next
  case (Suc fin)
  have t: "take (Suc fin - start + 1) (drop start str) = take (Suc fin - start) (drop start str) @ [str ! Suc fin]"
    using Suc.prems(1,2) by (simp add: take_Suc_conv_app_nth)
  show ?case
  proof (cases "blank (str ! Suc fin)")
    case True
    then have "start \<le> fin" using Suc.prems by (metis le_SucE)
    then obtain l where "trim_back str start fin = Some l" "start \<le> l" "l \<le> fin"
      "take (l - start + 1) (drop start str) = rev (dropWhile blank (rev (take (fin - start + 1) (drop start str))))"
      using Suc by auto
    then show ?thesis using True Suc.prems(2) t \<open>start \<le> fin\<close>
      by (intro exI [of _ l]) (simp add: trim_back.simps [of str start "Suc fin"] Suc_diff_le)
  next
    case False
    then show ?thesis using t by (intro exI [of _ "Suc fin"]) (simp add: trim_back.simps [of str start "Suc fin"] Suc.prems(2))
  qed
qed

lemma trim_spec: "trim str = (if str = [] then None else Some (strip str))"
proof (cases "str = []")
  case False
  define start where "start = length (takeWhile blank str)"
  have st: "trim_front str 0 (length str - Suc 0) = start" using trim_front_spec [of 0 str] False by (simp add: start_def)
  have dr: "drop start str = dropWhile blank str" by (simp add: start_def dropWhile_eq_drop)
  show ?thesis
  proof (cases "start < length str")
    case True
    then have nb: "\<not> blank (str ! start)" unfolding start_def by (rule nth_length_takeWhile)
    obtain l where l: "trim_back str start (length str - 1) = Some l" "start \<le> l"
      "take (l - start + 1) (drop start str) = rev (dropWhile blank (rev (take (length str - 1 - start + 1) (drop start str))))"
      using trim_back_spec [OF _ _ nb, of "length str - 1"] True by fastforce
    have "length str - 1 - start + 1 = length (drop start str)" using True by simp
    then have "take (length str - 1 - start + 1) (drop start str) = drop start str" by simp
    then show ?thesis using False l by (simp add: trim_def Let_def st strip_def dr)
  next
    case False
    then have "start = length str" "dropWhile blank str = []"
      using dr length_takeWhile_le [of blank str] by (simp_all add: start_def)
    moreover have "\<not> length str \<le> length str - Suc 0" using \<open>str \<noteq> []\<close> by (cases str) simp_all
    ultimately show ?thesis using \<open>str \<noteq> []\<close> by (simp add: trim_def Let_def st strip_def trim_back.simps del: dropWhile_eq_Nil_conv)
  qed
qed (simp add: trim_def)

section \<open>Splitting\<close>

lemma find_sub_Some: "find_sub d s = Some e \<Longrightarrow> \<exists>r. s = take e s @ d @ r \<and> e \<le> length s \<and> find_sub d (take e s) = (if d = [] then Some 0 else None)"
proof (induction d s arbitrary: e rule: find_sub.induct)
  case (2 d c s)
  show ?case
  proof (cases "prefix d (c # s)")
    case True
    then show ?thesis using 2(2) by (auto simp: prefix_def)
  next
    case False
    then obtain e1 where e1: "find_sub d s = Some e1" "e = Suc e1" using 2(2) by auto
    then obtain r where r: "s = take e1 s @ d @ r" "e1 \<le> length s" "find_sub d (take e1 s) = (if d = [] then Some 0 else None)"
      using 2(1) False by blast
    have "\<not> prefix d (c # take e1 s)" using False by (metis append_take_drop_id append_Cons prefix_order.trans prefixI)
    then show ?thesis using r e1 False by (auto intro: exI [of _ r])
  qed
qed (auto split: if_splits)

lemma find_sub_None: "find_sub d s = None \<Longrightarrow> d \<noteq> []"
  by (cases s) (auto split: if_splits)

text \<open>The tokens without trimming: the text is cut at its delimiters, and an empty rest is left out.\<close>

function tokens :: "string \<Rightarrow> string \<Rightarrow> string list" where
  "tokens d s = (case find_sub d s of None \<Rightarrow> (if s = [] then [] else [s])
     | Some e \<Rightarrow> if d = [] then [] else take e s # tokens d (drop (e + length d) s))"
  by pat_completeness auto
termination
proof (relation "measure (\<lambda>(d, s). length s)", goal_cases)
  case (2 d s e)
  then obtain r where "s = take e s @ d @ r" "e \<le> length s" using find_sub_Some by blast
  then have "length s = e + length d + length r" by (metis append.assoc length_append length_take min.absorb2)
  then show ?case using 2(2) by simp
qed simp

declare tokens.simps [simp del]

lemma split_loop_plain: "d \<noteq> [] \<Longrightarrow> split_loop d False s result = Some (result @ tokens d s)"
proof (induction d s arbitrary: result rule: tokens.induct)
  case (1 d s)
  show ?case
  proof (cases "find_sub d s")
    case None
    then show ?thesis by (simp add: split_loop.simps [of d False s] tokens.simps [of d s] push_token_def)
  next
    case (Some e)
    then show ?thesis using 1 by (simp add: split_loop.simps [of d False s] tokens.simps [of d s] push_token_def)
  qed
qed

lemma split_loop_trim:
  "d \<noteq> [] \<Longrightarrow> split_loop d True s result =
    (if [] \<in> set (tokens d s) then None else Some (result @ filter (\<lambda>t. t \<noteq> []) (map strip (tokens d s))))"
proof (induction d s arbitrary: result rule: tokens.induct)
  case (1 d s)
  show ?case
  proof (cases "find_sub d s")
    case None
    then show ?thesis by (simp add: split_loop.simps [of d True s] tokens.simps [of d s] push_token_def trim_spec)
  next
    case (Some e)
    then show ?thesis using 1
      by (cases "take e s = []") (simp_all add: split_loop.simps [of d True s] tokens.simps [of d s] push_token_def trim_spec)
  qed
qed

lemma tokens_join:
  "d \<noteq> [] \<Longrightarrow> (concat (map (\<lambda>t. t @ d) (tokens d s)) = s \<or> concat (map (\<lambda>t. t @ d) (tokens d s)) = s @ d) \<and>
    (\<forall>t \<in> set (tokens d s). find_sub d t = None)"
proof (induction d s rule: tokens.induct)
  case (1 d s)
  show ?case
  proof (cases "find_sub d s")
    case None
    then show ?thesis by (simp add: tokens.simps [of d s])
  next
    case (Some e)
    then obtain r where r: "s = take e s @ d @ r" "e \<le> length s" "find_sub d (take e s) = None"
      using find_sub_Some 1(2) by fastforce
    have "drop (e + length d) (take e s @ d @ r) = r" using r(2) by simp
    then have dr: "drop (e + length d) s = r" using r(1) by simp
    have t: "tokens d s = take e s # tokens d r" using Some 1(2) dr by (simp add: tokens.simps [of d s])
    have ih: "(concat (map (\<lambda>t. t @ d) (tokens d r)) = r \<or> concat (map (\<lambda>t. t @ d) (tokens d r)) = r @ d) \<and>
        (\<forall>t \<in> set (tokens d r). find_sub d t = None)"
      using 1 Some dr by simp
    define p where "p = take e s"
    have p: "s = p @ d @ r" "find_sub d p = None" using r(1,3) by (simp_all add: p_def)
    have tt: "tokens d s = p # tokens d r" using t by (simp add: p_def)
    show ?thesis unfolding tt using ih p by auto
  qed
qed

lemma split_loop_empty_delimiter:
  assumes "split_loop d tr s result = Some r"
  shows "d \<noteq> []"
proof (rule split_loop.raw_induct [where P = "\<lambda>d tr s result r. d \<noteq> []", OF _ assms], goal_cases)
  case (1 f d tr s result r)
  show ?case
  proof (cases "find_sub d s")
    case None
    then show ?thesis by (rule find_sub_None)
  next
    case (Some e)
    then obtain result' where "f d tr (drop (e + length d) s) result' = Some r"
      using 1(2) by (auto simp: bind_eq_Some_conv)
    then show ?thesis by (rule 1(1))
  qed
qed

text \<open>Split cuts a text at its delimiters. With a delimiter that is not empty and without trimming, the
  call returns, no token contains the delimiter, and the tokens, each followed by the delimiter, are
  the text again (or the text and a delimiter). With trimming, the default, the result is the same
  tokens without the blanks around them and without those only of blanks, if no token is empty;
  with two delimiters one after the other it reads outside a text. With an empty delimiter it never
  returns.\<close>

theorem split_tokens:
  assumes "d \<noteq> []"
  shows "\<exists>ts. split s d False = Some ts \<and> (\<forall>t \<in> set ts. find_sub d t = None) \<and>
    concat (map (\<lambda>t. t @ d) ts) \<in> {s, s @ d} \<and>
    split s d True = (if [] \<in> set ts then None else Some (filter (\<lambda>t. t \<noteq> []) (map strip ts))) \<and>
    split s [] tr = None"
proof -
  have "split s [] tr = None" using split_loop_empty_delimiter [of "[]" tr s "[]"] by (cases "split s [] tr") (auto simp: split_def)
  then show ?thesis using split_loop_plain [OF assms] split_loop_trim [OF assms] tokens_join [OF assms, of s]
    by (auto simp: split_def)
qed

theorem split_tokens_witness:
  "\<exists>ts. split ''a,b'' '','' False = Some ts \<and> concat (map (\<lambda>t. t @ '','') ts) \<in> {''a,b'', ''a,b,''}"
  using split_tokens [of "'',''" "''a,b''" True] by auto

section \<open>Replacing\<close>

text \<open>Every place of the text, from the left and not overlapping.\<close>

function replaced :: "string \<Rightarrow> string \<Rightarrow> string \<Rightarrow> string" where
  "replaced src dest s = (case find_sub src s of None \<Rightarrow> s
     | Some e \<Rightarrow> if src = [] then s else take e s @ dest @ replaced src dest (drop (e + length src) s))"
  by pat_completeness auto
termination
proof (relation "measure (\<lambda>(src, dest, s). length s)", goal_cases)
  case (2 src dest s e)
  then obtain r where "s = take e s @ src @ r" "e \<le> length s" using find_sub_Some by blast
  then have "length s = e + length src + length r" by (metis append.assoc length_append length_take min.absorb2)
  then show ?case using 2(2) by simp
qed simp

declare replaced.simps [simp del]

lemma replace_loop_same_length:
  "src \<noteq> [] \<Longrightarrow> length dest = length src \<Longrightarrow>
    replace_loop src dest (don @ s) (length don) = Some (don @ replaced src dest s)"
proof (induction src dest s arbitrary: don rule: replaced.induct)
  case (1 src dest s)
  have f: "find_from src (don @ s) (length don) = map_option ((+) (length don)) (find_sub src s)" by (simp add: find_from_def)
  show ?case
  proof (cases "find_sub src s")
    case None
    then show ?thesis by (simp add: replace_loop.simps [of src dest "don @ s"] replaced.simps [of src dest s] f)
  next
    case (Some e)
    then have e: "e \<le> length s" using find_sub_Some by blast
    have "replace_loop src dest (don @ s) (length don) =
        replace_loop src dest ((don @ take e s @ dest) @ drop (e + length src) s) (length (don @ take e s @ dest))"
      using Some e 1(3) by (subst replace_loop.simps) (simp add: f add.assoc)
    also have "\<dots> = Some ((don @ take e s @ dest) @ replaced src dest (drop (e + length src) s))"
      by (rule 1(1) [OF Some 1(2) 1(2,3)])
    finally show ?thesis using Some 1(2) by (simp add: replaced.simps [of src dest s])
  qed
qed

lemma find_one: "find_sub [a] s = Some e \<Longrightarrow> e < length s"
  by (induction s arbitrary: e) (auto split: if_splits)

lemma replace_loop_grows:
  assumes "replace_loop [a] [b, a] ret pos = Some r" "b \<noteq> a"
  shows "find_from [a] ret pos = None"
proof -
  have "src = [a] \<and> dest = [b, a] \<longrightarrow> find_from src ret pos = None" if "replace_loop src dest ret pos = Some r" for src dest ret pos r
  proof (rule replace_loop.raw_induct [where P = "\<lambda>src dest ret pos r. src = [a] \<and> dest = [b, a] \<longrightarrow> find_from src ret pos = None", OF _ that],
      goal_cases)
    case (1 f src dest ret pos r)
    show ?case
    proof (rule impI, rule ccontr)
      assume sd: "src = [a] \<and> dest = [b, a]" and n: "find_from src ret pos \<noteq> None"
      obtain p where p: "find_from src ret pos = Some p" using n by blast
      then have lt: "p < length ret" using sd by (auto simp: find_from_def split: if_splits dest!: find_one)
      let ?ret = "take p ret @ dest @ drop (p + length src) ret"
      have "f src dest ?ret (p + length src) = Some r" using 1(2) p by simp
      then have "find_from src ?ret (p + length src) = None" by (rule 1(1) [THEN mp, OF _ sd])
      moreover have "p + length src \<le> length ?ret" using lt sd by simp
      moreover have "drop (p + length src) ?ret = a # drop (p + 1) ret" using lt sd by simp
      moreover have "find_sub src (a # drop (p + 1) ret) = Some 0" using sd by simp
      ultimately show False unfolding find_from_def by (simp only: if_True option.map option.distinct)
    qed
  qed
  then show ?thesis using assms(1) by blast
qed

text \<open>ReplaceAll is right only for texts of the same length. If the replacement has the length of what it
  replaces, the result is the text with every place replaced, from the left. The loop goes on behind
  the length of what was searched, not of the replacement; so with a replacement that ends in the
  character searched for, such as a by ba, it finds it again and again, and never returns on a text
  that has it.\<close>

theorem replace_all_result:
  assumes "src \<noteq> []" "length dest = length src" "b \<noteq> a" "a \<in> set s"
  shows "replace_all s src dest = Some (replaced src dest s) \<and> replace_all s [a] [b, a] = None"
proof -
  have "find_sub [a] s \<noteq> None" using assms(4)
  proof (induction s)
    case (Cons c s)
    then show ?case by (cases "c = a") (auto simp: prefix_def)
  qed simp
  then have "find_from [a] s 0 \<noteq> None" by (simp add: find_from_def)
  then have "replace_all s [a] [b, a] = None"
    using replace_loop_grows [of a b s 0] assms(3) by (cases "replace_all s [a] [b, a]") (auto simp: replace_all_def)
  then show ?thesis using replace_loop_same_length [OF assms(1,2), of "[]" s] by (simp add: replace_all_def)
qed

theorem replace_all_result_witness:
  "replace_all ''xax'' ''x'' ''y'' = Some (replaced ''x'' ''y'' ''xax'') \<and> replace_all ''xax'' ''a'' ''ba'' = None"
  using replace_all_result [of "''x''" "''y''" "CHR ''b''" "CHR ''a''" "''xax''"] by simp

lemma replace_any_spec: "replace_any str src dest = concat (map (\<lambda>c. if c \<in> set src then dest else [c]) str)"
proof -
  have "fold (\<lambda>item ret. if item \<notin> set src then ret @ [item] else ret @ dest) str acc =
      acc @ concat (map (\<lambda>c. if c \<in> set src then dest else [c]) str)" for acc
    by (induction str arbitrary: acc) auto
  then show ?thesis by (simp add: replace_any_def)
qed

end
