(* ===== verification/Packages.thy ===== *)
theory Packages
  imports Prelude
begin

text \<open>
  The contract of the package formats of pb_message_package: an encoder for messages, and a decoder
  that stands at a position of a received buffer. A client decodes one package after the other until
  one is not there as a whole; what it gets, and where the rest begins, is proved here once.
\<close>

text \<open>The client's loop, at most as many rounds as given: the messages and the number of bytes dealt with.\<close>

fun collect ::
  "('d \<Rightarrow> (bool \<times> 'd) option) \<Rightarrow> ('d \<Rightarrow> 'm option) \<Rightarrow> ('d \<Rightarrow> 'd) \<Rightarrow> ('d \<Rightarrow> nat) \<Rightarrow> nat \<Rightarrow> 'd \<Rightarrow> ('m list \<times> nat) option" where
  "collect decode message nxt deal 0 d = None"
| "collect decode message nxt deal (Suc fuel) d =
     (case decode d of
        None \<Rightarrow> None
      | Some (False, d1) \<Rightarrow> Some ([], deal d1)
      | Some (True, d1) \<Rightarrow>
          (case message d1 of
             None \<Rightarrow> None
           | Some m \<Rightarrow> map_option (\<lambda>(ms, n). (m # ms, n)) (collect decode message nxt deal fuel (nxt d1))))"

locale package_format =
  fixes enc :: "'m \<Rightarrow> bytes" and ok :: "'m \<Rightarrow> bool" and max_len :: nat
    and open_buf :: "bytes \<Rightarrow> 'd" and stands :: "'d \<Rightarrow> bytes \<Rightarrow> nat \<Rightarrow> bool"
    and decode :: "'d \<Rightarrow> (bool \<times> 'd) option" and message :: "'d \<Rightarrow> 'm option" and nxt :: "'d \<Rightarrow> 'd" and deal :: "'d \<Rightarrow> nat"
  assumes open_stands: "length bs < max_len \<Longrightarrow> stands (open_buf bs) bs 0"
    and decode_whole: "stands d bs n \<Longrightarrow> n \<le> length bs \<Longrightarrow> drop n bs = enc m @ rest \<Longrightarrow> ok m \<Longrightarrow>
      \<exists>d'. decode d = Some (True, d') \<and> message d' = Some m \<and> stands (nxt d') bs (n + length (enc m))"
    and decode_partial: "stands d bs n \<Longrightarrow> n \<le> length bs \<Longrightarrow> enc m = drop n bs @ rest \<Longrightarrow> rest \<noteq> [] \<Longrightarrow> ok m \<Longrightarrow>
      \<exists>d'. decode d = Some (False, d') \<and> deal d' = n"
begin

lemma collect_stream:
  assumes "stands d bs n" "n \<le> length bs" "drop n bs = concat (map enc ms) @ part" "\<forall>m \<in> set ms. ok m"
    and "\<exists>m rest. ok m \<and> rest \<noteq> [] \<and> enc m = part @ rest"
  shows "collect decode message nxt deal (length ms + 1) d = Some (ms, length bs - length part)"
  using assms
proof (induction ms arbitrary: d n)
  case Nil
  then obtain m rest where m: "ok m" "rest \<noteq> []" "enc m = drop n bs @ rest" by auto
  then obtain d' where "decode d = Some (False, d')" "deal d' = n"
    using decode_partial [OF Nil.prems(1,2) m(3,2,1)] by blast
  moreover have "length bs - length part = n"
    using Nil.prems(2,3) length_drop [of n bs] by simp
  ultimately show ?case by simp
next
  case (Cons m ms)
  have d: "drop n bs = enc m @ (concat (map enc ms) @ part)" using Cons.prems(3) by simp
  have okm: "ok m" using Cons.prems(4) by simp
  from decode_whole [OF Cons.prems(1,2) d okm] obtain d' where
    d': "decode d = Some (True, d')" "message d' = Some m" "stands (nxt d') bs (n + length (enc m))" by blast
  have "length bs = n + length (enc m @ (concat (map enc ms) @ part))"
    using Cons.prems(2) length_drop [of n bs] d by simp
  then have le: "n + length (enc m) \<le> length bs" by simp
  have dr: "drop (n + length (enc m)) bs = concat (map enc ms) @ part"
    using d by (metis add.commute append_eq_conv_conj drop_drop)
  show ?case using Cons.IH [OF d'(3) le dr] Cons.prems(4,5) d'(1,2) by simp
qed

lemma collect_open:
  assumes "\<forall>m \<in> set ms. ok m" "\<exists>m rest. ok m \<and> rest \<noteq> [] \<and> enc m = part @ rest"
    and "length (concat (map enc ms) @ part) < max_len"
  shows "collect decode message nxt deal (length ms + 1) (open_buf (concat (map enc ms) @ part)) =
    Some (ms, length (concat (map enc ms)))"
  using collect_stream [OF open_stands [OF assms(3)] _ _ assms(1,2)] by simp

end

end
