(* ===== verification/Pb_Memory.thy ===== *)
theory Pb_Memory
  imports Packages Memory_Stream
begin

text \<open>
  The binary packages of pb_message_package: a head with the command and the length of the body in
  network order, the body, and a checksum. pb_memory_package.hpp and pb_memory_3des_package.hpp have
  the same decoder except for the size of the head (6 and 10 bytes); it is the argument hs. The
  decoder works on a received buffer of the length given to it; a read outside the buffer is None.
\<close>

section \<open>Bytes in network order\<close>

definition be16 :: "u16 \<Rightarrow> bytes" where
  "be16 w = [word_of_nat (unat w div 256), word_of_nat (unat w)]"

definition be32 :: "u32 \<Rightarrow> bytes" where
  "be32 w = rev (le32 (unat w))"

definition of_be16 :: "bytes \<Rightarrow> u16" where
  "of_be16 bs = word_of_nat (of_le (rev bs))"

definition of_be32 :: "bytes \<Rightarrow> u32" where
  "of_be32 bs = word_of_nat (of_le (rev bs))"

text \<open>A copy of n bytes out of a buffer.\<close>

definition read_bytes :: "bytes \<Rightarrow> nat \<Rightarrow> nat \<Rightarrow> bytes option" where
  "read_bytes buf pos n = (if pos + n \<le> length buf then Some (take n (drop pos buf)) else None)"

section \<open>The decoder\<close>

(* src: pb_message_package/pb_memory_package.hpp 57-61 DecodePackage::DecodeStatus *)
datatype decode_status = DecodeInit | DecodeMsg

(* src: pb_message_package/pb_memory_package.hpp 181-189 DecodePackage *)
record pk_decoder =
  pk_buffer :: bytes
  pk_buff_len :: u32
  pk_offset :: u32
  pk_status :: decode_status
  pk_pack_len :: u32
  pk_body_len :: u32
  pk_command :: u16
  pk_body_length :: u32
  pk_checksum :: u16

(* src: pb_message_package/pb_memory_package.hpp 44-50 Package::generate_checksum *)
definition generate_checksum :: "bytes \<Rightarrow> u16" where
  "generate_checksum send_msg = ucast (fold (\<lambda>b cks. cks + ucast b) send_msg (0 :: u32) mod 256)"

(* src: pb_message_package/pb_memory_package.hpp 171-178 DecodePackage::init_data *)
definition pk_init_data :: "pk_decoder \<Rightarrow> pk_decoder" where
  "pk_init_data d = d\<lparr>pk_status := DecodeInit, pk_pack_len := 0, pk_body_len := 0, pk_command := 0, pk_body_length := 0,
     pk_checksum := 0\<rparr>"

(* src: pb_message_package/pb_memory_package.hpp 64-70 DecodePackage::DecodePackage *)
definition pk_new :: "bytes \<Rightarrow> u32 \<Rightarrow> pk_decoder" where
  "pk_new recv_msg len = pk_init_data
     \<lparr>pk_buffer = recv_msg, pk_buff_len = len, pk_offset = 0, pk_status = DecodeInit, pk_pack_len = 0, pk_body_len = 0,
      pk_command = 0, pk_body_length = 0, pk_checksum = 0\<rparr>"

text \<open>The sum is of 32 bits.\<close>

(* src: pb_message_package/pb_memory_package.hpp 167-169 DecodePackage::vaild *)
definition pk_vaild :: "u32 \<Rightarrow> pk_decoder \<Rightarrow> bool" where
  "pk_vaild read_length d \<longleftrightarrow> pk_offset d + read_length \<le> pk_buff_len d"

(* src: pb_message_package/pb_memory_package.hpp 74-80 DecodePackage::is_entire *)
definition pk_is_entire :: "pk_decoder \<Rightarrow> bool" where
  "pk_is_entire d = (if pk_status d = DecodeInit then False else pk_vaild (pk_pack_len d) d)"

text \<open>The length of the package is cut to 32 bits, the address of its tail is not.\<close>

(* src: pb_message_package/pb_memory_package.hpp 98-118 DecodePackage::decode_msg *)
definition pk_decode_msg :: "nat \<Rightarrow> pk_decoder \<Rightarrow> (bool \<times> pk_decoder) option" where
  "pk_decode_msg hs d =
     (if \<not> pk_vaild (word_of_nat (hs + 2)) d then Some (False, d)
      else do {
        tmp_head \<leftarrow> read_bytes (pk_buffer d) (unat (pk_offset d)) hs;
        let d = d\<lparr>pk_command := of_be16 (take 2 tmp_head), pk_body_length := of_be32 (take 4 (drop 2 tmp_head))\<rparr>;
        let d = d\<lparr>pk_pack_len := word_of_nat (hs + unat (pk_body_length d) + 2)\<rparr>;
        if \<not> pk_vaild (pk_pack_len d) d then Some (False, d)
        else do {
          tl \<leftarrow> read_bytes (pk_buffer d) (unat (pk_offset d) + hs + unat (pk_body_length d)) 2;
          Some (True, d\<lparr>pk_checksum := of_be16 tl, pk_status := DecodeMsg\<rparr>) } })"

text \<open>The body is a position in the buffer.\<close>

(* src: pb_message_package/pb_memory_package.hpp 121-127 DecodePackage::get_body *)
definition pk_get_body :: "nat \<Rightarrow> pk_decoder \<Rightarrow> nat option" where
  "pk_get_body hs d = (if pk_status d = DecodeInit then None else Some (unat (pk_offset d) + hs))"

(* src: pb_message_package/pb_memory_package.hpp 129-135 DecodePackage::check_sum *)
definition pk_check_sum :: "nat \<Rightarrow> pk_decoder \<Rightarrow> bool option" where
  "pk_check_sum hs d =
     (case pk_get_body hs d of
        None \<Rightarrow> Some False
      | Some pos \<Rightarrow> map_option (\<lambda>body. generate_checksum body = pk_checksum d) (read_bytes (pk_buffer d) pos (unat (pk_body_length d))))"

(* src: pb_message_package/pb_memory_package.hpp 138-144 DecodePackage::has_next *)
definition pk_has_next :: "nat \<Rightarrow> pk_decoder \<Rightarrow> bool" where
  "pk_has_next hs d = (if pk_status d = DecodeInit then pk_vaild (word_of_nat (hs + 2)) d else pk_vaild (pk_pack_len d + 1) d)"

(* src: pb_message_package/pb_memory_package.hpp 147-151 DecodePackage::decode_next *)
definition pk_decode_next :: "pk_decoder \<Rightarrow> pk_decoder" where
  "pk_decode_next d = pk_init_data (d\<lparr>pk_offset := pk_offset d + pk_pack_len d\<rparr>)"

(* src: pb_message_package/pb_memory_package.hpp 154-157 DecodePackage::get_deal_len *)
definition pk_get_deal_len :: "pk_decoder \<Rightarrow> u32" where
  "pk_get_deal_len d = pk_offset d"

(* src: pb_message_package/pb_memory_package.hpp 160-163 DecodePackage::get_res_len *)
definition pk_get_res_len :: "pk_decoder \<Rightarrow> u32" where
  "pk_get_res_len d = pk_buff_len d - pk_offset d"

section \<open>The encoder\<close>

text \<open>The head may go on after the command and the length with the bytes ext.\<close>

definition pk_frame :: "bytes \<Rightarrow> u16 \<Rightarrow> bytes \<Rightarrow> bytes" where
  "pk_frame ext command send_msg =
     be16 command @ be32 (word_of_nat (length send_msg)) @ ext @ send_msg @ be16 (generate_checksum send_msg)"

(* src: pb_message_package/pb_memory_package.hpp 196-210 EncodePackage::EncodePackage *)
definition pk_encode :: "u16 \<Rightarrow> bytes \<Rightarrow> bytes" where
  "pk_encode command send_msg = pk_frame [] command send_msg"

section \<open>The package with the length of the message before its encryption\<close>

(* src: pb_message_package/pb_memory_3des_package.hpp 197-211 EncodePackage::EncodePackage *)
definition td_encode :: "u16 \<Rightarrow> bytes \<Rightarrow> u32 \<Rightarrow> bytes" where
  "td_encode command send_msg pb_len = pk_frame (be32 pb_len) command send_msg"

(* src: pb_message_package/pb_memory_3des_package.hpp 45-51 Package::generate_checksum *)
definition td_generate_checksum :: "bytes \<Rightarrow> u16" where
  "td_generate_checksum send_msg = generate_checksum send_msg"

(* src: pb_message_package/pb_memory_3des_package.hpp 65-71 DecodePackage::DecodePackage *)
definition td_new :: "bytes \<Rightarrow> u32 \<Rightarrow> pk_decoder" where
  "td_new recv_msg len = pk_new recv_msg len"

(* src: pb_message_package/pb_memory_3des_package.hpp 75-81 DecodePackage::is_entire *)
definition td_is_entire :: "pk_decoder \<Rightarrow> bool" where
  "td_is_entire d = pk_is_entire d"

(* src: pb_message_package/pb_memory_3des_package.hpp 99-119 DecodePackage::decode_msg *)
definition td_decode_msg :: "pk_decoder \<Rightarrow> (bool \<times> pk_decoder) option" where
  "td_decode_msg d = pk_decode_msg 10 d"

(* src: pb_message_package/pb_memory_3des_package.hpp 122-128 DecodePackage::get_body *)
definition td_get_body :: "pk_decoder \<Rightarrow> nat option" where
  "td_get_body d = pk_get_body 10 d"

(* src: pb_message_package/pb_memory_3des_package.hpp 130-136 DecodePackage::check_sum *)
definition td_check_sum :: "pk_decoder \<Rightarrow> bool option" where
  "td_check_sum d = pk_check_sum 10 d"

(* src: pb_message_package/pb_memory_3des_package.hpp 139-145 DecodePackage::has_next *)
definition td_has_next :: "pk_decoder \<Rightarrow> bool" where
  "td_has_next d = pk_has_next 10 d"

(* src: pb_message_package/pb_memory_3des_package.hpp 148-152 DecodePackage::decode_next *)
definition td_decode_next :: "pk_decoder \<Rightarrow> pk_decoder" where
  "td_decode_next d = pk_decode_next d"

text \<open>The buffer goes to the caller and the package is empty after it.\<close>

(* src: pb_message_package/pb_memory_3des_package.hpp 223-228 EncodePackage::reset_package *)
definition td_reset_package :: "bytes \<Rightarrow> bytes \<times> bytes" where
  "td_reset_package send_msg = (send_msg, [])"

section \<open>Bytes and back\<close>

lemma length_be [simp]: "length (be16 w) = 2" "length (be32 v) = 4"
  by (simp_all add: be16_def be32_def)

lemma unat_bounds: "unat (a :: u8) < 256" "unat (b :: u16) < 65536" "unat (c :: u32) < 4294967296"
  using unsigned_less [of a] unsigned_less [of b] unsigned_less [of c] by simp_all

lemma of_be_be [simp]: "of_be16 (be16 w) = w" "of_be32 (be32 v) = v"
proof -
  have "unat w div 256 < 256" using unat_bounds(2) [of w] by (simp add: less_mult_imp_div_less)
  then have "of_le (rev (be16 w)) = unat w mod 256 + 256 * (unat w div 256)"
    by (simp add: be16_def unat_of_nat unsigned_ucast_eq take_bit_eq_mod)
  then show "of_be16 (be16 w) = w" by (simp add: of_be16_def)
  have "unat v < 2 ^ 32" using unat_bounds(3) [of v] by simp
  then show "of_be32 (be32 v) = v" by (simp add: of_be32_def be32_def of_le_le32)
qed

section \<open>A decoder at a position of its buffer\<close>

definition pk_stands :: "pk_decoder \<Rightarrow> bytes \<Rightarrow> nat \<Rightarrow> bool" where
  "pk_stands d bs n \<longleftrightarrow> pk_buffer d = bs \<and> pk_buff_len d = word_of_nat (length bs) \<and> length bs < 2 ^ 31 \<and>
     unat (pk_offset d) = n \<and> pk_status d = DecodeInit"

definition pk_ok :: "bytes \<Rightarrow> u16 \<times> bytes \<Rightarrow> bool" where
  "pk_ok ext m \<longleftrightarrow> length ext + length (snd m) < 2 ^ 30"

text \<open>The message of a decoder whose checksum is right.\<close>

definition pk_message :: "nat \<Rightarrow> pk_decoder \<Rightarrow> (u16 \<times> bytes) option" where
  "pk_message hs d =
     (if pk_check_sum hs d = Some True
      then map_option (Pair (pk_command d)) (read_bytes (pk_buffer d) (unat (pk_offset d) + hs) (unat (pk_body_length d)))
      else None)"

lemma unat_add_small: "unat (a :: u32) + k < 2 ^ 32 \<Longrightarrow> unat (a + word_of_nat k) = unat a + k"
  by (simp add: unat_word_ariths unat_of_nat)

lemma pk_vaild_iff:
  assumes "pk_stands d bs n" "n \<le> length bs" "k < 2 ^ 31"
  shows "pk_vaild (word_of_nat k) d \<longleftrightarrow> n + k \<le> length bs"
proof -
  have "unat (pk_offset d) + k < 2 ^ 32" using assms by (simp add: pk_stands_def)
  then have "unat (pk_offset d + word_of_nat k) = n + k" using assms(1) by (simp add: unat_add_small pk_stands_def)
  moreover have "unat (pk_buff_len d) = length bs" using assms(1) by (simp add: pk_stands_def unat_of_nat)
  ultimately show ?thesis by (simp add: pk_vaild_def word_le_nat_alt)
qed

lemma length_pk_frame: "length (pk_frame ext c m) = 8 + length ext + length m"
  by (simp add: pk_frame_def)

lemma read_bytes_at:
  assumes "drop n bs = xs @ ys @ zs" "n \<le> length bs"
  shows "read_bytes bs (n + length xs) (length ys) = Some ys"
proof -
  have "drop (n + length xs) bs = ys @ zs" using assms(1) by (metis append_eq_conv_conj drop_drop add.commute)
  moreover have "length bs = n + length (xs @ ys @ zs)" using assms(2) length_drop [of n bs] unfolding assms(1) [symmetric] by simp
  ultimately show ?thesis by (simp add: read_bytes_def)
qed

text \<open>The start of a package: what decode_msg reads of the head.\<close>

lemma pk_decode_start:
  assumes s: "pk_stands d bs n" and n: "n \<le> length bs" and ok: "pk_ok ext (c, m)" and hs: "hs = 6 + length ext"
    and l: "n + hs + 2 \<le> length bs" and p: "take hs (drop n bs) = be16 c @ be32 (word_of_nat (length m)) @ ext"
  shows "pk_decode_msg hs d =
    (let d = d\<lparr>pk_command := c, pk_body_length := word_of_nat (length m), pk_pack_len := word_of_nat (hs + length m + 2)\<rparr>
     in if n + (hs + length m + 2) \<le> length bs
        then map_option (\<lambda>tl. (True, d\<lparr>pk_checksum := of_be16 tl, pk_status := DecodeMsg\<rparr>)) (read_bytes bs (n + hs + length m) 2)
        else Some (False, d))"
proof -
  have small: "hs + length m + 2 < 2 ^ 31" "length m < 2 ^ 32" using ok hs by (simp_all add: pk_ok_def)
  have v1: "pk_vaild (word_of_nat (hs + 2)) d" using pk_vaild_iff [OF s n, of "hs + 2"] l small by simp
  have off: "unat (pk_offset d) = n" "pk_buffer d = bs" using s by (simp_all add: pk_stands_def)
  have h: "read_bytes bs n hs = Some (be16 c @ be32 (word_of_nat (length m)) @ ext)" using l p by (simp add: read_bytes_def)
  have f: "take 2 (be16 c @ be32 (word_of_nat (length m)) @ ext) = be16 c"
    "take 4 (drop 2 (be16 c @ be32 (word_of_nat (length m)) @ ext)) = be32 (word_of_nat (length m))"
    by (simp_all add: take_append drop_append)
  have u: "unat (word_of_nat (length m) :: u32) = length m" using small by (simp add: unat_of_nat)
  have s': "pk_stands (d\<lparr>pk_command := c, pk_body_length := word_of_nat (length m), pk_pack_len := word_of_nat (hs + length m + 2)\<rparr>) bs n"
    using s by (simp add: pk_stands_def)
  note v2 = pk_vaild_iff [OF s' n small(1)]
  show ?thesis
    unfolding pk_decode_msg_def using v1 v2
    by (simp add: off h f u Let_def map_option_case bind_eq_Some_conv split: option.splits)
qed

lemma pk_decode_whole:
  assumes s: "pk_stands d bs n" and n: "n \<le> length bs" and ok: "pk_ok ext m" and hs: "hs = 6 + length ext"
    and d: "drop n bs = pk_frame ext (fst m) (snd m) @ rest"
  shows "\<exists>d'. pk_decode_msg hs d = Some (True, d') \<and> pk_message hs d' = Some m \<and>
    pk_stands (pk_decode_next d') bs (n + length (pk_frame ext (fst m) (snd m)))"
proof -
  obtain c body where m: "m = (c, body)" by fastforce
  have small: "hs + length body + 2 < 2 ^ 31" "length body < 2 ^ 32" using ok hs m by (simp_all add: pk_ok_def)
  have len: "length bs = n + (hs + length body + 2) + length rest"
    using n d length_drop [of n bs] by (simp add: m length_pk_frame hs)
  have tk: "take hs (drop n bs) = be16 c @ be32 (word_of_nat (length body)) @ ext"
    by (simp add: d m pk_frame_def hs)
  define d' where "d' = d\<lparr>pk_command := c, pk_body_length := word_of_nat (length body),
    pk_pack_len := word_of_nat (hs + length body + 2), pk_checksum := generate_checksum body, pk_status := DecodeMsg\<rparr>"
  let ?head = "be16 c @ be32 (word_of_nat (length body)) @ ext"
  have "drop n bs = (?head @ body) @ be16 (generate_checksum body) @ rest" by (simp add: d m pk_frame_def)
  from read_bytes_at [OF this n] have tl: "read_bytes bs (n + hs + length body) 2 = Some (be16 (generate_checksum body))"
    by (simp add: hs add.assoc)
  have "drop n bs = ?head @ body @ be16 (generate_checksum body) @ rest" by (simp add: d m pk_frame_def)
  from read_bytes_at [OF this n] have body: "read_bytes bs (n + hs) (length body) = Some body" by (simp add: hs)
  have dec: "pk_decode_msg hs d = Some (True, d')"
    using pk_decode_start [OF s n ok [unfolded m] hs _ tk] len tl unfolding Let_def d'_def by simp
  have off: "unat (pk_offset d) = n" "pk_buffer d = bs" "pk_buff_len d = word_of_nat (length bs)" "length bs < 2 ^ 31"
    using s by (simp_all add: pk_stands_def)
  have u: "unat (word_of_nat (length body) :: u32) = length body" using small by (simp add: unat_of_nat)
  have msg: "pk_message hs d' = Some m"
    by (simp add: pk_message_def pk_check_sum_def pk_get_body_def d'_def off u body m)
  have "unat (pk_offset d + word_of_nat (hs + length body + 2)) = n + (hs + length body + 2)"
    using unat_add_small [of "pk_offset d" "hs + length body + 2"] off len small by simp
  then have "pk_stands (pk_decode_next d') bs (n + length (pk_frame ext (fst m) (snd m)))"
    using off by (simp add: pk_stands_def pk_decode_next_def pk_init_data_def d'_def m length_pk_frame hs add_ac)
  then show ?thesis using dec msg by blast
qed

lemma pk_decode_part:
  assumes s: "pk_stands d bs n" and n: "n \<le> length bs" and ok: "pk_ok ext m" and hs: "hs = 6 + length ext"
    and d: "pk_frame ext (fst m) (snd m) = drop n bs @ rest" and r: "rest \<noteq> []"
  shows "\<exists>d'. pk_decode_msg hs d = Some (False, d') \<and> unat (pk_get_deal_len d') = n"
proof -
  obtain c body where m: "m = (c, body)" by fastforce
  have small: "hs + length body + 2 < 2 ^ 31" using ok hs m by (simp add: pk_ok_def)
  have "length (pk_frame ext (fst m) (snd m)) = (length bs - n) + length rest" by (simp add: d)
  moreover have "0 < length rest" using r by simp
  ultimately have len: "length bs < n + (hs + length body + 2)" using n unfolding m length_pk_frame hs fst_conv snd_conv by linarith
  have off: "unat (pk_offset d) = n" using s by (simp add: pk_stands_def)
  show ?thesis
  proof (cases "n + hs + 2 \<le> length bs")
    case False
    then have "\<not> pk_vaild (word_of_nat (hs + 2)) d" using pk_vaild_iff [OF s n, of "hs + 2"] small by simp
    then show ?thesis using off by (simp add: pk_decode_msg_def pk_get_deal_len_def)
  next
    case True
    have "take hs (drop n bs) = take hs (pk_frame ext (fst m) (snd m))" using True by (simp add: d)
    also have "\<dots> = be16 c @ be32 (word_of_nat (length body)) @ ext" by (simp add: m pk_frame_def hs)
    finally show ?thesis
      using pk_decode_start [OF s n ok [unfolded m] hs True] len off by (simp add: Let_def pk_get_deal_len_def)
  qed
qed

interpretation pkf: package_format "\<lambda>m. pk_encode (fst m) (snd m)" "pk_ok []" "2 ^ 31"
  "\<lambda>bs. pk_new bs (word_of_nat (length bs))" pk_stands "pk_decode_msg 6" "pk_message 6" pk_decode_next "\<lambda>d. unat (pk_get_deal_len d)"
proof (unfold_locales, goal_cases)
  case (1 bs)
  then show ?case by (simp add: pk_stands_def pk_new_def pk_init_data_def)
next
  case (2 d bs n m rest)
  then show ?case using pk_decode_whole [of d bs n "[]" m 6 rest] by (simp add: pk_encode_def)
next
  case (3 d bs n m rest)
  then show ?case using pk_decode_part [of d bs n "[]" m 6 rest] by (simp add: pk_encode_def)
qed

text \<open>The length of the message before its encryption is the same number for all packages here; it is not decoded.\<close>

interpretation tdf: package_format "\<lambda>m. td_encode (fst m) (snd m) pb_len" "pk_ok (be32 pb_len)" "2 ^ 31"
  "\<lambda>bs. td_new bs (word_of_nat (length bs))" pk_stands td_decode_msg "pk_message 10" td_decode_next "\<lambda>d. unat (pk_get_deal_len d)"
  for pb_len
proof (unfold_locales, goal_cases)
  case (1 bs)
  then show ?case by (simp add: td_new_def pk_stands_def pk_new_def pk_init_data_def)
next
  case (2 d bs n m rest)
  then show ?case using pk_decode_whole [of d bs n "be32 pb_len" m 10 rest] by (simp add: td_encode_def td_decode_msg_def td_decode_next_def)
next
  case (3 d bs n m rest)
  then show ?case using pk_decode_part [of d bs n "be32 pb_len" m 10 rest] by (simp add: td_encode_def td_decode_msg_def)
qed

text \<open>C10: A received buffer with binary packages is decoded into exactly the messages that were encoded. For any
  messages with bodies shorter than 2 to the 30 bytes, and behind them the beginning of another such
  package that has not arrived as a whole, in a buffer below 2 to the 31 bytes, decoding one package
  after the other finds every command and body in order with a right checksum, never reads outside
  the buffer, and stops where the unfinished package begins. (A head that announces a body of nearly
  2 to the 32 bytes makes the decoder read outside the buffer: pb_length_overflow.)\<close>

theorem pb_memory_stream:
  assumes "\<forall>m \<in> set ms. length (snd m) < 2 ^ 30" "length (snd m) < 2 ^ 30" "rest \<noteq> []" "pk_encode (fst m) (snd m) = part @ rest"
    and "length (concat (map (\<lambda>m. pk_encode (fst m) (snd m)) ms) @ part) < 2 ^ 31"
  shows "(let bs = concat (map (\<lambda>m. pk_encode (fst m) (snd m)) ms)
    in collect (pk_decode_msg 6) (pk_message 6) pk_decode_next (\<lambda>d. unat (pk_get_deal_len d)) (length ms + 1)
         (pk_new (bs @ part) (word_of_nat (length (bs @ part)))) = Some (ms, length bs))"
proof -
  have "\<exists>m rest. pk_ok [] m \<and> rest \<noteq> [] \<and> pk_encode (fst m) (snd m) = part @ rest"
    using assms(2-4) by (intro exI [of _ m] exI [of _ rest]) (simp add: pk_ok_def)
  then show ?thesis using pkf.collect_open [of ms part] assms(1,5) by (simp add: Let_def pk_ok_def)
qed

theorem pb_memory_stream_witness:
  "collect (pk_decode_msg 6) (pk_message 6) pk_decode_next (\<lambda>d. unat (pk_get_deal_len d)) (Suc (Suc 0))
     (pk_new (pk_encode 7 [1, 2, 3]) 11) = Some ([(7, [1, 2, 3])], 11)"
proof -
  have l: "length (pk_encode 7 [1, 2, 3]) = 11" "pk_encode 0 [] \<noteq> []"
    by (simp_all add: pk_encode_def length_pk_frame) (simp add: pk_frame_def be16_def)
  show ?thesis
    using pb_memory_stream [of "[(7, [1, 2, 3])]" "(0, [])" "pk_encode 0 []" "[]"] l by (simp del: collect.simps)
qed

lemma pb_3des_stream:
  assumes "\<forall>m \<in> set ms. length (snd m) < 2 ^ 29" "length (snd m) < 2 ^ 29" "rest \<noteq> []" "td_encode (fst m) (snd m) pb_len = part @ rest"
    and "length (concat (map (\<lambda>m. td_encode (fst m) (snd m) pb_len) ms) @ part) < 2 ^ 31"
  shows "(let bs = concat (map (\<lambda>m. td_encode (fst m) (snd m) pb_len) ms)
    in collect td_decode_msg (pk_message 10) td_decode_next (\<lambda>d. unat (pk_get_deal_len d)) (length ms + 1)
         (td_new (bs @ part) (word_of_nat (length (bs @ part)))) = Some (ms, length bs))"
proof -
  have "\<exists>m rest. pk_ok (be32 pb_len) m \<and> rest \<noteq> [] \<and> td_encode (fst m) (snd m) pb_len = part @ rest"
    using assms(2-4) by (intro exI [of _ m] exI [of _ rest]) (simp add: pk_ok_def)
  moreover have "\<forall>m \<in> set ms. pk_ok (be32 pb_len) m" using assms(1) by (auto simp: pk_ok_def)
  ultimately show ?thesis using tdf.collect_open [of ms pb_len part] assms(5) by (simp add: Let_def)
qed

section \<open>Lengths near 2 to the 32\<close>

text \<open>A length close to 2 to the 32 makes the decoder read outside its buffer. The length of the package wraps
  around to a small number, which passes the test against the buffer's length, while the address of
  the tail is not cut; so any received buffer of at least 8 bytes whose first head has such a length,
  the checksum not being looked at, leads to a read more than 4 gigabytes behind it.\<close>

theorem pb_length_overflow:
  assumes "8 \<le> length bs" "length bs < 2 ^ 31" "take 4 (drop 2 bs) = be32 len" "2 ^ 32 - 8 \<le> unat len"
  shows "pk_decode_msg 6 (pk_new bs (word_of_nat (length bs))) = None"
proof -
  let ?d = "pk_new bs (word_of_nat (length bs))"
  have s: "pk_stands ?d bs 0" using assms(2) by (simp add: pk_stands_def pk_new_def pk_init_data_def)
  have v1: "pk_vaild 8 ?d" using pk_vaild_iff [OF s, of 8] assms(1) by simp
  have u: "unat len < 2 ^ 32" using unat_bounds(3) [of len] by simp
  define k where "k = unat len - (2 ^ 32 - 8)"
  have k: "unat len = (2 ^ 32 - 8) + k" "k < 8" using assms(4) u by (simp_all add: k_def)
  have "(word_of_nat (6 + unat len + 2) :: u32) = word_of_nat (2 ^ 32 + k)" by (rule arg_cong [where f = word_of_nat]) (use k in simp)
  also have "\<dots> = word_of_nat k" by (simp add: word_of_nat_eq_iff take_bit_eq_mod)
  finally have pl: "(word_of_nat (6 + unat len + 2) :: u32) = word_of_nat k" .
  have h: "read_bytes bs 0 6 = Some (take 6 bs)" "take 4 (drop 2 (take 6 bs)) = be32 len"
    using assms(1,3) by (simp_all add: read_bytes_def drop_take)
  have far: "read_bytes bs (6 + unat len) 2 = None" using k assms(2) by (simp add: read_bytes_def)
  have d0: "pk_offset ?d = 0" "pk_buffer ?d = bs" by (simp_all add: pk_new_def pk_init_data_def)
  have s': "pk_stands (?d\<lparr>pk_command := c, pk_body_length := l, pk_pack_len := p\<rparr>) bs 0" for c l p
    using s by (simp add: pk_stands_def)
  have v2: "pk_vaild (word_of_nat k) (?d\<lparr>pk_command := c, pk_body_length := l, pk_pack_len := p\<rparr>)" for c l p
    using pk_vaild_iff [OF s', of k] k assms(1) by simp
  have pl': "8 + len = word_of_nat k" using pl by simp
  have start: "pk_vaild (word_of_nat (6 + 2)) ?d" using v1 by simp
  have fields: "of_be32 (take 4 (drop 2 (take 6 bs))) = len" using h(2) by simp
  show ?thesis
    unfolding pk_decode_msg_def d0 unsigned_0 h(1) fields Let_def bind.bind_lunit
    using start v2 far by (simp add: pl' d0)
qed

theorem pb_length_overflow_witness:
  "pk_decode_msg 6 (pk_new [0, 1, 255, 255, 255, 248, 0, 0] 8) = None"
  using pb_length_overflow [of "[0, 1, 255, 255, 255, 248, 0, 0]" "0xFFFFFFF8"]
  by (simp add: be32_def le32_def)

section \<open>What the checksum finds\<close>

lemma fold_checksum: "fold (\<lambda>b cks. cks + ucast b) bs (c :: u32) = c + word_of_nat (sum_list (map unat bs))"
  by (induction bs arbitrary: c) (simp_all add: algebra_simps)

lemma checksum_value: "unat (generate_checksum bs) = sum_list (map unat bs) mod 256"
proof -
  define n where "n = sum_list (map unat bs)"
  have "unat (word_of_nat n mod 256 :: u32) = n mod 256"
    by (simp add: unat_mod unat_of_nat mod_mod_cancel)
  moreover have "n mod 256 < 65536" by (rule order_less_trans [of _ 256]) simp_all
  ultimately show ?thesis
    by (simp add: generate_checksum_def fold_checksum n_def [symmetric] unsigned_ucast_eq take_bit_eq_mod)
qed

text \<open>A body in which one byte is wrong has another checksum.\<close>

lemma checksum_one_byte:
  assumes "i < length bs" "b \<noteq> bs ! i"
  shows "generate_checksum (bs[i := b]) \<noteq> generate_checksum bs"
proof -
  have bs: "bs = take i bs @ bs ! i # drop (Suc i) bs" using assms(1) by (simp add: id_take_nth_drop [symmetric])
  have up: "bs[i := b] = take i bs @ b # drop (Suc i) bs" using assms(1) by (simp add: upd_conv_take_nth_drop)
  define k where "k = sum_list (map unat (take i bs)) + sum_list (map unat (drop (Suc i) bs))"
  have s1: "sum_list (map unat bs) = unat (bs ! i) + k" by (subst bs) (simp add: k_def)
  have s2: "sum_list (map unat (bs[i := b])) = unat b + k" by (simp add: up k_def)
  have lt: "unat b < 256" "unat (bs ! i) < 256" by (rule unat_bounds)+
  have "(unat b + k) mod 256 \<noteq> (unat (bs ! i) + k) mod 256"
  proof
    assume "(unat b + k) mod 256 = (unat (bs ! i) + k) mod 256"
    then have "int ((unat b + k) mod 256) = int ((unat (bs ! i) + k) mod 256)" by (rule arg_cong)
    then have "256 dvd int (unat b + k) - int (unat (bs ! i) + k)"
      unfolding zmod_int of_nat_numeral mod_eq_dvd_iff .
    then have dvd: "256 dvd int (unat b) - int (unat (bs ! i))" by simp
    have "\<bar>int (unat b) - int (unat (bs ! i))\<bar> < 256" using lt by linarith
    then have "int (unat b) - int (unat (bs ! i)) = 0"
      using dvd_imp_le_int [OF _ dvd] by (metis abs_numeral not_less)
    then show False using assms(2) by (simp add: word_uint_eq_iff)
  qed
  then show ?thesis using checksum_value [of bs] checksum_value [of "bs[i := b]"] s1 s2 by metis
qed

end
