(* ===== verification/Pb_Websocket.thy ===== *)
theory Pb_Websocket
  imports Packages C_Text
begin

text \<open>
  The textual packages of pb_message_package/pb_websocket_package.hpp: a head of four decimal numbers
  in fixed places, and the body. The numbers are read with ValueConvert::SafeConvert
  (value_convert.hpp), which uses boost's lexical_cast, the parameter cast: for a target type of so
  many values, the number a text stands for, or None for bad_lexical_cast.
\<close>

type_synonym lexical_cast = "nat \<Rightarrow> string \<Rightarrow> nat option"

text \<open>What is relied on: a decimal number below the limit is converted to its value.\<close>

definition cast_ok :: "lexical_cast \<Rightarrow> bool" where
  "cast_ok cast \<longleftrightarrow> (\<forall>limit s. s \<noteq> [] \<and> (\<forall>c \<in> set s. is_digit c) \<and> value_of 0 s < limit \<longrightarrow> cast limit s = Some (value_of 0 s))"

definition text_of :: "bytes \<Rightarrow> string" where
  "text_of bs = map (\<lambda>b. char_of (unat b)) bs"

definition bytes_of :: "string \<Rightarrow> bytes" where
  "bytes_of s = map of_char s"

text \<open>
  At most count bytes, and no more than strlen finds. The arrays of the head are not terminated, so
  strlen goes on behind them; what it finds there makes no difference to the count.
\<close>

(* src: value_convert.hpp 34-43 ValueConvert::SafeConvert *)
definition safe_convert :: "lexical_cast \<Rightarrow> nat \<Rightarrow> nat \<Rightarrow> bytes \<Rightarrow> nat option" where
  "safe_convert cast limit cnt chars = cast limit (text_of (takeWhile (\<lambda>b. b \<noteq> 0) (take cnt chars)))"

(* src: pb_message_package/pb_websocket_package.hpp 24-29 PackHeader *)
record ws_head =
  wh_command :: bytes
  wh_pb_body_length :: bytes
  wh_checksum :: bytes
  wh_body_length :: bytes

(* src: pb_message_package/pb_websocket_package.hpp 54-58 DecodePackage::DecodeStatus *)
datatype ws_status = WsInit | WsMsg

(* src: pb_message_package/pb_websocket_package.hpp 190-197 DecodePackage *)
record ws_decoder =
  wd_buffer :: "bytes option"
  wd_buff_len :: u64
  wd_offset :: u64
  wd_status :: ws_status
  wd_pack_len :: u64
  wd_body_len :: u64
  wd_head :: ws_head

definition ws_head_size :: nat where "ws_head_size = 24"

text \<open>The characters are signed.\<close>

(* src: pb_message_package/pb_websocket_package.hpp 40-47 Package::generate_checksum *)
definition ws_generate_checksum :: "bytes \<Rightarrow> u32" where
  "ws_generate_checksum send_msg = fold (\<lambda>b cks. cks + scast b) send_msg 0 mod 256"

(* src: pb_message_package/pb_websocket_package.hpp 181-187 DecodePackage::init_data *)
definition ws_init_data :: "ws_decoder \<Rightarrow> ws_decoder" where
  "ws_init_data d = d\<lparr>wd_status := WsInit, wd_pack_len := 0, wd_body_len := 0,
     wd_head := \<lparr>wh_command = replicate 4 0, wh_pb_body_length = replicate 8 0, wh_checksum = replicate 4 0, wh_body_length = replicate 8 0\<rparr>\<rparr>"

(* src: pb_message_package/pb_websocket_package.hpp 61-67 DecodePackage::DecodePackage *)
definition ws_new :: "bytes option \<Rightarrow> u64 \<Rightarrow> ws_decoder" where
  "ws_new recv_msg len = ws_init_data
     \<lparr>wd_buffer = recv_msg, wd_buff_len = len, wd_offset = 0, wd_status = WsInit, wd_pack_len = 0, wd_body_len = 0,
      wd_head = \<lparr>wh_command = [], wh_pb_body_length = [], wh_checksum = [], wh_body_length = []\<rparr>\<rparr>"

(* src: pb_message_package/pb_websocket_package.hpp 177-179 DecodePackage::vaild *)
definition ws_vaild :: "u64 \<Rightarrow> ws_decoder \<Rightarrow> bool" where
  "ws_vaild read_length d \<longleftrightarrow> wd_buffer d \<noteq> None \<and> wd_offset d + read_length \<le> wd_buff_len d"

(* src: pb_message_package/pb_websocket_package.hpp 71-77 DecodePackage::is_entire *)
definition ws_is_entire :: "ws_decoder \<Rightarrow> bool" where
  "ws_is_entire d = (if wd_status d = WsInit then False else ws_vaild (wd_pack_len d) d)"

text \<open>A number that cannot be converted is 0.\<close>

(* src: pb_message_package/pb_websocket_package.hpp 85-89 DecodePackage::get_command *)
definition ws_get_command :: "lexical_cast \<Rightarrow> ws_decoder \<Rightarrow> nat" where
  "ws_get_command cast d = (case safe_convert cast (2 ^ 64) 4 (wh_command (wd_head d)) of None \<Rightarrow> 0 | Some n \<Rightarrow> n)"

(* src: pb_message_package/pb_websocket_package.hpp 92-96 DecodePackage::get_body_length *)
definition ws_get_body_length :: "lexical_cast \<Rightarrow> ws_decoder \<Rightarrow> nat" where
  "ws_get_body_length cast d = (case safe_convert cast (2 ^ 64) 8 (wh_body_length (wd_head d)) of None \<Rightarrow> 0 | Some n \<Rightarrow> n)"

(* src: pb_message_package/pb_websocket_package.hpp 99-103 DecodePackage::get_checksum *)
definition ws_get_checksum :: "lexical_cast \<Rightarrow> ws_decoder \<Rightarrow> nat" where
  "ws_get_checksum cast d = (case safe_convert cast (2 ^ 64) 4 (wh_checksum (wd_head d)) of None \<Rightarrow> 0 | Some n \<Rightarrow> n)"

text \<open>A copy out of the buffer.\<close>

definition ws_read :: "ws_decoder \<Rightarrow> nat \<Rightarrow> nat \<Rightarrow> bytes option" where
  "ws_read d pos n =
     do { buf \<leftarrow> wd_buffer d; if pos + n \<le> length buf then Some (take n (drop pos buf)) else None }"

definition ws_split_head :: "bytes \<Rightarrow> ws_head" where
  "ws_split_head h = \<lparr>wh_command = take 4 h, wh_pb_body_length = take 8 (drop 4 h), wh_checksum = take 4 (drop 12 h),
     wh_body_length = take 8 (drop 16 h)\<rparr>"

(* src: pb_message_package/pb_websocket_package.hpp 106-124 DecodePackage::decode_msg *)
definition ws_decode_msg :: "lexical_cast \<Rightarrow> ws_decoder \<Rightarrow> (bool \<times> ws_decoder) option" where
  "ws_decode_msg cast d =
     (if \<not> ws_vaild (word_of_nat ws_head_size) d then Some (False, d)
      else do {
        h \<leftarrow> ws_read d (unat (wd_offset d)) ws_head_size;
        let d = d\<lparr>wd_head := ws_split_head h\<rparr>;
        (case safe_convert cast (2 ^ 64) 8 (wh_body_length (wd_head d)) of
           None \<Rightarrow> Some (False, d)
         | Some body_len \<Rightarrow>
             let d = d\<lparr>wd_pack_len := word_of_nat (ws_head_size + body_len)\<rparr>
             in if \<not> ws_vaild (wd_pack_len d) d then Some (False, d) else Some (True, d\<lparr>wd_status := WsMsg\<rparr>)) })"

(* src: pb_message_package/pb_websocket_package.hpp 127-133 DecodePackage::get_body *)
definition ws_get_body :: "ws_decoder \<Rightarrow> nat option" where
  "ws_get_body d = (if wd_status d = WsInit then None else Some (unat (wd_offset d) + ws_head_size))"

(* src: pb_message_package/pb_websocket_package.hpp 135-145 DecodePackage::check_sum *)
definition ws_check_sum :: "lexical_cast \<Rightarrow> ws_decoder \<Rightarrow> bool option" where
  "ws_check_sum cast d =
     (case ws_get_body d of
        None \<Rightarrow> Some False
      | Some pos \<Rightarrow>
          (case safe_convert cast (2 ^ 32) 4 (wh_checksum (wd_head d)) of
             None \<Rightarrow> Some False
           | Some chk \<Rightarrow> map_option (\<lambda>body. ws_generate_checksum body = word_of_nat chk) (ws_read d pos (ws_get_body_length cast d))))"

(* src: pb_message_package/pb_websocket_package.hpp 148-154 DecodePackage::has_next *)
definition ws_has_next :: "ws_decoder \<Rightarrow> bool" where
  "ws_has_next d = (if wd_status d = WsInit then ws_vaild (word_of_nat ws_head_size) d else ws_vaild (wd_pack_len d + 1) d)"

(* src: pb_message_package/pb_websocket_package.hpp 157-161 DecodePackage::decode_next *)
definition ws_decode_next :: "ws_decoder \<Rightarrow> ws_decoder" where
  "ws_decode_next d = ws_init_data (d\<lparr>wd_offset := wd_offset d + wd_pack_len d\<rparr>)"

(* src: pb_message_package/pb_websocket_package.hpp 164-167 DecodePackage::get_deal_len *)
definition ws_get_deal_len :: "ws_decoder \<Rightarrow> u64" where
  "ws_get_deal_len d = wd_offset d"

(* src: pb_message_package/pb_websocket_package.hpp 170-173 DecodePackage::get_res_len *)
definition ws_get_res_len :: "ws_decoder \<Rightarrow> u64" where
  "ws_get_res_len d = wd_buff_len d - wd_offset d"

text \<open>sprintf_s into a place; a number that does not fit calls the handler for invalid parameters, which ends the program.\<close>

definition sprintf_field :: "nat \<Rightarrow> nat \<Rightarrow> int \<Rightarrow> bytes option" where
  "sprintf_field n w x = (let s = fmt_int w x in if length s < n then Some (bytes_of s) else None)"

(* src: pb_message_package/pb_websocket_package.hpp 204-229 EncodePackage::EncodePackage *)
definition ws_encode :: "u32 \<Rightarrow> bytes \<Rightarrow> nat \<Rightarrow> bytes option" where
  "ws_encode command send_msg pb_len =
     do { c \<leftarrow> sprintf_field 5 4 (sint command);
          p \<leftarrow> sprintf_field 9 8 (to_int32 (int pb_len));
          k \<leftarrow> sprintf_field 5 4 (sint (ws_generate_checksum send_msg));
          l \<leftarrow> sprintf_field 9 8 (to_int32 (int (length send_msg)));
          Some (c @ p @ k @ l @ send_msg) }"

section \<open>Numbers in their places\<close>

lemma unat_of_char: "unat (of_char c :: u8) = of_char c"
proof -
  have e: "(of_char c :: u8) = word_of_nat (of_char c)" by (rule of_nat_of_char [symmetric])
  show ?thesis unfolding e unat_of_nat by simp
qed

lemma text_of_bytes_of [simp]: "text_of (bytes_of s) = s"
  by (induction s) (simp_all add: text_of_def bytes_of_def unat_of_char)

lemma bytes_of_nonzero: "\<forall>c \<in> set s. is_digit c \<Longrightarrow> \<forall>b \<in> set (bytes_of s). b \<noteq> 0"
proof -
  assume d: "\<forall>c \<in> set s. is_digit c"
  have "(of_char c :: u8) \<noteq> 0" if "c \<in> set s" for c
  proof
    assume "(of_char c :: u8) = 0"
    then have "(of_char c :: nat) = 0" using unat_of_char [of c] by simp
    then show False using d that by (auto simp: is_digit_def)
  qed
  then show ?thesis by (auto simp: bytes_of_def)
qed

lemma length_bytes_of [simp]: "length (bytes_of s) = length s"
  by (simp add: bytes_of_def)

text \<open>A number printed into a place of w characters and read again.\<close>

lemma sprintf_field_fits:
  assumes "0 < w" "0 \<le> x" "x < 10 ^ w"
  shows "sprintf_field (w + 1) w x = Some (bytes_of (fmt_int w x))" "length (fmt_int w x) = w"
  using length_fmt_int [OF assms] by (simp_all add: sprintf_field_def)

lemma safe_convert_field:
  assumes "cast_ok cast" "0 < w" "0 \<le> x" "x < 10 ^ w" "nat x < limit"
  shows "safe_convert cast limit w (bytes_of (fmt_int w x)) = Some (nat x)"
proof -
  have l: "length (fmt_int w x) = w" using sprintf_field_fits(2) [OF assms(2-4)] .
  have d: "\<forall>c \<in> set (fmt_int w x). is_digit c" using fmt_int_digits [OF assms(3)] .
  have v: "value_of 0 (fmt_int w x) = nat x" using assms(3) pad_zeros_props(3) by (simp add: fmt_int_def)
  have "takeWhile (\<lambda>b. b \<noteq> 0) (take w (bytes_of (fmt_int w x))) = bytes_of (fmt_int w x)"
    using bytes_of_nonzero [OF d] l by simp
  moreover have "fmt_int w x \<noteq> []" using l assms(2) by auto
  ultimately show ?thesis using assms(1,5) d v by (simp add: safe_convert_def cast_ok_def)
qed

section \<open>A decoder at a position of its buffer\<close>

definition ws_stands :: "ws_decoder \<Rightarrow> bytes \<Rightarrow> nat \<Rightarrow> bool" where
  "ws_stands d bs n \<longleftrightarrow> wd_buffer d = Some bs \<and> wd_buff_len d = word_of_nat (length bs) \<and> length bs < 2 ^ 62 \<and>
     unat (wd_offset d) = n \<and> wd_status d = WsInit"

text \<open>Messages whose numbers have room in their places.\<close>

definition ws_ok :: "lexical_cast \<Rightarrow> nat \<Rightarrow> nat \<times> bytes \<Rightarrow> bool" where
  "ws_ok cast pb_len m \<longleftrightarrow> cast_ok cast \<and> fst m < 10000 \<and> length (snd m) < 100000000 \<and> pb_len < 100000000"

definition ws_bytes :: "nat \<Rightarrow> nat \<times> bytes \<Rightarrow> bytes" where
  "ws_bytes pb_len m = (case ws_encode (word_of_nat (fst m)) (snd m) pb_len of None \<Rightarrow> [] | Some bs \<Rightarrow> bs)"

definition ws_message :: "lexical_cast \<Rightarrow> ws_decoder \<Rightarrow> (nat \<times> bytes) option" where
  "ws_message cast d =
     (if ws_check_sum cast d = Some True
      then map_option (Pair (ws_get_command cast d)) (ws_read d (unat (wd_offset d) + ws_head_size) (ws_get_body_length cast d))
      else None)"

lemma sint_small: "n < 2 ^ 31 \<Longrightarrow> sint (word_of_nat n :: u32) = int n"
  by (simp add: signed_of_nat signed_take_bit_int_eq_self)

lemma unat_add_small64: "unat (a :: u64) + k < 2 ^ 64 \<Longrightarrow> unat (a + word_of_nat k) = unat a + k"
  by (simp add: unat_word_ariths unat_of_nat)

lemma checksum_small: "unat (ws_generate_checksum m) < 256"
  by (simp add: ws_generate_checksum_def unat_mod)

lemma checksum_small_int: "uint (ws_generate_checksum m) < 256"
proof -
  have "int (unat (ws_generate_checksum m)) < int 256" unfolding of_nat_less_iff by (rule checksum_small)
  then show ?thesis by simp
qed

text \<open>The parts of a package.\<close>

definition ws_parts :: "nat \<Rightarrow> nat \<times> bytes \<Rightarrow> bytes" where
  "ws_parts pb_len m = bytes_of (fmt_int 4 (int (fst m))) @ bytes_of (fmt_int 8 (int pb_len)) @
     bytes_of (fmt_int 4 (int (unat (ws_generate_checksum (snd m))))) @ bytes_of (fmt_int 8 (int (length (snd m))))"

lemma ws_encode_ok:
  assumes "ws_ok cast pb_len m"
  shows "ws_encode (word_of_nat (fst m)) (snd m) pb_len = Some (ws_parts pb_len m @ snd m)"
    "length (ws_parts pb_len m) = 24"
proof -
  have b: "fst m < 10000" "length (snd m) < 100000000" "pb_len < 100000000" using assms by (simp_all add: ws_ok_def)
  define k where "k = ws_generate_checksum (snd m)"
  have k: "unat k < 256" "uint k < 256" unfolding k_def by (rule checksum_small, rule checksum_small_int)
  have sk: "sint k = int (unat k)" using k(1) sint_small [of "unat k"] by simp
  have sc: "sint (word_of_nat (fst m) :: u32) = int (fst m)" using b by (simp add: sint_small)
  have f: "sprintf_field 5 4 (int (fst m)) = Some (bytes_of (fmt_int 4 (int (fst m))))"
    "sprintf_field 9 8 (int pb_len) = Some (bytes_of (fmt_int 8 (int pb_len)))"
    "sprintf_field 5 4 (int (unat k)) = Some (bytes_of (fmt_int 4 (int (unat k))))"
    "sprintf_field 9 8 (int (length (snd m))) = Some (bytes_of (fmt_int 8 (int (length (snd m)))))"
    using sprintf_field_fits(1) [of 4 "int (fst m)"] sprintf_field_fits(1) [of 8 "int pb_len"]
      sprintf_field_fits(1) [of 4 "int (unat k)"] sprintf_field_fits(1) [of 8 "int (length (snd m))"] b k by simp_all
  have t: "to_int32 (int pb_len) = int pb_len" "to_int32 (int (length (snd m))) = int (length (snd m))" using b by simp_all
  show "ws_encode (word_of_nat (fst m)) (snd m) pb_len = Some (ws_parts pb_len m @ snd m)"
    unfolding ws_encode_def k_def [symmetric] sc sk t f ws_parts_def by simp
  have "length (fmt_int 4 (int (fst m))) = 4" "length (fmt_int 8 (int pb_len)) = 8" "length (fmt_int 4 (int (unat k))) = 4"
    "length (fmt_int 8 (int (length (snd m)))) = 8"
    using b k by (simp_all add: length_fmt_int)
  then show "length (ws_parts pb_len m) = 24" by (simp add: ws_parts_def k_def)
qed

lemma ws_split_parts:
  assumes "ws_ok cast pb_len m"
  shows "wh_command (ws_split_head (ws_parts pb_len m)) = bytes_of (fmt_int 4 (int (fst m)))"
    "wh_checksum (ws_split_head (ws_parts pb_len m)) = bytes_of (fmt_int 4 (int (unat (ws_generate_checksum (snd m)))))"
    "wh_body_length (ws_split_head (ws_parts pb_len m)) = bytes_of (fmt_int 8 (int (length (snd m))))"
proof -
  have b: "fst m < 10000" "length (snd m) < 100000000" "pb_len < 100000000" using assms by (simp_all add: ws_ok_def)
  have "length (fmt_int 4 (int (fst m))) = 4" "length (fmt_int 8 (int pb_len)) = 8"
    "length (fmt_int 4 (int (unat (ws_generate_checksum (snd m))))) = 4" "length (fmt_int 8 (int (length (snd m)))) = 8"
    using b checksum_small_int [of "snd m"] by (simp_all add: length_fmt_int)
  then show "wh_command (ws_split_head (ws_parts pb_len m)) = bytes_of (fmt_int 4 (int (fst m)))"
    "wh_checksum (ws_split_head (ws_parts pb_len m)) = bytes_of (fmt_int 4 (int (unat (ws_generate_checksum (snd m)))))"
    "wh_body_length (ws_split_head (ws_parts pb_len m)) = bytes_of (fmt_int 8 (int (length (snd m))))"
    by (simp_all add: ws_split_head_def ws_parts_def take_append drop_append)
qed

lemma ws_vaild_iff:
  assumes "ws_stands d bs n" "n \<le> length bs" "k < 2 ^ 62"
  shows "ws_vaild (word_of_nat k) d \<longleftrightarrow> n + k \<le> length bs"
proof -
  have "unat (wd_offset d) + k < 2 ^ 64" using assms by (simp add: ws_stands_def)
  then have "unat (wd_offset d + word_of_nat k) = n + k" using assms(1) by (simp add: unat_add_small64 ws_stands_def)
  moreover have "unat (wd_buff_len d) = length bs" using assms(1) by (simp add: ws_stands_def unat_of_nat)
  ultimately show ?thesis using assms(1) by (simp add: ws_vaild_def word_le_nat_alt ws_stands_def)
qed

lemma ws_decode_start:
  assumes s: "ws_stands d bs n" and n: "n \<le> length bs" and ok: "ws_ok cast pb_len m"
    and l: "n + 24 \<le> length bs" and p: "take 24 (drop n bs) = ws_parts pb_len m"
  shows "ws_decode_msg cast d =
    (let d = d\<lparr>wd_head := ws_split_head (ws_parts pb_len m), wd_pack_len := word_of_nat (24 + length (snd m))\<rparr>
     in if n + (24 + length (snd m)) \<le> length bs then Some (True, d\<lparr>wd_status := WsMsg\<rparr>) else Some (False, d))"
proof -
  have b: "length (snd m) < 100000000" "cast_ok cast" using ok by (simp_all add: ws_ok_def)
  have v1: "ws_vaild (word_of_nat 24) d" using ws_vaild_iff [OF s n, of 24] l by simp
  have off: "unat (wd_offset d) = n" "wd_buffer d = Some bs" using s by (simp_all add: ws_stands_def)
  have h: "ws_read d n 24 = Some (ws_parts pb_len m)" using l p by (simp add: ws_read_def off)
  have c: "safe_convert cast (2 ^ 64) 8 (wh_body_length (ws_split_head (ws_parts pb_len m))) = Some (length (snd m))"
    unfolding ws_split_parts(3) [OF ok] using safe_convert_field [OF b(2), of 8 "int (length (snd m))"] b(1) by simp
  let ?d = "d\<lparr>wd_head := ws_split_head (ws_parts pb_len m), wd_pack_len := word_of_nat (24 + length (snd m))\<rparr>"
  have "ws_stands ?d bs n" using s by (simp add: ws_stands_def)
  then have v2: "ws_vaild (word_of_nat (24 + length (snd m))) ?d \<longleftrightarrow> n + (24 + length (snd m)) \<le> length bs"
    by (rule ws_vaild_iff [OF _ n]) (use b(1) in simp)
  show ?thesis
    unfolding ws_decode_msg_def ws_head_size_def off(1) h bind.bind_lunit Let_def using v1 v2 c by simp
qed

lemma ws_decode_whole:
  assumes s: "ws_stands d bs n" and n: "n \<le> length bs" and ok: "ws_ok cast pb_len m"
    and d: "drop n bs = ws_bytes pb_len m @ rest"
  shows "\<exists>d'. ws_decode_msg cast d = Some (True, d') \<and> ws_message cast d' = Some m \<and>
    ws_stands (ws_decode_next d') bs (n + length (ws_bytes pb_len m))"
proof -
  obtain c body where m: "m = (c, body)" by fastforce
  have b: "c < 10000" "length body < 100000000" "cast_ok cast" using ok by (simp_all add: ws_ok_def m)
  have wb: "ws_bytes pb_len m = ws_parts pb_len m @ body" using ws_encode_ok(1) [OF ok] by (simp add: ws_bytes_def m)
  have l24: "length (ws_parts pb_len m) = 24" using ws_encode_ok(2) [OF ok] .
  have len: "length bs = n + (24 + length body) + length rest"
    using n length_drop [of n bs] by (simp add: d wb l24)
  have tk: "take 24 (drop n bs) = ws_parts pb_len m" by (simp add: d wb l24)
  have "drop (n + 24) bs = body @ rest" by (metis add.commute append_assoc append_eq_conv_conj d drop_drop l24 wb)
  then have body: "take (length body) (drop (n + 24) bs) = body" by simp
  define d' where "d' = d\<lparr>wd_head := ws_split_head (ws_parts pb_len m), wd_pack_len := word_of_nat (24 + length body), wd_status := WsMsg\<rparr>"
  have dec: "ws_decode_msg cast d = Some (True, d')"
    using ws_decode_start [OF s n ok _ tk] len by (simp add: Let_def d'_def m)
  have off: "unat (wd_offset d) = n" "wd_buffer d = Some bs" "wd_buff_len d = word_of_nat (length bs)" "length bs < 2 ^ 62"
    using s by (simp_all add: ws_stands_def)
  note H = ws_split_parts [OF ok, unfolded m fst_conv snd_conv]
  have bl: "ws_get_body_length cast d' = length body"
    using safe_convert_field [OF b(3), of 8 "int (length body)" "2 ^ 64"] b(2) by (simp add: ws_get_body_length_def d'_def H m)
  have cm: "ws_get_command cast d' = c"
    using safe_convert_field [OF b(3), of 4 "int c" "2 ^ 64"] b(1) by (simp add: ws_get_command_def d'_def H m)
  have rd: "ws_read d' (n + 24) (length body) = Some body" using body len by (simp add: ws_read_def d'_def off)
  have ck: "safe_convert cast (2 ^ 32) 4 (wh_checksum (wd_head d')) = Some (unat (ws_generate_checksum body))"
    using safe_convert_field [OF b(3), of 4 "int (unat (ws_generate_checksum body))" "2 ^ 32"] checksum_small_int [of body] checksum_small [of body]
    by (simp add: d'_def H m)
  have pos: "ws_get_body d' = Some (n + 24)" "unat (wd_offset d') = n" by (simp_all add: ws_get_body_def d'_def off ws_head_size_def)
  have msg: "ws_message cast d' = Some m"
    unfolding ws_message_def ws_check_sum_def pos bl cm ck ws_head_size_def by (simp add: rd m)
  have "unat (wd_offset d + word_of_nat (24 + length body)) = n + (24 + length body)"
    using unat_add_small64 [of "wd_offset d" "24 + length body"] off len by simp
  then have "ws_stands (ws_decode_next d') bs (n + length (ws_bytes pb_len m))"
    using off by (simp add: ws_stands_def ws_decode_next_def ws_init_data_def d'_def wb l24)
  then show ?thesis using dec msg by blast
qed

lemma ws_decode_part:
  assumes s: "ws_stands d bs n" and n: "n \<le> length bs" and ok: "ws_ok cast pb_len m"
    and d: "ws_bytes pb_len m = drop n bs @ rest" and r: "rest \<noteq> []"
  shows "\<exists>d'. ws_decode_msg cast d = Some (False, d') \<and> unat (ws_get_deal_len d') = n"
proof -
  have wb: "ws_bytes pb_len m = ws_parts pb_len m @ snd m" using ws_encode_ok(1) [OF ok] by (simp add: ws_bytes_def)
  have l24: "length (ws_parts pb_len m) = 24" using ws_encode_ok(2) [OF ok] .
  have "length (ws_bytes pb_len m) = (length bs - n) + length rest" by (simp add: d)
  moreover have "0 < length rest" using r by simp
  ultimately have len: "length bs < n + (24 + length (snd m))" using n unfolding wb length_append l24 by linarith
  have off: "unat (wd_offset d) = n" using s by (simp add: ws_stands_def)
  show ?thesis
  proof (cases "n + 24 \<le> length bs")
    case False
    then have "\<not> ws_vaild (word_of_nat 24) d" using ws_vaild_iff [OF s n, of 24] by simp
    then show ?thesis using off by (simp add: ws_decode_msg_def ws_get_deal_len_def ws_head_size_def)
  next
    case True
    have "take 24 (drop n bs) = take 24 (ws_bytes pb_len m)" using True by (simp add: d)
    also have "\<dots> = ws_parts pb_len m" by (simp add: wb l24)
    finally show ?thesis
      using ws_decode_start [OF s n ok True] len off by (simp add: Let_def ws_get_deal_len_def)
  qed
qed

interpretation wsf: package_format "ws_bytes pb_len" "ws_ok cast pb_len" "2 ^ 62"
  "\<lambda>bs. ws_new (Some bs) (word_of_nat (length bs))" ws_stands "ws_decode_msg cast" "ws_message cast" ws_decode_next
  "\<lambda>d. unat (ws_get_deal_len d)"
  for cast pb_len
proof (unfold_locales, goal_cases)
  case (1 bs)
  then show ?case by (simp add: ws_stands_def ws_new_def ws_init_data_def)
next
  case (2 d bs n m rest)
  then show ?case by (intro ws_decode_whole)
next
  case (3 d bs n m rest)
  then show ?case by (intro ws_decode_part)
qed

text \<open>Textual packages are decoded into exactly the messages that were encoded. For commands below 10000 and bodies
  below 100000000 bytes, whose numbers have room in the head, encoding succeeds, and a buffer with
  the packages of any such messages and the beginning of another is decoded into all their commands
  and bodies in order, with right checksums, up to where the unfinished package begins. Of
  lexical_cast only the conversion of decimal numbers is used.\<close>

theorem pb_websocket_stream:
  assumes "cast_ok cast" "pb_len < 100000000" "\<forall>m \<in> set (m # ms). fst m < 10000 \<and> length (snd m) < 100000000"
    and "rest \<noteq> []" "ws_encode (word_of_nat (fst m)) (snd m) pb_len = Some (part @ rest)"
    and "map (\<lambda>m. ws_encode (word_of_nat (fst m)) (snd m) pb_len) ms = map Some packs"
    and "length (concat packs @ part) < 2 ^ 62"
  shows "collect (ws_decode_msg cast) (ws_message cast) ws_decode_next (\<lambda>d. unat (ws_get_deal_len d)) (length ms + 1)
    (ws_new (Some (concat packs @ part)) (word_of_nat (length (concat packs @ part)))) = Some (ms, length (concat packs))"
proof -
  have ok: "\<forall>m \<in> set ms. ws_ok cast pb_len m" "ws_ok cast pb_len m" using assms(1-3) by (simp_all add: ws_ok_def)
  have "map (ws_bytes pb_len) ms = map the (map (\<lambda>m. ws_encode (word_of_nat (fst m)) (snd m) pb_len) ms)"
    using ok(1) ws_encode_ok(1) by (auto simp: ws_bytes_def)
  also have "\<dots> = packs" unfolding assms(6) by (simp add: comp_def)
  finally have packs: "packs = map (ws_bytes pb_len) ms" by simp
  have "\<exists>m rest. ws_ok cast pb_len m \<and> rest \<noteq> [] \<and> ws_bytes pb_len m = part @ rest"
    using ok(2) assms(4,5) by (intro exI [of _ m] exI [of _ rest]) (simp add: ws_bytes_def)
  then show ?thesis using wsf.collect_open [OF ok(1), of part] assms(7) by (simp add: packs)
qed

text \<open>A conversion of decimal numbers, for the example.\<close>

definition decimal_cast :: lexical_cast where
  "decimal_cast limit s = (if s \<noteq> [] \<and> list_all is_digit s \<and> value_of 0 s < limit then Some (value_of 0 s) else None)"

lemma decimal_cast_ok: "cast_ok decimal_cast"
  by (simp add: cast_ok_def decimal_cast_def list_all_iff)

theorem pb_websocket_stream_witness:
  "\<exists>bs. ws_encode 7 [1, 2, 3] 3 = Some bs \<and>
    collect (ws_decode_msg decimal_cast) (ws_message decimal_cast) ws_decode_next (\<lambda>d. unat (ws_get_deal_len d)) (Suc (Suc 0))
      (ws_new (Some bs) (word_of_nat (length bs))) = Some ([(7, [1, 2, 3])], length bs)"
proof -
  have ok: "ws_ok decimal_cast 3 (7, [1, 2, 3])" "ws_ok decimal_cast 3 (0, [])" by (simp_all add: ws_ok_def decimal_cast_ok)
  obtain bs where bs: "ws_encode 7 [1, 2, 3] 3 = Some bs" "length bs = 27"
    using ws_encode_ok [OF ok(1)] by simp
  obtain rest where rest: "ws_encode 0 [] 3 = Some rest" "rest \<noteq> []"
    using ws_encode_ok [OF ok(2)] by fastforce
  show ?thesis
    using pb_websocket_stream [OF decimal_cast_ok, of 3 "(0, [])" "[(7, [1, 2, 3])]" rest "[]" "[bs]"] bs rest
    by (simp del: collect.simps)
qed

text \<open>
  A length with a sign: lexical_cast of an unsigned type takes -24 in the place of the length for
  2 to the 64 less 24, so that the length of the package wraps to 0 and the decoder never gets
  behind the package.
\<close>

lemma ws_negative_length:
  assumes "safe_convert cast (2 ^ 64) 8 (wh_body_length (ws_split_head (take 24 bs))) = Some (2 ^ 64 - 24)"
    and "24 \<le> length bs" "length bs < 2 ^ 62"
  shows "\<exists>d'. ws_decode_msg cast (ws_new (Some bs) (word_of_nat (length bs))) = Some (True, d') \<and>
    wd_offset (ws_decode_next d') = 0 \<and> wd_buffer (ws_decode_next d') = Some bs"
proof -
  let ?d = "ws_new (Some bs) (word_of_nat (length bs))"
  have s: "ws_stands ?d bs 0" using assms(3) by (simp add: ws_stands_def ws_new_def ws_init_data_def)
  have v1: "ws_vaild (word_of_nat 24) ?d" using ws_vaild_iff [OF s, of 24] assms(2) by simp
  have d0: "unat (wd_offset ?d) = 0" "wd_offset ?d = 0" "wd_buffer ?d = Some bs" by (simp_all add: ws_new_def ws_init_data_def)
  have h: "ws_read ?d 0 24 = Some (take 24 bs)" using assms(2) by (simp add: ws_read_def d0)
  have pl: "(word_of_nat (24 + (2 ^ 64 - 24)) :: u64) = 0" by simp
  have pl': "(18446744073709551616 :: u64) = 0" by simp
  have v2: "ws_vaild 0 (?d\<lparr>wd_head := hd, wd_pack_len := 0\<rparr>)" for hd by (simp add: ws_vaild_def d0)
  have "ws_decode_msg cast ?d = Some (True, ?d\<lparr>wd_head := ws_split_head (take 24 bs), wd_pack_len := 0, wd_status := WsMsg\<rparr>)"
    unfolding ws_decode_msg_def ws_head_size_def d0(1) h bind.bind_lunit Let_def
    using v1 v2 assms(1) by (simp add: pl')
  then show ?thesis by (simp add: ws_decode_next_def ws_init_data_def d0)
qed

end
