(* ===== verification/Encrypt_Base.thy ===== *)
theory Encrypt_Base
  imports Prelude
begin

text \<open>
  EncryptBase (encrypt/encrypt_base.hpp): hexadecimal text, base64 text and padding; and the hash
  functions that only print their digest (encrypt/md5.hpp, encrypt/hmac.hpp). openssl is a
  parameter: what its base64 filter writes and reads, and its digests.
\<close>

unbundle bit_operations_syntax

section \<open>Hexadecimal text\<close>

(* src: encrypt/encrypt_base.hpp 21-28 EncryptBase::get_byte_to_number *)
definition get_byte_to_number :: "u8 \<Rightarrow> int" where
  "get_byte_to_number b = (if b \<ge> 97 then uint b - 97 + 10 else if b \<ge> 65 then uint b - 65 + 10 else uint b - 48)"

(* src: encrypt/encrypt_base.hpp 33-39 EncryptBase::get_number_to_byte *)
definition get_number_to_byte :: "int \<Rightarrow> bool \<Rightarrow> u8" where
  "get_number_to_byte number upper =
     (if number \<ge> 10 then (if upper then word_of_int (65 + number - 10) else word_of_int (97 + number - 10))
      else word_of_int (48 + number))"

text \<open>An odd length reads behind the text.\<close>

(* src: encrypt/encrypt_base.hpp 48-57 EncryptBase::StringToHex *)
fun string_to_hex :: "bytes \<Rightarrow> bytes option" where
  "string_to_hex [] = Some []"
| "string_to_hex [x] = None"
| "string_to_hex (x # y # source) =
     (let high = word_of_int (get_byte_to_number x) :: u8; low = word_of_int (get_byte_to_number y)
      in map_option (Cons (push_bit 4 high OR low)) (string_to_hex source))"

(* src: encrypt/encrypt_base.hpp 67-76 EncryptBase::HexToString *)
definition hex_to_string :: "bool \<Rightarrow> bytes \<Rightarrow> bytes" where
  "hex_to_string upper source =
     concat (map (\<lambda>b. [get_number_to_byte (uint (drop_bit 4 (b AND 0xf0))) upper, get_number_to_byte (uint (b AND 0x0f)) upper]) source)"

section \<open>Base64 text\<close>

text \<open>
  openssl's filter: the text it makes of what is written to it; what it reads from a text, None being
  a failure; and what it reads when the lengths it is given are not positive.
\<close>

record base64_lib =
  b64_write :: "bytes \<Rightarrow> bytes"
  b64_read :: "bytes \<Rightarrow> bytes option"
  b64_read_neg :: "bytes \<Rightarrow> bytes option"

text \<open>The conversion of a size_t to int that both functions do with the length.\<close>

definition c_int :: "nat \<Rightarrow> int" where
  "c_int n = (let u = n mod 2 ^ 32 in if u < 2 ^ 31 then int u else int u - 2 ^ 32)"

lemma c_int_small: "n < 2 ^ 31 \<Longrightarrow> c_int n = int n"
  by (simp add: c_int_def)

text \<open>The loop erases a newline and searches on behind the character that took its place.\<close>

(* src: encrypt/encrypt_base.hpp 104-108 EncryptBase::ToBase64 *)
fun strip_newlines :: "bytes \<Rightarrow> bytes" where
  "strip_newlines [] = []"
| "strip_newlines (x # xs) =
     (if x = 10 then (case xs of [] \<Rightarrow> [] | y # ys \<Rightarrow> y # strip_newlines ys) else x # strip_newlines xs)"

text \<open>None is the result false. A length that is not positive as an int writes nothing.\<close>

(* src: encrypt/encrypt_base.hpp 86-111 EncryptBase::ToBase64 *)
definition to_base64 :: "base64_lib \<Rightarrow> bytes \<Rightarrow> bytes option" where
  "to_base64 lib str =
     (if str = [] then None
      else Some (strip_newlines (b64_write lib (take (nat (c_int (length str))) str))))"

text \<open>
  The outer None is a failed BIO_read, whose -1 becomes the length of the buffer; the inner one the
  result false.
\<close>

(* src: encrypt/encrypt_base.hpp 121-136 EncryptBase::FromBase64 *)
definition from_base64 :: "base64_lib \<Rightarrow> bytes \<Rightarrow> bytes option option" where
  "from_base64 lib str =
     (if str = [] then Some None
      else
        let s = (if last str \<noteq> 10 then str @ [10] else str);
            n = c_int (length s)
        in map_option Some (if n \<le> 0 then b64_read_neg lib s else b64_read lib (take (nat n) s)))"

text \<open>
  What is relied on of openssl's filter: no empty lines, and it reads what it wrote, without its
  newlines; and a bound on the length of the text (base64 has four characters for three bytes).
\<close>

definition no_empty_line :: "bytes \<Rightarrow> bool" where
  "no_empty_line xs \<longleftrightarrow> (\<forall>i. Suc i < length xs \<longrightarrow> \<not> (xs ! i = 10 \<and> xs ! Suc i = 10))"

definition base64_ok :: "base64_lib \<Rightarrow> bool" where
  "base64_ok lib \<longleftrightarrow> (\<forall>xs. xs \<noteq> [] \<longrightarrow> no_empty_line (b64_write lib xs) \<and> filter (\<lambda>b. b \<noteq> 10) (b64_write lib xs) \<noteq> [] \<and>
     length (filter (\<lambda>b. b \<noteq> 10) (b64_write lib xs)) \<le> 2 * length xs + 4 \<and>
     b64_read lib (filter (\<lambda>b. b \<noteq> 10) (b64_write lib xs) @ [10]) = Some xs)"

section \<open>Padding\<close>

(* src: encrypt/encrypt_base.hpp 139-144 EncryptBase::Padding *)
datatype padding = NonePadding | ZeroPadding | PKCS5Padding | PKCS7Padding

(* src: encrypt/encrypt_base.hpp 147-155 EncryptBase::GetPaddingLen *)
definition get_padding_len :: "nat \<Rightarrow> padding \<Rightarrow> nat \<Rightarrow> nat" where
  "get_padding_len src_len pad blocksize =
     (let padding_len = blocksize - src_len mod blocksize
      in if pad = NonePadding \<or> (pad = ZeroPadding \<and> padding_len = blocksize) then 0 else padding_len)"

text \<open>The output buffer is of the two lengths together.\<close>

(* src: encrypt/encrypt_base.hpp 164-170 EncryptBase::PaddingData *)
definition padding_data :: "bytes \<Rightarrow> padding \<Rightarrow> nat \<Rightarrow> bytes" where
  "padding_data src_buff pad padding_len =
     src_buff @ replicate padding_len (if pad = ZeroPadding then 0 else word_of_nat padding_len)"

text \<open>The length without the padding; None if the buffer is empty or the last byte is more than the length.\<close>

(* src: encrypt/encrypt_base.hpp 178-184 EncryptBase::ClearDataPadding *)
definition clear_data_padding :: "bytes \<Rightarrow> padding \<Rightarrow> nat option" where
  "clear_data_padding src_buff pad =
     (if pad = NonePadding \<or> pad = ZeroPadding then Some (length src_buff)
      else if src_buff = [] \<or> unat (last src_buff) > length src_buff then None
      else Some (length src_buff - unat (last src_buff)))"

section \<open>Digests\<close>

(* src: encrypt/md5.hpp 253-263 MD5::EncryptToHex *)
definition md5_encrypt_to_hex :: "(bytes \<Rightarrow> bytes) \<Rightarrow> bytes \<Rightarrow> bool \<Rightarrow> bytes" where
  "md5_encrypt_to_hex md5 data upper = hex_to_string upper (take 16 (md5 data))"

(* src: encrypt/hmac.hpp 20-30 HMAC::SHA256 *)
definition hmac_sha256 :: "(bytes \<Rightarrow> bytes \<Rightarrow> bytes) \<Rightarrow> bytes \<Rightarrow> bytes \<Rightarrow> bool \<Rightarrow> bytes" where
  "hmac_sha256 hmac key data upper = (if data = [] then [] else hex_to_string upper (hmac key data))"

section \<open>Round trips\<close>

lemma hex_digit:
  assumes "0 \<le> n" "n < 16"
  shows "get_byte_to_number (get_number_to_byte n upper) = n"
proof -
  have "n \<in> {0, 1, 2, 3, 4, 5, 6, 7, 8, 9, 10, 11, 12, 13, 14, 15}"
    using assms by (simp only: insert_iff empty_iff) presburger
  then show ?thesis by (elim insertE emptyE) (simp_all add: get_byte_to_number_def get_number_to_byte_def)
qed

lemma nibbles: "push_bit 4 (drop_bit 4 (b AND 0xf0)) OR (b AND 0x0f) = (b :: u8)"
proof (rule bit_word_eqI)
  fix n assume "n < LENGTH(8)"
  then have "n \<in> {0, 1, 2, 3, 4, 5, 6, 7}" by auto
  then show "bit (push_bit 4 (drop_bit 4 (b AND 0xf0)) OR (b AND 0x0f)) n = bit b n"
    by (elim insertE emptyE) (simp_all add: bit_simps)
qed

lemma nibble_bounds: "uint (drop_bit 4 (b AND 0xf0) :: u8) < 16" "uint (b AND 0x0f :: u8) < 16"
proof -
  have "uint (b AND 0xf0) < 256" using unsigned_less [of "b AND 0xf0"] by simp
  then have "uint (b AND 0xf0) div 16 < 16" by (simp add: div_less_iff_less_mult)
  then show "uint (drop_bit 4 (b AND 0xf0) :: u8) < 16"
    by (simp add: drop_bit_eq_div uint_div)
  have "b AND 0x0f \<le> (15 :: u8)" by (rule word_and_le1)
  then show "uint (b AND 0x0f :: u8) < 16" by (simp add: word_le_def)
qed

lemma hex_roundtrip: "string_to_hex (hex_to_string upper bs) = Some bs"
proof (induction bs)
  case (Cons b bs)
  have "get_byte_to_number (get_number_to_byte (uint (drop_bit 4 (b AND 0xf0))) upper) = uint (drop_bit 4 (b AND 0xf0))"
    "get_byte_to_number (get_number_to_byte (uint (b AND 0x0f)) upper) = uint (b AND 0x0f)"
    using nibble_bounds [of b] by (simp_all add: hex_digit)
  then show ?case using Cons nibbles [of b] by (simp add: hex_to_string_def)
qed (simp add: hex_to_string_def)

lemma strip_newlines_filter: "no_empty_line xs \<Longrightarrow> strip_newlines xs = filter (\<lambda>b. b \<noteq> 10) xs"
proof (induction xs rule: strip_newlines.induct)
  case (2 x xs)
  have tail: "no_empty_line xs"
    unfolding no_empty_line_def
  proof (intro allI impI)
    fix i assume "Suc i < length xs"
    then show "\<not> (xs ! i = 10 \<and> xs ! Suc i = 10)" using 2(3) by (auto simp: no_empty_line_def dest: spec [of _ "Suc i"])
  qed
  show ?case
  proof (cases "x = 10")
    case False
    then show ?thesis using 2(2) tail by simp
  next
    case True
    show ?thesis
    proof (cases xs)
      case (Cons y ys)
      have "y \<noteq> 10" using 2(3) True Cons by (auto simp: no_empty_line_def dest: spec [of _ 0])
      moreover have "no_empty_line ys"
        unfolding no_empty_line_def
      proof (intro allI impI)
        fix i assume "Suc i < length ys"
        then show "\<not> (ys ! i = 10 \<and> ys ! Suc i = 10)" using tail Cons by (auto simp: no_empty_line_def dest: spec [of _ "Suc i"])
      qed
      ultimately show ?thesis using 2(1) [OF True Cons] True Cons by simp
    qed (use True in simp)
  qed
qed simp

lemma base64_roundtrip:
  assumes "base64_ok lib" "xs \<noteq> []" "length xs + 8 \<le> 2 ^ 30"
  shows "\<exists>t. to_base64 lib xs = Some t \<and> from_base64 lib t = Some (Some xs)"
proof -
  let ?t = "filter (\<lambda>b. b \<noteq> 10) (b64_write lib xs)"
  have o: "no_empty_line (b64_write lib xs)" "?t \<noteq> []" "b64_read lib (?t @ [10]) = Some xs"
    "length ?t \<le> 2 * length xs + 4"
    using assms by (simp_all add: base64_ok_def)
  have "last ?t \<in> set ?t" using o(2) by (rule last_in_set)
  then have "last ?t \<noteq> 10" by simp
  moreover have "c_int (length xs) = int (length xs)"
    by (rule c_int_small) (use assms(3) in simp)
  moreover have "c_int (length (?t @ [10])) = int (length (?t @ [10]))"
    by (rule c_int_small) (use assms(3) o(4) in simp)
  ultimately show ?thesis using o assms(2)
    by (simp add: to_base64_def from_base64_def strip_newlines_filter Let_def)
qed

lemma padding_length:
  assumes "0 < blocksize" "pad \<in> {PKCS5Padding, PKCS7Padding}"
  shows "(length xs + get_padding_len (length xs) pad blocksize) mod blocksize = 0"
    "0 < get_padding_len (length xs) pad blocksize" "get_padding_len (length xs) pad blocksize \<le> blocksize"
proof -
  have g: "get_padding_len (length xs) pad blocksize = blocksize - length xs mod blocksize"
    using assms(2) by (auto simp: get_padding_len_def)
  have "length xs mod blocksize < blocksize" using assms(1) by simp
  then have "length xs + (blocksize - length xs mod blocksize) = blocksize * (length xs div blocksize + 1)"
    by (simp add: algebra_simps) (metis add_diff_assoc2 le_add1 less_imp_le minus_mod_eq_mult_div mod_less_eq_dividend mult.commute add.commute)
  then show "(length xs + get_padding_len (length xs) pad blocksize) mod blocksize = 0" by (simp add: g)
  show "0 < get_padding_len (length xs) pad blocksize" "get_padding_len (length xs) pad blocksize \<le> blocksize"
    using assms(1) by (simp_all add: g)
qed

lemma padding_roundtrip:
  assumes "0 < blocksize" "blocksize < 256" "pad \<in> {PKCS5Padding, PKCS7Padding}"
  shows "clear_data_padding (padding_data xs pad (get_padding_len (length xs) pad blocksize)) pad = Some (length xs)"
proof -
  define n where "n = get_padding_len (length xs) pad blocksize"
  have n: "0 < n" "n < 256" using padding_length [OF assms(1,3), of xs] assms(2) by (simp_all add: n_def)
  have "last (padding_data xs pad n) = word_of_nat n" using n assms(3) by (auto simp: padding_data_def)
  moreover have "unat (word_of_nat n :: u8) = n" using n by (simp add: unat_of_nat)
  moreover have "padding_data xs pad n \<noteq> []" "length (padding_data xs pad n) = length xs + n"
    using n by (auto simp: padding_data_def)
  ultimately show ?thesis using assms(3) by (auto simp: clear_data_padding_def n_def)
qed

end
