(* ===== verification/Encrypt.thy ===== *)
theory Encrypt
  imports Encrypt_Base
begin

text \<open>
  Des (encrypt/des.hpp) and AES (encrypt/aes.hpp): the checks of keys, the choice of keys and modes,
  the loops over blocks, the padding and the texts around openssl's ciphers. The ciphers are
  parameters. The keys, and the initial vectors of Des, are the bytes that are passed, up to a zero
  where the code measures them with strlen; an initial vector may be null. None is undefined behaviour (a null pointer or a place outside a
  buffer); the empty text is the functions' sign of failure.
\<close>

section \<open>openssl\<close>

text \<open>The modes of a block cipher with its keys set: true encrypts.\<close>

record block_modes =
  ecb_block :: "bool \<Rightarrow> bytes \<Rightarrow> bytes"
  cbc_blocks :: "bool \<Rightarrow> bytes \<Rightarrow> bytes \<Rightarrow> bytes"
  cfb_bytes :: "bool \<Rightarrow> bytes \<Rightarrow> bytes \<Rightarrow> bytes"

text \<open>What is relied on: blocks are decrypted to what was encrypted, and lengths are kept.\<close>

definition modes_ok :: "nat \<Rightarrow> block_modes \<Rightarrow> bool" where
  "modes_ok n m \<longleftrightarrow>
     (\<forall>e b. length b = n \<longrightarrow> length (ecb_block m e b) = n) \<and> (\<forall>b. length b = n \<longrightarrow> ecb_block m False (ecb_block m True b) = b) \<and>
     (\<forall>e iv xs. length xs mod n = 0 \<longrightarrow> length (cbc_blocks m e iv xs) = length xs) \<and>
     (\<forall>iv xs. length xs mod n = 0 \<longrightarrow> cbc_blocks m False iv (cbc_blocks m True iv xs) = xs) \<and>
     (\<forall>e iv xs. length (cfb_bytes m e iv xs) = length xs) \<and> (\<forall>iv xs. cfb_bytes m False iv (cfb_bytes m True iv xs) = xs)"

record crypto_lib =
  cl_base64 :: base64_lib
  cl_des :: "bytes \<Rightarrow> block_modes"
  cl_des3 :: "bytes \<Rightarrow> bytes \<Rightarrow> bytes \<Rightarrow> block_modes"
  cl_aes :: "nat \<Rightarrow> bytes \<Rightarrow> block_modes"
  cl_aes_ofb :: "bytes \<Rightarrow> bytes \<Rightarrow> bytes \<Rightarrow> bytes"

section \<open>DES\<close>

(* src: encrypt/des.hpp 32-34 Des::get_blocksize *)
definition des_blocksize :: nat where "des_blocksize = 8"

(* src: encrypt/des.hpp 50-54 Des::Mode *)
datatype des_mode = DES_CBC | DES_CFB | DES_ECB

text \<open>strlen of a null pointer is undefined; a zero byte ends a key or a vector.\<close>

definition c_strlen :: "bytes \<Rightarrow> nat" where
  "c_strlen s = length (takeWhile (\<lambda>b. b \<noteq> 0) s)"

lemma c_strlen_no_zero: "0 \<notin> set s \<Longrightarrow> c_strlen s = length s"
  unfolding c_strlen_def by (induction s) auto

(* src: encrypt/des.hpp 37-46 Des::check_key *)
definition check_key :: "bytes \<Rightarrow> bytes option \<Rightarrow> nat option" where
  "check_key key iv =
     (case iv of
        None \<Rightarrow> None
      | Some v \<Rightarrow>
          Some (if c_strlen v \<noteq> des_blocksize then 0
                else let len = c_strlen key
                     in if len \<noteq> des_blocksize \<and> len \<noteq> 2 * des_blocksize \<and> len \<noteq> 3 * des_blocksize then 0
                        else len div des_blocksize))"

text \<open>
  The loop over the blocks: the last one is filled up with zeros. What is written has to fit the
  buffer; block_num blocks are written.
\<close>

fun ecb_loop :: "(bytes \<Rightarrow> bytes) \<Rightarrow> bytes \<Rightarrow> nat \<Rightarrow> bytes" where
  "ecb_loop f src 0 = []"
| "ecb_loop f src (Suc k) =
     f (take des_blocksize src @ replicate (des_blocksize - length (take des_blocksize src)) 0) @ ecb_loop f (drop des_blocksize src) k"

(* src: encrypt/des.hpp 325-342 Des::des_encrypt_and_decrypt *)
definition ecb_blocks :: "(bytes \<Rightarrow> bytes) \<Rightarrow> bytes \<Rightarrow> bytes option" where
  "ecb_blocks f src_buff =
     (let block_num = length src_buff div des_blocksize;
          mod_val = length src_buff mod des_blocksize;
          block_num = (if mod_val \<noteq> 0 then block_num + 1 else block_num)
      in if block_num * des_blocksize > length src_buff then None else Some (ecb_loop f src_buff block_num))"

text \<open>The buffer for the result is as long as the source; a mode that writes more is outside it.\<close>

definition run_mode :: "block_modes \<Rightarrow> bytes \<Rightarrow> des_mode \<Rightarrow> bytes \<Rightarrow> bool \<Rightarrow> bytes option" where
  "run_mode m src_buff mode iv enc =
     (case mode of
        DES_CBC \<Rightarrow> (let r = cbc_blocks m enc iv src_buff in if length r > length src_buff then None else Some r)
      | DES_CFB \<Rightarrow> (let r = cfb_bytes m enc iv src_buff in if length r > length src_buff then None else Some r)
      | DES_ECB \<Rightarrow> ecb_blocks (ecb_block m enc) src_buff)"

text \<open>The inner None is the result false.\<close>

(* src: encrypt/des.hpp 298-362 Des::des_encrypt_and_decrypt *)
definition des_encrypt_and_decrypt ::
  "crypto_lib \<Rightarrow> bytes \<Rightarrow> bytes \<Rightarrow> des_mode \<Rightarrow> bytes option \<Rightarrow> bool \<Rightarrow> bytes option option" where
  "des_encrypt_and_decrypt lib key src_buff mode iv enc =
     do { key_num \<leftarrow> check_key key iv;
          if key_num \<noteq> 1 then Some None
          else map_option Some (run_mode (cl_des lib (take des_blocksize key)) src_buff mode (take des_blocksize (the iv)) enc) }"

(* src: encrypt/des.hpp 373-402 Des::triple_des_encrypt_and_decrypt *)
definition triple_keys :: "nat \<Rightarrow> bytes \<Rightarrow> bytes \<times> bytes \<times> bytes" where
  "triple_keys key_num key =
     (let part = (\<lambda>i. take des_blocksize (drop (i * des_blocksize) key))
      in if key_num = 1 then (part 0, part 0, part 0)
         else if key_num = 2 then (part 0, part 1, part 0)
         else if key_num = 3 then (part 0, part 1, part 2)
         else (replicate 8 0, replicate 8 0, replicate 8 0))"

(* src: encrypt/des.hpp 363-441 Des::triple_des_encrypt_and_decrypt *)
definition triple_des_encrypt_and_decrypt ::
  "crypto_lib \<Rightarrow> bytes \<Rightarrow> bytes \<Rightarrow> des_mode \<Rightarrow> bytes option \<Rightarrow> bool \<Rightarrow> bytes option option" where
  "triple_des_encrypt_and_decrypt lib key src_buff mode iv enc =
     do { key_num \<leftarrow> check_key key iv;
          if key_num = 0 then Some None
          else let (ke1, ke2, ke3) = triple_keys key_num key
               in map_option Some (run_mode (cl_des3 lib ke1 ke2 ke3) src_buff mode (take des_blocksize (the iv)) enc) }"

definition pad_and_run :: "(bytes \<Rightarrow> bytes option option) \<Rightarrow> bytes \<Rightarrow> padding \<Rightarrow> bytes option" where
  "pad_and_run run data pad =
     map_option (case_option [] id) (run (padding_data data pad (get_padding_len (length data) pad des_blocksize)))"

definition run_and_clear :: "(bytes \<Rightarrow> bytes option option) \<Rightarrow> bytes \<Rightarrow> padding \<Rightarrow> bytes option" where
  "run_and_clear run src pad =
     do { r \<leftarrow> run src;
          case r of None \<Rightarrow> Some [] | Some out_buff \<Rightarrow> map_option (\<lambda>n. take n out_buff) (clear_data_padding out_buff pad) }"

definition base64_after :: "crypto_lib \<Rightarrow> bytes option \<Rightarrow> bytes option" where
  "base64_after lib r = map_option (\<lambda>hex. if hex = [] then [] else case to_base64 (cl_base64 lib) hex of None \<Rightarrow> [] | Some t \<Rightarrow> t) r"

definition base64_before :: "crypto_lib \<Rightarrow> (bytes \<Rightarrow> bytes option) \<Rightarrow> bytes \<Rightarrow> bytes option" where
  "base64_before lib f data =
     do { r \<leftarrow> from_base64 (cl_base64 lib) data; case r of None \<Rightarrow> Some [] | Some out_buff \<Rightarrow> f out_buff }"

(* src: encrypt/des.hpp 68-91 Des::EncryptToHex *)
definition des_encrypt_to_hex :: "crypto_lib \<Rightarrow> bytes \<Rightarrow> bytes \<Rightarrow> des_mode \<Rightarrow> padding \<Rightarrow> bytes option \<Rightarrow> bytes option" where
  "des_encrypt_to_hex lib key data mode pad iv =
     pad_and_run (\<lambda>src. des_encrypt_and_decrypt lib key src mode iv True) data pad"

(* src: encrypt/des.hpp 107-122 Des::EncryptToBase64 *)
definition des_encrypt_to_base64 :: "crypto_lib \<Rightarrow> bytes \<Rightarrow> bytes \<Rightarrow> des_mode \<Rightarrow> padding \<Rightarrow> bytes option \<Rightarrow> bytes option" where
  "des_encrypt_to_base64 lib key data mode pad iv = base64_after lib (des_encrypt_to_hex lib key data mode pad iv)"

(* src: encrypt/des.hpp 135-153 Des::DecryptFromHex *)
definition des_decrypt_from_hex :: "crypto_lib \<Rightarrow> bytes \<Rightarrow> bytes \<Rightarrow> des_mode \<Rightarrow> padding \<Rightarrow> bytes option \<Rightarrow> bytes option" where
  "des_decrypt_from_hex lib key src mode pad iv =
     run_and_clear (\<lambda>src. des_encrypt_and_decrypt lib key src mode iv False) src pad"

(* src: encrypt/des.hpp 163-176 Des::DecryptFromBase64 *)
definition des_decrypt_from_base64 :: "crypto_lib \<Rightarrow> bytes \<Rightarrow> bytes \<Rightarrow> des_mode \<Rightarrow> padding \<Rightarrow> bytes option \<Rightarrow> bytes option" where
  "des_decrypt_from_base64 lib key data mode pad iv =
     base64_before lib (\<lambda>src. des_decrypt_from_hex lib key src mode pad iv) data"

(* src: encrypt/des.hpp 190-211 Des::TripleDesEncryptToHex *)
definition triple_encrypt_to_hex :: "crypto_lib \<Rightarrow> bytes \<Rightarrow> bytes \<Rightarrow> des_mode \<Rightarrow> padding \<Rightarrow> bytes option \<Rightarrow> bytes option" where
  "triple_encrypt_to_hex lib key data mode pad iv =
     pad_and_run (\<lambda>src. triple_des_encrypt_and_decrypt lib key src mode iv True) data pad"

(* src: encrypt/des.hpp 228-242 Des::TripleDesEncryptToBase64 *)
definition triple_encrypt_to_base64 :: "crypto_lib \<Rightarrow> bytes \<Rightarrow> bytes \<Rightarrow> des_mode \<Rightarrow> padding \<Rightarrow> bytes option \<Rightarrow> bytes option" where
  "triple_encrypt_to_base64 lib key data mode pad iv = base64_after lib (triple_encrypt_to_hex lib key data mode pad iv)"

(* src: encrypt/des.hpp 254-271 Des::TripleDesDecryptFromHex *)
definition triple_decrypt_from_hex :: "crypto_lib \<Rightarrow> bytes \<Rightarrow> bytes \<Rightarrow> des_mode \<Rightarrow> padding \<Rightarrow> bytes option \<Rightarrow> bytes option" where
  "triple_decrypt_from_hex lib key src mode pad iv =
     run_and_clear (\<lambda>src. triple_des_encrypt_and_decrypt lib key src mode iv False) src pad"

(* src: encrypt/des.hpp 281-295 Des::TripleDesDecryptFromBase64 *)
definition triple_decrypt_from_base64 :: "crypto_lib \<Rightarrow> bytes \<Rightarrow> bytes \<Rightarrow> des_mode \<Rightarrow> padding \<Rightarrow> bytes option \<Rightarrow> bytes option" where
  "triple_decrypt_from_base64 lib key data mode pad iv =
     base64_before lib (\<lambda>src. triple_decrypt_from_hex lib key src mode pad iv) data"

section \<open>AES\<close>

(* src: encrypt/aes.hpp 28-33 AES::AESBit *)
datatype aes_bit = AESNULL | AES128 | AES192 | AES256

fun bits_of :: "aes_bit \<Rightarrow> nat" where
  "bits_of AESNULL = 0" | "bits_of AES128 = 128" | "bits_of AES192 = 192" | "bits_of AES256 = 256"

(* src: encrypt/aes.hpp 36-42 AES::Mode *)
datatype aes_mode = AES_ECB | AES_CBC | AES_CFB | AES_OFB | AES_CTR

(* src: encrypt/aes.hpp 183-185 AES::get_blocksize *)
definition aes_blocksize :: nat where "aes_blocksize = 16"

(* src: encrypt/aes.hpp 179-181 AES::check_len *)
definition check_len :: "nat \<Rightarrow> aes_bit \<Rightarrow> bool" where
  "check_len len bits \<longleftrightarrow> len \<ge> bits_of bits div 8"

text \<open>
  The copy of the initial vector, if one is needed, or false; 16 bytes are copied, which a shorter
  vector with its terminating zero may not have.
\<close>

(* src: encrypt/aes.hpp 165-178 AES::check_len_valid *)
definition check_len_valid :: "bytes \<Rightarrow> aes_mode \<Rightarrow> aes_bit \<Rightarrow> bytes option \<Rightarrow> bytes option option" where
  "check_len_valid key mode bits iv =
     (if \<not> check_len (c_strlen key) bits then Some None
      else if mode = AES_ECB then Some (Some [])
      else case iv of
             None \<Rightarrow> Some None
           | Some v \<Rightarrow> if length v + 1 < aes_blocksize then None else Some (Some (take aes_blocksize (v @ [0]))))"

text \<open>A byte of a buffer that may not have been written.\<close>

type_synonym buffer = "u8 option list"

fun aes_ecb_loop :: "nat \<Rightarrow> (bytes \<Rightarrow> bytes) \<Rightarrow> bytes \<Rightarrow> bytes option" where
  "aes_ecb_loop 0 f src = (if src = [] then Some [] else None)"
| "aes_ecb_loop (Suc k) f src =
     (if src = [] then Some []
      else if length src < aes_blocksize then None
      else map_option ((@) (f (take aes_blocksize src))) (aes_ecb_loop k f (drop aes_blocksize src)))"

definition fit :: "nat \<Rightarrow> bytes \<Rightarrow> buffer option option" where
  "fit n r = (if length r > n then None else Some (Some (map Some r)))"

text \<open>
  The buffer with the result, the result false, or undefined. In the mode CTR nothing is written: the
  buffer stays as it was.
\<close>

(* src: encrypt/aes.hpp 196-259 AES::encrypt_and_decrypt *)
definition aes_encrypt_and_decrypt ::
  "crypto_lib \<Rightarrow> bytes \<Rightarrow> bytes \<Rightarrow> buffer \<Rightarrow> aes_mode \<Rightarrow> aes_bit \<Rightarrow> bytes option \<Rightarrow> bool \<Rightarrow> buffer option option" where
  "aes_encrypt_and_decrypt lib key src_buff out_buff mode bits iv enc =
     do { tmp_iv \<leftarrow> check_len_valid key mode bits iv;
          case tmp_iv of
            None \<Rightarrow> Some None
          | Some v \<Rightarrow>
              if bits = AESNULL then Some None
              else let m = cl_aes lib (bits_of bits) key
                   in (case mode of
                         AES_ECB \<Rightarrow> map_option (\<lambda>r. Some (map Some r)) (aes_ecb_loop (length src_buff) (ecb_block m enc) src_buff)
                       | AES_CBC \<Rightarrow> fit (length src_buff) (cbc_blocks m enc v src_buff)
                       | AES_CFB \<Rightarrow> if bits \<noteq> AES128 then Some None else fit (length src_buff) (cfb_bytes m enc v src_buff)
                       | AES_OFB \<Rightarrow> if bits \<noteq> AES128 then Some None else fit (length src_buff) (cl_aes_ofb lib key v src_buff)
                       | AES_CTR \<Rightarrow> if bits \<noteq> AES128 then Some None else Some (Some out_buff)) }"

(* src: encrypt/aes.hpp 55-76 AES::EncryptToHex *)
definition aes_encrypt_to_hex ::
  "crypto_lib \<Rightarrow> bytes \<Rightarrow> bytes \<Rightarrow> aes_mode \<Rightarrow> padding \<Rightarrow> aes_bit \<Rightarrow> bytes option \<Rightarrow> buffer option" where
  "aes_encrypt_to_hex lib key data mode pad bits iv =
     (let src = padding_data data pad (get_padding_len (length data) pad aes_blocksize)
      in map_option (case_option [] id) (aes_encrypt_and_decrypt lib key src (replicate (length src) (Some 0)) mode bits iv True))"

text \<open>The buffer for the result is not zeroed here, and the padding cannot be read from a buffer that was not written.\<close>

(* src: encrypt/aes.hpp 119-137 AES::DecryptFromHex *)
definition aes_decrypt_from_hex ::
  "crypto_lib \<Rightarrow> bytes \<Rightarrow> bytes \<Rightarrow> aes_mode \<Rightarrow> padding \<Rightarrow> aes_bit \<Rightarrow> bytes option \<Rightarrow> buffer option" where
  "aes_decrypt_from_hex lib key src mode pad bits iv =
     do { r \<leftarrow> aes_encrypt_and_decrypt lib key src (replicate (length src) None) mode bits iv False;
          case r of
            None \<Rightarrow> Some []
          | Some out_buff \<Rightarrow>
              if pad = NonePadding \<or> pad = ZeroPadding then Some out_buff
              else if None \<in> set out_buff then None
              else map_option (\<lambda>n. take n out_buff) (clear_data_padding (map the out_buff) pad) }"

text \<open>base64 reads every byte of the buffer.\<close>

(* src: encrypt/aes.hpp 93-107 AES::EncryptToBase64 *)
definition aes_encrypt_to_base64 ::
  "crypto_lib \<Rightarrow> bytes \<Rightarrow> bytes \<Rightarrow> aes_mode \<Rightarrow> padding \<Rightarrow> aes_bit \<Rightarrow> bytes option \<Rightarrow> bytes option" where
  "aes_encrypt_to_base64 lib key data mode pad bits iv =
     do { r \<leftarrow> aes_encrypt_to_hex lib key data mode pad bits iv;
          if None \<in> set r then None else base64_after lib (Some (map the r)) }"

(* src: encrypt/aes.hpp 147-161 AES::DecryptFromBase64 *)
definition aes_decrypt_from_base64 ::
  "crypto_lib \<Rightarrow> bytes \<Rightarrow> bytes \<Rightarrow> aes_mode \<Rightarrow> padding \<Rightarrow> aes_bit \<Rightarrow> bytes option \<Rightarrow> buffer option" where
  "aes_decrypt_from_base64 lib key data mode pad bits iv =
     do { r \<leftarrow> from_base64 (cl_base64 lib) data;
          case r of None \<Rightarrow> Some [] | Some src \<Rightarrow> aes_decrypt_from_hex lib key src mode pad bits iv }"

section \<open>Blocks and back\<close>

lemma ecb_loop_length:
  "(\<And>b. length b = 8 \<Longrightarrow> length (f b) = 8) \<Longrightarrow> length src = k * 8 \<Longrightarrow> length (ecb_loop f src k) = k * 8"
  by (induction k arbitrary: src) (auto simp: des_blocksize_def)

lemma ecb_loop_roundtrip:
  assumes "\<And>b. length b = 8 \<Longrightarrow> length (f b) = 8" "\<And>b. length b = 8 \<Longrightarrow> g (f b) = b" "length src = k * 8"
  shows "ecb_loop g (ecb_loop f src k) k = src"
  using assms(3)
proof (induction k arbitrary: src)
  case (Suc k)
  then have l: "length (take 8 src) = 8" by simp
  then have "take 8 (f (take 8 src) @ xs) = f (take 8 src)" "drop 8 (f (take 8 src) @ xs) = xs" for xs
    using assms(1) [OF l] by simp_all
  then show ?case using Suc l assms(1,2) [OF l] by (simp add: des_blocksize_def)
qed simp

lemma run_mode_roundtrip:
  assumes "modes_ok 8 m" "length src mod 8 = 0"
  shows "\<exists>c. run_mode m src mode iv True = Some c \<and> length c = length src \<and> run_mode m c mode iv False = Some src"
proof -
  have e: "\<And>b. length b = 8 \<Longrightarrow> length (ecb_block m True b) = 8" "\<And>b. length b = 8 \<Longrightarrow> ecb_block m False (ecb_block m True b) = b"
    using assms(1) by (simp_all add: modes_ok_def)
  have c: "length (cbc_blocks m True iv src) = length src" "cbc_blocks m False iv (cbc_blocks m True iv src) = src"
    "length (cfb_bytes m True iv src) = length src" "cfb_bytes m False iv (cfb_bytes m True iv src) = src"
    using assms by (simp_all add: modes_ok_def)
  show ?thesis
  proof (cases mode)
    case DES_ECB
    define k where "k = length src div 8"
    have k: "length src = k * 8" using assms(2) by (simp add: k_def mod_eq_0_iff_dvd)
    have l: "length (ecb_loop (ecb_block m True) src k) = k * 8" by (rule ecb_loop_length [OF e(1) k])
    have "ecb_loop (ecb_block m False) (ecb_loop (ecb_block m True) src k) k = src"
      by (rule ecb_loop_roundtrip [OF e k])
    then show ?thesis using l by (simp add: run_mode_def DES_ECB ecb_blocks_def k des_blocksize_def)
  qed (use c in \<open>simp_all add: run_mode_def\<close>)
qed

text \<open>C9: What is encrypted with DES into base64 text is decrypted to the same data. With a key and an initial
  vector of 8 bytes none of which is zero (the code measures both with strlen), a PKCS padding, and any
  mode, the text is produced and decrypting it gives back exactly the data, the empty one too, of any
  length up to 2 to the 30 less 16 bytes (the code converts lengths to int); nothing is written
  outside a buffer. Of openssl it is used that its ciphers and its base64 filter undo themselves, and
  that base64 text is not longer than twice the data and four bytes. Triple DES does the same
  with keys of 8, 16 and 24 bytes none of which is zero.\<close>

theorem des_base64_roundtrip:
  assumes "length iv = 8" "pad \<in> {PKCS5Padding, PKCS7Padding}" "base64_ok (cl_base64 lib)"
    and "\<forall>k. modes_ok 8 (cl_des lib k)" "\<forall>a b c. modes_ok 8 (cl_des3 lib a b c)"
    and "length key = 8" "length key3 \<in> {8, 16, 24}"
    and "0 \<notin> set key" "0 \<notin> set key3" "0 \<notin> set iv" "length data + 16 \<le> 2 ^ 30"
  shows "(\<exists>t. des_encrypt_to_base64 lib key data mode pad (Some iv) = Some t \<and>
      des_decrypt_from_base64 lib key t mode pad (Some iv) = Some data) \<and>
    (\<exists>t. triple_encrypt_to_base64 lib key3 data mode pad (Some iv) = Some t \<and>
      triple_decrypt_from_base64 lib key3 t mode pad (Some iv) = Some data)"
proof -
  define n where "n = get_padding_len (length data) pad 8"
  define src where "src = padding_data data pad n"
  have n: "(length data + n) mod 8 = 0" "0 < n" "n \<le> 8"
    using padding_length [of 8 pad data] assms(2) by (simp_all add: n_def)
  have src: "length src = length data + n" "take (length data) src = data" "src \<noteq> []"
    using n by (auto simp: src_def padding_data_def)
  have clear: "clear_data_padding src pad = Some (length data)"
    using padding_roundtrip [of 8 pad data] assms(2) by (simp add: src_def n_def)
  have both: "\<exists>t. base64_after lib (pad_and_run (\<lambda>src. map_option Some (run_mode m src mode iv True)) data pad) = Some t \<and>
      base64_before lib (\<lambda>src. run_and_clear (\<lambda>src. map_option Some (run_mode m src mode iv False)) src pad) t = Some data"
    if mok: "modes_ok 8 m" for m
  proof -
    obtain c where c: "run_mode m src mode iv True = Some c" "length c = length src" "run_mode m c mode iv False = Some src"
      using run_mode_roundtrip [OF mok, of src mode iv] n src by auto
    have "c \<noteq> []" using c(2) src(3) by auto
    then obtain t where t: "to_base64 (cl_base64 lib) c = Some t" "from_base64 (cl_base64 lib) t = Some (Some c)"
      using base64_roundtrip [OF assms(3), of c] c(2) src(1) n(3) assms(11) by auto
    have "pad_and_run (\<lambda>src. map_option Some (run_mode m src mode iv True)) data pad = Some c"
      using c(1) by (simp add: pad_and_run_def des_blocksize_def n_def [symmetric] src_def [symmetric])
    then have "base64_after lib (pad_and_run (\<lambda>src. map_option Some (run_mode m src mode iv True)) data pad) = Some t"
      using t(1) \<open>c \<noteq> []\<close> by (simp add: base64_after_def)
    moreover have "base64_before lib (\<lambda>src. run_and_clear (\<lambda>src. map_option Some (run_mode m src mode iv False)) src pad) t = Some data"
      using t(2) c(3) clear src(2) by (simp add: base64_before_def run_and_clear_def)
    ultimately show ?thesis by blast
  qed
  note sl = c_strlen_no_zero [OF assms(8)] c_strlen_no_zero [OF assms(9)] c_strlen_no_zero [OF assms(10)]
  have ck: "check_key key (Some iv) = Some 1" using assms(1,6) by (simp add: check_key_def sl des_blocksize_def)
  have des: "des_encrypt_and_decrypt lib key s mode (Some iv) enc = map_option Some (run_mode (cl_des lib key) s mode iv enc)" for s enc
    using assms(1,6) by (simp add: des_encrypt_and_decrypt_def ck des_blocksize_def)
  obtain q where q: "check_key key3 (Some iv) = Some q" "q \<noteq> 0"
    using assms(1,7) by (auto simp: check_key_def sl Let_def des_blocksize_def)
  obtain a b c where abc: "triple_keys q key3 = (a, b, c)" by (metis prod_cases3)
  have des3: "triple_des_encrypt_and_decrypt lib key3 s mode (Some iv) enc = map_option Some (run_mode (cl_des3 lib a b c) s mode iv enc)" for s enc
    using q assms(1) by (simp add: triple_des_encrypt_and_decrypt_def abc des_blocksize_def)
  show ?thesis
    unfolding des_encrypt_to_base64_def des_encrypt_to_hex_def des_decrypt_from_base64_def des_decrypt_from_hex_def des
      triple_encrypt_to_base64_def triple_encrypt_to_hex_def triple_decrypt_from_base64_def triple_decrypt_from_hex_def des3
    using both assms(4,5) by blast
qed

text \<open>Concrete ciphers, for the examples: every byte is complemented, and base64 is hexadecimal text.\<close>

definition sample_modes :: block_modes where
  "sample_modes = \<lparr>ecb_block = \<lambda>e. map not, cbc_blocks = \<lambda>e iv. map not, cfb_bytes = \<lambda>e iv. map not\<rparr>"

definition sample_lib :: crypto_lib where
  "sample_lib = \<lparr>cl_base64 = \<lparr>b64_write = hex_to_string True, b64_read = \<lambda>t. string_to_hex (butlast t),
       b64_read_neg = \<lambda>_. None\<rparr>,
     cl_des = \<lambda>_. sample_modes, cl_des3 = \<lambda>_ _ _. sample_modes, cl_aes = \<lambda>_ _. sample_modes, cl_aes_ofb = \<lambda>_ _. map not\<rparr>"

lemma sample_modes_ok: "modes_ok n sample_modes"
  by (simp add: modes_ok_def sample_modes_def comp_def)

lemma hex_no_newline: "\<forall>b \<in> set (hex_to_string upper bs). b \<noteq> 10"
proof -
  have "get_number_to_byte n upper \<noteq> 10" if "0 \<le> n" "n < 16" for n
  proof -
    have "n \<in> {0, 1, 2, 3, 4, 5, 6, 7, 8, 9, 10, 11, 12, 13, 14, 15}"
      using that by (simp only: insert_iff empty_iff) presburger
    then show ?thesis by (elim insertE emptyE) (simp_all add: get_number_to_byte_def)
  qed
  then show ?thesis using nibble_bounds by (auto simp: hex_to_string_def)
qed

lemma sample_base64_ok: "base64_ok (cl_base64 sample_lib)"
proof -
  have f: "filter (\<lambda>b. b \<noteq> 10) (hex_to_string True xs) = hex_to_string True xs" for xs
    using hex_no_newline [of True xs] by (simp add: filter_id_conv)
  have "no_empty_line (hex_to_string True xs)" for xs
    using hex_no_newline [of True xs] by (auto simp: no_empty_line_def)
  moreover have "xs \<noteq> [] \<Longrightarrow> hex_to_string True xs \<noteq> []" for xs by (cases xs) (simp_all add: hex_to_string_def)
  moreover have "length (hex_to_string True xs) = 2 * length xs" for xs
    by (induction xs) (simp_all add: hex_to_string_def)
  ultimately show ?thesis by (simp add: base64_ok_def sample_lib_def f hex_roundtrip)
qed

theorem des_base64_roundtrip_witness:
  "\<exists>t. des_encrypt_to_base64 sample_lib [1, 2, 3, 4, 5, 6, 7, 8] [65, 66, 67] DES_CBC PKCS7Padding (Some [8, 7, 6, 5, 4, 3, 2, 1]) = Some t \<and>
    des_decrypt_from_base64 sample_lib [1, 2, 3, 4, 5, 6, 7, 8] t DES_CBC PKCS7Padding (Some [8, 7, 6, 5, 4, 3, 2, 1]) = Some [65, 66, 67]"
  using des_base64_roundtrip [of "[8, 7, 6, 5, 4, 3, 2, 1]" PKCS7Padding sample_lib "[1, 2, 3, 4, 5, 6, 7, 8]" "[1, 2, 3, 4, 5, 6, 7, 8]"
      "[65, 66, 67]" DES_CBC] sample_base64_ok sample_modes_ok
  by (simp add: sample_lib_def)

text \<open>The default arguments, mode ECB and no initial vector, are undefined: its length is asked for in every mode.\<close>

lemma des_default_null:
  "des_encrypt_to_hex lib key data mode pad None = None" "des_decrypt_from_hex lib key data mode pad None = None"
  by (simp_all add: des_encrypt_to_hex_def des_decrypt_from_hex_def pad_and_run_def run_and_clear_def
      des_encrypt_and_decrypt_def check_key_def)

text \<open>Without padding, data that is not of whole blocks is written behind the buffer in the mode ECB.\<close>

lemma des_ecb_overflow:
  assumes "length data mod 8 \<noteq> 0" "length key = 8" "length iv = 8" "0 \<notin> set key" "0 \<notin> set iv"
  shows "des_encrypt_to_hex lib key data DES_ECB NonePadding (Some iv) = None"
proof -
  have "(length data div 8 + 1) * 8 > length data" by presburger
  then show ?thesis using assms c_strlen_no_zero [OF assms(4)] c_strlen_no_zero [OF assms(5)]
    by (simp add: des_encrypt_to_hex_def pad_and_run_def des_encrypt_and_decrypt_def check_key_def des_blocksize_def
        padding_data_def get_padding_len_def run_mode_def ecb_blocks_def)
qed

section \<open>AES\<close>

lemma aes_ecb_loop_length:
  "(\<And>b. length b = 16 \<Longrightarrow> length (f b) = 16) \<Longrightarrow> length src = k * 16 \<Longrightarrow> k \<le> n \<Longrightarrow>
    \<exists>r. aes_ecb_loop n f src = Some r \<and> length r = k * 16"
proof (induction n arbitrary: src k)
  case (Suc n)
  show ?case
  proof (cases k)
    case (Suc j)
    obtain r where "aes_ecb_loop n f (drop 16 src) = Some r" "length r = j * 16"
      using Suc.IH [of "drop 16 src" j] Suc.prems Suc by auto
    moreover have "length (take 16 src) = 16" using Suc.prems Suc by simp
    ultimately show ?thesis using Suc.prems Suc by (auto simp: aes_blocksize_def)
  qed (use Suc.prems in simp)
qed simp

lemma aes_ecb_loop_roundtrip:
  assumes "\<And>b. length b = 16 \<Longrightarrow> length (f b) = 16" "\<And>b. length b = 16 \<Longrightarrow> g (f b) = b"
  shows "length src = k * 16 \<Longrightarrow> k \<le> n \<Longrightarrow> aes_ecb_loop n f src = Some r \<Longrightarrow> aes_ecb_loop n g r = Some src"
proof (induction n arbitrary: src k r)
  case (Suc n)
  show ?case
  proof (cases k)
    case (Suc j)
    have l: "length (take 16 src) = 16" "src \<noteq> []" using Suc.prems Suc by auto
    obtain r1 where r1: "aes_ecb_loop n f (drop 16 src) = Some r1" "r = f (take 16 src) @ r1"
      using Suc.prems(3) l by (auto simp: aes_blocksize_def split: if_splits)
    have "aes_ecb_loop n g r1 = Some (drop 16 src)" using Suc.IH [of "drop 16 src" j r1] Suc.prems Suc r1(1) by simp
    moreover have "length (f (take 16 src)) = 16" "g (f (take 16 src)) = take 16 src" using assms l(1) by simp_all
    ultimately show ?thesis using r1(2) by (auto simp: aes_blocksize_def)
  qed (use Suc.prems in simp)
qed simp

text \<open>The default mode of AES does not encrypt. In the mode CTR, the default one, the call of openssl is commented
  out: for every key and vector that are long enough the encryption succeeds and its result is as
  many zero bytes as the padded data has, whatever the data are, and the decryption hands out a
  buffer none of whose bytes was written. In the modes ECB, CBC and CFB, with a PKCS padding, the
  decryption of the encryption is the data.\<close>

theorem aes_modes:
  assumes "16 \<le> c_strlen key" "15 \<le> length iv" "\<forall>n k. modes_ok 16 (cl_aes lib n k)"
  shows "aes_encrypt_to_hex lib key data AES_CTR pad AES128 (Some iv) =
      Some (replicate (length data + get_padding_len (length data) pad 16) (Some 0)) \<and>
    aes_decrypt_from_hex lib key data AES_CTR ZeroPadding AES128 (Some iv) = Some (replicate (length data) None) \<and>
    (mode \<in> {AES_ECB, AES_CBC, AES_CFB} \<and> pad \<in> {PKCS5Padding, PKCS7Padding} \<longrightarrow>
      (\<exists>c. aes_encrypt_to_hex lib key data mode pad AES128 (Some iv) = Some (map Some c) \<and>
        aes_decrypt_from_hex lib key c mode pad AES128 (Some iv) = Some (map Some data)))"
proof (intro conjI impI)
  let ?iv = "take 16 (iv @ [0])"
  have ck: "\<exists>v. check_len_valid key m AES128 (Some iv) = Some (Some v)" "m \<noteq> AES_ECB \<Longrightarrow> check_len_valid key m AES128 (Some iv) = Some (Some ?iv)"
    for m using assms(1,2) by (simp_all add: check_len_valid_def check_len_def aes_blocksize_def)
  show "aes_encrypt_to_hex lib key data AES_CTR pad AES128 (Some iv) =
      Some (replicate (length data + get_padding_len (length data) pad 16) (Some 0))"
    using ck(2) [of AES_CTR]
    by (simp add: aes_encrypt_to_hex_def aes_encrypt_and_decrypt_def Let_def padding_data_def aes_blocksize_def)
  show "aes_decrypt_from_hex lib key data AES_CTR ZeroPadding AES128 (Some iv) = Some (replicate (length data) None)"
    using ck(2) [of AES_CTR] by (simp add: aes_decrypt_from_hex_def aes_encrypt_and_decrypt_def Let_def)
  assume m: "mode \<in> {AES_ECB, AES_CBC, AES_CFB} \<and> pad \<in> {PKCS5Padding, PKCS7Padding}"
  define n where "n = get_padding_len (length data) pad 16"
  define src where "src = padding_data data pad n"
  have n: "(length data + n) mod 16 = 0" "0 < n" using padding_length [of 16 pad data] m by (simp_all add: n_def)
  have src: "length src = length data + n" "take (length data) src = data" using n by (auto simp: src_def padding_data_def)
  have clear: "clear_data_padding src pad = Some (length data)"
    using padding_roundtrip [of 16 pad data] m by (simp add: src_def n_def)
  let ?m = "cl_aes lib 128 key"
  have mm: "modes_ok 16 ?m" using assms(3) by simp
  obtain v where v: "check_len_valid key mode AES128 (Some iv) = Some (Some v)" using ck(1) by blast
  have run: "\<exists>c. length c = length src \<and>
      aes_encrypt_and_decrypt lib key src b1 mode AES128 (Some iv) True = Some (Some (map Some c)) \<and>
      aes_encrypt_and_decrypt lib key c b2 mode AES128 (Some iv) False = Some (Some (map Some src))" for b1 b2
  proof -
    have e: "\<And>b. length b = 16 \<Longrightarrow> length (ecb_block ?m True b) = 16" "\<And>b. length b = 16 \<Longrightarrow> ecb_block ?m False (ecb_block ?m True b) = b"
      using mm by (simp_all add: modes_ok_def)
    have c: "length (cbc_blocks ?m True v src) = length src" "cbc_blocks ?m False v (cbc_blocks ?m True v src) = src"
      "length (cfb_bytes ?m True v src) = length src" "cfb_bytes ?m False v (cfb_bytes ?m True v src) = src"
      using mm n src(1) by (simp_all add: modes_ok_def)
    consider "mode = AES_ECB" | "mode = AES_CBC" | "mode = AES_CFB" using m by auto
    then show ?thesis
    proof cases
      case 1
      define k where "k = length src div 16"
      have k: "length src = k * 16" using n src(1) by (simp add: k_def mod_eq_0_iff_dvd)
      then have "k \<le> length src" by simp
      then obtain r where r: "aes_ecb_loop (length src) (ecb_block ?m True) src = Some r" "length r = length src"
        using aes_ecb_loop_length [of "ecb_block ?m True" src k "length src", OF e(1) k] k by auto
      moreover have "aes_ecb_loop (length src) (ecb_block ?m False) r = Some src"
        using aes_ecb_loop_roundtrip [OF e k \<open>k \<le> length src\<close> r(1)] .
      ultimately show ?thesis using v 1 by (simp add: aes_encrypt_and_decrypt_def)
    next
      case 2
      then show ?thesis using v c by (simp add: aes_encrypt_and_decrypt_def fit_def)
    next
      case 3
      then show ?thesis using v c by (simp add: aes_encrypt_and_decrypt_def fit_def)
    qed
  qed
  obtain c where c: "length c = length src"
      "aes_encrypt_and_decrypt lib key src (replicate (length src) (Some 0)) mode AES128 (Some iv) True = Some (Some (map Some c))"
      "aes_encrypt_and_decrypt lib key c (replicate (length src) None) mode AES128 (Some iv) False = Some (Some (map Some src))"
    using run by blast
  have "aes_encrypt_to_hex lib key data mode pad AES128 (Some iv) = Some (map Some c)"
    using c(2) by (simp add: aes_encrypt_to_hex_def Let_def aes_blocksize_def n_def [symmetric] src_def [symmetric])
  moreover have "aes_decrypt_from_hex lib key c mode pad AES128 (Some iv) = Some (map Some data)"
    using c(1,3) clear src(2) m by (auto simp: aes_decrypt_from_hex_def comp_def take_map)
  ultimately show "\<exists>c. aes_encrypt_to_hex lib key data mode pad AES128 (Some iv) = Some (map Some c) \<and>
      aes_decrypt_from_hex lib key c mode pad AES128 (Some iv) = Some (map Some data)" by blast
qed

theorem aes_modes_witness:
  "aes_encrypt_to_hex sample_lib (replicate 16 1) [65, 66, 67] AES_CTR ZeroPadding AES128 (Some (replicate 16 2)) = Some (replicate 16 (Some 0))"
  using aes_modes [of "replicate 16 1" "replicate 16 2" sample_lib "[65, 66, 67]" ZeroPadding AES_ECB] sample_modes_ok
  by (simp add: sample_lib_def get_padding_len_def c_strlen_no_zero)

end
