(* ===== verification/Posix_Files.thy ===== *)
theory Posix_Files
  imports Prelude
begin

unbundle bit_operations_syntax

text \<open>
  What mmap_file.hpp uses of POSIX: named files and shared memory objects, ftruncate, and shared
  mappings of whole pages. A file is its bytes; a shared mapping is the window of a file it shows, so
  that what is written through it is in the file. Which calls succeed is part of the state, the
  predicate os_ok: every failure the code handles can be taken. A descriptor is the file it stands for
  and whether it can be written; None is the descriptor -1. Also the arithmetic of size_t.
\<close>

section \<open>Bytes at a place of a list\<close>

definition part :: "nat \<Rightarrow> nat \<Rightarrow> 'a list \<Rightarrow> 'a list" where
  "part i n xs = take n (drop i xs)"

definition put_at :: "nat \<Rightarrow> 'a list \<Rightarrow> 'a list \<Rightarrow> 'a list" where
  "put_at i ys xs = take i xs @ ys @ drop (i + length ys) xs"

lemma length_part [simp]: "length (part i n xs) = min n (length xs - i)"
  by (simp add: part_def)

lemma part_zero [simp]: "part i 0 xs = []"
  by (simp add: part_def)

lemma part_min: "part i (min n (length xs - i)) xs = part i n xs"
  by (simp add: part_def min_def)

lemma part_part: "j + k \<le> n \<Longrightarrow> part j k (part i n xs) = part (i + j) k xs"
  by (simp add: part_def drop_take add.commute min_def)

lemma length_put_at [simp]: "i + length ys \<le> length xs \<Longrightarrow> length (put_at i ys xs) = length xs"
  by (simp add: put_at_def)

lemma nth_part: "k < n \<Longrightarrow> i + k < length xs \<Longrightarrow> part i n xs ! k = xs ! (i + k)"
  by (simp add: part_def)

lemma nth_put_at:
  assumes "i + length ys \<le> length xs" "k < length xs"
  shows "put_at i ys xs ! k = (if i \<le> k \<and> k < i + length ys then ys ! (k - i) else xs ! k)"
  using assms by (auto simp: put_at_def nth_append min_def)

lemma part_put_same: "i + length ys \<le> length xs \<Longrightarrow> part i (length ys) (put_at i ys xs) = ys"
  by (simp add: part_def put_at_def)

lemma part_put_other:
  assumes "i + length ys \<le> length xs" "j + n \<le> i \<or> i + length ys \<le> j"
  shows "part j n (put_at i ys xs) = part j n xs"
  using assms by (intro nth_equalityI) (auto simp: nth_part nth_put_at)

lemma part_append: "part i m xs @ part (i + m) n xs = part i (m + n) xs"
  by (simp add: part_def take_add add.commute)

lemma part_put_extend:
  assumes "i \<le> j" "j + length ys \<le> length xs"
  shows "part i (j - i + length ys) (put_at j ys xs) = part i (j - i) xs @ ys"
proof -
  have "part i (j - i + length ys) (put_at j ys xs) =
      part i (j - i) (put_at j ys xs) @ part j (length ys) (put_at j ys xs)"
    using part_append [of i "j - i" "put_at j ys xs" "length ys"] assms(1) by simp
  then show ?thesis using assms by (simp add: part_put_other part_put_same)
qed

lemma put_at_Nil [simp]: "put_at i [] xs = xs"
  by (simp add: put_at_def)

lemma part_all: "part 0 (length xs) xs = xs"
  by (simp add: part_def)

section \<open>The arithmetic of size_t\<close>

definition w64 :: "nat \<Rightarrow> nat" where
  "w64 n = n mod 2 ^ 64"

definition sub64 :: "nat \<Rightarrow> nat \<Rightarrow> nat" where
  "sub64 a b = (a + (2 ^ 64 - b mod 2 ^ 64)) mod 2 ^ 64"

definition mul64 :: "nat \<Rightarrow> int \<Rightarrow> nat" where
  "mul64 n i = nat ((int n * i) mod 2 ^ 64)"

lemma w64_small [simp]: "n < 2 ^ 64 \<Longrightarrow> w64 n = n"
  by (simp add: w64_def)

lemma sub64_small [simp]: "b \<le> a \<Longrightarrow> a < 2 ^ 64 \<Longrightarrow> sub64 a b = a - b"
  by (simp add: sub64_def mod_if)

lemma sub64_wrap: "a < b \<Longrightarrow> b < 2 ^ 64 \<Longrightarrow> sub64 a b = 2 ^ 64 + a - b"
  by (simp add: sub64_def)

lemma mul64_small [simp]: "n * k < 2 ^ 64 \<Longrightarrow> mul64 n (int k) = n * k"
  by (simp add: mul64_def flip: of_nat_mult)

section \<open>Files\<close>

datatype sys_call = Sys_open | Sys_stat | Sys_seek | Sys_truncate nat | Sys_map nat nat | Sys_unmap | Sys_close

type_synonym file_name = "bool \<times> string"
type_synonym fd = "(nat \<times> bool) option"

record os =
  os_page :: nat
  os_ok :: "sys_call \<Rightarrow> bool"
  os_dir :: "file_name \<rightharpoonup> nat"
  os_file :: "nat \<Rightarrow> bytes"
  os_new :: nat

text \<open>open and shm_open: without O_CREAT, with O_CREAT and O_EXCL, and with O_CREAT alone.\<close>

definition sys_open :: "file_name \<Rightarrow> bool \<Rightarrow> os \<Rightarrow> fd" where
  "sys_open name wr os =
     (if os_ok os Sys_open then map_option (\<lambda>i. (i, wr)) (os_dir os name) else None)"

definition create_file :: "file_name \<Rightarrow> os \<Rightarrow> os" where
  "create_file name os = os\<lparr>os_dir := (os_dir os)(name \<mapsto> os_new os), os_file := (os_file os)(os_new os := []),
     os_new := Suc (os_new os)\<rparr>"

datatype excl_result = Created nat os | Exists | Open_failed

definition sys_open_excl :: "file_name \<Rightarrow> os \<Rightarrow> excl_result" where
  "sys_open_excl name os =
     (if os_dir os name \<noteq> None then Exists
      else if os_ok os Sys_open then Created (os_new os) (create_file name os) else Open_failed)"

definition sys_open_create :: "file_name \<Rightarrow> os \<Rightarrow> fd \<times> os" where
  "sys_open_create name os =
     (case sys_open_excl name os of
        Created i os1 \<Rightarrow> (Some (i, True), os1)
      | Exists \<Rightarrow> (sys_open name True os, os)
      | Open_failed \<Rightarrow> (None, os))"

definition sys_unlink :: "file_name \<Rightarrow> os \<Rightarrow> os" where
  "sys_unlink name os = os\<lparr>os_dir := (os_dir os)(name := None)\<rparr>"

definition file_size :: "fd \<Rightarrow> os \<Rightarrow> nat option" where
  "file_size fd os = (if os_ok os Sys_stat then map_option (\<lambda>(i, w). length (os_file os i)) fd else None)"

definition seek_end :: "fd \<Rightarrow> os \<Rightarrow> nat option" where
  "seek_end fd os = (if os_ok os Sys_seek then map_option (\<lambda>(i, w). length (os_file os i)) fd else None)"

definition resize :: "nat \<Rightarrow> bytes \<Rightarrow> bytes" where
  "resize n bs = take n bs @ replicate (n - length bs) 0"

definition sys_truncate :: "fd \<Rightarrow> nat \<Rightarrow> os \<Rightarrow> os option" where
  "sys_truncate fd n os =
     (case fd of
        Some (i, True) \<Rightarrow>
          (if os_ok os (Sys_truncate n) \<and> n < 2 ^ 63
           then Some (os\<lparr>os_file := (os_file os)(i := resize n (os_file os i))\<rparr>) else None)
      | _ \<Rightarrow> None)"

definition page_floor :: "os \<Rightarrow> nat \<Rightarrow> nat" where
  "page_floor os x = unat ((of_nat x :: u64) AND NOT (of_nat (os_page os) - 1))"

text \<open>Pages have a size that is a power of two.\<close>

definition os_fine :: "os \<Rightarrow> bool" where
  "os_fine os \<longleftrightarrow> (\<exists>k. os_page os = 2 ^ k \<and> k < 32)"

section \<open>Mappings\<close>

record mapping =
  mp_file :: nat
  mp_off :: nat
  mp_len :: nat
  mp_write :: bool

definition sys_map :: "fd \<Rightarrow> bool \<Rightarrow> nat \<Rightarrow> nat \<Rightarrow> os \<Rightarrow> mapping option" where
  "sys_map fd wr off len os =
     (case fd of
        None \<Rightarrow> None
      | Some (i, w) \<Rightarrow>
          if 0 < len \<and> (wr \<longrightarrow> w) \<and> os_page os dvd off \<and> os_ok os (Sys_map off len)
          then Some \<lparr>mp_file = i, mp_off = off, mp_len = len, mp_write = wr\<rparr> else None)"

text \<open>
  A read of a mapping is undefined outside it and in pages behind the last of the file; in the rest of
  the last page it is zero. A write behind the file's end is taken to be undefined, as nothing the
  code can rely on becomes of it.
\<close>

definition peek :: "mapping \<Rightarrow> nat \<Rightarrow> nat \<Rightarrow> os \<Rightarrow> bytes option" where
  "peek m i n os =
     (let f = os_file os (mp_file m); a = mp_off m + i in
      if i + n \<le> mp_len m \<and> (n = 0 \<or> (a + n - 1) div os_page os * os_page os < length f)
      then Some (part a n f @ replicate (a + n - max a (length f)) 0) else None)"

definition poke :: "mapping \<Rightarrow> nat \<Rightarrow> bytes \<Rightarrow> os \<Rightarrow> os option" where
  "poke m i bs os =
     (let f = os_file os (mp_file m); a = mp_off m + i in
      if mp_write m \<and> i + length bs \<le> mp_len m \<and> a + length bs \<le> length f
      then Some (os\<lparr>os_file := (os_file os)(mp_file m := put_at a bs f)\<rparr>) else None)"

text \<open>A string_view into a mapping: where it begins and its length; None is the empty view.\<close>

type_synonym view = "(mapping \<times> nat \<times> nat) option"

definition view_bytes :: "os \<Rightarrow> view \<Rightarrow> bytes option" where
  "view_bytes os v = (case v of None \<Rightarrow> Some [] | Some (m, i, n) \<Rightarrow> peek m i n os)"

definition view_length :: "view \<Rightarrow> nat" where
  "view_length v = (case v of None \<Rightarrow> 0 | Some (m, i, n) \<Rightarrow> n)"

section \<open>Facts\<close>

lemma page_floor_eq:
  assumes "os_fine os" "x < 2 ^ 64"
  shows "page_floor os x = x - x mod os_page os"
proof -
  obtain k where k: "os_page os = 2 ^ k" "k < 32" using assms(1) by (auto simp: os_fine_def)
  have m: "(of_nat (os_page os) - 1 :: u64) = mask k"
    by (simp add: k mask_eq_exp_minus_1)
  have "(of_nat x :: u64) AND NOT (mask k) = push_bit k (drop_bit k (of_nat x))"
    by (rule bit_word_eqI) (auto simp: bit_simps)
  moreover have "unat (push_bit k (drop_bit k (of_nat x)) :: u64) = x div 2 ^ k * 2 ^ k"
  proof -
    have "x div 2 ^ k * 2 ^ k < 2 ^ 64"
      using assms(2) by (metis div_times_less_eq_dividend order_le_less_trans)
    moreover have "unat (push_bit k (drop_bit k (of_nat x)) :: u64) = take_bit 64 (push_bit k (drop_bit k x))"
    proof -
      have "unat (of_nat x :: u64) = x" using assms(2) by (simp add: unat_of_nat)
      moreover have "unat (push_bit k (drop_bit k (of_nat x)) :: u64) =
          take_bit 64 (push_bit k (drop_bit k (take_bit 64 (unat (of_nat x :: u64)))))"
        by (simp only: unsigned_push_bit_eq unsigned_drop_bit_eq) simp
      ultimately show ?thesis using assms(2) by (simp add: take_bit_nat_eq_self)
    qed
    ultimately show ?thesis by (simp add: take_bit_eq_mod push_bit_eq_mult drop_bit_eq_div)
  qed
  ultimately show ?thesis unfolding page_floor_def m by (simp add: k minus_mod_eq_div_mult)
qed

lemma page_floor_le: "os_fine os \<Longrightarrow> x < 2 ^ 64 \<Longrightarrow> page_floor os x \<le> x"
  by (simp add: page_floor_eq)

lemma page_floor_dvd: "os_fine os \<Longrightarrow> x < 2 ^ 64 \<Longrightarrow> os_page os dvd page_floor os x"
  by (simp add: page_floor_eq minus_mod_eq_div_mult)

lemma page_pos: "os_fine os \<Longrightarrow> 0 < os_page os"
  by (auto simp: os_fine_def)

lemma length_resize [simp]: "length (resize n bs) = n"
  by (simp add: resize_def)

lemma resize_same [simp]: "resize (length bs) bs = bs"
  by (simp add: resize_def)

lemma part_resize: "i + k \<le> length bs \<Longrightarrow> i + k \<le> n \<Longrightarrow> part i k (resize n bs) = part i k bs"
  by (intro nth_equalityI) (auto simp: nth_part resize_def nth_append)

lemma peek_inside:
  assumes "i + n \<le> mp_len m" "mp_off m + i + n \<le> length (os_file os (mp_file m))"
  shows "peek m i n os = Some (part (mp_off m + i) n (os_file os (mp_file m)))"
proof -
  have "(mp_off m + i + n - 1) div os_page os * os_page os < length (os_file os (mp_file m))" if "0 < n"
    using that assms(2) div_times_less_eq_dividend [of "mp_off m + i + n - 1" "os_page os"] by linarith
  then show ?thesis using assms by (auto simp: peek_def Let_def)
qed

lemma poke_inside:
  assumes "mp_write m" "i + length bs \<le> mp_len m" "mp_off m + i + length bs \<le> length (os_file os (mp_file m))"
  shows "poke m i bs os = Some (os\<lparr>os_file := (os_file os)(mp_file m := put_at (mp_off m + i) bs (os_file os (mp_file m)))\<rparr>)"
  using assms by (simp add: poke_def)

lemma poke_outside: "mp_len m < i + length bs \<Longrightarrow> poke m i bs os = None"
  by (simp add: poke_def)

text \<open>A part of a file mapped from the beginning of its first page.\<close>

lemma map_part:
  assumes "os_fine os" "\<And>c. os_ok os c" "off + n \<le> length (os_file os i)" "length (os_file os i) < 2 ^ 63" "0 < n"
    "wr \<longrightarrow> w"
  shows "\<exists>m. sys_map (Some (i, w)) wr (page_floor os off) (n + off - page_floor os off) os = Some m \<and>
    peek m (off - page_floor os off) n os = Some (part off n (os_file os i))"
proof -
  have off: "off < 2 ^ 64" using assms(3,4) by simp
  have le: "page_floor os off \<le> off" by (rule page_floor_le [OF assms(1) off])
  let ?m = "\<lparr>mp_file = i, mp_off = page_floor os off, mp_len = n + off - page_floor os off, mp_write = wr\<rparr>"
  have "sys_map (Some (i, w)) wr (page_floor os off) (n + off - page_floor os off) os = Some ?m"
    using assms le page_floor_dvd [OF assms(1) off] by (simp add: sys_map_def)
  moreover have "peek ?m (off - page_floor os off) n os = Some (part off n (os_file os i))"
    using assms(3) le by (subst peek_inside) auto
  ultimately show ?thesis by blast
qed

text \<open>What the calls on an open file leave as it is.\<close>

definition same_names :: "os \<Rightarrow> os \<Rightarrow> bool" where
  "same_names os os' \<longleftrightarrow> os_dir os' = os_dir os \<and> os_page os' = os_page os \<and> os_ok os' = os_ok os"

lemma same_names_refl [simp]: "same_names os os"
  by (simp add: same_names_def)

lemma same_names_trans: "same_names a b \<Longrightarrow> same_names b c \<Longrightarrow> same_names a c"
  by (simp add: same_names_def)

lemma poke_names: "poke m i bs os = Some os' \<Longrightarrow> same_names os os'"
  by (auto simp: poke_def Let_def same_names_def split: if_splits)

lemma truncate_names: "sys_truncate fd n os = Some os' \<Longrightarrow> same_names os os'"
  by (auto simp: sys_truncate_def same_names_def split: option.splits if_splits bool.splits prod.splits)

end
