(* ===== verification/Mmap_Reader.thy ===== *)
theory Mmap_Reader
  imports Posix_Files "HOL-Library.Signed_Division"
begin

text \<open>
  MMapFile (mmap_file.hpp): its errors, OpenWriteFile, Mapper, and the readers of whole files in
  chunks, Reader forwards and ReverseReader backwards. open and shm_open of a class differ in the call
  that opens; the flag of the name says which it is. A view returned by read is valid until the next
  read. Offsets and lengths are 64 bits wide, with the wrap-around of size_t.
\<close>

section \<open>Errors and opening for writing\<close>

(* src: mmap_file.hpp 30-40 error_t *)
datatype mm_error = E_ok | E_unknow | E_open_fail | E_stat_fail | E_close_fail | E_free_space_fail
  | E_mmap_fail | E_munmap_fail | E_ftruncate_fail

(* src: mmap_file.hpp 69-107 MMapFile::OpenWriteFile *)
definition open_write_file :: "file_name \<Rightarrow> nat \<Rightarrow> os \<Rightarrow> mm_error \<times> fd \<times> bool \<times> os" where
  "open_write_file name sz os =
     (let resized = (\<lambda>fd created os1.
        if 0 < sz
        then (case sys_truncate fd sz os1 of
                None \<Rightarrow> (E_ftruncate_fail, fd, created, os1)
              | Some os2 \<Rightarrow> (E_ok, fd, created, os2))
        else (E_ok, fd, created, os1)) in
      case sys_open_excl name os of
        Created i os1 \<Rightarrow> resized (Some (i, True)) True os1
      | Exists \<Rightarrow>
          (case sys_open name True os of
             None \<Rightarrow> (E_open_fail, None, False, os)
           | Some f \<Rightarrow> resized (Some f) False os)
      | Open_failed \<Rightarrow> (E_open_fail, None, False, os))"

section \<open>Mapper\<close>

text \<open>
  A Mapper maps one object of its type. The object's bytes when it is created, those of _Ty{0} or
  _Ty(), are the argument dflt, whose length is the size of the type.
\<close>

(* src: mmap_file.hpp 204-208 Mapper *)
record mapper =
  mr_fd :: fd
  mr_data :: "mapping option"

(* src: mmap_file.hpp 114-114 Mapper::Mapper *)
definition new_mapper :: mapper where
  "new_mapper = \<lparr>mr_fd = None, mr_data = None\<rparr>"

(* src: mmap_file.hpp 184-202 Mapper::open_impl *)
definition mapper_open_impl :: "bytes \<Rightarrow> bool \<Rightarrow> mapper \<Rightarrow> os \<Rightarrow> (mm_error \<times> mapper \<times> os) option" where
  "mapper_open_impl dflt created m os =
     (case sys_map (mr_fd m) True 0 (length dflt) os of
        None \<Rightarrow> Some (E_mmap_fail, m, os)
      | Some p \<Rightarrow>
          if created then map_option (\<lambda>os1. (E_ok, m\<lparr>mr_data := Some p\<rparr>, os1)) (poke p 0 dflt os)
          else Some (E_ok, m\<lparr>mr_data := Some p\<rparr>, os))"

(* src: mmap_file.hpp 117-165 Mapper::open, Mapper::shm_open *)
definition mapper_open :: "bytes \<Rightarrow> file_name \<Rightarrow> mapper \<Rightarrow> os \<Rightarrow> (mm_error \<times> mapper \<times> os) option" where
  "mapper_open dflt name m os =
     (case sys_open_excl name os of
        Exists \<Rightarrow>
          (case sys_open name True os of
             None \<Rightarrow> Some (E_open_fail, m\<lparr>mr_fd := None\<rparr>, os)
           | Some f \<Rightarrow> mapper_open_impl dflt False (m\<lparr>mr_fd := Some f\<rparr>) os)
      | Open_failed \<Rightarrow> Some (E_open_fail, m\<lparr>mr_fd := None\<rparr>, os)
      | Created i os1 \<Rightarrow>
          (case sys_truncate (Some (i, True)) (length dflt) os1 of
             None \<Rightarrow> Some (E_ftruncate_fail, m\<lparr>mr_fd := Some (i, True)\<rparr>, os1)
           | Some os2 \<Rightarrow> mapper_open_impl dflt True (m\<lparr>mr_fd := Some (i, True)\<rparr>) os2))"

(* src: mmap_file.hpp 167-169 Mapper::get *)
definition mapper_get :: "mapper \<Rightarrow> mapping option" where
  "mapper_get m = mr_data m"

(* src: mmap_file.hpp 172-181 Mapper::close *)
definition mapper_close :: "mapper \<Rightarrow> mapper" where
  "mapper_close m = m\<lparr>mr_data := None, mr_fd := None\<rparr>"

section \<open>Reader\<close>

(* src: mmap_file.hpp 349-371 Reader *)
record reader =
  rd_can_change :: bool
  rd_item_size :: int
  rd_fd :: fd
  rd_file_size :: nat
  rd_cur_offset :: nat
  rd_pa_offset :: nat
  rd_chunk_size :: nat
  rd_num_chunks :: nat
  rd_index :: nat
  rd_addr :: "mapping option"
  rd_length :: nat

(* src: mmap_file.hpp 214-216 Reader::Reader *)
definition new_reader :: "int \<Rightarrow> bool \<Rightarrow> reader" where
  "new_reader item can_change = \<lparr>rd_can_change = can_change, rd_item_size = item, rd_fd = None, rd_file_size = 0,
     rd_cur_offset = 0, rd_pa_offset = 0, rd_chunk_size = 0, rd_num_chunks = 0, rd_index = 0, rd_addr = None,
     rd_length = 0\<rparr>"

(* src: mmap_file.hpp 219-279 Reader::open, Reader::shm_open *)
definition reader_open :: "file_name \<Rightarrow> int \<Rightarrow> nat \<Rightarrow> os \<Rightarrow> reader \<Rightarrow> mm_error \<times> reader" where
  "reader_open name item chunk os r =
     (let r1 = r\<lparr>rd_item_size := item, rd_fd := sys_open name (rd_can_change r) os\<rparr> in
      case file_size (rd_fd r1) os of
        None \<Rightarrow> (E_open_fail, r1)
      | Some sz \<Rightarrow>
          (let c = (if sz < mul64 chunk item then sz else mul64 chunk item);
               r2 = r1\<lparr>rd_file_size := sz, rd_chunk_size := c\<rparr> in
           (E_ok, if 0 < c then r2\<lparr>rd_num_chunks := sub64 (w64 (sz + c)) 1 div c\<rparr> else r2)))"

(* src: mmap_file.hpp 281-283 Reader::get_obj_num *)
definition reader_obj_num :: "reader \<Rightarrow> int option" where
  "reader_obj_num r = (if rd_item_size r = 0 then None else Some (int (rd_file_size r) sdiv rd_item_size r))"

(* src: mmap_file.hpp 285-287 Reader::get_obj_size *)
definition reader_obj_size :: "reader \<Rightarrow> nat" where
  "reader_obj_size r = nat (rd_item_size r mod 2 ^ 64)"

(* src: mmap_file.hpp 330-339 Reader::clean_mmap *)
definition reader_clean :: "os \<Rightarrow> reader \<Rightarrow> mm_error \<times> reader" where
  "reader_clean os r =
     (if rd_addr r \<noteq> None
      then (if os_ok os Sys_unmap then E_ok else E_munmap_fail, r\<lparr>rd_addr := None\<rparr>) else (E_ok, r))"

(* src: mmap_file.hpp 341-347 Reader::calc_current *)
definition reader_calc :: "os \<Rightarrow> reader \<Rightarrow> reader" where
  "reader_calc os r =
     (let off = w64 (rd_index r * rd_chunk_size r) in
      r\<lparr>rd_cur_offset := off, rd_pa_offset := page_floor os off,
        rd_length := (if rd_index r < sub64 (rd_num_chunks r) 1 then rd_chunk_size r
                      else sub64 (rd_file_size r) (w64 (rd_index r * rd_chunk_size r)))\<rparr>)"

(* src: mmap_file.hpp 295-317 Reader::read *)
definition reader_read :: "os \<Rightarrow> reader \<Rightarrow> mm_error \<times> view \<times> reader" where
  "reader_read os r =
     (let (e, r1) = reader_clean os r in
      if e \<noteq> E_ok then (e, None, r1)
      else if rd_file_size r1 \<le> w64 (rd_cur_offset r1 + rd_length r1) then (E_ok, None, r1)
      else
        (let r2 = reader_calc os r1 in
         case sys_map (rd_fd r2) (rd_can_change r2) (rd_pa_offset r2)
                (sub64 (w64 (rd_length r2 + rd_cur_offset r2)) (rd_pa_offset r2)) os of
           None \<Rightarrow> (E_mmap_fail, None, r2)
         | Some m \<Rightarrow>
             (E_ok, Some (m, rd_cur_offset r2 - rd_pa_offset r2, rd_length r2),
              r2\<lparr>rd_addr := Some m, rd_index := w64 (Suc (rd_index r2))\<rparr>)))"

text \<open>The template read: the view as so many objects of a type of n bytes.\<close>

(* src: mmap_file.hpp 289-293 Reader::read *)
definition reader_read_typed :: "nat \<Rightarrow> os \<Rightarrow> reader \<Rightarrow> mm_error \<times> view \<times> nat \<times> reader" where
  "reader_read_typed n os r = (let (e, v, r1) = reader_read os r in (e, v, view_length v div n, r1))"

(* src: mmap_file.hpp 319-327 Reader::close *)
definition reader_close :: "os \<Rightarrow> reader \<Rightarrow> mm_error \<times> reader" where
  "reader_close os r =
     (let (e, r1) = reader_clean os r in
      if rd_fd r1 \<noteq> None \<and> \<not> os_ok os Sys_close then (E_close_fail, r1) else (E_ok, r1\<lparr>rd_fd := None\<rparr>))"

section \<open>ReverseReader\<close>

text \<open>The members are those of Reader but m_can_change, which is False here.\<close>

(* src: mmap_file.hpp 377-378 ReverseReader::ReverseReader *)
definition new_reverse :: "int \<Rightarrow> reader" where
  "new_reverse item = new_reader item False"

(* src: mmap_file.hpp 381-437 ReverseReader::open, ReverseReader::shm_open *)
definition reverse_open :: "file_name \<Rightarrow> int \<Rightarrow> nat \<Rightarrow> os \<Rightarrow> reader \<Rightarrow> mm_error \<times> reader" where
  "reverse_open name item chunk os r =
     (let r1 = r\<lparr>rd_item_size := item, rd_fd := sys_open name False os\<rparr> in
      case file_size (rd_fd r1) os of
        None \<Rightarrow> (E_open_fail, r1)
      | Some sz \<Rightarrow>
          (let c = (if sz < mul64 chunk item then sz else mul64 chunk item);
               r2 = r1\<lparr>rd_file_size := sz, rd_chunk_size := c\<rparr>;
               r3 = (if 0 < c then r2\<lparr>rd_num_chunks := sub64 (w64 (sz + c)) 1 div c\<rparr> else r2) in
           (E_ok, r3\<lparr>rd_index := rd_num_chunks r3\<rparr>)))"

(* src: mmap_file.hpp 473-482 ReverseReader::clean_mmap *)
definition reverse_clean :: "os \<Rightarrow> reader \<Rightarrow> mm_error \<times> reader" where
  "reverse_clean os r =
     (if rd_addr r \<noteq> None
      then (if os_ok os Sys_unmap then E_ok else E_munmap_fail, r\<lparr>rd_addr := None\<rparr>) else (E_ok, r))"

(* src: mmap_file.hpp 484-492 ReverseReader::calc_current *)
definition reverse_calc :: "os \<Rightarrow> reader \<Rightarrow> reader" where
  "reverse_calc os r =
     (let i = sub64 (rd_index r) 1; off = w64 (i * rd_chunk_size r) in
      r\<lparr>rd_index := i, rd_cur_offset := off, rd_pa_offset := page_floor os off,
        rd_length := (if i < sub64 (rd_num_chunks r) 1 then rd_chunk_size r
                      else sub64 (rd_file_size r) (w64 (i * rd_chunk_size r)))\<rparr>)"

(* src: mmap_file.hpp 453-470 ReverseReader::read *)
definition reverse_read :: "os \<Rightarrow> reader \<Rightarrow> mm_error \<times> view \<times> reader" where
  "reverse_read os r =
     (let (e, r1) = reverse_clean os r in
      if e \<noteq> E_ok then (e, None, r1)
      else if rd_index r1 = 0 then (E_ok, None, r1)
      else
        (let r2 = reverse_calc os r1 in
         case sys_map (rd_fd r2) False (rd_pa_offset r2)
                (sub64 (w64 (rd_length r2 + rd_cur_offset r2)) (rd_pa_offset r2)) os of
           None \<Rightarrow> (E_mmap_fail, None, r2)
         | Some m \<Rightarrow>
             (E_ok, Some (m, rd_cur_offset r2 - rd_pa_offset r2, rd_length r2), r2\<lparr>rd_addr := Some m\<rparr>)))"

(* src: mmap_file.hpp 494-503 ReverseReader::close *)
definition reverse_close :: "os \<Rightarrow> reader \<Rightarrow> mm_error \<times> reader" where
  "reverse_close os r =
     (let (e, r1) = reverse_clean os r in
      if rd_fd r1 \<noteq> None \<and> \<not> os_ok os Sys_close then (E_close_fail, r1) else (E_ok, r1\<lparr>rd_fd := None\<rparr>))"

section \<open>Reading in pieces\<close>

text \<open>
  The contract of a reader that hands out a text piece by piece: where it stands is a number, the
  pieces it has handed out. A client reads until it gets an empty view.
\<close>

definition chunks_of :: "nat \<Rightarrow> 'a list \<Rightarrow> 'a list list" where
  "chunks_of c xs = map (\<lambda>k. part (k * c) c xs) [0..<(length xs + c - 1) div c]"

fun read_all :: "('s \<Rightarrow> mm_error \<times> view \<times> 's) \<Rightarrow> os \<Rightarrow> nat \<Rightarrow> 's \<Rightarrow> bytes list option" where
  "read_all rd os 0 s = None"
| "read_all rd os (Suc n) s =
     (case rd s of (e, v, s1) \<Rightarrow>
        if e \<noteq> E_ok then None
        else if view_length v = 0 then Some []
        else (case view_bytes os v of
                None \<Rightarrow> None
              | Some b \<Rightarrow> map_option ((#) b) (read_all rd os n s1)))"

lemma length_peek: "peek m i n os = Some bs \<Longrightarrow> length bs = n"
  by (auto simp: peek_def Let_def min_def max_def split: if_splits)

lemma view_length_bytes: "view_bytes os v = Some b \<Longrightarrow> view_length v = length b"
  by (cases v) (auto simp: view_bytes_def view_length_def length_peek)

locale chunk_source =
  fixes stands :: "'s \<Rightarrow> nat \<Rightarrow> bool"
    and rd :: "'s \<Rightarrow> mm_error \<times> view \<times> 's"
    and os :: os
    and pieces :: "bytes list"
  assumes piece: "stands s k \<Longrightarrow> k < length pieces \<Longrightarrow>
      \<exists>v s1. rd s = (E_ok, v, s1) \<and> view_bytes os v = Some (pieces ! k) \<and> stands s1 (Suc k)"
    and over: "stands s (length pieces) \<Longrightarrow> \<exists>s1. rd s = (E_ok, None, s1) \<and> stands s1 (length pieces)"
    and nonempty: "k < length pieces \<Longrightarrow> pieces ! k \<noteq> []"
begin

lemma read_all_pieces:
  "stands s k \<Longrightarrow> k \<le> length pieces \<Longrightarrow> length pieces - k < n \<Longrightarrow>
     read_all rd os n s = Some (drop k pieces)"
proof (induction n arbitrary: s k)
  case 0
  then show ?case by simp
next
  case (Suc n)
  show ?case
  proof (cases "k < length pieces")
    case True
    then obtain v s1 where r: "rd s = (E_ok, v, s1)" "view_bytes os v = Some (pieces ! k)" "stands s1 (Suc k)"
      using piece Suc.prems(1) by blast
    moreover have "view_length v \<noteq> 0" using nonempty [OF True] view_length_bytes [OF r(2)] by simp
    moreover have "read_all rd os n s1 = Some (drop (Suc k) pieces)"
      using Suc.IH [OF r(3)] Suc.prems True by simp
    ultimately show ?thesis by (simp add: Cons_nth_drop_Suc True)
  next
    case False
    then have "k = length pieces" using Suc.prems(2) by simp
    moreover obtain s1 where "rd s = (E_ok, None, s1)"
      using over [of s] Suc.prems(1) \<open>k = length pieces\<close> by auto
    ultimately show ?thesis by (simp add: view_length_def)
  qed
qed

end

section \<open>The pieces of a text\<close>

lemma concat_parts: "concat (map (\<lambda>k. part (k * c) c xs) [0..<n]) = take (n * c) xs"
  by (induction n) (simp_all add: part_def take_add [symmetric] add.commute [of c])

lemma chunks_count: "0 < c \<Longrightarrow> k < (n + c - 1) div c \<longleftrightarrow> k * c < (n :: nat)"
proof -
  assume c: "0 < c"
  have "k < (n + c - 1) div c \<longleftrightarrow> Suc k \<le> (n + c - 1) div c" by auto
  also have "\<dots> \<longleftrightarrow> Suc k * c \<le> n + c - 1" by (rule less_eq_div_iff_mult_less_eq [OF c])
  also have "\<dots> \<longleftrightarrow> k * c < n" using c by auto
  finally show ?thesis .
qed

lemma chunks_cover: "0 < c \<Longrightarrow> n \<le> (n + c - 1) div c * (c :: nat)"
  using chunks_count [of c "(n + c - 1) div c" n] by simp

lemma concat_chunks_of: "0 < c \<Longrightarrow> concat (chunks_of c xs) = xs"
  using chunks_cover [of c "length xs"] by (simp add: chunks_of_def concat_parts del: One_nat_def)

lemma length_chunks_of: "length (chunks_of c xs) = (length xs + c - 1) div c"
  by (simp add: chunks_of_def)

lemma chunk_count_code:
  "0 < c \<Longrightarrow> c \<le> length xs \<Longrightarrow> length xs < 2 ^ 63 \<Longrightarrow> sub64 (w64 (length xs + c)) 1 div c = length (chunks_of c xs)"
  by (simp add: length_chunks_of)

lemma nth_chunks_of: "k < length (chunks_of c xs) \<Longrightarrow> chunks_of c xs ! k = part (k * c) c xs"
  by (simp add: chunks_of_def)

lemma chunk_index: "0 < c \<Longrightarrow> k < length (chunks_of c xs) \<longleftrightarrow> k * c < length xs"
  by (simp only: length_chunks_of chunks_count)

lemma chunks_of_nonempty:
  assumes "0 < c" "k < length (chunks_of c xs)"
  shows "chunks_of c xs ! k \<noteq> []"
proof -
  have "k * c < length xs" using assms chunk_index by blast
  then have "0 < length (chunks_of c xs ! k)" using assms by (simp add: nth_chunks_of)
  then show ?thesis by simp
qed

text \<open>All pieces but the last have the full length.\<close>

lemma length_chunk:
  assumes "0 < c" "Suc k < length (chunks_of c xs)"
  shows "length (chunks_of c xs ! k) = c"
  using assms chunk_index [of c "Suc k" xs] by (simp add: nth_chunks_of)

lemma last_chunk:
  assumes "0 < c" "k < length (chunks_of c xs)" "\<not> k < length (chunks_of c xs) - 1"
  shows "length xs - k * c \<le> c" "k * c < length xs"
proof -
  have "\<not> Suc k < length (chunks_of c xs)" using assms by linarith
  then show "length xs - k * c \<le> c" using assms(1) chunk_index [of c "Suc k" xs] by simp
  show "k * c < length xs" using assms chunk_index by blast
qed

section \<open>The readers are such sources\<close>

definition all_calls_ok :: "os \<Rightarrow> bool" where
  "all_calls_ok os \<longleftrightarrow> (\<forall>c. os_ok os c)"

text \<open>What an open reader of the file f with chunks of c bytes knows of it.\<close>

definition rd_open :: "os \<Rightarrow> bytes \<Rightarrow> nat \<Rightarrow> reader \<Rightarrow> bool" where
  "rd_open os f c r \<longleftrightarrow> os_fine os \<and> all_calls_ok os \<and> length f < 2 ^ 63 \<and> 0 < c \<and> c \<le> length f \<and>
     (\<exists>i w. rd_fd r = Some (i, w) \<and> (rd_can_change r \<longrightarrow> w) \<and> os_file os i = f) \<and>
     rd_file_size r = length f \<and> rd_chunk_size r = c \<and> rd_num_chunks r = length (chunks_of c f)"

definition rd_stands :: "os \<Rightarrow> bytes \<Rightarrow> nat \<Rightarrow> reader \<Rightarrow> nat \<Rightarrow> bool" where
  "rd_stands os f c r k \<longleftrightarrow> rd_open os f c r \<and> rd_index r = k \<and> k \<le> length (chunks_of c f) \<and>
     rd_cur_offset r + rd_length r = min (k * c) (length f)"

lemma length_chunks_le: "0 < c \<Longrightarrow> length (chunks_of c f) \<le> length f"
proof (rule ccontr)
  assume c: "0 < c" and "\<not> length (chunks_of c f) \<le> length f"
  then have "length f < length (chunks_of c f)" by simp
  then have "length f * c < length f" using c chunk_index by blast
  then show False using c by simp
qed

text \<open>The part of a file that read maps, for both readers.\<close>

lemma map_piece:
  assumes o: "rd_open os f c r" and k: "k < length (chunks_of c f)"
    and off: "off = k * c" and n: "n = length (chunks_of c f ! k)"
  obtains m where "sys_map (rd_fd r) (rd_can_change r) (page_floor os off) (n + off - page_floor os off) os = Some m"
    and "peek m (off - page_floor os off) n os = Some (chunks_of c f ! k)"
proof -
  obtain i w where fd: "rd_fd r = Some (i, w)" "rd_can_change r \<longrightarrow> w" "os_file os i = f"
    and os: "os_fine os" "all_calls_ok os" and c: "0 < c" and l: "length f < 2 ^ 63"
    using o by (auto simp: rd_open_def)
  have kc: "k * c < length f" using k c chunk_index by blast
  have nk: "n = min c (length f - off)" using k n off by (simp add: nth_chunks_of)
  have "part off n f = chunks_of c f ! k" using k off nk by (simp add: nth_chunks_of part_min)
  moreover have "0 < n" "off + n \<le> length (os_file os i)" using kc nk c off fd(3) by auto
  ultimately show ?thesis
    using map_part [OF os(1), of off n i "rd_can_change r" w] os(2) l fd that by (auto simp: all_calls_ok_def)
qed

lemma reader_piece:
  assumes st: "rd_stands os f c r k" and k: "k < length (chunks_of c f)"
  shows "\<exists>v r'. reader_read os r = (E_ok, v, r') \<and> view_bytes os v = Some (chunks_of c f ! k) \<and>
    rd_stands os f c r' (Suc k)"
proof -
  define r1 where "r1 = r\<lparr>rd_addr := None\<rparr>"
  have clean: "reader_clean os r = (E_ok, r1)"
    using st by (auto simp: reader_clean_def r1_def rd_stands_def rd_open_def all_calls_ok_def)
  have o: "rd_open os f c r1" and i: "rd_index r1 = k" and pos: "rd_cur_offset r1 + rd_length r1 = min (k * c) (length f)"
    using st by (auto simp: rd_stands_def rd_open_def r1_def)
  have c: "0 < c" "c \<le> length f" "length f < 2 ^ 63" "rd_file_size r1 = length f" "rd_chunk_size r1 = c"
    "rd_num_chunks r1 = length (chunks_of c f)" using o by (auto simp: rd_open_def)
  have kc: "k * c < length f" using k c(1) chunk_index by blast
  have len: "length (chunks_of c f) < 2 ^ 63" using length_chunks_le [OF c(1), of f] c(3) by simp
  define n where "n = length (chunks_of c f ! k)"
  have n: "n = (if k < length (chunks_of c f) - 1 then c else length f - k * c)"
    using length_chunk [OF c(1), of k f] last_chunk [OF c(1) k] k by (auto simp: n_def nth_chunks_of min_def)
  let ?off = "k * c"
  have calc: "reader_calc os r1 = r1\<lparr>rd_cur_offset := ?off, rd_pa_offset := page_floor os ?off, rd_length := n\<rparr>"
    using kc c k len by (simp add: reader_calc_def Let_def i n)
  have fl: "page_floor os ?off \<le> ?off" using o kc c(3) page_floor_le by (simp add: rd_open_def)
  have nn: "n + ?off \<le> length f" using n kc last_chunk [OF c(1) k] length_chunk [OF c(1), of k f]
    chunk_index [OF c(1), of "Suc k" f] by (auto split: if_splits)
  obtain m where m: "sys_map (rd_fd r1) (rd_can_change r1) (page_floor os ?off) (n + ?off - page_floor os ?off) os = Some m"
    and p: "peek m (?off - page_floor os ?off) n os = Some (chunks_of c f ! k)"
    using map_piece [OF o k refl n_def] by blast
  define r' where "r' = r1\<lparr>rd_cur_offset := ?off, rd_pa_offset := page_floor os ?off, rd_length := n,
     rd_addr := Some m, rd_index := Suc k\<rparr>"
  have "reader_read os r = (E_ok, Some (m, ?off - page_floor os ?off, n), r')"
    using kc c k len nn fl m pos i
    by (simp add: reader_read_def clean calc Let_def r'_def)
  moreover have "view_bytes os (Some (m, ?off - page_floor os ?off, n)) = Some (chunks_of c f ! k)"
    by (simp add: view_bytes_def p)
  moreover have "rd_stands os f c r' (Suc k)"
  proof -
    have "?off + n = min (Suc k * c) (length f)"
      using n nn last_chunk [OF c(1) k] chunk_index [OF c(1), of "Suc k" f] by (auto split: if_splits)
    then show ?thesis using o k by (simp add: rd_stands_def rd_open_def r'_def)
  qed
  ultimately show ?thesis by blast
qed

lemma reader_over:
  assumes st: "rd_stands os f c r (length (chunks_of c f))"
  shows "\<exists>r'. reader_read os r = (E_ok, None, r') \<and> rd_stands os f c r' (length (chunks_of c f))"
proof -
  have c: "0 < c" "length f < 2 ^ 63" "all_calls_ok os" "rd_file_size r = length f"
    using st by (auto simp: rd_stands_def rd_open_def)
  have "length f \<le> length (chunks_of c f) * c" using chunk_index [OF c(1), of "length (chunks_of c f)" f] by simp
  then have "rd_cur_offset r + rd_length r = length f" using st by (simp add: rd_stands_def)
  then have "reader_read os r = (E_ok, None, r\<lparr>rd_addr := None\<rparr>)"
    using c by (auto simp: reader_read_def reader_clean_def all_calls_ok_def)
  moreover have "rd_stands os f c (r\<lparr>rd_addr := None\<rparr>) (length (chunks_of c f))"
    using st by (simp add: rd_stands_def rd_open_def)
  ultimately show ?thesis by blast
qed

lemma chunks_of_nonempty_all: "k < length (chunks_of c xs) \<Longrightarrow> chunks_of c xs ! k \<noteq> []"
  by (cases "c = 0") (auto simp: length_chunks_of chunks_of_nonempty)

text \<open>The reversed reader stands at k when it has handed out the last k pieces.\<close>

definition rv_stands :: "os \<Rightarrow> bytes \<Rightarrow> nat \<Rightarrow> reader \<Rightarrow> nat \<Rightarrow> bool" where
  "rv_stands os f c r k \<longleftrightarrow> rd_open os f c r \<and> \<not> rd_can_change r \<and> k \<le> length (chunks_of c f) \<and>
     rd_index r = length (chunks_of c f) - k"

lemma reverse_piece:
  assumes st: "rv_stands os f c r k" and k: "k < length (rev (chunks_of c f))"
  shows "\<exists>v r'. reverse_read os r = (E_ok, v, r') \<and> view_bytes os v = Some (rev (chunks_of c f) ! k) \<and>
    rv_stands os f c r' (Suc k)"
proof -
  define r1 where "r1 = r\<lparr>rd_addr := None\<rparr>"
  have clean: "reverse_clean os r = (E_ok, r1)"
    using st by (auto simp: reverse_clean_def r1_def rv_stands_def rd_open_def all_calls_ok_def)
  define j where "j = length (chunks_of c f) - Suc k"
  have j: "j < length (chunks_of c f)" and jp: "rev (chunks_of c f) ! k = chunks_of c f ! j"
    using k by (auto simp: j_def rev_nth)
  have o: "rd_open os f c r1" and i: "rd_index r1 = Suc j" and cc: "\<not> rd_can_change r1"
    using st k by (auto simp: rv_stands_def rd_open_def r1_def j_def)
  have c: "0 < c" "c \<le> length f" "length f < 2 ^ 63" "rd_file_size r1 = length f" "rd_chunk_size r1 = c"
    "rd_num_chunks r1 = length (chunks_of c f)" using o by (auto simp: rd_open_def)
  have jc: "j * c < length f" using j c(1) chunk_index by blast
  have len: "length (chunks_of c f) < 2 ^ 63" using length_chunks_le [OF c(1), of f] c(3) by simp
  define n where "n = length (chunks_of c f ! j)"
  have n: "n = (if j < length (chunks_of c f) - 1 then c else length f - j * c)"
    using length_chunk [OF c(1), of j f] last_chunk [OF c(1) j] j by (auto simp: n_def nth_chunks_of min_def)
  let ?off = "j * c"
  have calc: "reverse_calc os r1 = r1\<lparr>rd_index := j, rd_cur_offset := ?off, rd_pa_offset := page_floor os ?off, rd_length := n\<rparr>"
    using jc c j len by (simp add: reverse_calc_def Let_def i n)
  have fl: "page_floor os ?off \<le> ?off" using o jc c(3) page_floor_le by (simp add: rd_open_def)
  have nn: "n + ?off \<le> length f" using n jc last_chunk [OF c(1) j] length_chunk [OF c(1), of j f]
    chunk_index [OF c(1), of "Suc j" f] by (auto split: if_splits)
  obtain m where m: "sys_map (rd_fd r1) (rd_can_change r1) (page_floor os ?off) (n + ?off - page_floor os ?off) os = Some m"
    and p: "peek m (?off - page_floor os ?off) n os = Some (chunks_of c f ! j)"
    using map_piece [OF o j refl n_def] by blast
  define r' where "r' = r1\<lparr>rd_index := j, rd_cur_offset := ?off, rd_pa_offset := page_floor os ?off, rd_length := n,
     rd_addr := Some m\<rparr>"
  have "reverse_read os r = (E_ok, Some (m, ?off - page_floor os ?off, n), r')"
    using c nn fl m i cc by (simp add: reverse_read_def clean calc Let_def r'_def)
  moreover have "view_bytes os (Some (m, ?off - page_floor os ?off, n)) = Some (rev (chunks_of c f) ! k)"
    by (simp add: view_bytes_def p jp)
  moreover have "rv_stands os f c r' (Suc k)"
    using o k cc by (simp add: rv_stands_def rd_open_def r'_def j_def)
  ultimately show ?thesis by blast
qed

lemma reverse_over:
  assumes st: "rv_stands os f c r (length (rev (chunks_of c f)))"
  shows "\<exists>r'. reverse_read os r = (E_ok, None, r') \<and> rv_stands os f c r' (length (rev (chunks_of c f)))"
  using st by (auto simp: reverse_read_def reverse_clean_def rv_stands_def rd_open_def all_calls_ok_def)

interpretation rdr: chunk_source "rd_stands os f c" "reader_read os" os "chunks_of c f"
  by unfold_locales (erule (1) reader_piece, erule reader_over, erule chunks_of_nonempty_all)

lemma rev_chunks_nonempty: "k < length (rev (chunks_of c f)) \<Longrightarrow> rev (chunks_of c f) ! k \<noteq> []"
  using chunks_of_nonempty_all [of "length (chunks_of c f) - Suc k" c f] by (simp add: rev_nth)

interpretation rvr: chunk_source "rv_stands os f c" "reverse_read os" os "rev (chunks_of c f)"
  by unfold_locales (erule (1) reverse_piece, erule reverse_over, erule rev_chunks_nonempty)

text \<open>What open leaves of a new reader.\<close>

definition readable_file :: "file_name \<Rightarrow> bytes \<Rightarrow> os \<Rightarrow> bool" where
  "readable_file name f os \<longleftrightarrow> os_fine os \<and> all_calls_ok os \<and> length f < 2 ^ 63 \<and>
     (\<exists>i. os_dir os name = Some i \<and> os_file os i = f)"

lemma reader_open_stands:
  assumes "readable_file name f os" "f \<noteq> []" "0 < mul64 chunk item"
  defines "c \<equiv> min (mul64 chunk item) (length f)"
  shows "\<exists>r. reader_open name item chunk os (new_reader it cc) = (E_ok, r) \<and> rd_stands os f c r 0"
    and "\<exists>r. reverse_open name item chunk os (new_reverse it) = (E_ok, r) \<and> rv_stands os f c r 0"
proof -
  obtain i where i: "os_dir os name = Some i" "os_file os i = f" "os_fine os" "all_calls_ok os" "length f < 2 ^ 63"
    using assms(1) by (auto simp: readable_file_def)
  have c: "0 < c" "c \<le> length f" using assms by (auto simp: c_def)
  have n: "sub64 (w64 (length f + c)) 1 div c = length (chunks_of c f)"
    by (rule chunk_count_code [OF c i(5)])
  have cases: "length f < mul64 chunk item \<and> length f = c \<or> \<not> length f < mul64 chunk item \<and> mul64 chunk item = c"
    by (auto simp: c_def)
  show "\<exists>r. reader_open name item chunk os (new_reader it cc) = (E_ok, r) \<and> rd_stands os f c r 0"
    using i c n cases
    by (cases cc; elim disjE conjE) (simp_all add: reader_open_def new_reader_def sys_open_def file_size_def all_calls_ok_def
      Let_def rd_stands_def rd_open_def ex_bool_eq)
  show "\<exists>r. reverse_open name item chunk os (new_reverse it) = (E_ok, r) \<and> rv_stands os f c r 0"
    using i c n cases
    by (elim disjE conjE) (simp_all add: reverse_open_def new_reverse_def new_reader_def sys_open_def file_size_def
      all_calls_ok_def
      Let_def rv_stands_def rd_open_def ex_bool_eq)
qed

lemma read_empty_file:
  assumes "readable_file name [] os"
  shows "\<exists>r. reader_open name item chunk os (new_reader it cc) = (E_ok, r) \<and>
      read_all (reader_read os) os (Suc n) r = Some []"
    and "\<exists>r. reverse_open name item chunk os (new_reverse it) = (E_ok, r) \<and>
      read_all (reverse_read os) os (Suc n) r = Some []"
  using assms
  by (cases "mul64 chunk item = 0"; auto simp: readable_file_def reader_open_def reverse_open_def new_reader_def
    new_reverse_def sys_open_def file_size_def all_calls_ok_def Let_def reader_read_def reverse_read_def
    reader_clean_def reverse_clean_def view_length_def)+

text \<open>C13: Both readers hand out the whole of a file, in pieces: after open, the views that read returns until
  the first empty one are the file's bytes, in order, cut into pieces of chunk_size items (of the whole
  file, when it is shorter than that); only the last piece may be shorter, it is never empty, and
  there are as many pieces as the length of the file divided by that of a piece, rounded up.
  ReverseReader hands out the same pieces from the last to the first. No read fails and none is
  undefined, wherever the pieces lie relative to the pages, as long as the system calls succeed, the
  size of a piece is not zero and the file is shorter than 2 to the 63 bytes.\<close>

theorem mmap_readers_whole_file:
  assumes "readable_file name f os" "0 < mul64 chunk item" "length f < n"
  shows "\<exists>r r' ps. reader_open name item chunk os (new_reader it cc) = (E_ok, r) \<and>
    reverse_open name item chunk os (new_reverse it) = (E_ok, r') \<and>
    read_all (reader_read os) os n r = Some ps \<and> read_all (reverse_read os) os n r' = Some (rev ps) \<and>
    concat ps = f \<and> (\<forall>p \<in> set (butlast ps). length p = min (mul64 chunk item) (length f)) \<and>
    (ps \<noteq> [] \<longrightarrow> 0 < length (last ps) \<and> length (last ps) \<le> min (mul64 chunk item) (length f)) \<and>
    length ps = (length f + min (mul64 chunk item) (length f) - 1) div min (mul64 chunk item) (length f)"
proof (cases "f = []")
  case True
  then show ?thesis using assms(1,3) read_empty_file(1) [of name os item chunk it cc "n - 1"]
    read_empty_file(2) [of name os item chunk it "n - 1"] by auto
next
  case False
  define c where "c = min (mul64 chunk item) (length f)"
  have c: "0 < c" using assms(2) False by (simp add: c_def)
  have n: "length (chunks_of c f) < n" using length_chunks_le [OF c, of f] assms(3) by simp
  obtain r r' where r: "reader_open name item chunk os (new_reader it cc) = (E_ok, r)" "rd_stands os f c r 0"
    "reverse_open name item chunk os (new_reverse it) = (E_ok, r')" "rv_stands os f c r' 0"
    using reader_open_stands(1) [OF assms(1) False assms(2), of it cc]
      reader_open_stands(2) [OF assms(1) False assms(2), of it] unfolding c_def by blast
  have "read_all (reader_read os) os n r = Some (chunks_of c f)"
    "read_all (reverse_read os) os n r' = Some (rev (chunks_of c f))"
    using rdr.read_all_pieces [OF r(2)] rvr.read_all_pieces [OF r(4)] n by simp_all
  moreover have "length p = c" if p: "p \<in> set (butlast (chunks_of c f))" for p
  proof -
    obtain i where i: "i < length (butlast (chunks_of c f))" "butlast (chunks_of c f) ! i = p"
      using p unfolding in_set_conv_nth by blast
    then show ?thesis using length_chunk [OF c, of i f] nth_butlast [OF i(1)] by (simp add: less_diff_conv)
  qed
  moreover have "0 < length (last (chunks_of c f)) \<and> length (last (chunks_of c f)) \<le> c" if "chunks_of c f \<noteq> []"
  proof -
    have "last (chunks_of c f) = chunks_of c f ! (length (chunks_of c f) - 1)" by (rule last_conv_nth [OF that])
    moreover have "length (chunks_of c f) - 1 < length (chunks_of c f)" using that by simp
    ultimately show ?thesis
      using chunk_index [OF c, of "length (chunks_of c f) - 1" f] c by (simp add: nth_chunks_of)
  qed
  ultimately show ?thesis unfolding c_def [symmetric]
    by (intro exI [of _ r] exI [of _ r'] exI [of _ "chunks_of c f"])
       (simp add: r(1,3) concat_chunks_of [OF c] length_chunks_of)
qed

definition sample_os :: os where
  "sample_os = \<lparr>os_page = 4096, os_ok = (\<lambda>c. True), os_dir = [(False, ''f'') \<mapsto> 0], os_file = (\<lambda>i. [1, 2, 3, 4, 5]),
     os_new = 1\<rparr>"

theorem mmap_readers_whole_file_witness:
  "\<exists>r r' ps. reader_open (False, ''f'') 2 1 sample_os (new_reader 1 False) = (E_ok, r) \<and>
    reverse_open (False, ''f'') 2 1 sample_os (new_reverse 1) = (E_ok, r') \<and>
    read_all (reader_read sample_os) sample_os 6 r = Some ps \<and>
    read_all (reverse_read sample_os) sample_os 6 r' = Some (rev ps) \<and>
    concat ps = [1, 2, 3, 4, 5] \<and> (\<forall>p \<in> set (butlast ps). length p = 2)"
proof -
  have "readable_file (False, ''f'') [1, 2, 3, 4, 5] sample_os"
    by (auto simp: readable_file_def sample_os_def os_fine_def all_calls_ok_def intro: exI [of _ 12])
  moreover have "mul64 1 2 = 2" by (simp add: mul64_def)
  ultimately show ?thesis
    using mmap_readers_whole_file [of "(False, ''f'')" "[1, 2, 3, 4, 5]" sample_os 1 2 6 1 False]
    by (auto simp: numeral_2_eq_2)
qed

end
