(* ===== verification/Mmap_Writer.thy ===== *)
theory Mmap_Writer
  imports Mmap_Reader Memory_Stream
begin

text \<open>
  MMapFile::Writer (mmap_file.hpp), which maps the end of a file for every write, and
  MMapFile::BatchWriter, which collects what is written in a MemoryStream. The result None of a call is
  undefined behaviour. off_t is int here: the offset of a Writer can be negative.
\<close>

section \<open>Writer\<close>

(* src: mmap_file.hpp 591-596 Writer *)
record mm_writer =
  mw_fd :: fd
  mw_offset :: int

(* src: mmap_file.hpp 530-530 Writer::Writer *)
definition new_mm_writer :: mm_writer where
  "new_mm_writer = \<lparr>mw_fd = None, mw_offset = 0\<rparr>"

(* src: mmap_file.hpp 533-553 Writer::open, Writer::shm_open *)
definition mmw_open :: "file_name \<Rightarrow> bool \<Rightarrow> mm_writer \<Rightarrow> os \<Rightarrow> mm_error \<times> mm_writer \<times> os" where
  "mmw_open name is_append w os =
     (let (fd, os1) = sys_open_create name os; w1 = w\<lparr>mw_fd := fd\<rparr> in
      if is_append
      then (case seek_end fd os1 of
              None \<Rightarrow> (E_open_fail, w1\<lparr>mw_offset := -1\<rparr>, os1)
            | Some n \<Rightarrow> (E_ok, w1\<lparr>mw_offset := int n\<rparr>, os1))
      else (E_ok, w1, os1))"

(* src: mmap_file.hpp 555-557 Writer::reset_offset *)
definition mmw_reset_offset :: "int \<Rightarrow> mm_writer \<Rightarrow> mm_writer" where
  "mmw_reset_offset off w = w\<lparr>mw_offset := off\<rparr>"

text \<open>ftruncate refuses a negative size, and mmap a negative offset.\<close>

(* src: mmap_file.hpp 559-582 Writer::write *)
definition mmw_write :: "bytes \<Rightarrow> mm_writer \<Rightarrow> os \<Rightarrow> (mm_error \<times> mm_writer \<times> os) option" where
  "mmw_write data w os =
     (if data = [] then Some (E_ok, w, os)
      else
        (let new_size = mw_offset w + int (length data) in
         case (if new_size < 0 then None else sys_truncate (mw_fd w) (nat new_size) os) of
           None \<Rightarrow> Some (E_ftruncate_fail, w, os)
         | Some os1 \<Rightarrow>
             (let pa = page_floor os1 (nat (mw_offset w)) in
              case (if mw_offset w < 0 then None else sys_map (mw_fd w) True pa (nat new_size - pa) os1) of
                None \<Rightarrow> Some (E_mmap_fail, w, os1)
              | Some m \<Rightarrow>
                  (case poke m 0 data os1 of
                     None \<Rightarrow> None
                   | Some os2 \<Rightarrow>
                       (let w1 = w\<lparr>mw_offset := mw_offset w + int (length data)\<rparr> in
                        Some (if os_ok os2 Sys_unmap then E_ok else E_munmap_fail, w1, os2))))))"

(* src: mmap_file.hpp 584-589 Writer::close *)
definition mmw_close :: "mm_writer \<Rightarrow> mm_writer" where
  "mmw_close w = w\<lparr>mw_fd := None\<rparr>"

text \<open>Writer::write puts the data at the beginning of the page its offset lies in, not at the offset:
  with every system call succeeding, the file is cut or extended to the offset and the length of the data,
  and the data stand where the page begins. So a write at the beginning of a page appends, and a write at
  any other offset overwrites what the page holds and leaves other bytes at the offset.\<close>

theorem mmap_writer_page_start:
  assumes "os_fine os" "all_calls_ok os" "mw_fd w = Some (i, True)" "mw_offset w = int off"
    and "data \<noteq> []" "off + length data < 2 ^ 63"
  shows "\<exists>os'. mmw_write data w os = Some (E_ok, w\<lparr>mw_offset := int (off + length data)\<rparr>, os') \<and>
    os_file os' i = put_at (off - off mod os_page os) data (resize (off + length data) (os_file os i)) \<and>
    (os_page os dvd off \<longrightarrow> os_file os' i = resize off (os_file os i) @ data)"
proof -
  let ?pa = "page_floor os off"
  let ?os1 = "os\<lparr>os_file := (os_file os)(i := resize (off + length data) (os_file os i))\<rparr>"
  have pa: "?pa = off - off mod os_page os" using assms by (simp add: page_floor_eq)
  have t: "sys_truncate (mw_fd w) (off + length data) os = Some ?os1"
    using assms by (simp add: sys_truncate_def all_calls_ok_def)
  have same: "page_floor ?os1 off = ?pa" by (simp add: page_floor_def)
  define m where "m = \<lparr>mp_file = i, mp_off = ?pa, mp_len = off + length data - ?pa, mp_write = True\<rparr>"
  have s: "sys_map (mw_fd w) True ?pa (off + length data - ?pa) ?os1 = Some m"
    using assms page_floor_dvd [of os off] by (simp add: sys_map_def all_calls_ok_def m_def pa)
  have p: "poke m 0 data ?os1 = Some (?os1\<lparr>os_file := (os_file ?os1)(i := put_at ?pa data (os_file ?os1 i))\<rparr>)"
    by (subst poke_inside) (simp_all add: m_def pa)
  have "mmw_write data w os = Some (E_ok, w\<lparr>mw_offset := int (off + length data)\<rparr>,
      ?os1\<lparr>os_file := (os_file ?os1)(i := put_at ?pa data (os_file ?os1 i))\<rparr>)"
    using assms t s p by (simp add: mmw_write_def Let_def same nat_int_add all_calls_ok_def del: of_nat_add flip: of_nat_add)
  moreover have "put_at off data (resize (off + length data) xs) = resize off xs @ data" for xs
    by (simp add: put_at_def resize_def)
  ultimately show ?thesis by (simp add: pa dvd_eq_mod_eq_0)
qed

lemma replicate_two: "replicate 2 x = [x, x]"
  by (simp add: numeral_2_eq_2)

theorem mmap_writer_page_start_witness:
  "\<exists>os'. mmw_write [9, 8] \<lparr>mw_fd = Some (0, True), mw_offset = 5\<rparr> sample_os =
      Some (E_ok, \<lparr>mw_fd = Some (0, True), mw_offset = 7\<rparr>, os') \<and> os_file os' 0 = [9, 8, 3, 4, 5, 0, 0]"
proof -
  have "os_fine sample_os" "all_calls_ok sample_os"
    by (auto simp: sample_os_def os_fine_def all_calls_ok_def intro: exI [of _ 12])
  then show ?thesis
    using mmap_writer_page_start [of sample_os "\<lparr>mw_fd = Some (0, True), mw_offset = 5\<rparr>" 0 5 "[9, 8]"]
    by (auto simp: sample_os_def put_at_def resize_def replicate_two)
qed

section \<open>BatchWriter\<close>

text \<open>
  The file is what has been handed to fwrite for it, with what it held when it was opened for appending;
  a byte is None when the memory it comes from was not written. The first argument of the constructor is
  what fopen finds: None when it fails, else the file's bytes. The result None is undefined, Some None an
  exception.
\<close>

(* src: mmap_file.hpp 1340-1344 BatchWriter *)
record batch_writer =
  bw_file :: "cell list"
  bw_realtime_flush :: bool
  bw_buffer :: memory_stream
  bw_buffer_size :: nat

(* src: mmap_file.hpp 1218-1235 BatchWriter::BatchWriter *)
definition new_batch_writer :: "bytes option \<Rightarrow> bool \<Rightarrow> bool \<Rightarrow> nat \<Rightarrow> batch_writer option option" where
  "new_batch_writer found over_write realtime bsize =
     (case found of
        None \<Rightarrow> if over_write then Some None else None
      | Some bs \<Rightarrow>
          Some (Some \<lparr>bw_file = (if over_write then [] else map Some bs), bw_realtime_flush = realtime,
            bw_buffer = new_stream_of_capacity (bsize + 1024), bw_buffer_size = bsize\<rparr>))"

(* src: mmap_file.hpp 1324-1330 BatchWriter::flush *)
definition bw_flush :: "batch_writer \<Rightarrow> batch_writer option" where
  "bw_flush w =
     (if ms_size (bw_buffer w) = 0 then Some w
      else map_option (\<lambda>cs. w\<lparr>bw_file := bw_file w @ cs, bw_buffer := ms_clear (bw_buffer w)\<rparr>)
             (copy_out 0 (ms_size (bw_buffer w)) (bw_buffer w)))"

(* src: mmap_file.hpp 1237-1242 BatchWriter::~BatchWriter *)
definition bw_destroy :: "batch_writer \<Rightarrow> cell list option" where
  "bw_destroy w = map_option bw_file (bw_flush w)"

(* src: mmap_file.hpp 1279-1281 BatchWriter::empty *)
definition bw_empty :: "batch_writer \<Rightarrow> bool" where
  "bw_empty w \<longleftrightarrow> length (bw_file w) = 0"

(* src: mmap_file.hpp 1283-1285 BatchWriter::reset_flush *)
definition bw_reset_flush :: "bool \<Rightarrow> batch_writer \<Rightarrow> batch_writer" where
  "bw_reset_flush realtime w = w\<lparr>bw_realtime_flush := realtime\<rparr>"

(* src: mmap_file.hpp 1287-1293 BatchWriter::write *)
definition bw_write_arg :: "arg \<Rightarrow> batch_writer \<Rightarrow> batch_writer option" where
  "bw_write_arg a w =
     do { b \<leftarrow> ms_append_arg a (bw_buffer w);
          let w1 = w\<lparr>bw_buffer := b\<rparr>;
          if bw_buffer_size w1 \<le> ms_size b then bw_flush w1 else Some w1 }"

(* src: mmap_file.hpp 1309-1314 BatchWriter::write, BatchWriter::write_string *)
definition bw_write :: "bytes \<Rightarrow> batch_writer \<Rightarrow> batch_writer option" where
  "bw_write data w =
     do { b \<leftarrow> ms_append (map Some data) (bw_buffer w);
          let w1 = w\<lparr>bw_buffer := b\<rparr>;
          if bw_realtime_flush w1 \<or> bw_buffer_size w1 \<le> ms_size b then bw_flush w1 else Some w1 }"

(* src: mmap_file.hpp 1316-1322 BatchWriter::write_line, BatchWriter::write_string_line *)
definition bw_write_line :: "bytes \<Rightarrow> batch_writer \<Rightarrow> batch_writer option" where
  "bw_write_line data w =
     do { b \<leftarrow> ms_append (map Some data) (bw_buffer w);
          b' \<leftarrow> ms_append [Some 10] b;
          let w1 = w\<lparr>bw_buffer := b'\<rparr>;
          if bw_realtime_flush w1 \<or> bw_buffer_size w1 \<le> ms_size b' then bw_flush w1 else Some w1 }"

(* src: mmap_file.hpp 1332-1339 BatchWriter::write_now *)
definition bw_write_now :: "bytes \<Rightarrow> batch_writer \<Rightarrow> batch_writer" where
  "bw_write_now data w = w\<lparr>bw_file := bw_file w @ map Some data\<rparr>"

text \<open>The last bytes of a file; the block they are read into is only written as far as the file goes.\<close>

(* src: mmap_file.hpp 1245-1277 BatchWriter::ReadLastByte *)
definition read_last_byte :: "bytes option \<Rightarrow> nat \<Rightarrow> cell list" where
  "read_last_byte found len =
     (case found of
        None \<Rightarrow> []
      | Some f \<Rightarrow>
          (let start = (if length f < len then 0 else length f - len); got = part start len f in
           map Some got @ replicate (len - length got) None))"

text \<open>The writer has taken the bytes bs: they are in the file, or in the buffer behind what is in the file.\<close>

definition bw_holds :: "batch_writer \<Rightarrow> bytes \<Rightarrow> bool" where
  "bw_holds w bs \<longleftrightarrow> (\<exists>fs xs. bw_file w = map Some fs \<and> ms_filled (bw_buffer w) xs \<and> bs = fs @ xs)"

datatype bw_op = Bw_write bytes | Bw_line bytes | Bw_flush | Bw_realtime bool

fun bw_do :: "bw_op \<Rightarrow> batch_writer \<Rightarrow> batch_writer option" where
  "bw_do (Bw_write bs) w = bw_write bs w"
| "bw_do (Bw_line bs) w = bw_write_line bs w"
| "bw_do Bw_flush w = bw_flush w"
| "bw_do (Bw_realtime b) w = Some (bw_reset_flush b w)"

fun bw_run :: "bw_op list \<Rightarrow> batch_writer \<Rightarrow> batch_writer option" where
  "bw_run [] w = Some w"
| "bw_run (x # xs) w = do { w1 \<leftarrow> bw_do x w; bw_run xs w1 }"

fun bw_text :: "bw_op \<Rightarrow> bytes" where
  "bw_text (Bw_write bs) = bs"
| "bw_text (Bw_line bs) = bs @ [10]"
| "bw_text Bw_flush = []"
| "bw_text (Bw_realtime b) = []"

lemma filled_clear: "ms_filled m bs \<Longrightarrow> ms_filled (ms_clear m) []"
  by (auto simp: ms_filled_def ms_clear_def ms_owned_def mem_of_def)

lemma filled_out: "ms_filled m bs \<Longrightarrow> copy_out 0 (ms_size m) m = Some (map Some bs)"
  by (auto simp: ms_filled_def copy_out_def ms_owned_def)

lemma bw_flush_holds:
  assumes "bw_holds w bs"
  shows "\<exists>w'. bw_flush w = Some w' \<and> bw_file w' = map Some bs \<and> ms_filled (bw_buffer w') []"
proof -
  obtain fs xs where w: "bw_file w = map Some fs" "ms_filled (bw_buffer w) xs" "bs = fs @ xs"
    using assms by (auto simp: bw_holds_def)
  have n: "ms_size (bw_buffer w) = length xs" using w(2) by (simp add: ms_filled_def)
  show ?thesis
  proof (cases "xs = []")
    case True
    then show ?thesis using w n by (simp add: bw_flush_def)
  next
    case False
    then show ?thesis using w n filled_out [OF w(2)] filled_clear [OF w(2)] by (simp add: bw_flush_def)
  qed
qed

lemma bw_append_holds:
  assumes "bw_holds w bs"
  obtains b where "ms_append (map Some xs) (bw_buffer w) = Some b" "bw_holds (w\<lparr>bw_buffer := b\<rparr>) (bs @ xs)"
proof -
  obtain fs ys where w: "bw_file w = map Some fs" "ms_filled (bw_buffer w) ys" "bs = fs @ ys"
    using assms by (auto simp: bw_holds_def)
  obtain b where "ms_append (map Some xs) (bw_buffer w) = Some b" "ms_filled b (ys @ xs)"
    using append_filled [OF w(2)] by blast
  then show ?thesis using w by (intro that [of b]) (auto simp: bw_holds_def)
qed

text \<open>Between two calls less than the buffer's size waits in the buffer, unless its size is zero.\<close>

definition bw_bounded :: "batch_writer \<Rightarrow> bool" where
  "bw_bounded w \<longleftrightarrow> ms_size (bw_buffer w) < bw_buffer_size w \<or> ms_size (bw_buffer w) = 0"

lemma bw_flush_step:
  assumes "bw_holds w bs"
  shows "\<exists>w'. (if c \<or> bw_buffer_size w \<le> ms_size (bw_buffer w) then bw_flush w else Some w) = Some w' \<and>
    bw_holds w' bs \<and> bw_bounded w'"
proof (cases "c \<or> bw_buffer_size w \<le> ms_size (bw_buffer w)")
  case True
  obtain w' where w': "bw_flush w = Some w'" "bw_file w' = map Some bs" "ms_filled (bw_buffer w') []"
    using bw_flush_holds [OF assms] by blast
  then show ?thesis using True by (auto simp: bw_holds_def bw_bounded_def ms_filled_def)
next
  case False
  then show ?thesis using assms by (auto simp: bw_bounded_def)
qed

lemma bw_do_holds:
  assumes "bw_holds w bs" "bw_bounded w"
  shows "\<exists>w'. bw_do x w = Some w' \<and> bw_holds w' (bs @ bw_text x) \<and> bw_bounded w'"
proof (cases x)
  case (Bw_write ys)
  obtain b where b: "ms_append (map Some ys) (bw_buffer w) = Some b" "bw_holds (w\<lparr>bw_buffer := b\<rparr>) (bs @ ys)"
    using bw_append_holds [OF assms(1)] by blast
  show ?thesis using bw_flush_step [OF b(2), of "bw_realtime_flush w"] b(1) Bw_write by (simp add: bw_write_def Let_def)
next
  case (Bw_line ys)
  obtain b where b: "ms_append (map Some ys) (bw_buffer w) = Some b" "bw_holds (w\<lparr>bw_buffer := b\<rparr>) (bs @ ys)"
    using bw_append_holds [OF assms(1)] by blast
  obtain b' where b': "ms_append [Some 10] b = Some b'" "bw_holds (w\<lparr>bw_buffer := b'\<rparr>) (bs @ ys @ [10])"
    using bw_append_holds [OF b(2), of "[10]"] by auto
  show ?thesis using bw_flush_step [OF b'(2), of "bw_realtime_flush w"] b(1) b'(1) Bw_line
    by (simp add: bw_write_line_def Let_def)
next
  case Bw_flush
  obtain w' where "bw_flush w = Some w'" "bw_file w' = map Some bs" "ms_filled (bw_buffer w') []"
    using bw_flush_holds [OF assms(1)] by blast
  then show ?thesis using Bw_flush by (auto simp: bw_holds_def bw_bounded_def ms_filled_def)
next
  case (Bw_realtime b)
  then show ?thesis using assms by (auto simp: bw_holds_def bw_bounded_def bw_reset_flush_def)
qed

lemma bw_run_holds:
  "bw_holds w bs \<Longrightarrow> bw_bounded w \<Longrightarrow>
     \<exists>w'. bw_run ops w = Some w' \<and> bw_holds w' (bs @ concat (map bw_text ops)) \<and> bw_bounded w'"
proof (induction ops arbitrary: w bs)
  case Nil
  then show ?case by simp
next
  case (Cons x ops)
  obtain w1 where "bw_do x w = Some w1" "bw_holds w1 (bs @ bw_text x)" "bw_bounded w1"
    using bw_do_holds [OF Cons.prems] by blast
  then show ?case using Cons.IH by fastforce
qed

text \<open>A BatchWriter loses nothing and keeps the order: after any calls of write, write_line, flush and
  reset_flush the file's old contents (when appending) and what was written are in the file and in the
  buffer behind it, less than buffer_size bytes wait in the buffer, and the destructor leaves the whole text
  in the file. Only write_now puts its bytes before those that wait.\<close>

theorem batch_writer_order:
  assumes "new_batch_writer (Some old) over_write realtime bsize = Some (Some w0)"
  shows "\<exists>w. bw_run ops w0 = Some w \<and> bw_bounded w \<and>
    bw_destroy w = Some (map Some ((if over_write then [] else old) @ concat (map bw_text ops))) \<and>
    bw_file (bw_write_now now w) = bw_file w @ map Some now"
proof -
  have "ms_filled (new_stream_of_capacity n) []" for n by (simp add: ms_filled_def) (simp add: new_stream_of_capacity_def)
  then have "bw_holds w0 (if over_write then [] else old)" "bw_bounded w0"
    using assms by (auto simp: new_batch_writer_def bw_holds_def bw_bounded_def new_stream_of_capacity_def)
  then obtain w where w: "bw_run ops w0 = Some w" "bw_bounded w"
    "bw_holds w ((if over_write then [] else old) @ concat (map bw_text ops))" using bw_run_holds by blast
  show ?thesis using w bw_flush_holds [OF w(3)] by (auto simp: bw_destroy_def bw_write_now_def)
qed

theorem batch_writer_order_witness:
  "\<exists>w0 w. new_batch_writer (Some [1]) False False 4 = Some (Some w0) \<and>
     bw_run [Bw_write [2, 3], Bw_line [4, 5], Bw_write [6]] w0 = Some w \<and>
     bw_destroy w = Some (map Some [1, 2, 3, 4, 5, 10, 6])"
proof -
  obtain w0 where "new_batch_writer (Some [1]) False False 4 = Some (Some w0)" by (simp add: new_batch_writer_def)
  then show ?thesis
    using batch_writer_order [of "[1]" False False 4 w0 "[Bw_write [2, 3], Bw_line [4, 5], Bw_write [6]]"] by auto
qed

end
