(* ===== verification/Mmap_Meta.thy ===== *)
theory Mmap_Meta
  imports Mmap_Writer
begin

text \<open>
  The numbers that stand in front of the data of MMapFile's buffers (mmap_file.hpp): 64 bits, least
  significant byte first, read and written through a mapping.
\<close>

definition le64 :: "nat \<Rightarrow> bytes" where
  "le64 n = map (\<lambda>k. word_of_nat (n div 256 ^ k)) [0..<8]"

definition field :: "nat \<Rightarrow> bytes \<Rightarrow> nat" where
  "field i f = of_le (part i 8 f)"

definition get64 :: "mapping \<Rightarrow> nat \<Rightarrow> os \<Rightarrow> nat option" where
  "get64 m i os = map_option of_le (peek m i 8 os)"

definition put64 :: "mapping \<Rightarrow> nat \<Rightarrow> nat \<Rightarrow> os \<Rightarrow> os option" where
  "put64 m i v os = poke m i (le64 v) os"

lemma length_le64 [simp]: "length (le64 n) = 8"
  by (simp add: le64_def)

lemma of_le_digits: "of_le (map (\<lambda>k. word_of_nat (n div 256 ^ k)) [0..<j]) = n mod 256 ^ j"
proof (induction j arbitrary: n)
  case 0
  then show ?case by simp
next
  case (Suc j)
  have "map (\<lambda>k. word_of_nat (n div 256 ^ k)) [0..<Suc j] =
      (word_of_nat n :: u8) # map (\<lambda>k. word_of_nat (n div 256 div 256 ^ k)) [0..<j]"
    by (simp add: upt_conv_Cons map_Suc_upt [symmetric] div_mult2_eq del: upt_Suc map_Suc_upt)
  moreover have "n mod 256 ^ Suc j = n mod 256 + 256 * (n div 256 mod 256 ^ j)"
    by (simp add: mod_mult2_eq)
  ultimately show ?case using Suc.IH [of "n div 256"] by (simp add: unat_of_nat)
qed

lemma of_le_le64 [simp]: "n < 2 ^ 64 \<Longrightarrow> of_le (le64 n) = n"
  using of_le_digits [of n 8] by (simp add: le64_def)

lemma field_put_same: "i + 8 \<le> length f \<Longrightarrow> v < 2 ^ 64 \<Longrightarrow> field i (put_at i (le64 v) f) = v"
  using part_put_same [of i "le64 v" f] by (simp add: field_def)

lemma field_put_other:
  "i + length ys \<le> length f \<Longrightarrow> j + 8 \<le> i \<or> i + length ys \<le> j \<Longrightarrow> field j (put_at i ys f) = field j f"
  by (simp add: field_def part_put_other)

lemma field_resize: "i + 8 \<le> length f \<Longrightarrow> i + 8 \<le> n \<Longrightarrow> field i (resize n f) = field i f"
  by (simp add: field_def part_resize)

text \<open>A mapping of a file from its beginning.\<close>

definition whole :: "nat \<Rightarrow> nat \<Rightarrow> mapping" where
  "whole i n = \<lparr>mp_file = i, mp_off = 0, mp_len = n, mp_write = True\<rparr>"

lemma get64_whole:
  assumes "a + 8 \<le> n" "n \<le> length (os_file os i)"
  shows "get64 (whole i n) a os = Some (field a (os_file os i))"
  using assms by (simp add: get64_def whole_def peek_inside field_def)

lemma poke_whole:
  assumes "a + length bs \<le> n" "n \<le> length (os_file os i)"
  shows "poke (whole i n) a bs os = Some (os\<lparr>os_file := (os_file os)(i := put_at a bs (os_file os i))\<rparr>)"
  using assms by (simp add: whole_def poke_inside)

lemma put64_whole:
  assumes "a + 8 \<le> n" "n \<le> length (os_file os i)"
  shows "put64 (whole i n) a v os = Some (os\<lparr>os_file := (os_file os)(i := put_at a (le64 v) (os_file os i))\<rparr>)"
  using assms by (simp add: put64_def poke_whole)

lemma poke_whole_outside: "n < a + length bs \<Longrightarrow> poke (whole i n) a bs os = None"
  by (simp add: whole_def poke_outside)

lemma map_whole:
  "os_ok os (Sys_map 0 n) \<Longrightarrow> 0 < n \<Longrightarrow> sys_map (Some (i, True)) True 0 n os = Some (whole i n)"
  by (simp add: sys_map_def whole_def)

end
