(* ===== verification/Mmap_Vector.thy ===== *)
theory Mmap_Vector
  imports Mmap_Meta C_Text
begin

text \<open>
  MMapFile::VectorBuffer (mmap_file.hpp): a file that begins with three numbers, the size of an item,
  the length of the data and the length of the file, and goes on with the data. The writer keeps the whole
  file mapped and lets it grow by steps; the reader maps it chunk by chunk. The result None of a call is
  undefined behaviour: a null pointer, an access outside a mapping, or a loop that does not end.
\<close>

section \<open>Writer\<close>

text \<open>The head of the file: item_size_, write_len_ and file_len_ are at 0, 8 and 16, the data at 24.\<close>

(* src: mmap_file.hpp 603-608 VectorBuffer::MetaSt *)
definition vec_meta_size :: nat where
  "vec_meta_size = 24"

(* src: mmap_file.hpp 728-737 VectorBuffer::Writer *)
record vec_writer =
  vw_fd :: fd
  vw_step :: nat
  vw_meta :: "mapping option"

(* src: mmap_file.hpp 614-614 VectorBuffer::Writer::Writer *)
definition new_vec_writer :: vec_writer where
  "new_vec_writer = \<lparr>vw_fd = None, vw_step = 0, vw_meta = None\<rparr>"

(* src: mmap_file.hpp 710-712 VectorBuffer::Writer::check_add_length *)
partial_function (option) grow_file :: "nat \<Rightarrow> nat \<Rightarrow> nat \<Rightarrow> nat option" where
  "grow_file need step n = (if n < need then grow_file need step (w64 (n + step)) else Some n)"

text \<open>The second half of check_add_length, from the loop on.\<close>

(* src: mmap_file.hpp 710-726 VectorBuffer::Writer::check_add_length *)
definition vw_remap :: "nat \<Rightarrow> nat \<Rightarrow> nat \<Rightarrow> vec_writer \<Rightarrow> os \<Rightarrow> (mm_error \<times> vec_writer \<times> os) option" where
  "vw_remap len wl fl w os =
     do { n \<leftarrow> grow_file (w64 (wl + vec_meta_size + len)) (vw_step w) fl;
          let n' = page_floor os n;
          (case sys_truncate (vw_fd w) n' os of
             None \<Rightarrow> Some (E_ftruncate_fail, w, os)
           | Some os1 \<Rightarrow>
               (case sys_map (vw_fd w) True 0 n' os1 of
                  None \<Rightarrow> Some (E_mmap_fail, w, os1)
                | Some m \<Rightarrow> do { os2 \<leftarrow> put64 m 16 n' os1; Some (E_ok, w\<lparr>vw_meta := Some m\<rparr>, os2) })) }"

(* src: mmap_file.hpp 690-726 VectorBuffer::Writer::check_add_length *)
definition vw_check_add_length :: "nat \<Rightarrow> vec_writer \<Rightarrow> os \<Rightarrow> (mm_error \<times> vec_writer \<times> os) option" where
  "vw_check_add_length len w os =
     (case vw_meta w of
        None \<Rightarrow> vw_remap len 0 0 w os
      | Some m \<Rightarrow>
          do { wl \<leftarrow> get64 m 8 os;
               fl \<leftarrow> get64 m 16 os;
               if w64 (wl + len) \<le> fl then Some (E_ok, w, os)
               else if \<not> os_ok os Sys_unmap then Some (E_munmap_fail, w, os)
               else vw_remap len wl fl (w\<lparr>vw_meta := None\<rparr>) os })"

(* src: mmap_file.hpp 619-645 VectorBuffer::Writer::open, VectorBuffer::Writer::shm_open *)
definition vw_open :: "file_name \<Rightarrow> nat \<Rightarrow> bool \<Rightarrow> nat \<Rightarrow> nat \<Rightarrow> vec_writer \<Rightarrow> os \<Rightarrow> (mm_error \<times> vec_writer \<times> os) option" where
  "vw_open name item_size is_append init_len step w os =
     (let (e, fd, created, os1) = open_write_file name 0 os; w1 = w\<lparr>vw_fd := fd\<rparr> in
      if e \<noteq> E_ok then Some (e, w1, os1)
      else do { (e2, w2, os2) \<leftarrow> vw_check_add_length init_len (w1\<lparr>vw_step := step\<rparr>) os1;
                if e2 \<noteq> E_ok then Some (e2, w2, os2)
                else if created \<or> \<not> is_append
                then do { m \<leftarrow> vw_meta w2; os3 \<leftarrow> put64 m 8 0 os2; os4 \<leftarrow> put64 m 0 item_size os3; Some (e2, w2, os4) }
                else Some (e2, w2, os2) })"

(* src: mmap_file.hpp 647-649 VectorBuffer::Writer::reset_offset *)
definition vw_reset_offset :: "nat \<Rightarrow> vec_writer \<Rightarrow> os \<Rightarrow> os option" where
  "vw_reset_offset off w os = do { m \<leftarrow> vw_meta w; put64 m 8 off os }"

(* src: mmap_file.hpp 656-668 VectorBuffer::Writer::write *)
definition vw_write :: "bytes \<Rightarrow> vec_writer \<Rightarrow> os \<Rightarrow> (mm_error \<times> vec_writer \<times> os) option" where
  "vw_write data w os =
     (if data = [] then Some (E_ok, w, os)
      else do { (e, w1, os1) \<leftarrow> vw_check_add_length (length data) w os;
                if e \<noteq> E_ok then Some (e, w1, os1)
                else do { m \<leftarrow> vw_meta w1;
                          wl \<leftarrow> get64 m 8 os1;
                          os2 \<leftarrow> poke m (vec_meta_size + wl) data os1;
                          wl' \<leftarrow> get64 m 8 os2;
                          os3 \<leftarrow> put64 m 8 (w64 (wl' + length data)) os2;
                          Some (E_ok, w1, os3) } })"

(* src: mmap_file.hpp 670-687 VectorBuffer::Writer::close *)
definition vw_close :: "vec_writer \<Rightarrow> os \<Rightarrow> (vec_writer \<times> os) option" where
  "vw_close w os =
     (case vw_meta w of
        None \<Rightarrow> Some (w\<lparr>vw_fd := None\<rparr>, os)
      | Some m \<Rightarrow>
          do { wl \<leftarrow> get64 m 8 os;
               os1 \<leftarrow> put64 m 16 (w64 (wl + vec_meta_size)) os;
               let os2 = (case sys_truncate (vw_fd w) (w64 (wl + vec_meta_size)) os1 of None \<Rightarrow> os1 | Some os2 \<Rightarrow> os2);
               Some (w\<lparr>vw_meta := None, vw_fd := None\<rparr>, os2) })"

section \<open>What an open writer holds\<close>

text \<open>The file f of an open writer, of n bytes, all mapped: its numbers and its data.\<close>

definition vec_file :: "nat \<Rightarrow> bytes \<Rightarrow> bytes \<Rightarrow> bool" where
  "vec_file item data f \<longleftrightarrow> 24 + length data \<le> length f \<and> field 0 f = item \<and> field 8 f = length data \<and>
     part 24 (length data) f = data"

definition vec_holds :: "vec_writer \<Rightarrow> os \<Rightarrow> nat \<Rightarrow> nat \<Rightarrow> bytes \<Rightarrow> bool" where
  "vec_holds w os i item data \<longleftrightarrow> os_fine os \<and> all_calls_ok os \<and> vw_fd w = Some (i, True) \<and>
     vw_meta w = Some (whole i (length (os_file os i))) \<and> length (os_file os i) < 2 ^ 62 \<and>
     os_page os dvd length (os_file os i) \<and> field 16 (os_file os i) = length (os_file os i) \<and>
     vec_file item data (os_file os i)"

lemma grow_file_steps:
  assumes "0 < step" "need + step < 2 ^ 64" "p dvd step" "p dvd n"
  shows "\<exists>n'. grow_file need step n = Some n' \<and> need \<le> n' \<and> n \<le> n' \<and> p dvd n' \<and> n' < max (Suc n) (need + step)"
  using assms(4)
proof (induction "need - n" arbitrary: n rule: less_induct)
  case less
  show ?case
  proof (cases "n < need")
    case False
    then show ?thesis using less.prems by (subst grow_file.simps) auto
  next
    case True
    have "need - (n + step) < need - n" using True assms(1) by simp
    moreover have "p dvd n + step" using less.prems assms(3) by simp
    ultimately obtain n' where n': "grow_file need step (n + step) = Some n'" "need \<le> n'" "n + step \<le> n'" "p dvd n'"
      "n' < max (Suc (n + step)) (need + step)" using less.hyps by blast
    have "w64 (n + step) = n + step" using True assms(2) by (intro w64_small) linarith
    then show ?thesis using n' True by (subst grow_file.simps) auto
  qed
qed

lemma page_floor_id: "os_fine os \<Longrightarrow> n < 2 ^ 64 \<Longrightarrow> os_page os dvd n \<Longrightarrow> page_floor os n = n"
  by (simp add: page_floor_eq dvd_eq_mod_eq_0)

text \<open>Mapping a file anew, at a length of whole pages that holds the head and what is asked for.\<close>

lemma vw_remap_ok:
  assumes os: "os_fine os" "all_calls_ok os" and fd: "vw_fd w = Some (i, True)"
    and st: "0 < vw_step w" "os_page os dvd vw_step w" "os_page os dvd fl"
    and b: "wl + 24 + len + vw_step w < 2 ^ 62" "fl < 2 ^ 62"
  shows "\<exists>n. wl + 24 + len \<le> n \<and> fl \<le> n \<and> n < 2 ^ 62 \<and> os_page os dvd n \<and>
    vw_remap len wl fl w os = Some (E_ok, w\<lparr>vw_meta := Some (whole i n)\<rparr>,
      os\<lparr>os_file := (os_file os)(i := put_at 16 (le64 n) (resize n (os_file os i)))\<rparr>)"
proof -
  have need: "w64 (wl + vec_meta_size + len) = wl + 24 + len" using b by (simp add: vec_meta_size_def)
  obtain n where n: "grow_file (wl + 24 + len) (vw_step w) fl = Some n" "wl + 24 + len \<le> n" "fl \<le> n"
    "os_page os dvd n" "n < max (Suc fl) (wl + 24 + len + vw_step w)"
    using grow_file_steps [OF st(1) _ st(2,3), of "wl + 24 + len"] b by auto
  have n62: "n < 2 ^ 62" using n(5) b by linarith
  then have pf: "page_floor os n = n" using page_floor_id [OF os(1) _ n(4)] by simp
  let ?os1 = "os\<lparr>os_file := (os_file os)(i := resize n (os_file os i))\<rparr>"
  have t: "sys_truncate (vw_fd w) n os = Some ?os1" using os(2) n62 fd by (simp add: sys_truncate_def all_calls_ok_def)
  have m: "sys_map (vw_fd w) True 0 n ?os1 = Some (whole i n)"
    unfolding fd using os(2) n(2) by (intro map_whole) (simp_all add: all_calls_ok_def)
  have p: "put64 (whole i n) 16 n ?os1 =
      Some (?os1\<lparr>os_file := (os_file ?os1)(i := put_at 16 (le64 n) (os_file ?os1 i))\<rparr>)"
    using n(2) by (intro put64_whole) simp_all
  have "vw_remap len wl fl w os = Some (E_ok, w\<lparr>vw_meta := Some (whole i n)\<rparr>,
      os\<lparr>os_file := (os_file os)(i := put_at 16 (le64 n) (resize n (os_file os i)))\<rparr>)"
    using p by (simp add: vw_remap_def need n(1) Let_def pf t m)
  then show ?thesis using n n62 by blast
qed

lemma vec_file_append:
  assumes f: "vec_file item xs f" and room: "24 + length xs + length ys \<le> length f" and b: "length f < 2 ^ 64"
  defines "g \<equiv> put_at 8 (le64 (length xs + length ys)) (put_at (24 + length xs) ys f)"
  shows "vec_file item (xs @ ys) g" "length g = length f" "field 16 g = field 16 f"
proof -
  let ?h = "put_at (24 + length xs) ys f"
  have lh: "length ?h = length f" using room by simp
  show lg: "length g = length f" using room by (simp add: g_def)
  show "field 16 g = field 16 f" using room by (simp add: g_def field_put_other)
  have "part 24 (length xs + length ys) ?h = part 24 (length xs) f @ ys"
    using part_put_extend [of 24 "24 + length xs" ys f] room by simp
  then have "part 24 (length xs + length ys) g = xs @ ys"
    using f room by (simp add: g_def part_put_other vec_file_def)
  moreover have "field 8 g = length xs + length ys" using room b by (simp add: g_def field_put_same)
  moreover have "field 0 g = item" using f room by (simp add: g_def field_put_other vec_file_def)
  ultimately show "vec_file item (xs @ ys) g" using room lg by (simp add: vec_file_def)
qed

lemma vec_file_resize:
  assumes f: "vec_file item xs f" and n: "24 + length xs \<le> n" "n < 2 ^ 64"
  defines "g \<equiv> put_at 16 (le64 n) (resize n f)"
  shows "vec_file item xs g" "length g = n" "field 16 g = n"
proof -
  show lg: "length g = n" using n by (simp add: g_def)
  show "field 16 g = n" using n by (simp add: g_def field_put_same)
  have l: "24 + length xs \<le> length f" using f by (simp add: vec_file_def)
  have "part 24 (length xs) g = part 24 (length xs) (resize n f)" using n by (simp add: g_def part_put_other)
  then have "part 24 (length xs) g = xs" using f l n by (simp add: part_resize vec_file_def)
  moreover have "field 8 g = length xs" "field 0 g = item"
    using f l n by (simp_all add: g_def field_put_other field_resize vec_file_def)
  ultimately show "vec_file item xs g" using n lg by (simp add: vec_file_def)
qed

lemma vec_numbers:
  assumes "vec_holds w os i item data"
  shows "get64 (whole i (length (os_file os i))) 8 os = Some (length data)"
    "get64 (whole i (length (os_file os i))) 16 os = Some (length (os_file os i))"
  using assms by (simp_all add: get64_whole vec_holds_def vec_file_def)

text \<open>The copy that write does when the mapping has room.\<close>

definition append_file :: "nat \<Rightarrow> nat \<Rightarrow> bytes \<Rightarrow> os \<Rightarrow> os" where
  "append_file i n ys os = os\<lparr>os_file := (os_file os)
     (i := put_at 8 (le64 (n + length ys)) (put_at (24 + n) ys (os_file os i)))\<rparr>"

lemma vw_copy:
  assumes h: "vec_holds w os i item xs" and room: "24 + length xs + length ys \<le> length (os_file os i)"
  shows "do { m \<leftarrow> vw_meta w; wl \<leftarrow> get64 m 8 os; os2 \<leftarrow> poke m (vec_meta_size + wl) ys os; wl' \<leftarrow> get64 m 8 os2;
      os3 \<leftarrow> put64 m 8 (w64 (wl' + length ys)) os2; Some (E_ok, w, os3) } =
      Some (E_ok, w, append_file i (length xs) ys os)" (is "?lhs = _")
    and "vec_holds w (append_file i (length xs) ys os) i item (xs @ ys)"
proof -
  let ?f = "os_file os i"
  let ?m = "whole i (length ?f)"
  let ?os2 = "os\<lparr>os_file := (os_file os)(i := put_at (24 + length xs) ys ?f)\<rparr>"
  have m: "vw_meta w = Some ?m" and f: "vec_file item xs ?f" and b: "length ?f < 2 ^ 62"
    using h by (simp_all add: vec_holds_def)
  have "poke ?m (24 + length xs) ys os = Some ?os2" using room by (intro poke_whole) simp_all
  moreover have "get64 ?m 8 ?os2 = Some (length xs)"
    using room f by (subst get64_whole) (simp_all add: field_put_other vec_file_def)
  moreover have "put64 ?m 8 (length xs + length ys) ?os2 = Some (append_file i (length xs) ys os)"
    using room by (subst put64_whole) (simp_all add: append_file_def)
  ultimately show "?lhs = Some (E_ok, w, append_file i (length xs) ys os)"
    using m vec_numbers [OF h] room b by (simp add: vec_meta_size_def)
  show "vec_holds w (append_file i (length xs) ys os) i item (xs @ ys)"
    using h b vec_file_append [OF f room]
    by (simp add: vec_holds_def append_file_def os_fine_def all_calls_ok_def)
qed

lemma vw_write_room:
  assumes h: "vec_holds w os i item xs" and room: "24 + length xs + length ys \<le> length (os_file os i)"
  shows "\<exists>os'. vw_write ys w os = Some (E_ok, w, os') \<and> vec_holds w os' i item (xs @ ys)"
proof (cases "ys = []")
  case True
  then show ?thesis using h by (simp add: vw_write_def)
next
  case False
  have "vw_check_add_length (length ys) w os = Some (E_ok, w, os)"
    using h room vec_numbers [OF h] by (simp add: vw_check_add_length_def vec_holds_def)
  then show ?thesis using vw_copy [OF h room] False by (simp add: vw_write_def)
qed

text \<open>The test of check_add_length forgets the head: between the two conditions the data run over the end.\<close>

lemma vw_write_overrun:
  assumes h: "vec_holds w os i item xs" and "ys \<noteq> []" "length xs + length ys \<le> length (os_file os i)"
    "length (os_file os i) < 24 + length xs + length ys"
  shows "vw_write ys w os = None"
proof -
  have m: "vw_meta w = Some (whole i (length (os_file os i)))" and b: "length (os_file os i) < 2 ^ 62"
    using h by (simp_all add: vec_holds_def)
  have "vw_check_add_length (length ys) w os = Some (E_ok, w, os)"
    using h assms(3) vec_numbers [OF h] by (simp add: vw_check_add_length_def vec_holds_def)
  then show ?thesis using assms m vec_numbers [OF h] by (simp add: vw_write_def vec_meta_size_def poke_whole_outside)
qed

lemma vw_write_grow:
  assumes h: "vec_holds w os i item xs" and full: "length (os_file os i) < length xs + length ys"
    and st: "0 < vw_step w" "os_page os dvd vw_step w" and b: "length xs + 24 + length ys + vw_step w < 2 ^ 62"
  shows "\<exists>w' os'. vw_write ys w os = Some (E_ok, w', os') \<and> vec_holds w' os' i item (xs @ ys) \<and> vw_step w' = vw_step w"
proof -
  let ?f = "os_file os i"
  let ?w0 = "w\<lparr>vw_meta := None\<rparr>"
  have hs: "os_fine os" "all_calls_ok os" "vw_fd w = Some (i, True)" "vw_meta w = Some (whole i (length ?f))"
    "length ?f < 2 ^ 62" "os_page os dvd length ?f" "vec_file item xs ?f"
    using h by (simp_all add: vec_holds_def)
  have ne: "ys \<noteq> []" using full hs(7) by (auto simp: vec_file_def)
  obtain n where n: "length xs + 24 + length ys \<le> n" "length ?f \<le> n" "n < 2 ^ 62" "os_page os dvd n"
    and r: "vw_remap (length ys) (length xs) (length ?f) ?w0 os = Some (E_ok, ?w0\<lparr>vw_meta := Some (whole i n)\<rparr>,
      os\<lparr>os_file := (os_file os)(i := put_at 16 (le64 n) (resize n ?f))\<rparr>)"
    using vw_remap_ok [of os ?w0 i "length ?f" "length xs" "length ys"] hs st b by auto
  define w1 where "w1 = w\<lparr>vw_meta := Some (whole i n)\<rparr>"
  define os1 where "os1 = os\<lparr>os_file := (os_file os)(i := put_at 16 (le64 n) (resize n ?f))\<rparr>"
  have "vw_check_add_length (length ys) w os = Some (E_ok, w1, os1)"
    using hs full b vec_numbers [OF h] r by (simp add: vw_check_add_length_def w1_def os1_def all_calls_ok_def)
  moreover have h1: "vec_holds w1 os1 i item xs"
    using hs n vec_file_resize [OF hs(7), of n]
    by (simp add: vec_holds_def w1_def os1_def os_fine_def all_calls_ok_def)
  have "24 + length xs + length ys \<le> length (os_file os1 i)" using n by (simp add: os1_def)
  then show ?thesis using vw_copy [OF h1, of ys] ne calculation
    by (auto simp: vw_write_def w1_def)
qed

lemma vector_write_result:
  assumes "vec_holds w os i item xs" "0 < vw_step w" "os_page os dvd vw_step w"
    and "length xs + 24 + length ys + vw_step w < 2 ^ 62"
  shows "if ys \<noteq> [] \<and> length xs + length ys \<le> length (os_file os i) \<and> length (os_file os i) < 24 + length xs + length ys
    then vw_write ys w os = None
    else \<exists>w' os'. vw_write ys w os = Some (E_ok, w', os') \<and> vec_holds w' os' i item (xs @ ys)"
proof -
  have "24 + length xs \<le> length (os_file os i)" using assms(1) by (simp add: vec_holds_def vec_file_def)
  then consider "ys \<noteq> [] \<and> length xs + length ys \<le> length (os_file os i) \<and> length (os_file os i) < 24 + length xs + length ys"
    | "24 + length xs + length ys \<le> length (os_file os i)" | "length (os_file os i) < length xs + length ys"
    by fastforce
  then show ?thesis
  proof cases
    case 1
    then show ?thesis using vw_write_overrun [OF assms(1)] by simp
  next
    case 2
    then obtain os' where "vw_write ys w os = Some (E_ok, w, os')" "vec_holds w os' i item (xs @ ys)"
      using vw_write_room [OF assms(1)] by blast
    then show ?thesis using 2 by auto
  next
    case 3
    then obtain w' os' where "vw_write ys w os = Some (E_ok, w', os')" "vec_holds w' os' i item (xs @ ys)"
      using vw_write_grow [OF assms(1)] assms(2-) by blast
    then show ?thesis using 3 by auto
  qed
qed

text \<open>A write to an open VectorBuffer writer, with every system call succeeding and a step of whole pages,
  appends the data behind what was written, growing the file when it has to; except when the head of 24
  bytes, which check_add_length does not count, makes the difference: when the data would fit into the file
  without its head but not with it, write goes on and copies over the end of the mapping.\<close>

theorem vector_writer_overrun:
  assumes "vec_holds w os i item xs" "0 < vw_step w" "os_page os dvd vw_step w"
    and "length xs + 24 + length ys + vw_step w < 2 ^ 62"
  shows "if ys \<noteq> [] \<and> length xs + length ys \<le> length (os_file os i) \<and> length (os_file os i) < 24 + length xs + length ys
    then vw_write ys w os = None
    else \<exists>w' os'. vw_write ys w os = Some (E_ok, w', os') \<and> vec_holds w' os' i item (xs @ ys)"
  by (rule vector_write_result [OF assms])

text \<open>A new file.\<close>

lemma vw_open_new:
  assumes os: "os_fine os" "all_calls_ok os" "os_dir os name = None" and st: "0 < step" "os_page os dvd step"
    and b: "24 + init_len + step < 2 ^ 62" "item < 2 ^ 64"
  shows "\<exists>w os'. vw_open name item is_append init_len step new_vec_writer os = Some (E_ok, w, os') \<and>
    vec_holds w os' (os_new os) item [] \<and> 24 + init_len \<le> length (os_file os' (os_new os)) \<and>
    vw_step w = step \<and> os_page os' = os_page os \<and>
    os_dir os' = (os_dir os)(name \<mapsto> os_new os)"
proof -
  let ?i = "os_new os"
  let ?os1 = "create_file name os"
  let ?w1 = "new_vec_writer\<lparr>vw_fd := Some (?i, True), vw_step := step\<rparr>"
  have o: "open_write_file name 0 os = (E_ok, Some (?i, True), True, ?os1)"
    using os by (simp add: open_write_file_def sys_open_excl_def all_calls_ok_def)
  have fine: "os_fine ?os1" "all_calls_ok ?os1" using os by (simp_all add: os_fine_def all_calls_ok_def create_file_def)
  obtain n where n: "24 + init_len \<le> n" "n < 2 ^ 62" "os_page os dvd n"
    and r: "vw_remap init_len 0 0 ?w1 ?os1 = Some (E_ok, ?w1\<lparr>vw_meta := Some (whole ?i n)\<rparr>,
      ?os1\<lparr>os_file := (os_file ?os1)(?i := put_at 16 (le64 n) (resize n []))\<rparr>)"
    using vw_remap_ok [of ?os1 ?w1 ?i 0 0 init_len] fine st b by (auto simp: create_file_def)
  define f where "f = put_at 16 (le64 n) (resize n [])"
  have lf: "length f = n" using n by (simp add: f_def)
  define os2 where "os2 = ?os1\<lparr>os_file := (os_file ?os1)(?i := f)\<rparr>"
  define os3 where "os3 = os2\<lparr>os_file := (os_file os2)(?i := put_at 8 (le64 0) f)\<rparr>"
  define os4 where "os4 = os3\<lparr>os_file := (os_file os3)(?i := put_at 0 (le64 item) (put_at 8 (le64 0) f))\<rparr>"
  have "put64 (whole ?i n) 8 0 os2 = Some os3" using n lf by (subst put64_whole) (simp_all add: os2_def os3_def)
  moreover have "put64 (whole ?i n) 0 item os3 = Some os4"
    using n lf by (subst put64_whole) (simp_all add: os3_def os4_def)
  moreover have "vw_meta (?w1\<lparr>vw_meta := None\<rparr>) = None" by simp
  ultimately have "vw_open name item is_append init_len step new_vec_writer os =
      Some (E_ok, ?w1\<lparr>vw_meta := Some (whole ?i n)\<rparr>, os4)"
    using o r by (simp add: vw_open_def vw_check_add_length_def new_vec_writer_def f_def os2_def)
  moreover have "vec_holds (?w1\<lparr>vw_meta := Some (whole ?i n)\<rparr>) os4 ?i item []"
  proof -
    let ?g = "put_at 0 (le64 item) (put_at 8 (le64 0) f)"
    have "field 16 ?g = n" "field 8 ?g = 0" "field 0 ?g = item" "length ?g = n"
      using n lf b by (simp_all add: field_put_other field_put_same f_def)
    then show ?thesis using fine n
      by (simp add: vec_holds_def vec_file_def os4_def os3_def os2_def os_fine_def all_calls_ok_def create_file_def)
  qed
  moreover have "os_page os4 = os_page os" "os_dir os4 = (os_dir os)(name \<mapsto> ?i)"
    by (simp_all add: os4_def os3_def os2_def create_file_def)
  moreover have "length (os_file os4 ?i) = n" using n lf by (simp add: os4_def os3_def os2_def)
  ultimately show ?thesis using n(1) by auto
qed

text \<open>Closing cuts the file behind its data.\<close>

lemma vw_close_holds:
  assumes h: "vec_holds w os i item xs"
  shows "\<exists>os'. vw_close w os = Some (w\<lparr>vw_meta := None, vw_fd := None\<rparr>, os') \<and> vec_file item xs (os_file os' i) \<and>
    length (os_file os' i) = 24 + length xs \<and> os_dir os' = os_dir os \<and> os_page os' = os_page os \<and> os_ok os' = os_ok os"
proof -
  let ?f = "os_file os i"
  have hs: "vec_file item xs ?f" "length ?f < 2 ^ 62" "vw_meta w = Some (whole i (length ?f))"
    "vw_fd w = Some (i, True)" "all_calls_ok os" using h by (simp_all add: vec_holds_def)
  have l: "24 + length xs \<le> length ?f" using hs(1) by (simp add: vec_file_def)
  define f1 where "f1 = put_at 16 (le64 (length xs + 24)) ?f"
  define os1 where "os1 = os\<lparr>os_file := (os_file os)(i := f1)\<rparr>"
  have lf1: "length f1 = length ?f" using l by (simp add: f1_def)
  have p: "put64 (whole i (length ?f)) 16 (length xs + 24) os = Some os1"
    using l by (subst put64_whole) (simp_all add: os1_def f1_def)
  define os2 where "os2 = os1\<lparr>os_file := (os_file os1)(i := resize (length xs + 24) f1)\<rparr>"
  have t: "sys_truncate (vw_fd w) (length xs + 24) os1 = Some os2"
    using hs l by (simp add: sys_truncate_def all_calls_ok_def os1_def os2_def)
  have "vw_close w os = Some (w\<lparr>vw_meta := None, vw_fd := None\<rparr>, os2)"
    using hs l p t vec_numbers [OF h] by (simp add: vw_close_def vec_meta_size_def)
  moreover have "vec_file item xs (resize (length xs + 24) f1)"
  proof -
    have "part 24 (length xs) (resize (length xs + 24) f1) = part 24 (length xs) ?f"
      using l lf1 by (simp add: part_resize) (simp add: f1_def part_put_other)
    moreover have "field 8 (resize (length xs + 24) f1) = field 8 ?f" "field 0 (resize (length xs + 24) f1) = field 0 ?f"
      using l lf1 by (simp_all add: field_resize) (simp_all add: f1_def field_put_other)
    ultimately show ?thesis using hs(1) by (simp add: vec_file_def)
  qed
  ultimately show ?thesis by (simp add: os2_def os1_def)
qed

section \<open>Reader\<close>

text \<open>
  The members of Reader; m_meta is its copy of the file's numbers, indeterminate before open, and the page
  size is the system's.
\<close>

(* src: mmap_file.hpp 898-928 VectorBuffer::Reader *)
record vec_reader =
  vr_can_change :: bool
  vr_item_size :: int
  vr_fd :: fd
  vr_file_size :: nat
  vr_chunk_offset :: nat
  vr_file_offset :: nat
  vr_pa_offset :: nat
  vr_chunk_size :: nat
  vr_num_chunks :: nat
  vr_index :: nat
  vr_addr :: "mapping option"
  vr_buf_length :: nat
  vr_chunk_length :: nat
  vr_write_len :: nat

(* src: mmap_file.hpp 742-742 VectorBuffer::Reader::Reader *)
definition new_vec_reader :: "nat \<Rightarrow> bool \<Rightarrow> vec_reader" where
  "new_vec_reader junk can_change = \<lparr>vr_can_change = can_change, vr_item_size = 1, vr_fd = None, vr_file_size = 0,
     vr_chunk_offset = 0, vr_file_offset = 0, vr_pa_offset = 0, vr_chunk_size = 0, vr_num_chunks = 0, vr_index = 0,
     vr_addr = None, vr_buf_length = 0, vr_chunk_length = 0, vr_write_len = junk\<rparr>"

(* src: mmap_file.hpp 829-858 VectorBuffer::Reader::init *)
definition vr_init :: "file_name \<Rightarrow> vec_reader \<Rightarrow> os \<Rightarrow> (mm_error \<times> vec_reader \<times> os) option" where
  "vr_init name r os =
     do { (e, m, os1) \<leftarrow> mapper_open (replicate vec_meta_size 0) name new_mapper os;
          if e \<noteq> E_ok then Some (e, r, os1)
          else do { p \<leftarrow> mapper_get m;
                    wl \<leftarrow> get64 p 8 os1;
                    item \<leftarrow> get64 p 0 os1;
                    Some (E_ok, r\<lparr>vr_file_size := w64 (vec_meta_size + wl), vr_item_size := to_int32 (int item),
                      vr_write_len := wl, vr_fd := sys_open name (vr_can_change r) os1\<rparr>, os1) } }"

(* src: mmap_file.hpp 859-873 VectorBuffer::Reader::open_impl *)
definition vr_open_impl :: "nat \<Rightarrow> vec_reader \<Rightarrow> mm_error \<times> vec_reader" where
  "vr_open_impl chunk r =
     (let sz = vr_write_len r;
          c = (if sz < mul64 chunk (vr_item_size r) then sz else mul64 chunk (vr_item_size r));
          r1 = r\<lparr>vr_chunk_size := c\<rparr> in
      (E_ok, if 0 < c then r1\<lparr>vr_num_chunks := sub64 (w64 (sz + c)) 1 div c\<rparr> else r1))"

(* src: mmap_file.hpp 745-757 VectorBuffer::Reader::open, VectorBuffer::Reader::shm_open *)
definition vr_open :: "file_name \<Rightarrow> nat \<Rightarrow> vec_reader \<Rightarrow> os \<Rightarrow> (mm_error \<times> vec_reader \<times> os) option" where
  "vr_open name chunk r os =
     do { (e, r1, os1) \<leftarrow> vr_init name r os;
          if e \<noteq> E_ok then Some (e, r1, os1)
          else (let (e2, r2) = vr_open_impl chunk r1 in Some (e2, r2, os1)) }"

(* src: mmap_file.hpp 759-761 VectorBuffer::Reader::get_obj_num *)
definition vr_obj_num :: "vec_reader \<Rightarrow> nat option" where
  "vr_obj_num r =
     (let d = nat (vr_item_size r mod 2 ^ 64) in if d = 0 then None else Some (vr_write_len r div d))"

(* src: mmap_file.hpp 763-773 VectorBuffer::Reader::get_obj_size, VectorBuffer::Reader::get_data, VectorBuffer::Reader::get_chunk_index *)
definition vr_queries :: "vec_reader \<Rightarrow> nat \<times> mapping option \<times> nat" where
  "vr_queries r = (nat (vr_item_size r mod 2 ^ 64), vr_addr r, vr_index r)"

(* src: mmap_file.hpp 875-884 VectorBuffer::Reader::clean_mmap *)
definition vr_clean :: "os \<Rightarrow> vec_reader \<Rightarrow> mm_error \<times> vec_reader" where
  "vr_clean os r =
     (if vr_addr r \<noteq> None
      then (if os_ok os Sys_unmap then E_ok else E_munmap_fail, r\<lparr>vr_addr := None\<rparr>) else (E_ok, r))"

(* src: mmap_file.hpp 886-896 VectorBuffer::Reader::calc_current *)
definition vr_calc :: "os \<Rightarrow> vec_reader \<Rightarrow> vec_reader" where
  "vr_calc os r =
     (let off = w64 (vec_meta_size + vr_index r * vr_chunk_size r);
          n = (if vr_index r < sub64 (vr_num_chunks r) 1 then vr_chunk_size r
               else sub64 (vr_write_len r) (w64 (vr_index r * vr_chunk_size r)));
          pa = page_floor os off in
      r\<lparr>vr_chunk_offset := 0, vr_file_offset := off, vr_buf_length := n, vr_pa_offset := pa,
        vr_chunk_length := sub64 (w64 (n + off)) pa\<rparr>)"

(* src: mmap_file.hpp 795-816 VectorBuffer::Reader::read *)
definition vr_read :: "os \<Rightarrow> vec_reader \<Rightarrow> mm_error \<times> view \<times> vec_reader" where
  "vr_read os r =
     (let (e, r1) = vr_clean os r in
      if e \<noteq> E_ok then (e, None, r1)
      else if vr_write_len r1 \<le> w64 (vr_file_offset r1 + vr_buf_length r1) then (E_ok, None, r1)
      else
        (let r2 = vr_calc os r1 in
         case sys_map (vr_fd r2) (vr_can_change r2) (vr_pa_offset r2) (vr_chunk_length r2) os of
           None \<Rightarrow> (E_mmap_fail, None, r2)
         | Some m \<Rightarrow>
             (E_ok, Some (m, vr_file_offset r2 - vr_pa_offset r2, vr_buf_length r2),
              r2\<lparr>vr_addr := Some m, vr_index := w64 (Suc (vr_index r2))\<rparr>)))"

text \<open>
  The template read, and read_next: the next object of n bytes, None standing for a null pointer. An
  object may reach behind the view it begins in; where it lies is what the code computes.
\<close>

(* src: mmap_file.hpp 789-793 VectorBuffer::Reader::read *)
definition vr_read_typed :: "nat \<Rightarrow> os \<Rightarrow> vec_reader \<Rightarrow> mm_error \<times> view \<times> nat \<times> vec_reader" where
  "vr_read_typed n os r = (let (e, v, r1) = vr_read os r in (e, v, view_length v div n, r1))"

(* src: mmap_file.hpp 775-787 VectorBuffer::Reader::read_next *)
definition vr_read_next :: "nat \<Rightarrow> os \<Rightarrow> vec_reader \<Rightarrow> mm_error \<times> view \<times> vec_reader" where
  "vr_read_next n os r =
     (if vr_buf_length r < vr_chunk_offset r + n
      then
        (let (e, v, c, r1) = vr_read_typed n os r in
         if e \<noteq> E_ok \<or> c = 0 then (e, None, r1)
         else (E_ok, map_option (\<lambda>(m, i, k). (m, i, n)) v, r1\<lparr>vr_chunk_offset := vr_chunk_offset r1 + n\<rparr>))
      else (E_ok, map_option (\<lambda>m. (m, vr_chunk_offset r, n)) (vr_addr r), r\<lparr>vr_chunk_offset := vr_chunk_offset r + n\<rparr>))"

(* src: mmap_file.hpp 818-826 VectorBuffer::Reader::close *)
definition vr_close :: "os \<Rightarrow> vec_reader \<Rightarrow> mm_error \<times> vec_reader" where
  "vr_close os r =
     (let (e, r1) = vr_clean os r in
      if vr_fd r1 \<noteq> None \<and> \<not> os_ok os Sys_close then (E_close_fail, r1) else (E_ok, r1\<lparr>vr_fd := None\<rparr>))"

text \<open>
  What the reader hands out of the data: it stops as soon as the end of a chunk, counted from the
  beginning of the file, passes the length of the data, counted without the head.
\<close>

definition vec_pieces :: "nat \<Rightarrow> bytes \<Rightarrow> bytes list" where
  "vec_pieces c data =
     take (if data = [] then 0 else max 1 ((length data - 24 + c - 1) div c)) (chunks_of c data)"

definition vr_ready :: "os \<Rightarrow> bytes \<Rightarrow> nat \<Rightarrow> vec_reader \<Rightarrow> bool" where
  "vr_ready os data c r \<longleftrightarrow> os_fine os \<and> all_calls_ok os \<and> length data < 2 ^ 62 \<and> 0 < c \<and> c \<le> length data \<and>
     (\<exists>i w item f. vr_fd r = Some (i, w) \<and> (vr_can_change r \<longrightarrow> w) \<and> os_file os i = f \<and> vec_file item data f \<and>
        length f < 2 ^ 63) \<and>
     vr_write_len r = length data \<and> vr_chunk_size r = c \<and> vr_num_chunks r = length (chunks_of c data)"

definition vr_stands :: "os \<Rightarrow> bytes \<Rightarrow> nat \<Rightarrow> vec_reader \<Rightarrow> nat \<Rightarrow> bool" where
  "vr_stands os data c r k \<longleftrightarrow> vr_ready os data c r \<and> vr_index r = k \<and> k \<le> length (vec_pieces c data) \<and>
     vr_file_offset r + vr_buf_length r = (if k = 0 then 0 else 24 + min (k * c) (length data))"

lemma length_vec_pieces:
  assumes "0 < c" "c \<le> length data"
  shows "k < length (vec_pieces c data) \<longleftrightarrow> k = 0 \<or> 24 + k * c < length data"
proof -
  have "data \<noteq> []" using assms by auto
  then have "k < length (vec_pieces c data) \<longleftrightarrow> k < length (chunks_of c data) \<and>
      (k = 0 \<or> k < (length data - 24 + c - 1) div c)" by (auto simp: vec_pieces_def)
  then show ?thesis
    unfolding chunk_index [OF assms(1)] chunks_count [OF assms(1)] using assms by auto
qed

lemma nth_vec_pieces: "k < length (vec_pieces c data) \<Longrightarrow> vec_pieces c data ! k = part (k * c) c data"
  by (simp add: vec_pieces_def nth_chunks_of)

lemma vec_pieces_nonempty: "k < length (vec_pieces c data) \<Longrightarrow> vec_pieces c data ! k \<noteq> []"
  by (simp add: vec_pieces_def chunks_of_nonempty_all)

text \<open>The data are at most 24 bytes longer than the pieces, which hold them from the start.\<close>

lemma concat_take_chunks: "concat (take n (chunks_of c xs)) = take (n * c) (take (length (chunks_of c xs) * c) xs)"
proof -
  have "take n (chunks_of c xs) = map (\<lambda>k. part (k * c) c xs) [0..<min n (length (chunks_of c xs))]"
    by (simp add: chunks_of_def take_map take_upt min_def)
  then show ?thesis by (simp add: concat_parts min_def)
qed

lemma prefix_take: "xs = take k ys \<Longrightarrow> xs = take (length xs) ys"
  by (cases "k \<le> length ys") auto

lemma vec_pieces_tail:
  assumes "0 < c" "c \<le> length data"
  shows "concat (vec_pieces c data) = take (length (vec_pieces c data) * c) data"
    "length data \<le> length (concat (vec_pieces c data)) + 24"
proof -
  let ?n = "length (vec_pieces c data)"
  have "length data \<le> length (chunks_of c data) * c"
    using chunk_index [OF assms(1), of "length (chunks_of c data)" data] by simp
  then have all: "take (length (chunks_of c data) * c) data = data" by simp
  have "take (length (take m xs)) xs = take m xs" for m and xs :: "bytes list" by (simp add: min_def)
  then have "vec_pieces c data = take ?n (chunks_of c data)" unfolding vec_pieces_def by metis
  then show "concat (vec_pieces c data) = take (?n * c) data" by (metis concat_take_chunks all)
  moreover have "\<not> 24 + ?n * c < length data" using length_vec_pieces [OF assms, of ?n] by auto
  ultimately show "length data \<le> length (concat (vec_pieces c data)) + 24" by simp
qed

lemma vr_piece:
  assumes st: "vr_stands os data c r k" and k: "k < length (vec_pieces c data)"
  shows "\<exists>v r'. vr_read os r = (E_ok, v, r') \<and> view_bytes os v = Some (vec_pieces c data ! k) \<and>
    vr_stands os data c r' (Suc k)"
proof -
  define r1 where "r1 = r\<lparr>vr_addr := None\<rparr>"
  have clean: "vr_clean os r = (E_ok, r1)"
    using st by (auto simp: vr_clean_def r1_def vr_stands_def vr_ready_def all_calls_ok_def)
  have rd: "vr_ready os data c r1" and i: "vr_index r1 = k"
    and pos: "vr_file_offset r1 + vr_buf_length r1 = (if k = 0 then 0 else 24 + min (k * c) (length data))"
    using st by (auto simp: vr_stands_def vr_ready_def r1_def)
  then obtain j w item where c: "0 < c" "c \<le> length data" "length data < 2 ^ 62" "vr_write_len r1 = length data"
    "vr_chunk_size r1 = c" "vr_num_chunks r1 = length (chunks_of c data)"
    and fd: "vr_fd r1 = Some (j, w)" "vr_can_change r1 \<longrightarrow> w" "vec_file item data (os_file os j)"
    "length (os_file os j) < 2 ^ 63" and os: "os_fine os" "\<And>x. os_ok os x"
    by (auto simp: vr_ready_def all_calls_ok_def)
  have more: "k = 0 \<or> 24 + k * c < length data" using k length_vec_pieces [OF c(1,2)] by blast
  have kc: "k * c < length data" using more c by auto
  have kq: "k < length (chunks_of c data)" using kc chunk_index [OF c(1)] by blast
  have len: "length (chunks_of c data) < 2 ^ 63" using length_chunks_le [OF c(1), of data] c(3) by simp
  define n where "n = length (part (k * c) c data)"
  have n: "n = (if k < length (chunks_of c data) - 1 then c else length data - k * c)"
    using length_chunk [OF c(1), of k data] last_chunk [OF c(1) kq] kq nth_chunks_of [OF kq]
    by (auto simp: n_def min_def)
  have n0: "0 < n" "n \<le> length data - k * c" using kc c by (auto simp: n_def)
  let ?off = "24 + k * c"
  let ?pa = "page_floor os ?off"
  have pa: "?pa \<le> ?off" using kc c(3) page_floor_le [OF os(1), of ?off] by simp
  define r2 where "r2 = r1\<lparr>vr_chunk_offset := 0, vr_file_offset := ?off, vr_buf_length := n, vr_pa_offset := ?pa,
    vr_chunk_length := n + ?off - ?pa\<rparr>"
  have calc: "vr_calc os r1 = r2"
    using kc kq c len n0 pa by (simp add: vr_calc_def Let_def i n vec_meta_size_def r2_def)
  have fl: "24 + length data \<le> length (os_file os j)" using fd(3) by (simp add: vec_file_def)
  have le: "?off + n \<le> length (os_file os j)" using fl n0 kc by linarith
  obtain m where m: "sys_map (vr_fd r1) (vr_can_change r1) ?pa (n + ?off - ?pa) os = Some m"
    and p: "peek m (?off - ?pa) n os = Some (part ?off n (os_file os j))"
    using map_part [OF os le fd(4) n0(1) fd(2)] fd(1) by auto
  have "part ?off n (os_file os j) = vec_pieces c data ! k"
  proof -
    have "part 24 (length data) (os_file os j) = data" using fd(3) by (simp add: vec_file_def)
    moreover have "k * c + n \<le> length data" using n0 kc by linarith
    ultimately have "part (k * c) n data = part (24 + k * c) n (os_file os j)"
      using part_part [of "k * c" n "length data" 24 "os_file os j"] by simp
    then show ?thesis using nth_vec_pieces [OF k] by (simp add: n_def part_min min.commute)
  qed
  moreover define r' where "r' = r2\<lparr>vr_addr := Some m, vr_index := Suc k\<rparr>"
  have "vr_read os r = (E_ok, Some (m, ?off - ?pa, n), r')"
    using more kc kq len m pos c(3,4) i
    by (auto simp: vr_read_def clean calc Let_def r'_def) (auto simp: r2_def)
  moreover have "vr_stands os data c r' (Suc k)"
  proof -
    have "k * c + n = min (Suc k * c) (length data)"
      using n n0 kc last_chunk [OF c(1) kq] chunk_index [OF c(1), of "Suc k" data] by (auto split: if_splits)
    then show ?thesis using rd k by (simp add: vr_stands_def vr_ready_def r'_def r2_def)
  qed
  ultimately show ?thesis using p by (auto simp: view_bytes_def)
qed

lemma vr_over:
  assumes st: "vr_stands os data c r (length (vec_pieces c data))"
  shows "\<exists>r'. vr_read os r = (E_ok, None, r') \<and> vr_stands os data c r' (length (vec_pieces c data))"
proof -
  let ?n = "length (vec_pieces c data)"
  have c: "0 < c" "c \<le> length data" "length data < 2 ^ 62" "all_calls_ok os" "vr_write_len r = length data"
    using st by (auto simp: vr_stands_def vr_ready_def)
  have "?n \<noteq> 0" using length_vec_pieces [OF c(1,2), of 0] by auto
  moreover have "\<not> 24 + ?n * c < length data" using length_vec_pieces [OF c(1,2), of ?n] by auto
  ultimately have "length data \<le> w64 (vr_file_offset r + vr_buf_length r)"
    using st c by (simp add: vr_stands_def min_def)
  then have "vr_read os r = (E_ok, None, r\<lparr>vr_addr := None\<rparr>)"
    using c by (auto simp: vr_read_def vr_clean_def all_calls_ok_def)
  moreover have "vr_stands os data c (r\<lparr>vr_addr := None\<rparr>) ?n" using st by (simp add: vr_stands_def vr_ready_def)
  ultimately show ?thesis by blast
qed

interpretation vcr: chunk_source "vr_stands os data c" "vr_read os" os "vec_pieces c data"
  by unfold_locales (erule (1) vr_piece, erule vr_over, erule vec_pieces_nonempty)

section \<open>Writing and reading\<close>

fun vw_writes :: "bytes list \<Rightarrow> vec_writer \<Rightarrow> os \<Rightarrow> (mm_error \<times> vec_writer \<times> os) option" where
  "vw_writes [] w os = Some (E_ok, w, os)"
| "vw_writes (y # ys) w os =
     do { (e, w1, os1) \<leftarrow> vw_write y w os; if e \<noteq> E_ok then Some (e, w1, os1) else vw_writes ys w1 os1 }"

definition vw_session :: "file_name \<Rightarrow> nat \<Rightarrow> nat \<Rightarrow> nat \<Rightarrow> bytes list \<Rightarrow> os \<Rightarrow> os option" where
  "vw_session name item_size init_len step yss os =
     do { (e, w, os1) \<leftarrow> vw_open name item_size True init_len step new_vec_writer os;
          (e2, w2, os2) \<leftarrow> vw_writes yss w os1;
          (w3, os3) \<leftarrow> vw_close w2 os2;
          Some os3 }"

lemma remap_names:
  assumes "vw_remap len wl fl w os = Some (e, w', os')"
  shows "same_names os os' \<and> vw_step w' = vw_step w"
proof -
  obtain n where n: "grow_file (w64 (wl + vec_meta_size + len)) (vw_step w) fl = Some n"
    using assms by (auto simp: vw_remap_def bind_Some_iff)
  show ?thesis
  proof (cases "sys_truncate (vw_fd w) (page_floor os n) os")
    case None
    then show ?thesis using assms n by (simp add: vw_remap_def)
  next
    case (Some os1)
    then show ?thesis using assms n truncate_names [OF Some]
      by (cases "sys_map (vw_fd w) True 0 (page_floor os n) os1")
        (auto simp: vw_remap_def bind_Some_iff put64_def dest: poke_names intro: same_names_trans)
  qed
qed

lemma check_names:
  "vw_check_add_length len w os = Some (e, w', os') \<Longrightarrow> same_names os os' \<and> vw_step w' = vw_step w"
  by (auto simp: vw_check_add_length_def bind_Some_iff split: option.splits if_splits dest: remap_names)

lemma write_names:
  assumes "vw_write ys w os = Some (e, w', os')"
  shows "same_names os os' \<and> vw_step w' = vw_step w"
proof (cases "ys = []")
  case True
  then show ?thesis using assms by (simp add: vw_write_def)
next
  case False
  then obtain e1 w1 os1 where c: "vw_check_add_length (length ys) w os = Some (e1, w1, os1)"
    using assms by (auto simp: vw_write_def bind_Some_iff)
  then have "same_names os1 os' \<and> w' = w1"
    using assms False by (auto simp: vw_write_def bind_Some_iff put64_def split: if_splits
      dest: poke_names intro: same_names_trans)
  then show ?thesis using check_names [OF c] same_names_trans by blast
qed

lemma vw_writes_holds:
  assumes "vec_holds w os i item xs" "0 < vw_step w" "os_page os dvd vw_step w"
    and "length xs + length (concat yss) + 24 + vw_step w < 2 ^ 62" "vw_writes yss w os = Some (e, w', os')"
  shows "vec_holds w' os' i item (xs @ concat yss) \<and> same_names os os'"
  using assms
proof (induction yss arbitrary: w os xs)
  case Nil
  then show ?case by simp
next
  case (Cons y yss)
  obtain e1 w1 os1 where w: "vw_write y w os = Some (e1, w1, os1)" using Cons.prems(5) by (auto simp: bind_Some_iff)
  have h: "e1 = E_ok" "vec_holds w1 os1 i item (xs @ y)"
    using vector_write_result [OF Cons.prems(1-3), of y] Cons.prems(4) w by (auto split: if_splits)
  have n: "same_names os os1" "vw_step w1 = vw_step w" using write_names [OF w] by simp_all
  have "vec_holds w' os' i item ((xs @ y) @ concat yss) \<and> same_names os1 os'"
    using Cons.IH [OF h(2)] n Cons.prems w h(1) by (simp add: same_names_def)
  then show ?case using n(1) same_names_trans by auto
qed

lemma vr_open_file:
  assumes os: "os_fine os" "all_calls_ok os" and f: "os_dir os name = Some i" "vec_file item data (os_file os i)"
    and l: "length (os_file os i) < 2 ^ 62" and d: "data \<noteq> []" and m: "0 < mul64 chunk (to_int32 (int item))"
  shows "\<exists>r. vr_open name chunk (new_vec_reader junk cc) os = Some (E_ok, r, os) \<and>
    vr_stands os data (min (mul64 chunk (to_int32 (int item))) (length data)) r 0"
proof -
  let ?M = "mul64 chunk (to_int32 (int item))"
  let ?c = "min ?M (length data)"
  have b: "24 + length data \<le> length (os_file os i)" "field 0 (os_file os i) = item" "field 8 (os_file os i) = length data"
    using f(2) by (simp_all add: vec_file_def)
  have sm: "sys_map (Some (i, True)) True 0 24 os = Some (whole i 24)"
    using os(2) by (intro map_whole) (simp_all add: all_calls_ok_def)
  have g: "get64 (whole i 24) 8 os = Some (length data)" "get64 (whole i 24) 0 os = Some item"
    using b by (simp_all add: get64_whole)
  let ?r1 = "(new_vec_reader junk cc)\<lparr>vr_file_size := 24 + length data, vr_item_size := to_int32 (int item),
    vr_write_len := length data, vr_fd := Some (i, cc)\<rparr>"
  have init: "vr_init name (new_vec_reader junk cc) os = Some (E_ok, ?r1, os)"
    using os f(1) sm g b l
    by (simp add: vr_init_def mapper_open_def mapper_open_impl_def mapper_get_def new_mapper_def sys_open_excl_def
      sys_open_def all_calls_ok_def vec_meta_size_def new_vec_reader_def)
  have c: "0 < ?c" "?c \<le> length data" using d m by auto
  have ci: "(if length data < ?M then length data else ?M) = ?c" by auto
  define r where "r = ?r1\<lparr>vr_chunk_size := ?c, vr_num_chunks := length (chunks_of ?c data)\<rparr>"
  have n: "sub64 (w64 (length data + ?c)) 1 div ?c = length (chunks_of ?c data)"
    using l b(1) by (intro chunk_count_code c) simp
  have "vr_open_impl chunk ?r1 = (E_ok, r)"
  proof (cases "length data < ?M")
    case True
    then show ?thesis using n d by (simp add: vr_open_impl_def r_def min_def Let_def)
  next
    case False
    then show ?thesis using n m by (simp add: vr_open_impl_def r_def min_def Let_def)
  qed
  then have "vr_open name chunk (new_vec_reader junk cc) os = Some (E_ok, r, os)"
    by (simp add: vr_open_def init)
  moreover have "vr_stands os data ?c r 0"
    using os f(2) l c b(1) by (auto simp: vr_stands_def vr_ready_def r_def new_vec_reader_def)
  ultimately show ?thesis by blast
qed

text \<open>How many pieces the reader hands out: as many as it would of data that are 24 bytes shorter, but one at least.\<close>

lemma count_vec_pieces:
  assumes "0 < c" "c \<le> length data"
  shows "length (vec_pieces c data) = max 1 ((length data - 24 + c - 1) div c)"
proof -
  have "k < length (vec_pieces c data) \<longleftrightarrow> k < max 1 ((length data - 24 + c - 1) div c)" for k
    using length_vec_pieces [OF assms, of k] chunks_count [OF assms(1), of k "length data - 24"] by auto
  then show ?thesis by (metis nat_neq_iff)
qed

text \<open>C12: What is written to a new VectorBuffer file and what is read from it, with a step that is a multiple of
  the page size, system calls that succeed and sizes below 2 to the 61. A writer opens a new file,
  writes any list of texts that are not all empty, without running over the end of its mapping
  (vector_writer_overrun says when it does), and closes. Then a reader with chunks of c bytes (the whole
  text, when it is shorter) opens the file, and its pieces are the text from its beginning, in order,
  each but the last of c bytes. But it hands out only as many pieces as there are of a text 24 bytes
  shorter, one at least, because where it asks whether there is more it compares its place in the
  file, which counts the 24 bytes of the head, with the length of the text. What follows those
  pieces, at most 24 bytes, is never handed out.\<close>

theorem vector_buffer_roundtrip:
  assumes "os_fine os" "all_calls_ok os" "os_dir os name = None" "0 < step" "os_page os dvd step"
    and "24 + init_len + step + length (concat yss) < 2 ^ 61" "item < 2 ^ 64" "concat yss \<noteq> []"
    and "vw_session name item init_len step yss os = Some os'" "0 < mul64 chunk (to_int32 (int item))"
    and "length (concat yss) < n"
  shows "\<exists>r ps. vr_open name chunk (new_vec_reader junk cc) os' = Some (E_ok, r, os') \<and>
    read_all (vr_read os') os' n r = Some ps \<and>
    (let c = min (mul64 chunk (to_int32 (int item))) (length (concat yss))
     in length ps = max 1 ((length (concat yss) - 24 + c - 1) div c) \<and>
        concat ps = take (length ps * c) (concat yss) \<and> (\<forall>p \<in> set (butlast ps). length p = c)) \<and>
    length (concat yss) \<le> length (concat ps) + 24"
proof -
  let ?data = "concat yss"
  have b1: "24 + init_len + step < 2 ^ 62" using assms(6) by simp
  obtain w os1 where o: "vw_open name item True init_len step new_vec_writer os = Some (E_ok, w, os1)"
    "vec_holds w os1 (os_new os) item []" "vw_step w = step" "os_page os1 = os_page os"
    "os_dir os1 = (os_dir os)(name \<mapsto> os_new os)"
    using vw_open_new [OF assms(1-5) _ assms(7), of init_len] b1 by blast
  obtain e w2 os2 where w: "vw_writes yss w os1 = Some (e, w2, os2)" and c: "\<exists>w3. vw_close w2 os2 = Some (w3, os')"
    using assms(9) o(1) by (auto simp: vw_session_def bind_Some_iff)
  have b2: "length ([] :: bytes) + length ?data + 24 + vw_step w < 2 ^ 62" using assms(6) o(3) by simp
  have h: "vec_holds w2 os2 (os_new os) item ?data" "same_names os1 os2"
    using vw_writes_holds [OF o(2) _ _ b2 w] assms(4,5) o(3,4) by simp_all
  obtain os3 where cl: "vw_close w2 os2 = Some (w2\<lparr>vw_meta := None, vw_fd := None\<rparr>, os3)"
    "vec_file item ?data (os_file os3 (os_new os))" "length (os_file os3 (os_new os)) = 24 + length ?data"
    "os_dir os3 = os_dir os2" "os_page os3 = os_page os2" "os_ok os3 = os_ok os2"
    using vw_close_holds [OF h(1)] by blast
  have os': "os' = os3" using c cl(1) by simp
  have fine: "os_fine os'" "all_calls_ok os'" "os_dir os' name = Some (os_new os)"
    using h os' cl(4-6) o(5) by (simp_all add: vec_holds_def os_fine_def all_calls_ok_def same_names_def)
  let ?c = "min (mul64 chunk (to_int32 (int item))) (length ?data)"
  have cc: "0 < ?c" "?c \<le> length ?data" using assms(8,10) by auto
  obtain r where r: "vr_open name chunk (new_vec_reader junk cc) os' = Some (E_ok, r, os')" "vr_stands os' ?data ?c r 0"
    using vr_open_file [OF fine, of item ?data chunk junk cc] cl(2,3) os' assms(6,8,10) by auto
  have "length (vec_pieces ?c ?data) \<le> length ?data"
    using length_chunks_le [OF cc(1), of ?data] by (simp add: vec_pieces_def)
  then have "read_all (vr_read os') os' n r = Some (vec_pieces ?c ?data)"
    using vcr.read_all_pieces [OF r(2)] assms(11) by simp
  moreover have "length p = ?c" if p: "p \<in> set (butlast (vec_pieces ?c ?data))" for p
  proof -
    obtain i where i: "i < length (butlast (vec_pieces ?c ?data))" "butlast (vec_pieces ?c ?data) ! i = p"
      using p unfolding in_set_conv_nth by blast
    then have si: "Suc i < length (vec_pieces ?c ?data)" by simp
    then have "Suc i * ?c < length ?data" using length_vec_pieces [OF cc, of "Suc i"] by simp
    moreover have "p = part (i * ?c) ?c ?data"
      using i si nth_vec_pieces [of i ?c ?data] nth_butlast [OF i(1)] by simp
    ultimately show ?thesis by simp
  qed
  ultimately show ?thesis
    using r(1) vec_pieces_tail [OF cc] count_vec_pieces [OF cc] unfolding Let_def by blast
qed

text \<open>One write that fits into what open has reserved, in a new file.\<close>

definition empty_os :: os where
  "empty_os = \<lparr>os_page = 4096, os_ok = (\<lambda>c. True), os_dir = (\<lambda>n. None), os_file = (\<lambda>i. []), os_new = 0\<rparr>"

lemma empty_os_fine: "os_fine empty_os" "all_calls_ok empty_os" "os_dir empty_os name = None" "os_page empty_os = 4096"
  by (auto simp: empty_os_def os_fine_def all_calls_ok_def intro: exI [of _ 12])

lemma vw_session_one:
  assumes "length ys \<le> 4096" "item < 2 ^ 64"
  shows "\<exists>os'. vw_session name item 4096 4096 [ys] empty_os = Some os'"
proof -
  obtain w os1 where o: "vw_open name item True 4096 4096 new_vec_writer empty_os = Some (E_ok, w, os1)"
    "vec_holds w os1 (os_new empty_os) item []" "24 + 4096 \<le> length (os_file os1 (os_new empty_os))"
    using vw_open_new [OF empty_os_fine(1,2), of name 4096 4096 item True] empty_os_fine(3,4) assms(2) by auto
  obtain os2 where w: "vw_write ys w os1 = Some (E_ok, w, os2)" "vec_holds w os2 (os_new empty_os) item ([] @ ys)"
    using vw_write_room [OF o(2), of ys] o(3) assms(1) by auto
  obtain os3 where "vw_close w os2 = Some (w\<lparr>vw_meta := None, vw_fd := None\<rparr>, os3)"
    using vw_close_holds [OF w(2)] by blast
  then show ?thesis using o(1) w(1) by (simp add: vw_session_def)
qed

text \<open>Of 40 bytes in chunks of 20 the reader hands out the first chunk only.\<close>

lemma vec_tail_lost: "vec_pieces 20 (replicate 40 7) = [replicate 20 7]"
  by code_simp

theorem vector_buffer_roundtrip_witness:
  "\<exists>os' r ps. vw_session (False, ''v'') 1 4096 4096 [replicate 40 7] empty_os = Some os' \<and>
    vr_open (False, ''v'') 20 (new_vec_reader 0 False) os' = Some (E_ok, r, os') \<and>
    read_all (vr_read os') os' 41 r = Some ps \<and> concat ps = replicate 20 7"
proof -
  obtain os' where s: "vw_session (False, ''v'') 1 4096 4096 [replicate 40 7] empty_os = Some os'"
    using vw_session_one [of "replicate 40 7" 1 "(False, ''v'')"] by auto
  have m: "0 < mul64 20 (to_int32 (int 1))" "mul64 20 (to_int32 (int 1)) = 20" by (simp_all add: mul64_def)
  from vector_buffer_roundtrip [OF empty_os_fine(1-3) _ _ _ _ _ s m(1), of 41 0 False]
  obtain r ps where "vr_open (False, ''v'') 20 (new_vec_reader 0 False) os' = Some (E_ok, r, os')"
    "read_all (vr_read os') os' 41 r = Some ps" "length ps = 1" "concat ps = take (length ps * 20) (replicate 40 7)"
    using empty_os_fine(4) m(2) by (auto simp: Let_def max_def)
  then show ?thesis using s by auto
qed

definition full_os :: os where
  "full_os = \<lparr>os_page = 32, os_ok = (\<lambda>c. True), os_dir = (\<lambda>n. None),
     os_file = (\<lambda>i. le64 1 @ le64 4 @ le64 32 @ [1, 2, 3, 4, 0, 0, 0, 0]), os_new = 1\<rparr>"

theorem vector_writer_overrun_witness:
  "vw_write [5, 6, 7, 8, 9] \<lparr>vw_fd = Some (0, True), vw_step = 32, vw_meta = Some (whole 0 32)\<rparr> full_os = None"
proof -
  let ?w = "\<lparr>vw_fd = Some (0, True), vw_step = 32, vw_meta = Some (whole 0 32)\<rparr>"
  have "os_fine full_os" "all_calls_ok full_os"
    by (auto simp: full_os_def os_fine_def all_calls_ok_def intro: exI [of _ 5])
  then have "vec_holds ?w full_os 0 1 [1, 2, 3, 4]"
    by (simp add: vec_holds_def vec_file_def full_os_def field_def part_def)
  then show ?thesis using vector_writer_overrun [of ?w full_os 0 1 "[1, 2, 3, 4]" "[5, 6, 7, 8, 9]"]
    by (simp add: full_os_def)
qed

end
