(* ===== verification/Mmap_Fix.thy ===== *)
theory Mmap_Fix
  imports Mmap_Meta
begin

text \<open>
  MMapFile::FixBuffer (mmap_file.hpp): a file of a fixed length that begins with a flag, the length of the
  data and the length of the file, and goes on with the data; finished_write cuts it behind the data. The
  result None of a call is undefined behaviour: a null pointer or an access outside a mapping.
\<close>

section \<open>Writer\<close>

text \<open>has_finished_, write_len_ and file_size_ are at 0, 1 and 9, the data at 17.\<close>

(* src: mmap_file.hpp 937-942 FixBuffer::MetaSt *)
definition fix_meta :: "bool \<Rightarrow> nat \<Rightarrow> nat \<Rightarrow> bytes" where
  "fix_meta fin wl fs = (if fin then 1 else 0) # le64 wl @ le64 fs"

(* src: mmap_file.hpp 1100-1107 FixBuffer::Writer *)
record fix_writer =
  fw_fd :: fd
  fw_meta :: "mapping option"
  fw_name :: file_name

(* src: mmap_file.hpp 949-949 FixBuffer::Writer::Writer *)
definition new_fix_writer :: fix_writer where
  "new_fix_writer = \<lparr>fw_fd = None, fw_meta = None, fw_name = (False, '''')\<rparr>"

(* src: mmap_file.hpp 1044-1054 FixBuffer::Writer::close *)
definition fw_close :: "fix_writer \<Rightarrow> fix_writer" where
  "fw_close w = w\<lparr>fw_meta := None, fw_fd := None\<rparr>"

(* src: mmap_file.hpp 1057-1093 FixBuffer::Writer::open_impl *)
definition fw_open_impl :: "bool \<Rightarrow> nat \<Rightarrow> bool \<Rightarrow> fix_writer \<Rightarrow> os \<Rightarrow> (mm_error \<times> fix_writer \<times> os) option" where
  "fw_open_impl created bsize is_append w os =
     (let real = page_floor os (max (w64 (17 + bsize)) (os_page os)) in
      case (if created then Some real else map_option (\<lambda>sz. max sz real) (file_size (fw_fd w) os)) of
        None \<Rightarrow> Some (E_stat_fail, fw_close w, os)
      | Some n \<Rightarrow>
          (case sys_truncate (fw_fd w) n os of
             None \<Rightarrow> Some (E_ftruncate_fail, w, os)
           | Some os1 \<Rightarrow>
               (case sys_map (fw_fd w) True 0 n os1 of
                  None \<Rightarrow> Some (E_mmap_fail, w, os1)
                | Some m \<Rightarrow>
                    do { os2 \<leftarrow> (if created \<or> \<not> is_append then poke m 0 (fix_meta False 0 n) os1 else put64 m 9 n os1);
                         os3 \<leftarrow> poke m 0 [0] os2;
                         Some (E_ok, w\<lparr>fw_meta := Some m\<rparr>, os3) })))"

(* src: mmap_file.hpp 952-968 FixBuffer::Writer::open, FixBuffer::Writer::shm_open *)
definition fw_open :: "file_name \<Rightarrow> nat \<Rightarrow> bool \<Rightarrow> fix_writer \<Rightarrow> os \<Rightarrow> (mm_error \<times> fix_writer \<times> os) option" where
  "fw_open name bsize is_append w os =
     (let (e, fd, created, os1) = open_write_file name 0 os; w1 = w\<lparr>fw_name := name, fw_fd := fd\<rparr> in
      if e \<noteq> E_ok then Some (e, w1, os1) else fw_open_impl created bsize is_append w1 os1)"

(* src: mmap_file.hpp 1096-1098 FixBuffer::Writer::check_res_space *)
definition fw_check_res_space :: "nat \<Rightarrow> fix_writer \<Rightarrow> os \<Rightarrow> bool option" where
  "fw_check_res_space len w os =
     do { m \<leftarrow> fw_meta w; fs \<leftarrow> get64 m 9 os; wl \<leftarrow> get64 m 1 os; Some (len \<le> sub64 (sub64 fs 17) wl) }"

text \<open>The offset before the write is an output; None when it is left alone.\<close>

(* src: mmap_file.hpp 970-998 FixBuffer::Writer::write *)
definition fw_write :: "bytes \<Rightarrow> fix_writer \<Rightarrow> os \<Rightarrow> (mm_error \<times> nat option \<times> os) option" where
  "fw_write data w os =
     do { room \<leftarrow> fw_check_res_space (length data) w os;
          if \<not> room then Some (E_free_space_fail, None, os)
          else do { m \<leftarrow> fw_meta w;
                    start \<leftarrow> get64 m 1 os;
                    os1 \<leftarrow> poke m (17 + start) data os;
                    wl \<leftarrow> get64 m 1 os1;
                    os2 \<leftarrow> put64 m 1 (w64 (wl + length data)) os1;
                    Some (E_ok, Some start, os2) } }"

(* src: mmap_file.hpp 1000-1002 FixBuffer::Writer::reset_offset *)
definition fw_reset_offset :: "nat \<Rightarrow> fix_writer \<Rightarrow> os \<Rightarrow> os option" where
  "fw_reset_offset off w os = do { m \<leftarrow> fw_meta w; put64 m 1 off os }"

text \<open>The place of the data in the mapping, and the offset.\<close>

(* src: mmap_file.hpp 1005-1014 FixBuffer::Writer::get_data *)
definition fw_get_data :: "nat \<Rightarrow> fix_writer \<Rightarrow> os \<Rightarrow> (mm_error \<times> nat option \<times> nat \<times> os) option" where
  "fw_get_data len w os =
     do { m \<leftarrow> fw_meta w;
          start \<leftarrow> get64 m 1 os;
          fin \<leftarrow> peek m 0 1 os;
          room \<leftarrow> fw_check_res_space len w os;
          if fin \<noteq> [0] \<or> \<not> room then Some (E_free_space_fail, None, start, os)
          else do { os1 \<leftarrow> put64 m 1 (w64 (start + len)) os; Some (E_ok, Some (17 + start), start, os1) } }"

(* src: mmap_file.hpp 1016-1023 FixBuffer::Writer::add_file_len *)
definition fw_add_file_len :: "nat \<Rightarrow> fix_writer \<Rightarrow> os \<Rightarrow> (mm_error \<times> fix_writer \<times> os) option" where
  "fw_add_file_len len w os =
     do { m \<leftarrow> fw_meta w;
          fs \<leftarrow> get64 m 9 os;
          fw_open (fw_name w) (sub64 (w64 (fs + len)) 17) True (fw_close w) os }"

(* src: mmap_file.hpp 1025-1027 FixBuffer::Writer::add_write_len *)
definition fw_add_write_len :: "nat \<Rightarrow> fix_writer \<Rightarrow> os \<Rightarrow> os option" where
  "fw_add_write_len len w os = do { m \<leftarrow> fw_meta w; wl \<leftarrow> get64 m 1 os; put64 m 1 (w64 (wl + len)) os }"

(* src: mmap_file.hpp 1029-1041 FixBuffer::Writer::finished_write *)
definition fw_finished_write :: "fix_writer \<Rightarrow> os \<Rightarrow> (fix_writer \<times> os) option" where
  "fw_finished_write w os =
     (case fw_meta w of
        None \<Rightarrow> Some (fw_close w, os)
      | Some m \<Rightarrow>
          do { os1 \<leftarrow> poke m 0 [1] os;
               wl \<leftarrow> get64 m 1 os1;
               os2 \<leftarrow> put64 m 9 (w64 (wl + 17)) os1;
               let os3 = (case sys_truncate (fw_fd w) (w64 (wl + 17)) os2 of None \<Rightarrow> os2 | Some os3 \<Rightarrow> os3);
               Some (fw_close w, os3) })"

section \<open>Reader\<close>

(* src: mmap_file.hpp 1199-1210 FixBuffer::Reader *)
record fix_reader =
  fr_can_change :: bool
  fr_fd :: fd
  fr_file_size :: nat
  fr_addr :: "mapping option"
  fr_meta :: "mapping option"
  fr_data :: "(mapping \<times> nat) option"

(* src: mmap_file.hpp 1112-1112 FixBuffer::Reader::Reader *)
definition new_fix_reader :: "bool \<Rightarrow> fix_reader" where
  "new_fix_reader can_change = \<lparr>fr_can_change = can_change, fr_fd = None, fr_file_size = 0, fr_addr = None,
     fr_meta = None, fr_data = None\<rparr>"

(* src: mmap_file.hpp 1178-1197 FixBuffer::Reader::open_impl *)
definition fr_open_impl :: "fix_reader \<Rightarrow> os \<Rightarrow> mm_error \<times> fix_reader" where
  "fr_open_impl r os =
     (case file_size (fr_fd r) os of
        None \<Rightarrow> (E_open_fail, r)
      | Some sz \<Rightarrow>
          if sz < fr_file_size r then (E_open_fail, r)
          else (case sys_map (fr_fd r) (fr_can_change r) 0 (fr_file_size r) os of
                  None \<Rightarrow> (E_mmap_fail, r\<lparr>fr_addr := None\<rparr>)
                | Some m \<Rightarrow> (E_ok, r\<lparr>fr_addr := Some m, fr_meta := Some m,
                    fr_data := (if 17 \<le> fr_file_size r then Some (m, 17) else fr_data r)\<rparr>)))"

(* src: mmap_file.hpp 1115-1150 FixBuffer::Reader::open, FixBuffer::Reader::shm_open *)
definition fr_open :: "file_name \<Rightarrow> fix_reader \<Rightarrow> os \<Rightarrow> (mm_error \<times> fix_reader \<times> os) option" where
  "fr_open name r os =
     do { (e, mp, os1) \<leftarrow> mapper_open (replicate 17 0) name new_mapper os;
          if e \<noteq> E_ok then Some (e, r, os1)
          else do { m \<leftarrow> mapper_get mp;
                    wl \<leftarrow> get64 m 1 os1;
                    (let (e2, r2) = fr_open_impl (r\<lparr>fr_file_size := w64 (17 + wl),
                       fr_fd := sys_open name (fr_can_change r) os1\<rparr>) os1 in Some (e2, r2, os1)) } }"

(* src: mmap_file.hpp 1152-1154 FixBuffer::Reader::get_data *)
definition fr_get_data :: "fix_reader \<Rightarrow> (mapping \<times> nat) option" where
  "fr_get_data r = fr_data r"

(* src: mmap_file.hpp 1156-1158 FixBuffer::Reader::get_length *)
definition fr_get_length :: "fix_reader \<Rightarrow> os \<Rightarrow> nat option" where
  "fr_get_length r os = do { m \<leftarrow> fr_meta r; get64 m 1 os }"

(* src: mmap_file.hpp 1160-1162 FixBuffer::Reader::finished *)
definition fr_finished :: "fix_reader \<Rightarrow> os \<Rightarrow> bool option" where
  "fr_finished r os = do { m \<leftarrow> fr_meta r; b \<leftarrow> peek m 0 1 os; Some (b \<noteq> [0]) }"

(* src: mmap_file.hpp 1164-1175 FixBuffer::Reader::close *)
definition fr_close :: "fix_reader \<Rightarrow> fix_reader" where
  "fr_close r = r\<lparr>fr_addr := None, fr_meta := None, fr_data := None, fr_fd := None\<rparr>"

text \<open>What a client reads: the bytes at get_data, as many as get_length says.\<close>

definition fr_contents :: "fix_reader \<Rightarrow> os \<Rightarrow> bytes option" where
  "fr_contents r os = do { (m, i) \<leftarrow> fr_get_data r; n \<leftarrow> fr_get_length r os; peek m i n os }"

section \<open>What an open writer holds\<close>

definition fix_file :: "u8 \<Rightarrow> bytes \<Rightarrow> bytes \<Rightarrow> bool" where
  "fix_file fin data f \<longleftrightarrow> 17 + length data \<le> length f \<and> part 0 1 f = [fin] \<and> field 1 f = length data \<and>
     part 17 (length data) f = data"

definition fix_holds :: "fix_writer \<Rightarrow> os \<Rightarrow> nat \<Rightarrow> nat \<Rightarrow> bytes \<Rightarrow> bool" where
  "fix_holds w os i n data \<longleftrightarrow> os_fine os \<and> all_calls_ok os \<and> fw_fd w = Some (i, True) \<and> fw_meta w = Some (whole i n) \<and>
     length (os_file os i) = n \<and> n < 2 ^ 62 \<and> field 9 (os_file os i) = n \<and> fix_file 0 data (os_file os i)"

lemma fix_numbers:
  assumes "fix_holds w os i n data"
  shows "get64 (whole i n) 1 os = Some (length data)" "get64 (whole i n) 9 os = Some n"
  using assms by (simp_all add: get64_whole fix_holds_def fix_file_def)

lemma fix_room:
  assumes h: "fix_holds w os i n xs"
  shows "fw_check_res_space len w os = Some (len \<le> n - 17 - length xs)"
proof -
  have "17 + length xs \<le> n" "n < 2 ^ 62" "fw_meta w = Some (whole i n)"
    using h by (auto simp: fix_holds_def fix_file_def)
  then show ?thesis using fix_numbers [OF h] by (simp add: fw_check_res_space_def)
qed

lemma fix_file_append:
  assumes f: "fix_file fin xs f" and room: "17 + length xs + length ys \<le> length f" and b: "length f < 2 ^ 64"
  defines "g \<equiv> put_at 1 (le64 (length xs + length ys)) (put_at (17 + length xs) ys f)"
  shows "fix_file fin (xs @ ys) g" "length g = length f" "field 9 g = field 9 f"
proof -
  let ?h = "put_at (17 + length xs) ys f"
  have lh: "length ?h = length f" using room by simp
  show lg: "length g = length f" using room by (simp add: g_def)
  show "field 9 g = field 9 f" using room by (simp add: g_def field_put_other)
  have "part 17 (length xs + length ys) ?h = part 17 (length xs) f @ ys"
    using part_put_extend [of 17 "17 + length xs" ys f] room by simp
  then have "part 17 (length xs + length ys) g = xs @ ys"
    using f room by (simp add: g_def part_put_other fix_file_def)
  moreover have "field 1 g = length xs + length ys" using room b by (simp add: g_def field_put_same)
  moreover have "part 0 1 g = [fin]"
    using f room part_put_other [of 1 "le64 (length xs + length ys)" ?h 0 1] part_put_other [of "17 + length xs" ys f 0 1]
    by (simp add: g_def fix_file_def)
  ultimately show "fix_file fin (xs @ ys) g" using room lg by (simp add: fix_file_def)
qed

lemma fw_write_result:
  assumes h: "fix_holds w os i n xs"
  shows "if 17 + length xs + length ys \<le> n
    then \<exists>os'. fw_write ys w os = Some (E_ok, Some (length xs), os') \<and> fix_holds w os' i n (xs @ ys) \<and> same_names os os'
    else fw_write ys w os = Some (E_free_space_fail, None, os)"
proof -
  let ?f = "os_file os i"
  have m: "fw_meta w = Some (whole i n)" and f: "fix_file 0 xs ?f" "length ?f = n" "n < 2 ^ 62" "17 + length xs \<le> n"
    using h by (auto simp: fix_holds_def fix_file_def)
  show ?thesis
  proof (cases "17 + length xs + length ys \<le> n")
    case False
    then have "\<not> length ys \<le> n - 17 - length xs" using f(4) by linarith
    then show ?thesis using False by (simp add: fw_write_def fix_room [OF h])
  next
    case True
    define os1 where "os1 = os\<lparr>os_file := (os_file os)(i := put_at (17 + length xs) ys ?f)\<rparr>"
    define os2 where "os2 = os\<lparr>os_file := (os_file os)
      (i := put_at 1 (le64 (length xs + length ys)) (put_at (17 + length xs) ys ?f))\<rparr>"
    have "poke (whole i n) (17 + length xs) ys os = Some os1"
      unfolding os1_def using True f by (intro poke_whole) simp_all
    moreover have "get64 (whole i n) 1 os1 = Some (length xs)"
      using True f by (subst get64_whole) (simp_all add: field_put_other fix_file_def os1_def)
    moreover have "put64 (whole i n) 1 (length xs + length ys) os1 = Some os2"
      using True f by (subst put64_whole) (simp_all add: os1_def os2_def)
    ultimately have "fw_write ys w os = Some (E_ok, Some (length xs), os2)"
      using True f m fix_numbers [OF h] by (simp add: fw_write_def fix_room [OF h])
    moreover have "fix_holds w os2 i n (xs @ ys)"
      using h f True fix_file_append [OF f(1), of ys]
      by (simp add: fix_holds_def os2_def os_fine_def all_calls_ok_def)
    ultimately show ?thesis using True by (simp add: os2_def same_names_def)
  qed
qed

text \<open>A new file: its length is what was asked for, cut to whole pages, and at least one page.\<close>

definition fix_length :: "os \<Rightarrow> nat \<Rightarrow> nat" where
  "fix_length os bsize = page_floor os (max (17 + bsize) (os_page os))"

lemma fw_open_new:
  assumes os: "os_fine os" "all_calls_ok os" "os_dir os name = None" "17 \<le> os_page os" and b: "bsize < 2 ^ 61"
  defines "n \<equiv> fix_length os bsize"
  shows "\<exists>w os'. fw_open name bsize is_append new_fix_writer os = Some (E_ok, w, os') \<and>
    fix_holds w os' (os_new os) n [] \<and> os_page os' = os_page os \<and> os_dir os' = (os_dir os)(name \<mapsto> os_new os)"
    and "os_page os \<le> n" "n \<le> max (17 + bsize) (os_page os)"
proof -
  let ?i = "os_new os"
  let ?os1 = "create_file name os"
  obtain k where k: "os_page os = 2 ^ k" "k < 32" using os(1) by (auto simp: os_fine_def)
  have p32: "os_page os < 2 ^ 32" unfolding k(1) by (rule power_strict_increasing) (use k(2) in simp_all)
  have mx: "max (17 + bsize) (os_page os) < 2 ^ 62" using b p32 by simp
  have nle: "n \<le> max (17 + bsize) (os_page os)" using page_floor_le [OF os(1)] mx by (simp add: n_def fix_length_def)
  show "n \<le> max (17 + bsize) (os_page os)" by (rule nle)
  show np: "os_page os \<le> n"
  proof -
    let ?x = "max (17 + bsize) (os_page os)"
    have "n = ?x div os_page os * os_page os"
      using page_floor_eq [OF os(1), of ?x] mx by (simp add: n_def fix_length_def minus_mod_eq_div_mult)
    moreover have "1 \<le> ?x div os_page os" using page_pos [OF os(1)] by (simp add: less_eq_div_iff_mult_less_eq)
    ultimately show ?thesis by simp
  qed
  have n: "17 \<le> n" using np os(4) by simp
  have n62: "n < 2 ^ 62" using nle mx by (rule le_less_trans)
  have o: "open_write_file name 0 os = (E_ok, Some (?i, True), True, ?os1)"
    using os by (simp add: open_write_file_def sys_open_excl_def all_calls_ok_def)
  have fine: "os_fine ?os1" "all_calls_ok ?os1" using os by (simp_all add: os_fine_def all_calls_ok_def create_file_def)
  have pf: "page_floor ?os1 (max (17 + bsize) (os_page ?os1)) = n"
    by (simp add: n_def fix_length_def page_floor_def create_file_def)
  define os2 where "os2 = ?os1\<lparr>os_file := (os_file ?os1)(?i := resize n [])\<rparr>"
  have t: "sys_truncate (Some (?i, True)) n ?os1 = Some os2"
    using fine(2) n62 by (simp add: sys_truncate_def all_calls_ok_def os2_def create_file_def)
  have m: "sys_map (Some (?i, True)) True 0 n os2 = Some (whole ?i n)"
    using fine(2) n by (intro map_whole) (simp_all add: all_calls_ok_def os2_def)
  define f3 where "f3 = put_at 0 (fix_meta False 0 n) (resize n [])"
  define os3 where "os3 = os2\<lparr>os_file := (os_file os2)(?i := f3)\<rparr>"
  define f4 where "f4 = put_at 0 [0] f3"
  define os4 where "os4 = os3\<lparr>os_file := (os_file os3)(?i := f4)\<rparr>"
  have lm: "length (fix_meta False 0 n) = 17" by (simp add: fix_meta_def)
  have l3: "length f3 = n" using n lm by (simp add: f3_def)
  have p1: "poke (whole ?i n) 0 (fix_meta False 0 n) os2 = Some os3"
    using n lm by (subst poke_whole) (simp_all add: os2_def os3_def f3_def)
  have p2: "poke (whole ?i n) 0 [0] os3 = Some os4"
    using n l3 by (subst poke_whole) (simp_all add: os3_def os4_def f4_def)
  let ?w = "\<lparr>fw_fd = Some (?i, True), fw_meta = Some (whole ?i n), fw_name = name\<rparr>"
  have "fw_open name bsize is_append new_fix_writer os = Some (E_ok, ?w, os4)"
    using b pf t m p1 p2 by (simp add: fw_open_def o fw_open_impl_def new_fix_writer_def Let_def)
  moreover have "fix_holds ?w os4 ?i n []"
  proof -
    have "part 1 8 f3 = le64 0" "part 9 8 f3 = le64 n" by (simp_all add: f3_def put_at_def fix_meta_def part_def)
    then have "field 1 f4 = 0" "field 9 f4 = n"
      using n n62 l3 by (simp_all add: f4_def field_put_other) (simp_all add: field_def)
    moreover have "part 0 1 f4 = [0]" by (simp add: f4_def put_at_def part_def)
    moreover have "length f4 = n" using l3 n by (simp add: f4_def)
    ultimately show ?thesis using fine n n62
      by (simp add: fix_holds_def fix_file_def os4_def os3_def os2_def os_fine_def all_calls_ok_def)
  qed
  moreover have "os_page os4 = os_page os" "os_dir os4 = (os_dir os)(name \<mapsto> ?i)"
    by (simp_all add: os4_def os3_def os2_def create_file_def)
  ultimately show "\<exists>w os'. fw_open name bsize is_append new_fix_writer os = Some (E_ok, w, os') \<and>
      fix_holds w os' ?i n [] \<and> os_page os' = os_page os \<and> os_dir os' = (os_dir os)(name \<mapsto> ?i)" by blast
qed

lemma fw_finished_holds:
  assumes h: "fix_holds w os i n xs"
  shows "\<exists>os'. fw_finished_write w os = Some (fw_close w, os') \<and> fix_file 1 xs (os_file os' i) \<and>
    length (os_file os' i) = 17 + length xs \<and> field 9 (os_file os' i) = 17 + length xs \<and> same_names os os'"
proof -
  let ?f = "os_file os i"
  have hs: "fix_file 0 xs ?f" "length ?f = n" "n < 2 ^ 62" "fw_meta w = Some (whole i n)" "fw_fd w = Some (i, True)"
    "all_calls_ok os" using h by (simp_all add: fix_holds_def)
  have l: "17 + length xs \<le> n" using hs(1,2) by (simp add: fix_file_def)
  define f1 where "f1 = put_at 0 [1] ?f"
  define os1 where "os1 = os\<lparr>os_file := (os_file os)(i := f1)\<rparr>"
  have l1: "length f1 = n" using l hs(2) by (simp add: f1_def)
  have p1: "poke (whole i n) 0 [1] os = Some os1"
    using l hs(2) by (subst poke_whole) (simp_all add: os1_def f1_def)
  have g: "get64 (whole i n) 1 os1 = Some (length xs)"
    using l l1 hs by (subst get64_whole) (simp_all add: os1_def f1_def field_put_other fix_file_def)
  define f2 where "f2 = put_at 9 (le64 (length xs + 17)) f1"
  define os2 where "os2 = os1\<lparr>os_file := (os_file os1)(i := f2)\<rparr>"
  have l2: "length f2 = n" using l l1 by (simp add: f2_def)
  have p2: "put64 (whole i n) 9 (length xs + 17) os1 = Some os2"
    using l l1 by (subst put64_whole) (simp_all add: os1_def os2_def f2_def)
  define f3 where "f3 = resize (length xs + 17) f2"
  define os3 where "os3 = os2\<lparr>os_file := (os_file os2)(i := f3)\<rparr>"
  have t: "sys_truncate (fw_fd w) (length xs + 17) os2 = Some os3"
    using hs l by (simp add: sys_truncate_def all_calls_ok_def os1_def os2_def os3_def f3_def)
  have "fw_finished_write w os = Some (fw_close w, os3)"
    using hs l p1 g p2 t by (simp add: fw_finished_write_def)
  moreover have "fix_file 1 xs f3" "length f3 = 17 + length xs" "field 9 f3 = 17 + length xs"
  proof -
    show "length f3 = 17 + length xs" by (simp add: f3_def)
    show "field 9 f3 = 17 + length xs" using l l1 l2 hs(3) by (simp add: f3_def field_resize f2_def field_put_same)
    have "part 17 (length xs) f3 = part 17 (length xs) ?f"
      using l l1 l2 hs(2) by (simp add: f3_def part_resize) (simp add: f2_def f1_def part_put_other)
    moreover have "field 1 f3 = field 1 ?f"
      using l l1 l2 hs(2) by (simp add: f3_def field_resize) (simp add: f2_def f1_def field_put_other)
    moreover have "part 0 1 f3 = [1]"
    proof -
      have "part 0 1 f3 = part 0 1 f2" using l2 l by (simp add: f3_def part_resize)
      also have "\<dots> = part 0 1 f1" using l l1 by (simp add: f2_def part_put_other)
      also have "\<dots> = [1]" by (simp add: f1_def put_at_def part_def)
      finally show ?thesis .
    qed
    ultimately show "fix_file 1 xs f3" using hs(1) by (simp add: fix_file_def f3_def)
  qed
  ultimately show ?thesis by (simp add: os3_def os2_def os1_def same_names_def)
qed

section \<open>Writing and reading\<close>

fun fw_writes :: "bytes list \<Rightarrow> fix_writer \<Rightarrow> os \<Rightarrow> (mm_error list \<times> os) option" where
  "fw_writes [] w os = Some ([], os)"
| "fw_writes (y # ys) w os =
     do { (e, start, os1) \<leftarrow> fw_write y w os; (es, os2) \<leftarrow> fw_writes ys w os1; Some (e # es, os2) }"

text \<open>What a buffer of n bytes takes of the texts offered: each as a whole or not at all.\<close>

fun fix_taken :: "nat \<Rightarrow> bytes \<Rightarrow> bytes list \<Rightarrow> bytes" where
  "fix_taken n xs [] = xs"
| "fix_taken n xs (y # ys) = (if 17 + length xs + length y \<le> n then fix_taken n (xs @ y) ys else fix_taken n xs ys)"

fun fix_errors :: "nat \<Rightarrow> bytes \<Rightarrow> bytes list \<Rightarrow> mm_error list" where
  "fix_errors n xs [] = []"
| "fix_errors n xs (y # ys) =
     (if 17 + length xs + length y \<le> n then E_ok # fix_errors n (xs @ y) ys
      else E_free_space_fail # fix_errors n xs ys)"

lemma fw_writes_result:
  assumes "fix_holds w os i n xs"
  shows "\<exists>os'. fw_writes yss w os = Some (fix_errors n xs yss, os') \<and> fix_holds w os' i n (fix_taken n xs yss) \<and>
    same_names os os'"
  using assms
proof (induction yss arbitrary: os xs)
  case Nil
  then show ?case by simp
next
  case (Cons y yss)
  show ?case
  proof (cases "17 + length xs + length y \<le> n")
    case True
    then obtain os1 where w: "fw_write y w os = Some (E_ok, Some (length xs), os1)" "fix_holds w os1 i n (xs @ y)"
      "same_names os os1" using fw_write_result [OF Cons.prems, of y] by auto
    obtain os' where "fw_writes yss w os1 = Some (fix_errors n (xs @ y) yss, os')"
      "fix_holds w os' i n (fix_taken n (xs @ y) yss)" "same_names os1 os'" using Cons.IH [OF w(2)] by blast
    then show ?thesis using w True same_names_trans by auto
  next
    case False
    then show ?thesis using fw_write_result [OF Cons.prems, of y] Cons.IH [OF Cons.prems] by auto
  qed
qed

lemma fr_open_file:
  assumes os: "all_calls_ok os" "os_dir os name = Some i" "fix_file 1 data (os_file os i)"
    "length (os_file os i) = 17 + length data" "17 + length data < 2 ^ 62"
  shows "\<exists>r. fr_open name (new_fix_reader cc) os = Some (E_ok, r, os) \<and> fr_contents r os = Some data \<and>
    fr_finished r os = Some True"
proof -
  let ?f = "os_file os i"
  have f: "part 0 1 ?f = [1]" "field 1 ?f = length data" "part 17 (length data) ?f = data"
    using os(3) by (simp_all add: fix_file_def)
  have sm: "sys_map (Some (i, True)) True 0 17 os = Some (whole i 17)"
    using os(1) by (intro map_whole) (simp_all add: all_calls_ok_def)
  have g: "get64 (whole i 17) 1 os = Some (length data)" using os(4) f(2) by (subst get64_whole) simp_all
  define m where "m = \<lparr>mp_file = i, mp_off = 0, mp_len = 17 + length data, mp_write = cc\<rparr>"
  have m: "sys_map (Some (i, cc)) cc 0 (17 + length data) os = Some m"
    using os(1) by (simp add: sys_map_def all_calls_ok_def m_def)
  define r where "r = \<lparr>fr_can_change = cc, fr_fd = Some (i, cc), fr_file_size = 17 + length data, fr_addr = Some m,
    fr_meta = Some m, fr_data = Some (m, 17)\<rparr>"
  have "fr_open name (new_fix_reader cc) os = Some (E_ok, r, os)"
    using os sm g m
    by (simp add: fr_open_def mapper_open_def mapper_open_impl_def mapper_get_def new_mapper_def sys_open_excl_def
      sys_open_def all_calls_ok_def new_fix_reader_def fr_open_impl_def file_size_def r_def)
  moreover have "get64 m 1 os = Some (length data)" using os(4) f(2) by (simp add: get64_def m_def peek_inside field_def)
  moreover have "peek m 17 (length data) os = Some data" using os(4) f(3) by (simp add: m_def peek_inside)
  moreover have "peek m 0 1 os = Some [1]" using os(4) f(1) by (subst peek_inside) (simp_all add: m_def)
  ultimately show ?thesis
    by (simp add: fr_contents_def fr_get_data_def fr_get_length_def fr_finished_def r_def)
qed

text \<open>C11: What goes into a FixBuffer comes out of it. A writer opens a new file with room for bsize bytes and is
  offered any texts; each write takes the whole text and returns ok when it fits behind what was taken
  before, and otherwise changes nothing and returns free_space_fail, and none touches memory outside the
  mapping. After finished_write a reader finds exactly the texts taken, in order, and the flag set. The
  room is what was asked for cut down to whole pages, so it can be less.\<close>

theorem fix_buffer_roundtrip:
  assumes "os_fine os" "all_calls_ok os" "os_dir os name = None" "17 \<le> os_page os" "bsize < 2 ^ 61"
  shows "\<exists>w os1 os2 os3 r. fw_open name bsize True new_fix_writer os = Some (E_ok, w, os1) \<and>
    fw_writes yss w os1 = Some (fix_errors (fix_length os bsize) [] yss, os2) \<and>
    fw_finished_write w os2 = Some (fw_close w, os3) \<and>
    fr_open name (new_fix_reader cc) os3 = Some (E_ok, r, os3) \<and>
    fr_contents r os3 = Some (fix_taken (fix_length os bsize) [] yss) \<and> fr_finished r os3 = Some True \<and>
    fix_length os bsize \<le> max (17 + bsize) (os_page os)"
proof -
  let ?n = "fix_length os bsize"
  let ?data = "fix_taken ?n [] yss"
  obtain w os1 where o: "fw_open name bsize True new_fix_writer os = Some (E_ok, w, os1)"
    "fix_holds w os1 (os_new os) ?n []" "os_dir os1 = (os_dir os)(name \<mapsto> os_new os)"
    using fw_open_new(1) [OF assms] by blast
  obtain os2 where w: "fw_writes yss w os1 = Some (fix_errors ?n [] yss, os2)" "fix_holds w os2 (os_new os) ?n ?data"
    "same_names os1 os2" using fw_writes_result [OF o(2)] by blast
  obtain os3 where c: "fw_finished_write w os2 = Some (fw_close w, os3)" "fix_file 1 ?data (os_file os3 (os_new os))"
    "length (os_file os3 (os_new os)) = 17 + length ?data" "same_names os2 os3"
    using fw_finished_holds [OF w(2)] by blast
  have "17 + length ?data < 2 ^ 62" using w(2) by (auto simp: fix_holds_def fix_file_def)
  moreover have "all_calls_ok os3" "os_dir os3 name = Some (os_new os)"
    using w(2,3) c(4) o(3) by (simp_all add: fix_holds_def all_calls_ok_def same_names_def)
  ultimately obtain r where "fr_open name (new_fix_reader cc) os3 = Some (E_ok, r, os3)"
    "fr_contents r os3 = Some ?data" "fr_finished r os3 = Some True"
    using fr_open_file [of os3 name "os_new os" ?data cc] c(2,3) by blast
  then show ?thesis using o(1) w(1) c(1) fw_open_new(3) [OF assms] by blast
qed

definition blank_os :: os where
  "blank_os = \<lparr>os_page = 32, os_ok = (\<lambda>c. True), os_dir = (\<lambda>n. None), os_file = (\<lambda>i. []), os_new = 0\<rparr>"

theorem fix_buffer_roundtrip_witness:
  "\<exists>w os1 os2 os3 r. fw_open (True, ''b'') 40 True new_fix_writer blank_os = Some (E_ok, w, os1) \<and>
    fw_writes [[1, 2, 3], replicate 20 4, [5, 6]] w os1 = Some ([E_ok, E_free_space_fail, E_ok], os2) \<and>
    fw_finished_write w os2 = Some (fw_close w, os3) \<and>
    fr_open (True, ''b'') (new_fix_reader False) os3 = Some (E_ok, r, os3) \<and>
    fr_contents r os3 = Some [1, 2, 3, 5, 6]"
proof -
  have f: "os_fine blank_os" by (auto simp: blank_os_def os_fine_def intro: exI [of _ 5])
  have "all_calls_ok blank_os" "os_dir blank_os (True, ''b'') = None" "17 \<le> os_page blank_os" "(40::nat) < 2 ^ 61"
    by (simp_all add: blank_os_def all_calls_ok_def)
  moreover have "fix_length blank_os 40 = 32" using page_floor_eq [OF f, of 57] by (simp add: fix_length_def blank_os_def)
  ultimately show ?thesis
    using fix_buffer_roundtrip [OF f, of "(True, ''b'')" 40 "[[1, 2, 3], replicate 20 4, [5, 6]]" False] by auto
qed

end
