(* ===== verification/Mmap_Shm.thy ===== *)
theory Mmap_Shm
  imports Posix_Files
begin

text \<open>
  MMapFile::ShmReaderWriter (mmap_file.hpp): one shared memory object mapped as a whole. A call that
  throws gives Shm_throw; None is undefined behaviour.
\<close>

datatype shm_result = Shm_bool bool | Shm_throw

(* src: mmap_file.hpp 1514-1530 ShmReaderWriter *)
record shm_rw =
  sh_writer :: bool
  sh_name :: string
  sh_size :: nat
  sh_exit_unlink :: bool
  sh_fd :: fd
  sh_ptr :: "mapping option"

text \<open>The type is READER or WRITER; the protection of the mapping follows from it.\<close>

(* src: mmap_file.hpp 1352-1370 ShmReaderWriter::ShmReaderWriter *)
definition new_shm_rw :: "bool \<Rightarrow> bool \<Rightarrow> shm_rw" where
  "new_shm_rw writer exit_unlink =
     \<lparr>sh_writer = writer, sh_name = '''', sh_size = 0, sh_exit_unlink = exit_unlink, sh_fd = None, sh_ptr = None\<rparr>"

(* src: mmap_file.hpp 1504-1511 ShmReaderWriter::get_shared_memory_size *)
definition shm_existing_size :: "fd \<Rightarrow> os \<Rightarrow> nat" where
  "shm_existing_size fd os = (case file_size fd os of None \<Rightarrow> 0 | Some n \<Rightarrow> n)"

text \<open>Creating the object with its first contents: the descriptor, None for failure.\<close>

(* src: mmap_file.hpp 1388-1417 ShmReaderWriter::init *)
definition shm_create :: "string \<Rightarrow> nat \<Rightarrow> bytes option \<Rightarrow> os \<Rightarrow> (fd \<times> os) option" where
  "shm_create name sz dflt os =
     (let (fd, os1) = sys_open_create (True, name) os in
      if fd = None then Some (None, os1)
      else case sys_truncate fd sz os1 of
             None \<Rightarrow> Some (None, os1)
           | Some os2 \<Rightarrow>
               (case sys_map fd True 0 sz os2 of
                  None \<Rightarrow> Some (None, os2)
                | Some m \<Rightarrow>
                    (case dflt of
                       None \<Rightarrow> map_option (Pair fd) (poke m 0 (replicate sz 0) os2)
                     | Some bs \<Rightarrow> if length bs < sz then None else map_option (Pair fd) (poke m 0 (take sz bs) os2))))"

(* src: mmap_file.hpp 1385-1445 ShmReaderWriter::init *)
definition shm_init :: "string \<Rightarrow> bool \<Rightarrow> nat \<Rightarrow> bytes option \<Rightarrow> shm_rw \<Rightarrow> os \<Rightarrow> (bool \<times> shm_rw \<times> os) option" where
  "shm_init name force_create sz dflt s os =
     (let map_it = (\<lambda>fd os1.
        (let n = (if sz = 0 then shm_existing_size fd os1 else sz);
             s1 = s\<lparr>sh_fd := fd, sh_name := name, sh_size := n\<rparr> in
         case sys_map fd (sh_writer s) 0 n os1 of
           None \<Rightarrow> Some (False, s1\<lparr>sh_ptr := None, sh_fd := None\<rparr>, os1)
         | Some m \<Rightarrow> Some (True, s1\<lparr>sh_ptr := Some m\<rparr>, os1))) in
      case sys_open (True, name) (sh_writer s) os of
        None \<Rightarrow>
          if \<not> force_create \<or> sz = 0 then Some (False, s\<lparr>sh_fd := None\<rparr>, os)
          else (case shm_create name sz dflt os of
                  None \<Rightarrow> None
                | Some (None, os1) \<Rightarrow> Some (False, s\<lparr>sh_fd := None\<rparr>, os1)
                | Some (Some f, os1) \<Rightarrow> map_it (Some f) os1)
      | Some f \<Rightarrow>
          if 0 < sz \<and> sz \<noteq> shm_existing_size (Some f) os
          then (case sys_truncate (Some f) sz os of
                  None \<Rightarrow> Some (False, s\<lparr>sh_fd := None\<rparr>, os)
                | Some os1 \<Rightarrow> map_it (Some f) os1)
          else map_it (Some f) os)"

(* src: mmap_file.hpp 1449-1471 ShmReaderWriter::resize *)
definition shm_resize :: "nat \<Rightarrow> shm_rw \<Rightarrow> os \<Rightarrow> shm_result \<times> shm_rw \<times> os" where
  "shm_resize sz s os =
     (let n = (if sz = 0 then shm_existing_size (sh_fd s) os else sz) in
      if n = sh_size s then (Shm_bool True, s, os)
      else case sys_truncate (sh_fd s) n os of
             None \<Rightarrow> (Shm_bool False, s, os)
           | Some os1 \<Rightarrow>
               if \<not> os_ok os1 Sys_unmap then (Shm_bool False, s, os1)
               else (case sys_map (sh_fd s) (sh_writer s) 0 n os1 of
                       None \<Rightarrow> (Shm_throw, s\<lparr>sh_ptr := None\<rparr>, os1)
                     | Some m \<Rightarrow> (Shm_bool True, s\<lparr>sh_ptr := Some m, sh_size := n\<rparr>, os1)))"

(* src: mmap_file.hpp 1473-1478 ShmReaderWriter::read *)
definition shm_read :: "shm_rw \<Rightarrow> mapping option" where
  "shm_read s = (if sh_fd s = None \<or> sh_ptr s = None then None else sh_ptr s)"

(* src: mmap_file.hpp 1480-1485 ShmReaderWriter::write *)
definition shm_write :: "bytes \<Rightarrow> shm_rw \<Rightarrow> os \<Rightarrow> (bool \<times> os) option" where
  "shm_write data s os =
     (if \<not> sh_writer s \<or> sh_fd s = None \<or> sh_size s < length data then Some (False, os)
      else (case sh_ptr s of None \<Rightarrow> Some (False, os) | Some m \<Rightarrow> map_option (Pair True) (poke m 0 data os)))"

(* src: mmap_file.hpp 1487-1490 ShmReaderWriter::unlink *)
definition shm_unlink_name :: "shm_rw \<Rightarrow> os \<Rightarrow> os" where
  "shm_unlink_name s os = (if sh_name s = '''' then os else sys_unlink (True, sh_name s) os)"

(* src: mmap_file.hpp 1492-1501 ShmReaderWriter::close_and_unmap *)
definition shm_close_and_unmap :: "shm_rw \<Rightarrow> shm_rw" where
  "shm_close_and_unmap s = s\<lparr>sh_ptr := None, sh_fd := None\<rparr>"

(* src: mmap_file.hpp 1372-1377 ShmReaderWriter::~ShmReaderWriter *)
definition shm_destroy :: "shm_rw \<Rightarrow> os \<Rightarrow> os" where
  "shm_destroy s os =
     (let s1 = shm_close_and_unmap s in if sh_exit_unlink s1 then shm_unlink_name s1 os else os)"

section \<open>Facts\<close>

text \<open>The mapping of an initialised object covers the whole of it.\<close>

definition shm_mapped :: "shm_rw \<Rightarrow> os \<Rightarrow> nat \<Rightarrow> bool" where
  "shm_mapped s os i \<longleftrightarrow> (\<exists>w. sh_fd s = Some (i, w)) \<and> sh_size s = length (os_file os i) \<and>
     sh_ptr s = Some \<lparr>mp_file = i, mp_off = 0, mp_len = length (os_file os i), mp_write = sh_writer s\<rparr>"

text \<open>What a writer writes another mapping of the object shows; what does not fit is refused.\<close>

lemma shm_write_seen:
  assumes "shm_mapped s os i" "sh_writer s" "length data \<le> sh_size s"
    and "shm_mapped r os i"
  shows "\<exists>os' m. shm_write data s os = Some (True, os') \<and> shm_read r = Some m \<and>
    peek m 0 (length data) os' = Some data"
proof -
  let ?f = "os_file os i"
  let ?os' = "os\<lparr>os_file := (os_file os)(i := put_at 0 data ?f)\<rparr>"
  have d: "length data \<le> length ?f" using assms(1,3) by (simp add: shm_mapped_def)
  have "shm_write data s os = Some (True, ?os')"
    using assms d by (auto simp: shm_mapped_def shm_write_def poke_inside)
  moreover have "shm_read r = Some \<lparr>mp_file = i, mp_off = 0, mp_len = length ?f, mp_write = sh_writer r\<rparr>"
    using assms(4) by (auto simp: shm_mapped_def shm_read_def)
  moreover have "peek \<lparr>mp_file = i, mp_off = 0, mp_len = length ?f, mp_write = sh_writer r\<rparr> 0 (length data) ?os' = Some data"
    using d by (subst peek_inside) (simp_all add: part_put_same)
  ultimately show ?thesis by blast
qed

lemma shm_write_refused: "\<not> sh_writer s \<or> sh_size s < length data \<Longrightarrow> shm_write data s os = Some (False, os)"
  by (auto simp: shm_write_def)

text \<open>A reader cannot change the size of the object: its descriptor is for reading only.\<close>

lemma shm_reader_resize:
  assumes "os_dir os (True, name) = Some i" "os_ok os Sys_open" "os_ok os Sys_stat" "\<not> sh_writer s"
    and "0 < sz" "sz \<noteq> length (os_file os i)"
  shows "shm_init name force sz dflt s os = Some (False, s\<lparr>sh_fd := None\<rparr>, os)"
  using assms by (simp add: shm_init_def sys_open_def shm_existing_size_def file_size_def sys_truncate_def Let_def)

end
