(* ===== verification/Io_Context_Pool.thy ===== *)
theory Io_Context_Pool
  imports Prelude
begin

text \<open>
  AsioContextPool and AsioSingleContextPool (io_context_pool.hpp, the half for boost 1.80 and later):
  contexts with the threads that run them. A context is a number. The library gives the contexts made
  so far and those that were stopped; a context kept busy by a work guard ends its threads' run only
  when it is stopped, and join_all waits for that. A pool has fewer threads than an int counts, and
  its calls come from threads that are not its own.
\<close>

section \<open>Contexts and their threads\<close>

text \<open>A thread runs a context, bound to a core or not.\<close>

type_synonym runner = "nat \<times> int option"

definition core_of :: "int list \<Rightarrow> nat \<Rightarrow> int option" where
  "core_of cores i = (if i < length cores then Some (cores ! i) else None)"

text \<open>The number of threads of a machine, for a pool whose size is not positive.\<close>

definition default_size :: "nat \<Rightarrow> int \<Rightarrow> int" where
  "default_size cpus n = (if n \<le> 0 then int cpus else n)"

section \<open>AsioContextPool\<close>

(* src: io_context_pool.hpp 510-518 AsioContextPool *)
record context_pool =
  cp_size :: int
  cp_next :: int
  cp_contexts :: "nat list"
  cp_guards :: "nat list"
  cp_threads :: "runner list"
  cp_bstart :: bool
  cp_cores :: "int list"
  cp_made :: nat
  cp_stopped :: "nat list"

text \<open>join_all returns when every thread's context was stopped.\<close>

definition cp_join_all :: "context_pool \<Rightarrow> context_pool option" where
  "cp_join_all p =
     (if (\<forall>(c, _) \<in> set (cp_threads p). c \<in> set (cp_stopped p)) then Some (p\<lparr>cp_threads := []\<rparr>) else None)"

(* src: io_context_pool.hpp 500-508 AsioContextPool::reset_sync *)
definition cp_reset_sync :: "context_pool \<Rightarrow> context_pool option" where
  "cp_reset_sync p =
     do { p \<leftarrow> cp_join_all (p\<lparr>cp_stopped := cp_stopped p @ cp_contexts p\<rparr>);
          Some (p\<lparr>cp_guards := [], cp_contexts := [], cp_next := 0\<rparr>) }"

(* src: io_context_pool.hpp 487-497 AsioContextPool::init *)
definition cp_add_context :: "nat \<Rightarrow> context_pool \<Rightarrow> context_pool" where
  "cp_add_context i p =
     (let c = cp_made p
      in p\<lparr>cp_made := c + 1, cp_contexts := cp_contexts p @ [c], cp_guards := cp_guards p @ [c],
           cp_threads := cp_threads p @ [(c, core_of (cp_cores p) i)]\<rparr>)"

(* src: io_context_pool.hpp 484-498 AsioContextPool::init *)
definition cp_init :: "int \<Rightarrow> context_pool \<Rightarrow> context_pool option" where
  "cp_init n p = do { p \<leftarrow> cp_reset_sync p; Some (fold cp_add_context [0..<nat n] p) }"

(* src: io_context_pool.hpp 391-397 AsioContextPool::start *)
definition cp_start :: "context_pool \<Rightarrow> context_pool option" where
  "cp_start p = (if cp_bstart p then Some p else cp_init (cp_size p) (p\<lparr>cp_bstart := True\<rparr>))"

(* src: io_context_pool.hpp 377-384 AsioContextPool::AsioContextPool *)
definition new_context_pool :: "nat \<Rightarrow> int \<Rightarrow> bool \<Rightarrow> int list \<Rightarrow> context_pool option" where
  "new_context_pool cpus n auto_start cores =
     (let p = \<lparr>cp_size = default_size cpus n, cp_next = 0, cp_contexts = [], cp_guards = [], cp_threads = [],
               cp_bstart = False, cp_cores = cores, cp_made = 0, cp_stopped = []\<rparr>
      in if auto_start then cp_start p else Some p)"

(* src: io_context_pool.hpp 399-413 AsioContextPool::start *)
definition cp_start_cores :: "nat \<Rightarrow> int \<Rightarrow> int list \<Rightarrow> context_pool \<Rightarrow> context_pool option" where
  "cp_start_cores cpus n cores p =
     (if cp_bstart p then Some p
      else let m = default_size cpus n
           in if m \<le> int (length cores)
              then cp_init m (p\<lparr>cp_bstart := True, cp_size := m, cp_cores := cores\<rparr>) else None)"

(* src: io_context_pool.hpp 415-429 AsioContextPool::restart *)
definition cp_restart_cores :: "nat \<Rightarrow> int list \<Rightarrow> int \<Rightarrow> context_pool \<Rightarrow> (bool \<times> context_pool) option" where
  "cp_restart_cores cpus cores n p =
     (let p1 = p\<lparr>cp_bstart := True\<rparr>; m = (if n = 0 then int cpus else n)
      in if m > int (length cores) then Some (False, p1)
         else do { p2 \<leftarrow> cp_init m (p1\<lparr>cp_size := m, cp_cores := cores\<rparr>); Some (True, p2) })"

(* src: io_context_pool.hpp 431-444 AsioContextPool::restart *)
definition cp_restart :: "nat \<Rightarrow> int \<Rightarrow> context_pool \<Rightarrow> (bool \<times> context_pool) option" where
  "cp_restart cpus n p =
     (let p1 = p\<lparr>cp_bstart := True\<rparr>; m = (if n = 0 then int cpus else n)
      in if cp_cores p1 \<noteq> [] \<and> m > int (length (cp_cores p1)) then Some (False, p1)
         else do { p2 \<leftarrow> cp_init m (p1\<lparr>cp_size := m\<rparr>); Some (True, p2) })"

text \<open>run starts the pool and waits; the result says whether the wait ends at once.\<close>

(* src: io_context_pool.hpp 447-450 AsioContextPool::run *)
definition cp_run :: "context_pool \<Rightarrow> (bool \<times> context_pool) option" where
  "cp_run p = do { p \<leftarrow> cp_start p;
                   Some (case cp_join_all p of None \<Rightarrow> (False, p) | Some p \<Rightarrow> (True, p)) }"

(* src: io_context_pool.hpp 453-459 AsioContextPool::stop *)
definition cp_stop :: "context_pool \<Rightarrow> context_pool option" where
  "cp_stop p = (if \<not> cp_bstart p then Some p else cp_reset_sync (p\<lparr>cp_bstart := False\<rparr>))"

(* src: io_context_pool.hpp 462-468 AsioContextPool::reset *)
definition cp_reset :: "context_pool \<Rightarrow> context_pool option" where
  "cp_reset p = (if \<not> cp_bstart p then Some p else cp_reset_sync (p\<lparr>cp_bstart := False\<rparr>))"

(* src: io_context_pool.hpp 471-476 AsioContextPool::get_io_context *)
definition cp_get_io_context :: "context_pool \<Rightarrow> (nat \<times> context_pool) option" where
  "cp_get_io_context p =
     (if 0 \<le> cp_next p \<and> cp_next p < int (length (cp_contexts p))
      then let result = cp_contexts p ! nat (cp_next p); n = cp_next p + 1
           in Some (result, p\<lparr>cp_next := (if n = cp_size p then 0 else n)\<rparr>)
      else None)"

section \<open>AsioSingleContextPool\<close>

(* src: io_context_pool.hpp 640-653 AsioSingleContextPool *)
record single_pool =
  sp_size :: int
  sp_context :: "nat option"
  sp_guard :: "nat option"
  sp_threads :: "runner list"
  sp_bstart :: bool
  sp_cores :: "int list"
  sp_made :: nat
  sp_stopped :: "nat list"

definition sp_join_all :: "single_pool \<Rightarrow> single_pool option" where
  "sp_join_all p =
     (if (\<forall>(c, _) \<in> set (sp_threads p). c \<in> set (sp_stopped p)) then Some (p\<lparr>sp_threads := []\<rparr>) else None)"

(* src: io_context_pool.hpp 627-638 AsioSingleContextPool::init *)
definition sp_init :: "int \<Rightarrow> single_pool \<Rightarrow> single_pool" where
  "sp_init n p =
     (let c = sp_made p
      in p\<lparr>sp_made := c + 1, sp_context := Some c, sp_guard := Some c,
           sp_threads := sp_threads p @ map (\<lambda>i. (c, core_of (sp_cores p) i)) [0..<nat n]\<rparr>)"

(* src: io_context_pool.hpp 541-547 AsioSingleContextPool::start *)
definition sp_start :: "single_pool \<Rightarrow> single_pool" where
  "sp_start p = (if sp_bstart p then p else sp_init (sp_size p) (p\<lparr>sp_bstart := True\<rparr>))"

(* src: io_context_pool.hpp 527-534 AsioSingleContextPool::AsioSingleContextPool *)
definition new_single_pool :: "nat \<Rightarrow> int \<Rightarrow> bool \<Rightarrow> int list \<Rightarrow> single_pool" where
  "new_single_pool cpus n auto_start cores =
     (let p = \<lparr>sp_size = default_size cpus n, sp_context = None, sp_guard = None, sp_threads = [],
               sp_bstart = False, sp_cores = cores, sp_made = 0, sp_stopped = []\<rparr>
      in if auto_start then sp_start p else p)"

(* src: io_context_pool.hpp 549-563 AsioSingleContextPool::start *)
definition sp_start_cores :: "nat \<Rightarrow> int \<Rightarrow> int list \<Rightarrow> single_pool \<Rightarrow> single_pool option" where
  "sp_start_cores cpus n cores p =
     (if sp_bstart p then Some p
      else let m = default_size cpus n
           in if m \<le> int (length cores)
              then Some (sp_init m (p\<lparr>sp_bstart := True, sp_size := m, sp_cores := cores\<rparr>)) else None)"

(* src: io_context_pool.hpp 603-614 AsioSingleContextPool::stop *)
definition sp_stop :: "single_pool \<Rightarrow> single_pool option" where
  "sp_stop p =
     (if \<not> sp_bstart p then Some p
      else let p1 = p\<lparr>sp_bstart := False,
                      sp_stopped := sp_stopped p @ (case sp_context p of None \<Rightarrow> [] | Some c \<Rightarrow> [c])\<rparr>
           in do { p2 \<leftarrow> sp_join_all p1; Some (p2\<lparr>sp_guard := None, sp_context := None\<rparr>) })"

(* src: io_context_pool.hpp 565-579 AsioSingleContextPool::restart *)
definition sp_restart_cores :: "nat \<Rightarrow> int list \<Rightarrow> int \<Rightarrow> single_pool \<Rightarrow> (bool \<times> single_pool) option" where
  "sp_restart_cores cpus cores n p =
     do { p1 \<leftarrow> sp_stop p;
          let m = (if n = 0 then int cpus else n);
          if m > int (length cores) then Some (False, p1)
          else Some (True, sp_start (p1\<lparr>sp_size := m, sp_cores := cores\<rparr>)) }"

(* src: io_context_pool.hpp 581-594 AsioSingleContextPool::restart *)
definition sp_restart :: "nat \<Rightarrow> int \<Rightarrow> single_pool \<Rightarrow> (bool \<times> single_pool) option" where
  "sp_restart cpus n p =
     do { p1 \<leftarrow> sp_stop p;
          let m = (if n = 0 then int cpus else n);
          if sp_cores p1 \<noteq> [] \<and> m > int (length (sp_cores p1)) then Some (False, p1)
          else Some (True, sp_start (p1\<lparr>sp_size := m\<rparr>)) }"

(* src: io_context_pool.hpp 597-600 AsioSingleContextPool::run *)
definition sp_run :: "single_pool \<Rightarrow> bool \<times> single_pool" where
  "sp_run p = (let p = sp_start p in case sp_join_all p of None \<Rightarrow> (False, p) | Some p \<Rightarrow> (True, p))"

(* src: io_context_pool.hpp 617-619 AsioSingleContextPool::get_io_context *)
definition sp_get_io_context :: "single_pool \<Rightarrow> nat option" where
  "sp_get_io_context p = sp_context p"

section \<open>What the calls do\<close>

definition runners :: "nat list \<Rightarrow> int list \<Rightarrow> runner list" where
  "runners cs cores = map (\<lambda>i. (cs ! i, core_of cores i)) [0..<length cs]"

lemma runners_upt: "runners [a..<a + n] cores = map (\<lambda>i. (a + i, core_of cores i)) [0..<n]"
  by (simp add: runners_def)

lemma runners_Nil [simp]: "runners [] cores = []" "runners cs cores = [] \<longleftrightarrow> cs = []"
  by (simp_all add: runners_def)

lemma fst_runners: "fst ` set (runners cs cores) = set cs"
  by (force simp: runners_def in_set_conv_nth image_iff)

definition cp_joinable :: "context_pool \<Rightarrow> bool" where
  "cp_joinable p \<longleftrightarrow> fst ` set (cp_threads p) \<subseteq> set (cp_contexts p)"

lemma reset_sync_result:
  "cp_joinable p \<Longrightarrow> cp_reset_sync p = Some (p\<lparr>cp_stopped := cp_stopped p @ cp_contexts p, cp_threads := [],
     cp_guards := [], cp_contexts := [], cp_next := 0\<rparr>)"
  by (force simp: cp_reset_sync_def cp_join_all_def cp_joinable_def)

lemma add_contexts:
  "fold cp_add_context [0..<n] p = p\<lparr>cp_made := cp_made p + n,
     cp_contexts := cp_contexts p @ [cp_made p..<cp_made p + n],
     cp_guards := cp_guards p @ [cp_made p..<cp_made p + n],
     cp_threads := cp_threads p @ runners [cp_made p..<cp_made p + n] (cp_cores p)\<rparr>"
  unfolding runners_upt by (induction n) (simp_all add: cp_add_context_def Let_def)

lemma init_result:
  "cp_joinable p \<Longrightarrow> cp_init n p = Some (p\<lparr>cp_stopped := cp_stopped p @ cp_contexts p,
     cp_threads := runners [cp_made p..<cp_made p + nat n] (cp_cores p),
     cp_guards := [cp_made p..<cp_made p + nat n], cp_contexts := [cp_made p..<cp_made p + nat n],
     cp_next := 0, cp_made := cp_made p + nat n\<rparr>)"
  by (simp add: cp_init_def reset_sync_result add_contexts)

text \<open>
  The state of a pool: without contexts, or with as many as its size, each with its guard and one
  thread, none of them stopped; the index of the next one is an index.
\<close>

definition cp_ok :: "context_pool \<Rightarrow> bool" where
  "cp_ok p \<longleftrightarrow> cp_guards p = cp_contexts p \<and> cp_threads p = runners (cp_contexts p) (cp_cores p) \<and>
     distinct (cp_contexts p) \<and> (\<forall>c \<in> set (cp_contexts p) \<union> set (cp_stopped p). c < cp_made p) \<and>
     set (cp_contexts p) \<inter> set (cp_stopped p) = {} \<and>
     (if cp_contexts p = [] then cp_next p = 0
      else cp_bstart p \<and> int (length (cp_contexts p)) = cp_size p \<and> 0 \<le> cp_next p \<and> cp_next p < cp_size p)"

lemma ok_joinable: "cp_ok p \<Longrightarrow> cp_joinable p"
  by (simp add: cp_ok_def cp_joinable_def fst_runners)

lemma joinable_upd [simp]:
  "cp_joinable (p\<lparr>cp_bstart := b\<rparr>) = cp_joinable p" "cp_joinable (p\<lparr>cp_size := n\<rparr>) = cp_joinable p"
  "cp_joinable (p\<lparr>cp_cores := cores\<rparr>) = cp_joinable p"
  by (simp_all add: cp_joinable_def)

text \<open>The part that stopping and starting need.\<close>

definition cp_fresh :: "context_pool \<Rightarrow> bool" where
  "cp_fresh p \<longleftrightarrow> cp_joinable p \<and> (\<forall>c \<in> set (cp_contexts p) \<union> set (cp_stopped p). c < cp_made p)"

lemma fresh_upd [simp]:
  "cp_fresh (p\<lparr>cp_bstart := b\<rparr>) = cp_fresh p" "cp_fresh (p\<lparr>cp_size := n\<rparr>) = cp_fresh p"
  "cp_fresh (p\<lparr>cp_cores := cores\<rparr>) = cp_fresh p"
  by (simp_all add: cp_fresh_def)

lemma ok_fresh: "cp_ok p \<Longrightarrow> cp_fresh p"
  using ok_joinable by (simp add: cp_fresh_def cp_ok_def)

lemma init_ok:
  assumes "cp_fresh p" "cp_bstart p" "cp_size p = n"
  shows "\<exists>p'. cp_init n p = Some p' \<and> cp_ok p' \<and> cp_bstart p' \<and> cp_size p' = n \<and> cp_cores p' = cp_cores p \<and>
    length (cp_contexts p') = nat n"
proof -
  have d: "\<And>c. c \<in> set (cp_contexts p) \<Longrightarrow> c < cp_made p" "\<And>c. c \<in> set (cp_stopped p) \<Longrightarrow> c < cp_made p"
    using assms(1) by (auto simp: cp_fresh_def)
  have j: "cp_joinable p" using assms(1) by (simp add: cp_fresh_def)
  show ?thesis unfolding init_result [OF j] using assms(2,3) by (auto simp: cp_ok_def dest!: d)
qed

lemma reset_sync_ok:
  assumes "cp_fresh p"
  shows "\<exists>p'. cp_reset_sync p = Some p' \<and> cp_ok p' \<and> cp_bstart p' = cp_bstart p \<and> cp_contexts p' = [] \<and>
    cp_threads p' = [] \<and> cp_size p' = cp_size p"
proof -
  have d: "\<And>c. c \<in> set (cp_contexts p) \<Longrightarrow> c < cp_made p" "\<And>c. c \<in> set (cp_stopped p) \<Longrightarrow> c < cp_made p"
    using assms by (auto simp: cp_fresh_def)
  have j: "cp_joinable p" using assms by (simp add: cp_fresh_def)
  show ?thesis unfolding reset_sync_result [OF j] by (auto simp: cp_ok_def dest!: d)
qed

lemma ok_bstart: "cp_ok p \<Longrightarrow> cp_ok (p\<lparr>cp_bstart := True\<rparr>)"
  by (simp add: cp_ok_def split: if_splits)

lemma get_ok:
  assumes "cp_ok p" "cp_contexts p \<noteq> []"
  shows "cp_get_io_context p = Some (cp_contexts p ! nat (cp_next p),
           p\<lparr>cp_next := (cp_next p + 1) mod int (length (cp_contexts p))\<rparr>)" (is ?r)
    and "cp_ok (p\<lparr>cp_next := (cp_next p + 1) mod int (length (cp_contexts p))\<rparr>)" (is ?ok)
proof -
  have b: "0 \<le> cp_next p" "cp_next p < cp_size p" "int (length (cp_contexts p)) = cp_size p" "cp_size p > 0"
    using assms by (auto simp: cp_ok_def)
  then show ?r by (auto simp: cp_get_io_context_def Let_def)
  show ?ok using assms b by (simp add: cp_ok_def)
qed

section \<open>Calls of a pool\<close>

text \<open>What run leaves while it waits is the state the calls of other threads meet.\<close>

datatype pool_call = PStart | PStartCores int "int list" | PRestartCores "int list" int | PRestart int
  | PRun | PStop | PReset | PGet

fun run_pool_call :: "nat \<Rightarrow> pool_call \<Rightarrow> context_pool \<Rightarrow> context_pool option" where
  "run_pool_call cpus PStart p = cp_start p"
| "run_pool_call cpus (PStartCores n cores) p = cp_start_cores cpus n cores p"
| "run_pool_call cpus (PRestartCores cores n) p = map_option snd (cp_restart_cores cpus cores n p)"
| "run_pool_call cpus (PRestart n) p = map_option snd (cp_restart cpus n p)"
| "run_pool_call cpus PRun p = map_option snd (cp_run p)"
| "run_pool_call cpus PStop p = cp_stop p"
| "run_pool_call cpus PReset p = cp_reset p"
| "run_pool_call cpus PGet p = map_option snd (cp_get_io_context p)"

fun run_pool_calls :: "nat \<Rightarrow> pool_call list \<Rightarrow> context_pool \<Rightarrow> context_pool option" where
  "run_pool_calls cpus [] p = Some p"
| "run_pool_calls cpus (c # cs) p = do { p \<leftarrow> run_pool_call cpus c p; run_pool_calls cpus cs p }"

text \<open>What a call asks for: the assertion of start, and a context to hand out.\<close>

fun pool_call_pre :: "nat \<Rightarrow> pool_call \<Rightarrow> context_pool \<Rightarrow> bool" where
  "pool_call_pre cpus (PStartCores n cores) p \<longleftrightarrow> cp_bstart p \<or> default_size cpus n \<le> int (length cores)"
| "pool_call_pre cpus PGet p \<longleftrightarrow> cp_contexts p \<noteq> []"
| "pool_call_pre cpus _ p \<longleftrightarrow> True"

lemma start_ok:
  assumes "cp_ok p"
  shows "\<exists>p'. cp_start p = Some p' \<and> cp_ok p' \<and> cp_bstart p' \<and>
    (\<not> cp_bstart p \<longrightarrow> length (cp_contexts p') = nat (cp_size p))"
  using assms init_ok [of "p\<lparr>cp_bstart := True\<rparr>" "cp_size p"] ok_fresh [OF assms]
  by (auto simp: cp_start_def)

lemma stop_ok:
  assumes "cp_ok p"
  shows "\<exists>p'. cp_stop p = Some p' \<and> cp_ok p' \<and> \<not> cp_bstart p' \<and> cp_contexts p' = [] \<and> cp_threads p' = [] \<and>
    cp_size p' = cp_size p"
proof (cases "cp_bstart p")
  case True
  then show ?thesis
    using reset_sync_ok [of "p\<lparr>cp_bstart := False\<rparr>"] ok_fresh [OF assms] by (simp add: cp_stop_def)
next
  case False
  then have "cp_contexts p = []" using assms by (auto simp: cp_ok_def split: if_splits)
  then show ?thesis using False assms by (auto simp: cp_stop_def cp_ok_def)
qed

lemma reset_is_stop: "cp_reset = cp_stop"
  by (simp add: fun_eq_iff cp_reset_def cp_stop_def)

lemma run_ok:
  assumes "cp_ok p"
  shows "\<exists>p'. cp_start p = Some p' \<and> cp_ok p' \<and> cp_run p = Some (cp_contexts p' = [], p')"
proof -
  obtain p' where p': "cp_start p = Some p'" "cp_ok p'" using start_ok [OF assms] by blast
  have t: "fst ` set (cp_threads p') = set (cp_contexts p')" "set (cp_contexts p') \<inter> set (cp_stopped p') = {}"
    using p'(2) by (auto simp: cp_ok_def fst_runners)
  have "cp_join_all p' = (if cp_contexts p' = [] then Some p' else None)"
  proof (cases "cp_contexts p' = []")
    case True
    then have "cp_threads p' = []" using t(1) by simp
    then show ?thesis using True by (simp add: cp_join_all_def)
  next
    case False
    then obtain c where c: "c \<in> set (cp_contexts p')" by (cases "cp_contexts p'") auto
    then obtain x where "(c, x) \<in> set (cp_threads p')" using t(1) by (metis imageE prod.collapse)
    moreover have "c \<notin> set (cp_stopped p')" using c t(2) by blast
    ultimately show ?thesis using False by (auto simp: cp_join_all_def)
  qed
  then show ?thesis using p' by (simp add: cp_run_def)
qed

lemma pool_call_ok:
  assumes ok: "cp_ok p"
  shows "(\<exists>p'. run_pool_call cpus c p = Some p' \<and> cp_ok p') \<longleftrightarrow> pool_call_pre cpus c p"
    and "run_pool_call cpus c p = None \<longleftrightarrow> \<not> pool_call_pre cpus c p"
proof -
  have f: "cp_fresh (p\<lparr>cp_bstart := True\<rparr>)" using ok_fresh [OF ok] by simp
  have "(if pool_call_pre cpus c p then \<exists>p'. run_pool_call cpus c p = Some p' \<and> cp_ok p'
         else run_pool_call cpus c p = None)"
  proof (cases c)
    case PStart
    then show ?thesis using start_ok [OF ok] by auto
  next
    case (PStartCores n cores)
    then show ?thesis
      using init_ok [of "p\<lparr>cp_bstart := True, cp_size := default_size cpus n, cp_cores := cores\<rparr>"] f ok
      by (auto simp: cp_start_cores_def Let_def)
  next
    case (PRestartCores cores n)
    define m where "m = (if n = 0 then int cpus else n)"
    show ?thesis
      using PRestartCores init_ok [of "p\<lparr>cp_bstart := True, cp_size := m, cp_cores := cores\<rparr>" m] f ok_bstart [OF ok]
      by (auto simp: cp_restart_cores_def Let_def simp flip: m_def)
  next
    case (PRestart n)
    define m where "m = (if n = 0 then int cpus else n)"
    show ?thesis
      using PRestart init_ok [of "p\<lparr>cp_bstart := True, cp_size := m\<rparr>" m] f ok_bstart [OF ok]
      by (auto simp: cp_restart_def Let_def simp flip: m_def)
  next
    case PGet
    then show ?thesis using get_ok [OF ok] ok
      by (cases "cp_contexts p = []") (auto simp: cp_get_io_context_def)
  qed (use stop_ok [OF ok] run_ok [OF ok] in \<open>auto simp: reset_is_stop\<close>)
  then show "(\<exists>p'. run_pool_call cpus c p = Some p' \<and> cp_ok p') \<longleftrightarrow> pool_call_pre cpus c p"
    and "run_pool_call cpus c p = None \<longleftrightarrow> \<not> pool_call_pre cpus c p"
    by (auto split: if_splits)
qed

text \<open>The single context: there while the pool is started, with all the threads.\<close>

definition sp_ok :: "single_pool \<Rightarrow> bool" where
  "sp_ok p \<longleftrightarrow> sp_guard p = sp_context p \<and> sp_bstart p = (sp_context p \<noteq> None) \<and>
     sp_threads p = (case sp_context p of None \<Rightarrow> []
       | Some c \<Rightarrow> map (\<lambda>i. (c, core_of (sp_cores p) i)) [0..<nat (sp_size p)])"

lemma sp_stop_ok:
  "sp_ok p \<Longrightarrow> \<exists>p'. sp_stop p = Some p' \<and> sp_ok p' \<and> \<not> sp_bstart p' \<and> sp_threads p' = [] \<and>
     sp_context p' = None \<and> sp_size p' = sp_size p \<and> sp_cores p' = sp_cores p"
  by (cases "sp_context p") (auto simp: sp_ok_def sp_stop_def sp_join_all_def Let_def)

lemma sp_start_ok:
  "sp_ok p \<Longrightarrow> sp_ok (sp_start p) \<and> sp_bstart (sp_start p) \<and> sp_size (sp_start p) = sp_size p"
  by (cases "sp_context p") (auto simp: sp_ok_def sp_start_def sp_init_def Let_def)

section \<open>What a user of a pool relies on\<close>

text \<open>Any number of requests for a context.\<close>

fun get_many :: "('p \<Rightarrow> (nat \<times> 'p) option) \<Rightarrow> nat \<Rightarrow> 'p \<Rightarrow> (nat list \<times> 'p) option" where
  "get_many get 0 p = Some ([], p)"
| "get_many get (Suc k) p = do { (c, p) \<leftarrow> get p; (cs, p) \<leftarrow> get_many get k p; Some (c # cs, p) }"

lemma get_many_add:
  "get_many get (j + k) p =
     do { (xs, p) \<leftarrow> get_many get j p; (ys, p) \<leftarrow> get_many get k p; Some (xs @ ys, p) }"
proof (induction j arbitrary: p)
  case 0
  then show ?case by (cases "get_many get k p") auto
next
  case (Suc j)
  then show ?case
    by (cases "get p") (auto split: option.splits prod.splits simp: Option.bind_assoc case_prod_beta
      intro!: Option.bind_cong)
qed

locale context_source =
  fixes ok :: "'p \<Rightarrow> bool" and started :: "'p \<Rightarrow> bool" and serving :: "'p \<Rightarrow> bool"
    and width :: "'p \<Rightarrow> int" and threads :: "'p \<Rightarrow> runner list"
    and start :: "'p \<Rightarrow> 'p option" and stop :: "'p \<Rightarrow> 'p option"
    and get :: "'p \<Rightarrow> (nat \<times> 'p) option"
  assumes start_serves: "\<lbrakk>ok p; \<not> started p; width p > 0\<rbrakk> \<Longrightarrow>
      \<exists>p'. start p = Some p' \<and> ok p' \<and> started p' \<and> serving p' \<and> width p' = width p"
    and start_again: "started p \<Longrightarrow> start p = Some p"
    and get_serves: "\<lbrakk>ok p; serving p\<rbrakk> \<Longrightarrow> \<exists>c core p'. get p = Some (c, p') \<and> ok p' \<and> serving p' \<and>
      threads p' = threads p \<and> width p' = width p \<and> (c, core) \<in> set (threads p)"
    and stop_ends: "ok p \<Longrightarrow> \<exists>p'. stop p = Some p' \<and> ok p' \<and> \<not> started p' \<and> threads p' = [] \<and>
      width p' = width p"
begin

lemma get_many_serves:
  "ok p \<Longrightarrow> serving p \<Longrightarrow> \<exists>cs p'. get_many get k p = Some (cs, p') \<and> length cs = k \<and> ok p' \<and> serving p' \<and>
     threads p' = threads p \<and> width p' = width p \<and> set cs \<subseteq> fst ` set (threads p)"
proof (induction k arbitrary: p)
  case (Suc k)
  obtain c core p1 where g: "get p = Some (c, p1)" "ok p1" "serving p1" "threads p1 = threads p"
    "width p1 = width p" "(c, core) \<in> set (threads p)"
    using get_serves [OF Suc.prems] by blast
  have c: "c \<in> fst ` set (threads p)" using g(6) by force
  obtain cs p2 where "get_many get k p1 = Some (cs, p2)" "length cs = k" "ok p2" "serving p2"
    "threads p2 = threads p1" "width p2 = width p1" "set cs \<subseteq> fst ` set (threads p1)"
    using Suc.IH [OF g(2,3)] by blast
  then show ?case using c g by (intro exI [of _ "c # cs"] exI [of _ p2]) simp
qed simp

text \<open>A round of start, requests and stop, after which the next can begin.\<close>

lemma serves_round:
  assumes "ok p" "\<not> started p" "width p > 0"
  shows "\<exists>p1 cs p2 p3. start p = Some p1 \<and> get_many get k p1 = Some (cs, p2) \<and> length cs = k \<and>
    set cs \<subseteq> fst ` set (threads p2) \<and> stop p2 = Some p3 \<and> threads p3 = [] \<and>
    ok p3 \<and> \<not> started p3 \<and> width p3 = width p"
proof -
  obtain p1 where p1: "start p = Some p1" "ok p1" "serving p1" "width p1 = width p"
    using start_serves [OF assms] by blast
  obtain cs p2 where p2: "get_many get k p1 = Some (cs, p2)" "length cs = k" "ok p2"
    "set cs \<subseteq> fst ` set (threads p2)" "width p2 = width p"
    using get_many_serves [OF p1(2,3), of k] p1(4) by metis
  then show ?thesis using p1(1) stop_ends [OF p2(3)] by auto
qed

end

interpretation cps: context_source cp_ok cp_bstart "\<lambda>p. cp_contexts p \<noteq> []" cp_size cp_threads cp_start cp_stop
  cp_get_io_context
proof (unfold_locales, goal_cases)
  case (1 p)
  then show ?case using init_ok [of "p\<lparr>cp_bstart := True\<rparr>" "cp_size p"] ok_fresh [of p]
    by (fastforce simp: cp_start_def)
next
  case (2 p)
  then show ?case by (simp add: cp_start_def)
next
  case (3 p)
  have "nat (cp_next p) < length (cp_contexts p)" using 3 by (auto simp: cp_ok_def)
  then have "(cp_contexts p ! nat (cp_next p), core_of (cp_cores p) (nat (cp_next p))) \<in> set (cp_threads p)"
    using 3 by (auto simp: cp_ok_def runners_def)
  then show ?case using get_ok [OF 3] 3 by auto
next
  case (4 p)
  then show ?case using stop_ok [of p] by blast
qed

interpretation sps: context_source sp_ok sp_bstart "\<lambda>p. sp_context p \<noteq> None \<and> sp_size p > 0" sp_size sp_threads
  "\<lambda>p. Some (sp_start p)" sp_stop "\<lambda>p. map_option (\<lambda>c. (c, p)) (sp_get_io_context p)"
proof (unfold_locales, goal_cases)
  case (1 p)
  then show ?case using sp_start_ok [of p] by (auto simp: sp_ok_def)
next
  case (2 p)
  then show ?case by (simp add: sp_start_def)
next
  case (3 p)
  then obtain c where c: "sp_context p = Some c" by auto
  have "(c, core_of (sp_cores p) 0) \<in> set (sp_threads p)" using 3 c by (force simp: sp_ok_def)
  then show ?case using 3 c by (auto simp: sp_get_io_context_def)
next
  case (4 p)
  then show ?case using sp_stop_ok [of p] by blast
qed

section \<open>Rotation\<close>

lemma get_many_rotates:
  assumes "cp_ok p" "cp_contexts p \<noteq> []"
  defines "n \<equiv> length (cp_contexts p)"
  shows "get_many cp_get_io_context k p =
    Some (map (\<lambda>i. cp_contexts p ! ((nat (cp_next p) + i) mod n)) [0..<k],
      p\<lparr>cp_next := (cp_next p + int k) mod int n\<rparr>)"
  using assms(1,2) unfolding n_def
proof (induction k arbitrary: p)
  case 0
  then show ?case by (auto simp: cp_ok_def)
next
  case (Suc k)
  let ?n = "length (cp_contexts p)" and ?p = "p\<lparr>cp_next := (cp_next p + 1) mod int (length (cp_contexts p))\<rparr>"
  have b: "0 \<le> cp_next p" "cp_next p < int ?n" "?n > 0" using Suc.prems by (auto simp: cp_ok_def)
  have nx: "nat ((cp_next p + 1) mod int ?n) = Suc (nat (cp_next p)) mod ?n"
    using b(1) by (simp add: nat_mod_distrib Suc_nat_eq_nat_zadd1 add.commute)
  have IH: "get_many cp_get_io_context k ?p =
      Some (map (\<lambda>i. cp_contexts p ! ((Suc (nat (cp_next p)) mod ?n + i) mod ?n)) [0..<k],
        ?p\<lparr>cp_next := ((cp_next p + 1) mod int ?n + int k) mod int ?n\<rparr>)"
    using Suc.IH [of ?p] get_ok(2) [OF Suc.prems] Suc.prems(2) by (simp add: nx)
  have h: "nat (cp_next p) mod ?n = nat (cp_next p)" using b by simp
  have m: "map (\<lambda>i. cp_contexts p ! ((nat (cp_next p) + i) mod ?n)) [0..<Suc k] = cp_contexts p ! nat (cp_next p) #
      map (\<lambda>i. cp_contexts p ! ((Suc (nat (cp_next p)) mod ?n + i) mod ?n)) [0..<k]"
    by (simp add: upt_conv_Cons h map_Suc_upt [symmetric] mod_add_left_eq del: upt_Suc)
  have e: "((cp_next p + 1) mod int ?n + int k) mod int ?n = (cp_next p + int (Suc k)) mod int ?n"
    by (simp add: mod_simps ac_simps)
  show ?case unfolding m e [symmetric] by (simp add: get_ok(1) [OF Suc.prems] IH)
qed

lemma get_many_round:
  assumes "cp_ok p" "cp_contexts p \<noteq> []"
  shows "get_many cp_get_io_context (length (cp_contexts p)) p =
    Some (rotate (nat (cp_next p)) (cp_contexts p), p)"
proof -
  have b: "0 \<le> cp_next p" "cp_next p < int (length (cp_contexts p))" using assms by (auto simp: cp_ok_def)
  have "map (\<lambda>i. cp_contexts p ! ((nat (cp_next p) + i) mod length (cp_contexts p))) [0..<length (cp_contexts p)]
      = rotate (nat (cp_next p)) (cp_contexts p)"
    by (rule nth_equalityI) (simp_all add: nth_rotate)
  then show ?thesis using get_many_rotates [OF assms, of "length (cp_contexts p)"] b by simp
qed

lemma get_many_rounds:
  assumes "cp_ok p" "cp_contexts p \<noteq> []"
  shows "get_many cp_get_io_context (m * length (cp_contexts p)) p =
    Some (concat (replicate m (rotate (nat (cp_next p)) (cp_contexts p))), p)"
  using get_many_round [OF assms] by (induction m) (simp_all add: get_many_add)

lemma count_rounds:
  assumes "distinct xs" "c \<in> set xs"
  shows "count_list (concat (replicate m (rotate a xs))) c = m"
proof -
  have "mset (rotate a xs) = mset xs"
    by (metis add.commute append_take_drop_id mset_append rotate_drop_take)
  then have "count_list (rotate a xs) c = 1"
    using assms by (simp add: distinct_count_atmost_1 flip: count_mset)
  then show ?thesis by (induction m) simp_all
qed

lemma new_pool_ok:
  assumes "new_context_pool cpus n auto_start cores = Some p0"
  shows "cp_ok p0"
proof -
  define p where "p = \<lparr>cp_size = default_size cpus n, cp_next = 0, cp_contexts = [], cp_guards = [],
    cp_threads = [], cp_bstart = False, cp_cores = cores, cp_made = 0, cp_stopped = []\<rparr>"
  have "cp_ok p" by (simp add: p_def cp_ok_def)
  then show ?thesis
    using start_ok [of p] assms by (auto simp: new_context_pool_def Let_def simp flip: p_def split: if_splits)
qed

lemma pool_calls_ok: "run_pool_calls cpus cs p = Some p' \<Longrightarrow> cp_ok p \<Longrightarrow> cp_ok p'"
proof (induction cs arbitrary: p)
  case (Cons c cs)
  then obtain p1 where p1: "run_pool_call cpus c p = Some p1" "run_pool_calls cpus cs p1 = Some p'"
    by (auto simp: bind_Some_iff)
  then have "cp_ok p1" using pool_call_ok [OF Cons.prems(2), where cpus = cpus and c = c] by auto
  then show ?case using Cons.IH p1(2) by simp
qed simp

section \<open>Properties\<close>

text \<open>C36: A pool of contexts is well formed in every state its calls reach: it has no context, or as many
  as its size, each kept busy by its guard and run by one thread on the core assigned to it, none of
  them stopped, and the index of the next context is inside. In such a state a call goes wrong only
  where it asks for more threads than it gives cores (an assertion) or for a context of a pool that has
  none; no call waits for ever but run, which starts the pool and waits exactly as long as it has contexts,
  while other threads go on calling.\<close>

theorem context_pool_well_formed:
  assumes "new_context_pool cpus n auto_start cores = Some p0" "run_pool_calls cpus cs p0 = Some p"
  shows "cp_ok p \<and> (\<forall>c. run_pool_call cpus c p = None \<longleftrightarrow> \<not> pool_call_pre cpus c p) \<and>
    (\<exists>p'. cp_start p = Some p' \<and> cp_run p = Some (cp_contexts p' = [], p'))"
proof -
  have "cp_ok p" using pool_calls_ok [OF assms(2)] new_pool_ok [OF assms(1)] by blast
  then show ?thesis using pool_call_ok(2) run_ok by blast
qed

definition sample_pool :: context_pool where
  "sample_pool = \<lparr>cp_size = 2, cp_next = 1, cp_contexts = [3, 4], cp_guards = [3, 4],
     cp_threads = [(3, Some 6), (4, Some 7)], cp_bstart = True, cp_cores = [6, 7], cp_made = 5,
     cp_stopped = [0, 1, 2]\<rparr>"

lemma sample_pool_calls:
  "run_pool_calls 4 [PRestartCores [6, 7] 2, PGet]
     \<lparr>cp_size = 3, cp_next = 0, cp_contexts = [0, 1, 2], cp_guards = [0, 1, 2],
      cp_threads = [(0, None), (1, None), (2, None)], cp_bstart = True, cp_cores = [], cp_made = 3,
      cp_stopped = []\<rparr> = Some sample_pool"
  by (simp add: cp_restart_cores_def cp_init_def cp_reset_sync_def cp_join_all_def cp_add_context_def core_of_def
    cp_get_io_context_def sample_pool_def upt_rec)

lemma sample_new_pool:
  "new_context_pool 4 3 True [] = Some
     \<lparr>cp_size = 3, cp_next = 0, cp_contexts = [0, 1, 2], cp_guards = [0, 1, 2],
      cp_threads = [(0, None), (1, None), (2, None)], cp_bstart = True, cp_cores = [], cp_made = 3,
      cp_stopped = []\<rparr>"
  by (simp add: new_context_pool_def default_size_def cp_start_def cp_init_def cp_reset_sync_def cp_join_all_def
    cp_add_context_def core_of_def upt_rec)

theorem context_pool_well_formed_witness:
  "cp_ok sample_pool \<and> (\<forall>c. run_pool_call 4 c sample_pool = None \<longleftrightarrow> \<not> pool_call_pre 4 c sample_pool) \<and>
     (\<exists>p'. cp_start sample_pool = Some p' \<and> cp_run sample_pool = Some (cp_contexts p' = [], p'))"
  by (rule context_pool_well_formed [OF sample_new_pool sample_pool_calls])

text \<open>get_io_context deals its contexts out evenly: in every state the calls of a pool reach, a number of
  requests that is a multiple of the number of contexts hands out each of them equally often, wherever
  the rotation stands, and leaves the rotation where it was.\<close>

theorem context_pool_rotation:
  assumes "new_context_pool cpus n auto_start cores = Some p0" "run_pool_calls cpus calls p0 = Some p"
    and "cp_contexts p \<noteq> []"
  shows "\<exists>cs. get_many cp_get_io_context (m * length (cp_contexts p)) p = Some (cs, p) \<and>
    length cs = m * length (cp_contexts p) \<and> (\<forall>c \<in> set (cp_contexts p). count_list cs c = m)"
proof -
  have ok: "cp_ok p" using pool_calls_ok [OF assms(2)] new_pool_ok [OF assms(1)] by blast
  then have d: "distinct (cp_contexts p)" by (simp add: cp_ok_def)
  have "length (concat (replicate m (rotate (nat (cp_next p)) (cp_contexts p)))) = m * length (cp_contexts p)"
    by (induction m) simp_all
  then show ?thesis using get_many_rounds [OF ok assms(3)] count_rounds [OF d] by blast
qed

theorem context_pool_rotation_witness:
  "\<exists>cs. get_many cp_get_io_context (5 * length (cp_contexts sample_pool)) sample_pool = Some (cs, sample_pool) \<and>
     length cs = 5 * length (cp_contexts sample_pool) \<and> (\<forall>c \<in> set (cp_contexts sample_pool). count_list cs c = 5)"
  by (rule context_pool_rotation [OF sample_new_pool sample_pool_calls]) (simp add: sample_pool_def)

text \<open>What start, get_io_context and stop promise, for both kinds of pool: from a pool that is well
  formed, not started and has a positive size, start and any number of requests succeed, a
  thread runs every context handed out, and stop joins all the threads and leaves a pool that can be started again.\<close>

theorem context_pools_serve:
  "cp_ok p \<Longrightarrow> \<not> cp_bstart p \<Longrightarrow> cp_size p > 0 \<Longrightarrow> sp_ok q \<Longrightarrow> \<not> sp_bstart q \<Longrightarrow> sp_size q > 0 \<Longrightarrow>
   (\<exists>p1 cs p2 p3. cp_start p = Some p1 \<and> get_many cp_get_io_context k p1 = Some (cs, p2) \<and> length cs = k \<and>
      set cs \<subseteq> fst ` set (cp_threads p2) \<and> cp_stop p2 = Some p3 \<and> cp_threads p3 = [] \<and>
      cp_ok p3 \<and> \<not> cp_bstart p3 \<and> cp_size p3 = cp_size p) \<and>
   (\<exists>q1 cs q2 q3. Some (sp_start q) = Some q1 \<and>
      get_many (\<lambda>p. map_option (\<lambda>c. (c, p)) (sp_get_io_context p)) k q1 = Some (cs, q2) \<and> length cs = k \<and>
      set cs \<subseteq> fst ` set (sp_threads q2) \<and> sp_stop q2 = Some q3 \<and> sp_threads q3 = [] \<and>
      sp_ok q3 \<and> \<not> sp_bstart q3 \<and> sp_size q3 = sp_size q)"
  using cps.serves_round [of p k] sps.serves_round [of q k] by blast

theorem context_pools_serve_witness:
  "\<exists>p p1 cs p2 p3. cp_size p = 2 \<and> cp_start p = Some p1 \<and> get_many cp_get_io_context 3 p1 = Some (cs, p2) \<and>
     length cs = 3 \<and> cp_stop p2 = Some p3 \<and> cp_threads p3 = []"
proof -
  define p where "p = \<lparr>cp_size = 2, cp_next = 0, cp_contexts = [], cp_guards = [], cp_threads = [],
    cp_bstart = False, cp_cores = [6, 7], cp_made = 0, cp_stopped = []\<rparr>"
  define q where "q = \<lparr>sp_size = 2, sp_context = None, sp_guard = None, sp_threads = [], sp_bstart = False,
    sp_cores = [], sp_made = 0, sp_stopped = []\<rparr>"
  have size: "cp_size p = 2" by (simp add: p_def)
  have "cp_ok p" "\<not> cp_bstart p" "cp_size p > 0" "sp_ok q" "\<not> sp_bstart q" "sp_size q > 0"
    by (simp_all add: p_def q_def cp_ok_def sp_ok_def)
  then show ?thesis using context_pools_serve [of p q 3, THEN conjunct1] size by blast
qed

text \<open>A refused restart leaves a stopped AsioContextPool that cannot be started: restart sets the flag
  before it compares the number of threads with the cores, so that afterwards start does nothing and
  get_io_context reaches behind an empty vector. AsioSingleContextPool, which restarts by stop and start, starts after a refusal.\<close>

theorem context_pool_restart_refused:
  assumes "cp_ok p" "\<not> cp_bstart p" "cp_cores p \<noteq> []" "n > int (length (cp_cores p))"
    and "sp_ok q" "sp_cores q \<noteq> []" "n > int (length (sp_cores q))"
  shows "(\<exists>p'. cp_restart cpus n p = Some (False, p') \<and> cp_start p' = Some p' \<and> cp_get_io_context p' = None) \<and>
    (\<exists>q'. sp_restart cpus n q = Some (False, q') \<and> sp_get_io_context (sp_start q') \<noteq> None)"
proof -
  have "cp_contexts p = []" using assms(1,2) by (auto simp: cp_ok_def split: if_splits)
  then have "\<exists>p'. cp_restart cpus n p = Some (False, p') \<and> cp_start p' = Some p' \<and> cp_get_io_context p' = None"
    using assms(3,4) by (simp add: cp_restart_def cp_start_def cp_get_io_context_def)
  moreover obtain q1 where q1: "sp_stop q = Some q1" "sp_ok q1" "sp_cores q1 = sp_cores q"
    using sp_stop_ok [OF assms(5)] by blast
  then have "\<exists>q'. sp_restart cpus n q = Some (False, q') \<and> sp_get_io_context (sp_start q') \<noteq> None"
    using assms(6,7) sp_start_ok [OF q1(2)] by (auto simp: sp_restart_def sp_get_io_context_def sp_ok_def)
  ultimately show ?thesis by blast
qed

theorem context_pool_restart_refused_witness:
  "\<exists>p q. (\<exists>p'. cp_restart 4 3 p = Some (False, p') \<and> cp_start p' = Some p' \<and> cp_get_io_context p' = None) \<and>
     (\<exists>q'. sp_restart 4 3 q = Some (False, q') \<and> sp_get_io_context (sp_start q') \<noteq> None)"
proof -
  define p where "p = \<lparr>cp_size = 2, cp_next = 0, cp_contexts = [], cp_guards = [], cp_threads = [],
    cp_bstart = False, cp_cores = [6, 7], cp_made = 0, cp_stopped = []\<rparr>"
  define q where "q = \<lparr>sp_size = 2, sp_context = None, sp_guard = None, sp_threads = [], sp_bstart = False,
    sp_cores = [1, 2], sp_made = 0, sp_stopped = []\<rparr>"
  have "cp_ok p" "\<not> cp_bstart p" "cp_cores p \<noteq> []" "3 > int (length (cp_cores p))"
    "sp_ok q" "sp_cores q \<noteq> []" "3 > int (length (sp_cores q))"
    by (simp_all add: p_def q_def cp_ok_def sp_ok_def)
  then show ?thesis using context_pool_restart_refused [of p 3 q 4] by blast
qed

end
