(* ===== verification/Tcp_Server.thy ===== *)
theory Tcp_Server
  imports Tcp_Session Io_Context_Pool
begin

text \<open>
  TcpServer (boost_net/tcp_server.hpp), over the sessions of Tcp_Session and the contexts of
  Io_Context_Pool. A session object is known by its id, which no two objects share; the objects that
  exist are a map from ids, the accepts under way and the calls of start dispatched to a context are
  lists of ids. The library gives the outcome of opening the acceptor. A socket and an acceptor may
  only be used as long as their context exists. Allocation succeeds, so that start_accept raises no
  exception.
\<close>

section \<open>TcpServer\<close>

text \<open>What opening, binding and listening come to: open raises, a later call raises, or none does.\<close>

datatype listen_result = OpenRaises | BindRaises | Listens

(* src: boost_net/tcp_server.hpp 295-306 TcpServer *)
record tcp_server =
  sv_pool :: context_pool
  sv_acceptor_ctx :: nat
  sv_acceptor_open :: bool
  sv_has_read_cbk :: bool
  sv_max_wbuffer :: nat
  sv_max_rbuffer :: nat
  sv_sessions :: "nat list"
  sv_objects :: "nat \<Rightarrow> tcp_sys option"
  sv_contexts :: "nat \<Rightarrow> nat option"
  sv_accepting :: "nat list"
  sv_starting :: "nat list"
  sv_last_id :: nat

(* src: boost_net/tcp_server.hpp 34-40 TcpServer::TcpServer *)
definition new_tcp_server :: "context_pool \<Rightarrow> nat \<Rightarrow> nat \<Rightarrow> bool \<Rightarrow> tcp_server option" where
  "new_tcp_server pool max_w max_r has_read_cbk =
     do { (ctx, pool) \<leftarrow> cp_get_io_context pool;
          Some \<lparr>sv_pool = pool, sv_acceptor_ctx = ctx, sv_acceptor_open = False, sv_has_read_cbk = has_read_cbk,
            sv_max_wbuffer = max_w, sv_max_rbuffer = max_r, sv_sessions = [], sv_objects = Map.empty,
            sv_contexts = Map.empty, sv_accepting = [], sv_starting = [], sv_last_id = 0\<rparr> }"

text \<open>The acceptor can be used: its context still exists.\<close>

definition acceptor_valid :: "tcp_server \<Rightarrow> bool" where
  "acceptor_valid sv \<longleftrightarrow> sv_acceptor_ctx sv \<in> set (cp_contexts (sv_pool sv))"

(* src: boost_net/tcp_server.hpp 234-244 TcpServer::start_accept *)
definition sv_start_accept :: "tcp_server \<Rightarrow> tcp_server option" where
  "sv_start_accept sv =
     do { (ctx, pool) \<leftarrow> cp_get_io_context (sv_pool sv);
          let sid = sv_last_id sv + 1;
          if acceptor_valid sv
          then Some (sv\<lparr>sv_pool := pool, sv_last_id := sid,
                 sv_objects := (sv_objects sv)(sid \<mapsto> (new_session (sv_max_wbuffer sv) (sv_max_rbuffer sv) False, [])),
                 sv_contexts := (sv_contexts sv)(sid \<mapsto> ctx), sv_accepting := sv_accepting sv @ [sid]\<rparr>)
          else None }"

(* src: boost_net/tcp_server.hpp 214-231 TcpServer::start_listen *)
definition sv_start_listen :: "listen_result \<Rightarrow> tcp_server \<Rightarrow> (bool \<times> tcp_server) option" where
  "sv_start_listen r sv =
     (if \<not> acceptor_valid sv then None
      else if sv_acceptor_open sv \<or> r = OpenRaises then Some (False, sv)
      else if r = BindRaises then Some (False, sv\<lparr>sv_acceptor_open := True\<rparr>)
      else do { sv \<leftarrow> sv_start_accept (sv\<lparr>sv_acceptor_open := True\<rparr>); Some (True, sv) })"

(* src: boost_net/tcp_server.hpp 96-102 TcpServer::start *)
definition sv_start :: "listen_result \<Rightarrow> tcp_server \<Rightarrow> (bool \<times> tcp_server) option" where
  "sv_start r sv =
     do { (ok, sv) \<leftarrow> sv_start_listen r sv;
          if \<not> ok then Some (False, sv)
          else do { pool \<leftarrow> cp_start (sv_pool sv); Some (True, sv\<lparr>sv_pool := pool\<rparr>) } }"

(* src: boost_net/tcp_server.hpp 132-135 TcpServer::clear *)
definition sv_clear :: "tcp_server \<Rightarrow> tcp_server" where
  "sv_clear sv = sv\<lparr>sv_sessions := []\<rparr>"

text \<open>With the contexts of the pool go the handlers that wait there, and with them the sessions.\<close>

(* src: boost_net/tcp_server.hpp 125-128 TcpServer::stop *)
definition sv_stop :: "tcp_server \<Rightarrow> tcp_server option" where
  "sv_stop sv =
     (let sv = sv_clear sv
      in do { pool \<leftarrow> cp_stop (sv_pool sv);
              Some (if cp_contexts pool = []
                    then sv\<lparr>sv_pool := pool, sv_objects := Map.empty, sv_accepting := [], sv_starting := []\<rparr>
                    else sv\<lparr>sv_pool := pool\<rparr>) })"

(* src: boost_net/tcp_server.hpp 42-48 TcpServer::~TcpServer *)
definition sv_destroy :: "tcp_server \<Rightarrow> tcp_server option" where
  "sv_destroy sv =
     do { sv \<leftarrow> sv_stop (sv\<lparr>sv_has_read_cbk := False\<rparr>);
          if acceptor_valid sv then Some (sv\<lparr>sv_acceptor_open := False\<rparr>) else None }"

(* src: boost_net/tcp_server.hpp 282-285 TcpServer::remove_session *)
definition sv_remove_session :: "nat \<Rightarrow> tcp_server \<Rightarrow> tcp_server" where
  "sv_remove_session sid sv = sv\<lparr>sv_sessions := removeAll sid (sv_sessions sv)\<rparr>"

text \<open>The user's callback is the event Closed of the session.\<close>

(* src: boost_net/tcp_server.hpp 289-293 TcpServer::on_close_cbk *)
definition sv_on_close_cbk :: "nat \<Rightarrow> tcp_server \<Rightarrow> tcp_server" where
  "sv_on_close_cbk sid sv = sv_remove_session sid sv"

text \<open>
  A session after one of its functions ran: when the session closed, which its events tell, its
  close callback, that of the server, has been called.
\<close>

definition sv_put :: "nat \<Rightarrow> tcp_sys \<Rightarrow> tcp_server \<Rightarrow> tcp_server" where
  "sv_put sid z sv =
     (let sv1 = sv\<lparr>sv_objects := (sv_objects sv)(sid \<mapsto> z)\<rparr>
      in case sv_objects sv sid of
           None \<Rightarrow> sv1
         | Some z0 \<Rightarrow> if closes (fst z) = closes (fst z0) then sv1 else sv_on_close_cbk sid sv1)"

(* src: boost_net/tcp_server.hpp 272-279 TcpServer::find_session *)
definition find_session :: "nat \<Rightarrow> tcp_server \<Rightarrow> tcp_sys option" where
  "find_session sid sv = (if sid \<in> set (sv_sessions sv) then sv_objects sv sid else None)"

text \<open>A function of a session, called on the object.\<close>

definition with_session :: "nat \<Rightarrow> client_call \<Rightarrow> tcp_server \<Rightarrow> tcp_server option" where
  "with_session sid c sv = do { z \<leftarrow> sv_objects sv sid; z' \<leftarrow> run_client_call c z; Some (sv_put sid z' sv) }"

text \<open>The result of a write: whether the session accepted the message.\<close>

(* src: boost_net/tcp_server.hpp 138-144 TcpServer::write *)
definition sv_write :: "nat \<Rightarrow> bytes \<Rightarrow> tcp_server \<Rightarrow> (bool \<times> tcp_server) option" where
  "sv_write sid msg sv =
     (case find_session sid sv of
        None \<Rightarrow> Some (False, sv)
      | Some (s, acc) \<Rightarrow> do { (ok, s') \<leftarrow> ts_write msg s; Some (ok, sv_put sid (s', if ok then acc @ [msg] else acc) sv) })"

(* src: boost_net/tcp_server.hpp 150-153 TcpServer::writeAll *)
fun sv_write_each :: "nat list \<Rightarrow> bytes \<Rightarrow> tcp_server \<Rightarrow> (nat list \<times> tcp_server) option" where
  "sv_write_each [] msg sv = Some ([], sv)"
| "sv_write_each (sid # ids) msg sv =
     do { (s, acc) \<leftarrow> sv_objects sv sid;
          (ok, s') \<leftarrow> ts_write msg s;
          (err, sv) \<leftarrow> sv_write_each ids msg (sv_put sid (s', if ok then acc @ [msg] else acc) sv);
          Some (if ok then err else sid # err, sv) }"

(* src: boost_net/tcp_server.hpp 147-155 TcpServer::writeAll *)
definition sv_write_all :: "bytes \<Rightarrow> tcp_server \<Rightarrow> (nat list \<times> tcp_server) option" where
  "sv_write_all msg sv = sv_write_each (sv_sessions sv) msg sv"

(* src: boost_net/tcp_server.hpp 159-165 TcpServer::write_tail *)
definition sv_write_tail :: "nat \<Rightarrow> bytes \<Rightarrow> nat \<Rightarrow> tcp_server \<Rightarrow> (bool \<times> tcp_server) option" where
  "sv_write_tail sid msg max_package_size sv =
     (case find_session sid sv of
        None \<Rightarrow> Some (False, sv)
      | Some (s, acc) \<Rightarrow> do { (ok, s') \<leftarrow> ts_write_tail msg max_package_size s; Some (ok, sv_put sid (s', acc) sv) })"

(* src: boost_net/tcp_server.hpp 168-173 TcpServer::consume_read_buf *)
definition sv_consume_read_buf :: "nat \<Rightarrow> nat \<Rightarrow> tcp_server \<Rightarrow> tcp_server option" where
  "sv_consume_read_buf sid n sv = (if find_session sid sv = None then Some sv else with_session sid (CConsume n) sv)"

(* src: boost_net/tcp_server.hpp 176-181 TcpServer::close *)
definition sv_close :: "nat \<Rightarrow> tcp_server \<Rightarrow> tcp_server option" where
  "sv_close sid sv = (if find_session sid sv = None then Some sv else with_session sid CShutdown sv)"

text \<open>
  The handler of an accept. The accepted socket is open, the session gets the server's callbacks
  and goes into the map, ordered by ids, and its start is dispatched; an id the map has already, which
  does not happen, shuts the session down.
\<close>

(* src: boost_net/tcp_server.hpp 247-269 TcpServer::handle_accept *)
definition sv_handle_accept :: "bool \<Rightarrow> nat \<Rightarrow> tcp_server \<Rightarrow> tcp_server option" where
  "sv_handle_accept ec sid sv =
     do { sv \<leftarrow> sv_start_accept (sv\<lparr>sv_accepting := removeAll sid (sv_accepting sv)\<rparr>);
          if ec then with_session sid CShutdown sv
          else do {
            (s, acc) \<leftarrow> sv_objects sv sid;
            let sv = sv_put sid (s\<lparr>ts_open := True, ts_has_read_cbk := sv_has_read_cbk sv\<rparr>, acc) sv;
            if sid \<in> set (sv_sessions sv) then with_session sid CShutdown sv
            else Some (sv\<lparr>sv_sessions := insort sid (sv_sessions sv), sv_starting := sv_starting sv @ [sid]\<rparr>) } }"

text \<open>The dispatched call runs in the session's context.\<close>

(* src: boost_net/tcp_server.hpp 265-265 TcpServer::handle_accept *)
definition sv_run_start :: "nat \<Rightarrow> tcp_server \<Rightarrow> tcp_server option" where
  "sv_run_start sid sv =
     do { (s, acc) \<leftarrow> sv_objects sv sid;
          Some (sv_put sid (ts_start s, acc) (sv\<lparr>sv_starting := removeAll sid (sv_starting sv)\<rparr>)) }"

section \<open>The server with its users and its sockets\<close>

text \<open>
  What users call of a server that listens, outside of callbacks and from the read callback, one call
  at a time. write_tail is left out (tcp_tail_overwrites says what it does), a second start, which
  is refused, and stop and the destructor, after which the server cannot be used (tcp_server_gone).
\<close>

datatype server_call = SvWrite nat bytes | SvWriteAll bytes | SvConsume nat nat | SvClose nat | SvClear

fun run_server_call :: "server_call \<Rightarrow> tcp_server \<Rightarrow> tcp_server option" where
  "run_server_call (SvWrite sid msg) sv = map_option snd (sv_write sid msg sv)"
| "run_server_call (SvWriteAll msg) sv = map_option snd (sv_write_all msg sv)"
| "run_server_call (SvConsume sid n) sv = sv_consume_read_buf sid n sv"
| "run_server_call (SvClose sid) sv = sv_close sid sv"
| "run_server_call SvClear sv = Some (sv_clear sv)"

fun run_server_calls :: "server_call list \<Rightarrow> tcp_server \<Rightarrow> tcp_server option" where
  "run_server_calls [] sv = Some sv"
| "run_server_calls (c # cs) sv = Option.bind (run_server_call c sv) (run_server_calls cs)"

text \<open>
  The handler of the k-th operation of a session. A read callback makes calls of the server, on
  this session and others, in the middle of handle_read: the session's handle_read goes on with
  the session as the calls left it.
\<close>

definition sv_handle :: "nat \<Rightarrow> nat \<Rightarrow> bool \<Rightarrow> bytes \<Rightarrow> server_call list \<Rightarrow> tcp_server \<Rightarrow> tcp_server option" where
  "sv_handle sid k ec data cs sv =
     do { (s, acc) \<leftarrow> sv_objects sv sid;
          let op = fst (ts_ops s ! k);
          let s0 = drop_op k s;
          if (case op of ReadOp n \<Rightarrow> \<not> ec \<and> ts_has_read_cbk s | _ \<Rightarrow> False)
          then do {
            let s1 = s0\<lparr>ts_read_buf := ts_read_buf s0 @ data,
                        ts_events := ts_events s0 @ [ReadCalled (ts_read_buf s0 @ data)]\<rparr>;
            sv2 \<leftarrow> run_server_calls cs (sv_put sid (s1, acc) sv);
            (s2, acc2) \<leftarrow> sv_objects sv2 sid;
            s3 \<leftarrow> handle_read False data (\<lambda>_. Some s2) s0;
            Some (sv_put sid (s3, acc2) sv2) }
          else do { z \<leftarrow> handle_op op ec data [] (s0, acc); Some (sv_put sid z sv) } }"

text \<open>A step, in which users may call clear or not.\<close>

definition call_allowed :: "bool \<Rightarrow> server_call \<Rightarrow> bool" where
  "call_allowed clearing c \<longleftrightarrow> clearing \<or> c \<noteq> SvClear"

inductive sv_step :: "bool \<Rightarrow> tcp_server option \<Rightarrow> tcp_server option \<Rightarrow> bool" for clearing where
  call: "call_allowed clearing c \<Longrightarrow> sv_step clearing (Some sv) (run_server_call c sv)"
| accepted: "sid \<in> set (sv_accepting sv) \<Longrightarrow> sv_step clearing (Some sv) (sv_handle_accept ec sid sv)"
| started: "sid \<in> set (sv_starting sv) \<Longrightarrow> sv_step clearing (Some sv) (sv_run_start sid sv)"
| handled: "sv_objects sv sid = Some (s, acc) \<Longrightarrow> k < length (ts_ops s) \<Longrightarrow> ts_ops s ! k = (op, b) \<Longrightarrow> (b \<longrightarrow> ec) \<Longrightarrow>
    (\<forall>n. op = ReadOp n \<longrightarrow> length data \<le> n) \<Longrightarrow> list_all (call_allowed clearing) cs \<Longrightarrow>
    sv_step clearing (Some sv) (sv_handle sid k ec data cs sv)"

section \<open>How a session goes on\<close>

text \<open>
  The functions of a session that a server calls leave its switch alone or close it, once, and
  start only reads and writes.
\<close>

definition rw_only :: "tcp_session \<Rightarrow> bool" where
  "rw_only s \<longleftrightarrow> (\<forall>(op, b) \<in> set (ts_ops s). case op of ReadOp _ \<Rightarrow> True | WriteOp _ \<Rightarrow> True | _ \<Rightarrow> False)"

definition quiet :: "tcp_session \<Rightarrow> tcp_session \<Rightarrow> bool" where
  "quiet s s' \<longleftrightarrow> closes s' = closes s \<and> ts_switch s' = ts_switch s"

definition closing :: "tcp_session \<Rightarrow> tcp_session \<Rightarrow> bool" where
  "closing s s' \<longleftrightarrow> has_started (ts_switch s) \<and> closes s' = closes s + 1 \<and> \<not> has_init (ts_switch s')"

definition advances :: "tcp_session \<Rightarrow> tcp_session \<Rightarrow> bool" where
  "advances s s' \<longleftrightarrow> (rw_only s \<longrightarrow> rw_only s') \<and> (quiet s s' \<or> closing s s')"

lemma advances_refl [simp]: "advances s s"
  by (simp add: advances_def quiet_def)

lemma advances_trans: "advances s s' \<Longrightarrow> advances s' s'' \<Longrightarrow> advances s s''"
  by (auto simp: advances_def quiet_def closing_def has_started_def)

lemma rw_simps [simp]:
  "rw_only (add_op op s) \<longleftrightarrow> rw_only s \<and> (case op of ReadOp _ \<Rightarrow> True | WriteOp _ \<Rightarrow> True | _ \<Rightarrow> False)"
  "rw_only (abort_ops P s) = rw_only s"
  "rw_only (s\<lparr>ts_open := a\<rparr>) = rw_only s" "rw_only (s\<lparr>ts_switch := w\<rparr>) = rw_only s"
  "rw_only (s\<lparr>ts_read_buf := b\<rparr>) = rw_only s" "rw_only (s\<lparr>ts_write_buf := u\<rparr>) = rw_only s"
  "rw_only (s\<lparr>ts_current := c\<rparr>) = rw_only s" "rw_only (s\<lparr>ts_sent := x\<rparr>) = rw_only s"
  "rw_only (s\<lparr>ts_events := e\<rparr>) = rw_only s" "rw_only (s\<lparr>ts_has_read_cbk := h\<rparr>) = rw_only s"
  by (auto simp: rw_only_def add_op_def abort_ops_def)

lemma rw_drop: "rw_only s \<Longrightarrow> rw_only (drop_op k s)"
  by (auto simp: rw_only_def drop_op_def dest: in_set_takeD in_set_dropD)

lemma closes_simps [simp]:
  "closes (add_op op s) = closes s" "closes (abort_ops P s) = closes s" "closes (drop_op k s) = closes s"
  "closes (s\<lparr>ts_open := a\<rparr>) = closes s" "closes (s\<lparr>ts_switch := w\<rparr>) = closes s"
  "closes (s\<lparr>ts_read_buf := b\<rparr>) = closes s" "closes (s\<lparr>ts_write_buf := u\<rparr>) = closes s"
  "closes (s\<lparr>ts_current := c\<rparr>) = closes s" "closes (s\<lparr>ts_sent := x\<rparr>) = closes s"
  "closes (s\<lparr>ts_has_read_cbk := h\<rparr>) = closes s"
  by (simp_all add: closes_def)

lemma advances_drop: "advances s (drop_op k s)"
  by (simp add: advances_def quiet_def rw_drop)

lemma advances_read: "advances s (ts_read s)"
  by (simp add: advances_def quiet_def ts_read_def)

lemma advances_consume: "advances s (ts_consume n s)"
  by (simp add: advances_def quiet_def ts_consume_def)

lemma advances_shutdown: "advances s (ts_shutdown s)"
proof (cases "has_started (ts_switch s)")
  case False
  then have "\<not> fst (as_stop (ts_switch s))" by (simp add: as_stop_started)
  then show ?thesis by (simp add: ts_shutdown_def split_beta Let_def)
next
  case True
  then have "fst (as_stop (ts_switch s))" by (simp add: as_stop_started)
  then have "ts_shutdown s = ts_close (s\<lparr>ts_switch := snd (as_stop (ts_switch s))\<rparr>)"
    by (simp add: ts_shutdown_def split_beta Let_def)
  then show ?thesis using True
    by (simp add: advances_def closing_def ts_close_def Let_def) (simp add: closes_def)
qed

lemma advances_write_next: "ts_write_next s = Some s' \<Longrightarrow> advances s s'"
  by (auto simp: ts_write_next_def bind_Some_iff advances_def quiet_def)

lemma advances_write: "ts_write msg s = Some (ok, s') \<Longrightarrow> advances s s'"
  by (auto simp: ts_write_def bind_Some_iff Let_def split: if_splits dest!: advances_write_next)
     (auto simp: advances_def quiet_def closing_def)

lemma advances_client_call: "run_client_call c (s, acc) = Some (s', acc') \<Longrightarrow> advances s s'"
  by (cases c) (auto simp: bind_Some_iff advances_consume advances_shutdown dest: advances_write)

lemma advances_handle_write: "handle_write ec s = Some s' \<Longrightarrow> advances s s'"
  by (auto simp: handle_write_def Let_def advances_shutdown split: if_splits option.splits
      dest!: advances_write_next)
     (auto simp: advances_def quiet_def closing_def closes_def)

text \<open>A read that fails, and one that nobody looks at.\<close>

lemma advances_read_quietly:
  assumes "handle_read ec data cbk s = Some s'" "ec \<or> \<not> ts_has_read_cbk s"
  shows "advances s s'"
proof (cases ec)
  case True
  then show ?thesis using assms(1) by (auto simp: handle_read_def advances_shutdown)
next
  case False
  define s2 where "s2 = ts_consume (length data) (s\<lparr>ts_read_buf := ts_read_buf s @ data\<rparr>)"
  have "s' = (if has_stoped (ts_switch s2) then s2 else ts_read s2)"
    using assms False by (auto simp: handle_read_def Let_def s2_def)
  moreover have "advances s s2" by (simp add: s2_def advances_def quiet_def ts_consume_def)
  ultimately show ?thesis using advances_trans advances_read by auto
qed

section \<open>The invariant of the server\<close>

text \<open>A session was not started yet, runs, or is closed, for good.\<close>

definition life_ok :: "tcp_session \<Rightarrow> bool" where
  "life_ok s \<longleftrightarrow> closes s = 0 \<and> (ts_switch s = new_switch \<or> has_started (ts_switch s)) \<or>
     closes s = 1 \<and> \<not> has_init (ts_switch s)"

text \<open>
  A session in the map waits for its start or runs; one that does is in the map, unless users call
  clear.
\<close>

definition obj_ok :: "bool \<Rightarrow> tcp_server \<Rightarrow> nat \<Rightarrow> bool" where
  "obj_ok clearing sv sid \<longleftrightarrow>
     (case sv_objects sv sid of
        None \<Rightarrow> sid \<notin> set (sv_sessions sv) \<and> sid \<notin> set (sv_accepting sv) \<and> sid \<notin> set (sv_starting sv)
      | Some (s, acc) \<Rightarrow> tcp_inv s acc \<and> rw_only s \<and> life_ok s \<and> sid \<le> sv_last_id sv \<and>
          (\<exists>c \<in> set (cp_contexts (sv_pool sv)). sv_contexts sv sid = Some c) \<and>
          (sid \<in> set (sv_accepting sv) \<longrightarrow> sid \<notin> set (sv_sessions sv) \<and> sid \<notin> set (sv_starting sv)) \<and>
          (sid \<in> set (sv_accepting sv) \<or> sid \<in> set (sv_starting sv) \<longrightarrow> closes s = 0 \<and> ts_switch s = new_switch) \<and>
          (let live = (sid \<in> set (sv_starting sv) \<or> has_started (ts_switch s))
           in if clearing then sid \<in> set (sv_sessions sv) \<longrightarrow> live else sid \<in> set (sv_sessions sv) \<longleftrightarrow> live))"

definition frame_ok :: "tcp_server \<Rightarrow> bool" where
  "frame_ok sv \<longleftrightarrow> sorted (sv_sessions sv) \<and> distinct (sv_sessions sv) \<and>
     cp_ok (sv_pool sv) \<and> cp_contexts (sv_pool sv) \<noteq> [] \<and> acceptor_valid sv \<and> sv_max_rbuffer sv < 2 ^ 64"

definition sv_inv :: "bool \<Rightarrow> tcp_server \<Rightarrow> bool" where
  "sv_inv clearing sv \<longleftrightarrow> frame_ok sv \<and> (\<forall>sid. obj_ok clearing sv sid)"

lemma not_started_new [simp]: "\<not> has_started new_switch" "\<not> has_init new_switch"
  by (simp_all add: switch_defs)

lemma inv_obj:
  "sv_inv clearing sv \<Longrightarrow> sv_objects sv sid = Some (s, acc) \<Longrightarrow> tcp_inv s acc \<and> rw_only s \<and> life_ok s"
  by (auto simp: sv_inv_def obj_ok_def Let_def dest!: spec [of _ sid])

text \<open>What a function of one session, or of some, leaves of all.\<close>

definition sv_rel :: "tcp_server \<Rightarrow> tcp_server \<Rightarrow> bool" where
  "sv_rel sv sv' \<longleftrightarrow> (\<forall>sid s acc. sv_objects sv sid = Some (s, acc) \<longrightarrow>
     (\<exists>s' acc'. sv_objects sv' sid = Some (s', acc') \<and> advances s s' \<and> (live_reads s = [] \<longrightarrow> live_reads s' = [])))"

lemma sv_rel_refl [simp]: "sv_rel sv sv"
  by (auto simp: sv_rel_def)

lemma sv_rel_trans: "sv_rel sv sv' \<Longrightarrow> sv_rel sv' sv'' \<Longrightarrow> sv_rel sv sv''"
  unfolding sv_rel_def by (fast intro: advances_trans)

lemma put_fields [simp]:
  "sv_pool (sv_put sid z sv) = sv_pool sv" "sv_contexts (sv_put sid z sv) = sv_contexts sv"
  "sv_accepting (sv_put sid z sv) = sv_accepting sv" "sv_starting (sv_put sid z sv) = sv_starting sv"
  "sv_last_id (sv_put sid z sv) = sv_last_id sv" "sv_max_rbuffer (sv_put sid z sv) = sv_max_rbuffer sv"
  "sv_max_wbuffer (sv_put sid z sv) = sv_max_wbuffer sv" "sv_has_read_cbk (sv_put sid z sv) = sv_has_read_cbk sv"
  "sv_acceptor_ctx (sv_put sid z sv) = sv_acceptor_ctx sv" "sv_acceptor_open (sv_put sid z sv) = sv_acceptor_open sv"
  "sv_objects (sv_put sid z sv) = (sv_objects sv)(sid \<mapsto> z)"
  by (simp_all add: sv_put_def sv_on_close_cbk_def sv_remove_session_def Let_def split: option.splits)

lemma put_sessions:
  "sv_objects sv sid = Some (s, acc) \<Longrightarrow> sv_sessions (sv_put sid (s', acc') sv) =
     (if closes s' = closes s then sv_sessions sv else removeAll sid (sv_sessions sv))"
  by (simp add: sv_put_def sv_on_close_cbk_def sv_remove_session_def Let_def)

lemma put_sessions_cases:
  "sv_sessions (sv_put sid z sv) = sv_sessions sv \<or> sv_sessions (sv_put sid z sv) = removeAll sid (sv_sessions sv)"
  by (simp add: sv_put_def sv_on_close_cbk_def sv_remove_session_def Let_def split: option.splits)

lemma frame_put:
  assumes "frame_ok sv"
  shows "frame_ok (sv_put sid z sv)"
proof -
  have "sorted (removeAll sid (sv_sessions sv))" "distinct (removeAll sid (sv_sessions sv))"
    using assms by (simp_all add: frame_ok_def removeAll_filter_not_eq sorted_wrt_filter)
  then show ?thesis using assms put_sessions_cases [of sid z sv]
    by (auto simp: frame_ok_def acceptor_valid_def)
qed

lemma put_inv:
  assumes i: "sv_inv clearing sv" and o: "sv_objects sv sid = Some (s, acc)"
    and a: "advances s s'" and t: "tcp_inv s' acc'"
  shows "sv_inv clearing (sv_put sid (s', acc') sv)"
  unfolding sv_inv_def
proof (intro conjI allI)
  show "frame_ok (sv_put sid (s', acc') sv)" using i by (simp add: sv_inv_def frame_put)
  fix n
  have on: "obj_ok clearing sv n" using i by (simp add: sv_inv_def)
  show "obj_ok clearing (sv_put sid (s', acc') sv) n"
  proof (cases "n = sid")
    case False
    then show ?thesis using on by (auto simp: obj_ok_def Let_def put_sessions [OF o] split: option.splits)
  next
    case True
    have rw: "rw_only s'" using a o on True by (auto simp: advances_def obj_ok_def Let_def)
    from a consider "quiet s s'" | "closing s s'" by (auto simp: advances_def)
    then show ?thesis
    proof cases
      case 1
      then show ?thesis using on o True t rw
        by (auto simp: obj_ok_def Let_def put_sessions [OF o] quiet_def life_ok_def)
    next
      case 2
      then have "\<not> has_started (ts_switch s')" by (simp add: closing_def has_started_def)
      moreover have "ts_switch s \<noteq> new_switch" using 2 by (auto simp: closing_def)
      ultimately show ?thesis using 2 on o True t rw
        by (auto simp: obj_ok_def Let_def put_sessions [OF o] closing_def life_ok_def has_started_def)
    qed
  qed
qed

lemma put_rel:
  "sv_objects sv sid = Some (s, acc) \<Longrightarrow> advances s s' \<Longrightarrow> (live_reads s = [] \<Longrightarrow> live_reads s' = []) \<Longrightarrow>
     sv_rel sv (sv_put sid (s', acc') sv)"
  by (auto simp: sv_rel_def)

section \<open>Calls of the server\<close>

lemma with_session_ok:
  assumes i: "sv_inv clearing sv" and o: "sv_objects sv sid = Some z"
  shows "\<exists>sv'. with_session sid c sv = Some sv' \<and> sv_inv clearing sv' \<and> sv_rel sv sv'"
proof -
  obtain s acc where z: "z = (s, acc)" by fastforce
  then have o': "sv_objects sv sid = Some (s, acc)" using o by simp
  then have t: "tcp_inv s acc" using inv_obj [OF i] by blast
  obtain s' acc' where c: "run_client_call c (s, acc) = Some (s', acc')" "tcp_inv s' acc'"
    using client_call_inv [OF t] by blast
  then show ?thesis
    using put_inv [OF i o' advances_client_call [OF c(1)] c(2)] client_call_reads [OF t c(1)]
      put_rel [OF o' advances_client_call [OF c(1)]] o z
    by (auto simp: with_session_def)
qed

lemma sv_write_with:
  assumes "sv_inv clearing sv" "sid \<in> set (sv_sessions sv)"
  shows "\<exists>z. sv_objects sv sid = Some z" 
    and "map_option snd (sv_write sid msg sv) = with_session sid (CWrite msg) sv"
proof -
  show "\<exists>z. sv_objects sv sid = Some z"
    using assms by (auto simp: sv_inv_def obj_ok_def Let_def dest!: spec [of _ sid] split: option.splits)
  then show "map_option snd (sv_write sid msg sv) = with_session sid (CWrite msg) sv"
    using assms(2) by (auto simp: sv_write_def find_session_def with_session_def split: Option.bind_splits)
qed

lemma sv_rel_dom: "sv_rel sv sv' \<Longrightarrow> sv_objects sv sid \<noteq> None \<Longrightarrow> sv_objects sv' sid \<noteq> None"
  by (fastforce simp: sv_rel_def)

lemma write_each_ok:
  "sv_inv clearing sv \<Longrightarrow> (\<forall>sid \<in> set ids. sv_objects sv sid \<noteq> None) \<Longrightarrow>
     \<exists>err sv'. sv_write_each ids msg sv = Some (err, sv') \<and> set err \<subseteq> set ids \<and> sv_inv clearing sv' \<and> sv_rel sv sv'"
proof (induction ids arbitrary: sv)
  case (Cons sid ids)
  obtain s acc where o: "sv_objects sv sid = Some (s, acc)" using Cons.prems(2) by auto
  obtain ok s' where w: "ts_write msg s = Some (ok, s')" "tcp_inv s' (if ok then acc @ [msg] else acc)"
    using write_inv inv_obj [OF Cons.prems(1) o] by meson
  define acc' where "acc' = (if ok then acc @ [msg] else acc)"
  have c: "run_client_call (CWrite msg) (s, acc) = Some (s', acc')" using w(1) by (simp add: acc'_def)
  define sv1 where "sv1 = sv_put sid (s', acc') sv"
  have i1: "sv_inv clearing sv1"
    using put_inv [OF Cons.prems(1) o advances_write [OF w(1)]] w(2) by (simp add: sv1_def acc'_def)
  have "live_reads s = [] \<Longrightarrow> live_reads s' = []"
    using client_call_reads [OF _ c] inv_obj [OF Cons.prems(1) o] by blast
  then have r1: "sv_rel sv sv1" unfolding sv1_def by (rule put_rel [OF o advances_write [OF w(1)]])
  have "\<forall>sid \<in> set ids. sv_objects sv1 sid \<noteq> None" using sv_rel_dom [OF r1] Cons.prems(2) by simp
  from Cons.IH [OF i1 this] obtain err sv' where "sv_write_each ids msg sv1 = Some (err, sv')"
    "set err \<subseteq> set ids" "sv_inv clearing sv'" "sv_rel sv1 sv'" by blast
  then show ?case using o w(1) sv_rel_trans [OF r1] by (auto simp: sv1_def acc'_def)
qed simp

lemma clear_ok:
  assumes "sv_inv True sv"
  shows "sv_inv True (sv_clear sv) \<and> sv_rel sv (sv_clear sv)"
proof -
  have "obj_ok True (sv_clear sv) n" if "obj_ok True sv n" for n
    using that by (auto simp: obj_ok_def Let_def sv_clear_def split: option.splits)
  then show ?thesis
    using assms by (simp add: sv_inv_def frame_ok_def acceptor_valid_def)
      (simp add: sv_clear_def sv_rel_def)
qed

lemma server_call_ok:
  assumes i: "sv_inv clearing sv" and c: "call_allowed clearing c"
  shows "\<exists>sv'. run_server_call c sv = Some sv' \<and> sv_inv clearing sv' \<and> sv_rel sv sv'"
proof (cases c)
  case (SvWrite sid msg)
  show ?thesis
  proof (cases "sid \<in> set (sv_sessions sv)")
    case True
    then show ?thesis using sv_write_with [OF i True] with_session_ok [OF i] SvWrite by auto
  next
    case False
    then show ?thesis using i SvWrite by (simp add: sv_write_def find_session_def)
  qed
next
  case (SvWriteAll msg)
  have "\<forall>sid \<in> set (sv_sessions sv). sv_objects sv sid \<noteq> None" using sv_write_with(1) [OF i] by auto
  then show ?thesis using write_each_ok [OF i] SvWriteAll by (fastforce simp: sv_write_all_def)
next
  case (SvConsume sid n)
  then show ?thesis using with_session_ok [OF i, of sid] i
    by (auto simp: sv_consume_read_buf_def find_session_def)
next
  case (SvClose sid)
  then show ?thesis using with_session_ok [OF i, of sid] i
    by (auto simp: sv_close_def find_session_def)
next
  case SvClear
  then have "clearing" using c by (simp add: call_allowed_def)
  then show ?thesis using SvClear clear_ok i by simp
qed

lemma server_calls_ok:
  "sv_inv clearing sv \<Longrightarrow> list_all (call_allowed clearing) cs \<Longrightarrow>
     \<exists>sv'. run_server_calls cs sv = Some sv' \<and> sv_inv clearing sv' \<and> sv_rel sv sv'"
proof (induction cs arbitrary: sv)
  case (Cons c cs)
  then have c: "call_allowed clearing c" "list_all (call_allowed clearing) cs" by simp_all
  obtain sv1 where sv1: "run_server_call c sv = Some sv1" "sv_inv clearing sv1" "sv_rel sv sv1"
    using server_call_ok [OF Cons.prems(1) c(1)] by blast
  obtain sv2 where "run_server_calls cs sv1 = Some sv2" "sv_inv clearing sv2" "sv_rel sv1 sv2"
    using Cons.IH [OF sv1(2) c(2)] by blast
  then show ?case using sv1 sv_rel_trans by auto
qed simp

section \<open>Handlers of the server\<close>

lemma new_session_inv: "max_r < 2 ^ 64 \<Longrightarrow> tcp_inv (new_session max_w max_r cb) []"
  using tcp_reach_ok [OF _ rtranclp.rtrancl_refl] by (auto simp: tcp_sys_ok_def)

lemma new_session_fields [simp]:
  "rw_only (new_session w r cb)" "closes (new_session w r cb) = 0" "ts_switch (new_session w r cb) = new_switch"
  by (simp_all add: new_session_def rw_only_def closes_def)

lemma start_accept_ok:
  assumes i: "sv_inv clearing sv"
  shows "\<exists>sv'. sv_start_accept sv = Some sv' \<and> sv_inv clearing sv' \<and> sv_sessions sv' = sv_sessions sv \<and>
    sv_starting sv' = sv_starting sv \<and> sv_accepting sv' = sv_accepting sv @ [sv_last_id sv + 1] \<and>
    sv_has_read_cbk sv' = sv_has_read_cbk sv \<and> (\<forall>sid \<le> sv_last_id sv. sv_objects sv' sid = sv_objects sv sid)"
proof -
  have f: "cp_ok (sv_pool sv)" "cp_contexts (sv_pool sv) \<noteq> []" "acceptor_valid sv" "sv_max_rbuffer sv < 2 ^ 64"
    using i by (auto simp: sv_inv_def frame_ok_def)
  define c where "c = cp_contexts (sv_pool sv) ! nat (cp_next (sv_pool sv))"
  define pool where "pool = (sv_pool sv)\<lparr>cp_next := (cp_next (sv_pool sv) + 1) mod int (length (cp_contexts (sv_pool sv)))\<rparr>"
  have g: "cp_get_io_context (sv_pool sv) = Some (c, pool)" "cp_ok pool"
    using get_ok [OF f(1,2)] by (simp_all add: c_def pool_def)
  have cs: "cp_contexts pool = cp_contexts (sv_pool sv)" by (simp add: pool_def)
  have "nat (cp_next (sv_pool sv)) < length (cp_contexts (sv_pool sv))" using f by (auto simp: cp_ok_def)
  then have c: "c \<in> set (cp_contexts (sv_pool sv))" by (simp add: c_def)
  let ?new = "sv_last_id sv + 1"
  define sv' where "sv' = sv\<lparr>sv_pool := pool, sv_last_id := ?new,
    sv_objects := (sv_objects sv)(?new \<mapsto> (new_session (sv_max_wbuffer sv) (sv_max_rbuffer sv) False, [])),
    sv_contexts := (sv_contexts sv)(?new \<mapsto> c), sv_accepting := sv_accepting sv @ [?new]\<rparr>"
  have o: "obj_ok clearing sv n" for n using i by (simp add: sv_inv_def)
  have "sv_objects sv ?new = None" using o [of ?new] by (auto simp: obj_ok_def Let_def split: option.splits)
  then have nw: "?new \<notin> set (sv_sessions sv)" "?new \<notin> set (sv_accepting sv)" "?new \<notin> set (sv_starting sv)"
    using o [of ?new] by (auto simp: obj_ok_def Let_def)
  have "obj_ok clearing sv' n" for n
  proof (cases "n = ?new")
    case True
    then show ?thesis using nw new_session_inv [OF f(4)] c cs
      by (simp add: obj_ok_def Let_def sv'_def life_ok_def)
  next
    case False
    then show ?thesis using o [of n] cs by (auto simp: obj_ok_def Let_def sv'_def split: option.splits)
  qed
  then have "sv_inv clearing sv'"
    using i g(2) cs by (simp add: sv_inv_def frame_ok_def acceptor_valid_def sv'_def)
  then show ?thesis using g(1) f(3) by (simp add: sv_start_accept_def Let_def sv'_def)
qed

text \<open>A session enters the map and waits for its start.\<close>

lemma mem_insort: "(y :: nat) \<in> set (insort x xs) \<longleftrightarrow> y = x \<or> y \<in> set xs"
  by (induction xs) auto

lemma entered_ok:
  assumes o: "\<And>n. obj_ok clearing sv n" and na: "sid \<notin> set (sv_accepting sv)"
    and s: "sv_objects sv sid = Some (s, acc)" "closes s = 0" "ts_switch s = new_switch"
  shows "obj_ok clearing (sv\<lparr>sv_sessions := insort sid (sv_sessions sv), sv_starting := sv_starting sv @ [sid]\<rparr>) n"
proof (cases "n = sid")
  case True
  show ?thesis unfolding True using o [of sid] na unfolding obj_ok_def Let_def s by simp (simp add: s mem_insort)
next
  case False
  then show ?thesis using o [of n] by (auto simp: obj_ok_def Let_def mem_insort split: option.splits)
qed

lemma accepted_ok:
  assumes i: "sv_inv clearing sv" and a: "sid \<in> set (sv_accepting sv)"
  shows "\<exists>sv'. sv_handle_accept ec sid sv = Some sv' \<and> sv_inv clearing sv'"
proof -
  define sv0 where "sv0 = sv\<lparr>sv_accepting := removeAll sid (sv_accepting sv)\<rparr>"
  have o: "obj_ok clearing sv n" for n using i by (simp add: sv_inv_def)
  obtain s acc where s: "sv_objects sv sid = Some (s, acc)" "sid \<le> sv_last_id sv" "closes s = 0"
    "ts_switch s = new_switch" "sid \<notin> set (sv_sessions sv)" "sid \<notin> set (sv_starting sv)" "tcp_inv s acc"
    using o [of sid] a by (auto simp: obj_ok_def Let_def split: option.splits)
  have "obj_ok clearing sv0 n" for n using o [of n] by (auto simp: obj_ok_def Let_def sv0_def split: option.splits)
  then have i0: "sv_inv clearing sv0" using i by (simp add: sv_inv_def frame_ok_def acceptor_valid_def sv0_def)
  obtain sv1 where sv1: "sv_start_accept sv0 = Some sv1" "sv_inv clearing sv1" "sv_sessions sv1 = sv_sessions sv"
    "sv_starting sv1 = sv_starting sv" "sv_accepting sv1 = sv_accepting sv0 @ [sv_last_id sv + 1]"
    "sv_objects sv1 sid = Some (s, acc)"
    using start_accept_ok [OF i0] s(1,2) by (auto simp: sv0_def)
  show ?thesis
  proof (cases ec)
    case True
    then show ?thesis using sv1(1) with_session_ok [OF sv1(2,6), of CShutdown]
      by (auto simp: sv_handle_accept_def sv0_def)
  next
    case False
    define s' where "s' = s\<lparr>ts_open := True, ts_has_read_cbk := sv_has_read_cbk sv1\<rparr>"
    have t: "tcp_inv s' acc" using s(4,7)
      by (auto simp: tcp_inv_def tcp_base_def sending_def s'_def live_writes_def live_reads_def)
    have adv: "advances s s'" by (simp add: advances_def quiet_def s'_def)
    define sv2 where "sv2 = sv_put sid (s', acc) sv1"
    have i2: "sv_inv clearing sv2" unfolding sv2_def by (rule put_inv [OF sv1(2,6) adv t])
    have "closes s' = closes s" by (simp add: s'_def)
    then have ss: "sv_sessions sv2 = sv_sessions sv" using sv1(3) put_sessions [OF sv1(6)] by (simp add: sv2_def)
    define sv3 where "sv3 = sv2\<lparr>sv_sessions := insort sid (sv_sessions sv2), sv_starting := sv_starting sv2 @ [sid]\<rparr>"
    have e: "sv_handle_accept ec sid sv = Some sv3"
      using False sv1(1,6) s(5) ss by (simp add: sv_handle_accept_def sv0_def Let_def sv3_def sv2_def s'_def)
    have o2: "obj_ok clearing sv2 n" for n using i2 by (simp add: sv_inv_def)
    have na: "sid \<notin> set (sv_accepting sv2)" using sv1(5) s(2) by (simp add: sv2_def sv0_def)
    have "sv_objects sv2 sid = Some (s', acc)" by (simp add: sv2_def)
    moreover have "closes s' = 0" "ts_switch s' = new_switch" using s(3,4) by (simp_all add: s'_def)
    ultimately have "obj_ok clearing sv3 n" for n unfolding sv3_def by (rule entered_ok [OF o2 na])
    moreover have "frame_ok sv3" using i2 s(5) ss
      by (simp add: sv_inv_def frame_ok_def acceptor_valid_def sv3_def sorted_insort distinct_insort)
    ultimately have "sv_inv clearing sv3" unfolding sv_inv_def by blast
    then show ?thesis using e by blast
  qed
qed

lemma start_new:
  assumes "tcp_inv s acc" "ts_switch s = new_switch"
  shows "tcp_inv (ts_start s) acc" "closes (ts_start s) = closes s" "has_started (ts_switch (ts_start s))"
    "rw_only s \<Longrightarrow> rw_only (ts_start s)"
proof -
  define w where "w = snd (as_init (ts_switch s))"
  have w: "as_init (ts_switch s) = (True, w)" using assms(2) by (simp add: w_def switch_defs)
  have e: "ts_start s = handle_start (s\<lparr>ts_switch := w\<rparr>)" using w by (simp add: ts_start_def)
  have i: "tcp_inv (s\<lparr>ts_switch := w\<rparr>) acc" using init_inv(1) [OF assms(1) w] .
  show "tcp_inv (ts_start s) acc" "closes (ts_start s) = closes s"
    using session_start_inv [OF i] by (simp_all add: e)
  show "has_started (ts_switch (ts_start s))" "rw_only s \<Longrightarrow> rw_only (ts_start s)"
    using assms(2) by (auto simp: e w_def handle_start_def switch_defs ts_read_def Let_def)
qed

lemma started_ok:
  assumes i: "sv_inv clearing sv" and a: "sid \<in> set (sv_starting sv)"
  shows "\<exists>sv'. sv_run_start sid sv = Some sv' \<and> sv_inv clearing sv'"
proof -
  have o: "obj_ok clearing sv n" for n using i by (simp add: sv_inv_def)
  obtain s acc where s: "sv_objects sv sid = Some (s, acc)" "closes s = 0" "ts_switch s = new_switch" "tcp_inv s acc" "rw_only s"
    using o [of sid] a by (auto simp: obj_ok_def Let_def split: option.splits)
  note st = start_new [OF s(4,3)]
  define sv0 where "sv0 = sv\<lparr>sv_starting := removeAll sid (sv_starting sv)\<rparr>"
  define sv' where "sv' = sv_put sid (ts_start s, acc) sv0"
  have f: "frame_ok sv0" using i by (simp add: sv_inv_def frame_ok_def acceptor_valid_def sv0_def)
  have s0: "sv_objects sv0 sid = Some (s, acc)" using s(1) by (simp add: sv0_def)
  have ss: "sv_sessions sv' = sv_sessions sv"
    using put_sessions [OF s0] st(2) by (simp add: sv'_def) (simp add: sv0_def)
  have "obj_ok clearing sv' n" for n
  proof (cases "n = sid")
    case True
    then show ?thesis using o [of sid] s st a ss
      by (auto simp: obj_ok_def Let_def sv'_def sv0_def life_ok_def)
  next
    case False
    then show ?thesis using o [of n] ss by (auto simp: obj_ok_def Let_def sv'_def sv0_def split: option.splits)
  qed
  then have "sv_inv clearing sv'" using frame_put [OF f] by (simp add: sv_inv_def sv'_def)
  then show ?thesis using s(1) by (simp add: sv_run_start_def sv'_def sv0_def)
qed

lemma handled_read_ok:
  assumes i: "sv_inv clearing sv" and o: "sv_objects sv sid = Some (s, acc)"
    and k: "k < length (ts_ops s)" "ts_ops s ! k = (ReadOp n, False)"
    and len: "length data \<le> n" and cs: "list_all (call_allowed clearing) cs" and cb: "ts_has_read_cbk s"
  shows "\<exists>sv'. sv_handle sid k False data cs sv = Some sv' \<and> sv_inv clearing sv'"
proof -
  have t: "tcp_inv s acc" using inv_obj [OF i o] by blast
  define ev where "ev = ts_events s @ [ReadCalled (ts_read_buf s @ data)]"
  define s1 where "s1 = (drop_op k s)\<lparr>ts_read_buf := ts_read_buf s @ data, ts_events := ev\<rparr>"
  have t1: "tcp_inv s1 acc" "live_reads s1 = []"
    using read_arrived_inv [OF t k len] by (simp_all add: s1_def)
  have a1: "advances s s1" using rw_drop by (auto simp: advances_def quiet_def s1_def ev_def closes_def)
  define sv1 where "sv1 = sv_put sid (s1, acc) sv"
  have i1: "sv_inv clearing sv1" unfolding sv1_def by (rule put_inv [OF i o a1 t1(1)])
  obtain sv2 where sv2: "run_server_calls cs sv1 = Some sv2" "sv_inv clearing sv2" "sv_rel sv1 sv2"
    using server_calls_ok [OF i1 cs] by blast
  have "sv_objects sv1 sid = Some (s1, acc)" by (simp add: sv1_def)
  then obtain s2 acc2 where s2: "sv_objects sv2 sid = Some (s2, acc2)" "live_reads s2 = []"
    using sv2(3) t1(2) unfolding sv_rel_def by blast
  define s3 where "s3 = (if has_stoped (ts_switch s2) then s2 else ts_read s2)"
  have h: "handle_read False data (\<lambda>_. Some s2) (drop_op k s) = Some s3"
    using cb by (simp add: handle_read_def Let_def s3_def drop_op_def)
  have "tcp_inv s2 acc2" using inv_obj [OF sv2(2) s2(1)] by blast
  then have t3: "tcp_inv s3 acc2" unfolding s3_def by (rule read_on_inv) (rule s2(2))
  have a3: "advances s2 s3" by (simp add: s3_def advances_read)
  have "sv_handle sid k False data cs sv = Some (sv_put sid (s3, acc2) sv2)"
    using o k(2) cb sv2(1) s2(1) h by (simp add: sv_handle_def Let_def s1_def sv1_def ev_def)
  then show ?thesis using put_inv [OF sv2(2) s2(1) a3 t3] by blast
qed

lemma handled_ok:
  assumes i: "sv_inv clearing sv" and o: "sv_objects sv sid = Some (s, acc)"
    and k: "k < length (ts_ops s)" "ts_ops s ! k = (op, b)" and b: "b \<longrightarrow> ec"
    and len: "\<forall>n. op = ReadOp n \<longrightarrow> length data \<le> n" and cs: "list_all (call_allowed clearing) cs"
  shows "\<exists>sv'. sv_handle sid k ec data cs sv = Some sv' \<and> sv_inv clearing sv'"
proof -
  have t: "tcp_inv s acc" "rw_only s" using inv_obj [OF i o] by blast+
  have "(op, b) \<in> set (ts_ops s)" using k by (metis nth_mem)
  then consider (r) n where "op = ReadOp n" | (w) bs where "op = WriteOp bs"
    using t(2) by (cases op) (auto simp: rw_only_def)
  then have "\<exists>s' acc'. handle_op op ec data [] (drop_op k s, acc) = Some (s', acc') \<and> tcp_inv s' acc' \<and> advances s s'"
    if q: "\<forall>n. op = ReadOp n \<longrightarrow> ec \<or> \<not> ts_has_read_cbk s"
  proof cases
    case (r n)
    have h: "ec \<or> \<not> ts_has_read_cbk (drop_op k s)" using q r by (simp add: drop_op_def)
    obtain s' acc' where s': "handle_op op ec data [] (drop_op k s, acc) = Some (s', acc')" "tcp_inv s' acc'"
      using handle_read_inv [OF t(1) k(1), of n b ec data "[]"] k(2) b len r by blast
    then have "\<exists>cbk. handle_read ec data cbk (drop_op k s) = Some s'"
      using r by (auto simp: handle_op_def bind_Some_iff split: if_splits)
    then have "advances (drop_op k s) s'" using advances_read_quietly [OF _ h] by blast
    then show ?thesis using s' advances_trans [OF advances_drop] by blast
  next
    case (w bs)
    obtain s' where s': "handle_write ec (drop_op k s) = Some s'" "tcp_inv s' (since_close (drop_op k s) s' acc)"
      using handle_write_inv [OF t(1) k(1), of bs b ec] k(2) b w by blast
    then show ?thesis using w advances_trans [OF advances_drop advances_handle_write [OF s'(1)]]
      by (auto simp: handle_op_def)
  qed
  then have quietly: ?thesis if "\<forall>n. op = ReadOp n \<longrightarrow> ec \<or> \<not> ts_has_read_cbk s"
    using that o k put_inv [OF i o] by (auto simp: sv_handle_def Let_def split: io_op.splits)
  show ?thesis
  proof (cases "\<forall>n. op = ReadOp n \<longrightarrow> ec \<or> \<not> ts_has_read_cbk s")
    case True
    then show ?thesis by (rule quietly)
  next
    case False
    then obtain n where n: "op = ReadOp n" "\<not> ec" "ts_has_read_cbk s" by blast
    then show ?thesis using handled_read_ok [OF i o k(1) _ _ cs n(3)] k(2) b len by simp
  qed
qed

definition sv_state_ok :: "bool \<Rightarrow> tcp_server option \<Rightarrow> bool" where
  "sv_state_ok clearing z \<longleftrightarrow> (\<exists>sv. z = Some sv \<and> sv_inv clearing sv)"

lemma sv_step_ok: "sv_step clearing z z' \<Longrightarrow> sv_state_ok clearing z \<Longrightarrow> sv_state_ok clearing z'"
proof (induction rule: sv_step.induct)
  case (call c sv)
  then show ?case using server_call_ok unfolding sv_state_ok_def by blast
next
  case (accepted sid sv ec)
  then show ?case using accepted_ok unfolding sv_state_ok_def by blast
next
  case (started sid sv)
  then show ?case using started_ok unfolding sv_state_ok_def by blast
next
  case (handled sv sid s acc k op b ec data cs)
  then have "sv_inv clearing sv" by (simp add: sv_state_ok_def)
  from handled_ok [OF this handled(1-6)] show ?case by (simp add: sv_state_ok_def)
qed

text \<open>A server that listens.\<close>

definition listening :: "context_pool \<Rightarrow> nat \<Rightarrow> nat \<Rightarrow> bool \<Rightarrow> tcp_server \<Rightarrow> bool" where
  "listening pool max_w max_r cb sv0 \<longleftrightarrow> cp_ok pool \<and> cp_contexts pool \<noteq> [] \<and> max_r < 2 ^ 64 \<and>
     Option.bind (new_tcp_server pool max_w max_r cb) (sv_start Listens) = Some (True, sv0)"

lemma new_server_ok:
  assumes "cp_ok pool" "cp_contexts pool \<noteq> []" "max_r < 2 ^ 64"
  shows "\<exists>sv. new_tcp_server pool max_w max_r cb = Some sv \<and> sv_inv clearing sv \<and> \<not> sv_acceptor_open sv"
proof -
  have "nat (cp_next pool) < length (cp_contexts pool)" using assms by (auto simp: cp_ok_def)
  then show ?thesis using get_ok [OF assms(1,2)] assms
    by (simp add: new_tcp_server_def sv_inv_def frame_ok_def acceptor_valid_def obj_ok_def)
qed

lemma listening_ok:
  assumes "listening pool max_w max_r cb sv0"
  shows "sv_inv clearing sv0"
proof -
  obtain sv where sv: "new_tcp_server pool max_w max_r cb = Some sv" "sv_inv clearing sv" "\<not> sv_acceptor_open sv"
    using new_server_ok assms by (fastforce simp: listening_def)
  have "obj_ok clearing (sv\<lparr>sv_acceptor_open := True\<rparr>) n" if "obj_ok clearing sv n" for n
    using that by (auto simp: obj_ok_def Let_def split: option.splits)
  then have "sv_inv clearing (sv\<lparr>sv_acceptor_open := True\<rparr>)"
    using sv(2) by (simp add: sv_inv_def frame_ok_def acceptor_valid_def)
  then obtain sv1 where sv1: "sv_start_accept (sv\<lparr>sv_acceptor_open := True\<rparr>) = Some sv1" "sv_inv clearing sv1"
    using start_accept_ok by blast
  then have "cp_bstart (sv_pool sv1)" by (auto simp: sv_inv_def frame_ok_def cp_ok_def)
  moreover have "acceptor_valid sv" using sv(2) by (simp add: sv_inv_def frame_ok_def)
  ultimately have "sv_start Listens sv = Some (True, sv1)"
    using sv(3) sv1(1) by (simp add: sv_start_def sv_start_listen_def cp_start_def)
  then show ?thesis using assms sv(1) sv1(2) by (simp add: listening_def)
qed

lemma sv_reach_ok:
  assumes "listening pool max_w max_r cb sv0" "(sv_step clearing)\<^sup>*\<^sup>* (Some sv0) z"
  shows "sv_state_ok clearing z"
  using assms(2)
proof (induction rule: rtranclp_induct)
  case base
  show ?case using listening_ok [OF assms(1)] by (simp add: sv_state_ok_def)
qed (rule sv_step_ok)

section \<open>Sending to all\<close>

lemma write_each_result:
  "sv_write_each ids msg sv = Some (err, sv') \<Longrightarrow> distinct ids \<Longrightarrow> set err \<subseteq> set ids \<and>
     sv_sessions sv' = sv_sessions sv \<and>
     (\<forall>sid s acc. sv_objects sv sid = Some (s, acc) \<longrightarrow>
        (\<exists>s'. sv_objects sv' sid = Some (s', if sid \<in> set ids \<and> sid \<notin> set err then acc @ [msg] else acc) \<and>
           (sid \<notin> set ids \<longrightarrow> s' = s) \<and> ts_switch s' = ts_switch s))"
proof (induction ids arbitrary: sv err)
  case (Cons sid ids)
  obtain s acc ok s' err1 where o: "sv_objects sv sid = Some (s, acc)" and w: "ts_write msg s = Some (ok, s')"
    and r: "sv_write_each ids msg (sv_put sid (s', if ok then acc @ [msg] else acc) sv) = Some (err1, sv')"
    and e: "err = (if ok then err1 else sid # err1)"
    using Cons.prems(1) by (auto simp: bind_Some_iff)
  define sv1 where "sv1 = sv_put sid (s', if ok then acc @ [msg] else acc) sv"
  have q: "closes s' = closes s" "ts_switch s' = ts_switch s"
    using w by (auto simp: ts_write_def ts_write_next_def bind_Some_iff Let_def split: if_splits)
  have d: "sid \<notin> set ids" "distinct ids" using Cons.prems(2) by simp_all
  have IH: "set err1 \<subseteq> set ids" "sv_sessions sv' = sv_sessions sv1"
    "\<And>n t a. sv_objects sv1 n = Some (t, a) \<Longrightarrow>
      \<exists>t'. sv_objects sv' n = Some (t', if n \<in> set ids \<and> n \<notin> set err1 then a @ [msg] else a) \<and>
        (n \<notin> set ids \<longrightarrow> t' = t) \<and> ts_switch t' = ts_switch t"
    using Cons.IH [OF r [folded sv1_def] d(2)] by blast+
  have "sv_sessions sv1 = sv_sessions sv" using put_sessions [OF o] q(1) by (simp add: sv1_def)
  moreover have "\<exists>t'. sv_objects sv' n = Some (t', if n \<in> set (sid # ids) \<and> n \<notin> set err then a @ [msg] else a) \<and>
      (n \<notin> set (sid # ids) \<longrightarrow> t' = t) \<and> ts_switch t' = ts_switch t"
    if n: "sv_objects sv n = Some (t, a)" for n t a
  proof (cases "n = sid")
    case True
    have "sv_objects sv1 sid = Some (s', if ok then acc @ [msg] else acc)" by (simp add: sv1_def)
    from IH(3) [OF this] have "sv_objects sv' sid = Some (s', if ok then acc @ [msg] else acc)"
      using d(1) by auto
    then show ?thesis using True n o q(2) e d(1) IH(1) by auto
  next
    case False
    then have "sv_objects sv1 n = Some (t, a)" using n by (simp add: sv1_def)
    from IH(3) [OF this] show ?thesis using False e by (auto split: if_splits)
  qed
  ultimately show ?case using IH(1,2) e by auto
qed simp

section \<open>Properties\<close>

lemma inv_runs:
  assumes "sv_inv clearing sv" "sv_objects sv sid = Some (s, acc)"
  shows "\<exists>c. sv_contexts sv sid = Some c \<and> c \<in> fst ` set (cp_threads (sv_pool sv))"
  using assms by (auto simp: sv_inv_def frame_ok_def cp_ok_def fst_runners obj_ok_def dest!: spec [of _ sid])

lemma inv_sessions:
  assumes "sv_inv clearing sv" "sid \<in> set (sv_sessions sv)"
  obtains s acc where "sv_objects sv sid = Some (s, acc)"
    "sid \<in> set (sv_starting sv) \<and> ts_switch s = new_switch \<or> has_started (ts_switch s)" "closes s = 0"
proof -
  obtain s acc where o: "sv_objects sv sid = Some (s, acc)" using sv_write_with(1) [OF assms] by auto
  have "obj_ok clearing sv sid" using assms(1) by (simp add: sv_inv_def)
  then have "sid \<in> set (sv_starting sv) \<and> ts_switch s = new_switch \<or> has_started (ts_switch s)" "closes s = 0"
    using o assms(2) by (auto simp: obj_ok_def Let_def life_ok_def has_started_def split: if_splits)
  then show ?thesis using that o by blast
qed

text \<open>C21: The map of a listening server holds exactly its live connections. Let users call write, writeAll,
  consume_read_buf, close and clear, in any order, outside of callbacks and from the read callback (not
  write_tail, a second start, stop and the destructor: tcp_server_gone shows the last two to be
  undefined), and let accepts, starts, reads and writes of all sessions end in any order, the calls
  and handlers one at a time (handle_write as a whole, though part of it runs without the lock:
  tcp_handle_write_race). Then no call is undefined; a session in the map waits for its start or runs, was
  never closed, and belongs to a context that a thread of the pool runs; every session is closed at most once;
  and as long as nobody calls clear, a session that runs is in the map.\<close>

theorem tcp_server_sessions:
  assumes "listening pool max_w max_r cb sv0" "(sv_step clearing)\<^sup>*\<^sup>* (Some sv0) z"
  shows "\<exists>sv. z = Some sv \<and> distinct (sv_sessions sv) \<and>
    (\<forall>sid \<in> set (sv_sessions sv). \<exists>s acc c. sv_objects sv sid = Some (s, acc) \<and> closes s = 0 \<and>
       (sid \<in> set (sv_starting sv) \<or> has_started (ts_switch s)) \<and>
       sv_contexts sv sid = Some c \<and> c \<in> fst ` set (cp_threads (sv_pool sv))) \<and>
    (\<forall>sid s acc. sv_objects sv sid = Some (s, acc) \<longrightarrow> closes s \<le> 1 \<and>
       (\<not> clearing \<and> has_started (ts_switch s) \<longrightarrow> sid \<in> set (sv_sessions sv)))"
proof -
  obtain sv where z: "z = Some sv" and i: "sv_inv clearing sv"
    using sv_reach_ok [OF assms] by (auto simp: sv_state_ok_def)
  have "distinct (sv_sessions sv)" using i by (simp add: sv_inv_def frame_ok_def)
  moreover have "\<exists>s acc c. sv_objects sv sid = Some (s, acc) \<and> closes s = 0 \<and>
       (sid \<in> set (sv_starting sv) \<or> has_started (ts_switch s)) \<and>
       sv_contexts sv sid = Some c \<and> c \<in> fst ` set (cp_threads (sv_pool sv))" if "sid \<in> set (sv_sessions sv)" for sid
    using inv_sessions [OF i that] inv_runs [OF i] by metis
  moreover have "closes s \<le> 1 \<and> (\<not> clearing \<and> has_started (ts_switch s) \<longrightarrow> sid \<in> set (sv_sessions sv))"
    if "sv_objects sv sid = Some (s, acc)" for sid s acc
  proof -
    have "obj_ok clearing sv sid" using i by (simp add: sv_inv_def)
    then show ?thesis using that by (auto simp: obj_ok_def Let_def life_ok_def)
  qed
  ultimately show ?thesis using z by blast
qed

text \<open>A server on the sample pool, with its first session accepted and started.\<close>

definition sample_listen :: tcp_server where
  "sample_listen = \<lparr>sv_pool = sample_pool, sv_acceptor_ctx = 4, sv_acceptor_open = True, sv_has_read_cbk = True,
     sv_max_wbuffer = 0, sv_max_rbuffer = 2000, sv_sessions = [],
     sv_objects = [1 \<mapsto> (new_session 0 2000 False, [])], sv_contexts = [1 \<mapsto> 3],
     sv_accepting = [1], sv_starting = [], sv_last_id = 1\<rparr>"

definition sample_accepted :: tcp_server where
  "sample_accepted = sample_listen\<lparr>sv_pool := sample_pool\<lparr>cp_next := 0\<rparr>, sv_sessions := [1], sv_objects :=
     [1 \<mapsto> ((new_session 0 2000 False)\<lparr>ts_open := True, ts_has_read_cbk := True\<rparr>, []),
      2 \<mapsto> (new_session 0 2000 False, [])], sv_contexts := [1 \<mapsto> 3, 2 \<mapsto> 4],
     sv_accepting := [2], sv_starting := [1], sv_last_id := 2\<rparr>"

definition sample_running :: tcp_server where
  "sample_running = sample_accepted\<lparr>sv_starting := [], sv_objects :=
     [1 \<mapsto> (ts_start ((new_session 0 2000 False)\<lparr>ts_open := True, ts_has_read_cbk := True\<rparr>), []),
      2 \<mapsto> (new_session 0 2000 False, [])]\<rparr>"

lemma sample_pool_ok: "cp_ok sample_pool" "cp_contexts sample_pool \<noteq> []"
  using pool_calls_ok [OF sample_pool_calls] new_pool_ok [OF sample_new_pool] by (simp_all add: sample_pool_def)

lemma sample_listening: "listening sample_pool 0 2000 True sample_listen"
  using sample_pool_ok
  by (simp add: listening_def new_tcp_server_def sv_start_def sv_start_listen_def sv_start_accept_def
    acceptor_valid_def cp_get_io_context_def cp_start_def Let_def)
   (simp add: sample_pool_def sample_listen_def)

lemma sample_accept: "sv_handle_accept False 1 sample_listen = Some sample_accepted"
  by (simp add: sv_handle_accept_def sv_start_accept_def sample_listen_def sample_accepted_def sample_pool_def
    cp_get_io_context_def acceptor_valid_def sv_put_def Let_def fun_eq_iff)

lemma sample_run: "sv_run_start 1 sample_accepted = Some sample_running"
proof -
  have "closes (ts_start ((new_session 0 2000 False)\<lparr>ts_open := True, ts_has_read_cbk := True\<rparr>)) = 0"
    by (simp add: ts_start_def handle_start_def new_session_def switch_defs ts_read_def closes_def add_op_def)
  then show ?thesis
    by (simp add: sv_run_start_def sample_accepted_def sample_listen_def sample_running_def sv_put_def Let_def
      fun_eq_iff)
qed

lemma sample_server_reach:
  "(sv_step False)\<^sup>*\<^sup>* (Some sample_listen) (Some sample_accepted)"
  "(sv_step False)\<^sup>*\<^sup>* (Some sample_listen) (Some sample_running)"
proof -
  have "sv_step False (Some sample_listen) (sv_handle_accept False 1 sample_listen)"
    by (rule sv_step.accepted) (simp add: sample_listen_def)
  then show a: "(sv_step False)\<^sup>*\<^sup>* (Some sample_listen) (Some sample_accepted)"
    unfolding sample_accept by (rule r_into_rtranclp)
  have "sv_step False (Some sample_accepted) (sv_run_start 1 sample_accepted)"
    by (rule sv_step.started) (simp add: sample_accepted_def)
  then show "(sv_step False)\<^sup>*\<^sup>* (Some sample_listen) (Some sample_running)"
    unfolding sample_run by (rule rtranclp.rtrancl_into_rtrancl [OF a])
qed

theorem tcp_server_sessions_witness:
  "\<exists>s acc c. sv_objects sample_running 1 = Some (s, acc) \<and> closes s = 0 \<and> has_started (ts_switch s) \<and>
     sv_contexts sample_running 1 = Some c \<and> c \<in> fst ` set (cp_threads (sv_pool sample_running))"
  using tcp_server_sessions [OF sample_listening sample_server_reach(2)]
  by (auto simp: sample_running_def sample_accepted_def)

text \<open>C22: Every session of a server sends its own stream. Let users call write, writeAll, consume_read_buf, close
  and clear of a listening server, in any order, outside of callbacks and from the read callback (not
  write_tail, which overwrites what is queued: tcp_tail_overwrites; nor a second start, stop and the
  destructor), the calls and handlers one at a time. Then in every reachable state, and for every session the
  server ever accepted, what went to the socket followed by what is queued is exactly what write and
  writeAll accepted for this session, in the order of the calls, on this connection; while the
  socket is open exactly the current message is being written; and its read buffer stays within its limit.\<close>

theorem tcp_server_streams:
  assumes "listening pool max_w max_r cb sv0" "(sv_step clearing)\<^sup>*\<^sup>* (Some sv0) (Some sv)"
    and "sv_objects sv sid = Some (s, acc)"
  shows "concat (ts_sent s) @ wb_bodies (ts_write_buf s) = map Some (concat acc) \<and>
    (ts_open s \<longrightarrow> live_writes s = (case ts_current s of None \<Rightarrow> [] | Some m \<Rightarrow> [WriteOp (ms_body m)])) \<and>
    (ts_current s = None \<longrightarrow> wb_items (ts_write_buf s) = []) \<and>
    length (ts_read_buf s) \<le> ts_max_rbuffer s"
proof -
  have "sv_inv clearing sv" using sv_reach_ok [OF assms(1,2)] by (simp add: sv_state_ok_def)
  then have "tcp_inv s acc" using inv_obj assms(3) by blast
  then show ?thesis by (simp add: tcp_inv_def tcp_base_def sending_def)
qed

lemma sample_broadcast:
  "\<exists>sv s. run_server_call (SvWriteAll [7, 8]) sample_running = Some sv \<and>
     sv_objects sv 1 = Some (s, [[7, 8]])"
proof -
  define s where "s = ts_start ((new_session 0 2000 False)\<lparr>ts_open := True, ts_has_read_cbk := True\<rparr>)"
  have o: "sv_objects sample_running 1 = Some (s, [])" by (simp add: sample_running_def s_def)
  have ss: "sv_sessions sample_running = [1]" by (simp add: sample_running_def sample_accepted_def)
  have i: "sv_inv False sample_running"
    using sv_reach_ok [OF sample_listening sample_server_reach(2)] by (simp add: sv_state_ok_def)
  have st: "has_started (ts_switch s)" "ts_max_wbuffer s = 0"
    by (simp_all add: s_def ts_start_def handle_start_def new_session_def switch_defs ts_read_def add_op_def Let_def)
  obtain ok s' where w: "ts_write [7, 8] s = Some (ok, s')"
    using write_inv inv_obj [OF i o] by meson
  have "\<not> over_limit [7, 8] s" using st(2) by (simp add: over_limit_def)
  then have "ok" using w st(1) by (auto simp: ts_write_def bind_Some_iff Let_def split: if_splits)
  then show ?thesis using w o by (simp add: sv_write_all_def ss)
qed

theorem tcp_server_streams_witness:
  "\<exists>sv s. run_server_call (SvWriteAll [7, 8]) sample_running = Some sv \<and>
     sv_objects sv 1 = Some (s, [[7, 8]]) \<and> concat (ts_sent s) @ wb_bodies (ts_write_buf s) = [Some 7, Some 8]"
proof -
  obtain sv s where s: "run_server_call (SvWriteAll [7, 8]) sample_running = Some sv"
    "sv_objects sv 1 = Some (s, [[7, 8]])" using sample_broadcast by blast
  have "sv_step False (Some sample_running) (run_server_call (SvWriteAll [7, 8]) sample_running)"
    by (rule sv_step.call) (simp add: call_allowed_def)
  then have "(sv_step False)\<^sup>*\<^sup>* (Some sample_listen) (Some sv)"
    unfolding s(1) by (rule rtranclp.rtrancl_into_rtrancl [OF sample_server_reach(2)])
  from tcp_server_streams [OF sample_listening this s(2)]
  have "concat (ts_sent s) @ wb_bodies (ts_write_buf s) = [Some 7, Some 8]" by simp
  then show ?thesis using s by blast
qed

text \<open>writeAll reaches every connection. In every reachable state it is defined, returns only ids of the
  map, and gives the message to every session in the map that it does not return; the sessions returned and
  those that are not in the map are left with what they had accepted, and none is closed.\<close>

theorem tcp_server_broadcast:
  assumes "listening pool max_w max_r cb sv0" "(sv_step clearing)\<^sup>*\<^sup>* (Some sv0) (Some sv)"
  shows "\<exists>err sv'. sv_write_all msg sv = Some (err, sv') \<and> set err \<subseteq> set (sv_sessions sv) \<and>
    sv_sessions sv' = sv_sessions sv \<and>
    (\<forall>sid s acc. sv_objects sv sid = Some (s, acc) \<longrightarrow>
       (\<exists>s'. sv_objects sv' sid =
          Some (s', if sid \<in> set (sv_sessions sv) \<and> sid \<notin> set err then acc @ [msg] else acc)))"
proof -
  have i: "sv_inv clearing sv" using sv_reach_ok [OF assms] by (simp add: sv_state_ok_def)
  then have d: "distinct (sv_sessions sv)" by (simp add: sv_inv_def frame_ok_def)
  have "\<forall>sid \<in> set (sv_sessions sv). sv_objects sv sid \<noteq> None" using sv_write_with(1) [OF i] by auto
  from write_each_ok [OF i this] obtain err sv' where w: "sv_write_each (sv_sessions sv) msg sv = Some (err, sv')"
    by blast
  then show ?thesis unfolding sv_write_all_def using write_each_result [OF w d] by blast
qed

theorem tcp_server_broadcast_witness:
  "\<exists>err sv'. sv_write_all [7, 8] sample_running = Some (err, sv') \<and> set err \<subseteq> {1} \<and>
     (\<exists>s. sv_objects sv' 1 = Some (s, if 1 \<notin> set err then [[7, 8]] else []))"
proof -
  have o: "\<exists>s. sv_objects sample_running 1 = Some (s, [])" "sv_sessions sample_running = [1]"
    by (simp_all add: sample_running_def sample_accepted_def)
  then show ?thesis using tcp_server_broadcast [OF sample_listening sample_server_reach(2), of "[7, 8]"] by fastforce
qed

text \<open>What close and clear do to a connection. close of an id that is not in the map does nothing;
  close of a running session closes its socket and takes it out of the map; close of a session whose start
  has not run yet does nothing, so that the session starts all the same. clear, which is documented to clear all
  connections, closes none: a session that runs goes on, but no call of the server reaches it any
  more.\<close>

theorem tcp_server_close:
  assumes "listening pool max_w max_r cb sv0" "(sv_step clearing)\<^sup>*\<^sup>* (Some sv0) (Some sv)"
  shows "(sid \<notin> set (sv_sessions sv) \<longrightarrow> sv_close sid sv = Some sv \<and> sv_write sid msg sv = Some (False, sv)) \<and>
    (\<forall>s acc. sv_objects sv sid = Some (s, acc) \<and> sid \<in> set (sv_sessions sv) \<longrightarrow>
       (if has_started (ts_switch s)
        then \<exists>sv' s' acc'. sv_close sid sv = Some sv' \<and> sv_objects sv' sid = Some (s', acc') \<and> closes s' = 1 \<and>
          \<not> ts_open s' \<and> sid \<notin> set (sv_sessions sv')
        else sv_close sid sv = Some sv \<and> sid \<in> set (sv_starting sv))) \<and>
    (\<forall>s acc. sv_objects sv sid = Some (s, acc) \<and> has_started (ts_switch s) \<longrightarrow>
       sv_objects (sv_clear sv) sid = Some (s, acc) \<and>
       sv_close sid (sv_clear sv) = Some (sv_clear sv) \<and>
       sv_write sid msg (sv_clear sv) = Some (False, sv_clear sv))"
proof -
  have i: "sv_inv clearing sv" using sv_reach_ok [OF assms] by (simp add: sv_state_ok_def)
  have 1: "sv_close sid sv = Some sv \<and> sv_write sid msg sv = Some (False, sv)" if "sid \<notin> set (sv_sessions sv)"
    using that by (simp add: sv_close_def sv_write_def find_session_def)
  have 2: "if has_started (ts_switch s)
        then \<exists>sv' s' acc'. sv_close sid sv = Some sv' \<and> sv_objects sv' sid = Some (s', acc') \<and> closes s' = 1 \<and>
          \<not> ts_open s' \<and> sid \<notin> set (sv_sessions sv')
        else sv_close sid sv = Some sv \<and> sid \<in> set (sv_starting sv)"
    if o: "sv_objects sv sid = Some (s, acc)" and m: "sid \<in> set (sv_sessions sv)" for s acc
  proof (cases "has_started (ts_switch s)")
    case False
    then have "\<not> fst (as_stop (ts_switch s))" by (simp add: as_stop_started)
    then have "ts_shutdown s = s" by (simp add: ts_shutdown_def split_beta Let_def)
    then have "with_session sid CShutdown sv = Some (sv_put sid (s, acc) sv)"
      using o by (simp add: with_session_def since_close_def)
    moreover have "sv_put sid (s, acc) sv = sv"
      using o by (simp add: sv_put_def Let_def map_upd_triv)
    moreover have "sid \<in> set (sv_starting sv)" using inv_sessions [OF i m] o False by auto
    ultimately show ?thesis using False o m by (simp add: sv_close_def find_session_def)
  next
    case True
    then have b: "fst (as_stop (ts_switch s))" by (simp add: as_stop_started)
    define s' where "s' = ts_shutdown s"
    have s': "s' = ts_close (s\<lparr>ts_switch := snd (as_stop (ts_switch s))\<rparr>)"
      using b by (simp add: s'_def ts_shutdown_def split_beta Let_def)
    have c0: "closes s = 0" using inv_sessions [OF i m] o by auto
    have "has_init (snd (as_stop (ts_switch s)))" using True by (auto simp: switch_defs split: if_splits)
    then have c: "closes s' = 1" "\<not> ts_open s'" using c0
      by (simp_all add: s' ts_close_def Let_def) (simp add: closes_def)
    have "with_session sid CShutdown sv = Some (sv_put sid (s', since_close s s' acc) sv)"
      using o by (simp add: with_session_def s'_def)
    then show ?thesis using True o m c c0 put_sessions [OF o, of s']
      by (simp add: sv_close_def find_session_def)
  qed
  have 3: "sv_objects (sv_clear sv) sid = Some (s, acc) \<and> sv_close sid (sv_clear sv) = Some (sv_clear sv) \<and>
       sv_write sid msg (sv_clear sv) = Some (False, sv_clear sv)" if "sv_objects sv sid = Some (s, acc)" for s acc
    using that by (simp add: sv_close_def sv_write_def find_session_def sv_clear_def)
  show ?thesis using 1 2 3 by blast
qed

theorem tcp_server_close_witness:
  "sv_close 1 sample_accepted = Some sample_accepted \<and>
   (\<exists>sv' s'. sv_close 1 sample_running = Some sv' \<and> (\<exists>acc'. sv_objects sv' 1 = Some (s', acc')) \<and> closes s' = 1 \<and>
      1 \<notin> set (sv_sessions sv'))"
proof -
  have a: "\<exists>s. sv_objects sample_accepted 1 = Some (s, []) \<and> \<not> has_started (ts_switch s)"
    "1 \<in> set (sv_sessions sample_accepted)"
    by (simp_all add: sample_accepted_def)
  have r: "\<exists>s. sv_objects sample_running 1 = Some (s, []) \<and> has_started (ts_switch s)"
    "1 \<in> set (sv_sessions sample_running)"
    by (simp_all add: sample_running_def sample_accepted_def ts_start_def handle_start_def switch_defs
      new_session_def ts_read_def add_op_def Let_def)
  show ?thesis
    using tcp_server_close [OF sample_listening sample_server_reach(1), of 1 "[]"] a
      tcp_server_close [OF sample_listening sample_server_reach(2), of 1 "[]"] r by (fastforce split: if_splits)
qed

text \<open>A server cannot outlive its contexts. stop stops the pool, which destroys the context the acceptor
  belongs to; from every reachable state, the acceptor is used afterwards by the destructor, which is undefined
  for a server that listens, and by a second start. A listen whose bind fails leaves the acceptor open, so
  that every later start is refused.\<close>

theorem tcp_server_gone:
  assumes "listening pool max_w max_r cb sv0" "(sv_step clearing)\<^sup>*\<^sup>* (Some sv0) (Some sv)"
  shows "sv_destroy sv = None \<and> (\<exists>sv'. sv_stop sv = Some sv' \<and> (\<forall>r. sv_start r sv' = None)) \<and>
    (\<forall>sv1. new_tcp_server pool max_w max_r cb = Some sv1 \<longrightarrow>
       (\<exists>sv2. sv_start BindRaises sv1 = Some (False, sv2) \<and> (\<forall>r. sv_start r sv2 = Some (False, sv2))))"
proof -
  have i: "sv_inv clearing sv" using sv_reach_ok [OF assms] by (simp add: sv_state_ok_def)
  then have ok: "cp_ok (sv_pool sv)" by (simp add: sv_inv_def frame_ok_def)
  obtain p where p: "cp_stop (sv_pool sv) = Some p" "cp_contexts p = []" using stop_ok [OF ok] by blast
  have "sv_destroy sv = None"
    using p by (simp add: sv_destroy_def sv_stop_def sv_clear_def Let_def acceptor_valid_def)
  moreover have "\<exists>sv'. sv_stop sv = Some sv' \<and> (\<forall>r. sv_start r sv' = None)"
    using p by (simp add: sv_stop_def sv_clear_def Let_def acceptor_valid_def sv_start_def sv_start_listen_def)
  moreover have "\<exists>sv2. sv_start BindRaises sv1 = Some (False, sv2) \<and> (\<forall>r. sv_start r sv2 = Some (False, sv2))"
    if "new_tcp_server pool max_w max_r cb = Some sv1" for sv1
  proof -
    have "sv_inv clearing sv1 \<and> \<not> sv_acceptor_open sv1"
      using new_server_ok [of pool max_r max_w cb clearing] assms(1) that by (auto simp: listening_def)
    then show ?thesis by (simp add: sv_start_def sv_start_listen_def acceptor_valid_def sv_inv_def frame_ok_def)
  qed
  ultimately show ?thesis by blast
qed

theorem tcp_server_gone_witness: "sv_destroy sample_running = None"
  using tcp_server_gone [OF sample_listening sample_server_reach(2)] by blast

end
