(* ===== verification/Websocket_Session.thy ===== *)
theory Websocket_Session
  imports Tcp_Session
begin

text \<open>
  WebsocketSession (boost_net/boost_net/websocket_session.hpp), with its template parameter IsReadSome:
  a session for texts has it false, one for binary data true. The stream of Boost.Beast is given by
  whether the connection is up and by the operations outstanding; shutting the socket down ends those
  with errors. Its write side is related to that of TcpSession: as_tcp forgets what differs, and the
  invariant of Tcp_Session carries over.
\<close>

section \<open>WebsocketSession\<close>

text \<open>
  A resolve, a connect, the handshake of a client, that of a server, a read into a buffer of so many
  bytes or of a whole message, and a write.
\<close>

datatype ws_op = WsResolve | WsConnect | WsHandshake | WsAccept | WsRead "nat option" | WsWrite "cell list"

(* src: boost_net/boost_net/websocket_session.hpp 447-480 WebsocketSession *)
record ws_session =
  ws_read_some :: bool
  ws_open :: bool
  ws_ops :: "(ws_op \<times> bool) list"
  ws_sent :: "cell list list"
  ws_read_buf :: bytes
  ws_max_rbuffer :: nat
  ws_write_buf :: write_buffer
  ws_current :: "memory_stream option"
  ws_max_wbuffer :: nat
  ws_has_read_cbk :: bool
  ws_events :: "net_event list"
  ws_switch :: switch

(* src: boost_net/boost_net/websocket_session.hpp 87-98 WebsocketSession::WebsocketSession *)
definition new_ws_session :: "bool \<Rightarrow> nat \<Rightarrow> nat \<Rightarrow> bool \<Rightarrow> ws_session" where
  "new_ws_session read_some max_w max_r has_read_cbk =
     \<lparr>ws_read_some = read_some, ws_open = False, ws_ops = [], ws_sent = [], ws_read_buf = [],
      ws_max_rbuffer = max_r, ws_write_buf = new_write_buffer 1000, ws_current = None, ws_max_wbuffer = max_w,
      ws_has_read_cbk = has_read_cbk, ws_events = [], ws_switch = new_switch\<rparr>"

(* src: boost_net/boost_net/websocket_session.hpp 132-134 WebsocketSession::is_open *)
definition wss_is_open :: "ws_session \<Rightarrow> bool" where
  "wss_is_open s \<longleftrightarrow> has_started (ws_switch s) \<and> ws_open s"

text \<open>A read or a write on a connection that is not up fails.\<close>

definition ws_add_op :: "ws_op \<Rightarrow> ws_session \<Rightarrow> ws_session" where
  "ws_add_op op s = s\<lparr>ws_ops := ws_ops s @
     [(op, \<not> ws_open s \<and> (case op of WsRead _ \<Rightarrow> True | WsWrite _ \<Rightarrow> True | _ \<Rightarrow> False))]\<rparr>"

(* src: boost_net/boost_net/websocket_session.hpp 153-163 WebsocketSession::connect *)
definition wss_connect :: "ws_session \<Rightarrow> ws_session" where
  "wss_connect s = (let (b, w) = as_init (ws_switch s) in if \<not> b then s else ws_add_op WsResolve (s\<lparr>ws_switch := w\<rparr>))"

(* src: boost_net/boost_net/websocket_session.hpp 171-204 WebsocketSession::start *)
definition wss_start :: "ws_session \<Rightarrow> ws_session" where
  "wss_start s = (let (b, w) = as_init (ws_switch s) in if \<not> b then s else ws_add_op WsAccept (s\<lparr>ws_switch := w\<rparr>))"

(* src: boost_net/boost_net/websocket_session.hpp 426-445 WebsocketSession::close *)
definition wss_close :: "ws_session \<Rightarrow> ws_session" where
  "wss_close s = s\<lparr>ws_open := False, ws_ops := map (\<lambda>(op, b). (op, True)) (ws_ops s), ws_read_buf := [],
     ws_switch := as_reset (ws_switch s), ws_write_buf := wb_clear (ws_write_buf s), ws_current := None,
     ws_sent := [], ws_events := ws_events s @ [Closed]\<rparr>"

(* src: boost_net/boost_net/websocket_session.hpp 207-212 WebsocketSession::shutdown *)
definition wss_shutdown :: "ws_session \<Rightarrow> ws_session" where
  "wss_shutdown s =
     (let (b, w) = as_stop (ws_switch s) in if \<not> b then s else wss_close (s\<lparr>ws_switch := w\<rparr>))"

(* src: boost_net/boost_net/websocket_session.hpp 279-295 WebsocketSession::read *)
definition wss_read :: "ws_session \<Rightarrow> ws_session" where
  "wss_read s = ws_add_op (WsRead (if ws_read_some s then Some (ws_max_rbuffer s) else None)) s"

text \<open>A session for texts takes the message out of the queue, and no more.\<close>

(* src: boost_net/boost_net/websocket_session.hpp 298-306 WebsocketSession::write *)
definition wss_write_next :: "ws_session \<Rightarrow> ws_session option" where
  "wss_write_next s =
     do { (m, w) \<leftarrow> wb_pop_front (ws_write_buf s);
          let s1 = s\<lparr>ws_write_buf := w, ws_current := Some m\<rparr>;
          Some (if ws_read_some s then (ws_add_op (WsWrite (ms_body m)) s1)\<lparr>ws_sent := ws_sent s @ [ms_body m]\<rparr>
                else s1) }"

(* src: boost_net/boost_net/websocket_session.hpp 220-222 WebsocketSession::write *)
definition wss_over_limit :: "bytes \<Rightarrow> ws_session \<Rightarrow> bool" where
  "wss_over_limit msg s \<longleftrightarrow> ws_max_wbuffer s > 0 \<and>
     (wb_all_len (ws_write_buf s) + length msg) mod 2 ^ 64 > ws_max_wbuffer s"

(* src: boost_net/boost_net/websocket_session.hpp 215-233 WebsocketSession::write *)
definition wss_write :: "bytes \<Rightarrow> ws_session \<Rightarrow> (bool \<times> ws_session) option" where
  "wss_write msg s =
     (if \<not> has_started (ws_switch s) then Some (False, s)
      else if wss_over_limit msg s then Some (False, s)
      else do {
        w \<leftarrow> wb_append msg (ws_write_buf s);
        let s1 = s\<lparr>ws_write_buf := w\<rparr>;
        if ws_current s1 \<noteq> None then Some (True, s1)
        else do { s2 \<leftarrow> wss_write_next s1; Some (True, s2) } })"

(* src: boost_net/boost_net/websocket_session.hpp 237-256 WebsocketSession::write_tail *)
definition wss_write_tail :: "bytes \<Rightarrow> nat \<Rightarrow> ws_session \<Rightarrow> (bool \<times> ws_session) option" where
  "wss_write_tail msg max_package_size s =
     (if \<not> has_started (ws_switch s) then Some (False, s)
      else if wss_over_limit msg s then Some (False, s)
      else do {
        w \<leftarrow> wb_append_tail msg max_package_size (ws_write_buf s);
        let s1 = s\<lparr>ws_write_buf := w\<rparr>;
        if ws_current s1 \<noteq> None then Some (True, s1)
        else do { s2 \<leftarrow> wss_write_next s1; Some (True, s2) } })"

(* src: boost_net/boost_net/websocket_session.hpp 259-265 WebsocketSession::consume_read_buf *)
definition wss_consume :: "nat \<Rightarrow> ws_session \<Rightarrow> ws_session" where
  "wss_consume n s = (if has_stoped (ws_switch s) then s else s\<lparr>ws_read_buf := drop n (ws_read_buf s)\<rparr>)"

(* src: boost_net/boost_net/websocket_session.hpp 308-317 WebsocketSession::handle_resolve *)
definition wss_handle_resolve :: "bool \<Rightarrow> ws_session \<Rightarrow> ws_session" where
  "wss_handle_resolve ec s = (if ec then wss_close s else ws_add_op WsConnect s)"

(* src: boost_net/boost_net/websocket_session.hpp 320-344 WebsocketSession::handle_connect *)
definition wss_handle_connect :: "bool \<Rightarrow> ws_session \<Rightarrow> ws_session" where
  "wss_handle_connect ec s = (if ec then wss_close s else ws_add_op WsHandshake (s\<lparr>ws_open := True\<rparr>))"

(* src: boost_net/boost_net/websocket_session.hpp 357-376 WebsocketSession::handle_start *)
definition wss_handle_start :: "bool \<Rightarrow> ws_session \<Rightarrow> ws_session" where
  "wss_handle_start ec s =
     (if ec then wss_close s
      else let (b, w) = as_start (ws_switch s); s1 = s\<lparr>ws_switch := w\<rparr>
           in if \<not> b then wss_close s1 else (wss_read s1)\<lparr>ws_events := ws_events s @ [Opened]\<rparr>)"

(* src: boost_net/boost_net/websocket_session.hpp 346-354 WebsocketSession::handle_handshake *)
definition wss_handle_handshake :: "bool \<Rightarrow> ws_session \<Rightarrow> ws_session" where
  "wss_handle_handshake ec s = (if ec then wss_close s else wss_handle_start ec s)"

text \<open>
  What arrives is behind the rest in the read buffer, committed by the handler or, in a read of a
  whole message, by the stream.
\<close>

(* src: boost_net/boost_net/websocket_session.hpp 379-401 WebsocketSession::handle_read *)
definition wss_handle_read :: "bool \<Rightarrow> bytes \<Rightarrow> (ws_session \<Rightarrow> ws_session option) \<Rightarrow> ws_session \<Rightarrow> ws_session option" where
  "wss_handle_read ec data cbk s =
     (if ec then Some (wss_shutdown s)
      else do {
        let s1 = s\<lparr>ws_read_buf := ws_read_buf s @ data\<rparr>;
        s2 \<leftarrow> (if ws_has_read_cbk s1 then cbk (s1\<lparr>ws_events := ws_events s1 @ [ReadCalled (ws_read_buf s1)]\<rparr>)
               else Some (wss_consume (length data) s1));
        if has_stoped (ws_switch s2) then Some s2 else Some (wss_read s2) })"

(* src: boost_net/boost_net/websocket_session.hpp 404-424 WebsocketSession::handle_write *)
definition wss_handle_write :: "bool \<Rightarrow> ws_session \<Rightarrow> ws_session option" where
  "wss_handle_write ec s =
     (if ec then Some (wss_shutdown s)
      else if has_stoped (ws_switch s) then Some s
      else do {
        let s1 = (case ws_current s of None \<Rightarrow> s
                  | Some m \<Rightarrow> s\<lparr>ws_events := ws_events s @ [Written (ms_body m)]\<rparr>);
        let s2 = s1\<lparr>ws_write_buf := wb_release (ws_current s1) (ws_write_buf s1), ws_current := None\<rparr>;
        if wb_items (ws_write_buf s2) = [] then Some s2 else wss_write_next s2 })"

section \<open>Sessions with their clients\<close>

text \<open>The session with the messages that were accepted since it was last closed.\<close>

type_synonym ws_sys = "ws_session \<times> bytes list"

definition ws_closes :: "ws_session \<Rightarrow> nat" where
  "ws_closes s = length (filter (\<lambda>e. e = Closed) (ws_events s))"

definition ws_since_close :: "ws_session \<Rightarrow> ws_session \<Rightarrow> bytes list \<Rightarrow> bytes list" where
  "ws_since_close s s' acc = (if ws_closes s' = ws_closes s then acc else [])"

fun run_ws_call :: "client_call \<Rightarrow> ws_sys \<Rightarrow> ws_sys option" where
  "run_ws_call (CWrite msg) (s, acc) =
     do { (ok, s') \<leftarrow> wss_write msg s; Some (s', if ok then acc @ [msg] else acc) }"
| "run_ws_call (CConsume n) (s, acc) = Some (wss_consume n s, acc)"
| "run_ws_call CShutdown (s, acc) = Some (wss_shutdown s, ws_since_close s (wss_shutdown s) acc)"

fun run_ws_calls :: "client_call list \<Rightarrow> ws_sys \<Rightarrow> ws_sys option" where
  "run_ws_calls [] z = Some z"
| "run_ws_calls (c # cs) z = Option.bind (run_ws_call c z) (run_ws_calls cs)"

definition ws_drop_op :: "nat \<Rightarrow> ws_session \<Rightarrow> ws_session" where
  "ws_drop_op k s = s\<lparr>ws_ops := take k (ws_ops s) @ drop (Suc k) (ws_ops s)\<rparr>"

text \<open>
  The handler of an operation. The calls of a read callback run between the arrival and the next
  read; what they accept counts.
\<close>

definition ws_handle_op :: "ws_op \<Rightarrow> bool \<Rightarrow> bytes \<Rightarrow> client_call list \<Rightarrow> ws_sys \<Rightarrow> ws_sys option" where
  "ws_handle_op op ec data cs z =
     (let (s, acc) = z; finish = (\<lambda>s'. (s', ws_since_close s s' acc)) in
      case op of
        WsResolve \<Rightarrow> Some (finish (wss_handle_resolve ec s))
      | WsConnect \<Rightarrow> Some (finish (wss_handle_connect ec s))
      | WsHandshake \<Rightarrow> Some (finish (wss_handle_handshake ec s))
      | WsAccept \<Rightarrow> Some (finish (wss_handle_start ec (if ec then s else s\<lparr>ws_open := True\<rparr>)))
      | WsWrite _ \<Rightarrow> map_option finish (wss_handle_write ec s)
      | WsRead _ \<Rightarrow>
          if ec \<or> \<not> ws_has_read_cbk s then map_option finish (wss_handle_read ec data Some s)
          else do {
            (s2, acc2) \<leftarrow> run_ws_calls cs (s\<lparr>ws_read_buf := ws_read_buf s @ data,
                ws_events := ws_events s @ [ReadCalled (ws_read_buf s @ data)]\<rparr>, acc);
            s' \<leftarrow> wss_handle_read False data (\<lambda>_. Some s2) s;
            Some (s', acc2) })"

text \<open>
  The data of a read fits into its buffer or, as a whole message, keeps the maximum the constructor
  sets.
\<close>

inductive ws_step :: "ws_sys option \<Rightarrow> ws_sys option \<Rightarrow> bool" where
  start: "ws_step (Some (s, acc)) (Some (wss_start s, acc))"
| connect: "ws_step (Some (s, acc)) (Some (wss_connect s, acc))"
| client: "ws_step (Some z) (run_ws_call c z)"
| handle: "k < length (ws_ops s) \<Longrightarrow> ws_ops s ! k = (op, b) \<Longrightarrow> (b \<longrightarrow> ec) \<Longrightarrow>
    (\<forall>n. op = WsRead (Some n) \<longrightarrow> length data \<le> n) \<Longrightarrow>
    (op = WsRead None \<longrightarrow> length data \<le> ws_max_rbuffer s) \<Longrightarrow>
    ws_step (Some (s, acc)) (ws_handle_op op ec data cs (ws_drop_op k s, acc))"

section \<open>The write side as that of TcpSession\<close>

primrec tcp_op :: "ws_op \<Rightarrow> io_op" where
  "tcp_op WsResolve = ConnectOp"
| "tcp_op WsConnect = ConnectOp"
| "tcp_op WsHandshake = ConnectOp"
| "tcp_op WsAccept = ConnectOp"
| "tcp_op (WsRead n) = ConnectOp"
| "tcp_op (WsWrite bs) = WriteOp bs"

definition as_tcp :: "ws_session \<Rightarrow> tcp_session" where
  "as_tcp s = \<lparr>ts_open = ws_open s, ts_ops = map (apfst tcp_op) (ws_ops s), ts_sent = ws_sent s,
     ts_read_buf = [], ts_max_rbuffer = 0, ts_write_buf = ws_write_buf s, ts_current = ws_current s,
     ts_max_wbuffer = ws_max_wbuffer s, ts_has_read_cbk = False, ts_events = ws_events s, ts_switch = ws_switch s\<rparr>"

lemma as_tcp_fields [simp]:
  "ts_open (as_tcp s) = ws_open s" "ts_sent (as_tcp s) = ws_sent s" "ts_write_buf (as_tcp s) = ws_write_buf s"
  "ts_current (as_tcp s) = ws_current s" "ts_max_wbuffer (as_tcp s) = ws_max_wbuffer s"
  "ts_events (as_tcp s) = ws_events s" "ts_switch (as_tcp s) = ws_switch s" "ts_read_buf (as_tcp s) = []"
  "ts_max_rbuffer (as_tcp s) = 0" "closes (as_tcp s) = ws_closes s"
  by (simp_all add: as_tcp_def closes_def ws_closes_def)

lemma as_tcp_drop: "as_tcp (ws_drop_op k s) = drop_op k (as_tcp s)"
  by (simp add: as_tcp_def ws_drop_op_def drop_op_def take_map drop_map)

lemma ws_drop_fields [simp]:
  "ws_switch (ws_drop_op k s) = ws_switch s" "ws_read_some (ws_drop_op k s) = ws_read_some s"
  "ws_closes (ws_drop_op k s) = ws_closes s" "ws_write_buf (ws_drop_op k s) = ws_write_buf s"
  "ws_current (ws_drop_op k s) = ws_current s" "ws_sent (ws_drop_op k s) = ws_sent s"
  "ws_read_buf (ws_drop_op k s) = ws_read_buf s" "ws_events (ws_drop_op k s) = ws_events s"
  "ws_has_read_cbk (ws_drop_op k s) = ws_has_read_cbk s"
  by (simp_all add: ws_drop_op_def ws_closes_def)

text \<open>tcp_inv looks at the live writes and reads only.\<close>

lemma tcp_inv_cong:
  "tcp_inv s acc \<Longrightarrow> live_writes s' = live_writes s \<Longrightarrow> live_reads s' = live_reads s \<Longrightarrow> ts_open s' = ts_open s \<Longrightarrow>
     ts_write_buf s' = ts_write_buf s \<Longrightarrow> ts_current s' = ts_current s \<Longrightarrow> ts_sent s' = ts_sent s \<Longrightarrow>
     ts_switch s' = ts_switch s \<Longrightarrow> ts_read_buf s' = ts_read_buf s \<Longrightarrow> ts_max_rbuffer s' = ts_max_rbuffer s \<Longrightarrow>
     tcp_inv s' acc"
  by (simp add: tcp_inv_def tcp_base_def sending_def)

lemma tcp_op_cases [simp]:
  "(case tcp_op op of ReadOp n \<Rightarrow> True | _ \<Rightarrow> False) = False"
  "(case tcp_op op of WriteOp b \<Rightarrow> True | _ \<Rightarrow> False) = (case op of WsWrite _ \<Rightarrow> True | _ \<Rightarrow> False)"
  by (cases op; simp)+

lemma as_tcp_live: "live_writes (as_tcp s) = [tcp_op op. (op, b) \<leftarrow> ws_ops s, \<not> b, case op of WsWrite _ \<Rightarrow> True | _ \<Rightarrow> False]"
  "live_reads (as_tcp s) = []"
  by (auto simp: live_writes_def live_reads_def as_tcp_def comp_def case_prod_beta
      intro!: arg_cong [of _ _ concat] split: ws_op.splits)

lemma as_tcp_add:
  "(case op of WsWrite _ \<Rightarrow> False | _ \<Rightarrow> True) \<Longrightarrow> tcp_inv (as_tcp s) acc \<Longrightarrow> tcp_inv (as_tcp (ws_add_op op s)) acc"
  by (erule tcp_inv_cong) (simp_all add: as_tcp_live, simp_all add: ws_add_op_def split: ws_op.splits)

lemma as_tcp_add_write:
  "as_tcp (ws_add_op (WsWrite bs) s) = add_op (WriteOp bs) (as_tcp s)"
  by (simp add: as_tcp_def ws_add_op_def add_op_def)

lemma wss_close_inv:
  "wb_holds (ws_write_buf s) \<Longrightarrow> tcp_inv (as_tcp (wss_close s)) []"
  using wb_clear_holds [of "ws_write_buf s"]
  by (auto simp: tcp_inv_def tcp_base_def sending_def as_tcp_live wss_close_def wb_bodies_def comp_def)

lemma wss_close_closes: "ws_closes (wss_close s) = ws_closes s + 1"
  by (simp add: wss_close_def ws_closes_def)

lemma as_write_next:
  assumes "ws_read_some s"
  shows "ts_write_next (as_tcp s) = map_option as_tcp (wss_write_next s)"
proof (cases "wb_pop_front (ws_write_buf s)")
  case (Some p)
  then show ?thesis using assms
    by (cases p) (simp add: ts_write_next_def wss_write_next_def Let_def as_tcp_def ws_add_op_def add_op_def)
qed (simp add: ts_write_next_def wss_write_next_def)

lemma as_upd:
  "as_tcp (s\<lparr>ws_write_buf := w\<rparr>) = (as_tcp s)\<lparr>ts_write_buf := w\<rparr>"
  "as_tcp (s\<lparr>ws_current := c\<rparr>) = (as_tcp s)\<lparr>ts_current := c\<rparr>"
  "as_tcp (s\<lparr>ws_events := e\<rparr>) = (as_tcp s)\<lparr>ts_events := e\<rparr>"
  "as_tcp (s\<lparr>ws_switch := x\<rparr>) = (as_tcp s)\<lparr>ts_switch := x\<rparr>"
  "as_tcp (s\<lparr>ws_read_buf := b\<rparr>) = as_tcp s"
  by (simp_all add: as_tcp_def)

lemma as_write:
  assumes "ws_read_some s"
  shows "ts_write msg (as_tcp s) = map_option (\<lambda>(ok, s). (ok, as_tcp s)) (wss_write msg s)"
proof -
  have l: "over_limit msg (as_tcp s) = wss_over_limit msg s" by (simp add: over_limit_def wss_over_limit_def)
  show ?thesis
    using as_write_next [of "s\<lparr>ws_write_buf := w\<rparr>" for w] assms
    by (auto simp: ts_write_def wss_write_def l Let_def as_upd split: Option.bind_splits option.splits)
qed

lemma as_handle_write:
  assumes "ws_read_some s"
  shows "handle_write False (as_tcp s) = map_option as_tcp (wss_handle_write False s)"
proof (cases "ws_current s")
  case None
  define s2 where "s2 = s\<lparr>ws_write_buf := wb_release None (ws_write_buf s), ws_current := None\<rparr>"
  have "as_tcp s2 = (as_tcp s)\<lparr>ts_write_buf := wb_release None (ws_write_buf s), ts_current := None\<rparr>"
    by (simp add: s2_def as_upd)
  moreover have "ws_read_some s2" using assms by (simp add: s2_def)
  ultimately show ?thesis using None as_write_next [of s2]
    by (simp add: handle_write_def wss_handle_write_def Let_def s2_def)
next
  case (Some m)
  define s2 where "s2 = s\<lparr>ws_events := ws_events s @ [Written (ms_body m)],
    ws_write_buf := wb_release (Some m) (ws_write_buf s), ws_current := None\<rparr>"
  have "as_tcp s2 = (as_tcp s)\<lparr>ts_events := ws_events s @ [Written (ms_body m)],
      ts_write_buf := wb_release (Some m) (ws_write_buf s), ts_current := None\<rparr>"
    by (simp add: s2_def as_upd)
  moreover have "ws_read_some s2" using assms by (simp add: s2_def)
  ultimately show ?thesis using Some as_write_next [of s2]
    by (simp add: handle_write_def wss_handle_write_def Let_def s2_def)
qed

section \<open>The invariant\<close>

text \<open>Opening a connection is a chain of operations, one at a time, before the session is started.\<close>

primrec chain_op :: "ws_op \<Rightarrow> bool" where
  "chain_op WsResolve = True"
| "chain_op WsConnect = True"
| "chain_op WsHandshake = True"
| "chain_op WsAccept = True"
| "chain_op (WsRead n) = False"
| "chain_op (WsWrite bs) = False"

definition chain :: "ws_session \<Rightarrow> ws_op list" where
  "chain s = map fst (filter (\<lambda>(op, b). chain_op op \<and> \<not> b) (ws_ops s))"

definition chain_ok :: "ws_session \<Rightarrow> bool" where
  "chain_ok s \<longleftrightarrow> (bstart (ws_switch s) \<longrightarrow> binit (ws_switch s)) \<and>
     (chain s = [] \<or> (\<exists>op. chain s = [op]) \<and> has_init (ws_switch s) \<and> \<not> bstart (ws_switch s))"

definition ws_inv :: "ws_session \<Rightarrow> bytes list \<Rightarrow> bool" where
  "ws_inv s acc \<longleftrightarrow> tcp_inv (as_tcp s) acc \<and> chain_ok s"

lemma chain_simps [simp]:
  "chain (s\<lparr>ws_open := a\<rparr>) = chain s" "chain (s\<lparr>ws_switch := w\<rparr>) = chain s"
  "chain (s\<lparr>ws_read_buf := b\<rparr>) = chain s" "chain (s\<lparr>ws_write_buf := u\<rparr>) = chain s"
  "chain (s\<lparr>ws_current := c\<rparr>) = chain s" "chain (s\<lparr>ws_sent := x\<rparr>) = chain s"
  "chain (s\<lparr>ws_events := e\<rparr>) = chain s" "chain (wss_close s) = []"
  "chain (ws_add_op op s) = chain s @ (if chain_op op then [op] else [])"
  by (auto simp: chain_def wss_close_def ws_add_op_def comp_def filter_map case_prod_beta split: ws_op.splits)

lemma ws_add_fields [simp]:
  "ws_switch (ws_add_op op s) = ws_switch s" "ws_closes (ws_add_op op s) = ws_closes s"
  "ws_read_some (ws_add_op op s) = ws_read_some s" "ws_open (ws_add_op op s) = ws_open s"
  "ws_max_rbuffer (ws_add_op op s) = ws_max_rbuffer s" "ws_read_buf (ws_add_op op s) = ws_read_buf s"
  "ws_current (ws_add_op op s) = ws_current s" "ws_write_buf (ws_add_op op s) = ws_write_buf s"
  "ws_sent (ws_add_op op s) = ws_sent s" "ws_has_read_cbk (ws_add_op op s) = ws_has_read_cbk s"
  "ws_events (ws_add_op op s) = ws_events s"
  by (simp_all add: ws_add_op_def ws_closes_def)

lemma close_fields [simp]:
  "ws_switch (wss_close s) = as_reset (ws_switch s)" "ws_read_some (wss_close s) = ws_read_some s"
  by (simp_all add: wss_close_def)

lemma chain_close [simp]: "chain_ok (wss_close s)"
  by (simp add: chain_ok_def) (simp add: as_reset_def)

lemma chain_drop:
  assumes "k < length (ws_ops s)" "ws_ops s ! k = (op, b)"
  obtains C1 C2 where "chain s = C1 @ (if chain_op op \<and> \<not> b then [op] else []) @ C2" "chain (ws_drop_op k s) = C1 @ C2"
proof -
  have sp: "ws_ops s = take k (ws_ops s) @ (op, b) # drop (Suc k) (ws_ops s)"
    using id_take_nth_drop [OF assms(1)] assms(2) by simp
  define xs ys where "xs = take k (ws_ops s)" and "ys = drop (Suc k) (ws_ops s)"
  have e: "ws_ops s = xs @ (op, b) # ys" using sp by (simp add: xs_def ys_def)
  have d: "ws_ops (ws_drop_op k s) = xs @ ys" by (simp add: ws_drop_op_def xs_def ys_def)
  show ?thesis
    by (rule that [of "chain (s\<lparr>ws_ops := xs\<rparr>)" "chain (s\<lparr>ws_ops := ys\<rparr>)"]) (simp_all add: chain_def e d)
qed

lemma chain_ok_drop:
  assumes "chain_ok s" "k < length (ws_ops s)" "ws_ops s ! k = (op, b)"
  shows "chain_ok (ws_drop_op k s)"
    and "chain_op op \<Longrightarrow> \<not> b \<Longrightarrow> chain (ws_drop_op k s) = [] \<and> has_init (ws_switch s) \<and> \<not> bstart (ws_switch s)"
  by (rule chain_drop [OF assms(2,3)], use assms(1) in \<open>auto simp: chain_ok_def append_eq_Cons_conv split: if_splits\<close>)+

lemma chain_cong: "chain_ok s \<Longrightarrow> chain s' = chain s \<Longrightarrow> ws_switch s' = ws_switch s \<Longrightarrow> chain_ok s'"
  by (simp add: chain_ok_def)

lemma ws_inv_wb: "ws_inv s acc \<Longrightarrow> wb_holds (ws_write_buf s)"
  by (simp add: ws_inv_def tcp_inv_def tcp_base_def)

lemma wss_shutdown_cases:
  "wss_shutdown s = s \<and> \<not> has_started (ws_switch s) \<or>
     (\<exists>w. wss_shutdown s = wss_close (s\<lparr>ws_switch := w\<rparr>)) \<and> has_started (ws_switch s)"
  using as_stop_started [of "ws_switch s"]
  by (cases "as_stop (ws_switch s)") (auto simp: wss_shutdown_def)

lemma closed_inv:
  "wb_holds (ws_write_buf s) \<Longrightarrow> ws_inv (wss_close s) [] \<and> ws_closes (wss_close s) \<noteq> ws_closes s"
  by (simp add: ws_inv_def wss_close_inv wss_close_closes)

lemma ws_shutdown_inv:
  assumes "wb_holds (ws_write_buf s)" "\<not> has_started (ws_switch s) \<Longrightarrow> ws_inv s acc"
  shows "ws_inv (wss_shutdown s) (ws_since_close s (wss_shutdown s) acc)"
  using wss_shutdown_cases [of s]
proof
  assume "wss_shutdown s = s \<and> \<not> has_started (ws_switch s)"
  then show ?thesis using assms(2) by (simp add: ws_since_close_def)
next
  assume "(\<exists>w. wss_shutdown s = wss_close (s\<lparr>ws_switch := w\<rparr>)) \<and> has_started (ws_switch s)"
  then obtain w where w: "wss_shutdown s = wss_close (s\<lparr>ws_switch := w\<rparr>)" by blast
  have "ws_closes (s\<lparr>ws_switch := w\<rparr>) = ws_closes s" by (simp add: ws_closes_def)
  then show ?thesis using closed_inv [of "s\<lparr>ws_switch := w\<rparr>"] assms(1) w by (simp add: ws_since_close_def)
qed

lemma ws_closes_upd [simp]:
  "ws_closes (s\<lparr>ws_open := a\<rparr>) = ws_closes s" "ws_closes (s\<lparr>ws_switch := w\<rparr>) = ws_closes s"
  "ws_closes (s\<lparr>ws_read_buf := b\<rparr>) = ws_closes s" "ws_closes (s\<lparr>ws_write_buf := u\<rparr>) = ws_closes s"
  "ws_closes (s\<lparr>ws_current := c\<rparr>) = ws_closes s" "ws_closes (s\<lparr>ws_sent := x\<rparr>) = ws_closes s"
  by (simp_all add: ws_closes_def)

text \<open>What writing leaves alone.\<close>

definition same_frame :: "ws_session \<Rightarrow> ws_session \<Rightarrow> bool" where
  "same_frame s s' \<longleftrightarrow> chain s' = chain s \<and> ws_switch s' = ws_switch s \<and> ws_read_some s' = ws_read_some s \<and>
     ws_closes s' = ws_closes s"

lemma write_next_frame: "wss_write_next s = Some s' \<Longrightarrow> same_frame s s'"
  by (cases "wb_pop_front (ws_write_buf s)") (auto simp: wss_write_next_def Let_def same_frame_def split: if_splits)

lemma wss_write_frame:
  assumes "wss_write msg s = Some (ok, s')"
  shows "same_frame s s'"
proof (cases "has_started (ws_switch s) \<and> \<not> wss_over_limit msg s")
  case False
  then have "s' = s" using assms by (auto simp: wss_write_def split: if_splits)
  then show ?thesis by (simp add: same_frame_def)
next
  case True
  then obtain w where w: "wb_append msg (ws_write_buf s) = Some w"
    using assms by (auto simp: wss_write_def bind_Some_iff)
  have "s' = s\<lparr>ws_write_buf := w\<rparr> \<or> wss_write_next (s\<lparr>ws_write_buf := w\<rparr>) = Some s'"
    using assms True w by (auto simp: wss_write_def Let_def bind_Some_iff split: if_splits)
  then show ?thesis
    by (elim disjE) (simp add: same_frame_def, drule write_next_frame, simp add: same_frame_def)
qed

lemma ws_call_inv:
  assumes i: "ws_inv s acc" and b: "ws_read_some s"
  shows "\<exists>s' acc'. run_ws_call c (s, acc) = Some (s', acc') \<and> ws_inv s' acc' \<and> ws_read_some s'"
proof (cases c)
  case (CWrite msg)
  have "tcp_inv (as_tcp s) acc" using i by (simp add: ws_inv_def)
  from write_inv [OF this, of msg] obtain ok t where
    t: "ts_write msg (as_tcp s) = Some (ok, t)" "tcp_inv t (if ok then acc @ [msg] else acc)" by blast
  then obtain s' where s': "wss_write msg s = Some (ok, s')" "t = as_tcp s'"
    using as_write [OF b, of msg] by auto
  moreover have "chain_ok s'" using i wss_write_frame [OF s'(1)] by (simp add: ws_inv_def chain_ok_def same_frame_def)
  ultimately have "ws_inv s' (if ok then acc @ [msg] else acc)"
    using t(2) by (simp add: ws_inv_def)
  then show ?thesis using s'(1) CWrite wss_write_frame [OF s'(1)] b by (simp add: same_frame_def)
next
  case (CConsume n)
  then show ?thesis using i b by (simp add: wss_consume_def ws_inv_def as_upd chain_ok_def)
next
  case CShutdown
  have "ws_read_some (wss_shutdown s)" using wss_shutdown_cases [of s] b by auto
  then show ?thesis using CShutdown ws_shutdown_inv [OF ws_inv_wb [OF i], of acc] i by simp
qed

lemma ws_calls_inv:
  "ws_inv s acc \<Longrightarrow> ws_read_some s \<Longrightarrow>
     \<exists>s' acc'. run_ws_calls cs (s, acc) = Some (s', acc') \<and> ws_inv s' acc' \<and> ws_read_some s'"
proof (induction cs arbitrary: s acc)
  case (Cons c cs)
  obtain s1 acc1 where c: "run_ws_call c (s, acc) = Some (s1, acc1)" "ws_inv s1 acc1" "ws_read_some s1"
    using ws_call_inv [OF Cons.prems] by blast
  then show ?case using Cons.IH [OF c(2,3)] by auto
qed simp

lemma wss_read_inv: "ws_inv s acc \<Longrightarrow> ws_inv (wss_read s) acc"
  using as_tcp_add [of "WsRead n" s acc for n] by (simp add: ws_inv_def wss_read_def chain_ok_def)

lemma wss_read_some: "ws_read_some (wss_read s) = ws_read_some s"
  by (simp add: wss_read_def)

lemma wss_handle_start_inv:
  assumes "tcp_inv (as_tcp s) acc" "chain s = []" "has_init (ws_switch s)"
  shows "ws_inv (wss_handle_start ec s) (ws_since_close s (wss_handle_start ec s) acc)"
proof -
  have wb: "wb_holds (ws_write_buf s)" using assms(1) by (simp add: tcp_inv_def tcp_base_def)
  obtain b w where w: "as_start (ws_switch s) = (b, w)" by fastforce
  define s1 where "s1 = s\<lparr>ws_switch := w\<rparr>"
  have c1: "ws_closes s1 = ws_closes s" by (simp add: s1_def ws_closes_def)
  show ?thesis
  proof (cases "ec \<or> \<not> b")
    case True
    then have "wss_handle_start ec s = wss_close s \<or> wss_handle_start ec s = wss_close s1"
      using w by (auto simp: wss_handle_start_def s1_def)
    then show ?thesis using closed_inv [OF wb] closed_inv [of s1] wb c1
      by (auto simp: ws_since_close_def s1_def)
  next
    case False
    define s2 where "s2 = (wss_read s1)\<lparr>ws_events := ws_events s @ [Opened]\<rparr>"
    have e: "wss_handle_start ec s = s2" using False w by (simp add: wss_handle_start_def s1_def s2_def)
    have st: "has_started w" "binit w" using w False by (auto simp: switch_defs split: if_splits)
    have t1: "tcp_inv (as_tcp s1) acc"
      using assms(1) st by (auto simp: s1_def as_upd tcp_inv_def tcp_base_def sending_def)
    have "ws_inv s1 acc" using t1 assms(2) st by (simp add: ws_inv_def chain_ok_def s1_def)
    then have "ws_inv (wss_read s1) acc" by (rule wss_read_inv)
    then have "ws_inv s2 acc"
      by (auto simp: s2_def ws_inv_def as_upd chain_ok_def tcp_inv_def tcp_base_def sending_def)
    moreover have "ws_closes s2 = ws_closes s" by (simp add: s2_def s1_def wss_read_def ws_closes_def)
    ultimately show ?thesis by (simp add: e ws_since_close_def)
  qed
qed

lemma write_next_inv_frame:
  "wss_handle_write False s = Some s' \<Longrightarrow> chain s' = chain s \<and> ws_switch s' = ws_switch s \<and> ws_read_some s' = ws_read_some s"
  by (cases "ws_current s")
     (auto simp: wss_handle_write_def Let_def same_frame_def split: if_splits dest!: write_next_frame)

lemma ws_handle_write_inv:
  assumes i: "ws_inv s acc" and r: "ws_read_some s" and k: "k < length (ws_ops s)" "ws_ops s ! k = (WsWrite bs, b)"
    and b: "b \<longrightarrow> ec"
  shows "\<exists>s'. wss_handle_write ec (ws_drop_op k s) = Some s' \<and>
    ws_inv s' (ws_since_close (ws_drop_op k s) s' acc) \<and> ws_read_some s'"
proof -
  let ?s0 = "ws_drop_op k s"
  have t: "tcp_inv (as_tcp s) acc" using i by (simp add: ws_inv_def)
  have kt: "k < length (ts_ops (as_tcp s))" "ts_ops (as_tcp s) ! k = (WriteOp bs, b)"
    using k by (simp_all add: as_tcp_def)
  have b': "b \<Longrightarrow> ec" using b by simp
  obtain t' where t': "handle_write ec (drop_op k (as_tcp s)) = Some t'"
    "tcp_inv t' (since_close (drop_op k (as_tcp s)) t' acc)"
    using handle_write_inv [OF t kt b'] by blast
  have c0: "chain_ok ?s0" using chain_ok_drop(1) i k by (auto simp: ws_inv_def)
  show ?thesis
  proof (cases ec)
    case True
    have "ws_inv ?s0 acc" if "\<not> has_started (ws_switch ?s0)"
    proof -
      have "\<not> fst (as_stop (ws_switch s))" using that by (simp add: as_stop_started)
      then have "t' = drop_op k (as_tcp s)"
        using t'(1) True by (simp add: handle_write_def ts_shutdown_def split_beta Let_def flip: as_tcp_drop)
      then show ?thesis using t'(2) c0 by (simp add: ws_inv_def since_close_def as_tcp_drop)
    qed
    then have "ws_inv (wss_shutdown ?s0) (ws_since_close ?s0 (wss_shutdown ?s0) acc)"
      using ws_shutdown_inv [of ?s0 acc] ws_inv_wb [OF i] by simp
    moreover have "ws_read_some (wss_shutdown ?s0)" using wss_shutdown_cases [of ?s0] r by auto
    ultimately show ?thesis using True by (simp add: wss_handle_write_def)
  next
    case False
    have "ws_read_some ?s0" using r by simp
    from as_handle_write [OF this] obtain s' where s': "wss_handle_write False ?s0 = Some s'" "t' = as_tcp s'"
      using t'(1) False by (auto simp: as_tcp_drop)
    have f: "chain s' = chain ?s0" "ws_switch s' = ws_switch ?s0" "ws_read_some s'"
      using write_next_inv_frame [OF s'(1)] r by simp_all
    then have "chain_ok s'" using chain_cong [OF c0] by simp
    moreover have "ws_since_close ?s0 s' acc = since_close (drop_op k (as_tcp s)) t' acc"
      using s'(2) by (simp add: ws_since_close_def since_close_def flip: as_tcp_drop)
    ultimately show ?thesis using s' t'(2) f False by (auto simp: ws_inv_def)
  qed
qed

lemma drop_nonwrite_inv:
  assumes i: "ws_inv s acc" and k: "k < length (ws_ops s)" "ws_ops s ! k = (op, b)"
    and op: "case op of WsWrite _ \<Rightarrow> False | _ \<Rightarrow> True"
  shows "ws_inv (ws_drop_op k s) acc"
proof -
  have "tcp_op op = ConnectOp" using op by (cases op) simp_all
  then have kt: "k < length (ts_ops (as_tcp s))" "ts_ops (as_tcp s) ! k = (ConnectOp, b)"
    using k by (simp_all add: as_tcp_def)
  have "tcp_inv (drop_op k (as_tcp s)) acc" using drop_other_inv [OF _ kt] i by (simp add: ws_inv_def)
  then show ?thesis using chain_ok_drop(1) i k by (auto simp: ws_inv_def as_tcp_drop)
qed

lemma ws_handle_read_inv:
  assumes i: "ws_inv s acc" and r: "ws_read_some s" and k: "k < length (ws_ops s)" "ws_ops s ! k = (WsRead n, b)"
  shows "\<exists>s' acc'. ws_handle_op (WsRead n) ec data cs (ws_drop_op k s, acc) = Some (s', acc') \<and> ws_inv s' acc' \<and>
    ws_read_some s'"
proof -
  define s0 where "s0 = ws_drop_op k s"
  have i0: "ws_inv s0 acc" "ws_read_some s0" using drop_nonwrite_inv [OF i k] r by (simp_all add: s0_def)
  have on: "ws_inv (if has_stoped (ws_switch s2) then s2 else wss_read s2) acc2 \<and>
      ws_read_some (if has_stoped (ws_switch s2) then s2 else wss_read s2)"
    if "ws_inv s2 acc2" "ws_read_some s2" for s2 acc2
    using that wss_read_inv [of s2 acc2] wss_read_some [of s2] by simp
  show ?thesis
  proof (cases ec)
    case True
    have "ws_inv (wss_shutdown s0) (ws_since_close s0 (wss_shutdown s0) acc)"
      using ws_shutdown_inv [OF ws_inv_wb [OF i0(1)]] i0(1) by blast
    moreover have "ws_read_some (wss_shutdown s0)" using wss_shutdown_cases [of s0] i0(2) by auto
    ultimately show ?thesis using True by (simp add: ws_handle_op_def wss_handle_read_def Let_def flip: s0_def)
  next
    case noec: False
    define s1 where "s1 = s0\<lparr>ws_read_buf := ws_read_buf s0 @ data\<rparr>"
    have i1: "ws_inv s1 acc" "ws_read_some s1" using i0 by (simp_all add: s1_def ws_inv_def as_upd chain_ok_def)
    show ?thesis
    proof (cases "ws_has_read_cbk s0")
      case True
      define s2 where "s2 = s1\<lparr>ws_events := ws_events s1 @ [ReadCalled (ws_read_buf s1)]\<rparr>"
      have "ws_inv s2 acc" "ws_read_some s2" using i1
        by (simp_all add: s2_def ws_inv_def as_upd chain_ok_def tcp_inv_def tcp_base_def sending_def)
      then obtain s3 acc3 where c: "run_ws_calls cs (s2, acc) = Some (s3, acc3)" "ws_inv s3 acc3" "ws_read_some s3"
        using ws_calls_inv by blast
      have s2e: "s2 = s0\<lparr>ws_read_buf := ws_read_buf s0 @ data, ws_events := ws_events s0 @ [ReadCalled (ws_read_buf s0 @ data)]\<rparr>"
        by (simp add: s2_def s1_def)
      show ?thesis
        using on [OF c(2,3)] c(1) True noec
        by (cases "has_stoped (ws_switch s3)")
           (simp_all add: ws_handle_op_def wss_handle_read_def Let_def s2e flip: s0_def)
    next
      case False
      define s2 where "s2 = wss_consume (length data) s1"
      have i2: "ws_inv s2 acc" "ws_read_some s2" using i1
        by (simp_all add: s2_def wss_consume_def ws_inv_def as_upd chain_ok_def)
      define s3 where "s3 = (if has_stoped (ws_switch s2) then s2 else wss_read s2)"
      have "wss_handle_read False data Some s0 = Some s3"
        using False by (simp add: wss_handle_read_def Let_def s1_def s2_def s3_def)
      moreover have "ws_closes s3 = ws_closes s0" by (simp add: s3_def s2_def s1_def wss_consume_def wss_read_def)
      ultimately show ?thesis using on [OF i2] False noec
        by (simp add: ws_handle_op_def Let_def ws_since_close_def flip: s0_def s3_def)
    qed
  qed
qed

text \<open>The chain of opening.\<close>

lemma opened_inv:
  assumes "ws_inv s acc" "\<not> bstart (ws_switch s)"
  shows "ws_inv (s\<lparr>ws_open := True\<rparr>) acc"
proof -
  have "\<not> has_started (ws_switch s)" using assms(2) by (simp add: has_started_def)
  then have "tcp_inv (as_tcp (s\<lparr>ws_open := True\<rparr>)) acc"
    using assms(1) by (auto simp: ws_inv_def tcp_inv_def tcp_base_def sending_def as_tcp_live)
  then show ?thesis using assms(1) by (simp add: ws_inv_def chain_ok_def)
qed

lemma ws_chain_inv:
  assumes i: "ws_inv s acc" and r: "ws_read_some s" and k: "k < length (ws_ops s)" "ws_ops s ! k = (op, b)"
    and b: "b \<longrightarrow> ec" and op: "chain_op op"
  shows "\<exists>s'. ws_handle_op op ec data cs (ws_drop_op k s, acc) = Some (s', ws_since_close (ws_drop_op k s) s' acc) \<and>
    ws_inv s' (ws_since_close (ws_drop_op k s) s' acc) \<and> ws_read_some s'"
proof -
  define s0 where "s0 = ws_drop_op k s"
  have nw: "case op of WsWrite _ \<Rightarrow> False | _ \<Rightarrow> True" using op by (cases op) simp_all
  have i0: "ws_inv s0 acc" "ws_read_some s0" using drop_nonwrite_inv [OF i k nw] r by (simp_all add: s0_def)
  have cl: "ws_inv (wss_close s0) (ws_since_close s0 (wss_close s0) acc)"
    using closed_inv [OF ws_inv_wb [OF i0(1)]] by (simp add: ws_since_close_def)
  show ?thesis
  proof (cases ec)
    case True
    then show ?thesis using cl i0(2) op
      by (cases op) (simp_all add: ws_handle_op_def Let_def wss_handle_resolve_def wss_handle_connect_def
        wss_handle_handshake_def wss_handle_start_def flip: s0_def)
  next
    case False
    then have c: "chain s0 = []" "has_init (ws_switch s0)" "\<not> bstart (ws_switch s0)"
      using chain_ok_drop(2) [of s k op b] i k op b by (simp_all add: ws_inv_def s0_def)
    have add: "ws_inv (ws_add_op op' s1) acc" if "ws_inv s1 acc" "chain s1 = []" "has_init (ws_switch s1)"
      "\<not> bstart (ws_switch s1)" "case op' of WsWrite _ \<Rightarrow> False | _ \<Rightarrow> True" for op' s1
      using that as_tcp_add [of op' s1 acc] by (auto simp: ws_inv_def chain_ok_def)
    have op_inv: "ws_inv (s0\<lparr>ws_open := True\<rparr>) acc" using opened_inv i0(1) c(3) by blast
    have st: "ws_inv (wss_handle_start False s1) (ws_since_close s0 (wss_handle_start False s1) acc)"
      if "ws_inv s1 acc" "s1 = s0 \<or> s1 = s0\<lparr>ws_open := True\<rparr>" for s1
      using wss_handle_start_inv [of s1 acc False] that c by (auto simp: ws_inv_def ws_since_close_def)
    have rs: "ws_read_some (wss_handle_start False s1) = ws_read_some s1" for s1
      by (auto simp: wss_handle_start_def wss_read_def Let_def split: prod.splits)
    show ?thesis
    proof (cases op)
      case WsResolve
      then show ?thesis using add [OF i0(1) c, of WsConnect] i0(2) False
        by (simp add: ws_handle_op_def Let_def wss_handle_resolve_def ws_since_close_def flip: s0_def)
    next
      case WsConnect
      then show ?thesis using add [OF op_inv, of WsHandshake] c i0(2) False
        by (simp add: ws_handle_op_def Let_def wss_handle_connect_def ws_since_close_def flip: s0_def)
    next
      case WsHandshake
      then show ?thesis using st [OF i0(1)] rs i0(2) False
        by (simp add: ws_handle_op_def Let_def wss_handle_handshake_def flip: s0_def)
    next
      case WsAccept
      then show ?thesis using st [OF op_inv] rs i0(2) False
        by (simp add: ws_handle_op_def Let_def flip: s0_def)
    qed (use op in simp_all)
  qed
qed

definition ws_sys_ok :: "ws_sys option \<Rightarrow> bool" where
  "ws_sys_ok z \<longleftrightarrow> (\<exists>s acc. z = Some (s, acc) \<and> ws_inv s acc \<and> ws_read_some s)"

lemma init_chain_inv:
  assumes i: "ws_inv s acc" and w: "as_init (ws_switch s) = (True, w)" and op: "chain_op op"
  shows "ws_inv (ws_add_op op (s\<lparr>ws_switch := w\<rparr>)) acc"
proof -
  have nw: "case op of WsWrite _ \<Rightarrow> False | _ \<Rightarrow> True" using op by (cases op) simp_all
  have "tcp_inv (as_tcp (s\<lparr>ws_switch := w\<rparr>)) acc"
    using init_inv(1) [of "as_tcp s" acc w] i w by (simp add: ws_inv_def as_upd)
  moreover have "chain s = []" "binit w" "\<not> bstart w"
    using i w by (auto simp: ws_inv_def chain_ok_def switch_defs split: if_splits)
  ultimately show ?thesis using as_tcp_add [OF nw] op by (simp add: ws_inv_def chain_ok_def has_init_def)
qed

lemma ws_step_ok: "ws_step z z' \<Longrightarrow> ws_sys_ok z \<Longrightarrow> ws_sys_ok z'"
proof (induction rule: ws_step.induct)
  case (start s acc)
  then show ?case using init_chain_inv [of s acc _ WsAccept]
    by (cases "as_init (ws_switch s)") (auto simp: ws_sys_ok_def wss_start_def)
next
  case (connect s acc)
  then show ?case using init_chain_inv [of s acc _ WsResolve]
    by (cases "as_init (ws_switch s)") (auto simp: ws_sys_ok_def wss_connect_def)
next
  case (client z c)
  then show ?case using ws_call_inv by (cases z) (fastforce simp: ws_sys_ok_def)
next
  case (handle k s op b ec data acc cs)
  then have i: "ws_inv s acc" "ws_read_some s" by (simp_all add: ws_sys_ok_def)
  show ?case
  proof (cases "chain_op op")
    case True
    then show ?thesis using ws_chain_inv [OF i handle(1,2)] handle(3) unfolding ws_sys_ok_def by blast
  next
    case nc: False
    show ?thesis
    proof (cases op)
      case (WsRead n)
      then show ?thesis using ws_handle_read_inv [OF i handle(1), of n b ec data cs] handle(2)
        unfolding ws_sys_ok_def by blast
    next
      case (WsWrite bs)
      obtain s' where s': "wss_handle_write ec (ws_drop_op k s) = Some s'"
        "ws_inv s' (ws_since_close (ws_drop_op k s) s' acc)" "ws_read_some s'"
        using ws_handle_write_inv [OF i handle(1), of bs b ec] handle(2,3) WsWrite by blast
      then have "ws_handle_op op ec data cs (ws_drop_op k s, acc) =
          Some (s', ws_since_close (ws_drop_op k s) s' acc)" using WsWrite by (simp add: ws_handle_op_def Let_def)
      then show ?thesis using s'(2,3) unfolding ws_sys_ok_def by blast
    qed (use nc in simp_all)
  qed
qed

lemma ws_reach_ok:
  assumes "ws_step\<^sup>*\<^sup>* (Some (new_ws_session True max_w max_r cb, [])) z"
  shows "ws_sys_ok z"
  using assms
proof (induction rule: rtranclp_induct)
  case base
  show ?case using new_write_buffer_holds
    by (simp add: ws_sys_ok_def ws_inv_def tcp_inv_def tcp_base_def sending_def as_tcp_live new_ws_session_def
        wb_bodies_def chain_ok_def chain_def new_switch_def) (simp add: new_write_buffer_def)
qed (rule ws_step_ok)

section \<open>Sessions for texts\<close>

text \<open>
  Nothing is written, and what is accepted stays: the first message as the current one, the others
  in the queue.
\<close>

definition first_body :: "bytes list \<Rightarrow> cell list option" where
  "first_body acc = (case acc of [] \<Rightarrow> None | msg # _ \<Rightarrow> Some (map Some msg))"

definition text_inv :: "ws_session \<Rightarrow> bytes list \<Rightarrow> bool" where
  "text_inv s acc \<longleftrightarrow> \<not> ws_read_some s \<and> wb_holds (ws_write_buf s) \<and> ws_sent s = [] \<and>
     (\<forall>(op, b) \<in> set (ws_ops s). case op of WsWrite _ \<Rightarrow> False | _ \<Rightarrow> True) \<and>
     map_option ms_body (ws_current s) = first_body acc \<and>
     wb_bodies (ws_write_buf s) = map Some (concat (tl acc)) \<and>
     (ws_current s = None \<longrightarrow> wb_items (ws_write_buf s) = [])"

lemma first_body_append:
  "acc \<noteq> [] \<Longrightarrow> first_body (acc @ [msg]) = first_body acc" "first_body [] = None"
  "first_body acc = None \<longleftrightarrow> acc = []" "first_body [msg] = Some (map Some msg)"
  by (auto simp: first_body_def split: list.splits)

lemma wb_append_items: "wb_append msg w = Some w' \<Longrightarrow> \<exists>m. wb_items w' = wb_items w @ [m]"
  by (auto simp: wb_append_def wb_acquire_def wb_append_stream_def bind_Some_iff split: list.splits if_splits)

lemma text_upd [simp]:
  "text_inv (s\<lparr>ws_open := a\<rparr>) acc = text_inv s acc" "text_inv (s\<lparr>ws_switch := w\<rparr>) acc = text_inv s acc"
  "text_inv (s\<lparr>ws_read_buf := b\<rparr>) acc = text_inv s acc" "text_inv (s\<lparr>ws_events := e\<rparr>) acc = text_inv s acc"
  by (simp_all add: text_inv_def)

lemma text_add:
  "text_inv s acc \<Longrightarrow> (case op of WsWrite _ \<Rightarrow> False | _ \<Rightarrow> True) \<Longrightarrow> text_inv (ws_add_op op s) acc"
  by (auto simp: text_inv_def) (auto simp: ws_add_op_def)

lemma text_drop: "text_inv s acc \<Longrightarrow> text_inv (ws_drop_op k s) acc"
  by (auto simp: text_inv_def) (auto simp: ws_drop_op_def dest: in_set_takeD in_set_dropD)

lemma text_close: "text_inv s acc \<Longrightarrow> text_inv (wss_close s) []"
  using wb_clear_holds [of "ws_write_buf s"] by (auto simp: text_inv_def wss_close_def wb_bodies_def first_body_append)

lemma text_read: "text_inv s acc \<Longrightarrow> text_inv (wss_read s) acc"
  by (simp add: wss_read_def text_add)

lemma text_shutdown: "text_inv s acc \<Longrightarrow> text_inv (wss_shutdown s) (ws_since_close s (wss_shutdown s) acc)"
  using wss_shutdown_cases [of s] text_close [of "s\<lparr>ws_switch := w\<rparr>" acc for w]
  by (auto simp: ws_since_close_def wss_close_closes)

lemma text_write:
  assumes i: "text_inv s acc"
  shows "\<exists>ok s'. wss_write msg s = Some (ok, s') \<and> text_inv s' (if ok then acc @ [msg] else acc) \<and>
    (ok \<longleftrightarrow> has_started (ws_switch s) \<and> \<not> wss_over_limit msg s)"
proof (cases "has_started (ws_switch s) \<and> \<not> wss_over_limit msg s")
  case False
  then show ?thesis using i by (auto simp: wss_write_def)
next
  case True
  have wb: "wb_holds (ws_write_buf s)" using i by (simp add: text_inv_def)
  obtain w where w: "wb_append msg (ws_write_buf s) = Some w" "wb_holds w" "wb_items w \<noteq> []"
    "wb_bodies w = wb_bodies (ws_write_buf s) @ map Some msg"
    using wb_append_ok [OF wb] by blast
  show ?thesis
  proof (cases "ws_current s")
    case (Some m)
    then have "acc \<noteq> []" using i by (auto simp: text_inv_def first_body_def)
    then show ?thesis using Some i True w
      by (intro exI [of _ True] exI [of _ "s\<lparr>ws_write_buf := w\<rparr>"])
         (auto simp: wss_write_def text_inv_def Let_def first_body_append)
  next
    case None
    obtain m w' where m: "wb_pop_front w = Some (m, w')" "wb_holds w'" "wb_bodies w = ms_body m @ wb_bodies w'"
      "wb_items w = m # wb_items w'"
      using wb_pop_ok [OF w(2,3)] by blast
    have acc: "acc = []" "wb_items (ws_write_buf s) = []"
      using i None first_body_append(3) [of acc] by (auto simp: text_inv_def)
    then have "wb_items w' = []" using m(4) wb_append_items [OF w(1)] by auto
    then have w': "wb_bodies w' = []" by (simp add: wb_bodies_def)
    have "\<not> ws_read_some s" using i by (simp add: text_inv_def)
    then have "wss_write msg s = Some (True, s\<lparr>ws_write_buf := w', ws_current := Some m\<rparr>)"
      using True w(1) None m(1) by (simp add: wss_write_def wss_write_next_def Let_def)
    moreover have "ms_body m = map Some msg"
    proof -
      have "wb_bodies (ws_write_buf s) = []" using acc(2) by (simp add: wb_bodies_def)
      then show ?thesis using m(3) w(4) w' by simp
    qed
    ultimately show ?thesis using i m(2) w' acc True by (auto simp: text_inv_def first_body_append)
  qed
qed

lemma text_call:
  assumes i: "text_inv s acc"
  shows "\<exists>s' acc'. run_ws_call c (s, acc) = Some (s', acc') \<and> text_inv s' acc'"
proof (cases c)
  case (CWrite msg)
  then show ?thesis using text_write [OF i, of msg] by auto
next
  case (CConsume n)
  then show ?thesis using i by (simp add: wss_consume_def)
next
  case CShutdown
  then show ?thesis using text_shutdown [OF i] by simp
qed

lemma text_calls:
  "text_inv s acc \<Longrightarrow> \<exists>s' acc'. run_ws_calls cs (s, acc) = Some (s', acc') \<and> text_inv s' acc'"
proof (induction cs arbitrary: s acc)
  case (Cons c cs)
  obtain s1 acc1 where c: "run_ws_call c (s, acc) = Some (s1, acc1)" "text_inv s1 acc1"
    using text_call [OF Cons.prems] by blast
  then show ?case using Cons.IH [OF c(2)] by auto
qed simp

lemma text_finish:
  "text_inv s acc \<Longrightarrow> text_inv (wss_close s) (ws_since_close s (wss_close s) acc)"
  using text_close by (simp add: ws_since_close_def wss_close_closes)

lemma text_start:
  assumes "text_inv s acc"
  shows "text_inv (wss_handle_start ec s) (ws_since_close s (wss_handle_start ec s) acc)"
proof -
  obtain b w where w: "as_start (ws_switch s) = (b, w)" by fastforce
  consider "ec" | "\<not> ec" "\<not> b" | "\<not> ec" "b" by blast
  then show ?thesis
  proof cases
    case 3
    define s2 where "s2 = (wss_read (s\<lparr>ws_switch := w\<rparr>))\<lparr>ws_events := ws_events s @ [Opened]\<rparr>"
    have "text_inv s2 acc" using assms by (simp add: s2_def text_read)
    moreover have "ws_closes s2 = ws_closes s" by (simp add: s2_def wss_read_def ws_closes_def)
    ultimately show ?thesis using 3 w by (simp add: wss_handle_start_def ws_since_close_def s2_def)
  qed (use assms w text_finish [of s acc] text_finish [of "s\<lparr>ws_switch := w\<rparr>" acc] in
      \<open>simp_all add: wss_handle_start_def ws_since_close_def\<close>)
qed

lemma text_handle:
  assumes i: "text_inv s acc" and nw: "case op of WsWrite _ \<Rightarrow> False | _ \<Rightarrow> True"
  shows "\<exists>s' acc'. ws_handle_op op ec data cs (s, acc) = Some (s', acc') \<and> text_inv s' acc'"
proof (cases op)
  case WsResolve
  then show ?thesis using text_finish [OF i] text_add [OF i]
    by (auto simp: ws_handle_op_def Let_def wss_handle_resolve_def ws_since_close_def)
next
  case WsConnect
  then show ?thesis using text_finish [OF i] text_add [of "s\<lparr>ws_open := True\<rparr>" acc] i
    by (auto simp: ws_handle_op_def Let_def wss_handle_connect_def ws_since_close_def)
next
  case WsHandshake
  then show ?thesis using text_finish [OF i] text_start [OF i]
    by (auto simp: ws_handle_op_def Let_def wss_handle_handshake_def)
next
  case WsAccept
  define s1 where "s1 = (if ec then s else s\<lparr>ws_open := True\<rparr>)"
  have "text_inv s1 acc" "ws_closes s1 = ws_closes s" using i by (simp_all add: s1_def)
  then show ?thesis using WsAccept text_start [of s1 acc ec]
    by (simp add: ws_handle_op_def Let_def ws_since_close_def flip: s1_def)
next
  case (WsRead n)
  have on: "text_inv (if has_stoped (ws_switch s2) then s2 else wss_read s2) a" if "text_inv s2 a" for s2 a
    using that text_read by simp
  define s1 where "s1 = s\<lparr>ws_read_buf := ws_read_buf s @ data\<rparr>"
  have i1: "text_inv s1 acc" using i by (simp add: s1_def)
  consider "ec" | "\<not> ec" "ws_has_read_cbk s" | "\<not> ec" "\<not> ws_has_read_cbk s" by blast
  then show ?thesis
  proof cases
    case 1
    then show ?thesis using WsRead text_shutdown [OF i] by (simp add: ws_handle_op_def wss_handle_read_def Let_def)
  next
    case 2
    obtain s3 acc3 where c: "run_ws_calls cs (s\<lparr>ws_read_buf := ws_read_buf s @ data,
        ws_events := ws_events s @ [ReadCalled (ws_read_buf s @ data)]\<rparr>, acc) = Some (s3, acc3)" "text_inv s3 acc3"
      using text_calls [of "s\<lparr>ws_read_buf := ws_read_buf s @ data,
        ws_events := ws_events s @ [ReadCalled (ws_read_buf s @ data)]\<rparr>" acc cs] i by auto
    show ?thesis using on [OF c(2)] c(1) 2 WsRead
      by (cases "has_stoped (ws_switch s3)") (simp_all add: ws_handle_op_def wss_handle_read_def Let_def)
  next
    case 3
    define s2 where "s2 = wss_consume (length data) s1"
    have i2: "text_inv s2 acc" using i1 by (simp add: s2_def wss_consume_def)
    define s3 where "s3 = (if has_stoped (ws_switch s2) then s2 else wss_read s2)"
    have "wss_handle_read False data Some s = Some s3"
      using 3 by (simp add: wss_handle_read_def Let_def s1_def s2_def s3_def)
    moreover have "ws_closes s3 = ws_closes s" by (simp add: s3_def s2_def s1_def wss_consume_def wss_read_def)
    ultimately show ?thesis using on [OF i2] 3 WsRead
      by (simp add: ws_handle_op_def Let_def ws_since_close_def flip: s3_def)
  qed
qed (use nw in simp)

lemma text_step:
  "ws_step z z' \<Longrightarrow> (\<exists>s acc. z = Some (s, acc) \<and> text_inv s acc) \<Longrightarrow> \<exists>s acc. z' = Some (s, acc) \<and> text_inv s acc"
proof (induction rule: ws_step.induct)
  case (start s acc)
  then show ?case
    by (cases "as_init (ws_switch s)") (auto simp: wss_start_def intro!: text_add)
next
  case (connect s acc)
  then show ?case
    by (cases "as_init (ws_switch s)") (auto simp: wss_connect_def intro!: text_add)
next
  case (client z c)
  then show ?case using text_call by (cases z) fastforce
next
  case (handle k s op b ec data acc cs)
  then have i: "text_inv s acc" by simp
  have "(op, b) \<in> set (ws_ops s)" using handle(1,2) by (metis nth_mem)
  then have "case op of WsWrite _ \<Rightarrow> False | _ \<Rightarrow> True" using i by (auto simp: text_inv_def)
  then show ?case using text_handle [OF text_drop [OF i]] by blast
qed

lemma text_reach:
  assumes "ws_step\<^sup>*\<^sup>* (Some (new_ws_session False max_w max_r cb, [])) z"
  shows "\<exists>s acc. z = Some (s, acc) \<and> text_inv s acc"
  using assms
proof (induction rule: rtranclp_induct)
  case base
  show ?case using new_write_buffer_holds
    by (simp add: text_inv_def new_ws_session_def wb_bodies_def first_body_append) (simp add: new_write_buffer_def)
qed (rule text_step)

section \<open>Properties\<close>

text \<open>What the invariant says of the operations of the session itself.\<close>

lemma binary_live_writes:
  assumes "tcp_inv (as_tcp s) acc" "ws_open s"
  shows "[bs. (WsWrite bs, False) \<leftarrow> ws_ops s] = (case ws_current s of None \<Rightarrow> [] | Some m \<Rightarrow> [ms_body m])"
proof -
  have "live_writes (as_tcp s) = map WriteOp [bs. (WsWrite bs, False) \<leftarrow> ws_ops s]"
    by (simp add: as_tcp_live map_concat comp_def case_prod_beta)
       (rule arg_cong [of _ _ concat], auto split: ws_op.splits bool.splits)
  then show ?thesis using assms
    by (auto simp: tcp_inv_def tcp_base_def sending_def split: option.splits)
qed

text \<open>C24: A websocket session for binary data sends what it accepted, in order, one message at a time,
  like a TCP session. Whatever a client calls, from its read callback or outside it, write_tail apart, and however resolving,
  connecting, the handshake, reads and writes end, no call is undefined; what was handed to the stream
  on this connection followed by what is queued are the accepted messages; while the connection is up
  exactly the current message is being written, and when there is none the queue is empty.\<close>

theorem ws_binary_send_order:
  assumes "ws_step\<^sup>*\<^sup>* (Some (new_ws_session True max_w max_r cb, [])) z"
  shows "\<exists>s acc. z = Some (s, acc) \<and>
    concat (ws_sent s) @ wb_bodies (ws_write_buf s) = map Some (concat acc) \<and>
    (ws_open s \<longrightarrow> [bs. (WsWrite bs, False) \<leftarrow> ws_ops s] = (case ws_current s of None \<Rightarrow> [] | Some m \<Rightarrow> [ms_body m])) \<and>
    (ws_current s = None \<longrightarrow> wb_items (ws_write_buf s) = [])"
proof -
  obtain s acc where z: "z = Some (s, acc)" "tcp_inv (as_tcp s) acc"
    using ws_reach_ok [OF assms] by (auto simp: ws_sys_ok_def ws_inv_def)
  show ?thesis using z binary_live_writes [OF z(2)]
    by (intro exI [of _ s] exI [of _ acc])
       (auto simp: tcp_inv_def tcp_base_def sending_def split: option.splits)
qed

text \<open>A session of a server after its handshake.\<close>

definition sample_ws :: "bool \<Rightarrow> nat \<Rightarrow> nat \<Rightarrow> bool \<Rightarrow> ws_session" where
  "sample_ws rs max_w max_r cb =
     wss_handle_start False ((ws_drop_op 0 (wss_start (new_ws_session rs max_w max_r cb)))\<lparr>ws_open := True\<rparr>)"

lemma sample_ws_reach:
  "ws_step\<^sup>*\<^sup>* (Some (new_ws_session rs max_w max_r cb, [])) (Some (sample_ws rs max_w max_r cb, []))"
proof -
  define s where "s = new_ws_session rs max_w max_r cb"
  define s1 where "s1 = wss_start s"
  have ops: "ws_ops s1 = [(WsAccept, False)]"
    by (simp add: s1_def s_def wss_start_def new_ws_session_def switch_defs ws_add_op_def)
  have "ws_step (Some (s1, [])) (ws_handle_op WsAccept False [] [] (ws_drop_op 0 s1, []))"
    by (rule ws_step.handle [of 0 s1 WsAccept False]) (simp_all add: ops)
  moreover have "ws_handle_op WsAccept False [] [] (ws_drop_op 0 s1, []) = Some (sample_ws rs max_w max_r cb, [])"
    by (simp add: ws_handle_op_def Let_def sample_ws_def ws_since_close_def s1_def s_def)
  ultimately have "ws_step (Some (s1, [])) (Some (sample_ws rs max_w max_r cb, []))" by simp
  moreover have "ws_step (Some (s, [])) (Some (s1, []))" unfolding s1_def by (rule ws_step.start)
  ultimately show ?thesis unfolding s_def by (meson r_into_rtranclp rtranclp.rtrancl_into_rtrancl)
qed

lemma sample_ws_fields:
  "has_started (ws_switch (sample_ws rs max_w max_r cb))" "ws_open (sample_ws rs max_w max_r cb)"
  "ws_max_wbuffer (sample_ws rs max_w max_r cb) = max_w" "ws_max_rbuffer (sample_ws rs max_w max_r cb) = max_r"
  "ws_read_some (sample_ws rs max_w max_r cb) = rs" "ws_has_read_cbk (sample_ws rs max_w max_r cb) = cb"
  "ws_ops (sample_ws rs max_w max_r cb) = [(WsRead (if rs then Some max_r else None), False)]"
  "ws_read_buf (sample_ws rs max_w max_r cb) = []"
  by (simp_all add: sample_ws_def wss_handle_start_def wss_start_def new_ws_session_def switch_defs ws_add_op_def
    ws_drop_op_def wss_read_def Let_def)

lemma sample_ws_write:
  obtains s where "run_ws_call (CWrite [7, 8]) (sample_ws rs 0 max_r cb, []) = Some (s, [[7, 8]])"
    "ws_step\<^sup>*\<^sup>* (Some (new_ws_session rs 0 max_r cb, [])) (Some (s, [[7, 8]]))"
proof -
  let ?s = "sample_ws rs 0 max_r cb"
  have ex: "\<exists>s acc. run_ws_call (CWrite [7, 8]) (?s, []) = Some (s, acc)"
  proof (cases rs)
    case True
    have "ws_inv ?s []" using ws_reach_ok [of 0 max_r cb] sample_ws_reach [of rs 0 max_r cb] True
      by (auto simp: ws_sys_ok_def)
    then show ?thesis using ws_call_inv sample_ws_fields(5) True by metis
  next
    case False
    have "text_inv ?s []" using text_reach [of 0 max_r cb] sample_ws_reach [of rs 0 max_r cb] False by auto
    then show ?thesis using text_call by metis
  qed
  then obtain s acc where s: "run_ws_call (CWrite [7, 8]) (?s, []) = Some (s, acc)" by blast
  have "\<not> wss_over_limit [7, 8] ?s" by (simp add: wss_over_limit_def sample_ws_fields)
  then have "acc = [[7, 8]]" using s sample_ws_fields(1)
    by (auto simp: wss_write_def bind_Some_iff Let_def split: if_splits)
  moreover have "ws_step (Some (?s, [])) (run_ws_call (CWrite [7, 8]) (?s, []))" by (rule ws_step.client)
  ultimately show ?thesis
    using that [of s] s rtranclp.rtrancl_into_rtrancl [OF sample_ws_reach [of rs 0 max_r cb]] by simp
qed

theorem ws_binary_send_order_witness:
  "\<exists>s. ws_step\<^sup>*\<^sup>* (Some (new_ws_session True 0 20000 True, [])) (Some (s, [[7, 8]])) \<and>
     concat (ws_sent s) @ wb_bodies (ws_write_buf s) = [Some 7, Some 8]"
proof -
  obtain s where s: "ws_step\<^sup>*\<^sup>* (Some (new_ws_session True 0 20000 True, [])) (Some (s, [[7, 8]]))"
    by (rule sample_ws_write [of True 20000 True])
  from ws_binary_send_order [OF s] have "concat (ws_sent s) @ wb_bodies (ws_write_buf s) = [Some 7, Some 8]" by simp
  then show ?thesis using s by blast
qed

text \<open>C25: A websocket session for texts never sends. Whatever a client calls, from its read callback or
  outside it, write_tail apart, and however resolving, connecting, the handshake and reads end, no call
  is undefined and no write is ever started on its stream, since the synchronous write for texts is
  commented out. The first message accepted on a connection is the current one, and stays it until the
  session closes, and all the others are queued behind it, in order; while write returns true whenever
  the session is started and the limit of the queue is not exceeded.\<close>

theorem ws_text_never_sends:
  assumes "ws_step\<^sup>*\<^sup>* (Some (new_ws_session False max_w max_r cb, [])) z"
  shows "\<exists>s acc. z = Some (s, acc) \<and> ws_sent s = [] \<and> (\<forall>bs b. (WsWrite bs, b) \<notin> set (ws_ops s)) \<and>
    map_option ms_body (ws_current s) = (case acc of [] \<Rightarrow> None | msg # _ \<Rightarrow> Some (map Some msg)) \<and>
    wb_bodies (ws_write_buf s) = map Some (concat (tl acc)) \<and>
    (\<forall>msg. \<exists>s'. run_ws_call (CWrite msg) (s, acc) =
        Some (s', if has_started (ws_switch s) \<and> \<not> wss_over_limit msg s then acc @ [msg] else acc) \<and>
      wss_write msg s = Some (has_started (ws_switch s) \<and> \<not> wss_over_limit msg s, s'))"
proof -
  obtain s acc where z: "z = Some (s, acc)" "text_inv s acc" using text_reach [OF assms] by blast
  have "\<exists>s'. run_ws_call (CWrite msg) (s, acc) =
        Some (s', if has_started (ws_switch s) \<and> \<not> wss_over_limit msg s then acc @ [msg] else acc) \<and>
      wss_write msg s = Some (has_started (ws_switch s) \<and> \<not> wss_over_limit msg s, s')" for msg
    using text_write [OF z(2), of msg] by (elim exE) auto
  then show ?thesis using z
    by (intro exI [of _ s] exI [of _ acc]) (force simp: text_inv_def first_body_def)
qed

theorem ws_text_never_sends_witness:
  "\<exists>s. ws_step\<^sup>*\<^sup>* (Some (new_ws_session False 0 20000 True, [])) (Some (s, [[7, 8]])) \<and> ws_sent s = [] \<and>
     map_option ms_body (ws_current s) = Some [Some 7, Some 8] \<and> wb_bodies (ws_write_buf s) = []"
proof -
  obtain s where s: "ws_step\<^sup>*\<^sup>* (Some (new_ws_session False 0 20000 True, [])) (Some (s, [[7, 8]]))"
    by (rule sample_ws_write [of False 20000 True])
  from ws_text_never_sends [OF s] have "ws_sent s = []"
    "map_option ms_body (ws_current s) = Some [Some 7, Some 8]" "wb_bodies (ws_write_buf s) = []" by simp_all
  then show ?thesis using s by blast
qed

text \<open>The read buffer of a websocket session has no bound. Unlike a TCP session, which reads no more than
  its limit leaves room for, it reads up to the limit each time: if the client's read callback consumes
  nothing, the buffer of a session with any limits, for texts or binary data, reaches any multiple of
  the limit.\<close>

theorem ws_read_buffer_unbounded:
  "\<exists>s. ws_step\<^sup>*\<^sup>* (Some (new_ws_session rs max_w max_r True, [])) (Some (s, [])) \<and> length (ws_read_buf s) = n * max_r"
proof -
  let ?ops = "[(WsRead (if rs then Some max_r else None), False)]"
  have "\<exists>s. ws_step\<^sup>*\<^sup>* (Some (new_ws_session rs max_w max_r True, [])) (Some (s, [])) \<and> length (ws_read_buf s) = n * max_r \<and>
     has_started (ws_switch s) \<and> ws_open s \<and> ws_ops s = ?ops \<and> ws_has_read_cbk s \<and> ws_max_rbuffer s = max_r \<and> ws_read_some s = rs"
  proof (induction n)
    case 0
    show ?case using sample_ws_reach [of rs max_w max_r True] sample_ws_fields [of rs max_w max_r True] by auto
  next
    case (Suc n)
    then obtain s where s: "ws_step\<^sup>*\<^sup>* (Some (new_ws_session rs max_w max_r True, [])) (Some (s, []))"
      "length (ws_read_buf s) = n * max_r" "has_started (ws_switch s)" "ws_open s" "ws_ops s = ?ops"
      "ws_has_read_cbk s" "ws_max_rbuffer s = max_r" "ws_read_some s = rs" by blast
    define data where "data = replicate max_r (0 :: 8 word)"
    define s1 where "s1 = (ws_drop_op 0 s)\<lparr>ws_read_buf := ws_read_buf s @ data,
      ws_events := ws_events s @ [ReadCalled (ws_read_buf s @ data)]\<rparr>"
    have "ws_step (Some (s, [])) (ws_handle_op (WsRead (if rs then Some max_r else None)) False data [] (ws_drop_op 0 s, []))"
      by (rule ws_step.handle [of 0 s _ False]) (use s in \<open>auto simp: data_def split: if_splits\<close>)
    moreover have "ws_handle_op (WsRead (if rs then Some max_r else None)) False data [] (ws_drop_op 0 s, []) =
        Some (wss_read s1, [])"
      using s(3,6) by (simp add: ws_handle_op_def wss_handle_read_def Let_def has_stoped_iff s1_def)
    ultimately have "ws_step\<^sup>*\<^sup>* (Some (new_ws_session rs max_w max_r True, [])) (Some (wss_read s1, []))"
      using s(1) by (simp add: rtranclp.rtrancl_into_rtrancl)
    moreover have "length (ws_read_buf (wss_read s1)) = Suc n * max_r \<and> has_started (ws_switch (wss_read s1)) \<and>
        ws_open (wss_read s1) \<and> ws_ops (wss_read s1) = ?ops \<and> ws_has_read_cbk (wss_read s1) \<and>
        ws_max_rbuffer (wss_read s1) = max_r \<and> ws_read_some (wss_read s1) = rs"
      using s by (simp add: s1_def wss_read_def ws_add_op_def ws_drop_op_def data_def)
    ultimately show ?case by blast
  qed
  then show ?thesis by blast
qed

end
