(* ===== verification/Http_Session.thy ===== *)
theory Http_Session
  imports Prelude
begin

text \<open>
  HttpSession (boost_net/boost_net/http_session.hpp), for servers, which read requests, and clients. The
  stream of Boost.Beast is given by whether the connection is up and by the operations outstanding; what
  Beast knows of a message, whether the connection ends after it and how the host is set, is a
  parameter. An operation reads into, or writes from, a message of the session: starting another one
  of the same kind before it ended is undefined.
\<close>

section \<open>HttpSession\<close>

text \<open>A resolve, a connect, and a read and a write with whether the session is closed afterwards.\<close>

datatype http_op = HResolve | HConnect | HRead bool | HWrite bool

datatype ('r, 'w) http_event = HOpened | HClosed | HGot 'r | HSent 'w

(* src: boost_net/boost_net/http_session.hpp 499-521 HttpSession *)
record ('r, 'w) http_session =
  hs_is_request :: bool
  hs_open :: bool
  hs_ops :: "(http_op \<times> bool) list"
  hs_started :: bool
  hs_stop :: bool
  hs_ip :: string
  hs_send_msg :: "'w option"
  hs_events :: "('r, 'w) http_event list"

text \<open>A session of a server is made from a socket that is connected.\<close>

(* src: boost_net/boost_net/http_session.hpp 79-98 HttpSession::HttpSession *)
definition new_http_session :: "bool \<Rightarrow> ('r, 'w) http_session" where
  "new_http_session is_request =
     \<lparr>hs_is_request = is_request, hs_open = is_request, hs_ops = [], hs_started = False, hs_stop = True,
      hs_ip = [], hs_send_msg = None, hs_events = []\<rparr>"

definition hs_live :: "('r, 'w) http_session \<Rightarrow> http_op list" where
  "hs_live s = [op. (op, b) \<leftarrow> hs_ops s, \<not> b]"

primrec on_connection :: "http_op \<Rightarrow> bool" where
  "on_connection HResolve = False"
| "on_connection HConnect = False"
| "on_connection (HRead c) = True"
| "on_connection (HWrite c) = True"

definition hs_add_op :: "http_op \<Rightarrow> ('r, 'w) http_session \<Rightarrow> ('r, 'w) http_session" where
  "hs_add_op op s = s\<lparr>hs_ops := hs_ops s @ [(op, \<not> hs_open s \<and> on_connection op)]\<rparr>"

(* src: boost_net/boost_net/http_session.hpp 131-138 HttpSession::connect *)
definition hs_connect :: "string \<Rightarrow> ('r, 'w) http_session \<Rightarrow> ('r, 'w) http_session" where
  "hs_connect ip s = hs_add_op HResolve (s\<lparr>hs_ip := ip\<rparr>)"

(* src: boost_net/boost_net/http_session.hpp 141-145 HttpSession::reconnect *)
definition hs_reconnect :: "('r, 'w) http_session \<Rightarrow> ('r, 'w) http_session" where
  "hs_reconnect s = hs_add_op HResolve s"

(* src: boost_net/boost_net/http_session.hpp 410-419 HttpSession::close *)
definition hs_close :: "('r, 'w) http_session \<Rightarrow> ('r, 'w) http_session" where
  "hs_close s = s\<lparr>hs_open := False, hs_ops := map (\<lambda>(op, b). (op, True)) (hs_ops s),
     hs_events := hs_events s @ [HClosed]\<rparr>"

(* src: boost_net/boost_net/http_session.hpp 174-185 HttpSession::shutdown *)
definition hs_shutdown :: "('r, 'w) http_session \<Rightarrow> ('r, 'w) http_session" where
  "hs_shutdown s = (if hs_stop s then s else (hs_close (s\<lparr>hs_stop := True\<rparr>))\<lparr>hs_started := False\<rparr>)"

(* src: boost_net/boost_net/http_session.hpp 423-439 HttpSession::read *)
definition hs_read :: "bool \<Rightarrow> ('r, 'w) http_session \<Rightarrow> ('r, 'w) http_session option" where
  "hs_read close s =
     (if (\<exists>op \<in> set (hs_live s). case op of HRead _ \<Rightarrow> True | _ \<Rightarrow> False) then None
      else Some (hs_add_op (HRead close) s))"

text \<open>
  A callback is a function on the session, as its user may call the session from it. That of the
  opening comes before the first read.
\<close>

(* src: boost_net/boost_net/http_session.hpp 148-171 HttpSession::start *)
definition hs_start ::
  "(('r, 'w) http_session \<Rightarrow> ('r, 'w) http_session option) \<Rightarrow> ('r, 'w) http_session \<Rightarrow> ('r, 'w) http_session option" where
  "hs_start cbk s =
     (if hs_started s then Some s
      else do {
        s1 \<leftarrow> cbk (s\<lparr>hs_started := True, hs_stop := False, hs_events := hs_events s @ [HOpened]\<rparr>);
        if hs_is_request s1 then hs_read False s1 else Some s1 })"

(* src: boost_net/boost_net/http_session.hpp 188-198 HttpSession::async_write *)
definition hs_async_write ::
  "('w \<Rightarrow> bool) \<Rightarrow> (string \<Rightarrow> 'w \<Rightarrow> 'w) \<Rightarrow> 'w \<Rightarrow> ('r, 'w) http_session \<Rightarrow> (bool \<times> ('r, 'w) http_session) option" where
  "hs_async_write need_eof set_host msg s =
     (if (\<exists>op \<in> set (hs_live s). case op of HWrite _ \<Rightarrow> True | _ \<Rightarrow> False) then None
      else let m = set_host (hs_ip s) msg
           in Some (True, hs_add_op (HWrite (need_eof m)) (s\<lparr>hs_send_msg := Some m\<rparr>)))"

(* src: boost_net/boost_net/http_session.hpp 442-451 HttpSession::handle_resolve *)
definition hs_handle_resolve :: "bool \<Rightarrow> ('r, 'w) http_session \<Rightarrow> ('r, 'w) http_session" where
  "hs_handle_resolve ec s = (if ec then hs_close s else hs_add_op HConnect s)"

(* src: boost_net/boost_net/http_session.hpp 454-463 HttpSession::handle_connect *)
definition hs_handle_connect ::
  "bool \<Rightarrow> (('r, 'w) http_session \<Rightarrow> ('r, 'w) http_session option) \<Rightarrow> ('r, 'w) http_session \<Rightarrow>
     ('r, 'w) http_session option" where
  "hs_handle_connect ec cbk s = (if ec then Some (hs_close s) else hs_start cbk (s\<lparr>hs_open := True\<rparr>))"

(* src: boost_net/boost_net/http_session.hpp 466-478 HttpSession::handle_read *)
definition hs_handle_read ::
  "bool \<Rightarrow> bool \<Rightarrow> 'r \<Rightarrow> (('r, 'w) http_session \<Rightarrow> ('r, 'w) http_session option) \<Rightarrow>
     ('r, 'w) http_session \<Rightarrow> ('r, 'w) http_session option" where
  "hs_handle_read close ec msg cbk s =
     (if ec then Some (hs_shutdown s)
      else do { s1 \<leftarrow> cbk (s\<lparr>hs_events := hs_events s @ [HGot msg]\<rparr>);
                Some (if close then hs_shutdown s1 else s1) })"

(* src: boost_net/boost_net/http_session.hpp 481-497 HttpSession::handle_write *)
definition hs_handle_write ::
  "bool \<Rightarrow> bool \<Rightarrow> (('r, 'w) http_session \<Rightarrow> ('r, 'w) http_session option) \<Rightarrow>
     ('r, 'w) http_session \<Rightarrow> ('r, 'w) http_session option" where
  "hs_handle_write close ec cbk s =
     (if ec then Some (hs_shutdown s)
      else do {
        m \<leftarrow> hs_send_msg s;
        s1 \<leftarrow> cbk (s\<lparr>hs_events := hs_events s @ [HSent m]\<rparr>);
        if \<not> hs_is_request s1 \<or> \<not> close then hs_read close s1 else Some (hs_shutdown s1) })"

section \<open>Sessions and their users\<close>

text \<open>
  A user sends when the session runs and nothing is outstanding: a client its next request after the
  answer or from the open callback, a server its answer after the request, from the read callback or
  later. A server that sends in its open callback, and either in the write callback, would meet the
  read that start and handle_write begin next (http_send_in_callback), so they do not. It connects a
  session that is not running and has nothing outstanding, as connect and reconnect test nothing; from the close
  callback that is as good as right behind the call or handler that closed, since only the flag of the
  start is reset after it. It may shut the session down at any time, from every callback but that of
  the close, where shutdown does nothing.
\<close>

datatype 'w http_call = HSend 'w | HShutdown

definition may_call :: "'w http_call \<Rightarrow> ('r, 'w) http_session \<Rightarrow> bool" where
  "may_call c s \<longleftrightarrow> (case c of HSend m \<Rightarrow> hs_started s \<and> hs_live s = [] | HShutdown \<Rightarrow> True)"

definition run_http_call ::
  "('w \<Rightarrow> bool) \<Rightarrow> (string \<Rightarrow> 'w \<Rightarrow> 'w) \<Rightarrow> 'w http_call \<Rightarrow> ('r, 'w) http_session \<Rightarrow> ('r, 'w) http_session option" where
  "run_http_call need_eof set_host c s =
     (case c of HSend m \<Rightarrow> map_option snd (hs_async_write need_eof set_host m s) | HShutdown \<Rightarrow> Some (hs_shutdown s))"

text \<open>A callback that makes calls, each if the user may make it then.\<close>

datatype http_cbk_kind = OnOpen | OnRead | OnWrite

primrec may_send_in :: "http_cbk_kind \<Rightarrow> ('r, 'w) http_session \<Rightarrow> bool" where
  "may_send_in OnOpen s = (\<not> hs_is_request s)"
| "may_send_in OnRead s = True"
| "may_send_in OnWrite s = False"

fun http_cbk ::
  "('w \<Rightarrow> bool) \<Rightarrow> (string \<Rightarrow> 'w \<Rightarrow> 'w) \<Rightarrow> http_cbk_kind \<Rightarrow> 'w http_call list \<Rightarrow> ('r, 'w) http_session \<Rightarrow>
     ('r, 'w) http_session option" where
  "http_cbk need_eof set_host k [] s = Some s"
| "http_cbk need_eof set_host k (c # cs) s =
     (if may_call c s \<and> (c \<noteq> HShutdown \<longrightarrow> may_send_in k s)
      then Option.bind (run_http_call need_eof set_host c s) (http_cbk need_eof set_host k cs)
      else http_cbk need_eof set_host k cs s)"

definition hs_drop_op :: "nat \<Rightarrow> ('r, 'w) http_session \<Rightarrow> ('r, 'w) http_session" where
  "hs_drop_op k s = s\<lparr>hs_ops := take k (hs_ops s) @ drop (Suc k) (hs_ops s)\<rparr>"

definition hs_handle_op ::
  "('w \<Rightarrow> bool) \<Rightarrow> (string \<Rightarrow> 'w \<Rightarrow> 'w) \<Rightarrow> http_op \<Rightarrow> bool \<Rightarrow> 'r \<Rightarrow> 'w http_call list \<Rightarrow>
     ('r, 'w) http_session \<Rightarrow> ('r, 'w) http_session option" where
  "hs_handle_op need_eof set_host op ec msg cs s =
     (case op of
        HResolve \<Rightarrow> Some (hs_handle_resolve ec s)
      | HConnect \<Rightarrow> hs_handle_connect ec (http_cbk need_eof set_host OnOpen cs) s
      | HRead close \<Rightarrow> hs_handle_read close ec msg (http_cbk need_eof set_host OnRead cs) s
      | HWrite close \<Rightarrow> hs_handle_write close ec (http_cbk need_eof set_host OnWrite cs) s)"

inductive http_step ::
  "('w \<Rightarrow> bool) \<Rightarrow> (string \<Rightarrow> 'w \<Rightarrow> 'w) \<Rightarrow> ('r, 'w) http_session option \<Rightarrow> ('r, 'w) http_session option \<Rightarrow> bool"
  for need_eof :: "'w \<Rightarrow> bool" and set_host :: "string \<Rightarrow> 'w \<Rightarrow> 'w" where
  connect: "\<not> hs_is_request s \<Longrightarrow> \<not> hs_started s \<Longrightarrow> hs_live s = [] \<Longrightarrow>
    http_step need_eof set_host (Some s) (Some (hs_connect ip s))"
| reconnect: "\<not> hs_is_request s \<Longrightarrow> \<not> hs_started s \<Longrightarrow> hs_live s = [] \<Longrightarrow>
    http_step need_eof set_host (Some s) (Some (hs_reconnect s))"
| start: "hs_is_request s \<Longrightarrow> hs_ops s = [] \<Longrightarrow> hs_open s \<Longrightarrow>
    http_step need_eof set_host (Some s) (hs_start (http_cbk need_eof set_host OnOpen cs) s)"
| call: "may_call c s \<Longrightarrow> http_step need_eof set_host (Some s) (run_http_call need_eof set_host c s)"
| handle: "k < length (hs_ops s) \<Longrightarrow> hs_ops s ! k = (op, b) \<Longrightarrow> (b \<longrightarrow> ec) \<Longrightarrow>
    http_step need_eof set_host (Some s) (hs_handle_op need_eof set_host op ec msg cs (hs_drop_op k s))"

text \<open>
  The exchange since the session was last opened: what is expected next, a sent message or a
  received one, if sending and receiving alternate.
\<close>

definition since_open :: "('r, 'w) http_event list \<Rightarrow> ('r, 'w) http_event list" where
  "since_open es = rev (takeWhile (\<lambda>e. e \<noteq> HOpened) (rev es))"

fun expects_send :: "bool \<Rightarrow> ('r, 'w) http_event list \<Rightarrow> bool option" where
  "expects_send b [] = Some b"
| "expects_send True (HSent m # es) = expects_send False es"
| "expects_send False (HGot r # es) = expects_send True es"
| "expects_send b (e # es) = None"

section \<open>The invariant\<close>

lemma since_open_snoc [simp]:
  "since_open (es @ [HOpened]) = []" "since_open (es @ [HSent m]) = since_open es @ [HSent m]"
  "since_open (es @ [HGot r]) = since_open es @ [HGot r]"
  by (simp_all add: since_open_def)

lemma expects_snoc: "expects_send b (es @ [e]) = Option.bind (expects_send b es) (\<lambda>b'. expects_send b' [e])"
  by (induction b es rule: expects_send.induct) simp_all

text \<open>
  One operation at most is live; while the session runs it is a read or a write, and the read is
  what the exchange waits for.
\<close>

definition http_inv :: "('r, 'w) http_session \<Rightarrow> bool" where
  "http_inv s \<longleftrightarrow> hs_started s = (\<not> hs_stop s) \<and> (hs_started s \<longrightarrow> hs_open s) \<and> length (hs_live s) \<le> 1 \<and>
     (\<forall>op \<in> set (hs_live s). on_connection op = hs_started s) \<and>
     ((\<exists>c. HWrite c \<in> set (hs_live s)) \<longrightarrow> hs_send_msg s \<noteq> None) \<and>
     (\<forall>(op, b) \<in> set (hs_ops s). b \<longrightarrow> on_connection op) \<and>
     (hs_started s \<longrightarrow> expects_send (\<not> hs_is_request s) (since_open (hs_events s)) =
        Some (\<forall>op \<in> set (hs_live s). case op of HRead c \<Rightarrow> False | _ \<Rightarrow> True))"

lemma live_add_op [simp]:
  "hs_live (hs_add_op op s) = hs_live s @ (if \<not> hs_open s \<and> on_connection op then [] else [op])"
  by (simp add: hs_live_def hs_add_op_def)

lemma live_upd_hs [simp]:
  "hs_live (s\<lparr>hs_open := a\<rparr>) = hs_live s" "hs_live (s\<lparr>hs_started := b\<rparr>) = hs_live s"
  "hs_live (s\<lparr>hs_stop := b\<rparr>) = hs_live s" "hs_live (s\<lparr>hs_ip := i\<rparr>) = hs_live s"
  "hs_live (s\<lparr>hs_send_msg := m\<rparr>) = hs_live s" "hs_live (s\<lparr>hs_events := e\<rparr>) = hs_live s"
  "hs_live (hs_close s) = []"
  by (simp_all add: hs_live_def hs_close_def comp_def case_prod_beta)

lemma add_op_hs [simp]:
  "hs_started (hs_add_op op s) = hs_started s" "hs_stop (hs_add_op op s) = hs_stop s"
  "hs_open (hs_add_op op s) = hs_open s" "hs_is_request (hs_add_op op s) = hs_is_request s"
  "hs_events (hs_add_op op s) = hs_events s" "hs_send_msg (hs_add_op op s) = hs_send_msg s"
  "hs_ops (hs_add_op op s) = hs_ops s @ [(op, \<not> hs_open s \<and> on_connection op)]"
  by (simp_all add: hs_add_op_def)

lemma drop_op_hs [simp]:
  "hs_started (hs_drop_op k s) = hs_started s" "hs_stop (hs_drop_op k s) = hs_stop s"
  "hs_open (hs_drop_op k s) = hs_open s" "hs_is_request (hs_drop_op k s) = hs_is_request s"
  "hs_events (hs_drop_op k s) = hs_events s" "hs_send_msg (hs_drop_op k s) = hs_send_msg s"
  by (simp_all add: hs_drop_op_def)

lemma live_drop_hs:
  assumes "k < length (hs_ops s)" "hs_ops s ! k = (op, b)"
  obtains L1 L2 where "hs_live s = L1 @ (if b then [] else [op]) @ L2" "hs_live (hs_drop_op k s) = L1 @ L2"
    "set (hs_ops (hs_drop_op k s)) \<subseteq> set (hs_ops s)"
proof -
  have sp: "hs_ops s = take k (hs_ops s) @ (op, b) # drop (Suc k) (hs_ops s)"
    using id_take_nth_drop [OF assms(1)] assms(2) by simp
  define xs ys where "xs = take k (hs_ops s)" and "ys = drop (Suc k) (hs_ops s)"
  have e: "hs_ops s = xs @ (op, b) # ys" using sp by (simp add: xs_def ys_def)
  have d: "hs_ops (hs_drop_op k s) = xs @ ys" by (simp add: hs_drop_op_def xs_def ys_def)
  show ?thesis
    by (rule that [of "hs_live (s\<lparr>hs_ops := xs\<rparr>)" "hs_live (s\<lparr>hs_ops := ys\<rparr>)"])
       (use e d in \<open>auto simp: hs_live_def\<close>)
qed

text \<open>A session that is closed for good or before it runs: only its operations matter.\<close>

lemma hs_close_inv:
  "\<not> hs_started s \<Longrightarrow> hs_stop s \<Longrightarrow> (\<forall>(op, b) \<in> set (hs_ops s). on_connection op) \<Longrightarrow> http_inv (hs_close s)"
  by (auto simp: http_inv_def) (auto simp: hs_close_def)

lemma hs_shutdown_closes:
  "\<not> hs_stop s \<Longrightarrow> (\<forall>(op, b) \<in> set (hs_ops s). on_connection op) \<Longrightarrow> http_inv (hs_shutdown s)"
  by (auto simp: hs_shutdown_def http_inv_def) (auto simp: hs_close_def hs_live_def)

lemma hs_shutdown_inv:
  assumes i: "http_inv s"
  shows "http_inv (hs_shutdown s)"
proof (cases "hs_stop s")
  case True
  then show ?thesis using i by (simp add: hs_shutdown_def)
next
  case False
  then have st: "hs_started s" using i by (simp add: http_inv_def)
  have "on_connection op" if o: "(op, b) \<in> set (hs_ops s)" for op b
  proof (cases b)
    case True
    then show ?thesis using o i by (auto simp: http_inv_def)
  next
    case False
    then have "op \<in> set (hs_live s)" using o by (force simp: hs_live_def)
    then show ?thesis using i st by (simp add: http_inv_def)
  qed
  then show ?thesis using False by (intro hs_shutdown_closes) auto
qed

lemma hs_call_inv:
  assumes i: "http_inv s" and m: "may_call c s"
  shows "\<exists>s'. run_http_call need_eof set_host c s = Some s' \<and> http_inv s'"
proof (cases c)
  case HShutdown
  then show ?thesis using hs_shutdown_inv [OF i] by (simp add: run_http_call_def)
next
  case (HSend msg)
  then have c: "hs_started s" "hs_live s = []" using m by (simp_all add: may_call_def)
  then show ?thesis using i HSend
    by (simp add: run_http_call_def hs_async_write_def Let_def http_inv_def)
qed

lemma hs_cbk_inv: "http_inv s \<Longrightarrow> \<exists>s'. http_cbk need_eof set_host k cs s = Some s' \<and> http_inv s'"
proof (induction cs arbitrary: s)
  case (Cons c cs)
  show ?case
  proof (cases "may_call c s \<and> (c \<noteq> HShutdown \<longrightarrow> may_send_in k s)")
    case True
    then obtain s1 where "run_http_call need_eof set_host c s = Some s1" "http_inv s1" using hs_call_inv [OF Cons.prems] by blast
    then show ?thesis using Cons.IH True by simp
  next
    case False
    then show ?thesis using Cons.IH [OF Cons.prems] unfolding http_cbk.simps if_not_P [OF False] by blast
  qed
qed simp

lemma hs_call_request: "run_http_call need_eof set_host c s = Some s' \<Longrightarrow> hs_is_request s' = hs_is_request s"
  by (cases c) (auto simp: run_http_call_def hs_async_write_def Let_def hs_shutdown_def hs_close_def split: if_splits)

lemma hs_cbk_request: "http_cbk need_eof set_host k cs s = Some s' \<Longrightarrow> hs_is_request s' = hs_is_request s"
  by (induction cs arbitrary: s) (auto split: if_splits bind_splits dest: hs_call_request)

text \<open>A callback from which the user does not send shuts the session down, or does nothing.\<close>

lemma hs_shutdown_twice: "hs_shutdown (hs_shutdown s) = hs_shutdown s"
  by (simp add: hs_shutdown_def hs_close_def)

lemma quiet_cbk:
  assumes "k = OnWrite \<or> k = OnOpen \<and> hs_is_request s"
  shows "http_cbk need_eof set_host k cs s = Some s \<or> http_cbk need_eof set_host k cs s = Some (hs_shutdown s)"
  using assms
proof (induction cs arbitrary: s)
  case (Cons c cs)
  show ?case
  proof (cases c)
    case (HSend m)
    then have "\<not> (may_call c s \<and> (c \<noteq> HShutdown \<longrightarrow> may_send_in k s))" using Cons.prems by auto
    then show ?thesis using Cons.IH [OF Cons.prems] unfolding http_cbk.simps by (simp only: if_False)
  next
    case HShutdown
    have "k = OnWrite \<or> k = OnOpen \<and> hs_is_request (hs_shutdown s)"
      using Cons.prems by (simp add: hs_shutdown_def hs_close_def)
    from Cons.IH [OF this] HShutdown show ?thesis
      by (simp add: may_call_def run_http_call_def hs_shutdown_twice)
  qed
qed simp

lemma shutdown_read_inv:
  assumes "\<not> hs_stop s" "\<forall>(op, b) \<in> set (hs_ops s). on_connection op"
  shows "\<exists>s'. hs_read c (hs_shutdown s) = Some s' \<and> http_inv s'"
proof -
  have "hs_live (hs_shutdown s) = []" "\<not> hs_open (hs_shutdown s)"
    using assms(1) by (simp_all add: hs_shutdown_def) (simp add: hs_close_def)
  moreover have "\<not> hs_started (hs_shutdown s)" using assms(1) by (simp add: hs_shutdown_def)
  ultimately show ?thesis using hs_shutdown_closes [OF assms] by (auto simp: hs_read_def http_inv_def)
qed

lemma hs_start_inv:
  assumes "\<not> hs_started s" "hs_live s = []" "hs_open s" "\<forall>(op, b) \<in> set (hs_ops s). b \<longrightarrow> on_connection op"
  shows "\<exists>s'. hs_start (http_cbk need_eof set_host OnOpen cs) s = Some s' \<and> http_inv s'"
proof -
  define s1 where "s1 = s\<lparr>hs_started := True, hs_stop := False, hs_events := hs_events s @ [HOpened]\<rparr>"
  let ?cbk = "http_cbk need_eof set_host OnOpen cs"
  have st: "hs_start ?cbk s = do { s2 \<leftarrow> ?cbk s1; if hs_is_request s2 then hs_read False s2 else Some s2 }"
    using assms(1) by (simp add: hs_start_def s1_def)
  have l: "hs_live s1 = []" using assms(2) by (simp add: s1_def)
  have "\<forall>(op, b) \<in> set (hs_ops s). on_connection op" using assms(2,4) by (force simp: hs_live_def)
  then have all: "\<forall>(op, b) \<in> set (hs_ops s1). on_connection op" by (simp add: s1_def)
  show ?thesis
  proof (cases "hs_is_request s1")
    case False
    have "http_inv s1" using assms False by (auto simp: http_inv_def s1_def)
    then obtain s2 where "?cbk s1 = Some s2" "http_inv s2" using hs_cbk_inv by blast
    then show ?thesis using False hs_cbk_request [of need_eof set_host OnOpen cs s1 s2] by (simp add: st)
  next
    case True
    have open1: "\<exists>s'. hs_read False s1 = Some s' \<and> http_inv s'"
      using assms True by (auto simp: http_inv_def hs_read_def s1_def)
    have "\<not> hs_stop s1" by (simp add: s1_def)
    note closed = shutdown_read_inv [OF this all, of False]
    have "hs_is_request (hs_shutdown s1)" using True by (simp add: hs_shutdown_def hs_close_def)
    then show ?thesis using quiet_cbk [of OnOpen s1 need_eof set_host cs] True open1 closed by (auto simp: st)
  qed
qed

lemma http_handle_inv:
  assumes i: "http_inv s" and k: "k < length (hs_ops s)" "hs_ops s ! k = (op, b)" and b: "b \<longrightarrow> ec"
  shows "\<exists>s'. hs_handle_op need_eof set_host op ec msg cs (hs_drop_op k s) = Some s' \<and> http_inv s'"
proof -
  obtain L1 L2 where L: "hs_live s = L1 @ (if b then [] else [op]) @ L2" "hs_live (hs_drop_op k s) = L1 @ L2"
    "set (hs_ops (hs_drop_op k s)) \<subseteq> set (hs_ops s)" by (rule live_drop_hs [OF k])
  define s0 where "s0 = hs_drop_op k s"
  have one: "\<not> b \<Longrightarrow> L1 = [] \<and> L2 = []" using i L(1) by (simp add: http_inv_def)
  have ab: "\<forall>(op, b) \<in> set (hs_ops s0). b \<longrightarrow> on_connection op" using i L(3) by (auto simp: http_inv_def s0_def)
  have mem: "(op, b) \<in> set (hs_ops s)" using k by (metis nth_mem)
  have chain: "\<not> b \<and> \<not> hs_started s0 \<and> hs_stop s0 \<and> hs_live s0 = []" if "\<not> on_connection op"
  proof -
    have "\<not> b" using that mem i by (auto simp: http_inv_def)
    then show ?thesis using that one i L by (auto simp: http_inv_def s0_def)
  qed
  have nolive: "(\<forall>(op, b) \<in> set (hs_ops s0). on_connection op)" if "hs_live s0 = []"
    using that ab by (force simp: hs_live_def)
  show ?thesis
  proof (cases "on_connection op")
    case False
    note c = chain [OF False]
    have cl: "http_inv (hs_close s0)" using hs_close_inv c nolive by blast
    show ?thesis
    proof (cases op)
      case HResolve
      have "http_inv (hs_add_op HConnect s0)" using c ab i by (auto simp: http_inv_def s0_def)
      then show ?thesis using HResolve cl
        by (simp add: hs_handle_op_def hs_handle_resolve_def flip: s0_def)
    next
      case HConnect
      then show ?thesis using cl hs_start_inv [of "s0\<lparr>hs_open := True\<rparr>"] c ab
        by (simp add: hs_handle_op_def hs_handle_connect_def flip: s0_def)
    qed (use False in simp_all)
  next
    case True
    have fail: "http_inv (hs_shutdown s0)" if "b \<or> ec"
    proof (cases b)
      case True
      then have "hs_live s0 = hs_live s" using L by (simp add: s0_def)
      then have "http_inv s0" using i ab by (simp add: http_inv_def s0_def)
      then show ?thesis by (rule hs_shutdown_inv)
    next
      case False
      then have l: "hs_live s0 = []" using one L(2) by (simp add: s0_def)
      have "hs_started s0" using False True i L(1) by (auto simp: http_inv_def s0_def)
      then have "\<not> hs_stop s0" using i by (simp add: http_inv_def s0_def)
      then show ?thesis using hs_shutdown_closes nolive [OF l] by blast
    qed
    show ?thesis
    proof (cases ec)
      case True
      then show ?thesis using fail \<open>on_connection op\<close>
        by (cases op) (simp_all add: hs_handle_op_def hs_handle_read_def hs_handle_write_def flip: s0_def)
    next
      case False
      then have nb: "\<not> b" using b by simp
      then have l0: "hs_live s0 = []" using one L(2) by (simp add: s0_def)
      have st: "hs_started s0" "hs_open s0" "\<not> hs_stop s0" using True nb i L(1) by (auto simp: http_inv_def s0_def)
      have ex: "expects_send (\<not> hs_is_request s0) (since_open (hs_events s0)) =
          Some (case op of HRead c \<Rightarrow> False | _ \<Rightarrow> True)"
        using i st one [OF nb] L(1) nb by (auto simp: http_inv_def s0_def split: http_op.splits)
      show ?thesis
      proof (cases op)
        case (HRead cl)
        define s1 where "s1 = s0\<lparr>hs_events := hs_events s0 @ [HGot msg]\<rparr>"
        have "http_inv s1" using st l0 ab ex HRead by (simp add: http_inv_def s1_def expects_snoc)
        then obtain s2 where s2: "http_cbk need_eof set_host OnRead cs s1 = Some s2" "http_inv s2"
          using hs_cbk_inv by blast
        then show ?thesis using HRead False hs_shutdown_inv [OF s2(2)]
          by (simp add: hs_handle_op_def hs_handle_read_def flip: s0_def s1_def)
      next
        case (HWrite cl)
        obtain m where m: "hs_send_msg s0 = Some m" using i nb L(1) HWrite by (auto simp: http_inv_def s0_def)
        define s1 where "s1 = s0\<lparr>hs_events := hs_events s0 @ [HSent m]\<rparr>"
        have ex1: "expects_send (\<not> hs_is_request s1) (since_open (hs_events s1)) = Some False"
          using ex HWrite by (simp add: s1_def expects_snoc)
        have r: "hs_is_request (hs_shutdown s1) = hs_is_request s1" by (simp add: hs_shutdown_def hs_close_def)
        have all: "\<not> hs_stop s1" "\<forall>(op, b) \<in> set (hs_ops s1). on_connection op"
          using st(3) nolive [OF l0] by (simp_all add: s1_def)
        have h: "hs_handle_op need_eof set_host op ec msg cs s0 = do {
            s2 \<leftarrow> http_cbk need_eof set_host OnWrite cs s1;
            if \<not> hs_is_request s2 \<or> \<not> cl then hs_read cl s2 else Some (hs_shutdown s2) }"
          using HWrite False m by (simp add: hs_handle_op_def hs_handle_write_def s1_def)
        have "http_inv (hs_add_op (HRead cl) s1)"
          using st l0 ab ex1 by (auto simp: http_inv_def s1_def)
        then have "\<exists>s'. hs_read cl s1 = Some s' \<and> http_inv s'" using l0 by (simp add: hs_read_def s1_def)
        then show ?thesis
          using quiet_cbk [of OnWrite s1 need_eof set_host cs] shutdown_read_inv [OF all, of cl] hs_shutdown_closes [OF all] r
          by (auto simp: h hs_shutdown_twice simp flip: s0_def)
      qed (use True in simp_all)
    qed
  qed
qed

lemma http_step_ok:
  "http_step need_eof set_host z z' \<Longrightarrow> (\<exists>s. z = Some s \<and> http_inv s) \<Longrightarrow> \<exists>s. z' = Some s \<and> http_inv s"
proof (induction rule: http_step.induct)
  case (connect s ip)
  then show ?case by (auto simp: hs_connect_def http_inv_def)
next
  case (reconnect s)
  then show ?case by (auto simp: hs_reconnect_def http_inv_def)
next
  case (start s)
  then have i: "http_inv s" by simp
  show ?case
  proof (cases "hs_started s")
    case True
    then show ?thesis using i by (simp add: hs_start_def)
  next
    case False
    have "hs_live s = []" using start(2) by (simp add: hs_live_def)
    then show ?thesis using hs_start_inv [OF False _ start(3)] start(2) by simp
  qed
next
  case (call c s)
  then show ?case using hs_call_inv by blast
next
  case (handle k s op b ec msg cs)
  then have "http_inv s" by simp
  from http_handle_inv [OF this handle(1-3)] show ?case .
qed

lemma http_reach_inv:
  assumes "(http_step need_eof set_host)\<^sup>*\<^sup>* (Some (new_http_session is_request)) z"
  shows "\<exists>s. z = Some s \<and> http_inv s"
  using assms
proof (induction rule: rtranclp_induct)
  case base
  show ?case by (simp add: new_http_session_def http_inv_def hs_live_def)
qed (rule http_step_ok)

section \<open>Properties\<close>

text \<open>C32: Requests and answers alternate. Let a user of a session send only when the session runs and nothing
  is outstanding, from the read callback or outside callbacks and, on a client, from the open callback, but
  not from the write callback, nor a server from the open callback (each of these sends would leave two
  operations: http_send_in_callback); let a client connect and reconnect only while it does not run and nothing is
  outstanding; and let shutdown be called at any time, from the open, read and write callbacks too. Then, whatever
  resolves, connects, reads and writes end with, and whatever the messages say about the end of
  the connection, no call or handler is undefined and at most one operation is live; while the
  session runs, the messages sent and received since it was opened alternate, on a client beginning with a
  sent one, on a server with a received one, and a message is awaited exactly while a read is live.\<close>

theorem http_exchange:
  assumes "(http_step need_eof set_host)\<^sup>*\<^sup>* (Some (new_http_session is_request)) z"
  shows "\<exists>s. z = Some s \<and> length (hs_live s) \<le> 1 \<and>
    (hs_started s \<longrightarrow> hs_open s \<and>
       (\<exists>b. expects_send (\<not> hs_is_request s) (since_open (hs_events s)) = Some b \<and>
          (\<not> b \<longleftrightarrow> (\<exists>c. hs_live s = [HRead c]))))"
proof -
  obtain s where s: "z = Some s" "http_inv s" using http_reach_inv [OF assms] by blast
  have "(\<not> (\<forall>op \<in> set (hs_live s). case op of HRead c \<Rightarrow> False | _ \<Rightarrow> True)) = (\<exists>c. hs_live s = [HRead c])"
    using s(2) by (cases "hs_live s") (auto simp: http_inv_def split: http_op.splits)
  then show ?thesis using s by (simp add: http_inv_def)
qed

text \<open>A client that connected and sent the message 5.\<close>

definition sample_http :: "(nat, nat) http_session" where
  "sample_http = \<lparr>hs_is_request = False, hs_open = True, hs_ops = [(HRead True, False)], hs_started = True,
     hs_stop = False, hs_ip = ''h'', hs_send_msg = Some 5, hs_events = [HOpened, HSent 5]\<rparr>"

lemma sample_http_reach:
  "(http_step (\<lambda>_. True) (\<lambda>_ m. m))\<^sup>*\<^sup>* (Some (new_http_session False)) (Some sample_http)"
proof -
  let ?step = "http_step (\<lambda>_. True) (\<lambda>_ m. m) :: (nat, nat) http_session option \<Rightarrow> _"
  define s0 where "s0 = (new_http_session False :: (nat, nat) http_session)"
  define s1 where "s1 = hs_connect ''h'' s0"
  define s2 where "s2 = hs_add_op HConnect (hs_drop_op 0 s1)"
  define s3 where "s3 = s0\<lparr>hs_ip := ''h'', hs_open := True, hs_started := True, hs_stop := False, hs_events := [HOpened]\<rparr>"
  define s4 where "s4 = s3\<lparr>hs_send_msg := Some 5, hs_ops := [(HWrite True, False)]\<rparr>"
  note defs = s0_def s1_def s2_def s3_def s4_def new_http_session_def hs_connect_def hs_add_op_def hs_drop_op_def hs_live_def
  have "?step (Some s0) (Some s1)" unfolding s1_def by (rule http_step.connect) (simp_all add: defs)
  moreover have "?step (Some s1) (Some s2)"
    using http_step.handle [of 0 s1 HResolve False False "\<lambda>_. True" "\<lambda>_ m. m" 0 "[]"]
    by (simp add: defs hs_handle_op_def hs_handle_resolve_def)
  moreover have "?step (Some s2) (Some s3)"
    using http_step.handle [of 0 s2 HConnect False False "\<lambda>_. True" "\<lambda>_ m. m" 0 "[]"]
    by (simp add: defs hs_handle_op_def hs_handle_connect_def hs_start_def)
  moreover have "?step (Some s3) (Some s4)"
    using http_step.call [of "HSend 5" s3 "\<lambda>_. True" "\<lambda>_ m. m"]
    by (simp add: defs may_call_def run_http_call_def hs_async_write_def)
  moreover have "?step (Some s4) (Some sample_http)"
    using http_step.handle [of 0 s4 "HWrite True" False False "\<lambda>_. True" "\<lambda>_ m. m" 0 "[]"]
    by (simp add: defs hs_handle_op_def hs_handle_write_def hs_read_def sample_http_def)
  ultimately have "?step\<^sup>*\<^sup>* (Some s0) (Some sample_http)"
    by (meson converse_rtranclp_into_rtranclp r_into_rtranclp)
  then show ?thesis by (simp add: s0_def)
qed

theorem http_exchange_witness:
  "\<exists>b. expects_send True (since_open (hs_events sample_http)) = Some b \<and> \<not> b"
  using http_exchange [OF sample_http_reach] by (auto simp: sample_http_def hs_live_def)

text \<open>What async_write does outside an exchange. On a session that is not open, as before it is connected and after it was
  closed, it returns true, but the write fails, and its handler changes nothing and calls nothing, so
  that the user never hears of the message. While a write is under way it overwrites the message that
  is being written, which is undefined; and a message sent while a read is live, by a client or a
  server, makes the end of the write start a second read, which is undefined as well.\<close>

theorem http_write_outside_exchange:
  "(\<not> hs_open s \<and> hs_stop s \<and> hs_live s = [] \<longrightarrow>
     (\<exists>s'. hs_async_write need_eof set_host msg s = Some (True, s') \<and> hs_ops s' = hs_ops s @ [(HWrite (need_eof (set_host (hs_ip s) msg)), True)] \<and>
       hs_handle_op need_eof set_host (HWrite (need_eof (set_host (hs_ip s) msg))) True r c (hs_drop_op (length (hs_ops s)) s') =
         Some (s\<lparr>hs_send_msg := Some (set_host (hs_ip s) msg)\<rparr>))) \<and>
   (HWrite close \<in> set (hs_live s) \<longrightarrow> hs_async_write need_eof set_host msg s = None) \<and>
   (hs_live s = [HRead close] \<and> \<not> need_eof (set_host (hs_ip s) msg) \<and> hs_open s \<longrightarrow>
     (\<exists>s'. hs_async_write need_eof set_host msg s = Some (True, s') \<and>
       hs_handle_op need_eof set_host (HWrite False) False r [] (hs_drop_op (length (hs_ops s)) s') = None))"
proof (intro conjI impI)
  assume a: "\<not> hs_open s \<and> hs_stop s \<and> hs_live s = []"
  show "\<exists>s'. hs_async_write need_eof set_host msg s = Some (True, s') \<and> hs_ops s' = hs_ops s @ [(HWrite (need_eof (set_host (hs_ip s) msg)), True)] \<and>
       hs_handle_op need_eof set_host (HWrite (need_eof (set_host (hs_ip s) msg))) True r c (hs_drop_op (length (hs_ops s)) s') =
         Some (s\<lparr>hs_send_msg := Some (set_host (hs_ip s) msg)\<rparr>)"
    using a by (simp add: hs_async_write_def Let_def hs_add_op_def hs_drop_op_def hs_handle_op_def hs_handle_write_def
      hs_shutdown_def)
next
  assume "HWrite close \<in> set (hs_live s)"
  then show "hs_async_write need_eof set_host msg s = None" by (auto simp: hs_async_write_def split: http_op.splits)
next
  assume a: "hs_live s = [HRead close] \<and> \<not> need_eof (set_host (hs_ip s) msg) \<and> hs_open s"
  define s' where "s' = hs_add_op (HWrite False) (s\<lparr>hs_send_msg := Some (set_host (hs_ip s) msg)\<rparr>)"
  have "hs_drop_op (length (hs_ops s)) s' = s\<lparr>hs_send_msg := Some (set_host (hs_ip s) msg)\<rparr>"
    by (simp add: s'_def hs_add_op_def hs_drop_op_def)
  then show "\<exists>s'. hs_async_write need_eof set_host msg s = Some (True, s') \<and>
       hs_handle_op need_eof set_host (HWrite False) False r [] (hs_drop_op (length (hs_ops s)) s') = None"
    using a by (intro exI [of _ s'])
      (simp add: hs_async_write_def Let_def s'_def hs_handle_op_def hs_handle_write_def hs_read_def)
qed

theorem http_write_outside_exchange_witness:
  "hs_async_write (\<lambda>_. False) (\<lambda>_ m. m) 6
     (sample_http\<lparr>hs_ops := [(HWrite True, False)]\<rparr>) = None"
  using http_write_outside_exchange [of "sample_http\<lparr>hs_ops := [(HWrite True, False)]\<rparr>" "\<lambda>_. False" "\<lambda>_ m. m" 6 _ _ True]
  by (simp add: hs_live_def)

text \<open>
  What the user must not do. A send in the write callback, and one of a server in its open callback,
  leave a write and the read that follows outstanding together; connect, which tests nothing, begins
  a resolve beside whatever is outstanding.
\<close>

theorem http_send_in_callback:
  assumes "hs_open s" "hs_live s = []"
    and send: "send = (\<lambda>s. map_option snd (hs_async_write need_eof set_host m s))"
  shows "hs_send_msg s \<noteq> None \<and> \<not> hs_is_request s \<longrightarrow>
      (\<exists>s' c. hs_handle_write close False send s = Some s' \<and> hs_live s' = [HWrite c, HRead close])"
    and "hs_is_request s \<and> \<not> hs_started s \<longrightarrow>
      (\<exists>s' c. hs_start send s = Some s' \<and> hs_live s' = [HWrite c, HRead False])"
    and "hs_live (hs_connect ip (hs_add_op (HRead c) s)) = [HRead c, HResolve]"
  using assms(1,2)
  by (auto simp: send hs_handle_write_def hs_start_def hs_async_write_def hs_read_def Let_def)
     (simp add: hs_connect_def)

theorem http_send_in_callback_witness:
  "hs_live (hs_connect ''h'' (hs_add_op (HRead True) (sample_http\<lparr>hs_ops := []\<rparr>))) = [HRead True, HResolve]"
  by (rule http_send_in_callback(3) [OF _ _ HOL.refl]) (simp_all add: sample_http_def hs_live_def)

end
