(* ===== verification/Websocket_Ssl_Session.thy ===== *)
theory Websocket_Ssl_Session
  imports Websocket_Session
begin

text \<open>
  WebsocketSslSession (boost_net/boost_net/websocket_ssl_session.hpp) for binary data; the session for texts does
  not compile, as its read hands a buffer to a function that wants a dynamic one. Between the connection
  and the handshake of the websocket comes that of SSL. The flag of the initialisation is set after
  the connection, not before the resolve, and two handlers hold no reference to the session: as_ws forgets
  both differences and gives a session of Websocket_Session, whose invariant is used again.
\<close>

section \<open>WebsocketSslSession\<close>

text \<open>
  A resolve, a connect, the handshakes of SSL of a client and of a server, the handshakes of the
  websocket of a client and of a server, a read and a write.
\<close>

datatype wl_op =
  WlResolve | WlConnect | WlSslClient | WlSslServer | WlHandshake | WlAccept | WlRead nat | WlWrite "cell list"

(* src: boost_net/boost_net/websocket_ssl_session.hpp 484-517 WebsocketSslSession *)
record wl_session =
  wl_open :: bool
  wl_ops :: "(wl_op \<times> bool) list"
  wl_sent :: "cell list list"
  wl_read_buf :: bytes
  wl_max_rbuffer :: nat
  wl_write_buf :: write_buffer
  wl_current :: "memory_stream option"
  wl_max_wbuffer :: nat
  wl_has_read_cbk :: bool
  wl_events :: "net_event list"
  wl_switch :: switch

(* src: boost_net/boost_net/websocket_ssl_session.hpp 91-102 WebsocketSslSession::WebsocketSslSession *)
definition new_wl_session :: "nat \<Rightarrow> nat \<Rightarrow> bool \<Rightarrow> wl_session" where
  "new_wl_session max_w max_r has_read_cbk =
     \<lparr>wl_open = False, wl_ops = [], wl_sent = [], wl_read_buf = [], wl_max_rbuffer = max_r,
      wl_write_buf = new_write_buffer 1000, wl_current = None, wl_max_wbuffer = max_w,
      wl_has_read_cbk = has_read_cbk, wl_events = [], wl_switch = new_switch\<rparr>"

(* src: boost_net/boost_net/websocket_ssl_session.hpp 146-148 WebsocketSslSession::is_open *)
definition wl_is_open :: "wl_session \<Rightarrow> bool" where
  "wl_is_open s \<longleftrightarrow> has_started (wl_switch s) \<and> wl_open s"

text \<open>A read or a write on a connection that is not up fails.\<close>

definition wl_add_op :: "wl_op \<Rightarrow> wl_session \<Rightarrow> wl_session" where
  "wl_add_op op s = s\<lparr>wl_ops := wl_ops s @
     [(op, \<not> wl_open s \<and> (case op of WlRead _ \<Rightarrow> True | WlWrite _ \<Rightarrow> True | _ \<Rightarrow> False))]\<rparr>"

text \<open>Unlike in WebsocketSession no flag guards the call.\<close>

(* src: boost_net/boost_net/websocket_ssl_session.hpp 167-174 WebsocketSslSession::connect *)
definition wl_connect :: "wl_session \<Rightarrow> wl_session" where
  "wl_connect s = wl_add_op WlResolve s"

(* src: boost_net/boost_net/websocket_ssl_session.hpp 182-189 WebsocketSslSession::start *)
definition wl_start :: "wl_session \<Rightarrow> wl_session" where
  "wl_start s = (let (b, w) = as_init (wl_switch s) in if \<not> b then s else wl_add_op WlSslServer (s\<lparr>wl_switch := w\<rparr>))"

text \<open>
  Shutting the socket down ends what runs on the stream, closing it, when the flag of the initialisation is set,
  a connect as well; a resolve goes on.
\<close>

(* src: boost_net/boost_net/websocket_ssl_session.hpp 463-482 WebsocketSslSession::close *)
definition wl_close :: "wl_session \<Rightarrow> wl_session" where
  "wl_close s = s\<lparr>wl_open := False,
     wl_ops := map (\<lambda>(op, b). (op, b \<or> (case op of WlResolve \<Rightarrow> False | WlConnect \<Rightarrow> has_init (wl_switch s) | _ \<Rightarrow> True)))
       (wl_ops s),
     wl_read_buf := [], wl_switch := as_reset (wl_switch s), wl_write_buf := wb_clear (wl_write_buf s),
     wl_current := None, wl_sent := [], wl_events := wl_events s @ [Closed]\<rparr>"

(* src: boost_net/boost_net/websocket_ssl_session.hpp 232-237 WebsocketSslSession::shutdown *)
definition wl_shutdown :: "wl_session \<Rightarrow> wl_session" where
  "wl_shutdown s =
     (let (b, w) = as_stop (wl_switch s) in if \<not> b then s else wl_close (s\<lparr>wl_switch := w\<rparr>))"

(* src: boost_net/boost_net/websocket_ssl_session.hpp 299-317 WebsocketSslSession::read *)
definition wl_read :: "wl_session \<Rightarrow> wl_session" where
  "wl_read s = wl_add_op (WlRead (wl_max_rbuffer s)) s"

(* src: boost_net/boost_net/websocket_ssl_session.hpp 320-328 WebsocketSslSession::write *)
definition wl_write_next :: "wl_session \<Rightarrow> wl_session option" where
  "wl_write_next s =
     do { (m, w) \<leftarrow> wb_pop_front (wl_write_buf s);
          let s1 = s\<lparr>wl_write_buf := w, wl_current := Some m\<rparr>;
          Some ((wl_add_op (WlWrite (ms_body m)) s1)\<lparr>wl_sent := wl_sent s @ [ms_body m]\<rparr>) }"

(* src: boost_net/boost_net/websocket_ssl_session.hpp 245-247 WebsocketSslSession::write *)
definition wl_over_limit :: "bytes \<Rightarrow> wl_session \<Rightarrow> bool" where
  "wl_over_limit msg s \<longleftrightarrow> wl_max_wbuffer s > 0 \<and>
     (wb_all_len (wl_write_buf s) + length msg) mod 2 ^ 64 > wl_max_wbuffer s"

(* src: boost_net/boost_net/websocket_ssl_session.hpp 240-258 WebsocketSslSession::write *)
definition wl_write :: "bytes \<Rightarrow> wl_session \<Rightarrow> (bool \<times> wl_session) option" where
  "wl_write msg s =
     (if \<not> has_started (wl_switch s) then Some (False, s)
      else if wl_over_limit msg s then Some (False, s)
      else do {
        w \<leftarrow> wb_append msg (wl_write_buf s);
        let s1 = s\<lparr>wl_write_buf := w\<rparr>;
        if wl_current s1 \<noteq> None then Some (True, s1)
        else do { s2 \<leftarrow> wl_write_next s1; Some (True, s2) } })"

(* src: boost_net/boost_net/websocket_ssl_session.hpp 262-280 WebsocketSslSession::write_tail *)
definition wl_write_tail :: "bytes \<Rightarrow> nat \<Rightarrow> wl_session \<Rightarrow> (bool \<times> wl_session) option" where
  "wl_write_tail msg max_package_size s =
     (if \<not> has_started (wl_switch s) then Some (False, s)
      else if wl_over_limit msg s then Some (False, s)
      else do {
        w \<leftarrow> wb_append_tail msg max_package_size (wl_write_buf s);
        let s1 = s\<lparr>wl_write_buf := w\<rparr>;
        if wl_current s1 \<noteq> None then Some (True, s1)
        else do { s2 \<leftarrow> wl_write_next s1; Some (True, s2) } })"

(* src: boost_net/boost_net/websocket_ssl_session.hpp 283-289 WebsocketSslSession::consume_read_buf *)
definition wl_consume :: "nat \<Rightarrow> wl_session \<Rightarrow> wl_session" where
  "wl_consume n s = (if has_stoped (wl_switch s) then s else s\<lparr>wl_read_buf := drop n (wl_read_buf s)\<rparr>)"

(* src: boost_net/boost_net/websocket_ssl_session.hpp 330-339 WebsocketSslSession::handle_resolve *)
definition wl_handle_resolve :: "bool \<Rightarrow> wl_session \<Rightarrow> wl_session" where
  "wl_handle_resolve ec s = (if ec then wl_close s else wl_add_op WlConnect s)"

text \<open>The argument sni tells whether the name of the host could be set.\<close>

(* src: boost_net/boost_net/websocket_ssl_session.hpp 342-371 WebsocketSslSession::handle_connect *)
definition wl_handle_connect :: "bool \<Rightarrow> bool \<Rightarrow> wl_session \<Rightarrow> wl_session" where
  "wl_handle_connect sni ec s =
     (if ec then wl_close s
      else let s1 = s\<lparr>wl_open := True\<rparr>; (b, w) = as_init (wl_switch s1)
           in if \<not> b then s1
              else if \<not> sni then wl_close (s1\<lparr>wl_switch := w\<rparr>)
              else wl_add_op WlSslClient (s1\<lparr>wl_switch := w\<rparr>))"

(* src: boost_net/boost_net/websocket_ssl_session.hpp 401-415 WebsocketSslSession::handle_start *)
definition wl_handle_start :: "bool \<Rightarrow> wl_session \<Rightarrow> wl_session" where
  "wl_handle_start ec s =
     (if ec then wl_close s
      else let (b, w) = as_start (wl_switch s); s1 = s\<lparr>wl_switch := w\<rparr>
           in if \<not> b then wl_close s1 else (wl_read s1)\<lparr>wl_events := wl_events s @ [Opened]\<rparr>)"

(* src: boost_net/boost_net/websocket_ssl_session.hpp 373-391 WebsocketSslSession::handle_handshake *)
definition wl_handle_handshake :: "bool \<Rightarrow> wl_session \<Rightarrow> wl_session" where
  "wl_handle_handshake ec s = (if ec then wl_close s else wl_add_op WlHandshake s)"

text \<open>The lambda behind the websocket's handshake of a client.\<close>

(* src: boost_net/boost_net/websocket_ssl_session.hpp 391-397 WebsocketSslSession::handle_handshake *)
definition wl_handshake_lambda :: "bool \<Rightarrow> wl_session \<Rightarrow> wl_session" where
  "wl_handshake_lambda ec s = (if ec then wl_close s else wl_handle_start ec s)"

text \<open>The lambda behind the server's handshake of SSL; the connection of a server's session is up by then.\<close>

(* src: boost_net/boost_net/websocket_ssl_session.hpp 190-228 WebsocketSslSession::start *)
definition wl_start_lambda :: "bool \<Rightarrow> wl_session \<Rightarrow> wl_session" where
  "wl_start_lambda ec s = (if ec then wl_close s else wl_add_op WlAccept s)"

(* src: boost_net/boost_net/websocket_ssl_session.hpp 418-438 WebsocketSslSession::handle_read *)
definition wl_handle_read :: "bool \<Rightarrow> bytes \<Rightarrow> (wl_session \<Rightarrow> wl_session option) \<Rightarrow> wl_session \<Rightarrow> wl_session option" where
  "wl_handle_read ec data cbk s =
     (if ec then Some (wl_shutdown s)
      else do {
        let s1 = s\<lparr>wl_read_buf := wl_read_buf s @ data\<rparr>;
        s2 \<leftarrow> (if wl_has_read_cbk s1 then cbk (s1\<lparr>wl_events := wl_events s1 @ [ReadCalled (wl_read_buf s1)]\<rparr>)
               else Some (wl_consume (length data) s1));
        if has_stoped (wl_switch s2) then Some s2 else Some (wl_read s2) })"

(* src: boost_net/boost_net/websocket_ssl_session.hpp 441-461 WebsocketSslSession::handle_write *)
definition wl_handle_write :: "bool \<Rightarrow> wl_session \<Rightarrow> wl_session option" where
  "wl_handle_write ec s =
     (if ec then Some (wl_shutdown s)
      else if has_stoped (wl_switch s) then Some s
      else do {
        let s1 = (case wl_current s of None \<Rightarrow> s
                  | Some m \<Rightarrow> s\<lparr>wl_events := wl_events s @ [Written (ms_body m)]\<rparr>);
        let s2 = s1\<lparr>wl_write_buf := wb_release (wl_current s1) (wl_write_buf s1), wl_current := None\<rparr>;
        if wb_items (wl_write_buf s2) = [] then Some s2 else wl_write_next s2 })"

section \<open>Sessions with their users\<close>

text \<open>The session with the messages that were accepted since it was last closed.\<close>

type_synonym wl_sys = "wl_session \<times> bytes list"

definition wl_closes :: "wl_session \<Rightarrow> nat" where
  "wl_closes s = length (filter (\<lambda>e. e = Closed) (wl_events s))"

definition wl_since_close :: "wl_session \<Rightarrow> wl_session \<Rightarrow> bytes list \<Rightarrow> bytes list" where
  "wl_since_close s s' acc = (if wl_closes s' = wl_closes s then acc else [])"

fun run_wl_call :: "client_call \<Rightarrow> wl_sys \<Rightarrow> wl_sys option" where
  "run_wl_call (CWrite msg) (s, acc) =
     do { (ok, s') \<leftarrow> wl_write msg s; Some (s', if ok then acc @ [msg] else acc) }"
| "run_wl_call (CConsume n) (s, acc) = Some (wl_consume n s, acc)"
| "run_wl_call CShutdown (s, acc) = Some (wl_shutdown s, wl_since_close s (wl_shutdown s) acc)"

fun run_wl_calls :: "client_call list \<Rightarrow> wl_sys \<Rightarrow> wl_sys option" where
  "run_wl_calls [] z = Some z"
| "run_wl_calls (c # cs) z = Option.bind (run_wl_call c z) (run_wl_calls cs)"

definition wl_drop_op :: "nat \<Rightarrow> wl_session \<Rightarrow> wl_session" where
  "wl_drop_op k s = s\<lparr>wl_ops := take k (wl_ops s) @ drop (Suc k) (wl_ops s)\<rparr>"

text \<open>Handlers bound to shared_from_this hold the session, the lambdas with [&] do not.\<close>

definition owned :: "wl_op \<Rightarrow> bool" where
  "owned op \<longleftrightarrow> op \<noteq> WlSslServer \<and> op \<noteq> WlHandshake"

definition wl_alive :: "bool \<Rightarrow> wl_session \<Rightarrow> bool" where
  "wl_alive held s \<longleftrightarrow> held \<or> (\<exists>(op, b) \<in> set (wl_ops s). owned op)"

text \<open>As in Websocket_Session, the connection of a server counts as up after the first handshake on it.\<close>

definition wl_handle_op :: "wl_op \<Rightarrow> bool \<Rightarrow> bool \<Rightarrow> bytes \<Rightarrow> client_call list \<Rightarrow> wl_sys \<Rightarrow> wl_sys option" where
  "wl_handle_op op sni ec data cs z =
     (let (s, acc) = z; finish = (\<lambda>s'. (s', wl_since_close s s' acc)) in
      case op of
        WlResolve \<Rightarrow> Some (finish (wl_handle_resolve ec s))
      | WlConnect \<Rightarrow> Some (finish (wl_handle_connect sni ec s))
      | WlSslClient \<Rightarrow> Some (finish (wl_handle_handshake ec s))
      | WlSslServer \<Rightarrow> Some (finish (wl_start_lambda ec (if ec then s else s\<lparr>wl_open := True\<rparr>)))
      | WlHandshake \<Rightarrow> Some (finish (wl_handshake_lambda ec s))
      | WlAccept \<Rightarrow> Some (finish (wl_handle_start ec s))
      | WlWrite _ \<Rightarrow> map_option finish (wl_handle_write ec s)
      | WlRead _ \<Rightarrow>
          if ec \<or> \<not> wl_has_read_cbk s then map_option finish (wl_handle_read ec data Some s)
          else do {
            (s2, acc2) \<leftarrow> run_wl_calls cs (s\<lparr>wl_read_buf := wl_read_buf s @ data,
                wl_events := wl_events s @ [ReadCalled (wl_read_buf s @ data)]\<rparr>, acc);
            s' \<leftarrow> wl_handle_read False data (\<lambda>_. Some s2) s;
            Some (s', acc2) })"

text \<open>
  A user connects a session that is neither initialised nor opening, though connect has no guard for
  that (wss_ssl_differs says what it does on a session that runs), starts one that is not opening or
  is initialised already, which does nothing, and may give the session away when keep is false: it then makes no further calls, and the handlers outstanding keep the session, if they
  do. The handler of an operation that outlived the session is undefined.
\<close>

definition wl_opening :: "wl_session \<Rightarrow> wl_op list" where
  "wl_opening s = [op. (op, b) \<leftarrow> wl_ops s, \<not> b \<and> (op = WlResolve \<or> op = WlConnect)]"

definition wl_may_open :: "wl_session \<Rightarrow> bool" where
  "wl_may_open s \<longleftrightarrow> \<not> has_init (wl_switch s) \<and> wl_opening s = []"

inductive wl_step :: "bool \<Rightarrow> (wl_session \<times> bytes list \<times> bool) option \<Rightarrow> (wl_session \<times> bytes list \<times> bool) option \<Rightarrow> bool"
  for keep :: bool where
  start: "has_init (wl_switch s) \<or> wl_opening s = [] \<Longrightarrow> wl_step keep (Some (s, acc, True)) (Some (wl_start s, acc, True))"
| connect: "wl_may_open s \<Longrightarrow> wl_step keep (Some (s, acc, True)) (Some (wl_connect s, acc, True))"
| client: "wl_step keep (Some (s, acc, True)) (map_option (\<lambda>(s', acc'). (s', acc', True)) (run_wl_call c (s, acc)))"
| release: "\<not> keep \<Longrightarrow> wl_step keep (Some (s, acc, True)) (Some (s, acc, False))"
| handle: "k < length (wl_ops s) \<Longrightarrow> wl_ops s ! k = (op, b) \<Longrightarrow> (b \<longrightarrow> ec) \<Longrightarrow>
    (\<forall>n. op = WlRead n \<longrightarrow> length data \<le> n) \<Longrightarrow> (\<not> held \<longrightarrow> cs = []) \<Longrightarrow>
    wl_step keep (Some (s, acc, held))
      (if wl_alive held s
       then map_option (\<lambda>(s', acc'). (s', acc', held)) (wl_handle_op op sni ec data cs (wl_drop_op k s, acc))
       else None)"

section \<open>As a session without SSL\<close>

primrec ws_op_of :: "wl_op \<Rightarrow> ws_op" where
  "ws_op_of WlResolve = WsResolve"
| "ws_op_of WlConnect = WsConnect"
| "ws_op_of WlSslClient = WsHandshake"
| "ws_op_of WlSslServer = WsAccept"
| "ws_op_of WlHandshake = WsHandshake"
| "ws_op_of WlAccept = WsAccept"
| "ws_op_of (WlRead n) = WsRead (Some n)"
| "ws_op_of (WlWrite bs) = WsWrite bs"

text \<open>What comes before the flag of the initialisation counts as over.\<close>

definition as_ws_op :: "wl_op \<times> bool \<Rightarrow> ws_op \<times> bool" where
  "as_ws_op p = (ws_op_of (fst p), snd p \<or> fst p = WlResolve \<or> fst p = WlConnect)"

definition as_ws :: "wl_session \<Rightarrow> ws_session" where
  "as_ws s = \<lparr>ws_read_some = True, ws_open = wl_open s, ws_ops = map as_ws_op (wl_ops s), ws_sent = wl_sent s,
     ws_read_buf = wl_read_buf s, ws_max_rbuffer = wl_max_rbuffer s, ws_write_buf = wl_write_buf s,
     ws_current = wl_current s, ws_max_wbuffer = wl_max_wbuffer s, ws_has_read_cbk = wl_has_read_cbk s,
     ws_events = wl_events s, ws_switch = wl_switch s\<rparr>"

lemma as_ws_fields [simp]:
  "ws_read_some (as_ws s)" "ws_open (as_ws s) = wl_open s" "ws_sent (as_ws s) = wl_sent s"
  "ws_read_buf (as_ws s) = wl_read_buf s" "ws_max_rbuffer (as_ws s) = wl_max_rbuffer s"
  "ws_write_buf (as_ws s) = wl_write_buf s" "ws_current (as_ws s) = wl_current s"
  "ws_max_wbuffer (as_ws s) = wl_max_wbuffer s" "ws_has_read_cbk (as_ws s) = wl_has_read_cbk s"
  "ws_events (as_ws s) = wl_events s" "ws_switch (as_ws s) = wl_switch s"
  "ws_ops (as_ws s) = map as_ws_op (wl_ops s)"
  by (simp_all add: as_ws_def)

lemma as_ws_upd:
  "as_ws (s\<lparr>wl_open := a\<rparr>) = (as_ws s)\<lparr>ws_open := a\<rparr>"
  "as_ws (s\<lparr>wl_write_buf := w\<rparr>) = (as_ws s)\<lparr>ws_write_buf := w\<rparr>"
  "as_ws (s\<lparr>wl_current := c\<rparr>) = (as_ws s)\<lparr>ws_current := c\<rparr>"
  "as_ws (s\<lparr>wl_sent := x\<rparr>) = (as_ws s)\<lparr>ws_sent := x\<rparr>"
  "as_ws (s\<lparr>wl_events := e\<rparr>) = (as_ws s)\<lparr>ws_events := e\<rparr>"
  "as_ws (s\<lparr>wl_switch := y\<rparr>) = (as_ws s)\<lparr>ws_switch := y\<rparr>"
  "as_ws (s\<lparr>wl_read_buf := b\<rparr>) = (as_ws s)\<lparr>ws_read_buf := b\<rparr>"
  by (simp_all add: as_ws_def)

lemma as_ws_drop: "as_ws (wl_drop_op k s) = ws_drop_op k (as_ws s)"
  by (simp add: as_ws_def wl_drop_op_def ws_drop_op_def take_map drop_map)

lemma as_ws_add:
  "op \<noteq> WlResolve \<Longrightarrow> op \<noteq> WlConnect \<Longrightarrow> as_ws (wl_add_op op s) = ws_add_op (ws_op_of op) (as_ws s)"
  by (cases op) (simp_all add: as_ws_def wl_add_op_def ws_add_op_def as_ws_op_def)

lemma as_ws_close: "as_ws (wl_close s) = wss_close (as_ws s)"
  by (auto simp: as_ws_def wl_close_def wss_close_def as_ws_op_def split: wl_op.splits)

lemma as_ws_closes: "ws_closes (as_ws s) = wl_closes s"
  by (simp add: ws_closes_def wl_closes_def)

lemma as_ws_since: "ws_since_close (as_ws s) (as_ws s') acc = wl_since_close s s' acc"
  by (simp add: ws_since_close_def wl_since_close_def as_ws_closes)

lemma as_ws_shutdown: "as_ws (wl_shutdown s) = wss_shutdown (as_ws s)"
  by (simp add: wl_shutdown_def wss_shutdown_def as_ws_close as_ws_upd split: prod.splits)

lemma as_ws_read: "as_ws (wl_read s) = wss_read (as_ws s)"
  by (simp add: wl_read_def wss_read_def as_ws_add)

lemma as_ws_write_next: "wss_write_next (as_ws s) = map_option as_ws (wl_write_next s)"
  by (cases "wb_pop_front (wl_write_buf s)")
     (auto simp: wl_write_next_def wss_write_next_def Let_def as_ws_upd as_ws_add)

lemma as_ws_write: "wss_write msg (as_ws s) = map_option (\<lambda>(ok, s). (ok, as_ws s)) (wl_write msg s)"
proof -
  have l: "wss_over_limit msg (as_ws s) = wl_over_limit msg s" by (simp add: wl_over_limit_def wss_over_limit_def)
  show ?thesis
    using as_ws_write_next [of "s\<lparr>wl_write_buf := w\<rparr>" for w]
    by (auto simp: wl_write_def wss_write_def l Let_def as_ws_upd split: Option.bind_splits option.splits)
qed

lemma as_ws_consume: "as_ws (wl_consume n s) = wss_consume n (as_ws s)"
  by (simp add: wl_consume_def wss_consume_def as_ws_upd)

lemma as_ws_start: "as_ws (wl_handle_start ec s) = wss_handle_start ec (as_ws s)"
  by (simp add: wl_handle_start_def wss_handle_start_def Let_def as_ws_close as_ws_upd as_ws_read split: prod.splits)

lemma as_ws_call: "run_ws_call c (as_ws s, acc) = map_option (apfst as_ws) (run_wl_call c (s, acc))"
proof (cases c)
  case (CWrite msg)
  then show ?thesis by (cases "wl_write msg s") (auto simp: as_ws_write)
qed (simp_all add: as_ws_consume as_ws_shutdown as_ws_since flip: as_ws_shutdown)

lemma as_ws_calls: "run_ws_calls cs (as_ws s, acc) = map_option (apfst as_ws) (run_wl_calls cs (s, acc))"
proof (induction cs arbitrary: s acc)
  case (Cons c cs)
  then show ?case by (cases "run_wl_call c (s, acc)") (auto simp: as_ws_call)
qed simp

lemma as_ws_handle_write: "wss_handle_write ec (as_ws s) = map_option as_ws (wl_handle_write ec s)"
proof (cases "wl_current s")
  case None
  then show ?thesis using as_ws_write_next [of "s\<lparr>wl_write_buf := wb_release None (wl_write_buf s), wl_current := None\<rparr>"]
    by (simp add: wl_handle_write_def wss_handle_write_def Let_def as_ws_upd as_ws_shutdown)
next
  case (Some m)
  then show ?thesis using as_ws_write_next [of "s\<lparr>wl_events := wl_events s @ [Written (ms_body m)],
      wl_write_buf := wb_release (Some m) (wl_write_buf s), wl_current := None\<rparr>"]
    by (simp add: wl_handle_write_def wss_handle_write_def Let_def as_ws_upd as_ws_shutdown)
qed


lemma as_ws_handle_read:
  assumes "\<And>x. cbk' (as_ws x) = map_option as_ws (cbk x)"
  shows "wss_handle_read ec data cbk' (as_ws s) = map_option as_ws (wl_handle_read ec data cbk s)"
proof -
  have on: "(if has_stoped (ws_switch (as_ws x)) then Some (as_ws x) else Some (wss_read (as_ws x))) =
      map_option as_ws (if has_stoped (wl_switch x) then Some x else Some (wl_read x))" for x
    by (simp add: as_ws_read)
  show ?thesis
  proof (cases "ec \<or> \<not> wl_has_read_cbk s")
    case True
    define s1 where "s1 = wl_consume (length data) (s\<lparr>wl_read_buf := wl_read_buf s @ data\<rparr>)"
    have "wss_consume (length data) ((as_ws s)\<lparr>ws_read_buf := wl_read_buf s @ data\<rparr>) = as_ws s1"
      by (simp add: s1_def as_ws_consume as_ws_upd)
    then show ?thesis using on [of s1] True
      by (cases ec) (simp_all add: wss_handle_read_def wl_handle_read_def Let_def as_ws_shutdown as_ws_read flip: s1_def)
  next
    case False
    define s1 where "s1 = s\<lparr>wl_read_buf := wl_read_buf s @ data, wl_events := wl_events s @ [ReadCalled (wl_read_buf s @ data)]\<rparr>"
    have "as_ws s1 = (as_ws s)\<lparr>ws_read_buf := wl_read_buf s @ data, ws_events := wl_events s @ [ReadCalled (wl_read_buf s @ data)]\<rparr>"
      by (simp add: s1_def as_ws_upd)
    then show ?thesis using False assms [of s1] on
      by (cases "cbk s1") (simp_all add: wss_handle_read_def wl_handle_read_def Let_def flip: s1_def)
  qed
qed

lemma as_ws_read_op:
  "ws_handle_op (WsRead (Some n)) ec data cs (as_ws s, acc) =
     map_option (apfst as_ws) (wl_handle_op (WlRead n) sni ec data cs (s, acc))"
proof (cases "ec \<or> \<not> wl_has_read_cbk s")
  case True
  have "wss_handle_read ec data Some (as_ws s) = map_option as_ws (wl_handle_read ec data Some s)"
    by (rule as_ws_handle_read) simp
  then show ?thesis using True
    by (cases "wl_handle_read ec data Some s") (auto simp: ws_handle_op_def wl_handle_op_def Let_def as_ws_since)
next
  case False
  define s1 where "s1 = s\<lparr>wl_read_buf := wl_read_buf s @ data, wl_events := wl_events s @ [ReadCalled (wl_read_buf s @ data)]\<rparr>"
  have "as_ws s1 = (as_ws s)\<lparr>ws_read_buf := wl_read_buf s @ data, ws_events := wl_events s @ [ReadCalled (wl_read_buf s @ data)]\<rparr>"
    by (simp add: s1_def as_ws_upd)
  then have c: "run_ws_calls cs ((as_ws s)\<lparr>ws_read_buf := wl_read_buf s @ data, ws_events := wl_events s @ [ReadCalled (wl_read_buf s @ data)]\<rparr>, acc) =
      map_option (apfst as_ws) (run_wl_calls cs (s1, acc))"
    using as_ws_calls [of cs s1 acc] by simp
  have "wss_handle_read False data (\<lambda>_. Some (as_ws s2)) (as_ws s) = map_option as_ws (wl_handle_read False data (\<lambda>_. Some s2) s)" for s2
    by (rule as_ws_handle_read) simp
  then show ?thesis using False c
    by (cases "run_wl_calls cs (s1, acc)")
       (auto simp: ws_handle_op_def wl_handle_op_def Let_def simp flip: s1_def split: Option.bind_splits option.splits)
qed

section \<open>The invariant\<close>

text \<open>A resolve or a connect is alone, and comes before the flag of the initialisation.\<close>

definition opening_ok :: "wl_session \<Rightarrow> bool" where
  "opening_ok s \<longleftrightarrow> wl_opening s = [] \<or> (\<exists>op. wl_opening s = [op]) \<and> \<not> has_init (wl_switch s)"

definition wl_inv :: "wl_session \<Rightarrow> bytes list \<Rightarrow> bool" where
  "wl_inv s acc \<longleftrightarrow> ws_inv (as_ws s) acc \<and> opening_ok s"

lemma opening_simps [simp]:
  "wl_opening (s\<lparr>wl_open := a\<rparr>) = wl_opening s" "wl_opening (s\<lparr>wl_switch := w\<rparr>) = wl_opening s"
  "wl_opening (s\<lparr>wl_read_buf := b\<rparr>) = wl_opening s" "wl_opening (s\<lparr>wl_write_buf := u\<rparr>) = wl_opening s"
  "wl_opening (s\<lparr>wl_current := c\<rparr>) = wl_opening s" "wl_opening (s\<lparr>wl_sent := x\<rparr>) = wl_opening s"
  "wl_opening (s\<lparr>wl_events := e\<rparr>) = wl_opening s"
  "wl_opening (wl_add_op op s) = wl_opening s @ (if op = WlResolve \<or> op = WlConnect then [op] else [])"
  by (auto simp: wl_opening_def wl_add_op_def)

lemma wl_add_fields [simp]:
  "wl_switch (wl_add_op op s) = wl_switch s" "wl_open (wl_add_op op s) = wl_open s"
  "wl_events (wl_add_op op s) = wl_events s" "wl_closes (wl_add_op op s) = wl_closes s"
  by (simp_all add: wl_add_op_def wl_closes_def)

lemma wl_drop_fields [simp]:
  "wl_switch (wl_drop_op k s) = wl_switch s" "wl_has_read_cbk (wl_drop_op k s) = wl_has_read_cbk s"
  by (simp_all add: wl_drop_op_def)

lemma opening_close: "opening_ok s \<Longrightarrow> opening_ok (wl_close s)"
proof -
  have "wl_opening (wl_close s) = filter (\<lambda>op. op = WlResolve \<or> \<not> has_init (wl_switch s)) (wl_opening s)"
    by (auto simp: wl_opening_def wl_close_def comp_def case_prod_beta filter_concat intro!: arg_cong [of _ _ concat] split: wl_op.splits)
  then show "opening_ok s \<Longrightarrow> opening_ok (wl_close s)"
    by (auto simp: opening_ok_def) (simp_all add: wl_close_def switch_defs)
qed

lemma stop_keeps_init: "as_stop w = (b, w') \<Longrightarrow> has_init w' = has_init w"
  by (auto simp: switch_defs split: if_splits)

lemma start_keeps_init: "as_start w = (b, w') \<Longrightarrow> has_init w' = has_init w"
  by (auto simp: switch_defs split: if_splits)

lemma opening_shutdown: "opening_ok s \<Longrightarrow> opening_ok (wl_shutdown s)"
  by (auto simp: wl_shutdown_def intro!: opening_close split: prod.splits)
     (simp add: opening_ok_def stop_keeps_init)

lemma opening_write_next:
  "wl_write_next s = Some s' \<Longrightarrow> wl_opening s' = wl_opening s \<and> wl_switch s' = wl_switch s"
  by (auto simp: wl_write_next_def Let_def bind_Some_iff)

lemma opening_cong: "opening_ok s \<Longrightarrow> wl_opening s' = wl_opening s \<and> wl_switch s' = wl_switch s \<Longrightarrow> opening_ok s'"
  by (simp add: opening_ok_def)

lemma opening_write: "wl_write msg s = Some (ok, s') \<Longrightarrow> opening_ok s \<Longrightarrow> opening_ok s'"
  by (erule opening_cong)
     (auto simp: wl_write_def Let_def bind_Some_iff split: if_splits dest!: opening_write_next)

lemma opening_consume: "opening_ok s \<Longrightarrow> opening_ok (wl_consume n s)"
  by (simp add: wl_consume_def opening_ok_def)

lemma opening_call: "run_wl_call c (s, acc) = Some (s', acc') \<Longrightarrow> opening_ok s \<Longrightarrow> opening_ok s'"
  by (cases c) (auto simp: bind_Some_iff opening_shutdown opening_consume dest: opening_write)

lemma opening_calls: "run_wl_calls cs (s, acc) = Some (s', acc') \<Longrightarrow> opening_ok s \<Longrightarrow> opening_ok s'"
proof (induction cs arbitrary: s acc)
  case (Cons c cs)
  then show ?case by (fastforce simp: bind_Some_iff dest: opening_call)
qed simp

lemma opening_handle_write:
  assumes "wl_handle_write ec s = Some s'" "opening_ok s"
  shows "opening_ok s'"
proof (cases ec)
  case True
  then show ?thesis using assms opening_shutdown by (auto simp: wl_handle_write_def)
next
  case False
  have "wl_opening s' = wl_opening s \<and> wl_switch s' = wl_switch s"
    using assms(1) False
    by (cases "wl_current s") (auto simp: wl_handle_write_def Let_def split: if_splits dest!: opening_write_next)
  with assms(2) show ?thesis by (rule opening_cong)
qed

lemma opening_handle_read:
  assumes "wl_handle_read ec data cbk s = Some s'" "opening_ok s" "\<And>x y. cbk x = Some y \<Longrightarrow> opening_ok x \<Longrightarrow> opening_ok y"
  shows "opening_ok s'"
proof -
  have on: "opening_ok (if has_stoped (wl_switch x) then x else wl_read x)" if "opening_ok x" for x
    using that by (simp add: wl_read_def opening_ok_def)
  have u: "opening_ok (s\<lparr>wl_read_buf := b\<rparr>)" "opening_ok (s\<lparr>wl_read_buf := b, wl_events := e\<rparr>)" for b e
    using assms(2) by (simp_all add: opening_ok_def)
  show ?thesis using assms(1,2) u on assms(3)
    by (auto simp: wl_handle_read_def Let_def bind_Some_iff wl_consume_def opening_shutdown split: if_splits)
       (auto simp: wl_read_def opening_ok_def)
qed

lemma opening_drop:
  assumes "k < length (wl_ops s)" "wl_ops s ! k = (op, b)"
  obtains O1 O2 where "wl_opening s = O1 @ (if \<not> b \<and> (op = WlResolve \<or> op = WlConnect) then [op] else []) @ O2"
    "wl_opening (wl_drop_op k s) = O1 @ O2"
proof -
  have sp: "wl_ops s = take k (wl_ops s) @ (op, b) # drop (Suc k) (wl_ops s)"
    using id_take_nth_drop [OF assms(1)] assms(2) by simp
  define xs ys where "xs = take k (wl_ops s)" and "ys = drop (Suc k) (wl_ops s)"
  have e: "wl_ops s = xs @ (op, b) # ys" using sp by (simp add: xs_def ys_def)
  have d: "wl_ops (wl_drop_op k s) = xs @ ys" by (simp add: wl_drop_op_def xs_def ys_def)
  show ?thesis
    by (rule that [of "wl_opening (s\<lparr>wl_ops := xs\<rparr>)" "wl_opening (s\<lparr>wl_ops := ys\<rparr>)"]) (simp_all add: wl_opening_def e d)
qed

lemma opening_ok_drop:
  assumes "opening_ok s" "k < length (wl_ops s)" "wl_ops s ! k = (op, b)"
  shows "opening_ok (wl_drop_op k s)"
    and "\<not> b \<Longrightarrow> op = WlResolve \<or> op = WlConnect \<Longrightarrow> wl_opening (wl_drop_op k s) = [] \<and> \<not> has_init (wl_switch s)"
  by (rule opening_drop [OF assms(2,3)], use assms(1) in \<open>auto simp: opening_ok_def append_eq_Cons_conv split: if_splits\<close>)+


lemma opening_start: "opening_ok s \<Longrightarrow> opening_ok (wl_handle_start ec s)"
  by (auto simp: wl_handle_start_def wl_read_def Let_def intro!: opening_close split: prod.splits)
     (simp_all add: opening_ok_def start_keeps_init)

lemma opening_open: "opening_ok (s\<lparr>wl_open := a\<rparr>) = opening_ok s"
  by (simp add: opening_ok_def)

lemma opening_handle_op:
  assumes "wl_handle_op op sni ec data cs (s, acc) = Some (s', acc')" "opening_ok s" "op \<noteq> WlResolve" "op \<noteq> WlConnect"
  shows "opening_ok s'"
proof (cases op)
  case (WlRead n)
  show ?thesis
  proof (cases "ec \<or> \<not> wl_has_read_cbk s")
    case True
    then show ?thesis using assms(1,2) WlRead
      by (auto simp: wl_handle_op_def Let_def elim!: opening_handle_read)
  next
    case False
    let ?s1 = "s\<lparr>wl_read_buf := wl_read_buf s @ data, wl_events := wl_events s @ [ReadCalled (wl_read_buf s @ data)]\<rparr>"
    obtain s2 acc2 where c: "run_wl_calls cs (?s1, acc) = Some (s2, acc2)"
      "wl_handle_read False data (\<lambda>_. Some s2) s = Some s'"
      using assms(1) WlRead False by (auto simp: wl_handle_op_def Let_def bind_Some_iff)
    have "opening_ok ?s1" using assms(2) by (simp add: opening_ok_def)
    then have "opening_ok s2" using opening_calls [OF c(1)] by blast
    then show ?thesis using opening_handle_read [OF c(2) assms(2)] by simp
  qed
next
  case (WlWrite bs)
  then show ?thesis using assms(1,2) by (auto simp: wl_handle_op_def Let_def intro: opening_handle_write)
next
  case WlSslClient
  then show ?thesis using assms(1,2) opening_close
    by (auto simp: wl_handle_op_def Let_def wl_handle_handshake_def) (auto simp: opening_ok_def)
next
  case WlSslServer
  then show ?thesis using assms(1,2) opening_close
    by (auto simp: wl_handle_op_def Let_def wl_start_lambda_def opening_open) (auto simp: opening_ok_def)
next
  case WlHandshake
  then show ?thesis using assms(1,2) opening_close opening_start
    by (auto simp: wl_handle_op_def Let_def wl_handshake_lambda_def)
next
  case WlAccept
  then show ?thesis using assms(1,2) opening_start by (auto simp: wl_handle_op_def Let_def)
qed (use assms in simp_all)

lemma wl_wb: "wl_inv s acc \<Longrightarrow> wb_holds (wl_write_buf s)"
  using ws_inv_wb [of "as_ws s" acc] by (simp add: wl_inv_def)

lemma wl_close_inv:
  assumes "wb_holds (wl_write_buf s)" "opening_ok s"
  shows "wl_inv (wl_close s) (wl_since_close s (wl_close s) acc)"
proof -
  have "wl_closes (wl_close s) \<noteq> wl_closes s" by (simp add: wl_close_def wl_closes_def)
  then show ?thesis using closed_inv [of "as_ws s"] opening_close assms
    by (simp add: wl_inv_def as_ws_close wl_since_close_def)
qed

lemma wl_call_inv:
  assumes "wl_inv s acc"
  shows "\<exists>s' acc'. run_wl_call c (s, acc) = Some (s', acc') \<and> wl_inv s' acc'"
proof -
  obtain s' acc' where c: "run_wl_call c (s, acc) = Some (s', acc')" "ws_inv (as_ws s') acc'"
    using ws_call_inv [of "as_ws s" acc c] assms by (auto simp: wl_inv_def as_ws_call)
  then show ?thesis using opening_call [OF c(1)] assms by (auto simp: wl_inv_def)
qed

lemma add_opening_inv:
  assumes "ws_inv s acc" "op = WsResolve \<or> op = WsConnect"
  shows "ws_inv (s\<lparr>ws_ops := ws_ops s @ [(op, True)]\<rparr>) acc"
proof -
  have "tcp_inv (as_tcp (s\<lparr>ws_ops := ws_ops s @ [(op, True)]\<rparr>)) acc"
    using assms(1) by (auto simp: ws_inv_def as_tcp_live elim!: tcp_inv_cong)
  then show ?thesis using assms(1) by (auto simp: ws_inv_def chain_ok_def chain_def)
qed

lemma as_ws_add_opening:
  "op = WlResolve \<or> op = WlConnect \<Longrightarrow> as_ws (wl_add_op op s) = (as_ws s)\<lparr>ws_ops := ws_ops (as_ws s) @ [(ws_op_of op, True)]\<rparr>"
  by (auto simp: as_ws_def wl_add_op_def as_ws_op_def)

lemma add_chain_inv:
  assumes "ws_inv s acc" "chain s = []" "has_init (ws_switch s)" "\<not> bstart (ws_switch s)" "chain_op op"
  shows "ws_inv (ws_add_op op s) acc"
  using assms as_tcp_add [of op s acc] by (cases op) (auto simp: ws_inv_def chain_ok_def)

text \<open>The session once the operation whose handler runs is gone.\<close>

lemma wl_drop_inv:
  assumes i: "wl_inv s acc" and k: "k < length (wl_ops s)" "wl_ops s ! k = (op, b)" and op: "chain_op (ws_op_of op)"
  shows "wl_inv (wl_drop_op k s) acc"
    "\<not> b \<Longrightarrow> op = WlResolve \<or> op = WlConnect \<Longrightarrow> wl_opening (wl_drop_op k s) = [] \<and> \<not> has_init (wl_switch s)"
    "\<not> b \<Longrightarrow> op \<noteq> WlResolve \<Longrightarrow> op \<noteq> WlConnect \<Longrightarrow>
       chain (as_ws (wl_drop_op k s)) = [] \<and> has_init (wl_switch s) \<and> \<not> bstart (wl_switch s)"
proof -
  have kw: "k < length (ws_ops (as_ws s))" "ws_ops (as_ws s) ! k = (ws_op_of op, b \<or> op = WlResolve \<or> op = WlConnect)"
    using k by (simp_all add: as_ws_op_def)
  have nw: "case ws_op_of op of WsWrite _ \<Rightarrow> False | _ \<Rightarrow> True" using op by (cases op) simp_all
  show "wl_inv (wl_drop_op k s) acc"
    using drop_nonwrite_inv [OF _ kw nw] opening_ok_drop(1) [OF _ k] i by (simp add: wl_inv_def as_ws_drop)
  show "\<not> b \<Longrightarrow> op = WlResolve \<or> op = WlConnect \<Longrightarrow> wl_opening (wl_drop_op k s) = [] \<and> \<not> has_init (wl_switch s)"
    using opening_ok_drop(2) [OF _ k] i by (simp add: wl_inv_def)
  show "\<not> b \<Longrightarrow> op \<noteq> WlResolve \<Longrightarrow> op \<noteq> WlConnect \<Longrightarrow>
      chain (as_ws (wl_drop_op k s)) = [] \<and> has_init (wl_switch s) \<and> \<not> bstart (wl_switch s)"
    using chain_ok_drop(2) [OF _ kw op] i by (simp add: wl_inv_def ws_inv_def as_ws_drop)
qed

lemma wl_start_inv:
  assumes "wl_inv s acc" "chain (as_ws s) = []" "has_init (wl_switch s)"
  shows "wl_inv (wl_handle_start ec s) (wl_since_close s (wl_handle_start ec s) acc)"
  using wss_handle_start_inv [of "as_ws s" acc ec] assms opening_start
  by (simp add: wl_inv_def ws_inv_def as_ws_since flip: as_ws_start)

lemma wl_connect_inv:
  assumes i: "wl_inv s acc" and o: "wl_opening s = []" "\<not> has_init (wl_switch s)"
  shows "wl_inv (wl_handle_connect sni False s) (wl_since_close s (wl_handle_connect sni False s) acc)"
proof -
  define s1 where "s1 = s\<lparr>wl_open := True\<rparr>"
  obtain w where w: "as_init (wl_switch s1) = (True, w)" "has_init w"
    using o(2) by (auto simp: s1_def switch_defs)
  have "\<not> bstart (wl_switch s)" using i o(2) by (simp add: wl_inv_def ws_inv_def chain_ok_def has_init_def)
  then have i1: "ws_inv (as_ws s1) acc" using opened_inv [of "as_ws s" acc] i by (simp add: wl_inv_def s1_def as_ws_upd)
  have c1: "wl_since_close s x = wl_since_close (s1\<lparr>wl_switch := w\<rparr>) x" for x
    by (simp add: wl_since_close_def wl_closes_def s1_def fun_eq_iff)
  have op: "opening_ok (s1\<lparr>wl_switch := w\<rparr>)" using o(1) by (simp add: opening_ok_def s1_def)
  show ?thesis
  proof (cases sni)
    case False
    have "wb_holds (wl_write_buf (s1\<lparr>wl_switch := w\<rparr>))" using wl_wb [OF i] by (simp add: s1_def)
    then show ?thesis using wl_close_inv [OF _ op, of acc] False w(1)
      by (simp add: wl_handle_connect_def c1 flip: s1_def)
  next
    case True
    have "ws_inv (ws_add_op WsHandshake ((as_ws s1)\<lparr>ws_switch := w\<rparr>)) acc"
      by (rule init_chain_inv [OF i1]) (use w in simp_all)
    then have "wl_inv (wl_add_op WlSslClient (s1\<lparr>wl_switch := w\<rparr>)) acc"
      using op by (simp add: wl_inv_def as_ws_add as_ws_upd opening_ok_def)
    then show ?thesis using True w(1)
      by (simp add: wl_handle_connect_def wl_since_close_def flip: s1_def) (simp add: s1_def wl_closes_def)
  qed
qed

lemma wl_handle_inv:
  assumes i: "wl_inv s acc" and k: "k < length (wl_ops s)" "wl_ops s ! k = (op, b)" and b: "b \<longrightarrow> ec"
  shows "\<exists>s' acc'. wl_handle_op op sni ec data cs (wl_drop_op k s, acc) = Some (s', acc') \<and> wl_inv s' acc'"
proof (cases "chain_op (ws_op_of op)")
  case True
  define s0 where "s0 = wl_drop_op k s"
  note d = wl_drop_inv [OF i k True, folded s0_def]
  have cl: "wl_inv (wl_close s0) (wl_since_close s0 (wl_close s0) acc)"
    using wl_close_inv [OF wl_wb [OF d(1)]] d(1) by (simp add: wl_inv_def)
  have st: "wl_inv (wl_handle_start True s0) (wl_since_close s0 (wl_handle_start True s0) acc)"
    using cl by (simp add: wl_handle_start_def)
  have same: "wl_since_close s0 (wl_add_op op' x) acc = acc" if "wl_closes x = wl_closes s0" for op' x
    using that by (simp add: wl_since_close_def)
  show ?thesis
  proof (cases ec)
    case True
    then show ?thesis using cl st \<open>chain_op (ws_op_of op)\<close>
      by (cases op) (simp_all add: wl_handle_op_def Let_def wl_handle_resolve_def wl_handle_connect_def
        wl_handle_handshake_def wl_start_lambda_def wl_handshake_lambda_def flip: s0_def)
  next
    case False
    then have nb: "\<not> b" using b by simp
    have sw: "wl_switch s0 = wl_switch s" by (simp add: s0_def)
    show ?thesis
    proof (cases op)
      case WlResolve
      then have "wl_opening s0 = []" "\<not> has_init (wl_switch s0)" using d(2) nb sw by simp_all
      then have "wl_inv (wl_add_op WlConnect s0) acc"
        using add_opening_inv [of "as_ws s0" acc WsConnect] d(1)
        by (simp add: wl_inv_def as_ws_add_opening opening_ok_def)
      then show ?thesis using WlResolve False same
        by (simp add: wl_handle_op_def Let_def wl_handle_resolve_def flip: s0_def)
    next
      case WlConnect
      then have "wl_opening s0 = []" "\<not> has_init (wl_switch s0)" using d(2) nb sw by simp_all
      then show ?thesis using WlConnect False wl_connect_inv [OF d(1)]
        by (simp add: wl_handle_op_def Let_def flip: s0_def)
    next
      case WlSslClient
      then have c: "chain (as_ws s0) = []" "has_init (wl_switch s0)" "\<not> bstart (wl_switch s0)" using d(3) nb sw by simp_all
      then have "wl_inv (wl_add_op WlHandshake s0) acc" using d(1)
        by (simp add: wl_inv_def as_ws_add add_chain_inv opening_ok_def)
      then show ?thesis using WlSslClient False same
        by (simp add: wl_handle_op_def Let_def wl_handle_handshake_def flip: s0_def)
    next
      case WlSslServer
      then have c: "chain (as_ws s0) = []" "has_init (wl_switch s0)" "\<not> bstart (wl_switch s0)" using d(3) nb sw by simp_all
      have "ws_inv ((as_ws s0)\<lparr>ws_open := True\<rparr>) acc" using opened_inv d(1) c(3) by (simp add: wl_inv_def)
      then have "wl_inv (wl_add_op WlAccept (s0\<lparr>wl_open := True\<rparr>)) acc" using d(1) c
        by (simp add: wl_inv_def as_ws_add as_ws_upd add_chain_inv opening_ok_def)
      then show ?thesis using WlSslServer False
        by (simp add: wl_handle_op_def Let_def wl_start_lambda_def wl_since_close_def flip: s0_def)
           (simp add: wl_closes_def)
    next
      case WlHandshake
      then have c: "chain (as_ws s0) = []" "has_init (wl_switch s0)" using d(3) nb sw by simp_all
      show ?thesis using WlHandshake False wl_start_inv [OF d(1) c]
        by (simp add: wl_handle_op_def Let_def wl_handshake_lambda_def flip: s0_def)
    next
      case WlAccept
      then have c: "chain (as_ws s0) = []" "has_init (wl_switch s0)" using d(3) nb sw by simp_all
      show ?thesis using WlAccept False wl_start_inv [OF d(1) c]
        by (simp add: wl_handle_op_def Let_def flip: s0_def)
    qed (use \<open>chain_op (ws_op_of op)\<close> in simp_all)
  qed
next
  case nc: False
  have iw: "ws_inv (as_ws s) acc" and o0: "opening_ok (wl_drop_op k s)"
    using i opening_ok_drop(1) [OF _ k] by (simp_all add: wl_inv_def)
  have "\<exists>s' acc'. wl_handle_op op sni ec data cs (wl_drop_op k s, acc) = Some (s', acc') \<and> ws_inv (as_ws s') acc'"
  proof (cases op)
    case (WlRead n)
    have "k < length (ws_ops (as_ws s))" "ws_ops (as_ws s) ! k = (WsRead (Some n), b)"
      using k WlRead by (simp_all add: as_ws_op_def)
    from ws_handle_read_inv [OF iw _ this, of ec data cs] show ?thesis
      using as_ws_read_op [of n ec data cs "wl_drop_op k s" acc sni] WlRead by (auto simp flip: as_ws_drop)
  next
    case (WlWrite bs)
    have kw: "k < length (ws_ops (as_ws s))" "ws_ops (as_ws s) ! k = (WsWrite bs, b)"
      using k WlWrite by (simp_all add: as_ws_op_def)
    from ws_handle_write_inv [OF iw _ kw b] obtain t where
      "wss_handle_write ec (ws_drop_op k (as_ws s)) = Some t" "ws_inv t (ws_since_close (ws_drop_op k (as_ws s)) t acc)"
      by auto
    then show ?thesis using WlWrite
      by (auto simp: wl_handle_op_def Let_def as_ws_handle_write as_ws_since simp flip: as_ws_drop)
  qed (use nc in simp_all)
  then obtain s' acc' where s': "wl_handle_op op sni ec data cs (wl_drop_op k s, acc) = Some (s', acc')" "ws_inv (as_ws s') acc'"
    by blast
  have "op \<noteq> WlResolve" "op \<noteq> WlConnect" using nc by auto
  then have "opening_ok s'" using opening_handle_op [OF s'(1) o0] by blast
  then show ?thesis using s' by (auto simp: wl_inv_def)
qed


lemma wl_held_step:
  "wl_step True z z' \<Longrightarrow> z = Some (s, acc, True) \<Longrightarrow> wl_inv s acc \<Longrightarrow> \<exists>s' acc'. z' = Some (s', acc', True)"
proof (induction rule: wl_step.induct)
  case (client s1 acc1 c)
  then show ?case using wl_call_inv [of s acc c] by auto
next
  case (handle k s1 op b ec data held cs acc1 sni)
  then show ?case using wl_handle_inv [of s acc k op b ec sni data cs] by (auto simp: wl_alive_def)
qed auto

lemma wl_step_inv:
  "wl_step keep z z' \<Longrightarrow> z = Some (s, acc, held) \<Longrightarrow> wl_inv s acc \<Longrightarrow>
     z' = None \<or> (\<exists>s' acc' held'. z' = Some (s', acc', held') \<and> wl_inv s' acc')"
proof (induction rule: wl_step.induct)
  case (start s1 acc1)
  then have i: "wl_inv s acc" and c: "has_init (wl_switch s) \<or> wl_opening s = []" by simp_all
  have "wl_inv (wl_start s) acc"
  proof (cases "has_init (wl_switch s)")
    case True
    then have "wl_start s = s" by (simp add: wl_start_def switch_defs)
    then show ?thesis using i by simp
  next
    case False
    obtain w where w: "as_init (wl_switch s) = (True, w)" using False by (auto simp: switch_defs)
    have "ws_inv (ws_add_op WsAccept ((as_ws s)\<lparr>ws_switch := w\<rparr>)) acc"
      by (rule init_chain_inv) (use i w in \<open>simp_all add: wl_inv_def\<close>)
    then show ?thesis using c False w by (simp add: wl_inv_def wl_start_def as_ws_add as_ws_upd opening_ok_def)
  qed
  then show ?case using start by auto
next
  case (connect s1 acc1)
  then have "wl_inv (wl_connect s) acc"
    using add_opening_inv [of "as_ws s" acc WsResolve]
    by (auto simp: wl_inv_def wl_connect_def as_ws_add_opening opening_ok_def wl_may_open_def)
  then show ?case using connect by auto
next
  case (client s1 acc1 c)
  then show ?case using wl_call_inv [of s acc c] by auto
next
  case (handle k s1 op b ec data held1 cs acc1 sni)
  then show ?case using wl_handle_inv [of s acc k op b ec sni data cs] by auto
qed auto

lemma wl_none_step: "wl_step keep z z' \<Longrightarrow> z = None \<Longrightarrow> False"
  by (induction rule: wl_step.induct) simp_all

lemma new_wl_inv: "wl_inv (new_wl_session max_w max_r cb) []"
proof -
  have "as_ws (new_wl_session max_w max_r cb) = new_ws_session True max_w max_r cb"
    by (simp add: as_ws_def new_wl_session_def new_ws_session_def)
  moreover have "ws_sys_ok (Some (new_ws_session True max_w max_r cb, []))" by (rule ws_reach_ok [OF rtranclp.rtrancl_refl])
  ultimately show ?thesis by (simp add: wl_inv_def ws_sys_ok_def opening_ok_def) (simp add: wl_opening_def new_wl_session_def)
qed

lemma wl_reach_inv:
  assumes "(wl_step keep)\<^sup>*\<^sup>* (Some (new_wl_session max_w max_r cb, [], True)) z"
  shows "(keep \<longrightarrow> (\<exists>s acc. z = Some (s, acc, True))) \<and> (\<forall>s acc held. z = Some (s, acc, held) \<longrightarrow> wl_inv s acc)"
  using assms
proof (induction rule: rtranclp_induct)
  case base
  show ?case using new_wl_inv by simp
next
  case (step y z)
  obtain s acc held where y: "y = Some (s, acc, held)" using wl_none_step [OF step(2)] by (cases y) auto
  then have i: "wl_inv s acc" using step.IH by blast
  have "\<forall>s acc held. z = Some (s, acc, held) \<longrightarrow> wl_inv s acc" using wl_step_inv [OF step(2) y i] by auto
  moreover have "\<exists>s acc. z = Some (s, acc, True)" if keep
    using wl_held_step [of y z s acc] step y i that by auto
  ultimately show ?case by blast
qed

lemma wl_undefined_iff:
  assumes i: "wl_inv s acc"
  shows "wl_step keep (Some (s, acc, held)) None \<longleftrightarrow>
    \<not> held \<and> wl_ops s \<noteq> [] \<and> (\<forall>(op, b) \<in> set (wl_ops s). \<not> owned op)"
proof
  assume "wl_step keep (Some (s, acc, held)) None"
  then show "\<not> held \<and> wl_ops s \<noteq> [] \<and> (\<forall>(op, b) \<in> set (wl_ops s). \<not> owned op)"
  proof (cases rule: wl_step.cases)
    case (client c)
    then show ?thesis using wl_call_inv [OF i, of c] by auto
  next
    case (handle k op b ec data cs sni)
    then show ?thesis using wl_handle_inv [OF i handle(2-4), of sni data cs]
      by (auto simp: wl_alive_def split: if_splits)
  qed
next
  assume a: "\<not> held \<and> wl_ops s \<noteq> [] \<and> (\<forall>(op, b) \<in> set (wl_ops s). \<not> owned op)"
  then have na: "\<not> wl_alive held s" by (auto simp: wl_alive_def)
  obtain op b where k: "wl_ops s ! 0 = (op, b)" by fastforce
  have "wl_step keep (Some (s, acc, held)) (if wl_alive held s
       then map_option (\<lambda>(s', acc'). (s', acc', held)) (wl_handle_op op True True [] [] (wl_drop_op 0 s, acc)) else None)"
    by (rule wl_step.handle [of 0 s op b]) (use a k in auto)
  then show "wl_step keep (Some (s, acc, held)) None" using na by simp
qed

section \<open>Properties\<close>

text \<open>C26: A websocket session over SSL sends what it accepted, in order, like the session without SSL that as_ws makes
  of it. Let its user call write, consume_read_buf and shutdown whenever it likes, from its read
  callback or outside it, but connect only while the session is neither initialised nor opening (connect
  has no guard for this: wss_ssl_differs), start not while it is connecting, and write_tail never; and let
  resolving, connecting, the two handshakes, reads and writes end in any order. Then what was handed
  to the stream on this connection followed by what is queued are the accepted messages, exactly the current
  message is being written while the connection is up, and without one the queue is empty. No call or
  handler is undefined as long as the user holds the session; once it does not, the next step can be undefined
  exactly when operations are outstanding and none of them is one whose handler holds the session.\<close>

theorem wss_ssl_send_order:
  assumes "(wl_step keep)\<^sup>*\<^sup>* (Some (new_wl_session max_w max_r cb, [], True)) z"
  shows "(keep \<longrightarrow> z \<noteq> None) \<and> (\<forall>s acc held. z = Some (s, acc, held) \<longrightarrow>
    concat (wl_sent s) @ wb_bodies (wl_write_buf s) = map Some (concat acc) \<and>
    (wl_open s \<longrightarrow> [bs. (WlWrite bs, False) \<leftarrow> wl_ops s] = (case wl_current s of None \<Rightarrow> [] | Some m \<Rightarrow> [ms_body m])) \<and>
    (wl_current s = None \<longrightarrow> wb_items (wl_write_buf s) = []) \<and>
    (wl_step keep z None \<longleftrightarrow> \<not> held \<and> wl_ops s \<noteq> [] \<and> (\<forall>(op, b) \<in> set (wl_ops s). \<not> owned op)))"
proof -
  note r = wl_reach_inv [OF assms]
  have order: "concat (wl_sent s) @ wb_bodies (wl_write_buf s) = map Some (concat acc) \<and>
    (wl_open s \<longrightarrow> [bs. (WlWrite bs, False) \<leftarrow> wl_ops s] = (case wl_current s of None \<Rightarrow> [] | Some m \<Rightarrow> [ms_body m])) \<and>
    (wl_current s = None \<longrightarrow> wb_items (wl_write_buf s) = [])" if i: "wl_inv s acc" for s acc
  proof -
    have t: "tcp_inv (as_tcp (as_ws s)) acc" using i by (simp add: wl_inv_def ws_inv_def)
    have "live_writes (as_tcp (as_ws s)) = map WriteOp [bs. (WlWrite bs, False) \<leftarrow> wl_ops s]"
      by (simp add: as_tcp_live map_concat comp_def case_prod_beta as_ws_op_def)
         (rule arg_cong [of _ _ concat], auto split: wl_op.splits bool.splits)
    then show ?thesis using t by (auto simp: tcp_inv_def tcp_base_def sending_def split: option.splits)
  qed
  have undef: "wl_step keep z None \<longleftrightarrow> \<not> held \<and> wl_ops s \<noteq> [] \<and> (\<forall>(op, b) \<in> set (wl_ops s). \<not> owned op)"
    if "z = Some (s, acc, held)" for s acc held
    unfolding that by (rule wl_undefined_iff) (use r that in blast)
  show ?thesis
  proof (rule conjI)
    show "keep \<longrightarrow> z \<noteq> None" using r by auto
    show "\<forall>s acc held. z = Some (s, acc, held) \<longrightarrow>
      concat (wl_sent s) @ wb_bodies (wl_write_buf s) = map Some (concat acc) \<and>
      (wl_open s \<longrightarrow> [bs. (WlWrite bs, False) \<leftarrow> wl_ops s] = (case wl_current s of None \<Rightarrow> [] | Some m \<Rightarrow> [ms_body m])) \<and>
      (wl_current s = None \<longrightarrow> wb_items (wl_write_buf s) = []) \<and>
      (wl_step keep z None \<longleftrightarrow> \<not> held \<and> wl_ops s \<noteq> [] \<and> (\<forall>(op, b) \<in> set (wl_ops s). \<not> owned op))"
    proof (intro allI impI)
      fix s acc held assume z: "z = Some (s, acc, held)"
      then have "wl_inv s acc" using r by blast
      from order [OF this] undef [OF z]
      show "concat (wl_sent s) @ wb_bodies (wl_write_buf s) = map Some (concat acc) \<and>
        (wl_open s \<longrightarrow> [bs. (WlWrite bs, False) \<leftarrow> wl_ops s] = (case wl_current s of None \<Rightarrow> [] | Some m \<Rightarrow> [ms_body m])) \<and>
        (wl_current s = None \<longrightarrow> wb_items (wl_write_buf s) = []) \<and>
        (wl_step keep z None \<longleftrightarrow> \<not> held \<and> wl_ops s \<noteq> [] \<and> (\<forall>(op, b) \<in> set (wl_ops s). \<not> owned op))"
        by (elim conjE) (intro conjI; assumption)
    qed
  qed
qed

text \<open>Two openings: a server's session that waits for the handshake of SSL, and a client's that waits for the websocket's.\<close>

definition waiting_server :: "nat \<Rightarrow> nat \<Rightarrow> bool \<Rightarrow> wl_session" where
  "waiting_server max_w max_r cb = wl_start (new_wl_session max_w max_r cb)"

definition waiting_client :: "nat \<Rightarrow> nat \<Rightarrow> bool \<Rightarrow> wl_session" where
  "waiting_client max_w max_r cb = (new_wl_session max_w max_r cb)\<lparr>wl_open := True,
     wl_switch := \<lparr>binit = True, bstart = False, bstop = False\<rparr>, wl_ops := [(WlHandshake, False)]\<rparr>"

lemmas wl_defs = new_wl_session_def wl_start_def wl_connect_def wl_add_op_def wl_drop_op_def wl_since_close_def wl_closes_def

lemma waiting_server_reach:
  "(wl_step keep)\<^sup>*\<^sup>* (Some (new_wl_session max_w max_r cb, [], True)) (Some (waiting_server max_w max_r cb, [], True))"
  unfolding waiting_server_def
  by (rule r_into_rtranclp, rule wl_step.start) (simp add: wl_may_open_def wl_opening_def new_wl_session_def switch_defs)

lemma waiting_client_reach:
  "(wl_step keep)\<^sup>*\<^sup>* (Some (new_wl_session max_w max_r cb, [], True)) (Some (waiting_client max_w max_r cb, [], True))"
proof -
  define s0 where "s0 = new_wl_session max_w max_r cb"
  define s1 where "s1 = wl_connect s0"
  define s2 where "s2 = s0\<lparr>wl_ops := [(WlConnect, False)]\<rparr>"
  define s3 where "s3 = s0\<lparr>wl_open := True, wl_switch := \<lparr>binit = True, bstart = False, bstop = False\<rparr>, wl_ops := [(WlSslClient, False)]\<rparr>"
  note d = s0_def s1_def s2_def s3_def wl_defs wl_alive_def wl_handle_op_def
  have "wl_step keep (Some (s0, [], True)) (Some (s1, [], True))"
    unfolding s1_def by (rule wl_step.connect) (simp add: wl_may_open_def wl_opening_def d switch_defs)
  moreover have "wl_step keep (Some (s1, [], True)) (Some (s2, [], True))"
    using wl_step.handle [of 0 s1 WlResolve False False "[]" True "[]" keep "[]" True] by (simp add: d wl_handle_resolve_def)
  moreover have "wl_step keep (Some (s2, [], True)) (Some (s3, [], True))"
    using wl_step.handle [of 0 s2 WlConnect False False "[]" True "[]" keep "[]" True]
    by (simp add: d wl_handle_connect_def switch_defs)
  moreover have "wl_step keep (Some (s3, [], True)) (Some (waiting_client max_w max_r cb, [], True))"
    using wl_step.handle [of 0 s3 WlSslClient False False "[]" True "[]" keep "[]" True]
    by (simp add: d wl_handle_handshake_def waiting_client_def)
  ultimately show ?thesis unfolding s0_def by (meson converse_rtranclp_into_rtranclp r_into_rtranclp)
qed

text \<open>A server's session that runs.\<close>

definition sample_wl :: wl_session where
  "sample_wl = (new_wl_session 0 9 False)\<lparr>wl_open := True, wl_ops := [(WlRead 9, False)], wl_events := [Opened],
     wl_switch := \<lparr>binit = True, bstart = True, bstop = False\<rparr>\<rparr>"

lemma sample_wl_write:
  obtains s where "wl_write [7, 8] sample_wl = Some (True, s)"
    "(wl_step True)\<^sup>*\<^sup>* (Some (new_wl_session 0 9 False, [], True)) (Some (s, [[7, 8]], True))"
proof -
  define s1 where "s1 = (waiting_server 0 9 False)\<lparr>wl_open := True, wl_ops := [(WlAccept, False)]\<rparr>"
  note d = s1_def waiting_server_def wl_defs wl_alive_def wl_handle_op_def switch_defs
  have "wl_step True (Some (waiting_server 0 9 False, [], True)) (Some (s1, [], True))"
    using wl_step.handle [of 0 "waiting_server 0 9 False" WlSslServer False False "[]" True "[]" True "[]" True]
    by (simp add: d wl_start_lambda_def)
  moreover have "wl_step True (Some (s1, [], True)) (Some (sample_wl, [], True))"
    using wl_step.handle [of 0 s1 WlAccept False False "[]" True "[]" True "[]" True]
    by (simp add: d wl_handle_start_def wl_read_def sample_wl_def)
  ultimately have r: "(wl_step True)\<^sup>*\<^sup>* (Some (new_wl_session 0 9 False, [], True)) (Some (sample_wl, [], True))"
    using waiting_server_reach [of True 0 9 False] by (meson rtranclp.rtrancl_into_rtrancl)
  have i: "wl_inv sample_wl []" using wl_reach_inv [OF r] by blast
  obtain s acc where c: "run_wl_call (CWrite [7, 8]) (sample_wl, []) = Some (s, acc)"
    using wl_call_inv [OF i, of "CWrite [7, 8]"] by auto
  have st: "has_started (wl_switch sample_wl)" "\<not> wl_over_limit [7, 8] sample_wl"
    by (simp_all add: sample_wl_def switch_defs wl_over_limit_def new_wl_session_def)
  have w: "wl_write [7, 8] sample_wl = Some (True, s)" "acc = [[7, 8]]"
    using c st by (auto simp: wl_write_def bind_Some_iff Let_def split: if_splits)
  have "wl_step True (Some (sample_wl, [], True)) (map_option (\<lambda>(s', acc'). (s', acc', True)) (run_wl_call (CWrite [7, 8]) (sample_wl, [])))"
    by (rule wl_step.client)
  then have "wl_step True (Some (sample_wl, [], True)) (Some (s, [[7, 8]], True))" using c w(2) by simp
  then show ?thesis using that [OF w(1)] r by (meson rtranclp.rtrancl_into_rtrancl)
qed

theorem wss_ssl_send_order_witness:
  "\<exists>s. wl_write [7, 8] sample_wl = Some (True, s) \<and> concat (wl_sent s) @ wb_bodies (wl_write_buf s) = [Some 7, Some 8]"
proof -
  obtain s where s: "wl_write [7, 8] sample_wl = Some (True, s)"
    "(wl_step True)\<^sup>*\<^sup>* (Some (new_wl_session 0 9 False, [], True)) (Some (s, [[7, 8]], True))"
    by (rule sample_wl_write)
  from wss_ssl_send_order [OF s(2), THEN conjunct2, rule_format, OF HOL.refl] have "concat (wl_sent s) @ wb_bodies (wl_write_buf s) = [Some 7, Some 8]" by simp
  then show ?thesis using s(1) by blast
qed

text \<open>C27: Where the session over SSL differs from the one without. A server's session given away while it waits for
  the handshake of SSL, and a client's while it waits for that of the websocket, both of which arise from a new
  session, are gone when the handler runs, which is undefined, since the lambdas capture this alone. And
  connect works on a session that runs: when its resolve fails, the session is closed, while without SSL
  a connect then does nothing.\<close>

theorem wss_ssl_differs:
  assumes "has_started (wl_switch s)"
  shows "wl_ops (waiting_server max_w max_r cb) = [(WlSslServer, False)] \<and>
    wl_ops (waiting_client max_w max_r cb) = [(WlHandshake, False)] \<and>
    (\<forall>s' \<in> {waiting_server max_w max_r cb, waiting_client max_w max_r cb}.
       (wl_step False)\<^sup>*\<^sup>* (Some (new_wl_session max_w max_r cb, [], True)) (Some (s', [], False)) \<and>
       wl_step False (Some (s', [], False)) None) \<and>
    wl_ops (wl_connect s) = wl_ops s @ [(WlResolve, False)] \<and>
    wl_handle_op WlResolve sni True data cs (wl_drop_op (length (wl_ops s)) (wl_connect s), acc) = Some (wl_close s, []) \<and>
    wss_connect (as_ws s) = as_ws s"
proof (intro conjI ballI)
  show o1: "wl_ops (waiting_server max_w max_r cb) = [(WlSslServer, False)]"
    by (simp add: waiting_server_def wl_defs switch_defs)
  show o2: "wl_ops (waiting_client max_w max_r cb) = [(WlHandshake, False)]" by (simp add: waiting_client_def)
  fix s' assume s': "s' \<in> {waiting_server max_w max_r cb, waiting_client max_w max_r cb}"
  then have r: "(wl_step False)\<^sup>*\<^sup>* (Some (new_wl_session max_w max_r cb, [], True)) (Some (s', [], True))"
    using waiting_server_reach [of False] waiting_client_reach [of False] by blast
  moreover have "wl_step False (Some (s', [], True)) (Some (s', [], False))" by (rule wl_step.release) simp
  ultimately show "(wl_step False)\<^sup>*\<^sup>* (Some (new_wl_session max_w max_r cb, [], True)) (Some (s', [], False))"
    by (meson rtranclp.rtrancl_into_rtrancl)
  have "wl_inv s' []" using wl_reach_inv [OF r] by blast
  then show "wl_step False (Some (s', [], False)) None"
    using wl_undefined_iff [of s' "[]" False False] s' o1 o2 by (auto simp: owned_def)
next
  show "wl_ops (wl_connect s) = wl_ops s @ [(WlResolve, False)]" by (simp add: wl_connect_def wl_add_op_def)
  have d: "wl_drop_op (length (wl_ops s)) (wl_connect s) = s" by (simp add: wl_connect_def wl_add_op_def wl_drop_op_def)
  show "wl_handle_op WlResolve sni True data cs (wl_drop_op (length (wl_ops s)) (wl_connect s), acc) = Some (wl_close s, [])"
    unfolding d by (simp add: wl_handle_op_def Let_def wl_handle_resolve_def wl_since_close_def) (simp add: wl_closes_def wl_close_def)
  show "wss_connect (as_ws s) = as_ws s" using assms by (simp add: wss_connect_def switch_defs)
qed

theorem wss_ssl_differs_witness:
  "wl_step False (Some (waiting_server 0 9 True, [], False)) None \<and>
   wl_handle_op WlResolve True True [] [] (wl_drop_op 1 (wl_connect sample_wl), []) = Some (wl_close sample_wl, [])"
proof -
  have st: "has_started (wl_switch sample_wl)" "length (wl_ops sample_wl) = 1"
    by (simp_all add: sample_wl_def switch_defs)
  show ?thesis using wss_ssl_differs [OF st(1), of 0 9 True True "[]" "[]" "[]"] st(2) by simp
qed

end
