(* ===== verification/Websocket_Server.thy ===== *)
theory Websocket_Server
  imports Tcp_Server Websocket_Session
begin

text \<open>
  WebsocketServer (boost_net/boost_net/websocket_server.hpp), over the sessions of Websocket_Session and the
  contexts of Io_Context_Pool. Unlike TcpServer it makes a session when a connection is accepted, starts it
  in the handler, and find_session returns a reference to the pointer in the map, used after the lock
  is released: between the two another thread may remove the element. A session object is known
  by its id, which no two objects share.
\<close>

section \<open>WebsocketServer\<close>

(* src: boost_net/boost_net/websocket_server.hpp 296-304 WebsocketServer *)
record ws_server =
  vs_pool :: context_pool
  vs_acceptor_ctx :: nat
  vs_acceptor_open :: bool
  vs_has_read_cbk :: bool
  vs_read_some :: bool
  vs_max_wbuffer :: nat
  vs_max_rbuffer :: nat
  vs_sessions :: "nat list"
  vs_objects :: "nat \<Rightarrow> ws_sys option"
  vs_accepting :: nat
  vs_last_id :: nat

text \<open>The flag read_some is the template parameter IsReadSome.\<close>

(* src: boost_net/boost_net/websocket_server.hpp 38-44 WebsocketServer::WebsocketServer *)
definition new_ws_server :: "bool \<Rightarrow> context_pool \<Rightarrow> nat \<Rightarrow> nat \<Rightarrow> bool \<Rightarrow> ws_server option" where
  "new_ws_server read_some pool max_w max_r has_read_cbk =
     do { (ctx, pool) \<leftarrow> cp_get_io_context pool;
          Some \<lparr>vs_pool = pool, vs_acceptor_ctx = ctx, vs_acceptor_open = False, vs_has_read_cbk = has_read_cbk,
            vs_read_some = read_some, vs_max_wbuffer = max_w, vs_max_rbuffer = max_r, vs_sessions = [],
            vs_objects = Map.empty, vs_accepting = 0, vs_last_id = 0\<rparr> }"

definition vs_acceptor_valid :: "ws_server \<Rightarrow> bool" where
  "vs_acceptor_valid sv \<longleftrightarrow> vs_acceptor_ctx sv \<in> set (cp_contexts (vs_pool sv))"

(* src: boost_net/boost_net/websocket_server.hpp 219-233 WebsocketServer::start_accept *)
definition vs_start_accept :: "ws_server \<Rightarrow> ws_server option" where
  "vs_start_accept sv =
     do { (ctx, pool) \<leftarrow> cp_get_io_context (vs_pool sv);
          if vs_acceptor_valid sv then Some (sv\<lparr>vs_pool := pool, vs_accepting := vs_accepting sv + 1\<rparr>) else None }"

text \<open>
  The address of a null pointer, which start and run with a port alone pass, is an error of
  GetEndPointByHost; the argument resolved tells whether there was an address.
\<close>

(* src: boost_net/boost_net/websocket_server.hpp 191-216 WebsocketServer::start_listen *)
definition vs_start_listen :: "bool \<Rightarrow> listen_result \<Rightarrow> ws_server \<Rightarrow> (bool \<times> ws_server) option" where
  "vs_start_listen resolved r sv =
     (if \<not> resolved then Some (False, sv)
      else if \<not> vs_acceptor_valid sv then None
      else if vs_acceptor_open sv \<or> r = OpenRaises then Some (False, sv)
      else if r = BindRaises then Some (False, sv\<lparr>vs_acceptor_open := True\<rparr>)
      else do { sv \<leftarrow> vs_start_accept (sv\<lparr>vs_acceptor_open := True\<rparr>); Some (True, sv) })"

(* src: boost_net/boost_net/websocket_server.hpp 92-99 WebsocketServer::start *)
definition vs_start :: "bool \<Rightarrow> listen_result \<Rightarrow> ws_server \<Rightarrow> (bool \<times> ws_server) option" where
  "vs_start resolved r sv =
     do { (ok, sv) \<leftarrow> vs_start_listen resolved r sv;
          if \<not> ok then Some (False, sv)
          else do { pool \<leftarrow> cp_start (vs_pool sv); Some (True, sv\<lparr>vs_pool := pool\<rparr>) } }"

(* src: boost_net/boost_net/websocket_server.hpp 89-91 WebsocketServer::start *)
definition vs_start_port :: "listen_result \<Rightarrow> ws_server \<Rightarrow> (bool \<times> ws_server) option" where
  "vs_start_port r sv = vs_start False r sv"

(* src: boost_net/boost_net/websocket_server.hpp 124-127 WebsocketServer::clear *)
definition vs_clear :: "ws_server \<Rightarrow> ws_server" where
  "vs_clear sv = sv\<lparr>vs_sessions := []\<rparr>"

text \<open>With the contexts of the pool go the handlers that wait there, and with them the sessions.\<close>

(* src: boost_net/boost_net/websocket_server.hpp 117-120 WebsocketServer::stop *)
definition vs_stop :: "ws_server \<Rightarrow> ws_server option" where
  "vs_stop sv =
     (let sv = vs_clear sv
      in do { pool \<leftarrow> cp_stop (vs_pool sv);
              Some (if cp_contexts pool = []
                    then sv\<lparr>vs_pool := pool, vs_objects := Map.empty, vs_accepting := 0\<rparr>
                    else sv\<lparr>vs_pool := pool\<rparr>) })"

(* src: boost_net/boost_net/websocket_server.hpp 46-52 WebsocketServer::~WebsocketServer *)
definition vs_destroy :: "ws_server \<Rightarrow> ws_server option" where
  "vs_destroy sv =
     do { sv \<leftarrow> vs_stop (sv\<lparr>vs_has_read_cbk := False\<rparr>);
          if vs_acceptor_valid sv then Some (sv\<lparr>vs_acceptor_open := False\<rparr>) else None }"

(* src: boost_net/boost_net/websocket_server.hpp 280-284 WebsocketServer::remove_session *)
definition vs_remove_session :: "nat \<Rightarrow> ws_server \<Rightarrow> ws_server" where
  "vs_remove_session sid sv = sv\<lparr>vs_sessions := removeAll sid (vs_sessions sv)\<rparr>"

text \<open>The user's callback is the event Closed of the session.\<close>

(* src: boost_net/boost_net/websocket_server.hpp 288-293 WebsocketServer::on_close_cbk *)
definition vs_on_close_cbk :: "nat \<Rightarrow> ws_server \<Rightarrow> ws_server" where
  "vs_on_close_cbk sid sv = vs_remove_session sid sv"

text \<open>A session after one of its functions ran; when it closed, the server's callback has been called.\<close>

definition vs_put :: "nat \<Rightarrow> ws_sys \<Rightarrow> ws_server \<Rightarrow> ws_server" where
  "vs_put sid z sv =
     (let sv1 = sv\<lparr>vs_objects := (vs_objects sv)(sid \<mapsto> z)\<rparr>
      in case vs_objects sv sid of
           None \<Rightarrow> sv1
         | Some z0 \<Rightarrow> if ws_closes (fst z) = ws_closes (fst z0) then sv1 else vs_on_close_cbk sid sv1)"

text \<open>A reference to the element of the map with the id, or to the static null pointer.\<close>

(* src: boost_net/boost_net/websocket_server.hpp 258-267 WebsocketServer::find_session *)
definition vs_find_session :: "nat \<Rightarrow> ws_server \<Rightarrow> nat option" where
  "vs_find_session sid sv = (if sid \<in> set (vs_sessions sv) then Some sid else None)"

text \<open>Reading the pointer through the reference, which must still be an element.\<close>

definition vs_deref :: "nat \<Rightarrow> ws_server \<Rightarrow> ws_sys option" where
  "vs_deref ref sv = (if ref \<in> set (vs_sessions sv) then vs_objects sv ref else None)"

text \<open>What follows the search in write, consume_read_buf and close; the result of a write.\<close>

(* src: boost_net/boost_net/websocket_server.hpp 133-136 WebsocketServer::write *)
definition vs_write_found :: "nat \<Rightarrow> bytes \<Rightarrow> ws_server \<Rightarrow> (bool \<times> ws_server) option" where
  "vs_write_found ref msg sv =
     do { (s, acc) \<leftarrow> vs_deref ref sv;
          (ok, s') \<leftarrow> wss_write msg s;
          Some (ok, vs_put ref (s', if ok then acc @ [msg] else acc) sv) }"

(* src: boost_net/boost_net/websocket_server.hpp 144-147 WebsocketServer::write_tail *)
definition vs_write_tail_found :: "nat \<Rightarrow> bytes \<Rightarrow> nat \<Rightarrow> ws_server \<Rightarrow> (bool \<times> ws_server) option" where
  "vs_write_tail_found ref msg max_package_size sv =
     do { (s, acc) \<leftarrow> vs_deref ref sv;
          (ok, s') \<leftarrow> wss_write_tail msg max_package_size s;
          Some (ok, vs_put ref (s', acc) sv) }"

(* src: boost_net/boost_net/websocket_server.hpp 154-156 WebsocketServer::consume_read_buf *)
definition vs_consume_found :: "nat \<Rightarrow> nat \<Rightarrow> ws_server \<Rightarrow> ws_server option" where
  "vs_consume_found ref n sv = do { (s, acc) \<leftarrow> vs_deref ref sv; Some (vs_put ref (wss_consume n s, acc) sv) }"

(* src: boost_net/boost_net/websocket_server.hpp 163-165 WebsocketServer::close *)
definition vs_close_found :: "nat \<Rightarrow> ws_server \<Rightarrow> ws_server option" where
  "vs_close_found ref sv =
     do { (s, acc) \<leftarrow> vs_deref ref sv;
          Some (vs_put ref (wss_shutdown s, ws_since_close s (wss_shutdown s) acc) sv) }"

(* src: boost_net/boost_net/websocket_server.hpp 130-137 WebsocketServer::write *)
definition vs_write :: "nat \<Rightarrow> bytes \<Rightarrow> ws_server \<Rightarrow> (bool \<times> ws_server) option" where
  "vs_write sid msg sv =
     (case vs_find_session sid sv of None \<Rightarrow> Some (False, sv) | Some ref \<Rightarrow> vs_write_found ref msg sv)"

(* src: boost_net/boost_net/websocket_server.hpp 141-148 WebsocketServer::write_tail *)
definition vs_write_tail :: "nat \<Rightarrow> bytes \<Rightarrow> nat \<Rightarrow> ws_server \<Rightarrow> (bool \<times> ws_server) option" where
  "vs_write_tail sid msg max_package_size sv =
     (case vs_find_session sid sv of None \<Rightarrow> Some (False, sv)
      | Some ref \<Rightarrow> vs_write_tail_found ref msg max_package_size sv)"

(* src: boost_net/boost_net/websocket_server.hpp 151-157 WebsocketServer::consume_read_buf *)
definition vs_consume_read_buf :: "nat \<Rightarrow> nat \<Rightarrow> ws_server \<Rightarrow> ws_server option" where
  "vs_consume_read_buf sid n sv =
     (case vs_find_session sid sv of None \<Rightarrow> Some sv | Some ref \<Rightarrow> vs_consume_found ref n sv)"

(* src: boost_net/boost_net/websocket_server.hpp 160-166 WebsocketServer::close *)
definition vs_close :: "nat \<Rightarrow> ws_server \<Rightarrow> ws_server option" where
  "vs_close sid sv = (case vs_find_session sid sv of None \<Rightarrow> Some sv | Some ref \<Rightarrow> vs_close_found ref sv)"

text \<open>
  The handler of an accept. The session gets the server's callbacks and goes into the map, ordered by
  ids; ids are new, so that it is never in the map already.
\<close>

(* src: boost_net/boost_net/websocket_server.hpp 236-255 WebsocketServer::handle_accept *)
definition vs_handle_accept :: "bool \<Rightarrow> ws_server \<Rightarrow> ws_server option" where
  "vs_handle_accept ec sv =
     do { sv \<leftarrow> vs_start_accept (sv\<lparr>vs_accepting := vs_accepting sv - 1\<rparr>);
          if ec then Some sv
          else let sid = vs_last_id sv + 1;
                   s = new_ws_session (vs_read_some sv) (vs_max_wbuffer sv) (vs_max_rbuffer sv) (vs_has_read_cbk sv)
               in if sid \<in> set (vs_sessions sv)
                  then Some (sv\<lparr>vs_last_id := sid, vs_objects := (vs_objects sv)(sid \<mapsto> (wss_shutdown s, []))\<rparr>)
                  else Some (sv\<lparr>vs_last_id := sid, vs_sessions := insort sid (vs_sessions sv),
                         vs_objects := (vs_objects sv)(sid \<mapsto> (wss_start s, []))\<rparr>) }"

section \<open>The server with its users and its sockets\<close>

datatype ws_call = VsWrite bytes | VsConsume nat | VsClose

fun run_found :: "ws_call \<Rightarrow> nat \<Rightarrow> ws_server \<Rightarrow> ws_server option" where
  "run_found (VsWrite msg) ref sv = map_option snd (vs_write_found ref msg sv)"
| "run_found (VsConsume n) ref sv = vs_consume_found ref n sv"
| "run_found VsClose ref sv = vs_close_found ref sv"

fun run_vs_call :: "nat \<times> ws_call \<Rightarrow> ws_server \<Rightarrow> ws_server option" where
  "run_vs_call (sid, VsWrite msg) sv = map_option snd (vs_write sid msg sv)"
| "run_vs_call (sid, VsConsume n) sv = vs_consume_read_buf sid n sv"
| "run_vs_call (sid, VsClose) sv = vs_close sid sv"

fun run_vs_calls :: "(nat \<times> ws_call) list \<Rightarrow> ws_server \<Rightarrow> ws_server option" where
  "run_vs_calls [] sv = Some sv"
| "run_vs_calls (c # cs) sv = Option.bind (run_vs_call c sv) (run_vs_calls cs)"

text \<open>
  The handler of the k-th operation of a session; a read callback makes calls of the server in the
  middle of handle_read, which goes on with the session as they left it.
\<close>

definition vs_handle :: "nat \<Rightarrow> nat \<Rightarrow> bool \<Rightarrow> bytes \<Rightarrow> (nat \<times> ws_call) list \<Rightarrow> ws_server \<Rightarrow> ws_server option" where
  "vs_handle sid k ec data cs sv =
     do { (s, acc) \<leftarrow> vs_objects sv sid;
          let op = fst (ws_ops s ! k);
          let s0 = ws_drop_op k s;
          if (case op of WsRead n \<Rightarrow> \<not> ec \<and> ws_has_read_cbk s | _ \<Rightarrow> False)
          then do {
            let s1 = s0\<lparr>ws_read_buf := ws_read_buf s0 @ data,
                        ws_events := ws_events s0 @ [ReadCalled (ws_read_buf s0 @ data)]\<rparr>;
            sv2 \<leftarrow> run_vs_calls cs (vs_put sid (s1, acc) sv);
            (s2, acc2) \<leftarrow> vs_objects sv2 sid;
            s3 \<leftarrow> wss_handle_read False data (\<lambda>_. Some s2) s0;
            Some (vs_put sid (s3, acc2) sv2) }
          else do { z \<leftarrow> ws_handle_op op ec data [] (s0, acc); Some (vs_put sid z sv) } }"

text \<open>
  The server with the calls of other threads that have found their session and not used it yet. A
  thread finds and uses in two steps; a call from a callback does both in one. The flag clearing tells whether users call clear.
\<close>

type_synonym vs_sys = "ws_server \<times> (nat \<times> ws_call) list"

inductive vs_step :: "bool \<Rightarrow> vs_sys option \<Rightarrow> vs_sys option \<Rightarrow> bool" for clearing :: bool where
  find: "vs_find_session sid sv = Some ref \<Longrightarrow> vs_step clearing (Some (sv, found)) (Some (sv, found @ [(ref, c)]))"
| use_it: "i < length found \<Longrightarrow> found ! i = (ref, c) \<Longrightarrow>
    vs_step clearing (Some (sv, found))
      (map_option (\<lambda>sv'. (sv', take i found @ drop (Suc i) found)) (run_found c ref sv))"
| clear: "clearing \<Longrightarrow> vs_step clearing (Some (sv, found)) (Some (vs_clear sv, found))"
| accepted: "0 < vs_accepting sv \<Longrightarrow>
    vs_step clearing (Some (sv, found)) (map_option (\<lambda>sv'. (sv', found)) (vs_handle_accept ec sv))"
| handled: "vs_objects sv sid = Some (s, acc) \<Longrightarrow> k < length (ws_ops s) \<Longrightarrow> ws_ops s ! k = (op, b) \<Longrightarrow> (b \<longrightarrow> ec) \<Longrightarrow>
    (\<forall>n. op = WsRead (Some n) \<longrightarrow> length data \<le> n) \<Longrightarrow> (op = WsRead None \<longrightarrow> length data \<le> ws_max_rbuffer s) \<Longrightarrow>
    vs_step clearing (Some (sv, found)) (map_option (\<lambda>sv'. (sv', found)) (vs_handle sid k ec data cs sv))"


section \<open>How a session goes on\<close>

text \<open>A session is closed again or not, never less often.\<close>

lemma closes_shutdown: "ws_closes s \<le> ws_closes (wss_shutdown s)"
  using wss_shutdown_cases [of s] by (auto simp: wss_close_closes)

lemma closes_write: "wss_write msg s = Some (ok, s') \<Longrightarrow> ws_closes s \<le> ws_closes s'"
  by (drule wss_write_frame) (simp add: same_frame_def)

lemma closes_read [simp]: "ws_closes (wss_read s) = ws_closes s"
  by (simp add: wss_read_def)

lemma closes_events: "ws_closes (s\<lparr>ws_events := ws_events s @ es\<rparr>) = ws_closes s + length (filter (\<lambda>e. e = Closed) es)"
  by (simp add: ws_closes_def)

lemma closes_consume [simp]: "ws_closes (wss_consume n s) = ws_closes s"
  by (simp add: wss_consume_def)

lemma closes_handle_write:
  assumes "wss_handle_write ec s = Some s'"
  shows "ws_closes s \<le> ws_closes s'"
proof (cases "ec \<or> has_stoped (ws_switch s)")
  case True
  then show ?thesis using assms closes_shutdown [of s] by (auto simp: wss_handle_write_def split: if_splits)
next
  case False
  define s1 where "s1 = (case ws_current s of None \<Rightarrow> s | Some m \<Rightarrow> s\<lparr>ws_events := ws_events s @ [Written (ms_body m)]\<rparr>)"
  define s2 where "s2 = s1\<lparr>ws_write_buf := wb_release (ws_current s1) (ws_write_buf s1), ws_current := None\<rparr>"
  have "ws_closes s2 = ws_closes s" by (simp add: s2_def s1_def closes_events split: option.splits)
  moreover have "s' = s2 \<or> wss_write_next s2 = Some s'"
    using assms False by (auto simp: wss_handle_write_def Let_def s2_def s1_def split: if_splits)
  ultimately show ?thesis by (auto dest!: write_next_frame simp: same_frame_def)
qed

lemma closes_start: "ws_closes s \<le> ws_closes (wss_handle_start ec s)"
proof -
  obtain b w where w: "as_start (ws_switch s) = (b, w)" by fastforce
  show ?thesis
  proof (cases "ec \<or> \<not> b")
    case True
    then show ?thesis using w wss_close_closes [of s] wss_close_closes [of "s\<lparr>ws_switch := w\<rparr>"]
      by (auto simp: wss_handle_start_def)
  next
    case False
    then have "wss_handle_start ec s = (wss_read (s\<lparr>ws_switch := w\<rparr>))\<lparr>ws_events := ws_events s @ [Opened]\<rparr>"
      using w by (simp add: wss_handle_start_def)
    then show ?thesis by (simp add: ws_closes_def)
  qed
qed

lemma closes_handle_op:
  assumes "ws_handle_op op ec data [] (s, acc) = Some (s', acc')" "\<forall>n. op = WsRead n \<longrightarrow> ec \<or> \<not> ws_has_read_cbk s"
  shows "ws_closes s \<le> ws_closes s'"
proof (cases op)
  case (WsRead n)
  define s1 where "s1 = wss_consume (length data) (s\<lparr>ws_read_buf := ws_read_buf s @ data\<rparr>)"
  have "ws_closes s1 = ws_closes s" by (simp add: s1_def)
  moreover have "s' = wss_shutdown s \<or> s' = s1 \<or> s' = wss_read s1"
    using assms WsRead by (auto simp: ws_handle_op_def wss_handle_read_def Let_def s1_def split: if_splits)
  ultimately show ?thesis using closes_shutdown [of s] by auto
next
  case WsAccept
  then show ?thesis using assms(1) closes_start [of s ec] closes_start [of "s\<lparr>ws_open := True\<rparr>" ec]
    by (auto simp: ws_handle_op_def Let_def split: if_splits)
qed (use assms(1) in \<open>auto simp: ws_handle_op_def Let_def wss_handle_resolve_def wss_handle_connect_def
      wss_handle_handshake_def wss_close_closes closes_start closes_handle_write split: if_splits\<close>)

text \<open>What handle_op keeps of the invariant, whatever the operation.\<close>

lemma ws_handle_inv:
  assumes i: "ws_inv s acc" "ws_read_some s" and k: "k < length (ws_ops s)" "ws_ops s ! k = (op, b)" and b: "b \<longrightarrow> ec"
  shows "\<exists>s' acc'. ws_handle_op op ec data [] (ws_drop_op k s, acc) = Some (s', acc') \<and> ws_inv s' acc' \<and> ws_read_some s'"
proof (cases "chain_op op")
  case True
  then show ?thesis using ws_chain_inv [OF i k b] by blast
next
  case nc: False
  show ?thesis
  proof (cases op)
    case (WsRead n)
    then show ?thesis using ws_handle_read_inv [OF i k(1), of n b ec data "[]"] k(2) by blast
  next
    case (WsWrite bs)
    obtain s' where "wss_handle_write ec (ws_drop_op k s) = Some s'"
      "ws_inv s' (ws_since_close (ws_drop_op k s) s' acc)" "ws_read_some s'"
      using ws_handle_write_inv [OF i k(1), of bs b ec] k(2) b WsWrite by blast
    then show ?thesis using WsWrite by (simp add: ws_handle_op_def Let_def)
  qed (use nc in simp_all)
qed

section \<open>The invariant of the server\<close>

text \<open>
  The map holds sessions that were never closed, and, unless users call clear, all of them.
\<close>

definition vs_obj_ok :: "bool \<Rightarrow> ws_server \<Rightarrow> nat \<Rightarrow> bool" where
  "vs_obj_ok clearing sv sid \<longleftrightarrow>
     (case vs_objects sv sid of
        None \<Rightarrow> sid \<notin> set (vs_sessions sv)
      | Some (s, acc) \<Rightarrow> ws_inv s acc \<and> ws_read_some s \<and> sid \<le> vs_last_id sv \<and>
          (sid \<in> set (vs_sessions sv) \<longrightarrow> ws_closes s = 0) \<and>
          (\<not> clearing \<and> ws_closes s = 0 \<longrightarrow> sid \<in> set (vs_sessions sv)))"

definition vs_frame_ok :: "ws_server \<Rightarrow> bool" where
  "vs_frame_ok sv \<longleftrightarrow> sorted (vs_sessions sv) \<and> distinct (vs_sessions sv) \<and> cp_ok (vs_pool sv) \<and>
     cp_contexts (vs_pool sv) \<noteq> [] \<and> vs_acceptor_valid sv \<and> vs_read_some sv"

definition vs_inv :: "bool \<Rightarrow> ws_server \<Rightarrow> bool" where
  "vs_inv clearing sv \<longleftrightarrow> vs_frame_ok sv \<and> (\<forall>sid. vs_obj_ok clearing sv sid)"

lemma vs_inv_accepting [simp]: "vs_inv clearing (sv\<lparr>vs_accepting := a\<rparr>) = vs_inv clearing sv"
proof -
  have "vs_obj_ok clearing (sv\<lparr>vs_accepting := a\<rparr>) n = vs_obj_ok clearing sv n" for n
    by (auto simp: vs_obj_ok_def split: option.splits)
  then show ?thesis by (simp add: vs_inv_def vs_frame_ok_def vs_acceptor_valid_def)
qed

lemma vs_inv_obj: "vs_inv clearing sv \<Longrightarrow> vs_objects sv sid = Some (s, acc) \<Longrightarrow> ws_inv s acc \<and> ws_read_some s"
  by (auto simp: vs_inv_def vs_obj_ok_def dest!: spec [of _ sid])

lemma vs_inv_mem:
  assumes "vs_inv clearing sv" "sid \<in> set (vs_sessions sv)"
  obtains s acc where "vs_objects sv sid = Some (s, acc)" "vs_deref sid sv = Some (s, acc)"
proof -
  have "vs_obj_ok clearing sv sid" using assms(1) by (simp add: vs_inv_def)
  then show ?thesis using assms(2) that by (auto simp: vs_obj_ok_def vs_deref_def split: option.splits)
qed

lemma vs_put_fields [simp]:
  "vs_pool (vs_put sid z sv) = vs_pool sv" "vs_accepting (vs_put sid z sv) = vs_accepting sv"
  "vs_last_id (vs_put sid z sv) = vs_last_id sv" "vs_read_some (vs_put sid z sv) = vs_read_some sv"
  "vs_acceptor_ctx (vs_put sid z sv) = vs_acceptor_ctx sv" "vs_objects (vs_put sid z sv) = (vs_objects sv)(sid \<mapsto> z)"
  by (simp_all add: vs_put_def vs_on_close_cbk_def vs_remove_session_def Let_def split: option.splits)

lemma vs_put_sessions:
  "vs_objects sv sid = Some (s, acc) \<Longrightarrow> vs_sessions (vs_put sid (s', acc') sv) =
     (if ws_closes s' = ws_closes s then vs_sessions sv else removeAll sid (vs_sessions sv))"
  by (simp add: vs_put_def vs_on_close_cbk_def vs_remove_session_def Let_def)

lemma vs_put_inv:
  assumes i: "vs_inv clearing sv" and o: "vs_objects sv sid = Some (s, acc)"
    and s': "ws_inv s' acc'" "ws_read_some s'" "ws_closes s \<le> ws_closes s'"
  shows "vs_inv clearing (vs_put sid (s', acc') sv)"
  unfolding vs_inv_def
proof (intro conjI allI)
  have f: "vs_frame_ok sv" using i by (simp add: vs_inv_def)
  have "sorted (removeAll sid (vs_sessions sv))" "distinct (removeAll sid (vs_sessions sv))"
    using f by (simp_all add: vs_frame_ok_def removeAll_filter_not_eq sorted_wrt_filter)
  then show "vs_frame_ok (vs_put sid (s', acc') sv)" using f
    by (simp add: vs_frame_ok_def vs_acceptor_valid_def vs_put_sessions [OF o])
  fix n
  have on: "vs_obj_ok clearing sv n" using i by (simp add: vs_inv_def)
  show "vs_obj_ok clearing (vs_put sid (s', acc') sv) n"
  proof (cases "n = sid")
    case False
    then show ?thesis using on by (auto simp: vs_obj_ok_def vs_put_sessions [OF o] split: option.splits)
  next
    case True
    then show ?thesis using on o s' by (auto simp: vs_obj_ok_def vs_put_sessions [OF o])
  qed
qed

section \<open>Calls of the server\<close>

lemma found_ok:
  assumes i: "vs_inv clearing sv" and m: "ref \<in> set (vs_sessions sv)"
  shows "\<exists>sv'. run_found c ref sv = Some sv' \<and> vs_inv clearing sv' \<and> dom (vs_objects sv') = dom (vs_objects sv)"
proof -
  obtain s acc where o: "vs_objects sv ref = Some (s, acc)" "vs_deref ref sv = Some (s, acc)"
    by (rule vs_inv_mem [OF i m])
  have t: "ws_inv s acc" "ws_read_some s" using vs_inv_obj [OF i o(1)] by simp_all
  define cc where "cc = (case c of VsWrite msg \<Rightarrow> CWrite msg | VsConsume n \<Rightarrow> CConsume n | VsClose \<Rightarrow> CShutdown)"
  obtain s' acc' where r: "run_ws_call cc (s, acc) = Some (s', acc')" "ws_inv s' acc'" "ws_read_some s'"
    using ws_call_inv [OF t] by blast
  have "ws_closes s \<le> ws_closes s'"
    using r(1) closes_shutdown closes_write by (cases c) (auto simp: cc_def bind_Some_iff)
  then have "vs_inv clearing (vs_put ref (s', acc') sv)" by (rule vs_put_inv [OF i o(1) r(2,3)])
  moreover have "run_found c ref sv = Some (vs_put ref (s', acc') sv)"
    using r(1) o(2) by (cases c)
      (auto simp: cc_def bind_Some_iff vs_write_found_def vs_consume_found_def vs_close_found_def)
  ultimately show ?thesis using o(1) by auto
qed

lemma vs_call_found:
  "run_vs_call (sid, c) sv = (if sid \<in> set (vs_sessions sv) then run_found c sid sv else Some sv)"
  by (cases c) (simp_all add: vs_write_def vs_consume_read_buf_def vs_close_def vs_find_session_def)

lemma vs_calls_ok:
  "vs_inv clearing sv \<Longrightarrow>
     \<exists>sv'. run_vs_calls cs sv = Some sv' \<and> vs_inv clearing sv' \<and> dom (vs_objects sv') = dom (vs_objects sv)"
proof (induction cs arbitrary: sv)
  case (Cons c cs)
  obtain sid cc where c: "c = (sid, cc)" by fastforce
  obtain sv1 where sv1: "run_vs_call c sv = Some sv1" "vs_inv clearing sv1" "dom (vs_objects sv1) = dom (vs_objects sv)"
    using found_ok [OF Cons.prems, of sid cc] Cons.prems
    by (cases "sid \<in> set (vs_sessions sv)") (auto simp: c vs_call_found)
  then show ?case using Cons.IH [OF sv1(2)] by auto
qed simp

lemma vs_clear_ok: "vs_inv True sv \<Longrightarrow> vs_inv True (vs_clear sv)"
  by (auto simp: vs_inv_def vs_frame_ok_def vs_obj_ok_def vs_clear_def vs_acceptor_valid_def split: option.splits)

section \<open>Handlers of the server\<close>

lemma vs_start_accept_ok:
  assumes i: "vs_inv clearing sv"
  shows "\<exists>sv'. vs_start_accept sv = Some sv' \<and> vs_inv clearing sv' \<and> vs_last_id sv' = vs_last_id sv"
proof -
  have f: "cp_ok (vs_pool sv)" "cp_contexts (vs_pool sv) \<noteq> []" "vs_acceptor_valid sv"
    using i by (auto simp: vs_inv_def vs_frame_ok_def)
  define pool where "pool = (vs_pool sv)\<lparr>cp_next := (cp_next (vs_pool sv) + 1) mod int (length (cp_contexts (vs_pool sv)))\<rparr>"
  define sv' where "sv' = sv\<lparr>vs_pool := pool, vs_accepting := vs_accepting sv + 1\<rparr>"
  have "vs_obj_ok clearing sv' n = vs_obj_ok clearing sv n" for n
    by (auto simp: vs_obj_ok_def sv'_def split: option.splits)
  then have inv: "vs_inv clearing sv'"
    using i get_ok(2) [OF f(1,2)] by (simp add: vs_inv_def vs_frame_ok_def vs_acceptor_valid_def sv'_def pool_def)
  have "vs_start_accept sv = Some sv'"
    using get_ok(1) [OF f(1,2)] f(3) by (simp add: vs_start_accept_def sv'_def pool_def)
  then show ?thesis using inv by (simp add: sv'_def)
qed

lemma new_started_inv:
  "ws_inv (wss_start (new_ws_session True max_w max_r cb)) [] \<and> ws_read_some (wss_start (new_ws_session True max_w max_r cb)) \<and>
     ws_closes (wss_start (new_ws_session True max_w max_r cb)) = 0"
proof -
  have "ws_step (Some (new_ws_session True max_w max_r cb, [])) (Some (wss_start (new_ws_session True max_w max_r cb), []))"
    by (rule ws_step.start)
  from ws_reach_ok [OF r_into_rtranclp [of ws_step, OF this]] have "ws_inv (wss_start (new_ws_session True max_w max_r cb)) []"
    "ws_read_some (wss_start (new_ws_session True max_w max_r cb))" by (simp_all add: ws_sys_ok_def)
  then show ?thesis by (simp add: wss_start_def new_ws_session_def switch_defs) (simp add: ws_closes_def)
qed

lemma vs_accepted_ok:
  assumes i: "vs_inv clearing sv"
  shows "\<exists>sv'. vs_handle_accept ec sv = Some sv' \<and> vs_inv clearing sv'"
proof -
  have "vs_inv clearing (sv\<lparr>vs_accepting := vs_accepting sv - 1\<rparr>)"
    using i by simp
  then obtain sv1 where sv1: "vs_start_accept (sv\<lparr>vs_accepting := vs_accepting sv - 1\<rparr>) = Some sv1" "vs_inv clearing sv1"
    using vs_start_accept_ok by blast
  show ?thesis
  proof (cases ec)
    case True
    then show ?thesis using sv1 by (simp add: vs_handle_accept_def)
  next
    case False
    define sid where "sid = vs_last_id sv1 + 1"
    have o: "vs_obj_ok clearing sv1 n" for n using sv1(2) by (simp add: vs_inv_def)
    have n: "vs_objects sv1 sid = None" using o [of sid] by (auto simp: vs_obj_ok_def sid_def split: option.splits)
    then have nm: "sid \<notin> set (vs_sessions sv1)" using o [of sid] by (simp add: vs_obj_ok_def)
    have rs: "vs_read_some sv1" using sv1(2) by (simp add: vs_inv_def vs_frame_ok_def)
    define s where "s = wss_start (new_ws_session True (vs_max_wbuffer sv1) (vs_max_rbuffer sv1) (vs_has_read_cbk sv1))"
    have s: "ws_inv s []" "ws_read_some s" "ws_closes s = 0" using new_started_inv by (simp_all add: s_def)
    define sv2 where "sv2 = sv1\<lparr>vs_last_id := sid, vs_sessions := insort sid (vs_sessions sv1),
      vs_objects := (vs_objects sv1)(sid \<mapsto> (s, []))\<rparr>"
    have "vs_obj_ok clearing sv2 n" for n
      using o [of n] s by (auto simp: vs_obj_ok_def sv2_def mem_insort sid_def split: option.splits)
    moreover have "vs_frame_ok sv2" using sv1(2) nm
      by (simp add: vs_inv_def vs_frame_ok_def vs_acceptor_valid_def sv2_def sorted_insort distinct_insort)
    ultimately have "vs_inv clearing sv2" by (simp add: vs_inv_def)
    moreover have "vs_handle_accept ec sv = Some sv2"
      using False sv1(1) nm rs by (simp add: vs_handle_accept_def Let_def sv2_def s_def flip: sid_def)
        (simp add: sid_def)
    ultimately show ?thesis by blast
  qed
qed

lemma vs_handled_ok:
  assumes i: "vs_inv clearing sv" and o: "vs_objects sv sid = Some (s, acc)"
    and k: "k < length (ws_ops s)" "ws_ops s ! k = (op, b)" and b: "b \<longrightarrow> ec"
  shows "\<exists>sv'. vs_handle sid k ec data cs sv = Some sv' \<and> vs_inv clearing sv'"
proof -
  have t: "ws_inv s acc" "ws_read_some s" using vs_inv_obj [OF i o] by simp_all
  define s0 where "s0 = ws_drop_op k s"
  show ?thesis
  proof (cases "case op of WsRead n \<Rightarrow> \<not> ec \<and> ws_has_read_cbk s | _ \<Rightarrow> False")
    case False
    obtain s' acc' where h: "ws_handle_op op ec data [] (s0, acc) = Some (s', acc')" "ws_inv s' acc'" "ws_read_some s'"
      using ws_handle_inv [OF t k b] unfolding s0_def by blast
    have q: "\<forall>n. op = WsRead n \<longrightarrow> ec \<or> \<not> ws_has_read_cbk s0" using False by (auto simp: s0_def)
    have "ws_closes s \<le> ws_closes s'" using closes_handle_op [OF h(1) q] by (simp add: s0_def)
    then have "vs_inv clearing (vs_put sid (s', acc') sv)" by (rule vs_put_inv [OF i o h(2,3)])
    moreover have "vs_handle sid k ec data cs sv = Some (vs_put sid (s', acc') sv)"
      using False o k(2) h(1) by (simp add: vs_handle_def Let_def flip: s0_def)
    ultimately show ?thesis by blast
  next
    case True
    then obtain n where n: "op = WsRead n" "\<not> ec" "ws_has_read_cbk s" by (auto split: ws_op.splits)
    have i0: "ws_inv s0 acc" "ws_read_some s0" using drop_nonwrite_inv [OF t(1) k] n(1) t(2) by (simp_all add: s0_def)
    define s1 where "s1 = s0\<lparr>ws_read_buf := ws_read_buf s0 @ data,
      ws_events := ws_events s0 @ [ReadCalled (ws_read_buf s0 @ data)]\<rparr>"
    have i1: "ws_inv s1 acc" "ws_read_some s1" using i0
      by (simp_all add: s1_def ws_inv_def as_upd chain_ok_def tcp_inv_def tcp_base_def sending_def)
    have c1: "ws_closes s1 = ws_closes s" by (simp add: s1_def s0_def ws_closes_def ws_drop_op_def)
    define sv1 where "sv1 = vs_put sid (s1, acc) sv"
    have "vs_inv clearing sv1" unfolding sv1_def by (rule vs_put_inv [OF i o i1]) (simp add: c1)
    then obtain sv2 where sv2: "run_vs_calls cs sv1 = Some sv2" "vs_inv clearing sv2"
      "dom (vs_objects sv2) = dom (vs_objects sv1)" using vs_calls_ok by blast
    have "sid \<in> dom (vs_objects sv2)" using sv2(3) by (simp add: sv1_def)
    then obtain s2 acc2 where s2: "vs_objects sv2 sid = Some (s2, acc2)" by auto
    then have i2: "ws_inv s2 acc2" "ws_read_some s2" using vs_inv_obj [OF sv2(2)] by simp_all
    define s3 where "s3 = (if has_stoped (ws_switch s2) then s2 else wss_read s2)"
    have i3: "ws_inv s3 acc2" "ws_read_some s3" "ws_closes s3 = ws_closes s2"
      using i2 wss_read_inv wss_read_some by (simp_all add: s3_def)
    have "wss_handle_read False data (\<lambda>_. Some s2) s0 = Some s3"
      using n(3) by (simp add: wss_handle_read_def Let_def s3_def s0_def)
    then have "vs_handle sid k ec data cs sv = Some (vs_put sid (s3, acc2) sv2)"
      using o k(2) n sv2(1) s2 by (simp add: vs_handle_def Let_def sv1_def s1_def flip: s0_def)
    moreover have "vs_inv clearing (vs_put sid (s3, acc2) sv2)"
      by (rule vs_put_inv [OF sv2(2) s2 i3(1,2)]) (simp add: i3(3))
    ultimately show ?thesis by blast
  qed
qed


section \<open>Reachable states\<close>

lemma vs_step_inv:
  "vs_step clearing z z' \<Longrightarrow> z = Some (sv, found) \<Longrightarrow> vs_inv clearing sv \<Longrightarrow>
     z' = None \<or> (\<exists>sv' found'. z' = Some (sv', found') \<and> vs_inv clearing sv')"
proof (induction rule: vs_step.induct)
  case (use_it i fs ref c sv1)
  show ?case
  proof (cases "run_found c ref sv")
    case (Some sv')
    then have "ref \<in> set (vs_sessions sv)"
      by (cases c) (auto simp: vs_write_found_def vs_consume_found_def vs_close_found_def vs_deref_def
        bind_Some_iff split: if_splits)
    then show ?thesis using found_ok [OF use_it.prems(2), of ref c] Some use_it.prems(1) by auto
  qed (use use_it.prems in simp)
next
  case (clear sv1 fs)
  then show ?case using vs_clear_ok by auto
next
  case (accepted sv1 fs ec)
  then show ?case using vs_accepted_ok [of clearing sv ec] by auto
next
  case (handled sv1 sid s acc k op b ec data fs cs)
  then show ?case using vs_handled_ok [of clearing sv sid s acc k op b ec data cs] by auto
qed auto

lemma vs_none_step: "vs_step clearing z z' \<Longrightarrow> z = None \<Longrightarrow> False"
  by (induction rule: vs_step.induct) simp_all

lemma vs_undefined_iff:
  assumes i: "vs_inv clearing sv"
  shows "vs_step clearing (Some (sv, found)) None \<longleftrightarrow> (\<exists>(ref, c) \<in> set found. ref \<notin> set (vs_sessions sv))"
proof
  assume "vs_step clearing (Some (sv, found)) None"
  then show "\<exists>(ref, c) \<in> set found. ref \<notin> set (vs_sessions sv)"
  proof (cases rule: vs_step.cases)
    case (use_it k ref c)
    then have "run_found c ref sv = None" by simp
    then have "ref \<notin> set (vs_sessions sv)" using found_ok [OF i, of ref c] by auto
    moreover have "(ref, c) \<in> set found" using use_it(2,3) by (metis nth_mem)
    ultimately show ?thesis by blast
  next
    case (accepted ec)
    then show ?thesis using vs_accepted_ok [OF i, of ec] by auto
  next
    case (handled sid s acc k op b ec data cs)
    then show ?thesis using vs_handled_ok [OF i handled(2-5), of data cs] by auto
  qed
next
  assume "\<exists>(ref, c) \<in> set found. ref \<notin> set (vs_sessions sv)"
  then obtain ref c where rc: "(ref, c) \<in> set found" "ref \<notin> set (vs_sessions sv)" by blast
  from rc(1) obtain k where k: "k < length found" "found ! k = (ref, c)" by (metis in_set_conv_nth)
  have "run_found c ref sv = None"
    using rc(2) by (cases c) (simp_all add: vs_write_found_def vs_consume_found_def vs_close_found_def vs_deref_def)
  then show "vs_step clearing (Some (sv, found)) None" using vs_step.use_it [OF k, of clearing sv] by simp
qed

text \<open>A server that listens.\<close>

definition vs_listening :: "context_pool \<Rightarrow> nat \<Rightarrow> nat \<Rightarrow> bool \<Rightarrow> ws_server \<Rightarrow> bool" where
  "vs_listening pool max_w max_r cb sv0 \<longleftrightarrow> cp_ok pool \<and> cp_contexts pool \<noteq> [] \<and>
     Option.bind (new_ws_server True pool max_w max_r cb) (vs_start True Listens) = Some (True, sv0)"

lemma vs_listening_ok:
  assumes "vs_listening pool max_w max_r cb sv0"
  shows "vs_inv clearing sv0"
proof -
  have ok: "cp_ok pool" "cp_contexts pool \<noteq> []" using assms by (simp_all add: vs_listening_def)
  have "nat (cp_next pool) < length (cp_contexts pool)" using ok by (auto simp: cp_ok_def)
  then obtain sv where sv: "new_ws_server True pool max_w max_r cb = Some sv" "vs_inv clearing sv" "\<not> vs_acceptor_open sv"
    using get_ok [OF ok] ok by (simp add: new_ws_server_def vs_inv_def vs_frame_ok_def vs_acceptor_valid_def vs_obj_ok_def)
  have "vs_obj_ok clearing (sv\<lparr>vs_acceptor_open := True\<rparr>) n = vs_obj_ok clearing sv n" for n
    by (auto simp: vs_obj_ok_def split: option.splits)
  then have "vs_inv clearing (sv\<lparr>vs_acceptor_open := True\<rparr>)"
    using sv(2) by (simp add: vs_inv_def vs_frame_ok_def vs_acceptor_valid_def)
  then obtain sv1 where sv1: "vs_start_accept (sv\<lparr>vs_acceptor_open := True\<rparr>) = Some sv1" "vs_inv clearing sv1"
    using vs_start_accept_ok by blast
  then have "cp_bstart (vs_pool sv1)" by (auto simp: vs_inv_def vs_frame_ok_def cp_ok_def)
  moreover have "vs_acceptor_valid sv" using sv(2) by (simp add: vs_inv_def vs_frame_ok_def)
  ultimately have "vs_start True Listens sv = Some (True, sv1)"
    using sv(3) sv1(1) by (simp add: vs_start_def vs_start_listen_def cp_start_def)
  then show ?thesis using assms sv(1) sv1(2) by (simp add: vs_listening_def)
qed

lemma vs_reach_inv:
  assumes "vs_listening pool max_w max_r cb sv0" "(vs_step clearing)\<^sup>*\<^sup>* (Some (sv0, [])) z"
  shows "\<forall>sv found. z = Some (sv, found) \<longrightarrow> vs_inv clearing sv"
  using assms(2)
proof (induction rule: rtranclp_induct)
  case base
  show ?case using vs_listening_ok [OF assms(1)] by simp
next
  case (step y z)
  obtain sv found where y: "y = Some (sv, found)" using vs_none_step [OF step(2)] by (cases y) auto
  then show ?case using vs_step_inv [OF step(2) y] step.IH by auto
qed

section \<open>Properties\<close>

text \<open>C23: A websocket server for binary data and its sessions. Let users call write, consume_read_buf and
  close, from the read callback and from other threads, and clear from other threads (not write_tail, a
  second start, stop and the destructor), and let accepts and the handlers of all sessions end in any order, one at a time.
  Then in every reachable state the map holds exactly the sessions that were never closed, as long as
  nobody calls clear; every session ever accepted sent what write accepted for it, in order; while its
  connection is up exactly its current message is being written, so one at a time, and with no
  current message its queue is empty; and no accept, no handler and no call from a read callback
  is undefined. A call of another thread is undefined exactly when it has found its session and
  the session is removed before it is used, since find_session hands out a reference into the map
  after releasing the lock.\<close>

theorem ws_server_sessions:
  assumes "vs_listening pool max_w max_r cb sv0" "(vs_step clearing)\<^sup>*\<^sup>* (Some (sv0, [])) (Some (sv, found))"
  shows "distinct (vs_sessions sv) \<and>
    (\<forall>sid \<in> set (vs_sessions sv). \<exists>s acc. vs_objects sv sid = Some (s, acc) \<and> ws_closes s = 0) \<and>
    (\<forall>sid s acc. vs_objects sv sid = Some (s, acc) \<longrightarrow>
       (\<not> clearing \<and> ws_closes s = 0 \<longrightarrow> sid \<in> set (vs_sessions sv)) \<and>
       concat (ws_sent s) @ wb_bodies (ws_write_buf s) = map Some (concat acc) \<and>
       (ws_open s \<longrightarrow> [bs. (WsWrite bs, False) \<leftarrow> ws_ops s] = (case ws_current s of None \<Rightarrow> [] | Some m \<Rightarrow> [ms_body m])) \<and>
       (ws_current s = None \<longrightarrow> wb_items (ws_write_buf s) = [])) \<and>
    (vs_step clearing (Some (sv, found)) None \<longleftrightarrow> (\<exists>(ref, c) \<in> set found. ref \<notin> set (vs_sessions sv)))"
proof -
  have i: "vs_inv clearing sv" using vs_reach_inv [OF assms] by blast
  have o: "vs_obj_ok clearing sv n" for n using i by (simp add: vs_inv_def)
  have "distinct (vs_sessions sv)" using i by (simp add: vs_inv_def vs_frame_ok_def)
  moreover have "\<exists>s acc. vs_objects sv sid = Some (s, acc) \<and> ws_closes s = 0" if "sid \<in> set (vs_sessions sv)" for sid
    using o [of sid] that by (auto simp: vs_obj_ok_def split: option.splits)
  moreover have "(\<not> clearing \<and> ws_closes s = 0 \<longrightarrow> sid \<in> set (vs_sessions sv)) \<and>
       concat (ws_sent s) @ wb_bodies (ws_write_buf s) = map Some (concat acc) \<and>
       (ws_open s \<longrightarrow> [bs. (WsWrite bs, False) \<leftarrow> ws_ops s] = (case ws_current s of None \<Rightarrow> [] | Some m \<Rightarrow> [ms_body m])) \<and>
       (ws_current s = None \<longrightarrow> wb_items (ws_write_buf s) = [])" if "vs_objects sv sid = Some (s, acc)" for sid s acc
    using o [of sid] that binary_live_writes [of s acc]
    by (auto simp: vs_obj_ok_def ws_inv_def tcp_inv_def tcp_base_def sending_def)
  ultimately show ?thesis using vs_undefined_iff [OF i, of found] by simp
qed

text \<open>Two threads that close the same running session.\<close>

lemma close_found_removes:
  assumes i: "vs_inv clearing sv" and o: "vs_objects sv sid = Some (s, acc)" and m: "sid \<in> set (vs_sessions sv)"
    and st: "has_started (ws_switch s)"
  shows "\<exists>sv'. run_found VsClose sid sv = Some sv' \<and> vs_inv clearing sv' \<and> sid \<notin> set (vs_sessions sv')"
proof -
  have "ws_closes (wss_shutdown s) \<noteq> ws_closes s"
    using wss_shutdown_cases [of s] st by (auto simp: wss_close_closes)
  then have "sid \<notin> set (vs_sessions (vs_put sid (wss_shutdown s, ws_since_close s (wss_shutdown s) acc) sv))"
    by (simp add: vs_put_sessions [OF o])
  moreover have "run_found VsClose sid sv = Some (vs_put sid (wss_shutdown s, ws_since_close s (wss_shutdown s) acc) sv)"
    using o m by (simp add: vs_close_found_def vs_deref_def)
  ultimately show ?thesis using found_ok [OF i m, of VsClose] by auto
qed

text \<open>The race: from every reachable state in which a session runs, two threads that find it, one of which closes it,
  lead to an undefined use.\<close>

theorem ws_server_race:
  assumes "vs_listening pool max_w max_r cb sv0" "(vs_step clearing)\<^sup>*\<^sup>* (Some (sv0, [])) (Some (sv, found))"
    and o: "vs_objects sv sid = Some (s, acc)" and m: "sid \<in> set (vs_sessions sv)" and st: "has_started (ws_switch s)"
  shows "(vs_step clearing)\<^sup>*\<^sup>* (Some (sv, found)) None"
proof -
  have i: "vs_inv clearing sv" using vs_reach_inv [OF assms(1,2)] by blast
  obtain sv' where sv': "run_found VsClose sid sv = Some sv'" "vs_inv clearing sv'" "sid \<notin> set (vs_sessions sv')"
    using close_found_removes [OF i o m st] by blast
  have f: "vs_find_session sid sv = Some sid" using m by (simp add: vs_find_session_def)
  define f1 where "f1 = found @ [(sid, VsClose)]"
  define f2 where "f2 = f1 @ [(sid, VsClose)]"
  have "vs_step clearing (Some (sv, found)) (Some (sv, f1))" unfolding f1_def by (rule vs_step.find [OF f])
  moreover have "vs_step clearing (Some (sv, f1)) (Some (sv, f2))" unfolding f2_def by (rule vs_step.find [OF f])
  moreover have "vs_step clearing (Some (sv, f2)) (Some (sv', f1))"
    using vs_step.use_it [of "length found" f2 sid VsClose clearing sv] sv'(1) by (simp add: f2_def f1_def nth_append)
  moreover have "vs_step clearing (Some (sv', f1)) None"
    using sv'(3) by (subst vs_undefined_iff [OF sv'(2)]) (auto simp: f1_def)
  ultimately show ?thesis by (meson converse_rtranclp_into_rtranclp r_into_rtranclp)
qed

text \<open>A server on the sample pool, whose first session runs.\<close>

definition sample_vs_listen :: ws_server where
  "sample_vs_listen = \<lparr>vs_pool = sample_pool, vs_acceptor_ctx = 4, vs_acceptor_open = True, vs_has_read_cbk = True,
     vs_read_some = True, vs_max_wbuffer = 0, vs_max_rbuffer = 2000, vs_sessions = [], vs_objects = Map.empty,
     vs_accepting = 1, vs_last_id = 0\<rparr>"

definition sample_vs_accepted :: ws_server where
  "sample_vs_accepted = sample_vs_listen\<lparr>vs_pool := sample_pool\<lparr>cp_next := 0\<rparr>, vs_sessions := [1],
     vs_objects := [1 \<mapsto> (wss_start (new_ws_session True 0 2000 True), [])], vs_last_id := 1\<rparr>"

definition sample_vs_running :: ws_server where
  "sample_vs_running = sample_vs_accepted\<lparr>vs_objects := [1 \<mapsto> (sample_ws True 0 2000 True, [])]\<rparr>"

lemma sample_vs_listening: "vs_listening sample_pool 0 2000 True sample_vs_listen"
  using sample_pool_ok
  by (simp add: vs_listening_def new_ws_server_def vs_start_def vs_start_listen_def vs_start_accept_def
    vs_acceptor_valid_def cp_get_io_context_def cp_start_def Let_def)
   (simp add: sample_pool_def sample_vs_listen_def)

lemma sample_vs_reach:
  "(vs_step clearing)\<^sup>*\<^sup>* (Some (sample_vs_listen, [])) (Some (sample_vs_running, []))"
proof -
  have "vs_handle_accept False sample_vs_listen = Some sample_vs_accepted"
    by (simp add: vs_handle_accept_def vs_start_accept_def sample_vs_listen_def sample_vs_accepted_def sample_pool_def
      cp_get_io_context_def vs_acceptor_valid_def Let_def)
  then have a: "vs_step clearing (Some (sample_vs_listen, [])) (Some (sample_vs_accepted, []))"
    using vs_step.accepted [of sample_vs_listen clearing "[]" False] by (simp add: sample_vs_listen_def)
  define s1 where "s1 = wss_start (new_ws_session True 0 2000 True)"
  have ops: "ws_ops s1 = [(WsAccept, False)]" "ws_closes s1 = 0"
    by (simp_all add: s1_def wss_start_def new_ws_session_def switch_defs ws_add_op_def ws_closes_def)
  have o: "vs_objects sample_vs_accepted 1 = Some (s1, [])" by (simp add: sample_vs_accepted_def s1_def)
  have "ws_handle_op WsAccept False [] [] (ws_drop_op 0 s1, []) = Some (sample_ws True 0 2000 True, [])"
    by (simp add: ws_handle_op_def Let_def sample_ws_def ws_since_close_def s1_def)
  moreover have "ws_closes (sample_ws True 0 2000 True) = 0"
    by (simp add: sample_ws_def wss_handle_start_def wss_start_def new_ws_session_def switch_defs ws_add_op_def
      ws_drop_op_def wss_read_def Let_def ws_closes_def)
  ultimately have "vs_handle 1 0 False [] [] sample_vs_accepted = Some sample_vs_running"
    using o ops by (simp add: vs_handle_def Let_def vs_put_def) (simp add: sample_vs_accepted_def sample_vs_running_def)
  then have "vs_step clearing (Some (sample_vs_accepted, [])) (Some (sample_vs_running, []))"
    using vs_step.handled [of sample_vs_accepted 1 s1 "[]" 0 WsAccept False False "[]" clearing "[]" "[]"] o ops by simp
  then show ?thesis using a by (meson converse_rtranclp_into_rtranclp r_into_rtranclp)
qed

theorem ws_server_sessions_witness:
  "vs_sessions sample_vs_running = [1] \<and> ws_closes (sample_ws True 0 2000 True) = 0 \<and>
   concat (ws_sent (sample_ws True 0 2000 True)) @ wb_bodies (ws_write_buf (sample_ws True 0 2000 True)) = [] \<and>
   \<not> vs_step False (Some (sample_vs_running, [])) None"
proof -
  have o: "vs_objects sample_vs_running 1 = Some (sample_ws True 0 2000 True, [])" "vs_sessions sample_vs_running = [1]"
    by (simp_all add: sample_vs_running_def sample_vs_accepted_def)
  note w = ws_server_sessions [OF sample_vs_listening sample_vs_reach [of False], THEN conjunct2]
  have "ws_closes (sample_ws True 0 2000 True) = 0" using w [THEN conjunct1] o by simp
  moreover have "concat (ws_sent (sample_ws True 0 2000 True)) @ wb_bodies (ws_write_buf (sample_ws True 0 2000 True)) = []"
    using w [THEN conjunct2, THEN conjunct1, rule_format, OF o(1)] by simp
  moreover have "\<not> vs_step False (Some (sample_vs_running, [])) None"
    using w [THEN conjunct2, THEN conjunct2] by (simp del: not_None_eq)
  ultimately show ?thesis using o(2) by blast
qed

theorem ws_server_race_witness: "(vs_step False)\<^sup>*\<^sup>* (Some (sample_vs_running, [])) None"
proof -
  have o: "vs_objects sample_vs_running 1 = Some (sample_ws True 0 2000 True, [])" "1 \<in> set (vs_sessions sample_vs_running)"
    by (simp_all add: sample_vs_running_def sample_vs_accepted_def)
  show ?thesis by (rule ws_server_race [OF sample_vs_listening sample_vs_reach o sample_ws_fields(1)])
qed

end
