(* ===== verification/Https_Session.thy ===== *)
theory Https_Session
  imports Http_Session Atomic_Switch C_Text
begin

text \<open>
  HttpsSession (boost_net/boost_net/https_session.hpp): the session over SSL. Its asynchronous half is
  HttpSession's with a handshake between the connection and the opening, and with an AtomicSwitch for
  the flags; as_http forgets the difference. Its synchronous half connects, writes and reads on the
  caller's thread and posts the callbacks to the io_context. What the network does is an argument.
  The static AsyncWrite is left out, as are asyncGet and its variants: the first starts its chain on
  an io_context nobody runs, the others build a message and drop it. The templates for a callback of
  the write do not compile.
\<close>

section \<open>Targets and ports\<close>

(* src: boost_net/boost_net/https_session.hpp 871-878 HttpsSession::GetPort *)
definition ss_get_port :: "u16 \<Rightarrow> string" where
  "ss_get_port port = (if port = 0 then ''https'' else digits (unat port))"

text \<open>The loop appends every parameter with a separator behind it, pop_back takes the last one off.\<close>

(* src: boost_net/boost_net/https_session.hpp 880-886 HttpsSession::GetRestFulTarget *)
definition restful_target :: "string \<Rightarrow> string list \<Rightarrow> string" where
  "restful_target target restfuls =
     (if restfuls = [] then target else butlast (fold (\<lambda>key t. t @ key @ ''&'') restfuls (target @ ''?'')))"

(* src: boost_net/boost_net/https_session.hpp 888-894 HttpsSession::GetRestFulTarget *)
definition restful_target_map :: "string \<Rightarrow> (string \<times> string) list \<Rightarrow> string" where
  "restful_target_map target restfuls =
     (if restfuls = [] then target
      else butlast (fold (\<lambda>(key, val) t. t @ key @ ''='' @ val @ ''&'') restfuls (target @ ''?'')))"

section \<open>The asynchronous session\<close>

datatype https_op = SResolve | SConnect | SHandshake | SRead bool | SWrite bool

text \<open>Errors are their texts; a callback of the close gets one.\<close>

datatype ('r, 'w) https_event = SOpened | SClosed string | SGot 'r | SSent 'w

datatype https_post = PostOpen | PostClose string

(* src: boost_net/boost_net/https_session.hpp 918-939 HttpsSession *)
record ('r, 'w) https_session =
  ss_is_request :: bool
  ss_open :: bool
  ss_ops :: "(https_op \<times> bool) list"
  ss_switch :: switch
  ss_ip :: string
  ss_port :: u16
  ss_send_msg :: "'w option"
  ss_events :: "('r, 'w) https_event list"
  ss_posted :: "https_post list"
  ss_wire :: "'w list"

(* src: boost_net/boost_net/https_session.hpp 185-210 HttpsSession::HttpsSession *)
definition new_https_session :: "bool \<Rightarrow> ('r, 'w) https_session" where
  "new_https_session is_request =
     \<lparr>ss_is_request = is_request, ss_open = is_request, ss_ops = [], ss_switch = new_switch, ss_ip = [], ss_port = 0,
      ss_send_msg = None, ss_events = [], ss_posted = [], ss_wire = []\<rparr>"

definition ss_live :: "('r, 'w) https_session \<Rightarrow> https_op list" where
  "ss_live s = [op. (op, b) \<leftarrow> ss_ops s, \<not> b]"

text \<open>The operations on the stream, and those that a close of the socket cancels: all but the resolve.\<close>

definition on_stream :: "https_op \<Rightarrow> bool" where
  "on_stream op \<longleftrightarrow> op \<noteq> SResolve \<and> op \<noteq> SConnect"

definition ss_add_op :: "https_op \<Rightarrow> ('r, 'w) https_session \<Rightarrow> ('r, 'w) https_session" where
  "ss_add_op op s = s\<lparr>ss_ops := ss_ops s @ [(op, \<not> ss_open s \<and> on_stream op)]\<rparr>"

text \<open>Without the flag of the initialisation the socket is only shut down, which ends what runs on the stream.\<close>

(* src: boost_net/boost_net/https_session.hpp 744-767 HttpsSession::close *)
definition ss_close :: "string \<Rightarrow> bool \<Rightarrow> ('r, 'w) https_session \<Rightarrow> ('r, 'w) https_session" where
  "ss_close ec callback s =
     (let s1 = s\<lparr>ss_open := False,
            ss_ops := map (\<lambda>(op, b). (op, b \<or> on_stream op \<or> (has_init (ss_switch s) \<and> op \<noteq> SResolve))) (ss_ops s),
            ss_switch := as_reset (ss_switch s)\<rparr>
      in if callback then s1\<lparr>ss_events := ss_events s1 @ [SClosed ec]\<rparr> else s1)"

(* src: boost_net/boost_net/https_session.hpp 420-425 HttpsSession::shutdown *)
definition ss_shutdown :: "string \<Rightarrow> ('r, 'w) https_session \<Rightarrow> ('r, 'w) https_session" where
  "ss_shutdown ec s =
     (let (ok, w) = as_stop (ss_switch s); s1 = s\<lparr>ss_switch := w\<rparr> in if ok then ss_close ec True s1 else s1)"

text \<open>The destructor sets the handler to null first.\<close>

(* src: boost_net/boost_net/https_session.hpp 212-215 HttpsSession::~HttpsSession *)
definition ss_destroy :: "('r, 'w) https_session \<Rightarrow> ('r, 'w) https_session" where
  "ss_destroy s = ss_close [] False s"

(* src: boost_net/boost_net/https_session.hpp 315-323 HttpsSession::start *)
definition ss_start :: "('r, 'w) https_session \<Rightarrow> ('r, 'w) https_session" where
  "ss_start s =
     (let (ok, w) = as_init (ss_switch s); s1 = s\<lparr>ss_switch := w\<rparr> in if ok then ss_add_op SHandshake s1 else s1)"

text \<open>The argument sni is the error of SSL_set_tlsext_host_name, if it fails.\<close>

(* src: boost_net/boost_net/https_session.hpp 247-267 HttpsSession::async_connect *)
definition ss_async_connect :: "string option \<Rightarrow> string \<Rightarrow> u16 \<Rightarrow> ('r, 'w) https_session \<Rightarrow> ('r, 'w) https_session" where
  "ss_async_connect sni host port s =
     (let (ok, w) = as_init (ss_switch s); s1 = s\<lparr>ss_switch := w\<rparr>
      in if \<not> ok then s1
         else case sni of
           Some ec \<Rightarrow> (let s2 = ss_close ec True s1 in s2\<lparr>ss_switch := as_reset (ss_switch s2)\<rparr>)
         | None \<Rightarrow> ss_add_op SResolve (s1\<lparr>ss_ip := host, ss_port := port\<rparr>))"

(* src: boost_net/boost_net/https_session.hpp 270-273 HttpsSession::async_reconnect *)
definition ss_async_reconnect :: "string option \<Rightarrow> ('r, 'w) https_session \<Rightarrow> ('r, 'w) https_session" where
  "ss_async_reconnect sni s = ss_async_connect sni (ss_ip s) (ss_port s) s"

(* src: boost_net/boost_net/https_session.hpp 786-797 HttpsSession::handle_resolve *)
definition ss_handle_resolve :: "string option \<Rightarrow> ('r, 'w) https_session \<Rightarrow> ('r, 'w) https_session" where
  "ss_handle_resolve ec s =
     (case ec of
        Some e \<Rightarrow> (let s1 = ss_close e True s in s1\<lparr>ss_switch := as_reset (ss_switch s1)\<rparr>)
      | None \<Rightarrow> ss_add_op SConnect s)"

(* src: boost_net/boost_net/https_session.hpp 800-809 HttpsSession::handle_connect *)
definition ss_handle_connect :: "string option \<Rightarrow> ('r, 'w) https_session \<Rightarrow> ('r, 'w) https_session" where
  "ss_handle_connect ec s =
     (case ec of
        Some e \<Rightarrow> (let s1 = ss_close e True s in s1\<lparr>ss_switch := as_reset (ss_switch s1)\<rparr>)
      | None \<Rightarrow> ss_start (s\<lparr>ss_open := True\<rparr>))"

(* src: boost_net/boost_net/https_session.hpp 770-783 HttpsSession::read *)
definition ss_read :: "bool \<Rightarrow> ('r, 'w) https_session \<Rightarrow> ('r, 'w) https_session option" where
  "ss_read close s =
     (if (\<exists>op \<in> set (ss_live s). case op of SRead _ \<Rightarrow> True | _ \<Rightarrow> False) then None
      else Some (ss_add_op (SRead close) s))"

text \<open>The address and port of the peer are those of the connection.\<close>

(* src: boost_net/boost_net/https_session.hpp 812-828 HttpsSession::handle_handshake *)
definition ss_handle_handshake ::
  "string \<times> u16 \<Rightarrow> string option \<Rightarrow> (('r, 'w) https_session \<Rightarrow> ('r, 'w) https_session option) \<Rightarrow>
     ('r, 'w) https_session \<Rightarrow> ('r, 'w) https_session option" where
  "ss_handle_handshake peer ec cbk s =
     (case ec of
        Some e \<Rightarrow> Some (ss_close e True s)
      | None \<Rightarrow>
          (let (ok, w) = as_start (ss_switch s); s1 = s\<lparr>ss_switch := w\<rparr>
           in if \<not> ok then Some (ss_close [] True s1)
              else do {
                s2 \<leftarrow> cbk (s1\<lparr>ss_ip := (if ss_ip s1 = [] then fst peer else ss_ip s1),
                          ss_port := (if ss_port s1 = 0 then snd peer else ss_port s1),
                          ss_events := ss_events s1 @ [SOpened]\<rparr>);
                if ss_is_request s2 then ss_read False s2 else Some s2 }))"

(* src: boost_net/boost_net/https_session.hpp 831-844 HttpsSession::handle_read *)
definition ss_handle_read ::
  "bool \<Rightarrow> string option \<Rightarrow> 'r \<Rightarrow> (('r, 'w) https_session \<Rightarrow> ('r, 'w) https_session option) \<Rightarrow>
     ('r, 'w) https_session \<Rightarrow> ('r, 'w) https_session option" where
  "ss_handle_read close ec msg cbk s =
     (case ec of
        Some e \<Rightarrow> Some (ss_shutdown e s)
      | None \<Rightarrow> do { s1 \<leftarrow> cbk (s\<lparr>ss_events := ss_events s @ [SGot msg]\<rparr>);
                     Some (if close then ss_shutdown [] s1 else s1) })"

(* src: boost_net/boost_net/https_session.hpp 847-861 HttpsSession::handle_write *)
definition ss_handle_write ::
  "bool \<Rightarrow> string option \<Rightarrow> (('r, 'w) https_session \<Rightarrow> ('r, 'w) https_session option) \<Rightarrow>
     ('r, 'w) https_session \<Rightarrow> ('r, 'w) https_session option" where
  "ss_handle_write close ec cbk s =
     (case ec of
        Some e \<Rightarrow> Some (ss_shutdown e s)
      | None \<Rightarrow> do {
          m \<leftarrow> ss_send_msg s;
          s1 \<leftarrow> cbk (s\<lparr>ss_events := ss_events s @ [SSent m]\<rparr>);
          if \<not> ss_is_request s1 \<or> \<not> close then ss_read close s1 else Some (ss_shutdown [] s1) })"

(* src: boost_net/boost_net/https_session.hpp 405-417 HttpsSession::async_write *)
definition ss_async_write ::
  "('w \<Rightarrow> bool) \<Rightarrow> (string \<Rightarrow> 'w \<Rightarrow> 'w) \<Rightarrow> 'w \<Rightarrow> ('r, 'w) https_session \<Rightarrow> (bool \<times> ('r, 'w) https_session) option" where
  "ss_async_write need_eof set_host msg s =
     (if (\<exists>op \<in> set (ss_live s). case op of SWrite _ \<Rightarrow> True | _ \<Rightarrow> False) then None
      else let m = set_host (ss_ip s) msg
           in Some (True, ss_add_op (SWrite (need_eof m)) (s\<lparr>ss_send_msg := Some m\<rparr>)))"

section \<open>The synchronous session\<close>

text \<open>How far an attempt to connect comes; the resolver of boost throws.\<close>

datatype connect_result = SniFails string | ResolveThrows | ConnectFails string | HandshakeFails string | Connects

text \<open>A call that may throw.\<close>

datatype ('a, 's) may_throw = Thrown 's | Returned 'a 's

(* src: boost_net/boost_net/https_session.hpp 896-903 HttpsSession::callback_open *)
definition callback_open :: "('r, 'w) https_session \<Rightarrow> ('r, 'w) https_session" where
  "callback_open s = s\<lparr>ss_posted := ss_posted s @ [PostOpen]\<rparr>"

(* src: boost_net/boost_net/https_session.hpp 905-910 HttpsSession::callback_close *)
definition callback_close :: "string \<Rightarrow> ('r, 'w) https_session \<Rightarrow> ('r, 'w) https_session" where
  "callback_close ec s = s\<lparr>ss_posted := ss_posted s @ [PostClose ec]\<rparr>"

text \<open>callback_shutdown is the same code again.\<close>

(* src: boost_net/boost_net/https_session.hpp 911-916 HttpsSession::callback_shutdown *)
definition callback_shutdown :: "string \<Rightarrow> ('r, 'w) https_session \<Rightarrow> ('r, 'w) https_session" where
  "callback_shutdown ec s = s\<lparr>ss_posted := ss_posted s @ [PostClose ec]\<rparr>"

text \<open>What was posted runs on the io_context.\<close>

(* src: boost_net/boost_net/https_session.hpp 898-909 HttpsSession::callback_open *)
fun run_post :: "https_post \<Rightarrow> ('r, 'w) https_session \<Rightarrow> ('r, 'w) https_session" where
  "run_post PostOpen s = s\<lparr>ss_events := ss_events s @ [SOpened]\<rparr>"
| "run_post (PostClose ec) s = ss_close ec True s"

(* src: boost_net/boost_net/https_session.hpp 276-307 HttpsSession::connect *)
definition ss_connect :: "string \<Rightarrow> u16 \<Rightarrow> connect_result \<Rightarrow> ('r, 'w) https_session \<Rightarrow>
    (bool, ('r, 'w) https_session) may_throw" where
  "ss_connect host port r s =
     (let (ok, w) = as_init (ss_switch s); s1 = s\<lparr>ss_switch := w\<rparr>
      in if \<not> ok then Returned True s1
         else let s2 = s1\<lparr>ss_ip := host, ss_port := port\<rparr>
              in case r of
                   SniFails ec \<Rightarrow> Returned False (callback_close ec s2)
                 | ResolveThrows \<Rightarrow> Thrown s2
                 | ConnectFails ec \<Rightarrow> Returned False (callback_close ec s2)
                 | HandshakeFails ec \<Rightarrow> Returned False (callback_close ec (s2\<lparr>ss_open := True\<rparr>))
                 | Connects \<Rightarrow>
                     Returned True (callback_open (s2\<lparr>ss_open := True, ss_switch := snd (as_start (ss_switch s2))\<rparr>)))"

(* src: boost_net/boost_net/https_session.hpp 309-312 HttpsSession::reconnect *)
definition ss_reconnect :: "connect_result \<Rightarrow> ('r, 'w) https_session \<Rightarrow> (bool, ('r, 'w) https_session) may_throw" where
  "ss_reconnect r s = ss_connect (ss_ip s) (ss_port s) r s"

text \<open>
  An attempt to write and read: the error of the write or the read, with what a reconnect would come
  to, or the answer.
\<close>

datatype 'r attempt = Fails string connect_result | Answers 'r

text \<open>
  sync_write with n attempts left to repeat, at k what the network does in the attempt with k left.
  The host and the connection's mode are set in the message each time. The result is the answer or
  the text in the answer's body.
\<close>

(* src: boost_net/boost_net/https_session.hpp 325-362 HttpsSession::sync_write *)
fun ss_sync_write :: "(string \<Rightarrow> 'w \<Rightarrow> 'w) \<Rightarrow> (nat \<Rightarrow> 'r attempt) \<Rightarrow> nat \<Rightarrow> 'w \<Rightarrow> ('r, 'w) https_session \<Rightarrow>
    (string + 'r, ('r, 'w) https_session) may_throw" where
  "ss_sync_write prepare at n msg s =
     (if \<not> has_started (ss_switch s) then Returned (Inl ''unready finish'') s
      else let m = prepare (ss_ip s) msg;
               s1 = s\<lparr>ss_wire := ss_wire s @ [m]\<rparr>
           in case at n of
                Answers r \<Rightarrow> Returned (Inr r) s1
              | Fails ec c \<Rightarrow>
                  (case n of
                     0 \<Rightarrow> Returned (Inl ec) (callback_shutdown ec s1)
                   | Suc k \<Rightarrow>
                       (case ss_reconnect c (ss_close ec False s1) of
                          Thrown s2 \<Rightarrow> Thrown s2
                        | Returned ok s2 \<Rightarrow>
                            if ok then ss_sync_write prepare at k m s2
                            else Returned (Inl ec) (callback_shutdown ec s2))))"

declare ss_sync_write.simps [simp del]

text \<open>The static SyncWrite: the errors of its steps, and the answer. None is the exception of the resolver.\<close>

record 'r sync_steps =
  sy_sni :: "string option"
  sy_resolves :: bool
  sy_connect :: "string option"
  sy_handshake :: "string option"
  sy_write :: "string option"
  sy_read :: "string + 'r"

(* src: boost_net/boost_net/https_session.hpp 516-571 HttpsSession::SyncWrite *)
definition ss_sync_write_once :: "'r sync_steps \<Rightarrow> (string + 'r) option" where
  "ss_sync_write_once y =
     (case sy_sni y of Some ec \<Rightarrow> Some (Inl ec)
      | None \<Rightarrow> if \<not> sy_resolves y then None
        else (case sy_connect y of Some ec \<Rightarrow> Some (Inl ec)
        | None \<Rightarrow> (case sy_handshake y of Some ec \<Rightarrow> Some (Inl ec)
        | None \<Rightarrow> (case sy_write y of Some ec \<Rightarrow> Some (Inl ec)
        | None \<Rightarrow> Some (sy_read y)))))"

text \<open>SyncWriteEndOfStream reads until the end of the stream; None when it still waits.\<close>

datatype read_status = ReadOk | EndOfStream | ReadFails

(* src: boost_net/boost_net/https_session.hpp 608-618 HttpsSession::SyncWriteEndOfStream *)
fun read_to_end :: "('r \<times> read_status) list \<Rightarrow> 'r list \<Rightarrow> (bool \<times> 'r list) option" where
  "read_to_end [] acc = None"
| "read_to_end ((m, EndOfStream) # rs) acc = Some (True, acc)"
| "read_to_end ((m, ReadFails) # rs) acc = Some (False, acc @ [m])"
| "read_to_end ((m, ReadOk) # rs) acc = read_to_end rs (acc @ [m])"

text \<open>Here everything before the reads throws into the handler, which returns failure.\<close>

(* src: boost_net/boost_net/https_session.hpp 579-628 HttpsSession::SyncWriteEndOfStream *)
definition ss_sync_write_end_of_stream :: "'r sync_steps \<Rightarrow> ('r \<times> read_status) list \<Rightarrow> (bool \<times> 'r list) option" where
  "ss_sync_write_end_of_stream y rs =
     (if sy_sni y \<noteq> None \<or> \<not> sy_resolves y \<or> sy_connect y \<noteq> None \<or> sy_handshake y \<noteq> None \<or> sy_write y \<noteq> None
      then Some (False, []) else read_to_end rs [])"

section \<open>Sessions and their users\<close>

text \<open>
  The use of a session is that of an HttpSession when disc is true: its user sends when the session
  runs and nothing is outstanding, and not in a callback that is followed by a read. When disc is
  false, it sends whenever it likes, as async_write tests nothing.
\<close>

definition ss_may_call :: "bool \<Rightarrow> 'w http_call \<Rightarrow> ('r, 'w) https_session \<Rightarrow> bool" where
  "ss_may_call disc c s \<longleftrightarrow>
     (case c of HSend m \<Rightarrow> disc \<longrightarrow> has_started (ss_switch s) \<and> ss_live s = [] | HShutdown \<Rightarrow> True)"

primrec ss_may_send_in :: "http_cbk_kind \<Rightarrow> ('r, 'w) https_session \<Rightarrow> bool" where
  "ss_may_send_in OnOpen s = (\<not> ss_is_request s)"
| "ss_may_send_in OnRead s = True"
| "ss_may_send_in OnWrite s = False"

definition run_https_call ::
  "('w \<Rightarrow> bool) \<Rightarrow> (string \<Rightarrow> 'w \<Rightarrow> 'w) \<Rightarrow> 'w http_call \<Rightarrow> ('r, 'w) https_session \<Rightarrow> ('r, 'w) https_session option" where
  "run_https_call need_eof set_host c s =
     (case c of HSend m \<Rightarrow> map_option snd (ss_async_write need_eof set_host m s) | HShutdown \<Rightarrow> Some (ss_shutdown [] s))"

fun https_cbk ::
  "bool \<Rightarrow> ('w \<Rightarrow> bool) \<Rightarrow> (string \<Rightarrow> 'w \<Rightarrow> 'w) \<Rightarrow> http_cbk_kind \<Rightarrow> 'w http_call list \<Rightarrow> ('r, 'w) https_session \<Rightarrow>
     ('r, 'w) https_session option" where
  "https_cbk disc need_eof set_host k [] s = Some s"
| "https_cbk disc need_eof set_host k (c # cs) s =
     (if ss_may_call disc c s \<and> (disc \<and> c \<noteq> HShutdown \<longrightarrow> ss_may_send_in k s)
      then Option.bind (run_https_call need_eof set_host c s) (https_cbk disc need_eof set_host k cs)
      else https_cbk disc need_eof set_host k cs s)"

definition ss_drop_op :: "nat \<Rightarrow> ('r, 'w) https_session \<Rightarrow> ('r, 'w) https_session" where
  "ss_drop_op k s = s\<lparr>ss_ops := take k (ss_ops s) @ drop (Suc k) (ss_ops s)\<rparr>"

definition ss_handle_op ::
  "bool \<Rightarrow> ('w \<Rightarrow> bool) \<Rightarrow> (string \<Rightarrow> 'w \<Rightarrow> 'w) \<Rightarrow> https_op \<Rightarrow> string \<times> u16 \<Rightarrow> string option \<Rightarrow> 'r \<Rightarrow> 'w http_call list \<Rightarrow>
     ('r, 'w) https_session \<Rightarrow> ('r, 'w) https_session option" where
  "ss_handle_op disc need_eof set_host op peer ec msg cs s =
     (case op of
        SResolve \<Rightarrow> Some (ss_handle_resolve ec s)
      | SConnect \<Rightarrow> Some (ss_handle_connect ec s)
      | SHandshake \<Rightarrow> ss_handle_handshake peer ec (https_cbk disc need_eof set_host OnOpen cs) s
      | SRead close \<Rightarrow> ss_handle_read close ec msg (https_cbk disc need_eof set_host OnRead cs) s
      | SWrite close \<Rightarrow> ss_handle_write close ec (https_cbk disc need_eof set_host OnWrite cs) s)"

text \<open>
  The asynchronous use: a client connects with async_connect and async_reconnect whenever it likes, a
  server starts a session made from a connected socket, and both call as above, outside callbacks and
  in those of the opening, the reads and the writes.
\<close>

inductive https_step ::
  "bool \<Rightarrow> ('w \<Rightarrow> bool) \<Rightarrow> (string \<Rightarrow> 'w \<Rightarrow> 'w) \<Rightarrow> ('r, 'w) https_session option \<Rightarrow> ('r, 'w) https_session option \<Rightarrow> bool"
  for disc :: bool and need_eof :: "'w \<Rightarrow> bool" and set_host :: "string \<Rightarrow> 'w \<Rightarrow> 'w" where
  connect: "\<not> ss_is_request s \<Longrightarrow> https_step disc need_eof set_host (Some s) (Some (ss_async_connect sni host port s))"
| reconnect: "\<not> ss_is_request s \<Longrightarrow> https_step disc need_eof set_host (Some s) (Some (ss_async_reconnect sni s))"
| start: "ss_is_request s \<Longrightarrow> ss_ops s = [] \<Longrightarrow> ss_open s \<Longrightarrow> https_step disc need_eof set_host (Some s) (Some (ss_start s))"
| call: "ss_may_call disc c s \<Longrightarrow> https_step disc need_eof set_host (Some s) (run_https_call need_eof set_host c s)"
| handle: "k < length (ss_ops s) \<Longrightarrow> ss_ops s ! k = (op, b) \<Longrightarrow> (b \<longrightarrow> ec \<noteq> None) \<Longrightarrow>
    https_step disc need_eof set_host (Some s) (ss_handle_op disc need_eof set_host op peer ec msg cs (ss_drop_op k s))"

end
