(* ===== verification/Https_Behaviour.thy ===== *)
theory Https_Behaviour
  imports Https_Session String_Convert
begin

text \<open>
  What HttpsSession does: a client that connects asynchronously never gets to its handshake; the
  session of a server is, once the handshake is done, an HttpSession, whose invariant it inherits
  through as_http; the synchronous write with its repetitions; the targets.
\<close>

section \<open>The asynchronous client\<close>

definition connecting :: "('r, 'w) https_session \<Rightarrow> https_op list" where
  "connecting s = filter (\<lambda>op. op = SResolve \<or> op = SConnect) (map fst (ss_ops s))"

definition client_stuck :: "('r, 'w) https_session \<Rightarrow> bool" where
  "client_stuck s \<longleftrightarrow> \<not> ss_is_request s \<and> \<not> bstart (ss_switch s) \<and> \<not> bstop (ss_switch s) \<and>
     SHandshake \<notin> fst ` set (ss_ops s) \<and> length (connecting s) \<le> 1 \<and>
     (connecting s \<noteq> [] \<longrightarrow> binit (ss_switch s)) \<and> SOpened \<notin> set (ss_events s)"

text \<open>A client whose connection is up: it waits for a handshake nobody starts.\<close>

definition client_connected :: "('r, 'w) https_session \<Rightarrow> bool" where
  "client_connected s \<longleftrightarrow> has_init (ss_switch s) \<and> ss_open s \<and> connecting s = []"

lemma connecting_simps [simp]:
  "connecting (s\<lparr>ss_switch := w\<rparr>) = connecting s" "connecting (s\<lparr>ss_events := es\<rparr>) = connecting s"
  "connecting (s\<lparr>ss_send_msg := m\<rparr>) = connecting s" "connecting (s\<lparr>ss_open := o1\<rparr>) = connecting s"
  "connecting (s\<lparr>ss_ip := i, ss_port := p\<rparr>) = connecting s"
  "connecting (ss_close ec cb s) = connecting s"
  "connecting (ss_add_op op s) = connecting s @ (if op = SResolve \<or> op = SConnect then [op] else [])"
  by (simp_all add: connecting_def ss_add_op_def ss_close_def Let_def comp_def case_prod_beta)

lemma ss_close_fields [simp]:
  "ss_is_request (ss_close ec cb s) = ss_is_request s" "ss_switch (ss_close ec cb s) = as_reset (ss_switch s)"
  "fst ` set (ss_ops (ss_close ec cb s)) = fst ` set (ss_ops s)"
  "SOpened \<in> set (ss_events (ss_close ec cb s)) \<longleftrightarrow> SOpened \<in> set (ss_events s)"
  by (simp_all add: ss_close_def Let_def image_image case_prod_beta)

lemma ss_add_op_fields [simp]:
  "ss_is_request (ss_add_op op s) = ss_is_request s" "ss_switch (ss_add_op op s) = ss_switch s"
  "ss_open (ss_add_op op s) = ss_open s" "ss_events (ss_add_op op s) = ss_events s"
  "fst ` set (ss_ops (ss_add_op op s)) = insert op (fst ` set (ss_ops s))"
  by (simp_all add: ss_add_op_def)

lemma stuck_connect: "client_stuck s \<Longrightarrow> client_stuck (ss_async_connect sni host port s)"
  by (cases sni) (auto simp: client_stuck_def ss_async_connect_def switch_defs Let_def split: if_splits)

lemma stuck_shutdown: "client_stuck s \<Longrightarrow> ss_shutdown ec s = s"
  by (cases "ss_switch s") (auto simp: client_stuck_def ss_shutdown_def switch_defs)

lemma stuck_not_started: "client_stuck s \<Longrightarrow> \<not> has_started (ss_switch s)"
  by (simp add: client_stuck_def switch_defs)

text \<open>What calls, callbacks and the ends of reads and writes keep of a stuck session.\<close>

definition same_client :: "('r, 'w) https_session \<Rightarrow> ('r, 'w) https_session \<Rightarrow> bool" where
  "same_client s s' \<longleftrightarrow> ss_is_request s' = ss_is_request s \<and> ss_switch s' = ss_switch s \<and> ss_open s' = ss_open s \<and>
     connecting s' = connecting s \<and> (SHandshake \<in> fst ` set (ss_ops s') \<longleftrightarrow> SHandshake \<in> fst ` set (ss_ops s)) \<and>
     (SOpened \<in> set (ss_events s') \<longleftrightarrow> SOpened \<in> set (ss_events s))"

lemma same_client_trans: "same_client s s1 \<Longrightarrow> same_client s1 s2 \<Longrightarrow> same_client s s2"
  by (simp add: same_client_def)

lemma same_client_upd:
  "same_client s (s\<lparr>ss_events := ss_events s @ [SGot r]\<rparr>)" "same_client s (s\<lparr>ss_events := ss_events s @ [SSent w]\<rparr>)"
  "same_client s (ss_add_op (SRead c) s)" "same_client s (ss_add_op (SWrite c) (s\<lparr>ss_send_msg := m\<rparr>))"
  by (simp_all add: same_client_def)

lemma same_stuck: "same_client s s' \<Longrightarrow> client_stuck s \<Longrightarrow> client_stuck s'"
  by (simp add: same_client_def client_stuck_def)

lemma same_connected: "same_client s s' \<Longrightarrow> client_connected s \<Longrightarrow> client_connected s'"
  by (simp add: same_client_def client_connected_def)

lemma same_client_call:
  assumes "client_stuck s" "run_https_call need_eof set_host c s = Some s'"
  shows "same_client s s'"
proof (cases c)
  case (HSend m)
  then show ?thesis using assms(2) by (auto simp: run_https_call_def ss_async_write_def Let_def same_client_upd split: if_splits)
next
  case HShutdown
  then show ?thesis using assms stuck_shutdown [OF assms(1)] by (simp add: run_https_call_def same_client_def)
qed

lemma same_client_cbk:
  assumes "client_stuck s" "https_cbk disc need_eof set_host k cs s = Some s'"
  shows "same_client s s'"
  using assms
proof (induction cs arbitrary: s)
  case (Cons c cs)
  show ?case
  proof (cases "ss_may_call disc c s \<and> (disc \<and> c \<noteq> HShutdown \<longrightarrow> ss_may_send_in k s)")
    case True
    then obtain s1 where 1: "run_https_call need_eof set_host c s = Some s1" and 2: "https_cbk disc need_eof set_host k cs s1 = Some s'"
      using Cons.prems(2) by (auto split: bind_splits)
    have "same_client s s1" by (rule same_client_call [OF Cons.prems(1) 1])
    then show ?thesis using Cons.IH [OF _ 2] same_stuck Cons.prems(1) same_client_trans by blast
  next
    case False
    then show ?thesis using Cons.IH [OF Cons.prems(1)] Cons.prems(2) unfolding https_cbk.simps if_not_P [OF False] by blast
  qed
qed (simp add: same_client_def)

lemma same_client_handle:
  assumes s: "client_stuck s" and op: "op = SRead c \<or> op = SWrite c"
    and h: "ss_handle_op disc need_eof set_host op peer ec msg cs s = Some s'"
  shows "same_client s s'"
proof (cases ec)
  case (Some e)
  then show ?thesis using op h stuck_shutdown [OF s]
    by (auto simp: ss_handle_op_def ss_handle_read_def ss_handle_write_def same_client_def)
next
  case None
  show ?thesis using op
  proof
    assume o: "op = SRead c"
    let ?t = "s\<lparr>ss_events := ss_events s @ [SGot msg]\<rparr>"
    obtain s1 where 1: "https_cbk disc need_eof set_host OnRead cs ?t = Some s1" and 2: "s' = (if c then ss_shutdown [] s1 else s1)"
      using h o None by (auto simp: ss_handle_op_def ss_handle_read_def split: bind_splits)
    have t: "same_client s ?t" by (rule same_client_upd)
    have 3: "same_client ?t s1" by (rule same_client_cbk [OF same_stuck [OF t s] 1])
    then have "s' = s1" using 2 stuck_shutdown [OF same_stuck [OF 3 same_stuck [OF t s]]] by simp
    then show ?thesis using same_client_trans [OF t 3] by simp
  next
    assume o: "op = SWrite c"
    obtain m where m: "ss_send_msg s = Some m" using h o None by (auto simp: ss_handle_op_def ss_handle_write_def split: bind_splits)
    let ?t = "s\<lparr>ss_events := ss_events s @ [SSent m]\<rparr>"
    obtain s1 where 1: "https_cbk disc need_eof set_host OnWrite cs ?t = Some s1"
      and 2: "(if \<not> ss_is_request s1 \<or> \<not> c then ss_read c s1 else Some (ss_shutdown [] s1)) = Some s'"
      using h o None m by (auto simp: ss_handle_op_def ss_handle_write_def split: bind_splits)
    have t: "same_client s ?t" by (rule same_client_upd)
    have 3: "same_client ?t s1" by (rule same_client_cbk [OF same_stuck [OF t s] 1])
    have "\<not> ss_is_request s1" using same_stuck [OF 3 same_stuck [OF t s]] by (simp add: client_stuck_def)
    then have "s' = ss_add_op (SRead c) s1" using 2 by (simp add: ss_read_def split: if_splits)
    then show ?thesis using same_client_trans [OF same_client_trans [OF t 3] same_client_upd(3)] by simp
  qed
qed

lemma drop_split:
  assumes "k < length (ss_ops s)" "ss_ops s ! k = (op, b)"
  obtains xs ys where "ss_ops s = xs @ (op, b) # ys" "ss_drop_op k s = s\<lparr>ss_ops := xs @ ys\<rparr>"
proof
  show "ss_ops s = take k (ss_ops s) @ (op, b) # drop (Suc k) (ss_ops s)"
    using id_take_nth_drop [OF assms(1)] assms(2) by simp
qed (simp add: ss_drop_op_def)

lemma stuck_drop:
  assumes "client_stuck s" "k < length (ss_ops s)" "ss_ops s ! k = (op, b)"
  shows "client_stuck (ss_drop_op k s)" "ss_open (ss_drop_op k s) = ss_open s" "ss_switch (ss_drop_op k s) = ss_switch s"
    "op = SResolve \<or> op = SConnect \<Longrightarrow> connecting (ss_drop_op k s) = [] \<and> binit (ss_switch s)"
    "client_connected s \<Longrightarrow> client_connected (ss_drop_op k s) \<and> op \<noteq> SResolve \<and> op \<noteq> SConnect"
    "op \<noteq> SHandshake"
proof -
  obtain xs ys where x: "ss_ops s = xs @ (op, b) # ys" "ss_drop_op k s = s\<lparr>ss_ops := xs @ ys\<rparr>"
    by (rule drop_split [OF assms(2,3)])
  show "client_stuck (ss_drop_op k s)" using assms(1) by (auto simp: x(2) client_stuck_def x(1) connecting_def split: if_splits)
  show "ss_open (ss_drop_op k s) = ss_open s" "ss_switch (ss_drop_op k s) = ss_switch s" by (simp_all add: x(2))
  show "op = SResolve \<or> op = SConnect \<Longrightarrow> connecting (ss_drop_op k s) = [] \<and> binit (ss_switch s)"
    using assms(1) by (auto simp: x(2) client_stuck_def x(1) connecting_def filter_map)
  show "client_connected s \<Longrightarrow> client_connected (ss_drop_op k s) \<and> op \<noteq> SResolve \<and> op \<noteq> SConnect"
    by (auto simp: x(2) client_connected_def x(1) connecting_def split: if_splits)
  show "op \<noteq> SHandshake" using assms(1) by (auto simp: x(1) client_stuck_def)
qed

lemma stuck_connect_ends:
  assumes "client_stuck s" "connecting s = []" "binit (ss_switch s)"
  shows "client_stuck (ss_handle_resolve ec s)" "client_stuck (ss_handle_connect ec s)"
    "client_connected (ss_handle_connect None s)"
  using assms
  by (auto simp: client_stuck_def client_connected_def ss_handle_resolve_def ss_handle_connect_def ss_start_def switch_defs
      Let_def split: option.splits)

lemma stuck_handle:
  assumes "client_stuck s" "k < length (ss_ops s)" "ss_ops s ! k = (op, b)"
    and h: "ss_handle_op disc need_eof set_host op peer ec msg cs (ss_drop_op k s) = Some s'"
  shows "client_stuck s' \<and> (client_connected s \<longrightarrow> client_connected s')"
proof -
  note d = stuck_drop [OF assms(1-3)]
  show ?thesis
  proof (cases "op = SResolve \<or> op = SConnect")
    case True
    have s: "connecting (ss_drop_op k s) = []" "binit (ss_switch (ss_drop_op k s))" using d(4) [OF True] d(3) by simp_all
    then show ?thesis using True h d(5) stuck_connect_ends [OF d(1) s] by (auto simp: ss_handle_op_def)
  next
    case False
    then obtain c where "op = SRead c \<or> op = SWrite c" using d(6) by (cases op) auto
    from same_client_handle [OF d(1) this h] show ?thesis using same_stuck d(1) same_connected d(5) by blast
  qed
qed

lemma stuck_step:
  "https_step disc need_eof set_host z z' \<Longrightarrow> z = Some s \<Longrightarrow> client_stuck s \<Longrightarrow>
     (\<forall>s'. z' = Some s' \<longrightarrow> client_stuck s' \<and> (client_connected s \<longrightarrow> client_connected s'))"
proof (induction rule: https_step.induct)
  case (connect s1 sni host port)
  then show ?case using stuck_connect [of s sni host port]
    by (auto simp: client_connected_def ss_async_connect_def switch_defs)
next
  case (reconnect s1 sni)
  then show ?case using stuck_connect [of s sni "ss_ip s" "ss_port s"]
    by (auto simp: client_connected_def ss_async_reconnect_def ss_async_connect_def switch_defs)
next
  case (start s1)
  then show ?case by (simp add: client_stuck_def)
next
  case (call c s1)
  then show ?case using same_client_call [of s need_eof set_host c] same_stuck same_connected by blast
next
  case (handle k s1 op b ec peer msg cs)
  then show ?case using stuck_handle [of s k op b] by blast
qed

lemma none_step: "https_step disc need_eof set_host None z \<Longrightarrow> False"
  by (erule https_step.cases) simp_all

lemma stuck_steps:
  assumes "(https_step disc need_eof set_host)\<^sup>*\<^sup>* (Some s) z" "client_stuck s"
  shows "\<forall>s'. z = Some s' \<longrightarrow> client_stuck s' \<and> (client_connected s \<longrightarrow> client_connected s')"
  using assms(1)
proof (induction rule: rtranclp_induct)
  case base
  then show ?case using assms(2) by simp
next
  case (step y z)
  obtain t where t: "y = Some t" using none_step step(2) by (cases y) blast+
  show ?case using stuck_step [OF step(2) t] step.IH t by blast
qed

lemma new_client_stuck: "client_stuck (new_https_session False)"
  by (simp add: new_https_session_def client_stuck_def connecting_def switch_defs)

text \<open>A user that sends only on a session that runs sends nothing, and nothing is undefined.\<close>

lemma ops_kinds [simp]:
  "map fst (ss_ops (ss_add_op op s)) = map fst (ss_ops s) @ [op]"
  "map fst (ss_ops (ss_close ec cb s)) = map fst (ss_ops s)"
  by (simp_all add: ss_add_op_def ss_close_def Let_def comp_def case_prod_beta)

lemma quiet_connect:
  assumes "map fst (ss_ops s) = connecting s"
  shows "map fst (ss_ops (ss_async_connect sni host port s)) = connecting (ss_async_connect sni host port s)"
  using assms by (simp add: ss_async_connect_def Let_def split_beta split: option.splits)

lemma quiet_client_step:
  "https_step True need_eof set_host z z' \<Longrightarrow> z = Some s \<Longrightarrow> client_stuck s \<Longrightarrow> map fst (ss_ops s) = connecting s \<Longrightarrow>
     \<exists>s'. z' = Some s' \<and> map fst (ss_ops s') = connecting s'"
proof (induction rule: https_step.induct)
  case (connect s1 sni host port)
  then show ?case by (simp add: quiet_connect)
next
  case (reconnect s1 sni)
  then show ?case by (simp add: ss_async_reconnect_def quiet_connect)
next
  case (start s1)
  then show ?case by (simp add: client_stuck_def)
next
  case (call c s1)
  then show ?case using stuck_not_started [of s] stuck_shutdown [of s]
    by (cases c) (auto simp: ss_may_call_def run_https_call_def)
next
  case (handle k s1 op b ec peer msg cs)
  then have k: "k < length (ss_ops s)" "ss_ops s ! k = (op, b)" by simp_all
  then have "op \<in> set (connecting s)" using handle(6) by (metis fst_conv image_eqI nth_mem set_map)
  then have op: "op = SResolve \<or> op = SConnect" by (auto simp: connecting_def)
  obtain xs ys where x: "ss_ops s = xs @ (op, b) # ys" "ss_drop_op k s = s\<lparr>ss_ops := xs @ ys\<rparr>"
    by (rule drop_split [OF k])
  have "set (map fst (ss_ops s)) = set (connecting s)" using handle(6) by simp
  then have "\<forall>q \<in> fst ` set (ss_ops s). q = SResolve \<or> q = SConnect" by (auto simp: connecting_def)
  then have "connecting (ss_drop_op k s) = map fst (xs @ ys)" unfolding x(2) by (auto simp: connecting_def x(1) filter_id_conv)
  then have "xs @ ys = []" using stuck_drop(4) [OF handle(5) k op] by simp
  then have e: "ss_ops (ss_drop_op k s) = []" by (simp add: x(2))
  have i: "binit (ss_switch (ss_drop_op k s))"
    using stuck_drop(3,4) [OF handle(5) k] op by simp
  show ?case using op e i handle(4)
    by (cases ec) (auto simp: ss_handle_op_def ss_handle_resolve_def ss_handle_connect_def ss_start_def connecting_def
        ss_add_op_def ss_close_def Let_def switch_defs)
qed

lemma quiet_client:
  assumes "(https_step True need_eof set_host)\<^sup>*\<^sup>* (Some (new_https_session False)) z"
  shows "\<exists>s. z = Some s \<and> client_stuck s \<and> map fst (ss_ops s) = connecting s"
  using assms
proof (induction rule: rtranclp_induct)
  case base
  show ?case using new_client_stuck by (simp add: new_https_session_def connecting_def)
next
  case (step y z)
  then obtain s where s: "y = Some s" "client_stuck s" "map fst (ss_ops s) = connecting s" by blast
  show ?case using quiet_client_step [OF step(2) s] stuck_step [OF step(2) s(1,2)] by blast
qed

text \<open>C34: A client of https that connects asynchronously never opens. handle_connect calls start, which returns because
  async_connect has set the flag of the initialisation already, so no handshake is ever started: in
  every reachable state, whatever the client's user sends, the open callback has not been called and the session is
  not open, shutdown has no effect and the synchronous write refuses. Once it connects, connect, reconnect and
  start have no effect, and connect returns true. When the connection is up the session stays so for ever.
  Only async_write, which tests nothing, still acts: it returns true, replaces the message and begins a write on a stream
  without a handshake, which is undefined while another write runs. A user that sends only on a
  session that runs meets nothing undefined.\<close>

theorem https_async_never_opens:
  assumes "(https_step disc need_eof set_host)\<^sup>*\<^sup>* (Some (new_https_session False)) z"
  shows "(disc \<longrightarrow> z \<noteq> None) \<and> (\<forall>s. z = Some s \<longrightarrow>
    SOpened \<notin> set (ss_events s) \<and> \<not> has_started (ss_switch s) \<and> SHandshake \<notin> fst ` set (ss_ops s) \<and>
    (\<forall>ec. ss_shutdown ec s = s) \<and> ss_sync_write prepare at n m s = Returned (Inl ''unready finish'') s \<and>
    (has_init (ss_switch s) \<longrightarrow> (\<forall>sni. ss_async_connect sni host port s = s \<and> ss_async_reconnect sni s = s) \<and>
       ss_start s = s \<and> (\<forall>r. ss_connect host port r s = Returned True s)) \<and>
    (\<forall>k b. k < length (ss_ops s) \<and> ss_ops s ! k = (SConnect, b) \<longrightarrow>
       (\<exists>s'. ss_handle_op disc need_eof set_host SConnect peer None msg cs (ss_drop_op k s) = Some s' \<and> client_connected s')) \<and>
    (client_connected s \<longrightarrow>
       (\<forall>s'. (https_step disc need_eof set_host)\<^sup>*\<^sup>* (Some s) (Some s') \<longrightarrow> client_connected s' \<and> SOpened \<notin> set (ss_events s'))) \<and>
    ss_async_write need_eof set_host w s =
      (if \<exists>c. SWrite c \<in> set (ss_live s) then None
       else Some (True, s\<lparr>ss_send_msg := Some (set_host (ss_ip s) w),
              ss_ops := ss_ops s @ [(SWrite (need_eof (set_host (ss_ip s) w)), \<not> ss_open s)]\<rparr>)))"
proof (intro conjI impI allI)
  assume disc
  then show "z \<noteq> None" using quiet_client [of need_eof set_host z] assms by auto
next
  fix s assume z: "z = Some s"
  then have s: "client_stuck s" using stuck_steps [OF assms new_client_stuck] by blast
  show "SOpened \<notin> set (ss_events s)" "SHandshake \<notin> fst ` set (ss_ops s)" using s by (simp_all add: client_stuck_def)
  show "\<not> has_started (ss_switch s)" by (rule stuck_not_started [OF s])
  then show "ss_sync_write prepare at n m s = Returned (Inl ''unready finish'') s" by (simp add: ss_sync_write.simps)
  show "ss_shutdown ec s = s" for ec by (rule stuck_shutdown [OF s])
  show "ss_async_connect sni host port s = s" "ss_async_reconnect sni s = s" "ss_start s = s"
    "ss_connect host port r s = Returned True s" if "has_init (ss_switch s)" for sni r
    using that by (simp_all add: ss_async_connect_def ss_async_reconnect_def ss_start_def ss_connect_def switch_defs)
  show "\<exists>s'. ss_handle_op disc need_eof set_host SConnect peer None msg cs (ss_drop_op k s) = Some s' \<and> client_connected s'"
    if "k < length (ss_ops s) \<and> ss_ops s ! k = (SConnect, b)" for k b
  proof -
    note d = stuck_drop [OF s that [THEN conjunct1] that [THEN conjunct2]]
    show ?thesis using stuck_connect_ends(3) [OF d(1)] d(3,4) by (simp add: ss_handle_op_def)
  qed
  show "client_connected s'" "SOpened \<notin> set (ss_events s')"
    if "client_connected s" "(https_step disc need_eof set_host)\<^sup>*\<^sup>* (Some s) (Some s')" for s'
    using stuck_steps [OF that(2) s] that(1) by (simp_all add: client_stuck_def)
  show "ss_async_write need_eof set_host w s =
      (if \<exists>c. SWrite c \<in> set (ss_live s) then None
       else Some (True, s\<lparr>ss_send_msg := Some (set_host (ss_ip s) w),
              ss_ops := ss_ops s @ [(SWrite (need_eof (set_host (ss_ip s) w)), \<not> ss_open s)]\<rparr>))"
  proof -
    have "(case op of SWrite _ \<Rightarrow> True | _ \<Rightarrow> False) \<longleftrightarrow> (\<exists>c. op = SWrite c)" for op by (cases op) simp_all
    then show ?thesis by (auto simp: ss_async_write_def Let_def ss_add_op_def on_stream_def)
  qed
qed

theorem https_async_never_opens_witness:
  "let s = (new_https_session False :: (nat, nat) https_session)\<lparr>ss_switch := \<lparr>binit = True, bstart = False, bstop = False\<rparr>,
     ss_ip := ''h'', ss_port := 443, ss_ops := [(SResolve, False)]\<rparr>
   in SOpened \<notin> set (ss_events s) \<and> \<not> has_started (ss_switch s) \<and> ss_async_reconnect None s = s"
proof -
  let ?s = "(new_https_session False :: (nat, nat) https_session)\<lparr>ss_switch := \<lparr>binit = True, bstart = False, bstop = False\<rparr>,
     ss_ip := ''h'', ss_port := 443, ss_ops := [(SResolve, False)]\<rparr>"
  have "ss_async_connect None ''h'' 443 (new_https_session False) = ?s"
    by (simp add: new_https_session_def ss_async_connect_def ss_add_op_def on_stream_def switch_defs)
  then have "https_step True (\<lambda>_. True) (\<lambda>_ m. m) (Some (new_https_session False)) (Some ?s)"
    by (metis https_step.connect new_https_session_def https_session.select_convs(1))
  then have "(https_step True (\<lambda>_. True) (\<lambda>_ m. m))\<^sup>*\<^sup>* (Some (new_https_session False)) (Some ?s)" by (rule r_into_rtranclp)
  from https_async_never_opens [OF this] show ?thesis by (simp add: Let_def switch_defs)
qed

section \<open>The session of a server\<close>

definition as_http_op :: "https_op \<Rightarrow> http_op" where
  "as_http_op op = (case op of SRead c \<Rightarrow> HRead c | SWrite c \<Rightarrow> HWrite c | SResolve \<Rightarrow> HResolve | SConnect \<Rightarrow> HConnect
     | SHandshake \<Rightarrow> HConnect)"

definition as_http_event :: "('r, 'w) https_event \<Rightarrow> ('r, 'w) http_event" where
  "as_http_event e = (case e of SOpened \<Rightarrow> HOpened | SClosed t \<Rightarrow> HClosed | SGot r \<Rightarrow> HGot r | SSent w \<Rightarrow> HSent w)"

definition as_http :: "('r, 'w) https_session \<Rightarrow> ('r, 'w) http_session" where
  "as_http s = \<lparr>hs_is_request = ss_is_request s, hs_open = ss_open s,
     hs_ops = [(as_http_op op, b). (op, b) \<leftarrow> ss_ops s, op \<noteq> SHandshake],
     hs_started = has_started (ss_switch s), hs_stop = (\<not> has_started (ss_switch s)), hs_ip = ss_ip s,
     hs_send_msg = ss_send_msg s, hs_events = map as_http_event (ss_events s)\<rparr>"

lemma as_http_fields [simp]:
  "hs_is_request (as_http s) = ss_is_request s" "hs_open (as_http s) = ss_open s"
  "hs_started (as_http s) = has_started (ss_switch s)" "hs_stop (as_http s) = (\<not> has_started (ss_switch s))"
  "hs_send_msg (as_http s) = ss_send_msg s" "hs_events (as_http s) = map as_http_event (ss_events s)"
  "hs_ip (as_http s) = ss_ip s"
  by (simp_all add: as_http_def)

lemma as_http_event_simps [simp]:
  "as_http_event SOpened = HOpened" "as_http_event (SClosed t) = HClosed" "as_http_event (SGot r) = HGot r"
  "as_http_event (SSent w) = HSent w"
  by (simp_all add: as_http_event_def)

definition no_handshake :: "('r, 'w) https_session \<Rightarrow> bool" where
  "no_handshake s \<longleftrightarrow> SHandshake \<notin> fst ` set (ss_ops s)"

lemma ops_no_handshake:
  assumes "no_handshake s"
  shows "hs_ops (as_http s) = map (\<lambda>(op, b). (as_http_op op, b)) (ss_ops s)"
proof -
  have "concat (map (\<lambda>(op, b). if op \<noteq> SHandshake then [(as_http_op op, b)] else []) xs) =
      map (\<lambda>(op, b). (as_http_op op, b)) xs" if "SHandshake \<notin> fst ` set xs" for xs
    using that by (induction xs) auto
  then show ?thesis using assms by (simp add: as_http_def no_handshake_def)
qed

lemma live_no_handshake:
  assumes "no_handshake s"
  shows "hs_live (as_http s) = map as_http_op (ss_live s)"
proof -
  have "[op. (op, b) \<leftarrow> map (\<lambda>(op, b). (as_http_op op, b)) xs, \<not> b] = map as_http_op [op. (op, b) \<leftarrow> xs, \<not> b]" for xs
    by (induction xs) auto
  then show ?thesis unfolding hs_live_def ss_live_def ops_no_handshake [OF assms] .
qed

text \<open>Without a handshake the session is an HttpSession, function by function.\<close>

definition plain :: "('r, 'w) https_session \<Rightarrow> bool" where
  "plain s \<longleftrightarrow> ss_is_request s \<and> no_handshake s \<and> (\<forall>(op, b) \<in> set (ss_ops s). on_stream op) \<and> \<not> bstop (ss_switch s) \<and>
     binit (ss_switch s) = bstart (ss_switch s)"

lemma plain_no_handshake: "plain s \<Longrightarrow> no_handshake s"
  by (simp add: plain_def)

lemma as_http_eqI:
  assumes "no_handshake s" "hs_is_request h = ss_is_request s" "hs_open h = ss_open s"
    "hs_ops h = map (\<lambda>(op, b). (as_http_op op, b)) (ss_ops s)" "hs_started h = has_started (ss_switch s)"
    "hs_stop h = (\<not> has_started (ss_switch s))" "hs_ip h = ss_ip s" "hs_send_msg h = ss_send_msg s"
    "hs_events h = map as_http_event (ss_events s)"
  shows "as_http s = h"
  using assms(2-9) unfolding ops_no_handshake [OF assms(1), symmetric]
  by (intro http_session.equality) (simp_all add: as_http_def)

lemma as_reset_new: "as_reset w = new_switch"
  by (cases w) (simp add: switch_defs)

lemma as_shutdown:
  assumes "plain s"
  shows "as_http (ss_shutdown ec s) = hs_shutdown (as_http s) \<and> plain (ss_shutdown ec s)"
proof (cases "has_started (ss_switch s)")
  case True
  let ?t = "ss_shutdown ec s"
  let ?s = "s\<lparr>ss_switch := snd (as_stop (ss_switch s))\<rparr>"
  have "fst (as_stop (ss_switch s))" using True by (simp add: switch_defs)
  then have e: "?t = ss_close ec True ?s" by (simp add: ss_shutdown_def split_beta Let_def)
  have "map (\<lambda>(op, b). (op, b \<or> on_stream op \<or> x \<and> op \<noteq> SResolve)) (ss_ops s) = map (\<lambda>(op, b). (op, True)) (ss_ops s)" for x
    by (rule map_cong [OF HOL.refl]) (use assms in \<open>auto simp: plain_def\<close>)
  then have t: "ss_is_request ?t = ss_is_request s" "ss_open ?t = False" "ss_ops ?t = map (\<lambda>(op, b). (op, True)) (ss_ops s)"
    "ss_switch ?t = new_switch" "ss_ip ?t = ss_ip s" "ss_send_msg ?t = ss_send_msg s"
    "ss_events ?t = ss_events s @ [SClosed ec]"
    by (simp_all add: e ss_close_def as_reset_new)
  have p: "plain ?t" using assms by (force simp: plain_def no_handshake_def t new_switch_def)
  moreover have "as_http ?t = hs_shutdown (as_http s)"
    by (rule as_http_eqI [OF plain_no_handshake [OF p]])
       (use True in \<open>auto simp: t hs_shutdown_def hs_close_def ops_no_handshake [OF plain_no_handshake [OF assms]] switch_defs\<close>)
  ultimately show ?thesis by simp
next
  case False
  then have "ss_shutdown ec s = s"
    using assms by (cases "ss_switch s") (auto simp: ss_shutdown_def switch_defs plain_def)
  then show ?thesis using assms False by (simp add: hs_shutdown_def)
qed

lemma as_add:
  assumes "plain s" "op = SRead c \<or> op = SWrite c"
  shows "as_http (ss_add_op op s) = hs_add_op (as_http_op op) (as_http s) \<and> plain (ss_add_op op s)"
proof -
  have p: "plain (ss_add_op op s)" using assms by (auto simp: plain_def ss_add_op_def no_handshake_def on_stream_def)
  moreover have "as_http (ss_add_op op s) = hs_add_op (as_http_op op) (as_http s)"
    by (rule as_http_eqI [OF plain_no_handshake [OF p]])
       (use assms in \<open>auto simp: hs_add_op_def ss_add_op_def ops_no_handshake [OF plain_no_handshake] on_stream_def as_http_op_def\<close>)
  ultimately show ?thesis by simp
qed

lemma as_http_upd:
  "as_http (s\<lparr>ss_events := ss_events s @ [e]\<rparr>) = (as_http s)\<lparr>hs_events := hs_events (as_http s) @ [as_http_event e]\<rparr>"
  "as_http (s\<lparr>ss_send_msg := m\<rparr>) = (as_http s)\<lparr>hs_send_msg := m\<rparr>"
  "plain (s\<lparr>ss_events := es\<rparr>) = plain s" "plain (s\<lparr>ss_send_msg := m\<rparr>) = plain s"
  "ss_live (s\<lparr>ss_events := es\<rparr>) = ss_live s" "ss_live (s\<lparr>ss_send_msg := m\<rparr>) = ss_live s"
  by (simp_all add: as_http_def plain_def no_handshake_def ss_live_def)

lemma live_reads:
  assumes "plain s"
  shows "(\<exists>op \<in> set (hs_live (as_http s)). case op of HRead _ \<Rightarrow> True | _ \<Rightarrow> False) =
      (\<exists>op \<in> set (ss_live s). case op of SRead _ \<Rightarrow> True | _ \<Rightarrow> False)"
    "(\<exists>op \<in> set (hs_live (as_http s)). case op of HWrite _ \<Rightarrow> True | _ \<Rightarrow> False) =
      (\<exists>op \<in> set (ss_live s). case op of SWrite _ \<Rightarrow> True | _ \<Rightarrow> False)"
  unfolding live_no_handshake [OF plain_no_handshake [OF assms]]
  by (auto simp: as_http_op_def split: https_op.splits)

text \<open>The functions on both sides give results that correspond, or none on both.\<close>

definition corresponds :: "('r, 'w) https_session option \<Rightarrow> ('r, 'w) http_session option \<Rightarrow> bool" where
  "corresponds x y \<longleftrightarrow> (case x of None \<Rightarrow> y = None | Some s \<Rightarrow> plain s \<and> y = Some (as_http s))"

lemma corr_read: "plain s \<Longrightarrow> corresponds (ss_read c s) (hs_read c (as_http s))"
  using as_add [of s "SRead c" c] live_reads(1) [of s]
  by (auto simp: corresponds_def ss_read_def hs_read_def as_http_op_def)

lemma corr_shutdown: "plain s \<Longrightarrow> corresponds (Some (ss_shutdown ec s)) (Some (hs_shutdown (as_http s)))"
  using as_shutdown [of s ec] by (simp add: corresponds_def)

lemma corr_call:
  assumes "plain s"
  shows "corresponds (run_https_call need_eof set_host c s) (run_http_call need_eof set_host c (as_http s))"
proof (cases c)
  case HShutdown
  then show ?thesis using corr_shutdown [OF assms] by (simp add: run_https_call_def run_http_call_def)
next
  case (HSend m)
  let ?m = "set_host (ss_ip s) m"
  have "plain (s\<lparr>ss_send_msg := Some ?m\<rparr>)" using assms by (simp add: as_http_upd)
  from as_add [OF this, of "SWrite (need_eof ?m)" "need_eof ?m"] show ?thesis
    using HSend live_reads(2) [OF assms]
    by (simp add: run_https_call_def run_http_call_def ss_async_write_def hs_async_write_def corresponds_def Let_def
        as_http_op_def as_http_upd)
qed

lemma corr_may:
  assumes "plain s"
  shows "ss_may_call True c s = may_call c (as_http s)" "ss_may_send_in k s = may_send_in k (as_http s)"
  by (simp add: ss_may_call_def may_call_def live_no_handshake [OF plain_no_handshake [OF assms]] split: http_call.splits)
     (cases k; simp)

lemma corr_cbk:
  "plain s \<Longrightarrow> corresponds (https_cbk True need_eof set_host k cs s) (http_cbk need_eof set_host k cs (as_http s))"
proof (induction cs arbitrary: s)
  case (Cons c cs)
  note m = corr_may [OF Cons.prems]
  show ?case
  proof (cases "may_call c (as_http s) \<and> (c \<noteq> HShutdown \<longrightarrow> may_send_in k (as_http s))")
    case True
    have x: "https_cbk True need_eof set_host k (c # cs) s =
        Option.bind (run_https_call need_eof set_host c s) (https_cbk True need_eof set_host k cs)"
      using True by (simp add: m)
    have y: "http_cbk need_eof set_host k (c # cs) (as_http s) =
        Option.bind (run_http_call need_eof set_host c (as_http s)) (http_cbk need_eof set_host k cs)"
      using True by simp
    have "corresponds (run_https_call need_eof set_host c s) (run_http_call need_eof set_host c (as_http s))"
      by (rule corr_call [OF Cons.prems])
    then show ?thesis unfolding x y using Cons.IH
      by (cases "run_https_call need_eof set_host c s") (auto simp: corresponds_def)
  next
    case False
    have x: "https_cbk True need_eof set_host k (c # cs) s = https_cbk True need_eof set_host k cs s"
      using False unfolding https_cbk.simps m by (simp only: if_False simp_thms)
    have y: "http_cbk need_eof set_host k (c # cs) (as_http s) = http_cbk need_eof set_host k cs (as_http s)"
      using False by (simp only: http_cbk.simps if_False)
    show ?thesis unfolding x y by (rule Cons.IH [OF Cons.prems])
  qed
qed (simp add: corresponds_def)

lemma corr_handle:
  assumes p: "plain s" and op: "op = SRead c \<or> op = SWrite c"
  shows "corresponds (ss_handle_op True need_eof set_host op peer ec msg cs s)
    (hs_handle_op need_eof set_host (as_http_op op) (ec \<noteq> None) msg cs (as_http s))"
proof (cases ec)
  case (Some e)
  then show ?thesis using op corr_shutdown [OF p]
    by (auto simp: ss_handle_op_def hs_handle_op_def as_http_op_def ss_handle_read_def hs_handle_read_def
        ss_handle_write_def hs_handle_write_def)
next
  case None
  show ?thesis using op
  proof
    assume o: "op = SRead c"
    let ?s = "s\<lparr>ss_events := ss_events s @ [SGot msg]\<rparr>"
    have "corresponds (https_cbk True need_eof set_host OnRead cs ?s) (http_cbk need_eof set_host OnRead cs (as_http ?s))"
      by (rule corr_cbk) (use p in \<open>simp add: as_http_upd\<close>)
    then show ?thesis using o None corr_shutdown
      by (auto simp: ss_handle_op_def hs_handle_op_def as_http_op_def ss_handle_read_def hs_handle_read_def
          corresponds_def as_http_upd split: option.splits bind_splits)
  next
    assume o: "op = SWrite c"
    show ?thesis
    proof (cases "ss_send_msg s")
      case (Some a)
      let ?t = "s\<lparr>ss_events := ss_events s @ [SSent a]\<rparr>"
      have "plain ?t" using p by (simp add: as_http_upd)
      then have k: "corresponds (https_cbk True need_eof set_host OnWrite cs ?t) (http_cbk need_eof set_host OnWrite cs (as_http ?t))"
        by (rule corr_cbk)
      have x: "ss_handle_op True need_eof set_host op peer ec msg cs s = do {
          s1 \<leftarrow> https_cbk True need_eof set_host OnWrite cs ?t;
          if \<not> ss_is_request s1 \<or> \<not> c then ss_read c s1 else Some (ss_shutdown [] s1) }"
        using o None Some by (simp add: ss_handle_op_def ss_handle_write_def)
      have y: "hs_handle_op need_eof set_host (as_http_op op) (ec \<noteq> None) msg cs (as_http s) = do {
          s1 \<leftarrow> http_cbk need_eof set_host OnWrite cs (as_http ?t);
          if \<not> hs_is_request s1 \<or> \<not> c then hs_read c s1 else Some (hs_shutdown s1) }"
        using o None Some by (simp add: hs_handle_op_def as_http_op_def hs_handle_write_def as_http_upd)
      show ?thesis
      proof (cases "https_cbk True need_eof set_host OnWrite cs ?t")
        case c1: (Some s1)
        then have "plain s1" "http_cbk need_eof set_host OnWrite cs (as_http ?t) = Some (as_http s1)"
          using k by (simp_all add: corresponds_def)
        then show ?thesis using corr_read [of s1 c] corr_shutdown [of s1 "[]"] unfolding x y c1 by simp
      next
        case None
        then show ?thesis using k unfolding x y by (simp add: corresponds_def)
      qed
    qed (use o None in \<open>simp add: ss_handle_op_def hs_handle_op_def as_http_op_def ss_handle_write_def hs_handle_write_def
        corresponds_def\<close>)
  qed
qed

text \<open>
  Either the handshake is all that is outstanding, on an open connection, or it is not under way and
  the session is an HttpSession.
\<close>

definition server_inv :: "('r, 'w) https_session \<Rightarrow> bool" where
  "server_inv s \<longleftrightarrow> http_inv (as_http s) \<and>
     (plain s \<or> (ss_is_request s \<and> ss_ops s = [(SHandshake, False)] \<and> ss_open s \<and> ss_switch s = \<lparr>binit = True, bstart = False, bstop = False\<rparr>))"

lemma corresponds_inv: "corresponds x y \<Longrightarrow> \<exists>h. y = Some h \<and> http_inv h \<Longrightarrow> \<exists>s. x = Some s \<and> server_inv s"
  by (cases x) (auto simp: corresponds_def server_inv_def)

lemma handshake_next:
  assumes "ss_is_request s" "ss_open s" "ss_ops s = []" "ss_switch s = \<lparr>binit = True, bstart = False, bstop = False\<rparr>"
  shows "\<exists>s'. ss_handle_handshake peer ec (https_cbk True need_eof set_host OnOpen cs) s = Some s' \<and> server_inv s'"
proof (cases ec)
  case (Some e)
  then show ?thesis using assms
    by (auto simp: ss_handle_handshake_def ss_close_def Let_def server_inv_def http_inv_def plain_def no_handshake_def
        switch_defs as_http_def hs_live_def)
next
  case None
  let ?s = "s\<lparr>ss_switch := \<lparr>binit = True, bstart = True, bstop = False\<rparr>, ss_ip := (if ss_ip s = [] then fst peer else ss_ip s),
      ss_port := (if ss_port s = 0 then snd peer else ss_port s), ss_events := ss_events s @ [SOpened]\<rparr>"
  let ?cbk = "https_cbk True need_eof set_host OnOpen cs" and ?hcbk = "http_cbk need_eof set_host OnOpen cs"
  have h: "ss_handle_handshake peer ec ?cbk s = do { s1 \<leftarrow> ?cbk ?s; if ss_is_request s1 then ss_read False s1 else Some s1 }"
    using None assms(4) by (simp add: ss_handle_handshake_def switch_defs Let_def)
  have p: "plain ?s" using assms by (simp add: plain_def no_handshake_def)
  have l: "hs_live (as_http ?s) = []" "hs_ops (as_http ?s) = []" using assms(3) by (simp_all add: hs_live_def as_http_def)
  have "http_inv (hs_add_op (HRead False) (as_http ?s))"
    using assms by (auto simp: http_inv_def hs_live_def as_http_def has_started_def has_init_def)
  then have open1: "\<exists>h. hs_read False (as_http ?s) = Some h \<and> http_inv h" using l(1) by (simp add: hs_read_def)
  have closed: "\<exists>h. hs_read False (hs_shutdown (as_http ?s)) = Some h \<and> http_inv h"
    by (rule shutdown_read_inv) (use l(2) in \<open>simp_all add: switch_defs\<close>)
  have "?hcbk (as_http ?s) = Some (as_http ?s) \<or> ?hcbk (as_http ?s) = Some (hs_shutdown (as_http ?s))"
    by (rule quiet_cbk) (simp add: assms(1))
  then obtain s1 where s1: "?cbk ?s = Some s1" "plain s1" "as_http s1 = as_http ?s \<or> as_http s1 = hs_shutdown (as_http ?s)"
    using corr_cbk [OF p, of need_eof set_host OnOpen cs]
    by (cases "?cbk ?s") (auto simp: corresponds_def)
  have "\<exists>t. ss_read False s1 = Some t \<and> server_inv t"
    by (rule corresponds_inv [OF corr_read [OF s1(2)]]) (use s1(3) open1 closed in auto)
  moreover have "ss_is_request s1" using s1(2) by (simp add: plain_def)
  ultimately show ?thesis using s1(1) by (simp add: h)
qed

lemma as_drop:
  assumes "plain s"
  shows "as_http (ss_drop_op k s) = hs_drop_op k (as_http s) \<and> plain (ss_drop_op k s)"
proof -
  have "set (ss_ops (ss_drop_op k s)) \<subseteq> set (ss_ops s)"
    by (auto simp: ss_drop_op_def dest: in_set_takeD in_set_dropD)
  then have p: "plain (ss_drop_op k s)" using assms by (auto simp: plain_def no_handshake_def) (auto simp: ss_drop_op_def)
  moreover have "as_http (ss_drop_op k s) = hs_drop_op k (as_http s)"
    by (rule as_http_eqI [OF plain_no_handshake [OF p]])
       (simp_all add: hs_drop_op_def ss_drop_op_def ops_no_handshake [OF plain_no_handshake [OF assms]] take_map drop_map)
  ultimately show ?thesis by simp
qed

lemma server_step:
  "https_step True need_eof set_host z z' \<Longrightarrow> (\<exists>s. z = Some s \<and> server_inv s) \<Longrightarrow> \<exists>s. z' = Some s \<and> server_inv s"
proof (induction rule: https_step.induct)
  case (connect s sni host port)
  then show ?case by (auto simp: server_inv_def plain_def)
next
  case (reconnect s sni)
  then show ?case by (auto simp: server_inv_def plain_def)
next
  case (start s)
  then have i: "server_inv s" and p: "plain s" by (auto simp: server_inv_def)
  show ?case
  proof (cases "binit (ss_switch s)")
    case True
    then have "ss_start s = s" by (simp add: ss_start_def switch_defs)
    then show ?thesis using i by simp
  next
    case False
    let ?t = "s\<lparr>ss_switch := \<lparr>binit = True, bstart = False, bstop = False\<rparr>, ss_ops := [(SHandshake, False)]\<rparr>"
    have t: "ss_start s = ?t"
      using False p start(2,3) by (cases "ss_switch s") (simp add: ss_start_def switch_defs ss_add_op_def plain_def)
    have "as_http ?t = as_http s"
      using False start(2) by (simp add: as_http_def has_started_def has_init_def)
    then have "server_inv ?t" using i p start(3) by (simp add: server_inv_def plain_def)
    then show ?thesis unfolding t by blast
  qed
next
  case (call c s)
  then have i: "server_inv s" by simp
  show ?case
  proof (cases "plain s")
    case True
    have "may_call c (as_http s)" using call(1) by (simp add: corr_may [OF True])
    from hs_call_inv [OF _ this] corresponds_inv [OF corr_call [OF True]] i show ?thesis by (simp add: server_inv_def)
  next
    case False
    then have w: "ss_switch s = \<lparr>binit = True, bstart = False, bstop = False\<rparr>" using i by (simp add: server_inv_def)
    then have "run_https_call need_eof set_host c s = Some s"
      using call(1) by (cases c) (simp_all add: ss_may_call_def run_https_call_def ss_shutdown_def switch_defs)
    then show ?thesis using i by simp
  qed
next
  case (handle k s op b ec peer msg cs)
  then have i: "server_inv s" by simp
  show ?case
  proof (cases "plain s")
    case True
    have len: "k < length (hs_ops (as_http s))" "hs_ops (as_http s) ! k = (as_http_op op, b)"
      using handle(1,2) by (simp_all add: ops_no_handshake [OF plain_no_handshake [OF True]])
    have "(op, b) \<in> set (ss_ops s)" using handle(1,2) by (metis nth_mem)
    then obtain x where op: "op = SRead x \<or> op = SWrite x"
      using True by (cases op) (auto simp: plain_def no_handshake_def on_stream_def image_iff)
    have "http_inv (as_http s)" using i by (simp add: server_inv_def)
    from http_handle_inv [OF this len handle(3)] corresponds_inv [OF corr_handle [OF _ op]] as_drop [OF True, of k]
    show ?thesis by metis
  next
    case False
    then have s: "ss_is_request s" "ss_ops s = [(SHandshake, False)]" "ss_open s" "ss_switch s = \<lparr>binit = True, bstart = False, bstop = False\<rparr>"
      using i by (simp_all add: server_inv_def)
    then have "op = SHandshake" "ss_drop_op k s = s\<lparr>ss_ops := []\<rparr>" using handle(1,2) by (auto simp: ss_drop_op_def)
    then show ?thesis using handshake_next [of "s\<lparr>ss_ops := []\<rparr>"] s by (simp add: ss_handle_op_def)
  qed
qed

lemma server_reach:
  assumes "(https_step True need_eof set_host)\<^sup>*\<^sup>* (Some (new_https_session True)) z"
  shows "\<exists>s. z = Some s \<and> server_inv s"
  using assms
proof (induction rule: rtranclp_induct)
  case base
  show ?case
    by (simp add: new_https_session_def server_inv_def plain_def no_handshake_def switch_defs http_inv_def as_http_def hs_live_def)
qed (rule server_step)

text \<open>C33: Requests and answers alternate over SSL too. In every reachable state of a server's session whose user
  sends only when the session runs and nothing is outstanding, from the read callback or outside
  callbacks, but not from the open or the write callback, after which the session reads, and shuts it
  down whenever it likes, in these callbacks too, nothing is undefined and at most one
  operation is live; while the session runs, after a successful handshake, the messages received and sent since
  it was opened alternate, beginning with a received one, and a message is awaited exactly while a read is live.\<close>

theorem https_exchange:
  assumes "(https_step True need_eof set_host)\<^sup>*\<^sup>* (Some (new_https_session True)) z"
  shows "\<exists>s. z = Some s \<and> length (ss_live s) \<le> 1 \<and>
    (has_started (ss_switch s) \<longrightarrow> ss_open s \<and>
       (\<exists>b. expects_send False (since_open (map as_http_event (ss_events s))) = Some b \<and>
          (\<not> b \<longleftrightarrow> (\<exists>c. ss_live s = [SRead c]))))"
proof -
  obtain s where s: "z = Some s" "server_inv s" using server_reach [OF assms] by blast
  show ?thesis
  proof (cases "plain s")
    case True
    have live: "hs_live (as_http s) = map as_http_op (ss_live s)" by (rule live_no_handshake [OF plain_no_handshake [OF True]])
    have i: "http_inv (as_http s)" using s(2) by (simp add: server_inv_def)
    then have l: "length (ss_live s) \<le> 1" using live by (simp add: http_inv_def)
    have "(\<not> (\<forall>op \<in> set (hs_live (as_http s)). case op of HRead c \<Rightarrow> False | _ \<Rightarrow> True)) = (\<exists>c. ss_live s = [SRead c])"
      using l unfolding live by (cases "ss_live s") (auto simp: as_http_op_def split: https_op.splits)
    then show ?thesis using s(1) i l True by (simp add: http_inv_def plain_def)
  next
    case False
    then have "ss_ops s = [(SHandshake, False)]" "\<not> has_started (ss_switch s)"
      using s(2) by (simp_all add: server_inv_def has_started_def)
    then show ?thesis using s(1) by (simp add: ss_live_def)
  qed
qed

text \<open>A server whose handshake is done.\<close>

definition sample_https :: "(nat, nat) https_session" where
  "sample_https = (new_https_session True)\<lparr>ss_ops := [(SRead False, False)], ss_ip := ''p'', ss_port := 9,
     ss_switch := \<lparr>binit = True, bstart = True, bstop = False\<rparr>, ss_events := [SOpened]\<rparr>"

lemma sample_https_reach:
  "(https_step True (\<lambda>_. True) (\<lambda>_ m. m))\<^sup>*\<^sup>* (Some (new_https_session True)) (Some sample_https)"
proof -
  let ?step = "https_step True (\<lambda>_. True) (\<lambda>_ m. m) :: (nat, nat) https_session option \<Rightarrow> _"
  define s0 where "s0 = (new_https_session True :: (nat, nat) https_session)"
  define s1 where "s1 = s0\<lparr>ss_switch := \<lparr>binit = True, bstart = False, bstop = False\<rparr>, ss_ops := [(SHandshake, False)]\<rparr>"
  note defs = s0_def s1_def new_https_session_def ss_add_op_def ss_drop_op_def ss_live_def switch_defs
  have "ss_start s0 = s1" by (simp add: defs ss_start_def)
  then have "?step (Some s0) (Some s1)"
    using https_step.start [of s0 True "\<lambda>_. True" "\<lambda>_ m. m"] by (simp add: s0_def new_https_session_def)
  moreover have "?step (Some s1) (Some sample_https)"
    using https_step.handle [of 0 s1 SHandshake False None True "\<lambda>_. True" "\<lambda>_ m. m" "(''p'', 9)" 0 "[]"]
    by (simp add: defs ss_handle_op_def ss_handle_handshake_def ss_read_def sample_https_def)
  ultimately show ?thesis unfolding s0_def by (meson converse_rtranclp_into_rtranclp r_into_rtranclp)
qed

theorem https_exchange_witness:
  "\<exists>b. expects_send False (since_open (map as_http_event (ss_events sample_https))) = Some b \<and> \<not> b"
  using https_exchange [OF sample_https_reach]
  by (auto simp: sample_https_def new_https_session_def ss_live_def has_started_def has_init_def)

section \<open>The synchronous write\<close>

lemma started_switch: "has_started w \<Longrightarrow> w = \<lparr>binit = True, bstart = True, bstop = False\<rparr>"
  by (cases w) (simp add: switch_defs)

text \<open>A reconnect after the close of a failed attempt.\<close>

lemma reconnect_closed:
  assumes t: "t = ss_close ec False s"
  shows "case c of
      SniFails e \<Rightarrow> \<exists>s'. ss_reconnect c t = Returned False s' \<and> ss_wire s' = ss_wire s \<and> ss_posted s' = ss_posted s @ [PostClose e]
    | ConnectFails e \<Rightarrow> \<exists>s'. ss_reconnect c t = Returned False s' \<and> ss_wire s' = ss_wire s \<and> ss_posted s' = ss_posted s @ [PostClose e]
    | HandshakeFails e \<Rightarrow> \<exists>s'. ss_reconnect c t = Returned False s' \<and> ss_wire s' = ss_wire s \<and> ss_posted s' = ss_posted s @ [PostClose e]
    | ResolveThrows \<Rightarrow> \<exists>s'. ss_reconnect c t = Thrown s' \<and> ss_wire s' = ss_wire s \<and> ss_posted s' = ss_posted s \<and>
        \<not> ss_open s' \<and> (\<forall>r. ss_reconnect r s' = Returned True s')
    | Connects \<Rightarrow> \<exists>s'. ss_reconnect c t = Returned True s' \<and> ss_wire s' = ss_wire s \<and> ss_posted s' = ss_posted s @ [PostOpen] \<and>
        ss_ip s' = ss_ip s \<and> has_started (ss_switch s')"
  by (cases c) (auto simp: t ss_close_def ss_reconnect_def ss_connect_def as_reset_new switch_defs callback_open_def
      callback_close_def Let_def)

definition messages :: "(string \<Rightarrow> 'w \<Rightarrow> 'w) \<Rightarrow> string \<Rightarrow> nat \<Rightarrow> 'w \<Rightarrow> 'w list" where
  "messages prepare ip n msg = map (\<lambda>j. (prepare ip ^^ Suc j) msg) [0..<n]"

lemma messages_Suc: "messages prepare ip (Suc n) msg = prepare ip msg # messages prepare ip n (prepare ip msg)"
proof -
  have "map (\<lambda>j. (prepare ip ^^ Suc j) msg) [0..<Suc n] =
      prepare ip msg # map ((\<lambda>j. (prepare ip ^^ Suc j) msg) \<circ> Suc) [0..<n]"
    by (simp add: upt_conv_Cons map_Suc_upt [symmetric] del: upt_Suc)
  moreover have "(prepare ip ^^ Suc (Suc j)) msg = (prepare ip ^^ Suc j) (prepare ip msg)" for j
    by (simp only: funpow_Suc_right comp_apply)
  ultimately show ?thesis by (simp add: messages_def)
qed

text \<open>What the i-th attempt, after i reconnects, ends the call with.\<close>

definition write_ends ::
  "nat \<Rightarrow> bool \<Rightarrow> 'r attempt \<Rightarrow> ('r, 'w) https_session \<Rightarrow> (string + 'r, ('r, 'w) https_session) may_throw \<Rightarrow> bool" where
  "write_ends i last_one a s out \<longleftrightarrow>
     (case a of
        Answers r \<Rightarrow> \<exists>s'. out = Returned (Inr r) s' \<and> ss_posted s' = ss_posted s @ replicate i PostOpen
      | Fails ec c \<Rightarrow>
          if last_one
          then \<exists>s'. out = Returned (Inl ec) s' \<and> ss_posted s' = ss_posted s @ replicate i PostOpen @ [PostClose ec]
          else (case c of
              Connects \<Rightarrow> False
            | ResolveThrows \<Rightarrow> \<exists>s'. out = Thrown s' \<and> ss_posted s' = ss_posted s @ replicate i PostOpen \<and>
                \<not> ss_open s' \<and> (\<forall>r. ss_reconnect r s' = Returned True s')
            | SniFails e \<Rightarrow> \<exists>s'. out = Returned (Inl ec) s' \<and> ss_posted s' = ss_posted s @ replicate i PostOpen @ [PostClose e, PostClose ec]
            | ConnectFails e \<Rightarrow> \<exists>s'. out = Returned (Inl ec) s' \<and> ss_posted s' = ss_posted s @ replicate i PostOpen @ [PostClose e, PostClose ec]
            | HandshakeFails e \<Rightarrow> \<exists>s'. out = Returned (Inl ec) s' \<and> ss_posted s' = ss_posted s @ replicate i PostOpen @ [PostClose e, PostClose ec]))"

primrec state_of :: "('a, 's) may_throw \<Rightarrow> 's" where
  "state_of (Thrown s) = s"
| "state_of (Returned a s) = s"

lemma sync_write_run:
  assumes "has_started (ss_switch s)"
  shows "\<exists>i \<le> n. (\<forall>j < i. \<exists>ec. at (n - j) = Fails ec Connects) \<and>
    ss_wire (state_of (ss_sync_write prepare at n msg s)) = ss_wire s @ messages prepare (ss_ip s) (Suc i) msg \<and>
    write_ends i (i = n) (at (n - i)) s (ss_sync_write prepare at n msg s)"
  using assms
proof (induction n arbitrary: msg s)
  case 0
  then show ?case
    by (simp add: ss_sync_write.simps [of _ _ 0] messages_Suc write_ends_def callback_shutdown_def messages_def Let_def
        split: attempt.splits)
next
  case (Suc n)
  let ?m = "prepare (ss_ip s) msg" and ?s1 = "s\<lparr>ss_wire := ss_wire s @ [prepare (ss_ip s) msg]\<rparr>"
  show ?case
  proof (cases "\<exists>ec. at (Suc n) = Fails ec Connects")
    case False
    show ?thesis
    proof (rule exI [of _ 0], intro conjI)
      let ?w = "ss_sync_write prepare at (Suc n) msg s"
      have "ss_wire (state_of ?w) = ss_wire s @ [?m] \<and> write_ends 0 False (at (Suc n)) s ?w"
      proof (cases "at (Suc n)")
        case (Answers r)
        then show ?thesis using Suc.prems by (simp add: ss_sync_write.simps [of _ _ "Suc n"] write_ends_def Let_def)
      next
        case (Fails ec c)
        then show ?thesis using Suc.prems False reconnect_closed [OF HOL.refl, of c ec ?s1]
          by (cases c) (auto simp: ss_sync_write.simps [of _ _ "Suc n"] write_ends_def callback_shutdown_def Let_def)
      qed
      then show "ss_wire (state_of ?w) = ss_wire s @ messages prepare (ss_ip s) (Suc 0) msg"
        "write_ends 0 (0 = Suc n) (at (Suc n - 0)) s ?w"
        by (simp_all add: messages_Suc) (simp add: messages_def)
    qed simp_all
  next
    case True
    then obtain ec where ec: "at (Suc n) = Fails ec Connects" by blast
    obtain s2 where s2: "ss_reconnect Connects (ss_close ec False ?s1) = Returned True s2" "ss_wire s2 = ss_wire s @ [?m]"
      "ss_posted s2 = ss_posted s @ [PostOpen]" "ss_ip s2 = ss_ip s" "has_started (ss_switch s2)"
      using reconnect_closed [OF HOL.refl, of Connects ec ?s1] by auto
    have w: "ss_sync_write prepare at (Suc n) msg s = ss_sync_write prepare at n ?m s2"
      using Suc.prems ec s2(1) by (simp add: ss_sync_write.simps [of _ _ "Suc n"] Let_def)
    obtain i where i: "i \<le> n" "\<forall>j < i. \<exists>ec. at (n - j) = Fails ec Connects"
      "ss_wire (state_of (ss_sync_write prepare at n ?m s2)) = ss_wire s2 @ messages prepare (ss_ip s2) (Suc i) ?m"
      "write_ends i (i = n) (at (n - i)) s2 (ss_sync_write prepare at n ?m s2)"
      using Suc.IH [OF s2(5), of ?m] by blast
    have p: "ss_posted s2 @ replicate i PostOpen = ss_posted s @ replicate (Suc i) PostOpen"
      "ss_posted s2 @ replicate i PostOpen @ xs = ss_posted s @ replicate (Suc i) PostOpen @ xs" for xs
      by (simp_all add: s2(3))
    have "write_ends (Suc i) (Suc i = Suc n) (at (Suc n - Suc i)) s (ss_sync_write prepare at (Suc n) msg s)"
      using i(4) unfolding w write_ends_def p nat.inject diff_Suc_Suc .
    moreover have "\<exists>ec. at (Suc n - j) = Fails ec Connects" if "j < Suc i" for j
      using that i(2) ec by (cases j) auto
    moreover have "ss_wire (state_of (ss_sync_write prepare at (Suc n) msg s)) = ss_wire s @ messages prepare (ss_ip s) (Suc (Suc i)) msg"
      using i(3) s2(2,4) by (simp add: w messages_Suc [of _ _ "Suc i"])
    ultimately show ?thesis using i(1) by (intro exI [of _ "Suc i"]) simp
  qed
qed

text \<open>Every callback of a write is posted: none runs on the caller's thread.\<close>

lemma reconnect_events: "ss_events (state_of (ss_reconnect c s)) = ss_events s"
  by (cases c) (auto simp: ss_reconnect_def ss_connect_def callback_open_def callback_close_def Let_def split: prod.splits)

lemma sync_write_events: "ss_events (state_of (ss_sync_write prepare at n msg s)) = ss_events s"
proof (induction n arbitrary: msg s)
  case 0
  then show ?case
    by (simp add: ss_sync_write.simps [of _ _ 0] callback_shutdown_def Let_def split: attempt.splits)
next
  case (Suc n)
  show ?case
  proof (cases "at (Suc n)")
    case (Fails ec c)
    let ?t = "ss_close ec False (s\<lparr>ss_wire := ss_wire s @ [prepare (ss_ip s) msg]\<rparr>)"
    have "ss_events (state_of (ss_reconnect c ?t)) = ss_events s"
      unfolding reconnect_events by (simp add: ss_close_def Let_def)
    then show ?thesis using Fails Suc.IH
      by (cases "ss_reconnect c ?t") (auto simp: ss_sync_write.simps [of _ _ "Suc n"] callback_shutdown_def Let_def)
  qed (simp add: ss_sync_write.simps [of _ _ "Suc n"] Let_def)
qed

text \<open>C35: What the synchronous write does. It refuses when the session is not open. Otherwise it makes at most n + 1
  attempts, each after a failed one and a successful reconnect, and each writes the message with the host set
  once more; the outcome is that of the last attempt. Every reconnect tells the user of an opening but of no
  close: the callbacks are posted to the io_context, one of the opening for each reconnect, and none is called
  by the write itself. When the attempts are used up the close is posted once; when a reconnect fails it is posted twice, by
  the reconnect and by the write; and when the name cannot be resolved the call throws and leaves the
  session so that every connect returns true although nothing is connected.\<close>

theorem https_sync_write:
  "(\<not> has_started (ss_switch s) \<longrightarrow> ss_sync_write prepare at n msg s = Returned (Inl ''unready finish'') s) \<and>
   (has_started (ss_switch s) \<longrightarrow> (\<exists>i \<le> n. (\<forall>j < i. \<exists>ec. at (n - j) = Fails ec Connects) \<and>
      ss_wire (state_of (ss_sync_write prepare at n msg s)) = ss_wire s @ messages prepare (ss_ip s) (Suc i) msg \<and>
      write_ends i (i = n) (at (n - i)) s (ss_sync_write prepare at n msg s))) \<and>
   ss_events (state_of (ss_sync_write prepare at n msg s)) = ss_events s"
  using sync_write_run [of s n at prepare msg] sync_write_events [of prepare at n msg s] by (auto simp: ss_sync_write.simps)

definition sample_client :: "(nat, nat) https_session" where
  "sample_client = (new_https_session False)\<lparr>ss_open := True, ss_switch := \<lparr>binit = True, bstart = True, bstop = False\<rparr>, ss_ip := ''h''\<rparr>"

theorem https_sync_write_witness:
  "\<exists>s'. ss_sync_write (\<lambda>ip m. m) (\<lambda>k. Fails ''reset'' ResolveThrows) 1 5 sample_client = Thrown s' \<and>
     ss_wire s' = [5] \<and> (\<forall>r. ss_reconnect r s' = Returned True s')"
proof -
  have "has_started (ss_switch sample_client)" "ss_wire sample_client = []"
    by (simp_all add: sample_client_def new_https_session_def switch_defs)
  moreover obtain i where i: "i \<le> 1" "\<forall>j < i. False"
    "ss_wire (state_of (ss_sync_write (\<lambda>ip m. m) (\<lambda>k. Fails ''reset'' ResolveThrows) 1 5 sample_client)) =
       ss_wire sample_client @ messages (\<lambda>ip m. m) (ss_ip sample_client) (Suc i) 5"
    "write_ends i (i = 1) (Fails ''reset'' ResolveThrows) sample_client
       (ss_sync_write (\<lambda>ip m. m) (\<lambda>k. Fails ''reset'' ResolveThrows) 1 5 sample_client)"
    using https_sync_write [of sample_client "\<lambda>ip m. m" "\<lambda>k. Fails ''reset'' ResolveThrows" 1 5] calculation(1) by auto
  moreover have "i = 0" using i(2) by (cases i) auto
  ultimately show ?thesis by (auto simp: write_ends_def messages_def)
qed

section \<open>Targets\<close>

lemma restful_fold: "fold (\<lambda>key t. t @ key @ ''&'') ks t = t @ concat (map (\<lambda>k. k @ ''&'') ks)"
  by (induction ks arbitrary: t) simp_all

lemma entries_fold:
  "fold (\<lambda>(key, val) t. t @ key @ ''='' @ val @ ''&'') kvs t = fold (\<lambda>key t. t @ key @ ''&'') (map (\<lambda>(k, v). k @ ''='' @ v) kvs) t"
  by (induction kvs arbitrary: t) auto

lemma find_amp: "c \<notin> set xs \<Longrightarrow> find_sub [c] (xs @ c # ys) = Some (length xs)"
  by (induction xs) simp_all

lemma find_no_amp: "c \<notin> set xs \<Longrightarrow> find_sub [c] xs = None"
  by (induction xs) simp_all

lemma tokens_params:
  assumes "\<forall>k \<in> set ks. c \<notin> set k" "ks \<noteq> []" "last ks \<noteq> []"
  shows "tokens [c] (butlast (concat (map (\<lambda>k. k @ [c]) ks))) = ks"
  using assms
proof (induction ks)
  case (Cons k ks)
  show ?case
  proof (cases ks)
    case Nil
    then show ?thesis using Cons.prems by (simp add: butlast_append tokens.simps [of "[c]" k] find_no_amp)
  next
    case (Cons k2 ks2)
    have "concat (map (\<lambda>k. k @ [c]) ks) \<noteq> []" using Cons by simp
    then have "butlast (concat (map (\<lambda>k. k @ [c]) (k # ks))) = k @ c # butlast (concat (map (\<lambda>k. k @ [c]) ks))"
      by (simp add: butlast_append)
    then show ?thesis using Cons.IH Cons.prems Cons by (simp add: tokens.simps [of "[c]" "k @ c # _"] find_amp)
  qed
qed simp

text \<open>Targets carry their parameters. Without parameters the target is left alone; with them, what follows the target
  and a question mark is split at the ampersands into exactly the parameters, if none contains one and the
  last is not empty; a map gives the target of its entries written key=value.\<close>

theorem https_target_roundtrip:
  assumes "\<forall>k \<in> set ks. CHR ''&'' \<notin> set k" "ks \<noteq> []" "last ks \<noteq> []"
  shows "(\<exists>q. restful_target target ks = target @ ''?'' @ q \<and> split q ''&'' False = Some ks) \<and>
    restful_target target [] = target \<and>
    restful_target_map target kvs = restful_target target (map (\<lambda>(k, v). k @ ''='' @ v) kvs)"
proof -
  let ?q = "concat (map (\<lambda>k. k @ ''&'') ks)"
  have "?q \<noteq> []" using assms(2) by (cases ks) simp_all
  then have "restful_target target ks = target @ ''?'' @ butlast ?q"
    using assms(2) by (simp add: restful_target_def restful_fold butlast_append)
  moreover have "split (butlast ?q) ''&'' False = Some ks"
    using tokens_params [OF assms] by (simp add: split_def split_loop_plain)
  moreover have "restful_target_map target kvs = restful_target target (map (\<lambda>(k, v). k @ ''='' @ v) kvs)"
    unfolding restful_target_map_def restful_target_def entries_fold by simp
  ultimately show ?thesis by (auto simp: restful_target_def)
qed

theorem https_target_roundtrip_witness:
  "\<exists>q. restful_target ''/a'' [''x=1'', ''y=2''] = ''/a'' @ ''?'' @ q \<and> split q ''&'' False = Some [''x=1'', ''y=2'']"
  using https_target_roundtrip [of "[''x=1'', ''y=2'']" "''/a''" "[]"] by simp

end
