(* ===== verification/Rmq_Session.thy ===== *)
theory Rmq_Session
  imports Atomic_Switch Prelude C_Text "HOL-Library.Monad_Syntax"
begin

text \<open>
  The session of RabbitMQ (rmq/rmq_session.hpp): one connection, its channels, a thread that connects
  and reads and a thread that writes. The two threads are pools of one thread with an unbounded queue,
  so each is the list of the tasks it has still to run, oldest first. librabbitmq is not under src/:
  what its calls answer is an argument of the handlers, and the calls themselves are logged.
  The callbacks of the user are an argument too, a function on the session, as they may call it.
  None is undefined behaviour, or a callback or lock that never returns.

  The handlers and the calls of users run one at a time; the infos of exchanges and queues, whose
  names the channels point to, live as long as the session. Argument tables, tags and properties,
  which are handed through to the library, are left out. Allocation succeeds, and the library takes
  a null connection as badly as any null pointer.
\<close>

unbundle bit_operations_syntax

section \<open>Data\<close>

type_synonym channel_id = u16

abbreviation (input) INVALID_CHANNEL_ID :: channel_id where
  "INVALID_CHANNEL_ID \<equiv> 0"

text \<open>The bits of RmqRWType.\<close>

(* src: rmq/rmq_session.hpp 89-93 RmqRWType *)
datatype rw_bit = ExchangeWrite | ExchangeRead | QueueWrite | QueueRead

(* src: rmq/rmq_session.hpp 89-93 RmqRWType *)
fun rw_value :: "rw_bit \<Rightarrow> u32" where
  "rw_value ExchangeWrite = 1"
| "rw_value ExchangeRead = 2"
| "rw_value QueueWrite = 4"
| "rw_value QueueRead = 8"

(* src: rmq/rmq_session.hpp 94-94 RmqRWType::exchange_read_write *)
definition exchange_read_write :: u32 where
  "exchange_read_write = rw_value QueueWrite OR rw_value ExchangeRead"

(* src: rmq/rmq_session.hpp 95-95 RmqRWType::queue_read_write *)
definition queue_read_write :: u32 where
  "queue_read_write = rw_value QueueWrite OR rw_value QueueRead"

(* src: rmq/rmq_session.hpp 96-96 RmqRWType::write *)
definition rw_write :: u32 where
  "rw_write = rw_value ExchangeWrite OR rw_value QueueWrite"

(* src: rmq/rmq_session.hpp 97-97 RmqRWType::read *)
definition rw_read :: u32 where
  "rw_read = rw_value ExchangeRead OR rw_value QueueRead"

(* src: rmq/rmq_session.hpp 98-98 RmqRWType::read_write *)
definition rw_read_write :: u32 where
  "rw_read_write = rw_read OR rw_write"

(* src: rmq/rmq_session.hpp 424-426 Session::contain *)
definition contain :: "u32 \<Rightarrow> u32 \<Rightarrow> bool" where
  "contain rwtype des \<longleftrightarrow> rwtype AND des \<noteq> 0"

(* src: rmq/rmq_session.hpp 101-120 RmqConnectInfoSt *)
record connect_info =
  ci_user_name :: string
  ci_password :: string
  ci_ip :: string
  ci_read_timeout :: int
  ci_heart_beat :: int
  ci_port :: u16
  ci_addr :: string
  ci_flags :: u32

(* src: rmq/rmq_session.hpp 122-137 RmqExchangeInfoSt *)
record exchange_info =
  ex_name :: string
  ex_type :: string
  ex_passive :: bool
  ex_durable :: bool
  ex_internal :: bool
  ex_auto_delete :: bool

(* src: rmq/rmq_session.hpp 139-147 RmqQueueInfoSt *)
record queue_info =
  qu_name :: string
  qu_passive :: bool
  qu_durable :: bool
  qu_exclusive :: bool
  qu_auto_delete :: bool

text \<open>An info whose members have their initial values.\<close>

(* src: rmq/rmq_session.hpp 122-137 RmqExchangeInfoSt *)
definition no_exchange :: exchange_info where
  "no_exchange = \<lparr>ex_name = [], ex_type = [], ex_passive = False, ex_durable = True, ex_internal = False,
     ex_auto_delete = False\<rparr>"

(* src: rmq/rmq_session.hpp 139-147 RmqQueueInfoSt *)
definition no_queue :: queue_info where
  "no_queue = \<lparr>qu_name = [], qu_passive = False, qu_durable = True, qu_exclusive = False, qu_auto_delete = False\<rparr>"

(* src: rmq/rmq_session.hpp 149-152 RmqChannelInfoSt *)
record channel_info =
  prefetch_size :: u32
  prefetch_count :: u16

(* src: rmq/rmq_session.hpp 154-160 RmqConsumerInfoSt *)
record consumer_info =
  co_no_local :: bool
  co_no_ack :: bool
  co_exclusive :: bool

(* src: rmq/rmq_session.hpp 154-160 RmqConsumerInfoSt *)
definition default_consumer :: consumer_info where
  "default_consumer = \<lparr>co_no_local = False, co_no_ack = False, co_exclusive = False\<rparr>"

(* src: rmq/rmq_session.hpp 163-173 ChannelSt *)
record rmq_channel =
  ch_rw_type :: u32
  ch_auto_ack :: bool
  ch_exchange :: exchange_info
  ch_queue :: queue_info
  ch_channel :: channel_info
  ch_consumer :: consumer_info
  ch_routing_key :: string

(* src: rmq/rmq_session.hpp 175-184 WriteBufInfo *)
record write_buf_info =
  wi_channel_id :: channel_id
  wi_routing_key :: string
  wi_data :: bytes
  wi_retry_count :: int
  wi_confirm :: bool
  wi_mandatory :: bool
  wi_immediate :: bool

text \<open>The calls of the callbacks a user has registered.\<close>

(* src: rmq/rmq_callback.hpp 17-22 CallBack *)
datatype rmq_event = Opened | SessionClosed string | ChannelOpened channel_id | ChannelClosed channel_id string
  | MsgRead channel_id u64 bytes | MsgWritten bool channel_id bytes

text \<open>The calls of the library.\<close>

datatype amqp_call = ConnectionClose | ChannelOpen channel_id | ChannelClose channel_id
  | BasicQos channel_id channel_info | ExchangeDeclare channel_id exchange_info | QueueDeclare channel_id queue_info
  | QueueBind channel_id string string string | BasicConsume channel_id string consumer_info
  | BasicAck channel_id u64 bool | ConfirmSelect channel_id
  | BasicPublish channel_id string string bool bool bytes

text \<open>Its answers.\<close>

datatype amqp_status = StatusOk | StatusTimeout | StatusUnexpectedState | StatusOther nat

datatype server_method = ConnectionCloseMethod string | ChannelCloseMethod string | OtherMethod nat

datatype amqp_reply = ReplyNormal | LibraryException amqp_status | ServerException server_method | ReplyNone

text \<open>The member library_error, which is 0 in a reply of another type.\<close>

fun library_error :: "amqp_reply \<Rightarrow> amqp_status" where
  "library_error (LibraryException e) = e"
| "library_error _ = StatusOk"

text \<open>What the tasks bound to the threads call.\<close>

datatype rmq_task = HandleConnect | HandleRead | CloseChannel string channel_id | HandleChannel channel_id rmq_channel

(* src: rmq/rmq_session.hpp 862-890 Session *)
record rmq_session =
  rm_read_thread :: "rmq_task list"
  rm_write_thread :: "write_buf_info list"
  rm_connection :: bool
  rm_write_buf :: "write_buf_info list"
  rm_max_wbuffer_size :: nat
  rm_cur_wbuffer_size :: nat
  rm_cur_in_write :: bool
  rm_switch :: switch
  rm_connect_info :: connect_info
  rm_default_channel :: channel_info
  rm_channels_locked :: bool
  rm_channels :: "(channel_id \<times> rmq_channel) list"
  rm_channels_switch :: "channel_id \<Rightarrow> switch option"
  rm_events :: "rmq_event list"
  rm_calls :: "amqp_call list"

text \<open>The user's callbacks and the library's texts of errors.\<close>

record rmq_env =
  on_event :: "rmq_event \<Rightarrow> rmq_session \<Rightarrow> rmq_session option"
  error_string :: "amqp_status \<Rightarrow> string"

(* src: rmq/rmq_session.hpp 190-200 Session::Session *)
definition new_rmq_session :: "nat \<Rightarrow> rmq_session" where
  "new_rmq_session max_buffer_size =
     \<lparr>rm_read_thread = [], rm_write_thread = [], rm_connection = False, rm_write_buf = [],
      rm_max_wbuffer_size = max_buffer_size, rm_cur_wbuffer_size = 0, rm_cur_in_write = False,
      rm_switch = new_switch,
      rm_connect_info = \<lparr>ci_user_name = [], ci_password = [], ci_ip = ''127.0.0.1'', ci_read_timeout = 1,
        ci_heart_beat = 0, ci_port = 5672, ci_addr = ''/'', ci_flags = 0\<rparr>,
      rm_default_channel = \<lparr>prefetch_size = 0, prefetch_count = 0\<rparr>,
      rm_channels_locked = False, rm_channels = [], rm_channels_switch = Map.empty, rm_events = [], rm_calls = []\<rparr>"

text \<open>A callback is logged and run; a call of the library needs the connection.\<close>

definition rm_event :: "rmq_env \<Rightarrow> rmq_event \<Rightarrow> rmq_session \<Rightarrow> rmq_session option" where
  "rm_event env e s = on_event env e (s\<lparr>rm_events := rm_events s @ [e]\<rparr>)"

definition amqp :: "amqp_call \<Rightarrow> rmq_session \<Rightarrow> rmq_session option" where
  "amqp c s = (if rm_connection s then Some (s\<lparr>rm_calls := rm_calls s @ [c]\<rparr>) else None)"

section \<open>State of the session and its channels\<close>

text \<open>operator[] of the map of switches makes a switch where there is none.\<close>

definition rm_sw :: "channel_id \<Rightarrow> rmq_session \<Rightarrow> switch" where
  "rm_sw ch s = (case rm_channels_switch s ch of None \<Rightarrow> new_switch | Some w \<Rightarrow> w)"

definition rm_set_sw :: "channel_id \<Rightarrow> switch \<Rightarrow> rmq_session \<Rightarrow> rmq_session" where
  "rm_set_sw ch w s = s\<lparr>rm_channels_switch := (rm_channels_switch s)(ch \<mapsto> w)\<rparr>"

(* src: rmq/rmq_session.hpp 253-255 Session::is_connecting *)
definition rm_is_connecting :: "rmq_session \<Rightarrow> bool" where
  "rm_is_connecting s \<longleftrightarrow> has_started (rm_switch s)"

(* src: rmq/rmq_session.hpp 256-262 Session::is_connecting *)
definition rm_is_connecting_channel :: "channel_id \<Rightarrow> rmq_session \<Rightarrow> bool" where
  "rm_is_connecting_channel ch s =
     (case rm_channels_switch s ch of
        None \<Rightarrow> False
      | Some w \<Rightarrow> has_started (rm_switch s) \<and> has_started w)"

(* src: rmq/rmq_session.hpp 263-265 Session::has_stoped *)
definition rm_has_stoped :: "rmq_session \<Rightarrow> bool" where
  "rm_has_stoped s \<longleftrightarrow> has_stoped (rm_switch s)"

(* src: rmq/rmq_session.hpp 266-272 Session::has_stoped *)
definition rm_has_stoped_channel :: "channel_id \<Rightarrow> rmq_session \<Rightarrow> bool" where
  "rm_has_stoped_channel ch s =
     (case rm_channels_switch s ch of
        None \<Rightarrow> True
      | Some w \<Rightarrow> has_stoped w \<or> has_stoped (rm_switch s))"

text \<open>
  What takes m_channels_mtx never returns when it is called from a callback that handle_login runs
  with the mutex held.
\<close>

(* src: rmq/rmq_session.hpp 832-839 Session::get_channel *)
definition rm_get_channel :: "channel_id \<Rightarrow> rmq_session \<Rightarrow> rmq_channel option option" where
  "rm_get_channel ch s = (if rm_channels_locked s then None else Some (map_of (rm_channels s) ch))"

(* src: rmq/rmq_session.hpp 841-848 Session::get_routing_key *)
definition rm_get_routing_key :: "channel_id \<Rightarrow> rmq_session \<Rightarrow> string option" where
  "rm_get_routing_key ch s =
     (if rm_channels_locked s then None
      else Some (case map_of (rm_channels s) ch of None \<Rightarrow> [] | Some c \<Rightarrow> ch_routing_key c))"

(* src: rmq/rmq_session.hpp 826-830 Session::check_channel *)
definition rm_check_channel :: "channel_id \<Rightarrow> rmq_session \<Rightarrow> bool option" where
  "rm_check_channel ch s = (if rm_channels_locked s then None else Some (map_of (rm_channels s) ch \<noteq> None))"

(* src: rmq/rmq_session.hpp 850-859 Session::insert_channel *)
definition rm_insert_channel :: "channel_id \<Rightarrow> rmq_channel \<Rightarrow> rmq_session \<Rightarrow> (channel_id \<times> rmq_session) option" where
  "rm_insert_channel ch c s =
     (if rm_channels_locked s then None
      else if map_of (rm_channels s) ch \<noteq> None then Some (INVALID_CHANNEL_ID, s)
      else Some (ch, rm_set_sw ch (rm_sw ch s) (s\<lparr>rm_channels := insort_key fst (ch, c) (rm_channels s)\<rparr>)))"

(* src: rmq/rmq_session.hpp 279-281 Session::set_channel_default_param *)
definition rm_set_channel_default_param :: "channel_info \<Rightarrow> rmq_session \<Rightarrow> rmq_session" where
  "rm_set_channel_default_param c s = s\<lparr>rm_default_channel := c\<rparr>"

text \<open>The overload without an info of the channel takes the default one.\<close>

(* src: rmq/rmq_session.hpp 287-306 Session::set_channel_param *)
definition rm_set_channel_param ::
    "channel_id \<Rightarrow> consumer_info \<Rightarrow> channel_info option \<Rightarrow> rmq_session \<Rightarrow> (bool \<times> rmq_session) option" where
  "rm_set_channel_param ch co info s =
     (if rm_channels_locked s then None
      else if map_of (rm_channels s) ch = None then Some (False, s)
      else Some (True, s\<lparr>rm_channels := map (\<lambda>(k, c).
             (k, if k = ch then c\<lparr>ch_channel := (case info of None \<Rightarrow> rm_default_channel s | Some i \<Rightarrow> i), ch_consumer := co\<rparr>
                 else c)) (rm_channels s)\<rparr>))"

text \<open>The ids of channels are counted for all sessions together; 0 is skipped when the counter wraps.\<close>

(* src: rmq/rmq_session.hpp 418-419 Session::create_channel_inner *)
definition next_channel_id :: "channel_id \<Rightarrow> channel_id" where
  "next_channel_id n = (if n + 1 = INVALID_CHANNEL_ID then n + 2 else n + 1)"

(* src: rmq/rmq_session.hpp 411-422 Session::create_channel_inner *)
definition rm_create_channel_inner ::
    "exchange_info \<Rightarrow> queue_info \<Rightarrow> u32 \<Rightarrow> string \<Rightarrow> bool \<Rightarrow> channel_id \<times> rmq_session \<Rightarrow>
      (channel_id \<times> channel_id \<times> rmq_session) option" where
  "rm_create_channel_inner ex qu rwtype key auto_ack z =
     (let (n, s) = z in
      if contain rwtype exchange_read_write \<and> ex_name ex = [] then Some (INVALID_CHANNEL_ID, n, s)
      else if contain rwtype queue_read_write \<and> qu_name qu = [] then Some (INVALID_CHANNEL_ID, n, s)
      else do {
        let n = next_channel_id n;
        (ch, s) \<leftarrow> rm_insert_channel n \<lparr>ch_rw_type = rwtype, ch_auto_ack = auto_ack, ch_exchange = ex, ch_queue = qu,
            ch_channel = rm_default_channel s, ch_consumer = default_consumer, ch_routing_key = key\<rparr> s;
        Some (ch, n, s) })"

text \<open>The overloads for an exchange alone and for a queue alone.\<close>

(* src: rmq/rmq_session.hpp 339-341 Session::create_channel *)
definition rm_create_exchange_channel :: "exchange_info \<Rightarrow> u32 \<Rightarrow> string \<Rightarrow> bool \<Rightarrow> channel_id \<times> rmq_session \<Rightarrow>
    (channel_id \<times> channel_id \<times> rmq_session) option" where
  "rm_create_exchange_channel ex = rm_create_channel_inner ex no_queue"

(* src: rmq/rmq_session.hpp 342-344 Session::create_channel *)
definition rm_create_queue_channel :: "queue_info \<Rightarrow> u32 \<Rightarrow> string \<Rightarrow> bool \<Rightarrow> channel_id \<times> rmq_session \<Rightarrow>
    (channel_id \<times> channel_id \<times> rmq_session) option" where
  "rm_create_queue_channel qu = rm_create_channel_inner no_exchange qu"

section \<open>Closing\<close>

(* src: rmq/rmq_session.hpp 783-801 Session::close *)
definition rm_close :: "rmq_env \<Rightarrow> string \<Rightarrow> rmq_session \<Rightarrow> rmq_session option" where
  "rm_close env msg s =
     (let (ok, w) = as_stop (rm_switch s)
      in if \<not> ok then Some s
         else do {
           s \<leftarrow> amqp ConnectionClose (s\<lparr>rm_switch := w\<rparr>);
           rm_event env (SessionClosed msg) (s\<lparr>rm_connection := False,
             rm_channels_switch := (\<lambda>ch. map_option as_reset (rm_channels_switch s ch)),
             rm_switch := as_reset (rm_switch s)\<rparr>) })"

(* src: rmq/rmq_session.hpp 803-824 Session::close_channel *)
definition rm_close_channel :: "rmq_env \<Rightarrow> string \<Rightarrow> channel_id \<Rightarrow> rmq_session \<Rightarrow> rmq_session option" where
  "rm_close_channel env msg ch s =
     (if \<not> has_started (rm_sw ch s)
      then rm_event env (ChannelClosed ch msg) (rm_set_sw ch (as_reset (rm_sw ch s)) s)
      else let (ok, w) = as_stop (rm_sw ch s);
               s = rm_set_sw ch w s
           in if \<not> ok then Some s
              else do {
                s \<leftarrow> amqp (ChannelClose ch) s;
                rm_event env (ChannelClosed ch msg) (rm_set_sw ch (as_reset (rm_sw ch s)) s) })"

(* src: rmq/rmq_session.hpp 369-371 Session::shutdown *)
definition rm_shutdown :: "rmq_env \<Rightarrow> rmq_session \<Rightarrow> rmq_session option" where
  "rm_shutdown env s = rm_close env ''shutdown'' s"

(* src: rmq/rmq_session.hpp 374-378 Session::shutdown *)
definition rm_shutdown_channel :: "rmq_env \<Rightarrow> channel_id \<Rightarrow> rmq_session \<Rightarrow> rmq_session option" where
  "rm_shutdown_channel env ch s =
     (if rm_channels_switch s ch = None then Some s else rm_close_channel env ''shutdown'' ch s)"

text \<open>The destructor drops the callbacks first.\<close>

(* src: rmq/rmq_session.hpp 202-205 Session::~Session *)
definition rm_destroy :: "rmq_env \<Rightarrow> rmq_session \<Rightarrow> rmq_session option" where
  "rm_destroy env s = rm_close (env\<lparr>on_event := (\<lambda>e. Some)\<rparr>) [] s"

section \<open>Connecting\<close>

(* src: rmq/rmq_session.hpp 347-353 Session::connect *)
definition rm_connect :: "connect_info \<Rightarrow> rmq_session \<Rightarrow> rmq_session" where
  "rm_connect ci s =
     (let (ok, w) = as_init (rm_switch s)
      in if \<not> ok then s
         else s\<lparr>rm_switch := w, rm_connect_info := ci, rm_read_thread := rm_read_thread s @ [HandleConnect]\<rparr>)"

(* src: rmq/rmq_session.hpp 356-358 Session::reconnect *)
definition rm_reconnect :: "rmq_session \<Rightarrow> rmq_session" where
  "rm_reconnect s = rm_connect (rm_connect_info s) s"

(* src: rmq/rmq_session.hpp 359-366 Session::reconnect_channel *)
definition rm_reconnect_channel :: "channel_id \<Rightarrow> rmq_session \<Rightarrow> rmq_session option" where
  "rm_reconnect_channel ch s =
     do { c \<leftarrow> rm_get_channel ch s;
          Some (s\<lparr>rm_read_thread := rm_read_thread s @
             [case c of None \<Rightarrow> CloseChannel ''unbind channel'' ch | Some c \<Rightarrow> HandleChannel ch c]\<rparr>) }"

(* src: rmq/rmq_session.hpp 429-431 Session::read *)
definition rm_read :: "rmq_session \<Rightarrow> rmq_session" where
  "rm_read s = s\<lparr>rm_read_thread := rm_read_thread s @ [HandleRead]\<rparr>"

(* src: rmq/rmq_session.hpp 624-637 Session::check_connection *)
fun exception_text :: "server_method \<Rightarrow> string" where
  "exception_text (ConnectionCloseMethod t) = t"
| "exception_text (ChannelCloseMethod t) = t"
| "exception_text (OtherMethod n) = ''unknown server reply_type exception error''"

(* src: rmq/rmq_session.hpp 615-642 Session::check_connection *)
definition rm_check_connection ::
    "rmq_env \<Rightarrow> amqp_reply \<Rightarrow> channel_id \<Rightarrow> string \<Rightarrow> rmq_session \<Rightarrow> (bool \<times> rmq_session) option" where
  "rm_check_connection env r ch title s =
     (if \<not> rm_connection s then None
      else case r of
        ReplyNormal \<Rightarrow> Some (True, s)
      | LibraryException e \<Rightarrow>
          do { s \<leftarrow> rm_close_channel env (title @ '' fail: '' @ error_string env e) ch s; Some (False, s) }
      | ServerException m \<Rightarrow>
          do { s \<leftarrow> rm_close_channel env (title @ '' fail: '' @ exception_text m) ch s; Some (False, s) }
      | ReplyNone \<Rightarrow>
          do { s \<leftarrow> rm_close_channel env (title @ '' fail: unknown exception'') ch s; Some (False, s) })"

text \<open>
  A call whose result is tested for null and whose reply is checked, as handle_channel makes them:
  open, declare and consume. The answer is the pointer's validity and the reply.
\<close>

(* src: rmq/rmq_session.hpp 539-547 Session::handle_channel *)
definition rm_rpc :: "rmq_env \<Rightarrow> bool \<times> amqp_reply \<Rightarrow> amqp_call \<Rightarrow> string \<Rightarrow> string \<Rightarrow> channel_id \<Rightarrow> rmq_session \<Rightarrow>
    (bool \<times> rmq_session) option" where
  "rm_rpc env r c failed title ch s =
     do { s \<leftarrow> amqp c s;
          if \<not> fst r then do { s \<leftarrow> rm_close_channel env failed ch s; Some (False, s) }
          else rm_check_connection env (snd r) ch title s }"

text \<open>The calls one after the other; as soon as one fails the rest is not made.\<close>

definition and_then :: "(rmq_session \<Rightarrow> (bool \<times> rmq_session) option) \<Rightarrow> (rmq_session \<Rightarrow> (bool \<times> rmq_session) option) \<Rightarrow>
    rmq_session \<Rightarrow> (bool \<times> rmq_session) option" where
  "and_then f g s = do { (ok, s) \<leftarrow> f s; if ok then g s else Some (False, s) }"

(* src: rmq/rmq_session.hpp 549-564 Session::handle_channel *)
definition rm_declare_exchange :: "rmq_env \<Rightarrow> (nat \<Rightarrow> bool \<times> amqp_reply) \<Rightarrow> channel_id \<Rightarrow> rmq_channel \<Rightarrow> rmq_session \<Rightarrow>
    (bool \<times> rmq_session) option" where
  "rm_declare_exchange env rs ch c s =
     (if contain (ch_rw_type c) (rw_value ExchangeWrite)
      then do { s \<leftarrow> amqp (BasicQos ch (ch_channel c)) s;
                rm_rpc env (rs 1) (ExchangeDeclare ch (ch_exchange c)) ''open exchange fail'' ''check exchange'' ch s }
      else Some (True, s))"

text \<open>The consumer reads from the queue the server answered with, whose name is the one declared.\<close>

(* src: rmq/rmq_session.hpp 566-604 Session::handle_channel *)
definition rm_declare_queue :: "rmq_env \<Rightarrow> (nat \<Rightarrow> bool \<times> amqp_reply) \<Rightarrow> channel_id \<Rightarrow> rmq_channel \<Rightarrow> rmq_session \<Rightarrow>
    (bool \<times> rmq_session) option" where
  "rm_declare_queue env rs ch c s =
     (if contain (ch_rw_type c) queue_read_write
      then and_then (rm_rpc env (rs 2) (QueueDeclare ch (ch_queue c)) ''open queue fail'' ''check queue'' ch)
             (rm_rpc env (rs 3) (BasicConsume ch (qu_name (ch_queue c)) (ch_consumer c)) ''bind consume fail'' ''check consume'' ch) s
      else Some (True, s))"

(* src: rmq/rmq_session.hpp 606-612 Session::handle_channel *)
definition rm_channel_ready :: "rmq_env \<Rightarrow> channel_id \<Rightarrow> rmq_session \<Rightarrow> (bool \<times> rmq_session) option" where
  "rm_channel_ready env ch s =
     do { s \<leftarrow> rm_event env (ChannelOpened ch) (rm_set_sw ch (snd (as_start (rm_sw ch s))) s); Some (True, s) }"

(* src: rmq/rmq_session.hpp 534-613 Session::handle_channel *)
definition rm_handle_channel :: "rmq_env \<Rightarrow> (nat \<Rightarrow> bool \<times> amqp_reply) \<Rightarrow> channel_id \<Rightarrow> rmq_channel \<Rightarrow> rmq_session \<Rightarrow>
    (bool \<times> rmq_session) option" where
  "rm_handle_channel env rs ch c s =
     (let (ok, w) = as_init (rm_sw ch s);
          s = rm_set_sw ch w s
      in if \<not> ok then Some (False, s)
         else and_then (rm_rpc env (rs 0) (ChannelOpen ch) ''open channel fail'' ''check channel'' ch)
                (and_then (rm_declare_exchange env rs ch c)
                  (and_then (rm_declare_queue env rs ch c) (rm_channel_ready env ch))) s)"

text \<open>
  The channels of the map in the order of their ids, each with its replies. A callback cannot change
  the map in the meantime, as its mutex is held. The result is whether a reader is needed.
\<close>

(* src: rmq/rmq_session.hpp 514-517 Session::handle_login *)
fun rm_open_channels :: "rmq_env \<Rightarrow> (channel_id \<Rightarrow> nat \<Rightarrow> bool \<times> amqp_reply) \<Rightarrow> (channel_id \<times> rmq_channel) list \<Rightarrow>
    rmq_session \<Rightarrow> (bool \<times> rmq_session) option" where
  "rm_open_channels env rs [] s = Some (False, s)"
| "rm_open_channels env rs ((ch, c) # cs) s =
     do { (ok, s) \<leftarrow> rm_handle_channel env (rs ch) ch c s;
          (need, s) \<leftarrow> rm_open_channels env rs cs s;
          Some ((ok \<and> contain (ch_rw_type c) rw_read) \<or> need, s) }"

(* src: rmq/rmq_session.hpp 451-453 Session::async_write_inner *)
definition rm_async_write_inner :: "write_buf_info \<Rightarrow> rmq_session \<Rightarrow> rmq_session" where
  "rm_async_write_inner buf s = s\<lparr>rm_write_thread := rm_write_thread s @ [buf]\<rparr>"

text \<open>front and pop of an empty queue are undefined.\<close>

(* src: rmq/rmq_session.hpp 521-528 Session::handle_login *)
definition rm_resume_write :: "rmq_session \<Rightarrow> rmq_session option" where
  "rm_resume_write s =
     (if \<not> rm_cur_in_write s then Some s
      else case rm_write_buf s of
             [] \<Rightarrow> None
           | buf # rest \<Rightarrow> Some (rm_async_write_inner buf (s\<lparr>rm_write_buf := rest\<rparr>)))"

(* src: rmq/rmq_session.hpp 483-501 Session::handle_login *)
fun login_error :: "amqp_reply \<Rightarrow> string" where
  "login_error (LibraryException e) = ''login tcp socket fail: invalid vhost or authentication failure''"
| "login_error (ServerException (ConnectionCloseMethod t)) = t"
| "login_error (ServerException (ChannelCloseMethod t)) = t"
| "login_error (ServerException (OtherMethod n)) = ''unknown server exception error: '' @ digits n"
| "login_error _ = ''unknown exception''"

(* src: rmq/rmq_session.hpp 478-532 Session::handle_login *)
definition rm_handle_login :: "rmq_env \<Rightarrow> (channel_id \<Rightarrow> nat \<Rightarrow> bool \<times> amqp_reply) \<Rightarrow> amqp_reply \<Rightarrow> rmq_session \<Rightarrow>
    rmq_session option" where
  "rm_handle_login env rs r s =
     (if r \<noteq> ReplyNormal then rm_close env (login_error r) s
      else do {
        let (ok, w) = as_start (rm_switch s);
        s \<leftarrow> (if ok then rm_event env Opened (s\<lparr>rm_switch := w\<rparr>) else Some (s\<lparr>rm_switch := w\<rparr>));
        (need_receive, s) \<leftarrow> rm_open_channels env rs (rm_channels s) (s\<lparr>rm_channels_locked := True\<rparr>);
        s \<leftarrow> rm_resume_write (s\<lparr>rm_channels_locked := False\<rparr>);
        Some (if need_receive then rm_read s else s) })"

text \<open>How far an attempt to connect comes.\<close>

datatype connect_reply = NoConnection | NoSocket | SocketFails amqp_status | LoginReply amqp_reply

(* src: rmq/rmq_session.hpp 456-475 Session::handle_connect *)
definition rm_handle_connect :: "rmq_env \<Rightarrow> (channel_id \<Rightarrow> nat \<Rightarrow> bool \<times> amqp_reply) \<Rightarrow> connect_reply \<Rightarrow> rmq_session \<Rightarrow>
    rmq_session option" where
  "rm_handle_connect env rs r s =
     (case r of
        NoConnection \<Rightarrow> rm_close env ''create new connection fail'' (s\<lparr>rm_connection := False\<rparr>)
      | NoSocket \<Rightarrow> rm_close env ''create tcp socket fail'' (s\<lparr>rm_connection := True\<rparr>)
      | SocketFails e \<Rightarrow> rm_close env (''open tcp socket fail: '' @ error_string env e) (s\<lparr>rm_connection := True\<rparr>)
      | LoginReply r \<Rightarrow> rm_handle_login env rs r (s\<lparr>rm_connection := True\<rparr>))"

section \<open>Reading\<close>

text \<open>What amqp_consume_message gives: the envelope, whose channel is 0 when there is none, and the reply.\<close>

record amqp_envelope =
  en_channel :: channel_id
  en_delivery_tag :: u64
  en_body :: bytes

(* src: rmq/rmq_session.hpp 667-682 Session::handle_read *)
fun read_error :: "(amqp_status \<Rightarrow> string) \<Rightarrow> amqp_reply \<Rightarrow> string" where
  "read_error es (LibraryException StatusTimeout) = ''read timeout: '' @ es StatusTimeout"
| "read_error es (LibraryException StatusUnexpectedState) = ''unexpected state: '' @ es StatusUnexpectedState"
| "read_error es (LibraryException e) = ''library error: '' @ es e"
| "read_error es r = ''read error: '' @ es (library_error r)"

(* src: rmq/rmq_session.hpp 689-690 Session::handle_read *)
definition rm_auto_ack :: "amqp_envelope \<Rightarrow> rmq_channel \<Rightarrow> rmq_session \<Rightarrow> rmq_session option" where
  "rm_auto_ack en c s =
     (if en_delivery_tag en \<noteq> 0 \<and> ch_auto_ack c \<and> ci_flags (rm_connect_info s) AND 1 = 0 \<and> \<not> co_no_ack (ch_consumer c)
      then amqp (BasicAck (en_channel en) (en_delivery_tag en) False) s
      else Some s)"

(* src: rmq/rmq_session.hpp 645-701 Session::handle_read *)
definition rm_handle_read :: "rmq_env \<Rightarrow> amqp_envelope \<Rightarrow> amqp_reply \<Rightarrow> rmq_session \<Rightarrow> rmq_session option" where
  "rm_handle_read env en r s =
     (if \<not> rm_connection s then None
      else do {
        c \<leftarrow> rm_get_channel (en_channel en) s;
        case c of
          None \<Rightarrow>
            if library_error r = StatusTimeout then Some (rm_read s)
            else rm_close env (''read fail: '' @ error_string env (library_error r)) s
        | Some c \<Rightarrow>
            if r \<noteq> ReplyNormal then rm_close_channel env (read_error (error_string env) r) (en_channel en) s
            else do {
              s \<leftarrow> rm_event env (MsgRead (en_channel en) (en_delivery_tag en) (en_body en)) s;
              s \<leftarrow> rm_auto_ack en c s;
              Some (if rm_has_stoped s then s else rm_read s) } })"

(* src: rmq/rmq_session.hpp 381-383 Session::ack *)
definition rm_ack :: "channel_id \<Rightarrow> u64 \<Rightarrow> bool \<Rightarrow> rmq_session \<Rightarrow> rmq_session option" where
  "rm_ack ch tag multiple s = amqp (BasicAck ch tag multiple) s"

text \<open>The two calls of bind, each with the validity of its result and the reply.\<close>

(* src: rmq/rmq_session.hpp 309-331 Session::bind *)
definition rm_bind :: "bool \<times> amqp_reply \<Rightarrow> bool \<times> amqp_reply \<Rightarrow> channel_id \<Rightarrow> exchange_info \<Rightarrow> queue_info \<Rightarrow> string \<Rightarrow>
    rmq_session \<Rightarrow> (bool \<times> rmq_session) option" where
  "rm_bind d b ch ex qu key s =
     do { s \<leftarrow> amqp (QueueDeclare ch qu) s;
          if \<not> fst d \<or> snd d \<noteq> ReplyNormal then Some (False, s)
          else do {
            s \<leftarrow> amqp (QueueBind ch (qu_name qu) (ex_name ex) key) s;
            Some (fst b \<and> snd b = ReplyNormal, s) } }"

section \<open>Writing\<close>

(* src: rmq/rmq_session.hpp 433-448 Session::write_inner *)
definition rm_write_inner :: "channel_id \<Rightarrow> string \<Rightarrow> bytes \<Rightarrow> bool \<times> bool \<times> bool \<Rightarrow> rmq_session \<Rightarrow> bool \<times> rmq_session" where
  "rm_write_inner ch key msg opts s =
     (if rm_max_wbuffer_size s > 0 \<and> rm_cur_wbuffer_size s + length msg > rm_max_wbuffer_size s then (False, s)
      else let buf = \<lparr>wi_channel_id = ch, wi_routing_key = key, wi_data = msg, wi_retry_count = 0,
                 wi_confirm = fst opts, wi_mandatory = fst (snd opts), wi_immediate = snd (snd opts)\<rparr>;
               s = s\<lparr>rm_cur_wbuffer_size := rm_cur_wbuffer_size s + length (wi_data buf)\<rparr>
           in if rm_cur_in_write s then (True, s\<lparr>rm_write_buf := rm_write_buf s @ [buf]\<rparr>)
              else (True, rm_async_write_inner buf (s\<lparr>rm_cur_in_write := True\<rparr>)))"

text \<open>The options are confirm, mandatory and immediate.\<close>

(* src: rmq/rmq_session.hpp 388-394 Session::write *)
definition rm_write_key :: "channel_id \<Rightarrow> string \<Rightarrow> bytes \<Rightarrow> bool \<times> bool \<times> bool \<Rightarrow> rmq_session \<Rightarrow> bool \<times> rmq_session" where
  "rm_write_key ch key msg opts s =
     (if \<not> rm_is_connecting_channel ch s then (False, s) else rm_write_inner ch key msg opts s)"

(* src: rmq/rmq_session.hpp 396-402 Session::write *)
definition rm_write_default :: "channel_id \<Rightarrow> bytes \<Rightarrow> bool \<times> bool \<times> bool \<Rightarrow> rmq_session \<Rightarrow> (bool \<times> rmq_session) option" where
  "rm_write_default ch msg opts s =
     (if \<not> rm_is_connecting_channel ch s then Some (False, s)
      else do { key \<leftarrow> rm_get_routing_key ch s; Some (rm_write_inner ch key msg opts s) })"

text \<open>The answers to a publication: its status and reply, and for a confirmed one the status and the frame.\<close>

datatype amqp_frame = AckFrame | NackFrame | DeliverFrame | ReturnFrame | ChannelCloseFrame | ConnectionCloseFrame
  | OtherFrame

record publish_answer =
  pa_status :: amqp_status
  pa_reply :: amqp_reply
  pa_wait :: amqp_status
  pa_frame :: amqp_frame

(* src: rmq/rmq_session.hpp 736-737 Session::handle_write *)
definition publish_key :: "rmq_channel \<Rightarrow> string" where
  "publish_key c = (if ex_name (ch_exchange c) = [] \<and> ch_routing_key c = [] then qu_name (ch_queue c) else ch_routing_key c)"

text \<open>The text is the one of amqp_error_string2 for the method's id, here for the status StatusOther 0.\<close>

(* src: rmq/rmq_session.hpp 752-776 Session::handle_write *)
definition rm_wait_confirm :: "rmq_env \<Rightarrow> publish_answer \<Rightarrow> channel_id \<Rightarrow> rmq_session \<Rightarrow> (bool \<times> rmq_session) option" where
  "rm_wait_confirm env pa ch s =
     (if pa_wait pa \<noteq> StatusOk
      then do { s \<leftarrow> rm_close_channel env (''wait confirm frame fail: '' @ error_string env (pa_wait pa)) ch s; Some (False, s) }
      else if pa_frame pa \<in> {ReturnFrame, ChannelCloseFrame, ConnectionCloseFrame}
      then do { s \<leftarrow> rm_close_channel env (''wait confirm frame fail: '' @ error_string env (StatusOther 0)) ch s; Some (False, s) }
      else Some (True, s))"

text \<open>What follows the publication, and the call itself.\<close>

(* src: rmq/rmq_session.hpp 741-780 Session::handle_write *)
definition rm_published :: "rmq_env \<Rightarrow> publish_answer \<Rightarrow> write_buf_info \<Rightarrow> rmq_session \<Rightarrow> rmq_session option" where
  "rm_published env pa buf s =
     (if pa_status pa \<noteq> StatusOk
      then do {
        s \<leftarrow> rm_event env (MsgWritten False (wi_channel_id buf) (wi_data buf)) s;
        rm_close_channel env (''write fail: '' @ error_string env (pa_status pa)) (wi_channel_id buf) s }
      else do {
        (ok, s) \<leftarrow> rm_check_connection env (pa_reply pa) (wi_channel_id buf) ''check publish'' s;
        (ok, s) \<leftarrow> (if ok \<and> wi_confirm buf then rm_wait_confirm env pa (wi_channel_id buf) s else Some (ok, s));
        if ok then rm_event env (MsgWritten True (wi_channel_id buf) (wi_data buf)) s else Some s })"

(* src: rmq/rmq_session.hpp 735-739 Session::handle_write *)
definition publishing :: "write_buf_info \<Rightarrow> rmq_channel \<Rightarrow> amqp_call" where
  "publishing buf c = BasicPublish (wi_channel_id buf) (ex_name (ch_exchange c)) (publish_key c)
     (wi_mandatory buf) (wi_immediate buf) (wi_data buf)"

(* src: rmq/rmq_session.hpp 727-780 Session::handle_write *)
definition rm_publish :: "rmq_env \<Rightarrow> publish_answer \<Rightarrow> write_buf_info \<Rightarrow> rmq_session \<Rightarrow> rmq_session option" where
  "rm_publish env pa buf s =
     do { c \<leftarrow> rm_get_channel (wi_channel_id buf) s;
          case c of
            None \<Rightarrow> Some s
          | Some c \<Rightarrow> do {
              s \<leftarrow> (if wi_confirm buf then amqp (ConfirmSelect (wi_channel_id buf)) s else Some s);
              s \<leftarrow> amqp (publishing buf c) s;
              rm_published env pa buf s } }"

text \<open>The guard that runs when handle_write returns.\<close>

(* src: rmq/rmq_session.hpp 705-718 Session::handle_write *)
definition rm_write_next :: "write_buf_info \<Rightarrow> rmq_session \<Rightarrow> rmq_session" where
  "rm_write_next buf s =
     (let s = s\<lparr>rm_cur_wbuffer_size := rm_cur_wbuffer_size s - length (wi_data buf)\<rparr>
      in case rm_write_buf s of
           [] \<Rightarrow> s\<lparr>rm_cur_in_write := False\<rparr>
         | buf # rest \<Rightarrow> rm_async_write_inner buf (s\<lparr>rm_write_buf := rest\<rparr>))"

(* src: rmq/rmq_session.hpp 704-781 Session::handle_write *)
definition rm_handle_write :: "rmq_env \<Rightarrow> publish_answer \<Rightarrow> write_buf_info \<Rightarrow> rmq_session \<Rightarrow> rmq_session option" where
  "rm_handle_write env pa buf s =
     do { s \<leftarrow> (if rm_has_stoped_channel (wi_channel_id buf) s
               then rm_event env (MsgWritten False (wi_channel_id buf) (wi_data buf)) s
               else rm_publish env pa buf s);
          Some (rm_write_next buf s) }"

section \<open>The session with its users and its threads\<close>

datatype rmq_call = Connect connect_info | Reconnect | ReconnectChannel channel_id | Shutdown
  | ShutdownChannel channel_id | Ack channel_id u64 bool | WriteKey channel_id string bytes "bool \<times> bool \<times> bool"
  | Write channel_id bytes "bool \<times> bool \<times> bool" | SetDefault channel_info
  | SetParam channel_id consumer_info "channel_info option"
  | Create exchange_info queue_info u32 string bool channel_id
  | Bind "bool \<times> amqp_reply" "bool \<times> amqp_reply" channel_id exchange_info queue_info string

fun run_rmq_call :: "rmq_env \<Rightarrow> rmq_call \<Rightarrow> rmq_session \<Rightarrow> rmq_session option" where
  "run_rmq_call env (Connect ci) s = Some (rm_connect ci s)"
| "run_rmq_call env Reconnect s = Some (rm_reconnect s)"
| "run_rmq_call env (ReconnectChannel ch) s = rm_reconnect_channel ch s"
| "run_rmq_call env Shutdown s = rm_shutdown env s"
| "run_rmq_call env (ShutdownChannel ch) s = rm_shutdown_channel env ch s"
| "run_rmq_call env (Ack ch tag multiple) s = rm_ack ch tag multiple s"
| "run_rmq_call env (WriteKey ch key msg opts) s = Some (snd (rm_write_key ch key msg opts s))"
| "run_rmq_call env (Write ch msg opts) s = map_option snd (rm_write_default ch msg opts s)"
| "run_rmq_call env (SetDefault c) s = Some (rm_set_channel_default_param c s)"
| "run_rmq_call env (SetParam ch co info) s = map_option snd (rm_set_channel_param ch co info s)"
| "run_rmq_call env (Create ex qu rw key auto_ack n) s =
     map_option (\<lambda>z. snd (snd z)) (rm_create_channel_inner ex qu rw key auto_ack (n, s))"
| "run_rmq_call env (Bind d b ch ex qu key) s = map_option snd (rm_bind d b ch ex qu key s)"

fun run_rmq_calls :: "rmq_env \<Rightarrow> rmq_call list \<Rightarrow> rmq_session \<Rightarrow> rmq_session option" where
  "run_rmq_calls env [] s = Some s"
| "run_rmq_calls env (c # cs) s = Option.bind (run_rmq_call env c s) (run_rmq_calls env cs)"

text \<open>
  The environment of a user whose callback for an event e makes the calls f e. These may run callbacks
  again, here n deep; deeper ones count as never returning.
\<close>

fun user :: "(amqp_status \<Rightarrow> string) \<Rightarrow> (rmq_event \<Rightarrow> rmq_call list) \<Rightarrow> nat \<Rightarrow> rmq_env" where
  "user es f 0 = \<lparr>on_event = (\<lambda>e s. None), error_string = es\<rparr>"
| "user es f (Suc n) = \<lparr>on_event = (\<lambda>e. run_rmq_calls (user es f n) (f e)), error_string = es\<rparr>"

text \<open>What the library answers while a task runs.\<close>

record amqp_answers =
  an_connect :: connect_reply
  an_channels :: "channel_id \<Rightarrow> nat \<Rightarrow> bool \<times> amqp_reply"
  an_envelope :: amqp_envelope
  an_reply :: amqp_reply
  an_publish :: publish_answer

fun run_rmq_task :: "rmq_env \<Rightarrow> amqp_answers \<Rightarrow> rmq_task \<Rightarrow> rmq_session \<Rightarrow> rmq_session option" where
  "run_rmq_task env an HandleConnect s = rm_handle_connect env (an_channels an) (an_connect an) s"
| "run_rmq_task env an HandleRead s = rm_handle_read env (an_envelope an) (an_reply an) s"
| "run_rmq_task env an (CloseChannel msg ch) s = rm_close_channel env msg ch s"
| "run_rmq_task env an (HandleChannel ch c) s = map_option snd (rm_handle_channel env (an_channels an ch) ch c s)"

text \<open>
  A step: a user calls the session, the read thread runs its first task, or the write thread its.
  The code runs the two threads and its users without a common lock; here each task and each call is
  one step, so what happens when the write thread uses the connection or the channels in the middle
  of a task of the read thread, as when handle_read closes the session, is outside the model.
  The state None is undefined behaviour.
\<close>

inductive rmq_step :: "rmq_env \<Rightarrow> rmq_session option \<Rightarrow> rmq_session option \<Rightarrow> bool" for env where
  user_call: "rmq_step env (Some s) (run_rmq_call env c s)"
| read_thread: "rm_read_thread s = t # ts \<Longrightarrow> rmq_step env (Some s) (run_rmq_task env an t (s\<lparr>rm_read_thread := ts\<rparr>))"
| write_thread: "rm_write_thread s = buf # bufs \<Longrightarrow>
    rmq_step env (Some s) (rm_handle_write env (an_publish (an :: amqp_answers)) buf (s\<lparr>rm_write_thread := bufs\<rparr>))"

end
