(* ===== verification/Rmq_Behaviour.thy ===== *)
theory Rmq_Behaviour
  imports Rmq_Session
begin

text \<open>
  What the session of RabbitMQ keeps while users call it and its two threads run: the queue of
  messages to write, the state of the connection, and where it goes wrong. The interface
  rmq_relation says which elementary changes a relation must allow to hold across whole functions
  with the callbacks they run; its four interpretations carry the properties.
\<close>

section \<open>What the session's functions keep\<close>

fun is_publish :: "amqp_call \<Rightarrow> bool" where
  "is_publish (BasicPublish ch ex key m i d) = True"
| "is_publish _ = False"

fun is_session_event :: "rmq_event \<Rightarrow> bool" where
  "is_session_event Opened = True"
| "is_session_event (SessionClosed msg) = True"
| "is_session_event _ = False"

text \<open>
  A relation between sessions that is kept by the elementary changes is kept by whole functions, with
  the callbacks they run. The elementary changes are those of the logs, of a channel's switch, of
  close, of connect, of a task for the read thread, of an accepted write and of the channels.
\<close>

locale rmq_relation =
  fixes R :: "rmq_session \<Rightarrow> rmq_session \<Rightarrow> bool"
  assumes refl: "R s s"
    and trans: "R s t \<Longrightarrow> R t u \<Longrightarrow> R s u"
    and event: "\<not> is_session_event e \<Longrightarrow> R s (s\<lparr>rm_events := rm_events s @ [e]\<rparr>)"
    and call: "\<not> is_publish c \<Longrightarrow> R s (s\<lparr>rm_calls := rm_calls s @ [c]\<rparr>)"
    and switched: "R s (rm_set_sw ch w s)"
    and closed: "fst (as_stop (rm_switch s)) \<Longrightarrow>
      R s (s\<lparr>rm_calls := rm_calls s @ [ConnectionClose], rm_connection := False, rm_channels_switch := f,
             rm_switch := as_reset (snd (as_stop (rm_switch s))), rm_events := rm_events s @ [SessionClosed msg]\<rparr>)"
    and connect: "R s (rm_connect ci s)"
    and task: "k \<noteq> HandleConnect \<Longrightarrow> R s (s\<lparr>rm_read_thread := rm_read_thread s @ [k]\<rparr>)"
    and accepted: "has_started (rm_switch s) \<Longrightarrow> R s (snd (rm_write_inner ch key data opts s))"
    and channels: "R s (s\<lparr>rm_channels := cs\<rparr>)"
    and default: "R s (s\<lparr>rm_default_channel := d\<rparr>)"
begin

definition keeps :: "rmq_env \<Rightarrow> bool" where
  "keeps env \<longleftrightarrow> (\<forall>e s s'. on_event env e s = Some s' \<longrightarrow> R s s')"

lemma keeps_event: "keeps env \<Longrightarrow> \<not> is_session_event e \<Longrightarrow> rm_event env e s = Some s' \<Longrightarrow> R s s'"
  using event trans by (fastforce simp: rm_event_def keeps_def)

lemma keeps_amqp: "\<not> is_publish c \<Longrightarrow> amqp c s = Some s' \<Longrightarrow> R s s'"
  using call by (auto simp: amqp_def split: if_splits)

lemma keeps_events:
  assumes "keeps env"
  shows "rm_event env (ChannelOpened ch) s = Some s' \<Longrightarrow> R s s'"
    "rm_event env (ChannelClosed ch msg) s = Some s' \<Longrightarrow> R s s'"
    "rm_event env (MsgRead ch tag body) s = Some s' \<Longrightarrow> R s s'"
    "rm_event env (MsgWritten ok ch body) s = Some s' \<Longrightarrow> R s s'"
  by (erule keeps_event [OF assms, rotated], simp)+

lemma keeps_amqps:
  "amqp (ChannelClose ch) s = Some s' \<Longrightarrow> R s s'" "amqp (BasicQos ch ci) s = Some s' \<Longrightarrow> R s s'"
  "amqp (QueueDeclare ch qu) s = Some s' \<Longrightarrow> R s s'" "amqp (QueueBind ch x y z) s = Some s' \<Longrightarrow> R s s'"
  "amqp (BasicAck ch tag multiple) s = Some s' \<Longrightarrow> R s s'" "amqp (ConfirmSelect ch) s = Some s' \<Longrightarrow> R s s'"
  by (erule keeps_amqp [rotated], simp)+

lemma keeps_close:
  assumes "keeps env" "rm_close env msg s = Some s'"
  shows "R s s'"
proof (cases "fst (as_stop (rm_switch s))")
  case True
  let ?s = "s\<lparr>rm_calls := rm_calls s @ [ConnectionClose], rm_connection := False,
      rm_channels_switch := (\<lambda>ch. map_option as_reset (rm_channels_switch s ch)),
      rm_switch := as_reset (snd (as_stop (rm_switch s))), rm_events := rm_events s @ [SessionClosed msg]\<rparr>"
  have "on_event env (SessionClosed msg) ?s = Some s'"
    using assms(2) True by (auto simp: rm_close_def split_beta Let_def amqp_def rm_event_def split: if_splits)
  then have "R ?s s'" using assms(1) by (simp add: keeps_def)
  then show ?thesis by (rule trans [OF closed [OF True]])
next
  case False
  then show ?thesis using assms refl by (simp add: rm_close_def split_beta)
qed

lemma keeps_close_channel:
  assumes "keeps env" "rm_close_channel env msg ch s = Some s'"
  shows "R s s'"
proof (cases "has_started (rm_sw ch s)")
  case True
  show ?thesis
  proof (cases "fst (as_stop (rm_sw ch s))")
    case ok: True
    let ?s1 = "rm_set_sw ch (snd (as_stop (rm_sw ch s))) s"
    obtain s2 where s2: "amqp (ChannelClose ch) ?s1 = Some s2"
      and e: "rm_event env (ChannelClosed ch msg) (rm_set_sw ch (as_reset (rm_sw ch s2)) s2) = Some s'"
      using assms(2) True ok by (auto simp: rm_close_channel_def split_beta Let_def split: bind_splits)
    have "R s ?s1" by (rule switched)
    moreover have "R ?s1 s2" by (rule keeps_amqps(1) [OF s2])
    moreover have "R s2 (rm_set_sw ch (as_reset (rm_sw ch s2)) s2)" by (rule switched)
    moreover have "R (rm_set_sw ch (as_reset (rm_sw ch s2)) s2) s'" by (rule keeps_events(2) [OF assms(1) e])
    ultimately show ?thesis using trans by blast
  next
    case False
    then show ?thesis using assms(2) True switched by (simp add: rm_close_channel_def split_beta Let_def) blast
  qed
next
  case False
  then have "rm_event env (ChannelClosed ch msg) (rm_set_sw ch (as_reset (rm_sw ch s)) s) = Some s'"
    using assms(2) by (simp add: rm_close_channel_def)
  from trans [OF switched keeps_events(2) [OF assms(1) this]] show ?thesis .
qed

lemma keeps_read: "R s (rm_read s)"
  unfolding rm_read_def by (rule task) simp

lemma keeps_call:
  assumes "keeps env" "run_rmq_call env c s = Some s'"
  shows "R s s'"
proof (cases c)
  case (WriteKey ch key msg opts)
  then show ?thesis using assms
    by (auto simp: rm_write_key_def rm_is_connecting_channel_def split: option.splits if_splits intro: accepted refl)
next
  case (Write ch msg opts)
  then show ?thesis using assms
    by (auto simp: rm_write_default_def rm_is_connecting_channel_def split: option.splits if_splits bind_splits
        intro: refl) (metis accepted snd_conv)+
next
  case (Create ex qu rw key auto_ack n)
  then show ?thesis using assms refl trans [OF channels switched]
    by (auto simp: rm_create_channel_inner_def rm_insert_channel_def Let_def split: if_splits bind_splits)
next
  case (Bind d b ch ex qu key)
  then show ?thesis using assms
    by (auto simp: rm_bind_def split: if_splits bind_splits dest!: keeps_amqps intro: trans)
next
  case (ReconnectChannel ch)
  then show ?thesis using assms task
    by (auto simp: rm_reconnect_channel_def split: option.splits bind_splits)
next
  case (SetParam ch co info)
  then show ?thesis using assms refl channels
    by (auto simp: rm_set_channel_param_def split: if_splits)
next
  case (Ack ch tag multiple)
  then show ?thesis using assms by (auto simp: rm_ack_def dest: keeps_amqps)
next
  case Shutdown
  then show ?thesis using assms keeps_close by (simp add: rm_shutdown_def)
next
  case (ShutdownChannel ch)
  then show ?thesis using assms keeps_close_channel refl by (auto simp: rm_shutdown_channel_def split: if_splits)
qed (use assms connect default in \<open>simp_all add: rm_reconnect_def rm_set_channel_default_param_def, auto\<close>)

lemma keeps_calls: "keeps env \<Longrightarrow> run_rmq_calls env cs s = Some s' \<Longrightarrow> R s s'"
  by (induction cs arbitrary: s) (auto simp: refl split: bind_splits intro: trans dest: keeps_call)

lemma keeps_user: "keeps (user es f n)"
  by (induction n) (auto simp: keeps_def dest: keeps_calls [unfolded keeps_def])

lemma keeps_check_connection:
  "keeps env \<Longrightarrow> rm_check_connection env r ch title s = Some (ok, s') \<Longrightarrow> R s s'"
  by (auto simp: rm_check_connection_def refl keeps_close_channel split: if_splits amqp_reply.splits bind_splits)

lemma keeps_rpc:
  assumes "keeps env" "rm_rpc env r c failed title ch s = Some (ok, s')" "\<not> is_publish c"
  shows "R s s'"
  using assms by (auto simp: rm_rpc_def split: bind_splits if_splits
    dest!: keeps_amqp [OF assms(3)] keeps_close_channel [OF assms(1)] keeps_check_connection [OF assms(1)] intro: trans)

lemma keeps_and_then:
  assumes "\<And>s s' ok. f s = Some (ok, s') \<Longrightarrow> R s s'" "\<And>s s' ok. g s = Some (ok, s') \<Longrightarrow> R s s'"
    "and_then f g s = Some (ok, s')"
  shows "R s s'"
  using assms(3) by (auto simp: and_then_def split: bind_splits if_splits dest!: assms(1,2) intro: trans)

lemma keeps_declare_exchange:
  "keeps env \<Longrightarrow> rm_declare_exchange env rs ch c s = Some (ok, s') \<Longrightarrow> R s s'"
  by (auto simp: rm_declare_exchange_def refl split: if_splits bind_splits
      dest!: keeps_amqps keeps_rpc intro: trans)

lemma keeps_declare_queue:
  assumes "keeps env" "rm_declare_queue env rs ch c s = Some (ok, s')"
  shows "R s s'"
  using assms(2) by (auto simp: rm_declare_queue_def refl split: if_splits
      elim!: keeps_and_then [rotated 2] keeps_rpc [OF assms(1)])

lemma keeps_channel_ready:
  assumes "keeps env" "rm_channel_ready env ch s = Some (ok, s')"
  shows "R s s'"
proof -
  have "rm_event env (ChannelOpened ch) (rm_set_sw ch (snd (as_start (rm_sw ch s))) s) = Some s'"
    using assms(2) by (auto simp: rm_channel_ready_def split: bind_splits)
  from trans [OF switched keeps_events(1) [OF assms(1) this]] show ?thesis .
qed

lemma keeps_handle_channel:
  assumes "keeps env" "rm_handle_channel env rs ch c s = Some (ok, s')"
  shows "R s s'"
proof -
  let ?s = "rm_set_sw ch (snd (as_init (rm_sw ch s))) s"
  let ?g = "and_then (rm_declare_exchange env rs ch c) (and_then (rm_declare_queue env rs ch c) (rm_channel_ready env ch))"
  have g: "R t s'" if "?g t = Some (ok, s')" for t ok s'
    by (rule keeps_and_then [OF keeps_declare_exchange [OF assms(1)] keeps_and_then
          [OF keeps_declare_queue [OF assms(1)] keeps_channel_ready [OF assms(1)]] that])
  show ?thesis
  proof (cases "fst (as_init (rm_sw ch s))")
    case True
    then have "and_then (rm_rpc env (rs 0) (ChannelOpen ch) ''open channel fail'' ''check channel'' ch) ?g ?s = Some (ok, s')"
      using assms(2) by (simp add: rm_handle_channel_def split_beta Let_def)
    then have "R ?s s'"
    proof (rule keeps_and_then [rotated 2])
      show "R t t'" if "rm_rpc env (rs 0) (ChannelOpen ch) ''open channel fail'' ''check channel'' ch t = Some (k, t')" for t t' k
        by (rule keeps_rpc [OF assms(1) that]) simp
    qed (rule g)
    then show ?thesis by (rule trans [OF switched])
  next
    case False
    then have "s' = ?s" using assms(2) by (simp add: rm_handle_channel_def split_beta Let_def)
    then show ?thesis using switched by simp
  qed
qed

lemma keeps_open_channels:
  "keeps env \<Longrightarrow> rm_open_channels env rs cs s = Some (need, s') \<Longrightarrow> R s s'"
proof (induction cs arbitrary: s need)
  case (Cons x cs)
  obtain ch c where [simp]: "x = (ch, c)" by force
  show ?case using Cons.prems(2)
    by (auto split: bind_splits dest!: keeps_handle_channel [OF Cons.prems(1)] Cons.IH [OF Cons.prems(1)] intro: trans)
qed (simp add: refl)

lemma keeps_handle_read:
  assumes "keeps env" "rm_handle_read env en r s = Some s'"
  shows "R s s'"
  using assms(2)
  by (auto simp: rm_handle_read_def rm_auto_ack_def keeps_read split: if_splits bind_splits option.splits
      dest!: keeps_events [OF assms(1)] keeps_close [OF assms(1)] keeps_close_channel [OF assms(1)]
        keeps_amqps intro: trans keeps_read)

lemma keeps_task:
  assumes "keeps env" "t \<noteq> HandleConnect" "run_rmq_task env an t s = Some s'"
  shows "R s s'"
  using assms by (cases t) (auto dest: keeps_handle_read keeps_close_channel keeps_handle_channel)

lemma keeps_wait_confirm:
  "keeps env \<Longrightarrow> rm_wait_confirm env pa ch s = Some (ok, s') \<Longrightarrow> R s s'"
  by (auto simp: rm_wait_confirm_def refl split: if_splits bind_splits dest: keeps_close_channel)

text \<open>Of a publication, everything but the call that publishes.\<close>

lemma keeps_published:
  assumes "keeps env" "rm_published env pa buf s = Some s'"
  shows "R s s'"
  using assms(2) by (auto simp: rm_published_def split: if_splits bind_splits
    dest!: keeps_events(4) [OF assms(1)] keeps_close_channel [OF assms(1)] keeps_check_connection [OF assms(1)]
      keeps_wait_confirm [OF assms(1)] intro: trans) (metis trans)+

lemma keeps_publish:
  assumes "keeps env" "rm_publish env pa buf s = Some s'"
  shows "R s s' \<or> (\<exists>s1 c. R s s1 \<and> R (s1\<lparr>rm_calls := rm_calls s1 @ [publishing buf c]\<rparr>) s')"
proof -
  obtain co where co: "rm_get_channel (wi_channel_id buf) s = Some co"
    using assms(2) by (auto simp: rm_publish_def split: bind_splits)
  show ?thesis
  proof (cases co)
    case (Some c)
    obtain s1 s2 where 1: "(if wi_confirm buf then amqp (ConfirmSelect (wi_channel_id buf)) s else Some s) = Some s1"
      and 2: "amqp (publishing buf c) s1 = Some s2" and 3: "rm_published env pa buf s2 = Some s'"
      using assms(2) Some co by (auto simp: rm_publish_def split: bind_splits)
    have "R s s1" using 1 refl by (auto split: if_splits dest: keeps_amqps)
    moreover have "s2 = s1\<lparr>rm_calls := rm_calls s1 @ [publishing buf c]\<rparr>" using 2 by (auto simp: amqp_def split: if_splits)
    ultimately show ?thesis using keeps_published [OF assms(1) 3] by blast
  qed (use assms(2) co refl in \<open>simp add: rm_publish_def\<close>)
qed

lemma keeps_before_next:
  assumes "keeps env" "rm_handle_write env pa buf s = Some s'"
  obtains s1 where "s' = rm_write_next buf s1"
    "R s s1 \<or> (\<exists>s0 c. R s s0 \<and> R (s0\<lparr>rm_calls := rm_calls s0 @ [publishing buf c]\<rparr>) s1)"
proof -
  obtain s1 where s1: "s' = rm_write_next buf s1"
    "(if rm_has_stoped_channel (wi_channel_id buf) s
      then rm_event env (MsgWritten False (wi_channel_id buf) (wi_data buf)) s else rm_publish env pa buf s) = Some s1"
    using assms(2) by (auto simp: rm_handle_write_def split: bind_splits)
  have "R s s1 \<or> (\<exists>s0 c. R s s0 \<and> R (s0\<lparr>rm_calls := rm_calls s0 @ [publishing buf c]\<rparr>) s1)"
    using s1(2) keeps_publish [OF assms(1)] keeps_events(4) [OF assms(1)] by (auto split: if_splits)
  then show thesis using that s1(1) by blast
qed

end

section \<open>The messages to write\<close>

definition rm_queue :: "rmq_session \<Rightarrow> write_buf_info list" where
  "rm_queue s = rm_write_thread s @ rm_write_buf s"

definition publishes :: "rmq_session \<Rightarrow> amqp_call list" where
  "publishes s = filter is_publish (rm_calls s)"

definition pending_bytes :: "write_buf_info list \<Rightarrow> nat" where
  "pending_bytes bufs = sum_list (map (\<lambda>buf. length (wi_data buf)) bufs)"

lemma pending_bytes_simps [simp]: "pending_bytes [] = 0" "pending_bytes (x # xs) = length (wi_data x) + pending_bytes xs"
    "pending_bytes (xs @ ys) = pending_bytes xs + pending_bytes ys"
  by (simp_all add: pending_bytes_def)

text \<open>
  The write side while F is being written: the size counts what waits and what is written, it stays
  within the bound, and a session that says it is writing is.
\<close>

definition writes_ok :: "write_buf_info list \<Rightarrow> rmq_session \<Rightarrow> bool" where
  "writes_ok F s \<longleftrightarrow> rm_cur_wbuffer_size s = pending_bytes (F @ rm_queue s) \<and>
     (0 < rm_max_wbuffer_size s \<longrightarrow> rm_cur_wbuffer_size s \<le> rm_max_wbuffer_size s) \<and>
     (if rm_cur_in_write s then F @ rm_write_thread s \<noteq> [] else rm_write_buf s = [])"

definition writes_on :: "rmq_session \<Rightarrow> rmq_session \<Rightarrow> bool" where
  "writes_on s s' \<longleftrightarrow> (\<forall>F. writes_ok F s \<longrightarrow> writes_ok F s' \<and> (\<exists>new. rm_queue s' = rm_queue s @ new)) \<and>
     publishes s' = publishes s \<and> rm_max_wbuffer_size s' = rm_max_wbuffer_size s"

text \<open>A change that leaves the write side alone.\<close>

lemma writes_ok_cong:
  assumes "rm_write_thread s' = rm_write_thread s" "rm_write_buf s' = rm_write_buf s"
    "rm_cur_wbuffer_size s' = rm_cur_wbuffer_size s" "rm_max_wbuffer_size s' = rm_max_wbuffer_size s"
    "rm_cur_in_write s' = rm_cur_in_write s"
  shows "writes_ok F s' = writes_ok F s" "rm_queue s' = rm_queue s"
  unfolding writes_ok_def rm_queue_def assms by (rule HOL.refl)+

lemma writes_on_same:
  assumes "rm_write_thread s' = rm_write_thread s" "rm_write_buf s' = rm_write_buf s"
    "rm_cur_wbuffer_size s' = rm_cur_wbuffer_size s" "rm_max_wbuffer_size s' = rm_max_wbuffer_size s"
    "rm_cur_in_write s' = rm_cur_in_write s" "publishes s' = publishes s"
  shows "writes_on s s'"
  unfolding writes_on_def writes_ok_cong [OF assms(1-5)] using assms(4,6) by simp

lemma writes_on_trans: "writes_on s t \<Longrightarrow> writes_on t u \<Longrightarrow> writes_on s u"
  unfolding writes_on_def by (metis append.assoc)

lemma writes_on_accepted: "writes_on s (snd (rm_write_inner ch key msg opts s))"
  by (auto simp: writes_on_def writes_ok_def rm_write_inner_def rm_async_write_inner_def rm_queue_def Let_def
      publishes_def)

interpretation rq: rmq_relation writes_on
proof
  show "writes_on s u" if "writes_on s t" "writes_on t u" for s t u using that by (rule writes_on_trans)
  show "writes_on s (s\<lparr>rm_calls := rm_calls s @ [c]\<rparr>)" if "\<not> is_publish c" for s c
    using that by (intro writes_on_same) (simp_all add: publishes_def)
  show "writes_on s (snd (rm_write_inner ch key data opts s))" for s ch key data opts by (rule writes_on_accepted)
qed (rule writes_on_same; simp add: publishes_def rm_set_sw_def rm_connect_def split_beta Let_def)+

lemma writes_on_ok: "writes_on s s' \<Longrightarrow> writes_ok F s \<Longrightarrow> writes_ok F s'"
  by (auto simp: writes_on_def)

lemma writes_ok_next:
  assumes "writes_ok [buf] s"
  shows "writes_ok [] (rm_write_next buf s)" "rm_queue (rm_write_next buf s) = rm_queue s"
    "publishes (rm_write_next buf s) = publishes s" "rm_max_wbuffer_size (rm_write_next buf s) = rm_max_wbuffer_size s"
  using assms by (auto simp: writes_ok_def rm_write_next_def rm_async_write_inner_def rm_queue_def publishes_def Let_def
      split: list.splits)

text \<open>The write thread takes its first message; at most that one is published.\<close>

lemma write_thread_ok:
  assumes "rq.keeps env" "writes_ok [] s" "rm_write_thread s = buf # bufs"
    "rm_handle_write env pa buf (s\<lparr>rm_write_thread := bufs\<rparr>) = Some s'"
  shows "writes_ok [] s' \<and> rm_max_wbuffer_size s' = rm_max_wbuffer_size s \<and>
    (\<exists>new. rm_queue s' = bufs @ rm_write_buf s @ new) \<and>
    (\<exists>ps. publishes s' = publishes s @ ps \<and> (ps = [] \<or> (\<exists>c. ps = [publishing buf c])))"
proof -
  let ?s = "s\<lparr>rm_write_thread := bufs\<rparr>"
  have ok: "writes_ok [buf] ?s"
    using assms(2,3) by (auto simp: writes_ok_def rm_queue_def split: if_splits)
  obtain s1 where s1: "s' = rm_write_next buf s1"
    "writes_on ?s s1 \<or> (\<exists>s0 c. writes_on ?s s0 \<and> writes_on (s0\<lparr>rm_calls := rm_calls s0 @ [publishing buf c]\<rparr>) s1)"
    using rq.keeps_before_next [OF assms(1,4)] by blast
  have 2: "writes_ok [buf] s1 \<and> rm_max_wbuffer_size s1 = rm_max_wbuffer_size s \<and> (\<exists>new. rm_queue s1 = rm_queue ?s @ new) \<and>
      (\<exists>ps. publishes s1 = publishes s @ ps \<and> (ps = [] \<or> (\<exists>c. ps = [publishing buf c])))"
    using s1(2)
  proof (elim disjE exE conjE)
    assume "writes_on ?s s1"
    then show ?thesis using ok by (auto simp: writes_on_def publishes_def)
  next
    fix s0 c assume a: "writes_on ?s s0" and b: "writes_on (s0\<lparr>rm_calls := rm_calls s0 @ [publishing buf c]\<rparr>) s1"
    let ?pub = "s0\<lparr>rm_calls := rm_calls s0 @ [publishing buf c]\<rparr>"
    have "writes_ok [buf] s0" using a ok by (rule writes_on_ok)
    then have 0: "writes_ok [buf] ?pub" by (subst writes_ok_cong(1)) simp_all
    obtain n1 where n1: "rm_queue s0 = rm_queue ?s @ n1" using a ok by (auto simp: writes_on_def)
    obtain n2 where n2: "rm_queue s1 = rm_queue ?pub @ n2" using b 0 by (auto simp: writes_on_def)
    have "publishes s1 = publishes ?pub" "publishes s0 = publishes s" "rm_max_wbuffer_size s1 = rm_max_wbuffer_size s"
      using a b by (simp_all add: writes_on_def publishes_def)
    moreover have "publishes ?pub = publishes s0 @ [publishing buf c]" by (simp add: publishes_def publishing_def)
    moreover have "rm_queue ?pub = rm_queue s0" by (simp add: rm_queue_def)
    ultimately show ?thesis using writes_on_ok [OF b 0] n1 n2 by auto
  qed
  moreover have "rm_queue ?s = bufs @ rm_write_buf s" by (simp add: rm_queue_def)
  ultimately show ?thesis using writes_ok_next [of buf s1] s1(1) by auto
qed

lemma resume_write_ok:
  "writes_ok [] s \<Longrightarrow> rm_resume_write s = Some s' \<Longrightarrow>
     writes_ok [] s' \<and> rm_queue s' = rm_queue s \<and> publishes s' = publishes s \<and>
     rm_max_wbuffer_size s' = rm_max_wbuffer_size s"
  by (auto simp: rm_resume_write_def rm_async_write_inner_def writes_ok_def rm_queue_def publishes_def
      split: if_splits list.splits)

text \<open>A session that says it writes although nothing is left to write next resumes into the void.\<close>

lemma resume_write_None: "rm_cur_in_write s \<Longrightarrow> rm_write_buf s = [] \<Longrightarrow> rm_resume_write s = None"
  by (simp add: rm_resume_write_def)

definition queue_on :: "rmq_session \<Rightarrow> rmq_session \<Rightarrow> bool" where
  "queue_on s s' \<longleftrightarrow> writes_ok [] s' \<and> (\<exists>new. rm_queue s' = rm_queue s @ new) \<and> publishes s' = publishes s \<and>
     rm_max_wbuffer_size s' = rm_max_wbuffer_size s"

lemma queue_on_writes: "writes_ok [] s \<Longrightarrow> writes_on s s' \<Longrightarrow> queue_on s s'"
  by (auto simp: queue_on_def writes_on_def)

lemma queue_on_trans: "queue_on s t \<Longrightarrow> queue_on t u \<Longrightarrow> queue_on s u"
  unfolding queue_on_def by (metis append.assoc)

lemma queue_on_ok: "queue_on s s' \<Longrightarrow> writes_ok [] s'"
  by (simp add: queue_on_def)

lemma login_writes:
  assumes "rq.keeps env" "writes_ok [] s" "rm_handle_login env rs r s = Some s'"
  shows "queue_on s s'"
proof (cases "r = ReplyNormal")
  case True
  let ?w = "as_start (rm_switch s)"
  obtain s1 s2 s3 need where
    1: "(if fst ?w then rm_event env Opened (s\<lparr>rm_switch := snd ?w\<rparr>) else Some (s\<lparr>rm_switch := snd ?w\<rparr>)) = Some s1"
    and 2: "rm_open_channels env rs (rm_channels s1) (s1\<lparr>rm_channels_locked := True\<rparr>) = Some (need, s2)"
    and 3: "rm_resume_write (s2\<lparr>rm_channels_locked := False\<rparr>) = Some s3"
    and 4: "s' = (if need then rm_read s3 else s3)"
    using assms(3) True
    by (auto simp: rm_handle_login_def split_beta Let_def split: bind_splits if_splits)
  have same: "writes_on t (t\<lparr>rm_channels_locked := b\<rparr>)" "writes_on t (t\<lparr>rm_switch := w\<rparr>)"
    "writes_on t (t\<lparr>rm_switch := w, rm_events := es\<rparr>)" for t b w es
    by (rule writes_on_same; simp add: publishes_def)+
  have "writes_on s s1"
  proof (cases "fst ?w")
    case True
    then have "on_event env Opened (s\<lparr>rm_switch := snd ?w, rm_events := rm_events s @ [Opened]\<rparr>) = Some s1"
      using 1 by (simp add: rm_event_def)
    then show ?thesis using assms(1) writes_on_trans [OF same(3)] by (simp add: rq.keeps_def) blast
  next
    case False
    then have "s1 = s\<lparr>rm_switch := snd ?w\<rparr>" using 1 by simp
    then show ?thesis using same(2) by simp
  qed
  then have "writes_on s (s2\<lparr>rm_channels_locked := False\<rparr>)"
    using writes_on_trans same(1) rq.keeps_open_channels [OF assms(1) 2] by blast
  then have q: "queue_on s (s2\<lparr>rm_channels_locked := False\<rparr>)" by (rule queue_on_writes [OF assms(2)])
  have "queue_on (s2\<lparr>rm_channels_locked := False\<rparr>) s3"
    using resume_write_ok [OF queue_on_ok [OF q] 3] by (simp add: queue_on_def)
  from queue_on_trans [OF q this] have q3: "queue_on s s3" .
  then show ?thesis
    using queue_on_trans [OF q3 queue_on_writes [OF queue_on_ok [OF q3] rq.keeps_read]] 4 by (simp split: if_splits)
next
  case False
  then have "writes_on s s'" using assms(3) rq.keeps_close [OF assms(1)] by (simp add: rm_handle_login_def)
  then show ?thesis by (rule queue_on_writes [OF assms(2)])
qed

lemma connect_writes:
  assumes "rq.keeps env" "writes_ok [] s" "rm_handle_connect env rs r s = Some s'"
  shows "queue_on s s'"
proof -
  have c: "writes_on s (s\<lparr>rm_connection := b\<rparr>)" for b by (rule writes_on_same) (simp_all add: publishes_def)
  have ok: "writes_ok [] (s\<lparr>rm_connection := b\<rparr>)" for b by (rule writes_on_ok [OF c assms(2)])
  have close: "queue_on s s'" if "rm_close env msg (s\<lparr>rm_connection := b\<rparr>) = Some s'" for b msg
    by (rule queue_on_writes [OF assms(2) writes_on_trans [OF c rq.keeps_close [OF assms(1) that]]])
  show ?thesis using assms(3) close
      queue_on_trans [OF queue_on_writes [OF assms(2) c] login_writes [OF assms(1) ok]]
    by (auto simp: rm_handle_connect_def split: connect_reply.splits)
qed

lemma queue_step:
  assumes "rq.keeps env" "rmq_step env (Some s) (Some s')" "writes_ok [] s"
  shows "queue_on s s' \<or> writes_ok [] s' \<and> rm_max_wbuffer_size s' = rm_max_wbuffer_size s \<and> (\<exists>buf rest new. rm_queue s = buf # rest \<and> rm_queue s' = rest @ new \<and>
    (publishes s' = publishes s \<or> (\<exists>c. publishes s' = publishes s @ [publishing buf c])))"
  using assms(2)
proof cases
  case (user_call c)
  then show ?thesis using queue_on_writes [OF assms(3) rq.keeps_call [OF assms(1)]] by metis
next
  case (read_thread t ts an)
  have same: "writes_on s (s\<lparr>rm_read_thread := ts\<rparr>)" by (rule writes_on_same) (simp_all add: publishes_def)
  show ?thesis
  proof (cases "t = HandleConnect")
    case True
    then have "rm_handle_connect env (an_channels an) (an_connect an) (s\<lparr>rm_read_thread := ts\<rparr>) = Some s'"
      using read_thread(1) by simp
    from queue_on_trans [OF queue_on_writes [OF assms(3) same] connect_writes [OF assms(1) writes_on_ok [OF same assms(3)] this]]
    show ?thesis by blast
  next
    case False
    from writes_on_trans [OF same rq.keeps_task [OF assms(1) False]] read_thread(1)
    show ?thesis using queue_on_writes [OF assms(3)] by metis
  qed
next
  case (write_thread buf bufs an)
  then show ?thesis using write_thread_ok [OF assms(1,3), of buf bufs "an_publish an" s'] by (fastforce simp: rm_queue_def)
qed

lemma reach_writes:
  assumes "rq.keeps env" "(rmq_step env)\<^sup>*\<^sup>* (Some (new_rmq_session max_size)) x"
  shows "case x of None \<Rightarrow> True | Some s \<Rightarrow> writes_ok [] s \<and> rm_max_wbuffer_size s = max_size"
  using assms(2)
proof (induction rule: rtranclp_induct)
  case base
  then show ?case by (simp add: writes_ok_def rm_queue_def new_rmq_session_def)
next
  case (step y z)
  then obtain s where s: "y = Some s" by (auto elim: rmq_step.cases)
  show ?case using step queue_step [OF assms(1)] unfolding s queue_on_def by (fastforce split: option.splits)
qed

section \<open>The connection\<close>

definition init_only :: switch where
  "init_only = \<lparr>binit = True, bstart = False, bstop = False\<rparr>"

definition started :: switch where
  "started = \<lparr>binit = True, bstart = True, bstop = False\<rparr>"

lemmas sw_defs = init_only_def started_def switch_defs

text \<open>At most one attempt to connect waits, and while it does the session is neither started nor stopped.\<close>

definition conn_ok :: "rmq_session \<Rightarrow> bool" where
  "conn_ok s \<longleftrightarrow> (if HandleConnect \<in> set (rm_read_thread s)
     then rm_switch s = init_only \<and> count_list (rm_read_thread s) HandleConnect = 1
     else rm_switch s \<in> {new_switch, init_only, started})"

definition conn_on :: "rmq_session \<Rightarrow> rmq_session \<Rightarrow> bool" where
  "conn_on s s' \<longleftrightarrow> (conn_ok s \<longrightarrow> conn_ok s')"

lemma conn_same: "rm_read_thread s' = rm_read_thread s \<Longrightarrow> rm_switch s' = rm_switch s \<Longrightarrow> conn_on s s'"
  by (simp add: conn_on_def conn_ok_def)

lemma write_inner_same:
  "rm_read_thread (snd (rm_write_inner ch key msg opts s)) = rm_read_thread s"
  "rm_switch (snd (rm_write_inner ch key msg opts s)) = rm_switch s"
  "rm_connection (snd (rm_write_inner ch key msg opts s)) = rm_connection s"
  "rm_events (snd (rm_write_inner ch key msg opts s)) = rm_events s"
  by (simp_all add: rm_write_inner_def rm_async_write_inner_def Let_def)

lemma conn_connect: "conn_on s (rm_connect ci s)"
  by (auto simp: conn_on_def conn_ok_def rm_connect_def sw_defs count_list_0_iff split: if_splits)

lemma conn_closed:
  assumes "fst (as_stop (rm_switch s))" "rm_read_thread s' = rm_read_thread s"
    "rm_switch s' = as_reset (snd (as_stop (rm_switch s)))"
  shows "conn_on s s'"
  using assms by (auto simp: conn_on_def conn_ok_def sw_defs split: if_splits)

interpretation rc: rmq_relation conn_on
proof
  show "conn_on s u" if "conn_on s t" "conn_on t u" for s t u using that by (simp add: conn_on_def)
  show "conn_on s (rm_connect ci s)" for s ci by (rule conn_connect)
  show "conn_on s (s\<lparr>rm_read_thread := rm_read_thread s @ [k]\<rparr>)" if "k \<noteq> HandleConnect" for s k
    using that by (auto simp: conn_on_def conn_ok_def)
  show "conn_on s (s\<lparr>rm_calls := rm_calls s @ [ConnectionClose], rm_connection := False, rm_channels_switch := g,
      rm_switch := as_reset (snd (as_stop (rm_switch s))), rm_events := rm_events s @ [SessionClosed msg]\<rparr>)"
    if "fst (as_stop (rm_switch s))" for s g msg
    by (rule conn_closed [OF that]) simp_all
qed (rule conn_same; simp add: rm_set_sw_def write_inner_same)+

section \<open>After a failed attempt to connect\<close>

definition wedged :: "rmq_session \<Rightarrow> bool" where
  "wedged s \<longleftrightarrow> rm_switch s = init_only \<and> HandleConnect \<notin> set (rm_read_thread s)"

definition session_events :: "rmq_session \<Rightarrow> rmq_event list" where
  "session_events s = filter is_session_event (rm_events s)"

definition wedged_on :: "rmq_session \<Rightarrow> rmq_session \<Rightarrow> bool" where
  "wedged_on s s' \<longleftrightarrow> (wedged s \<longrightarrow> wedged s' \<and> session_events s' = session_events s)"

lemma wedged_same:
  "rm_read_thread s' = rm_read_thread s \<Longrightarrow> rm_switch s' = rm_switch s \<Longrightarrow> session_events s' = session_events s \<Longrightarrow>
     wedged_on s s'"
  by (simp add: wedged_on_def wedged_def)

interpretation rw: rmq_relation wedged_on
proof
  show "wedged_on s u" if "wedged_on s t" "wedged_on t u" for s t u using that by (simp add: wedged_on_def)
  show "wedged_on s (rm_connect ci s)" for s ci
    by (auto simp: wedged_on_def wedged_def rm_connect_def sw_defs)
  show "wedged_on s (s\<lparr>rm_read_thread := rm_read_thread s @ [k]\<rparr>)" if "k \<noteq> HandleConnect" for s k
    using that by (auto simp: wedged_on_def wedged_def session_events_def)
  show "wedged_on s (s\<lparr>rm_calls := rm_calls s @ [ConnectionClose], rm_connection := False, rm_channels_switch := g,
      rm_switch := as_reset (snd (as_stop (rm_switch s))), rm_events := rm_events s @ [SessionClosed msg]\<rparr>)"
    if "fst (as_stop (rm_switch s))" for s g msg
    using that by (auto simp: wedged_on_def wedged_def sw_defs)
qed (rule wedged_same; simp add: rm_set_sw_def write_inner_same session_events_def)+

section \<open>After the connection is gone\<close>

definition null_on :: "rmq_session \<Rightarrow> rmq_session \<Rightarrow> bool" where
  "null_on s s' \<longleftrightarrow> (\<not> rm_connection s \<longrightarrow> \<not> rm_connection s') \<and> (\<exists>ts. rm_read_thread s' = rm_read_thread s @ ts)"

interpretation rn: rmq_relation null_on
proof
  show "null_on s u" if "null_on s t" "null_on t u" for s t u using that by (auto simp: null_on_def)
qed (auto simp: null_on_def rm_connect_def split_beta Let_def rm_set_sw_def write_inner_same)

lemma close_not_started: "\<not> has_started (rm_switch s) \<Longrightarrow> rm_close env msg s = Some s"
  by (cases "rm_switch s") (auto simp: rm_close_def split_beta switch_defs)

lemma failed_connect:
  assumes "rm_switch s = init_only" "r \<noteq> LoginReply ReplyNormal"
  shows "rm_handle_connect env rs r s = Some (s\<lparr>rm_connection := (r \<noteq> NoConnection)\<rparr>)"
  using assms by (cases r) (auto simp: rm_handle_connect_def rm_handle_login_def close_not_started sw_defs)

lemma write_next_same:
  "rm_read_thread (rm_write_next buf s) = rm_read_thread s" "rm_switch (rm_write_next buf s) = rm_switch s"
  "rm_events (rm_write_next buf s) = rm_events s"
  by (simp_all add: rm_write_next_def rm_async_write_inner_def Let_def split: list.splits)

lemma conn_next: "conn_on s (rm_write_next buf s)"
  by (rule conn_same) (simp_all add: write_next_same)

lemma resume_write_same:
  "rm_resume_write s = Some s' \<Longrightarrow> rm_read_thread s' = rm_read_thread s \<and> rm_switch s' = rm_switch s"
  by (auto simp: rm_resume_write_def rm_async_write_inner_def split: if_splits list.splits)

lemma login_conn:
  assumes "rc.keeps env" "rm_switch s = init_only" "HandleConnect \<notin> set (rm_read_thread s)"
    "rm_handle_login env rs ReplyNormal s = Some s'"
  shows "conn_ok s'"
proof -
  let ?s = "s\<lparr>rm_switch := started\<rparr>"
  have "as_start (rm_switch s) = (True, started)" using assms(2) by (simp add: sw_defs)
  then obtain s1 s2 s3 need where
    1: "rm_event env Opened ?s = Some s1"
    and 2: "rm_open_channels env rs (rm_channels s1) (s1\<lparr>rm_channels_locked := True\<rparr>) = Some (need, s2)"
    and 3: "rm_resume_write (s2\<lparr>rm_channels_locked := False\<rparr>) = Some s3"
    and 4: "s' = (if need then rm_read s3 else s3)"
    using assms(4) by (auto simp: rm_handle_login_def split: bind_splits)
  have "conn_ok ?s" using assms(3) by (simp add: conn_ok_def)
  moreover have "conn_on ?s (?s\<lparr>rm_events := rm_events s @ [Opened]\<rparr>)" by (rule conn_same) simp_all
  ultimately have "conn_ok s1" using assms(1) 1 by (auto simp: rc.keeps_def rm_event_def conn_on_def)
  moreover have "conn_on s1 (s1\<lparr>rm_channels_locked := True\<rparr>)" by (rule conn_same) simp_all
  ultimately have "conn_ok s2" using rc.keeps_open_channels [OF assms(1) 2] by (simp add: conn_on_def)
  then have "conn_ok s3" using resume_write_same [OF 3] conn_same [of s3 s2] by (simp add: conn_on_def)
  then show ?thesis using 4 rc.keeps_read [of s3] by (simp add: conn_on_def)
qed

lemma conn_step:
  assumes "rc.keeps env" "rmq_step env (Some s) (Some s')" "conn_ok s"
  shows "conn_ok s'"
  using assms(2)
proof cases
  case (user_call c)
  then show ?thesis using rc.keeps_call [OF assms(1)] assms(3) by (metis conn_on_def)
next
  case (read_thread t ts an)
  let ?s = "s\<lparr>rm_read_thread := ts\<rparr>"
  show ?thesis
  proof (cases "t = HandleConnect")
    case True
    then have s: "rm_switch ?s = init_only" "HandleConnect \<notin> set (rm_read_thread ?s)"
      using assms(3) read_thread(2) by (simp_all add: conn_ok_def count_list_0_iff)
    show ?thesis
    proof (cases "an_connect an = LoginReply ReplyNormal")
      case ok: True
      have "conn_ok s'" if "rm_handle_login env rs ReplyNormal (?s\<lparr>rm_connection := True\<rparr>) = Some s'" for rs
        by (rule login_conn [OF assms(1) _ _ that]) (use s in simp_all)
      then show ?thesis using read_thread(1) True ok by (simp add: rm_handle_connect_def)
    next
      case False
      from failed_connect [OF s(1) this] show ?thesis using read_thread(1) True s by (auto simp: conn_ok_def)
    qed
  next
    case False
    then have "conn_ok ?s" using assms(3) read_thread(2) by (auto simp: conn_ok_def split: if_splits)
    then show ?thesis using rc.keeps_task [OF assms(1) False] read_thread(1) by (metis conn_on_def)
  qed
next
  case (write_thread buf bufs an)
  have c: "conn_on t (t\<lparr>rm_calls := cs\<rparr>)" "conn_on t (t\<lparr>rm_write_thread := bs\<rparr>)" for t cs bs
    by (rule conn_same; simp)+
  obtain s1 where "s' = rm_write_next buf s1" "conn_on (s\<lparr>rm_write_thread := bufs\<rparr>) s1"
    using rc.keeps_before_next [OF assms(1) write_thread(1) [symmetric]] rc.trans c(1) by metis
  then show ?thesis using c(2) conn_next assms(3) by (metis conn_on_def)
qed

lemma reach_conn:
  assumes "rc.keeps env" "(rmq_step env)\<^sup>*\<^sup>* (Some (new_rmq_session max_size)) x"
  shows "case x of None \<Rightarrow> True | Some s \<Rightarrow> conn_ok s"
  using assms(2)
proof (induction rule: rtranclp_induct)
  case base
  then show ?case by (simp add: conn_ok_def new_rmq_session_def)
next
  case (step y z)
  then obtain s where s: "y = Some s" by (auto elim: rmq_step.cases)
  show ?case using step conn_step [OF assms(1)] unfolding s by (fastforce split: option.splits)
qed

lemma wedged_step:
  assumes "rw.keeps env" "rmq_step env (Some s) (Some s')" "wedged s"
  shows "wedged s' \<and> session_events s' = session_events s"
  using assms(2)
proof cases
  case (user_call c)
  then show ?thesis using rw.keeps_call [OF assms(1)] assms(3) by (metis wedged_on_def)
next
  case (read_thread t ts an)
  then have "t \<noteq> HandleConnect" "wedged (s\<lparr>rm_read_thread := ts\<rparr>)" using assms(3) by (auto simp: wedged_def)
  then have "wedged s' \<and> session_events s' = session_events (s\<lparr>rm_read_thread := ts\<rparr>)"
    using rw.keeps_task [OF assms(1)] read_thread(1) by (metis wedged_on_def)
  then show ?thesis by (simp add: session_events_def)
next
  case (write_thread buf bufs an)
  have c: "wedged_on t (t\<lparr>rm_calls := cs\<rparr>)" "wedged_on t (t\<lparr>rm_write_thread := bs\<rparr>)" "wedged_on t (rm_write_next b t)"
    for t cs bs b
    by (rule wedged_same; simp add: session_events_def write_next_same)+
  obtain s1 where "s' = rm_write_next buf s1" "wedged_on (s\<lparr>rm_write_thread := bufs\<rparr>) s1"
    using rw.keeps_before_next [OF assms(1) write_thread(1) [symmetric]] rw.trans c(1) by metis
  then show ?thesis using c(2,3) assms(3) by (metis wedged_on_def)
qed

lemma wedged_reach:
  assumes "rw.keeps env" "(rmq_step env)\<^sup>*\<^sup>* (Some s) x" "wedged s"
  shows "case x of None \<Rightarrow> True | Some s' \<Rightarrow> wedged s' \<and> session_events s' = session_events s"
  using assms(2)
proof (induction rule: rtranclp_induct)
  case base
  then show ?case using assms(3) by simp
next
  case (step y z)
  then obtain t where t: "y = Some t" by (auto elim: rmq_step.cases)
  show ?case using step wedged_step [OF assms(1)] unfolding t by (fastforce split: option.splits)
qed

section \<open>A session\<close>

definition sample_exchange :: exchange_info where
  "sample_exchange = no_exchange\<lparr>ex_name := ''e'', ex_type := ''direct''\<rparr>"

definition sample_channel :: rmq_channel where
  "sample_channel = \<lparr>ch_rw_type = 1, ch_auto_ack = True, ch_exchange = sample_exchange, ch_queue = no_queue,
     ch_channel = \<lparr>prefetch_size = 0, prefetch_count = 0\<rparr>, ch_consumer = default_consumer, ch_routing_key = ''k''\<rparr>"

text \<open>A session with a channel that connects, one that is connected, and one with a message to write.\<close>

definition sample_connecting :: rmq_session where
  "sample_connecting = (new_rmq_session 8)\<lparr>rm_channels := [(1, sample_channel)], rm_channels_switch := [1 \<mapsto> new_switch],
     rm_switch := init_only, rm_read_thread := [HandleConnect]\<rparr>"

definition sample_connected :: rmq_session where
  "sample_connected = sample_connecting\<lparr>rm_read_thread := [], rm_connection := True, rm_switch := started,
     rm_channels_switch := [1 \<mapsto> started], rm_events := [Opened, ChannelOpened 1],
     rm_calls := [ChannelOpen 1, BasicQos 1 \<lparr>prefetch_size = 0, prefetch_count = 0\<rparr>, ExchangeDeclare 1 sample_exchange]\<rparr>"

definition sample_buf :: write_buf_info where
  "sample_buf = \<lparr>wi_channel_id = 1, wi_routing_key = ''x'', wi_data = [7, 8, 9], wi_retry_count = 0, wi_confirm = False,
     wi_mandatory = False, wi_immediate = False\<rparr>"

definition sample_writing :: rmq_session where
  "sample_writing = sample_connected\<lparr>rm_cur_wbuffer_size := 3, rm_cur_in_write := True, rm_write_thread := [sample_buf]\<rparr>"

definition sample_answers :: "connect_reply \<Rightarrow> amqp_answers" where
  "sample_answers r = \<lparr>an_connect = r, an_channels = (\<lambda>ch k. (True, ReplyNormal)),
     an_envelope = \<lparr>en_channel = 0, en_delivery_tag = 0, en_body = []\<rparr>, an_reply = ReplyNormal,
     an_publish = \<lparr>pa_status = StatusOk, pa_reply = ReplyNormal, pa_wait = StatusOk, pa_frame = AckFrame\<rparr>\<rparr>"

abbreviation quiet :: rmq_env where
  "quiet \<equiv> user (\<lambda>e. []) (\<lambda>e. []) 1"

lemmas sample_defs = sample_exchange_def sample_channel_def sample_connecting_def sample_connected_def sample_buf_def
  sample_writing_def sample_answers_def new_rmq_session_def no_exchange_def no_queue_def default_consumer_def

lemma rmq_sample_steps:
  "run_rmq_calls quiet [Create sample_exchange no_queue 1 ''k'' True 0,
     Connect (rm_connect_info (new_rmq_session 8))] (new_rmq_session 8) = Some sample_connecting"
  "run_rmq_task quiet (sample_answers (LoginReply ReplyNormal)) HandleConnect (sample_connecting\<lparr>rm_read_thread := []\<rparr>) =
     Some sample_connected"
  "run_rmq_call quiet (WriteKey 1 ''x'' [7, 8, 9] (False, False, False)) sample_connected = Some sample_writing"
  subgoal by (simp add: sample_defs rm_create_channel_inner_def contain_def exchange_read_write_def queue_read_write_def
      next_channel_id_def rm_insert_channel_def rm_set_sw_def rm_sw_def rm_connect_def sw_defs Let_def)
  subgoal by (simp add: sample_defs rm_handle_connect_def rm_handle_login_def sw_defs rm_event_def rm_handle_channel_def
      and_then_def rm_rpc_def amqp_def rm_check_connection_def rm_declare_exchange_def rm_declare_queue_def contain_def
      queue_read_write_def rw_read_def rm_channel_ready_def rm_set_sw_def rm_sw_def rm_resume_write_def Let_def)
  subgoal by (simp add: sample_defs rm_write_key_def rm_is_connecting_channel_def rm_write_inner_def
      rm_async_write_inner_def sw_defs Let_def)
  done

lemma run_calls_reach: "run_rmq_calls env cs s = Some s' \<Longrightarrow> (rmq_step env)\<^sup>*\<^sup>* (Some s) (Some s')"
proof (induction cs arbitrary: s)
  case (Cons c cs)
  then obtain s1 where s1: "run_rmq_call env c s = Some s1" "run_rmq_calls env cs s1 = Some s'" by (auto split: bind_splits)
  have "rmq_step env (Some s) (Some s1)" using rmq_step.user_call [of env s c] s1(1) by simp
  then show ?case using Cons.IH [OF s1(2)] by (rule converse_rtranclp_into_rtranclp)
qed simp

lemma rmq_sample_reach:
  "(rmq_step quiet)\<^sup>*\<^sup>* (Some (new_rmq_session 8)) (Some sample_connecting)"
  "(rmq_step quiet)\<^sup>*\<^sup>* (Some (new_rmq_session 8)) (Some sample_connected)"
  "(rmq_step quiet)\<^sup>*\<^sup>* (Some (new_rmq_session 8)) (Some sample_writing)"
proof -
  show 1: "(rmq_step quiet)\<^sup>*\<^sup>* (Some (new_rmq_session 8)) (Some sample_connecting)"
    by (rule run_calls_reach [OF rmq_sample_steps(1)])
  have "rm_read_thread sample_connecting = [HandleConnect]" by (simp add: sample_defs)
  from rmq_step.read_thread [of sample_connecting HandleConnect "[]" quiet, OF this] rmq_sample_steps(2)
  have "rmq_step quiet (Some sample_connecting) (Some sample_connected)" by metis
  with 1 show 2: "(rmq_step quiet)\<^sup>*\<^sup>* (Some (new_rmq_session 8)) (Some sample_connected)"
    by (rule rtranclp.rtrancl_into_rtrancl)
  from rmq_step.user_call [of quiet sample_connected] rmq_sample_steps(3)
  have "rmq_step quiet (Some sample_connected) (Some sample_writing)" by metis
  with 2 show "(rmq_step quiet)\<^sup>*\<^sup>* (Some (new_rmq_session 8)) (Some sample_writing)"
    by (rule rtranclp.rtrancl_into_rtrancl)
qed

lemma map_of_insort: "map_of xs k = None \<Longrightarrow> map_of (insort_key fst (k, v) xs) = (map_of xs)(k \<mapsto> v)"
  by (induction xs) (auto simp: fun_eq_iff split: if_splits)

section \<open>Properties\<close>

text \<open>C28: The write side of the session of RabbitMQ is a queue. In every reachable state, whatever the
  users call, in callbacks too, and whatever the library answers, the size accounted for is that of the
  messages that wait, it does not exceed the bound given to the constructor, and messages wait only
  behind one the write thread has. Every step either appends messages to the queue and publishes
  nothing, or takes the first message off it and publishes at most that one, so messages are published
  in the order in which they were accepted, each at most once.\<close>

theorem rmq_write_order:
  assumes "(rmq_step (user es f n))\<^sup>*\<^sup>* (Some (new_rmq_session max_size)) (Some s)"
  shows "rm_cur_wbuffer_size s = pending_bytes (rm_queue s) \<and> (0 < max_size \<longrightarrow> rm_cur_wbuffer_size s \<le> max_size) \<and>
    (if rm_cur_in_write s then rm_write_thread s \<noteq> [] else rm_write_buf s = []) \<and>
    (\<forall>s'. rmq_step (user es f n) (Some s) (Some s') \<longrightarrow>
       (\<exists>new. rm_queue s' = rm_queue s @ new) \<and> publishes s' = publishes s \<or>
       (\<exists>buf rest new. rm_queue s = buf # rest \<and> rm_queue s' = rest @ new \<and>
          (publishes s' = publishes s \<or> (\<exists>c. publishes s' = publishes s @ [publishing buf c]))))"
proof -
  have ok: "writes_ok [] s" "rm_max_wbuffer_size s = max_size" using reach_writes [OF rq.keeps_user assms] by simp_all
  have step: "(\<exists>new. rm_queue s' = rm_queue s @ new) \<and> publishes s' = publishes s \<or>
       (\<exists>buf rest new. rm_queue s = buf # rest \<and> rm_queue s' = rest @ new \<and>
          (publishes s' = publishes s \<or> (\<exists>c. publishes s' = publishes s @ [publishing buf c])))"
    if "rmq_step (user es f n) (Some s) (Some s')" for s'
    using queue_step [OF rq.keeps_user that ok(1)] unfolding queue_on_def by blast
  have "rm_cur_wbuffer_size s = pending_bytes (rm_queue s)" "0 < max_size \<longrightarrow> rm_cur_wbuffer_size s \<le> max_size"
    "if rm_cur_in_write s then rm_write_thread s \<noteq> [] else rm_write_buf s = []"
    using ok(1) unfolding writes_ok_def ok(2) append_Nil by blast+
  then show ?thesis using step by blast
qed

theorem rmq_write_order_witness:
  "rm_cur_wbuffer_size sample_writing = 3 \<and> rm_queue sample_writing = [sample_buf] \<and> 0 < (8::nat) \<and>
   rm_cur_wbuffer_size sample_writing \<le> 8"
  using rmq_write_order [OF rmq_sample_reach(3) [unfolded One_nat_def]] by (simp add: sample_writing_def rm_queue_def pending_bytes_def sample_defs)

text \<open>The key a message was given is not looked at: the channel's own key is published.\<close>

theorem rmq_key_ignored:
  "rm_handle_write env pa (buf\<lparr>wi_routing_key := key\<rparr>) s = rm_handle_write env pa buf s"
proof -
  let ?b = "buf\<lparr>wi_routing_key := key\<rparr>"
  have b: "wi_channel_id ?b = wi_channel_id buf" "wi_data ?b = wi_data buf" "wi_confirm ?b = wi_confirm buf"
    "wi_mandatory ?b = wi_mandatory buf" "wi_immediate ?b = wi_immediate buf" by simp_all
  show ?thesis
    unfolding rm_handle_write_def rm_publish_def publishing_def rm_published_def rm_write_next_def b by (rule HOL.refl)
qed

text \<open>A login while a message is being written and none waits behind it takes one off the empty queue.\<close>

theorem rmq_login_while_writing:
  assumes "rm_switch s = init_only" "rm_channels s = []" "f Opened = []" "rm_cur_in_write s" "rm_write_buf s = []"
  shows "rm_handle_login (user es f (Suc n)) rs ReplyNormal s = None"
  using assms by (simp add: rm_handle_login_def sw_defs rm_event_def resume_write_None)


text \<open>C29: A failed attempt to connect is the end of the session of RabbitMQ. When the first task of the read thread
  of a reachable session is the attempt to connect, and the connection, the socket or the login fails,
  no callback is called, as close does nothing before the session has started. From then on, whatever
  users and threads do, the session is neither opened nor closed, connect and shutdown have no effect
  and every write is refused, by the overload with a routing key and by the one that takes the channel's
  own key, whose guard comes before the lookup of the key: the switch is left initialised and nothing
  resets it. Calls and tasks of the two threads are taken to run one at a time.\<close>

theorem rmq_connect_failed:
  assumes "(rmq_step (user es f n))\<^sup>*\<^sup>* (Some (new_rmq_session max_size)) (Some s)"
    and "rm_read_thread s = HandleConnect # ts" and "an_connect an \<noteq> LoginReply ReplyNormal"
  shows "\<exists>s1. run_rmq_task (user es f n) an HandleConnect (s\<lparr>rm_read_thread := ts\<rparr>) = Some s1 \<and> rm_events s1 = rm_events s \<and>
    (\<forall>s2. (rmq_step (user es f n))\<^sup>*\<^sup>* (Some s1) (Some s2) \<longrightarrow>
       session_events s2 = session_events s \<and> HandleConnect \<notin> set (rm_read_thread s2) \<and> rm_connect ci s2 = s2 \<and>
       rm_shutdown (user es f n) s2 = Some s2 \<and> rm_write_key ch key msg opts s2 = (False, s2) \<and>
       rm_write_default ch msg opts s2 = Some (False, s2))"
proof -
  have "conn_ok s" using reach_conn [OF rc.keeps_user assms(1)] by simp
  then have w: "rm_switch s = init_only" "HandleConnect \<notin> set ts"
    using assms(2) by (simp_all add: conn_ok_def count_list_0_iff)
  let ?s = "s\<lparr>rm_read_thread := ts, rm_connection := (an_connect an \<noteq> NoConnection)\<rparr>"
  have "run_rmq_task (user es f n) an HandleConnect (s\<lparr>rm_read_thread := ts\<rparr>) = Some ?s"
    using failed_connect [OF _ assms(3), of "s\<lparr>rm_read_thread := ts\<rparr>"] w(1) by simp
  moreover have "session_events s2 = session_events s \<and> HandleConnect \<notin> set (rm_read_thread s2) \<and>
      rm_connect ci s2 = s2 \<and> rm_shutdown (user es f n) s2 = Some s2 \<and> rm_write_key ch key msg opts s2 = (False, s2) \<and>
      rm_write_default ch msg opts s2 = Some (False, s2)"
    if "(rmq_step (user es f n))\<^sup>*\<^sup>* (Some ?s) (Some s2)" for s2
  proof -
    have "wedged ?s" using w by (simp add: wedged_def)
    from wedged_reach [OF rw.keeps_user that this]
    have s2: "rm_switch s2 = init_only" "HandleConnect \<notin> set (rm_read_thread s2)" "session_events s2 = session_events ?s"
      by (simp_all add: wedged_def)
    moreover have "\<not> has_started init_only" "as_init init_only = (False, init_only)" by (simp_all add: sw_defs)
    ultimately show ?thesis
      by (simp add: session_events_def rm_connect_def rm_shutdown_def close_not_started rm_write_key_def
          rm_write_default_def rm_is_connecting_channel_def split: option.splits)
  qed
  ultimately show ?thesis by (intro exI [of _ ?s]) simp
qed

theorem rmq_connect_failed_witness:
  "\<exists>s1. run_rmq_task quiet (sample_answers NoConnection) HandleConnect (sample_connecting\<lparr>rm_read_thread := []\<rparr>) = Some s1 \<and>
     rm_events s1 = [] \<and> rm_reconnect s1 = s1 \<and> rm_write_default 1 [7] (False, False, False) s1 = Some (False, s1)"
proof -
  have "rm_read_thread sample_connecting = [HandleConnect]" "an_connect (sample_answers NoConnection) \<noteq> LoginReply ReplyNormal"
    "rm_events sample_connecting = []"
    by (simp_all add: sample_defs)
  then show ?thesis
    using rmq_connect_failed [OF rmq_sample_reach(1), of "[]" "sample_answers NoConnection" "rm_connect_info s" _ _ "[7]" for s]
    unfolding rm_reconnect_def by (metis rtranclp.rtrancl_refl)
qed


lemma close_null:
  assumes "rn.keeps env" "has_started (rm_switch s)" "rm_close env msg s = Some s'"
  shows "\<not> rm_connection s' \<and> (\<exists>ts. rm_read_thread s' = rm_read_thread s @ ts)"
proof -
  have k: "null_on t s'" if "on_event env e t = Some s'" for e t using assms(1) that by (auto simp: rn.keeps_def)
  have "fst (as_stop (rm_switch s))" using assms(2) by (simp add: switch_defs)
  then show ?thesis using assms(3)
    by (auto simp: rm_close_def split_beta Let_def amqp_def rm_event_def null_on_def split: if_splits dest!: k)
qed

text \<open>C30: A session of RabbitMQ that reads cannot be shut down. shutdown ends the connection at once, from the user's
  thread, while the read thread still has its next read to do: whatever the callbacks and the user do
  afterwards, reconnecting included, that read runs first, with a null connection, which is undefined.\<close>

theorem rmq_shutdown_reader:
  assumes "has_started (rm_switch s)" "rm_read_thread s = HandleRead # ts"
    and "run_rmq_calls (user es f n) (Shutdown # cs) s = Some s'"
  shows "\<exists>ts'. rm_read_thread s' = HandleRead # ts' \<and>
    run_rmq_task (user es f n) an HandleRead (s'\<lparr>rm_read_thread := ts'\<rparr>) = None"
proof -
  obtain s1 where 1: "rm_close (user es f n) ''shutdown'' s = Some s1" and 2: "run_rmq_calls (user es f n) cs s1 = Some s'"
    using assms(3) by (auto simp: rm_shutdown_def split: bind_splits)
  have "\<not> rm_connection s1 \<and> (\<exists>ts. rm_read_thread s1 = rm_read_thread s @ ts)"
    by (rule close_null [OF rn.keeps_user assms(1) 1])
  then have "\<not> rm_connection s' \<and> (\<exists>ts'. rm_read_thread s' = HandleRead # ts')"
    using rn.keeps_calls [OF rn.keeps_user 2] assms(2) by (auto simp: null_on_def)
  then show ?thesis by (auto simp: rm_handle_read_def)
qed

theorem rmq_shutdown_reader_witness:
  "\<exists>s' ts'. run_rmq_calls quiet [Shutdown, Reconnect] (sample_connected\<lparr>rm_read_thread := [HandleRead]\<rparr>) = Some s' \<and>
     rm_read_thread s' = HandleRead # ts' \<and>
     run_rmq_task quiet (sample_answers NoSocket) HandleRead (s'\<lparr>rm_read_thread := ts'\<rparr>) = None"
proof -
  let ?s = "sample_connected\<lparr>rm_read_thread := [HandleRead]\<rparr>"
  have "run_rmq_calls quiet [Shutdown, Reconnect] ?s \<noteq> None"
    by (simp add: rm_shutdown_def rm_close_def sample_defs sw_defs amqp_def rm_event_def Let_def)
  then obtain s' where s': "run_rmq_calls quiet [Shutdown, Reconnect] ?s = Some s'" by blast
  have "has_started (rm_switch ?s)" "rm_read_thread ?s = [HandleRead]" by (simp_all add: sample_connected_def sw_defs)
  from rmq_shutdown_reader [OF this s', of "sample_answers NoSocket"] s' show ?thesis by blast
qed


text \<open>Callbacks that handle_login runs deadlock when they use the channels. It holds the mutex of the channels while it
  opens them: when the first channel fails to open and the callback reconnects the channel, as the
  example in the header does, or when it opens and the callback writes with the channel's own
  routing key, the call waits for that mutex for ever.\<close>

theorem rmq_login_deadlock:
  assumes "rm_switch s = init_only" "rm_connection s" "rm_channels s = (ch, c) # cs" "rm_sw ch s = new_switch" "f Opened = []"
  shows "fst (rs ch 0) = False \<and> f (ChannelClosed ch ''open channel fail'') = ReconnectChannel ch' # calls \<longrightarrow>
      rm_handle_login (user es f (Suc n)) rs ReplyNormal s = None"
    and "rs ch = (\<lambda>k. (True, ReplyNormal)) \<and> f (ChannelOpened ch) = Write ch msg opts # calls \<longrightarrow>
      rm_handle_login (user es f (Suc n)) rs ReplyNormal s = None"
proof -
  let ?e = "user es f (Suc n)"
  let ?s = "s\<lparr>rm_switch := started, rm_events := rm_events s @ [Opened], rm_channels_locked := True\<rparr>"
  have "as_start (rm_switch s) = (True, started)" using assms(1) by (simp add: sw_defs)
  moreover have "rm_event ?e Opened (s\<lparr>rm_switch := started\<rparr>) = Some (s\<lparr>rm_switch := started, rm_events := rm_events s @ [Opened]\<rparr>)"
    using assms(5) by (simp add: rm_event_def)
  ultimately have login: "rm_handle_login ?e rs ReplyNormal s = None" if "rm_handle_channel ?e (rs ch) ch c ?s = None"
    using that assms(3) by (simp add: rm_handle_login_def)
  have sw: "rm_sw ch ?s = new_switch" "rm_connection ?s" "rm_channels_locked ?s" using assms(2,4) by (simp_all add: rm_sw_def)
  show "fst (rs ch 0) = False \<and> f (ChannelClosed ch ''open channel fail'') = ReconnectChannel ch' # calls \<longrightarrow>
      rm_handle_login ?e rs ReplyNormal s = None"
  proof
    assume a: "fst (rs ch 0) = False \<and> f (ChannelClosed ch ''open channel fail'') = ReconnectChannel ch' # calls"
    have "rm_handle_channel ?e (rs ch) ch c ?s = None"
      using a sw by (simp add: rm_handle_channel_def and_then_def rm_rpc_def amqp_def rm_close_channel_def rm_event_def
          rm_reconnect_channel_def rm_get_channel_def sw_defs rm_set_sw_def rm_sw_def Let_def)
    then show "rm_handle_login ?e rs ReplyNormal s = None" by (rule login)
  qed
  show "rs ch = (\<lambda>k. (True, ReplyNormal)) \<and> f (ChannelOpened ch) = Write ch msg opts # calls \<longrightarrow>
      rm_handle_login ?e rs ReplyNormal s = None"
  proof
    assume a: "rs ch = (\<lambda>k. (True, ReplyNormal)) \<and> f (ChannelOpened ch) = Write ch msg opts # calls"
    have "rm_handle_channel ?e (rs ch) ch c ?s = None"
      using a sw by (simp add: rm_handle_channel_def and_then_def rm_rpc_def amqp_def rm_check_connection_def
          rm_declare_exchange_def rm_declare_queue_def rm_channel_ready_def rm_event_def rm_write_default_def
          rm_is_connecting_channel_def rm_get_routing_key_def sw_defs rm_set_sw_def rm_sw_def Let_def)
    then show "rm_handle_login ?e rs ReplyNormal s = None" by (rule login)
  qed
qed

theorem rmq_login_deadlock_witness:
  "rm_handle_login (user (\<lambda>e. []) (\<lambda>e. case e of ChannelClosed ch msg \<Rightarrow> [ReconnectChannel ch] | _ \<Rightarrow> []) 1)
     (\<lambda>ch k. (False, ReplyNormal)) ReplyNormal (sample_connecting\<lparr>rm_connection := True\<rparr>) = None"
proof -
  let ?s = "sample_connecting\<lparr>rm_connection := True\<rparr>"
  have "rm_switch ?s = init_only" "rm_connection ?s" "rm_channels ?s = [(1, sample_channel)]" "rm_sw 1 ?s = new_switch"
    by (simp_all add: sample_connecting_def rm_sw_def)
  from rmq_login_deadlock(1) [OF this, of "\<lambda>e. case e of ChannelClosed ch msg \<Rightarrow> [ReconnectChannel ch] | _ \<Rightarrow> []"
      "\<lambda>ch k. (False, ReplyNormal)" 1 "[]" "\<lambda>e. []" 0]
  show ?thesis by simp
qed

text \<open>The names that a mode asks for, one bit of it at a time.\<close>

definition mode_has :: "u32 \<Rightarrow> rw_bit \<Rightarrow> bool" where
  "mode_has rw b \<longleftrightarrow> rw AND rw_value b \<noteq> 0"

definition lacks_a_name :: "exchange_info \<Rightarrow> queue_info \<Rightarrow> u32 \<Rightarrow> bool" where
  "lacks_a_name ex qu rw \<longleftrightarrow>
     (mode_has rw ExchangeRead \<or> mode_has rw QueueWrite) \<and> ex_name ex = [] \<or>
     (mode_has rw QueueRead \<or> mode_has rw QueueWrite) \<and> qu_name qu = []"

lemma and_or_zero: "(w :: 'a::len word) AND (a OR b) = 0 \<longleftrightarrow> w AND a = 0 \<and> w AND b = 0"
  by (simp add: bit.conj_disj_distrib or_eq_0_iff)

lemma lacks_a_name_iff:
  "lacks_a_name ex qu rw \<longleftrightarrow>
     contain rw exchange_read_write \<and> ex_name ex = [] \<or> contain rw queue_read_write \<and> qu_name qu = []"
  by (auto simp: lacks_a_name_def mode_has_def contain_def exchange_read_write_def queue_read_write_def and_or_zero
      simp del: rw_value.simps)

lemma next_channel_id_valid: "next_channel_id n \<noteq> INVALID_CHANNEL_ID"
proof (cases "n + 1 = 0")
  case True
  have "n + 2 = (n + 1) + 1" by simp
  then have "n + 2 = 1" unfolding True by simp
  then have "n + 2 \<noteq> 0" by (metis one_neq_zero)
  then show ?thesis unfolding next_channel_id_def if_P [OF True] .
qed (simp add: next_channel_id_def)

lemma next_channel_id_neq: "next_channel_id n \<noteq> n"
proof -
  have "(1 :: 16 word) \<noteq> 0" "(2 :: 16 word) \<noteq> 0" by simp_all
  then show ?thesis by (simp add: next_channel_id_def del: zero_neq_one_class.one_neq_zero)
qed

lemma create_channel_free:
  assumes "\<not> lacks_a_name ex qu rw" "\<not> rm_channels_locked s" "map_of (rm_channels s) (next_channel_id n) = None"
  shows "\<exists>s'. rm_create_channel_inner ex qu rw key ack (n, s) = Some (next_channel_id n, next_channel_id n, s') \<and>
     rm_channels_switch s' (next_channel_id n) \<noteq> None \<and>
     map_of (rm_channels s') = (map_of (rm_channels s))(next_channel_id n \<mapsto>
       \<lparr>ch_rw_type = rw, ch_auto_ack = ack, ch_exchange = ex, ch_queue = qu, ch_channel = rm_default_channel s,
        ch_consumer = default_consumer, ch_routing_key = key\<rparr>)"
  using assms by (auto simp: lacks_a_name_iff rm_create_channel_inner_def rm_insert_channel_def rm_set_sw_def Let_def map_of_insort)

text \<open>C31: Which channels of RabbitMQ can be created. A channel is refused exactly when its mode has the bit for
  reading from an exchange or the one for writing to a queue and the exchange has no name, or when its
  mode has a bit of a queue and the queue has no name: the mask for exchanges holds the bit for writing
  to queues instead of the one for writing to exchanges. So a channel for a queue alone is refused in the
  default mode and for writing and not refused for reading, and one for an exchange alone is refused in
  the default mode and accepted for writing even without a name. When it is not refused, and the mutex
  of the channels is free, a channel gets the next id, never 0, and is added with its mode, its
  exchange, its queue and a switch of its own when that id is free; an id still in use after the counter
  has wrapped is refused and changes nothing else.\<close>

theorem rmq_create_channel:
  shows "(rm_create_channel_inner ex qu rw key ack (n, s) = Some (INVALID_CHANNEL_ID, n, s) \<longleftrightarrow> lacks_a_name ex qu rw) \<and>
      (\<not> lacks_a_name ex qu rw \<and> \<not> rm_channels_locked s \<longrightarrow>
        (if map_of (rm_channels s) (next_channel_id n) = None
         then \<exists>s'. rm_create_channel_inner ex qu rw key ack (n, s) = Some (next_channel_id n, next_channel_id n, s') \<and>
           rm_channels_switch s' (next_channel_id n) \<noteq> None \<and>
           map_of (rm_channels s') = (map_of (rm_channels s))(next_channel_id n \<mapsto>
             \<lparr>ch_rw_type = rw, ch_auto_ack = ack, ch_exchange = ex, ch_queue = qu, ch_channel = rm_default_channel s,
              ch_consumer = default_consumer, ch_routing_key = key\<rparr>)
         else rm_create_channel_inner ex qu rw key ack (n, s) = Some (INVALID_CHANNEL_ID, next_channel_id n, s))) \<and>
      next_channel_id n \<noteq> INVALID_CHANNEL_ID \<and>
      rm_create_queue_channel qu rw_read_write key ack (n, s) = Some (INVALID_CHANNEL_ID, n, s) \<and>
      rm_create_queue_channel qu (rw_value QueueWrite) key ack (n, s) = Some (INVALID_CHANNEL_ID, n, s) \<and>
      (qu_name qu \<noteq> [] \<longrightarrow>
        rm_create_queue_channel qu (rw_value QueueRead) key ack (n, s) \<noteq> Some (INVALID_CHANNEL_ID, n, s)) \<and>
      rm_create_exchange_channel ex rw_read_write key ack (n, s) = Some (INVALID_CHANNEL_ID, n, s) \<and>
      (\<not> rm_channels_locked s \<and> map_of (rm_channels s) (next_channel_id n) = None \<longrightarrow>
        (\<exists>s'. rm_create_exchange_channel no_exchange (rw_value ExchangeWrite) key ack (n, s) =
           Some (next_channel_id n, next_channel_id n, s')))"
proof -
  note modes = lacks_a_name_def mode_has_def rw_read_write_def rw_read_def rw_write_def no_exchange_def no_queue_def
  have refused: "rm_create_channel_inner ex qu rw key ack (n, s) = Some (INVALID_CHANNEL_ID, n, s) \<longleftrightarrow> lacks_a_name ex qu rw"
    for ex qu rw
    using next_channel_id_neq [of n]
    by (auto simp: lacks_a_name_iff rm_create_channel_inner_def rm_insert_channel_def Let_def split: bind_splits if_splits)
  have free: "if map_of (rm_channels s) (next_channel_id n) = None
      then \<exists>s'. rm_create_channel_inner ex qu rw key ack (n, s) = Some (next_channel_id n, next_channel_id n, s') \<and>
         rm_channels_switch s' (next_channel_id n) \<noteq> None \<and>
         map_of (rm_channels s') = (map_of (rm_channels s))(next_channel_id n \<mapsto>
           \<lparr>ch_rw_type = rw, ch_auto_ack = ack, ch_exchange = ex, ch_queue = qu, ch_channel = rm_default_channel s,
            ch_consumer = default_consumer, ch_routing_key = key\<rparr>)
      else rm_create_channel_inner ex qu rw key ack (n, s) = Some (INVALID_CHANNEL_ID, next_channel_id n, s)"
    if "\<not> lacks_a_name ex qu rw \<and> \<not> rm_channels_locked s"
    using that create_channel_free [of ex qu rw s n key ack]
    by (auto simp: lacks_a_name_iff rm_create_channel_inner_def rm_insert_channel_def Let_def)
  have 1: "lacks_a_name no_exchange qu rw_read_write" "lacks_a_name no_exchange qu (rw_value QueueWrite)"
    "qu_name qu \<noteq> [] \<Longrightarrow> \<not> lacks_a_name no_exchange qu (rw_value QueueRead)"
    "lacks_a_name ex no_queue rw_read_write" "\<not> lacks_a_name no_exchange no_queue (rw_value ExchangeWrite)"
    by (simp_all add: modes)
  show ?thesis
    unfolding rm_create_queue_channel_def rm_create_exchange_channel_def refused
    using 1 free next_channel_id_valid [of n] create_channel_free [OF 1(5), of s n key ack] by blast
qed

theorem rmq_create_channel_witness:
  "(\<exists>s'. rm_create_channel_inner sample_exchange (no_queue\<lparr>qu_name := ''q''\<rparr>) rw_read_write ''k'' True (65535, new_rmq_session 8) =
     Some (1, 1, s') \<and> map_of (rm_channels s') 1 \<noteq> None) \<and>
   (\<exists>s'. rm_create_channel_inner no_exchange (no_queue\<lparr>qu_name := ''q''\<rparr>) (rw_value QueueRead) ''k'' True (0, new_rmq_session 8) =
     Some (1, 1, s') \<and> map_of (rm_channels s') 1 \<noteq> None)"
proof
  have n: "next_channel_id 65535 = 1" "next_channel_id 0 = 1" by (simp_all add: next_channel_id_def)
  have q: "\<not> rm_channels_locked (new_rmq_session 8)" "map_of (rm_channels (new_rmq_session 8)) 1 = None"
    by (simp_all add: new_rmq_session_def)
  have "\<not> lacks_a_name sample_exchange (no_queue\<lparr>qu_name := ''q''\<rparr>) rw_read_write"
    by (simp add: lacks_a_name_def sample_exchange_def)
  with q rmq_create_channel [of sample_exchange "no_queue\<lparr>qu_name := ''q''\<rparr>" rw_read_write "''k''" True 65535 "new_rmq_session 8"]
  show "\<exists>s'. rm_create_channel_inner sample_exchange (no_queue\<lparr>qu_name := ''q''\<rparr>) rw_read_write ''k'' True (65535, new_rmq_session 8) =
     Some (1, 1, s') \<and> map_of (rm_channels s') 1 \<noteq> None"
    unfolding n by auto
  have "\<not> lacks_a_name no_exchange (no_queue\<lparr>qu_name := ''q''\<rparr>) (rw_value QueueRead)"
    by (simp add: lacks_a_name_def mode_has_def)
  with q rmq_create_channel [of no_exchange "no_queue\<lparr>qu_name := ''q''\<rparr>" "rw_value QueueRead" "''k''" True 0 "new_rmq_session 8"]
  show "\<exists>s'. rm_create_channel_inner no_exchange (no_queue\<lparr>qu_name := ''q''\<rparr>) (rw_value QueueRead) ''k'' True (0, new_rmq_session 8) =
     Some (1, 1, s') \<and> map_of (rm_channels s') 1 \<noteq> None"
    unfolding n by auto
qed

end
